(* ===== verification/Prelude.thy ===== *)
theory Prelude
  imports Main "HOL-Library.Word" "HOL-Library.Monad_Syntax"
begin

unbundle bit_operations_syntax

text \<open>
  Shared vocabulary of the development: the fixed-width types of
  \<^verbatim>\<open>hwutil/kernel/include/types.h\<close>, the error numbers of
  \<^verbatim>\<open>hwutil/kernel/include/errno.h\<close> that the kernel returns, the alignment macro of
  \<^verbatim>\<open>types.h\<close>/\<^verbatim>\<open>hwutil.h\<close> (at the alignment of the STM32F746G-DISCO and zedboard
  ports), and the generic lemmas on words and lists that the component theories share.

  Conventions used throughout.
  \<^item> A C object that the kernel reaches through a pointer lives in a typed store: a HOL
    function from addresses to the record that models the struct.
  \<^item> An operation that may run into undefined behaviour, into the endless loop of a failed
    \<^verbatim>\<open>ASSERT_KERNEL\<close>, or into a loop that never ends has an option result; \<open>None\<close> is
    ``does not return''.
  \<^item> A C \<^verbatim>\<open>int\<close> that is only ever a status code is an \<open>int\<close>.
\<close>

section \<open>Theorem collections\<close>

named_theorems kernel_simps
  \<open>unfolding rules for the small state updates of the kernel\<close>

named_theorems ring_laws
  \<open>what the linked-list operations do to a family of rings\<close>

section \<open>Types\<close>

type_synonym os_u8 = "8 word"
type_synonym os_u16 = "16 word"
type_synonym os_u32 = "32 word"
type_synonym os_u64 = "64 word"
type_synonym addr = "32 word"
type_synonym err_t = int

section \<open>Error numbers\<close>

definition EPERM :: int where "EPERM = 1"
definition EAGAIN :: int where "EAGAIN = 11"
definition ENOMEM :: int where "ENOMEM = 12"
definition EINVAL :: int where "EINVAL = 22"
definition EDEADLK :: int where "EDEADLK = 35"

lemmas errno_defs [kernel_simps] = EPERM_def EAGAIN_def ENOMEM_def EINVAL_def EDEADLK_def

section \<open>Alignment\<close>

definition HW_ALIGN_SIZE :: os_u32 where
  "HW_ALIGN_SIZE = 4"

definition ALIGN :: "os_u32 \<Rightarrow> os_u32" where
  "ALIGN sz = (sz + HW_ALIGN_SIZE - 1) AND NOT (HW_ALIGN_SIZE - 1)"

definition PHYS_ADDR_ALIGN :: "addr \<Rightarrow> bool" where
  "PHYS_ADDR_ALIGN a \<longleftrightarrow> ALIGN a = a"

section \<open>Words\<close>

lemma minus_4_eq_not_mask: "(- 4 :: 32 word) = NOT (mask 2)"
  by (simp add: mask_eq_exp_minus_1)

lemma and_not_mask_eq: "(x :: 'a :: len word) AND NOT (mask n) = push_bit n (drop_bit n x)"
  by (rule bit_word_eqI) (auto simp: bit_simps not_less)

lemma and_minus_4: "(x :: 32 word) AND - 4 = push_bit 2 (drop_bit 2 x)"
  unfolding minus_4_eq_not_mask by (rule and_not_mask_eq)

lemma unat_less_32: "unat (x :: 32 word) < 4294967296"
  using unsigned_less [of x, where 'a = nat] by simp

lemma unat_and_minus_4: "unat ((x :: 32 word) AND - 4) = unat x div 4 * 4"
proof -
  have "unat (push_bit 2 (drop_bit 2 x)) = take_bit 32 (push_bit 2 (unat x div 4))"
    by (simp add: unsigned_push_bit_eq drop_bit_eq_div unat_div_distrib)
  also have "\<dots> = unat x div 4 * 4"
    using unat_less_32 [of x] by (simp add: push_bit_eq_mult take_bit_nat_eq_self)
  finally show ?thesis by (simp add: and_minus_4)
qed

lemma unat_ALIGN: "unat x + 3 < 2 ^ 32 \<Longrightarrow> unat (ALIGN x) = (unat x + 3) div 4 * 4"
  by (simp add: ALIGN_def HW_ALIGN_SIZE_def unat_and_minus_4 unat_word_ariths)

lemma ALIGN_ge: "unat x + 3 < 2 ^ 32 \<Longrightarrow> unat x \<le> unat (ALIGN x)"
  by (simp add: unat_ALIGN)

lemma ALIGN_dvd: "unat x + 3 < 2 ^ 32 \<Longrightarrow> 4 dvd unat (ALIGN x)"
  by (simp add: unat_ALIGN)

lemma unat_minus_one_eq: "(x :: 'a :: len word) \<noteq> 0 \<Longrightarrow> unat (x - 1) = unat x - 1"
  by (simp add: unat_minus_one)

section \<open>Lists\<close>

lemma removeAll_id_conv: "x \<notin> set xs \<Longrightarrow> removeAll x xs = xs"
  by (rule removeAll_id)

lemma removeAll_split: "x \<notin> set as \<Longrightarrow> x \<notin> set bs \<Longrightarrow> removeAll x (as @ x # bs) = as @ bs"
  by simp

lemma hd_append_single: "hd (xs @ [y]) = (if xs = [] then y else hd xs)"
  by (cases xs) auto

lemma unat_plus_of_nat:
  fixes a :: addr
  assumes "unat a + n < 2 ^ 32"
  shows "unat (a + of_nat n) = unat a + n"
proof -
  have "unat (of_nat n :: addr) = n" using assms by (simp add: unat_of_nat)
  then show ?thesis using assms unat_plus_simple [of a "of_nat n"] by (simp add: unat_word_ariths)
qed

end
