(* ===== verification/Intrusive_List.thy ===== *)
theory Intrusive_List
  imports Prelude
begin

text \<open>
  The circular doubly linked list of \<^verbatim>\<open>hwutil/kernel/include/list.h\<close>, on which every
  queue of the kernel is built. The \<^verbatim>\<open>prev\<close> and \<^verbatim>\<open>next\<close> fields of all nodes form one
  pointer store; the operations are the C assignments in their order.

  A ring predicate relates a head to the list of the nodes linked behind it, and \<open>rings\<close> does so
  for a whole family of disjoint heads at once. The lemmas show that the pointer operations
  implement list operations on the family and leave every other ring alone (the frame). The
  locale \<open>queue_family\<close> is the interface the clients use; it is interpreted on the list.h
  operations at the end.
\<close>

section \<open>The pointer store and the operations of list.h\<close>

record 'n links =
  next_of :: "'n \<Rightarrow> 'n"
  prev_of :: "'n \<Rightarrow> 'n"

definition set_next :: "'n \<Rightarrow> 'n \<Rightarrow> 'n links \<Rightarrow> 'n links" where
  "set_next a b l = l\<lparr>next_of := (next_of l)(a := b)\<rparr>"

definition set_prev :: "'n \<Rightarrow> 'n \<Rightarrow> 'n links \<Rightarrow> 'n links" where
  "set_prev a b l = l\<lparr>prev_of := (prev_of l)(a := b)\<rparr>"

definition list_init :: "'n \<Rightarrow> 'n links \<Rightarrow> 'n links" where
  "list_init link l = (let l = set_prev link link l in set_next link link l)"

definition list_is_empty :: "'n \<Rightarrow> 'n links \<Rightarrow> bool" where
  "list_is_empty link l \<longleftrightarrow> next_of l link = link"

definition list_insert :: "'n \<Rightarrow> 'n \<Rightarrow> 'n \<Rightarrow> 'n links \<Rightarrow> 'n links" where
  "list_insert prev nxt node l =
     (let l = set_prev nxt node l;
          l = set_next node nxt l;
          l = set_prev node prev l
      in set_next prev node l)"

definition list_insert_head :: "'n \<Rightarrow> 'n \<Rightarrow> 'n links \<Rightarrow> 'n links" where
  "list_insert_head link node l = list_insert link (next_of l link) node l"

definition list_insert_tail :: "'n \<Rightarrow> 'n \<Rightarrow> 'n links \<Rightarrow> 'n links" where
  "list_insert_tail link node l = list_insert (prev_of l link) link node l"

definition list_remove_node :: "'n \<Rightarrow> 'n links \<Rightarrow> 'n links" where
  "list_remove_node node l =
     (let l = set_next (prev_of l node) (next_of l node) l
      in set_prev (next_of l node) (prev_of l node) l)"

text \<open>
  The iteration macros. \<open>list_walk\<close> gives the nodes a read-only \<^verbatim>\<open>LIST_FOR_EACH_ENTRY\<close>
  visits, from \<open>pos\<close> up to the head \<open>h\<close>. \<open>list_for_each_safe\<close> is
  \<^verbatim>\<open>LIST_FOR_EACH_ENTRY_SAFE\<close> over a state in which the body may relink the current node:
  the successor is read before the body runs. Both give \<open>None\<close> when the chain never
  comes back to the head.
\<close>

partial_function (option) list_walk :: "'n links \<Rightarrow> 'n \<Rightarrow> 'n \<Rightarrow> 'n list option" where
  "list_walk l h pos =
     (if pos = h then Some []
      else do { xs \<leftarrow> list_walk l h (next_of l pos); Some (pos # xs) })"

partial_function (option) list_for_each_safe ::
  "('s \<Rightarrow> 'n links) \<Rightarrow> ('n \<Rightarrow> 's \<Rightarrow> 's option) \<Rightarrow> 'n \<Rightarrow> 'n \<Rightarrow> 's \<Rightarrow> 's option" where
  "list_for_each_safe get body h pos s =
     (if pos = h then Some s
      else let n = next_of (get s) pos
           in do { s' \<leftarrow> body pos s; list_for_each_safe get body h n s' })"

text \<open>\<^verbatim>\<open>LIST_FOR_EACH_ENTRY\<close> with a body that changes the state: the successor is read after the body.\<close>

partial_function (option) list_for_each ::
  "('s \<Rightarrow> 'n links) \<Rightarrow> ('n \<Rightarrow> 's \<Rightarrow> 's option) \<Rightarrow> 'n \<Rightarrow> 'n \<Rightarrow> 's \<Rightarrow> 's option" where
  "list_for_each get body h pos s =
     (if pos = h then Some s
      else do { s' \<leftarrow> body pos s; list_for_each get body h (next_of (get s') pos) s' })"

text \<open>\<^verbatim>\<open>LIST_FOR_EACH_HEAD_NEXT\<close>: the first node again and again, until the list is empty.\<close>

partial_function (option) list_for_each_head ::
  "('s \<Rightarrow> 'n links) \<Rightarrow> ('n \<Rightarrow> 's \<Rightarrow> 's option) \<Rightarrow> 'n \<Rightarrow> 's \<Rightarrow> 's option" where
  "list_for_each_head get body h s =
     (if next_of (get s) h = h then Some s
      else do { s' \<leftarrow> body (next_of (get s) h) s; list_for_each_head get body h s' })"

lemmas link_ops =
  list_init_def list_insert_def list_insert_head_def list_insert_tail_def
  list_remove_node_def set_next_def set_prev_def

section \<open>Chains and rings\<close>

fun chain :: "'n links \<Rightarrow> 'n \<Rightarrow> 'n list \<Rightarrow> 'n \<Rightarrow> bool" where
  "chain l a [] b \<longleftrightarrow> next_of l a = b \<and> prev_of l b = a"
| "chain l a (x # xs) b \<longleftrightarrow> next_of l a = x \<and> prev_of l x = a \<and> chain l x xs b"

definition ring :: "'n links \<Rightarrow> 'n \<Rightarrow> 'n list \<Rightarrow> bool" where
  "ring l h xs \<longleftrightarrow> chain l h xs h \<and> distinct (h # xs)"

definition rings :: "'n links \<Rightarrow> 'n set \<Rightarrow> ('n \<Rightarrow> 'n list) \<Rightarrow> bool" where
  "rings l H q \<longleftrightarrow>
     (\<forall>h\<in>H. ring l h (q h) \<and> set (q h) \<inter> H = {}) \<and>
     (\<forall>h\<in>H. \<forall>k\<in>H. h \<noteq> k \<longrightarrow> set (q h) \<inter> set (q k) = {})"

definition queued :: "'n set \<Rightarrow> ('n \<Rightarrow> 'n list) \<Rightarrow> 'n set" where
  "queued H q = (\<Union>h\<in>H. set (q h))"

definition detached :: "'n links \<Rightarrow> 'n set \<Rightarrow> ('n \<Rightarrow> 'n list) \<Rightarrow> 'n \<Rightarrow> bool" where
  "detached l H q x \<longleftrightarrow> x \<notin> H \<and> x \<notin> queued H q \<and> next_of l x = x \<and> prev_of l x = x"

text \<open>The list operations that the pointer operations implement.\<close>

definition dequeue :: "'n \<Rightarrow> ('n \<Rightarrow> 'n list) \<Rightarrow> 'n \<Rightarrow> 'n list" where
  "dequeue x q = (\<lambda>h. removeAll x (q h))"

definition enqueue :: "'n \<Rightarrow> 'n \<Rightarrow> ('n \<Rightarrow> 'n list) \<Rightarrow> 'n \<Rightarrow> 'n list" where
  "enqueue h x q = q(h := q h @ [x])"

lemma chain_append: "chain l a (xs @ x # ys) b \<longleftrightarrow> chain l a xs x \<and> chain l x ys b"
  by (induction xs arbitrary: a) auto

lemma chain_cong:
  "(\<And>x. x \<in> set (a # xs) \<Longrightarrow> next_of l' x = next_of l x) \<Longrightarrow>
   (\<And>x. x \<in> set (xs @ [b]) \<Longrightarrow> prev_of l' x = prev_of l x) \<Longrightarrow>
   chain l' a xs b = chain l a xs b"
  by (induction xs arbitrary: a) auto

lemma chain_next: "chain l a xs b \<Longrightarrow> next_of l a = hd (xs @ [b])"
  by (cases xs) auto

lemma chain_prev: "chain l a xs b \<Longrightarrow> prev_of l b = last (a # xs)"
  by (induction xs arbitrary: a) auto

lemma chain_snoc: "chain l a (xs @ [x]) b \<longleftrightarrow> chain l a xs x \<and> next_of l x = b \<and> prev_of l b = x"
  by (simp add: chain_append)

lemma ring_unique: "ring l h xs \<Longrightarrow> ring l h ys \<Longrightarrow> xs = ys"
proof -
  have *: "chain l a xs h \<Longrightarrow> chain l a ys h \<Longrightarrow> h \<notin> set xs \<Longrightarrow> h \<notin> set ys \<Longrightarrow> xs = ys" for a
  proof (induction xs arbitrary: a ys)
    case Nil
    then show ?case by (cases ys) auto
  next
    case (Cons x xs)
    then show ?case by (cases ys) auto
  qed
  assume "ring l h xs" and "ring l h ys"
  then show ?thesis by (auto simp: ring_def intro: *)
qed

lemma ring_empty_iff: "ring l h xs \<Longrightarrow> list_is_empty h l \<longleftrightarrow> xs = []"
  by (cases xs) (auto simp: ring_def list_is_empty_def)

lemma ring_next: "ring l h xs \<Longrightarrow> next_of l h = hd (xs @ [h])"
  by (simp add: ring_def chain_next)

lemma ring_prev: "ring l h xs \<Longrightarrow> prev_of l h = last (h # xs)"
  unfolding ring_def using chain_prev by fastforce

lemma list_walk_chain:
  "chain l a xs h \<Longrightarrow> h \<notin> set xs \<Longrightarrow> list_walk l h (next_of l a) = Some xs"
proof (induction xs arbitrary: a)
  case Nil
  then show ?case by (simp add: list_walk.simps)
next
  case (Cons x xs)
  then have "list_walk l h (next_of l x) = Some xs" by simp
  with Cons.prems show ?case by (auto simp: list_walk.simps [of l h x])
qed

lemma list_walk_ring: "ring l h xs \<Longrightarrow> list_walk l h (next_of l h) = Some xs"
  by (auto simp: ring_def intro: list_walk_chain)

text \<open>
  A loop rule for the safe iteration: an invariant indexed by the nodes still to visit, which
  knows the successor of the next one, makes the loop return, with nothing left to visit.
\<close>

lemma list_for_each_safe_rule:
  assumes step: "\<And>x rest s. I (x # rest) s \<Longrightarrow>
      x \<noteq> h \<and> next_of (get s) x = hd (rest @ [h]) \<and> (\<exists>s'. body x s = Some s' \<and> I rest s')"
    and init: "I xs s"
  shows "\<exists>s'. list_for_each_safe get body h (hd (xs @ [h])) s = Some s' \<and> I [] s'"
  using init
proof (induction xs arbitrary: s)
  case Nil
  then show ?case by (simp add: list_for_each_safe.simps)
next
  case (Cons x xs)
  from step [OF Cons.prems] obtain s' where "x \<noteq> h" "next_of (get s) x = hd (xs @ [h])"
    "body x s = Some s'" "I xs s'"
    by auto
  with Cons.IH [of s'] show ?case
    by (simp add: list_for_each_safe.simps [of get body h x])
qed

text \<open>The plain iteration over a ring that the body leaves alone is a fold over its nodes.\<close>

primrec fold_option :: "('n \<Rightarrow> 's \<Rightarrow> 's option) \<Rightarrow> 'n list \<Rightarrow> 's \<Rightarrow> 's option" where
  "fold_option body [] s = Some s"
| "fold_option body (x # xs) s = do { s' \<leftarrow> body x s; fold_option body xs s' }"

lemma list_for_each_chain:
  assumes keep: "\<And>x s s'. body x s = Some s' \<Longrightarrow> get s' = get s"
  shows "chain (get s) a xs h \<Longrightarrow> h \<notin> set xs \<Longrightarrow>
     list_for_each get body h (next_of (get s) a) s = fold_option body xs s"
proof (induction xs arbitrary: a s)
  case Nil
  then show ?case by (simp add: list_for_each.simps)
next
  case (Cons x xs)
  show ?case
  proof (cases "body x s")
    case None
    then show ?thesis using Cons.prems by (auto simp: list_for_each.simps [of get body h x])
  next
    case (Some s')
    then have "get s' = get s" by (rule keep)
    then show ?thesis using Cons.IH [of s' x] Cons.prems Some
      by (auto simp: list_for_each.simps [of get body h x])
  qed
qed

lemma list_for_each_ring:
  assumes "\<And>x s s'. body x s = Some s' \<Longrightarrow> get s' = get s" and "ring (get s) h xs"
  shows "list_for_each get body h (next_of (get s) h) s = fold_option body xs s"
  using list_for_each_chain [where get = get, OF assms(1)] assms(2) by (simp add: ring_def)

section \<open>Removing a node\<close>

lemma list_remove_node_apply:
  "next_of (list_remove_node x l) = (next_of l)(prev_of l x := next_of l x)"
  "prev_of (list_remove_node x l) =
     (prev_of l)(next_of (set_next (prev_of l x) (next_of l x) l) x := prev_of l x)"
  by (simp_all add: list_remove_node_def set_next_def set_prev_def Let_def)

lemma chain_distinct_prev_next:
  assumes "chain l h (as @ x # bs) h" and "distinct (h # as @ x # bs)"
  shows "prev_of l x = last (h # as)" and "next_of l x = hd (bs @ [h])"
    and "prev_of l x \<noteq> x"
  using assms chain_prev [of l h as x] chain_next [of l x bs h]
  by (auto simp: chain_append)

lemma chain_last_upd:
  "chain l a xs b \<Longrightarrow> distinct (a # xs) \<Longrightarrow> next_of l' = (next_of l)(last (a # xs) := c) \<Longrightarrow>
   (\<And>y. y \<in> set xs \<Longrightarrow> prev_of l' y = prev_of l y) \<Longrightarrow> prev_of l' c = last (a # xs) \<Longrightarrow>
   chain l' a xs c"
proof (induction xs arbitrary: a)
  case Nil
  then show ?case by simp
next
  case (Cons x xs)
  have "a \<noteq> last (x # xs)" using Cons.prems(2) last_in_set [of "x # xs"] by auto
  with Cons.prems have "next_of l' a = x" by simp
  moreover have "chain l' x xs c"
    using Cons.prems by (intro Cons.IH) auto
  ultimately show ?case using Cons.prems(1,4) by auto
qed

lemma ring_remove:
  assumes r: "ring l h (as @ x # bs)"
  shows "ring (list_remove_node x l) h (as @ bs)"
proof -
  let ?l = "list_remove_node x l"
  from r have ch: "chain l h (as @ x # bs) h" and d: "distinct (h # as @ x # bs)"
    by (auto simp: ring_def)
  from ch have c1: "chain l h as x" and c2: "chain l x bs h" by (auto simp: chain_append)
  note pn = chain_distinct_prev_next [OF ch d]
  have n: "next_of ?l = (next_of l)(last (h # as) := hd (bs @ [h]))"
    by (simp only: list_remove_node_apply pn)
  have "next_of (set_next (prev_of l x) (next_of l x) l) x = next_of l x"
    using pn(3) by (simp add: set_next_def)
  then have p: "prev_of ?l = (prev_of l)(hd (bs @ [h]) := last (h # as))"
    by (simp only: list_remove_node_apply pn)
  have lh: "last (h # as) \<in> set (h # as)" by (rule last_in_set) simp
  have hd_notin: "hd (bs @ [h]) \<notin> set as" using d by (cases bs) auto
  have "chain ?l h as (hd (bs @ [h]))"
  proof (rule chain_last_upd [of l h as x])
    show "chain l h as x" by (rule c1)
    show "distinct (h # as)" using d by simp
    show "next_of ?l = (next_of l)(last (h # as) := hd (bs @ [h]))" by (rule n)
    show "prev_of ?l y = prev_of l y" if "y \<in> set as" for y
      using that hd_notin by (auto simp: p)
    show "prev_of ?l (hd (bs @ [h])) = last (h # as)" by (simp add: p)
  qed
  then show ?thesis
  proof (cases bs)
    case Nil
    with \<open>chain ?l h as (hd (bs @ [h]))\<close> d show ?thesis by (simp add: ring_def)
  next
    case (Cons b bs')
    have "chain l b bs' h" using c2 Cons by simp
    moreover have "next_of ?l y = next_of l y" if "y \<in> set (b # bs')" for y
    proof -
      have "y \<noteq> last (h # as)" using that d lh Cons by auto
      then show ?thesis by (simp add: n)
    qed
    moreover have "prev_of ?l y = prev_of l y" if "y \<in> set (bs' @ [h])" for y
      using that d Cons by (auto simp: p)
    ultimately have "chain ?l b bs' h"
      using chain_cong [of b bs' ?l l h] by blast
    with \<open>chain ?l h as (hd (bs @ [h]))\<close> Cons d show ?thesis
      by (simp add: ring_def chain_append)
  qed
qed

lemma ring_frame:
  assumes "ring l h xs"
    and "\<And>y. y \<in> set (h # xs) \<Longrightarrow> next_of l' y = next_of l y \<and> prev_of l' y = prev_of l y"
  shows "ring l' h xs"
  using assms chain_cong [of h xs l' l h] by (auto simp: ring_def)

section \<open>Inserting a node\<close>

lemma list_insert_apply:
  "next_of (list_insert a b x l) = (next_of l)(x := b, a := x)"
  "prev_of (list_insert a b x l) = (prev_of l)(b := x, x := a)"
  by (simp_all add: list_insert_def set_next_def set_prev_def Let_def)

lemma chain_split_at:
  "chain l h (as @ bs) k \<Longrightarrow>
   chain l h as (hd (bs @ [k])) \<and> (case bs of [] \<Rightarrow> True | b # bs' \<Rightarrow> chain l b bs' k)"
  by (cases bs) (auto simp: chain_append)

lemma ring_insert:
  assumes r: "ring l h (as @ bs)" and x: "x \<notin> set (h # as @ bs)"
  shows "ring (list_insert (last (h # as)) (hd (bs @ [h])) x l) h (as @ x # bs)"
proof -
  let ?a = "last (h # as)" and ?b = "hd (bs @ [h])"
  let ?l = "list_insert ?a ?b x l"
  from r have ch: "chain l h (as @ bs) h" and d: "distinct (h # as @ bs)"
    by (auto simp: ring_def)
  have a_in: "?a \<in> set (h # as)" by (rule last_in_set) simp
  have b_notin: "?b \<notin> set as" using d by (cases bs) auto
  have b_in: "?b \<in> set (bs @ [h])" by (rule hd_in_set) simp
  have xa: "x \<noteq> ?a" and xb: "x \<noteq> ?b" using x a_in b_in by auto
  from chain_split_at [OF ch]
  have c1: "chain l h as ?b" and c2: "case bs of [] \<Rightarrow> True | b # bs' \<Rightarrow> chain l b bs' h"
    by auto
  have "chain (set_next x ?b l) h as ?b"
    using c1 x by (subst chain_cong [of h as _ l]) (auto simp: set_next_def)
  then have A: "chain ?l h as x"
  proof (rule chain_last_upd)
    show "distinct (h # as)" using d by simp
    show "next_of ?l = (next_of (set_next x ?b l))(?a := x)"
      by (simp add: list_insert_apply set_next_def)
    show "prev_of ?l y = prev_of (set_next x ?b l) y" if "y \<in> set as" for y
      using that x b_notin by (auto simp: list_insert_apply set_next_def)
    show "prev_of ?l x = ?a" by (simp add: list_insert_apply)
  qed
  have nx: "next_of ?l x = ?b" using xa by (simp add: list_insert_apply)
  have pb: "prev_of ?l ?b = x" using xb by (simp add: list_insert_apply)
  have "chain ?l x bs h"
  proof (cases bs)
    case Nil
    then show ?thesis using nx pb by simp
  next
    case (Cons b bs')
    with c2 have "chain l b bs' h" by simp
    moreover have "next_of ?l y = next_of l y" if "y \<in> set (b # bs')" for y
    proof -
      have "y \<noteq> ?a" and "y \<noteq> x" using that d a_in x Cons by auto
      then show ?thesis by (simp add: list_insert_apply)
    qed
    moreover have "prev_of ?l y = prev_of l y" if "y \<in> set (bs' @ [h])" for y
      using that d x Cons by (auto simp: list_insert_apply)
    ultimately have "chain ?l b bs' h"
      using chain_cong [of b bs' ?l l h] by blast
    with nx pb Cons show ?thesis by simp
  qed
  with A x d show ?thesis by (auto simp: ring_def chain_append)
qed

lemma ring_insert_tail:
  "ring l h xs \<Longrightarrow> x \<notin> set (h # xs) \<Longrightarrow> ring (list_insert_tail h x l) h (xs @ [x])"
  using ring_insert [of l h xs "[]" x] by (simp add: list_insert_tail_def ring_prev)

lemma ring_insert_head:
  "ring l h xs \<Longrightarrow> x \<notin> set (h # xs) \<Longrightarrow> ring (list_insert_head h x l) h (x # xs)"
  using ring_insert [of l h "[]" xs x] by (simp add: list_insert_head_def ring_next)

section \<open>Families of rings\<close>

lemma ringsD:
  assumes "rings l H q" and "h \<in> H"
  shows "ring l h (q h)" and "set (q h) \<inter> H = {}" and "distinct (q h)" and "h \<notin> set (q h)"
  using assms by (auto simp: rings_def ring_def)

lemma rings_disjoint: "rings l H q \<Longrightarrow> h \<in> H \<Longrightarrow> k \<in> H \<Longrightarrow> x \<in> set (q h) \<Longrightarrow> x \<in> set (q k) \<Longrightarrow> h = k"
  unfolding rings_def by blast

lemma rings_queue_of:
  "rings l H q \<Longrightarrow> x \<in> queued H q \<Longrightarrow> \<exists>h\<in>H. x \<in> set (q h) \<and> (\<forall>k\<in>H. k \<noteq> h \<longrightarrow> x \<notin> set (q k))"
  by (auto simp: queued_def dest: rings_disjoint)

lemma queued_not_head: "rings l H q \<Longrightarrow> x \<in> queued H q \<Longrightarrow> x \<notin> H"
  by (auto simp: queued_def rings_def)

text \<open>Changing the links of one ring only.\<close>

lemma rings_update:
  assumes rs: "rings l H q" and h: "h \<in> H" and r: "ring l' h xs"
    and fresh: "\<And>y. y \<in> set xs \<Longrightarrow> y \<notin> H \<and> (\<forall>k\<in>H. k \<noteq> h \<longrightarrow> y \<notin> set (q k))"
    and frame: "\<And>y. y \<notin> set (h # q h) \<Longrightarrow> y \<notin> set xs \<Longrightarrow>
      next_of l' y = next_of l y \<and> prev_of l' y = prev_of l y"
  shows "rings l' H (q(h := xs))"
proof -
  have "ring l' k (q k)" if k: "k \<in> H" "k \<noteq> h" for k
  proof (rule ring_frame)
    show "ring l k (q k)" using rs k by (auto simp: rings_def)
    fix y assume y: "y \<in> set (k # q k)"
    show "next_of l' y = next_of l y \<and> prev_of l' y = prev_of l y"
    proof (rule frame)
      show "y \<notin> set (h # q h)"
        using y k h rs ringsD(2) [OF rs k(1)] ringsD(2) [OF rs h] rings_disjoint [OF rs h k(1)]
        by auto
      show "y \<notin> set xs" using y k fresh by auto
    qed
  qed
  moreover have "set xs \<inter> H = {}" using fresh by blast
  moreover have "set xs \<inter> set (q k) = {}" if "k \<in> H" "k \<noteq> h" for k
    using fresh that by blast
  ultimately show ?thesis
    using rs r h ringsD(2) [OF rs] rings_disjoint [OF rs] unfolding rings_def by simp blast
qed

lemma rings_cong: "(\<And>h. h \<in> H \<Longrightarrow> q h = q' h) \<Longrightarrow> rings l H q = rings l H q'"
  by (simp add: rings_def)

lemma rings_frame_detached:
  "rings l H q \<Longrightarrow> (\<And>y. y \<in> H \<union> queued H q \<Longrightarrow> next_of l' y = next_of l y \<and> prev_of l' y = prev_of l y) \<Longrightarrow>
   rings l' H q"
proof -
  assume rs: "rings l H q"
    and eq: "\<And>y. y \<in> H \<union> queued H q \<Longrightarrow> next_of l' y = next_of l y \<and> prev_of l' y = prev_of l y"
  have "ring l' h (q h)" if "h \<in> H" for h
  proof (rule ring_frame)
    show "ring l h (q h)" using rs that by (rule ringsD)
    show "next_of l' y = next_of l y \<and> prev_of l' y = prev_of l y" if "y \<in> set (h # q h)" for y
      using that \<open>h \<in> H\<close> by (intro eq) (auto simp: queued_def)
  qed
  then show ?thesis using rs by (simp add: rings_def)
qed

lemma rings_neighbours:
  assumes "rings l H q" and "h \<in> H" and "x \<in> set (q h)"
  shows "prev_of l x \<in> set (h # q h)" and "next_of l x \<in> set (h # q h)" and "prev_of l x \<noteq> x"
proof -
  from assms(3) obtain as bs where q: "q h = as @ x # bs" by (auto simp: in_set_conv_decomp)
  have c: "chain l h (as @ x # bs) h" "distinct (h # as @ x # bs)"
    using ringsD(1) [OF assms(1,2)] by (auto simp: ring_def q)
  note pn = chain_distinct_prev_next [OF c]
  show "prev_of l x \<in> set (h # q h)" using pn(1) last_in_set [of "h # as"] by (auto simp: q)
  show "next_of l x \<in> set (h # q h)" using pn(2) hd_in_set [of "bs @ [h]"] by (auto simp: q)
  show "prev_of l x \<noteq> x" by (rule pn(3))
qed

lemma rings_remove_local:
  assumes "rings l H q" and "h \<in> H" and "x \<in> set (q h)" and "y \<notin> set (h # q h)"
  shows "next_of (list_remove_node x l) y = next_of l y \<and> prev_of (list_remove_node x l) y = prev_of l y"
proof -
  note nb = rings_neighbours [OF assms(1-3)]
  have "next_of (set_next (prev_of l x) (next_of l x) l) x = next_of l x"
    using nb(3) by (simp add: set_next_def)
  with nb(1,2) assms(4) show ?thesis by (auto simp: list_remove_node_apply)
qed

lemma rings_remove_frame:
  assumes "rings l H q" and "x \<in> queued H q" and "y \<notin> H" and "y \<notin> queued H q"
  shows "next_of (list_remove_node x l) y = next_of l y \<and> prev_of (list_remove_node x l) y = prev_of l y"
proof -
  from assms(2) obtain h where h: "h \<in> H" "x \<in> set (q h)" by (auto simp: queued_def)
  show ?thesis by (rule rings_remove_local [OF assms(1) h]) (use assms(3,4) h in \<open>auto simp: queued_def\<close>)
qed

lemma rings_remove [ring_laws]:
  assumes rs: "rings l H q" and x: "x \<in> queued H q"
  shows "rings (list_remove_node x l) H (dequeue x q)"
proof -
  from rings_queue_of [OF rs x] obtain h where h: "h \<in> H" "x \<in> set (q h)"
    and others: "\<And>k. k \<in> H \<Longrightarrow> k \<noteq> h \<Longrightarrow> x \<notin> set (q k)" by auto
  from h(2) obtain as bs where q: "q h = as @ x # bs" by (auto simp: in_set_conv_decomp)
  note R = ringsD [OF rs h(1)]
  have d: "distinct (h # as @ x # bs)" using R by (auto simp: ring_def q)
  have "rings (list_remove_node x l) H (q(h := as @ bs))"
  proof (rule rings_update [OF rs h(1)])
    show "ring (list_remove_node x l) h (as @ bs)"
      using R(1) by (simp add: q ring_remove)
    show "y \<notin> H \<and> (\<forall>k\<in>H. k \<noteq> h \<longrightarrow> y \<notin> set (q k))" if "y \<in> set (as @ bs)" for y
      using that R(2) rings_disjoint [OF rs h(1)] by (auto simp: q)
  qed (use rings_remove_local [OF rs h] in blast)
  moreover have "dequeue x q k = (q(h := as @ bs)) k" if "k \<in> H" for k
    using others [OF that] d by (auto simp: dequeue_def q)
  ultimately show ?thesis using rings_cong by blast
qed

lemma remove_detached_id: "detached l H q x \<Longrightarrow> list_remove_node x l = l"
  by (auto simp: detached_def link_ops Let_def fun_upd_idem)

lemma rings_remove_detached [ring_laws]:
  assumes "rings l H q" and "detached l H q x"
  shows "rings (list_remove_node x l) H (dequeue x q)"
proof -
  have "list_remove_node x l = l"
    using assms(2) by (rule remove_detached_id)
  moreover have "dequeue x q k = q k" if "k \<in> H" for k
    using assms(2) that by (auto simp: detached_def dequeue_def queued_def)
  ultimately show ?thesis using assms(1) rings_cong by metis
qed

lemma rings_insert_tail [ring_laws]:
  assumes rs: "rings l H q" and h: "h \<in> H" and x: "x \<notin> H" "x \<notin> queued H q"
  shows "rings (list_insert_tail h x l) H (enqueue h x q)"
  unfolding enqueue_def
proof (rule rings_update [OF rs h])
  note R = ringsD [OF rs h]
  have xq: "x \<notin> set (q k)" if "k \<in> H" for k using x(2) that by (auto simp: queued_def)
  have xh: "x \<notin> set (h # q h)" using x(1) h xq by auto
  show "ring (list_insert_tail h x l) h (q h @ [x])"
    using R(1) xh by (rule ring_insert_tail)
  show "y \<notin> H \<and> (\<forall>k\<in>H. k \<noteq> h \<longrightarrow> y \<notin> set (q k))" if "y \<in> set (q h @ [x])" for y
    using that R(2) x(1) xq rings_disjoint [OF rs h] by auto
  have "prev_of l h \<in> set (h # q h)"
    using ring_prev [OF R(1)] last_in_set [of "h # q h"] by simp
  then show "next_of (list_insert_tail h x l) y = next_of l y \<and>
      prev_of (list_insert_tail h x l) y = prev_of l y"
    if "y \<notin> set (h # q h)" "y \<notin> set (q h @ [x])" for y
    using that by (auto simp: list_insert_tail_def list_insert_apply)
qed

lemma rings_insert_frame:
  assumes "rings l H q" and "h \<in> H" and "y \<notin> H" and "y \<notin> queued H q" and "y \<noteq> x"
  shows "next_of (list_insert_tail h x l) y = next_of l y \<and> prev_of (list_insert_tail h x l) y = prev_of l y"
proof -
  have "prev_of l h \<in> set (h # q h)"
    using ring_prev [OF ringsD(1) [OF assms(1,2)]] last_in_set [of "h # q h"] by simp
  then have "y \<noteq> prev_of l h" "y \<noteq> h" using assms(2-4) by (auto simp: queued_def)
  then show ?thesis using assms(5) by (simp add: list_insert_tail_def list_insert_apply)
qed

lemma list_init_apply:
  "next_of (list_init x l) = (next_of l)(x := x)" "prev_of (list_init x l) = (prev_of l)(x := x)"
  by (simp_all add: list_init_def set_next_def set_prev_def Let_def)

lemma rings_init_node [ring_laws]:
  assumes "rings l H q" and "x \<notin> H" and "x \<notin> queued H q"
  shows "rings (list_init x l) H q" and "detached (list_init x l) H q x"
  using assms by (auto intro!: rings_frame_detached [of l] simp: list_init_apply detached_def)

lemma rings_init_head [ring_laws]:
  assumes "rings l H q" and "h \<notin> H" and "h \<notin> queued H q"
  shows "rings (list_init h l) (insert h H) (q(h := []))"
proof -
  have "rings (list_init h l) H q" using assms by (rule rings_init_node)
  moreover have "ring (list_init h l) h []" by (simp add: ring_def list_init_apply)
  ultimately show ?thesis using assms by (auto simp: rings_def queued_def)
qed

lemma dequeue_mem [simp]: "y \<in> set (dequeue x q h) \<longleftrightarrow> y \<in> set (q h) \<and> y \<noteq> x"
  by (auto simp: dequeue_def)

lemma enqueue_mem: "y \<in> set (enqueue h x q k) \<longleftrightarrow> y \<in> set (q k) \<or> (k = h \<and> y = x)"
  by (auto simp: enqueue_def)

lemma enqueue_same [simp]: "enqueue h x q h = q h @ [x]"
  by (simp add: enqueue_def)

lemma enqueue_other [simp]: "k \<noteq> h \<Longrightarrow> enqueue h x q k = q k"
  by (simp add: enqueue_def)

lemma queued_dequeue [simp]: "queued H (dequeue x q) = queued H q - {x}"
  by (auto simp: queued_def)

lemma queued_enqueue [simp]: "h \<in> H \<Longrightarrow> queued H (enqueue h x q) = insert x (queued H q)"
  by (auto simp: queued_def enqueue_mem)

lemma dequeue_id: "x \<notin> set (q h) \<Longrightarrow> dequeue x q h = q h"
  by (simp add: dequeue_def)

lemma detached_remove:
  assumes "rings l H q" and "detached l H q y" and "x \<in> queued H q"
  shows "detached (list_remove_node x l) H (dequeue x q) y"
  using assms rings_remove_frame [OF assms(1,3)] by (auto simp: detached_def)

lemma detached_insert:
  assumes "rings l H q" and "detached l H q y" and "h \<in> H" and "y \<noteq> x"
  shows "detached (list_insert_tail h x l) H (enqueue h x q) y"
  using assms rings_insert_frame [OF assms(1,3)] by (auto simp: detached_def queued_def enqueue_mem)

section \<open>The interface of the kernel's queues\<close>

text \<open>
  What the scheduler, the mutexes and the semaphores rely on. A store \<open>l\<close> holds a family of
  queues, one per head in \<open>H\<close>, whose contents are \<open>q\<close>; a node is in at most one queue.
\<close>

locale queue_family =
  fixes inv :: "'l \<Rightarrow> 'n set \<Rightarrow> ('n \<Rightarrow> 'n list) \<Rightarrow> bool"
    and loose :: "'l \<Rightarrow> 'n set \<Rightarrow> ('n \<Rightarrow> 'n list) \<Rightarrow> 'n \<Rightarrow> bool"
    and is_empty :: "'n \<Rightarrow> 'l \<Rightarrow> bool"
    and first :: "'n \<Rightarrow> 'l \<Rightarrow> 'n"
    and remove :: "'n \<Rightarrow> 'l \<Rightarrow> 'l"
    and insert_tail :: "'n \<Rightarrow> 'n \<Rightarrow> 'l \<Rightarrow> 'l"
  assumes empty_law: "inv l H q \<Longrightarrow> h \<in> H \<Longrightarrow> is_empty h l \<longleftrightarrow> q h = []"
    and first_law: "inv l H q \<Longrightarrow> h \<in> H \<Longrightarrow> first h l = hd (q h @ [h])"
    and remove_law: "inv l H q \<Longrightarrow> x \<in> queued H q \<or> loose l H q x \<Longrightarrow>
      inv (remove x l) H (dequeue x q)"
    and insert_law: "inv l H q \<Longrightarrow> h \<in> H \<Longrightarrow> x \<notin> H \<Longrightarrow> x \<notin> queued H q \<Longrightarrow>
      inv (insert_tail h x l) H (enqueue h x q)"
    and not_head: "inv l H q \<Longrightarrow> x \<in> queued H q \<or> loose l H q x \<Longrightarrow> x \<notin> H"
    and unique: "inv l H q \<Longrightarrow> h \<in> H \<Longrightarrow> k \<in> H \<Longrightarrow> x \<in> set (q h) \<Longrightarrow> x \<in> set (q k) \<Longrightarrow> h = k"
    and loose_remove: "inv l H q \<Longrightarrow> loose l H q y \<Longrightarrow> x \<in> queued H q \<Longrightarrow>
      loose (remove x l) H (dequeue x q) y"
    and loose_insert: "inv l H q \<Longrightarrow> loose l H q y \<Longrightarrow> h \<in> H \<Longrightarrow> y \<noteq> x \<Longrightarrow>
      loose (insert_tail h x l) H (enqueue h x q) y"
begin

lemma move_tail:
  assumes "inv l H q" and "h \<in> H" and "x \<in> queued H q \<or> loose l H q x"
  shows "inv (insert_tail h x (remove x l)) H (enqueue h x (dequeue x q))"
proof (rule insert_law)
  show "inv (remove x l) H (dequeue x q)" using assms(1,3) by (rule remove_law)
  show "x \<notin> H" using assms(1,3) by (rule not_head)
qed (use assms(2) in simp_all)

lemma first_of_nonempty:
  assumes "inv l H q" and "h \<in> H" and "q h \<noteq> []"
  shows "first h l = hd (q h)"
  using first_law [OF assms(1,2)] assms(3) by (simp add: hd_append_single)

lemma empty_after_remove:
  assumes "inv l H q" and "h \<in> H" and "x \<in> queued H q \<or> loose l H q x"
  shows "is_empty h (remove x l) \<longleftrightarrow> set (q h) \<subseteq> {x}"
proof -
  have "is_empty h (remove x l) \<longleftrightarrow> dequeue x q h = []"
    by (rule empty_law [OF remove_law [OF assms(1,3)] assms(2)])
  also have "\<dots> \<longleftrightarrow> set (q h) \<subseteq> {x}"
    by (auto simp: dequeue_def filter_empty_conv removeAll_filter_not_eq)
  finally show ?thesis .
qed

lemma dequeue_elsewhere:
  assumes "inv l H q" and "h \<in> H" and "x \<in> set (q h)" and "k \<in> H" and "k \<noteq> h"
  shows "dequeue x q k = q k"
  using unique [OF assms(1,2,4,3)] assms(5) by (auto intro: dequeue_id)

end

interpretation kq: queue_family rings detached list_is_empty "\<lambda>h l. next_of l h"
  list_remove_node list_insert_tail
proof
  show "list_is_empty h l \<longleftrightarrow> q h = []" if "rings l H q" "h \<in> H"
    for l :: "'n links" and H q h
    using ringsD(1) [OF that] by (rule ring_empty_iff)
  show "next_of l h = hd (q h @ [h])" if "rings l H q" "h \<in> H" for l :: "'n links" and H q h
    using ringsD(1) [OF that] by (rule ring_next)
  show "rings (list_remove_node x l) H (dequeue x q)"
    if "rings l H q" "x \<in> queued H q \<or> detached l H q x" for l :: "'n links" and H q x
    using that by (auto intro: rings_remove rings_remove_detached)
  show "x \<notin> H" if "rings l H q" "x \<in> queued H q \<or> detached l H q x"
    for l :: "'n links" and H q x
    using that by (auto simp: detached_def dest: queued_not_head)
qed (auto intro: rings_insert_tail detached_remove detached_insert dest: rings_disjoint)

end
