(* ===== verification/Kernel_State.thy ===== *)
theory Kernel_State
  imports Intrusive_List
begin

text \<open>
  The state shared by the kernel components: the thread control block of
  \<^verbatim>\<open>include/pthread.h\<close>, the scheduler object of \<^verbatim>\<open>source/sched.c\<close>, the mutex and
  semaphore objects, and the processor state that \<^verbatim>\<open>bsp/arch/ARM/Cortex-M7/cpuport/source/text_switch.s\<close>
  manipulates (PRIMASK, the pending context switch).

  Objects are named by their 32-bit address. The \<open>list_t\<close> members embedded in the objects are
  named symbolically by \<open>lnode\<close> (``the \<^verbatim>\<open>list\<close> member of the thread at \<open>t\<close>''), so two
  different members never alias; \<open>thread_entry\<close> is the \<^verbatim>\<open>LIST_ENTRY\<close> pointer arithmetic
  back from a member to its object, undefined on anything that is not a thread's \<^verbatim>\<open>list\<close>
  member (in C the result would be a wild pointer).
\<close>

section \<open>Nodes of the kernel's lists\<close>

datatype lnode =
    Ready_head nat
  | Sleep_head
  | Delete_head
  | Thread_head
  | Thread_node addr
  | Thread_tnode addr
  | Mutex_head addr
  | Sem_head addr
  | Sigevent_head addr
  | Sig_head addr
  | Sigevent_node addr
  | Timer_head
  | Timer_node addr
  | Stdobj_head nat
  | Stdobj_node addr
  | Shell_head
  | Shell_node addr
  | Ipport_head
  | Ipport_node addr

definition thread_entry :: "lnode \<Rightarrow> addr option" where
  "thread_entry x = (case x of Thread_node t \<Rightarrow> Some t | _ \<Rightarrow> None)"

lemma thread_entry_simps [simp]: "thread_entry (Thread_node t) = Some t"
  by (simp add: thread_entry_def)

section \<open>Threads\<close>

definition PTHREAD_STATE_INIT :: os_u8 where "PTHREAD_STATE_INIT = 0"
definition PTHREAD_STATE_READY :: os_u8 where "PTHREAD_STATE_READY = 1"
definition PTHREAD_STATE_SUSPEND :: os_u8 where "PTHREAD_STATE_SUSPEND = 2"
definition PTHREAD_STATE_SLEEP :: os_u8 where "PTHREAD_STATE_SLEEP = 3"
definition PTHREAD_STATE_CLOSED :: os_u8 where "PTHREAD_STATE_CLOSED = 4"
definition PTHREAD_STATE_INT :: os_u8 where "PTHREAD_STATE_INT = 5"

lemmas pthread_state_defs [kernel_simps] =
  PTHREAD_STATE_INIT_def PTHREAD_STATE_READY_def PTHREAD_STATE_SUSPEND_def
  PTHREAD_STATE_SLEEP_def PTHREAD_STATE_CLOSED_def PTHREAD_STATE_INT_def

definition PTHREAD_TYPE_USER :: os_u8 where "PTHREAD_TYPE_USER = 0"
definition PTHREAD_TYPE_IDLE :: os_u8 where "PTHREAD_TYPE_IDLE = 1"
definition PTHREAD_TYPE_KERNEL :: os_u8 where "PTHREAD_TYPE_KERNEL = 2"
definition PTHREAD_TICKS_MIN :: os_u8 where "PTHREAD_TICKS_MIN = 1"
definition PTHREAD_TICKS_MAX :: os_u8 where "PTHREAD_TICKS_MAX = 255"
definition PTHREAD_PRIORITY_MIN :: os_u8 where "PTHREAD_PRIORITY_MIN = 0"
definition PTHREAD_PRIORITY_MAX :: os_u8 where "PTHREAD_PRIORITY_MAX = 31"
definition PTHREAD_READY_GROUP_MAX :: nat where "PTHREAD_READY_GROUP_MAX = 32"

record os_pthread =
  th_type :: os_u8
  th_status :: os_u8
  th_name :: "os_u8 list"
  th_sp :: addr
  th_int_sp :: addr
  th_init_ticks :: os_u8
  th_cur_ticks :: os_u8
  th_sleep_ticks :: os_u16
  th_init_prio :: os_u8
  th_cur_prio :: os_u8
  th_prio_mask :: os_u32
  th_start_routine :: addr
  th_arg :: addr
  th_ret :: addr
  th_stk_addr :: addr
  th_stk_size :: os_u32

section \<open>Scheduler, synchronisation objects, processor\<close>

record usage =
  u_min_ticks :: os_u16
  u_cur_ticks :: os_u16
  u_run_count :: os_u16
  u_usage :: os_u16

record pthread_mutex =
  own_thread :: addr

record sem =
  sem_init_value :: os_u32
  sem_value :: os_u32

text \<open>The address of a saved stack pointer, the argument of \<^verbatim>\<open>hw_context_switch\<close>.\<close>

datatype spref = No_sp | Sp addr | Int_sp addr

record kstate =
  links :: "lnode links"
  thr :: "addr \<Rightarrow> os_pthread"
  thread_ready_group :: os_u32
  current_thread :: addr
  cpu_usage :: usage
  sched_locked :: os_u32
  mutexes :: "addr \<Rightarrow> pthread_mutex"
  sems :: "addr \<Rightarrow> sem"
  primask :: bool
  thread_switch_interrupt_flag :: os_u32
  interrupt_from_thread :: spref
  interrupt_to_thread :: spref

definition NULL :: addr where "NULL = 0"

definition upd_thread :: "addr \<Rightarrow> (os_pthread \<Rightarrow> os_pthread) \<Rightarrow> 'a kstate_scheme \<Rightarrow> 'a kstate_scheme" where
  "upd_thread t f s = s\<lparr>thr := (thr s)(t := f (thr s t))\<rparr>"

definition upd_links :: "(lnode links \<Rightarrow> lnode links) \<Rightarrow> 'a kstate_scheme \<Rightarrow> 'a kstate_scheme" where
  "upd_links f s = s\<lparr>links := f (links s)\<rparr>"

text \<open>
  \<^verbatim>\<open>hw_interrupt_suspend\<close> returns PRIMASK and masks interrupts; \<^verbatim>\<open>hw_interrupt_recover\<close>
  writes PRIMASK back. \<^verbatim>\<open>hw_context_switch\<close> only requests a switch (PendSV): the first
  request since the last one taken records the context to save, each request records
  the context to load. The exception that takes the switch is in \<open>Context_Switch\<close>.
\<close>

definition hw_interrupt_suspend :: "'a kstate_scheme \<Rightarrow> bool \<times> 'a kstate_scheme" where
  "hw_interrupt_suspend s = (primask s, s\<lparr>primask := True\<rparr>)"

definition hw_interrupt_recover :: "bool \<Rightarrow> 'a kstate_scheme \<Rightarrow> 'a kstate_scheme" where
  "hw_interrupt_recover temp s = s\<lparr>primask := temp\<rparr>"

definition hw_context_switch :: "spref \<Rightarrow> spref \<Rightarrow> 'a kstate_scheme \<Rightarrow> 'a kstate_scheme" where
  "hw_context_switch from to s =
     (let s = (if thread_switch_interrupt_flag s = 1 then s
               else s\<lparr>thread_switch_interrupt_flag := 1, interrupt_from_thread := from\<rparr>)
      in s\<lparr>interrupt_to_thread := to\<rparr>)"

definition hw_context_switch_to :: "spref \<Rightarrow> 'a kstate_scheme \<Rightarrow> 'a kstate_scheme" where
  "hw_context_switch_to to s =
     s\<lparr>interrupt_to_thread := to, interrupt_from_thread := No_sp,
       thread_switch_interrupt_flag := 1, primask := False\<rparr>"

lemmas kstate_ops [kernel_simps] =
  upd_thread_def upd_links_def hw_interrupt_suspend_def hw_interrupt_recover_def
  hw_context_switch_def hw_context_switch_to_def

end
