(* ===== verification/Sched.thy ===== *)
theory Sched
  imports Kernel_State
begin

text \<open>
  The scheduler, \<^verbatim>\<open>hwutil/kernel/source/sched.c\<close>: priority-preemptive, round robin inside
  a priority, 32 ready lists indexed by a bitmap, a sleep list counted down by the system tick,
  and CPU-usage accounting.

  The operations are pointer programs over the lists of \<open>Intrusive_List\<close>. The well-formedness
  predicate \<open>sched_wf H q s\<close> says that the lists of the state \<open>s\<close> hold exactly the queues
  \<open>q\<close> (an abstract queue per list head in \<open>H\<close>), that the bitmap and the thread states agree
  with them, and that every registered runnable thread is queued at its priority. Each operation is shown to implement its
  queue-level counterpart.
\<close>

section \<open>Definitions\<close>

subsection \<open>The highest ready priority\<close>

definition sched_priority_remap_table :: "os_u8 list" where
  "sched_priority_remap_table =
     [0, 0, 1, 1, 2, 2, 2, 2, 3, 3, 3, 3, 3, 3, 3, 3,
      4, 4, 4, 4, 4, 4, 4, 4, 4, 4, 4, 4, 4, 4, 4, 4,
      5, 5, 5, 5, 5, 5, 5, 5, 5, 5, 5, 5, 5, 5, 5, 5,
      5, 5, 5, 5, 5, 5, 5, 5, 5, 5, 5, 5, 5, 5, 5, 5,
      6, 6, 6, 6, 6, 6, 6, 6, 6, 6, 6, 6, 6, 6, 6, 6,
      6, 6, 6, 6, 6, 6, 6, 6, 6, 6, 6, 6, 6, 6, 6, 6,
      6, 6, 6, 6, 6, 6, 6, 6, 6, 6, 6, 6, 6, 6, 6, 6,
      6, 6, 6, 6, 6, 6, 6, 6, 6, 6, 6, 6, 6, 6, 6, 6,
      7, 7, 7, 7, 7, 7, 7, 7, 7, 7, 7, 7, 7, 7, 7, 7,
      7, 7, 7, 7, 7, 7, 7, 7, 7, 7, 7, 7, 7, 7, 7, 7,
      7, 7, 7, 7, 7, 7, 7, 7, 7, 7, 7, 7, 7, 7, 7, 7,
      7, 7, 7, 7, 7, 7, 7, 7, 7, 7, 7, 7, 7, 7, 7, 7,
      7, 7, 7, 7, 7, 7, 7, 7, 7, 7, 7, 7, 7, 7, 7, 7,
      7, 7, 7, 7, 7, 7, 7, 7, 7, 7, 7, 7, 7, 7, 7, 7,
      7, 7, 7, 7, 7, 7, 7, 7, 7, 7, 7, 7, 7, 7, 7, 7,
      7, 7, 7, 7, 7, 7, 7, 7, 7, 7, 7, 7, 7, 7, 7, 7]"

definition sched_get_highest_ready_group :: "os_u32 \<Rightarrow> os_u16" where
  "sched_get_highest_ready_group read_group =
     (let (read_group, offset) =
            (if read_group AND 0xff000000 \<noteq> 0 then (drop_bit 24 read_group, 24)
             else if read_group AND 0x00ff0000 \<noteq> 0 then (drop_bit 16 read_group, 16)
             else if read_group AND 0x0000ff00 \<noteq> 0 then (drop_bit 8 read_group, 8)
             else (read_group, 0))
      in ucast (sched_priority_remap_table ! unat read_group) + offset)"

subsection \<open>Starting and switching\<close>

definition highest_ready_thread :: "'a kstate_scheme \<Rightarrow> addr option" where
  "highest_ready_thread s =
     thread_entry (next_of (links s)
       (Ready_head (unat (sched_get_highest_ready_group (thread_ready_group s)))))"

definition sched_start :: "'a kstate_scheme \<Rightarrow> 'a kstate_scheme option" where
  "sched_start s =
     do {
       t \<leftarrow> highest_ready_thread s;
       let s = s\<lparr>current_thread := t\<rparr>;
       Some (hw_context_switch_to (Sp t) s)
     }"

definition sp_of :: "addr \<Rightarrow> 'a kstate_scheme \<Rightarrow> spref" where
  "sp_of t s = (if th_status (thr s t) = PTHREAD_STATE_INT then Int_sp t else Sp t)"

definition sched_switch_thread :: "'a kstate_scheme \<Rightarrow> 'a kstate_scheme option" where
  "sched_switch_thread s =
     do {
       let (temp, s) = hw_interrupt_suspend s;
       to_thread \<leftarrow> highest_ready_thread s;
       let s = (if to_thread \<noteq> current_thread s
                then let from_thread = current_thread s;
                         s = s\<lparr>current_thread := to_thread\<rparr>;
                         to_sp = sp_of to_thread s;
                         from_sp = sp_of from_thread s
                     in hw_context_switch from_sp to_sp s
                else s);
       Some (hw_interrupt_recover temp s)
     }"

subsection \<open>Thread states\<close>

definition prio_bit :: "os_u8 \<Rightarrow> os_u32" where
  "prio_bit p = push_bit (unat p) 1"

definition sched_set_thread_ready :: "addr \<Rightarrow> 'a kstate_scheme \<Rightarrow> 'a kstate_scheme" where
  "sched_set_thread_ready t s =
     (let s = upd_links (list_remove_node (Thread_node t)) s;
          p = th_cur_prio (thr s t);
          s = upd_links (list_insert_tail (Ready_head (unat p)) (Thread_node t)) s;
          s = s\<lparr>thread_ready_group := thread_ready_group s OR prio_bit p\<rparr>
      in upd_thread t (\<lambda>x. x\<lparr>th_status := PTHREAD_STATE_READY\<rparr>) s)"

definition sched_set_thread_int :: "addr \<Rightarrow> 'a kstate_scheme \<Rightarrow> 'a kstate_scheme" where
  "sched_set_thread_int t s =
     (let s = upd_links (list_remove_node (Thread_node t)) s;
          p = th_cur_prio (thr s t);
          s = upd_links (list_insert_tail (Ready_head (unat p)) (Thread_node t)) s;
          s = s\<lparr>thread_ready_group := thread_ready_group s OR prio_bit p\<rparr>
      in upd_thread t (\<lambda>x. x\<lparr>th_status := PTHREAD_STATE_INT\<rparr>) s)"

definition sched_leave_ready :: "addr \<Rightarrow> 'a kstate_scheme \<Rightarrow> 'a kstate_scheme" where
  "sched_leave_ready t s =
     (let s = upd_links (list_remove_node (Thread_node t)) s;
          p = th_cur_prio (thr s t)
      in if list_is_empty (Ready_head (unat p)) (links s)
         then s\<lparr>thread_ready_group := thread_ready_group s AND NOT (prio_bit p)\<rparr>
         else s)"

definition sched_set_thread_suspend :: "addr \<Rightarrow> 'a kstate_scheme \<Rightarrow> 'a kstate_scheme" where
  "sched_set_thread_suspend t s =
     (let s = sched_leave_ready t s
      in upd_thread t (\<lambda>x. x\<lparr>th_status := PTHREAD_STATE_SUSPEND\<rparr>) s)"

definition sched_set_thread_sleep :: "addr \<Rightarrow> 'a kstate_scheme \<Rightarrow> 'a kstate_scheme" where
  "sched_set_thread_sleep t s =
     (let s = sched_leave_ready t s;
          s = upd_links (list_insert_tail Sleep_head (Thread_node t)) s
      in upd_thread t (\<lambda>x. x\<lparr>th_status := PTHREAD_STATE_SLEEP\<rparr>) s)"

definition sched_set_thread_close :: "addr \<Rightarrow> 'a kstate_scheme \<Rightarrow> 'a kstate_scheme" where
  "sched_set_thread_close t s =
     (let s = sched_leave_ready t s
      in upd_thread t (\<lambda>x. x\<lparr>th_status := PTHREAD_STATE_CLOSED\<rparr>) s)"

definition sched_reclaim_thread :: "addr \<Rightarrow> 'a kstate_scheme \<Rightarrow> 'a kstate_scheme" where
  "sched_reclaim_thread t s =
     (let s = sched_set_thread_close t s
      in upd_links (list_insert_tail Delete_head (Thread_node t)) s)"

definition sched_insert_thread :: "addr \<Rightarrow> 'a kstate_scheme \<Rightarrow> 'a kstate_scheme" where
  "sched_insert_thread t s =
     (let s = upd_links (list_insert_tail Thread_head (Thread_tnode t)) s
      in sched_set_thread_ready t s)"

definition get_current_thread :: "'a kstate_scheme \<Rightarrow> addr" where
  "get_current_thread s = current_thread s"

definition sched_delete_thread :: "addr \<Rightarrow> 'a kstate_scheme \<Rightarrow> (err_t \<times> 'a kstate_scheme) option" where
  "sched_delete_thread t s =
     do {
       let (temp, s) = hw_interrupt_suspend s;
       let s = upd_links (list_remove_node (Thread_tnode t)) s;
       let s = sched_reclaim_thread t s;
       let s = hw_interrupt_recover temp s;
       s \<leftarrow> sched_switch_thread s;
       Some (0, s)
     }"

definition sched_yield :: "'a kstate_scheme \<Rightarrow> 'a kstate_scheme option" where
  "sched_yield s =
     do {
       let (temp, s) = hw_interrupt_suspend s;
       let s = sched_set_thread_ready (get_current_thread s) s;
       let s = hw_interrupt_recover temp s;
       sched_switch_thread s
     }"

subsection \<open>The scheduler lock\<close>

definition SCHED_IS_LOCKED :: os_u32 where "SCHED_IS_LOCKED = 1"
definition SCHED_IS_UNLOCKED :: os_u32 where "SCHED_IS_UNLOCKED = 0"

definition sched_suspend :: "'a kstate_scheme \<Rightarrow> os_u32 \<times> 'a kstate_scheme" where
  "sched_suspend s =
     (let (temp, s) = hw_interrupt_suspend s;
          lcoked = sched_locked s;
          s = s\<lparr>sched_locked := SCHED_IS_LOCKED\<rparr>
      in (lcoked, hw_interrupt_recover temp s))"

definition sched_recover :: "os_u32 \<Rightarrow> 'a kstate_scheme \<Rightarrow> 'a kstate_scheme" where
  "sched_recover state s =
     (let (temp, s) = hw_interrupt_suspend s;
          s = s\<lparr>sched_locked := state\<rparr>
      in hw_interrupt_recover temp s)"

subsection \<open>The system tick\<close>

text \<open>
  \<open>tick\<close> stands for \<^verbatim>\<open>RTOS_SYS_TICK_PERIOD\<close>, which each board's \<^verbatim>\<open>hw_def.h\<close> sets
  (1 on the STM32F746G-DISCO and the zedboard, 5 on the ShenZhou-IV). \<^verbatim>\<open>sched_init\<close> sets \<^verbatim>\<open>min_ticks\<close>
  to \<^verbatim>\<open>SCHED_PERIOD / RTOS_SYS_TICK_PERIOD\<close>, which is not 0 for these boards, nor for any period up to \<^verbatim>\<open>SCHED_PERIOD\<close>:
  the division by \<^verbatim>\<open>min_ticks\<close> below is then the division of C (a division by 0, undefined in C, is 0 here).
\<close>

definition SCHED_PERIOD :: os_u32 where "SCHED_PERIOD = 1000"

definition wakeup_one :: "lnode \<Rightarrow> 'a kstate_scheme \<Rightarrow> 'a kstate_scheme option" where
  "wakeup_one pos s =
     do {
       t \<leftarrow> thread_entry pos;
       let s = upd_thread t (\<lambda>x. x\<lparr>th_sleep_ticks := th_sleep_ticks x - 1\<rparr>) s;
       Some (if th_sleep_ticks (thr s t) = 0 then sched_set_thread_ready t s else s)
     }"

definition sched_wakeup_sleep_thread :: "'a kstate_scheme \<Rightarrow> 'a kstate_scheme option" where
  "sched_wakeup_sleep_thread s =
     list_for_each_safe links wakeup_one Sleep_head (next_of (links s) Sleep_head) s"

definition sched_proc_cpu_usage :: "os_u32 \<Rightarrow> 'a kstate_scheme \<Rightarrow> 'a kstate_scheme" where
  "sched_proc_cpu_usage tick s =
     (let th = thr s (get_current_thread s);
          u = cpu_usage s;
          u = u\<lparr>u_cur_ticks := u_cur_ticks u + 1\<rparr>;
          u = (if th_type th \<noteq> PTHREAD_TYPE_IDLE
               then u\<lparr>u_run_count := u_run_count u + ucast (SCHED_PERIOD div tick)\<rparr> else u);
          u = (if u_cur_ticks u \<ge> u_min_ticks u
               then u\<lparr>u_usage := u_run_count u div u_min_ticks u, u_run_count := 0, u_cur_ticks := 0\<rparr>
               else u)
      in s\<lparr>cpu_usage := u\<rparr>)"

definition sched_proc_current_thread :: "'a kstate_scheme \<Rightarrow> 'a kstate_scheme" where
  "sched_proc_current_thread s =
     (let t = current_thread s;
          s = upd_thread t (\<lambda>x. x\<lparr>th_cur_ticks := th_cur_ticks x - 1\<rparr>) s
      in if th_cur_ticks (thr s t) = 0 then sched_set_thread_ready t s else s)"

definition sched_proc :: "os_u32 \<Rightarrow> 'a kstate_scheme \<Rightarrow> 'a kstate_scheme option" where
  "sched_proc tick s =
     (if sched_locked s = SCHED_IS_LOCKED then Some s
      else do {
        let (temp, s) = hw_interrupt_suspend s;
        let s = sched_proc_current_thread s;
        s \<leftarrow> sched_wakeup_sleep_thread s;
        s \<leftarrow> sched_switch_thread s;
        let s = sched_proc_cpu_usage tick s;
        Some (hw_interrupt_recover temp s)
      })"

definition get_current_usage :: "'a kstate_scheme \<Rightarrow> os_u16" where
  "get_current_usage s = u_usage (cpu_usage s)"

subsection \<open>Initialisation\<close>

definition sched_init :: "os_u32 \<Rightarrow> 'a kstate_scheme \<Rightarrow> 'a kstate_scheme" where
  "sched_init tick s =
     (let s = s\<lparr>thread_ready_group := 0, current_thread := NULL, sched_locked := 0,
                cpu_usage := \<lparr>u_min_ticks = 0, u_cur_ticks = 0, u_run_count = 0, u_usage = 0\<rparr>\<rparr>;
          s = upd_links (fold (\<lambda>i. list_init (Ready_head i)) [0..<PTHREAD_READY_GROUP_MAX]) s;
          s = upd_links (list_init Thread_head) s;
          s = upd_links (list_init Sleep_head) s;
          s = upd_links (list_init Delete_head) s
      in s\<lparr>cpu_usage := (cpu_usage s)\<lparr>u_min_ticks := ucast (SCHED_PERIOD div tick)\<rparr>\<rparr>)"


section \<open>The highest ready priority\<close>

lemma remap_table_check:
  "list_all (\<lambda>n. 2 ^ unat (sched_priority_remap_table ! n) \<le> n \<and>
                 n < 2 ^ (unat (sched_priority_remap_table ! n) + 1)) [1..<256]"
  by code_simp

lemma remap_table_log:
  assumes "0 < n" and "n < 256"
  shows "2 ^ unat (sched_priority_remap_table ! n) \<le> n"
    and "n < 2 ^ (unat (sched_priority_remap_table ! n) + 1)"
  using remap_table_check assms by (auto simp: list_all_iff)

lemma log_shift:
  assumes "2 ^ t \<le> n div 2 ^ k" and "n div 2 ^ k < 2 ^ (t + 1)"
  shows "2 ^ (t + k) \<le> (n::nat)" and "n < 2 ^ (t + k + 1)"
proof -
  have "2 ^ t * 2 ^ k \<le> n div 2 ^ k * 2 ^ k" using assms(1) by (rule mult_le_mono1)
  also have "\<dots> \<le> n" by simp
  finally show "2 ^ (t + k) \<le> n" by (simp add: power_add)
  have "n < 2 ^ (t + 1) * 2 ^ k" using assms(2) by (simp add: div_less_iff_less_mult)
  then show "n < 2 ^ (t + k + 1)" by (simp add: power_add algebra_simps)
qed

lemma byte_masks:
  "(g :: 32 word) AND 0xff000000 = push_bit 24 (drop_bit 24 g)"
  "drop_bit 24 (g :: 32 word) = 0 \<Longrightarrow> g AND 0x00ff0000 = push_bit 16 (drop_bit 16 g)"
  "drop_bit 16 (g :: 32 word) = 0 \<Longrightarrow> g AND 0x0000ff00 = push_bit 8 (drop_bit 8 g)"
proof -
  have "(0xff000000 :: 32 word) = NOT (mask 24)" by (simp add: mask_eq_exp_minus_1)
  then show "g AND 0xff000000 = push_bit 24 (drop_bit 24 g)" by (simp only: and_not_mask_eq)
next
  assume a: "drop_bit 24 g = 0"
  have g: "g = take_bit 24 g" using bits_ident [of 24 g] a by simp
  have "(0x00ff0000 :: 32 word) = mask 24 AND NOT (mask 16)" by (simp add: mask_eq_exp_minus_1)
  then have "g AND 0x00ff0000 = (g AND mask 24) AND NOT (mask 16)" by (simp only: and.assoc)
  also have "\<dots> = g AND NOT (mask 16)" using g by (simp only: take_bit_eq_mask [symmetric])
  finally show "g AND 0x00ff0000 = push_bit 16 (drop_bit 16 g)" by (simp only: and_not_mask_eq)
next
  assume a: "drop_bit 16 g = 0"
  have g: "g = take_bit 16 g" using bits_ident [of 16 g] a by simp
  have "(0x0000ff00 :: 32 word) = mask 16 AND NOT (mask 8)" by (simp add: mask_eq_exp_minus_1)
  then have "g AND 0x0000ff00 = (g AND mask 16) AND NOT (mask 8)" by (simp only: and.assoc)
  also have "\<dots> = g AND NOT (mask 8)" using g by (simp only: take_bit_eq_mask [symmetric])
  finally show "g AND 0x0000ff00 = push_bit 8 (drop_bit 8 g)" by (simp only: and_not_mask_eq)
qed


lemma push_drop_0_iff: "push_bit n (drop_bit n (x :: 'a :: len word)) = 0 \<longleftrightarrow> drop_bit n x = 0"
proof
  assume "push_bit n (drop_bit n x) = 0"
  then have "\<not> bit (push_bit n (drop_bit n x)) (n + k)" for k by simp
  then have "\<not> bit x (n + k)" for k using bit_imp_le_length [of x "n + k"] by (auto simp: bit_simps)
  then show "drop_bit n x = 0" by (intro bit_word_eqI) (simp add: bit_simps)
qed simp

lemma unat_drop_bit: "unat (drop_bit n (x :: 'a :: len word)) = unat x div 2 ^ n"
  by (simp add: unsigned_drop_bit_eq) (simp add: drop_bit_eq_div take_bit_nat_eq_self)

lemma drop_bit_0_iff: "drop_bit n (x :: 'a :: len word) = 0 \<longleftrightarrow> unat x < 2 ^ n"
proof -
  have "drop_bit n x = 0 \<longleftrightarrow> unat x div 2 ^ n = 0"
    by (simp add: unat_drop_bit [symmetric] unat_eq_0)
  then show ?thesis by (simp add: div_eq_0_iff)
qed

lemma remap_small: "n < 256 \<Longrightarrow> unat (sched_priority_remap_table ! n) < 8"
proof -
  have "list_all (\<lambda>n. unat (sched_priority_remap_table ! n) < 8) [0..<256]" by code_simp
  then show "n < 256 \<Longrightarrow> ?thesis" by (simp add: list_all_iff)
qed

lemma remap_shifted:
  assumes "drop_bit k g \<noteq> 0" and "unat (g :: 32 word) < 2 ^ (k + 8)" and "k \<le> 24"
  defines "n \<equiv> unat ((ucast (sched_priority_remap_table ! unat (drop_bit k g)) :: os_u16) + of_nat k)"
  shows "2 ^ n \<le> unat g" and "unat g < 2 ^ (n + 1)"
proof -
  let ?t = "sched_priority_remap_table ! (unat g div 2 ^ k)"
  have pos: "0 < unat g div 2 ^ k" and lt: "unat g div 2 ^ k < 256"
    using assms(1,2) by (simp_all add: drop_bit_0_iff div_less_iff_less_mult power_add
        div_greater_zero_iff not_less mult.commute)
  have "n = unat ?t + k"
    using remap_small [OF lt] assms(3)
    by (simp add: n_def unat_drop_bit unat_word_ariths unsigned_ucast_eq take_bit_nat_eq_self
        unsigned_of_nat)
  with log_shift [OF remap_table_log [OF pos lt]]
  show "2 ^ n \<le> unat g" and "unat g < 2 ^ (n + 1)" by simp_all
qed

theorem highest_ready_group_log:
  assumes "g \<noteq> 0"
  shows "2 ^ unat (sched_get_highest_ready_group g) \<le> unat g"
    and "unat g < 2 ^ (unat (sched_get_highest_ready_group g) + 1)"
proof -
  let ?n = "unat (sched_get_highest_ready_group g)"
  have "2 ^ ?n \<le> unat g \<and> unat g < 2 ^ (?n + 1)"
  proof (cases "drop_bit 24 g = 0")
    case False
    then show ?thesis
      using remap_shifted [of 24 g] unat_less_32 [of g]
      by (simp add: sched_get_highest_ready_group_def byte_masks(1) push_drop_0_iff)
  next
    case d24: True
    note m = byte_masks(1) byte_masks(2) [OF d24] push_drop_0_iff
    show ?thesis
    proof (cases "drop_bit 16 g = 0")
      case False
      then show ?thesis using remap_shifted [of 16 g] d24
        by (simp add: sched_get_highest_ready_group_def m drop_bit_0_iff)
    next
      case d16: True
      show ?thesis
      proof (cases "drop_bit 8 g = 0")
        case False
        then show ?thesis using remap_shifted [of 8 g] d24 d16
          by (simp add: sched_get_highest_ready_group_def m byte_masks(3) drop_bit_0_iff)
      next
        case True
        then show ?thesis using remap_shifted [of 0 g] d24 d16 assms
          by (simp add: sched_get_highest_ready_group_def m byte_masks(3) drop_bit_0_iff)
      qed
    qed
  qed
  then show "2 ^ ?n \<le> unat g" and "unat g < 2 ^ (?n + 1)" by auto
qed


lemma bit_word_unat: "bit (w :: 'a :: len word) n \<longleftrightarrow> odd (unat w div 2 ^ n)"
  by (simp only: bit_iff_odd [of "unat w" n, symmetric] bit_unsigned_iff) simp

lemma highest_bit:
  assumes "2 ^ n \<le> unat g" and "unat g < 2 ^ (n + 1)"
  shows "bit g n" and "n < m \<Longrightarrow> \<not> bit g m"
proof -
  have "unat g div 2 ^ n = 1"
    using assms by (intro div_nat_eqI) (simp_all add: algebra_simps)
  then show "bit g n" by (simp add: bit_word_unat)
  assume "n < m"
  then have "(2::nat) ^ (n + 1) \<le> 2 ^ m" by (intro power_increasing) auto
  with assms(2) show "\<not> bit g m" by (simp add: bit_word_unat)
qed

lemmas highest_ready_group_bits = highest_bit [OF highest_ready_group_log]

lemma highest_ready_group_less:
  assumes "g \<noteq> 0"
  shows "unat (sched_get_highest_ready_group g) < 32"
  using highest_ready_group_bits(1) [OF assms assms] bit_imp_le_length by fastforce

lemma bit_prio_bit: "unat p < 32 \<Longrightarrow> bit (prio_bit p) n \<longleftrightarrow> n = unat p"
  by (auto simp: prio_bit_def bit_simps)


section \<open>Well-formed scheduler states\<close>

definition sched_heads :: "lnode set" where
  "sched_heads = Ready_head ` {..<PTHREAD_READY_GROUP_MAX} \<union> {Sleep_head, Delete_head, Thread_head}"

definition runnable :: "os_pthread \<Rightarrow> bool" where
  "runnable x \<longleftrightarrow> th_status x = PTHREAD_STATE_READY \<or> th_status x = PTHREAD_STATE_INT"

definition own_queue :: "os_pthread \<Rightarrow> lnode" where
  "own_queue x = Ready_head (unat (th_cur_prio x))"

definition valid_prio :: "os_pthread \<Rightarrow> bool" where
  "valid_prio x \<longleftrightarrow> th_cur_prio x \<le> PTHREAD_PRIORITY_MAX"

definition bitmap_ok :: "(lnode \<Rightarrow> lnode list) \<Rightarrow> os_u32 \<Rightarrow> bool" where
  "bitmap_ok q g \<longleftrightarrow> (\<forall>p<PTHREAD_READY_GROUP_MAX. bit g p \<longleftrightarrow> q (Ready_head p) \<noteq> [])"

definition members_ok :: "(lnode \<Rightarrow> lnode list) \<Rightarrow> (addr \<Rightarrow> os_pthread) \<Rightarrow> bool" where
  "members_ok q th \<longleftrightarrow>
     (\<forall>p<PTHREAD_READY_GROUP_MAX. \<forall>x\<in>set (q (Ready_head p)).
        \<exists>t. x = Thread_node t \<and> own_queue (th t) = Ready_head p \<and> runnable (th t)) \<and>
     (\<forall>x\<in>set (q Sleep_head).
        \<exists>t. x = Thread_node t \<and> th_status (th t) = PTHREAD_STATE_SLEEP \<and> valid_prio (th t))"

definition registered_ok :: "(lnode \<Rightarrow> lnode list) \<Rightarrow> (addr \<Rightarrow> os_pthread) \<Rightarrow> bool" where
  "registered_ok q th \<longleftrightarrow>
     (\<forall>t. Thread_tnode t \<in> set (q Thread_head) \<longrightarrow>
        valid_prio (th t) \<and> (runnable (th t) \<longrightarrow> Thread_node t \<in> set (q (own_queue (th t)))))"

definition sched_wf :: "lnode set \<Rightarrow> (lnode \<Rightarrow> lnode list) \<Rightarrow> 'a kstate_scheme \<Rightarrow> bool" where
  "sched_wf H q s \<longleftrightarrow>
     rings (links s) H q \<and> sched_heads \<subseteq> H \<and>
     bitmap_ok q (thread_ready_group s) \<and> members_ok q (thr s) \<and> registered_ok q (thr s)"

text \<open>A thread whose \<^verbatim>\<open>list\<close> member may be unlinked: it is in some list, or linked to itself.\<close>

definition movable :: "lnode set \<Rightarrow> (lnode \<Rightarrow> lnode list) \<Rightarrow> 'a kstate_scheme \<Rightarrow> addr \<Rightarrow> bool" where
  "movable H q s t \<longleftrightarrow>
     Thread_node t \<in> queued H q \<or> detached (links s) H q (Thread_node t)"

text \<open>Moving a thread to the tail of a queue, or off all queues.\<close>

definition relocate :: "lnode option \<Rightarrow> addr \<Rightarrow> (lnode \<Rightarrow> lnode list) \<Rightarrow> lnode \<Rightarrow> lnode list" where
  "relocate d t q =
     (let q = dequeue (Thread_node t) q
      in case d of None \<Rightarrow> q | Some h \<Rightarrow> enqueue h (Thread_node t) q)"

definition with_status :: "os_u8 \<Rightarrow> os_pthread \<Rightarrow> os_pthread" where
  "with_status st x = x\<lparr>th_status := st\<rparr>"

text \<open>Which places on the queues go with a thread status.\<close>

definition place_ok :: "lnode option \<Rightarrow> os_u8 \<Rightarrow> os_pthread \<Rightarrow> bool" where
  "place_ok d st x \<longleftrightarrow>
     (if st = PTHREAD_STATE_READY \<or> st = PTHREAD_STATE_INT then d = Some (own_queue x)
      else (d = Some Sleep_head \<and> st = PTHREAD_STATE_SLEEP) \<or> d = Some Delete_head \<or> d = None)"

lemma relocate_mem:
  "x \<in> set (relocate d t q h) \<longleftrightarrow>
     (if x = Thread_node t then d = Some h else x \<in> set (q h))"
  by (auto simp: relocate_def Let_def enqueue_mem split: option.splits)

lemma own_queue_with_status [simp]: "own_queue (with_status st x) = own_queue x"
  by (simp add: own_queue_def with_status_def)

lemma valid_prio_with_status [simp]: "valid_prio (with_status st x) = valid_prio x"
  by (simp add: valid_prio_def with_status_def)

lemma status_with_status [simp]:
  "th_status (with_status st x) = st" "th_cur_prio (with_status st x) = th_cur_prio x"
  by (simp_all add: with_status_def)

lemma valid_prio_less: "valid_prio x \<Longrightarrow> unat (th_cur_prio x) < 32"
  by (simp add: valid_prio_def PTHREAD_PRIORITY_MAX_def word_le_nat_alt)

lemma own_queue_in_heads: "valid_prio x \<Longrightarrow> own_queue x \<in> sched_heads"
  by (simp add: own_queue_def sched_heads_def PTHREAD_READY_GROUP_MAX_def valid_prio_less)

lemma members_ok_relocate:
  assumes "members_ok q th" and "place_ok d st (th t)" and "valid_prio (th t)"
  shows "members_ok (relocate d t q) (th(t := with_status st (th t)))"
  unfolding members_ok_def
proof (intro conjI allI ballI impI)
  fix p x assume p: "p < PTHREAD_READY_GROUP_MAX" and x: "x \<in> set (relocate d t q (Ready_head p))"
  show "\<exists>u. x = Thread_node u \<and> own_queue ((th(t := with_status st (th t))) u) = Ready_head p \<and>
      runnable ((th(t := with_status st (th t))) u)"
  proof (cases "x = Thread_node t")
    case True
    with x assms(2) show ?thesis
      by (auto simp: relocate_mem place_ok_def runnable_def own_queue_def split: if_splits)
  next
    case False
    with x p assms(1) show ?thesis by (fastforce simp: relocate_mem members_ok_def)
  qed
next
  fix x assume x: "x \<in> set (relocate d t q Sleep_head)"
  show "\<exists>u. x = Thread_node u \<and> th_status ((th(t := with_status st (th t))) u) = PTHREAD_STATE_SLEEP \<and>
      valid_prio ((th(t := with_status st (th t))) u)"
  proof (cases "x = Thread_node t")
    case True
    with x assms(2,3) show ?thesis
      by (auto simp: relocate_mem place_ok_def own_queue_def split: if_splits)
  next
    case False
    with x assms(1) show ?thesis by (fastforce simp: relocate_mem members_ok_def)
  qed
qed

lemma registered_ok_relocate:
  assumes "registered_ok q th" and "place_ok d st (th t)"
  shows "registered_ok (relocate d t q) (th(t := with_status st (th t)))"
  unfolding registered_ok_def
proof (intro allI impI)
  fix u assume u: "Thread_tnode u \<in> set (relocate d t q Thread_head)"
  then have "Thread_tnode u \<in> set (q Thread_head)" by (simp add: relocate_mem)
  with assms show "valid_prio ((th(t := with_status st (th t))) u) \<and>
      (runnable ((th(t := with_status st (th t))) u) \<longrightarrow>
       Thread_node u \<in> set (relocate d t q (own_queue ((th(t := with_status st (th t))) u))))"
    by (auto simp: registered_ok_def relocate_mem place_ok_def runnable_def)
qed


lemma sched_wfD:
  assumes "sched_wf H q s"
  shows "rings (links s) H q" and "sched_heads \<subseteq> H" and "bitmap_ok q (thread_ready_group s)"
    and "members_ok q (thr s)" and "registered_ok q (thr s)"
  using assms by (auto simp: sched_wf_def)

lemma own_queue_in_H: "sched_wf H q s \<Longrightarrow> valid_prio x \<Longrightarrow> own_queue x \<in> H"
  using own_queue_in_heads sched_wfD(2) by blast

lemma sched_wf_cong:
  "links s' = links s \<Longrightarrow> thr s' = thr s \<Longrightarrow> thread_ready_group s' = thread_ready_group s \<Longrightarrow>
   sched_wf H q s' = sched_wf H q s"
  by (simp add: sched_wf_def)

lemma sched_wf_relocate:
  assumes "sched_wf H q s" and "valid_prio (thr s t)" and "place_ok d st (thr s t)"
    and "rings (links s') H (relocate d t q)"
    and "bitmap_ok (relocate d t q) (thread_ready_group s')"
    and "thr s' = (thr s)(t := with_status st (thr s t))"
  shows "sched_wf H (relocate d t q) s'"
  using assms members_ok_relocate registered_ok_relocate unfolding sched_wf_def by metis

section \<open>Choosing the next thread\<close>

definition top_prio :: "(lnode \<Rightarrow> lnode list) \<Rightarrow> nat option" where
  "top_prio q = find (\<lambda>p. q (Ready_head p) \<noteq> []) (rev [0..<PTHREAD_READY_GROUP_MAX])"

definition top_thread :: "(lnode \<Rightarrow> lnode list) \<Rightarrow> addr option" where
  "top_thread q = do { p \<leftarrow> top_prio q; thread_entry (hd (q (Ready_head p))) }"

lemma find_rev_upt:
  "find P (rev [0..<n]) = Some p \<longleftrightarrow> p < n \<and> P p \<and> (\<forall>k. p < k \<and> k < n \<longrightarrow> \<not> P k)"
  by (induction n) (auto simp: less_Suc_eq)

lemma find_rev_upt_None: "find P (rev [0..<n]) = None \<longleftrightarrow> (\<forall>k<n. \<not> P k)"
  by (auto simp: find_None_iff)

lemma top_prio_Some:
  "top_prio q = Some p \<longleftrightarrow>
     p < PTHREAD_READY_GROUP_MAX \<and> q (Ready_head p) \<noteq> [] \<and>
     (\<forall>k. p < k \<and> k < PTHREAD_READY_GROUP_MAX \<longrightarrow> q (Ready_head k) = [])"
  by (simp add: top_prio_def find_rev_upt)

lemma ready_group_0_iff:
  assumes "bitmap_ok q g"
  shows "g = 0 \<longleftrightarrow> top_prio q = None"
proof -
  have "g = 0 \<longleftrightarrow> (\<forall>p<32. \<not> bit g p)"
    using bit_imp_le_length [of g] by (auto simp: bit_eq_iff)
  then show ?thesis
    using assms by (auto simp: bitmap_ok_def top_prio_def find_rev_upt_None PTHREAD_READY_GROUP_MAX_def)
qed

lemma highest_is_top_prio:
  assumes "bitmap_ok q g" and "g \<noteq> 0"
  shows "top_prio q = Some (unat (sched_get_highest_ready_group g))"
  unfolding top_prio_Some
  using assms highest_ready_group_less [OF assms(2)] highest_ready_group_bits [OF assms(2,2)]
  by (auto simp: bitmap_ok_def PTHREAD_READY_GROUP_MAX_def)

lemma ready_head_in_H:
  "sched_wf H q s \<Longrightarrow> p < PTHREAD_READY_GROUP_MAX \<Longrightarrow> Ready_head p \<in> H"
  using sched_wfD(2) by (fastforce simp: sched_heads_def)

lemma highest_ready_thread_top:
  assumes wf: "sched_wf H q s"
  shows "highest_ready_thread s = top_thread q"
proof (cases "thread_ready_group s = 0")
  case True
  have g0: "unat (sched_get_highest_ready_group 0) = 0" by code_simp
  have none: "top_prio q = None" using ready_group_0_iff [OF sched_wfD(3) [OF wf]] True by simp
  then have "q (Ready_head 0) = []"
    by (simp add: top_prio_def find_rev_upt_None PTHREAD_READY_GROUP_MAX_def)
  moreover have "Ready_head 0 \<in> H"
    by (rule ready_head_in_H [OF wf]) (simp add: PTHREAD_READY_GROUP_MAX_def)
  ultimately have "next_of (links s) (Ready_head 0) = Ready_head 0"
    using kq.first_law [OF sched_wfD(1) [OF wf]] by fastforce
  with True none g0 show ?thesis
    by (simp add: highest_ready_thread_def top_thread_def thread_entry_def)
next
  case False
  define p where "p = unat (sched_get_highest_ready_group (thread_ready_group s))"
  have top: "top_prio q = Some p"
    using highest_is_top_prio [OF sched_wfD(3) [OF wf] False] by (simp add: p_def)
  then have "p < PTHREAD_READY_GROUP_MAX" and ne: "q (Ready_head p) \<noteq> []"
    by (auto simp: top_prio_Some)
  then have "next_of (links s) (Ready_head p) = hd (q (Ready_head p))"
    using kq.first_of_nonempty [OF sched_wfD(1) [OF wf] ready_head_in_H [OF wf]] by blast
  with top show ?thesis by (simp add: highest_ready_thread_def top_thread_def p_def)
qed

definition switched :: "addr \<Rightarrow> 'a kstate_scheme \<Rightarrow> 'a kstate_scheme" where
  "switched t s =
     (if t = current_thread s then s
      else hw_context_switch (sp_of (current_thread s) s) (sp_of t s) (s\<lparr>current_thread := t\<rparr>))"

lemma sched_switch_thread_eq:
  assumes "sched_wf H q s"
  shows "sched_switch_thread s = map_option (\<lambda>t. switched t s) (top_thread q)"
proof -
  have "highest_ready_thread (s\<lparr>primask := True\<rparr>) = top_thread q"
    using assms by (intro highest_ready_thread_top [of H]) (simp add: sched_wf_def)
  then show ?thesis
    by (cases "top_thread q")
      (auto simp: sched_switch_thread_def switched_def sp_of_def kernel_simps Let_def)
qed

lemma switched_simps [simp]:
  "links (switched t s) = links s" "thr (switched t s) = thr s"
  "thread_ready_group (switched t s) = thread_ready_group s" "current_thread (switched t s) = t"
  "primask (switched t s) = primask s" "sched_locked (switched t s) = sched_locked s"
  "mutexes (switched t s) = mutexes s" "sems (switched t s) = sems s"
  "cpu_usage (switched t s) = cpu_usage s"
  by (auto simp: switched_def hw_context_switch_def Let_def)

lemma sched_wf_switched [simp]: "sched_wf H q (switched t s) = sched_wf H q s"
  by (rule sched_wf_cong) simp_all

lemma top_threadD:
  assumes "sched_wf H q s" and "top_thread q = Some t"
  shows "top_prio q = Some (unat (th_cur_prio (thr s t)))"
    and "hd (q (own_queue (thr s t))) = Thread_node t" and "q (own_queue (thr s t)) \<noteq> []"
    and "runnable (thr s t)"
proof -
  obtain p where p: "top_prio q = Some p" "thread_entry (hd (q (Ready_head p))) = Some t"
    using assms(2) by (auto simp: top_thread_def split: Option.bind_splits)
  then have lt: "p < PTHREAD_READY_GROUP_MAX" and ne: "q (Ready_head p) \<noteq> []"
    by (auto simp: top_prio_Some)
  have hd: "hd (q (Ready_head p)) = Thread_node t"
    using p(2) by (auto simp: thread_entry_def split: lnode.splits)
  with ne have mem: "Thread_node t \<in> set (q (Ready_head p))" by (metis hd_in_set)
  with sched_wfD(4) [OF assms(1)] lt have own: "own_queue (thr s t) = Ready_head p"
    and run: "runnable (thr s t)"
    by (fastforce simp: members_ok_def)+
  show "top_prio q = Some (unat (th_cur_prio (thr s t)))" using own p(1) by (simp add: own_queue_def)
  show "hd (q (own_queue (thr s t))) = Thread_node t" using own hd by simp
  show "q (own_queue (thr s t)) \<noteq> []" using own ne by simp
  show "runnable (thr s t)" by (rule run)
qed

lemma top_thread_Some:
  assumes "sched_wf H q s" and "p < PTHREAD_READY_GROUP_MAX" and "q (Ready_head p) \<noteq> []"
  obtains t where "top_thread q = Some t"
proof -
  have "top_prio q \<noteq> None" using assms(2,3) by (auto simp: top_prio_def find_rev_upt_None)
  then obtain p' where p': "top_prio q = Some p'" by blast
  then have "hd (q (Ready_head p')) \<in> set (q (Ready_head p'))" and "p' < PTHREAD_READY_GROUP_MAX"
    by (auto simp: top_prio_Some)
  with sched_wfD(4) [OF assms(1)] obtain t where "hd (q (Ready_head p')) = Thread_node t"
    by (fastforce simp: members_ok_def)
  with p' show ?thesis by (intro that [of t]) (simp add: top_thread_def)
qed

lemma top_thread_max:
  assumes "sched_wf H q s" and "top_thread q = Some t"
    and "Thread_tnode u \<in> set (q Thread_head)" and "runnable (thr s u)"
  shows "th_cur_prio (thr s u) \<le> th_cur_prio (thr s t)"
proof (rule ccontr)
  assume "\<not> ?thesis"
  then have gt: "unat (th_cur_prio (thr s t)) < unat (th_cur_prio (thr s u))"
    by (simp add: word_le_nat_alt)
  from sched_wfD(5) [OF assms(1)] assms(3,4) have u: "valid_prio (thr s u)"
    "Thread_node u \<in> set (q (own_queue (thr s u)))" by (auto simp: registered_ok_def)
  then show False
    using top_threadD(1) [OF assms(1,2)] valid_prio_less [OF u(1)] gt
    by (auto simp: top_prio_Some own_queue_def PTHREAD_READY_GROUP_MAX_def)
qed

section \<open>The transitions of a thread\<close>

text \<open>
  The contract every transition of sched.c meets: the thread ends at the tail of the queue
  \<open>place\<close> (or on none), its status becomes \<open>st\<close>, the state stays well formed, and nothing
  but the links, that status and the bitmap changes.
\<close>

locale thread_transition =
  fixes op :: "addr \<Rightarrow> 'a kstate_scheme \<Rightarrow> 'a kstate_scheme"
    and place :: "os_pthread \<Rightarrow> lnode option"
    and st :: os_u8
  assumes wf_law: "sched_wf H q s \<Longrightarrow> valid_prio (thr s t) \<Longrightarrow> movable H q s t \<Longrightarrow>
      sched_wf H (relocate (place (thr s t)) t q) (op t s)"
    and frame_law: "\<exists>l g. op t s =
      s\<lparr>links := l, thr := (thr s)(t := with_status st (thr s t)), thread_ready_group := g\<rparr>"
begin

lemma op_thr [simp]: "thr (op t s) = (thr s)(t := with_status st (thr s t))"
  using frame_law [of t s] by auto

lemma op_frame [simp]:
  "current_thread (op t s) = current_thread s" "primask (op t s) = primask s"
  "sched_locked (op t s) = sched_locked s" "mutexes (op t s) = mutexes s" "sems (op t s) = sems s"
  "cpu_usage (op t s) = cpu_usage s"
  "thread_switch_interrupt_flag (op t s) = thread_switch_interrupt_flag s"
  "interrupt_from_thread (op t s) = interrupt_from_thread s"
  "interrupt_to_thread (op t s) = interrupt_to_thread s"
  using frame_law [of t s] by auto

lemma then_switch:
  assumes "sched_wf H q s" and "valid_prio (thr s t)" and "movable H q s t"
    and "top_thread (relocate (place (thr s t)) t q) = Some u"
  shows "sched_switch_thread (op t s) = Some (switched u (op t s))"
    and "sched_wf H (relocate (place (thr s t)) t q) (switched u (op t s))"
  using sched_switch_thread_eq [OF wf_law [OF assms(1-3)]] wf_law [OF assms(1-3)] assms(4)
  by simp_all

end

lemma rings_move:
  assumes "rings (links s) H q" and "h \<in> H" and "movable H q s t"
  shows "rings (list_insert_tail h (Thread_node t) (list_remove_node (Thread_node t) (links s))) H
           (relocate (Some h) t q)"
  using kq.move_tail [OF assms(1,2)] assms(3) by (simp add: movable_def relocate_def)

lemma rings_leave:
  assumes "rings (links s) H q" and "movable H q s t"
  shows "rings (list_remove_node (Thread_node t) (links s)) H (relocate None t q)"
  using kq.remove_law [OF assms(1)] assms(2) by (simp add: movable_def relocate_def)

lemma relocate_ready_other:
  assumes "members_ok q th" and "p < PTHREAD_READY_GROUP_MAX" and "Ready_head p \<noteq> own_queue (th t)"
    and "d \<noteq> Some (Ready_head p)"
  shows "relocate d t q (Ready_head p) = q (Ready_head p)"
proof -
  have "Thread_node t \<notin> set (q (Ready_head p))" using assms by (fastforce simp: members_ok_def)
  with assms(4) show ?thesis
    by (auto simp: relocate_def Let_def dequeue_id enqueue_def split: option.splits)
qed

lemma bitmap_ok_set:
  assumes "bitmap_ok q g" and "members_ok q th" and "valid_prio (th t)"
  shows "bitmap_ok (relocate (Some (own_queue (th t))) t q) (g OR prio_bit (th_cur_prio (th t)))"
  unfolding bitmap_ok_def
proof (intro allI impI)
  fix p assume p: "p < PTHREAD_READY_GROUP_MAX"
  let ?q = "relocate (Some (own_queue (th t))) t q"
  show "bit (g OR prio_bit (th_cur_prio (th t))) p = (?q (Ready_head p) \<noteq> [])"
  proof (cases "Ready_head p = own_queue (th t)")
    case True
    then have "?q (Ready_head p) \<noteq> []" by (simp add: relocate_def)
    with True assms(3) show ?thesis
      by (simp add: bit_or_iff bit_prio_bit valid_prio_less own_queue_def)
  next
    case False
    with relocate_ready_other [OF assms(2) p] assms(1,3) p show ?thesis
      by (simp add: bit_or_iff bit_prio_bit valid_prio_less own_queue_def bitmap_ok_def)
  qed
qed

lemma bitmap_ok_clear:
  assumes "bitmap_ok q g" and "members_ok q th" and "valid_prio (th t)" and "p' = th_cur_prio (th t)"
    and "d = None \<or> d = Some Sleep_head \<or> d = Some Delete_head"
  shows "bitmap_ok (relocate d t q)
           (if relocate None t q (own_queue (th t)) = [] then g AND NOT (prio_bit p') else g)"
  unfolding bitmap_ok_def
proof (intro allI impI)
  fix p assume p: "p < PTHREAD_READY_GROUP_MAX"
  have same: "relocate d t q (Ready_head p) = relocate None t q (Ready_head p)"
    using assms(5) by (auto simp: relocate_def)
  show "bit (if relocate None t q (own_queue (th t)) = [] then g AND NOT (prio_bit p') else g) p =
      (relocate d t q (Ready_head p) \<noteq> [])"
  proof (cases "Ready_head p = own_queue (th t)")
    case True
    have "set (relocate None t q (Ready_head p)) \<subseteq> set (q (Ready_head p))"
      by (auto simp: relocate_mem split: if_splits)
    moreover have "p = unat p'" using True assms(4) by (simp add: own_queue_def)
    ultimately show ?thesis using assms(1,3,4) p True same
      by (auto simp: bit_simps bit_prio_bit valid_prio_less bitmap_ok_def)
  next
    case False
    with relocate_ready_other [OF assms(2) p False] assms p same show ?thesis
      by (auto simp: bit_simps bit_prio_bit valid_prio_less own_queue_def bitmap_ok_def
          PTHREAD_READY_GROUP_MAX_def)
  qed
qed


definition ready_place :: "os_pthread \<Rightarrow> lnode option" where
  "ready_place x = Some (own_queue x)"

lemma set_ready_eq:
  "sched_set_thread_ready t s =
     s\<lparr>links := list_insert_tail (own_queue (thr s t)) (Thread_node t)
                  (list_remove_node (Thread_node t) (links s)),
       thr := (thr s)(t := with_status PTHREAD_STATE_READY (thr s t)),
       thread_ready_group := thread_ready_group s OR prio_bit (th_cur_prio (thr s t))\<rparr>"
  "sched_set_thread_int t s =
     s\<lparr>links := list_insert_tail (own_queue (thr s t)) (Thread_node t)
                  (list_remove_node (Thread_node t) (links s)),
       thr := (thr s)(t := with_status PTHREAD_STATE_INT (thr s t)),
       thread_ready_group := thread_ready_group s OR prio_bit (th_cur_prio (thr s t))\<rparr>"
  by (simp_all add: sched_set_thread_ready_def sched_set_thread_int_def kernel_simps Let_def
      own_queue_def with_status_def)

definition left_group :: "addr \<Rightarrow> 'a kstate_scheme \<Rightarrow> os_u32" where
  "left_group t s =
     (if list_is_empty (own_queue (thr s t)) (list_remove_node (Thread_node t) (links s))
      then thread_ready_group s AND NOT (prio_bit (th_cur_prio (thr s t)))
      else thread_ready_group s)"

lemma leave_ready_eq:
  "sched_set_thread_suspend t s =
     s\<lparr>links := list_remove_node (Thread_node t) (links s),
       thr := (thr s)(t := with_status PTHREAD_STATE_SUSPEND (thr s t)),
       thread_ready_group := left_group t s\<rparr>"
  "sched_set_thread_close t s =
     s\<lparr>links := list_remove_node (Thread_node t) (links s),
       thr := (thr s)(t := with_status PTHREAD_STATE_CLOSED (thr s t)),
       thread_ready_group := left_group t s\<rparr>"
  "sched_set_thread_sleep t s =
     s\<lparr>links := list_insert_tail Sleep_head (Thread_node t)
                  (list_remove_node (Thread_node t) (links s)),
       thr := (thr s)(t := with_status PTHREAD_STATE_SLEEP (thr s t)),
       thread_ready_group := left_group t s\<rparr>"
  "sched_reclaim_thread t s =
     s\<lparr>links := list_insert_tail Delete_head (Thread_node t)
                  (list_remove_node (Thread_node t) (links s)),
       thr := (thr s)(t := with_status PTHREAD_STATE_CLOSED (thr s t)),
       thread_ready_group := left_group t s\<rparr>"
  by (simp_all add: sched_set_thread_suspend_def sched_set_thread_close_def sched_reclaim_thread_def
      sched_set_thread_sleep_def sched_leave_ready_def kernel_simps Let_def own_queue_def
      with_status_def left_group_def)

lemmas transition_eqs = set_ready_eq leave_ready_eq

lemma left_group_bitmap:
  assumes "sched_wf H q s" and "valid_prio (thr s t)" and "movable H q s t"
    and "d = None \<or> d = Some Sleep_head \<or> d = Some Delete_head"
  shows "bitmap_ok (relocate d t q) (left_group t s)"
proof -
  note wf = sched_wfD [OF assms(1)]
  have "own_queue (thr s t) \<in> H" using own_queue_in_heads [OF assms(2)] wf(2) by blast
  then have "list_is_empty (own_queue (thr s t)) (list_remove_node (Thread_node t) (links s)) \<longleftrightarrow>
      relocate None t q (own_queue (thr s t)) = []"
    using kq.empty_law [OF rings_leave [OF wf(1) assms(3)]] by simp
  with bitmap_ok_clear [OF wf(3,4) assms(2) refl assms(4)] show ?thesis
    by (simp add: left_group_def)
qed

lemma set_ready_wf:
  assumes "sched_wf H q s" and "valid_prio (thr s t)" and "movable H q s t"
  shows "sched_wf H (relocate (ready_place (thr s t)) t q) (sched_set_thread_ready t s)"
    and "sched_wf H (relocate (ready_place (thr s t)) t q) (sched_set_thread_int t s)"
proof -
  note wf = sched_wfD [OF assms(1)]
  have h: "own_queue (thr s t) \<in> H" using own_queue_in_heads [OF assms(2)] wf(2) by blast
  note facts = rings_move [OF wf(1) h assms(3)] bitmap_ok_set [OF wf(3,4) assms(2)]
  show "sched_wf H (relocate (ready_place (thr s t)) t q) (sched_set_thread_ready t s)"
    by (rule sched_wf_relocate [OF assms(1,2)])
      (use facts in \<open>auto simp: transition_eqs ready_place_def place_ok_def\<close>)
  show "sched_wf H (relocate (ready_place (thr s t)) t q) (sched_set_thread_int t s)"
    by (rule sched_wf_relocate [OF assms(1,2)])
      (use facts in \<open>auto simp: transition_eqs ready_place_def place_ok_def\<close>)
qed

lemma leave_ready_wf:
  assumes "sched_wf H q s" and "valid_prio (thr s t)" and "movable H q s t"
  shows "sched_wf H (relocate None t q) (sched_set_thread_suspend t s)"
    and "sched_wf H (relocate None t q) (sched_set_thread_close t s)"
    and "sched_wf H (relocate (Some Sleep_head) t q) (sched_set_thread_sleep t s)"
    and "sched_wf H (relocate (Some Delete_head) t q) (sched_reclaim_thread t s)"
proof -
  note wf = sched_wfD [OF assms(1)]
  have h: "Sleep_head \<in> H" "Delete_head \<in> H" using wf(2) by (auto simp: sched_heads_def)
  note rl = sched_wf_relocate [OF assms(1,2)]
    and bm = left_group_bitmap [OF assms]
    and rg = rings_leave [OF wf(1) assms(3)] rings_move [OF wf(1) h(1) assms(3)]
      rings_move [OF wf(1) h(2) assms(3)]
  show "sched_wf H (relocate None t q) (sched_set_thread_suspend t s)"
    by (rule rl) (use bm rg in \<open>auto simp: transition_eqs place_ok_def pthread_state_defs\<close>)
  show "sched_wf H (relocate None t q) (sched_set_thread_close t s)"
    by (rule rl) (use bm rg in \<open>auto simp: transition_eqs place_ok_def pthread_state_defs\<close>)
  show "sched_wf H (relocate (Some Sleep_head) t q) (sched_set_thread_sleep t s)"
    by (rule rl) (use bm rg in \<open>auto simp: transition_eqs place_ok_def pthread_state_defs\<close>)
  show "sched_wf H (relocate (Some Delete_head) t q) (sched_reclaim_thread t s)"
    by (rule rl) (use bm rg in \<open>auto simp: transition_eqs place_ok_def pthread_state_defs\<close>)
qed

interpretation set_ready: thread_transition sched_set_thread_ready ready_place PTHREAD_STATE_READY
  by unfold_locales (use set_ready_wf in \<open>auto simp: transition_eqs\<close>)

interpretation set_int: thread_transition sched_set_thread_int ready_place PTHREAD_STATE_INT
  by unfold_locales (use set_ready_wf in \<open>auto simp: transition_eqs\<close>)

interpretation set_suspend: thread_transition sched_set_thread_suspend "\<lambda>_. None" PTHREAD_STATE_SUSPEND
  by unfold_locales (use leave_ready_wf in \<open>auto simp: transition_eqs\<close>)

interpretation set_close: thread_transition sched_set_thread_close "\<lambda>_. None" PTHREAD_STATE_CLOSED
  by unfold_locales (use leave_ready_wf in \<open>auto simp: transition_eqs\<close>)

interpretation set_sleep: thread_transition sched_set_thread_sleep "\<lambda>_. Some Sleep_head" PTHREAD_STATE_SLEEP
  by unfold_locales (use leave_ready_wf in \<open>auto simp: transition_eqs\<close>)

interpretation reclaim: thread_transition sched_reclaim_thread "\<lambda>_. Some Delete_head" PTHREAD_STATE_CLOSED
  by unfold_locales (use leave_ready_wf in \<open>auto simp: transition_eqs\<close>)

end
