(* ===== verification/Sched_Tick.thy ===== *)
theory Sched_Tick
  imports Sched
begin

text \<open>
  What the scheduler does over time: the countdown of the sleepers and the time slice of the
  running thread at each system tick, the CPU-usage window, yielding, deleting, registering
  and initialising, all over the definitions of \<open>Sched\<close> and its invariant \<open>sched_wf\<close>. The properties
  of the scheduler are stated at the end, together with the concrete system on
  which their witnesses are evaluated.
\<close>

section \<open>Waking the sleepers\<close>

definition due :: "os_pthread \<Rightarrow> bool" where
  "due x \<longleftrightarrow> th_sleep_ticks x = 1"

definition slept :: "os_pthread \<Rightarrow> os_pthread" where
  "slept x =
     (let x' = x\<lparr>th_sleep_ticks := th_sleep_ticks x - 1\<rparr>
      in if due x then with_status PTHREAD_STATE_READY x' else x')"

definition wake_thr :: "addr list \<Rightarrow> (addr \<Rightarrow> os_pthread) \<Rightarrow> addr \<Rightarrow> os_pthread" where
  "wake_thr ts th = (\<lambda>t. if t \<in> set ts then slept (th t) else th t)"

text \<open>The queues when the sleepers \<open>ts\<close> have been counted down and \<open>rest\<close> are still to come.\<close>

definition wake_q ::
  "(addr \<Rightarrow> os_pthread) \<Rightarrow> addr list \<Rightarrow> addr list \<Rightarrow> (lnode \<Rightarrow> lnode list) \<Rightarrow> lnode \<Rightarrow> lnode list" where
  "wake_q th ts rest q h =
     (if h = Sleep_head then map Thread_node (filter (\<lambda>t. \<not> due (th t)) ts @ rest)
      else q h @ map Thread_node (filter (\<lambda>t. due (th t) \<and> own_queue (th t) = h) ts))"

lemma sched_wf_q_cong:
  assumes "sched_wf H q s" and "\<And>h. h \<in> H \<Longrightarrow> q' h = q h"
  shows "sched_wf H q' s"
proof -
  note wf = sched_wfD [OF assms(1)]
  have heads: "q' h = q h" if "h \<in> sched_heads" for h using wf(2) assms(2) that by blast
  have "rings (links s) H q'" using wf(1) assms(2) rings_cong by metis
  moreover have "bitmap_ok q' (thread_ready_group s)"
    using wf(3) heads by (auto simp: bitmap_ok_def sched_heads_def)
  moreover have "members_ok q' (thr s)"
    using wf(4) heads by (auto simp: members_ok_def sched_heads_def)
  moreover have "registered_ok q' (thr s)"
    using wf(5) heads own_queue_in_heads by (auto simp: registered_ok_def sched_heads_def)
  ultimately show ?thesis using wf(2) by (simp add: sched_wf_def)
qed

lemma sched_wf_thr_cong:
  assumes "sched_wf H q s" and "links s' = links s" and "thread_ready_group s' = thread_ready_group s"
    and "\<And>t. th_status (thr s' t) = th_status (thr s t) \<and> th_cur_prio (thr s' t) = th_cur_prio (thr s t)"
  shows "sched_wf H q s'"
  using assms by (auto simp: sched_wf_def members_ok_def registered_ok_def runnable_def own_queue_def
      valid_prio_def)

lemma movable_cong: "links s' = links s \<Longrightarrow> movable H q s' t = movable H q s t"
  by (simp add: movable_def)

lemma sleeper_valid:
  assumes "sched_wf H q s" and "Thread_node t \<in> set (q Sleep_head)"
  shows "valid_prio (thr s t)" and "movable H q s t"
proof -
  show "valid_prio (thr s t)"
    using sched_wfD(4) [OF assms(1)] assms(2) by (fastforce simp: members_ok_def)
  have "Sleep_head \<in> H" using sched_wfD(2) [OF assms(1)] by (auto simp: sched_heads_def)
  with assms(2) show "movable H q s t" by (auto simp: movable_def queued_def)
qed

lemma wakeup_one_eq:
  "wakeup_one (Thread_node t) s =
     (let s1 = s\<lparr>thr := (thr s)(t := (thr s t)\<lparr>th_sleep_ticks := th_sleep_ticks (thr s t) - 1\<rparr>)\<rparr>
      in Some (if due (thr s t) then sched_set_thread_ready t s1 else s1))"
  by (simp add: wakeup_one_def kernel_simps due_def)

lemma wakeup_one_spec:
  assumes wf: "sched_wf H q s" and x: "Thread_node t \<in> set (q Sleep_head)"
  defines "q' \<equiv> (if due (thr s t) then relocate (ready_place (thr s t)) t q else q)"
  shows "\<exists>l g. wakeup_one (Thread_node t) s =
           Some (s\<lparr>links := l, thr := (thr s)(t := slept (thr s t)), thread_ready_group := g\<rparr>)"
    and "wakeup_one (Thread_node t) s = Some s' \<Longrightarrow> sched_wf H q' s'"
proof -
  define s1 where "s1 = s\<lparr>thr := (thr s)(t := (thr s t)\<lparr>th_sleep_ticks := th_sleep_ticks (thr s t) - 1\<rparr>)\<rparr>"
  have eq: "wakeup_one (Thread_node t) s = Some (if due (thr s t) then sched_set_thread_ready t s1 else s1)"
    by (simp add: wakeup_one_eq s1_def)
  show "\<exists>l g. wakeup_one (Thread_node t) s =
           Some (s\<lparr>links := l, thr := (thr s)(t := slept (thr s t)), thread_ready_group := g\<rparr>)"
  proof (cases "due (thr s t)")
    case True
    then show ?thesis by (auto simp: eq transition_eqs s1_def slept_def Let_def)
  next
    case False
    then show ?thesis by (intro exI [of _ "links s"] exI [of _ "thread_ready_group s"])
      (simp add: eq s1_def slept_def Let_def)
  qed
  have wf1: "sched_wf H q s1" by (rule sched_wf_thr_cong [OF wf]) (auto simp: s1_def)
  assume "wakeup_one (Thread_node t) s = Some s'"
  moreover have "ready_place (thr s1 t) = ready_place (thr s t)"
    by (simp add: s1_def ready_place_def own_queue_def)
  ultimately show "sched_wf H q' s'"
    using wf1 set_ready.wf_law [OF wf1 sleeper_valid [OF wf1 x]] by (auto simp: eq q'_def)
qed


lemma relocate_removeAll:
  "relocate (Some k) t q h =
     (if h = k then removeAll (Thread_node t) (q h) @ [Thread_node t] else removeAll (Thread_node t) (q h))"
  by (auto simp: relocate_def dequeue_def enqueue_def)

lemma removeAll_map_inj: "inj f \<Longrightarrow> removeAll (f t) (map f ts) = map f (removeAll t ts)"
  by (induction ts) (auto dest: injD)

lemma inj_Thread_node: "inj Thread_node"
  by (auto intro: injI)

lemma wake_q_step:
  assumes "t \<notin> set ts" and "t \<notin> set rest" and "h \<noteq> Sleep_head \<Longrightarrow> Thread_node t \<notin> set (q h)"
  shows "wake_q th (ts @ [t]) rest q h =
    (if due (th t) then relocate (ready_place (th t)) t (wake_q th ts (t # rest) q)
     else wake_q th ts (t # rest) q) h"
proof (cases "h = Sleep_head")
  case True
  have "removeAll (Thread_node t) (map Thread_node ys) = map Thread_node ys" if "t \<notin> set ys" for ys
    using that by (auto simp: removeAll_map_inj [OF inj_Thread_node])
  with True assms(1,2) show ?thesis
    by (auto simp: wake_q_def ready_place_def relocate_removeAll own_queue_def)
next
  case False
  have "removeAll (Thread_node t) (map Thread_node ys) = map Thread_node ys" if "t \<notin> set ys" for ys
    using that by (auto simp: removeAll_map_inj [OF inj_Thread_node])
  with False assms(1,3) show ?thesis
    by (auto simp: wake_q_def ready_place_def relocate_removeAll)
qed

definition wake_inv ::
  "lnode set \<Rightarrow> (lnode \<Rightarrow> lnode list) \<Rightarrow> 'a kstate_scheme \<Rightarrow> lnode list \<Rightarrow> 'a kstate_scheme \<Rightarrow> bool" where
  "wake_inv H q s xs s' \<longleftrightarrow>
     (\<exists>ts rest. xs = map Thread_node rest \<and> q Sleep_head = map Thread_node (ts @ rest) \<and>
        sched_wf H (wake_q (thr s) ts rest q) s' \<and>
        (\<exists>l g. s' = s\<lparr>links := l, thr := wake_thr ts (thr s), thread_ready_group := g\<rparr>))"

lemma wake_thr_snoc:
  "t \<notin> set ts \<Longrightarrow> (wake_thr ts th)(t := slept (wake_thr ts th t)) = wake_thr (ts @ [t]) th"
  by (auto simp: wake_thr_def fun_eq_iff)

lemma rings_next_inside:
  assumes "rings l H q" and "h \<in> H" and "q h = as @ x # bs"
  shows "next_of l x = hd (bs @ [h])"
  using chain_distinct_prev_next(2) [of l h as x bs] ringsD(1) [OF assms(1,2)] assms(3)
  by (simp add: ring_def)

lemma wake_inv_step:
  assumes wf0: "sched_wf H q s" and I: "wake_inv H q s (x # xs) s'"
  shows "x \<noteq> Sleep_head \<and> next_of (links s') x = hd (xs @ [Sleep_head]) \<and>
         (\<exists>s''. wakeup_one x s' = Some s'' \<and> wake_inv H q s xs s'')"
proof -
  from I obtain ts t rest l g where x: "x = Thread_node t" "xs = map Thread_node rest"
    and qs: "q Sleep_head = map Thread_node (ts @ t # rest)"
    and wf: "sched_wf H (wake_q (thr s) ts (t # rest) q) s'"
    and s': "s' = s\<lparr>links := l, thr := wake_thr ts (thr s), thread_ready_group := g\<rparr>"
    by (auto simp: wake_inv_def Cons_eq_map_conv)
  let ?q = "wake_q (thr s) ts (t # rest) q"
  note rg = sched_wfD(1) [OF wf0]
  have sl: "Sleep_head \<in> H" using sched_wfD(2) [OF wf0] by (auto simp: sched_heads_def)
  have "distinct (map Thread_node (ts @ t # rest))"
    using ringsD(1) [OF rg sl] qs by (simp add: ring_def)
  then have d: "distinct (ts @ t # rest)" by (simp only: distinct_map)
  then have nt: "t \<notin> set ts" "t \<notin> set rest" by auto
  have inq: "Thread_node t \<in> set (?q Sleep_head)" by (simp add: wake_q_def)
  have tt: "thr s' t = thr s t" using nt by (simp add: s' wake_thr_def)
  have other: "Thread_node t \<notin> set (q h)" if "h \<in> H" "h \<noteq> Sleep_head" for h
    using kq.unique [OF rg that(1) sl] that(2) qs by auto
  from wakeup_one_spec(1) [OF wf inq] obtain l' g' where w: "wakeup_one x s' =
      Some (s\<lparr>links := l', thr := wake_thr (ts @ [t]) (thr s), thread_ready_group := g'\<rparr>)"
    using wake_thr_snoc [OF nt(1)] by (auto simp: x s')
  have "sched_wf H (wake_q (thr s) (ts @ [t]) rest q)
      (s\<lparr>links := l', thr := wake_thr (ts @ [t]) (thr s), thread_ready_group := g'\<rparr>)"
    by (rule sched_wf_q_cong [OF wakeup_one_spec(2) [OF wf inq w [unfolded x]]])
      (use wake_q_step [OF nt] other in \<open>auto simp: tt\<close>)
  then have "wake_inv H q s xs (s\<lparr>links := l', thr := wake_thr (ts @ [t]) (thr s), thread_ready_group := g'\<rparr>)"
    using qs x(2) unfolding wake_inv_def by (intro exI [of _ "ts @ [t]"] exI [of _ rest]) auto
  moreover have "next_of (links s') x = hd (xs @ [Sleep_head])"
    using rings_next_inside [OF sched_wfD(1) [OF wf] sl,
        of "map Thread_node (filter (\<lambda>t. \<not> due (thr s t)) ts)" x xs]
    by (simp add: wake_q_def x)
  ultimately show ?thesis using w x(1) by auto
qed

lemma wakeup_sleep_spec:
  assumes wf: "sched_wf H q s" and qs: "q Sleep_head = map Thread_node ts"
  shows "\<exists>l g. sched_wakeup_sleep_thread s =
       Some (s\<lparr>links := l, thr := wake_thr ts (thr s), thread_ready_group := g\<rparr>) \<and>
     sched_wf H (wake_q (thr s) ts [] q)
       (s\<lparr>links := l, thr := wake_thr ts (thr s), thread_ready_group := g\<rparr>)"
proof -
  have sl: "Sleep_head \<in> H" using sched_wfD(2) [OF wf] by (auto simp: sched_heads_def)
  have nx: "next_of (links s) Sleep_head = hd (map Thread_node ts @ [Sleep_head])"
    using kq.first_law [OF sched_wfD(1) [OF wf] sl] qs by simp
  have "sched_wf H (wake_q (thr s) [] ts q) s"
    by (rule sched_wf_q_cong [OF wf]) (simp add: wake_q_def qs)
  moreover have "s = s\<lparr>links := links s, thr := wake_thr [] (thr s), thread_ready_group := thread_ready_group s\<rparr>"
    by (simp add: wake_thr_def)
  ultimately have "wake_inv H q s (map Thread_node ts) s"
    using qs unfolding wake_inv_def by (metis append_Nil)
  from list_for_each_safe_rule [where I = "wake_inv H q s" and get = links, OF wake_inv_step [OF wf] this]
  obtain s' where s': "sched_wakeup_sleep_thread s = Some s'" and I: "wake_inv H q s [] s'"
    by (auto simp: sched_wakeup_sleep_thread_def nx)
  from I obtain ts' l g where "map Thread_node ts = map Thread_node ts'"
    and *: "sched_wf H (wake_q (thr s) ts' [] q) s'"
      "s' = s\<lparr>links := l, thr := wake_thr ts' (thr s), thread_ready_group := g\<rparr>"
    by (auto simp: wake_inv_def qs)
  then have "ts' = ts" using inj_Thread_node by (metis inj_map_eq_map)
  with * s' show ?thesis by auto
qed


section \<open>The system tick\<close>

definition slice_thr :: "os_pthread \<Rightarrow> os_pthread" where
  "slice_thr x =
     (let x' = x\<lparr>th_cur_ticks := th_cur_ticks x - 1\<rparr>
      in if th_cur_ticks x = 1 then with_status PTHREAD_STATE_READY x' else x')"

definition slice_q :: "addr \<Rightarrow> os_pthread \<Rightarrow> (lnode \<Rightarrow> lnode list) \<Rightarrow> lnode \<Rightarrow> lnode list" where
  "slice_q t x q = (if th_cur_ticks x = 1 then relocate (ready_place x) t q else q)"

text \<open>The current thread is linked in its ready queue: so it is, except between a blocking
  operation and the switch that follows it.\<close>

definition current_ready :: "(lnode \<Rightarrow> lnode list) \<Rightarrow> 'a kstate_scheme \<Rightarrow> bool" where
  "current_ready q s \<longleftrightarrow>
     valid_prio (thr s (current_thread s)) \<and>
     Thread_node (current_thread s) \<in> set (q (own_queue (thr s (current_thread s))))"

lemma current_ready_movable:
  "sched_wf H q s \<Longrightarrow> current_ready q s \<Longrightarrow> movable H q s (current_thread s)"
  using own_queue_in_heads sched_wfD(2) by (fastforce simp: current_ready_def movable_def queued_def)

lemma proc_current_spec:
  assumes wf: "sched_wf H q s" and vp: "valid_prio (thr s (current_thread s))"
    and mv: "movable H q s (current_thread s)"
  defines "t \<equiv> current_thread s"
  shows "\<exists>l g. sched_proc_current_thread s =
           s\<lparr>links := l, thr := (thr s)(t := slice_thr (thr s t)), thread_ready_group := g\<rparr>"
    and "sched_wf H (slice_q t (thr s t) q) (sched_proc_current_thread s)"
proof -
  define s1 where "s1 = s\<lparr>thr := (thr s)(t := (thr s t)\<lparr>th_cur_ticks := th_cur_ticks (thr s t) - 1\<rparr>)\<rparr>"
  have eq: "sched_proc_current_thread s =
      (if th_cur_ticks (thr s t) = 1 then sched_set_thread_ready t s1 else s1)"
    by (simp add: sched_proc_current_thread_def kernel_simps s1_def t_def Let_def)
  show "\<exists>l g. sched_proc_current_thread s =
           s\<lparr>links := l, thr := (thr s)(t := slice_thr (thr s t)), thread_ready_group := g\<rparr>"
  proof (cases "th_cur_ticks (thr s t) = 1")
    case True
    then show ?thesis by (auto simp: eq transition_eqs s1_def slice_thr_def Let_def)
  next
    case False
    then show ?thesis by (intro exI [of _ "links s"] exI [of _ "thread_ready_group s"])
      (simp add: eq s1_def slice_thr_def Let_def)
  qed
  have wf1: "sched_wf H q s1" by (rule sched_wf_thr_cong [OF wf]) (auto simp: s1_def)
  have v: "valid_prio (thr s1 t)" and pl: "ready_place (thr s1 t) = ready_place (thr s t)"
    using vp by (auto simp: s1_def t_def valid_prio_def ready_place_def own_queue_def)
  have "movable H q s1 t" using mv by (simp add: s1_def t_def movable_def)
  from set_ready.wf_law [OF wf1 v this] wf1
  show "sched_wf H (slice_q t (thr s t) q) (sched_proc_current_thread s)"
    by (simp add: eq slice_q_def pl)
qed

lemma neg_minus_one: "- x - 1 = - 1 - (x :: 'a :: len word)"
  by (metis diff_conv_add_uminus add.commute)

lemma proc_current_running:
  "th_cur_ticks (thr s (current_thread s)) - 1 \<noteq> 0 \<Longrightarrow> sched_proc_current_thread s =
     s\<lparr>thr := (thr s)(current_thread s := (thr s (current_thread s))
       \<lparr>th_cur_ticks := th_cur_ticks (thr s (current_thread s)) - 1\<rparr>)\<rparr>"
  by (simp add: sched_proc_current_thread_def kernel_simps Let_def)

definition usage_tick :: "os_u32 \<Rightarrow> bool \<Rightarrow> usage \<Rightarrow> usage" where
  "usage_tick tick busy u =
     (let u = u\<lparr>u_cur_ticks := u_cur_ticks u + 1\<rparr>;
          u = (if busy then u\<lparr>u_run_count := u_run_count u + ucast (SCHED_PERIOD div tick)\<rparr> else u)
      in if u_cur_ticks u \<ge> u_min_ticks u
         then u\<lparr>u_usage := u_run_count u div u_min_ticks u, u_run_count := 0, u_cur_ticks := 0\<rparr>
         else u)"

lemma proc_cpu_usage_eq:
  "sched_proc_cpu_usage tick s =
     s\<lparr>cpu_usage := usage_tick tick (th_type (thr s (current_thread s)) \<noteq> PTHREAD_TYPE_IDLE) (cpu_usage s)\<rparr>"
  by (simp add: sched_proc_cpu_usage_def usage_tick_def Let_def get_current_thread_def)

lemma slice_q_nonempty:
  "Thread_node t \<in> set (q (own_queue x)) \<Longrightarrow> Thread_node t \<in> set (slice_q t x q (own_queue x))"
  by (simp add: slice_q_def relocate_mem ready_place_def)

lemma slice_q_sleep [simp]:
  "Thread_node t \<notin> set (q Sleep_head) \<Longrightarrow> slice_q t x q Sleep_head = q Sleep_head"
  by (simp add: slice_q_def relocate_removeAll ready_place_def own_queue_def)

lemma current_not_sleeping:
  assumes "sched_wf H q s" and "current_ready q s"
  shows "Thread_node (current_thread s) \<notin> set (q Sleep_head)"
proof
  assume a: "Thread_node (current_thread s) \<in> set (q Sleep_head)"
  have "own_queue (thr s (current_thread s)) \<in> H" "Sleep_head \<in> H"
    using sched_wfD(2) [OF assms(1)] own_queue_in_H [OF assms(1)] assms(2)
    by (auto simp: current_ready_def sched_heads_def)
  from kq.unique [OF sched_wfD(1) [OF assms(1)] this(2,1) a] assms(2) show False
    by (simp add: current_ready_def own_queue_def)
qed

text \<open>The queues and the threads after one tick.\<close>

definition tick_q :: "'a kstate_scheme \<Rightarrow> addr list \<Rightarrow> (lnode \<Rightarrow> lnode list) \<Rightarrow> lnode \<Rightarrow> lnode list" where
  "tick_q s ts q =
     (let t = current_thread s in wake_q (thr s) ts [] (slice_q t (thr s t) q))"

definition tick_thr :: "'a kstate_scheme \<Rightarrow> addr list \<Rightarrow> addr \<Rightarrow> os_pthread" where
  "tick_thr s ts =
     (let t = current_thread s in wake_thr ts ((thr s)(t := slice_thr (thr s t))))"

lemma slice_thr_due: "due (slice_thr x) = due x" "own_queue (slice_thr x) = own_queue x"
  by (auto simp: due_def slice_thr_def Let_def with_status_def own_queue_def)

lemma wake_q_thr_cong:
  "(\<And>t. due (th' t) = due (th t) \<and> own_queue (th' t) = own_queue (th t)) \<Longrightarrow>
   wake_q th' ts rest q = wake_q th ts rest q"
  by (simp add: wake_q_def fun_eq_iff)

lemma slice_wake_run:
  assumes wf: "sched_wf H q s" and cur: "current_ready q s" and qs: "q Sleep_head = map Thread_node ts"
  shows "\<exists>l g. sched_wakeup_sleep_thread (sched_proc_current_thread s) =
      Some (s\<lparr>links := l, thr := tick_thr s ts, thread_ready_group := g\<rparr>) \<and>
    sched_wf H (tick_q s ts q) (s\<lparr>links := l, thr := tick_thr s ts, thread_ready_group := g\<rparr>)"
proof -
  define t where "t = current_thread s"
  have vp: "valid_prio (thr s (current_thread s))" using cur by (simp add: current_ready_def)
  note mv = current_ready_movable [OF wf cur]
  from proc_current_spec(1) [OF wf vp mv] obtain l1 g1 where
    s1: "sched_proc_current_thread s =
      s\<lparr>links := l1, thr := (thr s)(t := slice_thr (thr s t)), thread_ready_group := g1\<rparr>"
    by (auto simp: t_def)
  define s1 where "s1 = sched_proc_current_thread s"
  have wf1: "sched_wf H (slice_q t (thr s t) q) s1"
    using proc_current_spec(2) [OF wf vp mv] by (simp add: t_def s1_def)
  have qs1: "slice_q t (thr s t) q Sleep_head = map Thread_node ts"
    using current_not_sleeping [OF wf cur] qs by (simp add: t_def)
  have thr1: "thr s1 = (thr s)(t := slice_thr (thr s t))" by (simp add: s1_def s1)
  have q2: "wake_q (thr s1) ts [] (slice_q t (thr s t) q) = tick_q s ts q"
    unfolding tick_q_def Let_def t_def [symmetric]
    by (rule wake_q_thr_cong) (simp add: thr1 slice_thr_due)
  have th2: "wake_thr ts (thr s1) = tick_thr s ts" by (simp add: tick_thr_def thr1 t_def Let_def)
  from wakeup_sleep_spec [OF wf1 qs1, unfolded q2 th2] show ?thesis
    unfolding s1_def [symmetric] by (auto simp: s1_def s1)
qed

lemma tick_q_current:
  assumes "current_ready q s"
  defines "p \<equiv> unat (th_cur_prio (thr s (current_thread s)))"
  shows "p < PTHREAD_READY_GROUP_MAX" and "tick_q s ts q (Ready_head p) \<noteq> []"
proof -
  have "Thread_node (current_thread s) \<in> set (tick_q s ts q (Ready_head p))"
    using assms(1) slice_q_nonempty [of "current_thread s" q "thr s (current_thread s)"]
    by (auto simp: tick_q_def wake_q_def current_ready_def p_def own_queue_def Let_def)
  then show "tick_q s ts q (Ready_head p) \<noteq> []" by auto
  show "p < PTHREAD_READY_GROUP_MAX"
    using assms(1) valid_prio_less by (simp add: current_ready_def p_def PTHREAD_READY_GROUP_MAX_def)
qed

lemma sched_proc_run:
  assumes wf: "sched_wf H q s" and un: "sched_locked s \<noteq> SCHED_IS_LOCKED"
    and cur: "current_ready q s" and qs: "q Sleep_head = map Thread_node ts"
  obtains t' s' where "sched_proc tick s = Some s'" and "top_thread (tick_q s ts q) = Some t'"
    and "current_thread s' = t'" and "sched_wf H (tick_q s ts q) s'" and "thr s' = tick_thr s ts"
    and "primask s' = primask s" and "sched_locked s' = sched_locked s"
    and "mutexes s' = mutexes s" and "sems s' = sems s"
    and "cpu_usage s' = usage_tick tick (th_type (thr s' t') \<noteq> PTHREAD_TYPE_IDLE) (cpu_usage s)"
proof -
  define s0 where "s0 = s\<lparr>primask := True\<rparr>"
  have wf0: "sched_wf H q s0" by (rule sched_wf_cong [THEN iffD2, OF _ _ _ wf]) (simp_all add: s0_def)
  have cur0: "current_ready q s0" using cur by (simp add: current_ready_def s0_def)
  have same: "tick_q s0 ts q = tick_q s ts q" "tick_thr s0 ts = tick_thr s ts"
    by (simp_all add: s0_def tick_q_def tick_thr_def)
  from slice_wake_run [OF wf0 cur0 qs] obtain l g where
    w: "sched_wakeup_sleep_thread (sched_proc_current_thread s0) =
        Some (s0\<lparr>links := l, thr := tick_thr s ts, thread_ready_group := g\<rparr>)"
    and wf2: "sched_wf H (tick_q s ts q) (s0\<lparr>links := l, thr := tick_thr s ts, thread_ready_group := g\<rparr>)"
    unfolding same by auto
  obtain t' where t': "top_thread (tick_q s ts q) = Some t'"
    using top_thread_Some [OF wf2 tick_q_current [OF cur]] by blast
  define s3 where "s3 = switched t' (s0\<lparr>links := l, thr := tick_thr s ts, thread_ready_group := g\<rparr>)"
  let ?s' = "hw_interrupt_recover (primask s) (sched_proc_cpu_usage tick s3)"
  have run: "sched_proc tick s = Some ?s'"
    using un sched_switch_thread_eq [OF wf2] t' w
    by (simp add: sched_proc_def hw_interrupt_suspend_def s0_def [symmetric] s3_def)
  show ?thesis
  proof (rule that [OF run t'])
    show "sched_wf H (tick_q s ts q) ?s'"
      by (rule sched_wf_cong [THEN iffD2, OF _ _ _ wf2])
        (simp_all add: hw_interrupt_recover_def proc_cpu_usage_eq s3_def)
  qed (simp_all add: hw_interrupt_recover_def proc_cpu_usage_eq s3_def s0_def)
qed


section \<open>The CPU-usage window\<close>

definition usage_run :: "os_u32 \<Rightarrow> addr list \<Rightarrow> 'a kstate_scheme \<Rightarrow> 'a kstate_scheme" where
  "usage_run tick cs s = fold (\<lambda>c s. sched_proc_cpu_usage tick (s\<lparr>current_thread := c\<rparr>)) cs s"

definition busy :: "'a kstate_scheme \<Rightarrow> addr \<Rightarrow> bool" where
  "busy s c \<longleftrightarrow> th_type (thr s c) \<noteq> PTHREAD_TYPE_IDLE"

lemma usage_run_fold:
  "cpu_usage (usage_run tick cs s) = fold (usage_tick tick) (map (busy s) cs) (cpu_usage s)"
  by (induction cs arbitrary: s) (auto simp: usage_run_def proc_cpu_usage_eq busy_def [abs_def])

lemma usage_tick_early:
  "\<not> u_min_ticks u \<le> u_cur_ticks u + 1 \<Longrightarrow>
   usage_tick tick b u = u\<lparr>u_cur_ticks := u_cur_ticks u + 1,
     u_run_count := u_run_count u + (if b then ucast (SCHED_PERIOD div tick) else 0)\<rparr>"
  by (simp add: usage_tick_def Let_def)

lemma usage_tick_end:
  "u_min_ticks u \<le> u_cur_ticks u + 1 \<Longrightarrow>
   usage_tick tick b u = u\<lparr>u_cur_ticks := 0, u_run_count := 0,
     u_usage := (u_run_count u + (if b then ucast (SCHED_PERIOD div tick) else 0)) div u_min_ticks u\<rparr>"
  by (simp add: usage_tick_def Let_def)

lemma usage_partial:
  fixes m :: os_u16
  assumes m: "m = ucast (SCHED_PERIOD div tick)" "u_min_ticks u = m"
    and z: "u_cur_ticks u = 0" "u_run_count u = 0" and len: "length bs < unat m"
  shows "fold (usage_tick tick) bs u =
    u\<lparr>u_cur_ticks := of_nat (length bs), u_run_count := of_nat (length (filter (\<lambda>b. b) bs)) * m\<rparr>"
  using len
proof (induction bs rule: rev_induct)
  case Nil
  then show ?case using z by simp
next
  case (snoc b bs)
  then have IH: "fold (usage_tick tick) bs u =
    u\<lparr>u_cur_ticks := of_nat (length bs), u_run_count := of_nat (length (filter (\<lambda>b. b) bs)) * m\<rparr>" by simp
  have "unat (of_nat (length bs) + 1 :: os_u16) = length bs + 1"
    using snoc.prems unsigned_less [of m, where 'a = nat]
    by (simp add: unat_word_ariths unsigned_of_nat take_bit_nat_eq_self)
  then have "\<not> m \<le> of_nat (length bs) + 1" using snoc.prems by (simp add: word_le_nat_alt)
  moreover have "fold (usage_tick tick) (bs @ [b]) u = usage_tick tick b (fold (usage_tick tick) bs u)"
    by simp
  ultimately show ?case
    unfolding IH using m by (simp add: usage_tick_early algebra_simps)
qed

lemma usage_window:
  fixes m :: os_u16
  assumes m: "m = ucast (SCHED_PERIOD div tick)" "u_min_ticks u = m" "0 < m"
    and z: "u_cur_ticks u = 0" "u_run_count u = 0" and len: "length bs = unat m"
  shows "fold (usage_tick tick) bs u =
    u\<lparr>u_usage := of_nat (length (filter (\<lambda>b. b) bs)) * m div m, u_run_count := 0, u_cur_ticks := 0\<rparr>"
proof -
  have "bs \<noteq> []" using len m(3) by (auto simp: word_less_nat_alt)
  then obtain bs' b where bs: "bs = bs' @ [b]" by (metis rev_exhaust)
  have "m = of_nat (unat m)" by simp
  also have "\<dots> = of_nat (length bs') + 1" by (subst len [symmetric]) (simp add: bs)
  finally have "m \<le> of_nat (length bs') + 1" by simp
  moreover have "fold (usage_tick tick) bs u = usage_tick tick b (fold (usage_tick tick) bs' u)"
    by (simp add: bs)
  moreover have "length bs' < unat m" using len by (simp add: bs)
  ultimately show ?thesis
    using usage_partial [OF m(1,2) z, of bs'] m
    by (simp add: bs usage_tick_end algebra_simps)
qed

section \<open>Yielding, deleting, registering, initialising\<close>

lemma masked_wf: "sched_wf H q (s\<lparr>primask := b\<rparr>) = sched_wf H q s"
  by (rule sched_wf_cong) simp_all

lemma masked_transition:
  "sched_set_thread_ready t (s\<lparr>primask := b\<rparr>) = (sched_set_thread_ready t s)\<lparr>primask := b\<rparr>"
  "sched_reclaim_thread t (s\<lparr>primask := b\<rparr>) = (sched_reclaim_thread t s)\<lparr>primask := b\<rparr>"
  by (simp_all add: transition_eqs left_group_def)

lemma sched_yield_eq: "sched_yield s = sched_switch_thread (sched_set_thread_ready (current_thread s) s)"
  by (simp add: sched_yield_def kernel_simps masked_transition get_current_thread_def transition_eqs)

lemma top_prio_relocate_own:
  assumes "sched_wf H q s" and "valid_prio (thr s t)"
    and "Thread_node t \<in> set (q (own_queue (thr s t)))"
  shows "top_prio (relocate (ready_place (thr s t)) t q) = top_prio q"
proof -
  have "relocate (ready_place (thr s t)) t q (Ready_head p) = [] \<longleftrightarrow> q (Ready_head p) = []"
    if "p < PTHREAD_READY_GROUP_MAX" for p
  proof (cases "Ready_head p = own_queue (thr s t)")
    case True
    then show ?thesis using assms(3) by (auto simp: ready_place_def relocate_removeAll)
  next
    case False
    then show ?thesis
      using relocate_ready_other [OF sched_wfD(4) [OF assms(1)] that False, of "ready_place (thr s t)"]
      by (simp add: ready_place_def)
  qed
  then show ?thesis unfolding top_prio_def by (intro find_cong) auto
qed

lemma sched_delete_thread_eq:
  assumes "sched_wf H q s" and "Thread_tnode t \<in> set (q Thread_head)"
    and "valid_prio (thr s t)" and "movable H q s t"
  defines "q1 \<equiv> dequeue (Thread_tnode t) q"
  defines "s1 \<equiv> sched_reclaim_thread t (upd_links (list_remove_node (Thread_tnode t)) s)"
  shows "sched_wf H (relocate (Some Delete_head) t q1) s1"
    and "sched_delete_thread t s =
      map_option (\<lambda>u. (0, switched u s1)) (top_thread (relocate (Some Delete_head) t q1))"
proof -
  let ?l = "list_remove_node (Thread_tnode t) (links s)"
  note wf = sched_wfD [OF assms(1)]
  have th: "Thread_head \<in> H" using wf(2) by (auto simp: sched_heads_def)
  then have inq: "Thread_tnode t \<in> queued H q" using assms(2) by (auto simp: queued_def)
  then have r: "rings ?l H q1" unfolding q1_def by (intro kq.remove_law [OF wf(1)]) simp
  have other: "q1 h = q h" if "h \<in> H" "h \<noteq> Thread_head" for h
    unfolding q1_def using kq.dequeue_elsewhere [OF wf(1) th assms(2) that] .
  have rd: "q1 (Ready_head p) = q (Ready_head p)" if "p < PTHREAD_READY_GROUP_MAX" for p
    using other ready_head_in_H [OF assms(1) that] by blast
  have "bitmap_ok q1 (thread_ready_group s)" "members_ok q1 (thr s)"
    using wf(3,4) rd by (auto simp: bitmap_ok_def members_ok_def q1_def)
  moreover have "registered_ok q1 (thr s)"
    using wf(5) by (auto simp: registered_ok_def q1_def)
  ultimately have wf1: "sched_wf H q1 (upd_links (list_remove_node (Thread_tnode t)) s)"
    using r wf(2) by (simp add: sched_wf_def upd_links_def)
  have mv: "movable H q1 (upd_links (list_remove_node (Thread_tnode t)) s) t"
  proof (cases "Thread_node t \<in> queued H q")
    case True
    then show ?thesis by (simp add: movable_def q1_def)
  next
    case False
    then have det: "detached (links s) H q (Thread_node t)" using assms(4) by (simp add: movable_def)
    with kq.loose_remove [OF wf(1) _ inq] show ?thesis by (simp add: movable_def q1_def upd_links_def)
  qed
  have v: "valid_prio (thr (upd_links (list_remove_node (Thread_tnode t)) s) t)"
    using assms(3) by (simp add: upd_links_def)
  show wf2: "sched_wf H (relocate (Some Delete_head) t q1) s1"
    unfolding s1_def using reclaim.wf_law [OF wf1 v mv] by simp
  have "sched_delete_thread t s = map_option (\<lambda>s. (0, s)) (sched_switch_thread s1)"
    by (simp add: sched_delete_thread_def kernel_simps s1_def Let_def transition_eqs left_group_def
        split: Option.bind_splits)
  then show "sched_delete_thread t s =
      map_option (\<lambda>u. (0, switched u s1)) (top_thread (relocate (Some Delete_head) t q1))"
    by (simp add: sched_switch_thread_eq [OF wf2] option.map_comp o_def)
qed


lemma sched_insert_thread_wf:
  assumes "sched_wf H q s" and "Thread_tnode t \<notin> H" and "Thread_tnode t \<notin> queued H q"
    and "valid_prio (thr s t)" and "movable H q s t" and "\<not> runnable (thr s t)"
  defines "q1 \<equiv> enqueue Thread_head (Thread_tnode t) q"
  shows "sched_wf H (relocate (ready_place (thr s t)) t q1) (sched_insert_thread t s)"
proof -
  let ?s = "upd_links (list_insert_tail Thread_head (Thread_tnode t)) s"
  note wf = sched_wfD [OF assms(1)]
  have th: "Thread_head \<in> H" using wf(2) by (auto simp: sched_heads_def)
  have "rings (list_insert_tail Thread_head (Thread_tnode t) (links s)) H q1"
    unfolding q1_def by (rule kq.insert_law [OF wf(1) th assms(2,3)])
  moreover have "bitmap_ok q1 (thread_ready_group s)" "members_ok q1 (thr s)"
    using wf(3,4) by (auto simp: bitmap_ok_def members_ok_def q1_def enqueue_def)
  moreover have "registered_ok q1 (thr s)"
    using wf(5) assms(4,6) by (auto simp: registered_ok_def q1_def enqueue_mem)
  ultimately have wf1: "sched_wf H q1 ?s" using wf(2) by (simp add: sched_wf_def upd_links_def)
  have "movable H q1 ?s t"
    using assms(5) th kq.loose_insert [OF wf(1) _ th, of "Thread_node t" "Thread_tnode t"]
    by (auto simp: movable_def q1_def upd_links_def)
  with set_ready.wf_law [OF wf1 _ this] assms(4) show ?thesis
    by (simp add: sched_insert_thread_def upd_links_def)
qed

lemma rings_init_ready:
  assumes "rings l H (\<lambda>_. [])" and "distinct is" and "\<forall>i\<in>set is. Ready_head i \<notin> H"
  shows "rings (fold (\<lambda>i. list_init (Ready_head i)) is l) (H \<union> Ready_head ` set is) (\<lambda>_. [])"
  using assms
proof (induction "is" arbitrary: l H)
  case Nil
  then show ?case by simp
next
  case (Cons i "is")
  have "rings (list_init (Ready_head i) l) (insert (Ready_head i) H) ((\<lambda>_. [])(Ready_head i := []))"
    using Cons.prems by (intro rings_init_head) (auto simp: queued_def)
  then have "rings (list_init (Ready_head i) l) (insert (Ready_head i) H) (\<lambda>_. [])"
    by (simp add: fun_upd_idem)
  from Cons.IH [OF this] Cons.prems show ?case by (auto simp: insert_commute)
qed

lemma rings_init_more:
  "rings l H (\<lambda>_. []) \<Longrightarrow> h \<notin> H \<Longrightarrow> rings (list_init h l) (insert h H) (\<lambda>_. [])"
  using rings_init_head [of l H "\<lambda>_. []" h] by (simp add: queued_def fun_upd_idem)

lemma sched_init_wf: "sched_wf sched_heads (\<lambda>_. []) (sched_init tick s)"
proof -
  let ?R = "Ready_head ` {..<PTHREAD_READY_GROUP_MAX}"
  let ?l = "fold (\<lambda>i. list_init (Ready_head i)) [0..<PTHREAD_READY_GROUP_MAX] (links s)"
  have "rings ?l ({} \<union> Ready_head ` set [0..<PTHREAD_READY_GROUP_MAX]) (\<lambda>_. [])"
    by (rule rings_init_ready) (auto simp: rings_def)
  then have "rings ?l ?R (\<lambda>_. [])" by (simp add: atLeast0LessThan)
  then have "rings (list_init Delete_head (list_init Sleep_head (list_init Thread_head ?l)))
      (insert Delete_head (insert Sleep_head (insert Thread_head ?R))) (\<lambda>_. [])"
    by (intro rings_init_more) auto
  moreover have "insert Delete_head (insert Sleep_head (insert Thread_head ?R)) = sched_heads"
    by (auto simp: sched_heads_def)
  ultimately show ?thesis
    by (simp add: sched_wf_def sched_init_def kernel_simps Let_def bitmap_ok_def members_ok_def
        registered_ok_def)
qed

lemma fold_init_apply:
  "next_of (fold (\<lambda>i. list_init (Ready_head i)) is l) x =
     (if x \<in> Ready_head ` set is then x else next_of l x)"
  "prev_of (fold (\<lambda>i. list_init (Ready_head i)) is l) x =
     (if x \<in> Ready_head ` set is then x else prev_of l x)"
  by (induction "is" arbitrary: l) (auto simp: list_init_apply)

lemma sched_init_detached:
  assumes "x \<notin> sched_heads" and "next_of (links s) x = x" and "prev_of (links s) x = x"
  shows "detached (links (sched_init tick s)) sched_heads (\<lambda>_. []) x"
proof -
  have links: "links (sched_init tick s) =
      list_init Delete_head (list_init Sleep_head (list_init Thread_head
        (fold (\<lambda>i. list_init (Ready_head i)) [0..<PTHREAD_READY_GROUP_MAX] (links s))))"
    by (simp add: sched_init_def kernel_simps Let_def)
  have "x \<notin> Ready_head ` set [0..<PTHREAD_READY_GROUP_MAX]" "x \<noteq> Delete_head" "x \<noteq> Sleep_head" "x \<noteq> Thread_head"
    using assms(1) by (auto simp: sched_heads_def)
  with assms show ?thesis
    by (simp add: detached_def links list_init_apply fold_init_apply queued_def)
qed

lemma sched_insert_thread_detached:
  assumes wf: "sched_wf H q s" and t: "Thread_tnode t \<notin> H" "Thread_tnode t \<notin> queued H q"
      "valid_prio (thr s t)" "detached (links s) H q (Thread_node t)"
    and x: "detached (links s) H q x" "x \<noteq> Thread_node t" "x \<noteq> Thread_tnode t"
  shows "detached (links (sched_insert_thread t s)) H
           (relocate (ready_place (thr s t)) t (enqueue Thread_head (Thread_tnode t) q)) x"
proof -
  let ?l = "list_insert_tail Thread_head (Thread_tnode t) (links s)"
  let ?q = "enqueue Thread_head (Thread_tnode t) q"
  have th: "Thread_head \<in> H" using sched_wfD(2) [OF wf] by (auto simp: sched_heads_def)
  note rg = sched_wfD(1) [OF wf]
  have r1: "rings ?l H ?q" by (rule kq.insert_law [OF rg th t(1,2)])
  have d1: "detached ?l H ?q x" using kq.loose_insert [OF rg x(1) th] x(3) by simp
  have t1: "detached ?l H ?q (Thread_node t)" using kq.loose_insert [OF rg t(4) th] by simp
  note l2 = remove_detached_id [OF t1]
  have r2: "rings ?l H (dequeue (Thread_node t) ?q)" using rings_remove_detached [OF r1 t1] l2 by simp
  have d2: "detached ?l H (dequeue (Thread_node t) ?q) x"
    using d1 by (auto simp: detached_def)
  have "detached (list_insert_tail (own_queue (thr s t)) (Thread_node t) ?l) H
      (enqueue (own_queue (thr s t)) (Thread_node t) (dequeue (Thread_node t) ?q)) x"
    by (rule kq.loose_insert [OF r2 d2 own_queue_in_H [OF wf t(3)] x(2)])
  then show ?thesis
    by (simp add: sched_insert_thread_def upd_links_def set_ready_eq l2 relocate_def ready_place_def)
qed

lemma sched_insert_thread_thr:
  "thr (sched_insert_thread t s) = (thr s)(t := with_status PTHREAD_STATE_READY (thr s t))"
  by (simp add: sched_insert_thread_def upd_links_def)

section \<open>A concrete system\<close>

text \<open>
  The idle thread at priority 0 and two threads at priority 10, registered one after the other
  after \<^verbatim>\<open>sched_init\<close>: the instance the witnesses below use.
\<close>

definition thread_at :: "os_u8 \<Rightarrow> os_u8 \<Rightarrow> os_pthread" where
  "thread_at type prio =
     \<lparr>th_type = type, th_status = PTHREAD_STATE_INIT, th_name = [], th_sp = 0, th_int_sp = 0,
      th_init_ticks = 10, th_cur_ticks = 10, th_sleep_ticks = 0, th_init_prio = prio,
      th_cur_prio = prio, th_prio_mask = prio_bit prio, th_start_routine = 0, th_arg = 0,
      th_ret = 0, th_stk_addr = 0, th_stk_size = 1024\<rparr>"

definition blank_state :: kstate where
  "blank_state =
     \<lparr>links = \<lparr>next_of = \<lambda>x. x, prev_of = \<lambda>x. x\<rparr>,
      thr = (\<lambda>_. thread_at PTHREAD_TYPE_USER 10)(0x100 := thread_at PTHREAD_TYPE_IDLE 0),
      thread_ready_group = 0, current_thread = 0,
      cpu_usage = \<lparr>u_min_ticks = 0, u_cur_ticks = 0, u_run_count = 0, u_usage = 0\<rparr>,
      sched_locked = 0, mutexes = (\<lambda>_. \<lparr>own_thread = 0\<rparr>),
      sems = (\<lambda>_. \<lparr>sem_init_value = 0, sem_value = 0\<rparr>), primask = False,
      thread_switch_interrupt_flag = 0, interrupt_from_thread = No_sp, interrupt_to_thread = No_sp\<rparr>"

definition demo_state :: kstate where
  "demo_state =
     (let s = sched_init 1 blank_state;
          s = sched_insert_thread 0x100 s;
          s = sched_insert_thread 0x200 s
      in sched_insert_thread 0x300 s)"

definition demo_q :: "lnode \<Rightarrow> lnode list" where
  "demo_q h =
     (if h = Ready_head 0 then [Thread_node 0x100]
      else if h = Ready_head 10 then [Thread_node 0x200, Thread_node 0x300]
      else if h = Thread_head then [Thread_tnode 0x100, Thread_tnode 0x200, Thread_tnode 0x300]
      else [])"


lemma demo_wf: "sched_wf sched_heads demo_q demo_state"
proof -
  let ?s0 = "sched_init 1 blank_state" and ?q0 = "\<lambda>_. []"
  let ?H = sched_heads
  let ?s1 = "sched_insert_thread 0x100 ?s0" and ?s2 = "sched_insert_thread 0x200 (sched_insert_thread 0x100 ?s0)"
  let ?q1 = "relocate (Some (Ready_head 0)) 0x100 (enqueue Thread_head (Thread_tnode 0x100) ?q0)"
  let ?q2 = "relocate (Some (Ready_head 10)) 0x200 (enqueue Thread_head (Thread_tnode 0x200) ?q1)"
  let ?q3 = "relocate (Some (Ready_head 10)) 0x300 (enqueue Thread_head (Thread_tnode 0x300) ?q2)"
  have th: "thr ?s0 t = (if t = 0x100 then thread_at PTHREAD_TYPE_IDLE 0 else thread_at PTHREAD_TYPE_USER 10)" for t
    by (simp add: sched_init_def kernel_simps Let_def blank_state_def)
  note t_simps = th thread_at_def sched_insert_thread_thr valid_prio_def
    PTHREAD_PRIORITY_MAX_def runnable_def pthread_state_defs ready_place_def own_queue_def movable_def
    word_le_nat_alt with_status_def
  have nh: "Thread_tnode t \<notin> ?H" "Thread_node t \<notin> ?H" for t by (auto simp: sched_heads_def)
  have hh: "Thread_head \<in> ?H" "Ready_head 0 \<in> ?H" "Ready_head 10 \<in> ?H"
    by (auto simp: sched_heads_def PTHREAD_READY_GROUP_MAX_def)
  have w0: "sched_wf ?H ?q0 ?s0" by (rule sched_init_wf)
  have d0: "detached (links ?s0) ?H ?q0 x" if "x \<notin> ?H" for x
    using that by (rule sched_init_detached) (simp_all add: blank_state_def)
  have tq: "Thread_tnode t \<notin> queued ?H ?q0" for t by (simp add: queued_def)
  have w1: "sched_wf ?H ?q1 ?s1"
    using sched_insert_thread_wf [OF w0 nh(1) tq, of "0x100"] d0 nh by (simp add: t_simps)
  have d1: "detached (links ?s1) ?H ?q1 x" if "x \<notin> ?H" "x \<noteq> Thread_node 0x100" "x \<noteq> Thread_tnode 0x100" for x
    using sched_insert_thread_detached [OF w0 nh(1) tq, of "0x100" x] d0 nh that by (simp add: t_simps)
  have tq1: "Thread_tnode 0x200 \<notin> queued ?H ?q1" using d1 nh by (fastforce simp: detached_def)
  have w2: "sched_wf ?H ?q2 ?s2"
    using sched_insert_thread_wf [OF w1 nh(1) tq1] d1 nh by (simp add: t_simps)
  have d2: "detached (links ?s2) ?H ?q2 x" if "x = Thread_node 0x300 \<or> x = Thread_tnode 0x300" for x
    using sched_insert_thread_detached [OF w1 nh(1) tq1, of x] d1 nh that by (auto simp: t_simps)
  have tq2: "Thread_tnode 0x300 \<notin> queued ?H ?q2" using d2 by (fastforce simp: detached_def)
  have "sched_wf ?H ?q3 demo_state"
    using sched_insert_thread_wf [OF w2 nh(1) tq2] d2 by (simp add: t_simps demo_state_def)
  then show ?thesis
    by (rule sched_wf_q_cong) (auto simp: demo_q_def relocate_removeAll enqueue_def)
qed


lemma demo_facts:
  "sched_locked demo_state = 0" "current_thread demo_state = 0" "primask demo_state = False"
  "thr demo_state = (\<lambda>t. if t = 0x100 then with_status PTHREAD_STATE_READY (thread_at PTHREAD_TYPE_IDLE 0)
     else if t = 0x200 \<or> t = 0x300 then with_status PTHREAD_STATE_READY (thread_at PTHREAD_TYPE_USER 10)
     else thread_at PTHREAD_TYPE_USER 10)"
proof -
  have ins: "sched_locked (sched_insert_thread t s) = sched_locked s"
    "current_thread (sched_insert_thread t s) = current_thread s"
    "primask (sched_insert_thread t s) = primask s" for t and s :: kstate
    by (simp_all add: sched_insert_thread_def upd_links_def)
  show "sched_locked demo_state = 0" "current_thread demo_state = 0" "primask demo_state = False"
    by (simp_all add: demo_state_def ins sched_init_def kernel_simps Let_def NULL_def blank_state_def)
  show "thr demo_state = (\<lambda>t. if t = 0x100 then with_status PTHREAD_STATE_READY (thread_at PTHREAD_TYPE_IDLE 0)
     else if t = 0x200 \<or> t = 0x300 then with_status PTHREAD_STATE_READY (thread_at PTHREAD_TYPE_USER 10)
     else thread_at PTHREAD_TYPE_USER 10)"
    by (auto simp: demo_state_def sched_insert_thread_thr sched_init_def kernel_simps Let_def
        blank_state_def fun_eq_iff)
qed

lemma demo_queues:
  "own_queue (thr demo_state 0x100) = Ready_head 0" "own_queue (thr demo_state 0x200) = Ready_head 10"
  "own_queue (thr demo_state 0x300) = Ready_head 10" "demo_q (Ready_head 0) = [Thread_node 0x100]"
  "demo_q (Ready_head 10) = [Thread_node 0x200, Thread_node 0x300]" "demo_q Sleep_head = []"
  "valid_prio (thr demo_state t)"
  "demo_q Thread_head = [Thread_tnode 0x100, Thread_tnode 0x200, Thread_tnode 0x300]"
  by (auto simp: demo_facts own_queue_def thread_at_def demo_q_def valid_prio_def
      PTHREAD_PRIORITY_MAX_def word_le_nat_alt with_status_def)

lemma demo_top: "top_prio demo_q = Some (unat (th_cur_prio (thr demo_state 0x200)))"
  by (auto simp: top_prio_Some demo_q_def demo_facts thread_at_def PTHREAD_READY_GROUP_MAX_def)

text \<open>The concrete system with its first thread running.\<close>

definition running_state :: kstate where
  "running_state = demo_state\<lparr>current_thread := 0x200\<rparr>"

lemma running_wf: "sched_wf sched_heads demo_q running_state"
  by (rule sched_wf_cong [THEN iffD2, OF _ _ _ demo_wf]) (simp_all add: running_state_def)

lemma running_ready: "current_ready demo_q running_state"
  by (simp add: current_ready_def running_state_def demo_queues)

section \<open>Properties of the scheduler\<close>

text \<open>
  The two-level table lookup of \<^verbatim>\<open>sched_get_highest_ready_group\<close> returns the index of the most
  significant set bit of the ready bitmap, for every non-zero bitmap.
\<close>
theorem highest_ready_group_is_msb:
  assumes "g \<noteq> 0"
  defines "n \<equiv> unat (sched_get_highest_ready_group g)"
  shows "n < 32 \<and> bit g n \<and> (\<forall>m. bit g m \<longrightarrow> m \<le> n)"
  using highest_ready_group_less [OF assms(1)] highest_ready_group_bits [OF assms(1,1)]
  unfolding n_def by (meson not_le)

theorem highest_ready_group_is_msb_witness:
  "unat (sched_get_highest_ready_group 0x00010400) < 32 \<and>
   bit (0x00010400 :: os_u32) (unat (sched_get_highest_ready_group 0x00010400))"
  using highest_ready_group_is_msb [of "0x00010400"] by simp

text \<open>
  C1. Whenever some ready list is non-empty, \<^verbatim>\<open>sched_switch_thread\<close> returns; the thread it makes
  current is the first one of its ready list, no registered runnable thread has a higher priority,
  the lists are untouched, the interrupt mask is restored, and the
  state stays well formed.
\<close>
theorem sched_switch_thread_highest:
  assumes "sched_wf H q s" and "p < PTHREAD_READY_GROUP_MAX" and "q (Ready_head p) \<noteq> []"
  shows "\<exists>s'. sched_switch_thread s = Some s' \<and> sched_wf H q s' \<and> primask s' = primask s \<and>
     links s' = links s \<and> thr s' = thr s \<and>
     hd (q (own_queue (thr s' (current_thread s')))) = Thread_node (current_thread s') \<and>
     current_ready q s' \<and>
     (\<forall>u. Thread_tnode u \<in> set (q Thread_head) \<and> runnable (thr s' u) \<longrightarrow>
        th_cur_prio (thr s' u) \<le> th_cur_prio (thr s' (current_thread s')))"
proof -
  obtain t where t: "top_thread q = Some t" using top_thread_Some [OF assms] .
  note top = top_threadD [OF assms(1) t]
  have "current_ready q (switched t s)"
    using top(1-3) hd_in_set [OF top(3)]
    by (simp add: current_ready_def valid_prio_def top_prio_Some PTHREAD_READY_GROUP_MAX_def
        PTHREAD_PRIORITY_MAX_def word_le_nat_alt)
  with top t assms(1) top_thread_max [OF assms(1) t] show ?thesis
    by (simp add: sched_switch_thread_eq [OF assms(1)])
qed

theorem sched_switch_thread_highest_witness:
  "\<exists>s'. sched_switch_thread demo_state = Some s' \<and> hd (demo_q (own_queue (thr s' (current_thread s')))) = Thread_node (current_thread s')"
  using sched_switch_thread_highest [OF demo_wf, of 10]
  by (auto simp: demo_queues PTHREAD_READY_GROUP_MAX_def)

text \<open>
  C3. Every transition of \<^verbatim>\<open>sched.c\<close> implements its queue-level specification on a well-formed state:
  the thread leaves the list it is in; \<^verbatim>\<open>ready\<close> and \<^verbatim>\<open>int\<close> put it at the tail of the list of its
  priority, \<^verbatim>\<open>sleep\<close> at the tail of the sleep list, \<^verbatim>\<open>reclaim\<close> at the tail of the delete list,
  \<^verbatim>\<open>suspend\<close> and \<^verbatim>\<open>close\<close> on no list; the bitmap and the status follow, and all other
  queues keep their contents and order.
\<close>
theorem sched_transitions_refine:
  assumes "sched_wf H q s" and "valid_prio (thr s t)" and "movable H q s t"
  shows "sched_wf H (relocate (Some (own_queue (thr s t))) t q) (sched_set_thread_ready t s) \<and>
     sched_wf H (relocate (Some (own_queue (thr s t))) t q) (sched_set_thread_int t s) \<and>
     sched_wf H (relocate (Some Sleep_head) t q) (sched_set_thread_sleep t s) \<and>
     sched_wf H (relocate (Some Delete_head) t q) (sched_reclaim_thread t s) \<and>
     sched_wf H (relocate None t q) (sched_set_thread_suspend t s) \<and>
     sched_wf H (relocate None t q) (sched_set_thread_close t s)"
  using set_ready_wf [OF assms] leave_ready_wf [OF assms] by (simp add: ready_place_def)

theorem sched_transitions_refine_witness:
  "sched_wf sched_heads (relocate (Some Sleep_head) 0x200 demo_q) (sched_set_thread_sleep 0x200 demo_state)"
proof -
  have "movable sched_heads demo_q demo_state 0x200"
    by (auto simp: movable_def queued_def demo_q_def sched_heads_def PTHREAD_READY_GROUP_MAX_def
        intro!: bexI [of _ "Ready_head 10"])
  with sched_transitions_refine [OF demo_wf, of "0x200"] show ?thesis by (simp add: demo_queues)
qed

text \<open>
  C2. One system tick (\<^verbatim>\<open>sched_proc\<close> with the scheduler unlocked) returns and has exactly this
  effect: the running thread's slice is counted down and at expiry it goes to the tail of its
  ready list; every sleeper's counter is decremented and those that reach zero are
  appended, in list order, to the ready lists of their priorities; then the first thread of the highest
  non-empty list runs and one tick of CPU usage is accounted to it; interrupts are restored.
\<close>
theorem sched_proc_tick:
  assumes "sched_wf H q s" and "sched_locked s \<noteq> SCHED_IS_LOCKED"
    and "current_ready q s" and "q Sleep_head = map Thread_node ts"
  shows "\<exists>s'. sched_proc tick s = Some s' \<and> sched_wf H (tick_q s ts q) s' \<and> thr s' = tick_thr s ts \<and>
     top_thread (tick_q s ts q) = Some (current_thread s') \<and> primask s' = primask s \<and>
     cpu_usage s' = usage_tick tick
       (th_type (thr s' (current_thread s')) \<noteq> PTHREAD_TYPE_IDLE) (cpu_usage s)"
  using sched_proc_run [OF assms, of tick] by blast

theorem sched_proc_tick_witness:
  "\<exists>s'. sched_proc 1 running_state = Some s' \<and> thr s' = tick_thr running_state [] \<and>
     top_thread (tick_q running_state [] demo_q) = Some (current_thread s')"
  using sched_proc_tick [OF running_wf _ running_ready, of "[]" 1]
  by (auto simp: running_state_def demo_facts demo_queues SCHED_IS_LOCKED_def)

text \<open>
  C4. Round robin: when the running thread is first in its ready list, a second thread of the same
  priority follows it and no higher list is occupied, \<^verbatim>\<open>sched_yield\<close> runs that second thread and
  leaves the yielding one at the tail, with the others in order.
\<close>
theorem sched_yield_round_robin:
  assumes "sched_wf H q s" and "current_ready q s"
    and "q (own_queue (thr s (current_thread s))) = Thread_node (current_thread s) # Thread_node u # rest"
    and "top_prio q = Some (unat (th_cur_prio (thr s (current_thread s))))"
  defines "q' \<equiv> relocate (ready_place (thr s (current_thread s))) (current_thread s) q"
  shows "\<exists>s'. sched_yield s = Some s' \<and> current_thread s' = u \<and> sched_wf H q' s' \<and>
     q' (own_queue (thr s (current_thread s))) = Thread_node u # rest @ [Thread_node (current_thread s)]"
proof -
  let ?t = "current_thread s"
  have vp: "valid_prio (thr s ?t)" and inq: "Thread_node ?t \<in> set (q (own_queue (thr s ?t)))"
    using assms(2) by (auto simp: current_ready_def)
  have "distinct (q (own_queue (thr s ?t)))"
    using ringsD(1) [OF sched_wfD(1) [OF assms(1)] own_queue_in_H [OF assms(1) vp]] by (simp add: ring_def)
  then have q': "q' (own_queue (thr s ?t)) = Thread_node u # rest @ [Thread_node ?t]"
    unfolding q'_def ready_place_def relocate_removeAll using assms(3) by auto
  have "top_thread q' = Some u"
    using top_prio_relocate_own [OF assms(1) vp inq] assms(4) q'
    by (simp add: top_thread_def q'_def own_queue_def)
  then show ?thesis
    using set_ready.then_switch [OF assms(1) vp current_ready_movable [OF assms(1,2)]] q'
    by (simp add: sched_yield_eq q'_def)
qed

theorem sched_yield_round_robin_witness:
  "\<exists>s'. sched_yield running_state = Some s' \<and> current_thread s' = 0x300"
proof -
  have "current_thread running_state = 0x200" "thr running_state = thr demo_state"
    by (simp_all add: running_state_def)
  then show ?thesis
    using sched_yield_round_robin [OF running_wf running_ready, of "0x300" "[]"]
    by (auto simp: demo_queues demo_top)
qed


text \<open>
  CPU usage: over one accounting window (\<^verbatim>\<open>min_ticks\<close> ticks, one current thread per tick) the reported
  usage is the number of ticks in which a thread other than idle was current, provided the
  window is short enough for the 16-bit counter (\<^verbatim>\<open>min_ticks\<close> squared below 65536, which
  holds for a tick period of 5 ms and not for 1 ms), and the counters restart at zero.
\<close>
theorem cpu_usage_window_exact:
  fixes s :: "'a kstate_scheme" and tick :: os_u32
  defines "m \<equiv> ucast (SCHED_PERIOD div tick) :: os_u16"
  assumes "u_min_ticks (cpu_usage s) = m" and "0 < m" and "unat m * unat m < 65536"
    and "u_cur_ticks (cpu_usage s) = 0" and "u_run_count (cpu_usage s) = 0" and "length cs = unat m"
  shows "unat (get_current_usage (usage_run tick cs s)) = length (filter (busy s) cs) \<and>
     u_cur_ticks (cpu_usage (usage_run tick cs s)) = 0 \<and> u_run_count (cpu_usage (usage_run tick cs s)) = 0"
proof -
  let ?k = "length (filter (\<lambda>b. b) (map (busy s) cs))"
  have k: "?k = length (filter (busy s) cs)" by (simp add: filter_map o_def)
  have km: "?k * unat m < 65536"
    using assms(4,7) le_less_trans [OF mult_le_mono1 [of ?k "unat m" "unat m"]]
    by (simp add: order.trans [OF length_filter_le])
  have "?k \<le> ?k * unat m" using assms(3) by (simp add: word_less_nat_alt)
  then have k16: "?k < 65536" using km by linarith
  have "unat (of_nat ?k * m :: os_u16) = ?k * unat m"
    using km k16 by (simp add: unat_word_ariths unsigned_of_nat take_bit_nat_eq_self)
  then have "unat (of_nat ?k * m div m) = ?k"
    using assms(3) by (simp add: unat_div_distrib word_less_nat_alt)
  then show ?thesis
    using usage_window [OF _ assms(2,3,5,6), of tick "map (busy s) cs"] assms(7) k
    by (simp add: usage_run_fold get_current_usage_def m_def)
qed

theorem cpu_usage_window_exact_witness:
  "unat (get_current_usage (usage_run 5 (replicate 200 0x200) (sched_init 5 blank_state))) = 200"
proof -
  have "length (filter (busy (sched_init 5 blank_state)) (replicate 200 0x200)) = 200"
    by (simp add: busy_def sched_init_def kernel_simps Let_def blank_state_def thread_at_def
        PTHREAD_TYPE_USER_def PTHREAD_TYPE_IDLE_def)
  moreover have "(ucast ((1000 :: os_u32) div 5) :: os_u16) = 200" by code_simp
  ultimately show ?thesis
    using cpu_usage_window_exact [of "sched_init 5 blank_state" 5 "replicate 200 0x200"]
    by (simp add: sched_init_def kernel_simps Let_def SCHED_PERIOD_def)
qed

text \<open>
  At the 1 ms tick of the STM32F746G-DISCO and zedboard ports the same window overflows the 16-bit
  run counter: a processor that is never idle is reported as 16 (per mille) instead of 1000.
\<close>
theorem cpu_usage_overflow_1ms:
  "length cs = 1000 \<Longrightarrow> filter (busy (sched_init 1 s)) cs = cs \<Longrightarrow>
   get_current_usage (usage_run 1 cs (sched_init 1 s)) = 16"
proof -
  assume len: "length cs = 1000" and all: "filter (busy (sched_init 1 s)) cs = cs"
  have "u_min_ticks (cpu_usage (sched_init 1 s)) = ucast (SCHED_PERIOD div 1)"
    "u_cur_ticks (cpu_usage (sched_init 1 s)) = 0" "u_run_count (cpu_usage (sched_init 1 s)) = 0"
    by (simp_all add: sched_init_def kernel_simps Let_def)
  note win = usage_window [OF refl this(1) _ this(2,3), of "map (busy (sched_init 1 s)) cs"]
  have "length (filter (\<lambda>b. b) (map (busy (sched_init 1 s)) cs)) = 1000"
    using all len by (simp add: filter_map o_def)
  then have "get_current_usage (usage_run 1 cs (sched_init 1 s)) = of_nat 1000 * 1000 div 1000"
    using win len by (simp add: usage_run_fold get_current_usage_def SCHED_PERIOD_def)
  also have "(of_nat 1000 * 1000 div 1000 :: os_u16) = 16" by simp
  finally show ?thesis .
qed

theorem cpu_usage_overflow_1ms_witness:
  "get_current_usage (usage_run 1 (replicate 1000 0x200) (sched_init 1 blank_state)) = 16"
  by (rule cpu_usage_overflow_1ms)
    (simp_all add: busy_def sched_init_def kernel_simps Let_def blank_state_def thread_at_def
      PTHREAD_TYPE_USER_def PTHREAD_TYPE_IDLE_def)


text \<open>
  \<^verbatim>\<open>sched_delete_thread\<close> on a registered thread, with some other thread ready: the call
  returns 0, the thread is off the thread list and off the ready lists, at the tail of the
  delete list with status \<^verbatim>\<open>CLOSED\<close>, the state is well formed and the highest-priority remaining
  thread is current.
\<close>
theorem sched_delete_thread_removes:
  assumes "sched_wf H q s" and "Thread_tnode t \<in> set (q Thread_head)"
    and "valid_prio (thr s t)" and "movable H q s t"
    and "p < PTHREAD_READY_GROUP_MAX" and "Thread_node u \<in> set (q (Ready_head p))" and "u \<noteq> t"
  defines "q' \<equiv> relocate (Some Delete_head) t (dequeue (Thread_tnode t) q)"
  shows "\<exists>s'. sched_delete_thread t s = Some (0, s') \<and> sched_wf H q' s' \<and>
     Thread_tnode t \<notin> set (q' Thread_head) \<and> (\<forall>k. Thread_node t \<notin> set (q' (Ready_head k))) \<and>
     last (q' Delete_head) = Thread_node t \<and> th_status (thr s' t) = PTHREAD_STATE_CLOSED \<and>
     top_thread q' = Some (current_thread s') \<and> current_thread s' \<noteq> t"
proof -
  note del = sched_delete_thread_eq [OF assms(1-4), folded q'_def]
  have "Thread_node u \<in> set (q' (Ready_head p))" using assms(6,7) by (simp add: q'_def relocate_mem)
  then obtain v where v: "top_thread q' = Some v"
    using top_thread_Some [OF del(1) assms(5)] by (metis empty_iff list.set(1))
  have notin: "Thread_node t \<notin> set (q' (Ready_head k))" for k by (simp add: q'_def relocate_mem)
  have "v \<noteq> t" using top_threadD(2,3) [OF del(1) v] notin hd_in_set by (metis own_queue_def)
  moreover have "last (q' Delete_head) = Thread_node t" by (simp add: q'_def relocate_removeAll)
  moreover have "Thread_tnode t \<notin> set (q' Thread_head)" by (simp add: q'_def relocate_mem)
  ultimately show ?thesis using del v notin by simp
qed

theorem sched_delete_thread_removes_witness:
  "\<exists>s'. sched_delete_thread 0x200 running_state = Some (0, s') \<and> current_thread s' \<noteq> 0x200 \<and>
     th_status (thr s' 0x200) = PTHREAD_STATE_CLOSED"
proof -
  have "movable sched_heads demo_q running_state 0x200"
    using current_ready_movable [OF running_wf running_ready] by (simp add: running_state_def)
  moreover have "thr running_state = thr demo_state" by (simp add: running_state_def)
  ultimately show ?thesis
    using sched_delete_thread_removes [OF running_wf, of "0x200" 10 "0x300"]
    by (auto simp: demo_queues PTHREAD_READY_GROUP_MAX_def)
qed

text \<open>
  The time slice is not reloaded: after a slice has expired (the counter is 0) the running thread is
  not requeued during its next 255 ticks, whatever \<^verbatim>\<open>init_ticks\<close> says, and the counter comes
  back to 0 only at the 256th.
\<close>
theorem time_slice_not_reloaded:
  fixes s :: "'a kstate_scheme"
  assumes "th_cur_ticks (thr s (current_thread s)) = 0" and "n < 256"
  shows "(sched_proc_current_thread ^^ n) s =
    s\<lparr>thr := (thr s)(current_thread s := (thr s (current_thread s))\<lparr>th_cur_ticks := - of_nat n\<rparr>)\<rparr>"
  using assms(2)
proof (induction n)
  case 0
  have "(thr s (current_thread s))\<lparr>th_cur_ticks := 0\<rparr> = thr s (current_thread s)"
    using assms(1) by simp
  then show ?case by (simp add: fun_upd_idem)
next
  case (Suc n)
  let ?s = "s\<lparr>thr := (thr s)(current_thread s := (thr s (current_thread s))\<lparr>th_cur_ticks := - of_nat n\<rparr>)\<rparr>"
  have "- of_nat n - 1 \<noteq> (0 :: os_u8)"
  proof
    assume "- of_nat n - 1 = (0 :: os_u8)"
    then have "(of_nat (Suc n) :: os_u8) = 0" by (simp add: neg_eq_iff_add_eq_0 add.commute)
    then have "(256::nat) dvd Suc n" by (simp only: word_of_nat_eq_0_iff) simp
    with Suc.prems show False by (auto dest: dvd_imp_le)
  qed
  then have nz: "th_cur_ticks (thr ?s (current_thread ?s)) - 1 \<noteq> 0" by simp
  have "(sched_proc_current_thread ^^ Suc n) s = sched_proc_current_thread ?s"
    using Suc by (simp del: fun_upd_apply)
  also have "\<dots> = s\<lparr>thr := (thr s)(current_thread s :=
      (thr s (current_thread s))\<lparr>th_cur_ticks := - of_nat (Suc n)\<rparr>)\<rparr>"
    using proc_current_running [OF nz] by (simp add: neg_minus_one)
  finally show ?case .
qed

theorem time_slice_not_reloaded_witness:
  "thread_ready_group ((sched_proc_current_thread ^^ 255)
     (running_state\<lparr>thr := (thr running_state)(0x200 := (thr running_state 0x200)\<lparr>th_cur_ticks := 0\<rparr>)\<rparr>)) =
   thread_ready_group running_state"
proof -
  let ?s = "running_state\<lparr>thr := (thr running_state)(0x200 := (thr running_state 0x200)\<lparr>th_cur_ticks := 0\<rparr>)\<rparr>"
  have "th_cur_ticks (thr ?s (current_thread ?s)) = 0" by (simp add: running_state_def)
  from time_slice_not_reloaded [OF this, of 255] show ?thesis by simp
qed

end
