(* ===== verification/Wait_Queue.thy ===== *)
theory Wait_Queue
  imports Sched_Tick
begin

text \<open>
  Blocking and waking, the part that \<^verbatim>\<open>pthread.c\<close> (mutexes) and \<^verbatim>\<open>semaphore.c\<close> write in the
  same way: the current thread is suspended, appended to the wait list of the object and the
  processor given away; a release makes the first waiter ready and reschedules. Both run with
  interrupts masked, so the switch they request is taken when the caller restores the mask.

  \<open>kernel_wf\<close> adds to the scheduler invariant that the wait lists hold suspended threads only.
\<close>

section \<open>Definitions\<close>

definition block_current :: "lnode \<Rightarrow> 'a kstate_scheme \<Rightarrow> 'a kstate_scheme option" where
  "block_current h s =
     (let thread = get_current_thread s;
          s = sched_set_thread_suspend thread s;
          s = upd_links (list_insert_tail h (Thread_node thread)) s
      in sched_switch_thread s)"

definition wake_first :: "lnode \<Rightarrow> 'a kstate_scheme \<Rightarrow> 'a kstate_scheme option" where
  "wake_first h s =
     (if next_of (links s) h = h then Some s
      else do {
        thread_wait \<leftarrow> thread_entry (next_of (links s) h);
        sched_switch_thread (sched_set_thread_ready thread_wait s)
      })"

section \<open>The interrupt mask is only saved and restored\<close>

lemma highest_ready_masked: "highest_ready_thread (s\<lparr>primask := b\<rparr>) = highest_ready_thread s"
  by (simp add: highest_ready_thread_def)

lemma switched_masked: "switched t (s\<lparr>primask := b\<rparr>) = (switched t s)\<lparr>primask := b\<rparr>"
  by (simp add: switched_def hw_context_switch_def sp_of_def Let_def)

lemma sched_switch_thread_highest_eq:
  "sched_switch_thread s = map_option (\<lambda>t. switched t s) (highest_ready_thread s)"
  by (cases "highest_ready_thread s")
    (auto simp: sched_switch_thread_def hw_interrupt_suspend_def hw_interrupt_recover_def
      highest_ready_masked switched_def hw_context_switch_def sp_of_def Let_def)

lemma sched_switch_masked:
  "sched_switch_thread (s\<lparr>primask := b\<rparr>) = map_option (\<lambda>s. s\<lparr>primask := b\<rparr>) (sched_switch_thread s)"
  by (simp add: sched_switch_thread_highest_eq highest_ready_masked switched_masked option.map_comp o_def)

lemma set_suspend_masked:
  "sched_set_thread_suspend t (s\<lparr>primask := b\<rparr>) = (sched_set_thread_suspend t s)\<lparr>primask := b\<rparr>"
  by (simp add: transition_eqs left_group_def)

lemma upd_links_masked: "upd_links f (s\<lparr>primask := b\<rparr>) = (upd_links f s)\<lparr>primask := b\<rparr>"
  by (simp add: upd_links_def)

lemma block_current_masked:
  "block_current h (s\<lparr>primask := b\<rparr>) = map_option (\<lambda>s. s\<lparr>primask := b\<rparr>) (block_current h s)"
  by (simp add: block_current_def get_current_thread_def set_suspend_masked upd_links_masked
      sched_switch_masked Let_def)

lemma wake_first_masked:
  "wake_first h (s\<lparr>primask := b\<rparr>) = map_option (\<lambda>s. s\<lparr>primask := b\<rparr>) (wake_first h s)"
  by (simp add: wake_first_def masked_transition sched_switch_masked map_option_bind o_def)

section \<open>The kernel invariant\<close>

definition wait_heads :: "lnode set" where
  "wait_heads = range Mutex_head \<union> range Sem_head"

definition waiters_ok :: "lnode set \<Rightarrow> (lnode \<Rightarrow> lnode list) \<Rightarrow> (addr \<Rightarrow> os_pthread) \<Rightarrow> bool" where
  "waiters_ok H q th \<longleftrightarrow>
     (\<forall>h\<in>H \<inter> wait_heads. \<forall>x\<in>set (q h).
        \<exists>t. x = Thread_node t \<and> th_status (th t) = PTHREAD_STATE_SUSPEND \<and> valid_prio (th t))"

definition kernel_wf :: "lnode set \<Rightarrow> (lnode \<Rightarrow> lnode list) \<Rightarrow> 'a kstate_scheme \<Rightarrow> bool" where
  "kernel_wf H q s \<longleftrightarrow> sched_wf H q s \<and> waiters_ok H q (thr s)"

lemma wait_head_not_sched: "h \<in> wait_heads \<Longrightarrow> h \<notin> sched_heads"
  by (auto simp: wait_heads_def sched_heads_def)

lemma own_queue_not_wait: "own_queue x \<notin> wait_heads"
  by (auto simp: wait_heads_def own_queue_def)

lemma waiters_ok_relocate:
  assumes "waiters_ok H q th" and "\<And>h. d = Some h \<Longrightarrow> h \<in> wait_heads \<Longrightarrow>
      st = PTHREAD_STATE_SUSPEND \<and> valid_prio (th t)"
  shows "waiters_ok H (relocate d t q) (th(t := with_status st (th t)))"
  unfolding waiters_ok_def
proof (intro ballI)
  fix h x assume h: "h \<in> H \<inter> wait_heads" and x: "x \<in> set (relocate d t q h)"
  show "\<exists>u. x = Thread_node u \<and> th_status ((th(t := with_status st (th t))) u) = PTHREAD_STATE_SUSPEND \<and>
      valid_prio ((th(t := with_status st (th t))) u)"
  proof (cases "x = Thread_node t")
    case True
    with x h assms(2) show ?thesis by (auto simp: relocate_mem)
  next
    case False
    with x h assms(1) show ?thesis by (fastforce simp: relocate_mem waiters_ok_def)
  qed
qed

lemma kernel_wfD: "kernel_wf H q s \<Longrightarrow> sched_wf H q s" "kernel_wf H q s \<Longrightarrow> waiters_ok H q (thr s)"
  by (simp_all add: kernel_wf_def)

lemma kernel_wf_cong:
  "links s' = links s \<Longrightarrow> thr s' = thr s \<Longrightarrow> thread_ready_group s' = thread_ready_group s \<Longrightarrow>
   kernel_wf H q s' = kernel_wf H q s"
  by (simp add: kernel_wf_def sched_wf_def)

lemma kernel_wf_masked [simp]: "kernel_wf H q (s\<lparr>primask := b\<rparr>) = kernel_wf H q s"
  by (rule kernel_wf_cong) simp_all

lemma kernel_wf_switched [simp]: "kernel_wf H q (switched t s) = kernel_wf H q s"
  by (rule kernel_wf_cong) simp_all

lemma kernel_wf_mutexes [simp]: "kernel_wf H q (s\<lparr>mutexes := m\<rparr>) = kernel_wf H q s"
  "kernel_wf H q (s\<lparr>sems := x\<rparr>) = kernel_wf H q s"
  by (rule kernel_wf_cong; simp)+

text \<open>The transitions of the scheduler keep the kernel invariant.\<close>

context thread_transition
begin

lemma kernel_wf_law:
  assumes "kernel_wf H q s" and "valid_prio (thr s t)" and "movable H q s t"
    and "\<And>h. place (thr s t) = Some h \<Longrightarrow> h \<notin> wait_heads"
  shows "kernel_wf H (relocate (place (thr s t)) t q) (op t s)"
  unfolding kernel_wf_def
proof
  show "sched_wf H (relocate (place (thr s t)) t q) (op t s)"
    using wf_law assms kernel_wfD(1) by blast
  show "waiters_ok H (relocate (place (thr s t)) t q) (thr (op t s))"
    unfolding op_thr by (rule waiters_ok_relocate) (use assms kernel_wfD(2) in blast)+
qed

end

section \<open>Blocking\<close>

lemma sched_wf_append_wait:
  assumes "sched_wf H q s" and "h \<in> H" and "h \<in> wait_heads" and "x \<notin> H" and "x \<notin> queued H q"
  shows "sched_wf H (enqueue h x q) (upd_links (list_insert_tail h x) s)"
proof -
  note wf = sched_wfD [OF assms(1)]
  have "rings (list_insert_tail h x (links s)) H (enqueue h x q)"
    by (rule kq.insert_law [OF wf(1) assms(2,4,5)])
  moreover have same: "enqueue h x q k = q k" if "k \<in> sched_heads" for k
    using that wait_head_not_sched [OF assms(3)] by (intro enqueue_other) auto
  have "bitmap_ok (enqueue h x q) (thread_ready_group s)" "members_ok (enqueue h x q) (thr s)"
    using wf(3,4) same by (auto simp: bitmap_ok_def members_ok_def sched_heads_def)
  moreover have "registered_ok (enqueue h x q) (thr s)"
    using wf(5) same own_queue_in_heads by (auto simp: registered_ok_def sched_heads_def)
  ultimately show ?thesis using wf(2) by (simp add: sched_wf_def upd_links_def)
qed

lemma relocate_via_none: "enqueue h (Thread_node t) (relocate None t q) = relocate (Some h) t q"
  by (simp add: relocate_def)

lemma block_step_wf:
  assumes "kernel_wf H q s" and "h \<in> H" and "h \<in> wait_heads"
    and "valid_prio (thr s t)" and "movable H q s t"
  shows "kernel_wf H (relocate (Some h) t q)
    (upd_links (list_insert_tail h (Thread_node t)) (sched_set_thread_suspend t s))"
  unfolding kernel_wf_def
proof
  let ?s = "sched_set_thread_suspend t s"
  have wf1: "sched_wf H (relocate None t q) ?s"
    using set_suspend.wf_law [OF kernel_wfD(1) [OF assms(1)] assms(4,5)] .
  have "Thread_node t \<notin> H"
    using kq.not_head [OF sched_wfD(1) [OF kernel_wfD(1) [OF assms(1)]]] assms(5) by (simp add: movable_def)
  moreover have "Thread_node t \<notin> queued H (relocate None t q)" by (simp add: relocate_def)
  ultimately show "sched_wf H (relocate (Some h) t q) (upd_links (list_insert_tail h (Thread_node t)) ?s)"
    using sched_wf_append_wait [OF wf1 assms(2,3), of "Thread_node t"] by (simp add: relocate_via_none)
  have "waiters_ok H (relocate (Some h) t q) ((thr s)(t := with_status PTHREAD_STATE_SUSPEND (thr s t)))"
    by (rule waiters_ok_relocate [OF kernel_wfD(2) [OF assms(1)]]) (use assms(4) in simp)
  then show "waiters_ok H (relocate (Some h) t q) (thr (upd_links (list_insert_tail h (Thread_node t)) ?s))"
    by (simp add: upd_links_def)
qed

lemma block_current_spec:
  assumes wf: "kernel_wf H q s" and h: "h \<in> H" "h \<in> wait_heads" and cur: "current_ready q s"
    and top: "top_thread (relocate (Some h) (current_thread s) q) = Some u"
  shows "\<exists>s'. block_current h s = Some s' \<and> kernel_wf H (relocate (Some h) (current_thread s) q) s' \<and>
     current_thread s' = u \<and> primask s' = primask s \<and> mutexes s' = mutexes s \<and> sems s' = sems s \<and>
     thr s' = (thr s)(current_thread s := with_status PTHREAD_STATE_SUSPEND (thr s (current_thread s)))"
proof -
  let ?s = "upd_links (list_insert_tail h (Thread_node (current_thread s)))
    (sched_set_thread_suspend (current_thread s) s)"
  have k: "kernel_wf H (relocate (Some h) (current_thread s) q) ?s"
    by (rule block_step_wf [OF wf h])
      (use cur current_ready_movable [OF kernel_wfD(1) [OF wf]] in \<open>auto simp: current_ready_def\<close>)
  have "block_current h s = Some (switched u ?s)"
    using sched_switch_thread_eq [OF kernel_wfD(1) [OF k]] top
    by (simp add: block_current_def get_current_thread_def Let_def)
  with k show ?thesis by (simp add: upd_links_def)
qed

section \<open>Waking\<close>

lemma waiterD:
  assumes "kernel_wf H q s" and "h \<in> H" and "h \<in> wait_heads" and "x \<in> set (q h)"
  obtains t where "x = Thread_node t" and "th_status (thr s t) = PTHREAD_STATE_SUSPEND"
    and "valid_prio (thr s t)"
proof -
  have "\<forall>x\<in>set (q h). \<exists>t. x = Thread_node t \<and> th_status (thr s t) = PTHREAD_STATE_SUSPEND \<and> valid_prio (thr s t)"
    using kernel_wfD(2) [OF assms(1)] assms(2,3) by (simp add: waiters_ok_def)
  with assms(4) that show ?thesis by blast
qed

lemma waiter_facts:
  assumes "kernel_wf H q s" and "h \<in> H" and "h \<in> wait_heads" and "q h = Thread_node t # ts"
  shows "valid_prio (thr s t)" and "movable H q s t" and "next_of (links s) h = Thread_node t"
proof -
  show "valid_prio (thr s t)" using waiterD [OF assms(1-3), of "Thread_node t"] assms(4) by auto
  show "movable H q s t" using assms(2,4) by (force simp: movable_def queued_def)
  show "next_of (links s) h = Thread_node t"
    using kq.first_of_nonempty [OF sched_wfD(1) [OF kernel_wfD(1) [OF assms(1)]] assms(2)] assms(4) by simp
qed

lemma waiters_are_threads:
  assumes "kernel_wf H q s" and "h \<in> H" and "h \<in> wait_heads" and "q h \<noteq> []"
  obtains t ts where "q h = Thread_node t # ts"
  using assms(4) waiterD [OF assms(1-3), of "hd (q h)"] by (cases "q h") auto

lemma wake_first_none:
  assumes "kernel_wf H q s" and "h \<in> H" and "q h = []"
  shows "wake_first h s = Some s"
  using kq.first_law [OF sched_wfD(1) [OF kernel_wfD(1) [OF assms(1)]] assms(2)] assms(3)
  by (simp add: wake_first_def)

lemma top_after_ready:
  assumes "sched_wf H (relocate (ready_place (thr s t)) t q) s'" and "valid_prio (thr s t)"
  obtains u where "top_thread (relocate (ready_place (thr s t)) t q) = Some u"
proof (rule top_thread_Some [OF assms(1)])
  show "unat (th_cur_prio (thr s t)) < PTHREAD_READY_GROUP_MAX"
    using valid_prio_less [OF assms(2)] by (simp add: PTHREAD_READY_GROUP_MAX_def)
  show "relocate (ready_place (thr s t)) t q (Ready_head (unat (th_cur_prio (thr s t)))) \<noteq> []"
    by (simp add: relocate_removeAll ready_place_def own_queue_def)
qed

lemma wake_first_spec:
  assumes wf: "kernel_wf H q s" and h: "h \<in> H" "h \<in> wait_heads" and q: "q h = Thread_node t # ts"
  defines "q' \<equiv> relocate (ready_place (thr s t)) t q"
  shows "\<exists>s'. wake_first h s = Some s' \<and> kernel_wf H q' s' \<and> top_thread q' = Some (current_thread s') \<and>
     q' h = ts \<and> primask s' = primask s \<and> mutexes s' = mutexes s \<and> sems s' = sems s \<and>
     thr s' = (thr s)(t := with_status PTHREAD_STATE_READY (thr s t))"
proof -
  note w = waiter_facts [OF wf h q]
  let ?s = "sched_set_thread_ready t s"
  have k: "kernel_wf H q' ?s"
    unfolding q'_def by (rule set_ready.kernel_wf_law [OF wf w(1,2)])
      (auto simp: ready_place_def own_queue_not_wait)
  obtain u where u: "top_thread q' = Some u"
    using top_after_ready [OF kernel_wfD(1) [OF k, unfolded q'_def] w(1)] q'_def by blast
  have hne: "h \<noteq> Thread_node t" using h(2) by (auto simp: wait_heads_def)
  then have "wake_first h s = Some (switched u ?s)"
    using sched_switch_thread_eq [OF kernel_wfD(1) [OF k]] u w(3) by (simp add: wake_first_def)
  moreover have "distinct (q h)"
    using ringsD(1) [OF sched_wfD(1) [OF kernel_wfD(1) [OF wf]] h(1)] by (simp add: ring_def)
  then have "q' h = ts"
    using q h(2) own_queue_not_wait by (auto simp: q'_def ready_place_def relocate_removeAll)
  ultimately show ?thesis using k u by simp
qed


section \<open>Somebody else can run\<close>

text \<open>The idle thread makes this true of every thread that may block.\<close>

definition other_ready :: "(lnode \<Rightarrow> lnode list) \<Rightarrow> addr \<Rightarrow> bool" where
  "other_ready q t \<longleftrightarrow>
     (\<exists>u p. u \<noteq> t \<and> p < PTHREAD_READY_GROUP_MAX \<and> Thread_node u \<in> set (q (Ready_head p)))"

lemma top_after_leaving:
  assumes "sched_wf H (relocate d t q) s'" and "other_ready q t"
  obtains u where "top_thread (relocate d t q) = Some u"
proof -
  from assms(2) obtain u p where "u \<noteq> t" "p < PTHREAD_READY_GROUP_MAX" "Thread_node u \<in> set (q (Ready_head p))"
    by (auto simp: other_ready_def)
  then have "relocate d t q (Ready_head p) \<noteq> []" by (metis relocate_mem empty_iff list.set(1) lnode.inject(2))
  with top_thread_Some [OF assms(1) \<open>p < _\<close>] that show ?thesis by blast
qed

lemma block_current_total:
  assumes wf: "kernel_wf H q s" and h: "h \<in> H" "h \<in> wait_heads" and cur: "current_ready q s"
    and other: "other_ready q (current_thread s)"
  defines "q' \<equiv> relocate (Some h) (current_thread s) q"
  shows "\<exists>s'. block_current h s = Some s' \<and> kernel_wf H q' s' \<and> top_thread q' = Some (current_thread s') \<and>
     primask s' = primask s \<and> mutexes s' = mutexes s \<and> sems s' = sems s \<and>
     thr s' = (thr s)(current_thread s := with_status PTHREAD_STATE_SUSPEND (thr s (current_thread s)))"
proof -
  have "kernel_wf H q' (upd_links (list_insert_tail h (Thread_node (current_thread s)))
      (sched_set_thread_suspend (current_thread s) s))"
    unfolding q'_def by (rule block_step_wf [OF wf h])
      (use cur current_ready_movable [OF kernel_wfD(1) [OF wf]] in \<open>auto simp: current_ready_def\<close>)
  then obtain u where "top_thread q' = Some u"
    using top_after_leaving other kernel_wfD(1) unfolding q'_def by blast
  with block_current_spec [OF wf h cur, of u] show ?thesis unfolding q'_def by auto
qed

lemma top_current_ready:
  assumes "sched_wf H q s" and "top_thread q = Some (current_thread s)"
  shows "current_ready q s"
  using top_threadD [OF assms] hd_in_set [OF top_threadD(3) [OF assms]]
  by (simp add: current_ready_def valid_prio_def top_prio_Some PTHREAD_READY_GROUP_MAX_def
      PTHREAD_PRIORITY_MAX_def word_le_nat_alt)


lemma kernel_wf_init_head:
  assumes wf: "kernel_wf H q s" and h: "h \<notin> sched_heads" "h \<notin> H" "h \<notin> queued H q"
  shows "kernel_wf (insert h H) (q(h := [])) (upd_links (list_init h) s)"
  unfolding kernel_wf_def sched_wf_def
proof (intro conjI)
  note w = sched_wfD [OF kernel_wfD(1) [OF wf]]
  let ?s = "upd_links (list_init h) s"
  have same: "(q(h := [])) k = q k" if "k \<in> sched_heads" for k
    using that h(1) by auto
  show "rings (links ?s) (insert h H) (q(h := []))"
    using rings_init_head [OF w(1) h(2,3)] by (simp add: upd_links_def)
  show "sched_heads \<subseteq> insert h H" using w(2) by blast
  show "bitmap_ok (q(h := [])) (thread_ready_group ?s)" "members_ok (q(h := [])) (thr ?s)"
    using w(3,4) same by (auto simp: bitmap_ok_def members_ok_def sched_heads_def upd_links_def
        simp del: fun_upd_apply)
  show "registered_ok (q(h := [])) (thr ?s)"
    using w(5) same own_queue_in_heads
    by (auto simp: registered_ok_def sched_heads_def upd_links_def simp del: fun_upd_apply)
  show "waiters_ok (insert h H) (q(h := [])) (thr ?s)"
    using kernel_wfD(2) [OF wf] by (auto simp: waiters_ok_def upd_links_def)
qed

lemmas kernel_wf_new_head = kernel_wf_init_head [OF _ wait_head_not_sched]

section \<open>The concrete system\<close>

lemma running_kernel_wf: "kernel_wf sched_heads demo_q running_state"
  using running_wf by (auto simp: kernel_wf_def waiters_ok_def sched_heads_def wait_heads_def)

lemma running_other: "other_ready demo_q 0x200"
  unfolding other_ready_def by (intro exI [of _ "0x300"] exI [of _ 10])
    (simp add: demo_queues PTHREAD_READY_GROUP_MAX_def)

lemma running_current: "current_thread running_state = 0x200" "sched_locked running_state = 0"
  "primask running_state = False"
  by (simp_all add: running_state_def demo_facts)

end
