(* ===== verification/Mutex.thy ===== *)
theory Mutex
  imports Wait_Queue
begin

text \<open>
  The mutexes of \<^verbatim>\<open>hwutil/kernel/source/pthread.c\<close>. \<open>mutex_lock_once\<close> is
  \<^verbatim>\<open>__pthread_mutex_lock\<close>, one attempt with interrupts masked; \<open>pthread_mutex_lock\<close> is the loop around it.

  An attempt that finds the mutex taken suspends the caller, so the next attempt happens when
  the thread is scheduled again: \<open>env\<close> is what the rest of the system does to the state in
  between (\<open>None\<close> if the thread is never resumed). Whether a waiting thread is resumed depends on the other threads; \<open>lock_rounds\<close>
  is the state in which it goes on.
\<close>

section \<open>Definitions\<close>

definition MUTEX_RECURSIVE_MAX :: nat where "MUTEX_RECURSIVE_MAX = 128"

definition pthread_mutex_init :: "addr \<Rightarrow> 'a kstate_scheme \<Rightarrow> err_t \<times> 'a kstate_scheme" where
  "pthread_mutex_init mutex s =
     (let s = s\<lparr>mutexes := (mutexes s)(mutex := (mutexes s mutex)\<lparr>own_thread := NULL\<rparr>)\<rparr>;
          s = upd_links (list_init (Mutex_head mutex)) s
      in (0, s))"

definition mutex_lock_once :: "addr \<Rightarrow> 'a kstate_scheme \<Rightarrow> (err_t \<times> 'a kstate_scheme) option" where
  "mutex_lock_once mutex s =
     (let thread = get_current_thread s
      in if thread = NULL then Some (0, s)
         else let (temp, s) = hw_interrupt_suspend s
              in if own_thread (mutexes s mutex) = NULL
                 then let s = s\<lparr>mutexes := (mutexes s)(mutex := (mutexes s mutex)\<lparr>own_thread := thread\<rparr>)\<rparr>
                      in Some (0, hw_interrupt_recover temp s)
                 else if thread = own_thread (mutexes s mutex)
                 then Some (- EDEADLK, hw_interrupt_recover temp s)
                 else do {
                   s \<leftarrow> block_current (Mutex_head mutex) s;
                   Some (- EAGAIN, hw_interrupt_recover temp s)
                 })"

primrec mutex_lock_loop :: "('a kstate_scheme \<Rightarrow> 'a kstate_scheme option) \<Rightarrow> addr \<Rightarrow> nat \<Rightarrow> err_t \<Rightarrow>
    'a kstate_scheme \<Rightarrow> (err_t \<times> 'a kstate_scheme) option" where
  "mutex_lock_loop env mutex 0 ret s = Some (ret, s)"
| "mutex_lock_loop env mutex (Suc i) ret s =
     do {
       (ret, s) \<leftarrow> mutex_lock_once mutex s;
       if ret \<noteq> - EAGAIN then Some (ret, s)
       else do { s \<leftarrow> env s; mutex_lock_loop env mutex i ret s }
     }"

definition pthread_mutex_lock :: "('a kstate_scheme \<Rightarrow> 'a kstate_scheme option) \<Rightarrow> addr \<Rightarrow>
    'a kstate_scheme \<Rightarrow> (err_t \<times> 'a kstate_scheme) option" where
  "pthread_mutex_lock env mutex s = mutex_lock_loop env mutex MUTEX_RECURSIVE_MAX 0 s"

definition pthread_mutex_unlock :: "addr \<Rightarrow> 'a kstate_scheme \<Rightarrow> (err_t \<times> 'a kstate_scheme) option" where
  "pthread_mutex_unlock mutex s =
     (let thread = get_current_thread s
      in if thread = NULL then Some (0, s)
         else let (temp, s) = hw_interrupt_suspend s
              in if thread = own_thread (mutexes s mutex)
                 then let s = s\<lparr>mutexes := (mutexes s)(mutex := (mutexes s mutex)\<lparr>own_thread := NULL\<rparr>)\<rparr>
                      in do {
                        s \<leftarrow> wake_first (Mutex_head mutex) s;
                        Some (0, hw_interrupt_recover temp s)
                      }
                 else Some (- EINVAL, hw_interrupt_recover temp s))"

section \<open>Lemmas\<close>

definition owner :: "addr \<Rightarrow> 'a kstate_scheme \<Rightarrow> addr" where
  "owner m s = own_thread (mutexes s m)"

definition set_owner :: "addr \<Rightarrow> addr \<Rightarrow> 'a kstate_scheme \<Rightarrow> 'a kstate_scheme" where
  "set_owner m t s = s\<lparr>mutexes := (mutexes s)(m := (mutexes s m)\<lparr>own_thread := t\<rparr>)\<rparr>"

lemma owner_set_owner [simp]: "owner m (set_owner m t s) = t" "k \<noteq> m \<Longrightarrow> owner k (set_owner m t s) = owner k s"
  by (simp_all add: owner_def set_owner_def)

lemma set_owner_simps [simp]:
  "links (set_owner m t s) = links s" "thr (set_owner m t s) = thr s"
  "thread_ready_group (set_owner m t s) = thread_ready_group s"
  "current_thread (set_owner m t s) = current_thread s" "sems (set_owner m t s) = sems s"
  "primask (set_owner m t s) = primask s" "sched_locked (set_owner m t s) = sched_locked s"
  by (simp_all add: set_owner_def)

lemma kernel_wf_set_owner [simp]: "kernel_wf H q (set_owner m t s) = kernel_wf H q s"
  by (rule kernel_wf_cong) simp_all

lemma lock_once_free:
  "current_thread s \<noteq> NULL \<Longrightarrow> owner m s = NULL \<Longrightarrow>
   mutex_lock_once m s = Some (0, set_owner m (current_thread s) s)"
  by (simp add: mutex_lock_once_def get_current_thread_def owner_def set_owner_def kernel_simps Let_def)

lemma lock_once_own:
  "current_thread s \<noteq> NULL \<Longrightarrow> owner m s = current_thread s \<Longrightarrow> mutex_lock_once m s = Some (- EDEADLK, s)"
  by (simp add: mutex_lock_once_def get_current_thread_def owner_def kernel_simps Let_def)

lemma lock_once_taken:
  assumes "current_thread s \<noteq> NULL" and "owner m s \<noteq> NULL" and "owner m s \<noteq> current_thread s"
  shows "mutex_lock_once m s =
    map_option (\<lambda>s'. (- EAGAIN, s'\<lparr>primask := primask s\<rparr>)) (block_current (Mutex_head m) s)"
  using assms
  by (cases "block_current (Mutex_head m) s")
    (auto simp: mutex_lock_once_def get_current_thread_def owner_def hw_interrupt_suspend_def
      hw_interrupt_recover_def block_current_masked)


lemma unlock_eq:
  assumes "current_thread s \<noteq> NULL"
  shows "pthread_mutex_unlock m s =
    (if owner m s = current_thread s
     then map_option (\<lambda>s'. (0, s'\<lparr>primask := primask s\<rparr>)) (wake_first (Mutex_head m) (set_owner m NULL s))
     else Some (- EINVAL, s))"
proof -
  have eq: "s\<lparr>primask := True, mutexes := (mutexes s)(m := (mutexes s m)\<lparr>own_thread := NULL\<rparr>)\<rparr> =
      (set_owner m NULL s)\<lparr>primask := True\<rparr>"
    by (simp add: set_owner_def)
  show ?thesis using assms
    by (cases "wake_first (Mutex_head m) (set_owner m NULL s)")
      (auto simp: pthread_mutex_unlock_def get_current_thread_def owner_def hw_interrupt_suspend_def
        hw_interrupt_recover_def wake_first_masked eq)
qed

lemma mutex_head_wait: "Mutex_head m \<in> wait_heads"
  by (simp add: wait_heads_def)

lemma lock_once_taken_spec:
  assumes "kernel_wf H q s" and "Mutex_head m \<in> H" and "current_ready q s"
    and "other_ready q (current_thread s)" and "current_thread s \<noteq> NULL"
    and "owner m s \<noteq> NULL" and "owner m s \<noteq> current_thread s"
  defines "q' \<equiv> relocate (Some (Mutex_head m)) (current_thread s) q"
  shows "\<exists>s'. mutex_lock_once m s = Some (- EAGAIN, s') \<and> kernel_wf H q' s' \<and>
     top_thread q' = Some (current_thread s') \<and> primask s' = primask s \<and> mutexes s' = mutexes s \<and>
     sems s' = sems s \<and>
     thr s' = (thr s)(current_thread s := with_status PTHREAD_STATE_SUSPEND (thr s (current_thread s)))"
  using block_current_total [OF assms(1,2) mutex_head_wait assms(3,4)] lock_once_taken [OF assms(5-7)]
  unfolding q'_def by auto

lemma unlock_owner_spec:
  assumes wf: "kernel_wf H q s" and h: "Mutex_head m \<in> H" and cur: "current_thread s \<noteq> NULL"
    "owner m s = current_thread s" and top: "top_thread q = Some (current_thread s)"
  defines "q' \<equiv> (case q (Mutex_head m) of Thread_node t # _ \<Rightarrow> relocate (ready_place (thr s t)) t q | _ \<Rightarrow> q)"
  shows "\<exists>s'. pthread_mutex_unlock m s = Some (0, s') \<and> kernel_wf H q' s' \<and>
     top_thread q' = Some (current_thread s') \<and> owner m s' = NULL \<and> primask s' = primask s \<and>
     (\<forall>k. k \<noteq> m \<longrightarrow> owner k s' = owner k s) \<and> sems s' = sems s \<and>
     q' (Mutex_head m) = tl (q (Mutex_head m))"
proof (cases "q (Mutex_head m)")
  case Nil
  then have "wake_first (Mutex_head m) (set_owner m NULL s) = Some (set_owner m NULL s)"
    by (intro wake_first_none [of H q]) (simp_all add: wf h)
  then have "pthread_mutex_unlock m s = Some (0, (set_owner m NULL s)\<lparr>primask := primask s\<rparr>)"
    using unlock_eq [OF cur(1)] cur(2) by simp
  with Nil wf top show ?thesis
    by (auto simp: q'_def owner_def set_owner_def)
next
  case (Cons x ts)
  obtain t where x: "x = Thread_node t"
    using waiterD [OF wf h mutex_head_wait, of x] Cons by auto
  have wf': "kernel_wf H q (set_owner m NULL s)" by (simp add: wf)
  from wake_first_spec [OF wf' h mutex_head_wait Cons [unfolded x]]
  obtain s' where s': "wake_first (Mutex_head m) (set_owner m NULL s) = Some s'"
    "kernel_wf H (relocate (ready_place (thr s t)) t q) s'"
    "top_thread (relocate (ready_place (thr s t)) t q) = Some (current_thread s')"
    "relocate (ready_place (thr s t)) t q (Mutex_head m) = ts" "primask s' = primask s"
    "mutexes s' = mutexes (set_owner m NULL s)" "sems s' = sems s"
    by auto
  have "pthread_mutex_unlock m s = Some (0, s'\<lparr>primask := primask s\<rparr>)"
    using unlock_eq [OF cur(1)] cur(2) s'(1) by simp
  with s' show ?thesis
    by (auto simp: q'_def Cons x owner_def set_owner_def)
qed

section \<open>The locking loop\<close>

text \<open>
  \<open>lock_rounds n\<close>: the state when the thread goes on after it has found the mutex taken, been suspended and been resumed \<open>n\<close> times.
\<close>

primrec lock_rounds :: "('a kstate_scheme \<Rightarrow> 'a kstate_scheme option) \<Rightarrow> addr \<Rightarrow> nat \<Rightarrow> 'a kstate_scheme \<Rightarrow> 'a kstate_scheme option" where
  "lock_rounds env m 0 s = Some s"
| "lock_rounds env m (Suc n) s =
     (if current_thread s = NULL \<or> owner m s = NULL \<or> owner m s = current_thread s then None
      else do { r \<leftarrow> mutex_lock_once m s; s \<leftarrow> env (snd r); lock_rounds env m n s })"

lemma lock_once_taken_result:
  assumes "current_thread s \<noteq> NULL" "owner m s \<noteq> NULL" "owner m s \<noteq> current_thread s" "mutex_lock_once m s = Some r"
  shows "fst r = - EAGAIN"
  using lock_once_taken [OF assms(1-3)] assms(4) by (cases "block_current (Mutex_head m) s") auto

lemma lock_loop_rounds:
  "lock_rounds env m n s = Some s' \<Longrightarrow> n \<le> k \<Longrightarrow> mutex_lock_loop env m k r s = mutex_lock_loop env m (k - n) (if n = 0 then r else - EAGAIN) s'"
proof (induction n arbitrary: s k r)
  case (Suc n)
  then obtain x s1 where x: "current_thread s \<noteq> NULL" "owner m s \<noteq> NULL" "owner m s \<noteq> current_thread s" "mutex_lock_once m s = Some x"
    "env (snd x) = Some s1" "lock_rounds env m n s1 = Some s'" by (auto simp: bind_eq_Some_conv split: if_splits)
  obtain k' where k: "k = Suc k'" "n \<le> k'" using Suc.prems(2) by (cases k) auto
  have "mutex_lock_loop env m k r s = mutex_lock_loop env m k' (- EAGAIN) s1"
    using x(4,5) lock_once_taken_result [OF x(1-4)] by (cases x) (simp add: k(1))
  then show ?case using Suc.IH [OF x(6) k(2), of "- EAGAIN"] by (simp add: k(1))
qed simp

section \<open>A mutex nobody competes for\<close>

text \<open>Before the scheduler runs, or when the mutex is free and nobody waits for it, locking and unlocking are immediate.\<close>

definition mutex_idle :: "addr \<Rightarrow> 'a kstate_scheme \<Rightarrow> bool" where
  "mutex_idle m s \<longleftrightarrow> current_thread s = NULL \<or> owner m s = NULL \<and> next_of (links s) (Mutex_head m) = Mutex_head m"

definition locked :: "addr \<Rightarrow> 'a kstate_scheme \<Rightarrow> 'a kstate_scheme" where
  "locked m s = (if current_thread s = NULL then s else set_owner m (current_thread s) s)"

lemma set_owner_idem: "owner m s = NULL \<Longrightarrow> set_owner m NULL (set_owner m t s) = s"
  by (simp add: set_owner_def owner_def fun_upd_idem)

lemma lock_idle: "mutex_idle m s \<Longrightarrow> pthread_mutex_lock env m s = Some (0, locked m s)"
proof -
  assume i: "mutex_idle m s"
  have "mutex_lock_once m s = Some (0, locked m s)"
    using i lock_once_free [of s m]
    by (auto simp: mutex_idle_def locked_def mutex_lock_once_def get_current_thread_def)
  then have loop: "mutex_lock_loop env m (Suc n) r s = Some (0, locked m s)" for n r
    by (simp add: EAGAIN_def)
  have max: "MUTEX_RECURSIVE_MAX = Suc 127" by (simp add: MUTEX_RECURSIVE_MAX_def)
  show ?thesis unfolding pthread_mutex_lock_def max by (rule loop)
qed

lemma unlock_locked: "mutex_idle m s \<Longrightarrow> pthread_mutex_unlock m (locked m s) = Some (0, s)"
proof (cases "current_thread s = NULL")
  case True
  then show ?thesis by (simp add: locked_def pthread_mutex_unlock_def get_current_thread_def)
next
  case False
  assume "mutex_idle m s"
  then have o: "owner m s = NULL" "next_of (links s) (Mutex_head m) = Mutex_head m"
    using False by (auto simp: mutex_idle_def)
  then have "wake_first (Mutex_head m) s = Some s" by (simp add: wake_first_def)
  then show ?thesis
    using unlock_eq [of "set_owner m (current_thread s) s" m] False
    by (simp add: locked_def set_owner_idem [OF o(1)])
qed

lemma mutex_idle_cong:
  "mutex_idle m s \<Longrightarrow> current_thread s' = current_thread s \<Longrightarrow> mutexes s' = mutexes s \<Longrightarrow>
   next_of (links s') (Mutex_head m) = next_of (links s) (Mutex_head m) \<Longrightarrow> mutex_idle m s'"
  by (simp add: mutex_idle_def owner_def)

section \<open>Properties\<close>

lemma mutex_init_wf:
  assumes "kernel_wf H q s" and "Mutex_head m \<notin> H" and "Mutex_head m \<notin> queued H q"
  shows "kernel_wf (insert (Mutex_head m) H) (q(Mutex_head m := [])) (snd (pthread_mutex_init m s))"
    and "owner m (snd (pthread_mutex_init m s)) = NULL"
proof -
  have "kernel_wf H q (set_owner m NULL s)" by (simp add: assms(1))
  from kernel_wf_new_head [OF this mutex_head_wait assms(2,3)]
  show "kernel_wf (insert (Mutex_head m) H) (q(Mutex_head m := [])) (snd (pthread_mutex_init m s))"
    by (simp add: pthread_mutex_init_def set_owner_def)
  show "owner m (snd (pthread_mutex_init m s)) = NULL"
    by (simp add: pthread_mutex_init_def owner_def upd_links_def)
qed

text \<open>The concrete system with a mutex at 0x500.\<close>

definition mutex_state :: kstate where
  "mutex_state = snd (pthread_mutex_init 0x500 running_state)"

abbreviation mutex_H :: "lnode set" where
  "mutex_H \<equiv> insert (Mutex_head 0x500) sched_heads"

lemma mutex_state_facts:
  "current_thread mutex_state = 0x200" "thr mutex_state = thr running_state"
  "owner 0x500 mutex_state = NULL"
  by (simp_all add: mutex_state_def pthread_mutex_init_def upd_links_def running_current owner_def)

lemma mutex_state_wf: "kernel_wf mutex_H demo_q mutex_state"
proof -
  have "Mutex_head 0x500 \<notin> sched_heads" "Mutex_head 0x500 \<notin> queued sched_heads demo_q"
    by (auto simp: sched_heads_def queued_def demo_q_def split: if_splits)
  then have "kernel_wf mutex_H (demo_q(Mutex_head 0x500 := [])) mutex_state"
    unfolding mutex_state_def by (intro mutex_init_wf [OF running_kernel_wf])
  moreover have "demo_q(Mutex_head 0x500 := []) = demo_q" by (auto simp: demo_q_def)
  ultimately show ?thesis by simp
qed

lemma mutex_state_ready: "current_ready demo_q mutex_state"
  using running_ready by (simp add: current_ready_def mutex_state_facts running_current)

text \<open>
  One attempt to lock, on every branch: a free mutex is taken by the caller (0); a mutex the caller
  already holds is refused (\<^verbatim>\<open>-EDEADLK\<close>) and nothing changes; otherwise the caller is suspended at the tail
  of the mutex's wait list, the highest-priority ready thread becomes current,
  the owner is unchanged and the result is \<^verbatim>\<open>-EAGAIN\<close>.
\<close>
theorem mutex_lock_attempt:
  assumes "kernel_wf H q s" and "Mutex_head m \<in> H" and "current_ready q s"
    and "other_ready q (current_thread s)" and "current_thread s \<noteq> NULL"
  defines "q' \<equiv> relocate (Some (Mutex_head m)) (current_thread s) q"
  shows "if owner m s = NULL then mutex_lock_once m s = Some (0, set_owner m (current_thread s) s)
     else if owner m s = current_thread s then mutex_lock_once m s = Some (- EDEADLK, s)
     else \<exists>s'. mutex_lock_once m s = Some (- EAGAIN, s') \<and> kernel_wf H q' s' \<and>
       top_thread q' = Some (current_thread s') \<and> mutexes s' = mutexes s \<and> primask s' = primask s \<and>
       th_status (thr s' (current_thread s)) = PTHREAD_STATE_SUSPEND"
  using lock_once_free [OF assms(5), of m] lock_once_own [OF assms(5), of m]
    lock_once_taken_spec [OF assms(1-5)]
  unfolding q'_def by (cases "owner m s = NULL"; cases "owner m s = current_thread s") auto

theorem mutex_lock_attempt_witness:
  "\<exists>s'. mutex_lock_once 0x500 (set_owner 0x500 0x300 mutex_state) = Some (- EAGAIN, s') \<and>
     th_status (thr s' 0x200) = PTHREAD_STATE_SUSPEND"
  using mutex_lock_attempt [of mutex_H demo_q "set_owner 0x500 0x300 mutex_state" "0x500"]
    mutex_state_wf mutex_state_ready running_other
  by (auto simp: mutex_state_facts NULL_def current_ready_def)

text \<open>
  C6. \<^verbatim>\<open>pthread_mutex_unlock\<close> by the owner returns 0, frees the mutex, makes exactly the first waiter (if
  any) ready, in its priority's ready list, keeps the other waiters in order, and lets the
  highest-priority thread run; by any other thread it returns \<^verbatim>\<open>-EINVAL\<close> and changes nothing.
\<close>
theorem mutex_unlock_behaviour:
  assumes "kernel_wf H q s" and "Mutex_head m \<in> H" and "top_thread q = Some (current_thread s)"
    and "current_thread s \<noteq> NULL"
  defines "q' \<equiv> (case q (Mutex_head m) of Thread_node t # _ \<Rightarrow> relocate (ready_place (thr s t)) t q | _ \<Rightarrow> q)"
  shows "if owner m s = current_thread s
     then \<exists>s'. pthread_mutex_unlock m s = Some (0, s') \<and> owner m s' = NULL \<and> kernel_wf H q' s' \<and>
       q' (Mutex_head m) = tl (q (Mutex_head m)) \<and> top_thread q' = Some (current_thread s') \<and>
       primask s' = primask s
     else pthread_mutex_unlock m s = Some (- EINVAL, s)"
  using unlock_owner_spec [OF assms(1,2,4) _ assms(3)] unlock_eq [OF assms(4), of m]
  unfolding q'_def by auto

theorem mutex_unlock_behaviour_witness:
  "\<exists>s'. pthread_mutex_unlock 0x500 (set_owner 0x500 0x200 mutex_state) = Some (0, s') \<and> owner 0x500 s' = NULL"
proof -
  have "top_thread demo_q = Some 0x200"
    using demo_top by (simp add: top_thread_def demo_q_def demo_facts thread_at_def)
  then show ?thesis
    using mutex_unlock_behaviour [of mutex_H demo_q "set_owner 0x500 0x200 mutex_state" "0x500"]
      mutex_state_wf by (auto simp: mutex_state_facts NULL_def)
qed

text \<open>
  C7. \<^verbatim>\<open>pthread_mutex_lock\<close> as a whole, whatever the rest of the system does in between. When the caller has found the mutex taken and been suspended and resumed n times, and then finds it
  free, the call returns 0 and the caller is the owner, provided n is less than 128; if the caller then finds itself the owner, it is refused with \<^verbatim>\<open>-EDEADLK\<close>. After 128
  suspensions the call gives up with \<^verbatim>\<open>-EAGAIN\<close> without another look at the mutex, even if it is free.
\<close>
theorem mutex_lock_retries:
  assumes "lock_rounds env m n s = Some s'" and "current_thread s' \<noteq> NULL"
  shows "(n < 128 \<and> owner m s' = NULL \<longrightarrow> pthread_mutex_lock env m s = Some (0, set_owner m (current_thread s') s')) \<and>
    (n < 128 \<and> owner m s' = current_thread s' \<longrightarrow> pthread_mutex_lock env m s = Some (- EDEADLK, s')) \<and>
    (n = 128 \<longrightarrow> pthread_mutex_lock env m s = Some (- EAGAIN, s'))"
proof -
  have l: "pthread_mutex_lock env m s = mutex_lock_loop env m (128 - n) (if n = 0 then 0 else - EAGAIN) s'" if "n \<le> 128"
    using lock_loop_rounds [OF assms(1) that] by (simp add: pthread_mutex_lock_def MUTEX_RECURSIVE_MAX_def)
  have "mutex_lock_loop env m (128 - n) r s' = do { (ret, t) \<leftarrow> mutex_lock_once m s'; if ret \<noteq> - EAGAIN then Some (ret, t)
      else do { t \<leftarrow> env t; mutex_lock_loop env m (127 - n) ret t } }" if "n < 128" for r
  proof -
    have "128 - n = Suc (127 - n)" using that by simp
    then show ?thesis by (simp only: mutex_lock_loop.simps)
  qed
  then show ?thesis using l lock_once_free [OF assms(2), of m] lock_once_own [OF assms(2), of m]
    by (auto simp: EAGAIN_def EDEADLK_def)
qed

text \<open>The holder of the mutex releases it and gives the processor away; then the waiting thread gets it at its second attempt.\<close>

definition holder_runs :: "kstate \<Rightarrow> kstate option" where
  "holder_runs s = do { (r, s) \<leftarrow> pthread_mutex_unlock 0x500 s; sched_yield s }"

lemma top_thread_10:
  assumes "q (Ready_head 10) = Thread_node a # xs" and "\<And>k. 10 < k \<Longrightarrow> q (Ready_head k) = []"
  shows "top_thread q = Some a"
proof -
  have "top_prio q = Some 10" using assms by (auto simp: top_prio_Some PTHREAD_READY_GROUP_MAX_def)
  then show ?thesis using assms(1) by (simp add: top_thread_def)
qed

lemma holder_runs_releases:
  "\<exists>s1 s2. mutex_lock_once 0x500 (set_owner 0x500 0x300 mutex_state) = Some (- EAGAIN, s1) \<and> holder_runs s1 = Some s2 \<and> current_thread s2 = 0x200 \<and> owner 0x500 s2 = NULL"
proof -
  let ?s = "set_owner 0x500 0x300 mutex_state" and ?h = "Mutex_head 0x500"
  define q1 where "q1 = relocate (Some ?h) 0x200 demo_q"
  define q2 where "q2 = relocate (Some (Ready_head 10)) 0x200 q1"
  define q3 where "q3 = relocate (Some (Ready_head 10)) 0x300 q2"
  have hi: "demo_q (Ready_head k) = []" if "10 < k" for k using that by (simp add: demo_q_def)
  have q1: "q1 (Ready_head 10) = [Thread_node 0x300]" "q1 ?h = [Thread_node 0x200]" "\<And>k. 10 < k \<Longrightarrow> q1 (Ready_head k) = []"
    using hi by (simp_all add: q1_def relocate_removeAll demo_queues) (simp add: demo_q_def)
  have q2: "q2 (Ready_head 10) = [Thread_node 0x300, Thread_node 0x200]" "\<And>k. 10 < k \<Longrightarrow> q2 (Ready_head k) = []"
    using q1 by (simp_all add: q2_def relocate_removeAll)
  have q3: "q3 (Ready_head 10) = [Thread_node 0x200, Thread_node 0x300]" "\<And>k. 10 < k \<Longrightarrow> q3 (Ready_head k) = []"
    using q2 by (simp_all add: q3_def relocate_removeAll)
  note tops = top_thread_10 [of q1, OF q1(1,3)] top_thread_10 [of q2, OF q2] top_thread_10 [of q3, OF q3]
  have own: "own_queue (thr mutex_state t) = own_queue (thr demo_state t)" "valid_prio (thr mutex_state t)" for t
    using demo_queues(7) [of t] by (simp_all add: mutex_state_facts running_state_def)
  from lock_once_taken_spec [of mutex_H demo_q ?s "0x500"] mutex_state_wf mutex_state_ready running_other obtain s1 where
    s1: "mutex_lock_once 0x500 ?s = Some (- EAGAIN, s1)" "kernel_wf mutex_H q1 s1" "top_thread q1 = Some (current_thread s1)" "mutexes s1 = mutexes ?s"
      "thr s1 = (thr ?s)(0x200 := with_status PTHREAD_STATE_SUSPEND (thr ?s 0x200))"
    by (auto simp: mutex_state_facts NULL_def current_ready_def q1_def)
  have c1: "current_thread s1 = 0x300" "owner 0x500 s1 = 0x300" using s1(3,4) tops(1) by (simp_all add: owner_def set_owner_def)
  have o1: "own_queue (thr s1 t) = own_queue (thr demo_state t)" "valid_prio (thr s1 t)" for t using own by (simp_all add: s1(5))
  from unlock_owner_spec [OF s1(2), of "0x500"] c1 tops(1) q1(2) o1(1) [of "0x200"] obtain s2 where
    s2: "pthread_mutex_unlock 0x500 s1 = Some (0, s2)" "kernel_wf mutex_H q2 s2" "top_thread q2 = Some (current_thread s2)" "owner 0x500 s2 = NULL"
    by (auto simp: NULL_def ready_place_def demo_queues q2_def)
  have c2: "current_thread s2 = 0x300" using s2(3) tops(2) by simp
  note w2 = kernel_wfD(1) [OF s2(2)]
  have r2: "current_ready q2 s2" by (rule top_current_ready [OF w2 s2(3)])
  have o2: "own_queue (thr s2 0x300) = Ready_head 10"
  proof -
    have "Thread_node 0x300 \<in> set (q2 (Ready_head 10))" using q2(1) by simp
    moreover have "\<forall>x \<in> set (q2 (Ready_head 10)). \<exists>t. x = Thread_node t \<and> own_queue (thr s2 t) = Ready_head 10 \<and> runnable (thr s2 t)"
      using sched_wfD(4) [OF w2] unfolding members_ok_def by (simp add: PTHREAD_READY_GROUP_MAX_def)
    ultimately show ?thesis by blast
  qed
  have "sched_yield s2 = Some (switched 0x200 (sched_set_thread_ready 0x300 s2))"
    using set_ready.then_switch(1) [OF w2 _ current_ready_movable [OF w2 r2], of "0x200"] r2 tops(3) o2
    by (simp add: sched_yield_eq c2 current_ready_def ready_place_def q3_def)
  moreover have "owner 0x500 (switched 0x200 (sched_set_thread_ready 0x300 s2)) = NULL"
    using s2(4) by (simp add: owner_def)
  ultimately show ?thesis using s1(1) s2(1) by (simp add: holder_runs_def)
qed

theorem mutex_lock_retries_witness:
  "\<exists>s'. pthread_mutex_lock holder_runs 0x500 (set_owner 0x500 0x300 mutex_state) = Some (0, s') \<and> owner 0x500 s' = 0x200"
proof -
  let ?s = "set_owner 0x500 0x300 mutex_state"
  obtain s1 s2 where s: "mutex_lock_once 0x500 ?s = Some (- EAGAIN, s1)" "holder_runs s1 = Some s2" "current_thread s2 = 0x200" "owner 0x500 s2 = NULL"
    using holder_runs_releases by blast
  then have "lock_rounds holder_runs 0x500 1 ?s = Some s2" by (simp add: mutex_state_facts NULL_def)
  from mutex_lock_retries [OF this] s(3,4) show ?thesis by (simp add: NULL_def)
qed

end
