(* ===== verification/Semaphore.thy ===== *)
theory Semaphore
  imports Mutex
begin

text \<open>
  The counting semaphores of \<^verbatim>\<open>hwutil/kernel/source/semaphore.c\<close>. \<open>sem_wait_once\<close> is
  \<^verbatim>\<open>__sem_wait\<close>, one attempt with interrupts masked, and \<open>sem_wait\<close> the unbounded loop around it, in
  which \<open>env\<close> is, as for the mutexes, what happens while the thread is blocked. The third argument of
  \<^verbatim>\<open>sem_init\<close> is the largest value the semaphore can reach, not its initial value.
\<close>

section \<open>Definitions\<close>

definition SEM_VALUE_MAX :: os_u32 where "SEM_VALUE_MAX = 32"

definition upd_sem :: "addr \<Rightarrow> (sem \<Rightarrow> sem) \<Rightarrow> 'a kstate_scheme \<Rightarrow> 'a kstate_scheme" where
  "upd_sem a f s = s\<lparr>sems := (sems s)(a := f (sems s a))\<rparr>"

definition sem_init :: "addr \<Rightarrow> os_u32 \<Rightarrow> 'a kstate_scheme \<Rightarrow> err_t \<times> 'a kstate_scheme" where
  "sem_init a value s =
     (if value > SEM_VALUE_MAX then (- EINVAL, s)
      else let (temp, s) = hw_interrupt_suspend s;
               s = upd_sem a (\<lambda>x. x\<lparr>sem_value := 0\<rparr>) s;
               s = upd_sem a (\<lambda>x. x\<lparr>sem_init_value := value\<rparr>) s;
               s = upd_links (list_init (Sem_head a)) s
           in (0, hw_interrupt_recover temp s))"

definition sem_wait_once :: "addr \<Rightarrow> 'a kstate_scheme \<Rightarrow> (err_t \<times> 'a kstate_scheme) option" where
  "sem_wait_once a s =
     (let (temp, s) = hw_interrupt_suspend s
      in if sem_value (sems s a) = 0
         then do {
           s \<leftarrow> block_current (Sem_head a) s;
           Some (- EINVAL, hw_interrupt_recover temp s)
         }
         else let s = upd_sem a (\<lambda>x. x\<lparr>sem_value := sem_value x - 1\<rparr>) s
              in Some (0, hw_interrupt_recover temp s))"

partial_function (option) sem_wait :: "('a kstate_scheme \<Rightarrow> 'a kstate_scheme option) \<Rightarrow> addr \<Rightarrow>
    'a kstate_scheme \<Rightarrow> (err_t \<times> 'a kstate_scheme) option" where
  "sem_wait env a s =
     do {
       r \<leftarrow> sem_wait_once a s;
       if fst r \<noteq> 0 then do { s \<leftarrow> env (snd r); sem_wait env a s } else Some (0, snd r)
     }"

definition sem_post :: "addr \<Rightarrow> 'a kstate_scheme \<Rightarrow> (err_t \<times> 'a kstate_scheme) option" where
  "sem_post a s =
     (if sem_value (sems s a) \<ge> SEM_VALUE_MAX then Some (- EINVAL, s)
      else let (temp, s) = hw_interrupt_suspend s;
               s = (if sem_value (sems s a) < sem_init_value (sems s a)
                    then upd_sem a (\<lambda>x. x\<lparr>sem_value := sem_value x + 1\<rparr>) s else s)
           in do {
             s \<leftarrow> wake_first (Sem_head a) s;
             Some (0, hw_interrupt_recover temp s)
           })"

section \<open>Lemmas\<close>

definition sem_ok :: "addr \<Rightarrow> 'a kstate_scheme \<Rightarrow> bool" where
  "sem_ok a s \<longleftrightarrow> sem_value (sems s a) \<le> sem_init_value (sems s a) \<and> sem_init_value (sems s a) \<le> SEM_VALUE_MAX"

definition value_of :: "addr \<Rightarrow> 'a kstate_scheme \<Rightarrow> os_u32" where
  "value_of a s = sem_value (sems s a)"

definition limit_of :: "addr \<Rightarrow> 'a kstate_scheme \<Rightarrow> os_u32" where
  "limit_of a s = sem_init_value (sems s a)"

definition set_value :: "addr \<Rightarrow> os_u32 \<Rightarrow> 'a kstate_scheme \<Rightarrow> 'a kstate_scheme" where
  "set_value a v s = upd_sem a (\<lambda>x. x\<lparr>sem_value := v\<rparr>) s"

lemma set_value_simps [simp]:
  "value_of a (set_value a v s) = v" "k \<noteq> a \<Longrightarrow> value_of k (set_value a v s) = value_of k s"
  "limit_of k (set_value a v s) = limit_of k s" "links (set_value a v s) = links s"
  "thr (set_value a v s) = thr s" "thread_ready_group (set_value a v s) = thread_ready_group s"
  "current_thread (set_value a v s) = current_thread s" "mutexes (set_value a v s) = mutexes s"
  "primask (set_value a v s) = primask s" "sched_locked (set_value a v s) = sched_locked s"
  by (simp_all add: set_value_def upd_sem_def value_of_def limit_of_def)

lemma kernel_wf_set_value [simp]: "kernel_wf H q (set_value a v s) = kernel_wf H q s"
  by (rule kernel_wf_cong) simp_all

lemma sem_head_wait: "Sem_head a \<in> wait_heads"
  by (simp add: wait_heads_def)

lemma wait_once_free:
  "value_of a s \<noteq> 0 \<Longrightarrow> sem_wait_once a s = Some (0, set_value a (value_of a s - 1) s)"
  by (simp add: sem_wait_once_def value_of_def set_value_def upd_sem_def kernel_simps Let_def)

lemma wait_once_empty:
  "value_of a s = 0 \<Longrightarrow> sem_wait_once a s =
     map_option (\<lambda>s'. (- EINVAL, s'\<lparr>primask := primask s\<rparr>)) (block_current (Sem_head a) s)"
  by (cases "block_current (Sem_head a) s")
    (auto simp: sem_wait_once_def value_of_def hw_interrupt_suspend_def hw_interrupt_recover_def
      block_current_masked)

definition posted :: "addr \<Rightarrow> 'a kstate_scheme \<Rightarrow> 'a kstate_scheme" where
  "posted a s = (if value_of a s < limit_of a s then set_value a (value_of a s + 1) s else s)"

lemma posted_simps [simp]:
  "links (posted a s) = links s" "thr (posted a s) = thr s" "mutexes (posted a s) = mutexes s"
  "current_thread (posted a s) = current_thread s" "primask (posted a s) = primask s"
  "sched_locked (posted a s) = sched_locked s"
  by (simp_all add: posted_def)

lemma kernel_wf_posted [simp]: "kernel_wf H q (posted a s) = kernel_wf H q s"
  by (simp add: posted_def)

lemma post_eq:
  "sem_post a s =
     (if value_of a s \<ge> SEM_VALUE_MAX then Some (- EINVAL, s)
      else map_option (\<lambda>s'. (0, s'\<lparr>primask := primask s\<rparr>)) (wake_first (Sem_head a) (posted a s)))"
proof -
  let ?p = "\<lambda>s. if sem_value (sems s a) < sem_init_value (sems s a)
      then upd_sem a (\<lambda>x. x\<lparr>sem_value := sem_value x + 1\<rparr>) s else s"
  have "?p (s\<lparr>primask := True\<rparr>) = (posted a s)\<lparr>primask := True\<rparr>"
    by (simp add: posted_def set_value_def upd_sem_def value_of_def limit_of_def)
  then show ?thesis
    unfolding sem_post_def hw_interrupt_suspend_def hw_interrupt_recover_def Let_def prod.case
    by (cases "wake_first (Sem_head a) (posted a s)") (simp_all add: wake_first_masked value_of_def)
qed

lemma post_spec:
  assumes wf: "kernel_wf H q s" and h: "Sem_head a \<in> H" and top: "top_thread q = Some (current_thread s)"
    and v: "\<not> SEM_VALUE_MAX \<le> value_of a s"
  defines "q' \<equiv> (case q (Sem_head a) of Thread_node t # _ \<Rightarrow> relocate (ready_place (thr s t)) t q | _ \<Rightarrow> q)"
  shows "\<exists>s'. sem_post a s = Some (0, s') \<and> kernel_wf H q' s' \<and> top_thread q' = Some (current_thread s') \<and>
     sems s' = sems (posted a s) \<and> mutexes s' = mutexes s \<and> primask s' = primask s \<and>
     q' (Sem_head a) = tl (q (Sem_head a))"
proof (cases "q (Sem_head a)")
  case Nil
  then have "wake_first (Sem_head a) (posted a s) = Some (posted a s)"
    by (intro wake_first_none [of H q]) (simp_all add: wf h)
  then have "sem_post a s = Some (0, (posted a s)\<lparr>primask := primask s\<rparr>)"
    using post_eq [of a s] v by simp
  with Nil wf top show ?thesis by (auto simp: q'_def)
next
  case (Cons x ts)
  obtain t where x: "x = Thread_node t" using waiterD [OF wf h sem_head_wait, of x] Cons by auto
  have wf': "kernel_wf H q (posted a s)" by (simp add: wf)
  from wake_first_spec [OF wf' h sem_head_wait Cons [unfolded x]]
  obtain s' where s': "wake_first (Sem_head a) (posted a s) = Some s'"
    "kernel_wf H (relocate (ready_place (thr s t)) t q) s'"
    "top_thread (relocate (ready_place (thr s t)) t q) = Some (current_thread s')"
    "relocate (ready_place (thr s t)) t q (Sem_head a) = ts" "primask s' = primask s"
    "mutexes s' = mutexes s" "sems s' = sems (posted a s)"
    by auto
  have "sem_post a s = Some (0, s'\<lparr>primask := primask s\<rparr>)" using post_eq [of a s] v s'(1) by simp
  with s' show ?thesis by (auto simp: q'_def Cons x)
qed

lemma wait_once_empty_spec:
  assumes "kernel_wf H q s" and "Sem_head a \<in> H" and "current_ready q s"
    and "other_ready q (current_thread s)" and "value_of a s = 0"
  defines "q' \<equiv> relocate (Some (Sem_head a)) (current_thread s) q"
  shows "\<exists>s'. sem_wait_once a s = Some (- EINVAL, s') \<and> kernel_wf H q' s' \<and>
     top_thread q' = Some (current_thread s') \<and> primask s' = primask s \<and> mutexes s' = mutexes s \<and>
     sems s' = sems s \<and>
     thr s' = (thr s)(current_thread s := with_status PTHREAD_STATE_SUSPEND (thr s (current_thread s)))"
  using block_current_total [OF assms(1,2) sem_head_wait assms(3,4)] wait_once_empty [OF assms(5)]
  unfolding q'_def by auto

section \<open>The waiting loop\<close>

text \<open>\<open>sem_rounds n\<close>: the state after the thread has blocked and been resumed \<open>n\<close> times.\<close>

primrec sem_rounds :: "('a kstate_scheme \<Rightarrow> 'a kstate_scheme option) \<Rightarrow> addr \<Rightarrow> nat \<Rightarrow>
    'a kstate_scheme \<Rightarrow> 'a kstate_scheme option" where
  "sem_rounds env a 0 s = Some s"
| "sem_rounds env a (Suc n) s =
     (if value_of a s \<noteq> 0 then None
      else do { r \<leftarrow> sem_wait_once a s; s \<leftarrow> env (snd r); sem_rounds env a n s })"

lemma sem_wait_rounds:
  assumes "sem_rounds env a n s = Some s'" and "value_of a s' \<noteq> 0"
  shows "sem_wait env a s = Some (0, set_value a (value_of a s' - 1) s')"
  using assms(1)
proof (induction n arbitrary: s)
  case 0
  then show ?case using assms(2) by (subst sem_wait.simps) (simp add: wait_once_free)
next
  case (Suc n)
  then obtain r s2 where v: "value_of a s = 0" and r: "sem_wait_once a s = Some r"
    and s2: "env (snd r) = Some s2" "sem_rounds env a n s2 = Some s'"
    by (auto split: if_splits Option.bind_splits)
  have "fst r \<noteq> 0" using r wait_once_empty [OF v] by (auto simp: EINVAL_def)
  with Suc.IH [OF s2(2)] r s2(1) show ?case by (subst sem_wait.simps) simp
qed

lemma block_current_sems: "block_current h s = Some s' \<Longrightarrow> sems s' = sems s"
  by (auto simp: block_current_def sched_switch_thread_highest_eq upd_links_def Let_def)

text \<open>A semaphore whose count and limit are zero; the loop never leaves such a state if the
  environment does not.\<close>

definition dead_sem :: "addr \<Rightarrow> 'a kstate_scheme \<Rightarrow> bool" where
  "dead_sem a s \<longleftrightarrow> value_of a s = 0 \<and> limit_of a s = 0"

lemma sem_wait_not_dead:
  assumes "sem_wait env a s = Some r" and "\<And>x y. env x = Some y \<Longrightarrow> dead_sem a x \<Longrightarrow> dead_sem a y"
  shows "\<not> dead_sem a s"
proof -
  let ?P = "\<lambda>env a s r. (\<forall>x y. env x = Some y \<longrightarrow> dead_sem a x \<longrightarrow> dead_sem a y) \<longrightarrow> \<not> dead_sem a s"
  have "?P env a s r"
  proof (rule sem_wait.raw_induct [where P = ?P, OF _ assms(1)])
    fix f env and a :: addr and s :: "'a kstate_scheme" and r
    assume IH: "\<And>env a s r. f env a s = Some r \<Longrightarrow> ?P env a s r"
      and run: "do { r \<leftarrow> sem_wait_once a s;
          if fst r \<noteq> 0 then do { s \<leftarrow> env (snd r); f env a s } else Some (0, snd r) } = Some r"
    show "?P env a s r"
    proof (intro impI notI)
      assume E: "\<forall>x y. env x = Some y \<longrightarrow> dead_sem a x \<longrightarrow> dead_sem a y" and z: "dead_sem a s"
      then have z': "value_of a s = 0" by (simp add: dead_sem_def)
      from run wait_once_empty [OF z'] obtain s1 where s1: "block_current (Sem_head a) s = Some s1"
        by (auto split: Option.bind_splits)
      then obtain s2 where s2: "env (s1\<lparr>primask := primask s\<rparr>) = Some s2" "f env a s2 = Some r"
        using run wait_once_empty [OF z'] by (auto simp: EINVAL_def split: Option.bind_splits)
      have "dead_sem a (s1\<lparr>primask := primask s\<rparr>)"
        using z block_current_sems [OF s1] by (simp add: dead_sem_def value_of_def limit_of_def)
      with E s2(1) have "dead_sem a s2" by blast
      with IH [OF s2(2)] E show False by blast
    qed
  qed
  with assms(2) show ?thesis by blast
qed

lemma wake_first_sems: "wake_first h s = Some s' \<Longrightarrow> sems s' = sems s"
  by (auto simp: wake_first_def sched_switch_thread_highest_eq split: if_splits Option.bind_splits)

lemma post_sems: "sem_post a s = Some (r, s') \<Longrightarrow> sems s' = sems s \<or> sems s' = sems (posted a s)"
  using wake_first_sems by (fastforce simp: post_eq split: if_splits)

lemma post_keeps_dead: "sem_post a s = Some (r, s') \<Longrightarrow> dead_sem a s \<Longrightarrow> dead_sem a s'"
proof -
  assume "sem_post a s = Some (r, s')" and d: "dead_sem a s"
  moreover have "posted a s = s" using d by (simp add: posted_def dead_sem_def)
  ultimately have "sems s' = sems s" using post_sems by fastforce
  with d show "dead_sem a s'" by (simp add: dead_sem_def value_of_def limit_of_def)
qed

section \<open>Properties\<close>

lemma sem_init_facts:
  assumes "v \<le> SEM_VALUE_MAX"
  shows "fst (sem_init a v s) = 0" and "value_of a (snd (sem_init a v s)) = 0"
    and "limit_of a (snd (sem_init a v s)) = v" and "thr (snd (sem_init a v s)) = thr s"
    and "current_thread (snd (sem_init a v s)) = current_thread s"
  using leD [OF assms] by (simp_all add: sem_init_def kernel_simps upd_sem_def value_of_def limit_of_def Let_def)

lemma sem_init_wf:
  assumes "kernel_wf H q s" and "Sem_head a \<notin> H" and "Sem_head a \<notin> queued H q" and "v \<le> SEM_VALUE_MAX"
  shows "kernel_wf (insert (Sem_head a) H) (q(Sem_head a := [])) (snd (sem_init a v s))"
  using kernel_wf_new_head [OF assms(1) sem_head_wait assms(2,3)] leD [OF assms(4)]
  by (simp add: sem_init_def kernel_simps upd_sem_def Let_def kernel_wf_def sched_wf_def)

text \<open>The concrete system with a semaphore at 0x600 that counts up to 3.\<close>

definition sem_state :: kstate where
  "sem_state = snd (sem_init 0x600 3 running_state)"

abbreviation sem_H :: "lnode set" where
  "sem_H \<equiv> insert (Sem_head 0x600) sched_heads"

lemma sem_state_facts:
  "current_thread sem_state = 0x200" "thr sem_state = thr running_state" "value_of 0x600 sem_state = 0"
  "limit_of 0x600 sem_state = 3"
  using sem_init_facts [of 3 "0x600" running_state]
  by (simp_all add: sem_state_def SEM_VALUE_MAX_def running_current)

lemma sem_state_wf: "kernel_wf sem_H demo_q sem_state"
proof -
  have "Sem_head 0x600 \<notin> sched_heads" "Sem_head 0x600 \<notin> queued sched_heads demo_q"
    by (auto simp: sched_heads_def queued_def demo_q_def split: if_splits)
  then have "kernel_wf sem_H (demo_q(Sem_head 0x600 := [])) sem_state"
    unfolding sem_state_def by (intro sem_init_wf [OF running_kernel_wf]) (simp_all add: SEM_VALUE_MAX_def)
  moreover have "demo_q(Sem_head 0x600 := []) = demo_q" by (auto simp: demo_q_def)
  ultimately show ?thesis by simp
qed

lemma sem_state_ready: "current_ready demo_q sem_state"
  using running_ready by (simp add: current_ready_def sem_state_facts running_current)

text \<open>
  C8. The count of a semaphore stays between 0 and the limit given to \<^verbatim>\<open>sem_init\<close>, itself at most 32: initialising
  establishes this, and every completed attempt to wait and every post preserves it.
\<close>
theorem sem_value_bounded:
  "(v \<le> SEM_VALUE_MAX \<longrightarrow> sem_ok a (snd (sem_init a v s))) \<and>
   (sem_ok a s \<and> sem_wait_once b s = Some (r, s1) \<longrightarrow> sem_ok a s1) \<and>
   (sem_ok a s \<and> sem_post b s = Some (r', s2) \<longrightarrow> sem_ok a s2)"
proof (intro conjI impI)
  assume "v \<le> SEM_VALUE_MAX"
  then show "sem_ok a (snd (sem_init a v s))"
    using sem_init_facts(2,3) [of v a s] by (simp add: sem_ok_def value_of_def limit_of_def)
next
  assume h: "sem_ok a s \<and> sem_wait_once b s = Some (r, s1)"
  show "sem_ok a s1"
  proof (cases "value_of b s = 0")
    case True
    with h obtain x where x: "block_current (Sem_head b) s = Some x" "s1 = x\<lparr>primask := primask s\<rparr>"
      by (auto simp: wait_once_empty [OF True])
    from h show ?thesis using block_current_sems [OF x(1)] by (simp add: sem_ok_def x(2))
  next
    case False
    then have s1: "s1 = set_value b (value_of b s - 1) s" using h wait_once_free [OF False] by simp
    have "value_of b s - 1 \<le> value_of b s" using False by (simp add: word_le_nat_alt unat_minus_one_eq)
    then show ?thesis using h
      by (auto simp: s1 sem_ok_def set_value_def upd_sem_def value_of_def)
  qed
next
  assume h: "sem_ok a s \<and> sem_post b s = Some (r', s2)"
  have inc: "x < l \<Longrightarrow> x + 1 \<le> l" for x l :: os_u32 by (rule inc_le)
  have "sem_ok a (posted b s)"
    using h inc by (auto simp: posted_def sem_ok_def set_value_def upd_sem_def value_of_def limit_of_def)
  then show "sem_ok a s2" using h post_sems [of b s r' s2] by (auto simp: sem_ok_def)
qed

theorem sem_value_bounded_witness:
  "sem_ok 0x600 sem_state \<and> (\<exists>s'. sem_post 0x600 sem_state = Some (0, s') \<and> sem_ok 0x600 s')"
proof -
  have i: "sem_ok 0x600 sem_state"
    using sem_value_bounded [of 3 "0x600" running_state] by (simp add: sem_state_def SEM_VALUE_MAX_def)
  have "wake_first (Sem_head 0x600) (posted 0x600 sem_state) = Some (posted 0x600 sem_state)"
    by (rule wake_first_none [of sem_H demo_q]) (simp_all add: sem_state_wf demo_q_def)
  then obtain s' where "sem_post 0x600 sem_state = Some (0, s')"
    by (auto simp: post_eq sem_state_facts SEM_VALUE_MAX_def)
  with i sem_value_bounded [of 3 "0x600" sem_state "0x600"] show ?thesis by blast
qed

text \<open>
  \<^verbatim>\<open>sem_post\<close> below the maximum returns 0, raises the count by one unless the limit is reached, makes
  exactly the first waiter ready, keeps the other waiters in order and lets the
  highest-priority thread run; at the maximum it returns \<^verbatim>\<open>-EINVAL\<close> and changes nothing.
\<close>
theorem sem_post_behaviour:
  assumes "kernel_wf H q s" and "Sem_head a \<in> H" and "top_thread q = Some (current_thread s)"
  defines "q' \<equiv> (case q (Sem_head a) of Thread_node t # _ \<Rightarrow> relocate (ready_place (thr s t)) t q | _ \<Rightarrow> q)"
  shows "if SEM_VALUE_MAX \<le> value_of a s then sem_post a s = Some (- EINVAL, s)
     else \<exists>s'. sem_post a s = Some (0, s') \<and> kernel_wf H q' s' \<and> primask s' = primask s \<and>
       value_of a s' = (if value_of a s < limit_of a s then value_of a s + 1 else value_of a s) \<and>
       q' (Sem_head a) = tl (q (Sem_head a)) \<and> top_thread q' = Some (current_thread s')"
proof (cases "SEM_VALUE_MAX \<le> value_of a s")
  case True
  then show ?thesis by (simp add: post_eq)
next
  case False
  from post_spec [OF assms(1-3) False] obtain s' where "sem_post a s = Some (0, s')" "kernel_wf H q' s'"
    "sems s' = sems (posted a s)" "primask s' = primask s" "q' (Sem_head a) = tl (q (Sem_head a))"
    "top_thread q' = Some (current_thread s')" unfolding q'_def by auto
  moreover from this(3) have "value_of a s' = (if value_of a s < limit_of a s then value_of a s + 1 else value_of a s)"
    by (simp add: value_of_def posted_def set_value_def upd_sem_def)
  ultimately show ?thesis using False by auto
qed

theorem sem_post_behaviour_witness:
  "\<exists>s'. sem_post 0x600 sem_state = Some (0, s') \<and> value_of 0x600 s' = 1"
proof -
  have "top_thread demo_q = Some 0x200"
    using demo_top by (simp add: top_thread_def demo_q_def demo_facts thread_at_def)
  then show ?thesis
    using sem_post_behaviour [OF sem_state_wf, of "0x600"]
    by (auto simp: sem_state_facts SEM_VALUE_MAX_def)
qed

text \<open>
  \<^verbatim>\<open>sem_wait\<close> returns 0 as soon as it finds a non-zero count: if the thread blocks and is resumed n
  times, each time finding zero, and then finds v > 0, the call returns with the count v - 1.
\<close>
theorem sem_wait_returns:
  assumes "sem_rounds env a n s = Some s'" and "value_of a s' \<noteq> 0"
  shows "\<exists>s''. sem_wait env a s = Some (0, s'') \<and> value_of a s'' = value_of a s' - 1 \<and>
     thr s'' = thr s' \<and> links s'' = links s' \<and> current_thread s'' = current_thread s'"
  using sem_wait_rounds [OF assms] by simp

theorem sem_wait_returns_witness:
  "\<exists>s''. sem_wait (\<lambda>_. Some (set_value 0x600 2 sem_state)) 0x600 sem_state = Some (0, s'') \<and> value_of 0x600 s'' = 1"
proof -
  obtain r where "sem_wait_once 0x600 sem_state = Some r"
    using wait_once_empty_spec [OF sem_state_wf _ sem_state_ready, of "0x600"] running_other
    by (auto simp: sem_state_facts)
  then have "sem_rounds (\<lambda>_. Some (set_value 0x600 2 sem_state)) 0x600 1 sem_state = Some (set_value 0x600 2 sem_state)"
    by (simp add: sem_state_facts)
  from sem_wait_returns [OF this] show ?thesis by auto
qed

text \<open>
  A semaphore initialised with 0, the usual way to create a signalling semaphore, is dead: no post changes
  its count, and however often the other threads post to it (any environment that keeps a
  dead semaphore dead), \<^verbatim>\<open>sem_wait\<close> never returns.
\<close>
theorem sem_init_zero_never_signals:
  fixes s :: "'a kstate_scheme"
  assumes "\<And>x y. env x = Some y \<Longrightarrow> dead_sem a x \<Longrightarrow> dead_sem a y"
  defines "s0 \<equiv> snd (sem_init a 0 s)"
  shows "(\<forall>r s'. sem_post a s0 = Some (r, s') \<longrightarrow> dead_sem a s') \<and> sem_wait env a s0 = None"
proof
  have d: "dead_sem a s0"
    using sem_init_facts(2,3) [of 0 a s] by (simp add: dead_sem_def s0_def SEM_VALUE_MAX_def)
  show "\<forall>r s'. sem_post a s0 = Some (r, s') \<longrightarrow> dead_sem a s'" using d post_keeps_dead by blast
  show "sem_wait env a s0 = None"
    using sem_wait_not_dead [of env a s0] assms(1) d by (cases "sem_wait env a s0") auto
qed

theorem sem_init_zero_never_signals_witness:
  "sem_wait (\<lambda>s. map_option snd (sem_post 0x600 s)) 0x600 (snd (sem_init 0x600 0 running_state)) = None"
proof -
  have "dead_sem 0x600 y"
    if "map_option snd (sem_post 0x600 x) = Some y" "dead_sem 0x600 x" for x y :: kstate
    using that post_keeps_dead by fastforce
  with sem_init_zero_never_signals [of "\<lambda>s. map_option snd (sem_post 0x600 s)" "0x600" running_state]
  show ?thesis by blast
qed

end
