(* ===== verification/Sleep.thy ===== *)
theory Sleep
  imports Wait_Queue
begin

text \<open>
  \<^verbatim>\<open>msleep\<close> and \<^verbatim>\<open>sleep\<close> of \<^verbatim>\<open>hwutil/kernel/source/unistd.c\<close>, and when a sleeper wakes: after
  exactly as many system ticks as its counter says. The counter has 16 bits.
\<close>

section \<open>Definitions\<close>

definition msleep :: "os_u32 \<Rightarrow> os_u32 \<Rightarrow> 'a kstate_scheme \<Rightarrow> (os_u32 \<times> 'a kstate_scheme) option" where
  "msleep tick milliseconds s =
     (let current_pthread = get_current_thread s
      in if current_pthread = NULL then Some (0, s)
         else let (temp, s) = hw_interrupt_suspend s;
                  s = upd_thread current_pthread (\<lambda>x. x\<lparr>th_sleep_ticks :=
                        ucast (if milliseconds div tick \<noteq> 0 then milliseconds div tick else 1)\<rparr>) s;
                  s = sched_set_thread_sleep current_pthread s
              in do {
                s \<leftarrow> sched_switch_thread s;
                Some (milliseconds, hw_interrupt_recover temp s)
              })"

definition sleep :: "os_u32 \<Rightarrow> os_u32 \<Rightarrow> 'a kstate_scheme \<Rightarrow> (os_u32 \<times> 'a kstate_scheme) option" where
  "sleep tick seconds s = do { r \<leftarrow> msleep tick (seconds * 1000) s; Some (seconds, snd r) }"

section \<open>Going to sleep\<close>

definition nap :: "os_u32 \<Rightarrow> os_u32 \<Rightarrow> os_u16" where
  "nap tick ms = ucast (if ms div tick \<noteq> 0 then ms div tick else 1)"

definition with_nap :: "os_u16 \<Rightarrow> addr \<Rightarrow> 'a kstate_scheme \<Rightarrow> 'a kstate_scheme" where
  "with_nap n t s = s\<lparr>thr := (thr s)(t := (thr s t)\<lparr>th_sleep_ticks := n\<rparr>)\<rparr>"

lemma msleep_eq:
  "current_thread s \<noteq> NULL \<Longrightarrow> msleep tick ms s =
     map_option (\<lambda>s'. (ms, s'\<lparr>primask := primask s\<rparr>))
       (sched_switch_thread (sched_set_thread_sleep (current_thread s) (with_nap (nap tick ms) (current_thread s) s)))"
proof -
  let ?t = "current_thread s" and ?s = "with_nap (nap tick ms) (current_thread s) s"
  have "sched_set_thread_sleep ?t (?s\<lparr>primask := True\<rparr>) = (sched_set_thread_sleep ?t ?s)\<lparr>primask := True\<rparr>"
    by (simp add: transition_eqs left_group_def)
  moreover assume "current_thread s \<noteq> NULL"
  moreover have "s\<lparr>primask := True, thr := (thr s)(?t := (thr s ?t)\<lparr>th_sleep_ticks := nap tick ms\<rparr>)\<rparr> = ?s\<lparr>primask := True\<rparr>"
    by (simp add: with_nap_def)
  ultimately show ?thesis
    by (cases "sched_switch_thread (sched_set_thread_sleep ?t ?s)")
      (simp_all add: msleep_def get_current_thread_def hw_interrupt_suspend_def hw_interrupt_recover_def
        upd_thread_def nap_def [symmetric] sched_switch_masked Let_def)
qed

lemma with_nap_simps [simp]:
  "links (with_nap n t s) = links s" "current_thread (with_nap n t s) = current_thread s"
  "thread_ready_group (with_nap n t s) = thread_ready_group s" "primask (with_nap n t s) = primask s"
  "mutexes (with_nap n t s) = mutexes s" "sems (with_nap n t s) = sems s"
  "sched_locked (with_nap n t s) = sched_locked s"
  "own_queue (thr (with_nap n t s) u) = own_queue (thr s u)"
  "valid_prio (thr (with_nap n t s) u) = valid_prio (thr s u)"
  by (simp_all add: with_nap_def own_queue_def valid_prio_def)

lemma kernel_wf_with_nap:
  assumes "kernel_wf H q s"
  shows "kernel_wf H q (with_nap n t s)"
proof -
  have "sched_wf H q (with_nap n t s)"
    by (rule sched_wf_thr_cong [OF kernel_wfD(1) [OF assms]]) (auto simp: with_nap_def)
  moreover have "waiters_ok H q (thr (with_nap n t s))"
    using kernel_wfD(2) [OF assms] by (fastforce simp: waiters_ok_def with_nap_def valid_prio_def)
  ultimately show ?thesis by (simp add: kernel_wf_def)
qed

lemma msleep_run:
  assumes wf: "kernel_wf H q s" and cur: "current_ready q s" and other: "other_ready q (current_thread s)"
    and nn: "current_thread s \<noteq> NULL"
  defines "t \<equiv> current_thread s"
  defines "q' \<equiv> relocate (Some Sleep_head) t q"
  shows "\<exists>s'. msleep tick ms s = Some (ms, s') \<and> kernel_wf H q' s' \<and> top_thread q' = Some (current_thread s') \<and>
     thr s' = (thr s)(t := with_status PTHREAD_STATE_SLEEP ((thr s t)\<lparr>th_sleep_ticks := nap tick ms\<rparr>)) \<and>
     primask s' = primask s \<and> mutexes s' = mutexes s \<and> sems s' = sems s \<and> sched_locked s' = sched_locked s"
proof -
  let ?s = "with_nap (nap tick ms) t s"
  have mv: "movable H q ?s t"
    using current_ready_movable [OF kernel_wfD(1) [OF wf] cur] by (simp add: movable_def t_def)
  have vp: "valid_prio (thr ?s t)" using cur by (simp add: t_def current_ready_def)
  have k: "kernel_wf H q' (sched_set_thread_sleep t ?s)"
    unfolding q'_def by (rule set_sleep.kernel_wf_law [OF kernel_wf_with_nap [OF wf] vp mv])
      (auto simp: wait_heads_def)
  obtain u where u: "top_thread q' = Some u"
    using top_after_leaving [OF kernel_wfD(1) [OF k, unfolded q'_def]] other q'_def t_def by blast
  have "msleep tick ms s = Some (ms, (switched u (sched_set_thread_sleep t ?s))\<lparr>primask := primask s\<rparr>)"
    using msleep_eq [OF nn] sched_switch_thread_eq [OF kernel_wfD(1) [OF k]] u by (simp add: t_def)
  with k u show ?thesis by (simp add: with_nap_def)
qed

section \<open>Waking up\<close>

text \<open>A run of the system in which only the tick interrupt happens.\<close>

primrec run_ticks :: "os_u32 \<Rightarrow> nat \<Rightarrow> 'a kstate_scheme \<Rightarrow> 'a kstate_scheme option" where
  "run_ticks tick 0 s = Some s"
| "run_ticks tick (Suc k) s = do { s \<leftarrow> run_ticks tick k s; sched_proc tick s }"

lemma sleepers_list:
  assumes "sched_wf H q s"
  obtains ts where "q Sleep_head = map Thread_node ts"
proof -
  have "\<forall>x\<in>set (q Sleep_head). \<exists>t. x = Thread_node t"
    using sched_wfD(4) [OF assms] by (auto simp: members_ok_def)
  then have "\<exists>ts. q Sleep_head = map Thread_node ts"
    by (induction "q Sleep_head" rule: list.induct) (auto intro: ex_map_conv [THEN iffD2])
  with that show ?thesis by blast
qed

lemma tick_step:
  assumes wf: "sched_wf H q s" and un: "sched_locked s \<noteq> SCHED_IS_LOCKED" and cur: "current_ready q s"
    and t: "Thread_node t \<in> set (q Sleep_head)"
  obtains s' q' where "sched_proc tick s = Some s'" "sched_wf H q' s'" "sched_locked s' = sched_locked s"
    "current_ready q' s'" "thr s' t = slept (thr s t)"
    "\<not> due (thr s t) \<Longrightarrow> Thread_node t \<in> set (q' Sleep_head)"
    "due (thr s t) \<Longrightarrow> Thread_node t \<in> set (q' (own_queue (thr s t)))"
proof -
  obtain ts where ts: "q Sleep_head = map Thread_node ts" using sleepers_list [OF wf] .
  obtain s' where s': "sched_proc tick s = Some s'" "top_thread (tick_q s ts q) = Some (current_thread s')"
    "sched_wf H (tick_q s ts q) s'" "thr s' = tick_thr s ts" "sched_locked s' = sched_locked s"
    using sched_proc_run [OF wf un cur ts, of tick] by blast
  have mem: "t \<in> set ts" using t ts by auto
  have "t \<noteq> current_thread s" using current_not_sleeping [OF wf cur] t by auto
  then have "thr s' t = slept (thr s t)" using mem by (simp add: s'(4) tick_thr_def wake_thr_def Let_def)
  moreover have "Thread_node t \<in> set (tick_q s ts q Sleep_head)" if "\<not> due (thr s t)"
    using that mem by (auto simp: tick_q_def wake_q_def Let_def)
  moreover have "Thread_node t \<in> set (tick_q s ts q (own_queue (thr s t)))" if "due (thr s t)"
    using that mem by (auto simp: tick_q_def wake_q_def Let_def own_queue_def)
  ultimately show ?thesis using that s' top_current_ready [OF s'(3,2)] by metis
qed

lemma sleeping_for:
  assumes wf: "sched_wf H q s" and un: "sched_locked s \<noteq> SCHED_IS_LOCKED" and cur: "current_ready q s"
    and t: "Thread_node t \<in> set (q Sleep_head)" and k: "k < unat (th_sleep_ticks (thr s t))"
  shows "\<exists>s' q'. run_ticks tick k s = Some s' \<and> sched_wf H q' s' \<and> sched_locked s' \<noteq> SCHED_IS_LOCKED \<and>
     current_ready q' s' \<and> Thread_node t \<in> set (q' Sleep_head) \<and>
     thr s' t = (thr s t)\<lparr>th_sleep_ticks := th_sleep_ticks (thr s t) - of_nat k\<rparr>"
  using k
proof (induction k)
  case 0
  then show ?case using wf un cur t by auto
next
  case (Suc k)
  then obtain s1 q1 where s1: "run_ticks tick k s = Some s1" "sched_wf H q1 s1"
    "sched_locked s1 \<noteq> SCHED_IS_LOCKED" "current_ready q1 s1" "Thread_node t \<in> set (q1 Sleep_head)"
    "thr s1 t = (thr s t)\<lparr>th_sleep_ticks := th_sleep_ticks (thr s t) - of_nat k\<rparr>" by auto
  have "unat (of_nat k :: os_u16) = k"
    using Suc.prems unsigned_less [of "th_sleep_ticks (thr s t)", where 'a = nat]
    by (simp add: unsigned_of_nat take_bit_nat_eq_self)
  then have "unat (th_sleep_ticks (thr s t) - of_nat k) = unat (th_sleep_ticks (thr s t)) - k"
    using Suc.prems by (subst unat_sub) (simp_all add: word_le_nat_alt)
  then have nd: "\<not> due (thr s1 t)" using Suc.prems by (auto simp: due_def s1(6))
  from tick_step [OF s1(2-5), of tick] obtain s2 q2 where s2: "sched_proc tick s1 = Some s2"
    "sched_wf H q2 s2" "sched_locked s2 = sched_locked s1" "current_ready q2 s2"
    "thr s2 t = slept (thr s1 t)" "Thread_node t \<in> set (q2 Sleep_head)" using nd by metis
  moreover have "slept (thr s1 t) = (thr s t)\<lparr>th_sleep_ticks := th_sleep_ticks (thr s t) - of_nat (Suc k)\<rparr>"
    using nd by (simp add: slept_def Let_def s1(6) algebra_simps)
  ultimately show ?case using s1(1,3) by auto
qed

section \<open>Properties\<close>

text \<open>
  C9. A sleeping thread wakes exactly on time: while the tick interrupt runs undisturbed on an unlocked
  scheduler, a thread on the sleep list with counter n is still there after any k < n ticks, with
  counter n - k, and at the n-th tick it is READY in the ready list of its priority.
\<close>
theorem sleeper_wakes_on_time:
  assumes "sched_wf H q s" and "sched_locked s \<noteq> SCHED_IS_LOCKED" and "current_ready q s"
    and "Thread_node t \<in> set (q Sleep_head)" and "th_sleep_ticks (thr s t) = n" and "n \<noteq> 0"
  shows "(\<forall>k<unat n. \<exists>s' q'. run_ticks tick k s = Some s' \<and> sched_wf H q' s' \<and>
       Thread_node t \<in> set (q' Sleep_head) \<and> unat (th_sleep_ticks (thr s' t)) = unat n - k) \<and>
     (\<exists>s' q'. run_ticks tick (unat n) s = Some s' \<and> sched_wf H q' s' \<and>
       Thread_node t \<in> set (q' (own_queue (thr s' t))) \<and> th_status (thr s' t) = PTHREAD_STATE_READY)"
proof
  show "\<forall>k<unat n. \<exists>s' q'. run_ticks tick k s = Some s' \<and> sched_wf H q' s' \<and>
       Thread_node t \<in> set (q' Sleep_head) \<and> unat (th_sleep_ticks (thr s' t)) = unat n - k"
  proof (intro allI impI)
    fix k assume k: "k < unat n"
    then have "unat (of_nat k :: os_u16) = k" "of_nat k \<le> n"
      using unsigned_less [of n, where 'a = nat]
      by (simp_all add: unsigned_of_nat take_bit_nat_eq_self word_le_nat_alt)
    then have "unat (n - of_nat k) = unat n - k" by (simp add: unat_sub)
    with sleeping_for [OF assms(1-4), of k tick] k assms(5)
    show "\<exists>s' q'. run_ticks tick k s = Some s' \<and> sched_wf H q' s' \<and>
       Thread_node t \<in> set (q' Sleep_head) \<and> unat (th_sleep_ticks (thr s' t)) = unat n - k" by auto
  qed
  have pos: "0 < unat n" using assms(6) by (simp add: unat_gt_0)
  then have "unat n - 1 < unat n" by simp
  with sleeping_for [OF assms(1-4), of "unat n - 1" tick] assms(5) obtain s1 q1 where
    s1: "run_ticks tick (unat n - 1) s = Some s1" "sched_wf H q1 s1"
    "sched_locked s1 \<noteq> SCHED_IS_LOCKED" "current_ready q1 s1" "Thread_node t \<in> set (q1 Sleep_head)"
    "thr s1 t = (thr s t)\<lparr>th_sleep_ticks := n - of_nat (unat n - 1)\<rparr>" by auto
  have "n - of_nat (unat n - 1) = 1" using pos by (simp add: of_nat_diff)
  then have d: "due (thr s1 t)" by (simp add: due_def s1(6))
  from tick_step [OF s1(2-5), of tick] d obtain s2 q2 where s2: "sched_proc tick s1 = Some s2"
    "sched_wf H q2 s2" "thr s2 t = slept (thr s1 t)" "Thread_node t \<in> set (q2 (own_queue (thr s1 t)))"
    by metis
  have "run_ticks tick (unat n) s = Some s2"
    using s1(1) s2(1) pos run_ticks.simps(2) [of tick "unat n - 1" s] by simp
  moreover have "th_status (thr s2 t) = PTHREAD_STATE_READY" "own_queue (thr s2 t) = own_queue (thr s1 t)"
    using d by (simp_all add: s2(3) slept_def Let_def own_queue_def)
  ultimately show "\<exists>s' q'. run_ticks tick (unat n) s = Some s' \<and> sched_wf H q' s' \<and>
       Thread_node t \<in> set (q' (own_queue (thr s' t))) \<and> th_status (thr s' t) = PTHREAD_STATE_READY"
    using s2 by auto
qed


theorem sleeper_wakes_on_time_witness:
  "\<exists>s s'. msleep 1 2 running_state = Some (2, s) \<and> run_ticks 1 2 s = Some s' \<and>
     th_status (thr s' 0x200) = PTHREAD_STATE_READY"
proof -
  let ?q = "relocate (Some Sleep_head) 0x200 demo_q"
  obtain s where s: "msleep 1 2 running_state = Some (2, s)" "kernel_wf sched_heads ?q s"
    "top_thread ?q = Some (current_thread s)" "sched_locked s = 0"
    "thr s 0x200 = with_status PTHREAD_STATE_SLEEP ((thr running_state 0x200)\<lparr>th_sleep_ticks := nap 1 2\<rparr>)"
    using msleep_run [OF running_kernel_wf running_ready, of 1 2] running_other
    by (auto simp: running_current NULL_def)
  have n: "nap 1 2 = 2" by (simp add: nap_def)
  note w = kernel_wfD(1) [OF s(2)]
  from sleeper_wakes_on_time [OF w _ top_current_ready [OF w s(3)], of "0x200" 2 1] s n show ?thesis
    by (auto simp: relocate_mem with_status_def SCHED_IS_LOCKED_def)
qed

text \<open>
  \<^verbatim>\<open>msleep\<close> puts the caller on the sleep list and gives the processor to the highest-priority
  ready thread; the counter it stores is the requested time in ticks, at least 1, but
  truncated to 16 bits, so any request of 65536 ticks or more sleeps for a
  shorter time than asked.
\<close>
theorem msleep_counter:
  assumes "kernel_wf H q s" and "current_ready q s" and "other_ready q (current_thread s)"
    and "current_thread s \<noteq> NULL"
  shows "\<exists>s'. msleep tick ms s = Some (ms, s') \<and>
     kernel_wf H (relocate (Some Sleep_head) (current_thread s) q) s' \<and>
     top_thread (relocate (Some Sleep_head) (current_thread s) q) = Some (current_thread s') \<and>
     unat (th_sleep_ticks (thr s' (current_thread s))) = max 1 (unat ms div unat tick) mod 65536"
proof -
  have "ms div tick \<noteq> 0 \<longleftrightarrow> unat ms div unat tick \<noteq> 0"
    by (metis unat_div_distrib unat_eq_0)
  then have "unat (nap tick ms) = max 1 (unat ms div unat tick) mod 65536"
    by (auto simp: nap_def unsigned_ucast_eq take_bit_eq_mod unat_div_distrib max_def)
  with msleep_run [OF assms, of tick ms] show ?thesis by (auto simp: with_status_def)
qed

theorem msleep_counter_witness:
  "\<exists>s'. msleep 1 66000 running_state = Some (66000, s') \<and> unat (th_sleep_ticks (thr s' 0x200)) = 464"
  using msleep_counter [OF running_kernel_wf running_ready, of 1 66000] running_other
  by (auto simp: running_current NULL_def)

end
