(* ===== verification/Kernel_System.thy ===== *)
theory Kernel_System
  imports Semaphore Sleep
begin

text \<open>
  The kernel as a transition system. A state is the kernel state together with the call each thread
  is in the middle of. One step is one piece of kernel code that runs with interrupts masked (an attempt to
  lock, an unlock, an attempt to wait, a post, the first half of a yield, a switch, a
  sleep), or the registration of a new thread, or a change of the scheduler lock, or a tick interrupt between two such
  pieces, or the current thread deciding on its next call. A yield takes two steps, because \<^verbatim>\<open>sched_yield\<close>
  unmasks interrupts between moving the caller to the tail and switching: ticks may come in between.
  The threads are arbitrary programs over these calls, and new ones may appear at any time;
  only the idle thread never makes a call.

  The end of a thread and signals are not among the steps. \<^verbatim>\<open>sched_delete_thread\<close> unmasks interrupts
  while the closed thread is still the current one, and a signal to the current thread changes the field its
  context is saved in; neither keeps the invariant below.
  \<^verbatim>\<open>pthread_create\<close> calls \<^verbatim>\<open>sched_insert_thread\<close> without masking interrupts; here that call is one step.

  \<open>holders\<close> is a history variable: the threads whose \<^verbatim>\<open>pthread_mutex_lock\<close> returned 0 and that
  have not unlocked since. \<open>lag\<close> is another: a thread of a higher priority than the
  current one has been created and no switch, block or tick has come since.

  The invariant \<open>sys_inv\<close> holds in every reachable state. It gives mutual exclusion, that
  the running thread has the highest priority but for such a lag, that no piece of kernel code ever runs into a
  wild pointer or an empty scheduler, and that each thread is where its status says.
\<close>

section \<open>The transition system\<close>

datatype call = Lock addr nat | Unlock addr | Wait addr | Post addr | Yield | Switch | Msleep os_u32

record sys =
  ker :: kstate
  threads :: "addr set"
  pend :: "addr \<Rightarrow> call option"
  holders :: "addr \<Rightarrow> addr set"
  lag :: bool

text \<open>The mutexes and semaphores of a system, its idle thread and its tick period.\<close>

record config =
  cf_mutexes :: "addr set"
  cf_sems :: "addr set"
  cf_idle :: addr
  cf_tick :: os_u32

definition heads :: "config \<Rightarrow> lnode set" where
  "heads c = sched_heads \<union> Mutex_head ` cf_mutexes c \<union> Sem_head ` cf_sems c"

primrec object_ok :: "config \<Rightarrow> call \<Rightarrow> bool" where
  "object_ok c (Lock m n) \<longleftrightarrow> m \<in> cf_mutexes c"
| "object_ok c (Unlock m) \<longleftrightarrow> m \<in> cf_mutexes c"
| "object_ok c (Wait a) \<longleftrightarrow> a \<in> cf_sems c"
| "object_ok c (Post a) \<longleftrightarrow> a \<in> cf_sems c"
| "object_ok c Yield \<longleftrightarrow> True"
| "object_ok c Switch \<longleftrightarrow> True"
| "object_ok c (Msleep n) \<longleftrightarrow> True"

text \<open>A call starts with all the attempts of \<^verbatim>\<open>pthread_mutex_lock\<close> ahead of it.\<close>

definition call_ok :: "config \<Rightarrow> call \<Rightarrow> bool" where
  "call_ok c k \<longleftrightarrow> object_ok c k \<and> (case k of Lock m n \<Rightarrow> n = MUTEX_RECURSIVE_MAX | _ \<Rightarrow> True)"

text \<open>The masked half of \<^verbatim>\<open>sched_yield\<close>; the other half is the switch.\<close>

definition yield_requeue :: "'a kstate_scheme \<Rightarrow> 'a kstate_scheme" where
  "yield_requeue s =
     (let (temp, s) = hw_interrupt_suspend s;
          s = sched_set_thread_ready (get_current_thread s) s
      in hw_interrupt_recover temp s)"

lemma sched_yield_pieces: "sched_yield s = sched_switch_thread (yield_requeue s)"
  by (simp add: sched_yield_def yield_requeue_def hw_interrupt_suspend_def)

text \<open>
  A block of memory that may become a thread: not one already, its list node linked to itself, its priority
  valid, not yet ready (\<^verbatim>\<open>__pthread_create\<close> sets \<^verbatim>\<open>PTHREAD_STATE_INIT\<close>).
\<close>

definition fresh_thread :: "addr \<Rightarrow> os_pthread \<Rightarrow> sys \<Rightarrow> bool" where
  "fresh_thread u x S \<longleftrightarrow> u \<notin> threads S \<and> u \<noteq> NULL \<and> valid_prio x \<and> th_status x = PTHREAD_STATE_INIT \<and>
     next_of (links (ker S)) (Thread_node u) = Thread_node u \<and>
     prev_of (links (ker S)) (Thread_node u) = Thread_node u"

inductive sys_step :: "config \<Rightarrow> sys \<Rightarrow> sys \<Rightarrow> bool" for c where
  issue: "t = current_thread (ker S) \<Longrightarrow> pend S t = None \<Longrightarrow> t \<noteq> cf_idle c \<Longrightarrow> call_ok c k \<Longrightarrow>
    sys_step c S (S\<lparr>pend := (pend S)(t := Some k)\<rparr>)"
| lock_taken: "t = current_thread (ker S) \<Longrightarrow> pend S t = Some (Lock m n) \<Longrightarrow>
    mutex_lock_once m (ker S) = Some (0, s') \<Longrightarrow>
    sys_step c S (S\<lparr>ker := s', pend := (pend S)(t := None), holders := (holders S)(m := insert t (holders S m))\<rparr>)"
| lock_refused: "t = current_thread (ker S) \<Longrightarrow> pend S t = Some (Lock m n) \<Longrightarrow>
    mutex_lock_once m (ker S) = Some (r, s') \<Longrightarrow> r \<noteq> 0 \<Longrightarrow> r \<noteq> - EAGAIN \<Longrightarrow>
    sys_step c S (S\<lparr>ker := s', pend := (pend S)(t := None)\<rparr>)"
| lock_again: "t = current_thread (ker S) \<Longrightarrow> pend S t = Some (Lock m n) \<Longrightarrow>
    mutex_lock_once m (ker S) = Some (- EAGAIN, s') \<Longrightarrow>
    sys_step c S (S\<lparr>ker := s', pend := (pend S)(t := if n \<le> 1 then None else Some (Lock m (n - 1))), lag := False\<rparr>)"
| unlock: "t = current_thread (ker S) \<Longrightarrow> pend S t = Some (Unlock m) \<Longrightarrow>
    pthread_mutex_unlock m (ker S) = Some (r, s') \<Longrightarrow>
    sys_step c S (S\<lparr>ker := s', pend := (pend S)(t := None),
      holders := (if r = 0 then (holders S)(m := holders S m - {t}) else holders S)\<rparr>)"
| wait: "t = current_thread (ker S) \<Longrightarrow> pend S t = Some (Wait a) \<Longrightarrow>
    sem_wait_once a (ker S) = Some (r, s') \<Longrightarrow>
    sys_step c S (S\<lparr>ker := s', pend := (pend S)(t := if r = 0 then None else Some (Wait a)), lag := lag S \<and> r = 0\<rparr>)"
| post: "t = current_thread (ker S) \<Longrightarrow> pend S t = Some (Post a) \<Longrightarrow>
    sem_post a (ker S) = Some (r, s') \<Longrightarrow> sys_step c S (S\<lparr>ker := s', pend := (pend S)(t := None)\<rparr>)"
| yield: "t = current_thread (ker S) \<Longrightarrow> pend S t = Some Yield \<Longrightarrow>
    sys_step c S (S\<lparr>ker := yield_requeue (ker S), pend := (pend S)(t := Some Switch)\<rparr>)"
| switch: "t = current_thread (ker S) \<Longrightarrow> pend S t = Some Switch \<Longrightarrow>
    sched_switch_thread (ker S) = Some s' \<Longrightarrow>
    sys_step c S (S\<lparr>ker := s', pend := (pend S)(t := None), lag := False\<rparr>)"
| msleep: "t = current_thread (ker S) \<Longrightarrow> pend S t = Some (Msleep n) \<Longrightarrow>
    msleep (cf_tick c) n (ker S) = Some (r, s') \<Longrightarrow>
    sys_step c S (S\<lparr>ker := s', pend := (pend S)(t := None), lag := False\<rparr>)"
| create: "t = current_thread (ker S) \<Longrightarrow> pend S t = None \<Longrightarrow> t \<noteq> cf_idle c \<Longrightarrow> fresh_thread u x S \<Longrightarrow>
    sys_step c S (S\<lparr>ker := sched_insert_thread u (upd_thread u (\<lambda>_. x) (ker S)), threads := insert u (threads S),
      pend := (pend S)(u := None), lag := lag S \<or> th_cur_prio (thr (ker S) t) < th_cur_prio x\<rparr>)"
| suspend: "t = current_thread (ker S) \<Longrightarrow> pend S t = None \<Longrightarrow> t \<noteq> cf_idle c \<Longrightarrow>
    sys_step c S (S\<lparr>ker := snd (sched_suspend (ker S))\<rparr>)"
| recover: "t = current_thread (ker S) \<Longrightarrow> pend S t = None \<Longrightarrow> t \<noteq> cf_idle c \<Longrightarrow>
    sys_step c S (S\<lparr>ker := sched_recover old (ker S)\<rparr>)"
| tick: "sched_proc (cf_tick c) (ker S) = Some s' \<Longrightarrow>
    sys_step c S (S\<lparr>ker := s', lag := lag S \<and> sched_locked (ker S) = SCHED_IS_LOCKED\<rparr>)"

inductive reachable :: "config \<Rightarrow> sys \<Rightarrow> sys \<Rightarrow> bool" for c S where
  start: "reachable c S S"
| step: "reachable c S T \<Longrightarrow> sys_step c T U \<Longrightarrow> reachable c S U"

section \<open>The invariant\<close>

definition idle_ready :: "addr \<Rightarrow> (lnode \<Rightarrow> lnode list) \<Rightarrow> 'a kstate_scheme \<Rightarrow> bool" where
  "idle_ready i q s \<longleftrightarrow> valid_prio (thr s i) \<and> Thread_node i \<in> set (q (own_queue (thr s i)))"

definition thread_nodes :: "lnode set \<Rightarrow> (lnode \<Rightarrow> lnode list) \<Rightarrow> addr set" where
  "thread_nodes H q = {t. Thread_node t \<in> queued H q}"

text \<open>
  The threads of the system are registered and linked, nothing else is, and nobody waits to be deleted or
  runs a signal handler.
\<close>

definition nodes_ok :: "lnode set \<Rightarrow> addr set \<Rightarrow> (lnode \<Rightarrow> lnode list) \<Rightarrow> (addr \<Rightarrow> os_pthread) \<Rightarrow> bool" where
  "nodes_ok H T q th \<longleftrightarrow>
     thread_nodes H q = T \<and> q Delete_head = [] \<and>
     (\<forall>t. (Thread_tnode t \<in> set (q Thread_head) \<longleftrightarrow> t \<in> T) \<and> Thread_node t \<notin> set (q Thread_head)) \<and>
     (\<forall>t\<in>T. th_status (th t) \<noteq> PTHREAD_STATE_INT)"

definition kernel_inv :: "config \<Rightarrow> addr set \<Rightarrow> (lnode \<Rightarrow> lnode list) \<Rightarrow> 'a kstate_scheme \<Rightarrow> bool" where
  "kernel_inv c T q s \<longleftrightarrow>
     kernel_wf (heads c) q s \<and> current_ready q s \<and> idle_ready (cf_idle c) q s \<and>
     nodes_ok (heads c) T q (thr s) \<and> NULL \<notin> T"

text \<open>Nobody on the ready lists has a higher priority than the current thread.\<close>

definition prio_top :: "(lnode \<Rightarrow> lnode list) \<Rightarrow> 'a kstate_scheme \<Rightarrow> bool" where
  "prio_top q s \<longleftrightarrow> (\<forall>u p. p < PTHREAD_READY_GROUP_MAX \<longrightarrow> Thread_node u \<in> set (q (Ready_head p)) \<longrightarrow>
     p \<le> unat (th_cur_prio (thr s (current_thread s))))"

definition pend_ok :: "config \<Rightarrow> (addr \<Rightarrow> call option) \<Rightarrow> bool" where
  "pend_ok c p \<longleftrightarrow> p (cf_idle c) = None \<and> (\<forall>t k. p t = Some k \<longrightarrow> object_ok c k)"

definition holders_ok :: "(addr \<Rightarrow> addr set) \<Rightarrow> 'a kstate_scheme \<Rightarrow> bool" where
  "holders_ok h s \<longleftrightarrow> (\<forall>m. h m = {owner m s} - {NULL})"

definition sys_inv :: "config \<Rightarrow> sys \<Rightarrow> bool" where
  "sys_inv c S \<longleftrightarrow> (\<exists>q. kernel_inv c (threads S) q (ker S) \<and> (lag S \<or> prio_top q (ker S))) \<and>
     pend_ok c (pend S) \<and> holders_ok (holders S) (ker S)"

lemma kernel_invD:
  assumes "kernel_inv c T q s"
  shows "kernel_wf (heads c) q s" and "sched_wf (heads c) q s" and "nodes_ok (heads c) T q (thr s)"
    and "idle_ready (cf_idle c) q s" and "current_ready q s" and "current_thread s \<noteq> NULL"
    and "current_thread s \<in> T" and "cf_idle c \<in> T"
proof -
  show k: "kernel_wf (heads c) q s" and n: "nodes_ok (heads c) T q (thr s)"
    and i: "idle_ready (cf_idle c) q s" and cr: "current_ready q s" using assms by (auto simp: kernel_inv_def)
  show w: "sched_wf (heads c) q s" by (rule kernel_wfD(1) [OF k])
  have "own_queue (thr s (current_thread s)) \<in> heads c" "own_queue (thr s (cf_idle c)) \<in> heads c"
    using own_queue_in_H [OF w] cr i by (simp_all add: current_ready_def idle_ready_def)
  then have "Thread_node (current_thread s) \<in> queued (heads c) q" "Thread_node (cf_idle c) \<in> queued (heads c) q"
    using cr i by (auto simp: current_ready_def idle_ready_def queued_def)
  with n show "current_thread s \<in> T" "cf_idle c \<in> T" by (auto simp: nodes_ok_def thread_nodes_def)
  then show "current_thread s \<noteq> NULL" using assms by (auto simp: kernel_inv_def)
qed

lemma top_prio_top:
  assumes "sched_wf H q s" and "top_thread q = Some (current_thread s)"
  shows "prio_top q s"
  using top_threadD(1) [OF assms]
  by (fastforce simp: prio_top_def top_prio_Some PTHREAD_READY_GROUP_MAX_def not_le)

lemma prio_top_cong:
  "prio_top q s \<Longrightarrow> th_cur_prio (thr s' (current_thread s')) = th_cur_prio (thr s (current_thread s)) \<Longrightarrow> prio_top q s'"
  by (simp add: prio_top_def)

lemma idle_ready_other:
  assumes "idle_ready i q s" and "i \<noteq> t"
  shows "other_ready q t"
  using assms valid_prio_less [of "thr s i"]
  by (auto simp: idle_ready_def other_ready_def own_queue_def PTHREAD_READY_GROUP_MAX_def
      intro!: exI [of _ i] exI [of _ "unat (th_cur_prio (thr s i))"])

text \<open>What no operation changes of a thread, and that none starts a signal handler.\<close>

definition same_place :: "os_pthread \<Rightarrow> os_pthread \<Rightarrow> bool" where
  "same_place x y \<longleftrightarrow> own_queue y = own_queue x \<and> valid_prio y = valid_prio x \<and>
     (th_status y = PTHREAD_STATE_INT \<longrightarrow> th_status x = PTHREAD_STATE_INT)"

text \<open>Moving a thread other than idle, or idle within the ready list, keeps the invariant.\<close>

lemma kernel_inv_relocate:
  assumes inv: "kernel_inv c T q s" and mv: "Thread_node t \<in> queued (heads c) q"
    and k: "kernel_wf (heads c) (relocate d t q) s'" and cur: "current_ready (relocate d t q) s'"
    and i: "t = cf_idle c \<Longrightarrow> d = Some (own_queue (thr s t))"
    and d: "d = Some h" "h \<in> heads c" "h \<noteq> Delete_head" "h \<noteq> Thread_head"
    and th: "\<And>u. same_place (thr s u) (thr s' u)"
  shows "kernel_inv c T (relocate d t q) s'"
proof -
  note th' = th [unfolded same_place_def]
  have "idle_ready (cf_idle c) (relocate d t q) s'"
    using kernel_invD(4) [OF inv] i th' by (auto simp: idle_ready_def relocate_mem)
  moreover have "thread_nodes (heads c) (relocate d t q) = thread_nodes (heads c) q"
    using mv d by (auto simp: thread_nodes_def queued_def relocate_mem split: if_splits)
  then have "nodes_ok (heads c) T (relocate d t q) (thr s')"
    using kernel_invD(3) [OF inv] d th' by (auto simp: nodes_ok_def relocate_mem relocate_removeAll)
  ultimately show ?thesis using inv k cur by (simp add: kernel_inv_def)
qed

lemma kernel_inv_cong:
  assumes "kernel_inv c T q s" and "links s' = links s" and "thr s' = thr s"
    and "thread_ready_group s' = thread_ready_group s" and "current_thread s' = current_thread s"
  shows "kernel_inv c T q s'"
  using assms kernel_wf_cong [OF assms(2-4), of "heads c" q]
  by (simp add: kernel_inv_def idle_ready_def current_ready_def)

lemma current_queued:
  "kernel_inv c T q s \<Longrightarrow> Thread_node (current_thread s) \<in> queued (heads c) q"
  using kernel_invD(3,7) by (fastforce simp: nodes_ok_def thread_nodes_def)

lemma waiter_queued: "h \<in> heads c \<Longrightarrow> q h = Thread_node t # ts \<Longrightarrow> Thread_node t \<in> queued (heads c) q"
  by (force simp: queued_def)

section \<open>Every kernel call keeps the invariant\<close>

lemma mutex_head_in: "m \<in> cf_mutexes c \<Longrightarrow> Mutex_head m \<in> heads c"
  and sem_head_in: "a \<in> cf_sems c \<Longrightarrow> Sem_head a \<in> heads c"
  by (auto simp: heads_def)

lemma with_status_place:
  "st \<noteq> PTHREAD_STATE_INT \<Longrightarrow> same_place ((f :: addr \<Rightarrow> os_pthread) u) ((f(t := with_status st (f t))) u)"
  by (auto simp: same_place_def)

lemma not_int: "PTHREAD_STATE_READY \<noteq> PTHREAD_STATE_INT" "PTHREAD_STATE_SUSPEND \<noteq> PTHREAD_STATE_INT"
  "PTHREAD_STATE_SLEEP \<noteq> PTHREAD_STATE_INT" "PTHREAD_STATE_INIT \<noteq> PTHREAD_STATE_INT"
  by (simp_all add: pthread_state_defs)

text \<open>The current thread blocks.\<close>

lemma blocked_inv:
  assumes inv: "kernel_inv c T q s" and t: "current_thread s \<noteq> cf_idle c" and h: "h \<in> heads c" "h \<noteq> Delete_head" "h \<noteq> Thread_head"
    and k: "kernel_wf (heads c) (relocate (Some h) (current_thread s) q) s'"
    and top: "top_thread (relocate (Some h) (current_thread s) q) = Some (current_thread s')"
    and th: "\<And>u. same_place (thr s u) (thr s' u)"
  shows "kernel_inv c T (relocate (Some h) (current_thread s) q) s'"
    and "prio_top (relocate (Some h) (current_thread s) q) s'"
proof -
  note w = kernel_wfD(1) [OF k]
  show "kernel_inv c T (relocate (Some h) (current_thread s) q) s'"
    by (rule kernel_inv_relocate [OF inv current_queued [OF inv] k top_current_ready [OF w top] _ refl h])
      (use t th in simp_all)
  show "prio_top (relocate (Some h) (current_thread s) q) s'" by (rule top_prio_top [OF w top])
qed

lemma lock_once_inv:
  assumes inv: "kernel_inv c T q s" and m: "m \<in> cf_mutexes c" and t: "current_thread s \<noteq> cf_idle c"
  obtains r s' q' where "mutex_lock_once m s = Some (r, s')" "kernel_inv c T q' s'"
    "r = 0 \<and> owner m s = NULL \<and> s' = set_owner m (current_thread s) s \<and> q' = q \<or>
     r = - EDEADLK \<and> s' = s \<and> q' = q \<or>
     r = - EAGAIN \<and> mutexes s' = mutexes s \<and> prio_top q' s'"
proof -
  note d = kernel_invD [OF inv]
  have oth: "other_ready q (current_thread s)" using idle_ready_other [OF d(4)] t by metis
  consider "owner m s = NULL" | "owner m s = current_thread s"
    | "owner m s \<noteq> NULL" "owner m s \<noteq> current_thread s" by blast
  then show ?thesis
  proof cases
    case 1
    have "kernel_inv c T q (set_owner m (current_thread s) s)" by (rule kernel_inv_cong [OF inv]) simp_all
    with 1 that lock_once_free [OF d(6) 1] show ?thesis by blast
  next
    case 2
    from that [OF lock_once_own [OF d(6) 2] inv] show ?thesis by simp
  next
    case 3
    let ?q = "relocate (Some (Mutex_head m)) (current_thread s) q"
    from lock_once_taken_spec [OF d(1) mutex_head_in [OF m] d(5) oth d(6) 3] obtain s' where
      s': "mutex_lock_once m s = Some (- EAGAIN, s')" "kernel_wf (heads c) ?q s'"
      "top_thread ?q = Some (current_thread s')" "mutexes s' = mutexes s"
      "thr s' = (thr s)(current_thread s := with_status PTHREAD_STATE_SUSPEND (thr s (current_thread s)))"
      by blast
    have "kernel_inv c T ?q s'" "prio_top ?q s'"
      using blocked_inv [OF inv t mutex_head_in [OF m] _ _ s'(2,3)] with_status_place [OF not_int(2), of "thr s"]
      by (simp_all add: s'(5) del: fun_upd_apply)
    with that [OF s'(1)] s'(4) show ?thesis by blast
  qed
qed

text \<open>A release: the first waiter of \<open>h\<close>, if any, becomes ready.\<close>

lemma wake_first_inv:
  assumes inv: "kernel_inv c T q s" and h: "h \<in> heads c" "h \<in> wait_heads"
  obtains s' q' where "wake_first h s = Some s'" "kernel_inv c T q' s'" "prio_top q s \<Longrightarrow> prio_top q' s'"
    "mutexes s' = mutexes s"
proof (cases "q h = []")
  case True
  from that [OF wake_first_none [OF kernel_invD(1) [OF inv] h(1) True] inv] show ?thesis by simp
next
  case False
  note d = kernel_invD [OF inv]
  obtain t ts where t: "q h = Thread_node t # ts" using waiters_are_threads [OF d(1) h False] .
  let ?q = "relocate (ready_place (thr s t)) t q"
  from wake_first_spec [OF d(1) h t] obtain s' where
    s': "wake_first h s = Some s'" "kernel_wf (heads c) ?q s'" "top_thread ?q = Some (current_thread s')"
    "mutexes s' = mutexes s" "thr s' = (thr s)(t := with_status PTHREAD_STATE_READY (thr s t))" by blast
  note w = kernel_wfD(1) [OF s'(2)]
  have "kernel_inv c T ?q s'"
    by (rule kernel_inv_relocate [OF inv waiter_queued [of h c q t ts, OF h(1) t] s'(2) top_current_ready [OF w s'(3)],
          where h = "own_queue (thr s t)"])
      (use own_queue_in_H [OF d(2) waiter_facts(1) [OF d(1) h t]] with_status_place [OF not_int(1), of "thr s"]
        in \<open>simp_all add: s'(5) ready_place_def own_queue_def del: fun_upd_apply\<close>)
  with that [OF s'(1)] s'(4) top_prio_top [OF w s'(3)] show ?thesis by blast
qed

lemma unlock_inv:
  assumes inv: "kernel_inv c T q s" and m: "m \<in> cf_mutexes c"
  obtains r s' q' where "pthread_mutex_unlock m s = Some (r, s')" "kernel_inv c T q' s'"
    "prio_top q s \<Longrightarrow> prio_top q' s'"
    "r = 0 \<and> owner m s = current_thread s \<and> owner m s' = NULL \<and> (\<forall>k. k \<noteq> m \<longrightarrow> owner k s' = owner k s) \<or>
     r = - EINVAL \<and> s' = s"
proof (cases "owner m s = current_thread s")
  case False
  then have "pthread_mutex_unlock m s = Some (- EINVAL, s)"
    using unlock_eq [OF kernel_invD(6) [OF inv]] by simp
  with that inv show ?thesis by blast
next
  case True
  let ?s = "set_owner m NULL s"
  have inv1: "kernel_inv c T q ?s" by (rule kernel_inv_cong [OF inv]) simp_all
  from wake_first_inv [OF inv1 mutex_head_in [OF m] mutex_head_wait] obtain x q' where
    x: "wake_first (Mutex_head m) ?s = Some x" "kernel_inv c T q' x" "prio_top q ?s \<Longrightarrow> prio_top q' x"
    "mutexes x = mutexes ?s" by blast
  have "pthread_mutex_unlock m s = Some (0, x\<lparr>primask := primask s\<rparr>)"
    using unlock_eq [OF kernel_invD(6) [OF inv], of m] True x(1) by simp
  moreover have "kernel_inv c T q' (x\<lparr>primask := primask s\<rparr>)" by (rule kernel_inv_cong [OF x(2)]) simp_all
  moreover have "prio_top q s \<Longrightarrow> prio_top q' (x\<lparr>primask := primask s\<rparr>)"
    using x(3) prio_top_cong [of q s ?s] prio_top_cong [of q' x "x\<lparr>primask := primask s\<rparr>"] by simp
  moreover have "owner k x = (if k = m then NULL else owner k s)" for k
  proof -
    have "owner k x = owner k ?s" by (simp add: owner_def x(4))
    then show ?thesis by simp
  qed
  then have "owner m (x\<lparr>primask := primask s\<rparr>) = NULL \<and>
      (\<forall>k. k \<noteq> m \<longrightarrow> owner k (x\<lparr>primask := primask s\<rparr>) = owner k s)" by (simp add: owner_def)
  ultimately show ?thesis using that True by blast
qed

lemma wait_once_inv:
  assumes inv: "kernel_inv c T q s" and a: "a \<in> cf_sems c" and t: "current_thread s \<noteq> cf_idle c"
  obtains r s' q' where "sem_wait_once a s = Some (r, s')" "kernel_inv c T q' s'" "mutexes s' = mutexes s"
    "r = 0 \<Longrightarrow> prio_top q s \<Longrightarrow> prio_top q' s'" "r \<noteq> 0 \<Longrightarrow> prio_top q' s'"
proof (cases "value_of a s = 0")
  case False
  let ?s = "set_value a (value_of a s - 1) s"
  have "kernel_inv c T q ?s" by (rule kernel_inv_cong [OF inv]) simp_all
  moreover have "prio_top q s \<Longrightarrow> prio_top q ?s" by (erule prio_top_cong) simp
  ultimately show ?thesis using that wait_once_free [OF False] by fastforce
next
  case True
  note d = kernel_invD [OF inv]
  let ?q = "relocate (Some (Sem_head a)) (current_thread s) q"
  have oth: "other_ready q (current_thread s)" using idle_ready_other [OF d(4)] t by metis
  from wait_once_empty_spec [OF d(1) sem_head_in [OF a] d(5) oth True] obtain s' where
    s': "sem_wait_once a s = Some (- EINVAL, s')" "kernel_wf (heads c) ?q s'"
    "top_thread ?q = Some (current_thread s')" "mutexes s' = mutexes s"
    "thr s' = (thr s)(current_thread s := with_status PTHREAD_STATE_SUSPEND (thr s (current_thread s)))"
    by blast
  have "kernel_inv c T ?q s'" "prio_top ?q s'"
    using blocked_inv [OF inv t sem_head_in [OF a] _ _ s'(2,3)] with_status_place [OF not_int(2), of "thr s"]
    by (simp_all add: s'(5) del: fun_upd_apply)
  with that s' show ?thesis by blast
qed

lemma post_inv:
  assumes inv: "kernel_inv c T q s" and a: "a \<in> cf_sems c"
  obtains r s' q' where "sem_post a s = Some (r, s')" "kernel_inv c T q' s'" "mutexes s' = mutexes s"
    "prio_top q s \<Longrightarrow> prio_top q' s'"
proof (cases "SEM_VALUE_MAX \<le> value_of a s")
  case True
  with that [OF _ inv] show ?thesis by (simp add: post_eq)
next
  case False
  let ?s = "posted a s"
  have inv1: "kernel_inv c T q ?s" by (rule kernel_inv_cong [OF inv]) (simp_all add: posted_def)
  from wake_first_inv [OF inv1 sem_head_in [OF a] sem_head_wait] obtain x q' where
    x: "wake_first (Sem_head a) ?s = Some x" "kernel_inv c T q' x" "prio_top q ?s \<Longrightarrow> prio_top q' x"
    "mutexes x = mutexes ?s" by blast
  have "sem_post a s = Some (0, x\<lparr>primask := primask s\<rparr>)" using x(1) False by (simp add: post_eq)
  moreover have "kernel_inv c T q' (x\<lparr>primask := primask s\<rparr>)" by (rule kernel_inv_cong [OF x(2)]) simp_all
  moreover have "prio_top q s \<Longrightarrow> prio_top q' (x\<lparr>primask := primask s\<rparr>)"
    using x(3) prio_top_cong [of q s ?s] prio_top_cong [of q' x "x\<lparr>primask := primask s\<rparr>"] by simp
  ultimately show ?thesis using that x(4) by simp
qed

text \<open>Both halves of a yield; between them the current thread is not at the head of its list.\<close>

lemma yield_requeue_eq: "yield_requeue s = (sched_set_thread_ready (current_thread s) s)\<lparr>primask := primask s\<rparr>"
  by (simp add: yield_requeue_def hw_interrupt_suspend_def hw_interrupt_recover_def get_current_thread_def
      masked_transition)

lemma requeue_inv:
  assumes inv: "kernel_inv c T q s"
  obtains q' where "kernel_inv c T q' (yield_requeue s)" "prio_top q s \<Longrightarrow> prio_top q' (yield_requeue s)"
    "mutexes (yield_requeue s) = mutexes s"
proof -
  note d = kernel_invD [OF inv]
  let ?t = "current_thread s"
  let ?q = "relocate (ready_place (thr s ?t)) ?t q"
  have vp: "valid_prio (thr s ?t)" and mem: "Thread_node ?t \<in> set (q (own_queue (thr s ?t)))"
    using d(5) by (simp_all add: current_ready_def)
  have k: "kernel_wf (heads c) ?q (yield_requeue s)"
    using set_ready.kernel_wf_law [OF d(1) vp current_ready_movable [OF d(2,5)]]
    by (auto simp: yield_requeue_eq ready_place_def own_queue_not_wait)
  have cr: "current_ready ?q (yield_requeue s)"
    using vp by (simp add: current_ready_def yield_requeue_eq relocate_mem ready_place_def runnable_def)
  have "kernel_inv c T ?q (yield_requeue s)"
    by (rule kernel_inv_relocate [OF inv current_queued [OF inv] k cr, where h = "own_queue (thr s ?t)"])
      (use own_queue_in_H [OF d(2) vp] with_status_place [OF not_int(1), of "thr s"]
        in \<open>simp_all add: yield_requeue_eq ready_place_def own_queue_def del: fun_upd_apply\<close>)
  moreover have "prio_top q s \<Longrightarrow> prio_top ?q (yield_requeue s)"
    using mem by (auto simp: prio_top_def yield_requeue_eq relocate_mem ready_place_def own_queue_def split: if_splits)
  ultimately show ?thesis using that by (simp add: yield_requeue_eq)
qed

lemma switch_inv:
  assumes inv: "kernel_inv c T q s"
  obtains s' where "sched_switch_thread s = Some s'" "kernel_inv c T q s'" "prio_top q s'" "mutexes s' = mutexes s"
    "thr s' = thr s"
proof -
  note d = kernel_invD [OF inv]
  have "q (own_queue (thr s (current_thread s))) \<noteq> []" "unat (th_cur_prio (thr s (current_thread s))) < PTHREAD_READY_GROUP_MAX"
    using d(5) valid_prio_less by (auto simp: current_ready_def PTHREAD_READY_GROUP_MAX_def)
  then obtain u where u: "top_thread q = Some u"
    using top_thread_Some [OF d(2)] unfolding own_queue_def by blast
  have w: "sched_wf (heads c) q (switched u s)" "top_thread q = Some (current_thread (switched u s))"
    using d(2) u by simp_all
  have "kernel_inv c T q (switched u s)"
    using inv top_current_ready [OF w] by (simp add: kernel_inv_def idle_ready_def)
  with that [of "switched u s"] top_prio_top [OF w] sched_switch_thread_eq [OF d(2)] u show ?thesis by simp
qed

lemma msleep_inv:
  assumes inv: "kernel_inv c T q s" and t: "current_thread s \<noteq> cf_idle c"
  obtains s' q' where "msleep tick ms s = Some (ms, s')" "kernel_inv c T q' s'" "prio_top q' s'" "mutexes s' = mutexes s"
proof -
  note d = kernel_invD [OF inv]
  have oth: "other_ready q (current_thread s)" using idle_ready_other [OF d(4)] t by metis
  let ?q = "relocate (Some Sleep_head) (current_thread s) q"
  from msleep_run [OF d(1,5) oth d(6), of tick ms] obtain s' where s': "msleep tick ms s = Some (ms, s')"
    "kernel_wf (heads c) ?q s'" "top_thread ?q = Some (current_thread s')" "mutexes s' = mutexes s"
    "thr s' = (thr s)(current_thread s := with_status PTHREAD_STATE_SLEEP
       ((thr s (current_thread s))\<lparr>th_sleep_ticks := nap tick ms\<rparr>))"
    by blast
  have "same_place (thr s u) (thr s' u)" for u
    by (auto simp: same_place_def s'(5) own_queue_def valid_prio_def not_int)
  then have "kernel_inv c T ?q s'" "prio_top ?q s'"
    using blocked_inv [OF inv t _ _ _ s'(2,3)] by (simp_all add: heads_def sched_heads_def)
  with that s' show ?thesis by blast
qed

text \<open>A new thread.\<close>

lemma tnode_place:
  assumes inv: "kernel_inv c T q s" and "Thread_tnode u \<in> queued (heads c) q"
  shows "u \<in> T"
proof -
  from assms(2) obtain h where h: "h \<in> heads c" "Thread_tnode u \<in> set (q h)" by (auto simp: queued_def)
  note d = kernel_invD [OF inv]
  have "h \<notin> wait_heads" using waiterD [OF d(1) h(1)] h(2) by blast
  moreover have "h \<noteq> Sleep_head" using sched_wfD(4) [OF d(2)] h(2) by (auto simp: members_ok_def)
  moreover have "h \<noteq> Ready_head p" if "p < PTHREAD_READY_GROUP_MAX" for p
    using sched_wfD(4) [OF d(2)] h(2) that by (fastforce simp: members_ok_def)
  ultimately have "h = Delete_head \<or> h = Thread_head" using h(1) by (auto simp: heads_def sched_heads_def wait_heads_def)
  then show ?thesis using h(2) d(3) by (auto simp: nodes_ok_def)
qed

lemma create_inv:
  assumes inv: "kernel_inv c T q s" and u: "u \<notin> T" "u \<noteq> NULL" and x: "valid_prio x" "th_status x = PTHREAD_STATE_INIT"
    and loose: "next_of (links s) (Thread_node u) = Thread_node u" "prev_of (links s) (Thread_node u) = Thread_node u"
  defines "s' \<equiv> sched_insert_thread u (upd_thread u (\<lambda>_. x) s)"
  obtains q' where "kernel_inv c (insert u T) q' s'" "mutexes s' = mutexes s"
    "prio_top q s \<Longrightarrow> th_cur_prio x \<le> th_cur_prio (thr s (current_thread s)) \<Longrightarrow> prio_top q' s'"
proof -
  note d = kernel_invD [OF inv]
  let ?s = "upd_thread u (\<lambda>_. x) s"
  let ?q = "relocate (ready_place x) u (enqueue Thread_head (Thread_tnode u) q)"
  have nq: "Thread_node u \<notin> queued (heads c) q" "Thread_tnode u \<notin> queued (heads c) q"
    using d(3) u(1) tnode_place [OF inv] by (auto simp: nodes_ok_def thread_nodes_def)
  have nh: "Thread_node u \<notin> heads c" "Thread_tnode u \<notin> heads c" by (auto simp: heads_def sched_heads_def)
  have out: "Thread_node u \<notin> set (q h)" if "h \<in> heads c" for h using nq(1) that by (auto simp: queued_def)
  have k1: "kernel_wf (heads c) q ?s"
    unfolding kernel_wf_def sched_wf_def
  proof (intro conjI)
    note w = sched_wfD [OF d(2)]
    have Hs: "h \<in> heads c" if "h \<in> sched_heads" for h using that by (simp add: heads_def)
    show "rings (links ?s) (heads c) q" "sched_heads \<subseteq> heads c" "bitmap_ok q (thread_ready_group ?s)"
      using w(1-3) by (simp_all add: upd_thread_def)
    have out': "Thread_node u \<notin> set (q Sleep_head)" "\<forall>p<PTHREAD_READY_GROUP_MAX. Thread_node u \<notin> set (q (Ready_head p))"
      using out [OF Hs] by (auto simp: sched_heads_def)
    show "members_ok q (thr ?s)"
      using w(4) out' unfolding members_ok_def upd_thread_def by (auto; metis)
    show "registered_ok q (thr ?s)"
      using w(5) d(3) u(1) by (auto simp: registered_ok_def upd_thread_def nodes_ok_def)
    show "waiters_ok (heads c) q (thr ?s)"
      using kernel_wfD(2) [OF d(1)] out by (fastforce simp: waiters_ok_def upd_thread_def)
  qed
  have "movable (heads c) q ?s u" using nh nq loose by (simp add: movable_def detached_def upd_thread_def)
  then have w2: "sched_wf (heads c) ?q s'"
    using sched_insert_thread_wf [OF kernel_wfD(1) [OF k1] nh(2) nq(2)] x
    by (simp add: s'_def upd_thread_def runnable_def pthread_state_defs)
  have th: "thr s' = (thr s)(u := with_status PTHREAD_STATE_READY x)"
    by (simp add: s'_def sched_insert_thread_thr upd_thread_def)
  have fr: "current_thread s' = current_thread s" "mutexes s' = mutexes s"
    by (simp_all add: s'_def sched_insert_thread_def upd_links_def upd_thread_def)
  have mem: "y \<in> set (?q h) \<longleftrightarrow> (if y = Thread_node u then h = own_queue x
      else y \<in> set (q h) \<or> h = Thread_head \<and> y = Thread_tnode u)" for y h
    by (auto simp: relocate_mem enqueue_mem ready_place_def)
  have cu: "current_thread s \<noteq> u" "cf_idle c \<noteq> u" using d(7,8) u(1) by auto
  have "waiters_ok (heads c) ?q (thr s')" unfolding waiters_ok_def
  proof (intro ballI)
    fix h y assume h: "h \<in> heads c \<inter> wait_heads" and y: "y \<in> set (?q h)"
    have "y \<in> set (q h)"
      using h y own_queue_not_wait [of x] by (auto simp: mem wait_heads_def split: if_splits)
    with h obtain t where "y = Thread_node t" "th_status (thr s t) = PTHREAD_STATE_SUSPEND" "valid_prio (thr s t)"
      by (auto elim: waiterD [OF d(1)])
    moreover have "t \<noteq> u" using calculation(1) \<open>y \<in> set (q h)\<close> h out by auto
    ultimately show "\<exists>t. y = Thread_node t \<and> th_status (thr s' t) = PTHREAD_STATE_SUSPEND \<and> valid_prio (thr s' t)"
      by (auto simp: th)
  qed
  with w2 have k2: "kernel_wf (heads c) ?q s'" by (simp add: kernel_wf_def)
  have own: "own_queue x \<in> heads c" by (rule own_queue_in_H [OF d(2) x(1)])
  have nd: "own_queue x \<noteq> Delete_head" "own_queue x \<noteq> Thread_head" by (simp_all add: own_queue_def)
  have "current_ready ?q s'" "idle_ready (cf_idle c) ?q s'"
    using d(4,5) cu by (auto simp: current_ready_def idle_ready_def th fr mem)
  moreover have "thread_nodes (heads c) ?q = insert u T"
    using d(3) own by (auto simp: nodes_ok_def thread_nodes_def queued_def mem)
  then have "nodes_ok (heads c) (insert u T) ?q (thr s')"
    using d(3) nd by (auto simp: nodes_ok_def mem th not_int relocate_removeAll ready_place_def enqueue_def)
  ultimately have "kernel_inv c (insert u T) ?q s'"
    using k2 inv u(2) by (simp add: kernel_inv_def)
  moreover have "prio_top ?q s'" if "prio_top q s" "th_cur_prio x \<le> th_cur_prio (thr s (current_thread s))"
    using that cu by (auto simp: prio_top_def mem fr th own_queue_def word_le_nat_alt)
  ultimately show ?thesis using that fr(2) by blast
qed

lemma tick_thr_prio:
  "own_queue (tick_thr s ts u) = own_queue (thr s u)" "valid_prio (tick_thr s ts u) = valid_prio (thr s u)"
  by (auto simp: tick_thr_def wake_thr_def slept_def slice_thr_def Let_def own_queue_def valid_prio_def)

lemma own_queue_not_sleep: "own_queue x \<noteq> Sleep_head"
  by (simp add: own_queue_def)

lemma tick_q_mem:
  assumes "h \<noteq> Sleep_head"
  shows "Thread_node u \<in> set (tick_q s ts q h) \<longleftrightarrow>
    (if u = current_thread s \<and> th_cur_ticks (thr s u) = 1 then h = own_queue (thr s u) else Thread_node u \<in> set (q h)) \<or>
    u \<in> set ts \<and> due (thr s u) \<and> own_queue (thr s u) = h"
  using assms by (auto simp: tick_q_def wake_q_def slice_q_def relocate_mem ready_place_def Let_def)

lemma tick_thread_nodes:
  assumes wf: "sched_wf H q s" and cur: "current_ready q s" and ts: "q Sleep_head = map Thread_node ts"
  shows "thread_nodes H (tick_q s ts q) = thread_nodes H q"
proof -
  let ?t = "current_thread s"
  have sl: "Sleep_head \<in> H" using sched_wfD(2) [OF wf] by (auto simp: sched_heads_def)
  have own: "own_queue (thr s u) \<in> H" if "u = ?t \<or> u \<in> set ts" for u
    using that cur own_queue_in_H [OF wf] sleeper_valid(1) [OF wf, of u] ts by (auto simp: current_ready_def)
  have in1: "Thread_node u \<in> set (tick_q s ts q Sleep_head) \<longleftrightarrow> u \<in> set ts \<and> \<not> due (thr s u)" for u
    by (auto simp: tick_q_def wake_q_def Let_def)
  have ct: "Thread_node ?t \<in> set (q (own_queue (thr s ?t)))" using cur by (simp add: current_ready_def)
  have "Thread_node u \<in> queued H (tick_q s ts q) \<longleftrightarrow> Thread_node u \<in> queued H q" for u
  proof
    assume "Thread_node u \<in> queued H (tick_q s ts q)"
    then obtain h where h: "h \<in> H" "Thread_node u \<in> set (tick_q s ts q h)" by (auto simp: queued_def)
    show "Thread_node u \<in> queued H q"
    proof (cases "h = Sleep_head")
      case True
      then show ?thesis using h(2) in1 sl ts by (force simp: queued_def)
    next
      case False
      then show ?thesis using h tick_q_mem [OF False] ct own sl ts
        by (force simp: queued_def split: if_splits)
    qed
  next
    assume "Thread_node u \<in> queued H q"
    then obtain h where h: "h \<in> H" "Thread_node u \<in> set (q h)" by (auto simp: queued_def)
    consider "u \<in> set ts" | "u = ?t" | "u \<notin> set ts" "u \<noteq> ?t" by blast
    then show "Thread_node u \<in> queued H (tick_q s ts q)"
    proof cases
      case 1
      then show ?thesis using in1 sl own tick_q_mem [OF own_queue_not_sleep [of "thr s u"], of u s ts q]
        by (cases "due (thr s u)") (auto simp: queued_def)
    next
      case 2
      then show ?thesis
        using own tick_q_mem [OF own_queue_not_sleep [of "thr s u"], of u s ts q] ct
        by (auto simp: queued_def split: if_splits intro!: bexI [of _ "own_queue (thr s u)"])
    next
      case 3
      then have "h \<noteq> Sleep_head" using h(2) ts by auto
      then show ?thesis using 3 h tick_q_mem [of h u s ts q] by (auto simp: queued_def)
    qed
  qed
  then show ?thesis by (simp add: thread_nodes_def)
qed

lemma tick_waiters:
  assumes wf: "kernel_wf H q s" and cur: "current_ready q s" and ts: "q Sleep_head = map Thread_node ts"
  shows "waiters_ok H (tick_q s ts q) (tick_thr s ts)"
  unfolding waiters_ok_def
proof (intro ballI)
  note w = kernel_wfD(1) [OF wf]
  fix h x assume h: "h \<in> H \<inter> wait_heads" and x: "x \<in> set (tick_q s ts q h)"
  have ns: "h \<noteq> Sleep_head" "h \<noteq> own_queue y" for y
    using h by (auto simp: wait_heads_def own_queue_def)
  have "x \<in> set (q h)"
    using x ns by (auto simp: tick_q_def wake_q_def slice_q_def relocate_mem ready_place_def Let_def split: if_splits)
  moreover from this h wf obtain t where t: "x = Thread_node t" "th_status (thr s t) = PTHREAD_STATE_SUSPEND"
    "valid_prio (thr s t)" by (auto elim: waiterD)
  ultimately have tq: "Thread_node t \<in> set (q h)" by simp
  have "t \<noteq> current_thread s"
    using kq.unique [OF sched_wfD(1) [OF w], of h "own_queue (thr s t)" "Thread_node t"] tq h ns cur
      own_queue_in_H [OF w] by (auto simp: current_ready_def)
  moreover have "Sleep_head \<in> H" using sched_wfD(2) [OF w] by (auto simp: sched_heads_def)
  then have "t \<notin> set ts"
    using kq.unique [OF sched_wfD(1) [OF w], of h Sleep_head "Thread_node t"] tq h ns ts by auto
  ultimately have "tick_thr s ts t = thr s t" by (simp add: tick_thr_def wake_thr_def Let_def)
  with t show "\<exists>t. x = Thread_node t \<and> th_status (tick_thr s ts t) = PTHREAD_STATE_SUSPEND \<and> valid_prio (tick_thr s ts t)"
    by auto
qed

lemma tick_other_lists:
  assumes "\<And>p. h \<noteq> Ready_head p" and "h \<noteq> Sleep_head" and "Thread_node (current_thread s) \<notin> set (q h)"
  shows "tick_q s ts q h = q h"
proof -
  have "own_queue x \<noteq> h" for x using assms(1) by (auto simp: own_queue_def)
  moreover from this have "h \<noteq> own_queue x" for x by metis
  ultimately show ?thesis
    using assms(2,3) by (simp add: tick_q_def wake_q_def slice_q_def relocate_removeAll ready_place_def Let_def)
qed

lemma tick_not_int:
  "th_status (tick_thr s ts u) = PTHREAD_STATE_INT \<Longrightarrow> th_status (thr s u) = PTHREAD_STATE_INT"
  by (auto simp: tick_thr_def wake_thr_def slept_def slice_thr_def Let_def not_int split: if_splits)

lemma tick_inv:
  assumes inv: "kernel_inv c T q s"
  obtains s' q' where "sched_proc tick s = Some s'" "kernel_inv c T q' s'" "mutexes s' = mutexes s"
    "prio_top q s \<or> sched_locked s \<noteq> SCHED_IS_LOCKED \<Longrightarrow> prio_top q' s'"
proof (cases "sched_locked s = SCHED_IS_LOCKED")
  case True
  then show ?thesis using that [of s q] inv by (simp add: sched_proc_def)
next
  case False
  note d = kernel_invD [OF inv]
  obtain ts where ts: "q Sleep_head = map Thread_node ts" using sleepers_list [OF d(2)] .
  obtain s' where s': "sched_proc tick s = Some s'" "top_thread (tick_q s ts q) = Some (current_thread s')"
    "sched_wf (heads c) (tick_q s ts q) s'" "thr s' = tick_thr s ts" "mutexes s' = mutexes s"
    using sched_proc_run [OF d(2) False d(5) ts, of tick] by blast
  have k: "kernel_wf (heads c) (tick_q s ts q) s'"
    using s'(3) tick_waiters [OF d(1,5) ts] by (simp add: kernel_wf_def s'(4))
  have i: "idle_ready (cf_idle c) (tick_q s ts q) s'"
    using d(4) tick_q_mem [of "own_queue (thr s (cf_idle c))" "cf_idle c" s ts q]
    by (auto simp: idle_ready_def s'(4) tick_thr_prio own_queue_not_sleep)
  have "thread_nodes (heads c) (tick_q s ts q) = thread_nodes (heads c) q"
    by (rule tick_thread_nodes [OF d(2,5) ts])
  moreover have "tick_q s ts q Thread_head = q Thread_head" "tick_q s ts q Delete_head = q Delete_head"
    by (rule tick_other_lists; use d(3) in \<open>simp add: nodes_ok_def\<close>)+
  ultimately have "nodes_ok (heads c) T (tick_q s ts q) (thr s')"
    using d(3) by (auto simp: nodes_ok_def s'(4) dest: tick_not_int)
  then have "kernel_inv c T (tick_q s ts q) s'"
    using k i top_current_ready [OF s'(3,2)] inv by (simp add: kernel_inv_def)
  with that s' top_prio_top [OF s'(3,2)] show ?thesis by blast
qed

section \<open>Reachable states\<close>

inductive_cases reachableE: "reachable c S T"

lemma pend_not_idle: "pend_ok c p \<Longrightarrow> p t = Some k \<Longrightarrow> t \<noteq> cf_idle c"
  by (auto simp: pend_ok_def)

lemma pend_objectD: "pend_ok c p \<Longrightarrow> p t = Some k \<Longrightarrow> object_ok c k"
  by (simp add: pend_ok_def)

lemma pend_object:
  assumes "pend_ok c p" and "p t = Some k"
  shows "k = Lock m n \<Longrightarrow> m \<in> cf_mutexes c" and "k = Unlock m \<Longrightarrow> m \<in> cf_mutexes c"
    and "k = Wait a \<Longrightarrow> a \<in> cf_sems c" and "k = Post a \<Longrightarrow> a \<in> cf_sems c"
  using pend_objectD [OF assms] by simp_all

lemma pend_ok_upd:
  "pend_ok c p \<Longrightarrow> t \<noteq> cf_idle c \<Longrightarrow> pend_ok c (p(t := None))"
  "pend_ok c p \<Longrightarrow> t \<noteq> cf_idle c \<Longrightarrow> call_ok c k \<Longrightarrow> pend_ok c (p(t := Some k))"
  by (auto simp: pend_ok_def call_ok_def)

lemma pend_ok_retry:
  "pend_ok c p \<Longrightarrow> p t = Some (Lock m n) \<Longrightarrow> pend_ok c (p(t := if n \<le> 1 then None else Some (Lock m (n - 1))))"
  "pend_ok c p \<Longrightarrow> p t = Some (Wait a) \<Longrightarrow> pend_ok c (p(t := if r = 0 then None else Some (Wait a)))"
  using pend_objectD [of c p t] by (auto simp: pend_ok_def)

lemma holders_ok_cong: "holders_ok h s \<Longrightarrow> mutexes s' = mutexes s \<Longrightarrow> holders_ok h s'"
  by (simp add: holders_ok_def owner_def)

lemma sched_lock_eqs:
  "snd (sched_suspend s) = s\<lparr>sched_locked := SCHED_IS_LOCKED\<rparr>" "sched_recover old s = s\<lparr>sched_locked := old\<rparr>"
  by (simp_all add: sched_suspend_def sched_recover_def hw_interrupt_suspend_def hw_interrupt_recover_def)

lemma sched_locked_inv:
  assumes "sys_inv c S"
  shows "sys_inv c (S\<lparr>ker := (ker S)\<lparr>sched_locked := n\<rparr>\<rparr>)"
proof -
  let ?s = "(ker S)\<lparr>sched_locked := n\<rparr>"
  have "kernel_inv c T q ?s = kernel_inv c T q (ker S)" for T q
    using kernel_inv_cong [of c T q "ker S" ?s] kernel_inv_cong [of c T q ?s "ker S"] by auto
  moreover have "prio_top q ?s = prio_top q (ker S)" for q by (simp add: prio_top_def)
  moreover have "holders_ok (holders S) ?s = holders_ok (holders S) (ker S)" by (simp add: holders_ok_def owner_def)
  ultimately show ?thesis using assms by (simp add: sys_inv_def)
qed

lemma sys_step_inv:
  assumes "sys_step c S S'" and "sys_inv c S"
  shows "sys_inv c S'"
proof -
  from assms(2) obtain q where k: "kernel_inv c (threads S) q (ker S)" and l: "lag S \<or> prio_top q (ker S)"
    and p: "pend_ok c (pend S)" and h: "holders_ok (holders S) (ker S)" by (auto simp: sys_inv_def)
  note nn = kernel_invD(6) [OF k] and pn = pend_not_idle [OF p] and po = pend_object [OF p]
  from assms(1) show ?thesis
  proof cases
    case (issue t k)
    then show ?thesis using assms(2) pend_ok_upd(2) by (auto simp: sys_inv_def)
  next
    case (lock_taken t m n s')
    from pn [OF lock_taken(3)] lock_taken(2) have ni: "current_thread (ker S) \<noteq> cf_idle c" by simp
    from lock_once_inv [OF k po(1) [OF lock_taken(3) refl] ni] lock_taken(4) have
      s': "kernel_inv c (threads S) q s'" "owner m (ker S) = NULL" "s' = set_owner m t (ker S)"
      by (auto simp: lock_taken(2) EDEADLK_def EAGAIN_def)
    moreover have "holders_ok ((holders S)(m := insert t (holders S m))) s'"
      using h s'(2,3) nn lock_taken(2) unfolding holders_ok_def
      by (metis (no_types, lifting) Diff_cancel Diff_insert_absorb empty_iff fun_upd_apply insert_Diff_if
          insert_iff owner_set_owner)
    moreover have "lag S \<or> prio_top q s'" using l prio_top_cong [of q "ker S" s'] by (auto simp: s'(3))
    ultimately show ?thesis
      using pend_ok_upd(1) [OF p pn [OF lock_taken(3)]] by (auto simp: sys_inv_def lock_taken(1))
  next
    case (lock_refused t m n r s')
    from pn [OF lock_refused(3)] lock_refused(2) have ni: "current_thread (ker S) \<noteq> cf_idle c" by simp
    from lock_once_inv [OF k po(1) [OF lock_refused(3) refl] ni] lock_refused(4-6) have "s' = ker S" by auto
    then show ?thesis using k l h pend_ok_upd(1) [OF p pn [OF lock_refused(3)]]
      by (auto simp: sys_inv_def lock_refused(1))
  next
    case (lock_again t m n s')
    from pn [OF lock_again(3)] lock_again(2) have ni: "current_thread (ker S) \<noteq> cf_idle c" by simp
    from lock_once_inv [OF k po(1) [OF lock_again(3) refl] ni] lock_again(4) obtain q' where
      "kernel_inv c (threads S) q' s'" "mutexes s' = mutexes (ker S)" "prio_top q' s'"
      by (auto simp: EAGAIN_def EDEADLK_def)
    then show ?thesis using holders_ok_cong [OF h] pend_ok_retry(1) [OF p lock_again(3)]
      by (auto simp: sys_inv_def lock_again(1))
  next
    case (unlock t m r s')
    from unlock_inv [OF k po(2) [OF unlock(3) refl]] obtain r1 s1 q' where
      1: "pthread_mutex_unlock m (ker S) = Some (r1, s1)" "kernel_inv c (threads S) q' s1"
        "prio_top q (ker S) \<Longrightarrow> prio_top q' s1"
        "r1 = 0 \<and> owner m (ker S) = current_thread (ker S) \<and> owner m s1 = NULL \<and>
        (\<forall>k. k \<noteq> m \<longrightarrow> owner k s1 = owner k (ker S)) \<or> r1 = - EINVAL \<and> s1 = ker S" by blast
    from 1(1) unlock(4) have eq: "r1 = r" "s1 = s'" by simp_all
    note q' = 1(2,3) [unfolded eq] and u = 1(4) [unfolded eq, folded unlock(2)]
    have "holders_ok (if r = 0 then (holders S)(m := holders S m - {t}) else holders S) s'"
      using h u by (auto simp: holders_ok_def EINVAL_def)
    then show ?thesis using q' l pend_ok_upd(1) [OF p pn [OF unlock(3)]] by (auto simp: sys_inv_def unlock(1))
  next
    case (wait t a r s')
    from pn [OF wait(3)] wait(2) have ni: "current_thread (ker S) \<noteq> cf_idle c" by simp
    from wait_once_inv [OF k po(3) [OF wait(3) refl] ni] obtain r1 s1 q' where
      1: "sem_wait_once a (ker S) = Some (r1, s1)" "kernel_inv c (threads S) q' s1" "mutexes s1 = mutexes (ker S)"
      "r1 = 0 \<Longrightarrow> prio_top q (ker S) \<Longrightarrow> prio_top q' s1" "r1 \<noteq> 0 \<Longrightarrow> prio_top q' s1" by blast
    from 1(1) wait(4) have eq: "r1 = r" "s1 = s'" by simp_all
    from 1(2-5) [unfolded eq] show ?thesis using l holders_ok_cong [OF h] pend_ok_retry(2) [OF p wait(3), of r]
      by (auto simp: sys_inv_def wait(1))
  next
    case (post t a r s')
    from post_inv [OF k po(4) [OF post(3) refl]] obtain r1 s1 q' where
      1: "sem_post a (ker S) = Some (r1, s1)" "kernel_inv c (threads S) q' s1" "mutexes s1 = mutexes (ker S)"
      "prio_top q (ker S) \<Longrightarrow> prio_top q' s1" by blast
    from 1(1) post(4) have eq: "s1 = s'" by simp
    from 1(2-4) [unfolded eq] show ?thesis using l holders_ok_cong [OF h] pend_ok_upd(1) [OF p pn [OF post(3)]]
      by (auto simp: sys_inv_def post(1))
  next
    case (yield t)
    from requeue_inv [OF k] obtain q' where "kernel_inv c (threads S) q' (yield_requeue (ker S))"
      "prio_top q (ker S) \<Longrightarrow> prio_top q' (yield_requeue (ker S))" "mutexes (yield_requeue (ker S)) = mutexes (ker S)" by blast
    then show ?thesis using l holders_ok_cong [OF h] pend_ok_upd(2) [OF p pn [OF yield(3)], of Switch]
      by (auto simp: sys_inv_def yield(1) call_ok_def)
  next
    case (switch t s')
    from switch_inv [OF k] switch(4) have
      "kernel_inv c (threads S) q s'" "prio_top q s'" "mutexes s' = mutexes (ker S)" by auto
    then show ?thesis using holders_ok_cong [OF h] pend_ok_upd(1) [OF p pn [OF switch(3)]]
      by (auto simp: sys_inv_def switch(1))
  next
    case (msleep t n r s')
    from pn [OF msleep(3)] msleep(2) have ni: "current_thread (ker S) \<noteq> cf_idle c" by simp
    from msleep_inv [OF k ni, of "cf_tick c" n] msleep(4) obtain q' where
      "kernel_inv c (threads S) q' s'" "prio_top q' s'" "mutexes s' = mutexes (ker S)" by auto
    then show ?thesis using holders_ok_cong [OF h] pend_ok_upd(1) [OF p pn [OF msleep(3)]]
      by (auto simp: sys_inv_def msleep(1))
  next
    case (create t u x)
    let ?s = "sched_insert_thread u (upd_thread u (\<lambda>_. x) (ker S))"
    from create(5) have f: "u \<notin> threads S" "u \<noteq> NULL" "valid_prio x" "th_status x = PTHREAD_STATE_INIT"
      "next_of (links (ker S)) (Thread_node u) = Thread_node u" "prev_of (links (ker S)) (Thread_node u) = Thread_node u"
      by (simp_all add: fresh_thread_def)
    from create_inv [OF k f] obtain q' where "kernel_inv c (insert u (threads S)) q' ?s" "mutexes ?s = mutexes (ker S)"
      "prio_top q (ker S) \<Longrightarrow> th_cur_prio x \<le> th_cur_prio (thr (ker S) t) \<Longrightarrow> prio_top q' ?s"
      unfolding create(2) by blast
    moreover have "u \<noteq> cf_idle c" using f(1) kernel_invD(8) [OF k] by auto
    moreover have "lag S \<or> th_cur_prio (thr (ker S) t) < th_cur_prio x \<or> prio_top q' ?s"
      using l calculation(3) by (auto simp: not_less [symmetric])
    ultimately show ?thesis using holders_ok_cong [OF h] pend_ok_upd(1) [OF p]
      by (auto simp: sys_inv_def create(1))
  next
    case (suspend t)
    with sched_locked_inv [OF assms(2)] show ?thesis by (simp add: sched_lock_eqs)
  next
    case (recover t old)
    with sched_locked_inv [OF assms(2)] show ?thesis by (simp add: sched_lock_eqs)
  next
    case (tick s')
    from tick_inv [OF k, of "cf_tick c"] obtain s1 q' where
      1: "sched_proc (cf_tick c) (ker S) = Some s1" "kernel_inv c (threads S) q' s1" "mutexes s1 = mutexes (ker S)"
      "prio_top q (ker S) \<or> sched_locked (ker S) \<noteq> SCHED_IS_LOCKED \<Longrightarrow> prio_top q' s1" by blast
    from 1(1) tick(2) have eq: "s1 = s'" by simp
    from 1(2-4) [unfolded eq] show ?thesis using l holders_ok_cong [OF h] p by (auto simp: sys_inv_def tick(1))
  qed
qed


lemma reachable_inv: "reachable c S T \<Longrightarrow> sys_inv c S \<Longrightarrow> sys_inv c T"
  by (induction rule: reachable.induct) (auto intro: sys_step_inv)

text \<open>
  The next piece of the pending call returns: one attempt, for the two calls that may have to wait and
  try again.
\<close>

primrec piece_returns :: "os_u32 \<Rightarrow> call \<Rightarrow> 'a kstate_scheme \<Rightarrow> bool" where
  "piece_returns tick (Lock m n) s \<longleftrightarrow> mutex_lock_once m s \<noteq> None"
| "piece_returns tick (Unlock m) s \<longleftrightarrow> pthread_mutex_unlock m s \<noteq> None"
| "piece_returns tick (Wait a) s \<longleftrightarrow> sem_wait_once a s \<noteq> None"
| "piece_returns tick (Post a) s \<longleftrightarrow> sem_post a s \<noteq> None"
| "piece_returns tick Yield s \<longleftrightarrow> sched_switch_thread (yield_requeue s) \<noteq> None"
| "piece_returns tick Switch s \<longleftrightarrow> sched_switch_thread s \<noteq> None"
| "piece_returns tick (Msleep n) s \<longleftrightarrow> msleep tick n s \<noteq> None"

lemma piece_returns_inv:
  assumes inv: "kernel_inv c T q s" and p: "pend_ok c p" "p (current_thread s) = Some k"
  shows "piece_returns tick k s"
proof -
  have ni: "current_thread s \<noteq> cf_idle c" by (rule pend_not_idle [OF p])
  note po = pend_object [OF p]
  show ?thesis
  proof (cases k)
    case (Lock m n)
    then show ?thesis using lock_once_inv [OF inv po(1) ni] by (metis piece_returns.simps(1) option.distinct(1))
  next
    case (Unlock m)
    then show ?thesis using unlock_inv [OF inv po(2)] by (metis piece_returns.simps(2) option.distinct(1))
  next
    case (Wait a)
    then show ?thesis using wait_once_inv [OF inv po(3) ni] by (metis piece_returns.simps(3) option.distinct(1))
  next
    case (Post a)
    then show ?thesis using post_inv [OF inv po(4)] by (metis piece_returns.simps(4) option.distinct(1))
  next
    case Yield
    obtain q' where "kernel_inv c T q' (yield_requeue s)" using requeue_inv [OF inv] .
    then show ?thesis using Yield switch_inv by (metis piece_returns.simps(5) option.distinct(1))
  next
    case Switch
    then show ?thesis using switch_inv [OF inv] by (metis piece_returns.simps(6) option.distinct(1))
  next
    case (Msleep n)
    then show ?thesis using msleep_inv [OF inv ni, of tick n] by (metis piece_returns.simps(7) option.distinct(1))
  qed
qed

text \<open>The current thread has the highest priority of the runnable threads.\<close>

definition runs_highest :: "addr set \<Rightarrow> 'a kstate_scheme \<Rightarrow> bool" where
  "runs_highest T s \<longleftrightarrow>
     (\<forall>u\<in>T. runnable (thr s u) \<longrightarrow> th_cur_prio (thr s u) \<le> th_cur_prio (thr s (current_thread s)))"

lemma prio_top_runs_highest:
  assumes inv: "kernel_inv c T q s" and "prio_top q s"
  shows "runs_highest T s"
  unfolding runs_highest_def
proof (intro ballI impI)
  note d = kernel_invD [OF inv]
  fix u assume "u \<in> T" and "runnable (thr s u)"
  then have "valid_prio (thr s u)" "Thread_node u \<in> set (q (own_queue (thr s u)))"
    using sched_wfD(5) [OF d(2)] d(3) by (auto simp: registered_ok_def nodes_ok_def)
  then show "th_cur_prio (thr s u) \<le> th_cur_prio (thr s (current_thread s))"
    using assms(2) valid_prio_less [of "thr s u"]
    by (simp add: prio_top_def own_queue_def PTHREAD_READY_GROUP_MAX_def word_le_nat_alt)
qed

text \<open>Which list a thread is on.\<close>

definition on_list :: "config \<Rightarrow> os_pthread \<Rightarrow> lnode \<Rightarrow> bool" where
  "on_list c x h \<longleftrightarrow>
     (if th_status x = PTHREAD_STATE_READY then h = own_queue x
      else if th_status x = PTHREAD_STATE_SLEEP then h = Sleep_head
      else th_status x = PTHREAD_STATE_SUSPEND \<and> h \<in> Mutex_head ` cf_mutexes c \<union> Sem_head ` cf_sems c)"

lemma linked_on_list:
  assumes inv: "kernel_inv c T q s" and h: "h \<in> heads c" "Thread_node t \<in> set (q h)"
  shows "on_list c (thr s t) h"
proof -
  note d = kernel_invD [OF inv]
  have t: "th_status (thr s t) \<noteq> PTHREAD_STATE_INT"
    using d(3) h by (auto simp: nodes_ok_def thread_nodes_def queued_def)
  consider p where "h = Ready_head p" "p < PTHREAD_READY_GROUP_MAX" | "h = Sleep_head" | "h = Delete_head \<or> h = Thread_head"
    | "h \<in> Mutex_head ` cf_mutexes c \<union> Sem_head ` cf_sems c"
    using h(1) by (auto simp: heads_def sched_heads_def)
  then show ?thesis
  proof cases
    case 1
    then show ?thesis using sched_wfD(4) [OF d(2)] h(2) t by (fastforce simp: members_ok_def on_list_def runnable_def)
  next
    case 2
    then show ?thesis using sched_wfD(4) [OF d(2)] h(2)
      by (fastforce simp: members_ok_def on_list_def pthread_state_defs)
  next
    case 3
    then show ?thesis using d(3) h(2) by (auto simp: nodes_ok_def)
  next
    case 4
    then have "h \<in> wait_heads" by (auto simp: wait_heads_def)
    from waiterD [OF d(1) h(1) this h(2)] have "th_status (thr s t) = PTHREAD_STATE_SUSPEND" by auto
    then show ?thesis using 4 by (simp add: on_list_def pthread_state_defs)
  qed
qed

section \<open>A concrete system\<close>

definition demo_config :: config where
  "demo_config = \<lparr>cf_mutexes = {0x500}, cf_sems = {}, cf_idle = 0x100, cf_tick = 1\<rparr>"

definition demo_sys :: sys where
  "demo_sys = \<lparr>ker = mutex_state, threads = {0x100, 0x200, 0x300}, pend = (\<lambda>_. None),
     holders = (\<lambda>m. {owner m mutex_state} - {NULL}), lag = False\<rparr>"

lemma demo_heads: "heads demo_config = mutex_H"
  by (auto simp: heads_def demo_config_def)

lemma demo_sys_inv: "sys_inv demo_config demo_sys"
proof -
  have top: "top_thread demo_q = Some (current_thread mutex_state)"
    using demo_top by (simp add: top_thread_def demo_q_def demo_facts thread_at_def mutex_state_facts)
  note w = kernel_wfD(1) [OF mutex_state_wf]
  have "idle_ready 0x100 demo_q mutex_state"
    by (simp add: idle_ready_def mutex_state_facts running_state_def demo_queues)
  moreover have "Thread_node t \<in> queued mutex_H demo_q \<longleftrightarrow> t \<in> {0x100, 0x200, 0x300}" for t
  proof
    assume "Thread_node t \<in> queued mutex_H demo_q"
    then show "t \<in> {0x100, 0x200, 0x300}" by (auto simp: queued_def demo_q_def split: if_splits)
  next
    have "Ready_head 0 \<in> mutex_H" "Ready_head 10 \<in> mutex_H"
      by (simp_all add: sched_heads_def PTHREAD_READY_GROUP_MAX_def)
    moreover assume "t \<in> {0x100, 0x200, 0x300}"
    then have "Thread_node t \<in> set (demo_q (Ready_head 0)) \<or> Thread_node t \<in> set (demo_q (Ready_head 10))"
      by (auto simp: demo_queues)
    ultimately show "Thread_node t \<in> queued mutex_H demo_q" unfolding queued_def by blast
  qed
  then have "thread_nodes mutex_H demo_q = {0x100, 0x200, 0x300}" by (auto simp: thread_nodes_def)
  then have "nodes_ok mutex_H {0x100, 0x200, 0x300} demo_q (thr mutex_state)"
    by (auto simp: nodes_ok_def demo_q_def mutex_state_facts running_state_def demo_facts with_status_def not_int)
  ultimately have "kernel_inv demo_config (threads demo_sys) demo_q (ker demo_sys)"
    using mutex_state_wf top_current_ready [OF w top]
    by (simp add: kernel_inv_def demo_heads demo_sys_def) (simp add: demo_config_def NULL_def)
  moreover have "prio_top demo_q (ker demo_sys)" using top_prio_top [OF w top] by (simp add: demo_sys_def)
  ultimately show ?thesis
    by (auto simp: sys_inv_def pend_ok_def holders_ok_def demo_sys_def)
qed

text \<open>The running thread of the concrete system locks its mutex.\<close>

definition demo_locked :: sys where
  "demo_locked = demo_sys\<lparr>ker := set_owner 0x500 0x200 mutex_state, pend := (\<lambda>_. None),
     holders := (holders demo_sys)(0x500 := insert 0x200 (holders demo_sys 0x500))\<rparr>"

lemma demo_locked_reachable: "reachable demo_config demo_sys demo_locked"
proof -
  let ?S = "demo_sys\<lparr>pend := (pend demo_sys)(0x200 := Some (Lock 0x500 MUTEX_RECURSIVE_MAX))\<rparr>"
  have 1: "sys_step demo_config demo_sys ?S"
    by (rule sys_step.issue) (simp_all add: demo_sys_def demo_config_def mutex_state_facts call_ok_def)
  have "mutex_lock_once 0x500 (ker ?S) = Some (0, set_owner 0x500 0x200 mutex_state)"
    using lock_once_free [of mutex_state "0x500"] by (simp add: demo_sys_def mutex_state_facts NULL_def)
  from sys_step.lock_taken [OF _ _ this, of "0x200" MUTEX_RECURSIVE_MAX demo_config]
  have 2: "sys_step demo_config ?S demo_locked"
    by (simp add: demo_locked_def demo_sys_def mutex_state_facts)
  show ?thesis by (rule reachable.step [OF reachable.step [OF reachable.start 1] 2])
qed

section \<open>Properties\<close>

text \<open>
  C10. Mutual exclusion over all interleavings: in every state reachable from an initialised system, at most
  one thread has returned from \<^verbatim>\<open>pthread_mutex_lock\<close> with 0 and not unlocked since, and it is the
  thread recorded in \<^verbatim>\<open>own_thread\<close>.
\<close>
theorem mutex_mutual_exclusion:
  assumes "sys_inv c S" and "reachable c S T" and "t \<in> holders T m"
  shows "holders T m = {t} \<and> owner m (ker T) = t"
  using reachable_inv [OF assms(2,1)] assms(3) by (auto simp: sys_inv_def holders_ok_def)

theorem mutex_mutual_exclusion_witness:
  "holders demo_locked 0x500 = {0x200} \<and> owner 0x500 (ker demo_locked) = 0x200"
  using mutex_mutual_exclusion [OF demo_sys_inv demo_locked_reachable, of "0x200" "0x500"]
  by (simp add: demo_locked_def)

text \<open>
  C11. The kernel never gets stuck: in every reachable state the tick interrupt returns, and so does the
  next piece of kernel code the current thread is about to execute; no step dereferences a
  list head as a thread or finds the ready lists empty. For \<^verbatim>\<open>pthread_mutex_lock\<close> and
  \<^verbatim>\<open>sem_wait\<close> a piece is one attempt: that a blocked caller ever succeeds is not claimed.
\<close>
theorem kernel_never_stuck:
  assumes "sys_inv c S" and "reachable c S T"
  shows "sched_proc (cf_tick c) (ker T) \<noteq> None \<and>
     (\<forall>k. pend T (current_thread (ker T)) = Some k \<longrightarrow> piece_returns (cf_tick c) k (ker T))"
proof -
  from reachable_inv [OF assms(2,1)] obtain q where q: "kernel_inv c (threads T) q (ker T)" "pend_ok c (pend T)"
    by (auto simp: sys_inv_def)
  from tick_inv [OF q(1), of "cf_tick c"] have "sched_proc (cf_tick c) (ker T) \<noteq> None" by (metis option.distinct(1))
  with piece_returns_inv [OF q] show ?thesis by blast
qed

theorem kernel_never_stuck_witness: "sched_proc 1 (ker demo_locked) \<noteq> None"
  using kernel_never_stuck [OF demo_sys_inv demo_locked_reachable] by (simp add: demo_config_def)

text \<open>
  C12. Priorities. In every reachable state the current thread is a runnable thread of the system, and no
  runnable thread has a higher priority, except in the lag between the creation of a thread of higher priority and the next switch, block or
  tick (\<^verbatim>\<open>pthread_create\<close> does not switch). The lag cannot last: in every reachable state a switch, or a tick
  unless the scheduler is locked, returns in a state where the current thread has the highest priority.
\<close>
theorem current_always_highest:
  assumes "sys_inv c S" and "reachable c S T"
  shows "current_thread (ker T) \<in> threads T \<and> runnable (thr (ker T) (current_thread (ker T))) \<and>
     (\<not> lag T \<longrightarrow> runs_highest (threads T) (ker T)) \<and>
     (\<exists>s'. sched_switch_thread (ker T) = Some s' \<and> runs_highest (threads T) s') \<and>
     (sched_locked (ker T) \<noteq> SCHED_IS_LOCKED \<longrightarrow>
        (\<exists>s'. sched_proc (cf_tick c) (ker T) = Some s' \<and> runs_highest (threads T) s'))"
proof -
  from reachable_inv [OF assms(2,1)] obtain q where
    q: "kernel_inv c (threads T) q (ker T)" "lag T \<or> prio_top q (ker T)" by (auto simp: sys_inv_def)
  note d = kernel_invD [OF q(1)]
  have "runnable (thr (ker T) (current_thread (ker T)))"
    using d(5) sched_wfD(4) [OF d(2)] valid_prio_less
    by (fastforce simp: current_ready_def members_ok_def own_queue_def PTHREAD_READY_GROUP_MAX_def)
  moreover have "\<exists>s'. sched_switch_thread (ker T) = Some s' \<and> runs_highest (threads T) s'"
    using switch_inv [OF q(1)] prio_top_runs_highest by metis
  moreover have "\<exists>s'. sched_proc (cf_tick c) (ker T) = Some s' \<and> runs_highest (threads T) s'"
    if "sched_locked (ker T) \<noteq> SCHED_IS_LOCKED"
    using tick_inv [OF q(1), of "cf_tick c"] prio_top_runs_highest that by metis
  ultimately show ?thesis using d(7) q(2) prio_top_runs_highest [OF q(1)] by blast
qed

theorem current_always_highest_witness:
  "runs_highest {0x100, 0x200, 0x300} (ker demo_locked) \<and> current_thread (ker demo_locked) = 0x200"
  using current_always_highest [OF demo_sys_inv demo_locked_reachable]
  by (simp add: demo_locked_def demo_sys_def mutex_state_facts)

text \<open>
  C13. No thread is ever lost: in every reachable state each thread of the system is linked in exactly one
  of the kernel's lists, and that list is the one its status names: the ready list of its priority when
  it is ready, the sleep list when it sleeps, the wait list of a mutex or semaphore when it is suspended; it has no other status. The lists
  hold no other thread.
\<close>
theorem no_thread_lost:
  assumes "sys_inv c S" and "reachable c S T"
  shows "\<exists>q. rings (links (ker T)) (heads c) q \<and>
     (\<forall>t. t \<in> threads T \<longleftrightarrow> (\<exists>h\<in>heads c. Thread_node t \<in> set (q h))) \<and>
     (\<forall>t\<in>threads T. (\<exists>!h. h \<in> heads c \<and> Thread_node t \<in> set (q h)) \<and>
        (\<forall>h\<in>heads c. Thread_node t \<in> set (q h) \<longrightarrow> on_list c (thr (ker T) t) h))"
proof -
  from reachable_inv [OF assms(2,1)] obtain q where q: "kernel_inv c (threads T) q (ker T)" by (auto simp: sys_inv_def)
  have r: "rings (links (ker T)) (heads c) q" by (rule sched_wfD(1) [OF kernel_invD(2) [OF q]])
  have "t \<in> threads T \<longleftrightarrow> (\<exists>h\<in>heads c. Thread_node t \<in> set (q h))" for t
    using kernel_invD(3) [OF q] by (auto simp: nodes_ok_def thread_nodes_def queued_def)
  with r kq.unique [OF r] linked_on_list [OF q] show ?thesis by (intro exI [of _ q]) blast
qed

theorem no_thread_lost_witness:
  "\<exists>q. rings (links (ker demo_locked)) (heads demo_config) q \<and>
     (\<exists>h\<in>heads demo_config. Thread_node 0x300 \<in> set (q h) \<and> on_list demo_config (thr (ker demo_locked) 0x300) h)"
proof -
  have "0x300 \<in> threads demo_locked" by (simp add: demo_locked_def demo_sys_def)
  with no_thread_lost [OF demo_sys_inv demo_locked_reachable] show ?thesis by blast
qed

end
