(* ===== verification/Heap_Mem.thy ===== *)
theory Heap_Mem
  imports Intrusive_List
begin

text \<open>
  The heap allocator of \<^verbatim>\<open>hwutil/kernel/source/stdlib.c\<close>: a first-fit allocator over a ring of block
  headers in address order. A header (\<^verbatim>\<open>heap_mem_t\<close>, 12 bytes: two pointers and a flag) is named by
  its address; the \<^verbatim>\<open>list\<close> member is the first one, so a node of the ring is the header's address too.

  This theory holds the allocator proper, between taking and releasing the heap mutex. A failed
  \<^verbatim>\<open>ASSERT_KERNEL\<close> never returns and gives \<open>None\<close>. \<open>heap_wf h as\<close> says that the headers
  are the addresses \<open>as\<close>: begin first, in address order, far enough apart, no two neighbours free, and
  \<^verbatim>\<open>heap_mem_free\<close> the first free one.
\<close>

section \<open>Definitions\<close>

definition MALLOC_MIN_SIZE :: os_u32 where "MALLOC_MIN_SIZE = 12"

text \<open>\<^verbatim>\<open>sizeof(heap_mem_t)\<close>: two 4-byte pointers and a bool, padded to the alignment of 4.\<close>

definition HEAP_HDR :: os_u32 where "HEAP_HDR = 12"

record heap =
  hlinks :: "addr links"
  hused :: "addr \<Rightarrow> bool"
  mem_total_size :: os_u32
  mem_used_size :: os_u32
  heap_mem_begin :: addr
  heap_mem_end :: addr
  heap_mem_free :: addr

definition set_used :: "addr \<Rightarrow> bool \<Rightarrow> heap \<Rightarrow> heap" where
  "set_used a b h = h\<lparr>hused := (hused h)(a := b)\<rparr>"

definition upd_hlinks :: "(addr links \<Rightarrow> addr links) \<Rightarrow> heap \<Rightarrow> heap" where
  "upd_hlinks f h = h\<lparr>hlinks := f (hlinks h)\<rparr>"

abbreviation hnext :: "heap \<Rightarrow> addr \<Rightarrow> addr" where
  "hnext h a \<equiv> next_of (hlinks h) a"

definition heap_mem_init :: "addr \<Rightarrow> addr \<Rightarrow> heap \<Rightarrow> heap" where
  "heap_mem_init begin_addr end_addr h =
     (let align_begin_addr = ALIGN begin_addr; align_end_addr = ALIGN end_addr
      in if align_end_addr - align_begin_addr \<le> 2 * HEAP_HDR + MALLOC_MIN_SIZE then h
         else let h = h\<lparr>mem_total_size := align_end_addr - align_begin_addr - 2 * HEAP_HDR\<rparr>;
                  h = h\<lparr>heap_mem_begin := align_begin_addr\<rparr>;
                  h = h\<lparr>heap_mem_end := align_end_addr - HEAP_HDR\<rparr>;
                  h = upd_hlinks (list_init (heap_mem_begin h)) h;
                  h = set_used (heap_mem_begin h) False h;
                  h = upd_hlinks (list_init (heap_mem_end h)) h;
                  h = set_used (heap_mem_end h) True h;
                  h = upd_hlinks (list_insert_head (heap_mem_begin h) (heap_mem_end h)) h;
                  h = h\<lparr>heap_mem_free := heap_mem_begin h\<rparr>
              in h\<lparr>mem_used_size := 0\<rparr>)"

text \<open>The search loop of \<^verbatim>\<open>malloc\<close>, from a header up to \<^verbatim>\<open>heap_mem_end\<close>.\<close>

definition mem_len :: "heap \<Rightarrow> addr \<Rightarrow> os_u32" where
  "mem_len h mem_ptr = hnext h mem_ptr - mem_ptr - HEAP_HDR"

partial_function (option) heap_scan :: "heap \<Rightarrow> os_u32 \<Rightarrow> addr \<Rightarrow> addr option option" where
  "heap_scan h sz mem_ptr =
     (if mem_ptr = heap_mem_end h then Some None
      else if \<not> hused h mem_ptr \<and> mem_len h mem_ptr > sz then Some (Some mem_ptr)
      else heap_scan h sz (hnext h mem_ptr))"

partial_function (option) heap_advance :: "heap \<Rightarrow> addr \<Rightarrow> addr option" where
  "heap_advance h ptr =
     (if hused h ptr \<and> ptr \<noteq> heap_mem_end h then heap_advance h (hnext h ptr) else Some ptr)"

definition heap_take :: "os_u32 \<Rightarrow> addr \<Rightarrow> heap \<Rightarrow> (addr \<times> heap) option" where
  "heap_take sz mem_ptr h =
     (let len = mem_len h mem_ptr;
          h = (if len - sz > HEAP_HDR + MALLOC_MIN_SIZE
               then let free_mem_ptr = mem_ptr + sz + HEAP_HDR;
                        h = set_used free_mem_ptr False h;
                        h = upd_hlinks (list_init free_mem_ptr) h
                    in upd_hlinks (list_insert_head mem_ptr free_mem_ptr) h
               else h);
          h = set_used mem_ptr True h;
          h = h\<lparr>mem_used_size := mem_used_size h + (sz + HEAP_HDR)\<rparr>
      in if heap_mem_free h = mem_ptr
         then do {
           ptr \<leftarrow> heap_advance h (heap_mem_free h);
           let h = h\<lparr>heap_mem_free := ptr\<rparr>;
           if hused h ptr \<or> ptr = heap_mem_end h then None
           else Some (mem_ptr + HEAP_HDR, h)
         }
         else Some (mem_ptr + HEAP_HDR, h))"

definition malloc_size :: "os_u32 \<Rightarrow> os_u32" where
  "malloc_size sz = ALIGN (if sz < MALLOC_MIN_SIZE then MALLOC_MIN_SIZE else sz)"

definition heap_malloc :: "os_u32 \<Rightarrow> heap \<Rightarrow> (addr option \<times> heap) option" where
  "heap_malloc sz h =
     (if sz = 0 then Some (None, h)
      else let sz = malloc_size sz
           in if sz > mem_total_size h - mem_used_size h then Some (None, h)
              else do {
                found \<leftarrow> heap_scan h sz (heap_mem_free h);
                case found of
                  None \<Rightarrow> Some (None, h)
                | Some mem_ptr \<Rightarrow> do { (p, h) \<leftarrow> heap_take sz mem_ptr h; Some (Some p, h) }
              })"

definition heap_calloc :: "os_u32 \<Rightarrow> os_u32 \<Rightarrow> heap \<Rightarrow> (addr option \<times> heap) option" where
  "heap_calloc num sz h = heap_malloc (sz * num) h"

definition heap_free :: "addr \<Rightarrow> heap \<Rightarrow> heap option" where
  "heap_free mem h =
     (if mem = 0 then Some h
      else if mem \<le> heap_mem_begin h \<or> mem \<ge> heap_mem_end h then Some h
      else if mem \<noteq> ALIGN mem then None
      else let mem_ptr = mem - HEAP_HDR
           in if \<not> hused h mem_ptr then None
              else let h = set_used mem_ptr False h;
                       sz = hnext h mem_ptr - mem_ptr;
                       next_mem_ptr = hnext h mem_ptr;
                       h = (if \<not> hused h next_mem_ptr then upd_hlinks (list_remove_node next_mem_ptr) h else h);
                       prev_mem_ptr = prev_of (hlinks h) mem_ptr;
                       (h, free_mem) = (if \<not> hused h prev_mem_ptr
                                        then (upd_hlinks (list_remove_node mem_ptr) h, prev_mem_ptr)
                                        else (h, mem_ptr));
                       h = (if free_mem < heap_mem_free h then h\<lparr>heap_mem_free := free_mem\<rparr> else h)
                   in Some (h\<lparr>mem_used_size := mem_used_size h - sz\<rparr>))"

section \<open>Well-formed heaps\<close>

text \<open>Consecutive headers leave room for a header and at least \<^verbatim>\<open>MALLOC_MIN_SIZE\<close> bytes.\<close>

fun spaced :: "addr list \<Rightarrow> bool" where
  "spaced (a # b # xs) \<longleftrightarrow> unat a + 24 \<le> unat b \<and> spaced (b # xs)"
| "spaced _ \<longleftrightarrow> True"

fun no_two_free :: "(addr \<Rightarrow> bool) \<Rightarrow> addr list \<Rightarrow> bool" where
  "no_two_free u (a # b # xs) \<longleftrightarrow> (u a \<or> u b) \<and> no_two_free u (b # xs)"
| "no_two_free u _ \<longleftrightarrow> True"

definition heap_wf :: "heap \<Rightarrow> addr list \<Rightarrow> bool" where
  "heap_wf h as \<longleftrightarrow>
     as \<noteq> [] \<and> hd as = heap_mem_begin h \<and>
     ring (hlinks h) (heap_mem_begin h) (tl as @ [heap_mem_end h]) \<and>
     spaced (as @ [heap_mem_end h]) \<and> no_two_free (hused h) as \<and> hused h (heap_mem_end h) \<and>
     (\<forall>a\<in>set (as @ [heap_mem_end h]). 4 dvd unat a)"

definition free_ok :: "heap \<Rightarrow> addr list \<Rightarrow> bool" where
  "free_ok h as \<longleftrightarrow>
     (\<exists>pre post. as = pre @ heap_mem_free h # post \<and> \<not> hused h (heap_mem_free h) \<and> (\<forall>a\<in>set pre. hused h a))"

lemma spaced_append: "spaced (xs @ y # ys) \<longleftrightarrow> spaced (xs @ [y]) \<and> spaced (y # ys)"
  by (induction xs rule: induct_list012) (auto)

lemma spaced_sorted: "spaced (a # xs) \<Longrightarrow> b \<in> set xs \<Longrightarrow> unat a + 24 \<le> unat b"
proof (induction xs arbitrary: a)
  case (Cons x xs)
  then show ?case by (cases "b = x") fastforce+
qed simp

lemma spaced_distinct: "spaced xs \<Longrightarrow> distinct xs"
proof (induction xs)
  case (Cons a xs)
  have "spaced xs" using Cons.prems by (cases xs) auto
  moreover have "a \<notin> set xs" using spaced_sorted [OF Cons.prems, of a] by auto
  ultimately show ?case using Cons.IH by simp
qed simp

lemma no_two_free_append:
  "no_two_free u (xs @ a # ys) \<longleftrightarrow> no_two_free u (xs @ [a]) \<and> no_two_free u (a # ys)"
  by (induction xs rule: induct_list012) (auto)

lemma no_two_free_cong: "(\<And>a. a \<in> set xs \<Longrightarrow> u a = v a) \<Longrightarrow> no_two_free u xs = no_two_free v xs"
  by (induction xs rule: induct_list012) auto


section \<open>Walking the headers\<close>

lemma heap_wfD:
  assumes "heap_wf h as"
  shows "heap_mem_begin h # tl as = as" and "ring (hlinks h) (heap_mem_begin h) (tl as @ [heap_mem_end h])"
    and "spaced (as @ [heap_mem_end h])" and "no_two_free (hused h) as" and "hused h (heap_mem_end h)"
    and "\<And>a. a \<in> set (as @ [heap_mem_end h]) \<Longrightarrow> 4 dvd unat a"
  using assms by (cases as; auto simp: heap_wf_def)+

lemma ring_walk:
  assumes "ring l b (xs @ [e])" and "b # xs = pre @ a # post"
  shows "next_of l a = hd (post @ [e])" and "prev_of l a = (if pre = [] then e else last pre)"
    and "prev_of l (hd (post @ [e])) = a"
proof -
  have c: "chain l b (xs @ [e]) b" using assms(1) by (simp add: ring_def)
  have "next_of l a = hd (post @ [e]) \<and> prev_of l a = (if pre = [] then e else last pre) \<and>
      prev_of l (hd (post @ [e])) = a"
  proof (cases pre)
    case Nil
    then have "a = b" "xs = post" using assms(2) by auto
    moreover have "prev_of l b = e" using chain_prev [OF c] by simp
    ultimately show ?thesis using c Nil by (cases post) auto
  next
    case (Cons x pre')
    then have "x = b" "xs = pre' @ a # post" using assms(2) by auto
    then have c': "chain l b pre' a" "chain l a (post @ [e]) b" using c by (auto simp: chain_append)
    show ?thesis
      using chain_prev [OF c'(1)] c'(2) Cons \<open>x = b\<close> by (cases post) auto
  qed
  then show "next_of l a = hd (post @ [e])" and "prev_of l a = (if pre = [] then e else last pre)"
    and "prev_of l (hd (post @ [e])) = a" by auto
qed

lemma hnext_eq:
  assumes "heap_wf h as" and "as = pre @ a # post"
  shows "hnext h a = hd (post @ [heap_mem_end h])"
  by (rule ring_walk(1) [OF heap_wfD(2) [OF assms(1)] trans [OF heap_wfD(1) [OF assms(1)] assms(2)]])

lemma hprev_eq:
  assumes "heap_wf h as" and "as = pre @ a # post"
  shows "prev_of (hlinks h) a = (if pre = [] then heap_mem_end h else last pre)"
  by (rule ring_walk(2) [OF heap_wfD(2) [OF assms(1)] trans [OF heap_wfD(1) [OF assms(1)] assms(2)]])

lemma block_gap:
  assumes "heap_wf h as" and "as = pre @ a # post"
  shows "unat a + 24 \<le> unat (hnext h a)"
proof -
  have "spaced (pre @ a # (post @ [heap_mem_end h]))" using heap_wfD(3) [OF assms(1)] assms(2) by simp
  then have "spaced (a # (post @ [heap_mem_end h]))" using spaced_append [of pre a] by blast
  then show ?thesis unfolding hnext_eq [OF assms] by (cases post) auto
qed

lemma unat_sub_le: "unat b \<le> unat a \<Longrightarrow> unat (a - b) = unat a - unat (b :: 'a :: len word)"
  by (simp add: unat_sub word_le_nat_alt)

lemma unat_mem_len:
  assumes "heap_wf h as" and "as = pre @ a # post"
  shows "unat (mem_len h a) = unat (hnext h a) - unat a - 12"
proof -
  note g = block_gap [OF assms]
  then have "unat (hnext h a - a) = unat (hnext h a) - unat a" by (intro unat_sub_le) simp
  then show ?thesis
    using g unat_sub_le [of HEAP_HDR "hnext h a - a"] by (simp add: mem_len_def HEAP_HDR_def)
qed

lemma heap_scan_find:
  assumes wf: "heap_wf h as" and "as = pre @ xs"
  shows "heap_scan h sz (hd (xs @ [heap_mem_end h])) = Some (find (\<lambda>a. \<not> hused h a \<and> mem_len h a > sz) xs)"
  using assms(2)
proof (induction xs arbitrary: pre)
  case Nil
  then show ?case by (simp add: heap_scan.simps)
next
  case (Cons a xs)
  have "distinct (as @ [heap_mem_end h])" by (rule spaced_distinct [OF heap_wfD(3) [OF wf]])
  then have ne: "a \<noteq> heap_mem_end h" using Cons.prems by auto
  have "heap_scan h sz (hnext h a) = Some (find (\<lambda>a. \<not> hused h a \<and> mem_len h a > sz) xs)"
    using Cons.IH [of "pre @ [a]"] Cons.prems hnext_eq [OF wf, of pre a xs] by simp
  with ne show ?case by (simp add: heap_scan.simps [of h sz a])
qed

lemma heap_advance_walk:
  assumes "\<And>pre a post. as = pre @ a # post \<Longrightarrow> next_of (hlinks h) a = hd (post @ [heap_mem_end h])"
    and "as = pre @ xs" and "heap_mem_end h \<notin> set as"
  shows "heap_advance h (hd (xs @ [heap_mem_end h])) = Some (hd (dropWhile (hused h) xs @ [heap_mem_end h]))"
  using assms(2)
proof (induction xs arbitrary: pre)
  case Nil
  then show ?case by (simp add: heap_advance.simps)
next
  case (Cons a xs)
  have ne: "a \<noteq> heap_mem_end h" using Cons.prems assms(3) by auto
  have "heap_advance h (hnext h a) = Some (hd (dropWhile (hused h) xs @ [heap_mem_end h]))"
    using Cons.IH [of "pre @ [a]"] Cons.prems assms(1) [of pre a xs] by simp
  with ne show ?case by (simp add: heap_advance.simps [of h a])
qed

section \<open>Allocating\<close>

definition splits :: "heap \<Rightarrow> os_u32 \<Rightarrow> addr \<Rightarrow> bool" where
  "splits h sz a \<longleftrightarrow> mem_len h a - sz > HEAP_HDR + MALLOC_MIN_SIZE"

definition rest_hdr :: "os_u32 \<Rightarrow> addr \<Rightarrow> addr" where
  "rest_hdr sz a = a + sz + HEAP_HDR"

text \<open>The headers after block \<open>a\<close> has been taken.\<close>

definition taken :: "heap \<Rightarrow> os_u32 \<Rightarrow> addr \<Rightarrow> heap" where
  "taken h sz a =
     (let h1 = (if splits h sz a
                then h\<lparr>hused := (hused h)(rest_hdr sz a := False),
                       hlinks := list_insert_head a (rest_hdr sz a) (list_init (rest_hdr sz a) (hlinks h))\<rparr>
                else h)
      in h1\<lparr>hused := (hused h1)(a := True), mem_used_size := mem_used_size h + (sz + HEAP_HDR)\<rparr>)"

definition take_hdrs :: "heap \<Rightarrow> os_u32 \<Rightarrow> addr \<Rightarrow> addr list \<Rightarrow> addr list" where
  "take_hdrs h sz a post = (if splits h sz a then rest_hdr sz a # post else post)"

lemma heap_take_eq:
  "heap_take sz a h =
     (if heap_mem_free h = a
      then do {
        ptr \<leftarrow> heap_advance (taken h sz a) a;
        if hused (taken h sz a) ptr \<or> ptr = heap_mem_end h then None
        else Some (a + HEAP_HDR, (taken h sz a)\<lparr>heap_mem_free := ptr\<rparr>)
      }
      else Some (a + HEAP_HDR, taken h sz a))"
  by (simp add: heap_take_def taken_def splits_def rest_hdr_def set_used_def upd_hlinks_def Let_def
      cong: if_cong)

lemma splits_bound:
  assumes wf: "heap_wf h as" "as = pre @ a # post" and sz: "sz < mem_len h a" "12 \<le> unat sz"
    and sp: "splits h sz a"
  shows "unat (rest_hdr sz a) = unat a + unat sz + 12" and "unat (rest_hdr sz a) + 24 \<le> unat (hnext h a)"
proof -
  note ml = unat_mem_len [OF wf]
  have "unat (mem_len h a - sz) = unat (mem_len h a) - unat sz"
    using sz(1) by (intro unat_sub_le) (simp add: word_less_nat_alt)
  then have gt: "unat a + unat sz + 36 < unat (hnext h a)"
    using sp sz(1) ml by (simp add: splits_def HEAP_HDR_def MALLOC_MIN_SIZE_def word_less_nat_alt)
  moreover have "unat (hnext h a) < 2 ^ 32" using unat_less_32 by simp
  ultimately show "unat (rest_hdr sz a) = unat a + unat sz + 12"
    by (simp add: rest_hdr_def HEAP_HDR_def unat_word_ariths)
  with gt show "unat (rest_hdr sz a) + 24 \<le> unat (hnext h a)" by simp
qed


lemma spaced_before: "spaced (pre @ a # ys) \<Longrightarrow> b \<in> set pre \<Longrightarrow> unat b + 24 \<le> unat a"
proof -
  assume sp: "spaced (pre @ a # ys)" and "b \<in> set pre"
  then obtain p1 p2 where "pre = p1 @ b # p2" by (auto simp: in_set_conv_decomp)
  with sp have "spaced (p1 @ b # (p2 @ a # ys))" by simp
  then have "spaced (b # (p2 @ a # ys))" using spaced_append [of p1 b] by blast
  then show ?thesis using spaced_sorted [of b "p2 @ a # ys" a] by simp
qed

lemma spaced_gap:
  assumes sp: "spaced (pre @ a # ys)" and ne: "ys \<noteq> []"
    and c: "unat a < unat c" "unat c < unat (hd ys)"
  shows "c \<notin> set (pre @ a # ys)"
proof
  assume "c \<in> set (pre @ a # ys)"
  then consider "c \<in> set pre" | "c = a" | "c \<in> set ys" by auto
  then show False
  proof cases
    case 1
    then show ?thesis using spaced_before [OF sp] c(1) by fastforce
  next
    case 2
    then show ?thesis using c(1) by simp
  next
    case 3
    obtain y zs where ys: "ys = y # zs" using ne by (cases ys) auto
    have "spaced (pre @ a # ys)" by (rule sp)
    then have "spaced (a # y # zs)" using spaced_append [of pre a] ys by blast
    then have "spaced (y # zs)" by simp
    then have "unat y \<le> unat c" using 3 ys spaced_sorted [of y zs c] by auto
    then show ?thesis using c(2) ys by simp
  qed
qed

lemma spaced_insert:
  assumes "spaced (pre @ a # ys)" and "ys \<noteq> []" and "unat a + 24 \<le> unat c" and "unat c + 24 \<le> unat (hd ys)"
  shows "spaced (pre @ a # c # ys)"
proof -
  have "spaced (pre @ [a])" "spaced (a # ys)" using assms(1) spaced_append [of pre a ys] by auto
  moreover from this(2) assms(2-4) have "spaced (a # c # ys)" by (cases ys) auto
  ultimately show ?thesis using spaced_append [of pre a "c # ys"] by blast
qed

lemma ring_insert_after:
  assumes r: "ring l b (xs @ [e])" and as: "b # xs = pre @ a # post" and c: "c \<notin> set (b # xs @ [e])"
  shows "ring (list_insert_head a c (list_init c l)) b (tl (pre @ a # c # post) @ [e])"
proof -
  have r': "ring (list_init c l) b (xs @ [e])"
    by (rule ring_frame [OF r]) (use c in \<open>auto simp: list_init_apply\<close>)
  define P where "P = (if pre = [] then [] else tl pre @ [a])"
  have P: "xs @ [e] = P @ (post @ [e])" "last (b # P) = a" "tl (pre @ a # c # post) @ [e] = P @ c # (post @ [e])"
    using as by (cases pre; auto simp: P_def)+
  have "next_of l a = hd (post @ [e])" by (rule ring_walk(1) [OF r as])
  moreover have "a \<noteq> c" using c as by (metis in_set_conv_decomp set_ConsD append_Cons set_append UnCI)
  ultimately have n: "next_of (list_init c l) a = hd ((post @ [e]) @ [b])"
    by (cases post) (simp_all add: list_init_apply)
  have "c \<notin> set (b # P @ (post @ [e]))" using c P(1) by simp
  from ring_insert [OF r' [unfolded P(1)] this] show ?thesis
    by (simp only: list_insert_head_def n P(2,3))
qed

lemma taken_simps [simp]:
  "heap_mem_begin (taken h sz a) = heap_mem_begin h" "heap_mem_end (taken h sz a) = heap_mem_end h"
  "heap_mem_free (taken h sz a) = heap_mem_free h"
  "mem_total_size (taken h sz a) = mem_total_size h"
  "mem_used_size (taken h sz a) = mem_used_size h + (sz + HEAP_HDR)"
  by (simp_all add: taken_def Let_def)

lemma taken_used:
  "hused (taken h sz a) b \<longleftrightarrow> b = a \<or> (hused h b \<and> \<not> (splits h sz a \<and> b = rest_hdr sz a))"
  by (auto simp: taken_def Let_def)

lemma rest_not_hdr:
  assumes wf: "heap_wf h as" "as = pre @ a # post" and sz: "sz < mem_len h a" "12 \<le> unat sz"
    and sp: "splits h sz a"
  shows "rest_hdr sz a \<notin> set (as @ [heap_mem_end h])"
proof -
  note b = splits_bound [OF assms]
  have "spaced (pre @ a # (post @ [heap_mem_end h]))" using heap_wfD(3) [OF wf(1)] wf(2) by simp
  from spaced_gap [OF this, of "rest_hdr sz a"] show ?thesis
    using b hnext_eq [OF wf] wf(2) by simp
qed

lemma taken_wf:
  assumes wf: "heap_wf h as" "as = pre @ a # post" and sz: "sz < mem_len h a" "12 \<le> unat sz" "4 dvd unat sz"
    and nu: "\<not> hused h a"
  shows "heap_wf (taken h sz a) (pre @ a # take_hdrs h sz a post)"
proof (cases "splits h sz a")
  case False
  then have t: "taken h sz a = h\<lparr>hused := (hused h)(a := True), mem_used_size := mem_used_size h + (sz + HEAP_HDR)\<rparr>"
    by (simp add: taken_def)
  have "no_two_free (hused h) as \<Longrightarrow> no_two_free ((hused h)(a := True)) as"
    by (induction as rule: induct_list012) auto
  then show ?thesis using wf False by (auto simp: heap_wf_def t take_hdrs_def)
next
  case True
  let ?c = "rest_hdr sz a" and ?e = "heap_mem_end h"
  note b = splits_bound [OF wf sz(1,2) True] and nc = rest_not_hdr [OF wf sz(1,2) True]
  have hd: "hd (pre @ a # ?c # post) = heap_mem_begin h" using wf by (cases pre) (auto simp: heap_wf_def)
  have r: "ring (hlinks (taken h sz a)) (heap_mem_begin h) (tl (pre @ a # ?c # post) @ [?e])"
    using ring_insert_after [OF heap_wfD(2) [OF wf(1)] trans [OF heap_wfD(1) [OF wf(1)] wf(2)], of ?c] nc
      heap_wfD(1) [OF wf(1)] True
    by (simp add: taken_def Let_def) (metis set_ConsD list.set_intros)
  have "spaced (pre @ a # (post @ [?e]))" using heap_wfD(3) [OF wf(1)] wf(2) by simp
  then have sp: "spaced ((pre @ a # ?c # post) @ [?e])"
    using spaced_insert [of pre a "post @ [?e]" ?c] b sz(2) hnext_eq [OF wf] by simp
  have "4 dvd unat a" using heap_wfD(6) [OF wf(1), of a] wf(2) by simp
  then have "4 dvd unat ?c" using b(1) sz(3) by (simp add: dvd_add)
  then have al: "\<forall>x\<in>set ((pre @ a # ?c # post) @ [?e]). 4 dvd unat x"
    using heap_wfD(6) [OF wf(1)] wf(2) by auto
  have ntf: "no_two_free (hused h) (pre @ [a])" "no_two_free (hused h) (a # post)"
    using heap_wfD(4) [OF wf(1)] wf(2) no_two_free_append by blast+
  have d: "a \<notin> set post" "?c \<notin> set post" "?c \<notin> set pre" "?c \<noteq> a"
    using nc wf(2) spaced_distinct [OF heap_wfD(3) [OF wf(1)]] by auto
  have 1: "no_two_free (hused (taken h sz a)) (a # ?c # post)"
  proof -
    have ua: "hused (taken h sz a) a" by (simp add: taken_used)
    have same: "hused (taken h sz a) x = hused h x" if "x \<in> set post" for x
      using that d by (auto simp: taken_used)
    have "no_two_free (hused (taken h sz a)) post = no_two_free (hused h) post"
      using same by (rule no_two_free_cong)
    then show ?thesis using ntf(2) nu ua same by (cases post) auto
  qed
  have 2: "no_two_free (hused (taken h sz a)) (pre @ [a])"
    using ntf(1) d by (induction pre rule: induct_list012) (auto simp: taken_used)
  have ntf': "no_two_free (hused (taken h sz a)) (pre @ a # ?c # post)"
    using 1 2 no_two_free_append by blast
  show ?thesis
    using hd r sp al ntf' heap_wfD(5) [OF wf(1)] nc True
    by (auto simp: heap_wf_def take_hdrs_def taken_used)
qed


lemma heap_wf_free [simp]: "heap_wf (h\<lparr>heap_mem_free := f\<rparr>) as = heap_wf h as"
  by (simp add: heap_wf_def)

lemma end_not_hdr: "heap_wf h as \<Longrightarrow> heap_mem_end h \<notin> set as"
  using spaced_distinct [OF heap_wfD(3)] by fastforce

lemma dropWhile_split:
  assumes "\<exists>b\<in>set xs. \<not> P b"
  obtains ys z zs where "xs = ys @ z # zs" "\<forall>y\<in>set ys. P y" "\<not> P z" "dropWhile P xs = z # zs"
proof -
  have ne: "dropWhile P xs \<noteq> []" using assms by simp
  then obtain z zs where d: "dropWhile P xs = z # zs" by (cases "dropWhile P xs") auto
  have "xs = takeWhile P xs @ z # zs" using d by (metis takeWhile_dropWhile_id)
  moreover have "\<forall>y\<in>set (takeWhile P xs). P y" by (meson set_takeWhileD)
  moreover have "\<not> P z" using d ne by (metis hd_dropWhile list.sel(1))
  ultimately show ?thesis using d that by blast
qed

lemma advance_spec:
  assumes wf: "heap_wf h as" and as: "as = pre @ xs" and u: "\<forall>a\<in>set pre. hused h a" "xs \<noteq> []"
  shows "if \<exists>b\<in>set as. \<not> hused h b
    then \<exists>f. heap_advance h (hd xs) = Some f \<and> f \<in> set as \<and> \<not> hused h f \<and> free_ok (h\<lparr>heap_mem_free := f\<rparr>) as
    else heap_advance h (hd xs) = Some (heap_mem_end h)"
proof -
  have adv: "heap_advance h (hd xs) = Some (hd (dropWhile (hused h) xs @ [heap_mem_end h]))"
    using heap_advance_walk [OF hnext_eq [OF wf] as end_not_hdr [OF wf]] u(2) by (cases xs) auto
  show ?thesis
  proof (cases "\<exists>b\<in>set as. \<not> hused h b")
    case True
    then have "\<exists>b\<in>set xs. \<not> hused h b" using u(1) as by auto
    then obtain ys z zs where d: "xs = ys @ z # zs" "\<forall>y\<in>set ys. hused h y" "\<not> hused h z"
      "dropWhile (hused h) xs = z # zs" by (rule dropWhile_split)
    have "free_ok (h\<lparr>heap_mem_free := z\<rparr>) as"
      unfolding free_ok_def using as d u(1) by (intro exI [of _ "pre @ ys"] exI [of _ zs]) auto
    with adv d as True show ?thesis by auto
  next
    case False
    then have "dropWhile (hused h) xs = []" using as by auto
    with adv False show ?thesis by auto
  qed
qed

lemma heap_take_spec:
  assumes wf: "heap_wf h as" "free_ok h as" and as: "as = pre @ a # post" and nu: "\<not> hused h a"
    and sz: "sz < mem_len h a" "12 \<le> unat sz" "4 dvd unat sz"
  defines "h1 \<equiv> taken h sz a" and "as1 \<equiv> pre @ a # take_hdrs h sz a post"
  shows "if \<exists>b\<in>set as1. \<not> hused h1 b
    then \<exists>f. heap_take sz a h = Some (a + HEAP_HDR, h1\<lparr>heap_mem_free := f\<rparr>) \<and>
       free_ok (h1\<lparr>heap_mem_free := f\<rparr>) as1
    else heap_take sz a h = None"
proof -
  have wf1: "heap_wf h1 as1" unfolding h1_def as1_def by (rule taken_wf [OF wf(1) as sz nu])
  from wf(2) obtain p0 p1 where f: "as = p0 @ heap_mem_free h # p1" "\<not> hused h (heap_mem_free h)"
    "\<forall>b\<in>set p0. hused h b" by (auto simp: free_ok_def)
  have dist: "distinct as" using spaced_distinct [OF heap_wfD(3) [OF wf(1)]] by simp
  show ?thesis
  proof (cases "heap_mem_free h = a")
    case True
    then have "p0 = pre" using f(1) as dist by (metis append_Cons_eq_iff distinct_append not_distinct_conv_prefix append_eq_append_conv2 distinct.simps(2) in_set_conv_decomp)
    then have u: "\<forall>b\<in>set pre. hused h1 b"
      using f(3) as dist rest_not_hdr [OF wf(1) as sz(1,2)] by (auto simp: h1_def taken_used)
    have e: "heap_take sz a h = do { ptr \<leftarrow> heap_advance h1 a;
        if hused h1 ptr \<or> ptr = heap_mem_end h1 then None else Some (a + HEAP_HDR, h1\<lparr>heap_mem_free := ptr\<rparr>) }"
      unfolding h1_def using True by (simp add: heap_take_eq)
    from advance_spec [OF wf1 as1_def [THEN meta_eq_to_obj_eq] u] end_not_hdr [OF wf1] show ?thesis
      by (auto simp: e split: if_splits)
  next
    case False
    have "heap_mem_free h \<in> set (pre @ a # post)" using f(1) as by (metis in_set_conv_decomp)
    then have fa: "heap_mem_free h \<in> set as1" "\<not> hused h1 (heap_mem_free h)"
      using f(2) False by (auto simp: as1_def take_hdrs_def h1_def taken_used)
    have "free_ok h1 as1"
    proof -
      obtain q1 where "pre = p0 @ heap_mem_free h # q1 \<or> p0 = pre @ a # q1"
        using f(1) as False by (auto simp: append_eq_append_conv2 append_eq_Cons_conv Cons_eq_append_conv)
      moreover have "a \<notin> set p0" using f(3) nu by auto
      ultimately have pre: "pre = p0 @ heap_mem_free h # q1" by auto
      have "\<forall>b\<in>set p0. hused h1 b"
        using f(3) pre rest_not_hdr [OF wf(1) as sz(1,2)] as by (auto simp: h1_def taken_used)
      with fa(2) pre show ?thesis
        unfolding free_ok_def as1_def
        by (intro exI [of _ p0] exI [of _ "q1 @ a # take_hdrs h sz a post"]) (auto simp: h1_def)
    qed
    moreover have "h1\<lparr>heap_mem_free := heap_mem_free h\<rparr> = h1" by (simp add: h1_def taken_def Let_def)
    ultimately show ?thesis using False fa by (auto simp: heap_take_eq h1_def [symmetric] intro!: exI [of _ "heap_mem_free h"])
  qed
qed


lemma malloc_size_facts:
  assumes "unat sz + 3 < 2 ^ 32"
  shows "12 \<le> unat (malloc_size sz)" and "4 dvd unat (malloc_size sz)" and "unat sz \<le> unat (malloc_size sz)"
proof -
  let ?m = "if sz < MALLOC_MIN_SIZE then MALLOC_MIN_SIZE else sz"
  have m: "unat ?m + 3 < 2 ^ 32" "12 \<le> unat ?m" "unat sz \<le> unat ?m"
    using assms by (auto simp: MALLOC_MIN_SIZE_def word_less_nat_alt)
  note a = ALIGN_ge [OF m(1)] ALIGN_dvd [OF m(1)]
  show "12 \<le> unat (malloc_size sz)" using a(1) m(2) unfolding malloc_size_def by linarith
  show "4 dvd unat (malloc_size sz)" using a(2) unfolding malloc_size_def .
  show "unat sz \<le> unat (malloc_size sz)" using a(1) m(3) unfolding malloc_size_def by linarith
qed

lemma heap_scan_from_free:
  assumes "heap_wf h as" and "free_ok h as"
  shows "heap_scan h sz (heap_mem_free h) = Some (find (\<lambda>a. \<not> hused h a \<and> mem_len h a > sz) as)"
proof -
  from assms(2) obtain pre post where f: "as = pre @ heap_mem_free h # post" "\<forall>a\<in>set pre. hused h a"
    by (auto simp: free_ok_def)
  have "heap_scan h sz (heap_mem_free h) =
      Some (find (\<lambda>a. \<not> hused h a \<and> mem_len h a > sz) (heap_mem_free h # post))"
    using heap_scan_find [OF assms(1) f(1)] by simp
  moreover have "find P (pre @ xs) = find P xs" if "\<forall>a\<in>set pre. \<not> P a" for P and xs :: "addr list"
    using that by (induction pre) auto
  ultimately show ?thesis using f by (metis (mono_tags, lifting))
qed

lemma find_first:
  assumes "find P xs = Some a"
  obtains pre post where "xs = pre @ a # post" and "P a" and "\<forall>b\<in>set pre. \<not> P b"
  using assms by (auto simp: find_Some_iff) (metis id_take_nth_drop in_set_conv_nth length_take min_less_iff_conj nth_take)

definition fits :: "heap \<Rightarrow> os_u32 \<Rightarrow> addr \<Rightarrow> bool" where
  "fits h sz a \<longleftrightarrow> \<not> hused h a \<and> sz < mem_len h a"

lemma heap_malloc_eq:
  assumes "heap_wf h as" and "free_ok h as" and "sz \<noteq> 0" and "unat sz + 3 < 2 ^ 32"
  shows "heap_malloc sz h =
    (if malloc_size sz > mem_total_size h - mem_used_size h then Some (None, h)
     else case find (fits h (malloc_size sz)) as of None \<Rightarrow> Some (None, h)
       | Some a \<Rightarrow> map_option (\<lambda>(p, h). (Some p, h)) (heap_take (malloc_size sz) a h))"
proof -
  have "(\<lambda>a. \<not> hused h a \<and> mem_len h a > malloc_size sz) = fits h (malloc_size sz)"
    by (auto simp: fits_def)
  then show ?thesis
    using heap_scan_from_free [OF assms(1,2), of "malloc_size sz"] assms(3)
    by (auto simp: heap_malloc_def Let_def split: option.splits Option.bind_splits)
qed

lemma heap_malloc_run:
  assumes wf: "heap_wf h as" "free_ok h as" and sz: "sz \<noteq> 0" "unat sz + 3 < 2 ^ 32"
    and run: "heap_malloc sz h = Some (Some p, h')"
  obtains pre a post f where "as = pre @ a # post" "fits h (malloc_size sz) a" "p = a + HEAP_HDR"
    "h' = (taken h (malloc_size sz) a)\<lparr>heap_mem_free := f\<rparr>"
    "heap_wf h' (pre @ a # take_hdrs h (malloc_size sz) a post)"
    "free_ok h' (pre @ a # take_hdrs h (malloc_size sz) a post)"
proof -
  from run heap_malloc_eq [OF wf sz] obtain a where
    f: "find (fits h (malloc_size sz)) as = Some a" "heap_take (malloc_size sz) a h = Some (p, h')"
    by (auto split: if_splits option.splits)
  from find_first [OF f(1)] obtain pre post where as: "as = pre @ a # post" and fit: "fits h (malloc_size sz) a"
    by blast
  then have nu: "\<not> hused h a" and lt: "malloc_size sz < mem_len h a" by (auto simp: fits_def)
  note ms = malloc_size_facts [OF sz(2)]
  from heap_take_spec [OF wf as nu lt ms(1,2)] f(2) obtain g where
    "p = a + HEAP_HDR" "h' = (taken h (malloc_size sz) a)\<lparr>heap_mem_free := g\<rparr>"
    "free_ok h' (pre @ a # take_hdrs h (malloc_size sz) a post)" by (auto split: if_splits)
  moreover from this(2) taken_wf [OF wf(1) as lt ms(1,2) nu]
  have "heap_wf h' (pre @ a # take_hdrs h (malloc_size sz) a post)" by simp
  ultimately show ?thesis using as fit that by blast
qed

section \<open>Freeing\<close>

lemma spaced_delete: "spaced (xs @ y # ys) \<Longrightarrow> spaced (xs @ ys)"
proof (induction xs rule: induct_list012)
  case 1
  then show ?case by (cases ys) auto
next
  case (2 x)
  then show ?case by (cases ys) auto
qed auto

text \<open>The headers after block \<open>a\<close> has been released and merged with its free neighbours.\<close>

definition merged :: "(addr \<Rightarrow> bool) \<Rightarrow> addr list \<Rightarrow> addr \<Rightarrow> addr list \<Rightarrow> addr list" where
  "merged u pre a post =
     (if pre \<noteq> [] \<and> \<not> u (last pre) then pre else pre @ [a]) @
     (if post \<noteq> [] \<and> \<not> u (hd post) then tl post else post)"

lemma ring_remove_at:
  assumes r: "ring l b (xs @ [e])" and as: "b # xs = pre @ x # post" and ne: "pre \<noteq> []"
  shows "ring (list_remove_node x l) b (tl (pre @ post) @ [e])"
proof -
  have "xs @ [e] = tl pre @ x # (post @ [e])" using as ne by (cases pre) auto
  then show ?thesis using ring_remove [of l b "tl pre" x "post @ [e]"] r ne by (cases pre) auto
qed

text \<open>Releasing in terms of the ring: first the next header goes, then the block's own.\<close>

lemma released_rings:
  assumes r: "ring l b (xs @ [e])" and as: "b # xs = pre @ a # post" and ue: "u e"
  defines "l1 \<equiv> (if \<not> u (hd (post @ [e])) then list_remove_node (hd (post @ [e])) l else l)"
  defines "l2 \<equiv> (if \<not> u (prev_of l1 a) then list_remove_node a l1 else l1)"
  shows "prev_of l1 a = (if pre = [] then e else last pre)" and "ring l2 b (tl (merged u pre a post) @ [e])"
    and "hd (merged u pre a post) = b"
proof -
  define post' where "post' = (if post \<noteq> [] \<and> \<not> u (hd post) then tl post else post)"
  have hb: "hd (pre @ [a]) = b" using as by (cases pre) auto
  have r1: "ring l1 b (tl (pre @ a # post') @ [e])"
  proof (cases "post \<noteq> [] \<and> \<not> u (hd post)")
    case True
    then have "b # xs = (pre @ [a]) @ hd post # tl post" using as by simp
    from ring_remove_at [OF r this] True show ?thesis by (cases post) (simp_all add: l1_def post'_def)
  next
    case False
    then have "l1 = l" using ue by (cases post) (auto simp: l1_def)
    moreover have "xs = tl (pre @ a # post)" using as by (metis list.sel(3))
    ultimately show ?thesis using r False by (auto simp: post'_def)
  qed
  have as1: "b # tl (pre @ a # post') = pre @ a # post'" using hb by (cases pre) auto
  show p: "prev_of l1 a = (if pre = [] then e else last pre)" by (rule ring_walk(2) [OF r1 as1])
  have "ring l2 b (tl (merged u pre a post) @ [e]) \<and> hd (merged u pre a post) = b"
  proof (cases "pre \<noteq> [] \<and> \<not> u (last pre)")
    case True
    then have "merged u pre a post = pre @ post'" by (simp add: merged_def post'_def)
    moreover have "l2 = list_remove_node a l1" using True p by (simp add: l2_def)
    ultimately show ?thesis using ring_remove_at [OF r1 as1] True hb by simp
  next
    case False
    then have "merged u pre a post = pre @ a # post'" by (auto simp: merged_def post'_def)
    moreover have "l2 = l1" using False p ue by (auto simp: l2_def)
    ultimately show ?thesis using r1 hb by (cases pre) auto
  qed
  then show "ring l2 b (tl (merged u pre a post) @ [e])" "hd (merged u pre a post) = b" by auto
qed


lemma merged_spaced:
  assumes "spaced (pre @ a # post @ ys)"
  shows "spaced (merged u pre a post @ ys)"
proof -
  define post' where "post' = (if post \<noteq> [] \<and> \<not> u (hd post) then tl post else post)"
  have "spaced ((pre @ [a]) @ (post' @ ys))"
  proof (cases "post \<noteq> [] \<and> \<not> u (hd post)")
    case True
    then have "pre @ a # post @ ys = (pre @ [a]) @ hd post # (tl post @ ys)" by simp
    with assms spaced_delete [of "pre @ [a]" "hd post" "tl post @ ys"] True show ?thesis
      by (simp add: post'_def)
  qed (use assms in \<open>auto simp: post'_def\<close>)
  then show ?thesis
    using spaced_delete [of pre a "post' @ ys"]
    by (cases "pre \<noteq> [] \<and> \<not> u (last pre)") (auto simp: merged_def post'_def)
qed

lemma no_two_free_upd: "a \<notin> set xs \<Longrightarrow> no_two_free (u(a := b)) xs = no_two_free u xs"
  by (rule no_two_free_cong) auto

lemma no_two_free_tl: "no_two_free u (x # xs) \<Longrightarrow> no_two_free u xs"
  by (cases xs) auto

lemma no_two_free_last:
  "no_two_free u (pre @ [a]) \<Longrightarrow> pre \<noteq> [] \<Longrightarrow> u (last pre) \<or> u a"
  by (induction pre rule: induct_list012) auto

lemma no_two_free_snoc:
  "no_two_free u pre \<Longrightarrow> (pre \<noteq> [] \<Longrightarrow> u (last pre) \<or> u a) \<Longrightarrow> no_two_free u (pre @ [a])"
  by (induction pre rule: induct_list012) auto

lemma no_two_free_butlast: "no_two_free u (pre @ [a]) \<Longrightarrow> no_two_free u pre"
  by (induction pre rule: induct_list012) auto

lemma no_two_free_join:
  "no_two_free u xs \<Longrightarrow> no_two_free u ys \<Longrightarrow> (xs \<noteq> [] \<Longrightarrow> ys \<noteq> [] \<Longrightarrow> u (last xs) \<or> u (hd ys)) \<Longrightarrow>
   no_two_free u (xs @ ys)"
proof (induction xs rule: induct_list012)
  case (2 x)
  then show ?case by (cases ys) auto
qed auto

lemma merged_no_two_free:
  assumes n: "no_two_free u (pre @ a # post)" and d: "distinct (pre @ a # post)"
  shows "no_two_free (u(a := False)) (merged u pre a post)"
proof -
  let ?v = "u(a := False)"
  define post' where "post' = (if post \<noteq> [] \<and> \<not> u (hd post) then tl post else post)"
  have n1: "no_two_free u (pre @ [a])" "no_two_free u (a # post)" using n no_two_free_append by blast+
  have "no_two_free u pre" "no_two_free u post"
    using no_two_free_butlast [OF n1(1)] no_two_free_tl [OF n1(2)] by auto
  moreover have "no_two_free u post'"
    using \<open>no_two_free u post\<close> no_two_free_tl [of u "hd post" "tl post"] by (auto simp: post'_def)
  moreover have sub: "set post' \<subseteq> set post" by (auto simp: post'_def dest: list.set_sel(2))
  moreover have "a \<notin> set pre" "a \<notin> set post'" using d sub by auto
  ultimately have v: "no_two_free ?v pre" "no_two_free ?v post'" by (simp_all add: no_two_free_upd)
  have hd': "?v (hd post')" if ne': "post' \<noteq> []"
  proof (cases "post \<noteq> [] \<and> \<not> u (hd post)")
    case True
    then obtain x ys where x: "post = x # ys" "\<not> u x" by (cases post) auto
    then have "post' = ys" by (simp add: post'_def)
    then obtain y zs where "ys = y # zs" using ne' by (cases ys) auto
    then show ?thesis using \<open>no_two_free u post\<close> d x \<open>post' = ys\<close> by auto
  next
    case False
    then show ?thesis using that d by (cases post) (auto simp: post'_def)
  qed
  show ?thesis
  proof (cases "pre \<noteq> [] \<and> \<not> u (last pre)")
    case True
    then show ?thesis using v hd' by (auto simp: merged_def post'_def [symmetric] intro: no_two_free_join)
  next
    case False
    have "no_two_free ?v (pre @ [a])"
    proof (rule no_two_free_snoc [OF v(1)])
      assume ne: "pre \<noteq> []"
      then have "last pre \<in> set pre" by simp
      then have "last pre \<noteq> a" using d by auto
      then show "?v (last pre) \<or> ?v a" using False ne by simp
    qed
    then have "no_two_free ?v ((pre @ [a]) @ post')" by (rule no_two_free_join) (use v(2) hd' in auto)
    then show ?thesis using False by (auto simp: merged_def post'_def [symmetric])
  qed
qed

lemma merged_subset: "set (merged u pre a post) \<subseteq> set (pre @ a # post)"
  by (auto simp: merged_def dest: list.set_sel(2))


definition freed :: "heap \<Rightarrow> addr \<Rightarrow> heap" where
  "freed h a =
     (let l = hlinks h; n = next_of l a; u = (hused h)(a := False);
          l1 = (if \<not> u n then list_remove_node n l else l);
          p = prev_of l1 a;
          l2 = (if \<not> u p then list_remove_node a l1 else l1);
          f = (if \<not> u p then p else a)
      in h\<lparr>hused := u, hlinks := l2, heap_mem_free := (if f < heap_mem_free h then f else heap_mem_free h),
           mem_used_size := mem_used_size h - (n - a)\<rparr>)"

lemma heap_free_eq:
  assumes "heap_mem_begin h < mem" and "mem < heap_mem_end h" and "ALIGN mem = mem" and "hused h (mem - HEAP_HDR)"
  shows "heap_free mem h = Some (freed h (mem - HEAP_HDR))"
proof -
  have "mem \<noteq> 0" using assms(1) by auto
  moreover have "\<not> mem \<le> heap_mem_begin h" "\<not> heap_mem_end h \<le> mem" using assms(1,2) by auto
  ultimately show ?thesis using assms(3,4)
    by (auto simp: heap_free_def freed_def set_used_def upd_hlinks_def Let_def)
qed

lemma freed_spec:
  assumes wf: "heap_wf h as" "free_ok h as" and as: "as = pre @ a # post" and u: "hused h a"
  shows "heap_wf (freed h a) (merged (hused h) pre a post)" and "free_ok (freed h a) (merged (hused h) pre a post)"
    and "hused (freed h a) = (hused h)(a := False)"
    and "heap_mem_begin (freed h a) = heap_mem_begin h" and "heap_mem_end (freed h a) = heap_mem_end h"
proof -
  let ?e = "heap_mem_end h" and ?u = "(hused h)(a := False)" and ?m = "merged (hused h) pre a post"
  have dist: "distinct (as @ [?e])" by (rule spaced_distinct [OF heap_wfD(3) [OF wf(1)]])
  have ne: "hd (post @ [?e]) \<noteq> a" "(if pre = [] then ?e else last pre) \<noteq> a"
    using dist as by (cases post; auto)+ 
  note bx = trans [OF heap_wfD(1) [OF wf(1)] as]
  note rr = released_rings [OF heap_wfD(2) [OF wf(1)] bx, of "hused h", OF heap_wfD(5) [OF wf(1)]]
  have n: "next_of (hlinks h) a = hd (post @ [?e])" by (rule hnext_eq [OF wf(1) as])
  define l1 where "l1 = (if \<not> hused h (hd (post @ [?e])) then list_remove_node (hd (post @ [?e])) (hlinks h) else hlinks h)"
  define p where "p = (if pre = [] then ?e else last pre)"
  have p: "prev_of l1 a = p" using rr(1) by (simp add: l1_def p_def)
  have up: "?u p = hused h p" "?u (hd (post @ [?e])) = hused h (hd (post @ [?e]))"
    using ne by (simp_all add: p_def)
  have fr: "freed h a = h\<lparr>hused := ?u, hlinks := (if \<not> hused h p then list_remove_node a l1 else l1),
      heap_mem_free := (if (if \<not> hused h p then p else a) < heap_mem_free h then (if \<not> hused h p then p else a)
        else heap_mem_free h),
      mem_used_size := mem_used_size h - (hd (post @ [?e]) - a)\<rparr>"
    unfolding freed_def Let_def n up(2) l1_def [symmetric] p up(1) by simp
  show ub: "hused (freed h a) = ?u" and "heap_mem_begin (freed h a) = heap_mem_begin h"
    and "heap_mem_end (freed h a) = ?e" by (simp_all add: fr)
  have ring: "ring (hlinks (freed h a)) (heap_mem_begin h) (tl ?m @ [?e])"
    using rr(2) unfolding l1_def [symmetric] p by (simp add: fr)
  have sp: "spaced (?m @ [?e])" using merged_spaced [of pre a post "[?e]"] heap_wfD(3) [OF wf(1)] as by simp
  have ntf: "no_two_free ?u ?m" using merged_no_two_free heap_wfD(4) [OF wf(1)] dist as by auto
  have ue: "?u ?e" using heap_wfD(5) [OF wf(1)] dist as by auto
  have "?m \<noteq> []" by (auto simp: merged_def)
  with ring sp ntf ue rr(3) show "heap_wf (freed h a) ?m"
    using merged_subset [of "hused h" pre a post] heap_wfD(6) [OF wf(1)] as
    by (auto simp: heap_wf_def fr)
  from wf(2) obtain p0 p1 where f: "as = p0 @ heap_mem_free h # p1" "\<not> hused h (heap_mem_free h)"
    "\<forall>b\<in>set p0. hused h b" by (auto simp: free_ok_def)
  have fa: "heap_mem_free h \<noteq> a" using f(2) u by auto
  show "free_ok (freed h a) ?m"
  proof (cases "\<exists>b\<in>set pre. \<not> hused h b")
    case True
    have "heap_mem_free h \<in> set pre"
    proof (rule ccontr)
      assume "heap_mem_free h \<notin> set pre"
      then have "set pre \<subseteq> set p0"
        using f(1) as by (auto simp: append_eq_append_conv2 Cons_eq_append_conv append_eq_Cons_conv)
      then show False using True f(3) by blast
    qed
    then obtain q1 where q: "pre = p0 @ heap_mem_free h # q1"
      using f(1) as dist by (auto simp: append_eq_append_conv2 Cons_eq_append_conv append_eq_Cons_conv)
    have "spaced (p0 @ heap_mem_free h # (q1 @ a # post @ [?e]))"
      using heap_wfD(3) [OF wf(1)] as q by simp
    then have sf: "spaced (heap_mem_free h # (q1 @ a # post @ [?e]))"
      using spaced_append [of p0 "heap_mem_free h"] by blast
    have "p = heap_mem_free h \<or> p \<in> set q1" using q by (cases q1) (auto simp: p_def)
    then have "unat (heap_mem_free h) \<le> unat p" "unat (heap_mem_free h) \<le> unat a"
      using spaced_sorted [OF sf, of p] spaced_sorted [OF sf, of a] by auto
    then have "heap_mem_free (freed h a) = heap_mem_free h" by (auto simp: fr word_less_nat_alt)
    moreover obtain r where "?m = p0 @ heap_mem_free h # r"
      by (cases "hused h (last pre)") (auto simp: merged_def q split: if_splits)
    moreover have "\<forall>b\<in>set p0. ?u b" using f(3) q as dist by auto
    ultimately show ?thesis using f(2) fa unfolding free_ok_def ub
      by (intro exI [of _ p0] exI [of _ r]) auto
  next
    case False
    then have hp: "hused h p" using heap_wfD(5) [OF wf(1)] by (auto simp: p_def)
    have "heap_mem_free h \<in> set (pre @ a # post)" using f(1) as by (metis in_set_conv_decomp)
    then have "heap_mem_free h \<in> set post" using False f(2) fa by auto
    moreover have "spaced (pre @ a # (post @ [?e]))" using heap_wfD(3) [OF wf(1)] as by simp
    then have "spaced (a # (post @ [?e]))" using spaced_append [of pre a] by blast
    ultimately have "unat a < unat (heap_mem_free h)"
      using spaced_sorted [of a "post @ [?e]" "heap_mem_free h"] by fastforce
    then have "heap_mem_free (freed h a) = a" using hp by (simp add: fr word_less_nat_alt)
    moreover have "\<not> (pre \<noteq> [] \<and> \<not> hused h (last pre))" using False last_in_set by blast
    then obtain r where "?m = pre @ a # r" by (auto simp: merged_def)
    moreover have "\<forall>b\<in>set pre. ?u b" using False as dist by auto
    ultimately show ?thesis unfolding free_ok_def ub by (intro exI [of _ pre] exI [of _ r]) auto
  qed
qed


section \<open>Properties\<close>

lemma ALIGN_id: "4 dvd unat x \<Longrightarrow> unat x + 3 < 2 ^ 32 \<Longrightarrow> ALIGN x = x"
  using unat_ALIGN [of x] by (intro word_unat_eq_iff [THEN iffD2]) (auto elim!: dvdE)

lemma block_pointer:
  assumes wf: "heap_wf h as" and as: "as = pre @ a # post"
  defines "p \<equiv> a + HEAP_HDR"
  shows "unat p = unat a + 12" and "heap_mem_begin h < p" and "p < heap_mem_end h" and "ALIGN p = p"
    and "p - HEAP_HDR = a" and "unat (hnext h a) \<le> unat (heap_mem_end h)"
proof -
  let ?e = "heap_mem_end h"
  note g = block_gap [OF wf as]
  have "unat (hnext h a) < 2 ^ 32" using unat_less_32 by simp
  with g show p: "unat p = unat a + 12" by (simp add: p_def HEAP_HDR_def unat_word_ariths)
  have sp: "spaced (pre @ a # (post @ [?e]))" using heap_wfD(3) [OF wf] as by simp
  then have sp': "spaced (a # (post @ [?e]))" using spaced_append [of pre a] by blast
  have ae: "unat a + 24 \<le> unat ?e" using spaced_sorted [OF sp', of ?e] by simp
  have "unat (heap_mem_begin h) \<le> unat a"
    using heap_wfD(1) [OF wf] as spaced_before [OF sp, of "heap_mem_begin h"] by (cases pre) auto
  with p show "heap_mem_begin h < p" by (simp add: word_less_nat_alt)
  from p ae show "p < ?e" by (simp add: word_less_nat_alt)
  have "4 dvd unat a" using heap_wfD(6) [OF wf, of a] as by simp
  then have "4 dvd unat p" using p by (simp add: dvd_add)
  then show "ALIGN p = p" using p g unat_less_32 [of "hnext h a"] by (intro ALIGN_id) simp_all
  show "p - HEAP_HDR = a" by (simp add: p_def)
  have "hnext h a = ?e \<or> hnext h a \<in> set post" using hnext_eq [OF wf as] by (cases post) auto
  then show "unat (hnext h a) \<le> unat ?e"
  proof
    assume "hnext h a \<in> set post"
    then obtain x y where "post = x @ hnext h a # y" by (auto simp: in_set_conv_decomp)
    then have "spaced ((a # x) @ hnext h a # (y @ [?e]))" using sp' by simp
    then have "spaced (hnext h a # (y @ [?e]))" using spaced_append [of "a # x" "hnext h a"] by blast
    then show ?thesis using spaced_sorted [of "hnext h a" "y @ [?e]" ?e] by simp
  qed simp
qed

lemma hdr_order:
  assumes wf: "heap_wf h as" and as: "as = pre @ a # post"
  shows "b \<in> set pre \<Longrightarrow> unat (hnext h b) \<le> unat a" and "b \<in> set post \<Longrightarrow> unat (hnext h a) \<le> unat b"
proof -
  let ?e = "heap_mem_end h"
  have sp: "spaced (pre @ a # (post @ [?e]))" using heap_wfD(3) [OF wf] as by simp
  show "unat (hnext h b) \<le> unat a" if b: "b \<in> set pre"
  proof -
    obtain x y where x: "pre = x @ b # y" using b by (auto simp: in_set_conv_decomp)
    then have "hnext h b = hd (y @ a # post @ [?e])" using hnext_eq [OF wf, of x b "y @ a # post"] as by simp
    then have "hnext h b = a \<or> hnext h b \<in> set pre" using x by (cases y) auto
    then show ?thesis using spaced_before [OF sp, of "hnext h b"] by auto
  qed
  show "unat (hnext h a) \<le> unat b" if b: "b \<in> set post"
  proof -
    obtain z zs where z: "post = z # zs" using b by (cases post) auto
    have "spaced (pre @ a # (z # zs @ [?e]))" using sp z by simp
    then have "spaced (a # (z # zs @ [?e]))" using spaced_append [of pre a] by blast
    then have "spaced (z # (zs @ [?e]))" by simp
    then have "unat z \<le> unat b" using b z spaced_sorted [of z "zs @ [?e]" b] by auto
    then show ?thesis using hnext_eq [OF wf as] z by simp
  qed
qed

lemma taken_hnext:
  assumes wf: "heap_wf h as" "as = pre @ a # post" and sz: "sz < mem_len h a" "12 \<le> unat sz" "4 dvd unat sz"
    and nu: "\<not> hused h a" and b: "b \<in> set as" "b \<noteq> a"
  shows "hnext (taken h sz a) b = hnext h b"
proof -
  note wf' = taken_wf [OF assms(1-6)]
  from b wf(2) have "b \<in> set pre \<or> b \<in> set post" by auto
  then show ?thesis
  proof
    assume "b \<in> set pre"
    then obtain x y where x: "pre = x @ b # y" by (auto simp: in_set_conv_decomp)
    then show ?thesis
      using hnext_eq [OF wf', of x b "y @ a # take_hdrs h sz a post"] hnext_eq [OF wf(1), of x b "y @ a # post"] wf(2)
      by (cases y) simp_all
  next
    assume "b \<in> set post"
    then obtain x y where x: "post = x @ b # y" by (auto simp: in_set_conv_decomp)
    then show ?thesis
      using hnext_eq [OF wf', of "pre @ a # (if splits h sz a then rest_hdr sz a # x else x)" b y]
        hnext_eq [OF wf(1), of "pre @ a # x" b y] wf(2)
      by (simp add: take_hdrs_def split: if_splits)
  qed
qed

lemma free_ok_unique:
  assumes "free_ok h as" and "free_ok h2 as" and "\<And>b. b \<in> set as \<Longrightarrow> hused h b = hused h2 b"
  shows "heap_mem_free h = heap_mem_free h2"
proof -
  have f: "dropWhile (hused g) as = heap_mem_free g # post"
    if "as = pre @ heap_mem_free g # post" "\<not> hused g (heap_mem_free g)" "\<forall>a\<in>set pre. hused g a" for g pre post
    using that by (simp add: dropWhile_append2)
  have "dropWhile (hused h) as = dropWhile (hused h2) as" using assms(3) by (intro dropWhile_cong) auto
  with assms(1,2) f show ?thesis unfolding free_ok_def by (metis list.inject)
qed

text \<open>A heap of 1000 bytes at 0x1000.\<close>

definition blank_heap :: heap where
  "blank_heap = \<lparr>hlinks = \<lparr>next_of = \<lambda>x. x, prev_of = \<lambda>x. x\<rparr>, hused = (\<lambda>_. False), mem_total_size = 0,
     mem_used_size = 0, heap_mem_begin = 0, heap_mem_end = 0, heap_mem_free = 0\<rparr>"

lemma heap_init_spec:
  fixes h :: heap
  assumes "unat b + 3 < 2 ^ 32" and "unat e + 3 < 2 ^ 32" and "unat (ALIGN b) + 36 < unat (ALIGN e)"
  defines "h' \<equiv> heap_mem_init b e h"
  shows "heap_wf h' [ALIGN b]" and "free_ok h' [ALIGN b]"
    and "unat (mem_total_size h') = unat (ALIGN e) - unat (ALIGN b) - 24" and "mem_used_size h' = 0"
    and "heap_mem_begin h' = ALIGN b" and "heap_mem_end h' = ALIGN e - HEAP_HDR"
proof -
  let ?b = "ALIGN b" and ?e = "ALIGN e - HEAP_HDR"
  have d: "unat (ALIGN e - ALIGN b) = unat (ALIGN e) - unat (ALIGN b)" using assms(3) by (intro unat_sub_le) simp
  then have big: "\<not> ALIGN e - ALIGN b \<le> 2 * HEAP_HDR + MALLOC_MIN_SIZE"
    using assms(3) by (simp add: word_le_nat_alt HEAP_HDR_def MALLOC_MIN_SIZE_def)
  have e: "unat ?e = unat (ALIGN e) - 12"
    using assms(3) unat_sub_le [of HEAP_HDR "ALIGN e"] by (simp add: HEAP_HDR_def)
  then have gap: "unat ?b + 24 \<le> unat ?e" using assms(3) by simp
  then have ne: "?e \<noteq> ?b" by auto
  have h': "h' = h\<lparr>mem_total_size := ALIGN e - ALIGN b - 2 * HEAP_HDR, heap_mem_begin := ?b, heap_mem_end := ?e,
      hlinks := list_insert_head ?b ?e (list_init ?e (list_init ?b (hlinks h))),
      hused := (hused h)(?b := False, ?e := True), heap_mem_free := ?b, mem_used_size := 0\<rparr>"
    using big by (simp add: h'_def heap_mem_init_def upd_hlinks_def set_used_def Let_def)
  have "ring (list_init ?e (list_init ?b (hlinks h))) ?b []"
    using ne by (simp add: ring_def list_init_apply)
  from ring_insert [of _ _ "[]" "[]" ?e, simplified, OF this] ne
  have r: "ring (list_insert_head ?b ?e (list_init ?e (list_init ?b (hlinks h)))) ?b [?e]"
    by (simp add: list_insert_head_def list_init_apply)
  have "4 dvd unat (ALIGN e) - 12" using ALIGN_dvd [OF assms(2)] by (simp add: dvd_diff_nat)
  with r gap ne ALIGN_dvd [OF assms(1)] e show "heap_wf h' [ALIGN b]" by (simp add: heap_wf_def h')
  show "free_ok h' [ALIGN b]" unfolding free_ok_def using ne by (intro exI [of _ "[]"]) (simp add: h')
  show "unat (mem_total_size h') = unat (ALIGN e) - unat (ALIGN b) - 24"
    using d assms(3) unat_sub_le [of "2 * HEAP_HDR" "ALIGN e - ALIGN b"] by (simp add: h' HEAP_HDR_def)
  show "mem_used_size h' = 0" "heap_mem_begin h' = ALIGN b" "heap_mem_end h' = ALIGN e - HEAP_HDR"
    by (simp_all add: h')
qed


definition demo_heap :: heap where
  "demo_heap = heap_mem_init 0x1000 0x13e8 blank_heap"

lemma demo_align: "ALIGN 0x1000 = 0x1000" "ALIGN 0x13e8 = 0x13e8"
  by (simp_all add: ALIGN_def HW_ALIGN_SIZE_def)

lemma demo_heap_wf: "heap_wf demo_heap [0x1000]" "free_ok demo_heap [0x1000]"
  "unat (mem_total_size demo_heap) = 976" "mem_used_size demo_heap = 0"
  "heap_mem_begin demo_heap = 0x1000" "heap_mem_end demo_heap = 0x13dc"
  using heap_init_spec [of "0x1000" "0x13e8" blank_heap]
  by (simp_all add: demo_align demo_heap_def HEAP_HDR_def)

lemma demo_malloc:
  fixes sz :: os_u32
  assumes sz: "sz = 36 \<or> sz = 88 \<or> sz = 100"
  shows "\<exists>h'. heap_malloc sz demo_heap = Some (Some 0x100c, h')"
proof -
  have ms: "malloc_size sz = sz" using sz by (auto simp: malloc_size_def MALLOC_MIN_SIZE_def ALIGN_def HW_ALIGN_SIZE_def)
  have nx: "hnext demo_heap 0x1000 = 0x13dc"
    using hnext_eq [OF demo_heap_wf(1), of "[]" "0x1000" "[]"] by (simp add: demo_heap_wf)
  have ml: "mem_len demo_heap 0x1000 = 976" by (simp add: mem_len_def nx HEAP_HDR_def)
  have nu: "\<not> hused demo_heap 0x1000" using demo_heap_wf(2) by (auto simp: free_ok_def Cons_eq_append_conv)
  have sp: "splits demo_heap sz 0x1000" using sz by (auto simp: splits_def ml HEAP_HDR_def MALLOC_MIN_SIZE_def)
  have "\<not> hused (taken demo_heap sz 0x1000) (rest_hdr sz 0x1000)"
    using sp sz by (auto simp: taken_used rest_hdr_def HEAP_HDR_def)
  with heap_take_spec [OF demo_heap_wf(1,2), of "[]" "0x1000" "[]" sz] nu ml sp sz
  have "\<exists>h'. heap_take sz 0x1000 demo_heap = Some (0x100c, h')"
    by (auto simp: take_hdrs_def HEAP_HDR_def split: if_splits)
  moreover have "find (fits demo_heap sz) [0x1000] = Some 0x1000" using nu ml sz by (auto simp: fits_def)
  moreover have "mem_total_size demo_heap = 976"
    using demo_heap_wf(3) by (intro word_unat_eq_iff [THEN iffD2]) simp
  ultimately show ?thesis
    using heap_malloc_eq [OF demo_heap_wf(1,2), of sz] sz ms by (auto simp: demo_heap_wf(4))
qed

text \<open>The block handed out ends before the next header.\<close>

lemma malloc_room:
  assumes wf: "heap_wf h as" and as: "as = pre @ a # post" and fit: "fits h sz a" and al: "12 \<le> unat sz"
    and h': "h' = (taken h sz a)\<lparr>heap_mem_free := f\<rparr>" and wf': "heap_wf h' (pre @ a # take_hdrs h sz a post)"
  shows "unat (a + HEAP_HDR) + unat sz \<le> unat (hnext h' a)"
proof -
  note bp = block_pointer [OF wf' refl]
  have lt: "sz < mem_len h a" using fit by (simp add: fits_def)
  show ?thesis
  proof (cases "splits h sz a")
    case True
    then have "hnext h' a = rest_hdr sz a" using hnext_eq [OF wf' refl] by (simp add: take_hdrs_def)
    then show ?thesis using splits_bound(1) [OF wf as lt al True] bp(1) by simp
  next
    case False
    then have "hnext h' a = hnext h a"
      using hnext_eq [OF wf' refl] hnext_eq [OF wf as] by (simp add: take_hdrs_def h')
    then show ?thesis using lt unat_mem_len [OF wf as] bp(1) by (simp add: word_less_nat_alt)
  qed
qed

lemma malloc_fresh:
  assumes "heap_wf h as" and "free_ok h as" and "sz \<noteq> 0" and "unat sz + 3 < 2 ^ 32"
    and "heap_malloc sz h = Some (Some p, h')"
  shows "\<exists>as'. heap_wf h' as' \<and> free_ok h' as' \<and> ALIGN p = p \<and>
     p - HEAP_HDR \<in> set as \<and> \<not> hused h (p - HEAP_HDR) \<and> hused h' (p - HEAP_HDR) \<and> p - HEAP_HDR \<in> set as' \<and>
     heap_mem_begin h < p \<and> unat p + unat sz \<le> unat (hnext h' (p - HEAP_HDR)) \<and>
     unat (hnext h' (p - HEAP_HDR)) \<le> unat (heap_mem_end h) \<and>
     (\<forall>b\<in>set as. hused h b \<longrightarrow> b \<in> set as' \<and> hused h' b \<and> hnext h' b = hnext h b \<and>
        (unat (hnext h b) \<le> unat p - 12 \<or> unat p + unat sz \<le> unat b))"
proof -
  let ?sz = "malloc_size sz"
  from heap_malloc_run [OF assms] obtain pre a post f where as: "as = pre @ a # post"
    and fit: "fits h ?sz a" and p: "p = a + HEAP_HDR" and h': "h' = (taken h ?sz a)\<lparr>heap_mem_free := f\<rparr>"
    and wf': "heap_wf h' (pre @ a # take_hdrs h ?sz a post)" "free_ok h' (pre @ a # take_hdrs h ?sz a post)"
    by blast
  note ms = malloc_size_facts [OF assms(4)] and bp = block_pointer [OF wf'(1) refl]
  have lt: "?sz < mem_len h a" and nu: "\<not> hused h a" using fit by (auto simp: fits_def)
  have room: "unat p + unat ?sz \<le> unat (hnext h' a)"
    using malloc_room [OF assms(1) as fit ms(1) h' wf'(1)] p by simp
  have others: "b \<in> set (pre @ a # take_hdrs h ?sz a post) \<and> hused h' b \<and> hnext h' b = hnext h b \<and> (unat (hnext h b) \<le> unat p - 12 \<or> unat p + unat sz \<le> unat b)"
    if b: "b \<in> set as" "hused h b" for b
  proof -
    have ba: "b \<noteq> a" using b(2) nu by auto
    note tn = taken_hnext [OF assms(1) as lt ms(1,2) nu b(1) ba]
    have "b \<in> set pre \<or> b \<in> set (take_hdrs h ?sz a post)" using b(1) as ba by (auto simp: take_hdrs_def)
    then have "unat (hnext h' b) \<le> unat a \<or> unat (hnext h' a) \<le> unat b" using hdr_order [OF wf'(1) refl] by blast
    then have "unat (hnext h b) \<le> unat p - 12 \<or> unat p + unat sz \<le> unat b"
      using room ms(3) tn bp(1) p h' by auto
    moreover have "hused h' b" using b rest_not_hdr [OF assms(1) as lt ms(1)] by (auto simp: h' taken_used)
    moreover have "b \<in> set (pre @ a # take_hdrs h ?sz a post)"
      using b(1) as by (auto simp: take_hdrs_def)
    ultimately show ?thesis using tn h' by simp
  qed
  have pa: "p - HEAP_HDR = a" using bp(5) p by simp
  have "hused h' a" by (simp add: h' taken_used)
  then show ?thesis
    using wf' bp nu as room ms(3) others unfolding pa by (intro exI [of _ "pre @ a # take_hdrs h ?sz a post"])
      (auto simp: p h')
qed

text \<open>
  C14. What \<^verbatim>\<open>malloc\<close> returns is a proper block: it is aligned, lies inside the heap, offers the requested
  number of bytes before the next header, and overlaps no block that was in use, all of which keep their
  place and extent; and the allocator's invariant (headers in address order, no two
  free neighbours, \<^verbatim>\<open>heap_mem_free\<close> the first free one) is preserved.
\<close>
theorem malloc_returns_fresh_block:
  assumes "heap_wf h as" and "free_ok h as" and "sz \<noteq> 0" and "unat sz + 3 < 2 ^ 32"
    and "heap_malloc sz h = Some (Some p, h')"
  shows "\<exists>as'. heap_wf h' as' \<and> free_ok h' as' \<and> ALIGN p = p \<and>
     p - HEAP_HDR \<in> set as \<and> \<not> hused h (p - HEAP_HDR) \<and> hused h' (p - HEAP_HDR) \<and>
     heap_mem_begin h < p \<and> unat p + unat sz \<le> unat (hnext h' (p - HEAP_HDR)) \<and>
     unat (hnext h' (p - HEAP_HDR)) \<le> unat (heap_mem_end h) \<and>
     (\<forall>b\<in>set as. hused h b \<longrightarrow> hused h' b \<and> hnext h' b = hnext h b \<and>
        (unat (hnext h b) \<le> unat p - 12 \<or> unat p + unat sz \<le> unat b))"
  using malloc_fresh [OF assms] by blast

theorem malloc_returns_fresh_block_witness:
  "\<exists>h'. heap_malloc 100 demo_heap = Some (Some 0x100c, h') \<and> unat (0x100c :: addr) + 100 \<le> unat (hnext h' 0x1000)"
proof -
  obtain h' where h': "heap_malloc 100 demo_heap = Some (Some 0x100c, h')" using demo_malloc [of 100] by auto
  from malloc_returns_fresh_block [OF demo_heap_wf(1,2) _ _ h'] show ?thesis
    using h' by (auto simp: HEAP_HDR_def)
qed


text \<open>
  C15. When \<^verbatim>\<open>malloc\<close> fails: it answers NULL, leaving the heap as it was, exactly when the request exceeds the
  accounted free memory or no free block is strictly larger than the rounded request;
  otherwise it takes the first such block, except that it never returns (the kernel assertion fails) when
  that leaves no free block at all.
\<close>
theorem malloc_outcome:
  assumes "heap_wf h as" and "free_ok h as" and "sz \<noteq> 0" and "unat sz + 3 < 2 ^ 32"
  defines "refused \<equiv> malloc_size sz > mem_total_size h - mem_used_size h \<or>
      (\<forall>a\<in>set as. \<not> fits h (malloc_size sz) a)"
  defines "last_one \<equiv> \<exists>a\<in>set as. fits h (malloc_size sz) a \<and> \<not> splits h (malloc_size sz) a \<and>
      (\<forall>b\<in>set as. b \<noteq> a \<longrightarrow> hused h b)"
  shows "if refused then heap_malloc sz h = Some (None, h)
     else if last_one then heap_malloc sz h = None
     else \<exists>a h'. heap_malloc sz h = Some (Some (a + HEAP_HDR), h') \<and> find (fits h (malloc_size sz)) as = Some a"
proof -
  let ?sz = "malloc_size sz"
  note eq = heap_malloc_eq [OF assms(1-4)] and ms = malloc_size_facts [OF assms(4)]
  show ?thesis
  proof (cases refused)
    case True
    then have "heap_malloc sz h = Some (None, h)"
      using eq unfolding refused_def
      by (auto simp: find_None_iff [THEN iffD2] split: option.splits dest: find_Some_iff [THEN iffD1])
    with True show ?thesis by simp
  next
    case False
    then obtain a where f: "find (fits h ?sz) as = Some a"
      unfolding refused_def by (cases "find (fits h ?sz) as") (auto simp: find_None_iff)
    from find_first [OF f] obtain pre post where as: "as = pre @ a # post" and fit: "fits h ?sz a" by blast
    then have nu: "\<not> hused h a" and lt: "?sz < mem_len h a" by (auto simp: fits_def)
    note ts = heap_take_spec [OF assms(1,2) as nu lt ms(1,2)]
    have dist: "distinct as" using spaced_distinct [OF heap_wfD(3) [OF assms(1)]] by simp
    have hm: "heap_malloc sz h = map_option (\<lambda>(p, h). (Some p, h)) (heap_take ?sz a h)"
      using eq f False by (simp add: refused_def)
    have key: "(\<exists>b\<in>set (pre @ a # take_hdrs h ?sz a post). \<not> hused (taken h ?sz a) b) \<longleftrightarrow>
        splits h ?sz a \<or> (\<exists>b\<in>set as. b \<noteq> a \<and> \<not> hused h b)"
    proof (cases "splits h ?sz a")
      case True
      moreover have "rest_hdr ?sz a \<noteq> a" using rest_not_hdr [OF assms(1) as lt ms(1) True] as by auto
      ultimately show ?thesis by (auto simp: take_hdrs_def taken_used)
    next
      case False
      then show ?thesis using as by (auto simp: take_hdrs_def taken_used)
    qed
    have "last_one \<longleftrightarrow> \<not> splits h ?sz a \<and> (\<forall>b\<in>set as. b \<noteq> a \<longrightarrow> hused h b)"
      unfolding last_one_def using as nu fit by (auto simp: fits_def)
    then show ?thesis using ts key hm f False by (auto split: if_splits)
  qed
qed

theorem malloc_outcome_witness: "heap_malloc 0x2000 demo_heap = Some (None, demo_heap)"
proof -
  have "malloc_size 0x2000 = 0x2000"
    by (simp add: malloc_size_def MALLOC_MIN_SIZE_def ALIGN_def HW_ALIGN_SIZE_def)
  moreover have "mem_total_size demo_heap = 976"
    using demo_heap_wf(3) by (intro word_unat_eq_iff [THEN iffD2]) simp
  ultimately show ?thesis
    using malloc_outcome [OF demo_heap_wf(1,2), of "0x2000"] by (simp add: demo_heap_wf(4))
qed

text \<open>
  Freeing a block in use returns, marks it free, merges it with its free neighbours, leaves every other
  block's state unchanged and keeps the allocator's invariant.
\<close>
theorem free_releases_block:
  assumes "heap_wf h as" and "free_ok h as" and "a \<in> set as" and "hused h a"
  shows "\<exists>h' as'. heap_free (a + HEAP_HDR) h = Some h' \<and> heap_wf h' as' \<and> free_ok h' as' \<and>
     set as' \<subseteq> set as \<and> (\<forall>b\<in>set as. b \<noteq> a \<longrightarrow> hused h' b = hused h b) \<and> \<not> hused h' a \<and>
     (\<forall>b\<in>set as. b \<noteq> a \<and> hused h b \<longrightarrow> b \<in> set as')"
proof -
  obtain pre post where as: "as = pre @ a # post" using assms(3) by (auto simp: in_set_conv_decomp)
  note bp = block_pointer [OF assms(1) as] and fs = freed_spec [OF assms(1,2) as assms(4)]
  have "heap_free (a + HEAP_HDR) h = Some (freed h a)"
    using heap_free_eq [OF bp(2,3,4)] assms(4) by (simp add: bp(5))
  moreover have "b \<in> set (merged (hused h) pre a post)" if "b \<in> set as" "b \<noteq> a" "hused h b" for b
  proof -
    have "b \<in> set pre \<or> b \<in> set post" using that(1,2) as by auto
    then show ?thesis using that(3) by (cases post) (auto simp: merged_def)
  qed
  ultimately show ?thesis using fs merged_subset [of "hused h" pre a post] as
    by (intro exI [of _ "freed h a"] exI [of _ "merged (hused h) pre a post"]) auto
qed

theorem free_releases_block_witness:
  "\<exists>h h'. heap_malloc 100 demo_heap = Some (Some 0x100c, h) \<and> heap_free 0x100c h = Some h' \<and> \<not> hused h' 0x1000"
proof -
  obtain h where h: "heap_malloc 100 demo_heap = Some (Some 0x100c, h)" using demo_malloc [of 100] by auto
  have "(100 :: os_u32) \<noteq> 0" "unat (100 :: os_u32) + 3 < 2 ^ 32" by simp_all
  from heap_malloc_run [OF demo_heap_wf(1,2) this h] obtain pre a post f where
    m: "[0x1000] = pre @ a # post" "h = (taken demo_heap (malloc_size 100) a)\<lparr>heap_mem_free := f\<rparr>"
    "heap_wf h (pre @ a # take_hdrs demo_heap (malloc_size 100) a post)"
    "free_ok h (pre @ a # take_hdrs demo_heap (malloc_size 100) a post)"
    by metis
  then have "a = 0x1000" by (cases pre) auto
  with free_releases_block [OF m(3,4), of a] m(2) h show ?thesis
    by (auto simp: taken_used HEAP_HDR_def)
qed


lemma malloc_free_restores:
  assumes "heap_wf h as" and "free_ok h as" and "sz \<noteq> 0" and "unat sz + 3 < 2 ^ 32"
    and "heap_malloc sz h = Some (Some p, h')"
  shows "\<exists>h''. heap_free p h' = Some h'' \<and> heap_wf h'' as \<and> free_ok h'' as \<and>
     (\<forall>b\<in>set as. hused h'' b = hused h b) \<and> heap_mem_free h'' = heap_mem_free h \<and>
     mem_used_size h'' = mem_used_size h -
       (if splits h (malloc_size sz) (p - HEAP_HDR) then 0 else mem_len h (p - HEAP_HDR) - malloc_size sz)"
proof -
  let ?sz = "malloc_size sz"
  from heap_malloc_run [OF assms] obtain pre a post f where as: "as = pre @ a # post"
    and fit: "fits h ?sz a" and p: "p = a + HEAP_HDR" and h': "h' = (taken h ?sz a)\<lparr>heap_mem_free := f\<rparr>"
    and wf': "heap_wf h' (pre @ a # take_hdrs h ?sz a post)" "free_ok h' (pre @ a # take_hdrs h ?sz a post)"
    by blast
  have nu: "\<not> hused h a" and lt: "?sz < mem_len h a" using fit by (auto simp: fits_def)
  note ms = malloc_size_facts [OF assms(4)] and bp = block_pointer [OF wf'(1) refl]
  have ua: "hused h' a" by (simp add: h' taken_used)
  note fs = freed_spec [OF wf' refl ua]
  have pa: "p - HEAP_HDR = a" using bp(5) p by simp
  have run: "heap_free p h' = Some (freed h' a)"
    using heap_free_eq [OF bp(2,3,4)] ua unfolding p [symmetric] pa by simp
  have ntf: "no_two_free (hused h) (pre @ [a])" "no_two_free (hused h) (a # post)"
    using heap_wfD(4) [OF assms(1)] as no_two_free_append by blast+
  have dist: "distinct as" using spaced_distinct [OF heap_wfD(3) [OF assms(1)]] by simp
  have rest: "rest_hdr ?sz a \<notin> set as" if "splits h ?sz a" using rest_not_hdr [OF assms(1) as lt ms(1) that] by simp
  have up: "hused h' b = hused h b" if "b \<in> set as" "b \<noteq> a" for b
    using that rest by (auto simp: h' taken_used)
  have m: "merged (hused h') pre a (take_hdrs h ?sz a post) = as"
  proof -
    have "hused h' (last pre)" if "pre \<noteq> []"
      using no_two_free_last [OF ntf(1) that] nu up [of "last pre"] that dist as last_in_set [OF that] by auto
    moreover have "hused h' (hd post)" if "post \<noteq> []"
      using ntf(2) nu up [of "hd post"] that dist as by (cases post) auto
    moreover have "splits h ?sz a \<Longrightarrow> \<not> hused h' (rest_hdr ?sz a)"
      using rest as by (auto simp: h' taken_used)
    ultimately show ?thesis by (auto simp: merged_def take_hdrs_def as)
  qed
  have used: "hused (freed h' a) b = hused h b" if "b \<in> set as" for b
    using that up nu by (cases "b = a") (simp_all add: fs(3))
  have ok: "free_ok (freed h' a) as" using fs(2) m by simp
  have "heap_mem_free (freed h' a) = heap_mem_free h"
    using free_ok_unique [OF ok assms(2)] used dist by blast
  moreover have "mem_used_size (freed h' a) = mem_used_size h + (?sz + HEAP_HDR) - (hnext h' a - a)"
    by (simp add: freed_def Let_def h')
  moreover have "hnext h' a - a = (if splits h ?sz a then ?sz + HEAP_HDR else mem_len h a + HEAP_HDR)"
    using hnext_eq [OF wf'(1) refl] hnext_eq [OF assms(1) as]
    by (auto simp: take_hdrs_def rest_hdr_def mem_len_def h')
  ultimately show ?thesis
    using run fs(1) m ok used unfolding pa by (intro exI [of _ "freed h' a"]) auto
qed

text \<open>
  C16. Allocating and freeing is a round trip: freeing what \<^verbatim>\<open>malloc\<close> just returned restores the list of headers, the
  state of every block and the first-free pointer; the accounted usage comes back exactly when the
  block had been split, and otherwise ends up too small by the unsplit remainder.
\<close>
theorem malloc_free_roundtrip:
  assumes "heap_wf h as" and "free_ok h as" and "sz \<noteq> 0" and "unat sz + 3 < 2 ^ 32"
    and "heap_malloc sz h = Some (Some p, h')"
  shows "\<exists>h''. heap_free p h' = Some h'' \<and> heap_wf h'' as \<and> free_ok h'' as \<and>
     (\<forall>b\<in>set as. hused h'' b = hused h b) \<and> heap_mem_free h'' = heap_mem_free h \<and>
     mem_used_size h'' = mem_used_size h -
       (if splits h (malloc_size sz) (p - HEAP_HDR) then 0 else mem_len h (p - HEAP_HDR) - malloc_size sz)"
  using malloc_free_restores [OF assms] .

theorem malloc_free_roundtrip_witness:
  "\<exists>h h'. heap_malloc 100 demo_heap = Some (Some 0x100c, h) \<and> heap_free 0x100c h = Some h' \<and> heap_wf h' [0x1000]"
proof -
  obtain h where h: "heap_malloc 100 demo_heap = Some (Some 0x100c, h)" using demo_malloc [of 100] by auto
  from malloc_free_roundtrip [OF demo_heap_wf(1,2) _ _ h] h show ?thesis by auto
qed

text \<open>
  A request within three bytes of the address-space size is not refused: the rounding wraps to 0, and
  \<^verbatim>\<open>malloc\<close> hands out the address at which it has just put the header of the next free block, so that the
  first write to the ``allocated'' memory destroys the allocator's own data.
\<close>
theorem malloc_huge_request_overlaps_header:
  assumes "heap_wf h as" and "free_ok h as" and "unat sz \<ge> 2 ^ 32 - 3" and "24 < unat (mem_len h (heap_mem_free h))"
  defines "f \<equiv> heap_mem_free h"
  shows "\<exists>h'. heap_malloc sz h = Some (Some (f + HEAP_HDR), h') \<and> hnext h' f = f + HEAP_HDR \<and>
     heap_mem_free h' = f + HEAP_HDR \<and> \<not> hused h' (f + HEAP_HDR)"
proof -
  from assms(2) obtain pre post where as: "as = pre @ f # post" and nu: "\<not> hused h f"
    by (auto simp: free_ok_def f_def)
  note bp = block_pointer [OF assms(1) as]
  have fe: "f \<noteq> heap_mem_end h" "f + HEAP_HDR \<noteq> heap_mem_end h" "f + HEAP_HDR \<noteq> f"
    using end_not_hdr [OF assms(1)] as bp(3) by (auto simp: HEAP_HDR_def)
  have "unat (sz + 3) < 4"
    using assms(3) unat_less_32 [of sz] by (simp add: unat_word_ariths le_mod_geq)
  then have "unat ((sz + 3) AND - 4) = 0" by (simp add: unat_and_minus_4)
  moreover have "\<not> sz < MALLOC_MIN_SIZE" using assms(3) by (simp add: MALLOC_MIN_SIZE_def word_less_nat_alt)
  ultimately have ms: "malloc_size sz = 0"
    by (simp add: malloc_size_def ALIGN_def HW_ALIGN_SIZE_def unat_eq_0 add.commute)
  have sp: "splits h 0 f"
    using assms(4) by (simp add: splits_def HEAP_HDR_def MALLOC_MIN_SIZE_def word_less_nat_alt f_def)
  have "0 < mem_len h f" using assms(4) by (simp add: word_less_nat_alt f_def)
  then have scan: "heap_scan h 0 f = Some (Some f)" using nu fe(1) by (simp add: heap_scan.simps [of h 0 f])
  let ?t = "taken h 0 f" and ?c = "f + HEAP_HDR"
  have t: "hused ?t f" "\<not> hused ?t ?c" "hnext ?t f = ?c"
    using sp fe(3) by (simp_all add: taken_used rest_hdr_def)
      (simp add: taken_def Let_def rest_hdr_def list_insert_head_def list_insert_apply)
  have "heap_advance ?t f = Some ?c"
    using t fe(1) by (simp add: heap_advance.simps [of ?t f] heap_advance.simps [of ?t ?c])
  then have "heap_take 0 f h = Some (?c, ?t\<lparr>heap_mem_free := ?c\<rparr>)"
    using t(2) fe(2) by (simp add: heap_take_eq f_def)
  moreover have "sz \<noteq> 0" using assms(3) by auto
  ultimately have "heap_malloc sz h = Some (Some ?c, ?t\<lparr>heap_mem_free := ?c\<rparr>)"
    using scan by (simp add: heap_malloc_def ms f_def)
  then show ?thesis using t by auto
qed

theorem malloc_huge_request_overlaps_header_witness:
  "\<exists>h'. heap_malloc 0xfffffffe demo_heap = Some (Some 0x100c, h') \<and> hnext h' 0x1000 = 0x100c"
proof -
  have f: "heap_mem_free demo_heap = 0x1000" using demo_heap_wf(2) by (auto simp: free_ok_def Cons_eq_append_conv)
  have "hnext demo_heap 0x1000 = 0x13dc"
    using hnext_eq [OF demo_heap_wf(1), of "[]" "0x1000" "[]"] by (simp add: demo_heap_wf)
  then have "mem_len demo_heap 0x1000 = 976" by (simp add: mem_len_def HEAP_HDR_def)
  then show ?thesis
    using malloc_huge_request_overlaps_header [OF demo_heap_wf(1,2), of "0xfffffffe"] f by (auto simp: HEAP_HDR_def)
qed

end
