(* ===== verification/Pthread.thy ===== *)
theory Pthread
  imports Mutex Heap_Mem
begin

text \<open>
  Threads: \<^verbatim>\<open>malloc\<close>, \<^verbatim>\<open>zalloc\<close>, \<^verbatim>\<open>calloc\<close> and \<^verbatim>\<open>free\<close> of \<^verbatim>\<open>stdlib.c\<close> with the heap mutex they
  take, the thread attributes and the creation of threads of \<^verbatim>\<open>hwutil/kernel/source/pthread.c\<close>, the
  initial stack frame of \<^verbatim>\<open>bsp/arch/ARM/Cortex-M7/cpuport/source/cpuport.c\<close>, and the idle thread of
  \<^verbatim>\<open>idle.c\<close>.

  The kernel state is extended by the heap, the address of the static heap mutex and a store of
  32-bit words for the stack frames. \<open>env\<close> is what happens while the caller is blocked on the heap
  mutex, as in \<open>Mutex\<close>. Addresses fixed by the linker (the exit trampoline, the idle
  thread's stack) are arguments.
\<close>

section \<open>The heap behind its mutex\<close>

record kernel = kstate +
  heap :: heap
  heap_mem_mutex :: addr
  mem32 :: "addr \<Rightarrow> os_u32"

type_synonym 'a kenv = "'a kernel_scheme \<Rightarrow> 'a kernel_scheme option"

definition malloc :: "'a kenv \<Rightarrow> os_u32 \<Rightarrow> 'a kernel_scheme \<Rightarrow> (addr \<times> 'a kernel_scheme) option" where
  "malloc env sz s =
     (if sz = 0 then Some (NULL, s)
      else let sz = malloc_size sz
           in if sz > mem_total_size (heap s) - mem_used_size (heap s) then Some (NULL, s)
              else do {
                (ret, s) \<leftarrow> pthread_mutex_lock env (heap_mem_mutex s) s;
                found \<leftarrow> heap_scan (heap s) sz (heap_mem_free (heap s));
                case found of
                  None \<Rightarrow> do {
                    (ret, s) \<leftarrow> pthread_mutex_unlock (heap_mem_mutex s) s;
                    Some (NULL, s)
                  }
                | Some mem_ptr \<Rightarrow> do {
                    (p, h) \<leftarrow> heap_take sz mem_ptr (heap s);
                    (ret, s) \<leftarrow> pthread_mutex_unlock (heap_mem_mutex s) (s\<lparr>heap := h\<rparr>);
                    Some (p, s)
                  }
              })"

definition calloc :: "'a kenv \<Rightarrow> os_u32 \<Rightarrow> os_u32 \<Rightarrow> 'a kernel_scheme \<Rightarrow> (addr \<times> 'a kernel_scheme) option" where
  "calloc env num sz s = malloc env (sz * num) s"

text \<open>
  \<^verbatim>\<open>free\<close>: the checks before the lock, the release under it. (\<open>heap_free\<close> repeats the checks,
  which the state after the lock still passes when nobody else frees the block.)
\<close>

definition free :: "'a kenv \<Rightarrow> addr \<Rightarrow> 'a kernel_scheme \<Rightarrow> 'a kernel_scheme option" where
  "free env mem s =
     (if mem = NULL then Some s
      else if mem \<le> heap_mem_begin (heap s) \<or> mem \<ge> heap_mem_end (heap s) then Some s
      else if mem \<noteq> ALIGN mem then None
      else if \<not> hused (heap s) (mem - HEAP_HDR) then None
      else do {
        (ret, s) \<leftarrow> pthread_mutex_lock env (heap_mem_mutex s) s;
        (ret, s) \<leftarrow> pthread_mutex_unlock (heap_mem_mutex s) (s\<lparr>heap := freed (heap s) (mem - HEAP_HDR)\<rparr>);
        Some s
      })"

section \<open>Thread attributes\<close>

record sched_param =
  sp_type :: os_u8
  sp_init_ticks :: os_u8
  sp_init_prio :: os_u8

record pthread_attr =
  at_type :: os_u8
  at_init_ticks :: os_u8
  at_init_prio :: os_u8
  at_stk_addr :: addr
  at_stk_size :: os_u32

definition PTHREAD_STACK_SIZE_MIN :: os_u32 where "PTHREAD_STACK_SIZE_MIN = 256"

definition pthread_type_ok :: "os_u8 \<Rightarrow> bool" where
  "pthread_type_ok t \<longleftrightarrow> t = PTHREAD_TYPE_USER \<or> t = PTHREAD_TYPE_IDLE \<or> t = PTHREAD_TYPE_KERNEL"

definition pthread_attr_setstack :: "pthread_attr \<Rightarrow> addr \<Rightarrow> os_u32 \<Rightarrow> err_t \<times> pthread_attr" where
  "pthread_attr_setstack attr stack_addr stack_size =
     (if stack_size < PTHREAD_STACK_SIZE_MIN then (- EINVAL, attr)
      else if \<not> PHYS_ADDR_ALIGN stack_addr then (- EINVAL, attr)
      else (0, attr\<lparr>at_stk_addr := stack_addr, at_stk_size := stack_size\<rparr>))"

definition pthread_attr_setstacksize :: "pthread_attr \<Rightarrow> os_u32 \<Rightarrow> err_t \<times> pthread_attr" where
  "pthread_attr_setstacksize attr stack_size =
     (if stack_size \<le> PTHREAD_STACK_SIZE_MIN then (- EINVAL, attr)
      else (0, attr\<lparr>at_stk_addr := NULL, at_stk_size := stack_size\<rparr>))"

definition pthread_attr_setschedparam :: "pthread_attr \<Rightarrow> sched_param \<Rightarrow> err_t \<times> pthread_attr" where
  "pthread_attr_setschedparam attr param =
     (if \<not> pthread_type_ok (sp_type param) then (- EINVAL, attr)
      else if sp_init_prio param > PTHREAD_PRIORITY_MAX then (- EINVAL, attr)
      else if sp_init_ticks param = 0 then (- EINVAL, attr)
      else (0, attr\<lparr>at_type := sp_type param, at_init_prio := sp_init_prio param,
                    at_init_ticks := sp_init_ticks param\<rparr>))"

definition pthread_attr_check :: "pthread_attr option \<Rightarrow> bool" where
  "pthread_attr_check pthread_attr =
     (case pthread_attr of None \<Rightarrow> True
      | Some a \<Rightarrow>
          if at_stk_addr a \<noteq> NULL \<and> \<not> PHYS_ADDR_ALIGN (at_stk_addr a) then False
          else if at_stk_size a < PTHREAD_STACK_SIZE_MIN then False
          else if at_init_prio a > PTHREAD_PRIORITY_MAX then False
          else if at_init_ticks a = 0 then False
          else if \<not> pthread_type_ok (at_type a) then False
          else True)"

section \<open>Creating a thread\<close>

definition STDOBJ_NAME_MAX :: nat where "STDOBJ_NAME_MAX = 12"

definition pthread_setname_np :: "addr \<Rightarrow> (nat \<Rightarrow> os_u8) \<Rightarrow> 'a kstate_scheme \<Rightarrow> err_t \<times> 'a kstate_scheme" where
  "pthread_setname_np pthread name s =
     (0, upd_thread pthread (\<lambda>x. x\<lparr>th_name := map name [0..<STDOBJ_NAME_MAX - 1] @ [0]\<rparr>) s)"

text \<open>\<^verbatim>\<open>sizeof(struct stack_frame)\<close> without the FPU: r4-r11, then r0-r3, r12, lr, pc, psr.\<close>

definition STACK_FRAME_WORDS :: nat where "STACK_FRAME_WORDS = 16"

definition pthread_hw_stack_init :: "addr \<Rightarrow> addr \<Rightarrow> addr \<Rightarrow> addr \<Rightarrow> (addr \<Rightarrow> os_u32) \<Rightarrow> addr \<times> (addr \<Rightarrow> os_u32)" where
  "pthread_hw_stack_init entry paramter stack exit m =
     (let stk = stack + 4;
          stk = ALIGN stk;
          stk = stk - 64;
          m = fold (\<lambda>i m. m(stk + 4 * of_nat i := 0xdeadbeef)) [0..<STACK_FRAME_WORDS] m;
          m = m(stk + 32 := paramter);
          m = m(stk + 36 := 0);
          m = m(stk + 40 := 0);
          m = m(stk + 44 := 0);
          m = m(stk + 48 := 0);
          m = m(stk + 52 := exit);
          m = m(stk + 56 := entry);
          m = m(stk + 60 := 0x01000000)
      in (stk, m))"

definition zero_pthread :: os_pthread where
  "zero_pthread =
     \<lparr>th_type = 0, th_status = 0, th_name = replicate STDOBJ_NAME_MAX 0, th_sp = 0, th_int_sp = 0,
      th_init_ticks = 0, th_cur_ticks = 0, th_sleep_ticks = 0, th_init_prio = 0, th_cur_prio = 0,
      th_prio_mask = 0, th_start_routine = 0, th_arg = 0, th_ret = 0, th_stk_addr = 0, th_stk_size = 0\<rparr>"

definition SIZEOF_PTHREAD :: os_u32 where "SIZEOF_PTHREAD = 88"

text \<open>\<^verbatim>\<open>zalloc(sizeof(os_pthread_t))\<close>: the object at the returned address is all zeros.\<close>

definition zalloc_pthread :: "'a kenv \<Rightarrow> 'a kernel_scheme \<Rightarrow> (addr \<times> 'a kernel_scheme) option" where
  "zalloc_pthread env s =
     do {
       (p, s) \<leftarrow> malloc env SIZEOF_PTHREAD s;
       Some (p, if p \<noteq> NULL then upd_thread p (\<lambda>_. zero_pthread) s else s)
     }"

definition default_attr :: pthread_attr where
  "default_attr = \<lparr>at_type = PTHREAD_TYPE_USER, at_init_ticks = 1, at_init_prio = 16, at_stk_addr = NULL,
     at_stk_size = 512\<rparr>"

definition pthread_setup :: "addr \<Rightarrow> pthread_attr \<Rightarrow> addr \<Rightarrow> addr \<Rightarrow> addr \<Rightarrow> addr \<Rightarrow> 'a kernel_scheme \<Rightarrow> 'a kernel_scheme" where
  "pthread_setup exit_entry a start_routine arg pthread stk_addr s =
     (let s = upd_thread pthread (\<lambda>x. x\<lparr>th_stk_addr := stk_addr\<rparr>) s;
          s = upd_links (list_init (Thread_node pthread)) s;
          s = upd_links (list_init (Sigevent_head pthread)) s;
          s = upd_links (list_init (Sig_head pthread)) s;
          s = upd_thread pthread (\<lambda>x. x\<lparr>th_start_routine := start_routine, th_arg := arg,
                th_stk_size := at_stk_size a, th_init_prio := at_init_prio a\<rparr>) s;
          s = upd_thread pthread (\<lambda>x. x\<lparr>th_cur_prio := th_init_prio x\<rparr>) s;
          s = upd_thread pthread (\<lambda>x. x\<lparr>th_prio_mask := push_bit (unat (th_cur_prio x)) 1,
                th_init_ticks := at_init_ticks a\<rparr>) s;
          s = upd_thread pthread (\<lambda>x. x\<lparr>th_cur_ticks := th_init_ticks x,
                th_status := PTHREAD_STATE_INIT, th_type := at_type a\<rparr>) s;
          x = thr s pthread;
          (sp, m) = pthread_hw_stack_init (th_start_routine x) (th_arg x)
                      (th_stk_addr x + th_stk_size x - 4) exit_entry (mem32 s);
          s = s\<lparr>mem32 := m\<rparr>
      in upd_thread pthread (\<lambda>x. x\<lparr>th_sp := sp\<rparr>) s)"

definition os_pthread_create :: "'a kenv \<Rightarrow> addr \<Rightarrow> pthread_attr option \<Rightarrow> addr \<Rightarrow> addr \<Rightarrow>
    'a kernel_scheme \<Rightarrow> (addr \<times> 'a kernel_scheme) option" where
  "os_pthread_create env exit_entry pthread_attr start_routine arg s =
     (let a = (case pthread_attr of None \<Rightarrow> default_attr | Some a \<Rightarrow> a)
      in do {
        (pthread, s) \<leftarrow> zalloc_pthread env s;
        if pthread = NULL then Some (NULL, s)
        else if at_stk_addr a = NULL
        then do {
          (stk, s) \<leftarrow> malloc env (at_stk_size a) s;
          let s = upd_thread pthread (\<lambda>x. x\<lparr>th_stk_addr := stk\<rparr>) s;
          if stk = NULL then do { s \<leftarrow> free env pthread s; Some (NULL, s) }
          else Some (pthread, pthread_setup exit_entry a start_routine arg pthread stk s)
        }
        else Some (pthread, pthread_setup exit_entry a start_routine arg pthread (at_stk_addr a) s)
      })"

text \<open>The thread handle is only written on success.\<close>

definition pthread_create :: "'a kenv \<Rightarrow> addr \<Rightarrow> pthread_attr option \<Rightarrow> addr \<Rightarrow> addr \<Rightarrow>
    'a kernel_scheme \<Rightarrow> (err_t \<times> addr option \<times> 'a kernel_scheme) option" where
  "pthread_create env exit_entry pthread_attr start_routine arg s =
     (if \<not> pthread_attr_check pthread_attr then Some (- EPERM, None, s)
      else do {
        (pthread_new, s) \<leftarrow> os_pthread_create env exit_entry pthread_attr start_routine arg s;
        if pthread_new = NULL then Some (- EAGAIN, None, s)
        else Some (0, Some pthread_new, sched_insert_thread pthread_new s)
      })"

section \<open>Leaving a thread and its signal handler\<close>

definition pthread_exit_entry :: "addr \<Rightarrow> 'a kstate_scheme \<Rightarrow> 'a kstate_scheme option" where
  "pthread_exit_entry arg s =
     do {
       let (temp, s) = hw_interrupt_suspend s;
       let thread = get_current_thread s;
       let s = upd_thread thread (\<lambda>x. x\<lparr>th_ret := arg\<rparr>) s;
       (ret, s) \<leftarrow> sched_delete_thread thread s;
       Some (hw_interrupt_recover temp s)
     }"

definition pthread_int_exit_entry :: "'a kstate_scheme \<Rightarrow> 'a kstate_scheme" where
  "pthread_int_exit_entry s =
     (let (temp, s) = hw_interrupt_suspend s;
          thread = get_current_thread s;
          s = upd_thread thread (\<lambda>x. x\<lparr>th_status := PTHREAD_STATE_READY\<rparr>) s;
          s = hw_context_switch_to (Sp thread) s
      in hw_interrupt_recover temp s)"

definition pthread_int_init :: "addr \<Rightarrow> addr \<Rightarrow> addr \<Rightarrow> addr \<Rightarrow> 'a kernel_scheme \<Rightarrow> err_t \<times> 'a kernel_scheme" where
  "pthread_int_init int_exit_entry pthread start_routine arg s =
     (let (sp, m) = pthread_hw_stack_init start_routine arg (th_sp (thr s pthread) - 8) int_exit_entry (mem32 s)
      in (0, upd_thread pthread (\<lambda>x. x\<lparr>th_int_sp := sp\<rparr>) (s\<lparr>mem32 := m\<rparr>)))"

section \<open>The idle thread\<close>

definition IDLE_STACK_SIZE :: os_u32 where "IDLE_STACK_SIZE = 256"

text \<open>
  \<^verbatim>\<open>idle_thread_init\<close>: \<open>attr\<close> is the uninitialised local, \<open>idle_stack\<close> and \<open>idle_entry\<close> are addresses the
  linker chooses, \<open>name\<close> the bytes of the string literal and of what follows it in memory (the copy always takes 11).
\<close>

definition idle_thread_init :: "'a kenv \<Rightarrow> addr \<Rightarrow> addr \<Rightarrow> addr \<Rightarrow> (nat \<Rightarrow> os_u8) \<Rightarrow> pthread_attr \<Rightarrow>
    'a kernel_scheme \<Rightarrow> (err_t \<times> 'a kernel_scheme) option" where
  "idle_thread_init env exit_entry idle_entry idle_stack name attr s =
     (let idle_sched_param = \<lparr>sp_type = PTHREAD_TYPE_IDLE, sp_init_ticks = PTHREAD_TICKS_MAX,
            sp_init_prio = PTHREAD_PRIORITY_MIN\<rparr>;
          (ret, attr) = pthread_attr_setschedparam attr idle_sched_param;
          (ret, attr) = pthread_attr_setstack attr idle_stack IDLE_STACK_SIZE
      in do {
        (err, tid, s) \<leftarrow> pthread_create env exit_entry (Some attr) idle_entry NULL s;
        if err \<noteq> 0 then None
        else do {
          tid \<leftarrow> tid;
          let (ret, s) = pthread_setname_np tid name s;
          Some (0, s)
        }
      })"

section \<open>The heap when nobody competes for it\<close>

abbreviation heap_idle :: "'a kernel_scheme \<Rightarrow> bool" where
  "heap_idle s \<equiv> mutex_idle (heap_mem_mutex s) s"

lemma locked_kernel [simp]:
  "heap (locked m s) = heap s" "heap_mem_mutex (locked m s) = heap_mem_mutex s"
  "(locked m s)\<lparr>heap := h\<rparr> = locked m (s\<lparr>heap := h\<rparr>)"
  by (simp_all add: locked_def set_owner_def)

lemma mutex_idle_heap [simp]: "mutex_idle m (s\<lparr>heap := h\<rparr>) = mutex_idle m s"
  by (simp add: mutex_idle_def owner_def)

definition of_heap :: "'a kernel_scheme \<Rightarrow> (addr option \<times> heap) option \<Rightarrow> (addr \<times> 'a kernel_scheme) option" where
  "of_heap s r = map_option (\<lambda>(p, h). (case p of None \<Rightarrow> NULL | Some a \<Rightarrow> a, s\<lparr>heap := h\<rparr>)) r"

lemma heap_upd_same: "heap s = h \<Longrightarrow> s\<lparr>heap := h\<rparr> = (s :: 'a kernel_scheme)"
  by auto

text \<open>Then \<^verbatim>\<open>malloc\<close> is the allocator's own step.\<close>

lemma malloc_idle:
  assumes i: "heap_idle s"
  shows "malloc env sz s = of_heap s (heap_malloc sz (heap s))"
proof (cases "sz = 0 \<or> mem_total_size (heap s) - mem_used_size (heap s) < malloc_size sz")
  case True
  then show ?thesis by (auto simp: malloc_def heap_malloc_def of_heap_def Let_def)
next
  case False
  note lock = lock_idle [OF i] and unlock = unlock_locked [OF i]
  have unlock': "pthread_mutex_unlock (heap_mem_mutex s) (locked (heap_mem_mutex s) (s\<lparr>heap := h\<rparr>)) = Some (0, s\<lparr>heap := h\<rparr>)" for h
    by (rule unlock_locked) (simp add: i)
  show ?thesis using False
    by (cases "heap_scan (heap s) (malloc_size sz) (heap_mem_free (heap s))")
      (auto simp: malloc_def heap_malloc_def of_heap_def Let_def lock unlock unlock' split: option.splits
        Option.bind_split)
qed

lemma free_idle:
  assumes i: "heap_idle s" and "heap_mem_begin (heap s) < mem" and "mem < heap_mem_end (heap s)"
    and "ALIGN mem = mem" and "hused (heap s) (mem - HEAP_HDR)"
  shows "free env mem s = map_option (\<lambda>h. s\<lparr>heap := h\<rparr>) (heap_free mem (heap s))"
proof -
  have "mem \<noteq> NULL" "\<not> mem \<le> heap_mem_begin (heap s)" "\<not> heap_mem_end (heap s) \<le> mem"
    using assms(2,3) by (auto simp: NULL_def)
  moreover have "pthread_mutex_unlock (heap_mem_mutex s) (locked (heap_mem_mutex s) (s\<lparr>heap := h\<rparr>)) = Some (0, s\<lparr>heap := h\<rparr>)" for h
    by (rule unlock_locked) (simp add: i)
  ultimately show ?thesis using assms(4,5)
    by (simp add: free_def lock_idle [OF i] heap_free_eq [OF assms(2-5)])
qed

section \<open>The initial stack frame\<close>

lemma fold_frame_other:
  fixes stk :: addr
  shows "(\<And>i. i \<in> set is \<Longrightarrow> x \<noteq> stk + 4 * of_nat i) \<Longrightarrow>
   fold (\<lambda>i m. m(stk + 4 * of_nat i := v)) is m x = m x"
  by (induction "is" arbitrary: m) auto

lemma fold_frame_in:
  fixes stk :: addr
  shows "i \<in> set is \<Longrightarrow> fold (\<lambda>i m. m(stk + 4 * of_nat i := v)) is m (stk + 4 * of_nat i) = v"
proof (induction "is" arbitrary: m)
  case (Cons j js)
  show ?case
  proof (cases "i \<in> set js \<or> stk + 4 * of_nat j \<noteq> (stk + 4 * of_nat i :: addr)")
    case True
    then show ?thesis using Cons by auto
  next
    case False
    have upd: "m x = v \<Longrightarrow> fold (\<lambda>i m. m(stk + 4 * of_nat i := v)) js m x = v" for m x
      by (induction js arbitrary: m) auto
    from False have eq: "stk + 4 * of_nat j = (stk + 4 * of_nat i :: addr)" by blast
    show ?thesis unfolding fold.simps comp_apply eq by (rule upd) simp
  qed
qed simp

lemma stack_frame_at:
  fixes stack :: addr
  defines "sp \<equiv> ALIGN (stack + 4) - 64"
  shows "fst (pthread_hw_stack_init entry arg stack exit m) = sp"
    and "snd (pthread_hw_stack_init entry arg stack exit m) (sp + 32) = arg"
    and "snd (pthread_hw_stack_init entry arg stack exit m) (sp + 52) = exit"
    and "snd (pthread_hw_stack_init entry arg stack exit m) (sp + 56) = entry"
    and "snd (pthread_hw_stack_init entry arg stack exit m) (sp + 60) = 0x01000000"
    and "i < 8 \<Longrightarrow> snd (pthread_hw_stack_init entry arg stack exit m) (sp + 4 * of_nat i) = 0xdeadbeef"
proof -
  show "fst (pthread_hw_stack_init entry arg stack exit m) = sp"
    "snd (pthread_hw_stack_init entry arg stack exit m) (sp + 32) = arg"
    "snd (pthread_hw_stack_init entry arg stack exit m) (sp + 52) = exit"
    "snd (pthread_hw_stack_init entry arg stack exit m) (sp + 56) = entry"
    "snd (pthread_hw_stack_init entry arg stack exit m) (sp + 60) = 0x01000000"
    by (simp_all add: pthread_hw_stack_init_def Let_def sp_def)
  assume i: "i < 8"
  then have "i \<in> {0, 1, 2, 3, 4, 5, 6, 7}" by auto
  then show "snd (pthread_hw_stack_init entry arg stack exit m) (sp + 4 * of_nat i) = 0xdeadbeef"
    using fold_frame_in [of i "[0..<STACK_FRAME_WORDS]" sp "0xdeadbeef" m] i
    by (auto simp: pthread_hw_stack_init_def Let_def sp_def STACK_FRAME_WORDS_def simp del: upt_Suc)
qed

lemma stack_frame_frame:
  assumes "\<And>i. i < 16 \<Longrightarrow> x \<noteq> ALIGN (stack + 4) - 64 + 4 * of_nat i"
  shows "snd (pthread_hw_stack_init entry arg stack exit m) x = m x"
proof -
  let ?k = "ALIGN (stack + 4) - 64"
  have "x \<noteq> ?k + 32" "x \<noteq> ?k + 36" "x \<noteq> ?k + 40" "x \<noteq> ?k + 44" "x \<noteq> ?k + 48" "x \<noteq> ?k + 52"
    "x \<noteq> ?k + 56" "x \<noteq> ?k + 60"
    using assms [of 8] assms [of 9] assms [of 10] assms [of 11] assms [of 12] assms [of 13] assms [of 14]
      assms [of 15] by simp_all
  then show ?thesis
    using fold_frame_other [of "[0..<STACK_FRAME_WORDS]" x ?k "0xdeadbeef" m] assms
    by (simp add: pthread_hw_stack_init_def Let_def STACK_FRAME_WORDS_def)
qed

section \<open>Where a new thread goes\<close>

definition new_pthread :: "pthread_attr \<Rightarrow> addr \<Rightarrow> addr \<Rightarrow> addr \<Rightarrow> os_pthread" where
  "new_pthread a start_routine arg stk =
     zero_pthread\<lparr>th_type := at_type a, th_status := PTHREAD_STATE_INIT,
       th_sp := ALIGN (stk + at_stk_size a) - 64, th_init_ticks := at_init_ticks a,
       th_cur_ticks := at_init_ticks a, th_init_prio := at_init_prio a, th_cur_prio := at_init_prio a,
       th_prio_mask := prio_bit (at_init_prio a), th_start_routine := start_routine, th_arg := arg,
       th_stk_addr := stk, th_stk_size := at_stk_size a\<rparr>"

definition fresh_links :: "addr \<Rightarrow> lnode links \<Rightarrow> lnode links" where
  "fresh_links t l = list_init (Sig_head t) (list_init (Sigevent_head t) (list_init (Thread_node t) l))"

definition stack_written :: "addr \<Rightarrow> pthread_attr \<Rightarrow> addr \<Rightarrow> addr \<Rightarrow> addr \<Rightarrow> (addr \<Rightarrow> os_u32) \<Rightarrow> addr \<Rightarrow> os_u32" where
  "stack_written exit_entry a start_routine arg stk m =
     snd (pthread_hw_stack_init start_routine arg (stk + at_stk_size a - 4) exit_entry m)"

lemma pthread_setup_eq:
  assumes "thr s t = zero_pthread\<lparr>th_stk_addr := k\<rparr>"
  shows "pthread_setup exit_entry a start_routine arg t stk s =
     s\<lparr>thr := (thr s)(t := new_pthread a start_routine arg stk), links := fresh_links t (links s),
       mem32 := stack_written exit_entry a start_routine arg stk (mem32 s)\<rparr>"
proof -
  have "fst (pthread_hw_stack_init start_routine arg (stk + at_stk_size a - 4) exit_entry (mem32 s)) =
      ALIGN (stk + at_stk_size a) - 64"
    by (simp add: stack_frame_at(1))
  then show ?thesis using assms
    by (cases "pthread_hw_stack_init start_routine arg (stk + at_stk_size a - 4) exit_entry (mem32 s)")
      (simp add: pthread_setup_def Let_def upd_thread_def upd_links_def new_pthread_def fresh_links_def
        stack_written_def prio_bit_def zero_pthread_def)
qed

lemma fresh_links_rings:
  assumes "rings l H q" and "\<And>x. x \<in> {Sig_head t, Sigevent_head t, Thread_node t} \<Longrightarrow> x \<notin> H \<and> x \<notin> queued H q"
  shows "rings (fresh_links t l) H q" and "detached (fresh_links t l) H q (Thread_node t)"
proof -
  let ?l1 = "list_init (Thread_node t) l" and ?l2 = "list_init (Sigevent_head t) (list_init (Thread_node t) l)"
  have r1: "rings ?l1 H q" "detached ?l1 H q (Thread_node t)"
    using rings_init_node [OF assms(1)] assms(2) by blast+
  have r2: "rings ?l2 H q" using rings_init_node(1) [OF r1(1)] assms(2) by blast
  show "rings (fresh_links t l) H q" unfolding fresh_links_def using rings_init_node(1) [OF r2] assms(2) by blast
  show "detached (fresh_links t l) H q (Thread_node t)"
    using r1(2) by (simp add: fresh_links_def detached_def list_init_apply)
qed

text \<open>The thread objects on the kernel's lists are blocks of the heap in use.\<close>

definition threads_backed :: "lnode set \<Rightarrow> (lnode \<Rightarrow> lnode list) \<Rightarrow> heap \<Rightarrow> addr list \<Rightarrow> bool" where
  "threads_backed H q h as \<longleftrightarrow>
     (\<forall>x\<in>queued H q. \<exists>t. (x = Thread_node t \<or> x = Thread_tnode t) \<and>
        t - HEAP_HDR \<in> set as \<and> hused h (t - HEAP_HDR))"

lemma threads_backed_mono:
  "threads_backed H q h as \<Longrightarrow> (\<And>b. b \<in> set as \<Longrightarrow> hused h b \<Longrightarrow> b \<in> set as' \<and> hused h' b) \<Longrightarrow>
   threads_backed H q h' as'"
  unfolding threads_backed_def by blast

lemma threads_backed_insert:
  assumes "threads_backed H q h as" and "t - HEAP_HDR \<in> set as" and "hused h (t - HEAP_HDR)"
  shows "threads_backed H (relocate (Some k) t (enqueue Thread_head (Thread_tnode t) q)) h as"
  unfolding threads_backed_def
proof
  fix x assume "x \<in> queued H (relocate (Some k) t (enqueue Thread_head (Thread_tnode t) q))"
  then have "x \<in> queued H q \<or> x = Thread_node t \<or> x = Thread_tnode t"
    by (auto simp: queued_def relocate_mem enqueue_mem split: if_splits)
  then show "\<exists>t. (x = Thread_node t \<or> x = Thread_tnode t) \<and> t - HEAP_HDR \<in> set as \<and> hused h (t - HEAP_HDR)"
    using assms unfolding threads_backed_def by blast
qed

lemma not_backed:
  "threads_backed H q h as \<Longrightarrow> \<not> hused h (t - HEAP_HDR) \<Longrightarrow>
   x \<in> {Sig_head t, Sigevent_head t, Thread_node t, Thread_tnode t} \<Longrightarrow> x \<notin> queued H q"
  unfolding threads_backed_def by blast

lemma kernel_wf_fresh_thread:
  fixes s :: "'a kernel_scheme"
  assumes wf: "kernel_wf H q s" and H: "H \<subseteq> sched_heads \<union> wait_heads"
    and b: "threads_backed H q h as" "\<not> hused h (t - HEAP_HDR)" and p: "at_init_prio a \<le> PTHREAD_PRIORITY_MAX"
    and s': "thr s' = (thr s)(t := new_pthread a start_routine arg stk)" "links s' = fresh_links t (links s)"
      "thread_ready_group s' = thread_ready_group s"
  shows "kernel_wf H (relocate (Some (Ready_head (unat (at_init_prio a)))) t (enqueue Thread_head (Thread_tnode t) q))
     (sched_insert_thread t (s' :: 'a kernel_scheme))"
proof -
  let ?x = "new_pthread a start_routine arg stk" and ?q1 = "enqueue Thread_head (Thread_tnode t) q"
  note swf = kernel_wfD(1) [OF wf] and ww = kernel_wfD(2) [OF wf]
  have nH: "x \<notin> H" if "x \<in> {Sig_head t, Sigevent_head t, Thread_node t, Thread_tnode t}" for x
    using that H by (auto simp: sched_heads_def wait_heads_def)
  note nq = not_backed [OF b]
  have fr: "rings (fresh_links t (links s)) H q" "detached (fresh_links t (links s)) H q (Thread_node t)"
    using fresh_links_rings [OF sched_wfD(1) [OF swf], of t] nH nq by auto
  have nn: "Thread_node t \<notin> queued H q" "Thread_tnode t \<notin> queued H q" using nq by auto
  have heads: "Thread_head \<in> H" "Sleep_head \<in> H" "\<And>p. p < PTHREAD_READY_GROUP_MAX \<Longrightarrow> Ready_head p \<in> H"
    using sched_wfD(2) [OF swf] by (auto simp: sched_heads_def)
  have other: "thr s' u = thr s u" if "Thread_node u \<in> queued H q \<or> Thread_tnode u \<in> queued H q" for u
    using that nn s'(1) by auto
  have mem: "members_ok q (thr s')"
    using sched_wfD(4) [OF swf] heads other unfolding members_ok_def queued_def by (metis UN_I)
  have reg: "registered_ok q (thr s')"
    using sched_wfD(5) [OF swf] heads other unfolding registered_ok_def queued_def by (metis UN_I)
  have wf1: "sched_wf H q s'"
    using fr(1) mem reg sched_wfD [OF swf] s' by (simp add: sched_wf_def)
  have x: "thr s' t = ?x" by (simp add: s')
  have vp: "valid_prio ?x" "\<not> runnable ?x" "ready_place ?x = Some (Ready_head (unat (at_init_prio a)))"
    using p by (simp_all add: valid_prio_def new_pthread_def runnable_def pthread_state_defs ready_place_def own_queue_def)
  have "sched_wf H (relocate (ready_place (thr s' t)) t ?q1) (sched_insert_thread t s')"
    using sched_insert_thread_wf [OF wf1 _ nn(2)] nH fr(2) vp x s'(2) by (simp add: movable_def)
  moreover have "waiters_ok H q (thr s')"
    using ww other unfolding waiters_ok_def queued_def by (metis IntD1 UN_I)
  then have "waiters_ok H ?q1 (thr s')" by (auto simp: waiters_ok_def enqueue_def wait_heads_def)
  then have "waiters_ok H (relocate (ready_place (thr s' t)) t ?q1) (thr (sched_insert_thread t s'))"
    unfolding sched_insert_thread_thr by (rule waiters_ok_relocate) (auto simp: x vp(3) wait_heads_def)
  ultimately show ?thesis using x vp(3) by (simp add: kernel_wf_def)
qed

lemma zalloc_idle:
  "heap_idle s \<Longrightarrow> zalloc_pthread env s =
     (case heap_malloc SIZEOF_PTHREAD (heap s) of
        None \<Rightarrow> None
      | Some (None, h) \<Rightarrow> Some (NULL, s\<lparr>heap := h\<rparr>)
      | Some (Some t, h) \<Rightarrow>
          Some (t, if t \<noteq> NULL then upd_thread t (\<lambda>_. zero_pthread) (s\<lparr>heap := h\<rparr>) else s\<lparr>heap := h\<rparr>))"
  by (auto simp: zalloc_pthread_def malloc_idle of_heap_def split: option.splits prod.splits)

lemma SIZEOF_PTHREAD_small: "SIZEOF_PTHREAD \<noteq> 0" "unat SIZEOF_PTHREAD + 3 < 2 ^ 32"
  by (simp_all add: SIZEOF_PTHREAD_def)

lemma attr_checkD:
  "pthread_attr_check (Some a) \<Longrightarrow> at_init_prio a \<le> PTHREAD_PRIORITY_MAX \<and> at_init_ticks a \<noteq> 0 \<and>
     256 \<le> unat (at_stk_size a) \<and> pthread_type_ok (at_type a)"
  by (auto simp: pthread_attr_check_def PTHREAD_STACK_SIZE_MIN_def word_less_nat_alt word_le_nat_alt not_less
      split: if_splits)

lemma default_attr_ok: "pthread_attr_check (Some default_attr)"
  by (simp add: pthread_attr_check_def default_attr_def PTHREAD_STACK_SIZE_MIN_def PTHREAD_PRIORITY_MAX_def
      pthread_type_ok_def NULL_def)

definition the_attr :: "pthread_attr option \<Rightarrow> pthread_attr" where
  "the_attr a = (case a of None \<Rightarrow> default_attr | Some a \<Rightarrow> a)"

lemma the_attr_ok: "pthread_attr_check a \<Longrightarrow> pthread_attr_check (Some (the_attr a))"
  by (cases a) (simp_all add: the_attr_def default_attr_ok)

text \<open>The stack of a new thread: the caller's, or a second allocation.\<close>

definition stack_alloc :: "pthread_attr \<Rightarrow> heap \<Rightarrow> (addr option \<times> heap) option" where
  "stack_alloc a h = (if at_stk_addr a = NULL then heap_malloc (at_stk_size a) h else Some (Some (at_stk_addr a), h))"

lemma upd_thread_heap [simp]: "heap (upd_thread t f s) = heap s" "mem32 (upd_thread t f s) = mem32 s"
  "heap_mem_mutex (upd_thread t f s) = heap_mem_mutex s"
  by (simp_all add: upd_thread_def)

lemma os_pthread_create_ok:
  assumes i: "heap_idle s" and t: "heap_malloc SIZEOF_PTHREAD (heap s) = Some (Some t, h1)" "t \<noteq> NULL"
    and k: "stack_alloc (the_attr a) h1 = Some (Some k, h2)" "k \<noteq> NULL"
  shows "os_pthread_create env exit_entry a start_routine arg s = Some (t,
     s\<lparr>thr := (thr s)(t := new_pthread (the_attr a) start_routine arg k), links := fresh_links t (links s),
       mem32 := stack_written exit_entry (the_attr a) start_routine arg k (mem32 s), heap := h2\<rparr>)"
proof -
  let ?a = "the_attr a"
  let ?s1 = "upd_thread t (\<lambda>_. zero_pthread) (s\<lparr>heap := h1\<rparr>)"
  have i1: "heap_idle ?s1" using i by (auto elim!: mutex_idle_cong simp: upd_thread_def)
  note ops = os_pthread_create_def the_attr_def [symmetric] zalloc_idle [OF i] t Let_def
  show ?thesis
  proof (cases "at_stk_addr ?a = NULL")
    case True
    let ?s2 = "upd_thread t (\<lambda>x. x\<lparr>th_stk_addr := k\<rparr>) (?s1\<lparr>heap := h2\<rparr>)"
    have "malloc env (at_stk_size ?a) ?s1 = Some (k, ?s1\<lparr>heap := h2\<rparr>)"
      using k(1) True by (simp add: malloc_idle [OF i1] of_heap_def stack_alloc_def)
    moreover have "thr ?s2 t = zero_pthread\<lparr>th_stk_addr := k\<rparr>" by (simp add: upd_thread_def)
    ultimately show ?thesis
      using True k(2) pthread_setup_eq [of ?s2 t k exit_entry ?a start_routine arg k]
      by (simp add: ops) (simp add: upd_thread_def)
  next
    case False
    have "thr ?s1 t = zero_pthread\<lparr>th_stk_addr := 0\<rparr>" by (simp add: upd_thread_def zero_pthread_def)
    from pthread_setup_eq [OF this, of exit_entry ?a start_routine arg "at_stk_addr ?a"] False k t(2)
    show ?thesis by (auto simp: ops stack_alloc_def upd_thread_def)
  qed
qed

text \<open>When the second allocation is refused the thread object is given back.\<close>

lemma os_pthread_create_no_stack:
  assumes i: "heap_idle s" and wf: "heap_wf (heap s) as" "free_ok (heap s) as"
    and t: "heap_malloc SIZEOF_PTHREAD (heap s) = Some (Some t, h1)"
    and k: "stack_alloc (the_attr a) h1 = Some (None, h1)"
  shows "os_pthread_create env exit_entry a start_routine arg s =
     map_option (\<lambda>h. (NULL, s\<lparr>thr := (thr s)(t := zero_pthread), heap := h\<rparr>)) (heap_free t h1)"
proof -
  let ?a = "the_attr a"
  let ?s1 = "upd_thread t (\<lambda>_. zero_pthread) (s\<lparr>heap := h1\<rparr>)"
  let ?s2 = "upd_thread t (\<lambda>x. x\<lparr>th_stk_addr := NULL\<rparr>) ?s1"
  from heap_malloc_run [OF wf SIZEOF_PTHREAD_small t] obtain pre c post f where
    m: "t = c + HEAP_HDR" "h1 = (taken (heap s) (malloc_size SIZEOF_PTHREAD) c)\<lparr>heap_mem_free := f\<rparr>"
      "heap_wf h1 (pre @ c # take_hdrs (heap s) (malloc_size SIZEOF_PTHREAD) c post)" by metis
  note bp = block_pointer [OF m(3) refl, folded m(1)]
  have tn: "t \<noteq> NULL" using bp(2) by (auto simp: NULL_def)
  have i1: "heap_idle ?s1" "heap_idle ?s2" using i by (auto elim!: mutex_idle_cong simp: upd_thread_def)
  have s0: "at_stk_addr ?a = NULL" using k by (auto simp: stack_alloc_def split: if_splits)
  have "malloc env (at_stk_size ?a) ?s1 = Some (NULL, ?s1)"
    using k s0 by (simp add: malloc_idle [OF i1(1)] of_heap_def stack_alloc_def heap_upd_same)
  moreover have "free env t ?s2 = map_option (\<lambda>h. ?s2\<lparr>heap := h\<rparr>) (heap_free t h1)"
    using free_idle [OF i1(2), of t env] bp m(1,2) by (simp add: taken_used)
  moreover have "?s2\<lparr>heap := h\<rparr> = s\<lparr>thr := (thr s)(t := zero_pthread), heap := h\<rparr>" for h
    by (simp add: upd_thread_def zero_pthread_def NULL_def)
  ultimately show ?thesis
    using s0 tn by (cases "heap_free t h1")
      (auto simp: os_pthread_create_def the_attr_def [symmetric] zalloc_idle [OF i] t Let_def)
qed

section \<open>Properties\<close>

text \<open>
  C17. Attributes built with the setters are accepted by \<^verbatim>\<open>pthread_create\<close>: when
  \<^verbatim>\<open>pthread_attr_setschedparam\<close> and then \<^verbatim>\<open>pthread_attr_setstack\<close> or \<^verbatim>\<open>pthread_attr_setstacksize\<close> return 0,
  the attribute check passes, whatever the attribute object held before.
\<close>
theorem attr_setters_accepted:
  assumes "pthread_attr_setschedparam attr0 param = (0, attr1)"
    and "pthread_attr_setstack attr1 stk sz = (0, attr2) \<or> pthread_attr_setstacksize attr1 sz = (0, attr2)"
  shows "pthread_attr_check (Some attr2) \<and> at_stk_size attr2 = sz \<and> at_init_prio attr2 = sp_init_prio param \<and>
     at_init_ticks attr2 = sp_init_ticks param \<and> at_type attr2 = sp_type param"
  using assms
  by (auto simp: pthread_attr_setschedparam_def pthread_attr_setstack_def pthread_attr_setstacksize_def
      pthread_attr_check_def EINVAL_def PTHREAD_STACK_SIZE_MIN_def not_less word_less_nat_alt
      word_le_nat_alt split: if_splits)

theorem attr_setters_accepted_witness:
  "pthread_attr_check (Some (snd (pthread_attr_setstack (snd (pthread_attr_setschedparam default_attr
     \<lparr>sp_type = 1, sp_init_ticks = 255, sp_init_prio = 0\<rparr>)) 0x2000 256)))"
proof -
  have "pthread_attr_setschedparam default_attr \<lparr>sp_type = 1, sp_init_ticks = 255, sp_init_prio = 0\<rparr> =
      (0, default_attr\<lparr>at_type := 1, at_init_prio := 0, at_init_ticks := 255\<rparr>)"
    by (simp add: pthread_attr_setschedparam_def pthread_type_ok_def PTHREAD_TYPE_IDLE_def PTHREAD_PRIORITY_MAX_def)
  moreover have "pthread_attr_setstack (default_attr\<lparr>at_type := 1, at_init_prio := 0, at_init_ticks := 255\<rparr>) 0x2000 256 =
      (0, default_attr\<lparr>at_type := 1, at_init_prio := 0, at_init_ticks := 255, at_stk_addr := 0x2000,
         at_stk_size := 256\<rparr>)"
    by (simp add: pthread_attr_setstack_def PTHREAD_STACK_SIZE_MIN_def PHYS_ADDR_ALIGN_def ALIGN_def HW_ALIGN_SIZE_def)
  ultimately show ?thesis using attr_setters_accepted by fastforce
qed

text \<open>
  C18. \<^verbatim>\<open>pthread_create\<close> succeeds when both allocations do: it returns 0 and the new thread, which is a fresh heap
  block, stands at the tail of the ready list of its priority and at the tail of the list of all threads,
  with the status ready and its attributes; its saved stack pointer is the frame just below the end of its stack,
  where the entry point, the argument and the exit trampoline are found; the kernel and the heap stay well formed,
  no other thread changes, and the caller stays the current thread even if the new one has a higher priority.
\<close>
theorem pthread_create_registers:
  assumes "kernel_wf H q s" and "H \<subseteq> sched_heads \<union> wait_heads" and "heap_idle s"
    and "heap_wf (heap s) as" and "free_ok (heap s) as" and "threads_backed H q (heap s) as"
    and "pthread_attr_check a" and "unat (at_stk_size (the_attr a)) + 3 < 2 ^ 32"
    and "heap_malloc SIZEOF_PTHREAD (heap s) = Some (Some t, h1)"
    and "stack_alloc (the_attr a) h1 = Some (Some k, h2)"
  defines "q' \<equiv> relocate (Some (Ready_head (unat (at_init_prio (the_attr a))))) t (enqueue Thread_head (Thread_tnode t) q)"
  shows "\<exists>s' as'. pthread_create env exit_entry a start_routine arg s = Some (0, Some t, s') \<and>
     kernel_wf H q' s' \<and> heap s' = h2 \<and> heap_wf h2 as' \<and> free_ok h2 as' \<and> threads_backed H q' h2 as' \<and>
     Thread_node t \<notin> queued H q \<and> th_status (thr s' t) = PTHREAD_STATE_READY \<and>
     th_cur_prio (thr s' t) = at_init_prio (the_attr a) \<and> th_cur_ticks (thr s' t) = at_init_ticks (the_attr a) \<and>
     th_sp (thr s' t) = ALIGN (k + at_stk_size (the_attr a)) - 64 \<and>
     mem32 s' (th_sp (thr s' t) + 32) = arg \<and> mem32 s' (th_sp (thr s' t) + 52) = exit_entry \<and>
     mem32 s' (th_sp (thr s' t) + 56) = start_routine \<and>
     (\<forall>u. u \<noteq> t \<longrightarrow> thr s' u = thr s u) \<and> current_thread s' = current_thread s"
proof -
  let ?a = "the_attr a"
  note at = attr_checkD [OF the_attr_ok [OF assms(7)]]
  have sz: "at_stk_size ?a \<noteq> 0" using at by auto
  from malloc_fresh [OF assms(4,5) SIZEOF_PTHREAD_small assms(9)] obtain as1 where
    m1: "heap_wf h1 as1" "free_ok h1 as1" "\<not> hused (heap s) (t - HEAP_HDR)" "hused h1 (t - HEAP_HDR)"
      "t - HEAP_HDR \<in> set as1" "heap_mem_begin (heap s) < t"
      "\<And>b. b \<in> set as \<Longrightarrow> hused (heap s) b \<Longrightarrow> b \<in> set as1 \<and> hused h1 b" by blast
  obtain as2 where m2: "heap_wf h2 as2" "free_ok h2 as2" "k \<noteq> NULL"
      "\<And>b. b \<in> set as1 \<Longrightarrow> hused h1 b \<Longrightarrow> b \<in> set as2 \<and> hused h2 b"
  proof (cases "at_stk_addr ?a = NULL")
    case True
    then have "heap_malloc (at_stk_size ?a) h1 = Some (Some k, h2)" using assms(10) by (simp add: stack_alloc_def)
    from malloc_fresh [OF m1(1,2) sz assms(8) this] obtain as2 where "heap_wf h2 as2" "free_ok h2 as2"
      "heap_mem_begin h1 < k" "\<And>b. b \<in> set as1 \<Longrightarrow> hused h1 b \<Longrightarrow> b \<in> set as2 \<and> hused h2 b" by blast
    moreover from this(3) have "k \<noteq> NULL" by (auto simp: NULL_def)
    ultimately show ?thesis using that [of as2] by blast
  next
    case False
    then show ?thesis using that [of as1] m1 assms(10) by (auto simp: stack_alloc_def)
  qed
  have tn: "t \<noteq> NULL" using m1(6) by (auto simp: NULL_def)
  let ?s1 = "s\<lparr>thr := (thr s)(t := new_pthread ?a start_routine arg k), links := fresh_links t (links s),
       mem32 := stack_written exit_entry ?a start_routine arg k (mem32 s), heap := h2\<rparr>"
  let ?s' = "sched_insert_thread t ?s1"
  have run: "pthread_create env exit_entry a start_routine arg s = Some (0, Some t, ?s')"
    using os_pthread_create_ok [OF assms(3,9) tn assms(10) m2(3)] assms(7) tn by (simp add: pthread_create_def)
  have wf': "kernel_wf H q' ?s'"
    unfolding q'_def using at
    by (intro kernel_wf_fresh_thread [OF assms(1,2,6) m1(3), of ?a _ start_routine arg k]) simp_all
  have bk: "threads_backed H q' h2 as2"
    unfolding q'_def using threads_backed_mono [OF assms(6)] m1 m2 by (intro threads_backed_insert) blast+
  have keep: "heap ?s' = h2" "mem32 ?s' = stack_written exit_entry ?a start_routine arg k (mem32 s)"
    "current_thread ?s' = current_thread s"
    by (simp_all add: sched_insert_thread_def sched_set_thread_ready_def Let_def upd_links_def upd_thread_def)
  have x: "thr ?s' t = with_status PTHREAD_STATE_READY (new_pthread ?a start_routine arg k)"
    "\<And>u. u \<noteq> t \<Longrightarrow> thr ?s' u = thr s u"
    by (simp_all add: sched_insert_thread_thr)
  have sp: "th_sp (thr ?s' t) = ALIGN (k + at_stk_size ?a) - 64"
    unfolding x(1) by (simp add: with_status_def new_pthread_def)
  have fr: "mem32 ?s' (th_sp (thr ?s' t) + 32) = arg" "mem32 ?s' (th_sp (thr ?s' t) + 52) = exit_entry"
    "mem32 ?s' (th_sp (thr ?s' t) + 56) = start_routine"
    unfolding sp keep(2)
    using stack_frame_at(2,3,4) [where stack = "k + at_stk_size ?a - 4"]
    by (simp_all add: stack_written_def)
  have "Thread_node t \<notin> queued H q" using not_backed [OF assms(6) m1(3)] by blast
  moreover have "th_cur_prio (thr ?s' t) = at_init_prio ?a" "th_cur_ticks (thr ?s' t) = at_init_ticks ?a"
    "th_status (thr ?s' t) = PTHREAD_STATE_READY"
    unfolding x(1) by (simp_all add: with_status_def new_pthread_def)
  ultimately show ?thesis using run wf' keep m2(1,2) bk sp fr x(2) by blast
qed

text \<open>
  A booting kernel: the scheduler has just been initialised, a 976-byte heap at 0x1000, no thread yet.
\<close>

definition boot_kernel :: kernel where
  "boot_kernel = sched_init 1 (kstate.extend blank_state
     \<lparr>heap = demo_heap, heap_mem_mutex = 0x500, mem32 = (\<lambda>_. 0)\<rparr>)"

definition boot_attr :: pthread_attr where
  "boot_attr = \<lparr>at_type = 2, at_init_ticks = 10, at_init_prio = 20, at_stk_addr = 0x2000, at_stk_size = 512\<rparr>"

lemma boot_kernel_facts:
  "kernel_wf sched_heads (\<lambda>_. []) boot_kernel" "heap_idle boot_kernel" "heap boot_kernel = demo_heap"
  "threads_backed sched_heads (\<lambda>_. []) demo_heap [0x1000]"
proof -
  show "kernel_wf sched_heads (\<lambda>_. []) boot_kernel"
    unfolding boot_kernel_def by (auto simp: kernel_wf_def waiters_ok_def intro: sched_init_wf)
  show "heap_idle boot_kernel" "heap boot_kernel = demo_heap"
    by (simp_all add: boot_kernel_def mutex_idle_def sched_init_def Let_def upd_links_def kstate.extend_def)
  show "threads_backed sched_heads (\<lambda>_. []) demo_heap [0x1000]" by (simp add: threads_backed_def queued_def)
qed

lemma boot_attr_ok: "pthread_attr_check (Some boot_attr)"
  by (simp add: pthread_attr_check_def boot_attr_def PTHREAD_STACK_SIZE_MIN_def PTHREAD_PRIORITY_MAX_def
      pthread_type_ok_def PHYS_ADDR_ALIGN_def ALIGN_def HW_ALIGN_SIZE_def PTHREAD_TYPE_KERNEL_def)

theorem pthread_create_registers_witness:
  "\<exists>s'. pthread_create (\<lambda>_. None) 0x80 (Some boot_attr) 0x90 7 boot_kernel = Some (0, Some 0x100c, s') \<and>
     th_sp (thr s' 0x100c) = 0x21c0 \<and> mem32 s' 0x21f8 = 0x90"
proof -
  obtain h where h: "heap_malloc SIZEOF_PTHREAD demo_heap = Some (Some 0x100c, h)"
    using demo_malloc [of 88] by (auto simp: SIZEOF_PTHREAD_def)
  have k: "stack_alloc (the_attr (Some boot_attr)) h = Some (Some 0x2000, h)"
    by (simp add: stack_alloc_def the_attr_def boot_attr_def NULL_def)
  have "\<exists>s'. pthread_create (\<lambda>_. None) 0x80 (Some boot_attr) 0x90 7 boot_kernel = Some (0, Some 0x100c, s') \<and>
      th_sp (thr s' 0x100c) = ALIGN (0x2000 + at_stk_size (the_attr (Some boot_attr))) - 64 \<and>
      mem32 s' (th_sp (thr s' 0x100c) + 56) = 0x90"
    using pthread_create_registers [OF boot_kernel_facts(1) _ boot_kernel_facts(2), of "[0x1000]" "Some boot_attr"
        "0x100c" h "0x2000" h "\<lambda>_. None" "0x80" "0x90" 7] boot_kernel_facts(3,4) demo_heap_wf(1,2) boot_attr_ok h k
    by (auto simp: the_attr_def boot_attr_def)
  then show ?thesis by (auto simp: the_attr_def boot_attr_def ALIGN_def HW_ALIGN_SIZE_def)
qed

lemma heap_malloc_refused: "heap_malloc sz h = Some (None, h') \<Longrightarrow> h' = h"
  by (auto simp: heap_malloc_def Let_def bind_eq_Some_conv split: if_splits option.splits)

text \<open>
  The error branches of \<^verbatim>\<open>pthread_create\<close>: attributes the check rejects give \<^verbatim>\<open>-EPERM\<close> and change nothing; no memory
  for the thread object gives \<^verbatim>\<open>-EAGAIN\<close> and changes nothing; no memory for the stack gives \<^verbatim>\<open>-EAGAIN\<close> and the
  thread object is given back: the heap has the blocks and the free blocks it had before, and no list of the
  kernel has changed.
\<close>
theorem pthread_create_errors:
  assumes "heap_idle s" and "heap_wf (heap s) as" and "free_ok (heap s) as"
  shows "if \<not> pthread_attr_check a then pthread_create env exit_entry a start_routine arg s = Some (- EPERM, None, s)
     else case heap_malloc SIZEOF_PTHREAD (heap s) of
       None \<Rightarrow> pthread_create env exit_entry a start_routine arg s = None
     | Some (None, h) \<Rightarrow> pthread_create env exit_entry a start_routine arg s = Some (- EAGAIN, None, s)
     | Some (Some t, h1) \<Rightarrow>
         stack_alloc (the_attr a) h1 = Some (None, h1) \<longrightarrow>
         (\<exists>h'. pthread_create env exit_entry a start_routine arg s =
             Some (- EAGAIN, None, s\<lparr>thr := (thr s)(t := zero_pthread), heap := h'\<rparr>) \<and>
           heap_wf h' as \<and> free_ok h' as \<and> (\<forall>b\<in>set as. hused h' b = hused (heap s) b))"
proof (cases "pthread_attr_check a")
  case False
  then show ?thesis by (simp add: pthread_create_def)
next
  case ok: True
  show ?thesis
  proof (cases "heap_malloc SIZEOF_PTHREAD (heap s)")
    case None
    then show ?thesis
      using ok by (simp add: pthread_create_def os_pthread_create_def zalloc_idle [OF assms(1)] Let_def)
  next
    case (Some r)
    obtain p h1 where r: "r = (p, h1)" by (cases r)
    show ?thesis
    proof (cases p)
      case None
      then have "h1 = heap s" using heap_malloc_refused Some r by blast
      then show ?thesis using ok Some r None
        by (simp add: pthread_create_def os_pthread_create_def zalloc_idle [OF assms(1)] Let_def heap_upd_same)
    next
      case p: (Some t)
      have m: "heap_malloc SIZEOF_PTHREAD (heap s) = Some (Some t, h1)" using Some r p by simp
      from malloc_free_restores [OF assms(2,3) SIZEOF_PTHREAD_small m] obtain h' where
        h': "heap_free t h1 = Some h'" "heap_wf h' as" "free_ok h' as" "\<forall>b\<in>set as. hused h' b = hused (heap s) b"
        by blast
      have "pthread_create env exit_entry a start_routine arg s =
          Some (- EAGAIN, None, s\<lparr>thr := (thr s)(t := zero_pthread), heap := h'\<rparr>)"
        if "stack_alloc (the_attr a) h1 = Some (None, h1)"
        using os_pthread_create_no_stack [OF assms m that] ok h'(1) by (simp add: pthread_create_def)
      then show ?thesis using ok m h'(2-4) by auto
    qed
  qed
qed

theorem pthread_create_errors_witness:
  "pthread_create (\<lambda>_. None) 0x80 (Some (boot_attr\<lparr>at_init_ticks := 0\<rparr>)) 0x90 7 boot_kernel = Some (- EPERM, None, boot_kernel)"
proof -
  have "\<not> pthread_attr_check (Some (boot_attr\<lparr>at_init_ticks := 0\<rparr>))" by (simp add: pthread_attr_check_def)
  then show ?thesis
    using pthread_create_errors [OF boot_kernel_facts(2), of "[0x1000]" "Some (boot_attr\<lparr>at_init_ticks := 0\<rparr>)"]
      demo_heap_wf(1,2) by (simp add: boot_kernel_facts(3))
qed

end
