(* ===== verification/Context_Switch.thy ===== *)
theory Context_Switch
  imports Pthread
begin

text \<open>
  The context switch of \<^verbatim>\<open>bsp/arch/ARM/Cortex-M7/cpuport/source/text_switch.s\<close>: the PendSV exception, at
  the level of registers and stack words, assembled without \<^verbatim>\<open>__ARMVFP__\<close> (the initial frame of
  \<^verbatim>\<open>pthread_hw_stack_init\<close> has no word for the FPU flag, so threads could not start otherwise).

  The kernel state is extended by the registers the handler saves, r4 to r11, and the process stack pointer. On entry
  to the exception the processor has pushed the other eight registers on the process stack, so psp points at them.
  Three fields are not of the machine, they say what the memory is for: \<open>held\<close>, the context whose
  registers the processor holds; \<open>live\<close>, the contexts in use (a thread, or a signal handler on top of one); and \<open>stk\<close>, the stack words that belong to each.

  What is shown: whatever the scheduler requests and however requests are merged before the exception is
  taken, a context that gets the processor back finds its registers, its stack pointer and the words
  pushed by the processor as it left them, provided that no other code touches its frame or changes whether the current thread is in a
  signal handler: \<^verbatim>\<open>sched_switch_thread\<close> chooses the field to save to by the status of the thread.
\<close>

section \<open>The exception\<close>

record machine = kernel +
  r4_r11 :: "os_u32 list"
  psp :: addr
  held :: spref
  live :: "spref set"
  stk :: "spref \<Rightarrow> addr set"

text \<open>\<^verbatim>\<open>STMFD\<close> and \<^verbatim>\<open>LDMFD\<close>: registers in ascending order at ascending addresses.\<close>

primrec store_words :: "addr \<Rightarrow> os_u32 list \<Rightarrow> (addr \<Rightarrow> os_u32) \<Rightarrow> addr \<Rightarrow> os_u32" where
  "store_words a [] m = m"
| "store_words a (w # ws) m = store_words (a + 4) ws (m(a := w))"

primrec load_words :: "addr \<Rightarrow> nat \<Rightarrow> (addr \<Rightarrow> os_u32) \<Rightarrow> os_u32 list" where
  "load_words a 0 m = []"
| "load_words a (Suc n) m = m a # load_words (a + 4) n m"

text \<open>The field that \<^verbatim>\<open>interrupt_from_thread\<close> or \<^verbatim>\<open>interrupt_to_thread\<close> points at.\<close>

primrec load_sp :: "spref \<Rightarrow> 'a kstate_scheme \<Rightarrow> addr" where
  "load_sp No_sp s = 0"
| "load_sp (Sp t) s = th_sp (thr s t)"
| "load_sp (Int_sp t) s = th_int_sp (thr s t)"

primrec store_sp :: "spref \<Rightarrow> addr \<Rightarrow> 'a kstate_scheme \<Rightarrow> 'a kstate_scheme" where
  "store_sp No_sp a s = s"
| "store_sp (Sp t) a s = upd_thread t (\<lambda>x. x\<lparr>th_sp := a\<rparr>) s"
| "store_sp (Int_sp t) a s = upd_thread t (\<lambda>x. x\<lparr>th_int_sp := a\<rparr>) s"

definition push_context :: "'a machine_scheme \<Rightarrow> 'a machine_scheme" where
  "push_context s =
     (if interrupt_from_thread s = No_sp then s
      else let r1 = psp s - 32;
               s = s\<lparr>mem32 := store_words r1 (r4_r11 s) (mem32 s)\<rparr>
           in store_sp (interrupt_from_thread s) r1 s)"

definition pop_context :: "'a machine_scheme \<Rightarrow> 'a machine_scheme" where
  "pop_context s =
     (let r1 = load_sp (interrupt_to_thread s) s
      in s\<lparr>r4_r11 := load_words r1 8 (mem32 s), psp := r1 + 32, held := interrupt_to_thread s\<rparr>)"

definition PendSV_Handler :: "'a machine_scheme \<Rightarrow> 'a machine_scheme" where
  "PendSV_Handler s =
     (let (r2, s) = hw_interrupt_suspend s;
          s = (if thread_switch_interrupt_flag s = 0 then s
               else pop_context (push_context (s\<lparr>thread_switch_interrupt_flag := 0\<rparr>)))
      in hw_interrupt_recover r2 s)"

section \<open>Contexts\<close>

text \<open>
  Where the sixteen words of a context are, or will be: below the stack pointer for the one that runs, at the saved
  stack pointer for the others.
\<close>

definition frame_addr :: "spref \<Rightarrow> 'a machine_scheme \<Rightarrow> addr" where
  "frame_addr x s = (if x = held s then psp s - 32 else load_sp x s)"

definition frame_words :: "addr \<Rightarrow> addr set" where
  "frame_words a = (\<lambda>i. a + 4 * of_nat i) ` {..<16}"

text \<open>A context: r4 to r11, the stack pointer, and the eight words the processor pushed.\<close>

definition context_of :: "spref \<Rightarrow> 'a machine_scheme \<Rightarrow> os_u32 list \<times> addr \<times> os_u32 list" where
  "context_of x s =
     (if x = held s then r4_r11 s else load_words (frame_addr x s) 8 (mem32 s),
      frame_addr x s + 32, load_words (frame_addr x s + 32) 8 (mem32 s))"

text \<open>Frames lie in the stacks, stacks are apart, and a pending switch saves what the processor holds.\<close>

definition stacks_ok :: "'a machine_scheme \<Rightarrow> bool" where
  "stacks_ok s \<longleftrightarrow> length (r4_r11 s) = 8 \<and> No_sp \<notin> live s \<and> held s \<in> live s \<and>
     (\<forall>x\<in>live s. frame_words (frame_addr x s) \<subseteq> stk s x) \<and>
     (\<forall>x\<in>live s. \<forall>y\<in>live s. x \<noteq> y \<longrightarrow> stk s x \<inter> stk s y = {})"

definition switch_ok :: "'a machine_scheme \<Rightarrow> bool" where
  "switch_ok s \<longleftrightarrow> sp_of (current_thread s) s \<in> live s \<and>
     (if thread_switch_interrupt_flag s = 0 then held s = sp_of (current_thread s) s
      else thread_switch_interrupt_flag s = 1 \<and> interrupt_from_thread s = held s \<and>
           interrupt_to_thread s = sp_of (current_thread s) s)"

section \<open>Loading and storing words\<close>

lemma store_words_other:
  assumes "\<forall>i<length ws. b \<noteq> a + 4 * of_nat i"
  shows "store_words a ws m b = m b"
  using assms
proof (induction ws arbitrary: a m)
  case Nil
  then show ?case by simp
next
  case (Cons w ws)
  have "b \<noteq> a + 4 + 4 * of_nat i" if "i < length ws" for i
    using Cons.prems [rule_format, of "Suc i"] that by (simp add: algebra_simps)
  then have "store_words (a + 4) ws (m(a := w)) b = (m(a := w)) b" by (intro Cons.IH) blast
  moreover have "b \<noteq> a" using Cons.prems [rule_format, of 0] by simp
  ultimately show ?case by simp
qed

lemma load_words_cong:
  assumes "\<forall>i<n. m' (a + 4 * of_nat i) = m (a + 4 * of_nat i)"
  shows "load_words a n m' = load_words a n m"
  using assms
proof (induction n arbitrary: a)
  case 0
  then show ?case by simp
next
  case (Suc n)
  have "\<forall>i<n. m' (a + 4 + 4 * of_nat i) = m (a + 4 + 4 * of_nat i)"
    using Suc.prems [rule_format, of "Suc _"] by (simp add: algebra_simps)
  with Suc.IH [of "a + 4"] Suc.prems [rule_format, of 0] show ?case by simp
qed

lemma four_of_nat_inj:
  assumes "i < 16" and "j < 16" and "(4 :: addr) * of_nat i = 4 * of_nat j"
  shows "i = j"
proof -
  have "unat (4 * of_nat k :: addr) = 4 * k" if "k < 16" for k
    using that by (simp add: unat_word_ariths unat_of_nat)
  with assms show ?thesis by (metis mult_cancel1 zero_neq_numeral)
qed

lemma load_stored:
  assumes "length ws \<le> 16"
  shows "load_words a (length ws) (store_words a ws m) = ws"
  using assms
proof (induction ws arbitrary: a m)
  case Nil
  then show ?case by simp
next
  case (Cons w ws)
  have "a \<noteq> a + 4 + 4 * of_nat i" if "i < length ws" for i
    using four_of_nat_inj [of 0 "Suc i"] that Cons.prems by (auto simp: algebra_simps)
  then have "store_words (a + 4) ws (m(a := w)) a = (m(a := w)) a" by (intro store_words_other) blast
  with Cons show ?case by simp
qed

section \<open>The exception keeps every context\<close>

lemma load_store_sp: "x \<noteq> No_sp \<Longrightarrow> load_sp x (store_sp x a s) = a"
  "x \<noteq> y \<Longrightarrow> load_sp y (store_sp x a s) = load_sp y s"
  by (cases x; cases y; auto simp: upd_thread_def)+

lemma kernel_fields_store_sp [simp]:
  "mem32 (store_sp x a s) = mem32 s" "psp (store_sp x a s) = psp s" "r4_r11 (store_sp x a s) = r4_r11 s"
  "held (store_sp x a s) = held s" "live (store_sp x a s) = live s" "stk (store_sp x a s) = stk s"
  "current_thread (store_sp x a s) = current_thread s" "interrupt_from_thread (store_sp x a s) = interrupt_from_thread s"
  "interrupt_to_thread (store_sp x a s) = interrupt_to_thread s"
  "thread_switch_interrupt_flag (store_sp x a s) = thread_switch_interrupt_flag s"
  "sp_of t (store_sp x a s) = sp_of t s"
  by (cases x; simp add: upd_thread_def sp_of_def)+

lemma load_sp_cong: "thr s' = thr s \<Longrightarrow> load_sp x s' = load_sp x s"
  by (cases x) simp_all

lemma sp_of_cong: "thr s' = thr s \<Longrightarrow> sp_of t s' = sp_of t s"
  by (simp add: sp_of_def)

lemma frame_words_mem: "i < 16 \<Longrightarrow> a + 4 * of_nat i \<in> frame_words a"
  by (auto simp: frame_words_def)

lemma frame_words_upper: "i < 8 \<Longrightarrow> a + 32 + 4 * of_nat i \<in> frame_words a"
  using frame_words_mem [of "i + 8" a] by (simp add: algebra_simps)

lemma load_frame_cong:
  assumes "\<forall>b\<in>frame_words a. m' b = m b"
  shows "load_words a 8 m' = load_words a 8 m" and "load_words (a + 32) 8 m' = load_words (a + 32) 8 m"
  by (rule load_words_cong; use assms frame_words_mem [of _ a] frame_words_upper [of _ a] in force)+

text \<open>The two halves of the handler, for a switch that saves the context the processor holds.\<close>

lemma taken_switch:
  assumes st: "stacks_ok s" and sw: "switch_ok s" and fl: "thread_switch_interrupt_flag s \<noteq> 0"
  defines "m \<equiv> store_words (psp s - 32) (r4_r11 s) (mem32 s)"
    and "to \<equiv> sp_of (current_thread s) s"
  shows "held (PendSV_Handler s) = to" and "mem32 (PendSV_Handler s) = m"
    and "thread_switch_interrupt_flag (PendSV_Handler s) = 0"
    and "x \<in> live s \<Longrightarrow> load_sp x (PendSV_Handler s) = (if x = held s then psp s - 32 else load_sp x s)"
    and "psp (PendSV_Handler s) = (if to = held s then psp s - 32 else load_sp to s) + 32"
    and "r4_r11 (PendSV_Handler s) = load_words (if to = held s then psp s - 32 else load_sp to s) 8 m"
    and "live (PendSV_Handler s) = live s" "stk (PendSV_Handler s) = stk s"
    and "sp_of t (PendSV_Handler s) = sp_of t s" "current_thread (PendSV_Handler s) = current_thread s"
proof -
  have ref: "interrupt_from_thread s = held s" "interrupt_to_thread s = to" "held s \<noteq> No_sp"
    using sw st fl by (auto simp: switch_ok_def stacks_ok_def to_def)
  define u where "u = push_context (s\<lparr>primask := True, thread_switch_interrupt_flag := 0\<rparr>)"
  have u: "u = store_sp (held s) (psp s - 32) (s\<lparr>primask := True, thread_switch_interrupt_flag := 0, mem32 := m\<rparr>)"
    using ref by (simp add: u_def push_context_def m_def Let_def)
  have h: "PendSV_Handler s = (pop_context u)\<lparr>primask := primask s\<rparr>"
    using fl by (simp add: PendSV_Handler_def u_def hw_interrupt_suspend_def hw_interrupt_recover_def)
  have sp: "load_sp x u = (if x = held s then psp s - 32 else load_sp x s)" if "x \<in> live s" for x
    using ref(3) load_sp_cong [of "s\<lparr>primask := True, thread_switch_interrupt_flag := 0, mem32 := m\<rparr>" s x]
    by (simp add: u load_store_sp)
  have uf: "interrupt_to_thread u = to" "mem32 u = m" by (simp_all add: u ref)
  have to: "to \<in> live s" using sw by (simp add: switch_ok_def to_def)
  show "held (PendSV_Handler s) = to" "mem32 (PendSV_Handler s) = m" "thread_switch_interrupt_flag (PendSV_Handler s) = 0"
    "live (PendSV_Handler s) = live s" "stk (PendSV_Handler s) = stk s" "current_thread (PendSV_Handler s) = current_thread s"
    by (simp_all add: h pop_context_def u ref Let_def)
  show "psp (PendSV_Handler s) = (if to = held s then psp s - 32 else load_sp to s) + 32"
    "r4_r11 (PendSV_Handler s) = load_words (if to = held s then psp s - 32 else load_sp to s) 8 m"
    by (simp_all add: h pop_context_def Let_def uf sp [OF to])
  show "x \<in> live s \<Longrightarrow> load_sp x (PendSV_Handler s) = (if x = held s then psp s - 32 else load_sp x s)"
    using sp [of x] load_sp_cong [of "PendSV_Handler s" u x] by (simp add: h pop_context_def Let_def)
  have "thr (PendSV_Handler s) = thr u" by (simp add: h pop_context_def Let_def)
  then have "sp_of t (PendSV_Handler s) = sp_of t u" by (rule sp_of_cong)
  also have "\<dots> = sp_of t s" unfolding u kernel_fields_store_sp by (rule sp_of_cong) simp
  finally show "sp_of t (PendSV_Handler s) = sp_of t s" .
qed

lemma not_taken_switch:
  assumes "thread_switch_interrupt_flag s = 0"
  shows "PendSV_Handler s = s"
  using assms by (simp add: PendSV_Handler_def hw_interrupt_suspend_def hw_interrupt_recover_def)

lemma PendSV_keeps_contexts:
  assumes st: "stacks_ok s" and sw: "switch_ok s" and x: "x \<in> live s"
  shows "context_of x (PendSV_Handler s) = context_of x s" and "frame_addr x (PendSV_Handler s) = frame_addr x s"
proof -
  have "context_of x (PendSV_Handler s) = context_of x s \<and> frame_addr x (PendSV_Handler s) = frame_addr x s"
  proof (cases "thread_switch_interrupt_flag s = 0")
    case True
    then show ?thesis by (simp add: not_taken_switch)
  next
    case False
    let ?m = "store_words (psp s - 32) (r4_r11 s) (mem32 s)" and ?to = "sp_of (current_thread s) s"
    note t = taken_switch [OF st sw False]
    have len: "length (r4_r11 s) = 8" and fr: "\<forall>x\<in>live s. frame_words (frame_addr x s) \<subseteq> stk s x"
      and dj: "\<forall>x\<in>live s. \<forall>y\<in>live s. x \<noteq> y \<longrightarrow> stk s x \<inter> stk s y = {}" and hl: "held s \<in> live s"
      using st by (auto simp: stacks_ok_def)
    have fa: "frame_addr x (PendSV_Handler s) = frame_addr x s"
      using t(4) [OF x] by (auto simp: frame_addr_def t(1,5))
    have top: "store_words (psp s - 32) (r4_r11 s) (mem32 s) (psp s + 4 * of_nat i) = mem32 s (psp s + 4 * of_nat i)"
      if "i < 8" for i
    proof (rule store_words_other, intro allI impI)
      fix j assume "j < length (r4_r11 s)"
      then have "(4 :: addr) * of_nat (i + 8) \<noteq> 4 * of_nat j"
        using four_of_nat_inj [of "i + 8" j] that len by auto
      then show "psp s + 4 * of_nat i \<noteq> psp s - 32 + 4 * of_nat j" by (auto simp: algebra_simps)
    qed
    show ?thesis
    proof (cases "x = held s")
      case True
      have "load_words (psp s - 32) 8 ?m = r4_r11 s" using load_stored [of "r4_r11 s" "psp s - 32"] len by simp
      moreover have "load_words (psp s) 8 ?m = load_words (psp s) 8 (mem32 s)"
        by (rule load_words_cong) (use top in blast)
      ultimately show ?thesis using True fa by (simp add: context_of_def t(1,2,6)) (simp add: frame_addr_def)
    next
      case False
      have "?m b = mem32 s b" if "b \<in> frame_words (load_sp x s)" for b
      proof (rule store_words_other, intro allI impI)
        fix j assume "j < length (r4_r11 s)"
        then have "psp s - 32 + 4 * of_nat j \<in> stk s (held s)"
          using fr hl frame_words_mem [of j "psp s - 32"] len by (force simp: frame_addr_def)
        moreover have "frame_words (load_sp x s) \<subseteq> stk s x" using bspec [OF fr x] False by (simp add: frame_addr_def)
        then have "b \<in> stk s x" using that by blast
        ultimately show "b \<noteq> psp s - 32 + 4 * of_nat j" using dj x hl False by blast
      qed
      then have "load_words (load_sp x s) 8 ?m = load_words (load_sp x s) 8 (mem32 s)"
        "load_words (load_sp x s + 32) 8 ?m = load_words (load_sp x s + 32) 8 (mem32 s)"
        by (intro load_frame_cong; blast)+
      then show ?thesis using False fa by (simp add: context_of_def t(1,2,6)) (auto simp: frame_addr_def)
    qed
  qed
  then show "context_of x (PendSV_Handler s) = context_of x s" "frame_addr x (PendSV_Handler s) = frame_addr x s"
    by simp_all
qed

lemma PendSV_live: "live (PendSV_Handler s) = live s"
  by (simp add: PendSV_Handler_def hw_interrupt_suspend_def hw_interrupt_recover_def pop_context_def push_context_def Let_def)

lemma load_words_length [simp]: "length (load_words a n m) = n"
  by (induction n arbitrary: a) simp_all

lemma PendSV_flag: "stacks_ok s \<Longrightarrow> switch_ok s \<Longrightarrow> thread_switch_interrupt_flag (PendSV_Handler s) = 0"
  using taken_switch(3) [of s] not_taken_switch [of s] by (cases "thread_switch_interrupt_flag s = 0") auto

lemma PendSV_ok:
  assumes "stacks_ok s" and "switch_ok s"
  shows "stacks_ok (PendSV_Handler s)" and "switch_ok (PendSV_Handler s)"
    and "held (PendSV_Handler s) = sp_of (current_thread s) s"
proof -
  have "stacks_ok (PendSV_Handler s) \<and> switch_ok (PendSV_Handler s) \<and> held (PendSV_Handler s) = sp_of (current_thread s) s"
  proof (cases "thread_switch_interrupt_flag s = 0")
    case True
    then show ?thesis using assms by (simp add: not_taken_switch switch_ok_def)
  next
    case False
    note t = taken_switch [OF assms False]
    have "stacks_ok (PendSV_Handler s)"
      using assms PendSV_keeps_contexts(2) [OF assms]
      by (simp add: stacks_ok_def t(1,6,7,8)) (simp add: switch_ok_def)
    then show ?thesis using assms(2) by (simp add: switch_ok_def t(1,3,7,9,10))
  qed
  then show "stacks_ok (PendSV_Handler s)" "switch_ok (PendSV_Handler s)"
    "held (PendSV_Handler s) = sp_of (current_thread s) s" by simp_all
qed

section \<open>Requests\<close>

lemma switch_request_ok:
  assumes sw: "switch_ok s" and r: "sched_switch_thread s = Some s'" and l: "sp_of (current_thread s') s' \<in> live s"
  shows "switch_ok s'" and "context_of x s' = context_of x s" and "frame_addr x s' = frame_addr x s"
    and "stacks_ok s' = stacks_ok s" and "live s' = live s"
proof -
  from r obtain t where t: "s' = switched t s" by (auto simp: sched_switch_thread_highest_eq)
  have f: "thr s' = thr s" "held s' = held s" "live s' = live s" "stk s' = stk s" "mem32 s' = mem32 s" "psp s' = psp s"
    "r4_r11 s' = r4_r11 s" "current_thread s' = t"
    by (simp_all add: t switched_def hw_context_switch_def Let_def)
  show "frame_addr x s' = frame_addr x s" for x using load_sp_cong [OF f(1)] by (simp add: frame_addr_def f)
  then show "context_of x s' = context_of x s" and "stacks_ok s' = stacks_ok s"
    by (simp_all add: context_of_def stacks_ok_def f)
  show "live s' = live s" by (rule f)
  show "switch_ok s'"
    using sw l unfolding switch_ok_def f sp_of_cong [OF f(1)]
    by (auto simp: t switched_def hw_context_switch_def Let_def sp_of_def split: if_splits)
qed

section \<open>Runs\<close>

text \<open>
  Code other than the switch: of the thread that holds the processor, of the kernel on its behalf, or of an interrupt
  handler. It may create and end contexts and change everything else but the frames
  and saved stack pointers of the contexts that do not run, the pending switch, and which context
  the current thread runs in; it stays within its stack. For \<open>x\<close> itself it is an interrupt handler: it gives the
  registers and the stack back as it found them.
\<close>

definition code_step :: "spref \<Rightarrow> machine \<Rightarrow> machine \<Rightarrow> bool" where
  "code_step x s s' \<longleftrightarrow>
     thread_switch_interrupt_flag s' = thread_switch_interrupt_flag s \<and>
     interrupt_from_thread s' = interrupt_from_thread s \<and> interrupt_to_thread s' = interrupt_to_thread s \<and>
     held s' = held s \<and> sp_of (current_thread s') s' = sp_of (current_thread s) s \<and>
     sp_of (current_thread s') s' \<in> live s' \<and> x \<in> live s' \<and> stacks_ok s' \<and>
     (\<forall>y\<in>live s \<inter> live s'. y \<noteq> held s \<longrightarrow>
        load_sp y s' = load_sp y s \<and> (\<forall>a\<in>frame_words (load_sp y s). mem32 s' a = mem32 s a)) \<and>
     (held s = x \<longrightarrow> context_of x s' = context_of x s)"

inductive run :: "spref \<Rightarrow> machine \<Rightarrow> machine \<Rightarrow> bool" for x where
  stop: "run x s s"
| code: "run x s s' \<Longrightarrow> code_step x s' s'' \<Longrightarrow> run x s s''"
| request: "run x s s' \<Longrightarrow> sched_switch_thread s' = Some s'' \<Longrightarrow> sp_of (current_thread s'') s'' \<in> live s' \<Longrightarrow> run x s s''"
| pendsv: "run x s s' \<Longrightarrow> run x s (PendSV_Handler s')"

lemma code_step_keeps:
  assumes "code_step x s s'" and "switch_ok s" and "x \<in> live s"
  shows "switch_ok s'" and "stacks_ok s'" and "x \<in> live s'" and "context_of x s' = context_of x s"
proof -
  note c = assms(1) [unfolded code_step_def]
  show "stacks_ok s'" "x \<in> live s'" "switch_ok s'" using c assms(2) by (auto simp: switch_ok_def)
  show "context_of x s' = context_of x s"
  proof (cases "held s = x")
    case True
    then show ?thesis using c by simp
  next
    case False
    then have "load_sp x s' = load_sp x s" "\<forall>a\<in>frame_words (load_sp x s). mem32 s' a = mem32 s a"
      using c assms(3) by auto
    then show ?thesis using False c load_frame_cong [of "load_sp x s" "mem32 s'" "mem32 s"]
      by (auto simp: context_of_def frame_addr_def)
  qed
qed

lemma run_keeps:
  assumes "run x s s'" and "stacks_ok s" and "switch_ok s" and "x \<in> live s"
  shows "stacks_ok s' \<and> switch_ok s' \<and> x \<in> live s' \<and> context_of x s' = context_of x s"
  using assms
proof (induction rule: run.induct)
  case (stop s)
  then show ?case by simp
next
  case (code s s' s'')
  then show ?case using code_step_keeps [OF code.hyps(2)] by auto
next
  case (request s s' s'')
  then show ?case using switch_request_ok [OF _ request.hyps(2,3)] by auto
next
  case (pendsv s s')
  then have "stacks_ok s'" "switch_ok s'" "x \<in> live s'" "context_of x s' = context_of x s" by auto
  then show ?case using PendSV_ok [of s'] PendSV_keeps_contexts [of s' x] PendSV_live [of s'] by simp
qed

section \<open>A concrete machine\<close>

text \<open>Thread 0x100 runs with 1 to 8 in r4 to r11; thread 0x200 is saved and first in its ready list.\<close>

definition ready_first :: "addr \<Rightarrow> lnode links" where
  "ready_first t = \<lparr>next_of = (\<lambda>x. x)(Ready_head 10 := Thread_node t), prev_of = (\<lambda>x. x)(Ready_head 10 := Thread_node t)\<rparr>"

definition two_threads :: machine where
  "two_threads = kernel.extend (boot_kernel\<lparr>links := ready_first 0x200, thread_ready_group := 1024, current_thread := 0x100,
       thr := \<lambda>_. (thread_at PTHREAD_TYPE_USER 10)\<lparr>th_status := PTHREAD_STATE_READY, th_sp := 0x7020\<rparr>,
       thread_switch_interrupt_flag := 0\<rparr>)
     \<lparr>r4_r11 = [1, 2, 3, 4, 5, 6, 7, 8], psp = 0x6040, held = Sp 0x100, live = {Sp 0x100, Sp 0x200},
      stk = (\<lambda>_. frame_words 0x7020)(Sp 0x100 := frame_words 0x6020)\<rparr>"

lemma two_threads_fields:
  "links two_threads = ready_first 0x200" "thread_ready_group two_threads = 1024" "current_thread two_threads = 0x100"
  "thr two_threads = (\<lambda>_. (thread_at PTHREAD_TYPE_USER 10)\<lparr>th_status := PTHREAD_STATE_READY, th_sp := 0x7020\<rparr>)"
  "thread_switch_interrupt_flag two_threads = 0" "r4_r11 two_threads = [1, 2, 3, 4, 5, 6, 7, 8]" "psp two_threads = 0x6040"
  "held two_threads = Sp 0x100" "live two_threads = {Sp 0x100, Sp 0x200}"
  "stk two_threads = (\<lambda>_. frame_words 0x7020)(Sp 0x100 := frame_words 0x6020)"
  by (simp_all add: two_threads_def kernel.defs)

lemma two_threads_ok: "stacks_ok two_threads" "switch_ok two_threads"
proof -
  have "frame_words 0x7020 \<inter> frame_words 0x6020 = {}"
    by (simp add: frame_words_def lessThan_nat_numeral lessThan_Suc)
  then show "stacks_ok two_threads"
    by (auto simp: stacks_ok_def frame_addr_def two_threads_fields)
  show "switch_ok two_threads"
    by (simp add: switch_ok_def sp_of_def two_threads_fields pthread_state_defs)
qed

lemma ready_first_highest:
  assumes "links s = ready_first t" and "thread_ready_group s = 1024"
  shows "sched_switch_thread s = Some (switched t s)"
proof -
  have "sched_get_highest_ready_group 1024 = 10" by code_simp
  then show ?thesis using assms
    by (simp add: sched_switch_thread_highest_eq highest_ready_thread_def ready_first_def)
qed

text \<open>0x100 is switched out, 0x200 clears the registers and makes 0x100 ready, 0x100 is switched in again.\<close>

lemma two_threads_run:
  "\<exists>s. run (Sp 0x100) two_threads s \<and> held s = Sp 0x100 \<and> sp_of (current_thread s) s = Sp 0x100"
proof -
  let ?x = "Sp 0x100"
  define s1 where "s1 = switched 0x200 two_threads"
  have r1: "sched_switch_thread two_threads = Some s1"
    unfolding s1_def by (rule ready_first_highest) (simp_all add: two_threads_fields)
  have f1: "thr s1 = thr two_threads" "current_thread s1 = 0x200" "links s1 = ready_first 0x200"
    "thread_ready_group s1 = 1024" "live s1 = {Sp 0x100, Sp 0x200}" "thread_switch_interrupt_flag s1 = 1"
    by (simp_all add: s1_def two_threads_fields)
      (simp_all add: switched_def hw_context_switch_def Let_def two_threads_fields)
  have sp: "sp_of t s1 = Sp t" for t by (simp add: sp_of_def f1 two_threads_fields pthread_state_defs)
  have ok1: "stacks_ok s1" "switch_ok s1"
    using switch_request_ok [OF two_threads_ok(2) r1] two_threads_ok sp by (simp_all add: f1 two_threads_fields)
  define s2 where "s2 = PendSV_Handler s1"
  note t2 = taken_switch [OF ok1, folded s2_def]
  have f2: "held s2 = Sp 0x200" "current_thread s2 = 0x200" "live s2 = {Sp 0x100, Sp 0x200}"
    "sp_of t s2 = Sp t" for t using t2 by (simp_all add: f1 sp)
  have ok2: "stacks_ok s2" "switch_ok s2" using PendSV_ok [OF ok1] by (simp_all add: s2_def)
  define s3 where "s3 = s2\<lparr>r4_r11 := [0, 0, 0, 0, 0, 0, 0, 0], links := ready_first 0x100, thread_ready_group := 1024\<rparr>"
  have sp3: "load_sp y s3 = load_sp y s2" "sp_of t s3 = sp_of t s2" for y t
    by (cases y) (simp_all add: s3_def sp_of_def)
  have "frame_addr y s3 = frame_addr y s2" for y by (simp add: frame_addr_def sp3) (simp add: s3_def)
  then have "stacks_ok s3"
    using ok2(1) by (simp add: stacks_ok_def) (simp add: s3_def)
  then have c: "code_step ?x s2 s3"
    using f2 by (simp add: code_step_def sp3) (simp add: s3_def)
  have ok3: "switch_ok s3" using code_step_keeps(1) [OF c ok2(2)] by (simp add: f2)
  define s4 where "s4 = switched 0x100 s3"
  have r4: "sched_switch_thread s3 = Some s4" unfolding s4_def by (rule ready_first_highest) (simp_all add: s3_def)
  have f4: "current_thread s4 = 0x100" "sp_of t s4 = Sp t" "live s4 = {Sp 0x100, Sp 0x200}" for t
    using f2(3,4) sp3(2) by (simp_all add: s4_def sp_of_def) (simp add: switched_def hw_context_switch_def s3_def Let_def)
  have l3: "live s3 = {Sp 0x100, Sp 0x200}" using f2(3) by (simp add: s3_def)
  have ok4: "stacks_ok s4" "switch_ok s4"
    using switch_request_ok [OF ok3 r4] \<open>stacks_ok s3\<close> by (simp_all add: f4 l3)
  have "run ?x two_threads s1"
    by (rule run.request [OF run.stop r1]) (simp add: sp f1 two_threads_fields)
  then have "run ?x two_threads s3" using run.code [OF run.pendsv c [unfolded s2_def]] by simp
  then have "run ?x two_threads (PendSV_Handler s4)"
    by (intro run.pendsv run.request [OF _ r4]) (simp_all add: f4 l3)
  moreover have "held (PendSV_Handler s4) = ?x" using PendSV_ok(3) [OF ok4] by (simp add: f4)
  moreover from this have "sp_of (current_thread (PendSV_Handler s4)) (PendSV_Handler s4) = ?x"
    using PendSV_ok(2) [OF ok4] PendSV_flag [OF ok4] by (simp add: switch_ok_def)
  ultimately show ?thesis by blast
qed

section \<open>Properties\<close>

text \<open>
  C5. A context switch is transparent: take a context that holds the processor, and any sequence of scheduler
  requests (several may be merged before one exception), PendSV exceptions, code of other contexts within their stacks, and
  interrupt handlers. The exception always gives the processor to the current thread; and whenever the context holds the
  processor again, r4 to r11, the stack pointer and the eight words the processor had pushed are
  what they were. The condition on the other code is that it does not change whether the current thread is in a
  signal handler.
\<close>
theorem context_switch_transparent:
  assumes "stacks_ok s" and "switch_ok s" and "held s = x" and "run x s s'"
  shows "held (PendSV_Handler s') = sp_of (current_thread s') s' \<and>
     (held s' = x \<longrightarrow> r4_r11 s' = r4_r11 s \<and> psp s' = psp s \<and>
        load_words (psp s) 8 (mem32 s') = load_words (psp s) 8 (mem32 s))"
proof -
  have "x \<in> live s" using assms(1,3) by (auto simp: stacks_ok_def)
  with run_keeps [OF assms(4,1,2)] have
    k: "stacks_ok s'" "switch_ok s'" "context_of x s' = context_of x s" by auto
  show ?thesis using PendSV_ok(3) [OF k(1,2)] k(3) assms(3) by (auto simp: context_of_def frame_addr_def)
qed

theorem context_switch_transparent_witness:
  "\<exists>s'. run (Sp 0x100) two_threads s' \<and> held s' = Sp 0x100 \<and> r4_r11 s' = [1, 2, 3, 4, 5, 6, 7, 8] \<and> psp s' = 0x6040"
  using context_switch_transparent [OF two_threads_ok two_threads_fields(8)] two_threads_run
  by (metis two_threads_fields(6,7))

end
