(* ===== verification/Cstring.thy ===== *)
theory Cstring
  imports Prelude "HOL-Library.Signed_Division"
begin

text \<open>
  The string functions of \<^verbatim>\<open>hwutil/kernel/source/string.c\<close> over a byte memory. \<^verbatim>\<open>char\<close> is unsigned, as on ARM. A
  loop that needs a terminating zero which never comes runs forever (\<open>None\<close>); signed
  overflow is undefined and also \<open>None\<close>. The loops that count a \<^verbatim>\<open>size_t\<close> down are recursions over its value.
\<close>

section \<open>Memory blocks\<close>

type_synonym bytes = "addr \<Rightarrow> os_u8"

primrec memcpy_loop :: "nat \<Rightarrow> addr \<Rightarrow> addr \<Rightarrow> bytes \<Rightarrow> bytes" where
  "memcpy_loop 0 d s m = m"
| "memcpy_loop (Suc n) d s m = memcpy_loop n (d + 1) (s + 1) (m(d := m s))"

definition memcpy :: "addr \<Rightarrow> addr \<Rightarrow> os_u32 \<Rightarrow> bytes \<Rightarrow> addr \<times> bytes" where
  "memcpy dest src count m = (dest, memcpy_loop (unat count) dest src m)"

primrec memset_loop :: "nat \<Rightarrow> addr \<Rightarrow> os_u8 \<Rightarrow> bytes \<Rightarrow> bytes" where
  "memset_loop 0 s ch m = m"
| "memset_loop (Suc n) s ch m = memset_loop n (s + 1) ch (m(s := ch))"

definition memset :: "addr \<Rightarrow> os_u32 \<Rightarrow> os_u32 \<Rightarrow> bytes \<Rightarrow> addr \<times> bytes" where
  "memset src ch count m = (src, memset_loop (unat count) src (ucast ch) m)"

definition char_diff :: "bytes \<Rightarrow> addr \<Rightarrow> addr \<Rightarrow> int" where
  "char_diff m s1 s2 = uint (m s1) - uint (m s2)"

text \<open>The count is decremented before it is tested, so that a count of 0 stands for \<open>2 ^ 32\<close>.\<close>

primrec memcmp_loop :: "nat \<Rightarrow> bytes \<Rightarrow> addr \<Rightarrow> addr \<Rightarrow> int" where
  "memcmp_loop 0 m s1 s2 = char_diff m s1 s2"
| "memcmp_loop (Suc n) m s1 s2 = (if m s1 = m s2 then memcmp_loop n m (s1 + 1) (s2 + 1) else char_diff m s1 s2)"

definition memcmp :: "bytes \<Rightarrow> addr \<Rightarrow> addr \<Rightarrow> os_u32 \<Rightarrow> int" where
  "memcmp m s1 s2 count = memcmp_loop (unat (count - 1)) m s1 s2"

section \<open>Strings\<close>

partial_function (option) strcmp :: "bytes \<Rightarrow> addr \<Rightarrow> addr \<Rightarrow> int option" where
  "strcmp m s1 s2 = (if m s1 \<noteq> 0 \<and> m s1 = m s2 then strcmp m (s1 + 1) (s2 + 1) else Some (char_diff m s1 s2))"

primrec strncmp_loop :: "nat \<Rightarrow> bytes \<Rightarrow> addr \<Rightarrow> addr \<Rightarrow> int" where
  "strncmp_loop 0 m s1 s2 = char_diff m s1 s2"
| "strncmp_loop (Suc n) m s1 s2 =
     (if m s1 \<noteq> 0 \<and> m s1 = m s2 then strncmp_loop n m (s1 + 1) (s2 + 1) else char_diff m s1 s2)"

definition strncmp :: "bytes \<Rightarrow> addr \<Rightarrow> addr \<Rightarrow> os_u32 \<Rightarrow> int" where
  "strncmp m s1 s2 count = strncmp_loop (unat count) m s1 s2"

partial_function (option) strend :: "bytes \<Rightarrow> addr \<Rightarrow> addr option" where
  "strend m s = (if m s \<noteq> 0 then strend m (s + 1) else Some s)"

definition strlen :: "bytes \<Rightarrow> addr \<Rightarrow> os_u32 option" where
  "strlen m src = do { s \<leftarrow> strend m src; Some (s - src) }"

primrec strnend :: "nat \<Rightarrow> bytes \<Rightarrow> addr \<Rightarrow> addr" where
  "strnend 0 m s = s"
| "strnend (Suc n) m s = (if m s \<noteq> 0 then strnend n m (s + 1) else s)"

definition strnlen :: "bytes \<Rightarrow> addr \<Rightarrow> os_u32 \<Rightarrow> os_u32" where
  "strnlen m src count = strnend (unat count) m src - src"

partial_function (option) strchr_loop :: "bytes \<Rightarrow> addr \<Rightarrow> os_u32 \<Rightarrow> addr option" where
  "strchr_loop m str ch = (if m str \<noteq> 0 \<and> ucast (m str) \<noteq> ch then strchr_loop m (str + 1) ch else Some str)"

definition strchr :: "bytes \<Rightarrow> addr \<Rightarrow> os_u32 \<Rightarrow> addr option" where
  "strchr m str ch = do { s \<leftarrow> strchr_loop m str ch; Some (if ucast (m s) = ch then s else 0) }"

function strstr_loop :: "bytes \<Rightarrow> addr \<Rightarrow> addr \<Rightarrow> int \<Rightarrow> int \<Rightarrow> addr" where
  "strstr_loop m s1 s2 l1 l2 =
     (if l1 \<ge> l2
      then if strncmp m s1 s2 (word_of_int l2) = 0 then s1 else strstr_loop m (s1 + 1) s2 (l1 - 1) l2
      else 0)"
  by pat_completeness auto
termination by (relation "measure (\<lambda>(m, s1, s2, l1, l2). nat (l1 - l2 + 1))") auto

declare strstr_loop.simps [simp del]

definition strstr :: "bytes \<Rightarrow> addr \<Rightarrow> addr \<Rightarrow> addr option" where
  "strstr m s1 s2 =
     do {
       l2 \<leftarrow> strlen m s2;
       let l2 = sint l2 - 1;
       l1 \<leftarrow> strlen m s1;
       Some (strstr_loop m s1 s2 (sint l1) l2)
     }"

section \<open>Numbers\<close>

definition is_digit :: "os_u8 \<Rightarrow> bool" where
  "is_digit c \<longleftrightarrow> 48 \<le> c \<and> c \<le> 57"

text \<open>\<^verbatim>\<open>(unsigned long)(a - 9) < 5u || ' ' == a\<close>\<close>

definition is_space :: "os_u8 \<Rightarrow> bool" where
  "is_space a \<longleftrightarrow> (ucast a - 9 :: os_u32) < 5 \<or> a = 32"

definition int32 :: "int \<Rightarrow> int option" where
  "int32 x = (if - (2 ^ 31) \<le> x \<and> x < 2 ^ 31 then Some x else None)"

partial_function (option) skip_atoi_loop :: "bytes \<Rightarrow> addr \<Rightarrow> int \<Rightarrow> (int \<times> addr) option" where
  "skip_atoi_loop m src count =
     (if is_digit (m src)
      then do {
        count \<leftarrow> int32 (count * 10);
        count \<leftarrow> int32 (count + uint (m src));
        count \<leftarrow> int32 (count - 48);
        skip_atoi_loop m (src + 1) count
      }
      else Some (count, src))"

definition skip_atoi :: "bytes \<Rightarrow> addr \<Rightarrow> (int \<times> addr) option" where
  "skip_atoi m src = skip_atoi_loop m src 0"

partial_function (option) skip_space :: "bytes \<Rightarrow> addr \<Rightarrow> addr option" where
  "skip_space m p = (if is_space (m p) then skip_space m (p + 1) else Some p)"

partial_function (option) atoi_loop :: "bytes \<Rightarrow> addr \<Rightarrow> int \<Rightarrow> int option" where
  "atoi_loop m p n =
     (if is_digit (m p)
      then do {
        t \<leftarrow> int32 (10 * n);
        n \<leftarrow> int32 (t + (uint (m p) - 48));
        atoi_loop m (p + 1) n
      }
      else Some n)"

definition atoi :: "bytes \<Rightarrow> addr \<Rightarrow> int option" where
  "atoi m str =
     do {
       p \<leftarrow> skip_space m str;
       let sign = (if m p = 45 then - 1 else 1);
       let p = (if m p = 43 \<or> m p = 45 then p + 1 else p);
       n \<leftarrow> atoi_loop m p 0;
       Some (sign * n)
     }"

partial_function (option) itoa_scale :: "int \<Rightarrow> int \<Rightarrow> int option" where
  "itoa_scale number i = (if number sdiv i \<noteq> 0 then do { i \<leftarrow> int32 (i * 10); itoa_scale number i } else Some i)"

function itoa_digits :: "int \<Rightarrow> int \<Rightarrow> addr \<Rightarrow> bytes \<Rightarrow> addr \<times> bytes" where
  "itoa_digits number i pch m =
     (let i = i sdiv 10
      in if i \<noteq> 0 then itoa_digits (number smod i) i (pch + 1) (m(pch := word_of_int (number sdiv i + 48)))
         else (pch, m))"
  by pat_completeness auto
termination
  by (relation "measure (\<lambda>(number, i, pch, m). nat \<bar>i\<bar>)") (auto simp: signed_divide_int_def abs_mult)

declare itoa_digits.simps [simp del]

definition itoa :: "int \<Rightarrow> addr \<Rightarrow> bytes \<Rightarrow> (addr \<times> bytes) option" where
  "itoa number chBuffer m =
     (if chBuffer = 0 then Some (0, m)
      else do {
        i \<leftarrow> itoa_scale number 1;
        (number, pch, m) \<leftarrow>
          (if number < 0 then do { number \<leftarrow> int32 (- number); Some (number, chBuffer + 1, m(chBuffer := 45)) }
           else Some (number, chBuffer, m));
        let i = (if number = 0 then 10 else i);
        let (pch, m) = itoa_digits number i pch m;
        Some (chBuffer, m(pch := 0))
      })"

definition CH_IS_TEXT :: int where "CH_IS_TEXT = 0"
definition CH_IS_BACKSPACE :: int where "CH_IS_BACKSPACE = 1"
definition CH_IS_ENTER :: int where "CH_IS_ENTER = 2"

definition ch_classify :: "os_u8 \<Rightarrow> int" where
  "ch_classify ch =
     (if ch \<le> 57 \<and> 48 \<le> ch then CH_IS_TEXT
      else if ch \<le> 122 \<and> 97 \<le> ch then CH_IS_TEXT
      else if ch \<le> 90 \<and> 65 \<le> ch then CH_IS_TEXT
      else if ch = 95 then CH_IS_TEXT
      else if ch = 32 then CH_IS_TEXT
      else if 0x7f = ch then CH_IS_BACKSPACE
      else if 0x0d = ch then CH_IS_ENTER
      else - 1)"

section \<open>What the memory holds\<close>

text \<open>A zero-terminated string, and a block of bytes.\<close>

primrec cstr :: "bytes \<Rightarrow> addr \<Rightarrow> os_u8 list \<Rightarrow> bool" where
  "cstr m a [] \<longleftrightarrow> m a = 0"
| "cstr m a (x # xs) \<longleftrightarrow> m a = x \<and> x \<noteq> 0 \<and> cstr m (a + 1) xs"

primrec block :: "bytes \<Rightarrow> addr \<Rightarrow> os_u8 list \<Rightarrow> bool" where
  "block m a [] \<longleftrightarrow> True"
| "block m a (x # xs) \<longleftrightarrow> m a = x \<and> block m (a + 1) xs"

lemma block_append: "block m a (xs @ ys) \<longleftrightarrow> block m a xs \<and> block m (a + of_nat (length xs)) ys"
  by (induction xs arbitrary: a) (auto simp: add.assoc)

lemma cstr_block: "cstr m a xs \<longleftrightarrow> block m a (xs @ [0]) \<and> 0 \<notin> set xs"
  by (induction xs arbitrary: a) auto

lemma block_cong: "(\<And>i. i < length xs \<Longrightarrow> m (a + of_nat i) = m' (a + of_nat i)) \<Longrightarrow> block m a xs = block m' a xs"
proof (induction xs arbitrary: a)
  case (Cons x xs)
  have "m a = m' a" using Cons.prems [of 0] by simp
  moreover have "block m (a + 1) xs = block m' (a + 1) xs"
    using Cons.prems [of "Suc i" for i] by (intro Cons.IH) (auto simp: add.assoc)
  ultimately show ?case by simp
qed simp

lemma strend_cstr: "cstr m a xs \<Longrightarrow> strend m a = Some (a + of_nat (length xs))"
  by (induction xs arbitrary: a) (auto simp: strend.simps [of m] add.assoc)

lemma strlen_cstr: "cstr m a xs \<Longrightarrow> strlen m a = Some (of_nat (length xs))"
  by (simp add: strlen_def strend_cstr)

lemma cstr_drop: "cstr m a xs \<Longrightarrow> n \<le> length xs \<Longrightarrow> cstr m (a + of_nat n) (drop n xs)"
proof (induction n arbitrary: a xs)
  case (Suc n)
  then show ?case by (cases xs) (auto simp: add.assoc [symmetric])
qed simp

lemma char_diff_0: "char_diff m a b = 0 \<longleftrightarrow> m a = m b"
  by (simp add: char_diff_def word_uint_eq_iff)

text \<open>
  \<^verbatim>\<open>strncmp\<close> tests the count before it is decremented and then compares once more:
  it compares one character more than the count says.
\<close>

lemma strncmp_loop_eq_0:
  "cstr m a xs \<Longrightarrow> cstr m b ys \<Longrightarrow> strncmp_loop n m a b = 0 \<longleftrightarrow> take (Suc n) xs = take (Suc n) ys"
proof (induction n arbitrary: a b xs ys)
  case 0
  then show ?case by (cases xs; cases ys) (auto simp: char_diff_0)
next
  case (Suc n)
  then show ?case by (cases xs; cases ys) (auto simp: char_diff_0)
qed

section \<open>Searching\<close>

primrec search :: "os_u8 list \<Rightarrow> os_u8 list \<Rightarrow> nat option" where
  "search ys [] = (if ys = [] then Some 0 else None)"
| "search ys (x # xs) = (if take (length ys) (x # xs) = ys then Some 0 else map_option Suc (search ys xs))"

lemma search_Some: "search ys xs = Some i \<Longrightarrow>
   take (length ys) (drop i xs) = ys \<and> (\<forall>j<i. take (length ys) (drop j xs) \<noteq> ys)"
proof (induction xs arbitrary: i)
  case (Cons x xs)
  show ?case
  proof (cases "take (length ys) (x # xs) = ys")
    case False
    then obtain k where k: "search ys xs = Some k" "i = Suc k" using Cons.prems by auto
    with Cons.IH [OF k(1)] False show ?thesis by (auto simp: less_Suc_eq_0_disj)
  qed (use Cons.prems in auto)
qed (auto split: if_splits)

lemma search_None: "ys \<noteq> [] \<Longrightarrow> search ys xs = None \<Longrightarrow> take (length ys) (drop i xs) \<noteq> ys"
proof (induction xs arbitrary: i)
  case (Cons x xs)
  then show ?case by (cases i) (auto split: if_splits)
qed (auto split: if_splits)

lemma strncmp_needle:
  assumes "cstr m a xs" and "cstr m b ys" and "ys \<noteq> []" and "length ys < 2 ^ 31"
  shows "strncmp m a b (word_of_int (int (length ys) - 1)) = 0 \<longleftrightarrow> take (length ys) xs = ys"
proof -
  have "word_of_int (int (length ys) - 1) = (of_nat (length ys - 1) :: os_u32)"
    using assms(3) by (cases ys) simp_all
  then have "unat (word_of_int (int (length ys) - 1) :: os_u32) = length ys - 1"
    using assms(4) by (simp add: unat_of_nat)
  moreover have "Suc (length ys - 1) = length ys" using assms(3) by (cases ys) auto
  ultimately show ?thesis using strncmp_loop_eq_0 [OF assms(1,2), of "length ys - 1"] by (simp add: strncmp_def)
qed

lemma strstr_loop_search:
  assumes "cstr m b ys" and "ys \<noteq> []" and "length ys < 2 ^ 31"
  shows "cstr m a xs \<Longrightarrow> strstr_loop m a b (int (length xs)) (int (length ys) - 1) =
     (case search ys xs of None \<Rightarrow> 0 | Some i \<Rightarrow> a + of_nat i)"
proof (induction xs arbitrary: a)
  case Nil
  have "strncmp m a b (word_of_int (int (length ys) - 1)) \<noteq> 0"
    using strncmp_needle [OF Nil assms] assms(2) by simp
  then show ?case using assms(2)
    by (simp add: strstr_loop.simps [of m a b 0] strstr_loop.simps [of m "a + 1" b "- 1"])
next
  case (Cons x xs)
  note ne = strncmp_needle [OF Cons.prems assms]
  show ?case
  proof (cases "length ys \<le> Suc (Suc (length xs))")
    case True
    then show ?thesis using ne Cons
      by (auto simp: strstr_loop.simps [of m a b "1 + int (length xs)"] add.assoc split: option.splits)
  next
    case False
    have "search ys zs = None" if "length zs < length ys" for zs
      using that by (induction zs) (auto dest: arg_cong [of _ _ length])
    from this [of "x # xs"] show ?thesis using False
      by (simp add: strstr_loop.simps [of m a b "1 + int (length xs)"] del: search.simps)
  qed
qed

lemma strstr_eq:
  assumes "cstr m s1 xs" and "cstr m s2 ys" and "ys \<noteq> []" and "length xs < 2 ^ 31" and "length ys < 2 ^ 31"
  shows "strstr m s1 s2 = Some (case search ys xs of None \<Rightarrow> 0 | Some i \<Rightarrow> s1 + of_nat i)"
proof -
  have sint: "sint (of_nat n :: os_u32) = int n" if "n < 2 ^ 31" for n
    using that by (simp add: signed_of_nat signed_take_bit_int_eq_self)
  show ?thesis
    using strstr_loop_search [OF assms(2,3,5,1)] assms(1,2)
    by (simp add: strstr_def strlen_cstr sint [OF assms(4)] sint [OF assms(5)])
qed

lemma strcmp_cstr: "cstr m a xs \<Longrightarrow> cstr m b ys \<Longrightarrow> \<exists>d. strcmp m a b = Some d \<and> (d = 0 \<longleftrightarrow> xs = ys)"
proof (induction xs arbitrary: a b ys)
  case Nil
  then show ?case by (cases ys) (auto simp: strcmp.simps [of m a] char_diff_0)
next
  case (Cons x xs)
  show ?case
  proof (cases ys)
    case Nil
    then show ?thesis using Cons.prems by (auto simp: strcmp.simps [of m a] char_diff_0)
  next
    case (Cons y zs)
    then show ?thesis using Cons.IH [of "a + 1" "b + 1" zs] Cons.prems
      by (auto simp: strcmp.simps [of m a b] char_diff_0)
  qed
qed

section \<open>Decimal digits\<close>

definition digit :: "nat \<Rightarrow> os_u8" where
  "digit d = of_nat (d + 48)"

text \<open>The digits of a number without leading zeros, and with exactly \<open>k\<close> digits.\<close>

function radix :: "nat \<Rightarrow> nat \<Rightarrow> nat list" where
  "radix b n = (if b < 2 \<or> n < b then [n] else radix b (n div b) @ [n mod b])"
  by pat_completeness auto
termination by (relation "measure snd") (auto intro: div_less_dividend)

declare radix.simps [simp del]

primrec digs :: "nat \<Rightarrow> nat \<Rightarrow> nat list" where
  "digs 0 n = []"
| "digs (Suc k) n = n div 10 ^ k # digs k (n mod 10 ^ k)"

lemma digs_snoc: "n < 10 ^ Suc k \<Longrightarrow> digs (Suc k) n = digs k (n div 10) @ [n mod 10]"
proof (induction k arbitrary: n)
  case (Suc k)
  have "n mod 10 ^ Suc k < 10 ^ Suc k" by simp
  from Suc.IH [OF this] have "digs (Suc k) (n mod 10 ^ Suc k) =
      digs k (n mod 10 ^ Suc k div 10) @ [n mod 10 ^ Suc k mod 10]" .
  moreover have "n mod 10 ^ Suc k mod 10 = n mod 10" by (simp add: mod_mod_cancel)
  moreover have "n mod 10 ^ Suc k div 10 = n div 10 mod 10 ^ k"
    by (simp add: mod_mult2_eq)
  moreover have "n div 10 ^ Suc k = n div 10 div 10 ^ k" by (simp add: div_mult2_eq)
  ultimately show ?case by simp
qed simp

lemma digs_radix: "10 ^ k \<le> n \<Longrightarrow> n < 10 ^ Suc k \<Longrightarrow> digs (Suc k) n = radix 10 n"
proof (induction k arbitrary: n)
  case 0
  then show ?case by (simp add: radix.simps)
next
  case (Suc k)
  have "digs (Suc (Suc k)) n = digs (Suc k) (n div 10) @ [n mod 10]" using Suc.prems(2) by (rule digs_snoc)
  moreover have "10 ^ k \<le> n div 10" "n div 10 < 10 ^ Suc k"
    using Suc.prems by (simp_all add: less_eq_div_iff_mult_less_eq div_less_iff_less_mult)
  moreover have "(10 :: nat) \<le> 10 ^ Suc k" by simp
  then have "\<not> n < 10" using Suc.prems(1) by linarith
  ultimately show ?case using Suc.IH [of "n div 10"] by (simp add: radix.simps [of 10 n])
qed

lemma digs_bound: "n < 10 ^ k \<Longrightarrow> d \<in> set (digs k n) \<Longrightarrow> d < 10"
proof (induction k arbitrary: n)
  case (Suc k)
  then show ?case using Suc.IH [of "n mod 10 ^ k"] by (auto simp: div_less_iff_less_mult)
qed simp

lemma radix_bound: "2 \<le> b \<Longrightarrow> d \<in> set (radix b n) \<Longrightarrow> d < b"
proof (induction b n rule: radix.induct)
  case (1 b n)
  then show ?case by (subst (asm) (2) radix.simps) (auto split: if_splits)
qed

lemma length_radix: "length (radix b n) \<le> Suc n"
proof (induction b n rule: radix.induct)
  case (1 b n)
  show ?case
  proof (cases "b < 2 \<or> n < b")
    case False
    then have "n div b < n" by simp
    moreover have "length (radix b n) = Suc (length (radix b (n div b)))" using False by (simp add: radix.simps [of b n])
    ultimately show ?thesis using 1 [OF False] by linarith
  qed (simp add: radix.simps [of b n])
qed

lemma length_digs [simp]: "length (digs k n) = k"
  by (induction k arbitrary: n) auto

definition value_from :: "nat \<Rightarrow> nat \<Rightarrow> nat list \<Rightarrow> nat" where
  "value_from b v ds = foldl (\<lambda>v d. b * v + d) v ds"

lemma value_from_simps [simp]:
  "value_from b v [] = v" "value_from b v (d # ds) = value_from b (b * v + d) ds"
  "value_from b v (ds @ [d]) = b * value_from b v ds + d"
  by (simp_all add: value_from_def)

lemma value_radix: "2 \<le> b \<Longrightarrow> value_from b 0 (radix b n) = n"
proof (induction b n rule: radix.induct)
  case (1 b n)
  then show ?case by (subst radix.simps) auto
qed

lemma value_from_ge: "1 \<le> b \<Longrightarrow> v \<le> value_from b v ds"
proof (induction ds arbitrary: v)
  case (Cons d ds)
  have "v \<le> b * v + d" using Cons.prems by (simp add: trans_le_add1)
  also have "\<dots> \<le> value_from b (b * v + d) ds" using Cons by blast
  finally show ?case by simp
qed simp

lemma uint_digit: "d < 10 \<Longrightarrow> uint (digit d) = int d + 48"
proof -
  assume "d < 10"
  then have "d \<in> {0, 1, 2, 3, 4, 5, 6, 7, 8, 9}" by auto
  then show ?thesis by (auto simp: digit_def)
qed

lemma is_digit_digit: "d < 10 \<Longrightarrow> is_digit (digit d)" "d < 10 \<Longrightarrow> digit d \<noteq> 0" "d < 10 \<Longrightarrow> \<not> is_space (digit d)"
  "d < 10 \<Longrightarrow> digit d \<noteq> 43" "d < 10 \<Longrightarrow> digit d \<noteq> 45"
proof -
  assume "d < 10"
  then have "d \<in> {0, 1, 2, 3, 4, 5, 6, 7, 8, 9}" by auto
  then show "is_digit (digit d)" "digit d \<noteq> 0" "\<not> is_space (digit d)" "digit d \<noteq> 43" "digit d \<noteq> 45"
    by (auto simp: is_digit_def digit_def is_space_def)
qed

lemma atoi_loop_digits:
  "cstr m p (map digit ds) \<Longrightarrow> \<forall>d\<in>set ds. d < 10 \<Longrightarrow> value_from 10 v ds < 2 ^ 31 \<Longrightarrow>
   atoi_loop m p (int v) = Some (int (value_from 10 v ds))"
proof (induction ds arbitrary: p v)
  case Nil
  then show ?case by (simp add: atoi_loop.simps is_digit_def)
next
  case (Cons d ds)
  have d: "is_digit (m p)" "uint (m p) = int d + 48"
    using Cons.prems is_digit_digit(1) [of d] uint_digit [of d] by auto
  have "10 * v + d < 2 ^ 31" using Cons.prems(3) value_from_ge [of 10 "10 * v + d" ds] by simp
  then have "int32 (10 * int v) = Some (10 * int v)" "int32 (10 * int v + int d) = Some (int (10 * v + d))"
    by (simp_all add: int32_def)
  moreover have "atoi_loop m (p + 1) (int (10 * v + d)) = Some (int (value_from 10 (10 * v + d) ds))"
    using Cons.prems by (intro Cons.IH) auto
  ultimately show ?case using d by (simp add: atoi_loop.simps [of m p])
qed

lemma atoi_digits:
  assumes "cstr m p (map digit ds)" and "ds \<noteq> []" and "\<forall>d\<in>set ds. d < 10" and "value_from 10 0 ds < 2 ^ 31"
  shows "atoi m p = Some (int (value_from 10 0 ds))"
proof -
  have "\<not> is_space (m p) \<and> m p \<noteq> 43 \<and> m p \<noteq> 45"
    using assms(1-3) is_digit_digit by (cases ds) auto
  then show ?thesis using atoi_loop_digits [OF assms(1,3,4)]
    by (simp add: atoi_def skip_space.simps)
qed

lemma atoi_minus:
  assumes "cstr m p (45 # map digit ds)" and "\<forall>d\<in>set ds. d < 10" and "value_from 10 0 ds < 2 ^ 31"
  shows "atoi m p = Some (- int (value_from 10 0 ds))"
proof -
  have "atoi_loop m (p + 1) 0 = Some (int (value_from 10 0 ds))"
    using atoi_loop_digits [of m "p + 1" ds 0] assms by simp
  moreover have "\<not> is_space (m p)" using assms(1) by (simp add: is_space_def)
  ultimately show ?thesis using assms(1) by (simp add: atoi_def skip_space.simps)
qed

section \<open>Printing a number\<close>

primrec store :: "addr \<Rightarrow> os_u8 list \<Rightarrow> bytes \<Rightarrow> bytes" where
  "store a [] m = m"
| "store a (x # xs) m = store (a + 1) xs (m(a := x))"

lemma store_other: "(\<And>i. i < length xs \<Longrightarrow> b \<noteq> a + of_nat i) \<Longrightarrow> store a xs m b = m b"
proof (induction xs arbitrary: a m)
  case (Cons x xs)
  have "b \<noteq> a + 1 + of_nat i" if "i < length xs" for i
    using Cons.prems [of "Suc i"] that by (simp add: add.assoc)
  then have "store (a + 1) xs (m(a := x)) b = (m(a := x)) b" by (rule Cons.IH)
  moreover have "b \<noteq> a" using Cons.prems [of 0] by simp
  ultimately show ?case by simp
qed simp

lemma of_nat_addr_neq_0: "0 < i \<Longrightarrow> i < 2 ^ 32 \<Longrightarrow> (of_nat i :: addr) \<noteq> 0"
  using unat_of_nat [of i, where 'a = 32] by auto

lemma block_store: "length xs < 2 ^ 32 \<Longrightarrow> block (store a xs m) a xs"
proof (induction xs arbitrary: a m)
  case (Cons x xs)
  have "a \<noteq> a + 1 + of_nat i" if "i < length xs" for i
    using of_nat_addr_neq_0 [of "Suc i"] that Cons.prems by (simp add: add.assoc)
  then have "store (a + 1) xs (m(a := x)) a = x" by (simp add: store_other)
  then show ?case using Cons by simp
qed simp

lemma store_append: "store a (xs @ ys) m = store (a + of_nat (length xs)) ys (store a xs m)"
  by (induction xs arbitrary: a m) (auto simp: add.assoc)

lemma cstr_store: "length xs < 2 ^ 32 - 1 \<Longrightarrow> 0 \<notin> set xs \<Longrightarrow> cstr (store a (xs @ [0]) m) a xs"
  using block_store [of "xs @ [0]" a m] by (simp add: cstr_block)

lemma block_nth: "block m a xs \<longleftrightarrow> (\<forall>i<length xs. m (a + of_nat i) = xs ! i)"
proof (induction xs arbitrary: a)
  case (Cons x xs)
  show ?case by (simp add: Cons All_less_Suc2 add.assoc)
qed simp

text \<open>What the copying loops leave in memory, for blocks that do not overlap.\<close>

definition span :: "addr \<Rightarrow> nat \<Rightarrow> addr set" where
  "span a n = (\<lambda>i. a + of_nat i) ` {..<n}"

lemma span_Suc: "span a (Suc n) = insert a (span (a + 1) n)"
proof -
  have "(\<lambda>i. a + of_nat i) ` {..<Suc n} = insert a ((\<lambda>i. a + of_nat (Suc i)) ` {..<n})"
    by (simp add: lessThan_Suc_eq_insert_0 image_image)
  then show ?thesis by (simp add: span_def add.assoc)
qed

lemma span_add: "span a (n + k) = span a n \<union> span (a + of_nat n) k"
  by (induction n arbitrary: a) (simp_all add: span_Suc add.assoc, simp add: span_def)

lemma span_mono: "n \<le> k \<Longrightarrow> span a n \<subseteq> span a k"
  by (auto simp: span_def)

lemma memset_loop_other: "x \<notin> span a n \<Longrightarrow> memset_loop n a c m x = m x"
  by (induction n arbitrary: a m) (auto simp: span_Suc)

lemma memset_loop_block: "x \<in> span a n \<Longrightarrow> memset_loop n a c m x = c"
proof (induction n arbitrary: a m)
  case (Suc n)
  show ?case
  proof (cases "x \<in> span (a + 1) n")
    case False
    then show ?thesis using Suc.prems memset_loop_other [OF False] by (simp add: span_Suc)
  qed (use Suc.IH in simp)
qed (simp add: span_def)

lemma memcpy_loop_other: "x \<notin> span d n \<Longrightarrow> memcpy_loop n d s m x = m x"
  by (induction n arbitrary: d s m) (auto simp: span_Suc)

lemma memcpy_loop_block:
  "span d n \<inter> span s n = {} \<Longrightarrow> i < n \<Longrightarrow> n < 2 ^ 32 \<Longrightarrow> memcpy_loop n d s m (d + of_nat i) = m (s + of_nat i)"
proof (induction n arbitrary: d s m i)
  case (Suc n)
  have dis: "span (d + 1) n \<inter> span (s + 1) n = {}" "d \<notin> span (s + 1) n" "d \<noteq> s" using Suc.prems(1) by (auto simp: span_Suc)
  show ?case
  proof (cases i)
    case 0
    have "(of_nat k + 1 :: addr) \<noteq> 0" if "k < n" for k
      using that Suc.prems(3) of_nat_addr_neq_0 [of "Suc k"] by (simp add: add.commute)
    then have "d \<notin> span (d + 1) n" by (auto simp: span_def add.assoc add.commute [of 1])
    then show ?thesis using 0 by (simp add: memcpy_loop_other)
  next
    case (Suc k)
    have "s + 1 + of_nat k \<noteq> d" using dis(2) Suc Suc.prems(2) by (auto simp: span_def)
    moreover have "memcpy_loop n (d + 1) (s + 1) (m(d := m s)) (d + 1 + of_nat k) = (m(d := m s)) (s + 1 + of_nat k)"
      by (rule Suc.IH [OF dis(1)]) (use Suc Suc.prems(2,3) in simp_all)
    ultimately have "memcpy_loop n (d + 1) (s + 1) (m(d := m s)) (d + 1 + of_nat k) = m (s + 1 + of_nat k)" by simp
    then show ?thesis by (simp add: Suc add.assoc del: fun_upd_apply)
  qed
qed simp

lemma sdiv_pos: "0 < i \<Longrightarrow> n sdiv i \<noteq> 0 \<longleftrightarrow> i \<le> \<bar>n :: int\<bar>"
  by (auto simp: signed_divide_int_def pos_imp_zdiv_pos_iff sgn_if zdiv_eq_0_iff)

lemma int32_pow10: "j < 9 \<Longrightarrow> int32 (10 ^ j * 10) = Some (10 ^ Suc j)"
proof -
  assume "j < 9"
  then have "j \<in> {0, 1, 2, 3, 4, 5, 6, 7, 8}" by auto
  then show ?thesis by (auto simp: int32_def)
qed

lemma itoa_scale_ok:
  "j \<le> k \<Longrightarrow> k \<le> 9 \<Longrightarrow> \<bar>n\<bar> < 10 ^ k \<Longrightarrow> (\<And>l. l < k \<Longrightarrow> 10 ^ l \<le> \<bar>n\<bar>) \<Longrightarrow>
   itoa_scale n (10 ^ j) = Some (10 ^ k)"
proof (induction "k - j" arbitrary: j)
  case 0
  then show ?case by (subst itoa_scale.simps) (simp add: sdiv_pos)
next
  case (Suc d)
  have "10 ^ j \<le> \<bar>n\<bar>" using Suc by simp
  moreover have "int32 (10 ^ j * 10) = Some (10 ^ Suc j)" using Suc by (intro int32_pow10) simp
  moreover have "itoa_scale n (10 ^ Suc j) = Some (10 ^ k)" using Suc by (intro Suc.hyps(1)) auto
  ultimately show ?case by (subst itoa_scale.simps) (simp add: sdiv_pos)
qed

lemma itoa_scale_overflow: "j \<le> 9 \<Longrightarrow> 10 ^ 9 \<le> \<bar>n\<bar> \<Longrightarrow> itoa_scale n (10 ^ j) = None"
proof (induction "9 - j" arbitrary: j)
  case 0
  then have "j = 9" by simp
  with 0 show ?case by (subst itoa_scale.simps) (simp add: sdiv_pos int32_def)
next
  case (Suc d)
  have "(10 :: int) ^ j \<le> 10 ^ 9" using Suc by (intro power_increasing) auto
  then have "10 ^ j \<le> \<bar>n\<bar>" using Suc.prems by linarith
  moreover have "int32 (10 ^ j * 10) = Some (10 ^ Suc j)" using Suc by (intro int32_pow10) simp
  moreover have "itoa_scale n (10 ^ Suc j) = None" using Suc by (intro Suc.hyps(1)) auto
  ultimately show ?case by (subst itoa_scale.simps) (simp add: sdiv_pos)
qed

lemma itoa_digits_store:
  "n < 10 ^ k \<Longrightarrow> itoa_digits (int n) (10 ^ k) p m = (p + of_nat k, store p (map digit (digs k n)) m)"
proof (induction k arbitrary: n p m)
  case 0
  then show ?case by (subst itoa_digits.simps) (simp add: signed_divide_int_def)
next
  case (Suc k)
  have i: "(10 * 10 ^ k :: int) sdiv 10 = 10 ^ k" by (simp add: signed_divide_int_def sgn_if)
  have q: "int n sdiv 10 ^ k = int (n div 10 ^ k)" "int n smod 10 ^ k = int (n mod 10 ^ k)"
    by (auto simp: signed_divide_int_def signed_modulo_int_def sgn_if zdiv_int zmod_int minus_div_mult_eq_mod [symmetric])
  have "word_of_int (int (n div 10 ^ k) + 48) = digit (n div 10 ^ k)" by (simp add: digit_def)
  then show ?case using Suc.IH [of "n mod 10 ^ k"] Suc.prems
    by (subst itoa_digits.simps) (simp add: Let_def i q add.assoc)
qed

definition dec_digits :: "nat \<Rightarrow> os_u8 list" where
  "dec_digits n = map digit (radix 10 n)"

definition dec_string :: "int \<Rightarrow> os_u8 list" where
  "dec_string n = (if n < 0 then [45] else []) @ dec_digits (nat \<bar>n\<bar>)"

lemma radix_nonempty: "radix b n \<noteq> []"
  by (subst radix.simps) simp

lemma dec_digits_nonzero: "0 \<notin> set (dec_digits n)"
  using is_digit_digit(2) radix_bound [of 10 _ n] by (fastforce simp: dec_digits_def)

lemma dec_string_nonzero: "0 \<notin> set (dec_string n)"
  using dec_digits_nonzero by (auto simp: dec_string_def)

lemma atoi_dec_string:
  assumes "cstr m p (dec_string n)" and "\<bar>n\<bar> < 2 ^ 31"
  shows "atoi m p = Some n"
proof -
  let ?ds = "radix 10 (nat \<bar>n\<bar>)"
  have v: "value_from 10 0 ?ds = nat \<bar>n\<bar>" by (simp add: value_radix)
  have b: "\<forall>d\<in>set ?ds. d < 10" using radix_bound [of 10 _ "nat \<bar>n\<bar>"] by auto
  have lt: "value_from 10 0 ?ds < 2 ^ 31" using v assms(2) by simp
  show ?thesis
    using assms(1) atoi_digits [of m p ?ds, OF _ radix_nonempty b lt] atoi_minus [of m p ?ds, OF _ b lt] v
    by (cases "n < 0") (simp_all add: dec_string_def dec_digits_def)
qed

lemma pow10_between: "0 < n \<Longrightarrow> \<exists>k. 10 ^ k \<le> n \<and> n < (10 :: nat) ^ Suc k"
proof (induction n rule: less_induct)
  case (less n)
  show ?case
  proof (cases "n < 10")
    case True
    then show ?thesis using less.prems by (intro exI [of _ 0]) simp
  next
    case False
    then have "0 < n div 10" "n div 10 < n" by (simp_all add: div_greater_zero_iff)
    then obtain k where "10 ^ k \<le> n div 10" "n div 10 < 10 ^ Suc k" using less.IH by blast
    then have "10 ^ Suc k \<le> n" "n < 10 ^ Suc (Suc k)"
      by (simp_all add: less_eq_div_iff_mult_less_eq div_less_iff_less_mult mult.commute)
    then show ?thesis by blast
  qed
qed

lemma itoa_writes:
  assumes "chBuffer \<noteq> 0" and "\<bar>number\<bar> < 10 ^ 9"
  shows "itoa number chBuffer m = Some (chBuffer, store chBuffer (dec_string number @ [0]) m)"
proof (cases "number = 0")
  case True
  have "itoa_scale 0 1 = Some 1" using itoa_scale_ok [of 0 0 0] by simp
  moreover have "itoa_digits 0 10 chBuffer m = (chBuffer + 1, store chBuffer [digit 0] m)"
    using itoa_digits_store [of 0 1 chBuffer m] by simp
  ultimately show ?thesis using True assms(1)
    by (simp add: itoa_def dec_string_def dec_digits_def radix.simps)
next
  case False
  define n where "n = nat \<bar>number\<bar>"
  have n: "0 < n" "n < 10 ^ 9" "int n = \<bar>number\<bar>" using False assms(2) by (auto simp: n_def)
  obtain k where k: "10 ^ k \<le> n" "n < 10 ^ Suc k" using pow10_between [OF n(1)] by blast
  have "(10 :: nat) ^ k < 10 ^ 9" using k(1) n(2) by linarith
  then have k9: "k < 9" by (rule power_less_imp_less_exp [rotated]) simp
  have "10 ^ l \<le> \<bar>number\<bar>" if "l < Suc k" for l
  proof -
    have "(10 :: nat) ^ l \<le> 10 ^ k" using that by (intro power_increasing) auto
    then have "int (10 ^ l) \<le> int n" using k(1) by linarith
    then show ?thesis using n(3) by simp
  qed
  moreover have "\<bar>number\<bar> < 10 ^ Suc k" using k(2) n(3) by (metis of_nat_less_iff of_nat_numeral of_nat_power)
  ultimately have scale: "itoa_scale number 1 = Some (10 ^ Suc k)"
    using itoa_scale_ok [of 0 "Suc k" number] k9 by simp
  have out: "itoa_digits (int n) (10 ^ Suc k) p m' = (p + of_nat (Suc k), store p (dec_digits n) m')" for p m'
    using itoa_digits_store [OF k(2)] unfolding digs_radix [OF k] dec_digits_def .
  have len: "length (dec_digits n) = Suc k" using digs_radix [OF k] length_digs by (metis dec_digits_def length_map)
  show ?thesis
  proof (cases "number < 0")
    case True
    then have neg: "- number = int n" "int32 (int n) = Some (int n)" using n by (auto simp: int32_def)
    show ?thesis using True assms(1) scale out n(1) len
      by (simp add: itoa_def neg dec_string_def n_def [symmetric] store_append add.assoc del: power_Suc)
  next
    case f: False
    then have "number = int n" using n(3) by simp
    then show ?thesis using f assms(1) scale out n(1) len False
      by (simp add: itoa_def dec_string_def store_append del: power_Suc)
  qed
qed

section \<open>Properties\<close>

text \<open>
  \<^verbatim>\<open>strstr\<close> finds the first occurrence: for a non-empty needle it returns the address of the first position of the haystack at which
  the needle occurs, and NULL when it occurs nowhere. (It relies on \<^verbatim>\<open>strncmp\<close> comparing one character more
  than its count.)
\<close>
theorem strstr_finds_first:
  assumes "cstr m s1 xs" and "cstr m s2 ys" and "ys \<noteq> []" and "length xs < 2 ^ 31" and "length ys < 2 ^ 31"
  shows "(\<exists>i. strstr m s1 s2 = Some (s1 + of_nat i) \<and> take (length ys) (drop i xs) = ys \<and>
       (\<forall>j<i. take (length ys) (drop j xs) \<noteq> ys)) \<or>
     strstr m s1 s2 = Some 0 \<and> (\<forall>i. take (length ys) (drop i xs) \<noteq> ys)"
  using strstr_eq [OF assms] search_Some [of ys xs] search_None [OF assms(3), of xs]
  by (cases "search ys xs") auto

definition demo_bytes :: bytes where
  "demo_bytes = store 0x100 [97, 98, 97, 99, 0] (store 0x200 [97, 99, 0] (\<lambda>_. 0))"

lemma demo_bytes_strings: "cstr demo_bytes 0x100 [97, 98, 97, 99]" "cstr demo_bytes 0x200 [97, 99]"
  by (simp_all add: demo_bytes_def)

theorem strstr_finds_first_witness: "strstr demo_bytes 0x100 0x200 = Some 0x102"
proof -
  have occ: "take (Suc (Suc 0)) (drop i [97, 98, 97, 99 :: os_u8]) = [97, 99] \<longleftrightarrow> i = 2" for i
  proof (cases "i < 4")
    case True
    then have "i \<in> {0, 1, 2, 3}" by auto
    then show ?thesis by auto
  qed auto
  show ?thesis using strstr_finds_first [OF demo_bytes_strings] by (auto simp: occ eval_nat_numeral(3) [symmetric])
qed

text \<open>
  Printing and reading a number is a round trip: for a number of at most nine digits \<^verbatim>\<open>itoa\<close> writes its decimal representation
  (a minus sign if it is negative, no leading zeros) and a terminating zero, changes no other byte, and
  \<^verbatim>\<open>atoi\<close> reads the same number back; for every other number of the type \<^verbatim>\<open>itoa\<close> runs into a signed overflow.
\<close>
theorem itoa_atoi_roundtrip:
  assumes "chBuffer \<noteq> 0"
  shows "if \<bar>number\<bar> < 10 ^ 9
     then \<exists>m'. itoa number chBuffer m = Some (chBuffer, m') \<and> cstr m' chBuffer (dec_string number) \<and>
       atoi m' chBuffer = Some number \<and>
       (\<forall>b. (\<forall>i\<le>length (dec_string number). b \<noteq> chBuffer + of_nat i) \<longrightarrow> m' b = m b)
     else itoa number chBuffer m = None"
proof (cases "\<bar>number\<bar> < 10 ^ 9")
  case True
  let ?m = "store chBuffer (dec_string number @ [0]) m"
  note w = itoa_writes [OF assms True, of m]
  from length_radix [of 10 "nat \<bar>number\<bar>"] have "length (dec_string number) < 2 ^ 32 - 1"
    using True by (cases "number < 0") (auto simp: dec_string_def dec_digits_def)
  then have c: "cstr ?m chBuffer (dec_string number)" using dec_string_nonzero by (rule cstr_store)
  moreover have "atoi ?m chBuffer = Some number" using atoi_dec_string [OF c] True by simp
  moreover have "?m b = m b" if "\<forall>i\<le>length (dec_string number). b \<noteq> chBuffer + of_nat i" for b
    using that by (intro store_other) (simp add: less_Suc_eq_le)
  ultimately show ?thesis using w True by auto
next
  case False
  then have "itoa_scale number 1 = None" using itoa_scale_overflow [of 0 number] by simp
  then show ?thesis using False assms by (simp add: itoa_def)
qed

theorem itoa_atoi_roundtrip_witness:
  "\<exists>m'. itoa (- 120) 0x300 (\<lambda>_. 0) = Some (0x300, m') \<and> atoi m' 0x300 = Some (- 120)"
  using itoa_atoi_roundtrip [of "0x300" "- 120" "\<lambda>_. 0"] by auto

end
