(* ===== verification/Printf.thy ===== *)
theory Printf
  imports Cstring
begin

text \<open>
  Formatted output, \<^verbatim>\<open>hwutil/kernel/source/stdio.c\<close>. The output pointer only ever moves forward, so the text
  written is a list of bytes; the format string is the list of its bytes up to the
  terminator; the variable arguments are the list of 32-bit words \<^verbatim>\<open>va_arg\<close> takes one after the other
  (running out of them is undefined, \<open>None\<close>). Strings and addresses are read from a byte memory. The text
  conversion of a \<^verbatim>\<open>double\<close>, \<^verbatim>\<open>flt\<close>, is an argument: floating point is not modelled.
  Widths and precisions are taken far from the ends of the \<^verbatim>\<open>int\<close> range.
\<close>

section \<open>Flags and digits\<close>

definition ZEROPAD :: os_u32 where "ZEROPAD = 1"
definition SIGN :: os_u32 where "SIGN = 2"
definition PLUS :: os_u32 where "PLUS = 4"
definition SPACE :: os_u32 where "SPACE = 8"
definition LEFT :: os_u32 where "LEFT = 16"
definition SPECIAL :: os_u32 where "SPECIAL = 32"
definition LARGE :: os_u32 where "LARGE = 64"

lemmas flag_defs = ZEROPAD_def SIGN_def PLUS_def SPACE_def LEFT_def SPECIAL_def LARGE_def

definition flag :: "os_u32 \<Rightarrow> os_u32 \<Rightarrow> bool" where
  "flag f type \<longleftrightarrow> type AND f \<noteq> 0"

definition LOW_DIGITS :: "os_u8 list" where
  "LOW_DIGITS = map of_char ''0123456789abcdefghijklmnopqrstuvwxyz''"

definition UPPER_DIGITS :: "os_u8 list" where
  "UPPER_DIGITS = map of_char ''0123456789ABCDEFGHIJKLMNOPQRSTUVWXYZ''"

section \<open>Numbers\<close>

text \<open>\<^verbatim>\<open>while(size-- > 0) *str++ = c\<close>: what is written, and the value of \<^verbatim>\<open>size\<close> afterwards.\<close>

definition pad_loop :: "int \<Rightarrow> os_u8 \<Rightarrow> os_u8 list \<times> int" where
  "pad_loop sz c = (replicate (nat sz) c, if sz > 0 then - 1 else sz - 1)"

text \<open>The loop over the digits; the base is at least 2 when it is reached.\<close>

function number_loop :: "os_u8 list \<Rightarrow> os_u32 \<Rightarrow> os_u32 \<Rightarrow> os_u8 list" where
  "number_loop dig base num =
     (if num = 0 \<or> base < 2 then [] else dig ! unat (num mod base) # number_loop dig base (num div base))"
  by pat_completeness auto
termination
proof (relation "measure (\<lambda>(dig, base, num). unat num)")
  fix dig :: "os_u8 list" and base num :: os_u32
  assume "\<not> (num = 0 \<or> base < 2)"
  then have "0 < unat num" "1 < unat base" by (auto simp: word_less_nat_alt unat_gt_0)
  then show "((dig, base, num div base), (dig, base, num)) \<in> measure (\<lambda>(dig, base, num). unat num)"
    by (simp add: unat_div_distrib)
qed simp

declare number_loop.simps [simp del]

definition number :: "os_u32 \<Rightarrow> int \<Rightarrow> int \<Rightarrow> int \<Rightarrow> os_u32 \<Rightarrow> os_u8 list option" where
  "number num base sz precision type =
     (let dig = (if flag LARGE type then UPPER_DIGITS else LOW_DIGITS);
          type = (if flag LEFT type then type AND NOT ZEROPAD else type)
      in if base < 2 \<or> base > 36 then None
         else
           let c = (if flag ZEROPAD type then 48 else 32);
               (sign, num, sz) =
                 (if flag SIGN type
                  then if sint num < 0 then ([45], - num, sz - 1)
                       else if flag PLUS type then ([43], num, sz - 1)
                       else if flag SPACE type then ([32], num, sz - 1)
                       else ([], num, sz)
                  else ([], num, sz));
               sz = (if flag SPECIAL type then if base = 16 then sz - 2 else if base = 8 then sz - 1 else sz else sz);
               tmp = (if num = 0 then [48] else number_loop dig (word_of_int base) num);
               i = int (length tmp);
               precision = (if i > precision then i else precision);
               sz = sz - precision;
               (out1, sz) = (if \<not> flag (ZEROPAD OR LEFT) type then pad_loop sz 32 else ([], sz));
               out2 = (if flag SPECIAL type
                       then if base = 8 then [48] else if base = 16 then [48, LOW_DIGITS ! 33] else []
                       else []);
               (out3, sz) = (if \<not> flag LEFT type then pad_loop sz c else ([], sz));
               out4 = replicate (nat (precision - i)) 48;
               (out5, sz) = pad_loop sz 32
           in Some (out1 @ sign @ out2 @ out3 @ out4 @ rev tmp @ out5))"

text \<open>\<^verbatim>\<open>while (len < size--) *str++ = ' '\<close>\<close>

definition pad_to :: "int \<Rightarrow> int \<Rightarrow> os_u8 list \<times> int" where
  "pad_to len sz = (replicate (nat (sz - len)) 32, if len < sz then len - 1 else sz - 1)"

definition padded :: "os_u8 list \<Rightarrow> int \<Rightarrow> os_u32 \<Rightarrow> os_u8 list" where
  "padded tmp sz type =
     (let len = int (length tmp);
          (out1, sz) = (if \<not> flag LEFT type then pad_to len sz else ([], sz));
          (out2, sz) = pad_to len sz
      in out1 @ tmp @ out2)"

definition eaddr :: "bytes \<Rightarrow> addr \<Rightarrow> int \<Rightarrow> os_u32 \<Rightarrow> os_u8 list" where
  "eaddr m a sz type =
     (let dig = (if flag LARGE type then UPPER_DIGITS else LOW_DIGITS);
          tmp = concat (map (\<lambda>i. (if i \<noteq> 0 then [58] else []) @
                  [dig ! unat (drop_bit 4 (m (a + of_nat i))), dig ! unat (m (a + of_nat i) AND 15)]) [0..<6])
      in padded tmp sz type)"

definition iaddr_part :: "nat \<Rightarrow> os_u8 list" where
  "iaddr_part n =
     (if n = 0 then [LOW_DIGITS ! 0]
      else if n \<ge> 100 then
        let n' = n mod 100
        in [LOW_DIGITS ! (n div 100), LOW_DIGITS ! (n' div 10), LOW_DIGITS ! (n' mod 10)]
      else if n \<ge> 10 then [LOW_DIGITS ! (n div 10), LOW_DIGITS ! (n mod 10)]
      else [LOW_DIGITS ! n])"

definition iaddr :: "bytes \<Rightarrow> addr \<Rightarrow> int \<Rightarrow> os_u32 \<Rightarrow> os_u8 list" where
  "iaddr m a sz type =
     (let tmp = concat (map (\<lambda>i. (if i \<noteq> 0 then [46] else []) @ iaddr_part (unat (m (a + of_nat i)))) [0..<4])
      in padded tmp sz type)"

section \<open>Format directives\<close>

text \<open>The character at the format pointer, and \<^verbatim>\<open>va_arg\<close>.\<close>

definition at :: "os_u8 list \<Rightarrow> os_u8" where
  "at fmt = (case fmt of [] \<Rightarrow> 0 | c # _ \<Rightarrow> c)"

definition va_arg :: "os_u32 list \<Rightarrow> (os_u32 \<times> os_u32 list) option" where
  "va_arg args = (case args of [] \<Rightarrow> None | a # args \<Rightarrow> Some (a, args))"

fun parse_flags :: "os_u8 list \<Rightarrow> os_u32 \<Rightarrow> os_u32 \<times> os_u8 list" where
  "parse_flags [] flags = (flags, [])"
| "parse_flags (c # fmt) flags =
     (if c = 45 then parse_flags fmt (flags OR LEFT)
      else if c = 43 then parse_flags fmt (flags OR PLUS)
      else if c = 32 then parse_flags fmt (flags OR SPACE)
      else if c = 35 then parse_flags fmt (flags OR SPECIAL)
      else if c = 48 then parse_flags fmt (flags OR ZEROPAD)
      else (flags, c # fmt))"

fun skip_digits :: "os_u8 list \<Rightarrow> int \<Rightarrow> (int \<times> os_u8 list) option" where
  "skip_digits [] count = Some (count, [])"
| "skip_digits (c # fmt) count =
     (if is_digit c
      then do {
        count \<leftarrow> int32 (count * 10);
        count \<leftarrow> int32 (count + uint c);
        count \<leftarrow> int32 (count - 48);
        skip_digits fmt count
      }
      else Some (count, c # fmt))"

definition parse_width :: "os_u8 list \<Rightarrow> os_u32 \<Rightarrow> os_u32 list \<Rightarrow>
    (int \<times> os_u32 \<times> os_u8 list \<times> os_u32 list) option" where
  "parse_width fmt flags args =
     (if is_digit (at fmt) then do { (w, fmt) \<leftarrow> skip_digits fmt 0; Some (w, flags, fmt, args) }
      else if at fmt = 42 then do {
        (a, args) \<leftarrow> va_arg args;
        Some (if sint a < 0 then (- sint a, flags OR LEFT, tl fmt, args) else (sint a, flags, tl fmt, args))
      }
      else Some (- 1, flags, fmt, args))"

definition parse_precision :: "os_u8 list \<Rightarrow> os_u32 list \<Rightarrow> (int \<times> os_u8 list \<times> os_u32 list) option" where
  "parse_precision fmt args =
     (if at fmt = 46
      then do {
        let fmt = tl fmt;
        (precision, fmt, args) \<leftarrow>
          (if is_digit (at fmt) then do { (p, fmt) \<leftarrow> skip_digits fmt 0; Some (p, fmt, args) }
           else if at fmt = 42 then do { (a, args) \<leftarrow> va_arg args; Some (sint a, tl fmt, args) }
           else Some (- 1, fmt, args));
        Some (if precision < 0 then 0 else precision, fmt, args)
      }
      else Some (- 1, fmt, args))"

definition parse_qualifier :: "os_u8 list \<Rightarrow> int \<times> os_u8 list" where
  "parse_qualifier fmt = (if at fmt = 104 \<or> at fmt = 108 \<or> at fmt = 76 then (uint (at fmt), tl fmt) else (- 1, fmt))"

text \<open>The integer argument: its sign and its length come from the flags and the qualifier.\<close>

definition int_arg :: "int \<Rightarrow> os_u32 \<Rightarrow> os_u32 list \<Rightarrow> (os_u32 \<times> os_u32 list) option" where
  "int_arg qualifier flags args =
     do {
       (a, args) \<leftarrow> va_arg args;
       Some (if qualifier = 104
             then (if flag SIGN flags then scast (ucast a :: os_u16) else ucast (ucast a :: os_u16), args)
             else (a, args))
     }"

definition out_char :: "os_u32 \<Rightarrow> int \<Rightarrow> os_u32 \<Rightarrow> os_u8 list" where
  "out_char flags w a =
     (let (out1, w) = (if \<not> flag LEFT flags then (replicate (nat (w - 1)) 32, if w - 1 > 0 then 0 else w - 1) else ([], w))
      in out1 @ [ucast a] @ replicate (nat (w - 1)) 32)"

definition out_string :: "bytes \<Rightarrow> os_u32 \<Rightarrow> int \<Rightarrow> int \<Rightarrow> addr \<Rightarrow> os_u8 list" where
  "out_string m flags w precision s =
     (let text = (if s = 0 then take (unat (word_of_int precision :: os_u32)) (map of_char ''<NULL>'')
                  else map (\<lambda>i. m (s + of_nat i)) [0..<unat (strnlen m s (word_of_int precision))])
      in padded text w flags)"

text \<open>
  One directive, after the percent sign: what it writes, the rest of the format, the remaining arguments and
  the memory (\<^verbatim>\<open>%n\<close> writes to it). \<open>pos\<close> is the number of characters written so far.
\<close>

definition directive :: "(os_u32 \<Rightarrow> os_u32 \<Rightarrow> int \<Rightarrow> int \<Rightarrow> os_u8 \<Rightarrow> os_u32 \<Rightarrow> os_u8 list) \<Rightarrow> nat \<Rightarrow>
    os_u8 list \<Rightarrow> os_u32 list \<Rightarrow> bytes \<Rightarrow> (os_u8 list \<times> os_u8 list \<times> os_u32 list \<times> bytes) option" where
  "directive flt pos fmt args m =
     do {
       let (flags, fmt) = parse_flags fmt 0;
       (w, flags, fmt, args) \<leftarrow> parse_width fmt flags args;
       (precision, fmt, args) \<leftarrow> parse_precision fmt args;
       let (qualifier, fmt) = parse_qualifier fmt;
       let c = at fmt;
       let rest = tl fmt;
       if c = 99 then do { (a, args) \<leftarrow> va_arg args; Some (out_char flags w a, rest, args, m) }
       else if c = 115 then do { (s, args) \<leftarrow> va_arg args; Some (out_string m flags w precision s, rest, args, m) }
       else if c = 112 then do {
         (a, args) \<leftarrow> va_arg args;
         out \<leftarrow> (if w = - 1 then number a 16 8 precision (flags OR ZEROPAD) else number a 16 w precision flags);
         Some (out, rest, args, m)
       }
       else if c = 110 then do {
         (ip, args) \<leftarrow> va_arg args;
         let n = (of_nat pos :: os_u32);
         Some ([], rest, args, store ip (map (\<lambda>k. ucast (drop_bit (8 * k) n)) [0..<4]) m)
       }
       else if c = 65 \<or> c = 97 then do {
         let flags = (if c = 65 then flags OR LARGE else flags);
         (a, args) \<leftarrow> va_arg args;
         Some (if qualifier = 108 then eaddr m a w flags else iaddr m a w flags, rest, args, m)
       }
       else if c = 111 \<or> c = 88 \<or> c = 120 \<or> c = 100 \<or> c = 105 \<or> c = 117 then do {
         let base = (if c = 111 then 8 else if c = 88 \<or> c = 120 then 16 else 10);
         let flags = (if c = 88 then flags OR LARGE else if c = 100 \<or> c = 105 then flags OR SIGN else flags);
         (num, args) \<leftarrow> int_arg qualifier flags args;
         out \<leftarrow> number num base w precision flags;
         Some (out, rest, args, m)
       }
       else if c = 69 \<or> c = 71 \<or> c = 101 \<or> c = 102 \<or> c = 103 then do {
         (lo, args) \<leftarrow> va_arg args;
         (hi, args) \<leftarrow> va_arg args;
         Some (flt lo hi w precision c (flags OR SIGN), rest, args, m)
       }
       else Some ((if c \<noteq> 37 then [37] else []) @ (if c \<noteq> 0 then [c] else []), rest, args, m)
     }"

lemma parse_flags_length: "length (snd (parse_flags fmt flags)) \<le> length fmt"
  by (induction fmt flags rule: parse_flags.induct) (auto intro: le_SucI)

lemma skip_digits_length: "skip_digits fmt n = Some (k, fmt') \<Longrightarrow> length fmt' \<le> length fmt"
  by (induction fmt n rule: skip_digits.induct) (auto simp: bind_eq_Some_conv split: if_splits intro: le_SucI)

lemma parse_width_length: "parse_width fmt flags args = Some (w, fl, fmt', as) \<Longrightarrow> length fmt' \<le> length fmt"
  by (auto simp: parse_width_def bind_eq_Some_conv split: if_splits dest: skip_digits_length)

lemma parse_precision_length: "parse_precision fmt args = Some (p, fmt', as) \<Longrightarrow> length fmt' \<le> length fmt"
  by (auto simp: parse_precision_def bind_eq_Some_conv Let_def split: if_splits dest: skip_digits_length
      intro: le_trans [OF _ diff_le_self])

lemma parse_qualifier_length: "length (snd (parse_qualifier fmt)) \<le> length fmt"
  by (simp add: parse_qualifier_def)

lemma directive_length:
  assumes "directive flt pos fmt args m = Some (out, fmt', args', m')"
  shows "length fmt' \<le> length fmt"
proof -
  obtain fl f1 where 1: "parse_flags fmt 0 = (fl, f1)" by (cases "parse_flags fmt 0")
  then have l1: "length f1 \<le> length fmt" using parse_flags_length [of fmt 0] by simp
  from assms 1 obtain w fl2 f2 a2 where 2: "parse_width f1 fl args = Some (w, fl2, f2, a2)"
    by (auto simp: directive_def bind_eq_Some_conv)
  from assms 1 2 obtain p f3 a3 where 3: "parse_precision f2 a2 = Some (p, f3, a3)"
    by (auto simp: directive_def bind_eq_Some_conv)
  obtain q f4 where 4: "parse_qualifier f3 = (q, f4)" by (cases "parse_qualifier f3")
  have "fmt' = tl f4"
    using assms 1 2 3 4 by (auto simp: directive_def bind_eq_Some_conv Let_def split: if_splits)
  moreover have "length f4 \<le> length f1"
    using parse_width_length [OF 2] parse_precision_length [OF 3] parse_qualifier_length [of f3] 4 by simp
  ultimately show ?thesis using l1 by simp
qed

section \<open>The formatting loop\<close>

function vsprintf_loop :: "(os_u32 \<Rightarrow> os_u32 \<Rightarrow> int \<Rightarrow> int \<Rightarrow> os_u8 \<Rightarrow> os_u32 \<Rightarrow> os_u8 list) \<Rightarrow>
    os_u8 list \<Rightarrow> os_u8 list \<Rightarrow> os_u32 list \<Rightarrow> bytes \<Rightarrow> (os_u8 list \<times> bytes) option" where
  "vsprintf_loop flt str [] args m = Some (str, m)"
| "vsprintf_loop flt str (c # fmt) args m =
     (if c \<noteq> 37 then vsprintf_loop flt (str @ [c]) fmt args m
      else case directive flt (length str) fmt args m of
        None \<Rightarrow> None
      | Some (out, fmt', args', m') \<Rightarrow> vsprintf_loop flt (str @ out) fmt' args' m')"
  by pat_completeness auto
termination
  by (relation "measure (\<lambda>(flt, str, fmt, args, m). length fmt)") (auto dest!: directive_length)

text \<open>\<^verbatim>\<open>vsprintf\<close> returns the number of characters; the text is followed by a terminating zero in the buffer.\<close>

definition vsprintf :: "(os_u32 \<Rightarrow> os_u32 \<Rightarrow> int \<Rightarrow> int \<Rightarrow> os_u8 \<Rightarrow> os_u32 \<Rightarrow> os_u8 list) \<Rightarrow>
    os_u8 list \<Rightarrow> os_u32 list \<Rightarrow> bytes \<Rightarrow> (nat \<times> os_u8 list \<times> bytes) option" where
  "vsprintf flt fmt args m =
     do { (str, m) \<leftarrow> vsprintf_loop flt [] fmt args m; Some (length str, str @ [0], m) }"

definition sprintf :: "(os_u32 \<Rightarrow> os_u32 \<Rightarrow> int \<Rightarrow> int \<Rightarrow> os_u8 \<Rightarrow> os_u32 \<Rightarrow> os_u8 list) \<Rightarrow>
    addr \<Rightarrow> os_u8 list \<Rightarrow> os_u32 list \<Rightarrow> bytes \<Rightarrow> (nat \<times> bytes) option" where
  "sprintf flt buf fmt args m =
     do { (send_bytes, str, m) \<leftarrow> vsprintf flt fmt args m; Some (send_bytes, store buf str m) }"

text \<open>
  \<^verbatim>\<open>printk\<close> and \<^verbatim>\<open>printf\<close> format into a local array of 256 and 128 bytes and send the characters one by one; text that does
  not fit overruns the array (\<open>None\<close>).
\<close>

definition print_buffered :: "nat \<Rightarrow> (os_u32 \<Rightarrow> os_u32 \<Rightarrow> int \<Rightarrow> int \<Rightarrow> os_u8 \<Rightarrow> os_u32 \<Rightarrow> os_u8 list) \<Rightarrow>
    os_u8 list \<Rightarrow> os_u32 list \<Rightarrow> bytes \<Rightarrow> (nat \<times> os_u8 list \<times> bytes) option" where
  "print_buffered buffer flt fmt args m =
     do {
       (send_bytes, str, m) \<leftarrow> vsprintf flt fmt args m;
       if length str > buffer then None else Some (send_bytes, take send_bytes str, m)
     }"

definition printk :: "(os_u32 \<Rightarrow> os_u32 \<Rightarrow> int \<Rightarrow> int \<Rightarrow> os_u8 \<Rightarrow> os_u32 \<Rightarrow> os_u8 list) \<Rightarrow>
    os_u8 list \<Rightarrow> os_u32 list \<Rightarrow> bytes \<Rightarrow> (nat \<times> os_u8 list \<times> bytes) option" where
  "printk = print_buffered 256"

definition printf :: "(os_u32 \<Rightarrow> os_u32 \<Rightarrow> int \<Rightarrow> int \<Rightarrow> os_u8 \<Rightarrow> os_u32 \<Rightarrow> os_u8 list) \<Rightarrow>
    os_u8 list \<Rightarrow> os_u32 list \<Rightarrow> bytes \<Rightarrow> (nat \<times> os_u8 list \<times> bytes) option" where
  "printf = print_buffered 128"

section \<open>A reference for numbers\<close>

text \<open>Sign, prefix, leading zeros and digits of a number, and how the field is filled.\<close>

definition magnitude :: "os_u32 \<Rightarrow> os_u32 \<Rightarrow> nat" where
  "magnitude num type = (if flag SIGN type then nat \<bar>sint num\<bar> else unat num)"

definition sign_text :: "os_u32 \<Rightarrow> os_u32 \<Rightarrow> os_u8 list" where
  "sign_text num type =
     (if flag SIGN type
      then if sint num < 0 then [45] else if flag PLUS type then [43] else if flag SPACE type then [32] else []
      else [])"

definition prefix_text :: "int \<Rightarrow> os_u32 \<Rightarrow> os_u8 list" where
  "prefix_text base type =
     (if flag SPECIAL type then if base = 8 then [48] else if base = 16 then [48, 120] else [] else [])"

definition digits_text :: "os_u32 \<Rightarrow> int \<Rightarrow> os_u32 \<Rightarrow> os_u8 list" where
  "digits_text num base type =
     map ((!) (if flag LARGE type then UPPER_DIGITS else LOW_DIGITS)) (radix (nat base) (magnitude num type))"

definition number_text :: "os_u32 \<Rightarrow> int \<Rightarrow> int \<Rightarrow> int \<Rightarrow> os_u32 \<Rightarrow> os_u8 list" where
  "number_text num base width precision type =
     (let ds = digits_text num base type;
          zeros = replicate (nat precision - length ds) 48;
          front = sign_text num type @ prefix_text base type;
          fill = nat width - length (front @ zeros @ ds)
      in if flag LEFT type then front @ zeros @ ds @ replicate fill 32
         else if flag ZEROPAD type then front @ replicate fill 48 @ zeros @ ds
         else replicate fill 32 @ front @ zeros @ ds)"

lemma digit_tables: "LOW_DIGITS ! 0 = 48" "UPPER_DIGITS ! 0 = 48" "LOW_DIGITS ! 33 = 120"
  "d < 10 \<Longrightarrow> LOW_DIGITS ! d = digit d"
proof -
  show "LOW_DIGITS ! 0 = 48" "UPPER_DIGITS ! 0 = 48" "LOW_DIGITS ! 33 = 120" by (code_simp)+
  assume "d < 10"
  then have "d \<in> {0, 1, 2, 3, 4, 5, 6, 7, 8, 9}" by auto
  moreover have "\<forall>d\<in>{0, 1, 2, 3, 4, 5, 6, 7, 8, 9}. LOW_DIGITS ! d = digit d" by code_simp
  ultimately show "LOW_DIGITS ! d = digit d" by blast
qed

lemma rev_number_loop:
  "2 \<le> unat base \<Longrightarrow> num \<noteq> 0 \<Longrightarrow> rev (number_loop dig base num) = map ((!) dig) (radix (unat base) (unat num))"
proof (induction dig base num rule: number_loop.induct)
  case (1 dig base num)
  have b: "\<not> base < 2" using 1(2) by (simp add: word_less_nat_alt)
  show ?case
  proof (cases "unat num < unat base")
    case True
    then have "num div base = 0" by (simp add: word_arith_nat_div unat_eq_0 [symmetric] del: unat_eq_0)
    then show ?thesis using True 1(2,3) b
      by (simp add: number_loop.simps [of dig base num] number_loop.simps [of dig base 0] radix.simps unat_mod_distrib)
  next
    case False
    then have "num div base \<noteq> 0" using 1(2) by (simp add: unat_eq_0 [symmetric] unat_div_distrib div_eq_0_iff)
    then show ?thesis using 1(1) [of] 1(2,3) b False
      by (simp add: number_loop.simps [of dig base num] radix.simps [of "unat base" "unat num"] unat_div_distrib
          unat_mod_distrib)
  qed
qed

lemma flag_no_zeropad:
  "flag LEFT (type AND NOT ZEROPAD) = flag LEFT type" "flag SIGN (type AND NOT ZEROPAD) = flag SIGN type"
  "flag PLUS (type AND NOT ZEROPAD) = flag PLUS type" "flag SPACE (type AND NOT ZEROPAD) = flag SPACE type"
  "flag SPECIAL (type AND NOT ZEROPAD) = flag SPECIAL type" "flag LARGE (type AND NOT ZEROPAD) = flag LARGE type"
  "\<not> flag ZEROPAD (type AND NOT ZEROPAD)" "flag (a OR b) type \<longleftrightarrow> flag a type \<or> flag b type"
  by (simp_all add: flag_def flag_defs and.assoc bit.conj_disj_distrib or_eq_0_iff)

lemma uint_of_sint:
  fixes num :: os_u32
  shows "uint num = sint num mod 2 ^ 32" and "uint (- num) = (- sint num) mod 2 ^ 32"
proof -
  have "uint (word_of_int (sint num) :: os_u32) = sint num mod 2 ^ 32"
    "uint (word_of_int (- sint num) :: os_u32) = (- sint num) mod 2 ^ 32"
    by (simp_all only: uint_word_of_int len_num1 len_bit0 len_of_numeral_defs) simp_all
  then show "uint num = sint num mod 2 ^ 32" "uint (- num) = (- sint num) mod 2 ^ 32" by simp_all
qed

lemma sint_range: "- (2 ^ 31) \<le> sint (num :: os_u32)" "sint num < 2 ^ 31"
  using sint_greater_eq [of num] sint_less [of num] by simp_all

lemma magnitude_neg: "flag SIGN type \<Longrightarrow> sint num < 0 \<Longrightarrow> unat (- num) = magnitude num type"
  using uint_of_sint(2) [of num] sint_range [of num] by (simp add: magnitude_def unat_eq_nat_uint)

lemma magnitude_nonneg: "\<not> (flag SIGN type \<and> sint num < 0) \<Longrightarrow> unat num = magnitude num type"
  using uint_of_sint(1) [of num] sint_range [of num] by (auto simp: magnitude_def unat_eq_nat_uint)

text \<open>The number that \<^verbatim>\<open>number\<close> prints after it has taken the sign off.\<close>

definition stripped :: "os_u32 \<Rightarrow> os_u32 \<Rightarrow> os_u32" where
  "stripped num type = (if flag SIGN type \<and> sint num < 0 then - num else num)"

lemma unat_stripped: "unat (stripped num type) = magnitude num type"
  by (simp add: stripped_def magnitude_neg magnitude_nonneg)

lemma number_tmp:
  fixes base :: int and type :: os_u32
  assumes "2 \<le> base" and "base \<le> 36"
  defines "dig \<equiv> (if flag LARGE type then UPPER_DIGITS else LOW_DIGITS)"
  shows "rev (if stripped num type = 0 then [48] else number_loop dig (word_of_int base) (stripped num type)) =
     digits_text num base type"
proof -
  have b: "unat (word_of_int base :: os_u32) = nat base"
    using assms(1,2) by (simp add: unat_eq_nat_uint uint_word_of_int)
  show ?thesis
  proof (cases "stripped num type = 0")
    case True
    then have "magnitude num type = 0" using unat_stripped [of num type] by simp
    moreover have "dig ! 0 = 48" by (simp add: dig_def digit_tables)
    ultimately show ?thesis using True assms(1)
      by (simp add: digits_text_def dig_def [symmetric] radix.simps)
  next
    case False
    have "2 \<le> unat (word_of_int base :: os_u32)" using b assms(1) by simp
    from rev_number_loop [OF this False, of dig] False show ?thesis
      by (simp add: digits_text_def dig_def [symmetric] unat_stripped b)
  qed
qed

lemma number_signs:
  "(if flag SIGN type
    then if sint num < 0 then ([45], - num, sz - 1)
         else if flag PLUS type then ([43], num, sz - 1)
         else if flag SPACE type then ([32], num, sz - 1)
         else ([], num, sz)
    else ([], num, sz)) = (sign_text num type, stripped num type, sz - int (length (sign_text num type)))"
  by (simp add: sign_text_def stripped_def)

lemma number_prefix:
  "(if flag SPECIAL type then if base = 16 then sz - 2 else if base = 8 then sz - 1 else sz else sz) =
     sz - int (length (prefix_text base type))"
  "(if flag SPECIAL type then if base = 8 then [48] else if base = 16 then [48, LOW_DIGITS ! 33] else [] else []) =
     prefix_text base type"
  by (simp_all add: prefix_text_def digit_tables)

lemma pad_loop_simps:
  "fst (pad_loop sz c) = replicate (nat sz) c" "snd (pad_loop sz c) < 0"
  by (auto simp: pad_loop_def)

lemma number_eq_text:
  assumes "2 \<le> base" and "base \<le> 36"
  shows "number num base width precision type = Some (number_text num base width precision type)"
proof -
  let ?dig = "if flag LARGE type then UPPER_DIGITS else LOW_DIGITS"
  let ?type = "if flag LEFT type then type AND NOT ZEROPAD else type"
  define tmp where "tmp = (if stripped num type = 0 then [48] else number_loop ?dig (word_of_int base) (stripped num type))"
  have ds: "rev tmp = digits_text num base type" unfolding tmp_def by (rule number_tmp [OF assms])
  then have len: "length (digits_text num base type) = length tmp" by (metis length_rev)
  have same: "sign_text num ?type = sign_text num type" "stripped num ?type = stripped num type"
    "prefix_text base ?type = prefix_text base type" "flag LEFT ?type = flag LEFT type"
    "flag ZEROPAD ?type = (flag ZEROPAD type \<and> \<not> flag LEFT type)"
    by (simp_all add: sign_text_def stripped_def prefix_text_def flag_no_zeropad)
  let ?f = "sign_text num type @ prefix_text base type"
  let ?p = "max (int (length tmp)) precision"
  let ?w = "width - int (length (sign_text num type)) - int (length (prefix_text base type)) - ?p"
  have fill: "nat width - length (?f @ replicate (nat precision - length tmp) 48 @ digits_text num base type) = nat ?w"
    using len by (simp add: nat_diff_distrib' max_def) linarith
  have z: "nat (?p - int (length tmp)) = nat precision - length tmp" by (simp add: max_def) arith
  have mx: "(if int (length tmp) > precision then int (length tmp) else precision) = ?p" by (simp add: max_def)
  have lt: "nat (snd (pad_loop x c)) = 0" for x c using pad_loop_simps(2) [of x c] by simp
  have num: "number num base width precision type = Some (
      let (out1, sz) = (if \<not> (flag ZEROPAD type \<and> \<not> flag LEFT type \<or> flag LEFT type) then pad_loop ?w 32 else ([], ?w));
          (out3, sz) = (if \<not> flag LEFT type
             then pad_loop sz (if flag ZEROPAD type \<and> \<not> flag LEFT type then 48 else 32) else ([], sz))
      in out1 @ sign_text num type @ prefix_text base type @ out3 @ replicate (nat (?p - int (length tmp))) 48 @
         rev tmp @ fst (pad_loop sz 32))"
    using assms
    unfolding number_def Let_def number_signs number_prefix same flag_no_zeropad(8) prod.case tmp_def [symmetric] mx
    by (simp add: case_prod_unfold)
  show ?thesis
    unfolding num number_text_def Let_def fill len z ds
    by (cases "flag LEFT type"; cases "flag ZEROPAD type")
      (simp_all add: case_prod_unfold pad_loop_simps lt)
qed

section \<open>Properties\<close>

text \<open>
  \<^verbatim>\<open>number\<close> agrees with the reference: for every base from 2 to 36, width, precision and combination of flags it writes the sign,
  the prefix (\<^verbatim>\<open>0\<close> or \<^verbatim>\<open>0x\<close>), zeros up to the precision and the digits of the magnitude without leading zeros, filled up
  to the field width with blanks on the left, blanks on the right (LEFT wins) or zeros after the sign and the prefix.
\<close>
theorem number_layout:
  assumes "2 \<le> base" and "base \<le> 36"
  shows "number num base width precision type = Some (number_text num base width precision type)"
  by (rule number_eq_text [OF assms])

theorem number_layout_witness: "number (- 42) 10 6 (- 1) (SIGN OR ZEROPAD) = Some [45, 48, 48, 48, 52, 50]"
proof -
  have "number_text (- 42) 10 6 (- 1) (SIGN OR ZEROPAD) = [45, 48, 48, 48, 52, 50]" by code_simp
  then show ?thesis using number_layout [of 10 "- 42" 6 "- 1" "SIGN OR ZEROPAD"] by simp
qed

lemma number_decimal: "number n 10 (- 1) (- 1) SIGN = Some (dec_string (sint n))"
proof -
  have f: "flag SIGN SIGN" "\<not> flag PLUS SIGN" "\<not> flag SPACE SIGN" "\<not> flag SPECIAL SIGN" "\<not> flag LARGE SIGN"
    "\<not> flag LEFT SIGN" "\<not> flag ZEROPAD SIGN"
    by (simp_all add: flag_def flag_defs)
  have "map ((!) LOW_DIGITS) (radix 10 k) = dec_digits k" for k
    using digit_tables(4) radix_bound [of 10 _ k] by (simp add: dec_digits_def)
  then have "number_text n 10 (- 1) (- 1) SIGN = dec_string (sint n)"
    by (simp add: number_text_def f digits_text_def magnitude_def sign_text_def prefix_text_def dec_string_def Let_def)
  then show ?thesis by (simp add: number_eq_text)
qed

lemma vsprintf_text: "37 \<notin> set xs \<Longrightarrow> vsprintf_loop flt str (xs @ fmt) args m = vsprintf_loop flt (str @ xs) fmt args m"
  by (induction xs arbitrary: str) auto

lemma directive_decimal: "directive flt pos (100 # ys) (n # args) m = Some (dec_string (sint n), ys, args, m)"
  by (simp add: directive_def parse_width_def parse_precision_def parse_qualifier_def int_arg_def va_arg_def at_def
      is_digit_def number_decimal)

text \<open>
  \<^verbatim>\<open>%d\<close> prints a number so that it can be read back: a format with one \<^verbatim>\<open>%d\<close> between two pieces of plain text gives the
  text, the decimal representation of the signed argument, and the text; and what \<^verbatim>\<open>sprintf\<close> writes to a buffer for
  \<^verbatim>\<open>"%d"\<close>, \<^verbatim>\<open>atoi\<close> reads back as the argument, for every value of the type but its least one.
\<close>
theorem printf_decimal_roundtrip:
  assumes "37 \<notin> set xs" and "37 \<notin> set ys" and "sint n \<noteq> - (2 ^ 31)"
  defines "out \<equiv> xs @ dec_string (sint n) @ ys"
  shows "vsprintf flt (xs @ [37, 100] @ ys) (n # args) m = Some (length out, out @ [0], m) \<and>
     (\<exists>k m'. sprintf flt buf [37, 100] [n] m = Some (k, m') \<and> atoi m' buf = Some (sint n))"
proof -
  have one: "vsprintf_loop flt [] (us @ [37, 100] @ vs) (n # as) m = Some (us @ dec_string (sint n) @ vs, m)"
    if "37 \<notin> set us" "37 \<notin> set vs" for us vs as
    using that vsprintf_text [of us flt "[]" "[37, 100] @ vs"] vsprintf_text [of vs flt "us @ dec_string (sint n)" "[]"]
    by (simp add: directive_decimal)
  have v: "vsprintf flt [37, 100] [n] m = Some (length (dec_string (sint n)), dec_string (sint n) @ [0], m)"
    using one [of "[]" "[]" "[]"] by (simp add: vsprintf_def)
  from length_radix [of 10 "nat \<bar>sint n\<bar>"] have len: "length (dec_string (sint n)) < 2 ^ 32 - 1"
    using sint_range [of n] by (cases "sint n < 0") (auto simp: dec_string_def dec_digits_def)
  have "\<bar>sint n\<bar> < 2 ^ 31" using sint_range [of n] assms(3) by auto
  from atoi_dec_string [OF cstr_store [OF len dec_string_nonzero] this]
  show ?thesis using one [OF assms(1,2)] v by (simp add: sprintf_def vsprintf_def out_def)
qed

theorem printf_decimal_roundtrip_witness:
  "\<exists>k m'. sprintf (\<lambda>_ _ _ _ _ _. []) 0x400 [37, 100] [- 7] (\<lambda>_. 0) = Some (k, m') \<and> atoi m' 0x400 = Some (- 7)"
  using printf_decimal_roundtrip [of "[]" "[]" "- 7" "\<lambda>_ _ _ _ _ _. []" "[]" "\<lambda>_. 0" "0x400"] by simp

end
