(* ===== verification/Ring_Queue.thy ===== *)
theory Ring_Queue
  imports Prelude
begin

text \<open>
  The ring buffer of \<^verbatim>\<open>hwutil/kernel/include/queue.h\<close>: 32 slots of 32-bit data with 16-bit head and tail
  indices, and that it refines a first-in first-out queue of at most 31 elements. The contract
  of such a queue is the locale \<open>bounded_fifo\<close>; the ring buffer is its interpretation.
\<close>

section \<open>The ring buffer\<close>

definition QUEUE_BUFFER_MAX :: nat where "QUEUE_BUFFER_MAX = 32"

record queue =
  q_buffer :: "os_u32 list"
  q_head :: os_u16
  q_tail :: os_u16

definition queue_step :: "os_u16 \<Rightarrow> os_u16" where
  "queue_step i = (i + 1) mod of_nat QUEUE_BUFFER_MAX"

definition queue_push :: "os_u32 \<Rightarrow> queue \<Rightarrow> err_t \<times> queue" where
  "queue_push data q =
     (let point = queue_step (q_head q)
      in if point \<noteq> q_tail q
         then (0, q\<lparr>q_buffer := (q_buffer q)[unat (q_head q) := data], q_head := point\<rparr>)
         else (- 1, q))"

definition queue_pop :: "queue \<Rightarrow> err_t \<times> os_u32 option \<times> queue" where
  "queue_pop q =
     (if q_head q \<noteq> q_tail q
      then (0, Some (q_buffer q ! unat (q_tail q)), q\<lparr>q_tail := queue_step (q_tail q)\<rparr>)
      else (- 1, None, q))"

definition queue_init :: "queue \<Rightarrow> queue" where
  "queue_init q = q\<lparr>q_head := 0, q_tail := 0\<rparr>"

section \<open>A bounded first-in first-out queue\<close>

locale bounded_fifo =
  fixes inv :: "'q \<Rightarrow> bool" and abs :: "'q \<Rightarrow> 'e list" and cap :: nat
    and push :: "'e \<Rightarrow> 'q \<Rightarrow> err_t \<times> 'q" and pop :: "'q \<Rightarrow> err_t \<times> 'e option \<times> 'q"
  assumes push_room: "inv q \<Longrightarrow> length (abs q) < cap \<Longrightarrow>
      fst (push x q) = 0 \<and> inv (snd (push x q)) \<and> abs (snd (push x q)) = abs q @ [x]"
    and push_full: "inv q \<Longrightarrow> length (abs q) = cap \<Longrightarrow> push x q = (- 1, q)"
    and pop_some: "inv q \<Longrightarrow> abs q = x # xs \<Longrightarrow>
      fst (pop q) = 0 \<and> fst (snd (pop q)) = Some x \<and> inv (snd (snd (pop q))) \<and> abs (snd (snd (pop q))) = xs"
    and pop_none: "inv q \<Longrightarrow> abs q = [] \<Longrightarrow> pop q = (- 1, None, q)"
    and capacity: "inv q \<Longrightarrow> length (abs q) \<le> cap"
begin

primrec pushes :: "'e list \<Rightarrow> 'q \<Rightarrow> 'q" where
  "pushes [] q = q"
| "pushes (x # xs) q = pushes xs (snd (push x q))"

primrec pops :: "nat \<Rightarrow> 'q \<Rightarrow> 'e option list" where
  "pops 0 q = []"
| "pops (Suc n) q = fst (snd (pop q)) # pops n (snd (snd (pop q)))"

lemma pushes_room:
  "inv q \<Longrightarrow> length (abs q) + length xs \<le> cap \<Longrightarrow> inv (pushes xs q) \<and> abs (pushes xs q) = abs q @ xs"
proof (induction xs arbitrary: q)
  case (Cons x xs)
  then have "inv (snd (push x q))" "abs (snd (push x q)) = abs q @ [x]" using push_room [of q x] by auto
  with Cons show ?case by simp
qed simp

lemma pops_all: "inv q \<Longrightarrow> pops (length (abs q)) q = map Some (abs q)"
proof (induction "abs q" arbitrary: q)
  case (Cons x xs)
  from pop_some [OF Cons.prems Cons.hyps(2) [symmetric]] Cons.hyps(1) [of "snd (snd (pop q))"]
  show ?case by (simp flip: Cons.hyps(2))
qed simp

text \<open>What is pushed comes out again, in order.\<close>

lemma push_pop_order:
  assumes "inv q" and "abs q = []" and "length xs \<le> cap"
  shows "pops (length xs) (pushes xs q) = map Some xs"
  using pushes_room [of q xs] pops_all [of "pushes xs q"] assms by simp

lemma pushes_over:
  assumes "inv q" and "cap \<le> length (abs q) + length xs"
  shows "abs (pushes xs q) = abs q @ take (cap - length (abs q)) xs"
  using assms
proof (induction xs arbitrary: q)
  case Nil
  then show ?case by simp
next
  case (Cons x xs)
  show ?case
  proof (cases "length (abs q) = cap")
    case True
    then have "push x q = (- 1, q)" by (rule push_full [OF Cons.prems(1)])
    then show ?thesis using Cons.IH [OF Cons.prems(1)] True by simp
  next
    case False
    then have lt: "length (abs q) < cap" using capacity [OF Cons.prems(1)] by simp
    note p = push_room [OF Cons.prems(1) lt, of x]
    have "cap - length (abs q) = Suc (cap - length (abs q @ [x]))" using lt by simp
    then show ?thesis using Cons.IH [of "snd (push x q)"] p Cons.prems(2) by simp
  qed
qed

end

section \<open>The ring buffer is one\<close>

definition queue_len :: "queue \<Rightarrow> nat" where
  "queue_len q = (unat (q_head q) + 32 - unat (q_tail q)) mod 32"

definition queue_slots :: "queue \<Rightarrow> nat list" where
  "queue_slots q = map (\<lambda>i. (unat (q_tail q) + i) mod 32) [0..<queue_len q]"

definition queue_abs :: "queue \<Rightarrow> os_u32 list" where
  "queue_abs q = map ((!) (q_buffer q)) (queue_slots q)"

definition queue_wf :: "queue \<Rightarrow> bool" where
  "queue_wf q \<longleftrightarrow> length (q_buffer q) = QUEUE_BUFFER_MAX \<and> unat (q_head q) < 32 \<and> unat (q_tail q) < 32"

lemma unat_queue_step: "unat i < 32 \<Longrightarrow> unat (queue_step i) = (unat i + 1) mod 32"
  by (simp add: queue_step_def QUEUE_BUFFER_MAX_def unat_mod unat_word_ariths)

lemma queue_wf_init: "length (q_buffer q) = QUEUE_BUFFER_MAX \<Longrightarrow> queue_wf (queue_init q) \<and> queue_abs (queue_init q) = []"
  by (simp add: queue_wf_def queue_init_def queue_abs_def queue_slots_def queue_len_def)

lemma length_queue_abs [simp]: "length (queue_abs q) = queue_len q"
  by (simp add: queue_abs_def queue_slots_def)

lemma mod_32: "n < 64 \<Longrightarrow> n mod 32 = (if n < 32 then n else n - 32 :: nat)"
  by (simp add: le_mod_geq)

lemma ring_distance:
  fixes h t :: nat
  assumes "h < 32" and "t < 32"
  shows "(h + 32 - t) mod 32 = (if t \<le> h then h - t else h + 32 - t)"
  using assms mod_32 [of "h + 32 - t"] by (auto split: if_splits)

lemma queue_len_eq:
  "queue_wf q \<Longrightarrow> queue_len q =
     (if unat (q_tail q) \<le> unat (q_head q) then unat (q_head q) - unat (q_tail q)
      else unat (q_head q) + 32 - unat (q_tail q))"
  by (simp add: queue_wf_def queue_len_def ring_distance)

lemma queue_len_le: "queue_len q \<le> 31"
  using mod_less_divisor [of 32 "unat (q_head q) + 32 - unat (q_tail q)"] by (simp add: queue_len_def)

lemma queue_empty_iff: "queue_wf q \<Longrightarrow> queue_len q = 0 \<longleftrightarrow> q_head q = q_tail q"
  by (auto simp: queue_len_eq word_unat_eq_iff queue_wf_def split: if_splits)

lemma unat_step_if: "unat i < 32 \<Longrightarrow> unat (queue_step i) = (if unat i = 31 then 0 else unat i + 1)"
  using mod_32 [of "unat i + 1"] by (auto simp: unat_queue_step split: if_splits)

lemma queue_full_iff: "queue_wf q \<Longrightarrow> queue_len q = 31 \<longleftrightarrow> queue_step (q_head q) = q_tail q"
  using unat_step_if [of "q_head q"]
  by (auto simp: queue_len_eq word_unat_eq_iff [of "queue_step (q_head q)"] queue_wf_def split: if_splits)

lemma head_slot: "queue_wf q \<Longrightarrow> unat (q_head q) = (unat (q_tail q) + queue_len q) mod 32"
  using mod_32 [of "unat (q_tail q) + queue_len q"] queue_len_eq [of q] by (auto simp: queue_wf_def split: if_splits)

lemma slot_distinct:
  fixes t :: nat
  assumes "i < j" and "j < 32" and "t < 32"
  shows "(t + i) mod 32 \<noteq> (t + j) mod 32"
  using assms mod_32 [of "t + i"] mod_32 [of "t + j"] by (auto split: if_splits)

lemma queue_push_abs:
  assumes wf: "queue_wf q" and room: "queue_len q < 31"
  shows "fst (queue_push x q) = 0" and "queue_wf (snd (queue_push x q))"
    and "queue_abs (snd (queue_push x q)) = queue_abs q @ [x]"
proof -
  let ?q = "q\<lparr>q_buffer := (q_buffer q)[unat (q_head q) := x], q_head := queue_step (q_head q)\<rparr>"
  have "queue_step (q_head q) \<noteq> q_tail q" using queue_full_iff [OF wf] room by auto
  then have p: "queue_push x q = (0, ?q)" by (simp add: queue_push_def)
  note b = wf [unfolded queue_wf_def]
  have h: "unat (queue_step (q_head q)) = (unat (q_head q) + 1) mod 32" using b by (intro unat_queue_step) simp
  have len: "queue_len ?q = Suc (queue_len q)"
    using b room unat_step_if [of "q_head q"] queue_len_eq [OF wf] queue_len_eq [of ?q]
    by (auto simp: queue_wf_def split: if_splits)
  have keep: "(q_buffer q)[unat (q_head q) := x] ! ((unat (q_tail q) + i) mod 32) = q_buffer q ! ((unat (q_tail q) + i) mod 32)"
    if "i < queue_len q" for i
    using slot_distinct [OF that, of "unat (q_tail q)"] head_slot [OF wf] room b by simp
  have last: "(q_buffer q)[unat (q_head q) := x] ! ((unat (q_tail q) + queue_len q) mod 32) = x"
    using head_slot [OF wf] b by (simp add: QUEUE_BUFFER_MAX_def)
  show "fst (queue_push x q) = 0" by (simp add: p)
  show "queue_wf (snd (queue_push x q))" using b h by (simp add: p queue_wf_def)
  show "queue_abs (snd (queue_push x q)) = queue_abs q @ [x]"
    using keep last by (simp add: p queue_abs_def queue_slots_def len)
qed

lemma queue_pop_abs:
  assumes wf: "queue_wf q" and ne: "queue_abs q = x # xs"
  shows "fst (queue_pop q) = 0" and "fst (snd (queue_pop q)) = Some x"
    and "queue_wf (snd (snd (queue_pop q)))" and "queue_abs (snd (snd (queue_pop q))) = xs"
proof -
  have pos: "queue_len q > 0" using ne length_queue_abs [of q] by simp
  then have "q_head q \<noteq> q_tail q" using queue_empty_iff [OF wf] by auto
  then have p: "queue_pop q = (0, Some (q_buffer q ! unat (q_tail q)), q\<lparr>q_tail := queue_step (q_tail q)\<rparr>)"
    by (simp add: queue_pop_def)
  note b = wf [unfolded queue_wf_def]
  have t: "unat (queue_step (q_tail q)) = (unat (q_tail q) + 1) mod 32" using b by (intro unat_queue_step) simp
  have len: "queue_len q = Suc (queue_len (q\<lparr>q_tail := queue_step (q_tail q)\<rparr>))"
    using b pos unat_step_if [of "q_tail q"] queue_len_eq [OF wf]
      queue_len_eq [of "q\<lparr>q_tail := queue_step (q_tail q)\<rparr>"]
    by (auto simp: queue_wf_def split: if_splits)
  have "[0..<queue_len q] = 0 # map Suc [0..<queue_len (q\<lparr>q_tail := queue_step (q_tail q)\<rparr>)]"
    by (simp add: len upt_conv_Cons map_Suc_upt del: upt_Suc)
  then have "queue_abs q = q_buffer q ! unat (q_tail q) #
      queue_abs (q\<lparr>q_tail := queue_step (q_tail q)\<rparr>)"
    using b by (simp add: queue_abs_def queue_slots_def t mod_simps)
  with ne show "fst (queue_pop q) = 0" "fst (snd (queue_pop q)) = Some x" "queue_abs (snd (snd (queue_pop q))) = xs"
    by (simp_all add: p)
  show "queue_wf (snd (snd (queue_pop q)))" using b t by (simp add: p queue_wf_def)
qed

interpretation ring: bounded_fifo queue_wf queue_abs 31 queue_push queue_pop
proof
  fix q :: queue and x :: os_u32 and xs :: "os_u32 list"
  assume wf: "queue_wf q"
  show "length (queue_abs q) \<le> 31" by (simp add: queue_len_le)
  show "fst (queue_push x q) = 0 \<and> queue_wf (snd (queue_push x q)) \<and> queue_abs (snd (queue_push x q)) = queue_abs q @ [x]"
    if "length (queue_abs q) < 31"
    using queue_push_abs [OF wf] that by simp
  show "queue_push x q = (- 1, q)" if "length (queue_abs q) = 31"
    using queue_full_iff [OF wf] that by (simp add: queue_push_def)
  show "fst (queue_pop q) = 0 \<and> fst (snd (queue_pop q)) = Some x \<and> queue_wf (snd (snd (queue_pop q))) \<and>
      queue_abs (snd (snd (queue_pop q))) = xs" if "queue_abs q = x # xs"
    using queue_pop_abs [OF wf that] by simp
  show "queue_pop q = (- 1, None, q)" if "queue_abs q = []"
    using queue_empty_iff [OF wf] that length_queue_abs [of q] by (simp add: queue_pop_def)
qed

section \<open>Properties\<close>

text \<open>
  C19. The ring buffer refines a bounded queue: pushing onto a well-formed buffer appends to its contents and returns 0
  while fewer than 31 elements are stored, and is refused without a change when there are 31 (one of the 32 slots stays empty);
  popping returns and removes the oldest element, and is refused without a change when there is none; both
  keep the buffer well formed.
\<close>
theorem queue_refines_fifo:
  assumes "queue_wf q"
  shows "(if length (queue_abs q) < 31
      then fst (queue_push x q) = 0 \<and> queue_wf (snd (queue_push x q)) \<and> queue_abs (snd (queue_push x q)) = queue_abs q @ [x]
      else queue_push x q = (- 1, q)) \<and>
    (case queue_abs q of [] \<Rightarrow> queue_pop q = (- 1, None, q)
     | y # ys \<Rightarrow> fst (queue_pop q) = 0 \<and> fst (snd (queue_pop q)) = Some y \<and>
         queue_wf (snd (snd (queue_pop q))) \<and> queue_abs (snd (snd (queue_pop q))) = ys)"
  using ring.push_room [OF assms] ring.push_full [OF assms] ring.pop_none [OF assms] ring.pop_some [OF assms]
    ring.capacity [OF assms] by (auto split: list.splits)

definition empty_queue :: queue where
  "empty_queue = \<lparr>q_buffer = replicate 32 0, q_head = 30, q_tail = 30\<rparr>"

theorem queue_refines_fifo_witness:
  "queue_abs (snd (queue_push 7 empty_queue)) = [7] \<and> queue_pop empty_queue = (- 1, None, empty_queue)"
proof -
  have "queue_wf empty_queue" "queue_abs empty_queue = []"
    by (simp_all add: empty_queue_def queue_wf_def QUEUE_BUFFER_MAX_def queue_abs_def queue_slots_def queue_len_def)
  with queue_refines_fifo [of empty_queue 7] show ?thesis by simp
qed

end
