(* ===== verification/Timer.thy ===== *)
theory Timer
  imports Pthread Semaphore
begin

text \<open>
  Software timers and the system time, \<^verbatim>\<open>hwutil/kernel/source/time.c\<close>: creating and arming a timer, one round of the timer
  thread, the tick handler, and the calendar time.

  The kernel state is extended by the timer objects, the caller's \<^verbatim>\<open>struct itimerspect\<close> objects, the timer
  semaphore and the 64-bit system time. \<open>call f v\<close> is what the notification function at \<open>f\<close> does when it is called with \<open>v\<close>.
\<close>

section \<open>Timers\<close>

definition SIGEV_THREAD :: int where "SIGEV_THREAD = 3"
definition CLOCK_REALTIME :: int where "CLOCK_REALTIME = 0"

record sigevent =
  ev_flag :: int
  sigev_notify :: int
  sigev_signo :: int
  sigev_value :: os_u32
  sigev_notify_function :: addr
  sigev_notify_attributes :: addr

text \<open>\<^verbatim>\<open>tv_sec\<close> is a \<^verbatim>\<open>time_t\<close> (unsigned), \<^verbatim>\<open>tv_nsec\<close> a \<^verbatim>\<open>long\<close>: a 32-bit word that comparisons read as signed.\<close>

record itimerspect =
  interval_sec :: os_u32
  interval_nsec :: os_u32
  value_sec :: os_u32
  value_nsec :: os_u32

record timer =
  tm_clockid :: int
  tm_spec :: itimerspect
  tm_igevent :: sigevent

record tkernel = kernel +
  timers :: "addr \<Rightarrow> timer"
  timespecs :: "addr \<Rightarrow> itimerspect"
  timer_sem :: addr
  local_time :: os_u64

definition upd_timer :: "addr \<Rightarrow> (timer \<Rightarrow> timer) \<Rightarrow> 'a tkernel_scheme \<Rightarrow> 'a tkernel_scheme" where
  "upd_timer a f s = s\<lparr>timers := (timers s)(a := f (timers s a))\<rparr>"

text \<open>\<^verbatim>\<open>sizeof(struct __timer)\<close>: a list node, the clock, four words of time plan, six words of signal event.\<close>

definition SIZEOF_TIMER :: os_u32 where "SIZEOF_TIMER = 52"

definition timer_alloc :: "('a tkernel_scheme \<Rightarrow> 'a tkernel_scheme option) \<Rightarrow> int \<Rightarrow> sigevent \<Rightarrow>
    'a tkernel_scheme \<Rightarrow> (addr \<times> 'a tkernel_scheme) option" where
  "timer_alloc env clockid evp s =
     do {
       (timer, s) \<leftarrow> malloc env SIZEOF_TIMER s;
       if timer = NULL then Some (0, s)
       else do {
         let s = upd_timer timer (\<lambda>x. x\<lparr>tm_igevent := evp\<rparr>) s;
         let s = upd_timer timer (\<lambda>x. x\<lparr>tm_clockid := clockid\<rparr>) s;
         let s = upd_links (list_init (Timer_node timer)) s;
         let (temp, s) = hw_interrupt_suspend s;
         let s = upd_links (list_insert_tail Timer_head (Timer_node timer)) s;
         Some (timer, hw_interrupt_recover temp s)
       }
     }"

text \<open>\<^verbatim>\<open>timer_create\<close>: the result and the value stored through \<^verbatim>\<open>timerid\<close>.\<close>

definition timer_create :: "('a tkernel_scheme \<Rightarrow> 'a tkernel_scheme option) \<Rightarrow> int \<Rightarrow> sigevent option \<Rightarrow>
    'a tkernel_scheme \<Rightarrow> (err_t \<times> addr \<times> 'a tkernel_scheme) option" where
  "timer_create env clockid evp s =
     (if CLOCK_REALTIME \<noteq> clockid then Some (- EINVAL, 0, s)
      else case evp of
        None \<Rightarrow> Some (- EINVAL, 0, s)
      | Some evp \<Rightarrow>
          if sigev_notify evp = SIGEV_THREAD
          then do { (timerid, s) \<leftarrow> timer_alloc env clockid evp s; Some (0, timerid, s) }
          else Some (0, 0, s))"

text \<open>
  \<^verbatim>\<open>ITIMERSPECT_COPY\<close> is four statements, of which an unbraced \<^verbatim>\<open>if (ovalue)\<close> guards only the first: the other three
  are executed for a NULL \<^verbatim>\<open>ovalue\<close> too and write to the object at address 0.
\<close>

definition timer_settime :: "addr \<Rightarrow> itimerspect option \<Rightarrow> addr \<Rightarrow> 'a tkernel_scheme \<Rightarrow> err_t \<times> 'a tkernel_scheme" where
  "timer_settime timerid value ovalue s =
     (case value of None \<Rightarrow> (- EINVAL, s)
      | Some v \<Rightarrow>
          if timerid = 0 then (- EINVAL, s)
          else
            let (temp, s) = hw_interrupt_suspend s;
                old = tm_spec (timers s timerid);
                w = (\<lambda>f s. s\<lparr>timespecs := (timespecs s)(ovalue := f (timespecs s ovalue))\<rparr>);
                s = (if ovalue \<noteq> NULL then w (\<lambda>x. x\<lparr>interval_nsec := interval_nsec old\<rparr>) s else s);
                s = w (\<lambda>x. x\<lparr>interval_sec := interval_sec old\<rparr>) s;
                s = w (\<lambda>x. x\<lparr>value_nsec := value_nsec old\<rparr>) s;
                s = w (\<lambda>x. x\<lparr>value_sec := value_sec old\<rparr>) s;
                s = upd_timer timerid (\<lambda>x. x\<lparr>tm_spec := v\<rparr>) s
            in (0, hw_interrupt_recover temp s))"

definition timer_gettime :: "addr \<Rightarrow> 'a tkernel_scheme \<Rightarrow> err_t \<times> 'a tkernel_scheme" where
  "timer_gettime timerid s = (0, s)"

definition timer_delete :: "addr \<Rightarrow> 'a tkernel_scheme \<Rightarrow> err_t \<times> 'a tkernel_scheme" where
  "timer_delete timerid s = (0, s)"

section \<open>The timer thread\<close>

definition set_value_nsec :: "os_u32 \<Rightarrow> timer \<Rightarrow> timer" where
  "set_value_nsec n x = x\<lparr>tm_spec := (tm_spec x)\<lparr>value_nsec := n\<rparr>\<rparr>"

definition timer_visit :: "os_u32 \<Rightarrow> (addr \<Rightarrow> os_u32 \<Rightarrow> 'a tkernel_scheme \<Rightarrow> 'a tkernel_scheme option) \<Rightarrow>
    lnode \<Rightarrow> 'a tkernel_scheme \<Rightarrow> 'a tkernel_scheme option" where
  "timer_visit tick call node s =
     (case node of
        Timer_node a \<Rightarrow>
          if sint (value_nsec (tm_spec (timers s a))) > 0
          then do {
            let s = upd_timer a (\<lambda>x. set_value_nsec (value_nsec (tm_spec x) - tick) x) s;
            if value_nsec (tm_spec (timers s a)) = 0
            then do {
              s \<leftarrow> call (sigev_notify_function (tm_igevent (timers s a))) (sigev_value (tm_igevent (timers s a))) s;
              Some (if interval_nsec (tm_spec (timers s a)) \<noteq> 0
                    then upd_timer a (\<lambda>x. set_value_nsec (interval_nsec (tm_spec x)) x) s else s)
            }
            else Some s
          }
          else Some s
      | _ \<Rightarrow> None)"

definition timer_pass :: "os_u32 \<Rightarrow> (addr \<Rightarrow> os_u32 \<Rightarrow> 'a tkernel_scheme \<Rightarrow> 'a tkernel_scheme option) \<Rightarrow>
    'a tkernel_scheme \<Rightarrow> 'a tkernel_scheme option" where
  "timer_pass tick call s =
     list_for_each links (timer_visit tick call) Timer_head (next_of (links s) Timer_head) s"

text \<open>One round of \<^verbatim>\<open>timer_thread_entry\<close>'s endless loop.\<close>

definition timer_thread_round :: "('a tkernel_scheme \<Rightarrow> 'a tkernel_scheme option) \<Rightarrow> os_u32 \<Rightarrow>
    (addr \<Rightarrow> os_u32 \<Rightarrow> 'a tkernel_scheme \<Rightarrow> 'a tkernel_scheme option) \<Rightarrow>
    'a tkernel_scheme \<Rightarrow> 'a tkernel_scheme option" where
  "timer_thread_round env tick call s =
     do { (ret, s) \<leftarrow> sem_wait env (timer_sem s) s; timer_pass tick call s }"

definition timer_init :: "('a tkernel_scheme \<Rightarrow> 'a tkernel_scheme option) \<Rightarrow> addr \<Rightarrow> addr \<Rightarrow> (nat \<Rightarrow> os_u8) \<Rightarrow>
    pthread_attr \<Rightarrow> 'a tkernel_scheme \<Rightarrow> (err_t \<times> 'a tkernel_scheme) option" where
  "timer_init env exit_entry timer_entry name attr s =
     (let timer_sched_param = \<lparr>sp_type = PTHREAD_TYPE_KERNEL, sp_init_ticks = PTHREAD_TICKS_MIN,
            sp_init_prio = PTHREAD_PRIORITY_MAX\<rparr>;
          (ret, attr) = pthread_attr_setschedparam attr timer_sched_param;
          (ret, attr) = pthread_attr_setstacksize attr 512
      in do {
        (err, tid, s) \<leftarrow> pthread_create env exit_entry (Some attr) timer_entry NULL s;
        if err \<noteq> 0 then None
        else do {
          tid \<leftarrow> tid;
          let (ret, s) = pthread_setname_np tid name s;
          let s = upd_links (list_init Timer_head) s;
          let (ret, s) = sem_init (timer_sem s) 1 s;
          Some (0, s)
        }
      })"

section \<open>The system time\<close>

definition os_timetick :: "os_u32 \<Rightarrow> 'a tkernel_scheme \<Rightarrow> 'a tkernel_scheme option" where
  "os_timetick tick s =
     do {
       s \<leftarrow> sched_proc tick s;
       (ret, s) \<leftarrow> sem_post (timer_sem s) s;
       Some (s\<lparr>local_time := local_time s + ucast tick\<rparr>)
     }"

record tm =
  tm_ms :: os_u32
  tm_sec :: os_u32
  tm_min :: os_u32
  tm_hour :: os_u32
  tm_wday :: os_u32

text \<open>The other fields of \<^verbatim>\<open>struct tm\<close> (day of the month, month, year and so on) are left as they were.\<close>

definition localtime_r :: "'a tkernel_scheme \<Rightarrow> 'b tm_scheme \<Rightarrow> 'b tm_scheme" where
  "localtime_r s result =
     (let result = result\<lparr>tm_ms := ucast (local_time s mod 1000)\<rparr>;
          temp = local_time s div 1000;
          result = result\<lparr>tm_sec := ucast (temp mod 60)\<rparr>;
          temp = temp div 60;
          result = result\<lparr>tm_min := ucast (temp mod 60)\<rparr>;
          temp = temp div 60;
          result = result\<lparr>tm_hour := ucast (temp mod 24)\<rparr>;
          temp = temp div 24
      in result\<lparr>tm_wday := ucast (temp mod 365)\<rparr>)"

section \<open>One round over the timers\<close>

text \<open>What a round does to one timer, and whether it calls its function.\<close>

definition due :: "os_u32 \<Rightarrow> timer \<Rightarrow> bool" where
  "due tick x \<longleftrightarrow> sint (value_nsec (tm_spec x)) > 0 \<and> value_nsec (tm_spec x) = tick"

definition ticked :: "os_u32 \<Rightarrow> timer \<Rightarrow> timer" where
  "ticked tick x =
     (if sint (value_nsec (tm_spec x)) > 0
      then if value_nsec (tm_spec x) = tick \<and> interval_nsec (tm_spec x) \<noteq> 0
           then set_value_nsec (interval_nsec (tm_spec x)) x
           else set_value_nsec (value_nsec (tm_spec x) - tick) x
      else x)"

definition notification :: "timer \<Rightarrow> addr \<times> os_u32" where
  "notification x = (sigev_notify_function (tm_igevent x), sigev_value (tm_igevent x))"

primrec calls :: "(addr \<Rightarrow> os_u32 \<Rightarrow> 's \<Rightarrow> 's option) \<Rightarrow> (addr \<times> os_u32) list \<Rightarrow> 's \<Rightarrow> 's option" where
  "calls call [] s = Some s"
| "calls call (e # es) s = do { s \<leftarrow> call (fst e) (snd e) s; calls call es s }"

text \<open>A notification function that leaves the timers and the kernel's lists alone.\<close>

definition quiet :: "(addr \<Rightarrow> os_u32 \<Rightarrow> 'a tkernel_scheme \<Rightarrow> 'a tkernel_scheme option) \<Rightarrow> bool" where
  "quiet call \<longleftrightarrow>
     (\<forall>f v s t. call f v (s\<lparr>timers := t\<rparr>) = map_option (\<lambda>s'. s'\<lparr>timers := t\<rparr>) (call f v s)) \<and>
     (\<forall>f v s s'. call f v s = Some s' \<longrightarrow> links s' = links s)"

lemma set_value_nsec_simps [simp]:
  "value_nsec (tm_spec (set_value_nsec n x)) = n" "interval_nsec (tm_spec (set_value_nsec n x)) = interval_nsec (tm_spec x)"
  "tm_igevent (set_value_nsec n x) = tm_igevent x" "set_value_nsec m (set_value_nsec n x) = set_value_nsec m x"
  by (simp_all add: set_value_nsec_def)

lemma quiet_timers:
  "quiet call \<Longrightarrow> call f v (s\<lparr>timers := t\<rparr>) = map_option (\<lambda>s'. s'\<lparr>timers := t\<rparr>) (call f v s)"
  unfolding quiet_def by blast

lemma quietD:
  assumes q: "quiet call" and c: "call f v s = Some s'"
  shows "timers s' = timers s" "links s' = links s"
proof -
  have "s\<lparr>timers := timers s\<rparr> = s" by simp
  then have "call f v s = map_option (\<lambda>s'. s'\<lparr>timers := timers s\<rparr>) (call f v s)"
    using quiet_timers [OF q, where f = f and v = v and s = s and t = "timers s"] by simp
  then have "s' = s'\<lparr>timers := timers s\<rparr>" using c by simp
  then have "timers s' = timers (s'\<lparr>timers := timers s\<rparr>)" by (rule arg_cong)
  then show "timers s' = timers s" by simp
  show "links s' = links s" using q c unfolding quiet_def by blast
qed

lemma calls_timers:
  "quiet call \<Longrightarrow> calls call es (s\<lparr>timers := t\<rparr>) = map_option (\<lambda>s'. s'\<lparr>timers := t\<rparr>) (calls call es s)"
proof (induction es arbitrary: s)
  case (Cons e es)
  then show ?case
    by (cases "call (fst e) (snd e) s") (simp_all add: quiet_timers)
qed simp

definition tick_timers :: "os_u32 \<Rightarrow> addr set \<Rightarrow> (addr \<Rightarrow> timer) \<Rightarrow> addr \<Rightarrow> timer" where
  "tick_timers tick A ts a = (if a \<in> A then ticked tick (ts a) else ts a)"

definition due_events :: "os_u32 \<Rightarrow> addr list \<Rightarrow> (addr \<Rightarrow> timer) \<Rightarrow> (addr \<times> os_u32) list" where
  "due_events tick as ts = map (\<lambda>a. notification (ts a)) (filter (\<lambda>a. due tick (ts a)) as)"

lemma timer_visit_eq:
  assumes q: "quiet call"
  shows "timer_visit tick call (Timer_node a) s =
     map_option (\<lambda>s'. s'\<lparr>timers := (timers s)(a := ticked tick (timers s a))\<rparr>)
       (calls call (due_events tick [a] (timers s)) s)"
proof (cases "due tick (timers s a)")
  case True
  let ?x = "timers s a"
  let ?t = "(timers s)(a := set_value_nsec 0 ?x)"
  have v: "value_nsec (tm_spec ?x) = tick" "sint tick > 0" using True by (auto simp: due_def)
  have u: "upd_timer a (\<lambda>x. set_value_nsec (value_nsec (tm_spec x) - tick) x) s = s\<lparr>timers := ?t\<rparr>"
    by (simp add: upd_timer_def v)
  show ?thesis
  proof (cases "call (fst (notification ?x)) (snd (notification ?x)) s")
    case None
    then show ?thesis using True v
      by (simp add: timer_visit_def u quiet_timers [OF q] due_events_def notification_def)
  next
    case (Some s')
    then show ?thesis using True v
      by (simp add: timer_visit_def u quiet_timers [OF q] due_events_def notification_def ticked_def upd_timer_def)
  qed
next
  case False
  have "s\<lparr>timers := (timers s)(a := timers s a)\<rparr> = s" by simp
  then show ?thesis using False
    by (auto simp: timer_visit_def due_events_def ticked_def due_def upd_timer_def Let_def)
qed

lemma calls_append: "calls call (es @ es') s = do { s \<leftarrow> calls call es s; calls call es' s }"
  by (induction es arbitrary: s) (auto split: bind_splits)

lemma timer_fold:
  assumes q: "quiet call"
  shows "distinct as \<Longrightarrow> fold_option (timer_visit tick call) (map Timer_node as) s =
     map_option (\<lambda>s'. s'\<lparr>timers := tick_timers tick (set as) (timers s)\<rparr>)
       (calls call (due_events tick as (timers s)) s)"
proof (induction as arbitrary: s)
  case Nil
  have "tick_timers tick {} (timers s) = timers s" by (simp add: tick_timers_def fun_eq_iff)
  then show ?case by (simp add: due_events_def)
next
  case (Cons a as)
  let ?t = "(timers s)(a := ticked tick (timers s a))"
  have split: "due_events tick (a # as) (timers s) = due_events tick [a] (timers s) @ due_events tick as (timers s)"
    by (simp add: due_events_def)
  have same: "due_events tick as ?t = due_events tick as (timers s)"
    using Cons.prems unfolding due_events_def by (intro arg_cong2 [of _ _ _ _ map] ext filter_cong map_cong) auto
  have tt: "tick_timers tick (set as) ?t = tick_timers tick (set (a # as)) (timers s)"
    using Cons.prems by (auto simp: tick_timers_def fun_eq_iff)
  show ?case
  proof (cases "calls call (due_events tick [a] (timers s)) s")
    case None
    then show ?thesis by (simp add: timer_visit_eq [OF q] split calls_append)
  next
    case (Some s')
    then show ?thesis using Cons.IH [of "s'\<lparr>timers := ?t\<rparr>"] Cons.prems
      by (simp add: timer_visit_eq [OF q] split calls_append calls_timers [OF q] same tt option.map_comp comp_def
          del: fun_upd_apply)
  qed
qed

lemma calls_links: "quiet call \<Longrightarrow> calls call es s = Some s' \<Longrightarrow> links s' = links s"
proof (induction es arbitrary: s)
  case (Cons e es)
  then show ?case by (auto simp: bind_eq_Some_conv dest: quietD(2))
qed simp

lemma timer_visit_links:
  assumes "quiet call" and "timer_visit tick call x s = Some s'"
  shows "links s' = links s"
proof -
  obtain a where "x = Timer_node a" using assms(2) by (cases x) (auto simp: timer_visit_def)
  then show ?thesis using assms calls_links [OF assms(1)] by (auto simp: timer_visit_eq)
qed

lemma timer_pass_eq:
  assumes "quiet call" and "ring (links s) Timer_head (map Timer_node as)"
  shows "timer_pass tick call s =
     map_option (\<lambda>s'. s'\<lparr>timers := tick_timers tick (set as) (timers s)\<rparr>)
       (calls call (due_events tick as (timers s)) s)"
proof -
  have "distinct as" using assms(2) by (auto simp: ring_def distinct_map)
  moreover have "timer_pass tick call s = fold_option (timer_visit tick call) (map Timer_node as) s"
    unfolding timer_pass_def
    by (rule list_for_each_ring [where get = links]) (use timer_visit_links [OF assms(1)] assms(2) in auto)
  ultimately show ?thesis using timer_fold [OF assms(1)] by simp
qed

section \<open>Many rounds\<close>











section \<open>Properties\<close>

text \<open>
  One round of the timer thread, for notification functions that leave the timers and lists alone: every armed timer counts down by one tick,
  the functions of exactly the timers that reach zero are called, once each, in the order of the timer list with their
  own argument, and those timers are reloaded with their interval, or stay stopped when it is zero; no other timer changes.
\<close>
theorem timer_pass_calls_due:
  assumes "quiet call" and "ring (links s) Timer_head (map Timer_node as)"
  shows "timer_pass tick call s =
     map_option (\<lambda>s'. s'\<lparr>timers := \<lambda>a. if a \<in> set as then ticked tick (timers s a) else timers s a\<rparr>)
       (calls call (map (\<lambda>a. notification (timers s a)) (filter (\<lambda>a. due tick (timers s a)) as)) s)"
proof -
  have "tick_timers tick (set as) (timers s) = (\<lambda>a. if a \<in> set as then ticked tick (timers s a) else timers s a)"
    by (simp add: tick_timers_def fun_eq_iff)
  then show ?thesis using timer_pass_eq [OF assms, of tick] by (simp add: due_events_def)
qed

text \<open>A kernel with one timer at 0x700 that expires after 2 and then every 3 ticks.\<close>

definition demo_timer :: timer where
  "demo_timer = \<lparr>tm_clockid = 0, tm_spec = \<lparr>interval_sec = 0, interval_nsec = 3, value_sec = 0, value_nsec = 2\<rparr>,
     tm_igevent = \<lparr>ev_flag = 0, sigev_notify = 3, sigev_signo = 0, sigev_value = 9, sigev_notify_function = 0x90,
       sigev_notify_attributes = 0\<rparr>\<rparr>"

definition timer_kernel :: tkernel where
  "timer_kernel = (kernel.extend boot_kernel
     \<lparr>timers = (\<lambda>_. demo_timer), timespecs = (\<lambda>_. tm_spec demo_timer), timer_sem = 0x800, local_time = 0\<rparr>)
     \<lparr>links := list_insert_tail Timer_head (Timer_node 0x700)
        (list_init Timer_head \<lparr>next_of = \<lambda>x. x, prev_of = \<lambda>x. x\<rparr>)\<rparr>"

definition count_call :: "addr \<Rightarrow> os_u32 \<Rightarrow> tkernel \<Rightarrow> tkernel option" where
  "count_call f v s = Some (s\<lparr>local_time := local_time s + ucast v\<rparr>)"

lemma count_call_quiet: "quiet count_call" "count_call f v s \<noteq> None"
  by (simp_all add: quiet_def count_call_def)

lemma timer_kernel_ring: "ring (links timer_kernel) Timer_head (map Timer_node [0x700])"
  by (simp add: timer_kernel_def ring_def link_ops Let_def)

theorem timer_pass_calls_due_witness:
  "\<exists>s'. timer_pass 2 count_call timer_kernel = Some s' \<and> local_time s' = 9 \<and> value_nsec (tm_spec (timers s' 0x700)) = 3"
  using timer_pass_calls_due [OF count_call_quiet(1) timer_kernel_ring, of 2]
  by (simp add: due_def timer_kernel_def kernel.extend_def demo_timer_def count_call_def notification_def ticked_def
      set_value_nsec_def)



text \<open>
  \<^verbatim>\<open>localtime_r\<close> takes the system time apart: milliseconds, seconds, minutes and hours are in their ranges and with the day
  count they give the time back; but the field it calls the day of the week is the day of a 365-day year.
\<close>
theorem localtime_decomposes:
  "let r = localtime_r s result; d = unat (local_time s) div 86400000
   in unat (tm_ms r) < 1000 \<and> unat (tm_sec r) < 60 \<and> unat (tm_min r) < 60 \<and> unat (tm_hour r) < 24 \<and>
      unat (tm_wday r) = d mod 365 \<and>
      unat (local_time s) =
        unat (tm_ms r) + 1000 * (unat (tm_sec r) + 60 * (unat (tm_min r) + 60 * (unat (tm_hour r) + 24 * d)))"
proof -
  define t where "t = unat (local_time s)"
  have small: "unat (ucast x :: os_u32) = unat x" if "unat x < 1000" for x :: os_u64
    using that by (simp add: unsigned_ucast_eq unsigned_take_bit_eq take_bit_nat_eq_self)
  note dd = unat_mod_distrib unat_div_distrib div_mult2_eq [symmetric]
  have ms: "unat (tm_ms (localtime_r s result)) = t mod 1000"
    by (simp add: localtime_r_def Let_def small dd t_def)
  have sec: "unat (tm_sec (localtime_r s result)) = t div 1000 mod 60"
    by (simp add: localtime_r_def Let_def small dd t_def less_trans [of _ 60])
  have min: "unat (tm_min (localtime_r s result)) = t div 60000 mod 60"
    by (simp add: localtime_r_def Let_def small dd t_def less_trans [of _ 60])
  have hour: "unat (tm_hour (localtime_r s result)) = t div 3600000 mod 24"
    by (simp add: localtime_r_def Let_def small dd t_def less_trans [of _ 24])
  have day: "unat (tm_wday (localtime_r s result)) = t div 86400000 mod 365"
    by (simp add: localtime_r_def Let_def small dd t_def less_trans [of _ 365])
  have "t = t mod 1000 + 1000 * (t div 1000 mod 60 + 60 * (t div 60000 mod 60 + 60 * (t div 3600000 mod 24 + 24 * (t div 86400000))))"
  proof -
    have "t div 86400000 = t div 3600000 div 24" "t div 3600000 = t div 60000 div 60" "t div 60000 = t div 1000 div 60"
      by (simp_all add: div_mult2_eq [symmetric])
    then show ?thesis by (metis add.commute div_mod_decomp mult.commute)
  qed
  then show ?thesis unfolding Let_def ms sec min hour day by (simp add: t_def)
qed

end
