(* ===== verification/Signal.thy ===== *)
theory Signal
  imports Timer
begin

text \<open>
  Signals, \<^verbatim>\<open>hwutil/kernel/source/signal.c\<close> and \<^verbatim>\<open>__sched_report_signal\<close> of \<^verbatim>\<open>sched.c\<close>: registering a handler, queueing a signal
  event for a thread from a static table of 32 event blocks, and the routine that runs in the
  signalled thread and calls the matching handlers.

  The state is extended by the store of the \<^verbatim>\<open>struct sigevent_list\<close> objects (of the table and of the heap), the address of the table
  and of its mutex. \<open>call f v\<close> is what the handler at \<open>f\<close> does with the value \<open>v\<close>.
\<close>

section \<open>Signal events\<close>

definition SIG_EVENT_TABLE :: nat where "SIG_EVENT_TABLE = 32"

text \<open>\<^verbatim>\<open>sizeof(struct sigevent_list)\<close>: a list node and six words.\<close>

definition SIZEOF_SIGEVENT_LIST :: os_u32 where "SIZEOF_SIGEVENT_LIST = 32"

record sigkernel = tkernel +
  sigevents :: "addr \<Rightarrow> sigevent"
  sigevent_table :: addr
  sigevent_mutex :: addr

definition sig_slot :: "'a sigkernel_scheme \<Rightarrow> nat \<Rightarrow> addr" where
  "sig_slot s i = sigevent_table s + SIZEOF_SIGEVENT_LIST * of_nat i"

definition upd_sigevent :: "addr \<Rightarrow> (sigevent \<Rightarrow> sigevent) \<Rightarrow> 'a sigkernel_scheme \<Rightarrow> 'a sigkernel_scheme" where
  "upd_sigevent a f s = s\<lparr>sigevents := (sigevents s)(a := f (sigevents s a))\<rparr>"

definition sigevent_alloc :: "('a sigkernel_scheme \<Rightarrow> 'a sigkernel_scheme option) \<Rightarrow> 'a sigkernel_scheme \<Rightarrow>
    (addr \<times> 'a sigkernel_scheme) option" where
  "sigevent_alloc env s =
     do {
       (ret, s) \<leftarrow> pthread_mutex_lock env (sigevent_mutex s) s;
       let (sigevent, s) =
         (case find (\<lambda>i. ev_flag (sigevents s (sig_slot s i)) = 0) [0..<SIG_EVENT_TABLE] of
            None \<Rightarrow> (NULL, s)
          | Some i \<Rightarrow> (sig_slot s i, upd_sigevent (sig_slot s i) (\<lambda>x. x\<lparr>ev_flag := 1\<rparr>) s));
       (ret, s) \<leftarrow> pthread_mutex_unlock (sigevent_mutex s) s;
       Some (sigevent, s)
     }"

definition sigevent_free :: "addr \<Rightarrow> 'a sigkernel_scheme \<Rightarrow> 'a sigkernel_scheme" where
  "sigevent_free a s = upd_sigevent a (\<lambda>x. x\<lparr>ev_flag := 0\<rparr>) s"

definition sigevent_entry :: "lnode \<Rightarrow> addr option" where
  "sigevent_entry x = (case x of Sigevent_node a \<Rightarrow> Some a | _ \<Rightarrow> None)"

definition sig_match :: "(addr \<Rightarrow> os_u32 \<Rightarrow> 'a sigkernel_scheme \<Rightarrow> 'a sigkernel_scheme option) \<Rightarrow> addr \<Rightarrow>
    lnode \<Rightarrow> 'a sigkernel_scheme \<Rightarrow> 'a sigkernel_scheme option" where
  "sig_match call sigevent node s =
     do {
       sig \<leftarrow> sigevent_entry node;
       if sigev_signo (sigevents s sig) = sigev_signo (sigevents s sigevent)
       then call (sigev_notify_function (sigevents s sig)) (sigev_value (sigevents s sigevent)) s
       else Some s
     }"

definition sigevent_handle :: "(addr \<Rightarrow> os_u32 \<Rightarrow> 'a sigkernel_scheme \<Rightarrow> 'a sigkernel_scheme option) \<Rightarrow> addr \<Rightarrow>
    'a sigkernel_scheme \<Rightarrow> 'a sigkernel_scheme option" where
  "sigevent_handle call pthread s =
     list_for_each_head links
       (\<lambda>node s. do {
          sigevent \<leftarrow> sigevent_entry node;
          s \<leftarrow> list_for_each links (sig_match call sigevent) (Sig_head pthread) (next_of (links s) (Sig_head pthread)) s;
          let s = sigevent_free sigevent s;
          Some (upd_links (list_remove_node node) s)
        })
       (Sigevent_head pthread) s"

section \<open>Interrupting a thread\<close>

text \<open>\<open>int_exit\<close> and \<open>start_routine\<close> are the addresses of \<^verbatim>\<open>__pthread_int_exit_entry\<close> and of the routine to run.\<close>

definition sched_report_signal :: "addr \<Rightarrow> addr \<Rightarrow> addr \<Rightarrow> addr \<Rightarrow> 'a kernel_scheme \<Rightarrow> (err_t \<times> 'a kernel_scheme) option" where
  "sched_report_signal int_exit thread start_routine arg s =
     (if th_status (thr s thread) = PTHREAD_STATE_INT then Some (- EINVAL, s)
      else do {
        let (temp, s) = hw_interrupt_suspend s;
        let (ret, s) = pthread_int_init int_exit thread start_routine arg s;
        let s = sched_set_thread_int thread s;
        s \<leftarrow> sched_switch_thread s;
        Some (0, hw_interrupt_recover temp s)
      })"

definition sigevent_report :: "addr \<Rightarrow> addr \<Rightarrow> addr \<Rightarrow> addr \<Rightarrow> 'a sigkernel_scheme \<Rightarrow> 'a sigkernel_scheme option" where
  "sigevent_report int_exit handle_entry thread sigevent s =
     do {
       let (temp, s) = hw_interrupt_suspend s;
       let s = upd_links (list_insert_tail (Sigevent_head thread) (Sigevent_node sigevent)) s;
       (ret, s) \<leftarrow> sched_report_signal int_exit thread handle_entry thread s;
       Some (hw_interrupt_recover temp s)
     }"

definition signal :: "('a sigkernel_scheme \<Rightarrow> 'a sigkernel_scheme option) \<Rightarrow> int \<Rightarrow> addr \<Rightarrow> 'a sigkernel_scheme \<Rightarrow>
    (addr \<times> 'a sigkernel_scheme) option" where
  "signal env signum handler s =
     do {
       let current_thread = get_current_thread s;
       (sigevent, s) \<leftarrow> malloc env SIZEOF_SIGEVENT_LIST s;
       if sigevent = NULL then Some (NULL, s)
       else do {
         let s = upd_sigevent sigevent (\<lambda>x. x\<lparr>sigev_signo := signum, sigev_notify_function := handler, sigev_value := 0\<rparr>) s;
         let (temp, s) = hw_interrupt_suspend s;
         let s = upd_links (list_insert_tail (Sig_head current_thread) (Sigevent_node sigevent)) s;
         Some (handler, hw_interrupt_recover temp s)
       }
     }"

definition sigqueue :: "('a sigkernel_scheme \<Rightarrow> 'a sigkernel_scheme option) \<Rightarrow> addr \<Rightarrow> addr \<Rightarrow> addr \<Rightarrow> int \<Rightarrow> os_u32 \<Rightarrow>
    'a sigkernel_scheme \<Rightarrow> (err_t \<times> 'a sigkernel_scheme) option" where
  "sigqueue env int_exit handle_entry pid signo value s =
     do {
       (sigevent, s) \<leftarrow> sigevent_alloc env s;
       if sigevent = NULL then Some (EAGAIN, s)
       else do {
         let s = upd_sigevent sigevent (\<lambda>x. x\<lparr>sigev_signo := signo, sigev_value := value\<rparr>) s;
         s \<leftarrow> sigevent_report int_exit handle_entry pid sigevent s;
         Some (0, s)
       }
     }"

definition signal_init :: "'a sigkernel_scheme \<Rightarrow> 'a sigkernel_scheme" where
  "signal_init s = snd (pthread_mutex_init (sigevent_mutex s) s)"

section \<open>Delivery\<close>

text \<open>A handler that leaves the signal events and the kernel's lists alone.\<close>

definition silent :: "(addr \<Rightarrow> os_u32 \<Rightarrow> 'a sigkernel_scheme \<Rightarrow> 'a sigkernel_scheme option) \<Rightarrow> bool" where
  "silent call \<longleftrightarrow>
     (\<forall>f v s e l. call f v (s\<lparr>links := l, sigevents := e\<rparr>) = map_option (\<lambda>s'. s'\<lparr>links := l, sigevents := e\<rparr>) (call f v s))"

lemma silent_eq:
  "silent call \<Longrightarrow> call f v (s\<lparr>links := l, sigevents := e\<rparr>) = map_option (\<lambda>s'. s'\<lparr>links := l, sigevents := e\<rparr>) (call f v s)"
  unfolding silent_def by blast

lemma calls_silent:
  "silent call \<Longrightarrow> calls call es (s\<lparr>links := l, sigevents := e\<rparr>) =
     map_option (\<lambda>s'. s'\<lparr>links := l, sigevents := e\<rparr>) (calls call es s)"
proof (induction es arbitrary: s)
  case (Cons x es)
  then show ?case by (cases "call (fst x) (snd x) s") (simp_all add: silent_eq)
qed simp

lemma calls_keep:
  assumes "silent call" and "calls call es s = Some s'"
  shows "links s' = links s" "sigevents s' = sigevents s"
proof -
  have "s\<lparr>links := links s, sigevents := sigevents s\<rparr> = s" by simp
  then have "calls call es s = map_option (\<lambda>s'. s'\<lparr>links := links s, sigevents := sigevents s\<rparr>) (calls call es s)"
    using calls_silent [OF assms(1), where es = es and s = s and l = "links s" and e = "sigevents s"] by simp
  then have eq: "s' = s'\<lparr>links := links s, sigevents := sigevents s\<rparr>" using assms(2) by simp
  show "links s' = links s" using arg_cong [OF eq, of links] by simp
  show "sigevents s' = sigevents s" using arg_cong [OF eq, of sigevents] by simp
qed

lemma call_keep: "silent call \<Longrightarrow> call f v s = Some s' \<Longrightarrow> links s' = links s \<and> sigevents s' = sigevents s"
  using calls_keep [of call "[(f, v)]" s s'] by simp

definition deliveries :: "(addr \<Rightarrow> sigevent) \<Rightarrow> addr list \<Rightarrow> addr \<Rightarrow> (addr \<times> os_u32) list" where
  "deliveries ev hs e =
     map (\<lambda>h. (sigev_notify_function (ev h), sigev_value (ev e)))
       (filter (\<lambda>h. sigev_signo (ev h) = sigev_signo (ev e)) hs)"

lemma sig_match_node [simp]:
  "sig_match call e (Sigevent_node h) s =
     (if sigev_signo (sigevents s h) = sigev_signo (sigevents s e)
      then call (sigev_notify_function (sigevents s h)) (sigev_value (sigevents s e)) s else Some s)"
  by (simp add: sig_match_def sigevent_entry_def)

lemma deliveries_simps [simp]:
  "deliveries ev [] e = []"
  "deliveries ev (h # hs) e =
     (if sigev_signo (ev h) = sigev_signo (ev e) then [(sigev_notify_function (ev h), sigev_value (ev e))] else []) @
     deliveries ev hs e"
  by (simp_all add: deliveries_def)

lemma sig_match_fold:
  assumes "silent call"
  shows "fold_option (sig_match call e) (map Sigevent_node hs) s = calls call (deliveries (sigevents s) hs e) s"
proof (induction hs arbitrary: s)
  case (Cons h hs)
  show ?case
  proof (cases "call (sigev_notify_function (sigevents s h)) (sigev_value (sigevents s e)) s")
    case None
    then show ?thesis using Cons [of s] by simp
  next
    case (Some s')
    then have "sigevents s' = sigevents s" using call_keep [OF assms] by blast
    then show ?thesis using Some Cons [of s'] Cons [of s] by simp
  qed
qed simp

lemma sig_match_keeps: "silent call \<Longrightarrow> sig_match call e x s = Some s' \<Longrightarrow> links s' = links s"
  by (auto simp: sig_match_def bind_eq_Some_conv split: if_splits dest: call_keep)

lemma sig_loop:
  assumes "silent call" and "ring (links s) (Sig_head t) (map Sigevent_node hs)"
  shows "list_for_each links (sig_match call e) (Sig_head t) (next_of (links s) (Sig_head t)) s =
     calls call (deliveries (sigevents s) hs e) s"
  using list_for_each_ring [where get = links and body = "sig_match call e" and s = s and h = "Sig_head t", OF _ assms(2)]
    sig_match_keeps [OF assms(1)] sig_match_fold [OF assms(1)] by fastforce

text \<open>The state after the events \<open>es\<close> have been handled: blocks free, taken off the list.\<close>

definition handled :: "addr list \<Rightarrow> (addr \<Rightarrow> sigevent) \<Rightarrow> addr \<Rightarrow> sigevent" where
  "handled es ev = fold (\<lambda>e ev. ev(e := (ev e)\<lparr>ev_flag := 0\<rparr>)) es ev"

definition unlinked :: "addr list \<Rightarrow> lnode links \<Rightarrow> lnode links" where
  "unlinked es l = fold (\<lambda>e. list_remove_node (Sigevent_node e)) es l"

lemma handled_apply: "handled es ev a = (if a \<in> set es then (ev a)\<lparr>ev_flag := 0\<rparr> else ev a)"
  by (induction es arbitrary: ev) (auto simp: handled_def)

lemma deliveries_handled: "deliveries (handled xs ev) hs e = deliveries ev hs e"
proof -
  have "sigev_signo (handled xs ev a) = sigev_signo (ev a)" "sigev_value (handled xs ev a) = sigev_value (ev a)"
    "sigev_notify_function (handled xs ev a) = sigev_notify_function (ev a)" for a
    by (simp_all add: handled_apply)
  then show ?thesis by (simp add: deliveries_def)
qed

lemma sigevent_handle_eq:
  assumes sil: "silent call"
  shows "rings (links s) H q \<Longrightarrow> Sigevent_head t \<in> H \<Longrightarrow> Sig_head t \<in> H \<Longrightarrow>
     q (Sigevent_head t) = map Sigevent_node es \<Longrightarrow> q (Sig_head t) = map Sigevent_node hs \<Longrightarrow>
     sigevent_handle call t s =
       map_option (\<lambda>s'. s'\<lparr>links := unlinked es (links s), sigevents := handled es (sigevents s)\<rparr>)
         (calls call (concat (map (deliveries (sigevents s) hs) es)) s)"
proof (induction es arbitrary: s q)
  case Nil
  then have "next_of (links s) (Sigevent_head t) = Sigevent_head t"
    using ring_next [OF ringsD(1) [OF Nil(1,2)]] by simp
  then show ?case
    by (simp add: sigevent_handle_def list_for_each_head.simps unlinked_def handled_def)
next
  case (Cons e es)
  let ?n = "Sigevent_node e" and ?h = "Sigevent_head t"
  note rings = Cons.prems(1)
  have first: "next_of (links s) ?h = ?n" using ring_next [OF ringsD(1) [OF rings Cons.prems(2)]] Cons.prems(4) by simp
  have sig: "ring (links s) (Sig_head t) (map Sigevent_node hs)"
    using ringsD(1) [OF rings Cons.prems(3)] Cons.prems(5) by simp
  have mem: "?n \<in> queued H q" unfolding queued_def by (rule UN_I [OF Cons.prems(2)]) (simp add: Cons.prems(4))
  have r': "rings (list_remove_node ?n (links s)) H (dequeue ?n q)" by (rule rings_remove [OF rings mem])
  have ne: "?n \<notin> set (q (Sig_head t))"
    using rings_disjoint [OF rings Cons.prems(2,3), of ?n] Cons.prems(4) by auto
  have d: "distinct (q ?h)" using ringsD(3) [OF rings Cons.prems(2)] .
  then have q': "dequeue ?n q ?h = map Sigevent_node es" "dequeue ?n q (Sig_head t) = map Sigevent_node hs"
    using Cons.prems(4,5) ne by (auto simp: dequeue_def removeAll_id)
  let ?del = "deliveries (sigevents s) hs e"
  show ?case
  proof (cases "calls call ?del s")
    case None
    then show ?thesis
      by (simp add: sigevent_handle_def list_for_each_head.simps [of links _ ?h s] first sigevent_entry_def
          sig_loop [OF sil sig] calls_append)
  next
    case (Some s1)
    let ?s2 = "s1\<lparr>links := list_remove_node ?n (links s), sigevents := (sigevents s)(e := (sigevents s e)\<lparr>ev_flag := 0\<rparr>)\<rparr>"
    note keep = calls_keep [OF sil Some]
    have s2: "upd_links (list_remove_node ?n) (sigevent_free e s1) = ?s2"
      by (simp add: upd_links_def sigevent_free_def upd_sigevent_def keep)
    have step: "sigevent_handle call t s = sigevent_handle call t ?s2"
      unfolding sigevent_handle_def
      by (subst list_for_each_head.simps)
        (simp add: first sigevent_entry_def sig_loop [OF sil sig] Some s2)
    have ih: "sigevent_handle call t ?s2 =
        map_option (\<lambda>s'. s'\<lparr>links := unlinked es (links ?s2), sigevents := handled es (sigevents ?s2)\<rparr>)
         (calls call (concat (map (deliveries (sigevents ?s2) hs) es)) ?s2)"
      by (rule Cons.IH [where q = "dequeue ?n q"]) (use r' Cons.prems(2,3) q' in simp_all)
    have ev: "sigevents ?s2 = handled [e] (sigevents s)" by (simp add: handled_def)
    show ?thesis
      unfolding step ih ev deliveries_handled using Some
      by (simp add: calls_append calls_silent [OF sil] option.map_comp comp_def unlinked_def
          handled_def del: fun_upd_apply)
  qed
qed

lemma unlinked_rings:
  "rings l H q \<Longrightarrow> h \<in> H \<Longrightarrow> q h = map Sigevent_node es \<Longrightarrow> rings (unlinked es l) H (q(h := []))"
proof (induction es arbitrary: l q)
  case Nil
  then show ?case by (simp add: unlinked_def fun_upd_idem)
next
  case (Cons e es)
  let ?n = "Sigevent_node e"
  have mem: "?n \<in> queued H q" unfolding queued_def by (rule UN_I [OF Cons.prems(2)]) (simp add: Cons.prems(3))
  have "dequeue ?n q h = map Sigevent_node es"
    using ringsD(3) [OF Cons.prems(1,2)] Cons.prems(3) by (auto simp: dequeue_def removeAll_id)
  from Cons.IH [OF rings_remove [OF Cons.prems(1) mem] Cons.prems(2) this]
  have "rings (unlinked es (list_remove_node ?n l)) H ((dequeue ?n q)(h := []))" .
  moreover have "dequeue ?n q k = q k" if "k \<in> H" "k \<noteq> h" for k
    unfolding dequeue_def
    by (rule removeAll_id) (use rings_disjoint [OF Cons.prems(1) that(1) Cons.prems(2), of ?n] that(2) Cons.prems(3) in auto)
  ultimately show ?case
    by (subst rings_cong [where q' = "(dequeue ?n q)(h := [])"]) (simp_all add: unlinked_def)
qed

section \<open>Queueing\<close>

text \<open>The signal lists are lists of events: the invariant of the threads is indifferent to them.\<close>

lemma kernel_wf_append_event:
  assumes wf: "kernel_wf H q s" and h: "h \<in> H" "h \<notin> wait_heads" "h \<notin> sched_heads" and x: "x \<notin> H" "x \<notin> queued H q"
  shows "kernel_wf H (enqueue h x q) (upd_links (list_insert_tail h x) s)"
proof -
  note sw = sched_wfD [OF kernel_wfD(1) [OF wf]]
  have "rings (list_insert_tail h x (links s)) H (enqueue h x q)" by (rule kq.insert_law [OF sw(1) h(1) x])
  moreover have same: "enqueue h x q k = q k" if "k \<in> sched_heads \<union> wait_heads" for k
    using that h(2,3) by (intro enqueue_other) auto
  have "bitmap_ok (enqueue h x q) (thread_ready_group s)" "members_ok (enqueue h x q) (thr s)"
    using sw(3,4) same by (auto simp: bitmap_ok_def members_ok_def sched_heads_def)
  moreover have "enqueue h x q (own_queue y) = q (own_queue y)" if "valid_prio y" for y
    using same own_queue_in_heads [OF that] by blast
  then have "registered_ok (enqueue h x q) (thr s)"
    using sw(5) same [of Thread_head] by (simp add: registered_ok_def sched_heads_def)
  moreover have "waiters_ok H (enqueue h x q) (thr s)"
    using kernel_wfD(2) [OF wf] same by (auto simp: waiters_ok_def)
  ultimately show ?thesis using sw(2) by (simp add: kernel_wf_def sched_wf_def upd_links_def)
qed

lemma kernel_wf_int_sp:
  assumes "kernel_wf H q s"
  shows "kernel_wf H q (upd_thread t (\<lambda>x. x\<lparr>th_int_sp := v\<rparr>) s)"
proof -
  let ?s = "upd_thread t (\<lambda>x. x\<lparr>th_int_sp := v\<rparr>) s"
  have same: "th_status (thr ?s u) = th_status (thr s u)" "th_cur_prio (thr ?s u) = th_cur_prio (thr s u)" for u
    by (simp_all add: upd_thread_def)
  have "sched_wf H q ?s" by (rule sched_wf_thr_cong [OF kernel_wfD(1) [OF assms]]) (simp_all add: upd_thread_def)
  moreover have "waiters_ok H q (thr ?s)"
    using kernel_wfD(2) [OF assms] by (simp add: waiters_ok_def valid_prio_def same)
  ultimately show ?thesis by (simp add: kernel_wf_def)
qed

lemma sched_report_signal_wf:
  assumes wf: "kernel_wf H q s" and t: "valid_prio (thr s t)" "movable H q s t" "th_status (thr s t) \<noteq> PTHREAD_STATE_INT"
  defines "q' \<equiv> relocate (ready_place (thr s t)) t q"
  shows "\<exists>s'. sched_report_signal int_exit t f arg s = Some (0, s') \<and> kernel_wf H q' s' \<and>
     th_status (thr s' t) = PTHREAD_STATE_INT \<and> top_thread q' = Some (current_thread s') \<and> primask s' = primask s"
proof -
  obtain sp m where sm: "pthread_hw_stack_init f arg (th_sp (thr s t) - 8) int_exit (mem32 s) = (sp, m)" by fastforce
  let ?s1 = "upd_thread t (\<lambda>x. x\<lparr>th_int_sp := sp\<rparr>) (s\<lparr>primask := True, mem32 := m\<rparr>)"
  have "kernel_wf H q (s\<lparr>primask := True, mem32 := m\<rparr>)" by (rule kernel_wf_cong [THEN iffD2, OF _ _ _ wf]) simp_all
  then have k1: "kernel_wf H q ?s1" by (rule kernel_wf_int_sp)
  have pl: "ready_place (thr ?s1 t) = ready_place (thr s t)" "valid_prio (thr ?s1 t)" "movable H q ?s1 t"
    using t(1,2) by (simp_all add: upd_thread_def ready_place_def own_queue_def valid_prio_def movable_def)
  have k2: "kernel_wf H q' (sched_set_thread_int t ?s1)"
    unfolding q'_def pl(1) [symmetric]
    by (rule set_int.kernel_wf_law [OF k1 pl(2,3)]) (auto simp: ready_place_def own_queue_not_wait)
  obtain u where u: "top_thread q' = Some u"
    using top_after_ready [OF kernel_wfD(1) [OF k2, unfolded q'_def] t(1)] q'_def by blast
  have "sched_report_signal int_exit t f arg s =
      Some (0, (switched u (sched_set_thread_int t ?s1))\<lparr>primask := primask s\<rparr>)"
    using t(3) sm sched_switch_thread_eq [OF kernel_wfD(1) [OF k2]] u
    by (simp add: sched_report_signal_def hw_interrupt_suspend_def hw_interrupt_recover_def pthread_int_init_def)
  then show ?thesis using k2 u by (simp add: with_status_def)
qed

text \<open>What \<^verbatim>\<open>__sigevent_alloc\<close> finds: the first free block of the table.\<close>

definition free_slot :: "'a sigkernel_scheme \<Rightarrow> nat option" where
  "free_slot s = find (\<lambda>i. ev_flag (sigevents s (sig_slot s i)) = 0) [0..<SIG_EVENT_TABLE]"

lemma set_owner_sig [simp]:
  "sigevents (set_owner m t s) = sigevents s" "sigevent_table (set_owner m t s) = sigevent_table s"
  "sigevent_mutex (set_owner m t s) = sigevent_mutex s" "sigevents (locked m s) = sigevents s"
  "sigevent_table (locked m s) = sigevent_table s" "sigevent_mutex (locked m s) = sigevent_mutex s"
  by (simp_all add: set_owner_def locked_def)

lemma upd_sigevent_locked: "upd_sigevent a f (locked m s) = locked m (upd_sigevent a f s)"
  by (simp add: upd_sigevent_def locked_def set_owner_def owner_def)

lemma sigevent_alloc_eq:
  assumes "mutex_idle (sigevent_mutex s) s"
  shows "sigevent_alloc env s =
     Some (case free_slot s of None \<Rightarrow> (NULL, s)
       | Some i \<Rightarrow> (sig_slot s i, upd_sigevent (sig_slot s i) (\<lambda>x. x\<lparr>ev_flag := 1\<rparr>) s))"
proof -
  let ?m = "sigevent_mutex s"
  have idle: "mutex_idle ?m (upd_sigevent a f s)" for a f
    using assms by (rule mutex_idle_cong) (simp_all add: upd_sigevent_def)
  have keep: "sigevent_mutex (upd_sigevent a f s) = ?m" for a f by (simp add: upd_sigevent_def)
  show ?thesis
    using assms
    by (simp add: sigevent_alloc_def lock_idle free_slot_def sig_slot_def upd_sigevent_locked keep
        unlock_locked [OF idle] unlock_locked split: option.split)
qed

section \<open>The concrete system\<close>

text \<open>The running system with one handler (0x70) and two pending events for the thread 0x300, and a table at 0x3000.\<close>

definition demo_event :: "int \<Rightarrow> os_u32 \<Rightarrow> sigevent" where
  "demo_event n v = \<lparr>ev_flag = 0, sigev_notify = 0, sigev_signo = n, sigev_value = v, sigev_notify_function = 0x70,
     sigev_notify_attributes = 0\<rparr>"

definition signal_base :: sigkernel where
  "signal_base =
     tkernel.extend (kernel.extend (kstate.extend running_state
         \<lparr>heap = demo_heap, heap_mem_mutex = 0x500, mem32 = (\<lambda>_. 0)\<rparr>)
         \<lparr>timers = (\<lambda>_. demo_timer), timespecs = (\<lambda>_. tm_spec demo_timer), timer_sem = 0x800, local_time = 0\<rparr>)
       \<lparr>sigevents = (\<lambda>a. if a = 0x5020 then demo_event 8 4 else demo_event 7 (a AND 15)), sigevent_table = 0x3000,
         sigevent_mutex = 0x900\<rparr>"

definition signal_kernel :: sigkernel where
  "signal_kernel = signal_init (upd_links (list_init (Sigevent_head 0x300)) signal_base)"

definition signal_heads :: "lnode set" where
  "signal_heads = insert (Mutex_head 0x900) (insert (Sigevent_head 0x300) sched_heads)"

lemma demo_q_nodes: "x \<in> set (demo_q h) \<Longrightarrow> (\<exists>t. x = Thread_node t) \<or> (\<exists>t. x = Thread_tnode t)"
  by (auto simp: demo_q_def split: if_splits)

lemma signal_kernel_facts:
  "kernel_wf signal_heads demo_q signal_kernel" "mutex_idle (sigevent_mutex signal_kernel) signal_kernel"
proof -
  let ?s = "upd_links (list_init (Sigevent_head 0x300)) signal_base"
  have q: "demo_q(h := []) = demo_q" if "h = Sigevent_head 0x300 \<or> h = Mutex_head 0x900" for h
    using that by (auto simp: demo_q_def)
  have nq: "Sigevent_head 0x300 \<notin> queued H demo_q" "Mutex_head 0x900 \<notin> queued H demo_q" for H
    by (auto simp: queued_def dest: demo_q_nodes)
  have "kernel_wf sched_heads demo_q signal_base"
    using running_kernel_wf
    by (simp add: kernel_wf_def sched_wf_def signal_base_def tkernel.extend_def kernel.extend_def kstate.extend_def)
  from kernel_wf_init_head [OF this, where h = "Sigevent_head 0x300"]
  have "kernel_wf (insert (Sigevent_head 0x300) sched_heads) demo_q ?s"
    using q [of "Sigevent_head 0x300"] nq by (auto simp: sched_heads_def)
  from mutex_init_wf [OF this, of "0x900"]
  have m: "kernel_wf signal_heads demo_q (snd (pthread_mutex_init 0x900 ?s))" "owner 0x900 (snd (pthread_mutex_init 0x900 ?s)) = NULL"
    using q [of "Mutex_head 0x900"] nq by (auto simp: sched_heads_def signal_heads_def)
  have e: "signal_kernel = snd (pthread_mutex_init 0x900 ?s)"
    by (simp add: signal_kernel_def signal_init_def signal_base_def upd_links_def tkernel.extend_def)
  show wf: "kernel_wf signal_heads demo_q signal_kernel" unfolding e by (rule m(1))
  have "next_of (links signal_kernel) (Mutex_head 0x900) = Mutex_head 0x900"
    using ring_next [OF ringsD(1) [OF sched_wfD(1) [OF kernel_wfD(1) [OF wf]]], of "Mutex_head 0x900"]
    by (simp add: signal_heads_def demo_q_def)
  moreover have "sigevent_mutex signal_kernel = 0x900"
    by (simp add: signal_kernel_def signal_init_def pthread_mutex_init_def signal_base_def upd_links_def tkernel.extend_def)
  ultimately show "mutex_idle (sigevent_mutex signal_kernel) signal_kernel"
    using m(2) by (simp add: mutex_idle_def e)
qed


definition mark_call :: "addr \<Rightarrow> os_u32 \<Rightarrow> sigkernel \<Rightarrow> sigkernel option" where
  "mark_call f v s = Some (s\<lparr>local_time := local_time s + ucast v\<rparr>)"

lemma mark_call_silent: "silent mark_call"
  by (simp add: silent_def mark_call_def)

definition pending_kernel :: sigkernel where
  "pending_kernel = signal_base
     \<lparr>links := list_insert_tail (Sigevent_head 0x300) (Sigevent_node 0x5020)
        (list_insert_tail (Sigevent_head 0x300) (Sigevent_node 0x3003)
        (list_insert_tail (Sig_head 0x300) (Sigevent_node 0x5000) \<lparr>next_of = \<lambda>x. x, prev_of = \<lambda>x. x\<rparr>)),
      local_time := 0\<rparr>"

definition pending_q :: "lnode \<Rightarrow> lnode list" where
  "pending_q = (\<lambda>_. [])(Sigevent_head 0x300 := map Sigevent_node [0x3003, 0x5020], Sig_head 0x300 := map Sigevent_node [0x5000])"

lemma pending_rings: "rings (links pending_kernel) {Sig_head 0x300, Sigevent_head 0x300} pending_q"
  by (simp add: pending_kernel_def pending_q_def rings_def ring_def link_ops Let_def)

lemma pending_facts:
  "sigevents pending_kernel = (\<lambda>a. if a = 0x5020 then demo_event 8 4 else demo_event 7 (a AND 15))"
  "local_time pending_kernel = 0"
  by (simp_all add: pending_kernel_def signal_base_def tkernel.extend_def)

lemma pending_queues:
  "pending_q (Sigevent_head 0x300) = map Sigevent_node [0x3003, 0x5020]" "pending_q (Sig_head 0x300) = map Sigevent_node [0x5000]"
  by (simp_all add: pending_q_def)

section \<open>Properties\<close>

text \<open>
  C21. \<^verbatim>\<open>__sigevent_handle\<close> delivers every queued event: in the order of the queue, each event is passed to exactly the
  registered handlers of its signal number in the order of registration; afterwards the queue of the thread is empty, the blocks
  of the events are free and every other list is as before.
\<close>
theorem sigevent_handle_delivers:
  assumes "silent call" and "rings (links s) H q" and "Sigevent_head t \<in> H" and "Sig_head t \<in> H"
    and "q (Sigevent_head t) = map Sigevent_node es" and "q (Sig_head t) = map Sigevent_node hs"
    and "calls call (concat (map (deliveries (sigevents s) hs) es)) s = Some s1"
  shows "\<exists>s'. sigevent_handle call t s = Some s' \<and> rings (links s') H (q(Sigevent_head t := [])) \<and>
     (\<forall>a. sigevents s' a = (if a \<in> set es then (sigevents s a)\<lparr>ev_flag := 0\<rparr> else sigevents s a)) \<and>
     s'\<lparr>links := links s, sigevents := sigevents s\<rparr> = s1"
proof -
  have k: "s1\<lparr>links := links s, sigevents := sigevents s\<rparr> = s1"
    unfolding calls_keep [OF assms(1,7), symmetric] by simp
  show ?thesis
    using sigevent_handle_eq [OF assms(1-6)] assms(7) unlinked_rings [OF assms(2,3,5)] k
    by (simp add: handled_apply)
qed

theorem sigevent_handle_delivers_witness:
  "\<exists>s'. sigevent_handle mark_call 0x300 pending_kernel = Some s' \<and> local_time s' = 3 \<and>
     next_of (links s') (Sigevent_head 0x300) = Sigevent_head 0x300"
proof -
  let ?H = "{Sig_head 0x300, Sigevent_head 0x300}"
  have "calls mark_call (concat (map (deliveries (sigevents pending_kernel) [0x5000]) [0x3003, 0x5020])) pending_kernel =
      Some (pending_kernel\<lparr>local_time := 3\<rparr>)"
    unfolding pending_facts by (simp add: demo_event_def mark_call_def pending_facts)
  from sigevent_handle_delivers [OF mark_call_silent pending_rings _ _ pending_queues this]
  obtain s' where s': "sigevent_handle mark_call 0x300 pending_kernel = Some s'"
    "rings (links s') ?H (pending_q(Sigevent_head 0x300 := []))"
    "s'\<lparr>links := links pending_kernel, sigevents := sigevents pending_kernel\<rparr> = pending_kernel\<lparr>local_time := 3\<rparr>"
    by auto
  have "local_time s' = 3" using arg_cong [OF s'(3), of local_time] by simp
  moreover have "next_of (links s') (Sigevent_head 0x300) = Sigevent_head 0x300"
    using ring_next [OF ringsD(1) [OF s'(2), of "Sigevent_head 0x300"]] by simp
  ultimately show ?thesis using s'(1) by blast
qed

text \<open>
  \<^verbatim>\<open>sigqueue\<close> with its table unlocked: when all 32 blocks are taken it returns EAGAIN and changes nothing; otherwise it fills
  the first free block with the signal, appends it to the queue of the target thread, which is made interrupted and ready, the
  kernel invariant is kept and the best ready thread runs.
\<close>
theorem sigqueue_queues:
  assumes wf: "kernel_wf H q s" and idle: "mutex_idle (sigevent_mutex s) s" and nz: "sig_slot s i \<noteq> NULL"
    and t: "valid_prio (thr s t)" "Thread_node t \<in> queued H q" "th_status (thr s t) \<noteq> PTHREAD_STATE_INT"
    and h: "Sigevent_head t \<in> H" and x: "Sigevent_node (sig_slot s i) \<notin> H" "Sigevent_node (sig_slot s i) \<notin> queued H q"
  defines "q' \<equiv> relocate (ready_place (thr s t)) t (enqueue (Sigevent_head t) (Sigevent_node (sig_slot s i)) q)"
  shows "(free_slot s = None \<longrightarrow> sigqueue env int_exit entry t signo v s = Some (EAGAIN, s)) \<and>
    (free_slot s = Some i \<longrightarrow>
      (\<exists>s'. sigqueue env int_exit entry t signo v s = Some (0, s') \<and> kernel_wf H q' s' \<and>
         th_status (thr s' t) = PTHREAD_STATE_INT \<and> top_thread q' = Some (current_thread s')))"
proof -
  let ?a = "sig_slot s i"
  let ?f = "\<lambda>x. x\<lparr>sigev_signo := signo, sigev_value := v\<rparr>" and ?g = "\<lambda>x. x\<lparr>ev_flag := 1\<rparr>"
  let ?s1 = "upd_sigevent ?a ?f (upd_sigevent ?a ?g s)"
  have "kernel_wf H q (?s1\<lparr>primask := True\<rparr>)" by (rule kernel_wf_cong [THEN iffD2, OF _ _ _ wf]) (simp_all add: upd_sigevent_def)
  then have wf1: "kernel_wf H (enqueue (Sigevent_head t) (Sigevent_node ?a) q)
      (upd_links (list_insert_tail (Sigevent_head t) (Sigevent_node ?a)) (?s1\<lparr>primask := True\<rparr>))" (is "kernel_wf H ?q1 ?s2")
    by (rule kernel_wf_append_event) (use h x in \<open>auto simp: wait_heads_def sched_heads_def\<close>)
  have th: "thr ?s2 = thr s" by (simp add: upd_links_def upd_sigevent_def)
  have "set (q k) \<subseteq> set (?q1 k)" for k by (auto simp: enqueue_def)
  then have "\<exists>k\<in>H. Thread_node t \<in> set (?q1 k)" using t(2) unfolding queued_def by blast
  then have "movable H ?q1 ?s2 t" by (simp add: movable_def queued_def)
  from sched_report_signal_wf [OF wf1 _ this, of int_exit entry t] t(1,3)
  obtain s' where s': "sched_report_signal int_exit t entry t ?s2 = Some (0, s')" "kernel_wf H q' s'"
    "th_status (thr s' t) = PTHREAD_STATE_INT" "top_thread q' = Some (current_thread s')"
    unfolding th q'_def by blast
  then have "sigevent_report int_exit entry t ?a ?s1 = Some (hw_interrupt_recover (primask s) s')"
    by (simp add: sigevent_report_def hw_interrupt_suspend_def upd_sigevent_def)
  then show ?thesis
    using sigevent_alloc_eq [OF idle, of env] s'(2-4) nz
    by (auto simp: sigqueue_def hw_interrupt_recover_def)
qed

theorem sigqueue_queues_witness:
  "\<exists>s'. sigqueue (\<lambda>_. None) 0x80 0x90 0x300 7 5 signal_kernel = Some (0, s') \<and>
     th_status (thr s' 0x300) = PTHREAD_STATE_INT"
proof -
  have sl: "sig_slot signal_kernel 0 = 0x3000" "free_slot signal_kernel = Some 0"
    by (simp_all add: free_slot_def SIG_EVENT_TABLE_def upt_rec sig_slot_def signal_kernel_def signal_init_def
        pthread_mutex_init_def upd_links_def signal_base_def tkernel.extend_def demo_event_def)
  have th: "thr signal_kernel = thr demo_state"
    by (simp add: signal_kernel_def signal_init_def pthread_mutex_init_def upd_links_def signal_base_def
        tkernel.extend_def kernel.extend_def kstate.extend_def running_state_def)
  have "Sigevent_node 0x3000 \<notin> queued signal_heads demo_q" by (auto simp: queued_def dest: demo_q_nodes)
  moreover have "Thread_node 0x300 \<in> queued signal_heads demo_q"
    unfolding queued_def by (rule UN_I [of "Ready_head 10"])
      (simp_all add: signal_heads_def sched_heads_def demo_queues PTHREAD_READY_GROUP_MAX_def)
  moreover have "th_status (thr demo_state 0x300) \<noteq> PTHREAD_STATE_INT"
    by (simp add: demo_facts with_status_def pthread_state_defs)
  ultimately show ?thesis
    using sigqueue_queues [OF signal_kernel_facts, of 0 "0x300" "\<lambda>_. None" "0x80" "0x90" 7 5]
    unfolding sl th by (auto simp: demo_queues(7) signal_heads_def sched_heads_def NULL_def)
qed

end
