(* ===== verification/Stdobj.thy ===== *)
theory Stdobj
  imports Signal Cstring
begin

text \<open>
  Named objects, \<^verbatim>\<open>hwutil/kernel/source/unistd.c\<close>: drivers register a \<^verbatim>\<open>struct stdops\<close> under a name in one of three
  lists (devices, sockets, files); \<^verbatim>\<open>access\<close> finds the object of a path and opens it, and \<^verbatim>\<open>read\<close>, \<^verbatim>\<open>write\<close>,
  \<^verbatim>\<open>lseek\<close>, \<^verbatim>\<open>ioctl\<close>, \<^verbatim>\<open>close\<close> call the driver through its table of functions. A file descriptor is the address of
  the object as an \<^verbatim>\<open>int\<close>.

  The state gets a byte memory, which holds the strings (the \<^verbatim>\<open>name\<close> member of an object at \<open>a\<close> is at \<open>a + 8\<close>), the \<^verbatim>\<open>stdops\<close>
  member of each object and the store of the tables. \<open>drv f ops c\<close> is what the driver function at \<open>f\<close> does when it is
  called for the table at \<open>ops\<close> with the arguments \<open>c\<close>.
\<close>

section \<open>Objects and drivers\<close>

definition STDOBJ_NUM_MAX :: nat where "STDOBJ_NUM_MAX = 3"
definition STDOBJ_DEVICE :: nat where "STDOBJ_DEVICE = 0"
definition STDOBJ_SOCKET :: nat where "STDOBJ_SOCKET = 1"
definition STDOBJ_FS :: nat where "STDOBJ_FS = 2"

definition O_RDONLY :: os_u32 where "O_RDONLY = 1"
definition O_WRONLY :: os_u32 where "O_WRONLY = 2"
definition O_RDWR :: os_u32 where "O_RDWR = 4"
definition O_CREAT :: os_u32 where "O_CREAT = 8"
definition O_NONBLOCK :: os_u32 where "O_NONBLOCK = 16"

record stdops =
  ops_type :: int
  ops_flag :: int
  ops_open_flag :: int
  ops_open :: addr
  ops_read :: addr
  ops_write :: addr
  ops_release :: addr
  ops_control :: addr
  ops_lseek :: addr
  ops_aio_read :: addr
  ops_aio_write :: addr
  ops_sync :: addr
  ops_rx_start :: addr
  ops_tx_end :: addr
  ops_suspend :: addr
  ops_resume :: addr
  ops_help :: addr
  ops_info :: addr
  ops_priv :: addr

record iokernel = sigkernel +
  mem8 :: bytes
  stdobj_ops :: "addr \<Rightarrow> addr"
  ops_at :: "addr \<Rightarrow> stdops"

datatype devcall =
    Open_call
  | Read_call addr os_u32
  | Write_call addr os_u32
  | Release_call
  | Control_call int addr
  | Lseek_call int int

type_synonym 'a driver = "addr \<Rightarrow> addr \<Rightarrow> devcall \<Rightarrow> 'a iokernel_scheme \<Rightarrow> (int \<times> 'a iokernel_scheme) option"

text \<open>\<^verbatim>\<open>sizeof(struct stdobj)\<close> and the addresses of its members.\<close>

definition SIZEOF_STDOBJ :: os_u32 where "SIZEOF_STDOBJ = 36"

definition so_name :: "addr \<Rightarrow> addr" where "so_name a = a + 8"
definition so_mutex :: "addr \<Rightarrow> addr" where "so_mutex a = a + 24"

definition upd_ops :: "addr \<Rightarrow> (stdops \<Rightarrow> stdops) \<Rightarrow> 'a iokernel_scheme \<Rightarrow> 'a iokernel_scheme" where
  "upd_ops a f s = s\<lparr>ops_at := (ops_at s)(a := f (ops_at s a))\<rparr>"

definition zalloc :: "('a iokernel_scheme \<Rightarrow> 'a iokernel_scheme option) \<Rightarrow> os_u32 \<Rightarrow> 'a iokernel_scheme \<Rightarrow>
    (addr \<times> 'a iokernel_scheme) option" where
  "zalloc env sz s =
     do {
       (p, s) \<leftarrow> malloc env sz s;
       Some (p, if p \<noteq> NULL then s\<lparr>mem8 := snd (memset p 0 sz (mem8 s))\<rparr> else s)
     }"

section \<open>Operations\<close>

definition stdobj_init :: "'a iokernel_scheme \<Rightarrow> err_t \<times> 'a iokernel_scheme" where
  "stdobj_init s = (0, fold (\<lambda>i. upd_links (list_init (Stdobj_head i))) [0..<STDOBJ_NUM_MAX] s)"

definition stdobj_create :: "('a iokernel_scheme \<Rightarrow> 'a iokernel_scheme option) \<Rightarrow> nat \<Rightarrow> addr \<Rightarrow> addr \<Rightarrow>
    'a iokernel_scheme \<Rightarrow> (err_t \<times> 'a iokernel_scheme) option" where
  "stdobj_create env obj name ops s =
     (if obj \<ge> STDOBJ_NUM_MAX then Some (- EINVAL, s)
      else if ops = NULL then Some (- EINVAL, s)
      else do {
        (stdobj, s) \<leftarrow> zalloc env SIZEOF_STDOBJ s;
        if stdobj = NULL then Some (- EINVAL, s)
        else let s = s\<lparr>mem8 := snd (memcpy (so_name stdobj) name (of_nat (STDOBJ_NAME_MAX - 1)) (mem8 s))\<rparr>;
                 s = s\<lparr>stdobj_ops := (stdobj_ops s)(stdobj := ops)\<rparr>;
                 s = upd_links (list_init (Stdobj_node stdobj)) s;
                 (ret, s) = pthread_mutex_init (so_mutex stdobj) s;
                 s = upd_links (list_insert_tail (Stdobj_head obj) (Stdobj_node stdobj)) s
             in Some (0, s)
      })"

definition stdobj_entry :: "lnode \<Rightarrow> addr option" where
  "stdobj_entry x = (case x of Stdobj_node a \<Rightarrow> Some a | _ \<Rightarrow> None)"

text \<open>The first of the prefixes at \<open>names\<close> that occurs in the path.\<close>

primrec stdobj_class :: "(nat \<Rightarrow> addr) \<Rightarrow> bytes \<Rightarrow> addr \<Rightarrow> nat list \<Rightarrow> nat option option" where
  "stdobj_class names m name [] = Some None"
| "stdobj_class names m name (t # ts) =
     do {
       p \<leftarrow> strstr m name (names t);
       if p \<noteq> NULL then Some (Some t) else stdobj_class names m name ts
     }"

partial_function (option) stdobj_find :: "bytes \<Rightarrow> lnode links \<Rightarrow> addr \<Rightarrow> lnode \<Rightarrow> lnode \<Rightarrow> addr option option" where
  "stdobj_find m l str head node =
     (if node = head then Some None
      else do {
        stdobj \<leftarrow> stdobj_entry node;
        c \<leftarrow> strcmp m (so_name stdobj) str;
        if c = 0 then Some (Some stdobj) else stdobj_find m l str head (next_of l node)
      })"

definition access :: "'a driver \<Rightarrow> (nat \<Rightarrow> addr) \<Rightarrow> addr \<Rightarrow> int \<Rightarrow> 'a iokernel_scheme \<Rightarrow> (int \<times> 'a iokernel_scheme) option" where
  "access drv stdobj_name name flag s =
     (if name = NULL then Some (0, s)
      else do {
        type \<leftarrow> stdobj_class stdobj_name (mem8 s) name [0..<STDOBJ_NUM_MAX];
        case type of None \<Rightarrow> Some (0, s)
        | Some type \<Rightarrow> do {
            len \<leftarrow> strlen (mem8 s) (stdobj_name type);
            let str = name + len;
            found \<leftarrow> stdobj_find (mem8 s) (links s) str (Stdobj_head type) (next_of (links s) (Stdobj_head type));
            case found of None \<Rightarrow> Some (0, s)
            | Some stdobj \<Rightarrow> do {
                let ops = stdobj_ops s stdobj;
                let s = upd_ops ops (\<lambda>x. x\<lparr>ops_flag := flag\<rparr>) s;
                if ops_open (ops_at s ops) \<noteq> NULL
                then do {
                  (r, s) \<leftarrow> drv (ops_open (ops_at s ops)) ops Open_call s;
                  if r < 0 then Some (- 1, s) else Some (sint stdobj, s)
                }
                else Some (sint stdobj, s)
              }
          }
      })"

definition read :: "'a driver \<Rightarrow> int \<Rightarrow> addr \<Rightarrow> os_u32 \<Rightarrow> 'a iokernel_scheme \<Rightarrow> (int \<times> 'a iokernel_scheme) option" where
  "read drv fildes buf nbyte s =
     (if fildes \<le> 0 then Some (- EINVAL, s)
      else let ops = stdobj_ops s (word_of_int fildes); f = ops_read (ops_at s ops)
           in if f \<noteq> NULL then drv f ops (Read_call buf nbyte) s else Some (- EINVAL, s))"

definition write_fd :: "'a driver \<Rightarrow> int \<Rightarrow> addr \<Rightarrow> os_u32 \<Rightarrow> 'a iokernel_scheme \<Rightarrow> (int \<times> 'a iokernel_scheme) option" where
  "write_fd drv fildes buf nbyte s =
     (if fildes \<le> 0 then Some (- EINVAL, s)
      else let ops = stdobj_ops s (word_of_int fildes); f = ops_write (ops_at s ops)
           in if f \<noteq> NULL then drv f ops (Write_call buf nbyte) s else Some (- EINVAL, s))"

definition lseek :: "'a driver \<Rightarrow> int \<Rightarrow> int \<Rightarrow> int \<Rightarrow> 'a iokernel_scheme \<Rightarrow> (int \<times> 'a iokernel_scheme) option" where
  "lseek drv fildes loff from_pos s =
     (if fildes \<le> 0 then Some (- EINVAL, s)
      else let ops = stdobj_ops s (word_of_int fildes); f = ops_lseek (ops_at s ops)
           in if f \<noteq> NULL then drv f ops (Lseek_call loff from_pos) s else Some (- EINVAL, s))"

definition ioctl :: "'a driver \<Rightarrow> int \<Rightarrow> int \<Rightarrow> addr \<Rightarrow> 'a iokernel_scheme \<Rightarrow> (int \<times> 'a iokernel_scheme) option" where
  "ioctl drv fildes request arg s =
     (if fildes \<le> 0 then Some (- EINVAL, s)
      else let ops = stdobj_ops s (word_of_int fildes); f = ops_control (ops_at s ops)
           in if f \<noteq> NULL then drv f ops (Control_call request arg) s else Some (- EINVAL, s))"

definition lock_fd :: "('a iokernel_scheme \<Rightarrow> 'a iokernel_scheme option) \<Rightarrow> int \<Rightarrow> 'a iokernel_scheme \<Rightarrow>
    (int \<times> 'a iokernel_scheme) option" where
  "lock_fd env fildes s =
     (if fildes \<le> 0 then Some (- EINVAL, s) else pthread_mutex_lock env (so_mutex (word_of_int fildes)) s)"

definition unlock_fd :: "int \<Rightarrow> 'a iokernel_scheme \<Rightarrow> (int \<times> 'a iokernel_scheme) option" where
  "unlock_fd fildes s =
     (if fildes \<le> 0 then Some (- EINVAL, s) else pthread_mutex_unlock (so_mutex (word_of_int fildes)) s)"

definition close :: "'a driver \<Rightarrow> int \<Rightarrow> 'a iokernel_scheme \<Rightarrow> (int \<times> 'a iokernel_scheme) option" where
  "close drv fildes s =
     (if fildes \<le> 0 then Some (- EINVAL, s)
      else let ops = stdobj_ops s (word_of_int fildes); f = ops_release (ops_at s ops)
           in if f \<noteq> NULL then drv f ops Release_call s else Some (0, s))"

section \<open>Finding an object\<close>

definition objects_named :: "bytes \<Rightarrow> (addr \<Rightarrow> os_u8 list) \<Rightarrow> addr list \<Rightarrow> bool" where
  "objects_named m nm os \<longleftrightarrow> (\<forall>a\<in>set os. cstr m (so_name a) (nm a))"

lemma stdobj_find_chain:
  assumes "cstr m str xs"
  shows "chain l x (map Stdobj_node os) h \<Longrightarrow> h \<notin> set (map Stdobj_node os) \<Longrightarrow> objects_named m nm os \<Longrightarrow>
     stdobj_find m l str h (next_of l x) = Some (find (\<lambda>a. nm a = xs) os)"
proof (induction os arbitrary: x)
  case Nil
  then show ?case by (simp add: stdobj_find.simps)
next
  case (Cons a os)
  have "cstr m (so_name a) (nm a)" using Cons.prems(3) by (simp add: objects_named_def)
  then obtain d where d: "strcmp m (so_name a) str = Some d" "d = 0 \<longleftrightarrow> nm a = xs" using strcmp_cstr [OF _ assms] by blast
  have "stdobj_find m l str h (next_of l (Stdobj_node a)) = Some (find (\<lambda>a. nm a = xs) os)"
    using Cons.IH [of "Stdobj_node a"] Cons.prems by (simp add: objects_named_def)
  then show ?case using Cons.prems(1,2) d by (auto simp: stdobj_find.simps [of m l str h "Stdobj_node a"] stdobj_entry_def)
qed

text \<open>The prefixes of \<^verbatim>\<open>stdobj_name\<close>: ``/dev/'', ``/socket/'', ``/fd/''.\<close>

definition stdobj_prefix :: "nat \<Rightarrow> os_u8 list" where
  "stdobj_prefix t =
     (if t = 0 then [47, 100, 101, 118, 47]
      else if t = 1 then [47, 115, 111, 99, 107, 101, 116, 47]
      else [47, 102, 100, 47])"

definition prefixes_at :: "bytes \<Rightarrow> (nat \<Rightarrow> addr) \<Rightarrow> bool" where
  "prefixes_at m names \<longleftrightarrow> (\<forall>t<STDOBJ_NUM_MAX. cstr m (names t) (stdobj_prefix t))"

lemma stdobj_prefix_bounds: "stdobj_prefix t \<noteq> []" "length (stdobj_prefix t) \<le> 8"
  by (simp_all add: stdobj_prefix_def)

text \<open>The class of a path: the first prefix that occurs anywhere in it.\<close>

definition path_class :: "os_u8 list \<Rightarrow> nat option" where
  "path_class xs = find (\<lambda>t. search (stdobj_prefix t) xs \<noteq> None) [0..<STDOBJ_NUM_MAX]"

lemma find_append_None: "find P xs = None \<Longrightarrow> find P (xs @ ys) = find P ys"
  by (induction xs) (auto split: if_splits)

lemma search_less: "search ys xs = Some i \<Longrightarrow> i \<le> length xs"
  by (induction xs arbitrary: i) (auto split: if_splits)

lemma stdobj_class_eq:
  assumes "cstr m name xs" and "length xs < 2 ^ 31" and "unat name + length xs < 2 ^ 32" and "name \<noteq> NULL"
  shows "(\<forall>t\<in>set ts. cstr m (names t) (stdobj_prefix t)) \<Longrightarrow>
     stdobj_class names m name ts = Some (find (\<lambda>t. search (stdobj_prefix t) xs \<noteq> None) ts)"
proof (induction ts)
  case (Cons t ts)
  have nz: "name + of_nat i \<noteq> NULL" if "i \<le> length xs" for i
  proof -
    have "unat name + i < 2 ^ 32" using that assms(3) by simp
    then have "unat (name + of_nat i) = unat name + i" by (rule unat_plus_of_nat)
    moreover have "unat name \<noteq> 0" using assms(4) by (simp add: NULL_def unat_eq_0)
    ultimately have "unat (name + of_nat i) \<noteq> 0" by simp
    then show ?thesis unfolding NULL_def by (metis unat_0)
  qed
  have "strstr m name (names t) = Some (case search (stdobj_prefix t) xs of None \<Rightarrow> 0 | Some i \<Rightarrow> name + of_nat i)"
    using Cons.prems stdobj_prefix_bounds [of t] by (intro strstr_eq [OF assms(1) _ _ assms(2)]) simp_all
  then show ?case using Cons nz search_less by (cases "search (stdobj_prefix t) xs") (auto simp: NULL_def)
qed simp

lemma access_eq:
  assumes p: "prefixes_at (mem8 s) names" "cstr (mem8 s) name xs" "length xs < 2 ^ 31" "unat name + length xs < 2 ^ 32" "name \<noteq> NULL"
    and t: "path_class xs = Some t" "length (stdobj_prefix t) \<le> length xs"
    and r: "ring (links s) (Stdobj_head t) (map Stdobj_node os)" and n: "objects_named (mem8 s) nm os"
  shows "access drv names name flag s =
     (case find (\<lambda>a. nm a = drop (length (stdobj_prefix t)) xs) os of
        None \<Rightarrow> Some (0, s)
      | Some a \<Rightarrow>
          (let ops = stdobj_ops s a; s1 = upd_ops ops (\<lambda>x. x\<lparr>ops_flag := flag\<rparr>) s; f = ops_open (ops_at s ops)
           in if f = NULL then Some (sint a, s1)
              else map_option (\<lambda>(r, s'). (if r < 0 then - 1 else sint a, s')) (drv f ops Open_call s1)))"
proof -
  have c: "stdobj_class names (mem8 s) name [0..<STDOBJ_NUM_MAX] = Some (Some t)"
    using stdobj_class_eq [OF p(2-5), of "[0..<STDOBJ_NUM_MAX]" names] p(1) t(1) by (simp add: prefixes_at_def path_class_def)
  have "t < STDOBJ_NUM_MAX" using t(1) by (auto simp: path_class_def find_Some_iff)
  then have l: "strlen (mem8 s) (names t) = Some (of_nat (length (stdobj_prefix t)))"
    using p(1) by (simp add: prefixes_at_def strlen_cstr)
  have str: "cstr (mem8 s) (name + of_nat (length (stdobj_prefix t))) (drop (length (stdobj_prefix t)) xs)"
    by (rule cstr_drop [OF p(2) t(2)])
  have "chain (links s) (Stdobj_head t) (map Stdobj_node os) (Stdobj_head t)" "Stdobj_head t \<notin> set (map Stdobj_node os)"
    using r by (auto simp: ring_def)
  note f = stdobj_find_chain [OF str this n]
  have ops: "ops_open (ops_at (upd_ops a (\<lambda>x. x\<lparr>ops_flag := flag\<rparr>) s) a) = ops_open (ops_at s a)" for a
    by (simp add: upd_ops_def)
  show ?thesis
    using p(5) by (simp add: access_def c l f ops Let_def split: option.split prod.split)
      (auto simp: map_option_case split: option.split prod.split)
qed

section \<open>Registering an object\<close>

lemma cstr_keep: "cstr m a xs \<Longrightarrow> (\<And>x. x \<in> span a (Suc (length xs)) \<Longrightarrow> m' x = m x) \<Longrightarrow> cstr m' a xs"
proof -
  assume c: "cstr m a xs" and k: "\<And>x. x \<in> span a (Suc (length xs)) \<Longrightarrow> m' x = m x"
  have "block m' a (xs @ [0]) = block m a (xs @ [0])"
    by (rule block_cong) (simp add: k span_def)
  then show "cstr m' a xs" using c by (simp add: cstr_block)
qed

text \<open>The memory of a new object at \<open>p\<close>: cleared, then the name copied in.\<close>

definition named_mem :: "addr \<Rightarrow> addr \<Rightarrow> bytes \<Rightarrow> bytes" where
  "named_mem p name m = memcpy_loop 11 (so_name p) name (memset_loop 36 p 0 m)"

lemma name_span: "span (so_name p) 12 \<subseteq> span p 36"
proof -
  have "span p (8 + 28) = span p 8 \<union> span (so_name p) 28" by (simp only: span_add so_name_def of_nat_numeral)
  moreover have "span (so_name p) 12 \<subseteq> span (so_name p) 28" by (rule span_mono) simp
  ultimately show ?thesis by auto
qed

lemma named_mem_other:
  assumes "x \<notin> span p 36"
  shows "named_mem p name m x = m x"
proof -
  have "x \<notin> span (so_name p) 11" using assms name_span [of p] span_mono [of 11 12 "so_name p"] by auto
  then show ?thesis using assms by (simp add: named_mem_def memcpy_loop_other memset_loop_other)
qed

lemma named_mem_name:
  assumes c: "cstr m name xs" and len: "length xs \<le> 11" and dis: "span name 11 \<inter> span p 36 = {}"
  shows "cstr (named_mem p name m) (so_name p) xs"
proof -
  let ?m = "memset_loop 36 p 0 m"
  have d: "span (so_name p) 11 \<inter> span name 11 = {}"
    using dis name_span [of p] span_mono [of 11 12 "so_name p"] by auto
  have copied: "named_mem p name m (so_name p + of_nat i) = m (name + of_nat i)" if "i < 11" for i
  proof -
    have "name + of_nat i \<notin> span p 36" using that dis by (auto simp: span_def)
    then show ?thesis using memcpy_loop_block [OF d that, of ?m] by (simp add: named_mem_def memset_loop_other)
  qed
  have last: "named_mem p name m (so_name p + of_nat 11) = 0"
  proof -
    have "so_name p + of_nat 11 \<in> span (so_name p) 12" unfolding span_def by (rule imageI) simp
    then have "so_name p + of_nat 11 \<in> span p 36" using name_span by blast
    moreover have "so_name p + of_nat 11 \<notin> span (so_name p) 11"
    proof
      assume "so_name p + of_nat 11 \<in> span (so_name p) 11"
      then obtain i where i: "i < 11" "of_nat i = (11 :: addr)" by (auto simp: span_def)
      then have "unat (of_nat i :: addr) = 11" by simp
      moreover have "unat (of_nat i :: addr) = i" using i(1) by (simp add: unat_of_nat)
      ultimately show False using i(1) by simp
    qed
    ultimately show ?thesis by (simp add: named_mem_def memcpy_loop_other memset_loop_block)
  qed
  have src: "m (name + of_nat i) = (xs @ [0]) ! i" if "i \<le> length xs" for i
    using c that by (simp add: cstr_block block_nth)
  have "named_mem p name m (so_name p + of_nat i) = (xs @ [0]) ! i" if "i < length (xs @ [0])" for i
  proof (cases "i < 11")
    case True
    then show ?thesis using copied src that by simp
  next
    case False
    then have "i = 11" "length xs = 11" using that len by auto
    then show ?thesis using last by (simp add: nth_append)
  qed
  then have "block (named_mem p name m) (so_name p) (xs @ [0])" by (simp add: block_nth)
  then show ?thesis using c by (simp add: cstr_block)
qed

lemma span_apart:
  fixes a b :: addr
  assumes "unat a + n \<le> unat b \<or> unat b + k \<le> unat a" and "unat a + n < 2 ^ 32" and "unat b + k < 2 ^ 32"
  shows "span a n \<inter> span b k = {}"
proof -
  have "a + of_nat i \<noteq> b + of_nat j" if ij: "i < n" "j < k" for i j
  proof
    assume e: "a + of_nat i = b + of_nat j"
    have "unat a + i < 2 ^ 32" "unat b + j < 2 ^ 32" using ij assms(2,3) by linarith+
    with unat_plus_of_nat [of a i] unat_plus_of_nat [of b j] e have "unat a + i = unat b + j" by simp
    then show False using ij assms(1) by linarith
  qed
  then show ?thesis by (auto simp: span_def)
qed

text \<open>The state after a successful registration.\<close>

definition registered :: "addr \<Rightarrow> heap \<Rightarrow> nat \<Rightarrow> addr \<Rightarrow> addr \<Rightarrow> 'a iokernel_scheme \<Rightarrow> 'a iokernel_scheme" where
  "registered p h t name ops s =
     (let s = s\<lparr>heap := h, mem8 := named_mem p name (mem8 s), stdobj_ops := (stdobj_ops s)(p := ops)\<rparr>;
          s = upd_links (list_init (Stdobj_node p)) s
      in upd_links (list_insert_tail (Stdobj_head t) (Stdobj_node p)) (snd (pthread_mutex_init (so_mutex p) s)))"

lemma stdobj_create_eq:
  assumes "heap_idle s" and "heap_malloc SIZEOF_STDOBJ (heap s) = Some (Some p, h)" and "p \<noteq> NULL"
    and "t < STDOBJ_NUM_MAX" and "ops \<noteq> NULL"
  shows "stdobj_create env t name ops s = Some (0, registered p h t name ops s)"
proof -
  have "malloc env SIZEOF_STDOBJ s = Some (p, s\<lparr>heap := h\<rparr>)"
    by (simp add: malloc_idle [OF assms(1)] assms(2) of_heap_def)
  then show ?thesis using assms(3-5)
    by (simp add: stdobj_create_def zalloc_def registered_def memset_def memcpy_def named_mem_def STDOBJ_NAME_MAX_def
        SIZEOF_STDOBJ_def Let_def split: prod.split)
qed

lemma registered_simps:
  "mem8 (registered p h t name ops s) = named_mem p name (mem8 s)"
  "stdobj_ops (registered p h t name ops s) = (stdobj_ops s)(p := ops)"
  "ops_at (registered p h t name ops s) = ops_at s"
  by (simp_all add: registered_def Let_def upd_links_def pthread_mutex_init_def)

lemma registered_rings:
  assumes r: "rings (links s) H q" and h: "Stdobj_head t \<in> H"
    and n: "Stdobj_node p \<notin> H" "Stdobj_node p \<notin> queued H q" "Mutex_head (so_mutex p) \<notin> H" "Mutex_head (so_mutex p) \<notin> queued H q"
  shows "rings (links (registered p h' t name ops s)) H (enqueue (Stdobj_head t) (Stdobj_node p) q)"
proof -
  have "rings (list_init (Mutex_head (so_mutex p)) (list_init (Stdobj_node p) (links s))) H q"
    by (rule rings_init_node(1) [OF rings_init_node(1) [OF r n(1,2)] n(3,4)])
  from kq.insert_law [OF this h n(1,2)] show ?thesis
    by (simp add: registered_def Let_def upd_links_def pthread_mutex_init_def)
qed

lemma registered_keeps:
  assumes "cstr (mem8 s) a xs" and "length xs < n" and "span a n \<inter> span p 36 = {}"
  shows "cstr (mem8 (registered p h t name ops s)) a xs"
proof -
  have "span a (Suc (length xs)) \<subseteq> span a n" by (rule span_mono) (use assms(2) in simp)
  then show ?thesis using assms(3) unfolding registered_simps
    by (intro cstr_keep [OF assms(1)]) (auto intro: named_mem_other)
qed

lemma registered_prefixes:
  assumes "prefixes_at (mem8 s) names" and "\<And>i. i < STDOBJ_NUM_MAX \<Longrightarrow> span (names i) 9 \<inter> span p 36 = {}"
  shows "prefixes_at (mem8 (registered p h t name ops s)) names"
  unfolding prefixes_at_def
proof (intro allI impI)
  fix i assume "i < STDOBJ_NUM_MAX"
  with assms stdobj_prefix_bounds(2) [of i]
  show "cstr (mem8 (registered p h t name ops s)) (names i) (stdobj_prefix i)"
    by (intro registered_keeps [where n = 9]) (auto simp: prefixes_at_def)
qed

lemma registered_named:
  assumes "cstr (mem8 s) name nm" and "length nm \<le> 11" and "span name 11 \<inter> span p 36 = {}"
    and "\<And>a. a \<in> set os \<Longrightarrow> cstr (mem8 s) (so_name a) (nms a)"
    and "\<And>a. a \<in> set os \<Longrightarrow> span (so_name a) (Suc (length (nms a))) \<inter> span p 36 = {}"
  shows "objects_named (mem8 (registered p h t name ops s)) (nms(p := nm)) (os @ [p])"
  unfolding objects_named_def
proof
  fix a assume a: "a \<in> set (os @ [p])"
  show "cstr (mem8 (registered p h t name ops s)) (so_name a) ((nms(p := nm)) a)"
  proof (cases "a = p")
    case True
    then show ?thesis using named_mem_name [OF assms(1-3)] by (simp add: registered_simps)
  next
    case False
    then have "a \<in> set os" using a by simp
    from registered_keeps [OF assms(4) [OF this] lessI assms(5) [OF this]] False show ?thesis by simp
  qed
qed

section \<open>The concrete system\<close>

text \<open>The booted kernel with the strings ``uart'' at 0x3000 and ``/dev/uart'' at 0x3100, and a driver table at 0x4000.\<close>

definition demo_ops :: stdops where
  "demo_ops = \<lparr>ops_type = 0, ops_flag = 0, ops_open_flag = 0, ops_open = 0, ops_read = 0x90, ops_write = 0, ops_release = 0,
     ops_control = 0, ops_lseek = 0, ops_aio_read = 0, ops_aio_write = 0, ops_sync = 0, ops_rx_start = 0, ops_tx_end = 0,
     ops_suspend = 0, ops_resume = 0, ops_help = 0, ops_info = 0, ops_priv = 0\<rparr>"

definition demo_names :: "nat \<Rightarrow> addr" where
  "demo_names i = 0x3200 + 16 * of_nat i"

definition demo_strings :: bytes where
  "demo_strings =
     store 0x3000 [117, 97, 114, 116, 0] (store 0x3100 [47, 100, 101, 118, 47, 117, 97, 114, 116, 0]
       (store 0x3200 [47, 100, 101, 118, 47, 0] (store 0x3210 [47, 115, 111, 99, 107, 101, 116, 47, 0]
         (store 0x3220 [47, 102, 100, 47, 0] (\<lambda>_. 0)))))"

definition io_kernel :: iokernel where
  "io_kernel = snd (stdobj_init (sigkernel.extend (tkernel.extend (kernel.extend boot_kernel
       \<lparr>timers = (\<lambda>_. demo_timer), timespecs = (\<lambda>_. tm_spec demo_timer), timer_sem = 0x800, local_time = 0\<rparr>)
     \<lparr>sigevents = (\<lambda>_. demo_event 0 0), sigevent_table = 0x3800, sigevent_mutex = 0x900\<rparr>)
     \<lparr>mem8 = demo_strings, stdobj_ops = (\<lambda>_. 0), ops_at = (\<lambda>_. demo_ops)\<rparr>))"

abbreviation stdobj_heads :: "lnode set" where
  "stdobj_heads \<equiv> {Stdobj_head 0, Stdobj_head 1, Stdobj_head 2}"

lemma io_kernel_facts:
  "mem8 io_kernel = demo_strings" "ops_at io_kernel = (\<lambda>_. demo_ops)" "heap io_kernel = demo_heap" "heap_idle io_kernel"
  "stdobj_ops io_kernel = (\<lambda>_. 0)" "rings (links io_kernel) stdobj_heads (\<lambda>_. [])"
proof -
  have n: "[0..<3] = [0, 1, 2 :: nat]" by (simp add: upt_rec)
  have b: "current_thread boot_kernel = NULL" "heap boot_kernel = demo_heap"
    by (simp_all add: boot_kernel_def sched_init_def Let_def upd_links_def kstate.extend_def)
  show "mem8 io_kernel = demo_strings" "ops_at io_kernel = (\<lambda>_. demo_ops)" "stdobj_ops io_kernel = (\<lambda>_. 0)"
    "heap io_kernel = demo_heap" "heap_idle io_kernel"
    by (simp_all add: io_kernel_def stdobj_init_def STDOBJ_NUM_MAX_def n upd_links_def sigkernel.extend_def tkernel.extend_def
        kernel.extend_def mutex_idle_def b)
  show "rings (links io_kernel) stdobj_heads (\<lambda>_. [])"
    by (simp add: io_kernel_def stdobj_init_def STDOBJ_NUM_MAX_def n upd_links_def rings_def ring_def link_ops Let_def)
qed

lemma demo_strings_hold:
  "prefixes_at demo_strings demo_names" "cstr demo_strings 0x3000 [117, 97, 114, 116]"
  "cstr demo_strings 0x3100 (stdobj_prefix 0 @ [117, 97, 114, 116])"
proof -
  show "prefixes_at demo_strings demo_names"
    by (simp add: prefixes_at_def STDOBJ_NUM_MAX_def All_less_Suc numeral_3_eq_3 stdobj_prefix_def demo_names_def demo_strings_def)
  show "cstr demo_strings 0x3000 [117, 97, 114, 116]" "cstr demo_strings 0x3100 (stdobj_prefix 0 @ [117, 97, 114, 116])"
    by (simp_all add: demo_strings_def stdobj_prefix_def)
qed

lemma demo_path_class: "path_class (stdobj_prefix 0 @ [117, 97, 114, 116]) = Some 0"
  by (simp add: path_class_def STDOBJ_NUM_MAX_def upt_rec stdobj_prefix_def)

section \<open>Properties\<close>

text \<open>
  \<^verbatim>\<open>access\<close> finds objects by name: the class of the path is the first of the three prefixes that occurs anywhere in it; in the list of that class
  the first object whose name is the path without as many characters as the prefix has is opened, its flag is set and its descriptor is returned, \<open>- 1\<close> when the driver's open fails; without
  such an object the result is 0 and nothing changes.
\<close>
theorem access_finds_object:
  assumes "prefixes_at (mem8 s) names" and "cstr (mem8 s) name xs" and "length xs < 2 ^ 31" and "unat name + length xs < 2 ^ 32"
    and "name \<noteq> NULL" and "path_class xs = Some t" and "length (stdobj_prefix t) \<le> length xs"
    and "ring (links s) (Stdobj_head t) (map Stdobj_node os)" and "\<And>a. a \<in> set os \<Longrightarrow> cstr (mem8 s) (so_name a) (nm a)"
  shows "access drv names name flag s =
     (case find (\<lambda>a. nm a = drop (length (stdobj_prefix t)) xs) os of
        None \<Rightarrow> Some (0, s)
      | Some a \<Rightarrow>
          (let ops = stdobj_ops s a; s1 = upd_ops ops (\<lambda>x. x\<lparr>ops_flag := flag\<rparr>) s; f = ops_open (ops_at s ops)
           in if f = NULL then Some (sint a, s1)
              else map_option (\<lambda>(r, s'). (if r < 0 then - 1 else sint a, s')) (drv f ops Open_call s1)))"
  by (rule access_eq [OF assms(1-8)]) (simp add: objects_named_def assms(9))

theorem access_finds_object_witness:
  "access (\<lambda>_ _ _ _. None) demo_names 0x3100 1 io_kernel = Some (0, io_kernel)"
  using access_finds_object [of io_kernel demo_names "0x3100" "stdobj_prefix 0 @ [117, 97, 114, 116]" 0 "[]" "\<lambda>_. []"
      "\<lambda>_ _ _ _. None" 1] demo_strings_hold demo_path_class ringsD(1) [OF io_kernel_facts(6), of "Stdobj_head 0"]
  by (simp add: io_kernel_facts NULL_def stdobj_prefix_def)

text \<open>
  C22. Registration round trip: \<^verbatim>\<open>stdobj_create\<close> of a name of at most 11 characters, followed by \<^verbatim>\<open>access\<close> of its path, yields the new object,
  provided the name was not registered before, no other prefix comes first in the path and the allocated block does not overlap the strings in use; reading
  through the descriptor then calls the read function of the registered driver.
\<close>
theorem stdobj_create_access:
  assumes alloc: "heap_idle s" "heap_malloc SIZEOF_STDOBJ (heap s) = Some (Some p, h)" "0 <s p"
    and arg: "t < STDOBJ_NUM_MAX" "ops \<noteq> NULL" "cstr (mem8 s) name nm" "length nm \<le> 11"
    and path: "cstr (mem8 s) path (stdobj_prefix t @ nm)" "path_class (stdobj_prefix t @ nm) = Some t" "path \<noteq> NULL" "unat path + 32 < 2 ^ 32"
    and names: "prefixes_at (mem8 s) names"
    and lists: "rings (links s) H q" "Stdobj_head t \<in> H" "q (Stdobj_head t) = map Stdobj_node os"
      "Stdobj_node p \<notin> H" "Stdobj_node p \<notin> queued H q" "Mutex_head (so_mutex p) \<notin> H" "Mutex_head (so_mutex p) \<notin> queued H q"
    and others: "\<And>a. a \<in> set os \<Longrightarrow> cstr (mem8 s) (so_name a) (nms a) \<and> nms a \<noteq> nm"
    and apart: "span name 11 \<inter> span p 36 = {}" "span path 32 \<inter> span p 36 = {}" "\<And>i. i < STDOBJ_NUM_MAX \<Longrightarrow> span (names i) 9 \<inter> span p 36 = {}"
      "\<And>a. a \<in> set os \<Longrightarrow> span (so_name a) (Suc (length (nms a))) \<inter> span p 36 = {}"
    and drv: "ops_open (ops_at s ops) = NULL" "ops_read (ops_at s ops) = f" "f \<noteq> NULL"
  shows "\<exists>s1 s2. stdobj_create env t name ops s = Some (0, s1) \<and> access drv names path flag s1 = Some (sint p, s2) \<and>
     read drv (sint p) buf n s2 = drv f ops (Read_call buf n) s2 \<and> ops_flag (ops_at s2 ops) = flag"
proof -
  let ?s1 = "registered p h t name ops s" and ?xs = "stdobj_prefix t @ nm" and ?nms = "nms(p := nm)"
  let ?s2 = "upd_ops ops (\<lambda>x. x\<lparr>ops_flag := flag\<rparr>) ?s1"
  have nz: "p \<noteq> NULL" using alloc(3) by (auto simp: NULL_def)
  have len: "length ?xs < 32" using stdobj_prefix_bounds(2) [of t] arg(4) by simp
  note pre = registered_prefixes [OF names apart(3), of h t name ops]
  have cp: "cstr (mem8 ?s1) path ?xs" using apart(2) len by (intro registered_keeps [OF path(1), where n = 32]) auto
  note r = registered_rings [OF lists(1,2,4-7), of h name ops]
  have q: "enqueue (Stdobj_head t) (Stdobj_node p) q (Stdobj_head t) = map Stdobj_node (os @ [p])"
    using lists(3) by (simp add: enqueue_def)
  have ring: "ring (links ?s1) (Stdobj_head t) (map Stdobj_node (os @ [p]))" using ringsD(1) [OF r lists(2)] q by simp
  have np: "p \<notin> set os"
  proof
    assume "p \<in> set os"
    then have "Stdobj_node p \<in> set (q (Stdobj_head t))" using lists(3) by simp
    then show False using lists(2,5) unfolding queued_def by blast
  qed
  have on: "objects_named (mem8 ?s1) ?nms (os @ [p])"
    by (rule registered_named [OF arg(3,4) apart(1)]) (use others apart(4) in auto)
  have "find (\<lambda>a. ?nms a = nm) os = None"
    unfolding find_None_iff using others np by auto
  then have find: "find (\<lambda>a. ?nms a = drop (length (stdobj_prefix t)) ?xs) (os @ [p]) = Some p"
    by (simp add: find_append_None)
  have acc: "access drv names path flag ?s1 = Some (sint p, ?s2)"
    using access_eq [OF pre cp _ _ path(3,2) _ ring on, of drv flag] len path(4) find drv(1)
    by (simp add: registered_simps)
  have "0 < sint p" using alloc(3) by (simp add: word_sless_alt)
  then have "read drv (sint p) buf n ?s2 = drv f ops (Read_call buf n) ?s2"
    using drv(2,3) by (simp add: read_def upd_ops_def registered_simps)
  moreover have "ops_flag (ops_at ?s2 ops) = flag" by (simp add: upd_ops_def)
  ultimately show ?thesis using stdobj_create_eq [OF alloc(1,2) nz arg(1,2)] acc by blast
qed

theorem stdobj_create_access_witness:
  "\<exists>s1 s2. stdobj_create (\<lambda>_. None) 0 0x3000 0x4000 io_kernel = Some (0, s1) \<and>
     access (\<lambda>_ _ _ _. None) demo_names 0x3100 1 s1 = Some (0x100c, s2) \<and> ops_flag (ops_at s2 0x4000) = 1"
proof -
  obtain h where h: "heap_malloc SIZEOF_STDOBJ (heap io_kernel) = Some (Some 0x100c, h)"
    using demo_malloc [of 36] by (auto simp: SIZEOF_STDOBJ_def io_kernel_facts)
  have si: "0 <s (0x100c :: addr)" "sint (0x100c :: addr) = 0x100c" by (simp_all add: word_sless_alt)
  have a: "span 0x3000 11 \<inter> span 0x100c 36 = {}" "span 0x3100 32 \<inter> span 0x100c 36 = {}"
    by (rule span_apart; simp)+
  have n: "span (demo_names i) 9 \<inter> span 0x100c 36 = {}" if "i < STDOBJ_NUM_MAX" for i
  proof (rule span_apart)
    have "i = 0 \<or> i = 1 \<or> i = 2" using that by (auto simp: STDOBJ_NUM_MAX_def)
    then have "unat (demo_names i) \<in> {0x3200, 0x3210, 0x3220}" by (auto simp: demo_names_def)
    then show "unat (demo_names i) + 9 \<le> unat (0x100c :: addr) \<or> unat (0x100c :: addr) + 36 \<le> unat (demo_names i)"
      "unat (demo_names i) + 9 < 2 ^ 32" "unat (0x100c :: addr) + 36 < 2 ^ 32" by auto
  qed
  show ?thesis
    using stdobj_create_access [of io_kernel "0x100c" h 0 "0x4000" "0x3000" "[117, 97, 114, 116]" "0x3100" demo_names
        stdobj_heads "\<lambda>_. []" "[]" "\<lambda>_. []" "0x90" "\<lambda>_. None" "\<lambda>_ _ _ _. None" 1 0 0, OF io_kernel_facts(4) h si(1)]
      demo_strings_hold demo_path_class io_kernel_facts(6) a n
    by (auto simp: io_kernel_facts(1-3,5) STDOBJ_NUM_MAX_def NULL_def queued_def demo_ops_def si(2))
qed

end
