(* ===== verification/Mqueue.thy ===== *)
theory Mqueue
  imports Stdobj
begin

text \<open>
  Message queues, \<^verbatim>\<open>hwutil/kernel/source/mqueue.c\<close>: a buffer of \<open>mq_maxmsg\<close> cells, each a header (\<^verbatim>\<open>mq_msg_t\<close>, 8 bytes) followed by
  room for \<open>mq_msgsize\<close> bytes, with a send and a receive pointer that step through the cells and wrap around. The
  message bytes are in the byte memory, the headers and the queue objects in typed stores.

  \<^verbatim>\<open>mq_receive\<close> returns its local \<^verbatim>\<open>ret\<close>, which it only assigns when it takes a message: its result is an option, \<open>None\<close> for
  the indeterminate value.
\<close>

section \<open>Queues\<close>

definition MQ_MSG_SIZE_MAX :: int where "MQ_MSG_SIZE_MAX = 32"
definition MQ_MSG_NUM_MAX :: int where "MQ_MSG_NUM_MAX = 16"

record mq_attr =
  mq_flags :: os_u32
  mq_maxmsg :: int
  mq_msgsize :: int
  mq_curmsgs :: int

record mq =
  mq_pbuf :: addr
  mq_pbuf_size :: os_u32
  send_ptr :: addr
  recv_ptr :: addr
  mq_attr_of :: mq_attr

record mq_msg =
  msg_size :: os_u32
  msg_used :: int

record mqkernel = iokernel +
  mqs :: "addr \<Rightarrow> mq"
  mq_msgs :: "addr \<Rightarrow> mq_msg"

text \<open>Sizes and member addresses of \<^verbatim>\<open>mq_t\<close> and \<^verbatim>\<open>mq_msg_t\<close>.\<close>

definition SIZEOF_MQ :: os_u32 where "SIZEOF_MQ = 72"
definition SIZEOF_MQ_MSG :: os_u32 where "SIZEOF_MQ_MSG = 8"

definition mq_sem :: "addr \<Rightarrow> addr" where "mq_sem a = a + 32"
definition mq_r_mutex :: "addr \<Rightarrow> addr" where "mq_r_mutex a = a + 48"
definition mq_w_mutex :: "addr \<Rightarrow> addr" where "mq_w_mutex a = a + 60"

definition upd_mq :: "addr \<Rightarrow> (mq \<Rightarrow> mq) \<Rightarrow> 'a mqkernel_scheme \<Rightarrow> 'a mqkernel_scheme" where
  "upd_mq a f s = s\<lparr>mqs := (mqs s)(a := f (mqs s a))\<rparr>"

definition upd_msg :: "addr \<Rightarrow> (mq_msg \<Rightarrow> mq_msg) \<Rightarrow> 'a mqkernel_scheme \<Rightarrow> 'a mqkernel_scheme" where
  "upd_msg a f s = s\<lparr>mq_msgs := (mq_msgs s)(a := f (mq_msgs s a))\<rparr>"

text \<open>\<^verbatim>\<open>zalloc\<close> of the message buffer: the headers in it read as zeros.\<close>

definition zalloc_msgs :: "('a mqkernel_scheme \<Rightarrow> 'a mqkernel_scheme option) \<Rightarrow> os_u32 \<Rightarrow> 'a mqkernel_scheme \<Rightarrow>
    (addr \<times> 'a mqkernel_scheme) option" where
  "zalloc_msgs env sz s =
     do {
       (p, s) \<leftarrow> zalloc env sz s;
       Some (p, if p \<noteq> NULL
                then s\<lparr>mq_msgs := (\<lambda>a. if a - p < sz then \<lparr>msg_size = 0, msg_used = 0\<rparr> else mq_msgs s a)\<rparr>
                else s)
     }"

definition blocking :: "mq_attr \<Rightarrow> bool" where
  "blocking at \<longleftrightarrow> mq_flags at AND O_NONBLOCK = 0"

definition mq_buf_size :: "mq_attr \<Rightarrow> os_u32" where
  "mq_buf_size at = (SIZEOF_MQ_MSG + word_of_int (mq_msgsize at)) * word_of_int (mq_maxmsg at)"

definition mq_open :: "('a mqkernel_scheme \<Rightarrow> 'a mqkernel_scheme option) \<Rightarrow> addr \<Rightarrow> os_u32 \<Rightarrow> os_u32 \<Rightarrow> mq_attr \<Rightarrow>
    'a mqkernel_scheme \<Rightarrow> (int \<times> 'a mqkernel_scheme) option" where
  "mq_open env name flag mode at s =
     (if name = NULL \<or> flag AND O_CREAT = 0 then Some (EINVAL, s)
      else if mode \<noteq> flag then Some (EINVAL, s)
      else do {
        n \<leftarrow> int32 (mq_maxmsg at * mq_msgsize at);
        if n > MQ_MSG_SIZE_MAX * MQ_MSG_NUM_MAX then Some (EINVAL, s)
        else do {
          (buffer, s) \<leftarrow> zalloc_msgs env (mq_buf_size at) s;
          if buffer = NULL then Some (EINVAL, s)
          else do {
            (mq, s) \<leftarrow> zalloc env SIZEOF_MQ s;
            if mq = NULL then do { s \<leftarrow> free env buffer s; Some (EINVAL, s) }
            else do {
              let s = upd_mq mq (\<lambda>_. \<lparr>mq_pbuf = buffer, mq_pbuf_size = mq_buf_size at, send_ptr = buffer, recv_ptr = buffer,
                        mq_attr_of = at\<lparr>mq_flags := flag, mq_curmsgs := 0\<rparr>\<rparr>) s;
              let (err, s) = (if blocking (mq_attr_of (mqs s mq)) then sem_init (mq_sem mq) (word_of_int (mq_maxmsg at)) s
                              else (0, s));
              if err \<noteq> 0 then do { s \<leftarrow> free env mq s; s \<leftarrow> free env buffer s; Some (EINVAL, s) }
              else let (ret, s) = pthread_mutex_init (mq_r_mutex mq) s;
                       (ret, s) = pthread_mutex_init (mq_w_mutex mq) s
                   in Some (sint mq, s)
            }
          }
        }
      })"

section \<open>Sending and receiving\<close>

definition mq_next :: "mq \<Rightarrow> addr \<Rightarrow> addr" where
  "mq_next q ptr =
     (let ptr = ptr + word_of_int (mq_msgsize (mq_attr_of q)) + SIZEOF_MQ_MSG
      in if ptr \<ge> mq_pbuf q + mq_pbuf_size q then mq_pbuf q else ptr)"

definition upd_curmsgs :: "(int \<Rightarrow> int) \<Rightarrow> mq \<Rightarrow> mq" where
  "upd_curmsgs f q = q\<lparr>mq_attr_of := (mq_attr_of q)\<lparr>mq_curmsgs := f (mq_curmsgs (mq_attr_of q))\<rparr>\<rparr>"

text \<open>The part of \<^verbatim>\<open>mq_send\<close> under the write mutex, up to the post.\<close>

definition mq_put :: "addr \<Rightarrow> addr \<Rightarrow> os_u32 \<Rightarrow> 'a mqkernel_scheme \<Rightarrow> int \<times> 'a mqkernel_scheme" where
  "mq_put a msg_ptr msg_len s =
     (let q = mqs s a
      in if mq_curmsgs (mq_attr_of q) \<ge> mq_maxmsg (mq_attr_of q) then (- EINVAL, s)
         else if msg_len > word_of_int (mq_msgsize (mq_attr_of q)) then (- EINVAL, s)
         else let mq_msg = send_ptr q
              in if msg_used (mq_msgs s mq_msg) = 0
                 then let s = upd_msg mq_msg (\<lambda>x. x\<lparr>msg_size := msg_len\<rparr>) s;
                          ptr = send_ptr q + SIZEOF_MQ_MSG;
                          s = s\<lparr>mem8 := snd (memcpy ptr msg_ptr msg_len (mem8 s))\<rparr>;
                          s = upd_mq a (\<lambda>q. q\<lparr>send_ptr := mq_next q (send_ptr q)\<rparr>) s;
                          s = upd_mq a (upd_curmsgs (\<lambda>n. n + 1)) s;
                          s = upd_msg mq_msg (\<lambda>x. x\<lparr>msg_used := 1\<rparr>) s
                      in (0, s)
                 else (- EINVAL, s))"

definition mq_send :: "('a mqkernel_scheme \<Rightarrow> 'a mqkernel_scheme option) \<Rightarrow> int \<Rightarrow> addr \<Rightarrow> os_u32 \<Rightarrow> 'a mqkernel_scheme \<Rightarrow>
    (int \<times> 'a mqkernel_scheme) option" where
  "mq_send env mqdes msg_ptr msg_len s =
     do {
       let a = word_of_int mqdes;
       (r, s) \<leftarrow> pthread_mutex_lock env (mq_w_mutex a) s;
       let (ret, s) = mq_put a msg_ptr msg_len s;
       s \<leftarrow> (if ret = 0 \<and> blocking (mq_attr_of (mqs s a)) then do { (r, s) \<leftarrow> sem_post (mq_sem a) s; Some s } else Some s);
       (r, s) \<leftarrow> pthread_mutex_unlock (mq_w_mutex a) s;
       Some (ret, s)
     }"

text \<open>The part of \<^verbatim>\<open>mq_receive\<close> after the wait.\<close>

definition mq_take :: "addr \<Rightarrow> addr \<Rightarrow> 'a mqkernel_scheme \<Rightarrow> int option \<times> 'a mqkernel_scheme" where
  "mq_take a msg_ptr s =
     (let q = mqs s a
      in if mq_curmsgs (mq_attr_of q) = 0 then (None, s)
         else let mq_msg = recv_ptr q
              in if msg_used (mq_msgs s mq_msg) \<noteq> 0
                 then let ptr = recv_ptr q + SIZEOF_MQ_MSG;
                          s = s\<lparr>mem8 := snd (memcpy msg_ptr ptr (msg_size (mq_msgs s mq_msg)) (mem8 s))\<rparr>;
                          s = upd_mq a (\<lambda>q. q\<lparr>recv_ptr := mq_next q (recv_ptr q)\<rparr>) s;
                          s = upd_mq a (upd_curmsgs (\<lambda>n. n - 1)) s;
                          ret = sint (msg_size (mq_msgs s mq_msg));
                          s = upd_msg mq_msg (\<lambda>x. x\<lparr>msg_used := 0\<rparr>) s
                      in (Some ret, s)
                 else (None, s))"

definition mq_receive :: "('a mqkernel_scheme \<Rightarrow> 'a mqkernel_scheme option) \<Rightarrow> int \<Rightarrow> addr \<Rightarrow> 'a mqkernel_scheme \<Rightarrow>
    (int option \<times> 'a mqkernel_scheme) option" where
  "mq_receive env mqdes msg_ptr s =
     do {
       let a = word_of_int mqdes;
       (r, s) \<leftarrow> pthread_mutex_lock env (mq_r_mutex a) s;
       s \<leftarrow> (if blocking (mq_attr_of (mqs s a)) then do { (r, s) \<leftarrow> sem_wait env (mq_sem a) s; Some s } else Some s);
       let (ret, s) = mq_take a msg_ptr s;
       (r, s) \<leftarrow> pthread_mutex_unlock (mq_r_mutex a) s;
       Some (ret, s)
     }"

section \<open>A queue of messages\<close>

text \<open>The bytes at an address, and the cells of a queue.\<close>

definition bytes_at :: "bytes \<Rightarrow> addr \<Rightarrow> nat \<Rightarrow> os_u8 list" where
  "bytes_at m a n = map (\<lambda>i. m (a + of_nat i)) [0..<n]"

definition mq_cells :: "mq \<Rightarrow> nat" where
  "mq_cells q = nat (mq_maxmsg (mq_attr_of q))"

definition mq_room :: "mq \<Rightarrow> nat" where
  "mq_room q = nat (mq_msgsize (mq_attr_of q))"

definition mq_len :: "mq \<Rightarrow> nat" where
  "mq_len q = nat (mq_curmsgs (mq_attr_of q))"

definition cell :: "mq \<Rightarrow> nat \<Rightarrow> addr" where
  "cell q i = mq_pbuf q + of_nat ((mq_room q + 8) * i)"

definition mq_shape :: "mq \<Rightarrow> bool" where
  "mq_shape q \<longleftrightarrow>
     0 < mq_maxmsg (mq_attr_of q) \<and> 0 \<le> mq_msgsize (mq_attr_of q) \<and> mq_msgsize (mq_attr_of q) < 2 ^ 31 \<and>
     0 \<le> mq_curmsgs (mq_attr_of q) \<and> mq_curmsgs (mq_attr_of q) \<le> mq_maxmsg (mq_attr_of q) \<and>
     unat (mq_pbuf q) + (mq_room q + 8) * mq_cells q < 2 ^ 32 \<and> unat (mq_pbuf_size q) = (mq_room q + 8) * mq_cells q"

text \<open>The queue at \<open>a\<close> is well formed with its oldest message in cell \<open>k\<close>.\<close>

definition mq_ok :: "addr \<Rightarrow> nat \<Rightarrow> 'a mqkernel_scheme \<Rightarrow> bool" where
  "mq_ok a k s \<longleftrightarrow>
     (let q = mqs s a; slot = (\<lambda>i. cell q ((k + i) mod mq_cells q))
      in mq_shape q \<and> k < mq_cells q \<and> recv_ptr q = slot 0 \<and> send_ptr q = slot (mq_len q) \<and>
         (\<forall>i<mq_cells q. msg_used (mq_msgs s (slot i)) \<noteq> 0 \<longleftrightarrow> i < mq_len q) \<and>
         (\<forall>i<mq_len q. unat (msg_size (mq_msgs s (slot i))) \<le> mq_room q))"

definition message :: "'a mqkernel_scheme \<Rightarrow> addr \<Rightarrow> os_u8 list" where
  "message s c = bytes_at (mem8 s) (c + 8) (unat (msg_size (mq_msgs s c)))"

definition mq_abs :: "addr \<Rightarrow> nat \<Rightarrow> 'a mqkernel_scheme \<Rightarrow> os_u8 list list" where
  "mq_abs a k s = map (\<lambda>i. message s (cell (mqs s a) ((k + i) mod mq_cells (mqs s a)))) [0..<mq_len (mqs s a)]"

lemma mod_add_if: "k < n \<Longrightarrow> i \<le> n \<Longrightarrow> (k + i) mod n = (if k + i < n then k + i else k + i - n :: nat)"
  by (auto simp: mod_if)

lemma slot_inj: "k < n \<Longrightarrow> i < n \<Longrightarrow> j < n \<Longrightarrow> (k + i) mod n = (k + j) mod n \<Longrightarrow> i = (j :: nat)"
  by (auto simp: mod_add_if split: if_splits)

lemma mq_shapeD:
  assumes "mq_shape q"
  shows "0 < mq_cells q" "int (mq_cells q) = mq_maxmsg (mq_attr_of q)" "int (mq_room q) = mq_msgsize (mq_attr_of q)"
    "int (mq_len q) = mq_curmsgs (mq_attr_of q)" "mq_len q \<le> mq_cells q" "mq_room q < 2 ^ 31"
    "unat (mq_pbuf q) + (mq_room q + 8) * mq_cells q < 2 ^ 32" "unat (mq_pbuf_size q) = (mq_room q + 8) * mq_cells q"
  using assms by (auto simp: mq_shape_def mq_cells_def mq_room_def mq_len_def)

lemma unat_cell:
  assumes "mq_shape q" and "i < mq_cells q"
  shows "unat (cell q i) = unat (mq_pbuf q) + (mq_room q + 8) * i"
    and "unat (cell q i) + (mq_room q + 8) \<le> unat (mq_pbuf q) + (mq_room q + 8) * mq_cells q"
proof -
  have "(mq_room q + 8) * Suc i \<le> (mq_room q + 8) * mq_cells q" using assms(2) by (intro mult_le_mono2) simp
  then have le: "(mq_room q + 8) * i + (mq_room q + 8) \<le> (mq_room q + 8) * mq_cells q" by simp
  then have "unat (mq_pbuf q) + (mq_room q + 8) * i < 2 ^ 32" using mq_shapeD(7) [OF assms(1)] by linarith
  then show u: "unat (cell q i) = unat (mq_pbuf q) + (mq_room q + 8) * i"
    unfolding cell_def by (rule unat_plus_of_nat)
  show "unat (cell q i) + (mq_room q + 8) \<le> unat (mq_pbuf q) + (mq_room q + 8) * mq_cells q" using u le by linarith
qed

lemma cell_inj: "mq_shape q \<Longrightarrow> i < mq_cells q \<Longrightarrow> j < mq_cells q \<Longrightarrow> cell q i = cell q j \<longleftrightarrow> i = j"
  by (metis unat_cell(1) add_left_cancel mult_cancel1 add_is_0 zero_neq_numeral)

lemma cells_apart:
  assumes "mq_shape q" and "i < mq_cells q" and "j < mq_cells q" and "i \<noteq> j"
  shows "span (cell q i) (mq_room q + 8) \<inter> span (cell q j) (mq_room q + 8) = {}"
proof (rule span_apart)
  note u = unat_cell [OF assms(1,2)] unat_cell [OF assms(1,3)] mq_shapeD(7) [OF assms(1)]
  have "(mq_room q + 8) * Suc i \<le> (mq_room q + 8) * j \<or> (mq_room q + 8) * Suc j \<le> (mq_room q + 8) * i"
    using mult_le_mono2 [of "Suc i" j "mq_room q + 8"] mult_le_mono2 [of "Suc j" i "mq_room q + 8"] assms(4)
    by (meson Suc_leI linorder_neqE_nat)
  then show "unat (cell q i) + (mq_room q + 8) \<le> unat (cell q j) \<or> unat (cell q j) + (mq_room q + 8) \<le> unat (cell q i)"
    using u(1,3) by auto
  show "unat (cell q i) + (mq_room q + 8) < 2 ^ 32" "unat (cell q j) + (mq_room q + 8) < 2 ^ 32" using u(2,4,5) by linarith+
qed

lemma mq_next_cell:
  assumes "mq_shape q" and "i < mq_cells q"
  shows "mq_next q (cell q i) = cell q (Suc i mod mq_cells q)"
proof -
  note d = mq_shapeD [OF assms(1)] and u = unat_cell [OF assms]
  have step: "cell q i + word_of_int (mq_msgsize (mq_attr_of q)) + SIZEOF_MQ_MSG = mq_pbuf q + of_nat ((mq_room q + 8) * Suc i)"
    by (simp add: cell_def SIZEOF_MQ_MSG_def algebra_simps flip: d(3))
  have "(mq_room q + 8) * Suc i \<le> (mq_room q + 8) * mq_cells q" using assms(2) by (intro mult_le_mono2) simp
  then have lt: "unat (mq_pbuf q) + (mq_room q + 8) * Suc i < 2 ^ 32" using d(7) by linarith
  have us: "unat (mq_pbuf q + of_nat ((mq_room q + 8) * Suc i)) = unat (mq_pbuf q) + (mq_room q + 8) * Suc i"
    using lt by (rule unat_plus_of_nat)
  have ue: "unat (mq_pbuf q + mq_pbuf_size q) = unat (mq_pbuf q) + (mq_room q + 8) * mq_cells q"
    using d(7,8) by (simp add: unat_word_ariths)
  have "mq_pbuf q + mq_pbuf_size q \<le> mq_pbuf q + of_nat ((mq_room q + 8) * Suc i) \<longleftrightarrow> mq_cells q \<le> Suc i"
    unfolding word_le_nat_alt us ue add_le_cancel_left mult_le_cancel1 by simp
  then show ?thesis using assms(2)
    unfolding mq_next_def step Let_def by (auto simp: cell_def mod_if simp del: of_nat_mult of_nat_add mult_Suc_right)
qed

text \<open>The state after a message has been stored in the cell \<open>c\<close>, or fetched from it.\<close>

definition put_msg :: "addr \<Rightarrow> addr \<Rightarrow> addr \<Rightarrow> os_u32 \<Rightarrow> 'a mqkernel_scheme \<Rightarrow> 'a mqkernel_scheme" where
  "put_msg a c msg_ptr msg_len s =
     s\<lparr>mem8 := memcpy_loop (unat msg_len) (c + 8) msg_ptr (mem8 s),
       mqs := (mqs s)(a := upd_curmsgs (\<lambda>n. n + 1) ((mqs s a)\<lparr>send_ptr := mq_next (mqs s a) c\<rparr>)),
       mq_msgs := (mq_msgs s)(c := \<lparr>msg_size = msg_len, msg_used = 1\<rparr>)\<rparr>"

definition got_msg :: "addr \<Rightarrow> addr \<Rightarrow> addr \<Rightarrow> 'a mqkernel_scheme \<Rightarrow> 'a mqkernel_scheme" where
  "got_msg a c msg_ptr s =
     s\<lparr>mem8 := memcpy_loop (unat (msg_size (mq_msgs s c))) msg_ptr (c + 8) (mem8 s),
       mqs := (mqs s)(a := upd_curmsgs (\<lambda>n. n - 1) ((mqs s a)\<lparr>recv_ptr := mq_next (mqs s a) c\<rparr>)),
       mq_msgs := (mq_msgs s)(c := (mq_msgs s c)\<lparr>msg_used := 0\<rparr>)\<rparr>"

lemma upd_curmsgs_simps [simp]:
  "mq_pbuf (upd_curmsgs f q) = mq_pbuf q" "mq_pbuf_size (upd_curmsgs f q) = mq_pbuf_size q"
  "send_ptr (upd_curmsgs f q) = send_ptr q" "recv_ptr (upd_curmsgs f q) = recv_ptr q"
  "mq_cells (upd_curmsgs f q) = mq_cells q" "mq_room (upd_curmsgs f q) = mq_room q"
  "cell (upd_curmsgs f q) = cell q"
  "mq_curmsgs (mq_attr_of (upd_curmsgs f q)) = f (mq_curmsgs (mq_attr_of q))"
  "mq_maxmsg (mq_attr_of (upd_curmsgs f q)) = mq_maxmsg (mq_attr_of q)"
  "mq_msgsize (mq_attr_of (upd_curmsgs f q)) = mq_msgsize (mq_attr_of q)"
  by (simp_all add: upd_curmsgs_def mq_cells_def mq_room_def cell_def fun_eq_iff)

lemma mq_ptr_simps [simp]:
  "mq_cells (q\<lparr>send_ptr := p\<rparr>) = mq_cells q" "mq_room (q\<lparr>send_ptr := p\<rparr>) = mq_room q" "cell (q\<lparr>send_ptr := p\<rparr>) = cell q"
  "mq_cells (q\<lparr>recv_ptr := p\<rparr>) = mq_cells q" "mq_room (q\<lparr>recv_ptr := p\<rparr>) = mq_room q" "cell (q\<lparr>recv_ptr := p\<rparr>) = cell q"
  by (simp_all add: mq_cells_def mq_room_def cell_def fun_eq_iff)

lemma mq_okD:
  assumes "mq_ok a k s"
  shows "mq_shape (mqs s a)" "k < mq_cells (mqs s a)" "recv_ptr (mqs s a) = cell (mqs s a) k"
    "send_ptr (mqs s a) = cell (mqs s a) ((k + mq_len (mqs s a)) mod mq_cells (mqs s a))"
    "\<And>i. i < mq_cells (mqs s a) \<Longrightarrow>
       msg_used (mq_msgs s (cell (mqs s a) ((k + i) mod mq_cells (mqs s a)))) \<noteq> 0 \<longleftrightarrow> i < mq_len (mqs s a)"
    "\<And>i. i < mq_len (mqs s a) \<Longrightarrow>
       unat (msg_size (mq_msgs s (cell (mqs s a) ((k + i) mod mq_cells (mqs s a))))) \<le> mq_room (mqs s a)"
  using assms by (simp_all add: mq_ok_def Let_def)

lemma mq_put_eq:
  assumes ok: "mq_ok a k s"
  shows "mq_put a msg_ptr msg_len s =
     (if mq_len (mqs s a) < mq_cells (mqs s a) \<and> unat msg_len \<le> mq_room (mqs s a)
      then (0, put_msg a (send_ptr (mqs s a)) msg_ptr msg_len s) else (- EINVAL, s))"
proof -
  let ?q = "mqs s a"
  note d = mq_shapeD [OF mq_okD(1) [OF ok]]
  have full: "mq_maxmsg (mq_attr_of ?q) \<le> mq_curmsgs (mq_attr_of ?q) \<longleftrightarrow> \<not> mq_len ?q < mq_cells ?q"
    by (simp flip: d(2,4)) linarith
  have "unat (word_of_int (mq_msgsize (mq_attr_of ?q)) :: os_u32) = mq_room ?q"
    using d(6) by (simp flip: d(3) add: unat_of_nat)
  then have long: "msg_len > word_of_int (mq_msgsize (mq_attr_of ?q)) \<longleftrightarrow> \<not> unat msg_len \<le> mq_room ?q"
    by (simp add: word_less_nat_alt not_le)
  have used: "msg_used (mq_msgs s (send_ptr ?q)) = 0" if "mq_len ?q < mq_cells ?q"
    using mq_okD(5) [OF ok that] by (simp add: mq_okD(4) [OF ok])
  have msg: "x\<lparr>msg_size := n, msg_used := 1\<rparr> = \<lparr>msg_size = n, msg_used = 1\<rparr>" for x n by (cases x) simp
  show ?thesis
    using used by (simp add: mq_put_def Let_def msg full long upd_msg_def upd_mq_def memcpy_def put_msg_def SIZEOF_MQ_MSG_def)
qed

lemma mq_take_eq:
  assumes ok: "mq_ok a k s"
  shows "mq_take a msg_ptr s =
     (if mq_len (mqs s a) = 0 then (None, s)
      else (Some (sint (msg_size (mq_msgs s (cell (mqs s a) k)))), got_msg a (cell (mqs s a) k) msg_ptr s))"
proof -
  let ?q = "mqs s a"
  note d = mq_shapeD [OF mq_okD(1) [OF ok]]
  have empty: "mq_curmsgs (mq_attr_of ?q) = 0 \<longleftrightarrow> mq_len ?q = 0" by (simp flip: d(4))
  have "msg_used (mq_msgs s (cell ?q k)) \<noteq> 0" if "0 < mq_len ?q"
    using mq_okD(5) [OF ok d(1)] that mq_okD(2) [OF ok] by simp
  then show ?thesis
    by (simp add: mq_take_def Let_def empty upd_msg_def upd_mq_def memcpy_def got_msg_def SIZEOF_MQ_MSG_def mq_okD(3) [OF ok])
qed

lemma bytes_at_cong: "(\<And>x. x \<in> span a n \<Longrightarrow> m x = m' x) \<Longrightarrow> bytes_at m a n = bytes_at m' a n"
  by (auto simp: bytes_at_def span_def)

lemma bytes_at_copied:
  "span d n \<inter> span a n = {} \<Longrightarrow> n < 2 ^ 32 \<Longrightarrow> bytes_at (memcpy_loop n d a m) d n = bytes_at m a n"
  by (simp add: bytes_at_def memcpy_loop_block)

lemma cell_data: "n \<le> mq_room q \<Longrightarrow> span (cell q i + 8) n \<subseteq> span (cell q i) (mq_room q + 8)"
  using span_add [of "cell q i" 8 "mq_room q"] span_mono [of n "mq_room q" "cell q i + 8"] by (auto simp: add.commute)

text \<open>The whole buffer.\<close>

abbreviation mq_span :: "mq \<Rightarrow> addr set" where
  "mq_span q \<equiv> span (mq_pbuf q) ((mq_room q + 8) * mq_cells q)"

lemma cell_in_buffer:
  assumes "i < mq_cells q"
  shows "span (cell q i) (mq_room q + 8) \<subseteq> mq_span q"
proof -
  let ?c = "mq_room q + 8"
  obtain r where "mq_cells q = i + Suc r" using assms less_iff_Suc_add by auto
  then have "?c * mq_cells q = ?c * i + (?c + ?c * r)" by (simp add: algebra_simps)
  then show ?thesis by (auto simp: span_add cell_def)
qed

lemma message_elsewhere:
  assumes "mq_shape (mqs s a)" and "i < mq_cells (mqs s a)" and "unat (msg_size (mq_msgs s (cell (mqs s a) i))) \<le> mq_room (mqs s a)"
    and "mq_msgs s' (cell (mqs s a) i) = mq_msgs s (cell (mqs s a) i)"
    and "\<And>x. x \<in> span (cell (mqs s a) i) (mq_room (mqs s a) + 8) \<Longrightarrow> mem8 s' x = mem8 s x"
  shows "message s' (cell (mqs s a) i) = message s (cell (mqs s a) i)"
  unfolding message_def assms(4) by (rule bytes_at_cong) (use assms(5) cell_data [OF assms(3), of i] in auto)

lemma put_msg_simps:
  "mqs (put_msg a c p n s) = (mqs s)(a := upd_curmsgs (\<lambda>n. n + 1) ((mqs s a)\<lparr>send_ptr := mq_next (mqs s a) c\<rparr>))"
  "mem8 (put_msg a c p n s) = memcpy_loop (unat n) (c + 8) p (mem8 s)"
  "mq_msgs (put_msg a c p n s) = (mq_msgs s)(c := \<lparr>msg_size = n, msg_used = 1\<rparr>)"
  by (simp_all add: put_msg_def)

lemma put_refines:
  assumes ok: "mq_ok a k s" and room: "mq_len (mqs s a) < mq_cells (mqs s a)" and len: "unat msg_len \<le> mq_room (mqs s a)"
    and src: "span msg_ptr (unat msg_len) \<inter> mq_span (mqs s a) = {}"
  defines "s' \<equiv> put_msg a (send_ptr (mqs s a)) msg_ptr msg_len s"
  shows "mq_ok a k s'" and "mq_abs a k s' = mq_abs a k s @ [bytes_at (mem8 s) msg_ptr (unat msg_len)]"
proof -
  let ?q = "mqs s a"
  let ?n = "mq_cells ?q" and ?l = "mq_len ?q"
  let ?slot = "\<lambda>i. cell ?q ((k + i) mod ?n)"
  note o = mq_okD [OF ok]
  note d = mq_shapeD [OF o(1)]
  have q': "mqs s' a = upd_curmsgs (\<lambda>n. n + 1) (?q\<lparr>send_ptr := mq_next ?q (?slot ?l)\<rparr>)"
    by (simp add: s'_def put_msg_simps o(4))
  have l': "mq_len (mqs s' a) = Suc ?l" using o(1) by (simp add: mq_len_def q' mq_shape_def Suc_nat_eq_nat_zadd1)
  have c': "mq_cells (mqs s' a) = ?n" "mq_room (mqs s' a) = mq_room ?q" "cell (mqs s' a) = cell ?q" by (simp_all add: q')
  have hdr: "mq_msgs s' = (mq_msgs s)(?slot ?l := \<lparr>msg_size = msg_len, msg_used = 1\<rparr>)" by (simp add: s'_def put_msg_simps o(4))
  have mem: "mem8 s' = memcpy_loop (unat msg_len) (?slot ?l + 8) msg_ptr (mem8 s)" by (simp add: s'_def put_msg_simps o(4))
  have lt: "(k + i) mod ?n < ?n" for i using d(1) by simp
  have ne: "?slot i = ?slot ?l \<longleftrightarrow> i = ?l" if "i < ?n" for i
    using cell_inj [OF o(1) lt lt, of i ?l] slot_inj [OF o(2) that room] by auto
  have shape: "mq_shape (mqs s' a)" using o(1) room d(2,4) by (simp add: mq_shape_def q')
  have next_slot: "mq_next ?q (?slot ?l) = ?slot (Suc ?l)"
    using mq_next_cell [OF o(1) lt, of ?l] by (simp add: mod_Suc_eq)
  show "mq_ok a k s'"
    unfolding mq_ok_def Let_def c' l'
  proof (intro conjI allI impI)
    show "send_ptr (mqs s' a) = ?slot (Suc ?l)" by (simp add: q' next_slot)
    show "msg_used (mq_msgs s' (?slot i)) \<noteq> 0 \<longleftrightarrow> i < Suc ?l" if "i < ?n" for i
      using o(5) [OF that] ne [OF that] by (auto simp: hdr)
    show "unat (msg_size (mq_msgs s' (?slot i))) \<le> mq_room ?q" if "i < Suc ?l" for i
      using o(6) [of i] ne [of i] that len room by (cases "i = ?l") (auto simp: hdr)
  qed (use shape o(2,3) q' in simp_all)
  have data: "span (?slot ?l + 8) (unat msg_len) \<subseteq> span (?slot ?l) (mq_room ?q + 8)" by (rule cell_data [OF len])
  have old: "message s' (?slot i) = message s (?slot i)" if "i < ?l" for i
  proof (rule message_elsewhere [OF o(1) lt o(6) [OF that]])
    have i: "i < ?n" "(k + i) mod ?n \<noteq> (k + ?l) mod ?n" using that room slot_inj [OF o(2), of i ?l] by auto
    show "mq_msgs s' (?slot i) = mq_msgs s (?slot i)" using ne [OF i(1)] that by (simp add: hdr)
    show "mem8 s' x = mem8 s x" if "x \<in> span (?slot i) (mq_room ?q + 8)" for x
      using that cells_apart [OF o(1) lt lt i(2)] data by (simp add: mem) (rule memcpy_loop_other, blast)
  qed
  have "span (?slot ?l + 8) (unat msg_len) \<inter> span msg_ptr (unat msg_len) = {}"
    using data cell_in_buffer [OF lt, of ?l] src by blast
  then have new: "message s' (?slot ?l) = bytes_at (mem8 s) msg_ptr (unat msg_len)"
    using bytes_at_copied [of "?slot ?l + 8" "unat msg_len" msg_ptr "mem8 s"] unsigned_less [of msg_len] by (simp add: message_def hdr mem)
  show "mq_abs a k s' = mq_abs a k s @ [bytes_at (mem8 s) msg_ptr (unat msg_len)]"
    unfolding mq_abs_def c' l' using old new by simp
qed

lemma got_msg_simps:
  "mqs (got_msg a c p s) = (mqs s)(a := upd_curmsgs (\<lambda>n. n - 1) ((mqs s a)\<lparr>recv_ptr := mq_next (mqs s a) c\<rparr>))"
  "mem8 (got_msg a c p s) = memcpy_loop (unat (msg_size (mq_msgs s c))) p (c + 8) (mem8 s)"
  "mq_msgs (got_msg a c p s) = (mq_msgs s)(c := (mq_msgs s c)\<lparr>msg_used := 0\<rparr>)"
  by (simp_all add: got_msg_def)

lemma mod_shift: "(Suc k mod n + i) mod n = (k + Suc i) mod (n :: nat)"
  by (simp add: mod_add_left_eq)

lemma take_refines:
  assumes ok: "mq_ok a k s" and ne: "0 < mq_len (mqs s a)"
    and dst: "span msg_ptr (unat (msg_size (mq_msgs s (cell (mqs s a) k)))) \<inter> mq_span (mqs s a) = {}"
  defines "s' \<equiv> got_msg a (cell (mqs s a) k) msg_ptr s" and "k' \<equiv> Suc k mod mq_cells (mqs s a)"
  shows "mq_ok a k' s'" and "mq_abs a k s = message s (cell (mqs s a) k) # mq_abs a k' s'"
    and "bytes_at (mem8 s') msg_ptr (unat (msg_size (mq_msgs s (cell (mqs s a) k)))) = message s (cell (mqs s a) k)"
proof -
  let ?q = "mqs s a"
  let ?n = "mq_cells ?q" and ?l = "mq_len ?q" and ?c = "cell (mqs s a) k"
  let ?slot = "\<lambda>i. cell ?q ((k + i) mod ?n)"
  note o = mq_okD [OF ok]
  note d = mq_shapeD [OF o(1)]
  have s0: "?slot 0 = ?c" using o(2) by simp
  have q': "mqs s' a = upd_curmsgs (\<lambda>n. n - 1) (?q\<lparr>recv_ptr := mq_next ?q ?c\<rparr>)" by (simp add: s'_def got_msg_simps)
  have l': "mq_len (mqs s' a) = ?l - 1" using o(1) by (simp add: mq_len_def q' mq_shape_def nat_diff_distrib)
  have c': "mq_cells (mqs s' a) = ?n" "mq_room (mqs s' a) = mq_room ?q" "cell (mqs s' a) = cell ?q" by (simp_all add: q')
  have hdr: "mq_msgs s' = (mq_msgs s)(?c := (mq_msgs s ?c)\<lparr>msg_used := 0\<rparr>)" by (simp add: s'_def got_msg_simps)
  have mem: "mem8 s' = memcpy_loop (unat (msg_size (mq_msgs s ?c))) msg_ptr (?c + 8) (mem8 s)" by (simp add: s'_def got_msg_simps)
  have lt: "(k + i) mod ?n < ?n" for i using d(1) by simp
  have ne0: "?slot i = ?c \<longleftrightarrow> i = 0" if "i < ?n" for i
    using cell_inj [OF o(1) lt o(2), of i] slot_inj [OF o(2) that d(1)] o(2) by auto
  have wrap: "?slot ?n = ?c" using o(2) by simp
  have shape: "mq_shape (mqs s' a)" using o(1) ne d(4) by (simp add: mq_shape_def q')
  have next_slot: "mq_next ?q ?c = cell ?q k'" using mq_next_cell [OF o(1,2)] by (simp add: k'_def)
  have slot': "cell ?q ((k' + i) mod ?n) = ?slot (Suc i)" for i unfolding k'_def mod_shift ..
  show "mq_ok a k' s'"
    unfolding mq_ok_def Let_def c' l' slot'
  proof (intro conjI allI impI)
    show "recv_ptr (mqs s' a) = ?slot (Suc 0)" using slot' [of 0] d(1) by (simp add: q' next_slot k'_def)
    show "send_ptr (mqs s' a) = ?slot (Suc (?l - 1))" using ne by (simp add: q' o(4))
    show "msg_used (mq_msgs s' (?slot (Suc i))) \<noteq> 0 \<longleftrightarrow> i < ?l - 1" if "i < ?n" for i
    proof (cases "Suc i = ?n")
      case True
      then show ?thesis using wrap d(5) by (auto simp: hdr)
    next
      case False
      then show ?thesis using that o(5) [of "Suc i"] ne0 [of "Suc i"] by (auto simp: hdr)
    qed
    show "unat (msg_size (mq_msgs s' (?slot (Suc i)))) \<le> mq_room ?q" if "i < ?l - 1" for i
      using o(6) [of "Suc i"] ne0 [of "Suc i"] that d(5) by (auto simp: hdr)
    show "k' < ?n" using d(1) by (simp add: k'_def)
  qed (rule shape)
  have sz: "unat (msg_size (mq_msgs s ?c)) \<le> mq_room ?q" using o(6) [OF ne] s0 by simp
  have old: "message s' (?slot (Suc i)) = message s (?slot (Suc i))" if "i < ?l - 1" for i
  proof (rule message_elsewhere [OF o(1) lt])
    have i: "Suc i < ?l" using that by simp
    show "unat (msg_size (mq_msgs s (?slot (Suc i)))) \<le> mq_room ?q" by (rule o(6) [OF i])
    show "mq_msgs s' (?slot (Suc i)) = mq_msgs s (?slot (Suc i))" using ne0 [of "Suc i"] i d(5) by (simp add: hdr)
    show "mem8 s' x = mem8 s x" if "x \<in> span (?slot (Suc i)) (mq_room ?q + 8)" for x
      unfolding mem by (rule memcpy_loop_other) (use that cell_in_buffer [OF lt, of "Suc i"] dst in blast)
  qed
  have "[0..<?l] = 0 # map Suc [0..<?l - 1]" using ne by (simp add: map_Suc_upt upt_conv_Cons)
  then show "mq_abs a k s = message s ?c # mq_abs a k' s'"
    unfolding mq_abs_def c' l' slot' using old s0 by simp
  have "span msg_ptr (unat (msg_size (mq_msgs s ?c))) \<inter> span (?c + 8) (unat (msg_size (mq_msgs s ?c))) = {}"
    using dst cell_data [OF sz, of k] cell_in_buffer [OF o(2)] by blast
  then show "bytes_at (mem8 s') msg_ptr (unat (msg_size (mq_msgs s ?c))) = message s ?c"
    using bytes_at_copied unsigned_less [of "msg_size (mq_msgs s ?c)"] by (simp add: mem message_def)
qed

lemma sint_small:
  fixes x :: os_u32
  assumes "unat x < 2 ^ 31"
  shows "sint x = int (unat x)"
proof -
  have "sint (of_nat n :: os_u32) = int n" if "n < 2 ^ 31" for n
    using that by (simp add: signed_of_nat signed_take_bit_int_eq_self)
  from this [OF assms] show ?thesis by simp
qed

section \<open>The whole calls\<close>

lemma locked_mq [simp]:
  "mqs (locked m s) = mqs s" "mq_msgs (locked m s) = mq_msgs s" "mem8 (locked m s) = mem8 s"
  by (simp_all add: locked_def set_owner_def)

lemma locked_commute:
  "put_msg a c p n (locked m s) = locked m (put_msg a c p n s)"
  "got_msg a c p (locked m s) = locked m (got_msg a c p s)"
  by (simp_all add: locked_def set_owner_def put_msg_def got_msg_def)

lemma mq_ok_locked: "mq_ok a k (locked m s) = mq_ok a k s"
  by (simp add: mq_ok_def)

lemma mq_send_idle:
  assumes "mutex_idle (mq_w_mutex a) s" and "mq_ok a k s" and "\<not> blocking (mq_attr_of (mqs s a))" and "word_of_int mqdes = a"
  shows "mq_send env mqdes msg_ptr msg_len s = Some (mq_put a msg_ptr msg_len s)"
proof -
  let ?m = "mq_w_mutex a"
  have idle: "mutex_idle ?m (put_msg a c p n s)" for c p n
    using assms(1) by (rule mutex_idle_cong) (simp_all add: put_msg_def)
  have nb: "\<not> blocking (mq_attr_of (mqs (put_msg a c p n s) a))" for c p n
    using assms(3) by (simp add: put_msg_simps blocking_def upd_curmsgs_def)
  show ?thesis
    using assms(3) nb unfolding mq_send_def assms(4) Let_def
    by (simp add: lock_idle [OF assms(1)] mq_put_eq [OF assms(2)] mq_put_eq [OF assms(2) [folded mq_ok_locked [of a k "?m" s]]]
        locked_commute unlock_locked [OF idle] unlock_locked [OF assms(1)])
qed

lemma mq_receive_idle:
  assumes "mutex_idle (mq_r_mutex a) s" and "mq_ok a k s" and "\<not> blocking (mq_attr_of (mqs s a))" and "word_of_int mqdes = a"
  shows "mq_receive env mqdes msg_ptr s = Some (mq_take a msg_ptr s)"
proof -
  let ?m = "mq_r_mutex a"
  have idle: "mutex_idle ?m (got_msg a c p s)" for c p
    using assms(1) by (rule mutex_idle_cong) (simp_all add: got_msg_def)
  show ?thesis
    using assms(3) unfolding mq_receive_def assms(4) Let_def
    by (simp add: lock_idle [OF assms(1)] mq_take_eq [OF assms(2)] mq_take_eq [OF assms(2) [folded mq_ok_locked [of a k "?m" s]]]
        locked_commute unlock_locked [OF idle] unlock_locked [OF assms(1)])
qed

lemma mq_roundtrip:
  assumes ok: "mq_ok a k s" and e: "mq_len (mqs s a) = 0" and nb: "\<not> blocking (mq_attr_of (mqs s a))"
    and idle: "mutex_idle (mq_w_mutex a) s" "mutex_idle (mq_r_mutex a) s" and des: "word_of_int mqdes = a"
    and fits: "unat msg_len \<le> mq_room (mqs s a)"
    and apart: "span msg_ptr (unat msg_len) \<inter> mq_span (mqs s a) = {}" "span dst_ptr (unat msg_len) \<inter> mq_span (mqs s a) = {}"
  shows "\<exists>s2. mq_send env mqdes msg_ptr msg_len s = Some (0, put_msg a (cell (mqs s a) k) msg_ptr msg_len s) \<and>
     mq_receive env mqdes dst_ptr (put_msg a (cell (mqs s a) k) msg_ptr msg_len s) = Some (Some (int (unat msg_len)), s2) \<and>
     bytes_at (mem8 s2) dst_ptr (unat msg_len) = bytes_at (mem8 s) msg_ptr (unat msg_len) \<and>
     mq_ok a (Suc k mod mq_cells (mqs s a)) s2 \<and> mq_len (mqs s2 a) = 0"
proof -
  let ?q = "mqs s a"
  let ?c = "cell ?q k" and ?k' = "Suc k mod mq_cells ?q"
  let ?s1 = "put_msg a ?c msg_ptr msg_len s"
  let ?s2 = "got_msg a ?c dst_ptr ?s1"
  note d = mq_shapeD [OF mq_okD(1) [OF ok]]
  have c: "send_ptr ?q = ?c" using mq_okD(2,4) [OF ok] e by simp
  have room: "mq_len ?q < mq_cells ?q" using e d(1) by simp
  have send: "mq_send env mqdes msg_ptr msg_len s = Some (0, ?s1)"
    using mq_send_idle [OF idle(1) ok nb des] room fits by (simp add: mq_put_eq [OF ok] c)
  note p = put_refines [OF ok room fits apart(1), unfolded c]
  have q1: "cell (mqs ?s1 a) = cell ?q" "mq_cells (mqs ?s1 a) = mq_cells ?q" "mq_room (mqs ?s1 a) = mq_room ?q" "mq_pbuf (mqs ?s1 a) = mq_pbuf ?q"
    "mq_len (mqs ?s1 a) = Suc 0" "mq_msgs ?s1 ?c = \<lparr>msg_size = msg_len, msg_used = 1\<rparr>"
    using e d(4) by (simp_all add: put_msg_simps mq_len_def)
  have dst: "span dst_ptr (unat (msg_size (mq_msgs ?s1 (cell (mqs ?s1 a) k)))) \<inter> mq_span (mqs ?s1 a) = {}"
    unfolding q1 using apart(2) by simp
  have "0 < mq_len (mqs ?s1 a)" by (simp add: q1)
  note t = take_refines [OF p(1) this dst, unfolded q1]
  have "mq_receive env mqdes dst_ptr ?s1 = Some (mq_take a dst_ptr ?s1)"
    by (rule mq_receive_idle [OF mutex_idle_cong [OF idle(2)] p(1) _ des])
      (use nb in \<open>simp_all add: put_msg_def blocking_def upd_curmsgs_def\<close>)
  moreover have "unat msg_len < 2 ^ 31" using fits d(6) by simp
  ultimately have recv: "mq_receive env mqdes dst_ptr ?s1 = Some (Some (int (unat msg_len)), ?s2)"
    by (simp add: mq_take_eq [OF p(1)] q1 sint_small)
  have "mq_abs a k s = []" using e by (simp add: mq_abs_def)
  then have "message ?s1 ?c = bytes_at (mem8 s) msg_ptr (unat msg_len)" "mq_abs a ?k' ?s2 = []" using p(2) t(2) by auto
  then show ?thesis using send recv t(1,3) by (auto simp: mq_abs_def q1)
qed

section \<open>Properties\<close>

text \<open>
  C23. A message queue refines a bounded queue of messages: storing a message that fits appends its bytes and returns 0, a full queue and a message longer than the
  cells refuse it with \<open>- EINVAL\<close> and change nothing; fetching copies the oldest message to the caller's buffer, returns its
  length and removes it; an empty queue is left alone, and then the return value is indeterminate.
\<close>
theorem mq_refines_fifo:
  assumes ok: "mq_ok a k s" and "span msg_ptr (unat msg_len) \<inter> mq_span (mqs s a) = {}"
    and "span dst_ptr (mq_room (mqs s a)) \<inter> mq_span (mqs s a) = {}"
  shows "(let (ret, s') = mq_put a msg_ptr msg_len s
      in if length (mq_abs a k s) < mq_cells (mqs s a) \<and> unat msg_len \<le> mq_room (mqs s a)
         then ret = 0 \<and> mq_ok a k s' \<and> mq_abs a k s' = mq_abs a k s @ [bytes_at (mem8 s) msg_ptr (unat msg_len)]
         else ret = - EINVAL \<and> s' = s) \<and>
    (let (ret, s') = mq_take a dst_ptr s; k' = Suc k mod mq_cells (mqs s a)
     in case mq_abs a k s of
          [] \<Rightarrow> ret = None \<and> s' = s
        | m # ms \<Rightarrow> ret = Some (int (length m)) \<and> bytes_at (mem8 s') dst_ptr (length m) = m \<and> mq_ok a k' s' \<and> mq_abs a k' s' = ms)"
proof -
  have len: "length (mq_abs a k s) = mq_len (mqs s a)" by (simp add: mq_abs_def)
  have put: "let (ret, s') = mq_put a msg_ptr msg_len s
      in if length (mq_abs a k s) < mq_cells (mqs s a) \<and> unat msg_len \<le> mq_room (mqs s a)
         then ret = 0 \<and> mq_ok a k s' \<and> mq_abs a k s' = mq_abs a k s @ [bytes_at (mem8 s) msg_ptr (unat msg_len)]
         else ret = - EINVAL \<and> s' = s"
    using put_refines [OF ok _ _ assms(2)] by (simp add: mq_put_eq [OF ok] len)
  let ?c = "cell (mqs s a) k"
  show ?thesis
  proof (cases "mq_len (mqs s a) = 0")
    case True
    then have "mq_abs a k s = []" by (simp add: mq_abs_def)
    then show ?thesis using put True by (simp add: mq_take_eq [OF ok])
  next
    case False
    have sz: "unat (msg_size (mq_msgs s ?c)) \<le> mq_room (mqs s a)" using mq_okD(6) [OF ok, of 0] False mq_okD(2) [OF ok] by simp
    have "span dst_ptr (unat (msg_size (mq_msgs s ?c))) \<inter> mq_span (mqs s a) = {}" using assms(3) span_mono [OF sz, of dst_ptr] by blast
    note t = take_refines [OF ok _ this]
    have "sint (msg_size (mq_msgs s ?c)) = int (length (message s ?c))"
      using sz mq_shapeD(6) [OF mq_okD(1) [OF ok]]
      by (simp add: message_def bytes_at_def sint_small)
    then show ?thesis using put False t by (simp add: mq_take_eq [OF ok] message_def bytes_at_def)
  qed
qed

text \<open>A non-blocking queue at 0x5000 with two cells of 4 bytes, empty, its receive pointer at the second cell.\<close>

definition demo_mq :: mq where
  "demo_mq = \<lparr>mq_pbuf = 0x6000, mq_pbuf_size = 24, send_ptr = 0x600c, recv_ptr = 0x600c,
     mq_attr_of = \<lparr>mq_flags = O_CREAT OR O_NONBLOCK, mq_maxmsg = 2, mq_msgsize = 4, mq_curmsgs = 0\<rparr>\<rparr>"

definition mq_kernel :: mqkernel where
  "mq_kernel = iokernel.extend io_kernel \<lparr>mqs = (\<lambda>_. demo_mq), mq_msgs = (\<lambda>_. \<lparr>msg_size = 0, msg_used = 0\<rparr>)\<rparr>"

lemma mq_kernel_facts:
  "mqs mq_kernel = (\<lambda>_. demo_mq)" "mq_msgs mq_kernel = (\<lambda>_. \<lparr>msg_size = 0, msg_used = 0\<rparr>)" "mem8 mq_kernel = demo_strings"
  "current_thread mq_kernel = NULL"
proof -
  show "mqs mq_kernel = (\<lambda>_. demo_mq)" "mq_msgs mq_kernel = (\<lambda>_. \<lparr>msg_size = 0, msg_used = 0\<rparr>)" "mem8 mq_kernel = demo_strings"
    by (simp_all add: mq_kernel_def iokernel.extend_def io_kernel_facts)
  show "current_thread mq_kernel = NULL"
    by (simp add: mq_kernel_def iokernel.extend_def io_kernel_def stdobj_init_def STDOBJ_NUM_MAX_def upt_rec upd_links_def
        sigkernel.extend_def tkernel.extend_def kernel.extend_def boot_kernel_def sched_init_def Let_def kstate.extend_def)
qed

lemma mq_kernel_ok: "mq_ok 0x5000 1 mq_kernel" "mq_cells demo_mq = 2" "mq_room demo_mq = 4" "mq_len demo_mq = 0"
proof -
  show c: "mq_cells demo_mq = 2" "mq_room demo_mq = 4" "mq_len demo_mq = 0"
    by (simp_all add: demo_mq_def mq_cells_def mq_room_def mq_len_def)
  have "mq_shape demo_mq" by (simp add: mq_shape_def c) (simp add: demo_mq_def)
  then show "mq_ok 0x5000 1 mq_kernel"
    by (simp add: mq_ok_def mq_kernel_facts c cell_def) (simp add: demo_mq_def)
qed

theorem mq_refines_fifo_witness:
  "\<exists>s'. mq_put 0x5000 0x3000 4 mq_kernel = (0, s') \<and> mq_abs 0x5000 1 s' = [[117, 97, 114, 116]]"
proof -
  have sp: "mq_span demo_mq = span 0x6000 24" by (simp add: mq_kernel_ok) (simp add: demo_mq_def)
  have "span 0x3000 4 \<inter> span 0x6000 24 = {}" "span 0x3100 4 \<inter> span 0x6000 24 = {}" by (rule span_apart; simp)+
  moreover have "bytes_at demo_strings 0x3000 4 = [117, 97, 114, 116]"
    by (simp add: bytes_at_def upt_rec demo_strings_def)
  moreover have "mq_abs 0x5000 1 mq_kernel = []" by (simp add: mq_abs_def mq_kernel_facts mq_kernel_ok)
  ultimately show ?thesis
    using mq_refines_fifo [OF mq_kernel_ok(1), of "0x3000" 4 "0x3100"] sp
    by (cases "mq_put 0x5000 0x3000 4 mq_kernel") (auto simp: mq_kernel_facts mq_kernel_ok)
qed

text \<open>
  Round trip through a non-blocking message queue whose mutexes are free: \<^verbatim>\<open>mq_send\<close> of a message that fits into an empty queue returns 0,
  and \<^verbatim>\<open>mq_receive\<close> then returns its length and leaves its bytes in the receiver's buffer and the queue empty.
\<close>
theorem mq_send_receive:
  assumes ok: "mq_ok a k s" and e: "mq_len (mqs s a) = 0" and nb: "\<not> blocking (mq_attr_of (mqs s a))"
    and idle: "mutex_idle (mq_w_mutex a) s" "mutex_idle (mq_r_mutex a) s" and des: "word_of_int mqdes = a"
    and fits: "unat msg_len \<le> mq_room (mqs s a)"
    and apart: "span msg_ptr (unat msg_len) \<inter> mq_span (mqs s a) = {}" "span dst_ptr (unat msg_len) \<inter> mq_span (mqs s a) = {}"
  shows "\<exists>s1 s2. mq_send env mqdes msg_ptr msg_len s = Some (0, s1) \<and>
     mq_receive env mqdes dst_ptr s1 = Some (Some (int (unat msg_len)), s2) \<and>
     bytes_at (mem8 s2) dst_ptr (unat msg_len) = bytes_at (mem8 s) msg_ptr (unat msg_len) \<and>
     mq_ok a (Suc k mod mq_cells (mqs s a)) s2 \<and> mq_len (mqs s2 a) = 0"
  using mq_roundtrip [OF assms, of env] by blast

theorem mq_send_receive_witness:
  "\<exists>s1 s2. mq_send (\<lambda>_. None) 0x5000 0x3000 4 mq_kernel = Some (0, s1) \<and>
     mq_receive (\<lambda>_. None) 0x5000 0x3100 s1 = Some (Some 4, s2) \<and> bytes_at (mem8 s2) 0x3100 4 = [117, 97, 114, 116]"
proof -
  have sp: "mq_span demo_mq = span 0x6000 24" by (simp add: mq_kernel_ok) (simp add: demo_mq_def)
  have a: "span 0x3000 4 \<inter> span 0x6000 24 = {}" "span 0x3100 4 \<inter> span 0x6000 24 = {}" by (rule span_apart; simp)+
  have b: "bytes_at demo_strings 0x3000 4 = [117, 97, 114, 116]"
    by (simp add: bytes_at_def upt_rec demo_strings_def)
  have nb: "\<not> blocking (mq_attr_of demo_mq)" by (simp add: blocking_def demo_mq_def O_CREAT_def O_NONBLOCK_def)
  have idle: "mutex_idle m mq_kernel" for m by (simp add: mutex_idle_def mq_kernel_facts)
  show ?thesis
    using mq_send_receive [OF mq_kernel_ok(1) _ _ idle idle, of "0x5000" 4 "0x3000" "0x3100" "\<lambda>_. None"] a b nb sp
    by (auto simp: mq_kernel_facts mq_kernel_ok)
qed

end
