(* ===== verification/Shell.thy ===== *)
theory Shell
  imports Mqueue Printf
begin

text \<open>
  The command line of a shell device, \<^verbatim>\<open>hwutil/shell/source/shell.c\<close>: a state machine for escape sequences, a line editor over
  eight rows of 64 characters kept as a history, and the search for the command that a line names.

  The rows are in the byte memory, row \<open>i\<close> of the device at \<open>d\<close> at \<open>d + 66 * i\<close> (64 characters and a 16-bit offset); the other members are in a
  typed store. \<open>loc\<close> is the address of the local variables (\<^verbatim>\<open>ch\<close> and the arrays that are written), \<open>usr_log\<close> the
  addresses of the five prompts, \<open>cmds\<close> the command table that the linker collects, \<open>call\<close> what a command does, and \<open>drv\<close> the device driver.
  The state machine is one round of the endless loop of \<^verbatim>\<open>shell_thread_entry\<close>.
\<close>

section \<open>Shell devices\<close>

definition SHELL_BUFFER_LENGTH_MAX :: nat where "SHELL_BUFFER_LENGTH_MAX = 64"
definition SHELL_BUFFER_NUM_MAX :: nat where "SHELL_BUFFER_NUM_MAX = 8"
definition SHELL_PRINT_BUF_MAX :: nat where "SHELL_PRINT_BUF_MAX = 128"

definition KEYBOARD_EXPAND_HEAD :: os_u8 where "KEYBOARD_EXPAND_HEAD = 0x1B"
definition KEYBOARD_EXPAND_TYPE :: os_u8 where "KEYBOARD_EXPAND_TYPE = 0x5B"
definition KEYBOARD_EXPAND_UP :: os_u8 where "KEYBOARD_EXPAND_UP = 0x41"
definition KEYBOARD_EXPAND_DOWN :: os_u8 where "KEYBOARD_EXPAND_DOWN = 0x42"
definition KEYBOARD_EXPAND_RIGHT :: os_u8 where "KEYBOARD_EXPAND_RIGHT = 0x43"
definition KEYBOARD_EXPAND_LEFT :: os_u8 where "KEYBOARD_EXPAND_LEFT = 0x44"

definition INPUT_IS_NOMAL :: int where "INPUT_IS_NOMAL = 0"
definition INPUT_IS_EXPAND_HEAD :: int where "INPUT_IS_EXPAND_HEAD = - 1"
definition INPUT_IS_EXPAND_TYPE :: int where "INPUT_IS_EXPAND_TYPE = - 2"
definition INPUT_IS_DIRECTION :: int where "INPUT_IS_DIRECTION = - 3"

lemmas shell_consts =
  KEYBOARD_EXPAND_HEAD_def KEYBOARD_EXPAND_TYPE_def KEYBOARD_EXPAND_UP_def KEYBOARD_EXPAND_DOWN_def
  KEYBOARD_EXPAND_RIGHT_def KEYBOARD_EXPAND_LEFT_def INPUT_IS_NOMAL_def INPUT_IS_EXPAND_HEAD_def
  INPUT_IS_EXPAND_TYPE_def INPUT_IS_DIRECTION_def CH_IS_TEXT_def CH_IS_BACKSPACE_def CH_IS_ENTER_def

definition SHELL_DEVICE_SET_ACK :: os_u32 where "SHELL_DEVICE_SET_ACK = 1"
definition SHELL_DEVICE_ACK :: os_u8 where "SHELL_DEVICE_ACK = 1"

record shell_dev =
  sh_offset :: "nat \<Rightarrow> os_u16"
  tail_point :: os_u8
  head_point :: os_u8
  history_point :: os_u8
  sh_priority :: os_u8
  recv_status :: os_u8
  sh_ack :: os_u8
  sh_file :: int

record shell_cmd =
  cmd_name :: addr
  cmd_desc :: addr
  cmd_func :: addr
  cmd_priority :: os_u16

record shkernel = mqkernel +
  shells :: "addr \<Rightarrow> shell_dev"

definition upd_shell :: "addr \<Rightarrow> (shell_dev \<Rightarrow> shell_dev) \<Rightarrow> 'a shkernel_scheme \<Rightarrow> 'a shkernel_scheme" where
  "upd_shell d f s = s\<lparr>shells := (shells s)(d := f (shells s d))\<rparr>"

section \<open>The buffer macros\<close>

definition sh_row :: "addr \<Rightarrow> nat \<Rightarrow> addr" where
  "sh_row d i = d + of_nat (66 * i)"

definition sh_cur :: "shell_dev \<Rightarrow> nat" where
  "sh_cur x = unat (head_point x)"

definition SHELL_BUFFER :: "addr \<Rightarrow> shell_dev \<Rightarrow> addr" where
  "SHELL_BUFFER d x = sh_row d (sh_cur x)"

definition SHELL_BUFFER_OFFSET :: "shell_dev \<Rightarrow> os_u16" where
  "SHELL_BUFFER_OFFSET x = sh_offset x (sh_cur x)"

definition set_offset :: "os_u16 \<Rightarrow> shell_dev \<Rightarrow> shell_dev" where
  "set_offset v x = x\<lparr>sh_offset := (sh_offset x)(sh_cur x := v)\<rparr>"

definition SHELL_BUFFER_IS_FULL :: "shell_dev \<Rightarrow> bool" where
  "SHELL_BUFFER_IS_FULL x \<longleftrightarrow> unat (SHELL_BUFFER_OFFSET x) \<ge> SHELL_BUFFER_LENGTH_MAX - 2"

definition SHELL_BUFFER_IS_EMPTY :: "shell_dev \<Rightarrow> bool" where
  "SHELL_BUFFER_IS_EMPTY x \<longleftrightarrow> SHELL_BUFFER_OFFSET x = 0"

definition SHELL_BUFFER_INSERT_CH :: "addr \<Rightarrow> os_u8 \<Rightarrow> 'a shkernel_scheme \<Rightarrow> 'a shkernel_scheme" where
  "SHELL_BUFFER_INSERT_CH d ch s =
     (let x = shells s d
      in upd_shell d (set_offset (SHELL_BUFFER_OFFSET x + 1))
           (s\<lparr>mem8 := (mem8 s)(SHELL_BUFFER d x + ucast (SHELL_BUFFER_OFFSET x) := ch)\<rparr>))"

definition SHELL_BUFFER_DELETE_CH :: "shell_dev \<Rightarrow> shell_dev" where
  "SHELL_BUFFER_DELETE_CH x = set_offset (SHELL_BUFFER_OFFSET x - 1) x"

definition SHELL_BUFFER_CLEAR_LAST :: "shell_dev \<Rightarrow> shell_dev" where
  "SHELL_BUFFER_CLEAR_LAST x = set_offset 0 x"

definition point_inc :: "os_u8 \<Rightarrow> os_u8" where
  "point_inc p = (p + 1) mod of_nat SHELL_BUFFER_NUM_MAX"

definition SHELL_BUFFER_POINT_INC :: "shell_dev \<Rightarrow> shell_dev" where
  "SHELL_BUFFER_POINT_INC x =
     (let x = x\<lparr>head_point := point_inc (head_point x)\<rparr>;
          x = (if head_point x = tail_point x then x\<lparr>tail_point := point_inc (tail_point x)\<rparr> else x)
      in x\<lparr>history_point := head_point x\<rparr>)"

definition SHELL_BUFFER_CURRENT_POINT_INC :: "shell_dev \<Rightarrow> shell_dev" where
  "SHELL_BUFFER_CURRENT_POINT_INC x =
     (if history_point x \<noteq> head_point x then x\<lparr>head_point := point_inc (head_point x)\<rparr> else x)"

definition SHELL_BUFFER_CURRENT_POINT_SUB :: "shell_dev \<Rightarrow> shell_dev" where
  "SHELL_BUFFER_CURRENT_POINT_SUB x =
     (if head_point x \<noteq> tail_point x
      then if head_point x \<noteq> 0 then x\<lparr>head_point := head_point x - 1\<rparr>
           else x\<lparr>head_point := of_nat (SHELL_BUFFER_NUM_MAX - 1)\<rparr>
      else x)"

definition SHELL_DEV_NEED_ACK :: "shell_dev \<Rightarrow> bool" where
  "SHELL_DEV_NEED_ACK x \<longleftrightarrow> SHELL_DEVICE_ACK = sh_ack x"

type_synonym 'a shdriver = "addr \<Rightarrow> addr \<Rightarrow> devcall \<Rightarrow> 'a shkernel_scheme \<Rightarrow> (int \<times> 'a shkernel_scheme) option"

text \<open>\<^verbatim>\<open>SHELL_DEV_WRITE\<close> of a buffer in memory, and of a local array with the given contents.\<close>

definition SHELL_DEV_WRITE :: "'a shdriver \<Rightarrow> addr \<Rightarrow> addr \<Rightarrow> os_u32 \<Rightarrow> 'a shkernel_scheme \<Rightarrow> 'a shkernel_scheme option" where
  "SHELL_DEV_WRITE drv d buffer n s = do { (r, s) \<leftarrow> write_fd drv (sh_file (shells s d)) buffer n s; Some s }"

definition shell_write_local :: "'a shdriver \<Rightarrow> addr \<Rightarrow> addr \<Rightarrow> os_u8 list \<Rightarrow> 'a shkernel_scheme \<Rightarrow> 'a shkernel_scheme option" where
  "shell_write_local drv loc d bs s = SHELL_DEV_WRITE drv d loc (of_nat (length bs)) (s\<lparr>mem8 := store loc bs (mem8 s)\<rparr>)"

definition SHELL_BUFFER_PRINT :: "'a shdriver \<Rightarrow> addr \<Rightarrow> 'a shkernel_scheme \<Rightarrow> 'a shkernel_scheme option" where
  "SHELL_BUFFER_PRINT drv d s =
     SHELL_DEV_WRITE drv d (SHELL_BUFFER d (shells s d)) (ucast (SHELL_BUFFER_OFFSET (shells s d))) s"

text \<open>The prompt: there is none for a priority above 4 (the table has five entries).\<close>

definition shell_prompt :: "'a shdriver \<Rightarrow> (nat \<Rightarrow> addr) \<Rightarrow> addr \<Rightarrow> 'a shkernel_scheme \<Rightarrow> 'a shkernel_scheme option" where
  "shell_prompt drv usr_log d s =
     (if unat (sh_priority (shells s d)) \<ge> 5 then None
      else do {
        let str = usr_log (unat (sh_priority (shells s d)));
        len \<leftarrow> strlen (mem8 s) str;
        SHELL_DEV_WRITE drv d str len s
      })"

section \<open>Operations\<close>

definition shell_entry :: "lnode \<Rightarrow> addr option" where
  "shell_entry x = (case x of Shell_node a \<Rightarrow> Some a | _ \<Rightarrow> None)"

partial_function (option) shell_find_loop :: "(addr \<Rightarrow> shell_dev) \<Rightarrow> lnode links \<Rightarrow> int \<Rightarrow> lnode \<Rightarrow> addr option" where
  "shell_find_loop sh l file node =
     (if node = Shell_head then Some NULL
      else do {
        d \<leftarrow> shell_entry node;
        if sh_file (sh d) = file then Some d else shell_find_loop sh l file (next_of l node)
      })"

definition shell_dev_find :: "int \<Rightarrow> 'a shkernel_scheme \<Rightarrow> addr option" where
  "shell_dev_find file s = shell_find_loop (shells s) (links s) file (next_of (links s) Shell_head)"

definition shell_recv_keybaord_expand :: "os_u8 \<Rightarrow> shell_dev \<Rightarrow> int \<times> shell_dev" where
  "shell_recv_keybaord_expand ch x =
     (if recv_status x = 0
      then if KEYBOARD_EXPAND_HEAD = ch then (INPUT_IS_EXPAND_HEAD, x\<lparr>recv_status := KEYBOARD_EXPAND_HEAD\<rparr>)
           else (INPUT_IS_NOMAL, x)
      else if KEYBOARD_EXPAND_HEAD = recv_status x
      then if KEYBOARD_EXPAND_TYPE = ch then (INPUT_IS_EXPAND_TYPE, x\<lparr>recv_status := KEYBOARD_EXPAND_TYPE\<rparr>)
           else (INPUT_IS_NOMAL, x\<lparr>recv_status := 0\<rparr>)
      else if KEYBOARD_EXPAND_TYPE = recv_status x
      then let x = x\<lparr>recv_status := 0\<rparr>
           in if KEYBOARD_EXPAND_UP = ch \<or> KEYBOARD_EXPAND_DOWN = ch \<or> KEYBOARD_EXPAND_RIGHT = ch \<or> KEYBOARD_EXPAND_LEFT = ch
              then (INPUT_IS_DIRECTION, x) else (INPUT_IS_NOMAL, x)
      else (INPUT_IS_NOMAL, x))"

primrec shell_cmd_loop :: "bytes \<Rightarrow> addr \<Rightarrow> shell_cmd list \<Rightarrow> shell_cmd option option" where
  "shell_cmd_loop m buf [] = Some None"
| "shell_cmd_loop m buf (c # cs) =
     do {
       p \<leftarrow> strstr m buf (cmd_name c);
       if p = buf then Some (Some c) else shell_cmd_loop m buf cs
     }"

definition shell_cmd_find :: "shell_cmd list \<Rightarrow> addr \<Rightarrow> 'a shkernel_scheme \<Rightarrow> shell_cmd option option" where
  "shell_cmd_find cmds d s = shell_cmd_loop (mem8 s) (SHELL_BUFFER d (shells s d)) cmds"

definition shell_text :: "'a shdriver \<Rightarrow> addr \<Rightarrow> addr \<Rightarrow> os_u8 \<Rightarrow> 'a shkernel_scheme \<Rightarrow> 'a shkernel_scheme option" where
  "shell_text drv loc d ch s =
     (if \<not> SHELL_BUFFER_IS_FULL (shells s d)
      then let s = SHELL_BUFFER_INSERT_CH d ch s
           in if SHELL_DEV_NEED_ACK (shells s d) then shell_write_local drv loc d [ch] s else Some s
      else Some s)"

definition shell_backspace :: "'a shdriver \<Rightarrow> addr \<Rightarrow> addr \<Rightarrow> 'a shkernel_scheme \<Rightarrow> 'a shkernel_scheme option" where
  "shell_backspace drv loc d s =
     (if \<not> SHELL_BUFFER_IS_EMPTY (shells s d)
      then let s = upd_shell d SHELL_BUFFER_DELETE_CH s
           in if SHELL_DEV_NEED_ACK (shells s d) then shell_write_local drv loc d [8, 32, 8] s else Some s
      else Some s)"

definition shell_run :: "(addr \<Rightarrow> addr \<Rightarrow> 'a shkernel_scheme \<Rightarrow> 'a shkernel_scheme option) \<Rightarrow> shell_cmd list \<Rightarrow> addr \<Rightarrow>
    'a shkernel_scheme \<Rightarrow> 'a shkernel_scheme option" where
  "shell_run call cmds d s =
     do {
       found \<leftarrow> shell_cmd_find cmds d s;
       case found of None \<Rightarrow> Some s
       | Some c \<Rightarrow> if unat (sh_priority (shells s d)) \<ge> unat (cmd_priority c) then call (cmd_func c) d s else Some s
     }"

definition shell_enter :: "'a shdriver \<Rightarrow> (addr \<Rightarrow> addr \<Rightarrow> 'a shkernel_scheme \<Rightarrow> 'a shkernel_scheme option) \<Rightarrow> shell_cmd list \<Rightarrow>
    addr \<Rightarrow> (nat \<Rightarrow> addr) \<Rightarrow> addr \<Rightarrow> 'a shkernel_scheme \<Rightarrow> 'a shkernel_scheme option" where
  "shell_enter drv call cmds loc usr_log d s =
     (if \<not> SHELL_BUFFER_IS_FULL (shells s d)
      then do {
        let s = SHELL_BUFFER_INSERT_CH d 0 s;
        s \<leftarrow> shell_run call cmds d s;
        s \<leftarrow> shell_write_local drv loc d [13, 10, 0] s;
        s \<leftarrow> shell_prompt drv usr_log d s;
        let s = upd_shell d SHELL_BUFFER_POINT_INC s;
        Some (upd_shell d SHELL_BUFFER_CLEAR_LAST s)
      }
      else Some s)"

definition shell_direction :: "'a shdriver \<Rightarrow> addr \<Rightarrow> (nat \<Rightarrow> addr) \<Rightarrow> addr \<Rightarrow> os_u8 \<Rightarrow> 'a shkernel_scheme \<Rightarrow>
    'a shkernel_scheme option" where
  "shell_direction drv loc usr_log d ch s =
     (let (print, s) =
        (if KEYBOARD_EXPAND_UP = ch then (True, upd_shell d SHELL_BUFFER_CURRENT_POINT_SUB s)
         else if KEYBOARD_EXPAND_DOWN = ch then (True, upd_shell d SHELL_BUFFER_CURRENT_POINT_INC s)
         else (False, s))
      in if print
         then do {
           s \<leftarrow> shell_write_local drv loc d [13, 0] s;
           s \<leftarrow> shell_prompt drv usr_log d s;
           SHELL_BUFFER_PRINT drv d s
         }
         else Some s)"

text \<open>What the loop does with the character \<open>ch\<close>, and one round of it.\<close>

definition shell_input :: "'a shdriver \<Rightarrow> (addr \<Rightarrow> addr \<Rightarrow> 'a shkernel_scheme \<Rightarrow> 'a shkernel_scheme option) \<Rightarrow> shell_cmd list \<Rightarrow>
    addr \<Rightarrow> (nat \<Rightarrow> addr) \<Rightarrow> addr \<Rightarrow> os_u8 \<Rightarrow> 'a shkernel_scheme \<Rightarrow> 'a shkernel_scheme option" where
  "shell_input drv call cmds loc usr_log d ch s =
     (let (ch_type, x) = shell_recv_keybaord_expand ch (shells s d);
          s = upd_shell d (\<lambda>_. x) s;
          ch_type = (if ch_type = INPUT_IS_NOMAL then ch_classify ch else ch_type)
      in if ch_type = CH_IS_TEXT then shell_text drv loc d ch s
         else if ch_type = CH_IS_BACKSPACE then shell_backspace drv loc d s
         else if ch_type = CH_IS_ENTER then shell_enter drv call cmds loc usr_log d s
         else if ch_type = INPUT_IS_DIRECTION then shell_direction drv loc usr_log d ch s
         else Some s)"

definition shell_round :: "'a shdriver \<Rightarrow> (addr \<Rightarrow> addr \<Rightarrow> 'a shkernel_scheme \<Rightarrow> 'a shkernel_scheme option) \<Rightarrow> shell_cmd list \<Rightarrow>
    addr \<Rightarrow> (nat \<Rightarrow> addr) \<Rightarrow> addr \<Rightarrow> 'a shkernel_scheme \<Rightarrow> 'a shkernel_scheme option" where
  "shell_round drv call cmds loc usr_log d s =
     do {
       (r, s) \<leftarrow> read drv (sh_file (shells s d)) loc 1 s;
       if r > 0 then shell_input drv call cmds loc usr_log d (mem8 s loc) s else Some s
     }"

definition shell_dev_set :: "addr \<Rightarrow> os_u32 \<Rightarrow> addr \<Rightarrow> 'a shkernel_scheme \<Rightarrow> err_t \<times> 'a shkernel_scheme" where
  "shell_dev_set d cmd arg s =
     (if cmd = SHELL_DEVICE_SET_ACK then (0, upd_shell d (\<lambda>x. x\<lparr>sh_ack := mem8 s arg\<rparr>) s) else (0, s))"

definition shell_init :: "'a shkernel_scheme \<Rightarrow> err_t \<times> 'a shkernel_scheme" where
  "shell_init s = (0, upd_links (list_init Shell_head) s)"

text \<open>\<^verbatim>\<open>shell_printk\<close> formats into a local array of 128 bytes; \<open>fmt\<close> are the characters of the format.\<close>

definition shell_printk :: "'a shdriver \<Rightarrow> (os_u32 \<Rightarrow> os_u32 \<Rightarrow> int \<Rightarrow> int \<Rightarrow> os_u8 \<Rightarrow> os_u32 \<Rightarrow> os_u8 list) \<Rightarrow> addr \<Rightarrow> addr \<Rightarrow>
    os_u8 list \<Rightarrow> os_u32 list \<Rightarrow> 'a shkernel_scheme \<Rightarrow> (nat \<times> 'a shkernel_scheme) option" where
  "shell_printk drv flt loc d fmt args s =
     do {
       (send_bytes, str, m) \<leftarrow> vsprintf flt fmt args (mem8 s);
       if length str > SHELL_PRINT_BUF_MAX then None
       else do {
         s \<leftarrow> SHELL_DEV_WRITE drv d loc (of_nat send_bytes) (s\<lparr>mem8 := store loc str m\<rparr>);
         Some (send_bytes, s)
       }
     }"

definition shell_help :: "'a shdriver \<Rightarrow> (os_u32 \<Rightarrow> os_u32 \<Rightarrow> int \<Rightarrow> int \<Rightarrow> os_u8 \<Rightarrow> os_u32 \<Rightarrow> os_u8 list) \<Rightarrow> addr \<Rightarrow> shell_cmd list \<Rightarrow>
    addr \<Rightarrow> 'a shkernel_scheme \<Rightarrow> 'a shkernel_scheme option" where
  "shell_help drv flt loc cmds d s =
     do {
       (n, s) \<leftarrow> shell_printk drv flt loc d [13, 10] [] s;
       s \<leftarrow> fold_option
         (\<lambda>c s. if unat (sh_priority (shells s d)) \<ge> unat (cmd_priority c)
                then do {
                  (n, s) \<leftarrow> shell_printk drv flt loc d [13, 10, 37, 45, 50, 48, 115, 32, 45, 45, 32, 37, 115]
                    [cmd_name c, cmd_desc c] s;
                  Some s
                }
                else Some s) cmds s;
       (n, s) \<leftarrow> shell_printk drv flt loc d [13, 10] [] s;
       Some s
     }"

section \<open>The invariant of a shell device\<close>

definition shell_ok :: "shell_dev \<Rightarrow> bool" where
  "shell_ok x \<longleftrightarrow>
     unat (head_point x) < SHELL_BUFFER_NUM_MAX \<and> unat (tail_point x) < SHELL_BUFFER_NUM_MAX \<and>
     unat (history_point x) < SHELL_BUFFER_NUM_MAX \<and> (\<forall>i. unat (sh_offset x i) \<le> SHELL_BUFFER_LENGTH_MAX - 2) \<and>
     recv_status x \<in> {0, KEYBOARD_EXPAND_HEAD, KEYBOARD_EXPAND_TYPE} \<and> unat (sh_priority x) < 5"

lemma point_inc_less: "unat (point_inc p) < SHELL_BUFFER_NUM_MAX"
  by (simp add: point_inc_def SHELL_BUFFER_NUM_MAX_def unat_mod)

lemma shell_ok_offset: "shell_ok x \<Longrightarrow> unat v \<le> SHELL_BUFFER_LENGTH_MAX - 2 \<Longrightarrow> shell_ok (set_offset v x)"
  by (simp add: shell_ok_def set_offset_def)

lemma shell_ok_points:
  assumes "shell_ok x"
  shows "shell_ok (SHELL_BUFFER_POINT_INC x)" "shell_ok (SHELL_BUFFER_CURRENT_POINT_INC x)"
    "shell_ok (SHELL_BUFFER_CURRENT_POINT_SUB x)" "shell_ok (SHELL_BUFFER_CLEAR_LAST x)"
proof -
  have sub: "unat (head_point x - 1) < SHELL_BUFFER_NUM_MAX" if "head_point x \<noteq> 0"
    using assms unat_minus_one [OF that] by (auto simp: shell_ok_def intro: less_imp_diff_less)
  show "shell_ok (SHELL_BUFFER_POINT_INC x)" "shell_ok (SHELL_BUFFER_CURRENT_POINT_INC x)"
    using assms point_inc_less by (auto simp: shell_ok_def SHELL_BUFFER_POINT_INC_def SHELL_BUFFER_CURRENT_POINT_INC_def Let_def)
  show "shell_ok (SHELL_BUFFER_CURRENT_POINT_SUB x)"
    using assms sub by (auto simp: shell_ok_def SHELL_BUFFER_CURRENT_POINT_SUB_def SHELL_BUFFER_NUM_MAX_def)
  show "shell_ok (SHELL_BUFFER_CLEAR_LAST x)" by (simp add: SHELL_BUFFER_CLEAR_LAST_def shell_ok_offset [OF assms])
qed

lemma shell_ok_status:
  "shell_ok x \<Longrightarrow> r \<in> {0, KEYBOARD_EXPAND_HEAD, KEYBOARD_EXPAND_TYPE} \<Longrightarrow> shell_ok (x\<lparr>recv_status := r\<rparr>)"
  by (simp add: shell_ok_def)

lemma shell_ok_keyboard: "shell_ok x \<Longrightarrow> shell_ok (snd (shell_recv_keybaord_expand ch x))"
  unfolding shell_recv_keybaord_expand_def Let_def by (simp add: shell_ok_status)

lemma unat_offset_inc:
  assumes "shell_ok x" and "\<not> SHELL_BUFFER_IS_FULL x"
  shows "unat (SHELL_BUFFER_OFFSET x + 1) = unat (SHELL_BUFFER_OFFSET x) + 1"
    and "unat (SHELL_BUFFER_OFFSET x + 1) \<le> SHELL_BUFFER_LENGTH_MAX - 2"
proof -
  have lt: "unat (SHELL_BUFFER_OFFSET x) < 62" using assms(2) by (simp add: SHELL_BUFFER_IS_FULL_def SHELL_BUFFER_LENGTH_MAX_def)
  then show u: "unat (SHELL_BUFFER_OFFSET x + 1) = unat (SHELL_BUFFER_OFFSET x) + 1" by (simp add: unat_word_ariths)
  show "unat (SHELL_BUFFER_OFFSET x + 1) \<le> SHELL_BUFFER_LENGTH_MAX - 2" using u lt by (simp add: SHELL_BUFFER_LENGTH_MAX_def)
qed

lemma unat_offset_dec:
  assumes "shell_ok x" and "\<not> SHELL_BUFFER_IS_EMPTY x"
  shows "unat (SHELL_BUFFER_OFFSET x - 1) = unat (SHELL_BUFFER_OFFSET x) - 1"
    and "unat (SHELL_BUFFER_OFFSET x - 1) \<le> SHELL_BUFFER_LENGTH_MAX - 2"
proof -
  show u: "unat (SHELL_BUFFER_OFFSET x - 1) = unat (SHELL_BUFFER_OFFSET x) - 1"
    using assms(2) by (simp add: SHELL_BUFFER_IS_EMPTY_def unat_minus_one)
  have "unat (SHELL_BUFFER_OFFSET x) \<le> 62" using assms(1) by (simp add: shell_ok_def SHELL_BUFFER_OFFSET_def SHELL_BUFFER_LENGTH_MAX_def)
  then show "unat (SHELL_BUFFER_OFFSET x - 1) \<le> SHELL_BUFFER_LENGTH_MAX - 2" unfolding u by (simp add: SHELL_BUFFER_LENGTH_MAX_def)
qed

section \<open>What a round may touch\<close>

text \<open>The memory of the rows and of the local variables.\<close>

definition shell_area :: "addr \<Rightarrow> addr \<Rightarrow> addr set" where
  "shell_area loc d = span loc 3 \<union> span d 528"

definition same_outside :: "addr set \<Rightarrow> bytes \<Rightarrow> bytes \<Rightarrow> bool" where
  "same_outside A m m' \<longleftrightarrow> (\<forall>x. x \<notin> A \<longrightarrow> m' x = m x)"

lemma same_outside_trans: "same_outside A m m' \<Longrightarrow> same_outside A m' m'' \<Longrightarrow> same_outside A m m''"
  by (simp add: same_outside_def)

lemma same_outside_cstr:
  "same_outside A m m' \<Longrightarrow> cstr m a xs \<Longrightarrow> span a (Suc (length xs)) \<inter> A = {} \<Longrightarrow> cstr m' a xs"
  by (erule cstr_keep) (auto simp: same_outside_def)

text \<open>A driver whose write function returns and leaves memory and shell devices alone.\<close>

definition still :: "'a shdriver \<Rightarrow> bool" where
  "still drv \<longleftrightarrow>
     (\<forall>f ops b n s. \<exists>r s'. drv f ops (Write_call b n) s = Some (r, s') \<and> shells s' = shells s \<and> mem8 s' = mem8 s)"

lemma write_still:
  assumes "still drv"
  obtains s' where "SHELL_DEV_WRITE drv d b n s = Some s'" "shells s' = shells s" "mem8 s' = mem8 s"
proof -
  let ?ops = "stdobj_ops s (word_of_int (sh_file (shells s d)))"
  obtain r s' where "drv (ops_write (ops_at s ?ops)) ?ops (Write_call b n) s = Some (r, s')" "shells s' = shells s" "mem8 s' = mem8 s"
    using assms unfolding still_def by blast
  then show thesis
    by (cases "sh_file (shells s d) \<le> 0 \<or> ops_write (ops_at s ?ops) = NULL")
      (auto simp: SHELL_DEV_WRITE_def write_fd_def Let_def intro: that)
qed

lemma write_local_still:
  assumes "still drv" and "length bs \<le> 3"
  obtains s' where "shell_write_local drv loc d bs s = Some s'" "shells s' = shells s" "mem8 s' = store loc bs (mem8 s)"
    "same_outside (shell_area loc d) (mem8 s) (mem8 s')"
proof -
  obtain s' where w: "SHELL_DEV_WRITE drv d loc (of_nat (length bs)) (s\<lparr>mem8 := store loc bs (mem8 s)\<rparr>) = Some s'"
    "shells s' = shells s" "mem8 s' = store loc bs (mem8 s)"
    by (rule write_still [OF assms(1), of d loc "of_nat (length bs)" "s\<lparr>mem8 := store loc bs (mem8 s)\<rparr>"]) simp
  have "store loc bs (mem8 s) x = mem8 s x" if "x \<notin> span loc 3" for x
    by (rule store_other) (use that assms(2) in \<open>auto simp: span_def\<close>)
  then have "same_outside (shell_area loc d) (mem8 s) (mem8 s')" by (simp add: same_outside_def shell_area_def w(3))
  then show thesis by (rule that [OF _ w(2,3), rotated]) (simp add: shell_write_local_def w(1))
qed

lemma row_in_area:
  assumes "i < 8" and "n \<le> 66"
  shows "span (sh_row d i) n \<subseteq> span d 528"
proof -
  obtain r where r: "8 = i + Suc r" using assms(1) less_iff_Suc_add by auto
  then have "528 = 66 * i + (66 + 66 * r)" by simp
  then have "span d 528 = span d (66 * i) \<union> (span (sh_row d i) 66 \<union> span (d + of_nat (66 * i) + of_nat 66) (66 * r))"
    by (simp only: span_add sh_row_def)
  then show ?thesis using span_mono [OF assms(2), of "sh_row d i"] by blast
qed

section \<open>The line editor\<close>

definition sh_line :: "addr \<Rightarrow> 'a shkernel_scheme \<Rightarrow> os_u8 list" where
  "sh_line d s = bytes_at (mem8 s) (SHELL_BUFFER d (shells s d)) (unat (SHELL_BUFFER_OFFSET (shells s d)))"

lemma set_offset_simps [simp]:
  "head_point (set_offset v x) = head_point x" "recv_status (set_offset v x) = recv_status x"
  "SHELL_BUFFER d (set_offset v x) = SHELL_BUFFER d x" "SHELL_BUFFER_OFFSET (set_offset v x) = v"
  "sh_priority (set_offset v x) = sh_priority x" "sh_file (set_offset v x) = sh_file x" "sh_ack (set_offset v x) = sh_ack x"
  by (simp_all add: set_offset_def SHELL_BUFFER_def SHELL_BUFFER_OFFSET_def sh_cur_def)

lemma length_line [simp]: "length (sh_line d s) = unat (SHELL_BUFFER_OFFSET (shells s d))"
  by (simp add: sh_line_def bytes_at_def)

lemma full_iff: "SHELL_BUFFER_IS_FULL (shells s d) \<longleftrightarrow> \<not> length (sh_line d s) < 62"
  by (auto simp: SHELL_BUFFER_IS_FULL_def SHELL_BUFFER_LENGTH_MAX_def)

lemma bytes_at_snoc:
  assumes "n < 2 ^ 32"
  shows "bytes_at (m(a + of_nat n := ch)) a (Suc n) = bytes_at m a n @ [ch]"
proof -
  have "a + of_nat i \<noteq> a + of_nat n" if "i < n" for i
  proof
    assume "a + of_nat i = a + of_nat n"
    then have "(of_nat i :: addr) = of_nat n" by simp
    then have "unat (of_nat i :: addr) = unat (of_nat n :: addr)" by simp
    then show False using that assms by (simp add: unat_of_nat)
  qed
  then show ?thesis by (simp add: bytes_at_def)
qed

lemma insert_line:
  fixes ch :: os_u8
  assumes ok: "shell_ok (shells s d)" and nf: "\<not> SHELL_BUFFER_IS_FULL (shells s d)"
  defines "s1 \<equiv> SHELL_BUFFER_INSERT_CH d ch s"
  shows "shells s1 = (shells s)(d := set_offset (SHELL_BUFFER_OFFSET (shells s d) + 1) (shells s d))" and "shell_ok (shells s1 d)"
    and "sh_line d s1 = sh_line d s @ [ch]" and "same_outside (span d 528) (mem8 s) (mem8 s1)"
proof -
  let ?x = "shells s d"
  let ?o = "SHELL_BUFFER_OFFSET ?x"
  note u = unat_offset_inc [OF ok nf]
  have p: "SHELL_BUFFER d ?x + ucast ?o = SHELL_BUFFER d ?x + of_nat (unat ?o)" by simp
  have m1: "mem8 s1 = (mem8 s)(SHELL_BUFFER d ?x + of_nat (unat ?o) := ch)"
    unfolding s1_def SHELL_BUFFER_INSERT_CH_def Let_def p by (simp add: upd_shell_def)
  show x1: "shells s1 = (shells s)(d := set_offset (?o + 1) ?x)" by (simp add: s1_def SHELL_BUFFER_INSERT_CH_def Let_def upd_shell_def)
  show "shell_ok (shells s1 d)" using shell_ok_offset [OF ok u(2)] by (simp add: x1)
  have lt: "unat ?o < 66" using nf by (simp add: SHELL_BUFFER_IS_FULL_def SHELL_BUFFER_LENGTH_MAX_def)
  then have "bytes_at (mem8 s1) (SHELL_BUFFER d ?x) (Suc (unat ?o)) = sh_line d s @ [ch]"
    unfolding m1 sh_line_def by (intro bytes_at_snoc) simp
  then show "sh_line d s1 = sh_line d s @ [ch]" unfolding sh_line_def [of d s1] by (simp add: x1 u(1))
  have "SHELL_BUFFER d ?x + of_nat (unat ?o) \<in> span (sh_row d (sh_cur ?x)) 66"
    unfolding span_def SHELL_BUFFER_def using lt by (intro imageI) simp
  then have "SHELL_BUFFER d ?x + of_nat (unat ?o) \<in> span d 528"
    using row_in_area [of "sh_cur ?x" 66 d] ok by (auto simp: shell_ok_def sh_cur_def SHELL_BUFFER_NUM_MAX_def)
  then show "same_outside (span d 528) (mem8 s) (mem8 s1)" unfolding same_outside_def m1 by auto
qed

text \<open>Echoing does not change the line.\<close>

lemma line_after_local:
  assumes "shells s' = shells s" and "mem8 s' = store loc bs (mem8 s)" and "length bs \<le> 3" and "span loc 3 \<inter> span d 528 = {}"
    and "shell_ok (shells s d)"
  shows "sh_line d s' = sh_line d s"
proof -
  let ?x = "shells s d"
  have "unat (SHELL_BUFFER_OFFSET ?x) \<le> 66" "sh_cur ?x < 8"
    using assms(5) by (auto simp: shell_ok_def SHELL_BUFFER_OFFSET_def SHELL_BUFFER_LENGTH_MAX_def sh_cur_def SHELL_BUFFER_NUM_MAX_def
        intro: order_trans)
  then have row: "span (SHELL_BUFFER d ?x) (unat (SHELL_BUFFER_OFFSET ?x)) \<subseteq> span d 528"
    unfolding SHELL_BUFFER_def by (intro row_in_area)
  have "store loc bs (mem8 s) y = mem8 s y" if "y \<in> span (SHELL_BUFFER d ?x) (unat (SHELL_BUFFER_OFFSET ?x))" for y
  proof (rule store_other)
    fix i assume "i < length bs"
    then have "loc + of_nat i \<in> span loc 3" using assms(3) by (auto simp: span_def)
    then show "y \<noteq> loc + of_nat i" using row that assms(4) by blast
  qed
  then show ?thesis unfolding sh_line_def assms(1,2) by (rule bytes_at_cong)
qed

lemma echo:
  assumes "still drv" and "length bs \<le> 3" and "span loc 3 \<inter> span d 528 = {}" and "shell_ok (shells s d)"
  shows "\<exists>s'. (if SHELL_DEV_NEED_ACK (shells s d) then shell_write_local drv loc d bs s else Some s) = Some s' \<and>
     shells s' = shells s \<and> sh_line d s' = sh_line d s \<and> same_outside (shell_area loc d) (mem8 s) (mem8 s')"
proof (cases "SHELL_DEV_NEED_ACK (shells s d)")
  case True
  obtain s' where "shell_write_local drv loc d bs s = Some s'" "shells s' = shells s" "mem8 s' = store loc bs (mem8 s)"
    "same_outside (shell_area loc d) (mem8 s) (mem8 s')"
    using write_local_still [OF assms(1,2)] by blast
  then show ?thesis using True line_after_local [OF _ _ assms(2-4)] by auto
qed (simp add: same_outside_def)

lemma text_step:
  assumes st: "still drv" and ok: "shell_ok (shells s d)" and dis: "span loc 3 \<inter> span d 528 = {}"
  shows "\<exists>s'. shell_text drv loc d ch s = Some s' \<and> shell_ok (shells s' d) \<and> recv_status (shells s' d) = recv_status (shells s d) \<and>
     sh_line d s' = (if length (sh_line d s) < 62 then sh_line d s @ [ch] else sh_line d s) \<and>
     same_outside (shell_area loc d) (mem8 s) (mem8 s')"
proof (cases "SHELL_BUFFER_IS_FULL (shells s d)")
  case True
  then show ?thesis using ok full_iff [of s d] by (simp add: shell_text_def same_outside_def)
next
  case False
  let ?s1 = "SHELL_BUFFER_INSERT_CH d ch s"
  note i = insert_line [OF ok False, of ch]
  obtain s' where e: "(if SHELL_DEV_NEED_ACK (shells ?s1 d) then shell_write_local drv loc d [ch] ?s1 else Some ?s1) = Some s'"
    "shells s' = shells ?s1" "sh_line d s' = sh_line d ?s1" "same_outside (shell_area loc d) (mem8 ?s1) (mem8 s')"
    using echo [OF st _ dis i(2), of "[ch]"] by auto
  have "same_outside (shell_area loc d) (mem8 s) (mem8 ?s1)" using i(4) by (auto simp: same_outside_def shell_area_def)
  then have "same_outside (shell_area loc d) (mem8 s) (mem8 s')" using e(4) by (rule same_outside_trans)
  then show ?thesis using False full_iff [of s d] e i(1-3) by (simp add: shell_text_def Let_def)
qed

lemma bytes_at_butlast: "bytes_at m a (n - 1) = butlast (bytes_at m a n)"
  by (cases n) (simp_all add: bytes_at_def)

lemma back_step:
  assumes st: "still drv" and ok: "shell_ok (shells s d)" and dis: "span loc 3 \<inter> span d 528 = {}"
  shows "\<exists>s'. shell_backspace drv loc d s = Some s' \<and> shell_ok (shells s' d) \<and> recv_status (shells s' d) = recv_status (shells s d) \<and>
     sh_line d s' = butlast (sh_line d s) \<and> same_outside (shell_area loc d) (mem8 s) (mem8 s')"
proof (cases "SHELL_BUFFER_IS_EMPTY (shells s d)")
  case True
  then have "sh_line d s = []" by (simp add: sh_line_def bytes_at_def SHELL_BUFFER_IS_EMPTY_def)
  then show ?thesis using ok True by (simp add: shell_backspace_def same_outside_def)
next
  case False
  let ?s1 = "upd_shell d SHELL_BUFFER_DELETE_CH s"
  note u = unat_offset_dec [OF ok False]
  have x1: "shells ?s1 d = set_offset (SHELL_BUFFER_OFFSET (shells s d) - 1) (shells s d)" "mem8 ?s1 = mem8 s"
    by (simp_all add: upd_shell_def SHELL_BUFFER_DELETE_CH_def)
  have ok1: "shell_ok (shells ?s1 d)" using shell_ok_offset [OF ok u(2)] by (simp add: x1)
  obtain s' where e: "(if SHELL_DEV_NEED_ACK (shells ?s1 d) then shell_write_local drv loc d [8, 32, 8] ?s1 else Some ?s1) = Some s'"
    "shells s' = shells ?s1" "sh_line d s' = sh_line d ?s1" "same_outside (shell_area loc d) (mem8 s) (mem8 s')"
    using echo [OF st _ dis ok1, of "[8, 32, 8]"] by (auto simp: x1(2))
  have "sh_line d ?s1 = butlast (sh_line d s)" unfolding sh_line_def x1 set_offset_simps u(1) by (rule bytes_at_butlast)
  then show ?thesis using False e x1(1) ok1 by (simp add: shell_backspace_def Let_def)
qed

text \<open>What a key does to the line: at most 62 characters, backspace drops the last one.\<close>

definition edit :: "os_u8 \<Rightarrow> os_u8 list \<Rightarrow> os_u8 list" where
  "edit ch l =
     (if ch_classify ch = CH_IS_TEXT then if length l < 62 then l @ [ch] else l
      else if ch_classify ch = CH_IS_BACKSPACE then butlast l
      else l)"

lemma key_step:
  assumes st: "still drv" and ok: "shell_ok (shells s d)" and dis: "span loc 3 \<inter> span d 528 = {}"
    and rs: "recv_status (shells s d) = 0" and ch: "ch \<noteq> KEYBOARD_EXPAND_HEAD" "ch_classify ch \<noteq> CH_IS_ENTER"
  shows "\<exists>s'. shell_input drv call cmds loc usr_log d ch s = Some s' \<and> shell_ok (shells s' d) \<and> recv_status (shells s' d) = 0 \<and>
     sh_line d s' = edit ch (sh_line d s)"
proof -
  have "upd_shell d (\<lambda>_. shells s d) s = s" by (simp add: upd_shell_def)
  then have i: "shell_input drv call cmds loc usr_log d ch s =
      (if ch_classify ch = CH_IS_TEXT then shell_text drv loc d ch s
       else if ch_classify ch = CH_IS_BACKSPACE then shell_backspace drv loc d s else Some s)"
    using rs ch by (auto simp: shell_input_def shell_recv_keybaord_expand_def INPUT_IS_NOMAL_def INPUT_IS_DIRECTION_def
        ch_classify_def CH_IS_TEXT_def CH_IS_BACKSPACE_def CH_IS_ENTER_def)
  show ?thesis
    using text_step [OF st ok dis, of ch] back_step [OF st ok dis] ok rs unfolding i edit_def by auto
qed

lemma keys_run:
  assumes "still drv" and "span loc 3 \<inter> span d 528 = {}"
  shows "shell_ok (shells s d) \<Longrightarrow> recv_status (shells s d) = 0 \<Longrightarrow>
     \<forall>ch\<in>set chs. ch \<noteq> KEYBOARD_EXPAND_HEAD \<and> ch_classify ch \<noteq> CH_IS_ENTER \<Longrightarrow>
     \<exists>s'. fold_option (shell_input drv call cmds loc usr_log d) chs s = Some s' \<and> shell_ok (shells s' d) \<and>
       sh_line d s' = fold edit chs (sh_line d s)"
proof (induction chs arbitrary: s)
  case (Cons ch chs)
  have "ch \<noteq> KEYBOARD_EXPAND_HEAD" "ch_classify ch \<noteq> CH_IS_ENTER" using Cons.prems(3) by auto
  from key_step [OF assms(1) Cons.prems(1) assms(2) Cons.prems(2) this]
  obtain s1 where "shell_input drv call cmds loc usr_log d ch s = Some s1" "shell_ok (shells s1 d)" "recv_status (shells s1 d) = 0"
    "sh_line d s1 = edit ch (sh_line d s)"
    by blast
  then show ?case using Cons.IH [of s1] Cons.prems(3) by simp
qed simp

section \<open>Finding a command\<close>

lemma search_0_iff: "search ys xs = Some 0 \<longleftrightarrow> take (length ys) xs = ys"
  by (cases xs) auto

lemma cmd_loop_eq:
  assumes buf: "cstr m buf xs" "length xs < 64" "buf \<noteq> 0"
  shows "(\<And>c. c \<in> set cs \<Longrightarrow> cstr m (cmd_name c) (nm c) \<and> nm c \<noteq> [] \<and> length (nm c) < 2 ^ 31) \<Longrightarrow>
     shell_cmd_loop m buf cs = Some (find (\<lambda>c. take (length (nm c)) xs = nm c) cs)"
proof (induction cs)
  case (Cons c cs)
  have c: "cstr m (cmd_name c) (nm c)" "nm c \<noteq> []" "length (nm c) < 2 ^ 31" using Cons.prems [of c] by auto
  have lt: "length xs < 2 ^ 31" using buf(2) by simp
  have ne: "buf + of_nat i \<noteq> buf" if "i \<le> length xs" "i \<noteq> 0" for i
    using of_nat_addr_neq_0 [of i] that buf(2) by simp
  have "strstr m buf (cmd_name c) = Some (case search (nm c) xs of None \<Rightarrow> 0 | Some i \<Rightarrow> buf + of_nat i)"
    by (rule strstr_eq [OF buf(1) c(1,2) lt c(3)])
  moreover have "(case search (nm c) xs of None \<Rightarrow> 0 | Some i \<Rightarrow> buf + of_nat i) = buf \<longleftrightarrow> take (length (nm c)) xs = nm c"
  proof (cases "search (nm c) xs")
    case None
    then show ?thesis using buf(3) search_0_iff [of "nm c" xs] by auto
  next
    case (Some i)
    then show ?thesis using ne [of i] search_less [OF Some] search_0_iff [of "nm c" xs] by (cases "i = 0") auto
  qed
  ultimately show ?case using Cons by simp
qed simp

lemma text_nonzero: "ch_classify ch = CH_IS_TEXT \<Longrightarrow> ch \<noteq> 0"
  by (auto simp: ch_classify_def CH_IS_TEXT_def CH_IS_BACKSPACE_def CH_IS_ENTER_def)

text \<open>The string in a row after the terminating zero has been inserted.\<close>

lemma bytes_block: "block m a (bytes_at m a n)"
  by (simp add: block_nth bytes_at_def)

lemma inserted_cstr:
  assumes "shell_ok (shells s d)" and "\<not> SHELL_BUFFER_IS_FULL (shells s d)" and "0 \<notin> set (sh_line d s)"
  shows "cstr (mem8 (SHELL_BUFFER_INSERT_CH d 0 s)) (SHELL_BUFFER d (shells s d)) (sh_line d s)"
proof -
  let ?s1 = "SHELL_BUFFER_INSERT_CH d 0 s"
  note i = insert_line [OF assms(1,2), of 0]
  have "block (mem8 ?s1) (SHELL_BUFFER d (shells ?s1 d)) (sh_line d ?s1)" unfolding sh_line_def by (rule bytes_block)
  moreover have "SHELL_BUFFER d (shells ?s1 d) = SHELL_BUFFER d (shells s d)" by (simp add: i(1))
  ultimately show ?thesis using assms(3) by (simp add: cstr_block i(3))
qed

section \<open>Every character\<close>

text \<open>
  The invariant of a running shell: the device is well formed, and the prompts (\<open>pr\<close>) and the names of the commands (\<open>nm\<close>) are in memory. The
  surroundings that keep it: a driver whose write returns, strings outside of the memory the shell writes, commands that return and keep the invariant.
\<close>

definition sh_inv :: "(nat \<Rightarrow> os_u8 list) \<Rightarrow> (shell_cmd \<Rightarrow> os_u8 list) \<Rightarrow> shell_cmd list \<Rightarrow> (nat \<Rightarrow> addr) \<Rightarrow> addr \<Rightarrow>
    'a shkernel_scheme \<Rightarrow> bool" where
  "sh_inv pr nm cmds usr_log d s \<longleftrightarrow>
     shell_ok (shells s d) \<and> (\<forall>i<5. cstr (mem8 s) (usr_log i) (pr i)) \<and> (\<forall>c\<in>set cmds. cstr (mem8 s) (cmd_name c) (nm c))"

definition strings_apart :: "(nat \<Rightarrow> os_u8 list) \<Rightarrow> (shell_cmd \<Rightarrow> os_u8 list) \<Rightarrow> shell_cmd list \<Rightarrow> (nat \<Rightarrow> addr) \<Rightarrow> addr \<Rightarrow> addr \<Rightarrow> bool" where
  "strings_apart pr nm cmds usr_log loc d \<longleftrightarrow>
     span loc 3 \<inter> span d 528 = {} \<and> (\<forall>i<8. sh_row d i \<noteq> 0) \<and>
     (\<forall>i<5. span (usr_log i) (Suc (length (pr i))) \<inter> shell_area loc d = {}) \<and>
     (\<forall>c\<in>set cmds. nm c \<noteq> [] \<and> length (nm c) < 2 ^ 31 \<and> span (cmd_name c) (Suc (length (nm c))) \<inter> shell_area loc d = {})"

definition good_commands :: "(nat \<Rightarrow> os_u8 list) \<Rightarrow> (shell_cmd \<Rightarrow> os_u8 list) \<Rightarrow> shell_cmd list \<Rightarrow> (nat \<Rightarrow> addr) \<Rightarrow> addr \<Rightarrow>
    (addr \<Rightarrow> addr \<Rightarrow> 'a shkernel_scheme \<Rightarrow> 'a shkernel_scheme option) \<Rightarrow> bool" where
  "good_commands pr nm cmds usr_log d call \<longleftrightarrow>
     (\<forall>f s. sh_inv pr nm cmds usr_log d s \<longrightarrow> (\<exists>s'. call f d s = Some s' \<and> sh_inv pr nm cmds usr_log d s'))"

lemma sh_inv_keep:
  assumes "sh_inv pr nm cmds usr_log d s" and "strings_apart pr nm cmds usr_log loc d"
    and "same_outside (shell_area loc d) (mem8 s) (mem8 s')" and "shell_ok (shells s' d)"
  shows "sh_inv pr nm cmds usr_log d s'"
  using assms same_outside_cstr [OF assms(3)] by (simp add: sh_inv_def strings_apart_def)

lemma prompt_step:
  assumes "still drv" and inv: "sh_inv pr nm cmds usr_log d s"
  shows "\<exists>s'. shell_prompt drv usr_log d s = Some s' \<and> shells s' = shells s \<and> mem8 s' = mem8 s"
proof -
  let ?p = "unat (sh_priority (shells s d))"
  have p: "?p < 5" "cstr (mem8 s) (usr_log ?p) (pr ?p)" using inv by (auto simp: sh_inv_def shell_ok_def)
  obtain s' where "SHELL_DEV_WRITE drv d (usr_log ?p) (of_nat (length (pr ?p))) s = Some s'" "shells s' = shells s" "mem8 s' = mem8 s"
    by (rule write_still [OF assms(1)])
  then show ?thesis using p by (simp add: shell_prompt_def strlen_cstr Let_def)
qed

lemma cstr_exists: "m (a + of_nat n) = 0 \<Longrightarrow> \<exists>xs. length xs \<le> n \<and> cstr m a xs"
proof (induction n arbitrary: a)
  case 0
  then show ?case by (intro exI [of _ "[]"]) simp
next
  case (Suc n)
  show ?case
  proof (cases "m a = 0")
    case True
    then show ?thesis by (intro exI [of _ "[]"]) simp
  next
    case False
    have "m (a + 1 + of_nat n) = 0" using Suc.prems by (simp add: add.assoc)
    from Suc.IH [OF this] obtain xs where "length xs \<le> n" "cstr m (a + 1) xs" by blast
    then show ?thesis using False by (intro exI [of _ "m a # xs"]) simp
  qed
qed

lemma run_step:
  assumes inv: "sh_inv pr nm cmds usr_log d s" and ap: "strings_apart pr nm cmds usr_log loc d"
    and good: "good_commands pr nm cmds usr_log d call"
    and z: "mem8 s (SHELL_BUFFER d (shells s d) + of_nat n) = 0" "n < 64"
  shows "\<exists>s'. shell_run call cmds d s = Some s' \<and> sh_inv pr nm cmds usr_log d s'"
proof -
  obtain xs where xs: "length xs \<le> n" "cstr (mem8 s) (SHELL_BUFFER d (shells s d)) xs" 
    using cstr_exists [where m = "mem8 s", OF z(1)] by blast
  have "sh_cur (shells s d) < 8" using inv by (simp add: sh_inv_def shell_ok_def sh_cur_def SHELL_BUFFER_NUM_MAX_def)
  then have nz: "SHELL_BUFFER d (shells s d) \<noteq> 0" using ap by (simp add: strings_apart_def SHELL_BUFFER_def)
  have f: "shell_cmd_find cmds d s = Some (find (\<lambda>c. take (length (nm c)) xs = nm c) cmds)"
    unfolding shell_cmd_find_def by (rule cmd_loop_eq [OF xs(2) _ nz])
      (use inv ap xs(1) z(2) in \<open>auto simp: sh_inv_def strings_apart_def\<close>)
  show ?thesis
    using good inv by (auto simp: shell_run_def f good_commands_def split: option.split)
qed

lemma enter_step:
  assumes st: "still drv" and inv: "sh_inv pr nm cmds usr_log d s" and ap: "strings_apart pr nm cmds usr_log loc d"
    and good: "good_commands pr nm cmds usr_log d call"
  shows "\<exists>s'. shell_enter drv call cmds loc usr_log d s = Some s' \<and> sh_inv pr nm cmds usr_log d s'"
proof (cases "SHELL_BUFFER_IS_FULL (shells s d)")
  case True
  then show ?thesis using inv by (simp add: shell_enter_def)
next
  case False
  have ok: "shell_ok (shells s d)" using inv by (simp add: sh_inv_def)
  let ?s1 = "SHELL_BUFFER_INSERT_CH d 0 s" and ?n = "unat (SHELL_BUFFER_OFFSET (shells s d))"
  note i = insert_line [OF ok False, of 0]
  have "same_outside (shell_area loc d) (mem8 s) (mem8 ?s1)" using i(4) by (auto simp: same_outside_def shell_area_def)
  then have inv1: "sh_inv pr nm cmds usr_log d ?s1" by (rule sh_inv_keep [OF inv ap _ i(2)])
  have "mem8 ?s1 (SHELL_BUFFER d (shells ?s1 d) + of_nat ?n) = 0"
    unfolding i(1) by (simp add: SHELL_BUFFER_INSERT_CH_def Let_def upd_shell_def)
  moreover have "?n < 64" using False by (simp add: SHELL_BUFFER_IS_FULL_def SHELL_BUFFER_LENGTH_MAX_def)
  ultimately obtain s2 where s2: "shell_run call cmds d ?s1 = Some s2" "sh_inv pr nm cmds usr_log d s2"
    using run_step [OF inv1 ap good] by blast
  obtain s3 where s3: "shell_write_local drv loc d [13, 10, 0] s2 = Some s3" "shells s3 = shells s2"
    "same_outside (shell_area loc d) (mem8 s2) (mem8 s3)"
    by (rule write_local_still [OF st, of "[13, 10, 0]" loc d s2]) simp_all
  have "shell_ok (shells s3 d)" using s2(2) s3(2) by (simp add: sh_inv_def)
  then have inv3: "sh_inv pr nm cmds usr_log d s3" by (rule sh_inv_keep [OF s2(2) ap s3(3)])
  obtain s4 where s4: "shell_prompt drv usr_log d s3 = Some s4" "shells s4 = shells s3" "mem8 s4 = mem8 s3"
    using prompt_step [OF st inv3] by blast
  have ok4: "shell_ok (shells s4 d)" using inv3 s4(2) by (simp add: sh_inv_def)
  let ?s5 = "upd_shell d SHELL_BUFFER_CLEAR_LAST (upd_shell d SHELL_BUFFER_POINT_INC s4)"
  have "shell_ok (shells ?s5 d)" using shell_ok_points(4) [OF shell_ok_points(1) [OF ok4]] by (simp add: upd_shell_def)
  moreover have "same_outside (shell_area loc d) (mem8 s3) (mem8 ?s5)" by (simp add: same_outside_def upd_shell_def s4(3))
  ultimately have "sh_inv pr nm cmds usr_log d ?s5" by (intro sh_inv_keep [OF inv3 ap])
  moreover have "shell_enter drv call cmds loc usr_log d s = Some ?s5" using False by (simp add: shell_enter_def s2(1) s3(1) s4(1))
  ultimately show ?thesis by blast
qed

lemma direction_step:
  assumes st: "still drv" and inv: "sh_inv pr nm cmds usr_log d s" and ap: "strings_apart pr nm cmds usr_log loc d"
  shows "\<exists>s'. shell_direction drv loc usr_log d ch s = Some s' \<and> sh_inv pr nm cmds usr_log d s'"
proof -
  have ok: "shell_ok (shells s d)" using inv by (simp add: sh_inv_def)
  have pr: "\<exists>s'. (do { s \<leftarrow> shell_write_local drv loc d [13, 0] s1; s \<leftarrow> shell_prompt drv usr_log d s; SHELL_BUFFER_PRINT drv d s }) = Some s' \<and>
      sh_inv pr nm cmds usr_log d s'" if i1: "sh_inv pr nm cmds usr_log d s1" for s1
  proof -
    obtain s2 where s2: "shell_write_local drv loc d [13, 0] s1 = Some s2" "shells s2 = shells s1"
      "same_outside (shell_area loc d) (mem8 s1) (mem8 s2)"
      by (rule write_local_still [OF st, of "[13, 0]" loc d s1]) simp_all
    have "shell_ok (shells s2 d)" using i1 s2(2) by (simp add: sh_inv_def)
    then have i2: "sh_inv pr nm cmds usr_log d s2" by (rule sh_inv_keep [OF i1 ap s2(3)])
    obtain s3 where s3: "shell_prompt drv usr_log d s2 = Some s3" "shells s3 = shells s2" "mem8 s3 = mem8 s2"
      using prompt_step [OF st i2] by blast
    obtain s4 where "SHELL_BUFFER_PRINT drv d s3 = Some s4" "shells s4 = shells s3" "mem8 s4 = mem8 s3"
      unfolding SHELL_BUFFER_PRINT_def by (rule write_still [OF st])
    then show ?thesis using s2(1) s3 i2 by (simp add: sh_inv_def)
  qed
  have "sh_inv pr nm cmds usr_log d (upd_shell d SHELL_BUFFER_CURRENT_POINT_SUB s)"
    "sh_inv pr nm cmds usr_log d (upd_shell d SHELL_BUFFER_CURRENT_POINT_INC s)"
    using inv shell_ok_points(2,3) [OF ok] by (simp_all add: sh_inv_def upd_shell_def)
  then show ?thesis using pr inv unfolding shell_direction_def by (auto simp: Let_def)
qed

lemma input_step:
  assumes st: "still drv" and inv: "sh_inv pr nm cmds usr_log d s" and ap: "strings_apart pr nm cmds usr_log loc d"
    and good: "good_commands pr nm cmds usr_log d call"
  shows "\<exists>s'. shell_input drv call cmds loc usr_log d ch s = Some s' \<and> sh_inv pr nm cmds usr_log d s'"
proof -
  obtain t x where k: "shell_recv_keybaord_expand ch (shells s d) = (t, x)" by fastforce
  let ?s1 = "upd_shell d (\<lambda>_. x) s"
  have ok: "shell_ok x" using shell_ok_keyboard [of "shells s d" ch] inv by (simp add: sh_inv_def k)
  then have inv1: "sh_inv pr nm cmds usr_log d ?s1" and ok1: "shell_ok (shells ?s1 d)" using inv by (simp_all add: sh_inv_def upd_shell_def)
  have dis: "span loc 3 \<inter> span d 528 = {}" using ap by (simp add: strings_apart_def)
  have "\<exists>s'. shell_text drv loc d ch ?s1 = Some s' \<and> sh_inv pr nm cmds usr_log d s'"
    using text_step [OF st ok1 dis, of ch] sh_inv_keep [OF inv1 ap] by blast
  moreover have "\<exists>s'. shell_backspace drv loc d ?s1 = Some s' \<and> sh_inv pr nm cmds usr_log d s'"
    using back_step [OF st ok1 dis] sh_inv_keep [OF inv1 ap] by blast
  ultimately show ?thesis
    using enter_step [OF st inv1 ap good] direction_step [OF st inv1 ap, of ch] inv1
    unfolding shell_input_def k prod.case Let_def by simp
qed

section \<open>Properties\<close>

text \<open>
  C24. The shell never gets stuck and never leaves its buffers: for every character and from every state of the invariant, the loop body returns and the
  invariant holds again: the row indices stay below 8, every row offset at most 62 of 64, the escape-sequence state is one of its three values, and memory outside of the
  rows and the local buffer is only changed by the commands it calls.
\<close>
theorem shell_input_safe:
  assumes "still drv" and "strings_apart pr nm cmds usr_log loc d" and "good_commands pr nm cmds usr_log d call"
    and "sh_inv pr nm cmds usr_log d s"
  shows "\<exists>s'. shell_input drv call cmds loc usr_log d ch s = Some s' \<and> sh_inv pr nm cmds usr_log d s' \<and>
     unat (SHELL_BUFFER_OFFSET (shells s' d)) \<le> 62 \<and> sh_cur (shells s' d) < 8"
  using input_step [OF assms(1,4,2,3), of ch]
  by (auto simp: sh_inv_def shell_ok_def SHELL_BUFFER_OFFSET_def SHELL_BUFFER_LENGTH_MAX_def sh_cur_def SHELL_BUFFER_NUM_MAX_def)

text \<open>The system with a shell device at 0x7000 whose commands do nothing.\<close>

definition demo_shell :: shell_dev where
  "demo_shell = \<lparr>sh_offset = (\<lambda>_. 0), tail_point = 0, head_point = 7, history_point = 7, sh_priority = 1, recv_status = 0,
     sh_ack = 1, sh_file = 5\<rparr>"

definition demo_cmds :: "shell_cmd list" where
  "demo_cmds = [\<lparr>cmd_name = 0x3000, cmd_desc = 0, cmd_func = 0x90, cmd_priority = 1\<rparr>]"

definition shell_kernel :: shkernel where
  "shell_kernel = mqkernel.extend mq_kernel \<lparr>shells = (\<lambda>_. demo_shell)\<rparr>"

definition demo_prompts :: "nat \<Rightarrow> addr" where
  "demo_prompts i = 0x3200"

definition demo_drv :: "addr \<Rightarrow> addr \<Rightarrow> devcall \<Rightarrow> shkernel \<Rightarrow> (int \<times> shkernel) option" where
  "demo_drv f ops c s = Some (1, s)"

definition demo_call :: "addr \<Rightarrow> addr \<Rightarrow> shkernel \<Rightarrow> shkernel option" where
  "demo_call f d s = Some (s\<lparr>local_time := 5\<rparr>)"

lemma shell_kernel_facts: "shells shell_kernel = (\<lambda>_. demo_shell)" "mem8 shell_kernel = demo_strings"
  by (simp_all add: shell_kernel_def mqkernel.extend_def mq_kernel_facts)

abbreviation demo_inv :: "shkernel \<Rightarrow> bool" where
  "demo_inv \<equiv> sh_inv (\<lambda>_. stdobj_prefix 0) (\<lambda>_. [117, 97, 114, 116]) demo_cmds demo_prompts 0x7000"

lemma demo_shell_env:
  "still demo_drv" "strings_apart (\<lambda>_. stdobj_prefix 0) (\<lambda>_. [117, 97, 114, 116]) demo_cmds demo_prompts 0x8000 0x7000"
  "good_commands (\<lambda>_. stdobj_prefix 0) (\<lambda>_. [117, 97, 114, 116]) demo_cmds demo_prompts 0x7000 demo_call" "demo_inv shell_kernel"
proof -
  show "still demo_drv" by (simp add: still_def demo_drv_def)
  show "good_commands (\<lambda>_. stdobj_prefix 0) (\<lambda>_. [117, 97, 114, 116]) demo_cmds demo_prompts 0x7000 demo_call"
    by (simp add: good_commands_def sh_inv_def demo_call_def)
  show "demo_inv shell_kernel"
    using demo_strings_hold(2) by (simp add: sh_inv_def shell_kernel_facts shell_ok_def demo_shell_def SHELL_BUFFER_NUM_MAX_def
        SHELL_BUFFER_LENGTH_MAX_def demo_cmds_def demo_prompts_def) (simp add: demo_strings_def stdobj_prefix_def)
  have a: "span 0x8000 3 \<inter> span 0x7000 528 = {}" "span 0x3200 6 \<inter> span 0x8000 3 = {}" "span 0x3200 6 \<inter> span 0x7000 528 = {}"
    "span 0x3000 5 \<inter> span 0x8000 3 = {}" "span 0x3000 5 \<inter> span 0x7000 528 = {}"
    by (rule span_apart; simp)+
  have n: "(5 :: nat) = Suc (Suc (Suc (Suc (Suc 0))))" "(6 :: nat) = Suc (Suc (Suc (Suc (Suc (Suc 0)))))" by simp_all
  have "sh_row 0x7000 i \<noteq> 0" if "i < 8" for i
  proof -
    have "unat (0x7000 + of_nat (66 * i) :: addr) = unat (0x7000 :: addr) + 66 * i"
      by (rule unat_plus_of_nat) (use that in simp)
    then have "unat (sh_row 0x7000 i) \<noteq> 0" unfolding sh_row_def by simp
    then show ?thesis by auto
  qed
  with a [unfolded n] show "strings_apart (\<lambda>_. stdobj_prefix 0) (\<lambda>_. [117, 97, 114, 116]) demo_cmds demo_prompts 0x8000 0x7000"
    by (simp add: strings_apart_def shell_area_def demo_cmds_def demo_prompts_def stdobj_prefix_def Int_Un_distrib)
qed

theorem shell_input_safe_witness:
  "\<exists>s'. shell_input demo_drv demo_call demo_cmds 0x8000 demo_prompts 0x7000 13 shell_kernel = Some s' \<and> demo_inv s'"
  using shell_input_safe [OF demo_shell_env, of 13] by blast

text \<open>
  C25. The line editor: from a device that is not inside an escape sequence, any sequence of characters without ESC and carriage return leaves in the current row
  exactly the line that editing the old line gives: text is appended while the line has fewer than 62 characters,
  backspace removes the last character, everything else is ignored.
\<close>
theorem shell_edits_line:
  assumes "still drv" and "span loc 3 \<inter> span d 528 = {}" and "shell_ok (shells s d)" and "recv_status (shells s d) = 0"
    and "\<And>ch. ch \<in> set chs \<Longrightarrow> ch \<noteq> 0x1B \<and> ch \<noteq> 13"
  shows "\<exists>s'. fold_option (shell_input drv call cmds loc usr_log d) chs s = Some s' \<and> shell_ok (shells s' d) \<and>
     sh_line d s' = fold edit chs (sh_line d s)"
proof (rule keys_run [OF assms(1-4)])
  have "ch_classify ch \<noteq> CH_IS_ENTER" if "ch \<noteq> 13" for ch
    using that by (auto simp: ch_classify_def CH_IS_TEXT_def CH_IS_BACKSPACE_def CH_IS_ENTER_def)
  then show "\<forall>ch\<in>set chs. ch \<noteq> KEYBOARD_EXPAND_HEAD \<and> ch_classify ch \<noteq> CH_IS_ENTER"
    using assms(5) by (auto simp: KEYBOARD_EXPAND_HEAD_def)
qed

theorem shell_edits_line_witness:
  "\<exists>s'. fold_option (shell_input demo_drv demo_call demo_cmds 0x8000 demo_prompts 0x7000) [97, 98, 0x7F, 99] shell_kernel = Some s' \<and>
     sh_line 0x7000 s' = [97, 99]"
proof -
  have "span 0x8000 3 \<inter> span 0x7000 528 = {}" by (rule span_apart) simp_all
  moreover have l: "sh_line 0x7000 shell_kernel = []"
    by (simp add: sh_line_def bytes_at_def shell_kernel_facts demo_shell_def SHELL_BUFFER_OFFSET_def)
  moreover have "shell_ok (shells shell_kernel 0x7000)" using demo_shell_env(4) by (simp add: sh_inv_def)
  moreover have "fold edit [97, 98, 0x7F, 99] [] = [97, 99]"
    by (simp add: edit_def ch_classify_def CH_IS_TEXT_def CH_IS_BACKSPACE_def CH_IS_ENTER_def)
  moreover have "recv_status (shells shell_kernel 0x7000) = 0" by (simp add: shell_kernel_facts demo_shell_def)
  moreover have "ch \<noteq> 0x1B \<and> ch \<noteq> 13" if "ch \<in> set [97, 98, 0x7F, 99 :: os_u8]" for ch using that by auto
  ultimately show ?thesis
    using shell_edits_line [OF demo_shell_env(1), of "0x8000" "0x7000" shell_kernel "[97, 98, 0x7F, 99]" demo_call demo_cmds demo_prompts]
    unfolding l by metis
qed

text \<open>
  Command dispatch: when the line that carriage return ends is not full, the first command of the table whose name the line starts with is called for the device, provided
  the device's priority is at least the command's; with no such command nothing is called.
\<close>
theorem shell_runs_command:
  assumes "shell_ok (shells s d)" and "length (sh_line d s) < 62" and "0 \<notin> set (sh_line d s)" and "SHELL_BUFFER d (shells s d) \<noteq> 0"
    and "\<And>c. c \<in> set cmds \<Longrightarrow> cstr (mem8 s) (cmd_name c) (nm c) \<and> nm c \<noteq> [] \<and> length (nm c) < 2 ^ 31 \<and>
      span (cmd_name c) (Suc (length (nm c))) \<inter> span d 528 = {}"
  defines "s1 \<equiv> SHELL_BUFFER_INSERT_CH d 0 s"
  shows "shell_run call cmds d s1 =
     (case find (\<lambda>c. take (length (nm c)) (sh_line d s) = nm c) cmds of
        None \<Rightarrow> Some s1
      | Some c \<Rightarrow> if unat (cmd_priority c) \<le> unat (sh_priority (shells s d)) then call (cmd_func c) d s1 else Some s1)"
proof -
  have nf: "\<not> SHELL_BUFFER_IS_FULL (shells s d)" using assms(2) full_iff [of s d] by simp
  note i = insert_line [OF assms(1) nf, of 0]
  have buf: "SHELL_BUFFER d (shells s1 d) = SHELL_BUFFER d (shells s d)" "sh_priority (shells s1 d) = sh_priority (shells s d)"
    by (simp_all add: s1_def i(1))
  have c: "cstr (mem8 s1) (cmd_name c) (nm c) \<and> nm c \<noteq> [] \<and> length (nm c) < 2 ^ 31" if "c \<in> set cmds" for c
    using assms(5) [OF that] same_outside_cstr [OF i(4)] by (simp add: s1_def)
  have "cstr (mem8 s1) (SHELL_BUFFER d (shells s1 d)) (sh_line d s)"
    unfolding buf(1) unfolding s1_def by (rule inserted_cstr [OF assms(1) nf assms(3)])
  then have "shell_cmd_find cmds d s1 = Some (find (\<lambda>c. take (length (nm c)) (sh_line d s) = nm c) cmds)"
    unfolding shell_cmd_find_def by (rule cmd_loop_eq) (use assms(2,4) buf(1) c in simp_all)
  then show ?thesis by (simp add: shell_run_def buf(2) split: option.split)
qed

definition named_kernel :: shkernel where
  "named_kernel = shell_kernel\<lparr>shells := (\<lambda>_. demo_shell\<lparr>head_point := 0, sh_offset := (\<lambda>_. 5)\<rparr>),
     mem8 := store 0x7000 [117, 97, 114, 116, 32] demo_strings\<rparr>"

theorem shell_runs_command_witness:
  "\<exists>s1. shell_run demo_call demo_cmds 0x7000 (SHELL_BUFFER_INSERT_CH 0x7000 0 named_kernel) = Some s1 \<and> local_time s1 = 5"
proof -
  have ap: "span 0x3000 (Suc (Suc (Suc (Suc (Suc 0))))) \<inter> span 0x7000 528 = {}" by (rule span_apart) simp_all
  have ok: "shell_ok (shells named_kernel 0x7000)"
    by (simp add: named_kernel_def shell_ok_def demo_shell_def SHELL_BUFFER_NUM_MAX_def SHELL_BUFFER_LENGTH_MAX_def)
  have l: "sh_line 0x7000 named_kernel = [117, 97, 114, 116, 32]"
    by (simp add: sh_line_def bytes_at_def named_kernel_def demo_shell_def SHELL_BUFFER_OFFSET_def SHELL_BUFFER_def sh_row_def sh_cur_def upt_rec)
  have c: "cstr (mem8 named_kernel) 0x3000 [117, 97, 114, 116]"
    using demo_strings_hold(2) by (simp add: named_kernel_def shell_kernel_facts)
  have b: "SHELL_BUFFER 0x7000 (shells named_kernel 0x7000) \<noteq> 0" "sh_priority (shells named_kernel 0x7000) = 1"
    by (simp_all add: SHELL_BUFFER_def sh_row_def sh_cur_def named_kernel_def demo_shell_def)
  show ?thesis
    using shell_runs_command [OF ok _ _ b(1), of demo_cmds "\<lambda>_. [117, 97, 114, 116]" demo_call] ap c
    by (simp add: l b(2) demo_cmds_def demo_call_def)
qed

end
