(* ===== verification/Drivers.thy ===== *)
theory Drivers
  imports Shell Ring_Queue
begin

text \<open>
  The input layer and the LED triggers, \<^verbatim>\<open>hwutil/drivers/input/input.c\<close> and \<^verbatim>\<open>hwutil/drivers/led/led_trigger.c\<close>. The input layer
  gives every type of event a message queue; the heartbeat LED blinks at a rate that follows the CPU usage; the event LED
  lights up when a ring buffer has an entry. The LED functions are a parameter: \<open>led f\<close> is what the function at \<open>f\<close> does.
\<close>

section \<open>State\<close>

definition EVENT_TYPE_MAX :: nat where "EVENT_TYPE_MAX = 4"
definition SIZEOF_INPUT_EVENT :: os_u32 where "SIZEOF_INPUT_EVENT = 4"

record led_heart_trigger =
  heart_on :: addr
  heart_off :: addr
  led_count :: os_u16
  led_cycle :: os_u16
  trigger_count :: os_u16
  trigger_total :: os_u16

record led_event_trigger =
  event_on :: addr
  event_off :: addr
  event_state :: os_u16
  event_queue :: addr

record devkernel = shkernel +
  input_mqd :: "nat \<Rightarrow> int"
  hearts :: "addr \<Rightarrow> led_heart_trigger"
  events :: "addr \<Rightarrow> led_event_trigger"
  queues :: "addr \<Rightarrow> queue"

type_synonym 'a denv = "'a devkernel_scheme \<Rightarrow> 'a devkernel_scheme option"

section \<open>The input layer\<close>

definition input_init :: "'a devkernel_scheme \<Rightarrow> err_t \<times> 'a devkernel_scheme" where
  "input_init s = (0, s\<lparr>input_mqd := (\<lambda>i. if i < EVENT_TYPE_MAX then 0 else input_mqd s i)\<rparr>)"

text \<open>
  \<^verbatim>\<open>input_open\<close>: a negative type indexes below the table (\<open>None\<close>); \<open>attr\<close> are the contents of the uninitialised local attribute, \<open>name\<close> the address
  of the literal.
\<close>

definition input_open :: "'a denv \<Rightarrow> addr \<Rightarrow> mq_attr \<Rightarrow> int \<Rightarrow> os_u32 \<Rightarrow> 'a devkernel_scheme \<Rightarrow> (err_t \<times> 'a devkernel_scheme) option" where
  "input_open env name attr type oflag s =
     (if type \<ge> int EVENT_TYPE_MAX then Some (- EINVAL, s)
      else do {
        (mqd, s) \<leftarrow> mq_open env name oflag oflag (attr\<lparr>mq_maxmsg := 16, mq_msgsize := uint SIZEOF_INPUT_EVENT\<rparr>) s;
        if mqd < 0 then Some (- EINVAL, s)
        else if type < 0 then None
        else Some (0, s\<lparr>input_mqd := (input_mqd s)(nat type := mqd)\<rparr>)
      })"

definition input_report :: "'a denv \<Rightarrow> os_u16 \<Rightarrow> addr \<Rightarrow> 'a devkernel_scheme \<Rightarrow> (int \<times> 'a devkernel_scheme) option" where
  "input_report env type event s =
     (if unat type \<ge> EVENT_TYPE_MAX \<or> input_mqd s (unat type) = 0 then Some (- EINVAL, s)
      else mq_send env (input_mqd s (unat type)) event SIZEOF_INPUT_EVENT s)"

definition input_event_catch :: "'a denv \<Rightarrow> os_u16 \<Rightarrow> addr \<Rightarrow> 'a devkernel_scheme \<Rightarrow> (int option \<times> 'a devkernel_scheme) option" where
  "input_event_catch env type event s =
     (if unat type \<ge> EVENT_TYPE_MAX \<or> input_mqd s (unat type) = 0 then Some (Some (- EINVAL), s)
      else mq_receive env (input_mqd s (unat type)) event s)"

section \<open>The heartbeat LED\<close>

definition HEART_TRIGGER_TIME :: os_u32 where "HEART_TRIGGER_TIME = 50"
definition HEART_TRIGGER_COUNT :: os_u16 where "HEART_TRIGGER_COUNT = 40"

definition led_trigger_speed :: "os_u16 list" where
  "led_trigger_speed = [2, 6, 10, 14, 18, 22, 24, 28, 32, 36, 40]"

definition led_trigger_total :: "os_u16 list" where
  "led_trigger_total = [39, 35, 39, 27, 35, 43, 47, 27, 31, 35, 39]"

definition upd_heart :: "addr \<Rightarrow> (led_heart_trigger \<Rightarrow> led_heart_trigger) \<Rightarrow> 'a devkernel_scheme \<Rightarrow> 'a devkernel_scheme" where
  "upd_heart a f s = s\<lparr>hearts := (hearts s)(a := f (hearts s a))\<rparr>"

definition speed_level :: "os_u16 \<Rightarrow> os_u16" where
  "speed_level usage = 10 - usage div 10 mod 11"

text \<open>\<^verbatim>\<open>led_heart_trigger_entry\<close>; a cycle of 0 divides by zero.\<close>

definition led_heart_trigger_entry :: "(addr \<Rightarrow> 'a denv) \<Rightarrow> addr \<Rightarrow> 'a devkernel_scheme \<Rightarrow> 'a devkernel_scheme option" where
  "led_heart_trigger_entry led p s =
     do {
       s \<leftarrow> (if led_count (hearts s p) = 0 then led (heart_on (hearts s p)) s else led (heart_off (hearts s p)) s);
       if led_cycle (hearts s p) = 0 then None
       else do {
         let s = upd_heart p (\<lambda>x. x\<lparr>led_count := (led_count x + 1) mod led_cycle x\<rparr>) s;
         let s = upd_heart p (\<lambda>x. x\<lparr>trigger_count := trigger_count x + 1\<rparr>) s;
         if trigger_count (hearts s p) \<ge> trigger_total (hearts s p)
         then let l = unat (speed_level (get_current_usage s))
              in if l < length led_trigger_speed
                 then Some (upd_heart p (\<lambda>x. x\<lparr>led_cycle := led_trigger_speed ! l, trigger_total := led_trigger_total ! l,
                        trigger_count := 0, led_count := 0\<rparr>) s)
                 else None
         else Some s
       }
     }"

text \<open>\<open>entry\<close> is the address of the entry function, \<open>ev\<close> and \<open>ts\<close> the contents of the uninitialised locals.\<close>

definition led_heart_trigger_init :: "'a denv \<Rightarrow> addr \<Rightarrow> sigevent \<Rightarrow> itimerspect \<Rightarrow> led_heart_trigger \<Rightarrow>
    'a devkernel_scheme \<Rightarrow> (err_t \<times> 'a devkernel_scheme) option" where
  "led_heart_trigger_init env entry ev ts trigger s =
     do {
       (p, s) \<leftarrow> malloc env 16 s;
       if p = NULL then Some (- EINVAL, s)
       else do {
         let s = upd_heart p (\<lambda>_. trigger\<lparr>led_cycle := HEART_TRIGGER_COUNT, trigger_total := HEART_TRIGGER_COUNT\<rparr>) s;
         (err, timer, s) \<leftarrow> timer_create env CLOCK_REALTIME
           (Some (ev\<lparr>sigev_notify_function := entry, sigev_value := p, sigev_notify := SIGEV_THREAD\<rparr>)) s;
         if timer = 0 then None
         else let (ret, s) = timer_settime timer (Some (ts\<lparr>interval_nsec := HEART_TRIGGER_TIME, value_nsec := HEART_TRIGGER_TIME\<rparr>)) NULL s
              in Some (0, s)
       }
     }"

section \<open>The event LED\<close>

definition EVENT_TRIGGER_TIME :: os_u32 where "EVENT_TRIGGER_TIME = 50"

definition upd_event :: "addr \<Rightarrow> (led_event_trigger \<Rightarrow> led_event_trigger) \<Rightarrow> 'a devkernel_scheme \<Rightarrow> 'a devkernel_scheme" where
  "upd_event a f s = s\<lparr>events := (events s)(a := f (events s a))\<rparr>"

definition led_event_trigger_entry :: "(addr \<Rightarrow> 'a denv) \<Rightarrow> addr \<Rightarrow> 'a devkernel_scheme \<Rightarrow> 'a devkernel_scheme option" where
  "led_event_trigger_entry led p s =
     (let qa = event_queue (events s p);
          (r, data, q) = queue_pop (queues s qa);
          s = s\<lparr>queues := (queues s)(qa := q)\<rparr>
      in if r = 0
         then do {
           s \<leftarrow> led (event_on (events s p)) s;
           Some (upd_event p (\<lambda>x. x\<lparr>event_state := 1\<rparr>) s)
         }
         else if event_state (events s p) = 1 then Some (upd_event p (\<lambda>x. x\<lparr>event_state := 2\<rparr>) s)
         else do {
           let s = upd_event p (\<lambda>x. x\<lparr>event_state := 0\<rparr>) s;
           led (event_off (events s p)) s
         })"

definition led_event_trigger_init :: "'a denv \<Rightarrow> addr \<Rightarrow> sigevent \<Rightarrow> itimerspect \<Rightarrow> led_event_trigger \<Rightarrow>
    'a devkernel_scheme \<Rightarrow> (err_t \<times> 'a devkernel_scheme) option" where
  "led_event_trigger_init env entry ev ts trigger s =
     (if event_off trigger = NULL \<or> event_on trigger = NULL \<or> event_queue trigger = NULL then Some (- EINVAL, s)
      else do {
        (p, s) \<leftarrow> malloc env 16 s;
        if p = NULL then Some (- EINVAL, s)
        else do {
          let s = upd_event p (\<lambda>_. trigger\<lparr>event_state := 0\<rparr>) s;
          (err, timer, s) \<leftarrow> timer_create env CLOCK_REALTIME
            (Some (ev\<lparr>sigev_notify_function := entry, sigev_value := p, sigev_notify := SIGEV_THREAD\<rparr>)) s;
          if timer = 0 then None
          else let (ret, s) = timer_settime timer (Some (ts\<lparr>interval_nsec := EVENT_TRIGGER_TIME, value_nsec := EVENT_TRIGGER_TIME\<rparr>)) NULL s
               in Some (0, s)
        }
      })"

section \<open>The heartbeat never stops\<close>

definition heart_ok :: "led_heart_trigger \<Rightarrow> bool" where
  "heart_ok x \<longleftrightarrow> led_count x < led_cycle x \<and> trigger_count x < trigger_total x \<and> unat (trigger_total x) \<le> 47"

text \<open>LED functions that return and leave the triggers and the usage figure alone.\<close>

definition plain_led :: "(addr \<Rightarrow> 'a denv) \<Rightarrow> bool" where
  "plain_led led \<longleftrightarrow>
     (\<forall>f s. \<exists>s'. led f s = Some s' \<and> hearts s' = hearts s \<and> events s' = events s \<and> queues s' = queues s)"

lemma speed_level_bound: "unat (speed_level u) \<le> 10"
proof -
  have "unat (u div 10 mod 11) < 11" by (simp add: unat_mod)
  then have "u div 10 mod 11 \<le> 10" by (simp add: word_le_nat_alt)
  then have "unat (speed_level u) = unat (10 :: os_u16) - unat (u div 10 mod 11)" unfolding speed_level_def by (rule unat_sub)
  then show ?thesis by simp
qed

lemma table_entry:
  assumes "l \<le> 10"
  shows "0 < led_trigger_speed ! l" "0 < led_trigger_total ! l" "unat (led_trigger_total ! l) \<le> 47"
proof -
  have "l = 0 \<or> l = 1 \<or> l = 2 \<or> l = 3 \<or> l = 4 \<or> l = 5 \<or> l = 6 \<or> l = 7 \<or> l = 8 \<or> l = 9 \<or> l = 10"
    using assms by presburger
  then show "0 < led_trigger_speed ! l" "0 < led_trigger_total ! l" "unat (led_trigger_total ! l) \<le> 47"
    by (auto simp: led_trigger_speed_def led_trigger_total_def)
qed

lemma heart_step:
  assumes led: "plain_led led" and ok: "heart_ok (hearts s p)"
  shows "\<exists>s'. led_heart_trigger_entry led p s = Some s' \<and> heart_ok (hearts s' p)"
proof -
  let ?x = "hearts s p"
  let ?f = "if led_count ?x = 0 then heart_on ?x else heart_off ?x"
  obtain s1 where s1: "led ?f s = Some s1" "hearts s1 = hearts s" using led unfolding plain_led_def by blast
  have cyc: "led_cycle ?x \<noteq> 0" and ct: "trigger_count ?x < trigger_total ?x" using ok by (auto simp: heart_ok_def)
  let ?y = "?x\<lparr>led_count := (led_count ?x + 1) mod led_cycle ?x, trigger_count := trigger_count ?x + 1\<rparr>"
  let ?s2 = "upd_heart p (\<lambda>x. x\<lparr>trigger_count := trigger_count x + 1\<rparr>)
      (upd_heart p (\<lambda>x. x\<lparr>led_count := (led_count x + 1) mod led_cycle x\<rparr>) s1)"
  have y: "hearts ?s2 p = ?y" by (simp add: upd_heart_def s1(2))
  let ?l = "unat (speed_level (get_current_usage ?s2))"
  have l: "?l \<le> 10" by (rule speed_level_bound)
  then have ll: "?l < length led_trigger_speed" by (simp add: led_trigger_speed_def)
  let ?s3 = "upd_heart p (\<lambda>x. x\<lparr>led_cycle := led_trigger_speed ! ?l, trigger_total := led_trigger_total ! ?l,
      trigger_count := 0, led_count := 0\<rparr>) ?s2"
  have run: "led_heart_trigger_entry led p s = Some (if trigger_total ?x \<le> trigger_count ?x + 1 then ?s3 else ?s2)"
    using s1 cyc ll y by (auto simp: led_heart_trigger_entry_def Let_def split: if_splits)
  have "(led_count ?x + 1) mod led_cycle ?x < led_cycle ?x" using cyc by (simp add: word_mod_less_divisor word_gt_0)
  then have "heart_ok ?y" if "\<not> trigger_total ?x \<le> trigger_count ?x + 1" using ok that by (simp add: heart_ok_def)
  moreover have "heart_ok (hearts ?s3 p)" using table_entry [OF l] by (simp add: upd_heart_def heart_ok_def)
  ultimately show ?thesis using run y by auto
qed

primrec heartbeats :: "(addr \<Rightarrow> 'a denv) \<Rightarrow> addr \<Rightarrow> nat \<Rightarrow> 'a devkernel_scheme \<Rightarrow> 'a devkernel_scheme option" where
  "heartbeats led p 0 s = Some s"
| "heartbeats led p (Suc n) s = do { s \<leftarrow> led_heart_trigger_entry led p s; heartbeats led p n s }"

lemma heartbeats_run:
  "plain_led led \<Longrightarrow> heart_ok (hearts s p) \<Longrightarrow> \<exists>s'. heartbeats led p n s = Some s' \<and> heart_ok (hearts s' p)"
proof (induction n arbitrary: s)
  case (Suc n)
  from heart_step [OF Suc.prems] obtain s1 where "led_heart_trigger_entry led p s = Some s1" "heart_ok (hearts s1 p)" by blast
  with Suc.IH [OF Suc.prems(1)] show ?case by simp
qed simp

section \<open>Properties\<close>

text \<open>
  The heartbeat never stops: from a well-formed trigger any number of timer calls return, whatever the CPU usage is; the blink cycle stays positive, so the
  division never traps, the speed tables are indexed within their 11 entries, and the counters stay below their limits.
\<close>
theorem heart_never_stops:
  assumes "plain_led led" and "heart_ok (hearts s p)"
  shows "\<exists>s'. heartbeats led p n s = Some s' \<and> led_count (hearts s' p) < led_cycle (hearts s' p) \<and>
     trigger_count (hearts s' p) < trigger_total (hearts s' p)"
  using heartbeats_run [OF assms, of n] by (auto simp: heart_ok_def)

definition demo_heart :: led_heart_trigger where
  "demo_heart = \<lparr>heart_on = 0x90, heart_off = 0x94, led_count = 0, led_cycle = HEART_TRIGGER_COUNT, trigger_count = 0,
     trigger_total = HEART_TRIGGER_COUNT\<rparr>"

definition dev_kernel :: devkernel where
  "dev_kernel = shkernel.extend shell_kernel
     \<lparr>input_mqd = (\<lambda>_. 0x5000), hearts = (\<lambda>_. demo_heart), events = (\<lambda>_. \<lparr>event_on = 0, event_off = 0, event_state = 0, event_queue = 0\<rparr>),
      queues = (\<lambda>_. empty_queue)\<rparr>"

definition demo_led :: "addr \<Rightarrow> devkernel \<Rightarrow> devkernel option" where
  "demo_led f s = Some s"

theorem heart_never_stops_witness:
  "\<exists>s'. heartbeats demo_led 0x700 100 dev_kernel = Some s' \<and> led_count (hearts s' 0x700) < led_cycle (hearts s' 0x700)"
proof -
  have "plain_led demo_led" by (simp add: plain_led_def demo_led_def)
  moreover have "heart_ok (hearts dev_kernel 0x700)"
    by (simp add: dev_kernel_def shkernel.extend_def heart_ok_def demo_heart_def HEART_TRIGGER_COUNT_def)
  ultimately show ?thesis using heart_never_stops [of demo_led dev_kernel "0x700" 100] by blast
qed

text \<open>
  An input event round trip: when the queue of an event type is open, empty, non-blocking and large enough for an event, \<^verbatim>\<open>input_report\<close> returns 0 and
  \<^verbatim>\<open>input_event_catch\<close> of that type then returns the size of an event and yields the reported bytes; a type without a queue is refused by both
  with \<open>- EINVAL\<close>.
\<close>
theorem input_report_catch:
  assumes ty: "unat type < EVENT_TYPE_MAX" and mqd: "word_of_int (input_mqd s (unat type)) = a"
    and ok: "mq_ok a k s" and e: "mq_len (mqs s a) = 0" and nb: "\<not> blocking (mq_attr_of (mqs s a))"
    and idle: "mutex_idle (mq_w_mutex a) s" "mutex_idle (mq_r_mutex a) s" and room: "4 \<le> mq_room (mqs s a)"
    and apart: "span event 4 \<inter> mq_span (mqs s a) = {}" "span dst 4 \<inter> mq_span (mqs s a) = {}"
  shows "(input_mqd s (unat type) \<noteq> 0 \<longrightarrow>
      (\<exists>s1 s2. input_report env type event s = Some (0, s1) \<and> input_event_catch env type dst s1 = Some (Some 4, s2) \<and>
        bytes_at (mem8 s2) dst 4 = bytes_at (mem8 s) event 4)) \<and>
    (input_mqd s (unat type) = 0 \<longrightarrow>
      input_report env type event s = Some (- EINVAL, s) \<and> input_event_catch env type dst s = Some (Some (- EINVAL), s))"
proof -
  have sz: "unat SIZEOF_INPUT_EVENT = 4" by (simp add: SIZEOF_INPUT_EVENT_def)
  let ?s1 = "put_msg a (cell (mqs s a) k) event SIZEOF_INPUT_EVENT s"
  from mq_roundtrip [OF ok e nb idle mqd, of SIZEOF_INPUT_EVENT event dst env, unfolded sz] room apart
  obtain s2 where r: "mq_send env (input_mqd s (unat type)) event SIZEOF_INPUT_EVENT s = Some (0, ?s1)"
    "mq_receive env (input_mqd s (unat type)) dst ?s1 = Some (Some 4, s2)" "bytes_at (mem8 s2) dst 4 = bytes_at (mem8 s) event 4"
    by auto
  have "input_mqd ?s1 = input_mqd s" by (simp add: put_msg_def)
  then show ?thesis using ty r by (simp add: input_report_def input_event_catch_def)
qed

theorem input_report_catch_witness:
  "\<exists>s1 s2. input_report (\<lambda>_. None) 2 0x3000 dev_kernel = Some (0, s1) \<and>
     input_event_catch (\<lambda>_. None) 2 0x3100 s1 = Some (Some 4, s2) \<and> bytes_at (mem8 s2) 0x3100 4 = [117, 97, 114, 116]"
proof -
  have f: "input_mqd dev_kernel = (\<lambda>_. 0x5000)" "mqs dev_kernel = (\<lambda>_. demo_mq)" "mq_msgs dev_kernel = mq_msgs mq_kernel"
    "mem8 dev_kernel = demo_strings" "current_thread dev_kernel = NULL"
    by (simp_all add: dev_kernel_def shkernel.extend_def shell_kernel_def mqkernel.extend_def mq_kernel_facts)
  have ok: "mq_ok 0x5000 1 dev_kernel" using mq_kernel_ok(1) by (simp add: mq_ok_def f mq_kernel_facts)
  have sp: "mq_span demo_mq = span 0x6000 24" by (simp add: mq_kernel_ok) (simp add: demo_mq_def)
  have a: "span 0x3000 4 \<inter> span 0x6000 24 = {}" "span 0x3100 4 \<inter> span 0x6000 24 = {}" by (rule span_apart; simp)+
  have b: "bytes_at demo_strings 0x3000 4 = [117, 97, 114, 116]" by (simp add: bytes_at_def upt_rec demo_strings_def)
  have nb: "\<not> blocking (mq_attr_of demo_mq)" by (simp add: blocking_def demo_mq_def O_CREAT_def O_NONBLOCK_def)
  have idle: "mutex_idle m dev_kernel" for m by (simp add: mutex_idle_def f)
  show ?thesis
    using input_report_catch [OF _ _ ok _ _ idle idle, of 2 "0x3000" "0x3100" "\<lambda>_. None"] a b nb sp
    by (simp add: f mq_kernel_ok EVENT_TYPE_MAX_def)
qed

end
