(* ===== verification/Pbuf.thy ===== *)
theory Pbuf
  imports Drivers
begin

text \<open>
  The packet buffers of the IP stack, \<^verbatim>\<open>hwutil/net/lwip/source/core/pbuf.c\<close>, and the pools they come from, \<^verbatim>\<open>memp.c\<close>, in the
  configuration of \<^verbatim>\<open>lwipopts.h\<close> and \<^verbatim>\<open>opt.h\<close>: no operating system (the protection macros are empty), an alignment of 4, ten pool buffers
  of 1500 bytes, custom buffers enabled, no statistics and no overflow checks, \<^verbatim>\<open>mem_malloc\<close> and \<^verbatim>\<open>mem_free\<close> the kernel's \<^verbatim>\<open>malloc\<close> and \<^verbatim>\<open>free\<close>.

  A packet is a chain of \<^verbatim>\<open>struct pbuf\<close>, linked by their first word. A free element of a pool is linked by its first word too
  (\<^verbatim>\<open>struct memp\<close>), so both use the field \<open>pb_next\<close>. The assertions do nothing: \<^verbatim>\<open>LWIP_PLATFORM_ASSERT\<close> of \<^verbatim>\<open>port/arch/cc.h\<close> tests the message it is given,
  not a condition; \<^verbatim>\<open>LWIP_ERROR\<close> only runs its handler. Reading a member through a NULL pointer is \<open>None\<close>, as is a chain that never ends.
\<close>

section \<open>Buffers and pools\<close>

record pbuf =
  pb_next :: addr
  pb_payload :: addr
  pb_tot_len :: os_u16
  pb_len :: os_u16
  pb_type :: os_u8
  pb_flags :: os_u8
  pb_ref :: os_u16

record pbkernel = devkernel +
  pbufs :: "addr \<Rightarrow> pbuf"
  memp_tab :: "nat \<Rightarrow> addr"

type_synonym 'a penv = "'a pbkernel_scheme \<Rightarrow> 'a pbkernel_scheme option"

definition PBUF_RAM :: os_u8 where "PBUF_RAM = 0"
definition PBUF_ROM :: os_u8 where "PBUF_ROM = 1"
definition PBUF_REF :: os_u8 where "PBUF_REF = 2"
definition PBUF_POOL :: os_u8 where "PBUF_POOL = 3"

definition PBUF_TRANSPORT :: nat where "PBUF_TRANSPORT = 0"
definition PBUF_IP :: nat where "PBUF_IP = 1"
definition PBUF_LINK :: nat where "PBUF_LINK = 2"
definition PBUF_RAW :: nat where "PBUF_RAW = 3"

definition PBUF_FLAG_IS_CUSTOM :: os_u8 where "PBUF_FLAG_IS_CUSTOM = 2"

definition PBUF_LINK_HLEN :: os_u16 where "PBUF_LINK_HLEN = 14"
definition PBUF_IP_HLEN :: os_u16 where "PBUF_IP_HLEN = 20"
definition PBUF_TRANSPORT_HLEN :: os_u16 where "PBUF_TRANSPORT_HLEN = 20"

text \<open>\<^verbatim>\<open>sizeof(struct pbuf)\<close>: two pointers, two half-words, two bytes and a half-word, already aligned.\<close>

definition SIZEOF_STRUCT_PBUF :: os_u32 where "SIZEOF_STRUCT_PBUF = 16"
definition PBUF_POOL_BUFSIZE_ALIGNED :: os_u16 where "PBUF_POOL_BUFSIZE_ALIGNED = 1500"

definition ERR_OK :: int where "ERR_OK = 0"
definition ERR_VAL :: int where "ERR_VAL = - 6"
definition ERR_ARG :: int where "ERR_ARG = - 14"

text \<open>\<^verbatim>\<open>LWIP_MEM_ALIGN_SIZE\<close> is applied to values promoted to 32 bits.\<close>

definition LWIP_MEM_ALIGN_SIZE :: "os_u32 \<Rightarrow> os_u32" where
  "LWIP_MEM_ALIGN_SIZE x = (x + 4 - 1) AND NOT (4 - 1)"

definition LWIP_MEM_ALIGN :: "os_u32 \<Rightarrow> os_u32" where
  "LWIP_MEM_ALIGN x = (x + 4 - 1) AND NOT (4 - 1)"

definition upd_pbuf :: "addr \<Rightarrow> (pbuf \<Rightarrow> pbuf) \<Rightarrow> 'a pbkernel_scheme \<Rightarrow> 'a pbkernel_scheme" where
  "upd_pbuf a f s = s\<lparr>pbufs := (pbufs s)(a := f (pbufs s a))\<rparr>"

text \<open>The pools of \<^verbatim>\<open>memp_std.h\<close> in this configuration: seven for control blocks, then the two for buffers.\<close>

definition MEMP_PBUF :: nat where "MEMP_PBUF = 7"
definition MEMP_PBUF_POOL :: nat where "MEMP_PBUF_POOL = 8"
definition MEMP_MAX :: nat where "MEMP_MAX = 9"

text \<open>The inner loop of \<^verbatim>\<open>memp_init\<close>: \<open>n\<close> elements of \<open>sz\<close> bytes from \<open>memp\<close> on are pushed on the list of pool \<open>i\<close>.\<close>

primrec memp_carve :: "nat \<Rightarrow> os_u32 \<Rightarrow> nat \<Rightarrow> addr \<Rightarrow> 'a pbkernel_scheme \<Rightarrow> addr \<times> 'a pbkernel_scheme" where
  "memp_carve 0 sz i memp s = (memp, s)"
| "memp_carve (Suc n) sz i memp s =
     (let s = upd_pbuf memp (\<lambda>x. x\<lparr>pb_next := memp_tab s i\<rparr>) s;
          s = s\<lparr>memp_tab := (memp_tab s)(i := memp)\<rparr>
      in memp_carve n sz i (memp + sz) s)"

text \<open>\<open>num\<close> and \<open>size_of\<close> are the tables \<^verbatim>\<open>memp_num\<close> and \<^verbatim>\<open>memp_sizes\<close>, \<open>memory\<close> the address of \<^verbatim>\<open>memp_memory\<close>.\<close>

definition memp_init :: "(nat \<Rightarrow> nat) \<Rightarrow> (nat \<Rightarrow> os_u32) \<Rightarrow> addr \<Rightarrow> 'a pbkernel_scheme \<Rightarrow> 'a pbkernel_scheme" where
  "memp_init num size_of memory s =
     snd (fold (\<lambda>i (memp, s). memp_carve (num i) (size_of i) i memp (s\<lparr>memp_tab := (memp_tab s)(i := NULL)\<rparr>))
            [0..<MEMP_MAX] (LWIP_MEM_ALIGN memory, s))"

definition memp_malloc :: "nat \<Rightarrow> 'a pbkernel_scheme \<Rightarrow> addr \<times> 'a pbkernel_scheme" where
  "memp_malloc type s =
     (if type \<ge> MEMP_MAX then (NULL, s)
      else let memp = memp_tab s type
           in if memp \<noteq> NULL then (memp, s\<lparr>memp_tab := (memp_tab s)(type := pb_next (pbufs s memp))\<rparr>) else (memp, s))"

definition memp_free :: "nat \<Rightarrow> addr \<Rightarrow> 'a pbkernel_scheme \<Rightarrow> 'a pbkernel_scheme" where
  "memp_free type mem s =
     (if mem = NULL then s
      else let s = upd_pbuf mem (\<lambda>x. x\<lparr>pb_next := memp_tab s type\<rparr>) s
           in s\<lparr>memp_tab := (memp_tab s)(type := mem)\<rparr>)"

section \<open>Releasing a chain\<close>

text \<open>\<open>custom p\<close> is the effect of the \<^verbatim>\<open>custom_free_function\<close> of the buffer at \<open>p\<close>. The count has 8 bits.\<close>

definition pbuf_dealloc :: "(addr \<Rightarrow> 'a penv) \<Rightarrow> 'a penv \<Rightarrow> addr \<Rightarrow> 'a penv" where
  "pbuf_dealloc custom env p s =
     (let type = pb_type (pbufs s p)
      in if pb_flags (pbufs s p) AND PBUF_FLAG_IS_CUSTOM \<noteq> 0 then custom p s
         else if type = PBUF_POOL then Some (memp_free MEMP_PBUF_POOL p s)
         else if type = PBUF_ROM \<or> type = PBUF_REF then Some (memp_free MEMP_PBUF p s)
         else free env p s)"

partial_function (option) pbuf_free_loop :: "(addr \<Rightarrow> 'a penv) \<Rightarrow> 'a penv \<Rightarrow> addr \<Rightarrow> os_u8 \<Rightarrow> 'a pbkernel_scheme \<Rightarrow>
    (os_u8 \<times> 'a pbkernel_scheme) option" where
  "pbuf_free_loop custom env p count s =
     (if p = NULL then Some (count, s)
      else do {
        let s = upd_pbuf p (\<lambda>x. x\<lparr>pb_ref := pb_ref x - 1\<rparr>) s;
        if pb_ref (pbufs s p) = 0
        then do {
          let q = pb_next (pbufs s p);
          s \<leftarrow> pbuf_dealloc custom env p s;
          pbuf_free_loop custom env q (count + 1) s
        }
        else Some (count, s)
      })"

definition pbuf_free :: "(addr \<Rightarrow> 'a penv) \<Rightarrow> 'a penv \<Rightarrow> addr \<Rightarrow> 'a pbkernel_scheme \<Rightarrow> (os_u8 \<times> 'a pbkernel_scheme) option" where
  "pbuf_free custom env p s = (if p = NULL then Some (0, s) else pbuf_free_loop custom env p 0 s)"

section \<open>Allocation\<close>

definition pbuf_offset :: "nat \<Rightarrow> os_u16 option" where
  "pbuf_offset layer =
     (if layer = PBUF_TRANSPORT then Some (PBUF_LINK_HLEN + PBUF_IP_HLEN + PBUF_TRANSPORT_HLEN)
      else if layer = PBUF_IP then Some (PBUF_LINK_HLEN + PBUF_IP_HLEN)
      else if layer = PBUF_LINK then Some PBUF_LINK_HLEN
      else if layer = PBUF_RAW then Some 0
      else None)"

text \<open>The loop that allocates the tail of a pool chain: \<open>p\<close> is the head, \<open>r\<close> the last buffer so far.\<close>

partial_function (option) pbuf_alloc_tail :: "(addr \<Rightarrow> 'a penv) \<Rightarrow> 'a penv \<Rightarrow> addr \<Rightarrow> addr \<Rightarrow> int \<Rightarrow> 'a pbkernel_scheme \<Rightarrow>
    (addr \<times> 'a pbkernel_scheme) option" where
  "pbuf_alloc_tail custom env p r rem_len s =
     (if rem_len > 0
      then do {
        let (q, s) = memp_malloc MEMP_PBUF_POOL s;
        if q = NULL then do { (n, s) \<leftarrow> pbuf_free custom env p s; Some (NULL, s) }
        else do {
          let s = upd_pbuf q (\<lambda>x. x\<lparr>pb_type := PBUF_POOL, pb_flags := 0, pb_next := NULL\<rparr>) s;
          let s = upd_pbuf r (\<lambda>x. x\<lparr>pb_next := q\<rparr>) s;
          let s = upd_pbuf q (\<lambda>x. x\<lparr>pb_tot_len := word_of_int rem_len,
                    pb_len := min (word_of_int rem_len) PBUF_POOL_BUFSIZE_ALIGNED,
                    pb_payload := q + SIZEOF_STRUCT_PBUF, pb_ref := 1\<rparr>) s;
          pbuf_alloc_tail custom env p q (rem_len - uint (pb_len (pbufs s q))) s
        }
      }
      else Some (p, s))"

definition pool_room :: "os_u16 \<Rightarrow> os_u16" where
  "pool_room offset = ucast (ucast PBUF_POOL_BUFSIZE_ALIGNED - LWIP_MEM_ALIGN_SIZE (ucast offset))"

definition pbuf_alloc_pool :: "(addr \<Rightarrow> 'a penv) \<Rightarrow> 'a penv \<Rightarrow> os_u16 \<Rightarrow> os_u16 \<Rightarrow> 'a pbkernel_scheme \<Rightarrow>
    (addr \<times> 'a pbkernel_scheme) option" where
  "pbuf_alloc_pool custom env offset len s =
     (let (p, s) = memp_malloc MEMP_PBUF_POOL s
      in if p = NULL then Some (NULL, s)
         else let s = upd_pbuf p (\<lambda>x. x\<lparr>pb_type := PBUF_POOL, pb_next := NULL,
                    pb_payload := LWIP_MEM_ALIGN (p + (SIZEOF_STRUCT_PBUF + ucast offset)), pb_tot_len := len,
                    pb_len := min len (pool_room offset), pb_ref := 1\<rparr>) s
              in pbuf_alloc_tail custom env p p (uint len - uint (pb_len (pbufs s p))) s)"

definition pbuf_alloc :: "(addr \<Rightarrow> 'a penv) \<Rightarrow> 'a penv \<Rightarrow> nat \<Rightarrow> os_u16 \<Rightarrow> os_u8 \<Rightarrow> 'a pbkernel_scheme \<Rightarrow>
    (addr \<times> 'a pbkernel_scheme) option" where
  "pbuf_alloc custom env layer len type s =
     (case pbuf_offset layer of None \<Rightarrow> Some (NULL, s)
      | Some offset \<Rightarrow> do {
          (p, s) \<leftarrow>
            (if type = PBUF_POOL then pbuf_alloc_pool custom env offset len s
             else if type = PBUF_RAM
             then do {
               (p, s) \<leftarrow> malloc env (LWIP_MEM_ALIGN_SIZE (SIZEOF_STRUCT_PBUF + ucast offset) + LWIP_MEM_ALIGN_SIZE (ucast len)) s;
               if p = NULL then Some (NULL, s)
               else Some (p, upd_pbuf p (\<lambda>x. x\<lparr>pb_payload := LWIP_MEM_ALIGN (p + SIZEOF_STRUCT_PBUF + ucast offset),
                      pb_len := len, pb_tot_len := len, pb_next := NULL, pb_type := type\<rparr>) s)
             }
             else if type = PBUF_ROM \<or> type = PBUF_REF
             then let (p, s) = memp_malloc MEMP_PBUF s
                  in if p = NULL then Some (NULL, s)
                     else Some (p, upd_pbuf p (\<lambda>x. x\<lparr>pb_payload := NULL, pb_len := len, pb_tot_len := len, pb_next := NULL,
                            pb_type := type\<rparr>) s)
             else Some (NULL, s));
          Some (p, if p = NULL then s else upd_pbuf p (\<lambda>x. x\<lparr>pb_ref := 1, pb_flags := 0\<rparr>) s)
        })"

definition pbuf_alloced_custom :: "nat \<Rightarrow> os_u16 \<Rightarrow> os_u8 \<Rightarrow> addr \<Rightarrow> addr \<Rightarrow> os_u16 \<Rightarrow> 'a pbkernel_scheme \<Rightarrow>
    addr \<times> 'a pbkernel_scheme" where
  "pbuf_alloced_custom l len type p payload_mem payload_mem_len s =
     (case pbuf_offset l of None \<Rightarrow> (NULL, s)
      | Some offset \<Rightarrow>
          if uint (LWIP_MEM_ALIGN_SIZE (ucast offset)) + uint len > uint payload_mem_len then (NULL, s)
          else (p, upd_pbuf p (\<lambda>x. x\<lparr>pb_next := NULL,
                     pb_payload := if payload_mem \<noteq> NULL then payload_mem + LWIP_MEM_ALIGN_SIZE (ucast offset) else NULL,
                     pb_flags := PBUF_FLAG_IS_CUSTOM, pb_len := len, pb_tot_len := len, pb_type := type, pb_ref := 1\<rparr>) s))"

section \<open>Lengths and references\<close>

text \<open>\<^verbatim>\<open>mem_trim\<close> is the identity with the C library's heap.\<close>

partial_function (option) pbuf_realloc_loop :: "addr \<Rightarrow> os_u16 \<Rightarrow> os_u16 \<Rightarrow> 'a pbkernel_scheme \<Rightarrow>
    (addr \<times> os_u16 \<times> 'a pbkernel_scheme) option" where
  "pbuf_realloc_loop q rem_len grow s =
     (if q = NULL then None
      else if rem_len > pb_len (pbufs s q)
      then pbuf_realloc_loop (pb_next (pbufs s q)) (rem_len - pb_len (pbufs s q)) grow
             (upd_pbuf q (\<lambda>x. x\<lparr>pb_tot_len := pb_tot_len x + grow\<rparr>) s)
      else Some (q, rem_len, s))"

definition pbuf_realloc :: "(addr \<Rightarrow> 'a penv) \<Rightarrow> 'a penv \<Rightarrow> addr \<Rightarrow> os_u16 \<Rightarrow> 'a penv" where
  "pbuf_realloc custom env p new_len s =
     (if p = NULL then None
      else if new_len \<ge> pb_tot_len (pbufs s p) then Some s
      else do {
        let grow = new_len - pb_tot_len (pbufs s p);
        (q, rem_len, s) \<leftarrow> pbuf_realloc_loop p new_len grow s;
        let s = upd_pbuf q (\<lambda>x. x\<lparr>pb_len := rem_len, pb_tot_len := rem_len\<rparr>) s;
        (n, s) \<leftarrow> (if pb_next (pbufs s q) \<noteq> NULL then pbuf_free custom env (pb_next (pbufs s q)) s else Some (0, s));
        Some (upd_pbuf q (\<lambda>x. x\<lparr>pb_next := NULL\<rparr>) s)
      })"

text \<open>The increment is a signed 16-bit value.\<close>

definition pbuf_header :: "addr \<Rightarrow> int \<Rightarrow> 'a pbkernel_scheme \<Rightarrow> os_u8 \<times> 'a pbkernel_scheme" where
  "pbuf_header p inc s =
     (if inc = 0 \<or> p = NULL then (0, s)
      else let increment_magnitude = (if inc < 0 then word_of_int (- inc) else word_of_int inc) :: os_u16;
               type = pb_type (pbufs s p);
               payload = pb_payload (pbufs s p) - word_of_int inc;
               grow = (\<lambda>s. upd_pbuf p (\<lambda>x. x\<lparr>pb_len := pb_len x + word_of_int inc, pb_tot_len := pb_tot_len x + word_of_int inc\<rparr>) s);
               move = (\<lambda>s. upd_pbuf p (\<lambda>x. x\<lparr>pb_payload := payload\<rparr>) s)
           in if inc < 0 \<and> increment_magnitude > pb_len (pbufs s p) then (1, s)
              else if type = PBUF_RAM \<or> type = PBUF_POOL
              then if payload < p + SIZEOF_STRUCT_PBUF then (1, s) else (0, grow (move s))
              else if type = PBUF_REF \<or> type = PBUF_ROM
              then if inc < 0 \<and> increment_magnitude \<le> pb_len (pbufs s p) then (0, grow (move s)) else (1, s)
              else (1, s))"

partial_function (option) pbuf_clen_loop :: "addr \<Rightarrow> os_u8 \<Rightarrow> 'a pbkernel_scheme \<Rightarrow> os_u8 option" where
  "pbuf_clen_loop p len s = (if p = NULL then Some len else pbuf_clen_loop (pb_next (pbufs s p)) (len + 1) s)"

definition pbuf_clen :: "addr \<Rightarrow> 'a pbkernel_scheme \<Rightarrow> os_u8 option" where
  "pbuf_clen p s = pbuf_clen_loop p 0 s"

definition pbuf_ref :: "addr \<Rightarrow> 'a pbkernel_scheme \<Rightarrow> 'a pbkernel_scheme" where
  "pbuf_ref p s = (if p \<noteq> NULL then upd_pbuf p (\<lambda>x. x\<lparr>pb_ref := pb_ref x + 1\<rparr>) s else s)"

partial_function (option) pbuf_cat_loop :: "addr \<Rightarrow> addr \<Rightarrow> 'a pbkernel_scheme \<Rightarrow> (addr \<times> 'a pbkernel_scheme) option" where
  "pbuf_cat_loop p t s =
     (if pb_next (pbufs s p) \<noteq> NULL
      then let s = upd_pbuf p (\<lambda>x. x\<lparr>pb_tot_len := pb_tot_len x + pb_tot_len (pbufs s t)\<rparr>) s
           in pbuf_cat_loop (pb_next (pbufs s p)) t s
      else Some (p, s))"

definition pbuf_cat :: "addr \<Rightarrow> addr \<Rightarrow> 'a penv" where
  "pbuf_cat h t s =
     (if h = NULL \<or> t = NULL then Some s
      else do {
        (p, s) \<leftarrow> pbuf_cat_loop h t s;
        Some (upd_pbuf p (\<lambda>x. x\<lparr>pb_tot_len := pb_tot_len x + pb_tot_len (pbufs s t), pb_next := t\<rparr>) s)
      })"

definition pbuf_chain :: "addr \<Rightarrow> addr \<Rightarrow> 'a penv" where
  "pbuf_chain h t s = do { s \<leftarrow> pbuf_cat h t s; Some (pbuf_ref t s) }"

definition pbuf_dechain :: "(addr \<Rightarrow> 'a penv) \<Rightarrow> 'a penv \<Rightarrow> addr \<Rightarrow> 'a pbkernel_scheme \<Rightarrow> (addr \<times> 'a pbkernel_scheme) option" where
  "pbuf_dechain custom env p s =
     (if p = NULL then None
      else let q = pb_next (pbufs s p)
      in if q \<noteq> NULL
         then do {
           let s = upd_pbuf q (\<lambda>x. x\<lparr>pb_tot_len := pb_tot_len (pbufs s p) - pb_len (pbufs s p)\<rparr>) s;
           let s = upd_pbuf p (\<lambda>x. x\<lparr>pb_next := NULL, pb_tot_len := pb_len x\<rparr>) s;
           (tail_gone, s) \<leftarrow> pbuf_free custom env q s;
           Some (if tail_gone > 0 then NULL else q, s)
         }
         else Some (NULL, s))"

section \<open>Copying\<close>

definition MEMCPY :: "addr \<Rightarrow> addr \<Rightarrow> os_u16 \<Rightarrow> 'a pbkernel_scheme \<Rightarrow> 'a pbkernel_scheme" where
  "MEMCPY dst src len s = s\<lparr>mem8 := snd (memcpy dst src (ucast len) (mem8 s))\<rparr>"

text \<open>One round of the loop of \<^verbatim>\<open>pbuf_copy\<close> after another; the result is the error code.\<close>

partial_function (option) pbuf_copy_loop :: "addr \<Rightarrow> os_u16 \<Rightarrow> addr \<Rightarrow> os_u16 \<Rightarrow> 'a pbkernel_scheme \<Rightarrow>
    (int \<times> 'a pbkernel_scheme) option" where
  "pbuf_copy_loop p_to offset_to p_from offset_from s =
     (if p_to = NULL then None
      else
        let room = uint (pb_len (pbufs s p_to)) - uint offset_to;
            rest = uint (pb_len (pbufs s p_from)) - uint offset_from;
            len = word_of_int (if room \<ge> rest then rest else room) :: os_u16;
            s = MEMCPY (pb_payload (pbufs s p_to) + ucast offset_to) (pb_payload (pbufs s p_from) + ucast offset_from) len s;
            offset_to = offset_to + len;
            offset_from = offset_from + len;
            (offset_from, p_from) = (if offset_from \<ge> pb_len (pbufs s p_from) then (0, pb_next (pbufs s p_from))
                                     else (offset_from, p_from));
            to_done = (offset_to = pb_len (pbufs s p_to));
            (offset_to, p_to) = (if to_done then (0, pb_next (pbufs s p_to)) else (offset_to, p_to))
        in if to_done \<and> p_to = NULL \<and> p_from \<noteq> NULL then Some (ERR_ARG, s)
           else if p_from \<noteq> NULL \<and> pb_len (pbufs s p_from) = pb_tot_len (pbufs s p_from) \<and> pb_next (pbufs s p_from) \<noteq> NULL
           then Some (ERR_VAL, s)
           else if p_to \<noteq> NULL \<and> pb_len (pbufs s p_to) = pb_tot_len (pbufs s p_to) \<and> pb_next (pbufs s p_to) \<noteq> NULL
           then Some (ERR_VAL, s)
           else if p_from \<noteq> NULL then pbuf_copy_loop p_to offset_to p_from offset_from s
           else Some (ERR_OK, s))"

definition pbuf_copy :: "addr \<Rightarrow> addr \<Rightarrow> 'a pbkernel_scheme \<Rightarrow> (int \<times> 'a pbkernel_scheme) option" where
  "pbuf_copy p_to p_from s =
     (if p_to = NULL \<or> p_from = NULL \<or> pb_tot_len (pbufs s p_to) < pb_tot_len (pbufs s p_from) then Some (ERR_ARG, s)
      else pbuf_copy_loop p_to 0 p_from 0 s)"

partial_function (option) pbuf_copy_partial_loop :: "addr \<Rightarrow> addr \<Rightarrow> os_u16 \<Rightarrow> os_u16 \<Rightarrow> os_u16 \<Rightarrow> os_u16 \<Rightarrow>
    'a pbkernel_scheme \<Rightarrow> (os_u16 \<times> 'a pbkernel_scheme) option" where
  "pbuf_copy_partial_loop p dataptr len offset left copied_total s =
     (if len = 0 \<or> p = NULL then Some (copied_total, s)
      else
        let next = (\<lambda>s. pb_next (pbufs s p)); n = pb_len (pbufs s p)
        in if offset \<noteq> 0 \<and> offset \<ge> n then pbuf_copy_partial_loop (next s) dataptr len (offset - n) left copied_total s
           else let buf_copy_len = (if n - offset > len then len else n - offset);
                    s = MEMCPY (dataptr + ucast left) (pb_payload (pbufs s p) + ucast offset) buf_copy_len s
                in pbuf_copy_partial_loop (next s) dataptr (len - buf_copy_len) 0 (left + buf_copy_len)
                     (copied_total + buf_copy_len) s)"

definition pbuf_copy_partial :: "addr \<Rightarrow> addr \<Rightarrow> os_u16 \<Rightarrow> os_u16 \<Rightarrow> 'a pbkernel_scheme \<Rightarrow> (os_u16 \<times> 'a pbkernel_scheme) option" where
  "pbuf_copy_partial buf dataptr len offset s =
     (if buf = NULL \<or> dataptr = NULL then Some (0, s) else pbuf_copy_partial_loop buf dataptr len offset 0 0 s)"

partial_function (option) pbuf_take_loop :: "addr \<Rightarrow> addr \<Rightarrow> os_u16 \<Rightarrow> os_u16 \<Rightarrow> 'a penv" where
  "pbuf_take_loop p dataptr total_copy_len copied_total s =
     (if total_copy_len = 0 then Some s
      else if p = NULL then None
      else let buf_copy_len = (if total_copy_len > pb_len (pbufs s p) then pb_len (pbufs s p) else total_copy_len);
               s = MEMCPY (pb_payload (pbufs s p)) (dataptr + ucast copied_total) buf_copy_len s
           in pbuf_take_loop (pb_next (pbufs s p)) dataptr (total_copy_len - buf_copy_len) (copied_total + buf_copy_len) s)"

text \<open>For a NULL argument the handlers of the first two \<^verbatim>\<open>LWIP_ERROR\<close> return 0, which is \<^verbatim>\<open>ERR_OK\<close>.\<close>

definition pbuf_take :: "addr \<Rightarrow> addr \<Rightarrow> os_u16 \<Rightarrow> 'a pbkernel_scheme \<Rightarrow> (int \<times> 'a pbkernel_scheme) option" where
  "pbuf_take buf dataptr len s =
     (if buf = NULL \<or> dataptr = NULL then Some (0, s)
      else if pb_tot_len (pbufs s buf) < len then Some (ERR_ARG, s)
      else do { s \<leftarrow> pbuf_take_loop buf dataptr len 0 s; Some (ERR_OK, s) })"

definition pbuf_coalesce :: "(addr \<Rightarrow> 'a penv) \<Rightarrow> 'a penv \<Rightarrow> addr \<Rightarrow> nat \<Rightarrow> 'a pbkernel_scheme \<Rightarrow>
    (addr \<times> 'a pbkernel_scheme) option" where
  "pbuf_coalesce custom env p layer s =
     (if p = NULL then None
      else if pb_next (pbufs s p) = NULL then Some (p, s)
      else do {
        (q, s) \<leftarrow> pbuf_alloc custom env layer (pb_tot_len (pbufs s p)) PBUF_RAM s;
        if q = NULL then Some (p, s)
        else do {
          (err, s) \<leftarrow> pbuf_copy q p s;
          (n, s) \<leftarrow> pbuf_free custom env p s;
          Some (q, s)
        }
      })"

section \<open>Searching\<close>

text \<open>The buffer that holds an offset, and the offset in it.\<close>

partial_function (option) pbuf_skip :: "addr \<Rightarrow> os_u16 \<Rightarrow> 'a pbkernel_scheme \<Rightarrow> (addr \<times> os_u16) option" where
  "pbuf_skip q copy_from s =
     (if q \<noteq> NULL \<and> pb_len (pbufs s q) \<le> copy_from
      then pbuf_skip (pb_next (pbufs s q)) (copy_from - pb_len (pbufs s q)) s
      else Some (q, copy_from))"

definition pbuf_get_at :: "addr \<Rightarrow> os_u16 \<Rightarrow> 'a pbkernel_scheme \<Rightarrow> os_u8 option" where
  "pbuf_get_at p offset s =
     do {
       (q, copy_from) \<leftarrow> pbuf_skip p offset s;
       Some (if q \<noteq> NULL \<and> pb_len (pbufs s q) > copy_from then mem8 s (pb_payload (pbufs s q) + ucast copy_from) else 0)
     }"

text \<open>The comparison loop of \<^verbatim>\<open>pbuf_memcmp\<close> from index \<open>i\<close> on, with \<open>k\<close> bytes to go.\<close>

primrec pbuf_memcmp_loop :: "nat \<Rightarrow> addr \<Rightarrow> os_u16 \<Rightarrow> addr \<Rightarrow> os_u16 \<Rightarrow> 'a pbkernel_scheme \<Rightarrow> os_u16 option" where
  "pbuf_memcmp_loop 0 q start s2 i s = Some 0"
| "pbuf_memcmp_loop (Suc k) q start s2 i s =
     do {
       a \<leftarrow> pbuf_get_at q (start + i) s;
       if a \<noteq> mem8 s (s2 + ucast i) then Some (i + 1) else pbuf_memcmp_loop k q start s2 (i + 1) s
     }"

definition pbuf_memcmp :: "addr \<Rightarrow> os_u16 \<Rightarrow> addr \<Rightarrow> os_u16 \<Rightarrow> 'a pbkernel_scheme \<Rightarrow> os_u16 option" where
  "pbuf_memcmp p offset s2 n s =
     do {
       (q, start) \<leftarrow> pbuf_skip p offset s;
       if q \<noteq> NULL \<and> pb_len (pbufs s q) > start then pbuf_memcmp_loop (unat n) q start s2 0 s else Some 0xffff
     }"

partial_function (option) pbuf_memfind_loop :: "addr \<Rightarrow> addr \<Rightarrow> os_u16 \<Rightarrow> os_u16 \<Rightarrow> os_u16 \<Rightarrow> 'a pbkernel_scheme \<Rightarrow> os_u16 option" where
  "pbuf_memfind_loop p mem mlen last_i i s =
     (if i \<le> last_i
      then do {
        plus \<leftarrow> pbuf_memcmp p i mem mlen s;
        if plus = 0 then Some i else pbuf_memfind_loop p mem mlen last_i (i + plus) s
      }
      else Some 0xffff)"

definition pbuf_memfind :: "addr \<Rightarrow> addr \<Rightarrow> os_u16 \<Rightarrow> os_u16 \<Rightarrow> 'a pbkernel_scheme \<Rightarrow> os_u16 option" where
  "pbuf_memfind p mem mlen start_offset s =
     (if p = NULL then None
      else let last_i = pb_tot_len (pbufs s p) - mlen
      in if uint (pb_tot_len (pbufs s p)) \<ge> uint mlen + uint start_offset
         then pbuf_memfind_loop p mem mlen last_i start_offset s
         else Some 0xffff)"

definition pbuf_strstr :: "addr \<Rightarrow> addr \<Rightarrow> 'a pbkernel_scheme \<Rightarrow> os_u16 option" where
  "pbuf_strstr p substr s =
     (if substr = NULL \<or> mem8 s substr = 0 then Some 0xffff
      else if p = NULL then None
      else if pb_tot_len (pbufs s p) = 0xffff then Some 0xffff
      else do {
        substr_len \<leftarrow> strlen (mem8 s) substr;
        if substr_len \<ge> 0xffff then Some 0xffff else pbuf_memfind p substr (ucast substr_len) 0 s
      })"

section \<open>Chains\<close>

primrec pchain :: "(addr \<Rightarrow> pbuf) \<Rightarrow> addr \<Rightarrow> addr list \<Rightarrow> bool" where
  "pchain f p [] \<longleftrightarrow> p = NULL"
| "pchain f p (a # as) \<longleftrightarrow> p = a \<and> a \<noteq> NULL \<and> pchain f (pb_next (f a)) as"

lemma pchain_NULL [simp]: "pchain f NULL xs \<longleftrightarrow> xs = []"
  by (cases xs) auto

lemma pchain_unique: "pchain f p xs \<Longrightarrow> pchain f p ys \<Longrightarrow> xs = ys"
proof (induction xs arbitrary: p ys)
  case (Cons a xs)
  then show ?case by (cases ys) auto
qed simp

lemma pchain_append: "pchain f p (xs @ y # ys) \<Longrightarrow> pchain f y (y # ys)"
  by (induction xs arbitrary: p) auto

lemma pchain_distinct: "pchain f p xs \<Longrightarrow> distinct xs"
proof (induction xs arbitrary: p)
  case (Cons a xs)
  have "a \<notin> set xs"
  proof
    assume "a \<in> set xs"
    then obtain us vs where xs: "xs = us @ a # vs" by (auto dest: split_list)
    then have "pchain f a (a # vs)" using Cons.prems pchain_append [of f p "a # us" a vs] by simp
    then have "xs = vs" using Cons.prems pchain_unique by auto
    then show False using xs by simp
  qed
  then show ?case using Cons by auto
qed simp

lemma pchain_cong: "(\<And>a. a \<in> set xs \<Longrightarrow> pb_next (f a) = pb_next (g a)) \<Longrightarrow> pchain f p xs = pchain g p xs"
  by (induction xs arbitrary: p) auto

lemma pchain_not_NULL: "pchain f p xs \<Longrightarrow> NULL \<notin> set xs"
  by (induction xs arbitrary: p) auto

lemma pchain_upd_other: "a \<notin> set xs \<Longrightarrow> pchain (f(a := x)) p xs = pchain f p xs"
  by (rule pchain_cong) auto

lemma pchain_snoc:
  assumes "pchain f p (xs @ [r])" and "q \<noteq> NULL" and "q \<notin> set (xs @ [r])" and "pb_next (f q) = NULL"
  shows "pchain (f(r := (f r)\<lparr>pb_next := q\<rparr>)) p (xs @ [r, q])"
  using assms
proof (induction xs arbitrary: p)
  case (Cons a xs)
  then have "a \<noteq> r" using pchain_distinct [OF Cons.prems(1)] by auto
  then show ?case using Cons by auto
qed auto

text \<open>The lengths of a chain, and the invariant of the total lengths that \<^verbatim>\<open>pbuf.h\<close> states.\<close>

definition plen :: "(addr \<Rightarrow> pbuf) \<Rightarrow> addr list \<Rightarrow> nat" where
  "plen f xs = sum_list (map (\<lambda>a. unat (pb_len (f a))) xs)"

primrec ptot :: "(addr \<Rightarrow> pbuf) \<Rightarrow> addr list \<Rightarrow> bool" where
  "ptot f [] \<longleftrightarrow> True"
| "ptot f (a # as) \<longleftrightarrow> unat (pb_tot_len (f a)) = plen f (a # as) \<and> ptot f as"

lemma plen_simps [simp]: "plen f [] = 0" "plen f (a # as) = unat (pb_len (f a)) + plen f as"
    "plen f (xs @ ys) = plen f xs + plen f ys"
  by (simp_all add: plen_def)

lemma plen_cong: "(\<And>a. a \<in> set xs \<Longrightarrow> pb_len (f a) = pb_len (g a)) \<Longrightarrow> plen f xs = plen g xs"
  by (induction xs) auto

lemma ptot_cong:
  "(\<And>a. a \<in> set xs \<Longrightarrow> pb_len (f a) = pb_len (g a) \<and> pb_tot_len (f a) = pb_tot_len (g a)) \<Longrightarrow> ptot f xs = ptot g xs"
proof (induction xs)
  case (Cons a xs)
  then show ?case using plen_cong [of xs f g] by auto
qed simp

lemma upd_pbuf_simps [simp]:
  "pbufs (upd_pbuf a f s) = (pbufs s)(a := f (pbufs s a))"
  "memp_tab (upd_pbuf a f s) = memp_tab s" "mem8 (upd_pbuf a f s) = mem8 s" "heap (upd_pbuf a f s) = heap s"
  by (simp_all add: upd_pbuf_def)

section \<open>The pools as lists\<close>

definition pool :: "nat \<Rightarrow> 'a pbkernel_scheme \<Rightarrow> addr list \<Rightarrow> bool" where
  "pool i s fl \<longleftrightarrow> pchain (pbufs s) (memp_tab s i) fl"

lemma memp_malloc_pool:
  assumes "pool i s fl" and "i < MEMP_MAX"
  shows "memp_malloc i s = (case fl of [] \<Rightarrow> (NULL, s)
    | a # as \<Rightarrow> (a, s\<lparr>memp_tab := (memp_tab s)(i := pb_next (pbufs s a))\<rparr>))"
  using assms by (cases fl) (auto simp: pool_def memp_malloc_def)

lemma memp_free_pool:
  assumes "pool i s fl" and "a \<noteq> NULL" and "a \<notin> set fl"
  shows "pool i (memp_free i a s) (a # fl)"
  using assms by (simp add: pool_def memp_free_def upd_pbuf_def Let_def pchain_upd_other)

lemma memp_free_other:
  assumes "pool j s fl" and "a \<notin> set fl" and "i \<noteq> j"
  shows "pool j (memp_free i a s) fl"
  using assms by (simp add: pool_def memp_free_def upd_pbuf_def Let_def pchain_upd_other)

section \<open>Releasing\<close>

text \<open>The buffers that go back to a pool, and the one they go to.\<close>

definition pooled :: "pbuf \<Rightarrow> bool" where
  "pooled x \<longleftrightarrow> pb_flags x AND PBUF_FLAG_IS_CUSTOM = 0 \<and> pb_type x \<in> {PBUF_POOL, PBUF_ROM, PBUF_REF}"

definition pool_no :: "pbuf \<Rightarrow> nat" where
  "pool_no x = (if pb_type x = PBUF_POOL then MEMP_PBUF_POOL else MEMP_PBUF)"

text \<open>The buffers from the head of a chain that have one reference.\<close>

definition unshared :: "(addr \<Rightarrow> pbuf) \<Rightarrow> addr list \<Rightarrow> addr list" where
  "unshared f xs = takeWhile (\<lambda>a. pb_ref (f a) = 1) xs"

definition freed_from :: "nat \<Rightarrow> (addr \<Rightarrow> pbuf) \<Rightarrow> addr list \<Rightarrow> addr list" where
  "freed_from i f xs = rev (filter (\<lambda>a. pool_no (f a) = i) (unshared f xs))"

text \<open>Two states that differ in the buffers \<open>A\<close> and the two pools of buffers only.\<close>

definition same_but :: "addr set \<Rightarrow> 'a pbkernel_scheme \<Rightarrow> 'a pbkernel_scheme \<Rightarrow> bool" where
  "same_but A s s' \<longleftrightarrow> (\<forall>f t. s'\<lparr>pbufs := f, memp_tab := t\<rparr> = s\<lparr>pbufs := f, memp_tab := t\<rparr>) \<and> (\<forall>a. a \<notin> A \<longrightarrow> pbufs s' a = pbufs s a) \<and>
     (\<forall>i. i \<noteq> MEMP_PBUF \<longrightarrow> i \<noteq> MEMP_PBUF_POOL \<longrightarrow> memp_tab s' i = memp_tab s i)"

lemma same_but_refl [simp]: "same_but A s s"
  by (simp add: same_but_def)

lemma same_but_trans: "same_but A s s' \<Longrightarrow> same_but B s' s'' \<Longrightarrow> A \<subseteq> C \<Longrightarrow> B \<subseteq> C \<Longrightarrow> same_but C s s''"
  unfolding same_but_def by (metis subsetD)

lemma same_but_eq: "same_but A s s' \<Longrightarrow> s' = s\<lparr>pbufs := pbufs s', memp_tab := memp_tab s'\<rparr>"
proof -
  assume "same_but A s s'"
  then have "s'\<lparr>pbufs := f, memp_tab := t\<rparr> = s\<lparr>pbufs := f, memp_tab := t\<rparr>" for f t
    unfolding same_but_def by blast
  from this [where f = "pbufs s'" and t = "memp_tab s'"] show ?thesis by simp
qed

lemma same_but_at: "same_but A s s' \<Longrightarrow> a \<notin> A \<Longrightarrow> pbufs s' a = pbufs s a"
  by (simp add: same_but_def)

lemma same_but_more:
  assumes "same_but A s s'"
  shows "mem8 s' = mem8 s" and "heap s' = heap s" and "links s' = links s"
  by (subst same_but_eq [OF assms], simp)+

lemma pooled_dealloc:
  assumes "pooled (pbufs s p)"
  shows "pbuf_dealloc custom env p s = Some (memp_free (pool_no (pbufs s p)) p s)"
  using assms by (auto simp: pbuf_dealloc_def pooled_def pool_no_def)

lemma same_but_free:
  assumes "pool_no (pbufs s a) = i"
  shows "same_but {a} s (memp_free i a (upd_pbuf a g s))"
  using assms by (auto simp: same_but_def memp_free_def upd_pbuf_def pool_no_def)

lemma free_loop_spec:
  assumes "pchain (pbufs s) p xs" and "\<And>a. a \<in> set (unshared (pbufs s) xs) \<Longrightarrow> pooled (pbufs s a)"
    and "pool MEMP_PBUF s f7" and "pool MEMP_PBUF_POOL s f8"
    and "set xs \<inter> (set f7 \<union> set f8) = {}" and "set f7 \<inter> set f8 = {}"
  defines "n \<equiv> length (unshared (pbufs s) xs)"
  shows "\<exists>s'. pbuf_free_loop custom env p c s = Some (c + of_nat n, s') \<and> same_but (set (take (Suc n) xs)) s s' \<and>
    pool MEMP_PBUF s' (freed_from MEMP_PBUF (pbufs s) xs @ f7) \<and>
    pool MEMP_PBUF_POOL s' (freed_from MEMP_PBUF_POOL (pbufs s) xs @ f8) \<and>
    (n < length xs \<longrightarrow> pbufs s' (xs ! n) = (pbufs s (xs ! n))\<lparr>pb_ref := pb_ref (pbufs s (xs ! n)) - 1\<rparr>)"
  using assms(1-6) unfolding n_def
proof (induction xs arbitrary: p c s f7 f8)
  case Nil
  then show ?case by (simp add: pbuf_free_loop.simps unshared_def freed_from_def)
next
  case (Cons a xs)
  let ?s1 = "upd_pbuf a (\<lambda>x. x\<lparr>pb_ref := pb_ref x - 1\<rparr>) s"
  have a: "p = a" "a \<noteq> NULL" and ch: "pchain (pbufs s) (pb_next (pbufs s a)) xs" and fresh: "a \<notin> set xs"
    using Cons.prems(1) pchain_distinct [OF Cons.prems(1)] by auto
  have nin: "a \<notin> set f7" "a \<notin> set f8" using Cons.prems(5) by auto
  show ?case
  proof (cases "pb_ref (pbufs s a) = 1")
    case False
    then have "pb_ref (pbufs s a) - 1 \<noteq> 0" by simp
    then have "pbuf_free_loop custom env p c s = Some (c, ?s1)"
      using a by (simp add: pbuf_free_loop.simps)
    moreover have "pool MEMP_PBUF ?s1 f7" "pool MEMP_PBUF_POOL ?s1 f8"
      using Cons.prems(3,4) nin by (simp_all add: pool_def pchain_upd_other)
    ultimately show ?thesis
      using False by (auto simp: unshared_def freed_from_def same_but_def upd_pbuf_def)
  next
    case True
    let ?i = "pool_no (pbufs s a)"
    define s2 where "s2 = memp_free ?i a ?s1"
    have "pooled (pbufs s a)" using Cons.prems(2) True by (simp add: unshared_def)
    then have "pooled (pbufs ?s1 a)" and "pool_no (pbufs ?s1 a) = ?i" by (simp_all add: pooled_def pool_no_def)
    then have step: "pbuf_free_loop custom env p c s = pbuf_free_loop custom env (pb_next (pbufs s a)) (c + 1) s2"
      using a True by (simp add: pbuf_free_loop.simps [of custom env a] pooled_dealloc s2_def)
    have keep: "pbufs s2 b = pbufs s b" if "b \<noteq> a" for b
      using that by (simp add: memp_free_def upd_pbuf_def s2_def)
    have keeps: "pbufs s2 b = pbufs s b" if "b \<in> set xs" for b
      using keep [of b] fresh that by auto
    have un: "unshared (pbufs s2) xs = unshared (pbufs s) xs"
      unfolding unshared_def by (intro takeWhile_cong refl) (simp add: keeps)
    have sub: "b \<in> set xs" if "b \<in> set (unshared (pbufs s) xs)" for b
      using that by (auto simp: unshared_def dest: set_takeWhileD)
    have fr: "freed_from i (pbufs s2) xs = freed_from i (pbufs s) xs" for i
      unfolding freed_from_def un by (intro arg_cong [of _ _ rev] filter_cong refl) (simp add: keeps sub)
    have un1: "unshared (pbufs s) (a # xs) = a # unshared (pbufs s) xs" using True by (simp add: unshared_def)
    define g7 g8 where "g7 = (if ?i = MEMP_PBUF then a # f7 else f7)" and "g8 = (if ?i = MEMP_PBUF_POOL then a # f8 else f8)"
    have no: "?i = MEMP_PBUF \<or> ?i = MEMP_PBUF_POOL" and ne: "MEMP_PBUF \<noteq> MEMP_PBUF_POOL"
      by (simp_all add: pool_no_def MEMP_PBUF_def MEMP_PBUF_POOL_def)
    have "pool MEMP_PBUF ?s1 f7" "pool MEMP_PBUF_POOL ?s1 f8"
      using Cons.prems(3,4) nin by (simp_all add: pool_def pchain_upd_other)
    then have pools: "pool MEMP_PBUF s2 g7" "pool MEMP_PBUF_POOL s2 g8"
      using no ne nin a(2) unfolding s2_def g7_def g8_def
      by (auto simp: memp_free_pool memp_free_other)
    have same: "same_but {a} s s2"
      unfolding s2_def by (rule same_but_free) simp
    have "\<exists>s'. pbuf_free_loop custom env (pb_next (pbufs s a)) (c + 1) s2 = Some (c + 1 + of_nat (length (unshared (pbufs s) xs)), s') \<and>
      same_but (set (take (Suc (length (unshared (pbufs s) xs))) xs)) s2 s' \<and>
      pool MEMP_PBUF s' (freed_from MEMP_PBUF (pbufs s) xs @ g7) \<and>
      pool MEMP_PBUF_POOL s' (freed_from MEMP_PBUF_POOL (pbufs s) xs @ g8) \<and>
      (length (unshared (pbufs s) xs) < length xs \<longrightarrow> pbufs s' (xs ! length (unshared (pbufs s) xs)) =
         (pbufs s2 (xs ! length (unshared (pbufs s) xs)))\<lparr>pb_ref := pb_ref (pbufs s2 (xs ! length (unshared (pbufs s) xs))) - 1\<rparr>)"
      unfolding un [symmetric] fr [symmetric]
    proof (rule Cons.IH)
      show "pchain (pbufs s2) (pb_next (pbufs s a)) xs" using ch pchain_cong [of xs "pbufs s2" "pbufs s"] keeps by auto
      show "pooled (pbufs s2 b)" if "b \<in> set (unshared (pbufs s2) xs)" for b
        using that Cons.prems(2) [of b] sub keeps by (auto simp: un un1)
      show "set xs \<inter> (set g7 \<union> set g8) = {}" "set g7 \<inter> set g8 = {}"
        using Cons.prems(5,6) fresh nin ne by (auto simp: g7_def g8_def)
    qed (use pools in simp_all)
    then obtain s' where run: "pbuf_free_loop custom env p c s = Some (c + of_nat (length (unshared (pbufs s) (a # xs))), s')"
        and rest: "same_but (set (take (Suc (length (unshared (pbufs s) xs))) xs)) s2 s'"
        "pool MEMP_PBUF s' (freed_from MEMP_PBUF (pbufs s) xs @ g7)"
        "pool MEMP_PBUF_POOL s' (freed_from MEMP_PBUF_POOL (pbufs s) xs @ g8)"
        "length (unshared (pbufs s) xs) < length xs \<Longrightarrow> pbufs s' (xs ! length (unshared (pbufs s) xs)) =
         (pbufs s (xs ! length (unshared (pbufs s) xs)))\<lparr>pb_ref := pb_ref (pbufs s (xs ! length (unshared (pbufs s) xs))) - 1\<rparr>"
      using keeps by (auto simp: step un1 add.assoc)
    have "freed_from MEMP_PBUF (pbufs s) xs @ g7 = freed_from MEMP_PBUF (pbufs s) (a # xs) @ f7"
      "freed_from MEMP_PBUF_POOL (pbufs s) xs @ g8 = freed_from MEMP_PBUF_POOL (pbufs s) (a # xs) @ f8"
      by (simp_all add: freed_from_def un1 g7_def g8_def)
    moreover have "same_but (set (take (Suc (length (unshared (pbufs s) (a # xs)))) (a # xs))) s s'"
      by (rule same_but_trans [OF same rest(1)]) (auto simp: un1)
    ultimately show ?thesis using run rest(2-4) by (auto simp: un1)
  qed
qed

end
