(* ===== verification/Pbuf_Alloc.thy ===== *)
theory Pbuf_Alloc
  imports Pbuf
begin

text \<open>
  Allocating and releasing packets: an allocation takes the buffers of a chain from the pool or, when the pool runs out, gives all of them back;
  releasing follows the reference counts.
\<close>

section \<open>Allocating from the pool\<close>

fun chunks :: "nat \<Rightarrow> nat list" where
  "chunks n = (if n = 0 then [] else min n 1500 # chunks (n - 1500))"

declare chunks.simps [simp del]

lemma chunks_0 [simp]: "chunks 0 = []"
  by (simp add: chunks.simps)

lemma chunks_pos: "0 < n \<Longrightarrow> chunks n = min n 1500 # chunks (n - 1500)"
  by (simp add: chunks.simps)

lemma sum_list_chunks: "sum_list (chunks n) = n"
  by (induction n rule: chunks.induct) (subst chunks.simps, auto)

lemma chunks_le: "x \<in> set (chunks n) \<Longrightarrow> x \<le> 1500"
proof (induction n rule: chunks.induct)
  case (1 n)
  then show ?case by (cases "n = 0") (auto simp: chunks_pos)
qed

text \<open>A pool buffer that holds \<open>n\<close> bytes from its start.\<close>

definition pool_seg :: "(addr \<Rightarrow> pbuf) \<Rightarrow> addr \<Rightarrow> nat \<Rightarrow> bool" where
  "pool_seg f a n \<longleftrightarrow> pb_len (f a) = of_nat n \<and> pb_payload (f a) = a + SIZEOF_STRUCT_PBUF \<and> pb_type (f a) = PBUF_POOL \<and>
     pb_flags (f a) = 0 \<and> pb_ref (f a) = 1"

lemma pool_seg_cong: "f a = g a \<Longrightarrow> pool_seg f a n = pool_seg g a n"
  by (simp add: pool_seg_def)

lemma plen_segs: "list_all2 (pool_seg f) xs ns \<Longrightarrow> \<forall>n \<in> set ns. n \<le> 1500 \<Longrightarrow> plen f xs = sum_list ns"
  by (induction xs ns rule: list_all2_induct) (auto simp: pool_seg_def unsigned_of_nat take_bit_nat_eq_self)

lemma tail_step:
  fixes rem_len :: int
  assumes "0 < rem_len" and "rem_len \<le> 65535"
  defines "l \<equiv> min (word_of_int rem_len) PBUF_POOL_BUFSIZE_ALIGNED"
  shows "unat l = min (nat rem_len) 1500" and "nat (rem_len - uint l) = nat rem_len - 1500" and "0 \<le> rem_len - uint l"
    and "rem_len - uint l \<le> 65535" and "l = of_nat (min (nat rem_len) 1500)" and "unat (word_of_int rem_len :: os_u16) = nat rem_len"
proof -
  show r: "unat (word_of_int rem_len :: os_u16) = nat rem_len"
    using assms(1,2) by (simp add: unat_eq_nat_uint uint_word_of_int_eq take_bit_int_eq_self)
  show l: "unat l = min (nat rem_len) 1500"
    unfolding l_def by (simp add: min_def word_le_nat_alt r PBUF_POOL_BUFSIZE_ALIGNED_def)
  show "l = of_nat (min (nat rem_len) 1500)" by (simp flip: l)
  have "uint l = int (unat l)" by simp
  then show "nat (rem_len - uint l) = nat rem_len - 1500" "0 \<le> rem_len - uint l" "rem_len - uint l \<le> 65535"
    using l assms(1,2) by auto
qed

text \<open>One round of the allocation loop: the next pool element becomes the last buffer of the chain.\<close>

lemma alloc_tail_step:
  fixes rem_len :: int
  assumes chain: "pchain (pbufs s) p (cs @ [r])" and pool: "pool MEMP_PBUF_POOL s (q # fl)"
    and dis: "set (cs @ [r]) \<inter> set (q # fl) = {}" and pos: "0 < rem_len" and le: "rem_len \<le> 65535"
  obtains rem' s2 where
    "pbuf_alloc_tail custom env p r rem_len s = pbuf_alloc_tail custom env p q rem' s2" and
    "0 \<le> rem'" and "rem' \<le> 65535" and "chunks (nat rem_len) = min (nat rem_len) 1500 # chunks (nat rem')" and
    "nat rem_len = min (nat rem_len) 1500 + nat rem'" and
    "pchain (pbufs s2) p ((cs @ [r]) @ [q])" and "pool MEMP_PBUF_POOL s2 fl" and "same_but {q, r} s s2" and
    "pbufs s2 r = (pbufs s r)\<lparr>pb_next := q\<rparr>" and "pool_seg (pbufs s2) q (min (nat rem_len) 1500)" and
    "unat (pb_tot_len (pbufs s2 q)) = nat rem_len" and "memp_tab s2 MEMP_PBUF = memp_tab s MEMP_PBUF"
proof -
  define l where "l = (min (word_of_int rem_len) PBUF_POOL_BUFSIZE_ALIGNED :: os_u16)"
  note st = tail_step [OF pos le, folded l_def]
  define s1 where "s1 = s\<lparr>memp_tab := (memp_tab s)(MEMP_PBUF_POOL := pb_next (pbufs s q))\<rparr>"
  define x where "x = \<lparr>pb_next = NULL, pb_payload = q + SIZEOF_STRUCT_PBUF, pb_tot_len = word_of_int rem_len, pb_len = l,
    pb_type = PBUF_POOL, pb_flags = 0, pb_ref = 1\<rparr>"
  define s2 where "s2 = s1\<lparr>pbufs := (pbufs s)(q := x, r := (pbufs s r)\<lparr>pb_next := q\<rparr>)\<rparr>"
  have xeq: "(pbufs s q)\<lparr>pb_type := PBUF_POOL, pb_flags := 0, pb_next := NULL, pb_tot_len := word_of_int rem_len, pb_len := l,
      pb_payload := q + SIZEOF_STRUCT_PBUF, pb_ref := 1\<rparr> = x"
    by (rule pbuf.equality) (simp_all add: x_def)
  have q: "q \<noteq> NULL" "q \<noteq> r" "q \<notin> set cs" "q \<notin> set fl" and fl: "pchain (pbufs s) (pb_next (pbufs s q)) fl"
    using pool dis pchain_distinct [of "pbufs s" "memp_tab s MEMP_PBUF_POOL" "q # fl"] by (auto simp: pool_def)
  have rnin: "r \<notin> set fl" using dis by auto
  have "memp_malloc MEMP_PBUF_POOL s = (q, s1)"
    using memp_malloc_pool [OF pool] by (simp add: MEMP_PBUF_POOL_def MEMP_MAX_def s1_def)
  moreover have "upd_pbuf q (\<lambda>x. x\<lparr>pb_tot_len := word_of_int rem_len, pb_len := l, pb_payload := q + SIZEOF_STRUCT_PBUF, pb_ref := 1\<rparr>)
      (upd_pbuf r (\<lambda>x. x\<lparr>pb_next := q\<rparr>) (upd_pbuf q (\<lambda>x. x\<lparr>pb_type := PBUF_POOL, pb_flags := 0, pb_next := NULL\<rparr>) s1)) = s2"
    using q(2) xeq by (simp add: upd_pbuf_def s1_def s2_def fun_upd_twist)
  ultimately have run: "pbuf_alloc_tail custom env p r rem_len s = pbuf_alloc_tail custom env p q (rem_len - uint l) s2"
    using pos q(1,2) by (simp add: pbuf_alloc_tail.simps [of custom env p r] l_def [symmetric] s2_def x_def)
  show ?thesis
  proof (rule that [of "rem_len - uint l" s2])
    show "pchain (pbufs s2) p ((cs @ [r]) @ [q])"
      using pchain_snoc [of "(pbufs s)(q := x)" p cs r q] q chain by (simp add: s2_def pchain_upd_other x_def)
    show "pool MEMP_PBUF_POOL s2 fl" using fl q rnin by (simp add: pool_def s2_def s1_def pchain_upd_other)
    show "same_but {q, r} s s2" by (auto simp: same_but_def s2_def s1_def)
    show "chunks (nat rem_len) = min (nat rem_len) 1500 # chunks (nat (rem_len - uint l))"
      using chunks_pos [of "nat rem_len"] pos st(2) by simp
    show "nat rem_len = min (nat rem_len) 1500 + nat (rem_len - uint l)" using st(2) by auto
    show "pool_seg (pbufs s2) q (min (nat rem_len) 1500)" using q(2) st(5) by (simp add: pool_seg_def s2_def x_def)
    show "unat (pb_tot_len (pbufs s2 q)) = nat rem_len" using q(2) st(6) by (simp add: s2_def x_def)
  qed (use run st(3,4) in \<open>simp_all add: s2_def s1_def MEMP_PBUF_def MEMP_PBUF_POOL_def\<close>)
qed

lemma nonempty_chunks: "chunks n = [] \<longleftrightarrow> n = 0"
  by (cases "n = 0") (simp_all add: chunks_pos)

lemma next_same: "\<exists>q. x = x\<lparr>pb_next := q\<rparr>"
  by (rule exI [of _ "pb_next x"]) simp

lemma alloc_tail_spec:
  fixes rem_len :: int
  assumes "pchain (pbufs s) p (cs @ [r])" and "pool MEMP_PBUF_POOL s fl" and "set (cs @ [r]) \<inter> set fl = {}"
    and "0 \<le> rem_len" and "rem_len \<le> 65535" and "length (chunks (nat rem_len)) \<le> length fl"
  defines "k \<equiv> length (chunks (nat rem_len))"
  shows "\<exists>s'. pbuf_alloc_tail custom env p r rem_len s = Some (p, s') \<and> pchain (pbufs s') p (cs @ r # take k fl) \<and>
    pool MEMP_PBUF_POOL s' (drop k fl) \<and> same_but (set (r # take k fl)) s s' \<and>
    (\<exists>q. pbufs s' r = (pbufs s r)\<lparr>pb_next := q\<rparr>) \<and>
    list_all2 (pool_seg (pbufs s')) (take k fl) (chunks (nat rem_len)) \<and> ptot (pbufs s') (take k fl) \<and>
    memp_tab s' MEMP_PBUF = memp_tab s MEMP_PBUF"
  using assms(1-6) unfolding k_def
proof (induction fl arbitrary: r cs rem_len s)
  case Nil
  then have "rem_len = 0" by (simp add: nonempty_chunks)
  then show ?case using Nil.prems next_same by (simp add: pbuf_alloc_tail.simps)
next
  case (Cons q fl)
  show ?case
  proof (cases "rem_len = 0")
    case True
    then show ?thesis using Cons.prems next_same by (simp add: pbuf_alloc_tail.simps)
  next
    case False
    then have pos: "0 < rem_len" using Cons.prems(4) by simp
    obtain rem' s2 where run: "pbuf_alloc_tail custom env p r rem_len s = pbuf_alloc_tail custom env p q rem' s2"
      and rem': "0 \<le> rem'" "rem' \<le> 65535" and ch: "chunks (nat rem_len) = min (nat rem_len) 1500 # chunks (nat rem')"
      and sum: "nat rem_len = min (nat rem_len) 1500 + nat rem'"
      and chain2: "pchain (pbufs s2) p ((cs @ [r]) @ [q])" and pool2: "pool MEMP_PBUF_POOL s2 fl"
      and same2: "same_but {q, r} s s2" and r2: "pbufs s2 r = (pbufs s r)\<lparr>pb_next := q\<rparr>"
      and seg2: "pool_seg (pbufs s2) q (min (nat rem_len) 1500)" and tot2: "unat (pb_tot_len (pbufs s2 q)) = nat rem_len"
      and tab2: "memp_tab s2 MEMP_PBUF = memp_tab s MEMP_PBUF"
      using alloc_tail_step [OF Cons.prems(1-3) pos Cons.prems(5), of custom env] by blast
    let ?k = "length (chunks (nat rem'))"
    have nin: "q \<notin> set fl" "r \<notin> set fl" "q \<noteq> r"
      using Cons.prems(2,3) pchain_distinct [of "pbufs s" _ "q # fl"] by (auto simp: pool_def)
    have "\<exists>s'. pbuf_alloc_tail custom env p q rem' s2 = Some (p, s') \<and>
        pchain (pbufs s') p ((cs @ [r]) @ q # take ?k fl) \<and> pool MEMP_PBUF_POOL s' (drop ?k fl) \<and>
        same_but (set (q # take ?k fl)) s2 s' \<and> (\<exists>y. pbufs s' q = (pbufs s2 q)\<lparr>pb_next := y\<rparr>) \<and>
        list_all2 (pool_seg (pbufs s')) (take ?k fl) (chunks (nat rem')) \<and> ptot (pbufs s') (take ?k fl) \<and>
        memp_tab s' MEMP_PBUF = memp_tab s2 MEMP_PBUF"
      using Cons.prems(3,6) nin rem' ch by (intro Cons.IH chain2 pool2) auto
    then obtain s' y where s': "pbuf_alloc_tail custom env p q rem' s2 = Some (p, s')"
        "pchain (pbufs s') p ((cs @ [r]) @ q # take ?k fl)" "pool MEMP_PBUF_POOL s' (drop ?k fl)"
        and same: "same_but (set (q # take ?k fl)) s2 s'" and y: "pbufs s' q = (pbufs s2 q)\<lparr>pb_next := y\<rparr>"
        and segs: "list_all2 (pool_seg (pbufs s')) (take ?k fl) (chunks (nat rem'))" and tot: "ptot (pbufs s') (take ?k fl)"
        and tab: "memp_tab s' MEMP_PBUF = memp_tab s2 MEMP_PBUF"
      by blast
    have seg: "pool_seg (pbufs s') q (min (nat rem_len) 1500)" using y seg2 by (simp add: pool_seg_def)
    have "plen (pbufs s') (take ?k fl) = nat rem'"
      using plen_segs [OF segs] chunks_le sum_list_chunks by auto
    moreover have "unat (pb_len (pbufs s' q)) = min (nat rem_len) 1500"
      using seg by (simp add: pool_seg_def unsigned_of_nat take_bit_nat_eq_self)
    ultimately have "ptot (pbufs s') (q # take ?k fl)" using y tot2 tot sum by simp
    moreover have "pbufs s' r = (pbufs s r)\<lparr>pb_next := q\<rparr>"
      using same nin r2 by (auto simp: same_but_def dest: in_set_takeD)
    moreover have "same_but (set (r # take (length (chunks (nat rem_len))) (q # fl))) s s'"
      by (rule same_but_trans [OF same2 same]) (auto simp: ch)
    ultimately show ?thesis using s' segs seg run tab tab2 by (auto simp: ch)
  qed
qed

text \<open>When the pool runs out, the buffers taken so far go back to it.\<close>

lemma pool_seg_pooled: "pool_seg f a n \<Longrightarrow> pooled (f a) \<and> pb_ref (f a) = 1 \<and> pool_no (f a) = MEMP_PBUF_POOL"
  by (simp add: pool_seg_def pooled_def pool_no_def)

definition own_pool :: "(addr \<Rightarrow> pbuf) \<Rightarrow> addr list \<Rightarrow> bool" where
  "own_pool f xs \<longleftrightarrow> (\<forall>a \<in> set xs. pooled (f a) \<and> pb_ref (f a) = 1 \<and> pool_no (f a) = MEMP_PBUF_POOL)"

lemma own_pool_released:
  assumes "own_pool f xs"
  shows "unshared f xs = xs" and "freed_from MEMP_PBUF_POOL f xs = rev xs" and "freed_from MEMP_PBUF f xs = []"
proof -
  show "unshared f xs = xs" using assms by (simp add: own_pool_def unshared_def)
  then show "freed_from MEMP_PBUF_POOL f xs = rev xs" "freed_from MEMP_PBUF f xs = []"
    using assms by (auto simp: own_pool_def freed_from_def MEMP_PBUF_def MEMP_PBUF_POOL_def filter_id_conv filter_empty_conv)
qed

lemma alloc_tail_fails:
  fixes rem_len :: int
  assumes "pchain (pbufs s) p (cs @ [r])" and "pool MEMP_PBUF_POOL s fl" and "pool MEMP_PBUF s f7"
    and "set (cs @ [r]) \<inter> (set fl \<union> set f7) = {}" and "set fl \<inter> set f7 = {}"
    and "0 \<le> rem_len" and "rem_len \<le> 65535" and "length fl < length (chunks (nat rem_len))" and "own_pool (pbufs s) (cs @ [r])"
  shows "\<exists>s'. pbuf_alloc_tail custom env p r rem_len s = Some (NULL, s') \<and> pool MEMP_PBUF_POOL s' (rev (cs @ r # fl)) \<and>
    pool MEMP_PBUF s' f7 \<and> same_but (set (cs @ r # fl)) s s'"
  using assms
proof (induction fl arbitrary: r cs rem_len s)
  case Nil
  have pos: "0 < rem_len" using Nil.prems(6,8) by (cases "rem_len = 0") auto
  have "p \<noteq> NULL" using Nil.prems(1) by (cases cs) auto
  then obtain n s' where "pbuf_free custom env p s = Some (n, s')" "same_but (set (cs @ [r])) s s'"
      "pool MEMP_PBUF s' f7" "pool MEMP_PBUF_POOL s' (rev (cs @ [r]))"
    using free_loop_spec [OF Nil.prems(1) _ Nil.prems(3,2), of custom env 0] Nil.prems(4,9) own_pool_released [OF Nil.prems(9)]
    by (auto simp: pbuf_free_def own_pool_def)
  moreover have "memp_malloc MEMP_PBUF_POOL s = (NULL, s)"
    using memp_malloc_pool [OF Nil.prems(2)] by (simp add: MEMP_PBUF_POOL_def MEMP_MAX_def)
  ultimately show ?case using pos by (simp add: pbuf_alloc_tail.simps)
next
  case (Cons q fl)
  have pos: "0 < rem_len" using Cons.prems(6,8) by (cases "rem_len = 0") auto
  have dis: "set (cs @ [r]) \<inter> set (q # fl) = {}" using Cons.prems(4) by auto
  obtain rem' s2 where run: "pbuf_alloc_tail custom env p r rem_len s = pbuf_alloc_tail custom env p q rem' s2"
    and rem': "0 \<le> rem'" "rem' \<le> 65535" and ch: "chunks (nat rem_len) = min (nat rem_len) 1500 # chunks (nat rem')"
    and chain2: "pchain (pbufs s2) p ((cs @ [r]) @ [q])" and pool2: "pool MEMP_PBUF_POOL s2 fl"
    and same2: "same_but {q, r} s s2" and r2: "pbufs s2 r = (pbufs s r)\<lparr>pb_next := q\<rparr>"
    and seg2: "pool_seg (pbufs s2) q (min (nat rem_len) 1500)" and tab2: "memp_tab s2 MEMP_PBUF = memp_tab s MEMP_PBUF"
    using alloc_tail_step [OF Cons.prems(1,2) dis pos Cons.prems(7), of custom env] by blast
  have nin: "q \<notin> set fl" "q \<notin> set cs" "q \<noteq> r" "r \<notin> set cs" "q \<notin> set f7" "r \<notin> set f7"
    using Cons.prems(1,2,4,5) pchain_distinct [of "pbufs s" _ "q # fl"] pchain_distinct [OF Cons.prems(1)]
    by (auto simp: pool_def)
  have "pool MEMP_PBUF s2 f7"
  proof -
    have "pchain (pbufs s2) (memp_tab s MEMP_PBUF) f7 = pchain (pbufs s) (memp_tab s MEMP_PBUF) f7"
      using nin by (intro pchain_cong arg_cong [of _ _ pb_next] same_but_at [OF same2]) auto
    then show ?thesis using Cons.prems(3) tab2 by (simp add: pool_def)
  qed
  moreover have "own_pool (pbufs s2) ((cs @ [r]) @ [q])"
  proof -
    have "pbufs s2 a = pbufs s a" if "a \<in> set cs" for a
      using that nin by (intro same_but_at [OF same2]) auto
    then show ?thesis
      using Cons.prems(9) r2 pool_seg_pooled [OF seg2] by (simp add: own_pool_def pooled_def pool_no_def)
  qed
  ultimately have "\<exists>s'. pbuf_alloc_tail custom env p q rem' s2 = Some (NULL, s') \<and> pool MEMP_PBUF_POOL s' (rev ((cs @ [r]) @ q # fl)) \<and>
    pool MEMP_PBUF s' f7 \<and> same_but (set ((cs @ [r]) @ q # fl)) s2 s'"
    using Cons.prems(4,5,8) nin rem' ch by (intro Cons.IH chain2 pool2) auto
  then obtain s' where "pbuf_alloc_tail custom env p q rem' s2 = Some (NULL, s')" "pool MEMP_PBUF_POOL s' (rev (cs @ r # q # fl))"
      "pool MEMP_PBUF s' f7" and same: "same_but (set (cs @ r # q # fl)) s2 s'" by auto
  moreover have "same_but (set (cs @ r # q # fl)) s s'"
    by (rule same_but_trans [OF same2 same]) auto
  ultimately show ?case using run by auto
qed

text \<open>The lengths of the buffers of a chain for \<open>n\<close> bytes: the first one leaves room for the headers of its layer.\<close>

definition pool_lens :: "os_u16 \<Rightarrow> nat \<Rightarrow> nat list" where
  "pool_lens offset n = (let k = min n (unat (pool_room offset)) in k # chunks (n - k))"

lemma sum_list_pool_lens: "sum_list (pool_lens offset n) = n"
  by (simp add: pool_lens_def Let_def sum_list_chunks)

text \<open>A pool element is aligned and does not wrap around the address space; the data of a buffer lie in it, behind the header.\<close>

definition element :: "addr \<Rightarrow> bool" where
  "element a \<longleftrightarrow> 4 dvd unat a \<and> unat a + 1520 < 2 ^ 32"

definition in_element :: "(addr \<Rightarrow> pbuf) \<Rightarrow> addr \<Rightarrow> bool" where
  "in_element f a \<longleftrightarrow> unat a + 16 \<le> unat (pb_payload (f a)) \<and>
     unat (pb_payload (f a)) + unat (pb_len (f a)) \<le> unat a + 16 + 1500"

lemma pbuf_offset_cases: "pbuf_offset layer = Some offset \<Longrightarrow> offset \<in> {0, 14, 34, 54}"
  by (auto simp: pbuf_offset_def PBUF_LINK_HLEN_def PBUF_IP_HLEN_def PBUF_TRANSPORT_HLEN_def split: if_splits)

lemma unat_MEM_ALIGN: "unat x + 3 < 2 ^ 32 \<Longrightarrow> unat (LWIP_MEM_ALIGN x) = (unat x + 3) div 4 * 4"
  by (simp add: LWIP_MEM_ALIGN_def unat_and_minus_4 unat_word_ariths)

lemma unat_payload:
  assumes "element a" and "offset \<in> {0, 14, 34, 54}"
  shows "unat (LWIP_MEM_ALIGN (a + (SIZEOF_STRUCT_PBUF + ucast (offset :: os_u16)))) = unat a + 16 + (unat offset + 3) div 4 * 4"
    and "unat (pool_room offset) = 1500 - (unat offset + 3) div 4 * 4"
proof -
  obtain k where k: "unat a = 4 * k" using assms(1) by (auto simp: element_def)
  have "unat (a + of_nat (16 + unat offset)) = unat a + (16 + unat offset)"
    using assms by (intro unat_plus_of_nat) (auto simp: element_def)
  moreover have "SIZEOF_STRUCT_PBUF + ucast offset = of_nat (16 + unat offset)"
    by (simp add: SIZEOF_STRUCT_PBUF_def)
  ultimately have "unat (a + (SIZEOF_STRUCT_PBUF + ucast offset)) = unat a + (16 + unat offset)" by simp
  moreover have "unat a + 73 < 2 ^ 32" using assms(1) by (simp add: element_def)
  ultimately show "unat (LWIP_MEM_ALIGN (a + (SIZEOF_STRUCT_PBUF + ucast offset))) = unat a + 16 + (unat offset + 3) div 4 * 4"
    using assms(2) k by (auto simp: unat_MEM_ALIGN)
  show "unat (pool_room offset) = 1500 - (unat offset + 3) div 4 * 4"
    using assms(2) by (auto simp: pool_room_def LWIP_MEM_ALIGN_SIZE_def PBUF_POOL_BUFSIZE_ALIGNED_def)
qed

text \<open>The first buffer of a chain, right after it is taken from the pool.\<close>

definition first_buf :: "addr \<Rightarrow> os_u16 \<Rightarrow> os_u16 \<Rightarrow> 'a pbkernel_scheme \<Rightarrow> 'a pbkernel_scheme" where
  "first_buf p offset len s =
     upd_pbuf p (\<lambda>x. x\<lparr>pb_type := PBUF_POOL, pb_next := NULL, pb_payload := LWIP_MEM_ALIGN (p + (SIZEOF_STRUCT_PBUF + ucast offset)),
       pb_tot_len := len, pb_len := min len (pool_room offset), pb_ref := 1\<rparr>)
       (s\<lparr>memp_tab := (memp_tab s)(MEMP_PBUF_POOL := pb_next (pbufs s p))\<rparr>)"

lemma alloc_pool_eq:
  assumes "pool MEMP_PBUF_POOL s fl"
  shows "pbuf_alloc_pool custom env offset len s = (case fl of [] \<Rightarrow> Some (NULL, s)
    | p # as \<Rightarrow> pbuf_alloc_tail custom env p p (uint len - uint (min len (pool_room offset))) (first_buf p offset len s))"
  using assms memp_malloc_pool [OF assms]
  by (cases fl) (auto simp: pbuf_alloc_pool_def MEMP_PBUF_POOL_def MEMP_MAX_def first_buf_def pool_def)

lemma first_buf_facts:
  assumes "pool MEMP_PBUF_POOL s (p # fl)" and "pool MEMP_PBUF s f7" and "set (p # fl) \<inter> set f7 = {}"
  shows "pchain (pbufs (first_buf p offset len s)) p [p]" and "pool MEMP_PBUF_POOL (first_buf p offset len s) fl"
    and "pool MEMP_PBUF (first_buf p offset len s) f7" and "same_but {p} s (first_buf p offset len s)"
  using assms pchain_distinct [of "pbufs s" _ "p # fl"]
  by (auto simp: pool_def first_buf_def upd_pbuf_def same_but_def pchain_upd_other MEMP_PBUF_def MEMP_PBUF_POOL_def)

lemma first_rem:
  fixes len offset :: os_u16
  defines "r \<equiv> uint len - uint (min len (pool_room offset))"
  shows "0 \<le> r" and "r \<le> 65535" and "nat r = unat len - min (unat len) (unat (pool_room offset))"
    and "unat (min len (pool_room offset)) = min (unat len) (unat (pool_room offset))"
proof -
  show m: "unat (min len (pool_room offset)) = min (unat len) (unat (pool_room offset))"
    by (simp add: min_def word_le_nat_alt)
  obtain n k where n: "n = unat len" and k: "k = unat (pool_room offset)" by simp
  have "r = int n - int (min n k)" unfolding r_def n k m [symmetric] by simp
  moreover have "n < 65536" using unsigned_less [of len, where 'a = nat] by (simp add: n)
  ultimately show "0 \<le> r" "r \<le> 65535" "nat r = unat len - min (unat len) (unat (pool_room offset))"
    by (auto simp: n [symmetric] k [symmetric])
qed

lemma segs_lens: "list_all2 (pool_seg f) xs ns \<Longrightarrow> \<forall>n \<in> set ns. n \<le> 1500 \<Longrightarrow> map (\<lambda>a. unat (pb_len (f a))) xs = ns"
  by (induction xs ns rule: list_all2_induct) (auto simp: pool_seg_def unsigned_of_nat take_bit_nat_eq_self)

lemma segs_own: "list_all2 (pool_seg f) xs ns \<Longrightarrow> own_pool f xs"
  by (induction xs ns rule: list_all2_induct) (auto simp: own_pool_def dest: pool_seg_pooled)

lemma segs_in_element:
  "list_all2 (pool_seg f) xs ns \<Longrightarrow> \<forall>n \<in> set ns. n \<le> 1500 \<Longrightarrow> a \<in> set xs \<Longrightarrow> element a \<Longrightarrow> in_element f a"
proof (induction xs ns rule: list_all2_induct)
  case (Cons x xs n ns)
  then show ?case
    using unat_plus_of_nat [of x 16]
    by (auto simp: pool_seg_def in_element_def element_def SIZEOF_STRUCT_PBUF_def unsigned_of_nat take_bit_nat_eq_self)
qed simp

definition finished :: "addr \<Rightarrow> 'a pbkernel_scheme \<Rightarrow> 'a pbkernel_scheme" where
  "finished p s = upd_pbuf p (\<lambda>x. x\<lparr>pb_ref := 1, pb_flags := 0\<rparr>) s"

lemma pbuf_alloc_eq:
  assumes "pbuf_offset layer = Some offset" and "pbuf_alloc_pool custom env offset len s = Some (p, s')"
  shows "pbuf_alloc custom env layer len PBUF_POOL s = Some (p, if p = NULL then s' else finished p s')"
  using assms by (simp add: pbuf_alloc_def finished_def)

lemma alloc_ok:
  fixes len :: os_u16
  assumes "pbuf_offset layer = Some offset" and "pool MEMP_PBUF_POOL s fl" and "pool MEMP_PBUF s f7"
    and "set fl \<inter> set f7 = {}" and "\<And>a. a \<in> set fl \<Longrightarrow> element a"
  defines "ns \<equiv> pool_lens offset (unat len)"
  assumes "length ns \<le> length fl"
  shows "\<exists>s'. pbuf_alloc custom env layer len PBUF_POOL s = Some (hd fl, s') \<and>
    pchain (pbufs s') (hd fl) (take (length ns) fl) \<and> ptot (pbufs s') (take (length ns) fl) \<and>
    map (\<lambda>a. unat (pb_len (pbufs s' a))) (take (length ns) fl) = ns \<and>
    own_pool (pbufs s') (take (length ns) fl) \<and> (\<forall>a \<in> set (take (length ns) fl). in_element (pbufs s') a) \<and>
    pool MEMP_PBUF_POOL s' (drop (length ns) fl) \<and> pool MEMP_PBUF s' f7 \<and> same_but (set (take (length ns) fl)) s s'"
proof -
  obtain p fl' where fl: "fl = p # fl'" using assms(7) by (cases fl) (auto simp: ns_def pool_lens_def Let_def)
  let ?s1 = "first_buf p offset len s" and ?r = "uint len - uint (min len (pool_room offset))"
  have f: "pchain (pbufs ?s1) p ([] @ [p])" "pool MEMP_PBUF_POOL ?s1 fl'" "pool MEMP_PBUF ?s1 f7" "same_but {p} s ?s1"
    using first_buf_facts [of s p fl' f7 offset len] assms(2-4) by (simp_all add: fl)
  have p: "p \<noteq> NULL" "p \<notin> set fl'" using assms(2) pchain_distinct [of "pbufs s" _ fl] by (auto simp: pool_def fl)
  define cs where "cs = chunks (nat ?r)"
  have ns: "ns = min (unat len) (unat (pool_room offset)) # cs"
    using first_rem(3) [of len offset] by (simp add: ns_def pool_lens_def cs_def Let_def)
  have "\<exists>s'. pbuf_alloc_tail custom env p p ?r ?s1 = Some (p, s') \<and> pchain (pbufs s') p ([] @ p # take (length cs) fl') \<and>
    pool MEMP_PBUF_POOL s' (drop (length cs) fl') \<and> same_but (set (p # take (length cs) fl')) ?s1 s' \<and>
    (\<exists>q. pbufs s' p = (pbufs ?s1 p)\<lparr>pb_next := q\<rparr>) \<and>
    list_all2 (pool_seg (pbufs s')) (take (length cs) fl') cs \<and> ptot (pbufs s') (take (length cs) fl') \<and>
    memp_tab s' MEMP_PBUF = memp_tab ?s1 MEMP_PBUF"
    unfolding cs_def using p first_rem(1,2) [of len offset] assms(7)
    by (intro alloc_tail_spec f) (auto simp: fl ns cs_def)
  then obtain s' q where run: "pbuf_alloc_tail custom env p p ?r ?s1 = Some (p, s')"
    and chain: "pchain (pbufs s') p (p # take (length cs) fl')"
    and pool: "pool MEMP_PBUF_POOL s' (drop (length cs) fl')" and same: "same_but (set (p # take (length cs) fl')) ?s1 s'"
    and q: "pbufs s' p = (pbufs ?s1 p)\<lparr>pb_next := q\<rparr>"
    and segs: "list_all2 (pool_seg (pbufs s')) (take (length cs) fl') cs" and tot: "ptot (pbufs s') (take (length cs) fl')"
    and tab: "memp_tab s' MEMP_PBUF = memp_tab ?s1 MEMP_PBUF"
    by auto
  let ?s2 = "finished p s'" and ?xs = "take (length cs) fl'"
  have eq: "pbufs ?s2 a = pbufs s' a" if "a \<in> set ?xs" for a
    using that p by (auto simp: finished_def dest: in_set_takeD)
  have segs2: "list_all2 (pool_seg (pbufs ?s2)) ?xs cs"
    using segs eq by (auto elim!: list.rel_mono_strong simp: pool_seg_def)
  have le: "\<forall>n \<in> set cs. n \<le> 1500" using chunks_le by (auto simp: cs_def)
  have plen: "plen (pbufs ?s2) ?xs = nat ?r" using plen_segs [OF segs2 le] by (simp add: cs_def sum_list_chunks)
  have p2: "pb_next (pbufs ?s2 p) = pb_next (pbufs s' p)" "pb_len (pbufs ?s2 p) = min len (pool_room offset)"
      "pb_tot_len (pbufs ?s2 p) = len" "pb_type (pbufs ?s2 p) = PBUF_POOL" "pb_ref (pbufs ?s2 p) = 1" "pb_flags (pbufs ?s2 p) = 0"
      "pb_payload (pbufs ?s2 p) = LWIP_MEM_ALIGN (p + (SIZEOF_STRUCT_PBUF + ucast offset))"
    by (simp_all add: finished_def q, simp_all add: first_buf_def)
  have res: "pbuf_alloc custom env layer len PBUF_POOL s = Some (p, ?s2)"
    using pbuf_alloc_eq [OF assms(1), of custom env len s p s'] alloc_pool_eq [OF assms(2), of custom env offset len] run p(1)
    by (simp add: fl)
  have len: "unat len = min (unat len) (unat (pool_room offset)) + nat ?r" using first_rem(3) [of len offset] by simp
  have fs: "pchain (pbufs ?s2) p (p # ?xs)" "ptot (pbufs ?s2) (p # ?xs)" "own_pool (pbufs ?s2) (p # ?xs)"
    "map (\<lambda>a. unat (pb_len (pbufs ?s2 a))) (p # ?xs) = ns"
  proof -
    have "pb_next (pbufs ?s2 a) = pb_next (pbufs s' a)" if "a \<in> set (p # ?xs)" for a using that eq p2(1) by auto
    then show "pchain (pbufs ?s2) p (p # ?xs)" using chain pchain_cong [of "p # ?xs" "pbufs ?s2" "pbufs s'"] by blast
    have "ptot (pbufs ?s2) ?xs" using tot eq ptot_cong [of ?xs "pbufs ?s2" "pbufs s'"] by auto
    then show "ptot (pbufs ?s2) (p # ?xs)" using p2 plen len first_rem(4) [of len offset] by simp
    show "own_pool (pbufs ?s2) (p # ?xs)" using p2 segs_own [OF segs2] by (simp add: own_pool_def pooled_def pool_no_def)
    show "map (\<lambda>a. unat (pb_len (pbufs ?s2 a))) (p # ?xs) = ns"
      using p2(2) first_rem(4) [of len offset] segs_lens [OF segs2 le] ns by simp
  qed
  have el: "in_element (pbufs ?s2) a" if "a \<in> set (p # ?xs)" for a
  proof (cases "a = p")
    case True
    have "(unat offset + 3) div 4 * 4 \<le> 56" using pbuf_offset_cases [OF assms(1)] by auto
    then show ?thesis
      using unat_payload [of p offset] assms(5) [of p] pbuf_offset_cases [OF assms(1)] p2(2,7) first_rem(4) [of len offset]
      by (auto simp: True fl in_element_def)
  next
    case False
    then have "a \<in> set ?xs" using that by simp
    then show ?thesis using segs_in_element [OF segs2 le] assms(5) by (auto simp: fl dest: in_set_takeD)
  qed
  have pool7: "pool MEMP_PBUF ?s2 f7"
  proof -
    have "pbufs ?s2 a = pbufs ?s1 a" if "a \<in> set f7" for a
    proof -
      have "a \<notin> set (p # ?xs)" using that assms(4) by (auto simp: fl dest: in_set_takeD)
      then show ?thesis using same_but_at [OF same] by (auto simp: finished_def)
    qed
    then have "pchain (pbufs ?s2) (memp_tab ?s1 MEMP_PBUF) f7 = pchain (pbufs ?s1) (memp_tab ?s1 MEMP_PBUF) f7"
      by (intro pchain_cong) simp
    then show ?thesis using f(3) tab by (simp add: pool_def finished_def)
  qed
  have pool8: "pool MEMP_PBUF_POOL ?s2 (drop (length cs) fl')"
  proof -
    have "p \<notin> set (drop (length cs) fl')" using p(2) by (auto dest: in_set_dropD)
    then show ?thesis using pool by (simp add: pool_def finished_def pchain_upd_other)
  qed
  have "same_but {p} s' ?s2" by (simp add: finished_def upd_pbuf_def same_but_def)
  then have "same_but (set (p # ?xs)) s ?s2"
    using same_but_trans [OF same_but_trans [OF f(4) same, of "set (p # ?xs)"], of "{p}" ?s2 "set (p # ?xs)"] by auto
  then show ?thesis using res fs el pool7 pool8 by (auto simp: ns fl)
qed

lemma alloc_fails:
  fixes len :: os_u16
  assumes "pbuf_offset layer = Some offset" and "pool MEMP_PBUF_POOL s fl" and "pool MEMP_PBUF s f7"
    and "set fl \<inter> set f7 = {}" and "\<And>a. a \<in> set fl \<Longrightarrow> pb_flags (pbufs s a) AND PBUF_FLAG_IS_CUSTOM = 0"
    and "length fl < length (pool_lens offset (unat len))"
  shows "\<exists>s'. pbuf_alloc custom env layer len PBUF_POOL s = Some (NULL, s') \<and> pool MEMP_PBUF_POOL s' (rev fl) \<and>
    pool MEMP_PBUF s' f7 \<and> same_but (set fl) s s'"
proof (cases fl)
  case Nil
  have "pbuf_alloc custom env layer len PBUF_POOL s = Some (NULL, s)"
    using pbuf_alloc_eq [OF assms(1), of custom env len s NULL s] alloc_pool_eq [OF assms(2), of custom env offset len]
    by (simp add: Nil)
  then show ?thesis using assms(2,3) by (simp add: Nil)
next
  case (Cons p fl')
  let ?s1 = "first_buf p offset len s" and ?r = "uint len - uint (min len (pool_room offset))"
  have f: "pchain (pbufs ?s1) p ([] @ [p])" "pool MEMP_PBUF_POOL ?s1 fl'" "pool MEMP_PBUF ?s1 f7" "same_but {p} s ?s1"
    using first_buf_facts [of s p fl' f7 offset len] assms(2-4) by (simp_all add: Cons)
  have p: "p \<notin> set fl'" using assms(2) pchain_distinct [of "pbufs s" _ fl] by (auto simp: pool_def Cons)
  have "own_pool (pbufs ?s1) ([] @ [p])"
    using assms(5) [of p] by (simp add: Cons own_pool_def pooled_def pool_no_def first_buf_def)
  moreover have "length fl' < length (chunks (nat ?r))"
    using assms(6) first_rem(3) [of len offset] by (simp add: Cons pool_lens_def Let_def)
  ultimately have "\<exists>s'. pbuf_alloc_tail custom env p p ?r ?s1 = Some (NULL, s') \<and> pool MEMP_PBUF_POOL s' (rev ([] @ p # fl')) \<and>
    pool MEMP_PBUF s' f7 \<and> same_but (set ([] @ p # fl')) ?s1 s'"
    using p assms(4) first_rem(1,2) [of len offset] by (intro alloc_tail_fails f) (auto simp: Cons)
  then obtain s' where s': "pbuf_alloc_tail custom env p p ?r ?s1 = Some (NULL, s')" "pool MEMP_PBUF_POOL s' (rev fl)"
      "pool MEMP_PBUF s' f7" "same_but (set fl) ?s1 s'" by (auto simp: Cons)
  moreover have "same_but (set fl) s s'" by (rule same_but_trans [OF f(4) s'(4)]) (auto simp: Cons)
  ultimately show ?thesis
    using pbuf_alloc_eq [OF assms(1), of custom env len s NULL s'] alloc_pool_eq [OF assms(2), of custom env offset len]
    by (auto simp: Cons)
qed

end
