(* ===== verification/Pbuf_Data.thy ===== *)
theory Pbuf_Data
  imports Pbuf_Alloc
begin

text \<open>
  The bytes of a packet are the bytes of the buffers of its chain one after the other; the lemmas show what the copying and
  searching operations of \<^verbatim>\<open>pbuf.c\<close> do to this list.
\<close>

section \<open>The bytes of a packet\<close>

definition pspan :: "(addr \<Rightarrow> pbuf) \<Rightarrow> addr \<Rightarrow> addr set" where
  "pspan f a = span (pb_payload (f a)) (unat (pb_len (f a)))"

definition pbytes :: "(addr \<Rightarrow> pbuf) \<Rightarrow> bytes \<Rightarrow> addr \<Rightarrow> os_u8 list" where
  "pbytes f m a = bytes_at m (pb_payload (f a)) (unat (pb_len (f a)))"

definition pdata :: "(addr \<Rightarrow> pbuf) \<Rightarrow> bytes \<Rightarrow> addr list \<Rightarrow> os_u8 list" where
  "pdata f m xs = concat (map (pbytes f m) xs)"

lemma span_0: "span a 0 = {}"
  by (simp add: span_def)

text \<open>The buffers of a packet do not overlap.\<close>

definition apart :: "(addr \<Rightarrow> pbuf) \<Rightarrow> addr list \<Rightarrow> bool" where
  "apart f xs \<longleftrightarrow> (\<forall>a \<in> set xs. \<forall>b \<in> set xs. a \<noteq> b \<longrightarrow> pspan f a \<inter> pspan f b = {})"

lemma apart_head:
  assumes "apart f (a # xs)" and "a \<notin> set xs" and "b \<in> set xs"
  shows "x \<in> pspan f a \<Longrightarrow> x \<notin> pspan f b" and "x \<in> pspan f b \<Longrightarrow> x \<notin> pspan f a"
proof -
  have "pspan f a \<inter> pspan f b = {}" using assms by (auto simp: apart_def)
  then show "x \<in> pspan f a \<Longrightarrow> x \<notin> pspan f b" "x \<in> pspan f b \<Longrightarrow> x \<notin> pspan f a" by auto
qed

lemma length_bytes_at [simp]: "length (bytes_at m a n) = n"
  by (simp add: bytes_at_def)

lemma length_pbytes [simp]: "length (pbytes f m a) = unat (pb_len (f a))"
  by (simp add: pbytes_def)

lemma pdata_simps [simp]: "pdata f m [] = []" "pdata f m (a # as) = pbytes f m a @ pdata f m as"
  by (simp_all add: pdata_def)

lemma length_pdata [simp]: "length (pdata f m xs) = plen f xs"
  by (induction xs) auto

lemma pbytes_cong: "(\<And>x. x \<in> pspan f a \<Longrightarrow> m x = m' x) \<Longrightarrow> pbytes f m a = pbytes f m' a"
  unfolding pbytes_def pspan_def by (rule bytes_at_cong)

lemma pdata_cong: "\<forall>a \<in> set xs. \<forall>x \<in> pspan f a. m x = m' x \<Longrightarrow> pdata f m xs = pdata f m' xs"
proof (induction xs)
  case (Cons a xs)
  have "pbytes f m a = pbytes f m' a" using Cons.prems by (intro pbytes_cong) auto
  then show ?case using Cons by simp
qed simp

lemma bytes_at_add: "bytes_at m a (n + k) = bytes_at m a n @ bytes_at m (a + of_nat n) k"
proof -
  have "[0..<n + k] = [0..<n] @ map (\<lambda>i. i + n) [0..<k]"
    unfolding map_add_upt using upt_add_eq_append [of 0 n k] by (simp add: add.commute)
  then show ?thesis by (simp add: bytes_at_def comp_def ac_simps)
qed

lemma bytes_at_take: "i \<le> n \<Longrightarrow> take i (bytes_at m a n) = bytes_at m a i"
  using bytes_at_add [of m a i "n - i"] by simp

lemma bytes_at_drop: "i \<le> n \<Longrightarrow> drop i (bytes_at m a n) = bytes_at m (a + of_nat i) (n - i)"
  using bytes_at_add [of m a i "n - i"] by simp

lemma unat_16: "unat (x :: os_u16) < 65536"
  using unsigned_less [of x, where 'a = nat] by simp

lemma unat_ucast_16_32: "unat (ucast (x :: os_u16) :: os_u32) = unat x"
  using unat_16 [of x] by (simp add: unsigned_ucast_eq take_bit_nat_eq_self)

lemma mem8_MEMCPY [simp]: "mem8 (MEMCPY d a n s) = memcpy_loop (unat n) d a (mem8 s)"
  by (simp add: MEMCPY_def memcpy_def unat_ucast_16_32)

lemma pbufs_MEMCPY [simp]: "pbufs (MEMCPY d a n s) = pbufs s"
  by (simp add: MEMCPY_def)

lemma MEMCPY_s: "MEMCPY d a n s = s\<lparr>mem8 := memcpy_loop (unat n) d a (mem8 s)\<rparr>"
  by (simp add: MEMCPY_def memcpy_def unat_ucast_16_32)

lemma span_tail:
  assumes "l < 2 ^ 32"
  shows "span d n \<inter> span (d + of_nat n) (l - n) = {}"
proof -
  have False if "i < n" "j < l - n" "d + of_nat i = d + of_nat n + of_nat j" for i j
  proof -
    have "(of_nat i :: addr) = of_nat (n + j)" using that(3) by (simp add: add.assoc)
    then have "unat (of_nat i :: addr) = unat (of_nat (n + j) :: addr)" by simp
    moreover have "i < 2 ^ 32" "n + j < 2 ^ 32" using that(1,2) assms by auto
    ultimately have "i = n + j" by (simp add: unsigned_of_nat take_bit_nat_eq_self del: of_nat_add)
    then show False using that(1) by simp
  qed
  then show ?thesis by (auto simp: span_def)
qed

text \<open>Copying \<open>n\<close> bytes to the front of a block of \<open>l\<close>.\<close>

lemma copied_front:
  assumes "span d n \<inter> span a n = {}" and "n \<le> l" and "l < 2 ^ 32"
  shows "bytes_at (memcpy_loop n d a m) d l = bytes_at m a n @ drop n (bytes_at m d l)"
proof -
  have "bytes_at (memcpy_loop n d a m) (d + of_nat n) (l - n) = bytes_at m (d + of_nat n) (l - n)"
    using span_tail [OF assms(3), of d n] by (intro bytes_at_cong memcpy_loop_other) auto
  moreover have "bytes_at (memcpy_loop n d a m) d n = bytes_at m a n"
    using assms by (intro bytes_at_copied) auto
  ultimately show ?thesis
    using bytes_at_add [of "memcpy_loop n d a m" d n "l - n"] assms(2) by (simp add: bytes_at_drop)
qed

section \<open>Filling and reading a packet\<close>

lemma addr_advance:
  fixes a :: addr and x y :: os_u16
  assumes "unat (x + y) = unat x + unat y"
  shows "a + ucast (x + y) = a + ucast x + of_nat (unat y)"
proof -
  have "ucast (x + y) = (of_nat (unat (x + y)) :: addr)" by simp
  also have "\<dots> = ucast x + of_nat (unat y)" unfolding assms by simp
  finally show ?thesis by (simp add: add.assoc)
qed

lemma mem8_id: "s\<lparr>mem8 := mem8 s\<rparr> = s"
  by simp

lemma take_loop_0: "pbuf_take_loop p dataptr 0 c s = Some (s\<lparr>mem8 := mem8 s\<rparr>)"
  by (simp add: pbuf_take_loop.simps mem8_id)

lemma unat_sub_16: "y \<le> x \<Longrightarrow> unat (x - y) = unat x - unat (y :: os_u16)"
  by (rule unat_sub)

lemma unat_add_16: "unat x + unat y < 65536 \<Longrightarrow> unat (x + y) = unat x + unat (y :: os_u16)"
  by (simp add: unat_word_ariths)

text \<open>The loop of \<^verbatim>\<open>pbuf_take\<close>: the first \<open>n\<close> bytes of the packet become those at \<open>dataptr + done\<close>.\<close>

lemma take_loop_spec:
  assumes "pchain (pbufs s) p xs" and "apart (pbufs s) xs" and "unat n \<le> plen (pbufs s) xs"
    and "unat c + unat n < 65536" and "\<And>a. a \<in> set xs \<Longrightarrow> pspan (pbufs s) a \<inter> span (dataptr + ucast c) (unat n) = {}"
  shows "\<exists>m. pbuf_take_loop p dataptr n c s = Some (s\<lparr>mem8 := m\<rparr>) \<and>
    pdata (pbufs s) m xs = bytes_at (mem8 s) (dataptr + ucast c) (unat n) @ drop (unat n) (pdata (pbufs s) (mem8 s) xs) \<and>
    (\<forall>x. (\<forall>a \<in> set xs. x \<notin> pspan (pbufs s) a) \<longrightarrow> m x = mem8 s x)"
  using assms
proof (induction xs arbitrary: p n c s)
  case Nil
  then have "n = 0" by (simp add: unat_eq_zero)
  then show ?case using take_loop_0 [of p dataptr c s] by (intro exI [of _ "mem8 s"]) (simp add: bytes_at_def)
next
  case (Cons a xs)
  show ?case
  proof (cases "n = 0")
    case True
    then show ?thesis using take_loop_0 [of p dataptr c s] by (intro exI [of _ "mem8 s"]) (simp add: bytes_at_def)
  next
    case False
    let ?f = "pbufs s" and ?l = "pb_len (pbufs s a)"
    define b where "b = min n ?l"
    define m1 where "m1 = memcpy_loop (unat b) (pb_payload (?f a)) (dataptr + ucast c) (mem8 s)"
    define s1 where "s1 = s\<lparr>mem8 := m1\<rparr>"
    have b: "unat b = min (unat n) (unat ?l)" by (simp add: b_def min_def word_le_nat_alt)
    have a: "p = a" "a \<noteq> NULL" "pchain ?f (pb_next (?f a)) xs" "a \<notin> set xs"
      using Cons.prems(1) pchain_distinct [OF Cons.prems(1)] by auto
    have run: "pbuf_take_loop p dataptr n c s = pbuf_take_loop (pb_next (?f a)) dataptr (n - b) (c + b) s1"
      using False a by (auto simp: pbuf_take_loop.simps [of a] b_def min_def s1_def m1_def MEMCPY_s not_le Let_def)
    have nb: "unat (n - b) = unat n - unat b" by (simp add: b_def unat_sub_16)
    have cb: "unat (c + b) = unat c + unat b" using b Cons.prems(4) by (intro unat_add_16) auto
    have addr: "dataptr + ucast (c + b) = dataptr + ucast c + of_nat (unat b)"
      by (rule addr_advance [OF cb])
    have sp: "span (dataptr + ucast c) (unat n) = span (dataptr + ucast c) (unat b) \<union> span (dataptr + ucast (c + b)) (unat (n - b))"
      using span_add [of "dataptr + ucast c" "unat b" "unat n - unat b"] b by (simp add: nb addr)
    have "\<exists>m. pbuf_take_loop (pb_next (?f a)) dataptr (n - b) (c + b) s1 = Some (s1\<lparr>mem8 := m\<rparr>) \<and>
      pdata (pbufs s1) m xs = bytes_at (mem8 s1) (dataptr + ucast (c + b)) (unat (n - b)) @
        drop (unat (n - b)) (pdata (pbufs s1) (mem8 s1) xs) \<and>
      (\<forall>x. (\<forall>a \<in> set xs. x \<notin> pspan (pbufs s1) a) \<longrightarrow> m x = mem8 s1 x)"
    proof (rule Cons.IH)
      show "unat (n - b) \<le> plen (pbufs s1) xs" using Cons.prems(3) b by (auto simp: s1_def nb)
    qed (use Cons.prems a sp b in \<open>auto simp: s1_def nb cb apart_def\<close>)
    then obtain m where m: "pbuf_take_loop (pb_next (?f a)) dataptr (n - b) (c + b) s1 = Some (s\<lparr>mem8 := m\<rparr>)"
      "pdata ?f m xs = bytes_at m1 (dataptr + ucast (c + b)) (unat (n - b)) @ drop (unat (n - b)) (pdata ?f m1 xs)"
      "\<And>x. \<forall>a \<in> set xs. x \<notin> pspan ?f a \<Longrightarrow> m x = m1 x"
      by (auto simp: s1_def)
    have src: "span (dataptr + ucast c) (unat b) \<subseteq> span (dataptr + ucast c) (unat n)"
      and dst: "span (pb_payload (?f a)) (unat b) \<subseteq> pspan ?f a"
      unfolding pspan_def using b by (simp_all add: span_mono)
    have m1: "m1 x = mem8 s x" if "x \<notin> pspan ?f a" for x
      using that dst by (auto simp: m1_def intro!: memcpy_loop_other)
    have dis: "pspan ?f a \<inter> span (dataptr + ucast c) (unat n) = {}" using Cons.prems(5) by simp
    have e1: "pbytes ?f m a = bytes_at (mem8 s) (dataptr + ucast c) (unat b) @ drop (unat b) (pbytes ?f (mem8 s) a)"
    proof -
      have "m x = m1 x" if "x \<in> pspan ?f a" for x
        by (intro m(3) ballI apart_head(1) [OF Cons.prems(2) a(4)] that)
      then have "pbytes ?f m a = pbytes ?f m1 a" by (intro pbytes_cong) auto
      also have "\<dots> = bytes_at (mem8 s) (dataptr + ucast c) (unat b) @ drop (unat b) (pbytes ?f (mem8 s) a)"
        unfolding pbytes_def m1_def using dis src dst b unat_16 [of ?l] by (intro copied_front) auto
      finally show ?thesis .
    qed
    have e2: "bytes_at m1 (dataptr + ucast (c + b)) (unat n - unat b) = bytes_at (mem8 s) (dataptr + ucast c + of_nat (unat b)) (unat n - unat b)"
      unfolding addr [symmetric] using dis sp [unfolded nb] by (intro bytes_at_cong m1) auto
    have e3: "pdata ?f m1 xs = pdata ?f (mem8 s) xs"
      by (intro pdata_cong ballI m1 apart_head(2) [OF Cons.prems(2) a(4)])
    have "pdata ?f m (a # xs) = bytes_at (mem8 s) (dataptr + ucast c) (unat n) @ drop (unat n) (pdata ?f (mem8 s) (a # xs))"
      unfolding pdata_simps e1 m(2) [unfolded nb] e2 e3
      using bytes_at_add [of "mem8 s" "dataptr + ucast c" "unat b" "unat n - unat b"] b
      by (auto simp: min_def split: if_splits)
    moreover have "\<forall>x. (\<forall>a \<in> set (a # xs). x \<notin> pspan ?f a) \<longrightarrow> m x = mem8 s x" using m(3) m1 by auto
    ultimately show ?thesis using run m(1) by auto
  qed
qed

text \<open>The loop of \<^verbatim>\<open>pbuf_copy_partial\<close>.\<close>

lemma copy_partial_0: "pbuf_copy_partial_loop p dataptr 0 off left tot0 s = Some (tot0, s\<lparr>mem8 := mem8 s\<rparr>)"
  by (simp add: pbuf_copy_partial_loop.simps mem8_id)

lemma copy_partial_spec:
  fixes off :: os_u16
  assumes "pchain (pbufs s) p xs" and "unat left + unat n < 65536"
    and "\<And>a. a \<in> set xs \<Longrightarrow> pspan (pbufs s) a \<inter> span (dataptr + ucast left) (unat n) = {}"
  defines "k \<equiv> min (unat n) (plen (pbufs s) xs - unat off)"
  shows "\<exists>m. pbuf_copy_partial_loop p dataptr n off left tot0 s = Some (tot0 + of_nat k, s\<lparr>mem8 := m\<rparr>) \<and>
    bytes_at m (dataptr + ucast left) k = take k (drop (unat off) (pdata (pbufs s) (mem8 s) xs)) \<and>
    (\<forall>x. x \<notin> span (dataptr + ucast left) (unat n) \<longrightarrow> m x = mem8 s x)"
  using assms(1-3) unfolding k_def
proof (induction xs arbitrary: p n off left tot0 s)
  case Nil
  then have "pbuf_copy_partial_loop p dataptr n off left tot0 s = Some (tot0, s\<lparr>mem8 := mem8 s\<rparr>)"
    by (simp add: pbuf_copy_partial_loop.simps mem8_id)
  then show ?case by (intro exI [of _ "mem8 s"]) (simp add: bytes_at_def)
next
  case (Cons a xs)
  let ?f = "pbufs s" and ?l = "pb_len (pbufs s a)"
  have a: "p = a" "a \<noteq> NULL" "pchain ?f (pb_next (?f a)) xs" using Cons.prems(1) by auto
  show ?case
  proof (cases "n = 0")
    case True
    then show ?thesis using copy_partial_0 [of p dataptr off left tot0 s]
      by (intro exI [of _ "mem8 s"]) (simp add: bytes_at_def)
  next
    case n0: False
    show ?thesis
    proof (cases "off \<noteq> 0 \<and> off \<ge> ?l")
      case True
      then have "pbuf_copy_partial_loop p dataptr n off left tot0 s =
          pbuf_copy_partial_loop (pb_next (?f a)) dataptr n (off - ?l) left tot0 s"
        using n0 a by (simp add: pbuf_copy_partial_loop.simps [of a])
      moreover have "unat (off - ?l) = unat off - unat ?l" and "unat ?l \<le> unat off"
        using True by (simp_all add: unat_sub_16 word_le_nat_alt)
      moreover have "\<exists>m. pbuf_copy_partial_loop (pb_next (?f a)) dataptr n (off - ?l) left tot0 s =
          Some (tot0 + of_nat (min (unat n) (plen ?f xs - unat (off - ?l))), s\<lparr>mem8 := m\<rparr>) \<and>
        bytes_at m (dataptr + ucast left) (min (unat n) (plen ?f xs - unat (off - ?l))) =
          take (min (unat n) (plen ?f xs - unat (off - ?l))) (drop (unat (off - ?l)) (pdata ?f (mem8 s) xs)) \<and>
        (\<forall>x. x \<notin> span (dataptr + ucast left) (unat n) \<longrightarrow> m x = mem8 s x)"
        using Cons.prems(2,3) by (intro Cons.IH a(3)) auto
      moreover have "plen ?f xs - (unat off - unat ?l) = unat ?l + plen ?f xs - unat off" if "unat ?l \<le> unat off"
        using that by simp
      ultimately show ?thesis by simp
    next
      case False
      then have off: "unat off \<le> unat ?l" by (auto simp: word_le_nat_alt)
      define b where "b = min n (?l - off)"
      have lo: "unat (?l - off) = unat ?l - unat off" using off by (simp add: unat_sub_16 word_le_nat_alt)
      have b: "unat b = min (unat n) (unat ?l - unat off)" by (simp add: b_def min_def word_le_nat_alt lo)
      define m1 where "m1 = memcpy_loop (unat b) (dataptr + ucast left) (pb_payload (?f a) + ucast off) (mem8 s)"
      define s1 where "s1 = s\<lparr>mem8 := m1\<rparr>"
      have run: "pbuf_copy_partial_loop p dataptr n off left tot0 s =
          pbuf_copy_partial_loop (pb_next (?f a)) dataptr (n - b) 0 (left + b) (tot0 + b) s1"
        using n0 False a by (auto simp: pbuf_copy_partial_loop.simps [of a] b_def min_def s1_def m1_def MEMCPY_s not_le Let_def)
      have nb: "unat (n - b) = unat n - unat b" by (simp add: b_def unat_sub_16)
      have cb: "unat (left + b) = unat left + unat b" using b Cons.prems(2) by (intro unat_add_16) auto
      have addr: "dataptr + ucast (left + b) = dataptr + ucast left + of_nat (unat b)" by (rule addr_advance [OF cb])
      have sp: "span (dataptr + ucast left) (unat n) = span (dataptr + ucast left) (unat b) \<union> span (dataptr + ucast (left + b)) (unat (n - b))"
        using span_add [of "dataptr + ucast left" "unat b" "unat n - unat b"] b by (simp add: nb addr)
      have m1: "m1 x = mem8 s x" if "x \<notin> span (dataptr + ucast left) (unat n)" for x
        using that sp by (auto simp: m1_def intro!: memcpy_loop_other)
      let ?k = "min (unat (n - b)) (plen ?f xs)"
      have "\<exists>m. pbuf_copy_partial_loop (pb_next (?f a)) dataptr (n - b) 0 (left + b) (tot0 + b) s1 =
          Some (tot0 + b + of_nat (min (unat (n - b)) (plen (pbufs s1) xs - unat (0 :: os_u16))), s1\<lparr>mem8 := m\<rparr>) \<and>
        bytes_at m (dataptr + ucast (left + b)) (min (unat (n - b)) (plen (pbufs s1) xs - unat (0 :: os_u16))) =
          take (min (unat (n - b)) (plen (pbufs s1) xs - unat (0 :: os_u16))) (drop (unat (0 :: os_u16)) (pdata (pbufs s1) (mem8 s1) xs)) \<and>
        (\<forall>x. x \<notin> span (dataptr + ucast (left + b)) (unat (n - b)) \<longrightarrow> m x = mem8 s1 x)"
        by (rule Cons.IH) (use Cons.prems a sp b in \<open>auto simp: s1_def nb cb\<close>)
      then obtain m where m: "pbuf_copy_partial_loop (pb_next (?f a)) dataptr (n - b) 0 (left + b) (tot0 + b) s1 =
          Some (tot0 + b + of_nat ?k, s\<lparr>mem8 := m\<rparr>)"
        "bytes_at m (dataptr + ucast (left + b)) ?k = take ?k (pdata ?f m1 xs)"
        "\<And>x. x \<notin> span (dataptr + ucast (left + b)) (unat (n - b)) \<Longrightarrow> m x = m1 x"
        by (auto simp: s1_def)
      have e1: "pdata ?f m1 xs = pdata ?f (mem8 s) xs"
        using Cons.prems(3) by (intro pdata_cong ballI m1) auto
      have e2: "bytes_at m (dataptr + ucast left) (unat b) = take (unat b) (drop (unat off) (pbytes ?f (mem8 s) a))"
      proof -
        have "m x = m1 x" if "x \<in> span (dataptr + ucast left) (unat b)" for x
          using that m(3) [of x] span_tail [of "unat n" "dataptr + ucast left" "unat b"] unat_16 [of n] by (auto simp: nb addr)
        then have "bytes_at m (dataptr + ucast left) (unat b) = bytes_at m1 (dataptr + ucast left) (unat b)"
          by (intro bytes_at_cong) auto
        also have "\<dots> = bytes_at (mem8 s) (pb_payload (?f a) + ucast off) (unat b)"
        proof -
          have "span (pb_payload (?f a) + of_nat (unat off)) (unat b) \<subseteq> pspan ?f a"
            using span_add [of "pb_payload (?f a)" "unat off" "unat ?l - unat off"] off b
              span_mono [of "unat b" "unat ?l - unat off" "pb_payload (?f a) + of_nat (unat off)"] by (auto simp: pspan_def)
          then show ?thesis
            unfolding m1_def using Cons.prems(3) [of a] sp b unat_16 [of n] by (intro bytes_at_copied) auto
        qed
        also have "\<dots> = take (unat b) (drop (unat off) (pbytes ?f (mem8 s) a))"
          using off b by (simp add: pbytes_def bytes_at_drop bytes_at_take)
        finally show ?thesis .
      qed
      define k where "k = min (unat n) (plen ?f (a # xs) - unat off)"
      have k: "k = unat b + ?k" using b off by (auto simp: k_def nb min_def)
      have "bytes_at m (dataptr + ucast left) k = bytes_at m (dataptr + ucast left) (unat b) @ take ?k (pdata ?f (mem8 s) xs)"
        using m(2) unfolding k bytes_at_add addr e1 by simp
      also have "\<dots> = take k (drop (unat off) (pdata ?f (mem8 s) (a # xs)))"
        using off b unfolding e2 k by (auto simp: nb min_def)
      finally have "bytes_at m (dataptr + ucast left) k = take k (drop (unat off) (pdata ?f (mem8 s) (a # xs)))" .
      moreover have "\<forall>x. x \<notin> span (dataptr + ucast left) (unat n) \<longrightarrow> m x = mem8 s x" using m(3) m1 sp by auto
      moreover have "tot0 + b + of_nat ?k = tot0 + of_nat k" unfolding k by (simp add: add.assoc)
      ultimately show ?thesis using run m(1) unfolding k_def [symmetric] by auto
    qed
  qed
qed

section \<open>Properties\<close>

text \<open>A pool of two buffers.\<close>

definition demo_pbuf :: "addr \<Rightarrow> pbuf" where
  "demo_pbuf next = \<lparr>pb_next = next, pb_payload = 0, pb_tot_len = 0, pb_len = 0, pb_type = 0, pb_flags = 0, pb_ref = 0\<rparr>"

definition pb_kernel :: pbkernel where
  "pb_kernel = devkernel.extend dev_kernel
     \<lparr>pbufs = (\<lambda>a. demo_pbuf (if a = 0x10000 then 0x11000 else NULL)), memp_tab = (\<lambda>i. if i = MEMP_PBUF_POOL then 0x10000 else NULL)\<rparr>"

definition no_custom :: "addr \<Rightarrow> pbkernel \<Rightarrow> pbkernel option" where
  "no_custom p s = None"

lemma pb_kernel_facts:
  "pool MEMP_PBUF_POOL pb_kernel [0x10000, 0x11000]" "pool MEMP_PBUF pb_kernel []"
  "\<forall>a \<in> set [0x10000, 0x11000]. element a \<and> pb_flags (pbufs pb_kernel a) AND PBUF_FLAG_IS_CUSTOM = 0"
  by (simp_all add: pb_kernel_def devkernel.extend_def pool_def demo_pbuf_def element_def MEMP_PBUF_def MEMP_PBUF_POOL_def NULL_def)

text \<open>
  A packet of pool buffers is allocated as a whole or not at all. If the pool has enough elements for the length and the header room of the layer,
  \<^verbatim>\<open>pbuf_alloc\<close> takes exactly these from the front of the pool: the result is a chain of them with the total-length invariant of \<^verbatim>\<open>pbuf.h\<close>, lengths that
  add up to the request, one reference each, and data that lie inside the element. Otherwise the result is NULL and every
  element is back in the pool. Nothing but these elements and the pool changes.
\<close>

theorem pbuf_alloc_chain:
  fixes len :: os_u16
  assumes "pbuf_offset layer = Some offset" and "pool MEMP_PBUF_POOL s fl" and "pool MEMP_PBUF s f7" and "set fl \<inter> set f7 = {}"
    and "\<forall>a \<in> set fl. element a \<and> pb_flags (pbufs s a) AND PBUF_FLAG_IS_CUSTOM = 0"
  shows "let ns = pool_lens offset (unat len); xs = take (length ns) fl
    in \<exists>p s'. pbuf_alloc custom env layer len PBUF_POOL s = Some (p, s') \<and> same_but (set xs) s s' \<and> pool MEMP_PBUF s' f7 \<and>
      sum_list ns = unat len \<and>
      (if length ns \<le> length fl
       then p = hd fl \<and> pool MEMP_PBUF_POOL s' (drop (length ns) fl) \<and> pchain (pbufs s') p xs \<and> ptot (pbufs s') xs \<and>
         map (\<lambda>a. unat (pb_len (pbufs s' a))) xs = ns \<and> own_pool (pbufs s') xs \<and> list_all (in_element (pbufs s')) xs
       else p = NULL \<and> pool MEMP_PBUF_POOL s' (rev fl))"
proof (cases "length (pool_lens offset (unat len)) \<le> length fl")
  case True
  then show ?thesis
    using alloc_ok [OF assms(1-4), of len custom env] assms(5) sum_list_pool_lens [of offset "unat len"]
    by (auto simp: Let_def list_all_iff)
next
  case False
  then show ?thesis
    using alloc_fails [OF assms(1-4), of len custom env] assms(5) sum_list_pool_lens [of offset "unat len"]
    by (auto simp: Let_def)
qed

theorem pbuf_alloc_chain_witness:
  "\<exists>s'. pbuf_alloc no_custom Some PBUF_RAW 2000 PBUF_POOL pb_kernel = Some (0x10000, s') \<and>
     pchain (pbufs s') 0x10000 [0x10000, 0x11000] \<and> map (\<lambda>a. unat (pb_len (pbufs s' a))) [0x10000, 0x11000] = [1500, 500]"
proof -
  have "pbuf_offset PBUF_RAW = Some 0"
    by (simp add: pbuf_offset_def PBUF_RAW_def PBUF_TRANSPORT_def PBUF_IP_def PBUF_LINK_def)
  moreover have "pool_lens 0 (unat (2000 :: os_u16)) = [1500, 500]"
    by (simp add: pool_lens_def pool_room_def LWIP_MEM_ALIGN_SIZE_def PBUF_POOL_BUFSIZE_ALIGNED_def Let_def chunks_pos)
  ultimately show ?thesis
    using pbuf_alloc_chain [of PBUF_RAW 0 pb_kernel "[0x10000, 0x11000]" "[]" 2000 no_custom Some] pb_kernel_facts
    by (simp add: Let_def) blast
qed

text \<open>
  C27. Releasing a packet follows the reference counts as the comment of \<^verbatim>\<open>pbuf_free\<close> says: the buffers from the head of the chain that have a single reference
  go back to the pool they came from, in the order of the chain, and their number is the result; the first buffer that is shared loses one
  reference and stays the head of the rest of the chain. No other buffer changes.
\<close>

theorem pbuf_free_references:
  assumes "pchain (pbufs s) p xs" and "p \<noteq> NULL" and "\<forall>a \<in> set (unshared (pbufs s) xs). pooled (pbufs s a)"
    and "pool MEMP_PBUF s f7" and "pool MEMP_PBUF_POOL s f8" and "set xs \<inter> (set f7 \<union> set f8) = {}" and "set f7 \<inter> set f8 = {}"
  shows "let n = length (unshared (pbufs s) xs)
    in \<exists>s'. pbuf_free custom env p s = Some (of_nat n, s') \<and> same_but (set (take (Suc n) xs)) s s' \<and>
      pool MEMP_PBUF s' (freed_from MEMP_PBUF (pbufs s) xs @ f7) \<and>
      pool MEMP_PBUF_POOL s' (freed_from MEMP_PBUF_POOL (pbufs s) xs @ f8) \<and>
      (if n < length xs
       then pchain (pbufs s') (xs ! n) (drop n xs) \<and>
         pbufs s' (xs ! n) = (pbufs s (xs ! n))\<lparr>pb_ref := pb_ref (pbufs s (xs ! n)) - 1\<rparr>
       else True)"
proof -
  define n where "n = length (unshared (pbufs s) xs)"
  obtain s' where s': "pbuf_free_loop custom env p 0 s = Some (0 + of_nat n, s')" "same_but (set (take (Suc n) xs)) s s'"
      "pool MEMP_PBUF s' (freed_from MEMP_PBUF (pbufs s) xs @ f7)"
      "pool MEMP_PBUF_POOL s' (freed_from MEMP_PBUF_POOL (pbufs s) xs @ f8)"
      "n < length xs \<Longrightarrow> pbufs s' (xs ! n) = (pbufs s (xs ! n))\<lparr>pb_ref := pb_ref (pbufs s (xs ! n)) - 1\<rparr>"
    using free_loop_spec [OF assms(1) _ assms(4-7), of custom env 0] assms(3) unfolding n_def by blast
  have "pchain (pbufs s') (xs ! n) (drop n xs)" if n: "n < length xs"
  proof -
    have split: "xs = take n xs @ xs ! n # drop (Suc n) xs" using n by (simp add: id_take_nth_drop)
    then have "pchain (pbufs s) (xs ! n) (drop n xs)"
      using assms(1) pchain_append [of "pbufs s" p "take n xs" "xs ! n" "drop (Suc n) xs"] n by (simp add: Cons_nth_drop_Suc)
    moreover have "pb_next (pbufs s' a) = pb_next (pbufs s a)" if a: "a \<in> set (drop n xs)" for a
    proof (cases "a = xs ! n")
      case True
      then show ?thesis using s'(5) n by simp
    next
      case False
      then have "a \<in> set (drop (Suc n) xs)" using a n by (simp add: Cons_nth_drop_Suc [symmetric])
      moreover have "set (take (Suc n) xs) \<inter> set (drop (Suc n) xs) = {}"
        using pchain_distinct [OF assms(1)] by (simp add: set_take_disj_set_drop_if_distinct)
      ultimately have "a \<notin> set (take (Suc n) xs)" by blast
      then show ?thesis using same_but_at [OF s'(2)] by simp
    qed
    ultimately show ?thesis using pchain_cong [of "drop n xs" "pbufs s'" "pbufs s"] by blast
  qed
  then show ?thesis using s' assms(2) unfolding n_def [symmetric] by (auto simp: pbuf_free_def Let_def)
qed

definition shared_kernel :: pbkernel where
  "shared_kernel = pb_kernel\<lparr>pbufs := (pbufs pb_kernel)(
     0x20000 := (demo_pbuf 0x21000)\<lparr>pb_type := PBUF_POOL, pb_ref := 1\<rparr>,
     0x21000 := (demo_pbuf NULL)\<lparr>pb_type := PBUF_POOL, pb_ref := 2\<rparr>)\<rparr>"

lemma shared_kernel_facts:
  "pchain (pbufs shared_kernel) 0x20000 [0x20000, 0x21000]" "unshared (pbufs shared_kernel) [0x20000, 0x21000] = [0x20000]"
  "pooled (pbufs shared_kernel 0x20000)" "pool MEMP_PBUF_POOL shared_kernel [0x10000, 0x11000]" "pool MEMP_PBUF shared_kernel []"
  "freed_from MEMP_PBUF_POOL (pbufs shared_kernel) [0x20000, 0x21000] = [0x20000]"
  using pb_kernel_facts
  by (simp_all add: shared_kernel_def pool_def demo_pbuf_def unshared_def pooled_def freed_from_def pool_no_def NULL_def pchain_upd_other)

theorem pbuf_free_references_witness:
  "\<exists>s'. pbuf_free no_custom Some 0x20000 shared_kernel = Some (1, s') \<and> pool MEMP_PBUF_POOL s' [0x20000, 0x10000, 0x11000] \<and>
     pchain (pbufs s') 0x21000 [0x21000]"
  using pbuf_free_references [of shared_kernel "0x20000" "[0x20000, 0x21000]" "[]" "[0x10000, 0x11000]" no_custom Some]
    shared_kernel_facts by (auto simp: Let_def NULL_def)

text \<open>
  C28. Data put into a packet come out again: \<^verbatim>\<open>pbuf_take\<close> of \<open>n\<close> bytes that fit succeeds, keeps the rest of the packet, and
  \<^verbatim>\<open>pbuf_copy_partial\<close> of \<open>k\<close> bytes from any offset of the packet then returns the number of bytes there are and copies exactly those of the packet; for
  offset 0 they are the bytes that were put in. The packet may be any chain of buffers that do not overlap each other or the two memory areas.
\<close>

theorem pbuf_take_copy_roundtrip:
  assumes "pchain (pbufs s) p xs" and "ptot (pbufs s) xs" and "p \<noteq> NULL" and "apart (pbufs s) xs" and "unat n \<le> plen (pbufs s) xs"
    and "src \<noteq> NULL" and "dst \<noteq> NULL"
    and "\<forall>a \<in> set xs. pspan (pbufs s) a \<inter> (span src (unat n) \<union> span dst (unat k)) = {}"
  shows "\<exists>m m'. pbuf_take p src n s = Some (ERR_OK, s\<lparr>mem8 := m\<rparr>) \<and>
    pdata (pbufs s) m xs = bytes_at (mem8 s) src (unat n) @ drop (unat n) (pdata (pbufs s) (mem8 s) xs) \<and>
    (let c = min (unat k) (plen (pbufs s) xs - unat off)
     in pbuf_copy_partial p dst k off (s\<lparr>mem8 := m\<rparr>) = Some (of_nat c, s\<lparr>mem8 := m'\<rparr>) \<and>
        bytes_at m' dst c = take c (drop (unat off) (pdata (pbufs s) m xs)))"
proof -
  have "pb_tot_len (pbufs s p) \<ge> n"
    using assms(1-3,5) by (cases xs) (auto simp: word_le_nat_alt)
  then have "\<not> pb_tot_len (pbufs s p) < n" by simp
  moreover obtain m where m: "pbuf_take_loop p src n 0 s = Some (s\<lparr>mem8 := m\<rparr>)"
    "pdata (pbufs s) m xs = bytes_at (mem8 s) src (unat n) @ drop (unat n) (pdata (pbufs s) (mem8 s) xs)"
    using take_loop_spec [OF assms(1,4,5), of 0 src] assms(8) unat_16 [of n] by (auto simp: Int_Un_distrib)
  moreover obtain m' where "pbuf_copy_partial_loop p dst k off 0 0 (s\<lparr>mem8 := m\<rparr>) =
      Some (0 + of_nat (min (unat k) (plen (pbufs s) xs - unat off)), s\<lparr>mem8 := m'\<rparr>)"
    and m': "bytes_at m' dst (min (unat k) (plen (pbufs s) xs - unat off)) =
      take (min (unat k) (plen (pbufs s) xs - unat off)) (drop (unat off) (pdata (pbufs s) m xs))"
    using copy_partial_spec [of "s\<lparr>mem8 := m\<rparr>" p xs 0 k dst off 0] assms(1,8) unat_16 [of k] by (auto simp: Int_Un_distrib)
  ultimately have "pbuf_take p src n s = Some (ERR_OK, s\<lparr>mem8 := m\<rparr>)"
    and "pbuf_copy_partial p dst k off (s\<lparr>mem8 := m\<rparr>) = Some (of_nat (min (unat k) (plen (pbufs s) xs - unat off)), s\<lparr>mem8 := m'\<rparr>)"
    using assms(3,6,7) by (simp_all add: pbuf_take_def pbuf_copy_partial_def)
  then show ?thesis using m(2) m' unfolding Let_def by blast
qed

definition packet_kernel :: pbkernel where
  "packet_kernel = pb_kernel\<lparr>pbufs := (pbufs pb_kernel)(
     0x20000 := (demo_pbuf 0x21000)\<lparr>pb_payload := 0x20010, pb_len := 2, pb_tot_len := 5\<rparr>,
     0x21000 := (demo_pbuf NULL)\<lparr>pb_payload := 0x21010, pb_len := 3, pb_tot_len := 3\<rparr>),
     mem8 := store 0x30000 [1, 2, 3, 4, 5] (\<lambda>_. 0)\<rparr>"

lemma packet_kernel_facts:
  "pchain (pbufs packet_kernel) 0x20000 [0x20000, 0x21000]" "ptot (pbufs packet_kernel) [0x20000, 0x21000]"
  "apart (pbufs packet_kernel) [0x20000, 0x21000]" "plen (pbufs packet_kernel) [0x20000, 0x21000] = 5"
  "\<forall>a \<in> set [0x20000, 0x21000]. pspan (pbufs packet_kernel) a \<inter> (span 0x30000 (unat (5 :: os_u16)) \<union> span 0x40000 (unat (3 :: os_u16))) = {}"
  "bytes_at (mem8 packet_kernel) 0x30000 5 = [1, 2, 3, 4, 5]"
proof -
  have p1: "pbufs packet_kernel 0x20000 = (demo_pbuf 0x21000)\<lparr>pb_payload := 0x20010, pb_len := 2, pb_tot_len := 5\<rparr>"
    and p2: "pbufs packet_kernel 0x21000 = (demo_pbuf NULL)\<lparr>pb_payload := 0x21010, pb_len := 3, pb_tot_len := 3\<rparr>"
    by (simp_all add: packet_kernel_def)
  then show "pchain (pbufs packet_kernel) 0x20000 [0x20000, 0x21000]" "ptot (pbufs packet_kernel) [0x20000, 0x21000]"
    "plen (pbufs packet_kernel) [0x20000, 0x21000] = 5"
    by (simp_all add: demo_pbuf_def NULL_def)
  have "pspan (pbufs packet_kernel) 0x20000 = span 0x20010 2" "pspan (pbufs packet_kernel) 0x21000 = span 0x21010 3"
    by (simp_all add: pspan_def p1 p2 demo_pbuf_def)
  then show "apart (pbufs packet_kernel) [0x20000, 0x21000]"
    "\<forall>a \<in> set [0x20000, 0x21000]. pspan (pbufs packet_kernel) a \<inter> (span 0x30000 (unat (5 :: os_u16)) \<union> span 0x40000 (unat (3 :: os_u16))) = {}"
    by (simp_all add: apart_def Int_Un_distrib span_apart)
  show "bytes_at (mem8 packet_kernel) 0x30000 5 = [1, 2, 3, 4, 5]"
    by (simp add: packet_kernel_def bytes_at_def upt_rec)
qed

theorem pbuf_take_copy_roundtrip_witness:
  "\<exists>m m'. pbuf_take 0x20000 0x30000 5 packet_kernel = Some (ERR_OK, packet_kernel\<lparr>mem8 := m\<rparr>) \<and>
     pbuf_copy_partial 0x20000 0x40000 3 1 (packet_kernel\<lparr>mem8 := m\<rparr>) = Some (3, packet_kernel\<lparr>mem8 := m'\<rparr>) \<and>
     bytes_at m' 0x40000 3 = [2, 3, 4]"
proof -
  note f = packet_kernel_facts
  have nz: "(0x20000 :: addr) \<noteq> NULL" "(0x30000 :: addr) \<noteq> NULL" "(0x40000 :: addr) \<noteq> NULL"
    and le: "unat (5 :: os_u16) \<le> plen (pbufs packet_kernel) [0x20000, 0x21000]"
    by (simp_all add: NULL_def f(4) del: plen_simps)
  have rest: "drop 5 (pdata (pbufs packet_kernel) (mem8 packet_kernel) [0x20000, 0x21000]) = []"
    using f(4) by (simp del: pdata_simps plen_simps)
  have c: "min (unat (3 :: os_u16)) (plen (pbufs packet_kernel) [0x20000, 0x21000] - unat (1 :: os_u16)) = 3"
    by (simp add: f(4) del: plen_simps)
  have u: "unat (5 :: os_u16) = 5" "unat (1 :: os_u16) = 1" by simp_all
  obtain m m' where m: "pbuf_take 0x20000 0x30000 5 packet_kernel = Some (ERR_OK, packet_kernel\<lparr>mem8 := m\<rparr>)"
    "pdata (pbufs packet_kernel) m [0x20000, 0x21000] = bytes_at (mem8 packet_kernel) 0x30000 (unat (5 :: os_u16)) @
       drop (unat (5 :: os_u16)) (pdata (pbufs packet_kernel) (mem8 packet_kernel) [0x20000, 0x21000])"
    "let c = min (unat (3 :: os_u16)) (plen (pbufs packet_kernel) [0x20000, 0x21000] - unat (1 :: os_u16))
     in pbuf_copy_partial 0x20000 0x40000 3 1 (packet_kernel\<lparr>mem8 := m\<rparr>) = Some (of_nat c, packet_kernel\<lparr>mem8 := m'\<rparr>) \<and>
        bytes_at m' 0x40000 c = take c (drop (unat (1 :: os_u16)) (pdata (pbufs packet_kernel) m [0x20000, 0x21000]))"
    using pbuf_take_copy_roundtrip [where off = 1, OF f(1,2) nz(1) f(3) le nz(2,3) f(5)]
    by (elim exE conjE) (rule that, assumption+)
  have "pdata (pbufs packet_kernel) m [0x20000, 0x21000] = [1, 2, 3, 4, 5]" unfolding m(2) u rest f(6) by simp
  then have "pbuf_copy_partial 0x20000 0x40000 3 1 (packet_kernel\<lparr>mem8 := m\<rparr>) = Some (3, packet_kernel\<lparr>mem8 := m'\<rparr>)"
    "bytes_at m' 0x40000 3 = [2, 3, 4]"
    using m(3) [unfolded Let_def c, unfolded u] by (simp_all del: pdata_simps)
  then show ?thesis using m(1) by blast
qed

end
