(* ===== verification/Inet.thy ===== *)
theory Inet
  imports Pbuf_Data
begin

text \<open>
  Byte order, checksums and addresses of the IP stack: \<^verbatim>\<open>def.c\<close>, \<^verbatim>\<open>ipv4/inet_chksum.c\<close> (algorithm 2, which the configuration selects) and
  \<^verbatim>\<open>ipv4/ip_addr.c\<close> of \<^verbatim>\<open>hwutil/net/lwip/source/core\<close>, on a little-endian processor. The checksum of a memory area, of a packet and of
  a packet with its pseudo header are related to the sum of RFC 1071 on the list of bytes; addresses survive being printed and read again.
\<close>

section \<open>Byte order\<close>

definition lwip_htons :: "os_u16 \<Rightarrow> os_u16" where
  "lwip_htons n = push_bit 8 (n AND 0xff) OR drop_bit 8 (n AND 0xff00)"

definition lwip_ntohs :: "os_u16 \<Rightarrow> os_u16" where
  "lwip_ntohs n = lwip_htons n"

definition lwip_htonl :: "os_u32 \<Rightarrow> os_u32" where
  "lwip_htonl n =
     push_bit 24 (n AND 0xff) OR push_bit 8 (n AND 0xff00) OR drop_bit 8 (n AND 0xff0000) OR drop_bit 24 (n AND 0xff000000)"

definition lwip_ntohl :: "os_u32 \<Rightarrow> os_u32" where
  "lwip_ntohl n = lwip_htonl n"

section \<open>Checksums\<close>

definition SWAP_BYTES_IN_WORD :: "os_u32 \<Rightarrow> os_u32" where
  "SWAP_BYTES_IN_WORD w = push_bit 8 (w AND 0xff) OR drop_bit 8 (w AND 0xff00)"

definition FOLD_U32T :: "os_u32 \<Rightarrow> os_u32" where
  "FOLD_U32T u = drop_bit 16 u + (u AND 0x0000ffff)"

definition load16 :: "bytes \<Rightarrow> addr \<Rightarrow> os_u16" where
  "load16 m a = ucast (m a) OR push_bit 8 (ucast (m (a + 1)))"

definition load32 :: "bytes \<Rightarrow> addr \<Rightarrow> os_u32" where
  "load32 m a = ucast (load16 m a) OR push_bit 16 (ucast (load16 m (a + 2)))"

text \<open>The loop that adds the bulk of the data.\<close>

function chksum_words :: "bytes \<Rightarrow> addr \<Rightarrow> int \<Rightarrow> os_u32 \<Rightarrow> addr \<times> int \<times> os_u32" where
  "chksum_words m ps len acc =
     (if len > 1 then chksum_words m (ps + 2) (len - 2) (acc + ucast (load16 m ps)) else (ps, len, acc))"
  by pat_completeness auto
termination by (relation "measure (\<lambda>(m, ps, len, acc). nat len)") auto

declare chksum_words.simps [simp del]

definition lwip_standard_chksum :: "bytes \<Rightarrow> addr \<Rightarrow> int \<Rightarrow> os_u16" where
  "lwip_standard_chksum m dataptr len =
     (let unaligned = dataptr AND 1 \<noteq> 0;
          (t, pb, len) = (if unaligned \<and> len > 0 then (push_bit 8 (ucast (m dataptr)) :: os_u16, dataptr + 1, len - 1) else (0, dataptr, len));
          (ps, len, acc) = chksum_words m pb len 0;
          t = (if len > 0 then t AND 0xff00 OR ucast (m ps) else t);
          acc = acc + ucast t;
          acc = FOLD_U32T acc;
          acc = FOLD_U32T acc;
          acc = (if unaligned then SWAP_BYTES_IN_WORD acc else acc)
      in ucast acc)"

definition inet_chksum :: "bytes \<Rightarrow> addr \<Rightarrow> os_u16 \<Rightarrow> os_u16" where
  "inet_chksum m dataptr len = NOT (lwip_standard_chksum m dataptr (uint len))"

text \<open>The loop over the buffers of a packet: the sum so far and whether its bytes are swapped.\<close>

partial_function (option) chksum_chain :: "addr \<Rightarrow> os_u32 \<Rightarrow> os_u8 \<Rightarrow> 'a pbkernel_scheme \<Rightarrow> (os_u32 \<times> os_u8) option" where
  "chksum_chain q acc swapped s =
     (if q = NULL then Some (acc, swapped)
      else let len = pb_len (pbufs s q);
               acc = FOLD_U32T (acc + ucast (lwip_standard_chksum (mem8 s) (pb_payload (pbufs s q)) (uint len)))
           in if len mod 2 \<noteq> 0
              then chksum_chain (pb_next (pbufs s q)) (SWAP_BYTES_IN_WORD acc) (1 - swapped) s
              else chksum_chain (pb_next (pbufs s q)) acc swapped s)"

definition inet_chksum_pbuf :: "addr \<Rightarrow> 'a pbkernel_scheme \<Rightarrow> os_u16 option" where
  "inet_chksum_pbuf p s =
     do {
       (acc, swapped) \<leftarrow> chksum_chain p 0 0 s;
       let acc = (if swapped \<noteq> 0 then SWAP_BYTES_IN_WORD acc else acc);
       Some (ucast (NOT (acc AND 0xffff)))
     }"

text \<open>The addition of the pseudo header, the last part of \<^verbatim>\<open>inet_chksum_pseudo\<close> and \<^verbatim>\<open>inet_chksum_pseudo_partial\<close>.\<close>

definition pseudo_finish :: "os_u32 \<Rightarrow> os_u32 \<Rightarrow> os_u32 \<Rightarrow> os_u8 \<Rightarrow> os_u16 \<Rightarrow> os_u16" where
  "pseudo_finish acc src dest proto proto_len =
     (let acc = acc + (src AND 0xffff);
          acc = acc + (drop_bit 16 src AND 0xffff);
          acc = acc + (dest AND 0xffff);
          acc = acc + (drop_bit 16 dest AND 0xffff);
          acc = acc + ucast (lwip_htons (ucast proto));
          acc = acc + ucast (lwip_htons proto_len);
          acc = FOLD_U32T acc;
          acc = FOLD_U32T acc
      in ucast (NOT (acc AND 0xffff)))"

definition inet_chksum_pseudo :: "addr \<Rightarrow> os_u32 \<Rightarrow> os_u32 \<Rightarrow> os_u8 \<Rightarrow> os_u16 \<Rightarrow> 'a pbkernel_scheme \<Rightarrow> os_u16 option" where
  "inet_chksum_pseudo p src dest proto proto_len s =
     do {
       (acc, swapped) \<leftarrow> chksum_chain p 0 0 s;
       let acc = (if swapped \<noteq> 0 then SWAP_BYTES_IN_WORD acc else acc);
       Some (pseudo_finish acc src dest proto proto_len)
     }"

partial_function (option) chksum_partial :: "addr \<Rightarrow> os_u16 \<Rightarrow> os_u32 \<Rightarrow> os_u8 \<Rightarrow> 'a pbkernel_scheme \<Rightarrow> (os_u32 \<times> os_u8) option" where
  "chksum_partial q chksum_len acc swapped s =
     (if q \<noteq> NULL \<and> chksum_len > 0
      then let chklen = (if pb_len (pbufs s q) > chksum_len then chksum_len else pb_len (pbufs s q));
               acc = acc + ucast (lwip_standard_chksum (mem8 s) (pb_payload (pbufs s q)) (uint chklen));
               chksum_len = chksum_len - chklen;
               acc = FOLD_U32T acc
           in if pb_len (pbufs s q) mod 2 \<noteq> 0
              then chksum_partial (pb_next (pbufs s q)) chksum_len (SWAP_BYTES_IN_WORD acc) (1 - swapped) s
              else chksum_partial (pb_next (pbufs s q)) chksum_len acc swapped s
      else Some (acc, swapped))"

definition inet_chksum_pseudo_partial :: "addr \<Rightarrow> os_u32 \<Rightarrow> os_u32 \<Rightarrow> os_u8 \<Rightarrow> os_u16 \<Rightarrow> os_u16 \<Rightarrow> 'a pbkernel_scheme \<Rightarrow> os_u16 option" where
  "inet_chksum_pseudo_partial p src dest proto proto_len chksum_len s =
     do {
       (acc, swapped) \<leftarrow> chksum_partial p chksum_len 0 0 s;
       let acc = (if swapped \<noteq> 0 then SWAP_BYTES_IN_WORD acc else acc);
       Some (pseudo_finish acc src dest proto proto_len)
     }"

section \<open>The sum of RFC 1071\<close>

text \<open>
  The reference: the sum of the 16-bit words of the data, low byte first, an odd last byte padded with zero, in ones' complement: \<open>ones n\<close> is the
  representative of \<open>n\<close> modulo 65535 that is 0 only for 0.
\<close>

fun inet_sum :: "os_u8 list \<Rightarrow> nat" where
  "inet_sum [] = 0"
| "inet_sum [b] = unat b"
| "inet_sum (a # b # bs) = unat a + 256 * unat b + inet_sum bs"

definition ones :: "nat \<Rightarrow> nat" where
  "ones n = (if n = 0 then 0 else (n - 1) mod 65535 + 1)"

definition csum :: "os_u8 list \<Rightarrow> os_u16" where
  "csum bs = of_nat (ones (inet_sum bs))"

text \<open>Two numbers with the same ones' complement sum.\<close>

definition same_ones :: "nat \<Rightarrow> nat \<Rightarrow> bool" where
  "same_ones a b \<longleftrightarrow> a mod 65535 = b mod 65535 \<and> (a = 0 \<longleftrightarrow> b = 0)"

lemma same_onesI: "a mod 65535 = b mod 65535 \<Longrightarrow> (a = 0 \<longleftrightarrow> b = 0) \<Longrightarrow> same_ones a b"
  by (simp add: same_ones_def)

lemma same_ones_refl [simp]: "same_ones a a"
  by (simp add: same_ones_def)

lemma same_ones_sym: "same_ones a b \<Longrightarrow> same_ones b a"
  by (simp add: same_ones_def)

lemma same_ones_trans [trans]: "same_ones a b \<Longrightarrow> same_ones b c \<Longrightarrow> same_ones a c"
  by (auto simp: same_ones_def)

lemma same_ones_add: "same_ones a b \<Longrightarrow> same_ones c d \<Longrightarrow> same_ones (a + c) (b + d)"
  unfolding same_ones_def by (metis add_is_0 mod_add_cong)

lemma same_ones_mult: "same_ones a b \<Longrightarrow> same_ones (256 * a) (256 * b)"
  unfolding same_ones_def by (metis mod_mult_cong mult_is_0)

lemma same_ones_65536: "same_ones (256 * (256 * a)) a"
proof -
  have "256 * (256 * a) = a + 65535 * a" by simp
  then have "256 * (256 * a) mod 65535 = a mod 65535" by (metis mod_mult_self2)
  then show ?thesis by (simp add: same_ones_def)
qed

lemma ones_eq: "same_ones a b \<Longrightarrow> ones a = ones b"
proof (cases a)
  case (Suc k)
  assume "same_ones a b"
  then have "a mod 65535 = b mod 65535" "b \<noteq> 0" using Suc by (auto simp: same_ones_def)
  moreover obtain l where "b = Suc l" using \<open>b \<noteq> 0\<close> by (cases b) auto
  ultimately have "k mod 65535 = l mod 65535" using Suc by (simp add: mod_Suc split: if_splits)
  then show ?thesis using Suc \<open>b = Suc l\<close> by (simp add: ones_def)
qed (auto simp: same_ones_def ones_def)

lemma ones_same: "same_ones (ones a) a"
proof (cases a)
  case (Suc k)
  then show ?thesis by (auto simp: same_ones_def ones_def mod_simps)
qed (simp add: ones_def)

lemma ones_small: "r < 65536 \<Longrightarrow> ones r = r"
  by (cases r) (auto simp: ones_def)

lemma ones_less: "ones a < 65536"
  using mod_less_divisor [of 65535 "a - 1"] unfolding ones_def by (simp del: mod_less_divisor)

lemma ones_is: "r < 65536 \<Longrightarrow> same_ones r n \<Longrightarrow> r = ones n"
  using ones_eq ones_small by metis

lemma ones_same_iff: "ones a = ones b \<longleftrightarrow> same_ones a b"
  using ones_eq ones_same same_ones_sym same_ones_trans by metis

text \<open>The sum is that of the data read as one number, low byte first; so a byte in front swaps the two positions of the rest.\<close>

primrec le_number :: "os_u8 list \<Rightarrow> nat" where
  "le_number [] = 0"
| "le_number (b # bs) = unat b + 256 * le_number bs"

lemma inet_sum_le_number: "same_ones (inet_sum bs) (le_number bs)"
proof (induction bs rule: inet_sum.induct)
  case (3 a b bs)
  have "same_ones (unat a + 256 * unat b + inet_sum bs) (unat a + 256 * unat b + 256 * (256 * le_number bs))"
    by (rule same_ones_add [OF same_ones_refl same_ones_trans [OF 3 same_ones_sym [OF same_ones_65536]]])
  then show ?case by (simp add: algebra_simps)
qed simp_all

lemma inet_sum_Cons: "same_ones (inet_sum (b # bs)) (unat b + 256 * inet_sum bs)"
proof -
  have "same_ones (unat b + 256 * le_number bs) (unat b + 256 * inet_sum bs)"
    by (rule same_ones_add [OF same_ones_refl same_ones_mult [OF same_ones_sym [OF inet_sum_le_number]]])
  then show ?thesis using inet_sum_le_number [of "b # bs"] same_ones_trans by simp
qed

lemma inet_sum_append:
  "same_ones (inet_sum (xs @ ys)) (inet_sum xs + (if even (length xs) then 1 else 256) * inet_sum ys)"
proof (induction xs rule: inet_sum.induct)
  case (2 b)
  then show ?case using inet_sum_Cons by simp
next
  case (3 a b bs)
  then have "same_ones (unat a + 256 * unat b + inet_sum (bs @ ys))
      (unat a + 256 * unat b + (inet_sum bs + (if even (length bs) then 1 else 256) * inet_sum ys))"
    by (rule same_ones_add [OF same_ones_refl])
  then show ?case by (simp add: add.assoc)
qed simp

lemma inet_sum_bound: "inet_sum bs \<le> 65535 * ((length bs + 1) div 2)"
proof (induction bs rule: inet_sum.induct)
  case (2 b)
  then show ?case using unsigned_less [of b, where 'a = nat] by simp
next
  case (3 a b bs)
  then show ?case using unsigned_less [of a, where 'a = nat] unsigned_less [of b, where 'a = nat] by simp
qed simp

section \<open>Words and bytes\<close>

lemma and_ff: "(w :: 'a :: len word) AND 0xff = take_bit 8 w"
  unfolding take_bit_eq_mask by (simp add: mask_eq_exp_minus_1)

lemma and_ffff: "(w :: 'a :: len word) AND 0xffff = take_bit 16 w"
  unfolding take_bit_eq_mask by (simp add: mask_eq_exp_minus_1)

lemma drop_and_ff00: "drop_bit 8 ((w :: 'a :: len word) AND 0xff00) = take_bit 8 (drop_bit 8 w)"
proof -
  have e: "(0xff00 :: 'a word) = push_bit 8 (mask 8)" by (simp add: mask_eq_exp_minus_1 push_bit_eq_mult)
  show ?thesis unfolding e by (rule bit_word_eqI) (auto simp: bit_simps dest: bit_imp_le_length)
qed

lemma unat_take_bit: "unat (take_bit n (w :: 'a :: len word)) = unat w mod 2 ^ n"
  by (simp only: unsigned_take_bit_eq take_bit_eq_mod [of n "unat w"])

lemma unat_push_bit: "unat w * 2 ^ n < 2 ^ LENGTH('a) \<Longrightarrow> unat (push_bit n (w :: 'a :: len word)) = unat w * 2 ^ n"
  by (simp only: unsigned_push_bit_eq push_bit_eq_mult [of n "unat w"] take_bit_nat_eq_self)

lemma unat_or_disjoint: "x AND y = 0 \<Longrightarrow> unat (x OR y) = unat x + unat (y :: 'a :: len word)"
proof -
  assume "x AND y = 0"
  then have "unat x AND unat y = 0" by (metis unsigned_0 unsigned_and_eq)
  then show ?thesis by (simp add: unsigned_or_eq disjunctive_add_eq_or)
qed

lemma low_high: "drop_bit k a = 0 \<Longrightarrow> a AND push_bit k b = (0 :: 'a :: len word)"
proof (rule bit_word_eqI)
  fix n assume "drop_bit k a = 0"
  then have "\<not> bit (drop_bit k a) (n - k)" by simp
  then show "bit (a AND push_bit k b) n \<longleftrightarrow> bit (0 :: 'a word) n" by (auto simp: bit_simps)
qed

lemma unat_or_push:
  assumes "unat a < 2 ^ k" and "unat b * 2 ^ k < 2 ^ LENGTH('a)"
  shows "unat (a OR push_bit k (b :: 'a :: len word)) = unat a + unat b * 2 ^ k"
proof -
  have "unat (drop_bit k a) = 0" using assms(1) by (simp add: unat_drop_bit)
  then have "drop_bit k a = 0" by (simp only: unat_eq_zero)
  then show ?thesis using assms by (simp add: unat_or_disjoint low_high unat_push_bit)
qed

lemma unat_byte: "unat (b :: os_u8) < 256"
  using unsigned_less [of b, where 'a = nat] by simp

lemma unat_ucast_8: "unat (ucast (b :: os_u8) :: os_u16) = unat b" "unat (ucast (b :: os_u8) :: os_u32) = unat b"
  using unat_byte [of b] by (simp_all add: unsigned_ucast_eq take_bit_nat_eq_self)

lemma unat_load16: "unat (load16 m a) = unat (m a) + 256 * unat (m (a + 1))"
  using unat_byte [of "m a"] unat_byte [of "m (a + 1)"]
  by (simp add: load16_def unat_or_push unat_ucast_8)

lemma unat_FOLD: "unat (FOLD_U32T x) = unat x div 65536 + unat x mod 65536"
proof -
  have "unat x < 2 ^ 32" using unsigned_less [of x, where 'a = nat] by simp
  then show ?thesis
    by (simp add: FOLD_U32T_def and_ffff unat_word_ariths unat_drop_bit unat_take_bit del: drop_bit_eq_div take_bit_eq_mod)
qed

lemma unat_SWAP: "unat x < 65536 \<Longrightarrow> unat (SWAP_BYTES_IN_WORD x) = 256 * (unat x mod 256) + unat x div 256"
proof -
  assume x: "unat x < 65536"
  have "unat (take_bit 8 (drop_bit 8 x) OR push_bit 8 (take_bit 8 x)) = unat x div 256 mod 256 + unat x mod 256 * 256"
    by (subst unat_or_push) (simp_all add: unat_drop_bit unat_take_bit)
  moreover have "unat x div 256 mod 256 = unat x div 256" using x by simp
  ultimately show ?thesis by (simp add: SWAP_BYTES_IN_WORD_def and_ff drop_and_ff00 or.commute)
qed

section \<open>The checksum of a memory area\<close>

lemma fold_ones: "same_ones (unat (FOLD_U32T x)) (unat x)"
proof -
  have "unat x = 65535 * (unat x div 65536) + (unat x div 65536 + unat x mod 65536)" by simp
  then have "unat x mod 65535 = (unat x div 65536 + unat x mod 65536) mod 65535" by (metis mod_mult_self4)
  moreover have "(unat x div 65536 + unat x mod 65536 = 0) = (unat x = 0)" by auto
  ultimately show ?thesis by (simp add: same_ones_def unat_FOLD)
qed

lemma fold_fold: "unat (FOLD_U32T (FOLD_U32T x)) = ones (unat x)"
proof (rule ones_is)
  have "unat x < 65536 * 65536" using unsigned_less [of x, where 'a = nat] by simp
  then have "unat x div 65536 < 65536" by (rule less_mult_imp_div_less)
  then have f: "unat (FOLD_U32T x) < 2 * 65536 - 1" using mod_less_divisor [of 65536 "unat x"] unfolding unat_FOLD by linarith
  show "unat (FOLD_U32T (FOLD_U32T x)) < 65536"
  proof (cases "unat (FOLD_U32T x) < 65536")
    case False
    then have "unat (FOLD_U32T x) div 65536 = 1" using f by simp
    moreover have "unat (FOLD_U32T x) mod 65536 = unat (FOLD_U32T x) - 65536"
      using div_mult_mod_eq [of "unat (FOLD_U32T x)" 65536] calculation by linarith
    ultimately show ?thesis using f unfolding unat_FOLD [of "FOLD_U32T x"] by linarith
  qed (simp add: unat_FOLD [of "FOLD_U32T x"])
  show "same_ones (unat (FOLD_U32T (FOLD_U32T x))) (unat x)" using fold_ones same_ones_trans by blast
qed

lemma swap_ones:
  assumes "unat x < 65536"
  shows "unat (SWAP_BYTES_IN_WORD x) < 65536" and "same_ones (unat (SWAP_BYTES_IN_WORD x)) (256 * unat x)"
proof -
  let ?d = "unat x div 256" and ?e = "unat x mod 256"
  have d: "?d < 256" using assms by (simp add: less_mult_imp_div_less)
  then show "unat (SWAP_BYTES_IN_WORD x) < 65536" using mod_less_divisor [of 256 "unat x"] unfolding unat_SWAP [OF assms] by linarith
  have "256 * unat x = 65535 * ?d + (256 * ?e + ?d)" using div_mult_mod_eq [of "unat x" 256] by linarith
  then have "256 * unat x mod 65535 = (256 * ?e + ?d) mod 65535" by (metis mod_mult_self4)
  moreover have "(256 * ?e + ?d = 0) = (unat x = 0)" using div_mult_mod_eq [of "unat x" 256] by linarith
  ultimately show "same_ones (unat (SWAP_BYTES_IN_WORD x)) (256 * unat x)"
    by (simp add: same_ones_def unat_SWAP [OF assms])
qed

lemma bytes_at_2: "bytes_at m a (Suc (Suc n)) = m a # m (a + 1) # bytes_at m (a + 2) n"
  using bytes_at_add [of m a 2 n] by (simp add: bytes_at_def upt_rec)

lemma bytes_at_Suc: "bytes_at m a (Suc n) = m a # bytes_at m (a + 1) n"
  using bytes_at_add [of m a 1 n] by (simp add: bytes_at_def upt_rec)

lemma chksum_words_spec:
  assumes "0 \<le> r" and "r < 2"
  shows "chksum_words m ps (int (2 * k) + r) acc = (ps + of_nat (2 * k), r, acc + of_nat (inet_sum (bytes_at m ps (2 * k))))"
proof (induction k arbitrary: ps acc)
  case 0
  then show ?case using assms by (simp add: chksum_words.simps [of m ps r] bytes_at_def)
next
  case (Suc k)
  have "(ucast (load16 m ps) :: os_u32) = of_nat (unat (m ps) + 256 * unat (m (ps + 1)))"
    by (simp only: unat_load16 [symmetric]) simp
  moreover have "int (2 * Suc k) + r = int (2 * k) + r + 2" by simp
  ultimately show ?case
    using Suc [of "ps + 2" "acc + ucast (load16 m ps)"] assms(1)
    by (simp only: chksum_words.simps [of m ps "int (2 * k) + r + 2"]) (simp add: bytes_at_2 algebra_simps)
qed

lemma inet_sum_snoc: "even (length xs) \<Longrightarrow> inet_sum (xs @ [b]) = inet_sum xs + unat b"
  by (induction xs rule: inet_sum.induct) auto

lemma bytes_at_Suc_last: "bytes_at m a (Suc n) = bytes_at m a n @ [m (a + of_nat n)]"
  using bytes_at_add [of m a n 1] by (simp add: bytes_at_def)

lemma set_low_byte: "unat ((t :: os_u16) AND 0xff00 OR ucast (b :: os_u8)) = unat t div 256 * 256 + unat b"
proof -
  have e: "(0xff00 :: os_u16) = push_bit 8 (mask 8)" by (simp add: mask_eq_exp_minus_1 push_bit_eq_mult)
  have "t AND 0xff00 = push_bit 8 (drop_bit 8 t)"
    unfolding e by (rule bit_word_eqI) (auto simp: bit_simps dest: bit_imp_le_length)
  then have "t AND 0xff00 OR ucast b = ucast b OR push_bit 8 (drop_bit 8 t)" by (simp add: or.commute)
  moreover have "unat (drop_bit 8 t) = unat t div 256" by (simp add: unat_drop_bit del: drop_bit_eq_div)
  moreover have "unat t div 256 * 256 < 65536" using unat_16 [of t] div_mult_mod_eq [of "unat t" 256] by linarith
  ultimately show ?thesis using unat_byte [of b] by (simp add: unat_or_push unat_ucast_8 del: drop_bit_eq_div)
qed

text \<open>Aligned data: the words, the last byte and the byte \<open>t\<close> that is already there.\<close>

lemma words_and_tail:
  fixes t :: os_u16
  assumes "unat t mod 256 = 0" and "inet_sum (bytes_at m pb n) + unat t < 2 ^ 32"
  shows "case chksum_words m pb (int n) 0 of (ps, len, acc) \<Rightarrow>
    unat (acc + ucast (if len > 0 then t AND 0xff00 OR ucast (m ps) else t)) = inet_sum (bytes_at m pb n) + unat t"
proof -
  define k r where "k = n div 2" and "r = n mod 2"
  then have n: "n = 2 * k + r" and r: "r = 0 \<or> r = 1" by auto
  let ?xs = "bytes_at m pb (2 * k)" and ?b = "m (pb + of_nat (2 * k))"
  let ?t = "if int r > 0 then t AND 0xff00 OR ucast ?b else t"
  have w: "chksum_words m pb (int n) 0 = (pb + of_nat (2 * k), int r, of_nat (inet_sum ?xs))"
    using chksum_words_spec [of "int r" m pb k 0] r n by auto
  have "unat t div 256 * 256 = unat t" using assms(1) div_mult_mod_eq [of "unat t" 256] by linarith
  then have t: "unat ?t = unat t + (if r = 0 then 0 else unat ?b)" using r set_low_byte [of t ?b] by auto
  have bs: "inet_sum (bytes_at m pb n) = inet_sum ?xs + (if r = 0 then 0 else unat ?b)"
    using r n inet_sum_snoc [of ?xs] by (auto simp: bytes_at_Suc_last)
  have "unat (of_nat (inet_sum ?xs) + ucast ?t :: os_u32) = unat (of_nat (inet_sum ?xs + unat ?t) :: os_u32)" by simp
  also have "\<dots> = inet_sum ?xs + unat ?t"
    using assms(2) t bs by (subst unsigned_of_nat) (simp add: take_bit_nat_eq_self)
  finally show ?thesis unfolding w prod.case using t bs by linarith
qed

lemma chksum_spec:
  assumes "n \<le> 0x20000"
  shows "unat (lwip_standard_chksum m a (int n)) = ones (inet_sum (bytes_at m a n))"
proof -
  have ucast_eq: "unat (ucast x :: os_u16) = unat x" if "unat x < 65536" for x :: os_u32
    using that by (simp add: unsigned_ucast_eq take_bit_nat_eq_self)
  show ?thesis
  proof (cases "a AND 1 \<noteq> 0 \<and> n > 0")
    case False
    obtain ps len acc where w: "chksum_words m a (int n) 0 = (ps, len, acc)" by (cases "chksum_words m a (int n) 0") auto
    have "inet_sum (bytes_at m a n) < 2 ^ 32" using inet_sum_bound [of "bytes_at m a n"] assms by simp
    then have "unat (acc + ucast (if len > 0 then 0 AND 0xff00 OR ucast (m ps) else 0 :: os_u16)) = inet_sum (bytes_at m a n)"
      using words_and_tail [of 0 m a n] w by simp
    note f = fold_fold [of "acc + ucast (if len > 0 then 0 AND 0xff00 OR ucast (m ps) else 0 :: os_u16)", unfolded this]
    show ?thesis
    proof (cases "a AND 1 \<noteq> 0")
      case True
      then have "n = 0" using False by simp
      then show ?thesis using True
        by (simp add: lwip_standard_chksum_def chksum_words.simps [of m a 0] bytes_at_def ones_def FOLD_U32T_def SWAP_BYTES_IN_WORD_def)
    next
      case even: False
      then show ?thesis using w f ones_less [of "inet_sum (bytes_at m a n)"]
        by (simp add: lwip_standard_chksum_def ucast_eq Let_def)
    qed
  next
    case True
    then obtain k where n: "n = Suc k" by (cases n) auto
    let ?t = "push_bit 8 (ucast (m a)) :: os_u16"
    have t: "unat ?t = 256 * unat (m a)" using unat_byte [of "m a"] by (simp add: unat_push_bit unat_ucast_8)
    obtain ps len acc where w: "chksum_words m (a + 1) (int k) 0 = (ps, len, acc)" by (cases "chksum_words m (a + 1) (int k) 0") auto
    let ?acc = "acc + ucast (if len > 0 then ?t AND 0xff00 OR ucast (m ps) else ?t)" and ?rest = "inet_sum (bytes_at m (a + 1) k)"
    have "?rest + unat ?t < 2 ^ 32"
      using inet_sum_bound [of "bytes_at m (a + 1) k"] assms n unat_byte [of "m a"] unfolding t by simp
    then have s: "unat ?acc = ?rest + 256 * unat (m a)" using words_and_tail [of ?t m "a + 1" k] w t by simp
    let ?r = "FOLD_U32T (FOLD_U32T ?acc)"
    have f: "unat ?r = ones (?rest + 256 * unat (m a))" unfolding fold_fold s ..
    then have lt: "unat ?r < 65536" using ones_less by simp
    have "same_ones (unat (SWAP_BYTES_IN_WORD ?r)) (256 * (?rest + 256 * unat (m a)))"
      by (rule same_ones_trans [OF swap_ones(2) [OF lt] same_ones_mult [OF ones_same [of "?rest + 256 * unat (m a)", folded f]]])
    also have "same_ones (256 * (?rest + 256 * unat (m a))) (unat (m a) + 256 * ?rest)"
      using same_ones_add [OF same_ones_65536 [of "unat (m a)"] same_ones_refl [of "256 * ?rest"]] by (simp add: algebra_simps)
    also have "same_ones (unat (m a) + 256 * ?rest) (inet_sum (bytes_at m a n))"
      using inet_sum_Cons same_ones_sym unfolding n bytes_at_Suc by blast
    finally have "unat (SWAP_BYTES_IN_WORD ?r) = ones (inet_sum (bytes_at m a n))" by (rule ones_is [OF swap_ones(1) [OF lt]])
    moreover have "lwip_standard_chksum m a (int n) = ucast (SWAP_BYTES_IN_WORD ?r)"
      using True w n by (simp add: lwip_standard_chksum_def Let_def)
    ultimately show ?thesis using ones_less ucast_eq by metis
  qed
qed

section \<open>The checksum of a packet\<close>

text \<open>What the sum so far counts for: its bytes are in the wrong places after an odd number of bytes.\<close>

definition wt :: "os_u8 \<Rightarrow> nat" where
  "wt swapped = (if swapped \<noteq> 0 then 256 else 1)"

lemma same_ones_wt: "same_ones a b \<Longrightarrow> same_ones (wt sw * a) (wt sw * b)"
  by (simp add: wt_def same_ones_mult)

lemma wt_swap: "sw = 0 \<or> sw = 1 \<Longrightarrow> same_ones (wt (1 - sw) * (256 * a)) (wt sw * a)"
  using same_ones_65536 [of a] by (auto simp: wt_def)

lemma wt_swap': "sw = 0 \<or> sw = 1 \<Longrightarrow> same_ones (wt (1 - sw) * a) (wt sw * (256 * a))"
  using same_ones_sym [OF same_ones_65536 [of a]] by (auto simp: wt_def)

lemma sum_small:
  assumes "unat acc < 65536"
  shows "unat (FOLD_U32T (acc + ucast (chk :: os_u16))) < 65536"
    and "same_ones (unat (FOLD_U32T (acc + ucast chk))) (unat acc + unat chk)"
proof -
  have u: "unat (acc + ucast chk) = unat acc + unat chk"
    using assms unat_16 [of chk] by (simp add: unat_word_ariths unat_ucast_16_32)
  then show "same_ones (unat (FOLD_U32T (acc + ucast chk))) (unat acc + unat chk)" using fold_ones by metis
  define x where "x = unat acc + unat chk"
  have x: "x < 2 * 65536 - 1" using assms unat_16 [of chk] unfolding x_def by linarith
  then have "x div 65536 = 0 \<or> x div 65536 = 1" by linarith
  then have "x div 65536 + x mod 65536 < 65536" using div_mult_mod_eq [of x 65536] mod_less_divisor [of 65536 x] x by linarith
  then show "unat (FOLD_U32T (acc + ucast chk)) < 65536" unfolding unat_FOLD u x_def .
qed

text \<open>One buffer with the bytes \<open>bs\<close>, before the data \<open>ds\<close>: the bytes are swapped if their number is odd, or nothing follows.\<close>

lemma chksum_step:
  assumes "unat acc < 65536" and "sw = 0 \<or> sw = 1" and "unat (chk :: os_u16) = ones (inet_sum bs)"
    and "swap = odd (length bs) \<or> ds = []"
  defines "acc1 \<equiv> FOLD_U32T (acc + ucast chk)"
  defines "acc2 \<equiv> if swap then SWAP_BYTES_IN_WORD acc1 else acc1" and "sw2 \<equiv> if swap then 1 - sw else sw"
  shows "unat acc2 < 65536" and "sw2 = 0 \<or> sw2 = 1"
    and "same_ones (wt sw2 * (unat acc2 + inet_sum ds)) (wt sw * (unat acc + inet_sum (bs @ ds)))"
proof -
  have lt: "unat acc1 < 65536" and a1: "same_ones (unat acc1) (unat acc + inet_sum bs)"
    using sum_small [OF assms(1), of chk] same_ones_add [OF same_ones_refl ones_same] same_ones_trans
    unfolding acc1_def assms(3) by blast+
  then show "unat acc2 < 65536" using swap_ones(1) by (simp add: acc2_def)
  show "sw2 = 0 \<or> sw2 = 1" using assms(2) by (auto simp: sw2_def)
  have head: "same_ones (wt sw2 * unat acc2) (wt sw * (unat acc + inet_sum bs))"
  proof (cases swap)
    case True
    have "same_ones (wt (1 - sw) * unat (SWAP_BYTES_IN_WORD acc1)) (wt (1 - sw) * (256 * unat acc1))"
      by (rule same_ones_wt [OF swap_ones(2) [OF lt]])
    also have "same_ones \<dots> (wt sw * unat acc1)" by (rule wt_swap [OF assms(2)])
    finally show ?thesis using True same_ones_wt [OF a1] same_ones_trans by (auto simp: acc2_def sw2_def)
  qed (simp add: acc2_def sw2_def same_ones_wt [OF a1])
  have tail: "same_ones (wt sw2 * inet_sum ds) (wt sw * ((if even (length bs) then 1 else 256) * inet_sum ds))"
    using assms(4) wt_swap' [OF assms(2)] by (auto simp: sw2_def)
  have "same_ones (wt sw2 * (unat acc2 + inet_sum ds))
      (wt sw * (unat acc + (inet_sum bs + (if even (length bs) then 1 else 256) * inet_sum ds)))"
    using same_ones_add [OF head tail] by (simp only: distrib_left add.assoc)
  also have "same_ones \<dots> (wt sw * (unat acc + inet_sum (bs @ ds)))"
    by (rule same_ones_wt [OF same_ones_add [OF same_ones_refl same_ones_sym [OF inet_sum_append]]])
  finally show "same_ones (wt sw2 * (unat acc2 + inet_sum ds)) (wt sw * (unat acc + inet_sum (bs @ ds)))" .
qed

lemma unat_chksum_16: "unat (lwip_standard_chksum m a (uint (n :: os_u16))) = ones (inet_sum (bytes_at m a (unat n)))"
  using chksum_spec [of "unat n" m a] unat_16 [of n] by simp

lemma odd_16: "(n :: os_u16) mod 2 = 1 \<longleftrightarrow> odd (unat n)" "(n :: os_u16) mod 2 = 0 \<longleftrightarrow> even (unat n)"
  by (simp_all add: word_unat_eq_iff unat_mod odd_iff_mod_2_eq_one even_iff_mod_2_eq_zero)

lemma chksum_chain_spec:
  assumes "pchain (pbufs s) p xs" and "unat acc < 65536" and "sw = 0 \<or> sw = 1"
  shows "\<exists>acc' sw'. chksum_chain p acc sw s = Some (acc', sw') \<and> unat acc' < 65536 \<and> (sw' = 0 \<or> sw' = 1) \<and>
    same_ones (wt sw' * unat acc') (wt sw * (unat acc + inet_sum (pdata (pbufs s) (mem8 s) xs)))"
  using assms
proof (induction xs arbitrary: p acc sw)
  case Nil
  then show ?case by (simp add: chksum_chain.simps [of NULL])
next
  case (Cons a xs)
  let ?l = "pb_len (pbufs s a)" and ?chk = "lwip_standard_chksum (mem8 s) (pb_payload (pbufs s a)) (uint (pb_len (pbufs s a)))"
  let ?bs = "pbytes (pbufs s) (mem8 s) a" and ?ds = "pdata (pbufs s) (mem8 s) xs"
  let ?acc = "if odd (unat ?l) then SWAP_BYTES_IN_WORD (FOLD_U32T (acc + ucast ?chk)) else FOLD_U32T (acc + ucast ?chk)"
  let ?sw = "if odd (unat ?l) then 1 - sw else sw"
  have "unat ?chk = ones (inet_sum ?bs)" unfolding unat_chksum_16 pbytes_def ..
  note st = chksum_step [OF Cons.prems(2,3) this, of "odd (unat ?l)" ?ds, simplified length_pbytes, OF disjI1 [OF refl]]
  have p: "p = a" "a \<noteq> NULL" "pchain (pbufs s) (pb_next (pbufs s a)) xs" using Cons.prems(1) by auto
  have "chksum_chain p acc sw s = chksum_chain (pb_next (pbufs s a)) ?acc ?sw s"
    using p by (simp add: chksum_chain.simps [of a] odd_16 Let_def)
  then show ?case using Cons.IH [OF p(3) st(1,2)] st(3) same_ones_trans by auto
qed

lemma chksum_partial_spec:
  assumes "pchain (pbufs s) p xs" and "unat acc < 65536" and "sw = 0 \<or> sw = 1"
  shows "\<exists>acc' sw'. chksum_partial p n acc sw s = Some (acc', sw') \<and> unat acc' < 65536 \<and> (sw' = 0 \<or> sw' = 1) \<and>
    same_ones (wt sw' * unat acc') (wt sw * (unat acc + inet_sum (take (unat n) (pdata (pbufs s) (mem8 s) xs))))"
  using assms
proof (induction xs arbitrary: p n acc sw)
  case Nil
  then show ?case by (simp add: chksum_partial.simps [of NULL])
next
  case (Cons a xs)
  have p: "p = a" "a \<noteq> NULL" "pchain (pbufs s) (pb_next (pbufs s a)) xs" using Cons.prems(1) by auto
  show ?case
  proof (cases "n = 0")
    case True
    then show ?thesis using Cons.prems(2,3) by (simp add: chksum_partial.simps [of p 0])
  next
    case False
    let ?l = "pb_len (pbufs s a)" and ?m = "pb_payload (pbufs s a)"
    define c where "c = (if ?l > n then n else ?l)"
    define chk where "chk = lwip_standard_chksum (mem8 s) ?m (uint c)"
    define acc1 where "acc1 = FOLD_U32T (acc + ucast chk)"
    let ?acc = "if odd (unat ?l) then SWAP_BYTES_IN_WORD acc1 else acc1" and ?sw = "if odd (unat ?l) then 1 - sw else sw"
    let ?bs = "bytes_at (mem8 s) ?m (unat c)" and ?ds = "take (unat (n - c)) (pdata (pbufs s) (mem8 s) xs)"
    have c: "unat c = min (unat n) (unat ?l)" "c \<le> n" by (auto simp: c_def word_less_nat_alt word_le_nat_alt)
    then have "unat (n - c) = unat n - unat ?l" by (simp add: unat_sub_16)
    then have data: "take (unat n) (pdata (pbufs s) (mem8 s) (a # xs)) = ?bs @ ?ds"
      using c(1) by (cases "unat n \<le> unat ?l") (simp_all add: pbytes_def bytes_at_take)
    have "unat chk = ones (inet_sum ?bs)" unfolding chk_def unat_chksum_16 ..
    moreover have "odd (unat ?l) = odd (length ?bs) \<or> ?ds = []" using c \<open>unat (n - c) = _\<close> by (auto simp: min_def)
    ultimately have st: "unat ?acc < 65536" "?sw = 0 \<or> ?sw = 1"
        "same_ones (wt ?sw * (unat ?acc + inet_sum ?ds)) (wt sw * (unat acc + inet_sum (?bs @ ?ds)))"
      using chksum_step [OF Cons.prems(2,3), of chk ?bs "odd (unat ?l)" ?ds] unfolding acc1_def by blast+
    have "chksum_partial p n acc sw s = chksum_partial (pb_next (pbufs s a)) (n - c) ?acc ?sw s"
      using p False unfolding acc1_def chk_def c_def
      by (simp add: chksum_partial.simps [of a n] odd_16 Let_def word_gt_0)
    moreover obtain acc' sw' where r: "chksum_partial (pb_next (pbufs s a)) (n - c) ?acc ?sw s = Some (acc', sw')" "unat acc' < 65536"
        "sw' = 0 \<or> sw' = 1" "same_ones (wt sw' * unat acc') (wt ?sw * (unat ?acc + inet_sum ?ds))"
      using Cons.IH [OF p(3) st(1,2), of "n - c"] by blast
    ultimately show ?thesis
      unfolding data using same_ones_trans [OF r(4) st(3)] by (intro exI [of _ acc'] exI [of _ sw']) simp
  qed
qed

lemma unswap:
  assumes "unat acc < 65536"
  shows "unat (if sw \<noteq> 0 then SWAP_BYTES_IN_WORD acc else acc) < 65536"
    and "same_ones (unat (if sw \<noteq> 0 then SWAP_BYTES_IN_WORD acc else acc)) (wt sw * unat acc)"
  using assms swap_ones by (auto simp: wt_def)

lemma not_low:
  fixes acc :: os_u32
  assumes "unat acc < 65536"
  shows "(ucast (NOT (acc AND 0xffff)) :: os_u16) = NOT (of_nat (unat acc))"
proof -
  have "(ucast (NOT (acc AND 0xffff)) :: os_u16) = NOT (ucast acc)"
    unfolding and_ffff by (rule bit_word_eqI) (auto simp: bit_simps)
  then show ?thesis by simp
qed

text \<open>The pseudo header as it stands in front of the data: the addresses, a zero, the protocol and the length.\<close>

definition pseudo_header :: "os_u32 \<Rightarrow> os_u32 \<Rightarrow> os_u8 \<Rightarrow> os_u16 \<Rightarrow> os_u8 list" where
  "pseudo_header src dest proto proto_len =
     [ucast src, ucast (drop_bit 8 src), ucast (drop_bit 16 src), ucast (drop_bit 24 src),
      ucast dest, ucast (drop_bit 8 dest), ucast (drop_bit 16 dest), ucast (drop_bit 24 dest),
      0, proto, ucast (drop_bit 8 proto_len), ucast proto_len]"

lemma unat_htons: "unat (lwip_htons n) = unat n mod 256 * 256 + unat n div 256"
proof -
  have "unat (drop_bit 8 n) = unat n div 256" by (simp add: unat_drop_bit del: drop_bit_eq_div)
  moreover have "unat n div 256 < 256" using unat_16 [of n] by (simp add: less_mult_imp_div_less)
  ultimately have "unat (take_bit 8 (drop_bit 8 n) OR push_bit 8 (take_bit 8 n)) = unat n div 256 + unat n mod 256 * 256"
    using mod_less_divisor [of 256 "unat n"]
    by (subst unat_or_push) (simp_all add: unat_take_bit del: drop_bit_eq_div take_bit_eq_mod mod_less_divisor)
  then show ?thesis by (simp add: lwip_htons_def and_ff drop_and_ff00 or.commute)
qed

lemma unat_ucast_byte: "unat (ucast (x :: 'a :: len word) :: os_u8) = unat x mod 256"
  by (simp add: unsigned_ucast_eq take_bit_eq_mod)

lemma half_word: "unat (x AND 0xffff) = unat (ucast x :: os_u8) + 256 * unat (ucast (drop_bit 8 x) :: os_u8)" for x :: os_u32
proof -
  have "unat x mod (256 * 256) = unat x mod 256 + 256 * (unat x div 256 mod 256)"
    using mod_mult2_eq [of "unat x" 256 256] by linarith
  then show ?thesis by (simp add: and_ffff unat_take_bit unat_drop_bit unat_ucast_byte del: take_bit_eq_mod drop_bit_eq_div)
qed

lemma unat_plus_32: "unat a + unat b < 2 ^ 32 \<Longrightarrow> unat (a + b :: os_u32) = unat a + unat b"
  by (simp add: unat_word_ariths)

lemma pseudo_header_sum:
  "inet_sum (pseudo_header src dest proto n) =
     unat (src AND 0xffff) + unat (drop_bit 16 src AND 0xffff) + unat (dest AND 0xffff) + unat (drop_bit 16 dest AND 0xffff) +
     unat (lwip_htons (ucast proto)) + unat (lwip_htons n)"
proof -
  have "unat proto mod 256 = unat proto" "unat proto div 256 = 0" using unat_byte [of proto] by simp_all
  moreover have "unat n div 256 mod 256 = unat n div 256" using unat_16 [of n] by (simp add: less_mult_imp_div_less)
  ultimately show ?thesis
    unfolding pseudo_header_def half_word unat_htons unat_ucast_8 drop_bit_drop_bit
    by (simp add: unat_ucast_byte unat_drop_bit del: drop_bit_eq_div)
qed

lemma and_ffff_less: "unat ((x :: os_u32) AND 0xffff) < 65536"
  unfolding and_ffff unat_take_bit by simp

lemma pseudo_finish_spec:
  assumes "unat acc < 65536"
  shows "pseudo_finish acc src dest proto n = NOT (of_nat (ones (unat acc + inet_sum (pseudo_header src dest proto n))))"
proof -
  define x where "x = acc + (src AND 0xffff) + (drop_bit 16 src AND 0xffff) + (dest AND 0xffff) + (drop_bit 16 dest AND 0xffff) +
    ucast (lwip_htons (ucast proto)) + ucast (lwip_htons n)"
  have "unat x = unat acc + inet_sum (pseudo_header src dest proto n)"
    using assms and_ffff_less [of src] and_ffff_less [of dest] and_ffff_less [of "drop_bit 16 src"] and_ffff_less [of "drop_bit 16 dest"]
      unat_16 [of "lwip_htons (ucast proto)"] unat_16 [of "lwip_htons n"]
    unfolding pseudo_header_sum x_def by (simp add: unat_plus_32 unat_ucast_16_32 del: drop_bit_eq_div)
  then have "unat (FOLD_U32T (FOLD_U32T x)) = ones (unat acc + inet_sum (pseudo_header src dest proto n))" by (simp add: fold_fold)
  moreover have "pseudo_finish acc src dest proto n = ucast (NOT (FOLD_U32T (FOLD_U32T x) AND 0xffff))"
    unfolding pseudo_finish_def Let_def x_def ..
  ultimately show ?thesis using not_low ones_less by metis
qed

section \<open>Properties\<close>

lemma csum_same: "unat acc < 65536 \<Longrightarrow> same_ones (unat acc) (inet_sum bs) \<Longrightarrow> of_nat (unat acc) = csum bs"
  using ones_is by (simp add: csum_def)

lemma csum_pseudo:
  assumes "same_ones x (inet_sum ds)"
  shows "of_nat (ones (x + inet_sum (pseudo_header src dest proto n))) = csum (pseudo_header src dest proto n @ ds)"
proof -
  have "same_ones (inet_sum (pseudo_header src dest proto n @ ds)) (inet_sum (pseudo_header src dest proto n) + inet_sum ds)"
    using inet_sum_append [of "pseudo_header src dest proto n" ds] by (simp add: pseudo_header_def)
  also have "same_ones \<dots> (x + inet_sum (pseudo_header src dest proto n))"
    by (subst add.commute) (rule same_ones_sym [OF same_ones_add [OF assms same_ones_refl]])
  finally show ?thesis using ones_eq by (simp add: csum_def)
qed

lemma chksum_standard: "n \<le> 0x20000 \<Longrightarrow> lwip_standard_chksum m a (int n) = csum (bytes_at m a n)"
  using chksum_spec [of n m a] by (simp add: csum_def word_unat_eq_iff unsigned_of_nat take_bit_nat_eq_self ones_less)

lemma chksum_area: "inet_chksum m a n = NOT (csum (bytes_at m a (unat n)))"
  unfolding inet_chksum_def csum_def unat_chksum_16 [symmetric] by simp

lemma chksum_chain_done:
  assumes "pchain (pbufs s) p xs"
  obtains acc sw where "chksum_chain p 0 0 s = Some (acc, sw)"
    and "unat (if sw \<noteq> 0 then SWAP_BYTES_IN_WORD acc else acc) < 65536"
    and "same_ones (unat (if sw \<noteq> 0 then SWAP_BYTES_IN_WORD acc else acc)) (inet_sum (pdata (pbufs s) (mem8 s) xs))"
proof -
  obtain acc sw where c: "chksum_chain p 0 0 s = Some (acc, sw)" "unat acc < 65536"
      "same_ones (wt sw * unat acc) (inet_sum (pdata (pbufs s) (mem8 s) xs))"
    using chksum_chain_spec [OF assms, of 0 0] by (auto simp: wt_def)
  show ?thesis using that [OF c(1)] unswap [OF c(2), of sw] c(3) same_ones_trans by blast
qed

lemma chksum_pbuf:
  assumes "pchain (pbufs s) p xs"
  shows "inet_chksum_pbuf p s = Some (NOT (csum (pdata (pbufs s) (mem8 s) xs)))"
  using chksum_chain_done [OF assms]
proof cases
  case (1 acc sw)
  then show ?thesis using not_low [OF 1(2)] csum_same [OF 1(2,3)] by (simp add: inet_chksum_pbuf_def Let_def)
qed

lemma chksum_pseudo:
  assumes "pchain (pbufs s) p xs"
  shows "inet_chksum_pseudo p src dest proto n s = Some (NOT (csum (pseudo_header src dest proto n @ pdata (pbufs s) (mem8 s) xs)))"
  using chksum_chain_done [OF assms]
proof cases
  case (1 acc sw)
  then show ?thesis using pseudo_finish_spec [OF 1(2)] csum_pseudo [OF 1(3)] by (simp add: inet_chksum_pseudo_def Let_def)
qed

lemma chksum_pseudo_partial:
  assumes "pchain (pbufs s) p xs"
  shows "inet_chksum_pseudo_partial p src dest proto n k s =
    Some (NOT (csum (pseudo_header src dest proto n @ take (unat k) (pdata (pbufs s) (mem8 s) xs))))"
proof -
  obtain acc sw where d: "chksum_partial p k 0 0 s = Some (acc, sw)" "unat acc < 65536"
      "same_ones (wt sw * unat acc) (inet_sum (take (unat k) (pdata (pbufs s) (mem8 s) xs)))"
    using chksum_partial_spec [OF assms, of 0 0 k] by (auto simp: wt_def)
  note u = unswap [OF d(2), of sw]
  show ?thesis
    using d(1) pseudo_finish_spec [OF u(1)] csum_pseudo [OF same_ones_trans [OF u(2) d(3)]]
    by (simp add: inet_chksum_pseudo_partial_def Let_def)
qed

text \<open>
  C29. The checksum routines compute the Internet checksum of RFC 1071. \<^verbatim>\<open>lwip_standard_chksum\<close>, which reads 16 bits at a time with a
  special first byte at odd addresses, gives the ones' complement sum of the bytes for every address and every length up to \<open>0x20000\<close>, the bound its comment claims.
  For a packet, however it is split into buffers and wherever these lie, \<^verbatim>\<open>inet_chksum_pbuf\<close> ends and gives the complement of the sum of the bytes of the packet;
  \<^verbatim>\<open>inet_chksum_pseudo\<close> that of the pseudo header followed by the packet; and \<^verbatim>\<open>inet_chksum_pseudo_partial\<close> that of the pseudo header and the first \<open>k\<close> bytes.
\<close>

theorem inet_chksum_correct:
  assumes "len \<le> 0x20000" and "pchain (pbufs s) p xs"
  shows "lwip_standard_chksum m a (int len) = csum (bytes_at m a len) \<and>
    inet_chksum_pbuf p s = Some (NOT (csum (pdata (pbufs s) (mem8 s) xs))) \<and>
    inet_chksum_pseudo p src dest proto n s =
      Some (NOT (csum (pseudo_header src dest proto n @ pdata (pbufs s) (mem8 s) xs))) \<and>
    inet_chksum_pseudo_partial p src dest proto n k s =
      Some (NOT (csum (pseudo_header src dest proto n @ take (unat k) (pdata (pbufs s) (mem8 s) xs))))"
  using chksum_standard [OF assms(1)] chksum_pbuf [OF assms(2)] chksum_pseudo [OF assms(2)] chksum_pseudo_partial [OF assms(2)] by simp

theorem inet_chksum_correct_witness:
  "inet_chksum_pseudo 0x20000 1 2 17 5 packet_kernel =
     Some (NOT (csum (pseudo_header 1 2 17 5 @ pdata (pbufs packet_kernel) (mem8 packet_kernel) [0x20000, 0x21000])))"
proof -
  have "(3 :: nat) \<le> 0x20000" by simp
  from inet_chksum_correct [OF this packet_kernel_facts(1)] show ?thesis by blast
qed

lemma inet_sum_even_append: "even (length xs) \<Longrightarrow> inet_sum (xs @ ys) = inet_sum xs + inet_sum ys"
  by (induction xs rule: inet_sum.induct) auto

lemma unat_not_16: "unat (NOT (x :: os_u16)) = 65535 - unat x"
proof -
  have "NOT x AND x = 0" by (rule bit_word_eqI) (simp add: bit_simps)
  then have "unat (NOT x OR x) = unat (NOT x) + unat x" by (rule unat_or_disjoint)
  moreover have "NOT x OR x = - 1" by (simp add: or.commute)
  moreover have "unat (- 1 :: os_u16) = 65535" by (simp add: unsigned_minus_1_eq_mask mask_eq_exp_minus_1)
  ultimately show ?thesis by simp
qed

lemma near_apart: "i \<noteq> j \<Longrightarrow> i < 2 ^ 32 \<Longrightarrow> j < 2 ^ 32 \<Longrightarrow> a + of_nat i \<noteq> a + (of_nat j :: addr)"
  by (simp add: of_nat_eq_iff word_unat_eq_iff [of "of_nat i"] unsigned_of_nat take_bit_nat_eq_self)

lemma bytes_at_fun_upd_other:
  assumes "\<And>i. i < n \<Longrightarrow> a + of_nat i \<noteq> b"
  shows "bytes_at (m(b := v)) a n = bytes_at m a n"
  using assms by (auto simp: bytes_at_def)

text \<open>
  A checksum verifies: if the checksum field, at an even offset of the data, is zero while \<^verbatim>\<open>inet_chksum\<close> computes the checksum, and the result is then stored in the field, low
  byte first, then \<^verbatim>\<open>inet_chksum\<close> over the same data gives zero, which is what a receiver tests.
\<close>

theorem inet_chksum_verifies:
  fixes c :: os_u16
  assumes "even k" and "k + 2 \<le> unat n" and "m (a + of_nat k) = 0" and "m (a + of_nat (k + 1)) = 0" and "c = inet_chksum m a n"
  shows "inet_chksum (m(a + of_nat k := ucast c, a + of_nat (k + 1) := ucast (drop_bit 8 c))) a n = 0"
proof -
  let ?m = "m(a + of_nat k := ucast c, a + of_nat (k + 1) := ucast (drop_bit 8 c))" and ?b = "a + of_nat (k + 2)" and ?r = "unat n - (k + 2)"
  have n: "unat n = k + Suc (Suc ?r)" "unat n < 65536" using assms(2) unat_16 [of n] by simp_all
  have split: "bytes_at f a (unat n) = bytes_at f a k @ [f (a + of_nat k), f (a + of_nat (k + 1))] @ bytes_at f ?b ?r" for f :: bytes
  proof -
    have "bytes_at f a (unat n) = bytes_at f a (k + Suc (Suc ?r))" by (rule arg_cong [OF n(1)])
    then show ?thesis unfolding bytes_at_add bytes_at_2 by (simp add: ac_simps)
  qed
  have d: "a + of_nat i \<noteq> a + of_nat j" if "i \<noteq> j" "i < 65536" "j < 65536" for i j using near_apart that by simp
  have front: "bytes_at ?m a k = bytes_at m a k"
    using d n by (simp add: bytes_at_fun_upd_other del: of_nat_add of_nat_Suc)
  have "?b + of_nat i = a + of_nat (k + 2 + i)" for i by simp
  then have behind: "bytes_at ?m ?b ?r = bytes_at m ?b ?r"
    using d n by (simp add: bytes_at_fun_upd_other del: of_nat_add of_nat_Suc)
  have field: "?m (a + of_nat k) = ucast c" "?m (a + of_nat (k + 1)) = ucast (drop_bit 8 c)"
    using d [of k "k + 1"] n by (simp_all del: of_nat_add of_nat_Suc)
  have "unat (ucast c :: os_u8) + 256 * unat (ucast (drop_bit 8 c) :: os_u8) = unat c"
    using div_mult_mod_eq [of "unat c" 256] unat_16 [of c]
    by (simp add: unat_ucast_byte unat_drop_bit less_mult_imp_div_less del: drop_bit_eq_div)
  then have sum: "inet_sum (bytes_at ?m a (unat n)) = inet_sum (bytes_at m a (unat n)) + unat c"
    using split [of ?m] split [of m] front behind field assms(1,3,4) by (simp add: inet_sum_even_append del: of_nat_add of_nat_Suc fun_upd_apply)
  have o: "unat (csum bs) = ones (inet_sum bs)" for bs
    by (simp add: csum_def unsigned_of_nat take_bit_nat_eq_self ones_less)
  have c: "unat c = 65535 - ones (inet_sum (bytes_at m a (unat n)))"
    unfolding assms(5) chksum_area unat_not_16 o ..
  have "same_ones (inet_sum (bytes_at m a (unat n)) + unat c) (ones (inet_sum (bytes_at m a (unat n))) + unat c)"
    by (rule same_ones_add [OF same_ones_sym [OF ones_same] same_ones_refl])
  then have "ones (inet_sum (bytes_at ?m a (unat n))) = 65535"
    using ones_is [of 65535] c ones_less [of "inet_sum (bytes_at m a (unat n))"] same_ones_sym unfolding sum by simp
  then show ?thesis unfolding chksum_area word_unat_eq_iff unat_not_16 o by simp
qed

theorem inet_chksum_verifies_witness:
  "inet_chksum ((\<lambda>x. if x = 0x103 then 7 else 0)(0x100 := ucast (inet_chksum (\<lambda>x. if x = 0x103 then 7 else 0) 0x100 4),
     0x101 := ucast (drop_bit 8 (inet_chksum (\<lambda>x. if x = 0x103 then 7 else 0) 0x100 4)))) 0x100 4 = 0"
  using inet_chksum_verifies [of 0 4 "\<lambda>x. if x = 0x103 then 7 else 0" "0x100" "inet_chksum (\<lambda>x. if x = 0x103 then 7 else 0) 0x100 4"]
  by simp

end
