(* ===== verification/Ip_Addr.thy ===== *)
theory Ip_Addr
  imports Inet
begin

text \<open>
  IP addresses as text and masks, \<^verbatim>\<open>hwutil/net/lwip/source/core/ipv4/ip_addr.c\<close>. Reading an address accepts one to four parts in decimal, octal and
  hexadecimal; printing gives four decimal parts. What is printed is read back as the same address. A read that never meets the end of a number is \<open>None\<close>.
\<close>

definition IPADDR_NONE :: os_u32 where "IPADDR_NONE = 0xffffffff"
definition IPADDR_ANY :: os_u32 where "IPADDR_ANY = 0"
definition IPADDR_BROADCAST :: os_u32 where "IPADDR_BROADCAST = 0xffffffff"

section \<open>Reading\<close>

definition in_range :: "os_u8 \<Rightarrow> os_u8 \<Rightarrow> os_u8 \<Rightarrow> bool" where
  "in_range c lo up \<longleftrightarrow> lo \<le> c \<and> c \<le> up"

definition isdigit :: "os_u8 \<Rightarrow> bool" where "isdigit c \<longleftrightarrow> in_range c 0x30 0x39"
definition isxdigit :: "os_u8 \<Rightarrow> bool" where
  "isxdigit c \<longleftrightarrow> isdigit c \<or> in_range c 0x61 0x66 \<or> in_range c 0x41 0x46"
definition islower :: "os_u8 \<Rightarrow> bool" where "islower c \<longleftrightarrow> in_range c 0x61 0x7a"
definition isspace :: "os_u8 \<Rightarrow> bool" where
  "isspace c \<longleftrightarrow> c = 0x20 \<or> c = 0x0c \<or> c = 0x0a \<or> c = 0x0d \<or> c = 0x09 \<or> c = 0x0b"

text \<open>The loop that collects a number; the local \<^verbatim>\<open>c\<close> is always the character at \<open>cp\<close>.\<close>

partial_function (option) aton_digits :: "bytes \<Rightarrow> os_u8 \<Rightarrow> addr \<Rightarrow> os_u32 \<Rightarrow> (addr \<times> os_u32) option" where
  "aton_digits m base cp val =
     (let c = m cp
      in if isdigit c then aton_digits m base (cp + 1) (val * ucast base + ucast (c - 0x30))
         else if base = 16 \<and> isxdigit c
              then aton_digits m base (cp + 1) (push_bit 4 val OR ucast (c + 10 - (if islower c then 0x61 else 0x41)))
              else Some (cp, val))"

text \<open>The outer loop: \<open>Some None\<close> is the early return of 0, otherwise the last number and the parts before it.\<close>

partial_function (option) aton_parts :: "bytes \<Rightarrow> addr \<Rightarrow> os_u32 list \<Rightarrow> (addr \<times> os_u32 \<times> os_u32 list) option option" where
  "aton_parts m cp parts =
     (if \<not> isdigit (m cp) then Some None
      else do {
        let (base, cp) =
          (if m cp = 0x30 then if m (cp + 1) = 0x78 \<or> m (cp + 1) = 0x58 then (16, cp + 2) else (8, cp + 1) else (10, cp));
        (cp, val) \<leftarrow> aton_digits m base cp 0;
        if m cp = 0x2e
        then if length parts \<ge> 3 then Some None else aton_parts m (cp + 1) (parts @ [val])
        else Some (Some (cp, val, parts))
      })"

text \<open>The result: \<open>Some None\<close> for 0, \<open>Some (Some a)\<close> for 1 and the address stored through \<^verbatim>\<open>addr\<close>.\<close>

definition ipaddr_aton :: "bytes \<Rightarrow> addr \<Rightarrow> os_u32 option option" where
  "ipaddr_aton m cp =
     do {
       r \<leftarrow> aton_parts m cp [];
       case r of None \<Rightarrow> Some None
       | Some (cp, val, parts) \<Rightarrow>
           if m cp \<noteq> 0 \<and> \<not> isspace (m cp) then Some None
           else if length parts = 1 \<and> val > 0xffffff then Some None
           else if length parts = 2 \<and> val > 0xffff then Some None
           else if length parts = 3 \<and> val > 0xff then Some None
           else let val =
                  (if length parts = 1 then val OR push_bit 24 (parts ! 0)
                   else if length parts = 2 then val OR (push_bit 24 (parts ! 0) OR push_bit 16 (parts ! 1))
                   else if length parts = 3 then val OR (push_bit 24 (parts ! 0) OR push_bit 16 (parts ! 1) OR push_bit 8 (parts ! 2))
                   else val)
                in Some (Some (lwip_htonl val))
     }"

definition ipaddr_addr :: "bytes \<Rightarrow> addr \<Rightarrow> os_u32 option" where
  "ipaddr_addr m cp =
     do { r \<leftarrow> ipaddr_aton m cp; Some (case r of None \<Rightarrow> IPADDR_NONE | Some val \<Rightarrow> val) }"

section \<open>Printing\<close>

text \<open>The digits of a byte in the order of the buffer \<^verbatim>\<open>inv\<close>, last first.\<close>

function inv_digits :: "os_u8 \<Rightarrow> os_u8 list" where
  "inv_digits ap = (0x30 + ap mod 10) # (if ap div 10 \<noteq> 0 then inv_digits (ap div 10) else [])"
  by pat_completeness auto
termination
proof (relation "measure unat")
  fix ap :: os_u8
  assume "ap div 10 \<noteq> 0"
  then have "unat (ap div 10) \<noteq> 0" by (simp add: unat_eq_zero)
  then show "(ap div 10, ap) \<in> measure unat" by (simp add: unat_div)
qed simp

declare inv_digits.simps [simp del]

text \<open>Writing characters: \<open>Inl\<close> is the return of NULL, otherwise the length, the write pointer and the memory.\<close>

primrec ntoa_put :: "int \<Rightarrow> os_u8 list \<Rightarrow> int \<times> addr \<times> bytes \<Rightarrow> bytes + (int \<times> addr \<times> bytes)" where
  "ntoa_put buflen [] st = Inr st"
| "ntoa_put buflen (c # cs) st =
     (case st of (len, rp, m) \<Rightarrow> if len \<ge> buflen then Inl m else ntoa_put buflen cs (len + 1, rp + 1, m(rp := c)))"

primrec ntoa_bytes :: "int \<Rightarrow> os_u8 list \<Rightarrow> int \<times> addr \<times> bytes \<Rightarrow> bytes + (int \<times> addr \<times> bytes)" where
  "ntoa_bytes buflen [] st = Inr st"
| "ntoa_bytes buflen (ap # aps) st =
     (case ntoa_put buflen (rev (inv_digits ap)) st of Inl m \<Rightarrow> Inl m
      | Inr st \<Rightarrow> (case ntoa_put buflen [0x2e] st of Inl m \<Rightarrow> Inl m | Inr st \<Rightarrow> ntoa_bytes buflen aps st))"

definition addr_bytes :: "os_u32 \<Rightarrow> os_u8 list" where
  "addr_bytes s_addr = [ucast s_addr, ucast (drop_bit 8 s_addr), ucast (drop_bit 16 s_addr), ucast (drop_bit 24 s_addr)]"

definition ipaddr_ntoa_r :: "os_u32 \<Rightarrow> addr \<Rightarrow> int \<Rightarrow> bytes \<Rightarrow> addr \<times> bytes" where
  "ipaddr_ntoa_r s_addr buf buflen m =
     (case ntoa_bytes buflen (addr_bytes s_addr) (0, buf, m) of
        Inl m \<Rightarrow> (NULL, m)
      | Inr (len, rp, m) \<Rightarrow> (buf, m(rp - 1 := 0)))"

text \<open>\<open>str\<close> is the static buffer of 16 bytes.\<close>

definition ipaddr_ntoa :: "addr \<Rightarrow> os_u32 \<Rightarrow> bytes \<Rightarrow> addr \<times> bytes" where
  "ipaddr_ntoa str s_addr m = ipaddr_ntoa_r s_addr str 16 m"

section \<open>Masks\<close>

text \<open>The two loops of \<^verbatim>\<open>ip4_addr_netmask_valid\<close>, with \<open>mask = 1 << (k - 1)\<close> while \<open>k > 0\<close>.\<close>

primrec first_zero :: "nat \<Rightarrow> os_u32 \<Rightarrow> nat" where
  "first_zero 0 nm = 0"
| "first_zero (Suc k) nm = (if nm AND push_bit k 1 = 0 then Suc k else first_zero k nm)"

primrec no_one :: "nat \<Rightarrow> os_u32 \<Rightarrow> bool" where
  "no_one 0 nm = True"
| "no_one (Suc k) nm = (if nm AND push_bit k 1 \<noteq> 0 then False else no_one k nm)"

definition ip4_addr_netmask_valid :: "os_u32 \<Rightarrow> bool" where
  "ip4_addr_netmask_valid netmask = (let nm_hostorder = lwip_htonl netmask in no_one (first_zero 32 nm_hostorder) nm_hostorder)"

section \<open>Text of an address\<close>

definition dotted :: "os_u32 \<Rightarrow> os_u8 list" where
  "dotted s_addr = butlast (concat (map (\<lambda>b. rev (inv_digits b) @ [0x2e]) (addr_bytes s_addr)))"

lemma ntoa_put_spec:
  "len \<le> buflen \<Longrightarrow> ntoa_put buflen cs (len, rp, m) =
     (if len + int (length cs) \<le> buflen then Inr (len + int (length cs), rp + of_nat (length cs), store rp cs m)
      else Inl (store rp (take (nat (buflen - len)) cs) m))"
proof (induction cs arbitrary: len rp m)
  case (Cons c cs)
  show ?case
  proof (cases "len < buflen")
    case True
    then have "len + 1 \<le> buflen" "nat (buflen - len) = Suc (nat (buflen - (len + 1)))" by simp_all
    moreover have "ntoa_put buflen (c # cs) (len, rp, m) = ntoa_put buflen cs (len + 1, rp + 1, m(rp := c))" using True by simp
    ultimately show ?thesis by (simp only: Cons.IH) (simp add: add.assoc)
  qed (use Cons.prems in simp)
qed simp

lemma ntoa_put_append:
  "ntoa_put buflen (xs @ ys) st = (case ntoa_put buflen xs st of Inl m \<Rightarrow> Inl m | Inr st \<Rightarrow> ntoa_put buflen ys st)"
  by (induction xs arbitrary: st) (auto split: prod.split)

definition parts_text :: "os_u8 list \<Rightarrow> os_u8 list" where
  "parts_text bs = concat (map (\<lambda>b. rev (inv_digits b) @ [0x2e]) bs)"

lemma ntoa_bytes_put: "ntoa_bytes buflen bs st = ntoa_put buflen (parts_text bs) st"
  by (induction bs arbitrary: st) (auto simp: parts_text_def ntoa_put_append split: sum.split prod.split)

lemma parts_text_dotted: "parts_text (addr_bytes a) = dotted a @ [0x2e]"
  by (simp add: parts_text_def dotted_def addr_bytes_def butlast_append)

lemma ntoa_text:
  assumes "0 \<le> buflen"
  shows "ipaddr_ntoa_r a buf buflen m =
    (if int (length (dotted a)) < buflen then (buf, store buf (dotted a @ [0]) m) else (NULL, store buf (take (nat buflen) (dotted a)) m))"
proof -
  have "buf + of_nat (length (dotted a @ [0x2e])) - 1 = buf + of_nat (length (dotted a))" by simp
  then show ?thesis
    using assms by (simp add: ipaddr_ntoa_r_def ntoa_bytes_put parts_text_dotted ntoa_put_spec store_append)
qed

section \<open>Reading what was printed\<close>

lemma digit_char: "isdigit (0x30 + b mod 10)" for b :: os_u8
  by (simp add: isdigit_def in_range_def word_le_nat_alt unat_word_ariths)

lemma inv_digits_digit: "list_all isdigit (inv_digits b)"
  by (induction b rule: inv_digits.induct) (subst inv_digits.simps, simp add: digit_char)

lemma inv_digits_nonempty: "inv_digits b \<noteq> []"
  by (subst inv_digits.simps) simp

lemma inv_digits_zero: "inv_digits 0 = [0x30]"
  by (subst inv_digits.simps) simp

lemma small_div: "(b :: os_u8) div 10 = 0 \<longleftrightarrow> unat b < 10"
  by (simp add: word_unat_eq_iff unat_div div_eq_0_iff)

lemma last_inv_digits: "last (inv_digits b) = 0x30 \<longleftrightarrow> b = 0"
proof (induction b rule: inv_digits.induct)
  case (1 b)
  show ?case
  proof (cases "b div 10 = 0")
    case True
    then have "unat b < 10" by (simp only: small_div)
    moreover have "b mod 10 = b" using calculation by (simp add: word_unat_eq_iff unat_mod)
    ultimately show ?thesis using True by (subst inv_digits.simps) simp
  next
    case False
    then show ?thesis using 1 inv_digits_nonempty by (subst inv_digits.simps) auto
  qed
qed

lemma inv_digits_value: "foldr (\<lambda>c v. v * 10 + ucast (c - 0x30)) (inv_digits b) (0 :: os_u32) = ucast b"
proof (induction b rule: inv_digits.induct)
  case (1 b)
  have "unat (ucast (b div 10) * 10 + ucast (b mod 10) :: os_u32) = unat b"
    using unat_byte [of b] by (simp add: unat_word_ariths unat_ucast_8 unat_div unat_mod)
  then have step: "ucast (b div 10) * 10 + ucast (b mod 10) = (ucast b :: os_u32)"
    by (simp add: word_unat_eq_iff unat_ucast_8)
  show ?case
  proof (cases "b div 10 = 0")
    case True
    then show ?thesis using step by (subst inv_digits.simps) simp
  next
    case False
    then show ?thesis using 1 step by (subst inv_digits.simps) simp
  qed
qed

lemma aton_digits_spec:
  "list_all isdigit ds \<Longrightarrow> block m cp ds \<Longrightarrow> \<not> isdigit (m (cp + of_nat (length ds))) \<Longrightarrow> base \<noteq> 16 \<Longrightarrow>
   aton_digits m base cp val = Some (cp + of_nat (length ds), fold (\<lambda>c v. v * ucast base + ucast (c - 0x30)) ds val)"
proof (induction ds arbitrary: cp val)
  case Nil
  then show ?case by (simp add: aton_digits.simps [of m base cp])
next
  case (Cons d ds)
  then show ?case
    using Cons.IH [of "cp + 1" "val * ucast base + ucast (d - 0x30)"] by (simp add: aton_digits.simps [of m base cp] add.assoc)
qed

lemma aton_part:
  assumes "block m cp (rev (inv_digits b) @ [c])" and "\<not> isdigit c" and "c \<noteq> 0x78" and "c \<noteq> 0x58"
  shows "aton_parts m cp parts =
    (if c = 0x2e
     then if length parts \<ge> 3 then Some None else aton_parts m (cp + of_nat (length (inv_digits b)) + 1) (parts @ [ucast b])
     else Some (Some (cp + of_nat (length (inv_digits b)), ucast b, parts)))"
proof -
  let ?ds = "rev (inv_digits b)"
  have bl: "block m cp ?ds" and c: "m (cp + of_nat (length ?ds)) = c" using assms(1) by (simp_all add: block_append)
  obtain d ds where ds: "?ds = d # ds" using inv_digits_nonempty [of b] by (cases ?ds) auto
  then have d: "m cp = d" "isdigit d" "d = last (inv_digits b)"
    using bl inv_digits_digit [of b] hd_rev [of "inv_digits b"] list_all_rev [of isdigit "inv_digits b"] by simp_all
  show ?thesis
  proof (cases "b = 0")
    case True
    then have "aton_digits m 8 (cp + 1) 0 = Some (cp + 1, 0)"
      using aton_digits_spec [of "[]" m "cp + 1" 8 0] c assms(2) by (simp add: inv_digits_zero)
    then show ?thesis using True c assms(3,4) d(1,2) last_inv_digits [of b]
      by (simp add: aton_parts.simps [of m cp] inv_digits_zero d(3))
  next
    case False
    then have "d \<noteq> 0x30" using d(3) last_inv_digits by simp
    moreover have "aton_digits m 10 cp 0 = Some (cp + of_nat (length (inv_digits b)), ucast b)"
      using aton_digits_spec [of ?ds m cp 10 0] bl c assms(2) inv_digits_digit [of b] inv_digits_value [of b]
      by (simp add: foldr_conv_fold)
    ultimately show ?thesis using d(1,2) c by (simp add: aton_parts.simps [of m cp])
  qed
qed

lemma and_mask_at:
  "(w :: os_u32) AND 0xff00 = push_bit 8 (take_bit 8 (drop_bit 8 w))"
  "w AND 0xff0000 = push_bit 16 (take_bit 8 (drop_bit 16 w))"
  "w AND 0xff000000 = push_bit 24 (take_bit 8 (drop_bit 24 w))"
proof -
  have e: "(0xff00 :: os_u32) = push_bit 8 (mask 8)" "(0xff0000 :: os_u32) = push_bit 16 (mask 8)" "(0xff000000 :: os_u32) = push_bit 24 (mask 8)"
    by (simp_all add: mask_eq_exp_minus_1 push_bit_eq_mult)
  show "w AND 0xff00 = push_bit 8 (take_bit 8 (drop_bit 8 w))" "w AND 0xff0000 = push_bit 16 (take_bit 8 (drop_bit 16 w))"
    "w AND 0xff000000 = push_bit 24 (take_bit 8 (drop_bit 24 w))"
    unfolding e by (auto intro!: bit_word_eqI simp: bit_simps)
qed

lemma bit_htonl:
  "n < 32 \<Longrightarrow> bit (lwip_htonl w) n \<longleftrightarrow>
     (if n < 8 then bit w (24 + n) else if n < 16 then bit w (8 + n) else if n < 24 then bit w (n - 8) else bit w (n - 24))"
  unfolding lwip_htonl_def and_ff and_mask_at by (auto simp: bit_simps)

lemma htonl_htonl: "lwip_htonl (lwip_htonl w) = w"
  by (rule bit_word_eqI) (auto simp: bit_htonl)

lemma htonl_parts:
  "lwip_htonl (ucast (ucast (drop_bit 24 a) :: os_u8) OR
     (push_bit 24 (ucast (ucast a :: os_u8)) OR push_bit 16 (ucast (ucast (drop_bit 8 a) :: os_u8)) OR push_bit 8 (ucast (ucast (drop_bit 16 a) :: os_u8)))) = a"
  by (rule bit_word_eqI) (auto simp: bit_htonl bit_simps)

lemma length_inv_digits: "length (inv_digits b) \<le> 3"
proof -
  have "b div 10 div 10 div 10 = 0" using unat_byte [of b] by (simp add: word_unat_eq_iff unat_div)
  then show ?thesis by (simp add: inv_digits.simps [of b] inv_digits.simps [of "b div 10"] inv_digits.simps [of "b div 10 div 10"])
qed

lemma length_dotted: "length (dotted a) \<le> 15"
proof -
  have "length (parts_text (addr_bytes a)) \<le> 16"
    using length_inv_digits [of "ucast a"] length_inv_digits [of "ucast (drop_bit 8 a)"]
      length_inv_digits [of "ucast (drop_bit 16 a)"] length_inv_digits [of "ucast (drop_bit 24 a)"]
    by (simp add: parts_text_def addr_bytes_def)
  then show ?thesis by (simp add: parts_text_dotted)
qed

lemma digit_nonzero: "isdigit c \<Longrightarrow> c \<noteq> 0"
  by (auto simp: isdigit_def in_range_def word_le_nat_alt)

lemma dotted_parts:
  "dotted a @ [c] = rev (inv_digits (ucast a)) @ [0x2e] @ rev (inv_digits (ucast (drop_bit 8 a))) @ [0x2e] @
     rev (inv_digits (ucast (drop_bit 16 a))) @ [0x2e] @ rev (inv_digits (ucast (drop_bit 24 a))) @ [c]"
  by (simp add: dotted_def addr_bytes_def butlast_append)

lemma dotted_nonzero: "0 \<notin> set (dotted a)"
proof -
  have "0 \<notin> set (dotted a @ [1])"
    unfolding dotted_parts using inv_digits_digit digit_nonzero by (auto simp: list_all_iff)
  then show ?thesis by simp
qed

lemma aton_dotted:
  assumes "block m buf (dotted a @ [0])"
  shows "ipaddr_aton m buf = Some (Some a)"
proof -
  define d where "d i = (ucast (drop_bit i a) :: os_u8)" for i
  define l where "l i = of_nat (length (inv_digits (d i))) + (1 :: addr)" for i
  let ?p1 = "buf + l 0" and ?p2 = "buf + l 0 + l 8" and ?p3 = "buf + l 0 + l 8 + l 16"
  have no: "\<not> isdigit 0x2e" "\<not> isdigit 0" by (simp_all add: isdigit_def in_range_def word_le_nat_alt)
  have b: "block m buf (rev (inv_digits (d 0)) @ [0x2e])" "block m ?p1 (rev (inv_digits (d 8)) @ [0x2e])"
    "block m ?p2 (rev (inv_digits (d 16)) @ [0x2e])" "block m ?p3 (rev (inv_digits (d 24)) @ [0])"
    using assms unfolding dotted_parts by (simp_all add: block_append d_def l_def add.assoc)
  have "aton_parts m buf [] = aton_parts m ?p1 [ucast (d 0)]"
    using aton_part [OF b(1), of "[]"] no by (simp add: l_def add.assoc)
  also have "\<dots> = aton_parts m ?p2 [ucast (d 0), ucast (d 8)]"
    using aton_part [OF b(2), of "[ucast (d 0)]"] no by (simp add: l_def add.assoc)
  also have "\<dots> = aton_parts m ?p3 [ucast (d 0), ucast (d 8), ucast (d 16)]"
    using aton_part [OF b(3), of "[ucast (d 0), ucast (d 8)]"] no by (simp add: l_def add.assoc)
  also have "\<dots> = Some (Some (?p3 + of_nat (length (inv_digits (d 24))), ucast (d 24), [ucast (d 0), ucast (d 8), ucast (d 16)]))"
    using aton_part [OF b(4), of "[ucast (d 0), ucast (d 8), ucast (d 16)]"] no by simp
  finally have "aton_parts m buf [] =
    Some (Some (?p3 + of_nat (length (inv_digits (d 24))), ucast (d 24), [ucast (d 0), ucast (d 8), ucast (d 16)]))" .
  moreover have "m (?p3 + of_nat (length (inv_digits (d 24)))) = 0" using b(4) by (simp add: block_append)
  moreover have "\<not> (ucast (d 24) :: os_u32) > 0xff" using unat_byte [of "d 24"] by (simp add: word_less_nat_alt unat_ucast_8)
  ultimately show ?thesis
    using htonl_parts [of a] by (simp add: ipaddr_aton_def d_def)
qed

section \<open>Properties\<close>

text \<open>Only the first \<open>buflen\<close> bytes of the buffer are written, also when the text does not fit.\<close>

lemma ntoa_frame:
  assumes "0 \<le> buflen" and "\<forall>k. int k < buflen \<longrightarrow> x \<noteq> buf + of_nat k"
  shows "snd (ipaddr_ntoa_r a buf buflen m) x = m x"
proof (cases "int (length (dotted a)) < buflen")
  case True
  have "store buf (dotted a @ [0]) m x = m x" using True assms(2) by (intro store_other) auto
  then show ?thesis using True ntoa_text [OF assms(1), of a buf m] by simp
next
  case False
  have "store buf (take (nat buflen) (dotted a)) m x = m x" using assms by (intro store_other) (auto simp: min_def split: if_splits)
  then show ?thesis using False ntoa_text [OF assms(1), of a buf m] by simp
qed

text \<open>
  C30. An address survives being printed and read again. \<^verbatim>\<open>ipaddr_ntoa_r\<close> returns the buffer, holding the dotted text as a string, exactly if the buffer has room for the text and
  its end, and NULL otherwise; in both cases no byte outside the \<open>buflen\<close> bytes of the buffer is changed. \<^verbatim>\<open>ipaddr_aton\<close> of what was written returns 1 and the address. The text has
  at most 15 characters, so the 16 bytes of \<^verbatim>\<open>ipaddr_ntoa\<close> always suffice, and only they are written.
\<close>

theorem ipaddr_text_roundtrip:
  assumes "0 \<le> buflen"
  shows "(if int (length (dotted a)) < buflen
     then \<exists>m'. ipaddr_ntoa_r a buf buflen m = (buf, m') \<and> cstr m' buf (dotted a) \<and> ipaddr_aton m' buf = Some (Some a)
     else fst (ipaddr_ntoa_r a buf buflen m) = NULL) \<and>
   (\<forall>x. (\<forall>k. int k < buflen \<longrightarrow> x \<noteq> buf + of_nat k) \<longrightarrow> snd (ipaddr_ntoa_r a buf buflen m) x = m x) \<and>
   (\<exists>m'. ipaddr_ntoa buf a m = (buf, m') \<and> ipaddr_addr m' buf = Some a \<and> (\<forall>x. (\<forall>k < 16. x \<noteq> buf + of_nat k) \<longrightarrow> m' x = m x))"
proof (intro conjI)
  let ?m = "store buf (dotted a @ [0]) m"
  have len: "length (dotted a) < 16" using length_dotted [of a] by simp
  then have "block ?m buf (dotted a @ [0])" by (intro block_store) simp
  from aton_dotted [OF this] have r: "ipaddr_aton ?m buf = Some (Some a)" .
  have "cstr ?m buf (dotted a)" using len dotted_nonzero by (intro cstr_store) simp_all
  then show "if int (length (dotted a)) < buflen
     then \<exists>m'. ipaddr_ntoa_r a buf buflen m = (buf, m') \<and> cstr m' buf (dotted a) \<and> ipaddr_aton m' buf = Some (Some a)
     else fst (ipaddr_ntoa_r a buf buflen m) = NULL"
    using r ntoa_text [OF assms, of a buf m] by simp
  have "ipaddr_ntoa buf a m = (buf, ?m)" using len ntoa_text [of 16 a buf m] by (simp add: ipaddr_ntoa_def)
  moreover have "?m x = m x" if "\<forall>k < 16. x \<noteq> buf + of_nat k" for x using len that by (intro store_other) auto
  ultimately show "\<exists>m'. ipaddr_ntoa buf a m = (buf, m') \<and> ipaddr_addr m' buf = Some a \<and> (\<forall>x. (\<forall>k < 16. x \<noteq> buf + of_nat k) \<longrightarrow> m' x = m x)"
    using r by (simp add: ipaddr_addr_def)
  show "\<forall>x. (\<forall>k. int k < buflen \<longrightarrow> x \<noteq> buf + of_nat k) \<longrightarrow> snd (ipaddr_ntoa_r a buf buflen m) x = m x" using ntoa_frame [OF assms] by blast
qed

theorem ipaddr_text_roundtrip_witness:
  "\<exists>m'. ipaddr_ntoa 0x200 0x0101a8c0 (\<lambda>_. 0) = (0x200, m') \<and> ipaddr_addr m' 0x200 = Some 0x0101a8c0"
proof -
  have "(0 :: int) \<le> 16" by simp
  from ipaddr_text_roundtrip [OF this] show ?thesis by blast
qed

lemma no_one_iff: "no_one k w \<longleftrightarrow> (\<forall>i < k. \<not> bit w i)"
  by (induction k) (auto simp: bit_iff_and_push_bit_not_eq_0 less_Suc_eq)

lemma first_zero_spec:
  "first_zero k w \<le> k \<and> (\<forall>i < k. first_zero k w \<le> i \<longrightarrow> bit w i) \<and> (first_zero k w \<noteq> 0 \<longrightarrow> \<not> bit w (first_zero k w - 1))"
  by (induction k) (auto simp: bit_iff_and_push_bit_not_eq_0 less_Suc_eq)

text \<open>
  \<^verbatim>\<open>ip4_addr_netmask_valid\<close> accepts exactly the prefix masks: those that are, in host byte order, a number of ones followed by only zeros.
\<close>

theorem netmask_valid_prefix: "ip4_addr_netmask_valid netmask \<longleftrightarrow> (\<exists>k \<le> 32. lwip_ntohl netmask = NOT (mask k))"
proof -
  define w where "w = lwip_htonl netmask"
  define z where "z = first_zero 32 w"
  note f = first_zero_spec [of 32 w, folded z_def]
  have "no_one z w \<longleftrightarrow> (\<exists>k \<le> 32. w = NOT (mask k))"
  proof
    assume "no_one z w"
    then have "w = NOT (mask z)" using f by (intro bit_word_eqI) (auto simp: bit_simps no_one_iff not_less)
    then show "\<exists>k \<le> 32. w = NOT (mask k)" using f by blast
  next
    assume "\<exists>k \<le> 32. w = NOT (mask k)"
    then obtain k where k: "k \<le> 32" "w = NOT (mask k)" by blast
    have "z \<le> k"
    proof (rule ccontr)
      assume "\<not> z \<le> k"
      then have "\<not> z - 1 < k" "z - 1 < 32" using f by auto
      then have "bit w (z - 1)" by (simp add: k(2) bit_simps)
      then show False using f \<open>\<not> z \<le> k\<close> by simp
    qed
    then show "no_one z w" by (simp add: no_one_iff k(2) bit_simps)
  qed
  then show ?thesis by (simp add: ip4_addr_netmask_valid_def lwip_ntohl_def w_def z_def Let_def)
qed

end
