(* ===== verification/Netif.thy ===== *)
theory Netif
  imports Ip_Addr
begin

text \<open>
  The network interfaces of the IP stack, \<^verbatim>\<open>hwutil/net/lwip/source/core/netif.c\<close>, and the two functions that choose by them: \<^verbatim>\<open>ip_route\<close> of \<^verbatim>\<open>ipv4/ip.c\<close> and
  \<^verbatim>\<open>ip4_addr_isbroadcast\<close> of \<^verbatim>\<open>ipv4/ip_addr.c\<close>. The configuration has TCP, ARP and DHCP and neither loopback, SNMP, IGMP nor callbacks. The functions of other
  modules are arguments: \<open>tcp_abort\<close>, \<open>etharp_gratuitous\<close>, \<open>etharp_cleanup_netif\<close>, \<open>dhcp_network_changed\<close>. Of a TCP control block only the members used here
  are modelled. A pointer to an address is the address, \<open>None\<close> for NULL.
\<close>

record netif =
  ni_next :: addr
  ni_ip_addr :: os_u32
  ni_netmask :: os_u32
  ni_gw :: os_u32
  ni_input :: addr
  ni_output :: addr
  ni_linkoutput :: addr
  ni_state :: addr
  ni_dhcp :: addr
  ni_mtu :: os_u16
  ni_hwaddr_len :: os_u8
  ni_hwaddr :: "os_u8 list"
  ni_flags :: os_u8
  ni_name0 :: os_u8
  ni_name1 :: os_u8
  ni_num :: os_u8

record tcp_pcb =
  pcb_next :: addr
  pcb_local_ip :: os_u32

record netkernel = pbkernel +
  netifs :: "addr \<Rightarrow> netif"
  netif_list :: addr
  netif_default :: addr
  netif_num :: os_u8
  tcp_pcbs :: "addr \<Rightarrow> tcp_pcb"
  tcp_active_pcbs :: addr
  tcp_listen_pcbs :: addr

type_synonym 'a nenv = "'a netkernel_scheme \<Rightarrow> 'a netkernel_scheme option"

definition NETIF_FLAG_UP :: os_u8 where "NETIF_FLAG_UP = 0x01"
definition NETIF_FLAG_BROADCAST :: os_u8 where "NETIF_FLAG_BROADCAST = 0x02"
definition NETIF_FLAG_LINK_UP :: os_u8 where "NETIF_FLAG_LINK_UP = 0x10"
definition NETIF_FLAG_ETHARP :: os_u8 where "NETIF_FLAG_ETHARP = 0x20"

definition upd_netif :: "addr \<Rightarrow> (netif \<Rightarrow> netif) \<Rightarrow> 'a netkernel_scheme \<Rightarrow> 'a netkernel_scheme" where
  "upd_netif n f s = s\<lparr>netifs := (netifs s)(n := f (netifs s n))\<rparr>"

definition has_flag :: "os_u8 \<Rightarrow> netif \<Rightarrow> bool" where
  "has_flag f x \<longleftrightarrow> ni_flags x AND f \<noteq> 0"

definition netif_is_up :: "netif \<Rightarrow> bool" where
  "netif_is_up x \<longleftrightarrow> has_flag NETIF_FLAG_UP x"

definition ip_addr_set :: "os_u32 option \<Rightarrow> os_u32" where
  "ip_addr_set src = (case src of None \<Rightarrow> 0 | Some a \<Rightarrow> a)"

definition ip_addr_netcmp :: "os_u32 \<Rightarrow> os_u32 \<Rightarrow> os_u32 \<Rightarrow> bool" where
  "ip_addr_netcmp a b m \<longleftrightarrow> a AND m = b AND m"

section \<open>Addresses of an interface\<close>

text \<open>The connections bound to the old address are aborted, the listeners follow the new one.\<close>

partial_function (option) abort_loop :: "(addr \<Rightarrow> 'a nenv) \<Rightarrow> addr \<Rightarrow> addr \<Rightarrow> 'a nenv" where
  "abort_loop tcp_abort n pcb s =
     (if pcb = NULL then Some s
      else if pcb_local_ip (tcp_pcbs s pcb) = ni_ip_addr (netifs s n)
           then do {
             let next = pcb_next (tcp_pcbs s pcb);
             s \<leftarrow> tcp_abort pcb s;
             abort_loop tcp_abort n next s
           }
           else abort_loop tcp_abort n (pcb_next (tcp_pcbs s pcb)) s)"

partial_function (option) listen_loop :: "addr \<Rightarrow> os_u32 \<Rightarrow> addr \<Rightarrow> 'a nenv" where
  "listen_loop n ipaddr lpcb s =
     (if lpcb = NULL then Some s
      else let local_ip = pcb_local_ip (tcp_pcbs s lpcb);
               s = (if local_ip \<noteq> IPADDR_ANY \<and> local_ip = ni_ip_addr (netifs s n)
                    then s\<lparr>tcp_pcbs := (tcp_pcbs s)(lpcb := (tcp_pcbs s lpcb)\<lparr>pcb_local_ip := ipaddr\<rparr>)\<rparr> else s)
           in listen_loop n ipaddr (pcb_next (tcp_pcbs s lpcb)) s)"

definition netif_set_ipaddr :: "(addr \<Rightarrow> 'a nenv) \<Rightarrow> addr \<Rightarrow> os_u32 option \<Rightarrow> 'a nenv" where
  "netif_set_ipaddr tcp_abort n ipaddr s =
     do {
       s \<leftarrow> (case ipaddr of None \<Rightarrow> Some s
             | Some a \<Rightarrow>
                 if a \<noteq> ni_ip_addr (netifs s n)
                 then do { s \<leftarrow> abort_loop tcp_abort n (tcp_active_pcbs s) s; listen_loop n a (tcp_listen_pcbs s) s }
                 else Some s);
       Some (upd_netif n (\<lambda>x. x\<lparr>ni_ip_addr := ip_addr_set ipaddr\<rparr>) s)
     }"

definition netif_set_gw :: "addr \<Rightarrow> os_u32 option \<Rightarrow> 'a netkernel_scheme \<Rightarrow> 'a netkernel_scheme" where
  "netif_set_gw n gw s = upd_netif n (\<lambda>x. x\<lparr>ni_gw := ip_addr_set gw\<rparr>) s"

definition netif_set_netmask :: "addr \<Rightarrow> os_u32 option \<Rightarrow> 'a netkernel_scheme \<Rightarrow> 'a netkernel_scheme" where
  "netif_set_netmask n netmask s = upd_netif n (\<lambda>x. x\<lparr>ni_netmask := ip_addr_set netmask\<rparr>) s"

definition netif_set_addr :: "(addr \<Rightarrow> 'a nenv) \<Rightarrow> addr \<Rightarrow> os_u32 option \<Rightarrow> os_u32 option \<Rightarrow> os_u32 option \<Rightarrow> 'a nenv" where
  "netif_set_addr tcp_abort n ipaddr netmask gw s =
     do {
       s \<leftarrow> netif_set_ipaddr tcp_abort n ipaddr s;
       let s = netif_set_netmask n netmask s;
       Some (netif_set_gw n gw s)
     }"

section \<open>The list of interfaces\<close>

text \<open>\<open>init\<close> is the initialisation function of the driver.\<close>

definition netif_add :: "(addr \<Rightarrow> 'a nenv) \<Rightarrow> addr \<Rightarrow> os_u32 option \<Rightarrow> os_u32 option \<Rightarrow> os_u32 option \<Rightarrow> addr \<Rightarrow>
    (addr \<Rightarrow> 'a netkernel_scheme \<Rightarrow> (int \<times> 'a netkernel_scheme) option) \<Rightarrow> addr \<Rightarrow> 'a netkernel_scheme \<Rightarrow> (addr \<times> 'a netkernel_scheme) option" where
  "netif_add tcp_abort n ipaddr netmask gw state init input s =
     do {
       let s = upd_netif n (\<lambda>x. x\<lparr>ni_ip_addr := 0, ni_netmask := 0, ni_gw := 0, ni_flags := 0, ni_dhcp := NULL\<rparr>) s;
       let s = upd_netif n (\<lambda>x. x\<lparr>ni_state := state, ni_num := netif_num s\<rparr>) s;
       let s = s\<lparr>netif_num := netif_num s + 1\<rparr>;
       let s = upd_netif n (\<lambda>x. x\<lparr>ni_input := input\<rparr>) s;
       s \<leftarrow> netif_set_addr tcp_abort n ipaddr netmask gw s;
       (err, s) \<leftarrow> init n s;
       if err \<noteq> ERR_OK then Some (NULL, s)
       else let s = upd_netif n (\<lambda>x. x\<lparr>ni_next := netif_list s\<rparr>) s
            in Some (n, s\<lparr>netif_list := n\<rparr>)
     }"

definition netif_set_default :: "addr \<Rightarrow> 'a netkernel_scheme \<Rightarrow> 'a netkernel_scheme" where
  "netif_set_default n s = s\<lparr>netif_default := n\<rparr>"

definition netif_set_up :: "(addr \<Rightarrow> 'a nenv) \<Rightarrow> addr \<Rightarrow> 'a nenv" where
  "netif_set_up etharp_gratuitous n s =
     (if \<not> has_flag NETIF_FLAG_UP (netifs s n)
      then let s = upd_netif n (\<lambda>x. x\<lparr>ni_flags := ni_flags x OR NETIF_FLAG_UP\<rparr>) s
           in if has_flag NETIF_FLAG_LINK_UP (netifs s n) \<and> has_flag NETIF_FLAG_ETHARP (netifs s n) then etharp_gratuitous n s
              else Some s
      else Some s)"

definition netif_set_down :: "(addr \<Rightarrow> 'a nenv) \<Rightarrow> addr \<Rightarrow> 'a nenv" where
  "netif_set_down etharp_cleanup_netif n s =
     (if has_flag NETIF_FLAG_UP (netifs s n)
      then let s = upd_netif n (\<lambda>x. x\<lparr>ni_flags := ni_flags x AND NOT NETIF_FLAG_UP\<rparr>) s
           in if has_flag NETIF_FLAG_ETHARP (netifs s n) then etharp_cleanup_netif n s else Some s
      else Some s)"

definition netif_set_link_up :: "(addr \<Rightarrow> 'a nenv) \<Rightarrow> (addr \<Rightarrow> 'a nenv) \<Rightarrow> addr \<Rightarrow> 'a nenv" where
  "netif_set_link_up dhcp_network_changed etharp_gratuitous n s =
     (if \<not> has_flag NETIF_FLAG_LINK_UP (netifs s n)
      then do {
        let s = upd_netif n (\<lambda>x. x\<lparr>ni_flags := ni_flags x OR NETIF_FLAG_LINK_UP\<rparr>) s;
        s \<leftarrow> (if ni_dhcp (netifs s n) \<noteq> NULL then dhcp_network_changed n s else Some s);
        if has_flag NETIF_FLAG_UP (netifs s n) \<and> has_flag NETIF_FLAG_ETHARP (netifs s n) then etharp_gratuitous n s else Some s
      }
      else Some s)"

definition netif_set_link_down :: "addr \<Rightarrow> 'a netkernel_scheme \<Rightarrow> 'a netkernel_scheme" where
  "netif_set_link_down n s =
     (if has_flag NETIF_FLAG_LINK_UP (netifs s n) then upd_netif n (\<lambda>x. x\<lparr>ni_flags := ni_flags x AND NOT NETIF_FLAG_LINK_UP\<rparr>) s else s)"

text \<open>The search of \<^verbatim>\<open>netif_remove\<close>: whether the interface was found and unlinked.\<close>

partial_function (option) remove_loop :: "addr \<Rightarrow> addr \<Rightarrow> 'a netkernel_scheme \<Rightarrow> (bool \<times> 'a netkernel_scheme) option" where
  "remove_loop n tmp s =
     (if tmp = NULL then Some (False, s)
      else if ni_next (netifs s tmp) = n
           then Some (True, upd_netif tmp (\<lambda>x. x\<lparr>ni_next := ni_next (netifs s n)\<rparr>) s)
           else remove_loop n (ni_next (netifs s tmp)) s)"

definition netif_remove :: "(addr \<Rightarrow> 'a nenv) \<Rightarrow> addr \<Rightarrow> 'a nenv" where
  "netif_remove etharp_cleanup_netif n s =
     (if n = NULL then Some s
      else do {
        s \<leftarrow> (if netif_is_up (netifs s n) then netif_set_down etharp_cleanup_netif n s else Some s);
        (found, s) \<leftarrow> (if netif_list s = n then Some (True, s\<lparr>netif_list := ni_next (netifs s n)\<rparr>) else remove_loop n (netif_list s) s);
        if found \<and> netif_default s = n then Some (netif_set_default NULL s) else Some s
      })"

partial_function (option) netif_find_loop :: "os_u8 \<Rightarrow> os_u8 \<Rightarrow> os_u8 \<Rightarrow> addr \<Rightarrow> 'a netkernel_scheme \<Rightarrow> addr option" where
  "netif_find_loop num c0 c1 n s =
     (if n = NULL then Some NULL
      else if num = ni_num (netifs s n) \<and> c0 = ni_name0 (netifs s n) \<and> c1 = ni_name1 (netifs s n) then Some n
           else netif_find_loop num c0 c1 (ni_next (netifs s n)) s)"

definition netif_find :: "addr \<Rightarrow> 'a netkernel_scheme \<Rightarrow> addr option" where
  "netif_find name s =
     (if name = NULL then Some NULL
      else netif_find_loop (mem8 s (name + 2) - 0x30) (mem8 s name) (mem8 s (name + 1)) (netif_list s) s)"

section \<open>Choosing an interface\<close>

partial_function (option) route_loop :: "os_u32 \<Rightarrow> addr \<Rightarrow> 'a netkernel_scheme \<Rightarrow> addr option" where
  "route_loop dest n s =
     (if n = NULL
      then Some (if netif_default s = NULL \<or> \<not> netif_is_up (netifs s (netif_default s)) then NULL else netif_default s)
      else if netif_is_up (netifs s n) \<and> ip_addr_netcmp dest (ni_ip_addr (netifs s n)) (ni_netmask (netifs s n)) then Some n
           else route_loop dest (ni_next (netifs s n)) s)"

definition ip_route :: "os_u32 \<Rightarrow> 'a netkernel_scheme \<Rightarrow> addr option" where
  "ip_route dest s = route_loop dest (netif_list s) s"

definition ip4_addr_isbroadcast :: "os_u32 \<Rightarrow> netif \<Rightarrow> bool" where
  "ip4_addr_isbroadcast a x =
     (if NOT a = IPADDR_ANY \<or> a = IPADDR_ANY then True
      else if \<not> has_flag NETIF_FLAG_BROADCAST x then False
      else if a = ni_ip_addr x then False
      else ip_addr_netcmp a (ni_ip_addr x) (ni_netmask x) \<and>
           a AND NOT (ni_netmask x) = IPADDR_BROADCAST AND NOT (ni_netmask x))"

section \<open>The list as a chain\<close>

primrec nchain :: "(addr \<Rightarrow> netif) \<Rightarrow> addr \<Rightarrow> addr list \<Rightarrow> bool" where
  "nchain f n [] \<longleftrightarrow> n = NULL"
| "nchain f n (x # xs) \<longleftrightarrow> n = x \<and> x \<noteq> NULL \<and> nchain f (ni_next (f x)) xs"

lemma nchain_NULL [simp]: "nchain f NULL xs \<longleftrightarrow> xs = []"
  by (cases xs) auto

lemma nchain_cong: "(\<And>x. x \<in> set xs \<Longrightarrow> ni_next (g x) = ni_next (f x)) \<Longrightarrow> nchain g n xs = nchain f n xs"
  by (induction xs arbitrary: n) auto

definition routes :: "os_u32 \<Rightarrow> netif \<Rightarrow> bool" where
  "routes dest x \<longleftrightarrow> netif_is_up x \<and> ip_addr_netcmp dest (ni_ip_addr x) (ni_netmask x)"

lemma route_loop_spec:
  "nchain (netifs s) n xs \<Longrightarrow> route_loop dest n s =
     Some (case find (\<lambda>x. routes dest (netifs s x)) xs of Some x \<Rightarrow> x
       | None \<Rightarrow> if netif_default s \<noteq> NULL \<and> netif_is_up (netifs s (netif_default s)) then netif_default s else NULL)"
proof (induction xs arbitrary: n)
  case Nil
  then show ?case by (simp add: route_loop.simps [of dest NULL])
next
  case (Cons x xs)
  then show ?case by (auto simp: route_loop.simps [of dest x] routes_def)
qed

lemma find_loop_spec:
  "nchain (netifs s) n xs \<Longrightarrow> netif_find_loop num c0 c1 n s =
     Some (case find (\<lambda>x. ni_num (netifs s x) = num \<and> ni_name0 (netifs s x) = c0 \<and> ni_name1 (netifs s x) = c1) xs of Some x \<Rightarrow> x | None \<Rightarrow> NULL)"
proof (induction xs arbitrary: n)
  case Nil
  then show ?case by (simp add: netif_find_loop.simps [of _ _ _ NULL])
next
  case (Cons x xs)
  then show ?case by (auto simp: netif_find_loop.simps [of _ _ _ x])
qed

text \<open>Unlinking an interface that is not the first.\<close>

lemma remove_loop_spec:
  assumes "nchain (netifs s) tmp xs" and "distinct xs" and "n \<notin> set (take 1 xs)" and "n \<noteq> NULL"
  shows "if n \<in> set xs then \<exists>s'. remove_loop n tmp s = Some (True, s') \<and> nchain (netifs s') tmp (remove1 n xs) \<and>
      (\<exists>t v. t \<in> set xs \<and> s' = upd_netif t (\<lambda>x. x\<lparr>ni_next := v\<rparr>) s)
    else remove_loop n tmp s = Some (False, s)"
  using assms
proof (induction xs arbitrary: tmp)
  case Nil
  then show ?case by (simp add: remove_loop.simps [of n NULL])
next
  case (Cons x xs)
  have x: "tmp = x" "x \<noteq> NULL" "nchain (netifs s) (ni_next (netifs s x)) xs" "n \<noteq> x" "x \<notin> set xs" "distinct xs"
    using Cons.prems by auto
  show ?case
  proof (cases "ni_next (netifs s x) = n")
    case True
    then obtain ys where xs: "xs = n # ys" using x(3) Cons.prems(4) by (cases xs) auto
    let ?s = "upd_netif x (\<lambda>y. y\<lparr>ni_next := ni_next (netifs s n)\<rparr>) s"
    have "nchain (netifs ?s) (ni_next (netifs s n)) ys = nchain (netifs s) (ni_next (netifs s n)) ys"
      using x(5) xs by (intro nchain_cong) (auto simp: upd_netif_def)
    then have "nchain (netifs ?s) x (x # ys)" using x(2,3) xs by (simp add: upd_netif_def)
    then show ?thesis using True x xs by (auto simp: remove_loop.simps [of n x])
  next
    case False
    then have "n \<notin> set (take 1 xs)" using x(3) by (cases xs) auto
    note IH = Cons.IH [OF x(3,6) this Cons.prems(4)]
    show ?thesis
    proof (cases "n \<in> set xs")
      case True
      then obtain s' t v where s': "remove_loop n (ni_next (netifs s x)) s = Some (True, s')"
          "nchain (netifs s') (ni_next (netifs s x)) (remove1 n xs)" "t \<in> set xs" "s' = upd_netif t (\<lambda>x. x\<lparr>ni_next := v\<rparr>) s"
        using IH by auto
      have "ni_next (netifs s' x) = ni_next (netifs s x)" using s'(3,4) x(5) by (auto simp: upd_netif_def)
      then have "nchain (netifs s') x (remove1 n (x # xs))" using s'(2) x by simp
      then show ?thesis using True False x s' by (auto simp: remove_loop.simps [of n x])
    qed (use IH x False in \<open>simp add: remove_loop.simps [of n x]\<close>)
  qed
qed

section \<open>Properties\<close>

text \<open>
  C31. \<^verbatim>\<open>ip_route\<close> returns for every destination: the first interface of the list that is up and whose network the destination is on, else the default
  interface if there is one and it is up, else NULL; so it never gives an interface that is down.
\<close>

theorem ip_route_first_match:
  assumes "nchain (netifs s) (netif_list s) xs"
  shows "\<exists>n. ip_route dest s = Some n \<and>
    n = (case find (\<lambda>x. routes dest (netifs s x)) xs of Some x \<Rightarrow> x
       | None \<Rightarrow> if netif_default s \<noteq> NULL \<and> netif_is_up (netifs s (netif_default s)) then netif_default s else NULL) \<and>
    (n \<noteq> NULL \<longrightarrow> netif_is_up (netifs s n))"
proof -
  have "netif_is_up (netifs s x)" if "find (\<lambda>x. routes dest (netifs s x)) xs = Some x" for x
    using that by (auto simp: find_Some_iff routes_def)
  then show ?thesis using route_loop_spec [OF assms, of dest] by (auto simp: ip_route_def split: option.split)
qed

text \<open>What \<^verbatim>\<open>etharp_cleanup_netif\<close> does: it returns and leaves the interfaces alone.\<close>

definition leaves_netifs :: "(addr \<Rightarrow> 'a nenv) \<Rightarrow> bool" where
  "leaves_netifs f \<longleftrightarrow> (\<forall>n s. \<exists>s'. f n s = Some s' \<and> netifs s' = netifs s \<and> netif_list s' = netif_list s \<and> netif_default s' = netif_default s)"

lemma set_down_spec:
  assumes "leaves_netifs cleanup"
  shows "\<exists>s1. (if netif_is_up (netifs s n) then netif_set_down cleanup n s else Some s) = Some s1 \<and>
    netif_list s1 = netif_list s \<and> netif_default s1 = netif_default s \<and> (\<forall>x. ni_next (netifs s1 x) = ni_next (netifs s x))"
proof (cases "netif_is_up (netifs s n)")
  case True
  let ?s = "upd_netif n (\<lambda>x. x\<lparr>ni_flags := ni_flags x AND NOT NETIF_FLAG_UP\<rparr>) s"
  obtain s2 where s2: "cleanup n ?s = Some s2" "netifs s2 = netifs ?s" "netif_list s2 = netif_list ?s" "netif_default s2 = netif_default ?s"
    using assms unfolding leaves_netifs_def by blast
  have "netif_list ?s = netif_list s" "netif_default ?s = netif_default s" "\<forall>x. ni_next (netifs ?s x) = ni_next (netifs s x)"
    by (simp_all add: upd_netif_def)
  then show ?thesis using True s2 by (auto simp: netif_set_down_def netif_is_up_def Let_def)
qed simp

text \<open>
  Removing an interface from a list of different interfaces returns, unlinks exactly this interface, and resets the default if it was this one; afterwards \<^verbatim>\<open>ip_route\<close> and
  \<^verbatim>\<open>netif_find\<close> never give it again.
\<close>

theorem netif_remove_forgets:
  assumes "nchain (netifs s) (netif_list s) xs" and "distinct xs" and "n \<in> set xs" and "leaves_netifs cleanup"
  shows "\<exists>s'. netif_remove cleanup n s = Some s' \<and> nchain (netifs s') (netif_list s') (remove1 n xs) \<and>
    netif_default s' = (if netif_default s = n then NULL else netif_default s) \<and>
    ip_route dest s' \<noteq> Some n \<and> netif_find name s' \<noteq> Some n"
proof -
  have nn: "n \<noteq> NULL"
  proof -
    have "nchain f m ys \<Longrightarrow> x \<in> set ys \<Longrightarrow> x \<noteq> NULL" for f m ys and x :: addr by (induction ys arbitrary: m) auto
    then show ?thesis using assms(1,3) by blast
  qed
  obtain s1 where s1: "(if netif_is_up (netifs s n) then netif_set_down cleanup n s else Some s) = Some s1"
      "netif_list s1 = netif_list s" "netif_default s1 = netif_default s" "\<forall>x. ni_next (netifs s1 x) = ni_next (netifs s x)"
    using set_down_spec [OF assms(4)] by blast
  have c1: "nchain (netifs s1) (netif_list s1) xs" using assms(1) s1(2,4) nchain_cong by metis
  have "\<exists>s2. (if netif_list s1 = n then Some (True, s1\<lparr>netif_list := ni_next (netifs s1 n)\<rparr>) else remove_loop n (netif_list s1) s1) = Some (True, s2) \<and>
      nchain (netifs s2) (netif_list s2) (remove1 n xs) \<and> netif_default s2 = netif_default s"
  proof (cases "netif_list s1 = n")
    case True
    then obtain ys where "xs = n # ys" using c1 nn by (cases xs) auto
    then show ?thesis using True c1 s1(3) by simp
  next
    case False
    then have "n \<notin> set (take 1 xs)" using c1 by (cases xs) auto
    from remove_loop_spec [OF c1 assms(2) this nn] show ?thesis
      using False assms(3) s1(3) by (auto simp: upd_netif_def)
  qed
  then obtain s2 where s2: "(if netif_list s1 = n then Some (True, s1\<lparr>netif_list := ni_next (netifs s1 n)\<rparr>) else remove_loop n (netif_list s1) s1) = Some (True, s2)"
      "nchain (netifs s2) (netif_list s2) (remove1 n xs)" "netif_default s2 = netif_default s" by blast
  define s' where "s' = (if netif_default s2 = n then netif_set_default NULL s2 else s2)"
  have run: "netif_remove cleanup n s = Some s'" using nn s1(1) s2(1) by (simp add: netif_remove_def s'_def)
  have s': "netifs s' = netifs s2" "netif_list s' = netif_list s2" "netif_default s' = (if netif_default s = n then NULL else netif_default s)"
    using s2(3) by (simp_all add: s'_def netif_set_default_def)
  have notin: "n \<notin> set (remove1 n xs)" using assms(2) by simp
  have "ip_route dest s' \<noteq> Some n"
    using route_loop_spec [of s' "netif_list s'" "remove1 n xs" dest] s2(2) s' notin nn
    by (auto simp: ip_route_def find_Some_iff in_set_conv_nth split: option.split)
  moreover have "netif_find name s' \<noteq> Some n"
    using find_loop_spec [of s' "netif_list s'" "remove1 n xs"] s2(2) s' notin nn
    by (auto simp: netif_find_def find_Some_iff in_set_conv_nth split: option.split)
  ultimately show ?thesis using run s2(2) s' by auto
qed

definition demo_netif :: "addr \<Rightarrow> os_u32 \<Rightarrow> netif" where
  "demo_netif next ip = \<lparr>ni_next = next, ni_ip_addr = ip, ni_netmask = 0x00ffffff, ni_gw = 0, ni_input = 0, ni_output = 0, ni_linkoutput = 0,
     ni_state = 0, ni_dhcp = 0, ni_mtu = 1500, ni_hwaddr_len = 6, ni_hwaddr = [2, 0, 0, 0, 0, 1], ni_flags = 0x33, ni_name0 = 0x65, ni_name1 = 0x30, ni_num = 0\<rparr>"

definition net_kernel :: netkernel where
  "net_kernel = pbkernel.extend packet_kernel
     \<lparr>netifs = (\<lambda>a. if a = 0x7000 then demo_netif 0x7100 0x0201a8c0 else demo_netif NULL 0x0202a8c0), netif_list = 0x7000, netif_default = 0x7100,
      netif_num = 2, tcp_pcbs = (\<lambda>_. \<lparr>pcb_next = NULL, pcb_local_ip = 0\<rparr>), tcp_active_pcbs = NULL, tcp_listen_pcbs = NULL\<rparr>"

lemma net_kernel_list: "nchain (netifs net_kernel) (netif_list net_kernel) [0x7000, 0x7100]"
  by (simp add: net_kernel_def pbkernel.extend_def demo_netif_def NULL_def)

theorem ip_route_first_match_witness: "ip_route 0x0502a8c0 net_kernel = Some 0x7100"
  using ip_route_first_match [OF net_kernel_list, of "0x0502a8c0"]
  by (auto simp: net_kernel_def pbkernel.extend_def demo_netif_def routes_def netif_is_up_def has_flag_def NETIF_FLAG_UP_def ip_addr_netcmp_def)

theorem netif_remove_forgets_witness:
  "\<exists>s'. netif_remove (\<lambda>n. Some) 0x7000 net_kernel = Some s' \<and> nchain (netifs s') (netif_list s') [0x7100]"
proof -
  have "distinct [0x7000, 0x7100 :: addr]" "0x7000 \<in> set [0x7000, 0x7100 :: addr]" "leaves_netifs ((\<lambda>n. Some) :: addr \<Rightarrow> netkernel \<Rightarrow> netkernel option)"
    by (simp_all add: leaves_netifs_def)
  from netif_remove_forgets [OF net_kernel_list this] show ?thesis by auto
qed

end
