(* ===== verification/Netport.thy ===== *)
theory Netport
  imports Netif
begin

text \<open>
  The port between the IP stack and the kernel, \<^verbatim>\<open>hwutil/net/port\<close>: packing a frame into a packet and back (\<^verbatim>\<open>ippkg.c\<close>), the interface of a network
  controller (\<^verbatim>\<open>ipport.c\<close>) and its receive thread and timer (\<^verbatim>\<open>ipthread.c\<close>). The functions of the controller's driver and those of the stack that are not
  modelled are members of the record \<open>lwip\<close>; function addresses and the addresses of literals and locals are arguments.
\<close>

section \<open>Packing and unpacking\<close>

partial_function (option) pack_loop :: "addr \<Rightarrow> addr \<Rightarrow> os_u16 \<Rightarrow> 'a penv" where
  "pack_loop src q offset s =
     (if q = NULL then Some s
      else let s = MEMCPY (pb_payload (pbufs s q)) (src + ucast offset) (pb_len (pbufs s q)) s
           in pack_loop src (pb_next (pbufs s q)) (offset + pb_len (pbufs s q)) s)"

definition ippkg_pack :: "(addr \<Rightarrow> 'a penv) \<Rightarrow> 'a penv \<Rightarrow> addr \<Rightarrow> os_u16 \<Rightarrow> 'a pbkernel_scheme \<Rightarrow> (addr \<times> 'a pbkernel_scheme) option" where
  "ippkg_pack custom env src len s =
     do {
       (p, s) \<leftarrow> pbuf_alloc custom env PBUF_RAW len PBUF_POOL s;
       s \<leftarrow> (if p \<noteq> NULL then pack_loop src p 0 s else Some s);
       Some (p, s)
     }"

partial_function (option) unpack_loop :: "addr \<Rightarrow> addr \<Rightarrow> os_u16 \<Rightarrow> os_u32 \<Rightarrow> 'a pbkernel_scheme \<Rightarrow> (os_u16 \<times> 'a pbkernel_scheme) option" where
  "unpack_loop q src offset len s =
     (if q \<noteq> NULL \<and> len \<noteq> 0
      then let bytes = (if len < ucast (pb_len (pbufs s q)) then len else ucast (pb_len (pbufs s q)));
               s = s\<lparr>mem8 := snd (memcpy (src + ucast offset) (pb_payload (pbufs s q)) bytes (mem8 s))\<rparr>
           in unpack_loop (pb_next (pbufs s q)) src (offset + ucast bytes) (len - bytes) s
      else Some (offset, s))"

definition ippkg_unpack :: "addr \<Rightarrow> addr \<Rightarrow> os_u32 \<Rightarrow> 'a pbkernel_scheme \<Rightarrow> (os_u32 \<times> 'a pbkernel_scheme) option" where
  "ippkg_unpack pbuf src len s = do { (offset, s) \<leftarrow> unpack_loop pbuf src 0 len s; Some (ucast offset, s) }"

section \<open>The interface of a controller\<close>

record ipport =
  ip_hal_rx :: addr
  ip_hal_tx :: addr
  ip_hal_init :: addr
  rx_mqd :: int
  tx_mqd :: int

record portkernel = netkernel +
  ipports :: "addr \<Rightarrow> ipport"

type_synonym 'a pkenv = "'a portkernel_scheme \<Rightarrow> 'a portkernel_scheme option"

record 's lwip =
  rx_call :: "addr \<Rightarrow> 's \<Rightarrow> (addr \<times> 's) option"
  tx_call :: "addr \<Rightarrow> addr \<Rightarrow> 's \<Rightarrow> (int \<times> 's) option"
  init_call :: "addr \<Rightarrow> addr list \<Rightarrow> 's \<Rightarrow> (int \<times> 's) option"
  input_call :: "addr \<Rightarrow> addr \<Rightarrow> addr \<Rightarrow> 's \<Rightarrow> (int \<times> 's) option"
  tcp_abort :: "addr \<Rightarrow> 's \<Rightarrow> 's option"
  etharp_gratuitous :: "addr \<Rightarrow> 's \<Rightarrow> 's option"
  dhcp_start :: "addr \<Rightarrow> 's \<Rightarrow> (int \<times> 's) option"
  tcp_tmr :: "'s \<Rightarrow> 's option"
  etharp_tmr :: "'s \<Rightarrow> 's option"
  dhcp_fine_tmr :: "'s \<Rightarrow> 's option"
  dhcp_coarse_tmr :: "'s \<Rightarrow> 's option"

definition HW_ETH_RX_BUFFER_NUM_MAX :: nat where "HW_ETH_RX_BUFFER_NUM_MAX = 4"
definition HW_ETH_RX_BUFFER_LENGTH_MAX :: os_u16 where "HW_ETH_RX_BUFFER_LENGTH_MAX = 1560"
definition ETHARP_HWADDR_LEN :: os_u8 where "ETHARP_HWADDR_LEN = 6"

definition upd_ipport :: "addr \<Rightarrow> (ipport \<Rightarrow> ipport) \<Rightarrow> 'a portkernel_scheme \<Rightarrow> 'a portkernel_scheme" where
  "upd_ipport p f s = s\<lparr>ipports := (ipports s)(p := f (ipports s p))\<rparr>"

text \<open>The member \<^verbatim>\<open>netif\<close> follows the three function pointers.\<close>

definition ipport_netif :: "addr \<Rightarrow> addr" where
  "ipport_netif p = p + 12"

text \<open>\<open>event\<close> is the address of the local variable.\<close>

definition ipport_output :: "'a portkernel_scheme lwip \<Rightarrow> 'a pkenv \<Rightarrow> addr \<Rightarrow> addr \<Rightarrow> addr \<Rightarrow> 'a portkernel_scheme \<Rightarrow>
    (int \<times> 'a portkernel_scheme) option" where
  "ipport_output lw env event n pbuf s =
     do {
       let p = ni_state (netifs s n);
       (r, s) \<leftarrow> tx_call lw (ip_hal_tx (ipports s p)) pbuf s;
       (r, s) \<leftarrow> mq_receive env (tx_mqd (ipports s p)) event s;
       Some (ERR_OK, s)
     }"

primrec rx_buffers :: "(addr \<Rightarrow> 'a penv) \<Rightarrow> 'a penv \<Rightarrow> nat \<Rightarrow> 'a pbkernel_scheme \<Rightarrow> (addr list \<times> 'a pbkernel_scheme) option" where
  "rx_buffers custom env 0 s = Some ([], s)"
| "rx_buffers custom env (Suc k) s =
     do {
       (q, s) \<leftarrow> pbuf_alloc custom env PBUF_RAW HW_ETH_RX_BUFFER_LENGTH_MAX PBUF_POOL s;
       (qs, s) \<leftarrow> rx_buffers custom env k s;
       Some (q # qs, s)
     }"

definition ipport_init :: "'a portkernel_scheme lwip \<Rightarrow> (addr \<Rightarrow> 'a pkenv) \<Rightarrow> 'a pkenv \<Rightarrow> addr \<Rightarrow> addr \<Rightarrow> addr \<Rightarrow> 'a portkernel_scheme \<Rightarrow>
    (int \<times> 'a portkernel_scheme) option" where
  "ipport_init lw custom env etharp_output output n s =
     do {
       let p = ni_state (netifs s n);
       let s = upd_netif n (\<lambda>x. x\<lparr>ni_output := etharp_output, ni_linkoutput := output, ni_hwaddr_len := ETHARP_HWADDR_LEN, ni_mtu := 1500,
                 ni_flags := NETIF_FLAG_BROADCAST OR NETIF_FLAG_ETHARP OR NETIF_FLAG_LINK_UP\<rparr>) s;
       (qs, s) \<leftarrow> rx_buffers custom env HW_ETH_RX_BUFFER_NUM_MAX s;
       (r, s) \<leftarrow> init_call lw (ip_hal_init (ipports s p)) qs s;
       Some (ERR_OK, s)
     }"

section \<open>The receive thread and the timer\<close>

definition ARP_TMR_INTERVAL :: os_u32 where "ARP_TMR_INTERVAL = 5000"
definition TCP_TMR_INTERVAL :: os_u32 where "TCP_TMR_INTERVAL = 250"
definition DHCP_FINE_TIMER_MSECS :: os_u32 where "DHCP_FINE_TIMER_MSECS = 500"
definition DHCP_COARSE_TIMER_MSECS :: os_u32 where "DHCP_COARSE_TIMER_MSECS = 60000"

definition IPTHREAD_RX_PRIORITY :: os_u8 where "IPTHREAD_RX_PRIORITY = 24"
definition IPTHREAD_RX_TICKS :: os_u8 where "IPTHREAD_RX_TICKS = 2"
definition IPTHREAD_RX_STACK_SIZE :: os_u32 where "IPTHREAD_RX_STACK_SIZE = 2048"

text \<open>
  One round of the thread. \<^verbatim>\<open>mq_receive\<close> of an empty queue returns an uninitialised variable; \<open>junk\<close> is the value it happens to have.
\<close>

definition ip_rx_round :: "'a portkernel_scheme lwip \<Rightarrow> (addr \<Rightarrow> 'a pkenv) \<Rightarrow> 'a pkenv \<Rightarrow> int \<Rightarrow> addr \<Rightarrow> addr \<Rightarrow> 'a pkenv" where
  "ip_rx_round lw custom env junk event p s =
     do {
       (r, s) \<leftarrow> mq_receive env (rx_mqd (ipports s p)) event s;
       if (case r of None \<Rightarrow> junk | Some v \<Rightarrow> v) \<noteq> 0
       then do {
         (recv_pbuf, s) \<leftarrow> rx_call lw (ip_hal_rx (ipports s p)) s;
         if recv_pbuf \<noteq> NULL
         then do {
           (err, s) \<leftarrow> input_call lw (ni_input (netifs s (ipport_netif p))) recv_pbuf (ipport_netif p) s;
           if err \<noteq> ERR_OK then do { (c, s) \<leftarrow> pbuf_free custom env recv_pbuf s; Some s } else Some s
         }
         else Some s
       }
       else Some s
     }"

text \<open>\<open>t\<close> is the address of the counter.\<close>

definition ipstk_predic_handle :: "'a portkernel_scheme lwip \<Rightarrow> addr \<Rightarrow> 'a pkenv" where
  "ipstk_predic_handle lw t s =
     do {
       let s = s\<lparr>mem32 := (mem32 s)(t := mem32 s t + 1)\<rparr>;
       s \<leftarrow> tcp_tmr lw s;
       s \<leftarrow> (if mem32 s t mod (ARP_TMR_INTERVAL div TCP_TMR_INTERVAL) = 0 then etharp_tmr lw s else Some s);
       s \<leftarrow> (if mem32 s t mod (DHCP_FINE_TIMER_MSECS div TCP_TMR_INTERVAL) = 0 then dhcp_fine_tmr lw s else Some s);
       if mem32 s t \<ge> DHCP_COARSE_TIMER_MSECS div TCP_TMR_INTERVAL
       then do { s \<leftarrow> dhcp_coarse_tmr lw s; Some (s\<lparr>mem32 := (mem32 s)(t := 0)\<rparr>) }
       else Some s
     }"

text \<open>\<open>attr\<close>, \<open>ev\<close> and \<open>spec\<close> are the uninitialised locals; a failed assertion never returns.\<close>

definition ipthrtead_init :: "'a pkenv \<Rightarrow> addr \<Rightarrow> addr \<Rightarrow> addr \<Rightarrow> addr \<Rightarrow> pthread_attr \<Rightarrow> sigevent \<Rightarrow> itimerspect \<Rightarrow> addr \<Rightarrow>
    'a portkernel_scheme \<Rightarrow> (err_t \<times> 'a portkernel_scheme) option" where
  "ipthrtead_init env exit_entry rx_entry predic t attr ev spec p s =
     (let app_sched_param = \<lparr>sp_type = PTHREAD_TYPE_KERNEL, sp_init_ticks = IPTHREAD_RX_TICKS, sp_init_prio = IPTHREAD_RX_PRIORITY\<rparr>;
          (ret, attr) = pthread_attr_setschedparam attr app_sched_param;
          (ret, attr) = pthread_attr_setstacksize attr IPTHREAD_RX_STACK_SIZE
      in do {
        (err, tid, s) \<leftarrow> pthread_create env exit_entry (Some attr) rx_entry p s;
        if err \<noteq> 0 then None
        else do {
          (err, timer, s) \<leftarrow> timer_create env 0 None s;
          if err \<noteq> 0 then None
          else do {
            let ev = ev\<lparr>sigev_notify_function := predic, sigev_value := t, sigev_notify := SIGEV_THREAD\<rparr>;
            (r, timer, s) \<leftarrow> timer_create env CLOCK_REALTIME (Some ev) s;
            if timer = 0 then None
            else let (r, s) = timer_settime timer (Some (spec\<lparr>interval_nsec := 10, value_nsec := 0\<rparr>)) NULL s
                 in Some (err, s)
          }
        }
      })"

section \<open>Creating an interface\<close>

definition ipport_system_init :: "'a portkernel_scheme \<Rightarrow> err_t \<times> 'a portkernel_scheme" where
  "ipport_system_init s = (0, upd_links (list_init Ipport_head) s)"

text \<open>Addresses the linker chooses and locals.\<close>

record portenv =
  pe_input_name :: addr
  pe_ethernet_input :: addr
  pe_etharp_output :: addr
  pe_output :: addr
  pe_exit_entry :: addr
  pe_rx_entry :: addr
  pe_predic :: addr
  pe_time :: addr
  pe_attr :: pthread_attr
  pe_mq_attr :: mq_attr
  pe_sigevent :: sigevent
  pe_itimerspect :: itimerspect
  pe_memp_num :: "nat \<Rightarrow> nat"
  pe_memp_sizes :: "nat \<Rightarrow> os_u32"
  pe_memp_memory :: addr

definition ipport_create :: "'a portkernel_scheme lwip \<Rightarrow> (addr \<Rightarrow> 'a pkenv) \<Rightarrow> 'a pkenv \<Rightarrow> portenv \<Rightarrow> addr \<Rightarrow> addr \<Rightarrow>
    os_u32 option \<Rightarrow> os_u32 option \<Rightarrow> os_u32 option \<Rightarrow> 'a portkernel_scheme \<Rightarrow> (int \<times> 'a portkernel_scheme) option" where
  "ipport_create lw custom env pe p name ipaddr netmask gw s =
     do {
       let (temp, s) = sched_suspend s;
       let s = memp_init (pe_memp_num pe) (pe_memp_sizes pe) (pe_memp_memory pe) s;
       let attr = (pe_mq_attr pe)\<lparr>mq_maxmsg := 16, mq_msgsize := 4\<rparr>;
       let flag = O_CREAT OR O_RDWR;
       (mqd, s) \<leftarrow> mq_open env (pe_input_name pe) flag flag attr s;
       let s = upd_ipport p (\<lambda>x. x\<lparr>rx_mqd := mqd\<rparr>) s;
       (mqd, s) \<leftarrow> mq_open env (pe_input_name pe) flag flag attr s;
       let s = upd_ipport p (\<lambda>x. x\<lparr>tx_mqd := mqd\<rparr>) s;
       let n = ipport_netif p;
       (r, s) \<leftarrow> netif_add (tcp_abort lw) n ipaddr netmask gw p (ipport_init lw custom env (pe_etharp_output pe) (pe_output pe))
         (pe_ethernet_input pe) s;
       let s = netif_set_default n s;
       (r, s) \<leftarrow> dhcp_start lw n s;
       s \<leftarrow> netif_set_up (etharp_gratuitous lw) n s;
       (r, s) \<leftarrow> ipthrtead_init env (pe_exit_entry pe) (pe_rx_entry pe) (pe_predic pe) (pe_time pe) (pe_attr pe) (pe_sigevent pe) (pe_itimerspect pe) p s;
       let s = upd_links (list_insert_tail Ipport_head (Ipport_node p)) s;
       let s = upd_netif n (\<lambda>x. x\<lparr>ni_name0 := mem8 s name, ni_name1 := mem8 s (name + 1)\<rparr>) s;
       Some (0, sched_recover temp s)
     }"

text \<open>The shell command \<^verbatim>\<open>ifconfig\<close>: \<^verbatim>\<open>ITOC_RS0\<close> is the lowest byte, printed four times. \<open>str_num\<close> is the address of the literal \<^verbatim>\<open>""\<close>.\<close>

definition ipport_entry :: "lnode \<Rightarrow> addr option" where
  "ipport_entry x = (case x of Ipport_node p \<Rightarrow> Some p | _ \<Rightarrow> None)"

definition ITOC_RS0 :: "os_u32 \<Rightarrow> os_u32" where
  "ITOC_RS0 x = ucast (ucast x :: os_u8)"

definition text_of :: "string \<Rightarrow> os_u8 list" where
  "text_of str = map of_char str"

definition ifconfig_one :: "'a shdriver \<Rightarrow> (os_u32 \<Rightarrow> os_u32 \<Rightarrow> int \<Rightarrow> int \<Rightarrow> os_u8 \<Rightarrow> os_u32 \<Rightarrow> os_u8 list) \<Rightarrow> addr \<Rightarrow> addr \<Rightarrow> addr \<Rightarrow> netif \<Rightarrow>
    'a shkernel_scheme \<Rightarrow> 'a shkernel_scheme option" where
  "ifconfig_one drv flt loc str_num d x s =
     do {
       let ip = ITOC_RS0 (ni_ip_addr x);
       let mk = ITOC_RS0 (ni_netmask x);
       let gw = ITOC_RS0 (ni_gw x);
       (r, s) \<leftarrow> shell_printk drv flt loc d ([13, 10] @ text_of ''%c%c%s -- %d.%d.%d.%d'')
         [ucast (ni_name0 x), ucast (ni_name1 x), str_num, ip, ip, ip, ip] s;
       (r, s) \<leftarrow> shell_printk drv flt loc d ([13, 10] @ text_of ''%-2s    %d.%d.%d.%d'') [str_num, mk, mk, mk, mk] s;
       (r, s) \<leftarrow> shell_printk drv flt loc d ([13, 10] @ text_of ''%-2s    %d.%d.%d.%d'' @ [13, 10]) [str_num, gw, gw, gw, gw] s;
       Some s
     }"

partial_function (option) ifconfig_loop :: "'a portkernel_ext netkernel_ext pbkernel_ext devkernel_ext shdriver \<Rightarrow>
    (os_u32 \<Rightarrow> os_u32 \<Rightarrow> int \<Rightarrow> int \<Rightarrow> os_u8 \<Rightarrow> os_u32 \<Rightarrow> os_u8 list) \<Rightarrow> addr \<Rightarrow> addr \<Rightarrow> addr \<Rightarrow> lnode \<Rightarrow> 'a pkenv" where
  "ifconfig_loop drv flt loc str_num d node s =
     (if node = Ipport_head then Some s
      else do {
        p \<leftarrow> ipport_entry node;
        s \<leftarrow> ifconfig_one drv flt loc str_num d (netifs s (ipport_netif p)) s;
        ifconfig_loop drv flt loc str_num d (next_of (links s) node) s
      })"

definition ifconfig :: "'a portkernel_ext netkernel_ext pbkernel_ext devkernel_ext shdriver \<Rightarrow>
    (os_u32 \<Rightarrow> os_u32 \<Rightarrow> int \<Rightarrow> int \<Rightarrow> os_u8 \<Rightarrow> os_u32 \<Rightarrow> os_u8 list) \<Rightarrow> addr \<Rightarrow> addr \<Rightarrow> addr \<Rightarrow> 'a pkenv" where
  "ifconfig drv flt loc str_num d s = ifconfig_loop drv flt loc str_num d (next_of (links s) Ipport_head) s"

section \<open>Packing is the filling of a packet\<close>

lemma pack_loop_take:
  "pchain (pbufs s) p xs \<Longrightarrow> unat off + plen (pbufs s) xs < 65536 \<Longrightarrow>
   pack_loop src p off s = pbuf_take_loop p src (of_nat (plen (pbufs s) xs)) off s"
proof (induction xs arbitrary: p off s)
  case Nil
  then show ?case by (simp add: pack_loop.simps [of src NULL] pbuf_take_loop.simps [of _ _ 0])
next
  case (Cons a xs)
  let ?f = "pbufs s" and ?l = "pb_len (pbufs s a)"
  define s1 where "s1 = MEMCPY (pb_payload (?f a)) (src + ucast off) ?l s"
  have a: "p = a" "a \<noteq> NULL" "pchain ?f (pb_next (?f a)) xs" using Cons.prems(1) by auto
  have f1: "pbufs s1 = ?f" by (simp add: s1_def)
  have run: "pack_loop src p off s = pack_loop src (pb_next (?f a)) (off + ?l) s1"
    using a by (simp add: pack_loop.simps [of src a] s1_def Let_def)
  have add: "unat (off + ?l) = unat off + unat ?l" using Cons.prems(2) by (intro unat_add_16) simp
  have IH: "pack_loop src (pb_next (?f a)) (off + ?l) s1 = pbuf_take_loop (pb_next (?f a)) src (of_nat (plen ?f xs)) (off + ?l) s1"
    using Cons.IH [of s1 "pb_next (?f a)" "off + ?l"] a(3) Cons.prems(2) by (simp add: f1 add)
  show ?case
  proof (cases "?l = 0 \<and> plen ?f xs = 0")
    case True
    then have "s1 = s" by (simp add: s1_def MEMCPY_s)
    then show ?thesis using run IH True a(1) by (simp add: pbuf_take_loop.simps [of _ _ 0])
  next
    case False
    let ?n = "of_nat (plen ?f (a # xs)) :: os_u16"
    have n: "unat ?n = unat ?l + plen ?f xs" using Cons.prems(2) by (simp add: unsigned_of_nat take_bit_nat_eq_self del: of_nat_add)
    then have "?n \<noteq> 0" using False by (metis add_is_0 unat_0 unat_eq_zero)
    moreover have "(if ?n > ?l then ?l else ?n) = ?l" using n by (simp add: word_less_nat_alt word_unat_eq_iff)
    moreover have "?n - ?l = of_nat (plen ?f xs)" by simp
    ultimately have "pbuf_take_loop p src ?n off s = pbuf_take_loop (pb_next (?f a)) src (of_nat (plen ?f xs)) (off + ?l) s1"
      using a(1,2) by (simp only: pbuf_take_loop.simps [of a src ?n off s]) (simp add: Let_def s1_def)
    then show ?thesis using run IH by simp
  qed
qed

lemma unpack_loop_copy:
  "pchain (pbufs s) q xs \<Longrightarrow> plen (pbufs s) xs < 65536 \<Longrightarrow>
   unpack_loop q dst off n s = pbuf_copy_partial_loop q dst (of_nat (min (unat n) (plen (pbufs s) xs))) 0 off off s"
proof (induction xs arbitrary: q off n s)
  case Nil
  then show ?case by (simp add: unpack_loop.simps [of NULL] pbuf_copy_partial_loop.simps [of _ _ 0])
next
  case (Cons a xs)
  let ?f = "pbufs s" and ?l = "pb_len (pbufs s a)"
  have a: "q = a" "a \<noteq> NULL" "pchain ?f (pb_next (?f a)) xs" using Cons.prems(1) by auto
  show ?case
  proof (cases "n = 0")
    case True
    then show ?thesis by (simp add: unpack_loop.simps [of q dst off 0] pbuf_copy_partial_loop.simps [of _ _ 0])
  next
    case n0: False
    define b where "b = (if n < ucast ?l then n else ucast ?l)"
    have b: "unat b = min (unat n) (unat ?l)" by (auto simp: b_def word_less_nat_alt unat_ucast_16_32)
    then have b16: "unat (ucast b :: os_u16) = unat b" using unat_16 [of ?l] by (simp add: unsigned_ucast_eq take_bit_nat_eq_self)
    define s1 where "s1 = s\<lparr>mem8 := memcpy_loop (unat b) (dst + ucast off) (pb_payload (?f a)) (mem8 s)\<rparr>"
    have run: "unpack_loop q dst off n s = unpack_loop (pb_next (?f a)) dst (off + ucast b) (n - b) s1"
      using a n0 by (simp add: unpack_loop.simps [of a dst off n] s1_def b_def memcpy_def Let_def)
    have nb: "unat (n - b) = unat n - unat b" using b by (subst unat_sub) (simp_all add: word_le_nat_alt)
    have IH: "unpack_loop (pb_next (?f a)) dst (off + ucast b) (n - b) s1 =
        pbuf_copy_partial_loop (pb_next (?f a)) dst (of_nat (min (unat (n - b)) (plen ?f xs))) 0 (off + ucast b) (off + ucast b) s1"
      using Cons.IH [of s1 "pb_next (?f a)"] a(3) Cons.prems(2) by (simp add: s1_def)
    define k where "k = min (unat n) (plen ?f (a # xs))"
    have k: "k < 65536" "unat (of_nat k :: os_u16) = k"
      using Cons.prems(2) by (auto simp: k_def unsigned_of_nat take_bit_nat_eq_self)
    have rest: "k - unat b = min (unat (n - b)) (plen ?f xs)" "unat b \<le> k" using b unfolding nb k_def by auto
    show ?thesis
    proof (cases "k = 0")
      case True
      then have "unat b = 0" using rest by simp
      then have "b = 0" "s1 = s" by (simp_all only: unat_eq_zero, simp add: s1_def)
      then show ?thesis
        unfolding k_def [symmetric] using run IH rest True by (simp add: pbuf_copy_partial_loop.simps [of _ _ 0])
    next
      case False
      then have "(of_nat k :: os_u16) \<noteq> 0" using k(2) by (metis unat_0)
      moreover have "(if ?l - 0 > of_nat k then of_nat k else ?l - 0) = ucast b"
        using b k by (auto simp: word_unat_eq_iff b16 word_less_nat_alt k_def)
      moreover have "of_nat k - ucast b = (of_nat (k - unat b) :: os_u16)"
        using rest(2) by (simp add: of_nat_diff)
      ultimately have "pbuf_copy_partial_loop q dst (of_nat k) 0 off off s =
          pbuf_copy_partial_loop (pb_next (?f a)) dst (of_nat (k - unat b)) 0 (off + ucast b) (off + ucast b) s1"
        using a(1,2) by (simp only: pbuf_copy_partial_loop.simps [of a dst "of_nat k" 0 off off s]) (simp add: Let_def s1_def MEMCPY_s b16 split del: if_split)
      then show ?thesis using run IH rest(1) by (simp add: k_def)
    qed
  qed
qed

lemma in_element_span: "in_element f a \<Longrightarrow> element a \<Longrightarrow> pspan f a \<subseteq> span a 1516"
proof -
  assume e: "in_element f a" "element a"
  define d where "d = unat (pb_payload (f a)) - unat a"
  have d: "unat (pb_payload (f a)) = unat a + d" "d + unat (pb_len (f a)) \<le> 1516" using e by (auto simp: in_element_def d_def)
  have "pb_payload (f a) = of_nat (unat (pb_payload (f a)))" by simp
  also have "\<dots> = a + of_nat d" unfolding d(1) by simp
  finally have "pb_payload (f a) = a + of_nat d" .
  then have "pspan f a = span (a + of_nat d) (unat (pb_len (f a)))" by (simp add: pspan_def)
  then show ?thesis using span_add [of a d "unat (pb_len (f a))"] span_mono [OF d(2), of a] by auto
qed

text \<open>The elements of a pool are different pieces of memory.\<close>

definition separate :: "addr list \<Rightarrow> bool" where
  "separate fl \<longleftrightarrow> (\<forall>a \<in> set fl. \<forall>b \<in> set fl. a \<noteq> b \<longrightarrow> span a 1516 \<inter> span b 1516 = {})"

lemma same_but_mem8: "same_but A s s' \<Longrightarrow> mem8 s' = mem8 s"
  using arg_cong [OF same_but_eq, of A s s' mem8] by simp

text \<open>A packet of \<open>len\<close> bytes from the pool, filled and read.\<close>

lemma pack_unpack:
  assumes "pchain (pbufs s) p xs" and "p \<noteq> NULL" and "apart (pbufs s) xs" and "plen (pbufs s) xs = unat len"
    and "\<And>a. a \<in> set xs \<Longrightarrow> pspan (pbufs s) a \<inter> (span src (unat len) \<union> span dst (min (unat n) (unat len))) = {}"
  defines "c \<equiv> min (unat n) (unat (len :: os_u16))"
  shows "\<exists>m1 m. pack_loop src p 0 s = Some (s\<lparr>mem8 := m1\<rparr>) \<and> ippkg_unpack p dst n (s\<lparr>mem8 := m1\<rparr>) = Some (of_nat c, s\<lparr>mem8 := m\<rparr>) \<and>
    bytes_at m dst c = take c (bytes_at (mem8 s) src (unat len))"
proof -
  have "\<exists>m. pbuf_take_loop p src len 0 s = Some (s\<lparr>mem8 := m\<rparr>) \<and>
      pdata (pbufs s) m xs = bytes_at (mem8 s) (src + ucast (0 :: os_u16)) (unat len) @ drop (unat len) (pdata (pbufs s) (mem8 s) xs) \<and>
      (\<forall>x. (\<forall>a \<in> set xs. x \<notin> pspan (pbufs s) a) \<longrightarrow> m x = mem8 s x)"
    using assms(4,5) unat_16 [of len] by (intro take_loop_spec assms(1,3)) auto
  then obtain m1 where m1: "pbuf_take_loop p src len 0 s = Some (s\<lparr>mem8 := m1\<rparr>)" "pdata (pbufs s) m1 xs = bytes_at (mem8 s) src (unat len)"
    using assms(4) by auto
  have pk: "pack_loop src p 0 s = Some (s\<lparr>mem8 := m1\<rparr>)"
    using pack_loop_take [OF assms(1), of 0 src] unat_16 [of len] m1(1) assms(4) by simp
  define s1 where "s1 = s\<lparr>mem8 := m1\<rparr>"
  have c: "c < 65536" "unat (of_nat c :: os_u16) = c" "c = min c (unat len)"
    using unat_16 [of len] by (auto simp: c_def unsigned_of_nat take_bit_nat_eq_self)
  have "\<exists>m. pbuf_copy_partial_loop p dst (of_nat c) 0 0 0 s1 =
        Some (0 + of_nat (min (unat (of_nat c :: os_u16)) (plen (pbufs s1) xs - unat (0 :: os_u16))), s1\<lparr>mem8 := m\<rparr>) \<and>
      bytes_at m (dst + ucast (0 :: os_u16)) (min (unat (of_nat c :: os_u16)) (plen (pbufs s1) xs - unat (0 :: os_u16))) =
        take (min (unat (of_nat c :: os_u16)) (plen (pbufs s1) xs - unat (0 :: os_u16))) (drop (unat (0 :: os_u16)) (pdata (pbufs s1) (mem8 s1) xs)) \<and>
      (\<forall>x. x \<notin> span (dst + ucast (0 :: os_u16)) (unat (of_nat c :: os_u16)) \<longrightarrow> m x = mem8 s1 x)"
    by (rule copy_partial_spec) (use assms(1,5) c in \<open>auto simp: s1_def c_def [symmetric]\<close>)
  then obtain m where m: "pbuf_copy_partial_loop p dst (of_nat c) 0 0 0 s1 = Some (of_nat c, s\<lparr>mem8 := m\<rparr>)"
      "bytes_at m dst c = take c (bytes_at (mem8 s) src (unat len))"
    using c m1(2) assms(4) by (auto simp: s1_def)
  have "unpack_loop p dst 0 n s1 = Some (of_nat c, s\<lparr>mem8 := m\<rparr>)"
    using unpack_loop_copy [of s1 p xs dst 0 n] assms(1,4) unat_16 [of len] m(1) by (simp add: s1_def c_def)
  moreover have "ucast (of_nat c :: os_u16) = (of_nat c :: os_u32)"
    using c(1,2) by (simp add: word_unat_eq_iff unat_ucast_16_32 unsigned_of_nat [where 'b = 32] take_bit_nat_eq_self)
  ultimately have "ippkg_unpack p dst n s1 = Some (of_nat c, s\<lparr>mem8 := m\<rparr>)" by (simp add: ippkg_unpack_def)
  then show ?thesis using pk m(2) by (auto simp: s1_def)
qed

section \<open>Properties\<close>

text \<open>
  What a frame is packed into gives the frame back. If the pool has enough elements for \<open>len\<close> bytes, \<^verbatim>\<open>ippkg_pack\<close> returns a packet made of the
  first elements of the pool, and \<^verbatim>\<open>ippkg_unpack\<close> of it with room for \<open>n\<close> bytes returns the smaller of \<open>n\<close> and \<open>len\<close> and copies that many bytes of the frame; if
  not, \<^verbatim>\<open>ippkg_pack\<close> returns NULL, the pool has all its elements back and the memory is unchanged.
\<close>

theorem ippkg_roundtrip:
  fixes len :: os_u16
  assumes "pool MEMP_PBUF_POOL s fl" and "pool MEMP_PBUF s f7" and "set fl \<inter> set f7 = {}" and "separate fl"
    and "\<forall>a \<in> set fl. element a \<and> pb_flags (pbufs s a) AND PBUF_FLAG_IS_CUSTOM = 0"
    and "\<forall>a \<in> set fl. span a 1516 \<inter> (span src (unat len) \<union> span dst (min (unat n) (unat len))) = {}"
  shows "let k = length (pool_lens 0 (unat len)); c = min (unat n) (unat len)
    in if k \<le> length fl
       then \<exists>s1 m. ippkg_pack custom env src len s = Some (hd fl, s1) \<and> pchain (pbufs s1) (hd fl) (take k fl) \<and>
         pool MEMP_PBUF_POOL s1 (drop k fl) \<and>
         ippkg_unpack (hd fl) dst n s1 = Some (of_nat c, s1\<lparr>mem8 := m\<rparr>) \<and>
         bytes_at m dst c = take c (bytes_at (mem8 s) src (unat len))
       else \<exists>s1. ippkg_pack custom env src len s = Some (NULL, s1) \<and> pool MEMP_PBUF_POOL s1 (rev fl) \<and> mem8 s1 = mem8 s"
proof -
  have raw: "pbuf_offset PBUF_RAW = Some 0"
    by (simp add: pbuf_offset_def PBUF_RAW_def PBUF_TRANSPORT_def PBUF_IP_def PBUF_LINK_def)
  define ns where "ns = pool_lens 0 (unat len)"
  define xs where "xs = take (length ns) fl"
  define c where "c = min (unat n) (unat len)"
  have el: "\<And>a. a \<in> set fl \<Longrightarrow> element a" "\<And>a. a \<in> set fl \<Longrightarrow> pb_flags (pbufs s a) AND PBUF_FLAG_IS_CUSTOM = 0" using assms(5) by auto
  show ?thesis
  proof (cases "length ns \<le> length fl")
    case True
    obtain s0 where al: "pbuf_alloc custom env PBUF_RAW len PBUF_POOL s = Some (hd fl, s0)"
        "pchain (pbufs s0) (hd fl) xs" "map (\<lambda>a. unat (pb_len (pbufs s0 a))) xs = ns" "\<forall>a \<in> set xs. in_element (pbufs s0) a"
        "pool MEMP_PBUF_POOL s0 (drop (length ns) fl)" "same_but (set xs) s s0"
      using alloc_ok [OF raw assms(1-3) el(1), of len custom env] True unfolding ns_def xs_def by blast
    have m0: "mem8 s0 = mem8 s" using same_but_mem8 [OF al(6)] .
    have len: "plen (pbufs s0) xs = unat len"
      using al(3) sum_list_pool_lens [of 0 "unat len"] unfolding plen_def ns_def by (simp add: comp_def)
    have sub: "set xs \<subseteq> set fl" by (auto simp: xs_def dest: in_set_takeD)
    have ps: "pspan (pbufs s0) a \<subseteq> span a 1516" if "a \<in> set xs" for a using in_element_span al(4) el(1) sub that by blast
    have ap: "apart (pbufs s0) xs" using ps assms(4) sub unfolding apart_def separate_def by blast
    have hd: "hd fl \<noteq> NULL" using al(2) True by (cases xs) (auto simp: xs_def ns_def pool_lens_def Let_def)
    have dis: "pspan (pbufs s0) a \<inter> (span src (unat len) \<union> span dst (min (unat n) (unat len))) = {}" if "a \<in> set xs" for a
      using ps [OF that] assms(6) sub that by blast
    from pack_unpack [OF al(2) hd ap len dis] obtain m1 m where
      m: "pack_loop src (hd fl) 0 s0 = Some (s0\<lparr>mem8 := m1\<rparr>)" "ippkg_unpack (hd fl) dst n (s0\<lparr>mem8 := m1\<rparr>) = Some (of_nat c, s0\<lparr>mem8 := m\<rparr>)"
      "bytes_at m dst c = take c (bytes_at (mem8 s) src (unat len))"
      unfolding c_def m0 by blast
    have "ippkg_pack custom env src len s = Some (hd fl, s0\<lparr>mem8 := m1\<rparr>)" using al(1) hd m(1) by (simp add: ippkg_pack_def)
    then show ?thesis
      using True m al(2,5) unfolding Let_def ns_def [symmetric] c_def [symmetric] xs_def [symmetric]
      by (auto intro!: exI [of _ "s0\<lparr>mem8 := m1\<rparr>"] exI [of _ m] simp: pool_def)
  next
    case False
    then obtain s1 where "pbuf_alloc custom env PBUF_RAW len PBUF_POOL s = Some (NULL, s1)" "pool MEMP_PBUF_POOL s1 (rev fl)" "same_but (set fl) s s1"
      using alloc_fails [OF raw assms(1-3) el(2), of len custom env] unfolding ns_def by auto
    then show ?thesis using False same_but_mem8 unfolding ns_def by (auto simp: ippkg_pack_def Let_def)
  qed
qed

theorem ippkg_roundtrip_witness:
  "\<exists>s1 m. ippkg_pack no_custom Some 0x30000 2000 pb_kernel = Some (0x10000, s1) \<and>
     ippkg_unpack 0x10000 0x40000 3000 s1 = Some (2000, s1\<lparr>mem8 := m\<rparr>) \<and> bytes_at m 0x40000 2000 = bytes_at (mem8 pb_kernel) 0x30000 2000"
proof -
  have lens: "pool_lens 0 2000 = [1500, 500]"
    by (simp add: pool_lens_def pool_room_def LWIP_MEM_ALIGN_SIZE_def PBUF_POOL_BUFSIZE_ALIGNED_def Let_def chunks_pos)
  have sep: "separate [0x10000, 0x11000]"
    using span_apart [of "0x10000" 1516 "0x11000" 1516] by (auto simp: separate_def)
  have dis: "\<forall>a \<in> set [0x10000, 0x11000]. span a 1516 \<inter> (span 0x30000 (unat (2000 :: os_u16)) \<union> span 0x40000 (min (unat (3000 :: os_u32)) (unat (2000 :: os_u16)))) = {}"
    using span_apart [of "0x10000" 1516 "0x30000" 2000] span_apart [of "0x11000" 1516 "0x30000" 2000]
      span_apart [of "0x10000" 1516 "0x40000" 2000] span_apart [of "0x11000" 1516 "0x40000" 2000] by auto
  have "set [0x10000, 0x11000 :: addr] \<inter> set [] = {}" by simp
  from ippkg_roundtrip [OF pb_kernel_facts(1,2) this sep pb_kernel_facts(3) dis, of no_custom Some] show ?thesis
    by (auto simp: lens Let_def)
qed

text \<open>What the timers of the protocols have to leave alone: the counter. They return.\<close>

definition keeps_counter :: "addr \<Rightarrow> ('a portkernel_scheme \<Rightarrow> 'a portkernel_scheme option) \<Rightarrow> bool" where
  "keeps_counter t f \<longleftrightarrow> (\<forall>s. \<exists>s'. f s = Some s' \<and> mem32 s' t = mem32 s t)"

text \<open>The timers that are due at the \<open>k\<close>-th call, in the order of the code.\<close>

definition due_tmrs :: "'a portkernel_scheme lwip \<Rightarrow> nat \<Rightarrow> ('a portkernel_scheme \<Rightarrow> 'a portkernel_scheme option) list" where
  "due_tmrs lw k = [tcp_tmr lw] @ (if 20 dvd k then [etharp_tmr lw] else []) @ (if 2 dvd k then [dhcp_fine_tmr lw] else []) @
     (if 240 dvd k then [dhcp_coarse_tmr lw] else [])"

definition set_counter :: "addr \<Rightarrow> nat \<Rightarrow> 'a portkernel_scheme \<Rightarrow> 'a portkernel_scheme" where
  "set_counter t c s = s\<lparr>mem32 := (mem32 s)(t := of_nat c)\<rparr>"

lemma set_counter_same: "mem32 s t = of_nat c \<Longrightarrow> set_counter t c s = s"
  by (simp add: set_counter_def fun_upd_idem)

lemma mod_of_nat_32: "c < 1000 \<Longrightarrow> 0 < d \<Longrightarrow> d < 1000 \<Longrightarrow> (of_nat c mod of_nat d = (0 :: os_u32)) \<longleftrightarrow> d dvd c"
  by (simp add: word_unat_eq_iff unat_mod unsigned_of_nat take_bit_nat_eq_self dvd_eq_mod_eq_0)

lemma predic_handle_step:
  assumes "mem32 s t = of_nat c" and "c < 240"
    and "keeps_counter t (tcp_tmr lw)" and "keeps_counter t (etharp_tmr lw)" and "keeps_counter t (dhcp_fine_tmr lw)" and "keeps_counter t (dhcp_coarse_tmr lw)"
  shows "\<exists>s'. ipstk_predic_handle lw t s = Some s' \<and> mem32 s' t = of_nat (Suc c mod 240) \<and>
    map_option (set_counter t (Suc c mod 240)) (fold_option id (due_tmrs lw (Suc c)) (set_counter t (Suc c) s)) = Some s'"
proof -
  have k: "\<exists>s'. f s = Some s' \<and> mem32 s' t = mem32 s t" if "keeps_counter t f" for f and s :: "'a portkernel_scheme"
    using that unfolding keeps_counter_def by blast
  let ?c = "of_nat (Suc c) :: os_u32"
  obtain s1 where s1: "tcp_tmr lw (set_counter t (Suc c) s) = Some s1" "mem32 s1 t = ?c"
    using k [OF assms(3), of "set_counter t (Suc c) s"] by (auto simp: set_counter_def)
  obtain s2 where s2: "(if 20 dvd Suc c then etharp_tmr lw s1 else Some s1) = Some s2" "mem32 s2 t = ?c"
    using k [OF assms(4), of s1] s1(2) by (cases "20 dvd Suc c") auto
  obtain s3 where s3: "(if 2 dvd Suc c then dhcp_fine_tmr lw s2 else Some s2) = Some s3" "mem32 s3 t = ?c"
    using k [OF assms(5), of s2] s2(2) by (cases "2 dvd Suc c") auto
  obtain s4 where s4: "dhcp_coarse_tmr lw s3 = Some s4" "mem32 s4 t = ?c" using k [OF assms(6), of s3] s3(2) by auto
  have md: "?c mod 20 = 0 \<longleftrightarrow> 20 dvd Suc c" "?c mod 2 = 0 \<longleftrightarrow> 2 dvd Suc c"
    using mod_of_nat_32 [of "Suc c" 20] mod_of_nat_32 [of "Suc c" 2] assms(2) by simp_all
  have ge: "?c \<ge> 240 \<longleftrightarrow> Suc c = 240" "240 dvd Suc c \<longleftrightarrow> Suc c = 240"
    using assms(2) by (auto simp: word_le_nat_alt unsigned_of_nat take_bit_nat_eq_self dvd_imp_le simp del: of_nat_Suc dest: dvd_imp_le)
  have start: "s\<lparr>mem32 := (mem32 s)(t := mem32 s t + 1)\<rparr> = set_counter t (Suc c) s"
    using assms(1) by (simp add: set_counter_def add.commute)
  have run: "ipstk_predic_handle lw t s = Some (if Suc c = 240 then set_counter t 0 s4 else s3)"
    unfolding ipstk_predic_handle_def Let_def start
    using s1 s2 s3 s4 md ge by (simp add: ARP_TMR_INTERVAL_def TCP_TMR_INTERVAL_def DHCP_FINE_TIMER_MSECS_def DHCP_COARSE_TIMER_MSECS_def set_counter_def del: of_nat_Suc)
  have "fold_option id (due_tmrs lw (Suc c)) (set_counter t (Suc c) s) = Some (if Suc c = 240 then s4 else s3)"
    using s1(1) s2(1) s3(1) s4(1) ge(2) by (auto simp: due_tmrs_def split: if_splits)
  then show ?thesis
    using run s3(2) s4(2) set_counter_same [OF s3(2)] assms(2) by (auto simp: set_counter_def)
qed

primrec predic_calls :: "'a portkernel_scheme lwip \<Rightarrow> addr \<Rightarrow> nat \<Rightarrow> 'a pkenv" where
  "predic_calls lw t 0 s = Some s"
| "predic_calls lw t (Suc k) s = do { s \<leftarrow> predic_calls lw t k s; ipstk_predic_handle lw t s }"

lemma due_tmrs_mod: "due_tmrs lw (Suc (k mod 240)) = due_tmrs lw (Suc k)"
proof -
  have d: "d dvd Suc (k mod 240) \<longleftrightarrow> d dvd Suc k" if "d dvd 240" for d
  proof -
    have "Suc k = 240 * (k div 240) + Suc (k mod 240)" by simp
    moreover have "d dvd 240 * (k div 240)" using that by simp
    ultimately show ?thesis by (metis dvd_add_right_iff)
  qed
  have "(20 :: nat) dvd 240" "(2 :: nat) dvd 240" "(240 :: nat) dvd 240" by simp_all
  then show ?thesis by (simp only: due_tmrs_def d)
qed

text \<open>
  The protocol timers run at their rates for ever. Called once per 250 ms from a counter of 0, \<^verbatim>\<open>ipstk_predic_handle\<close> always returns; after \<open>k\<close> calls the counter is \<open>k mod 240\<close>, and call
  \<open>k + 1\<close> runs exactly the TCP timer, the ARP timer if it is a multiple of 20 (5 s), the fine DHCP timer if it is a multiple of 2 (500 ms) and the coarse DHCP timer if it is a multiple
  of 240 (60 s), in this order, provided the timers themselves return and leave the counter alone.
\<close>

theorem ip_timers_periodic:
  assumes "keeps_counter t (tcp_tmr lw)" and "keeps_counter t (etharp_tmr lw)" and "keeps_counter t (dhcp_fine_tmr lw)" and "keeps_counter t (dhcp_coarse_tmr lw)"
    and "mem32 s t = 0"
  shows "\<exists>s' s''. predic_calls lw t k s = Some s' \<and> mem32 s' t = of_nat (k mod 240) \<and> ipstk_predic_handle lw t s' = Some s'' \<and>
    map_option (set_counter t (Suc k mod 240)) (fold_option id (due_tmrs lw (Suc k)) (set_counter t (Suc (k mod 240)) s')) = Some s''"
proof -
  have step: "\<exists>s''. ipstk_predic_handle lw t s' = Some s'' \<and> mem32 s'' t = of_nat (Suc k mod 240) \<and>
      map_option (set_counter t (Suc k mod 240)) (fold_option id (due_tmrs lw (Suc k)) (set_counter t (Suc (k mod 240)) s')) = Some s''"
    if "mem32 s' t = of_nat (k mod 240)" for s' k
    using predic_handle_step [OF that _ assms(1-4)] by (simp add: due_tmrs_mod mod_Suc_eq del: of_nat_Suc)
  have "\<exists>s'. predic_calls lw t k s = Some s' \<and> mem32 s' t = of_nat (k mod 240)"
  proof (induction k)
    case 0
    then show ?case using assms(5) by simp
  next
    case (Suc k)
    then obtain s' where "predic_calls lw t k s = Some s'" "mem32 s' t = of_nat (k mod 240)" by blast
    then show ?case using step [of s' k] by auto
  qed
  then show ?thesis using step [of _ k] by blast
qed

definition demo_lwip :: "portkernel lwip" where
  "demo_lwip = \<lparr>rx_call = (\<lambda>f s. Some (NULL, s)), tx_call = (\<lambda>f p s. Some (0, s)), init_call = (\<lambda>f qs s. Some (0, s)),
     input_call = (\<lambda>f p n s. Some (0, s)), tcp_abort = (\<lambda>p. Some), etharp_gratuitous = (\<lambda>n. Some), dhcp_start = (\<lambda>n s. Some (0, s)),
     tcp_tmr = (\<lambda>s. Some (s\<lparr>local_time := local_time s + 1\<rparr>)), etharp_tmr = Some, dhcp_fine_tmr = Some, dhcp_coarse_tmr = Some\<rparr>"

definition port_kernel :: portkernel where
  "port_kernel = (netkernel.extend net_kernel \<lparr>ipports = (\<lambda>_. \<lparr>ip_hal_rx = 0, ip_hal_tx = 0, ip_hal_init = 0, rx_mqd = 0, tx_mqd = 0\<rparr>)\<rparr>)\<lparr>mem32 := \<lambda>_. 0\<rparr>"

theorem ip_timers_periodic_witness:
  "\<exists>s' s''. predic_calls demo_lwip 0x900 479 port_kernel = Some s' \<and> mem32 s' 0x900 = of_nat (479 mod 240) \<and>
     ipstk_predic_handle demo_lwip 0x900 s' = Some s'' \<and>
     map_option (set_counter 0x900 (Suc 479 mod 240)) (fold_option id (due_tmrs demo_lwip (Suc 479)) (set_counter 0x900 (Suc (479 mod 240)) s')) = Some s''"
proof -
  have "keeps_counter 0x900 (tcp_tmr demo_lwip)" "keeps_counter 0x900 (etharp_tmr demo_lwip)" "keeps_counter 0x900 (dhcp_fine_tmr demo_lwip)"
    "keeps_counter 0x900 (dhcp_coarse_tmr demo_lwip)" "mem32 port_kernel 0x900 = 0"
    by (simp_all add: keeps_counter_def demo_lwip_def port_kernel_def)
  from ip_timers_periodic [OF this, of 479] show ?thesis .
qed

lemma ipthrtead_init_asserts: "ipthrtead_init env exit_entry rx_entry predic t attr ev spec p s = None"
  by (simp add: ipthrtead_init_def timer_create_def CLOCK_REALTIME_def EINVAL_def split: prod.split Option.bind_split)

text \<open>
  Bringing up a network interface never ends: before it creates the timer of the stack, \<^verbatim>\<open>ipthrtead_init\<close> calls \<^verbatim>\<open>timer_create\<close> without an event, which \<^verbatim>\<open>timer_create\<close> refuses with
  \<^verbatim>\<open>-EINVAL\<close>, and asserts that this call succeeded. Whatever the state and whatever the driver and the stack do, \<^verbatim>\<open>ipthrtead_init\<close> and with it \<^verbatim>\<open>ipport_create\<close> do not return.
\<close>

theorem ipport_create_never_returns:
  "ipthrtead_init env exit_entry rx_entry predic t attr ev spec p s = None \<and>
   ipport_create lw custom env' pe p' name ipaddr netmask gw s' = None"
  by (simp add: ipport_create_def ipthrtead_init_asserts Let_def split: prod.split Option.bind_split)

end
