(* ===== verification/Socket.thy ===== *)
theory Socket
  imports Netport
begin

text \<open>
  Sockets, \<^verbatim>\<open>hwutil/net/socket/source/socket.c\<close>, on the protocol control blocks of the IP stack, whose functions are the members of the record \<open>tcpip\<close>. A handle is the
  address of a \<^verbatim>\<open>struct socket\<close>. The callbacks send a message of one zero byte to the socket's queue; \<^verbatim>\<open>_read\<close> takes the bytes of the local variable it received
  into, of which the message has set only the first, for the address of the packet.
\<close>

definition SOCK_STREAM :: int where "SOCK_STREAM = 1"
definition SOCK_PACKET :: int where "SOCK_PACKET = 2"
definition TCP_WRITE_FLAG_COPY :: os_u8 where "TCP_WRITE_FLAG_COPY = 1"

record socket =
  so_domain :: int
  so_type :: int
  so_protocol :: int
  so_pcb :: addr
  so_rx_mqd :: int
  so_tx_mqd :: int

record sokernel = portkernel +
  sockets :: "addr \<Rightarrow> socket"

type_synonym 'a soenv = "'a sokernel_scheme \<Rightarrow> 'a sokernel_scheme option"

definition SIZEOF_SOCKET :: os_u32 where "SIZEOF_SOCKET = 24"

record 's tcpip =
  tcp_new :: "'s \<Rightarrow> (addr \<times> 's) option"
  udp_new :: "'s \<Rightarrow> (addr \<times> 's) option"
  tcp_bind :: "addr \<Rightarrow> os_u16 \<Rightarrow> 's \<Rightarrow> (int \<times> 's) option"
  udp_bind :: "addr \<Rightarrow> os_u16 \<Rightarrow> 's \<Rightarrow> (int \<times> 's) option"
  tcp_listen :: "addr \<Rightarrow> 's \<Rightarrow> (addr \<times> 's) option"
  tcp_connect :: "addr \<Rightarrow> os_u32 \<Rightarrow> os_u16 \<Rightarrow> 's \<Rightarrow> (int \<times> 's) option"
  udp_connect :: "addr \<Rightarrow> os_u32 \<Rightarrow> os_u16 \<Rightarrow> 's \<Rightarrow> (int \<times> 's) option"
  udp_recv :: "addr \<Rightarrow> addr \<Rightarrow> addr \<Rightarrow> 's \<Rightarrow> 's option"
  tcp_recv :: "addr \<Rightarrow> addr \<Rightarrow> 's \<Rightarrow> 's option"
  tcp_accept :: "addr \<Rightarrow> addr \<Rightarrow> 's \<Rightarrow> 's option"
  tcp_arg :: "addr \<Rightarrow> addr \<Rightarrow> 's \<Rightarrow> 's option"
  tcp_write :: "addr \<Rightarrow> addr \<Rightarrow> os_u16 \<Rightarrow> os_u8 \<Rightarrow> 's \<Rightarrow> (int \<times> 's) option"
  udp_send :: "addr \<Rightarrow> addr \<Rightarrow> 's \<Rightarrow> (int \<times> 's) option"
  tcp_close :: "addr \<Rightarrow> 's \<Rightarrow> (int \<times> 's) option"
  udp_disconnect :: "addr \<Rightarrow> 's \<Rightarrow> 's option"

definition upd_socket :: "addr \<Rightarrow> (socket \<Rightarrow> socket) \<Rightarrow> 'a sokernel_scheme \<Rightarrow> 'a sokernel_scheme" where
  "upd_socket a f s = s\<lparr>sockets := (sockets s)(a := f (sockets s a))\<rparr>"

section \<open>Callbacks\<close>

text \<open>\<open>ret\<close> is the address of the local byte, \<open>recv_cb\<close> that of \<^verbatim>\<open>socket_tcp_recv\<close>.\<close>

definition socket_notify :: "'a soenv \<Rightarrow> addr \<Rightarrow> addr \<Rightarrow> 'a soenv" where
  "socket_notify env ret a s =
     do {
       let s = s\<lparr>mem8 := (mem8 s)(ret := 0)\<rparr>;
       (r, s) \<leftarrow> mq_send env (so_rx_mqd (sockets s a)) ret 1 s;
       Some s
     }"

definition socket_udp_recv :: "'a soenv \<Rightarrow> addr \<Rightarrow> addr \<Rightarrow> addr \<Rightarrow> 'a soenv" where
  "socket_udp_recv env ret arg pbuf s = (if pbuf \<noteq> NULL then socket_notify env ret arg s else Some s)"

definition socket_tcp_recv :: "'a soenv \<Rightarrow> addr \<Rightarrow> addr \<Rightarrow> addr \<Rightarrow> 'a sokernel_scheme \<Rightarrow> (int \<times> 'a sokernel_scheme) option" where
  "socket_tcp_recv env ret arg pbuf s = do { s \<leftarrow> socket_notify env ret arg s; Some (0, s) }"

definition socket_tcp_accept :: "'a sokernel_scheme tcpip \<Rightarrow> addr \<Rightarrow> addr \<Rightarrow> 'a sokernel_scheme \<Rightarrow> (int \<times> 'a sokernel_scheme) option" where
  "socket_tcp_accept ti recv_cb pcb s = do { s \<leftarrow> tcp_recv ti pcb recv_cb s; Some (0, s) }"

section \<open>Operations\<close>

text \<open>\<open>name\<close> is the address of the literal, \<open>attr\<close> the uninitialised local. Without memory the code writes through NULL.\<close>

definition socket :: "'a sokernel_scheme tcpip \<Rightarrow> 'a soenv \<Rightarrow> addr \<Rightarrow> mq_attr \<Rightarrow> int \<Rightarrow> int \<Rightarrow> int \<Rightarrow> 'a sokernel_scheme \<Rightarrow>
    (int \<times> 'a sokernel_scheme) option" where
  "socket ti env name attr domain type protocol s =
     do {
       (a, s) \<leftarrow> malloc env SIZEOF_SOCKET s;
       if a = NULL then None
       else do {
         let attr = attr\<lparr>mq_maxmsg := 16, mq_msgsize := 4\<rparr>;
         let flag = O_CREAT OR O_RDWR;
         (mqd, s) \<leftarrow> mq_open env name flag flag attr s;
         let s = upd_socket a (\<lambda>x. x\<lparr>so_rx_mqd := mqd\<rparr>) s;
         (mqd, s) \<leftarrow> mq_open env name flag flag attr s;
         let s = upd_socket a (\<lambda>x. x\<lparr>so_tx_mqd := mqd\<rparr>) s;
         let s = upd_socket a (\<lambda>x. x\<lparr>so_domain := domain, so_type := type, so_protocol := protocol\<rparr>) s;
         if type = SOCK_STREAM \<or> type = SOCK_PACKET
         then do {
           (pcb, s) \<leftarrow> (if type = SOCK_STREAM then tcp_new ti s else udp_new ti s);
           let s = upd_socket a (\<lambda>x. x\<lparr>so_pcb := pcb\<rparr>) s;
           if pcb = NULL then do { s \<leftarrow> free env a s; Some (0, s) } else Some (sint a, s)
         }
         else Some (sint a, s)
       }
     }"

definition bind_socket :: "'a sokernel_scheme tcpip \<Rightarrow> int \<Rightarrow> os_u16 \<Rightarrow> 'a sokernel_scheme \<Rightarrow> (int \<times> 'a sokernel_scheme) option" where
  "bind_socket ti sockfd sin_port s =
     (let x = sockets s (word_of_int sockfd)
      in if so_type x = SOCK_STREAM then tcp_bind ti (so_pcb x) sin_port s
         else if so_type x = SOCK_PACKET then udp_bind ti (so_pcb x) sin_port s
         else Some (- 1, s))"

definition listen :: "'a sokernel_scheme tcpip \<Rightarrow> int \<Rightarrow> 'a sokernel_scheme \<Rightarrow> (int \<times> 'a sokernel_scheme) option" where
  "listen ti sockfd s =
     (let a = word_of_int sockfd
      in if so_type (sockets s a) = SOCK_STREAM
         then do {
           (pcb, s) \<leftarrow> tcp_listen ti (so_pcb (sockets s a)) s;
           if pcb \<noteq> NULL then Some (0, upd_socket a (\<lambda>x. x\<lparr>so_pcb := pcb\<rparr>) s) else Some (- 1, s)
         }
         else Some (- 1, s))"

text \<open>\<open>recv_cb\<close> is the address of \<^verbatim>\<open>socket_udp_recv\<close>.\<close>

definition connect :: "'a sokernel_scheme tcpip \<Rightarrow> addr \<Rightarrow> int \<Rightarrow> os_u32 \<Rightarrow> os_u16 \<Rightarrow> 'a sokernel_scheme \<Rightarrow> (int \<times> 'a sokernel_scheme) option" where
  "connect ti recv_cb sockfd sin_addr sin_port s =
     (let a = word_of_int sockfd; x = sockets s a
      in if so_type x = SOCK_STREAM then tcp_connect ti (so_pcb x) sin_addr sin_port s
         else if so_type x = SOCK_PACKET
         then do {
           (ret, s) \<leftarrow> udp_connect ti (so_pcb x) sin_addr sin_port s;
           s \<leftarrow> udp_recv ti (so_pcb (sockets s a)) recv_cb a s;
           Some (ret, s)
         }
         else Some (- 1, s))"

definition accept :: "'a sokernel_scheme tcpip \<Rightarrow> addr \<Rightarrow> int \<Rightarrow> 'a sokernel_scheme \<Rightarrow> (int \<times> 'a sokernel_scheme) option" where
  "accept ti accept_cb sockfd s =
     (let a = word_of_int sockfd
      in if so_type (sockets s a) = SOCK_STREAM
         then do {
           s \<leftarrow> tcp_accept ti (so_pcb (sockets s a)) accept_cb s;
           s \<leftarrow> tcp_arg ti (so_pcb (sockets s a)) a s;
           Some (0, s)
         }
         else if so_type (sockets s a) = SOCK_PACKET then Some (0, s)
         else Some (- 1, s))"

text \<open>\<open>data\<close> is the address of the local, \<open>junk\<close> what \<^verbatim>\<open>mq_receive\<close> returns for an empty queue.\<close>

definition socket_read :: "(addr \<Rightarrow> 'a soenv) \<Rightarrow> 'a soenv \<Rightarrow> int \<Rightarrow> addr \<Rightarrow> int \<Rightarrow> addr \<Rightarrow> os_u32 \<Rightarrow> 'a sokernel_scheme \<Rightarrow>
    (int \<times> 'a sokernel_scheme) option" where
  "socket_read custom env junk data fd buf count s =
     do {
       (r, s) \<leftarrow> mq_receive env (so_rx_mqd (sockets s (word_of_int fd))) data s;
       if (case r of None \<Rightarrow> junk | Some v \<Rightarrow> v) \<noteq> 0
       then do {
         let pbuf = load32 (mem8 s) data;
         (size, s) \<leftarrow> ippkg_unpack pbuf buf count s;
         (c, s) \<leftarrow> pbuf_free custom env pbuf s;
         Some (sint size, s)
       }
       else Some (- 1, s)
     }"

definition socket_write :: "'a sokernel_scheme tcpip \<Rightarrow> (addr \<Rightarrow> 'a soenv) \<Rightarrow> 'a soenv \<Rightarrow> int \<Rightarrow> addr \<Rightarrow> os_u32 \<Rightarrow> 'a sokernel_scheme \<Rightarrow>
    (int \<times> 'a sokernel_scheme) option" where
  "socket_write ti custom env fd buf count s =
     (let a = word_of_int fd
      in if so_type (sockets s a) = SOCK_STREAM then tcp_write ti (so_pcb (sockets s a)) buf (ucast count) TCP_WRITE_FLAG_COPY s
         else if so_type (sockets s a) = SOCK_PACKET
         then do {
           (pbuf, s) \<leftarrow> pbuf_alloc custom env PBUF_RAW (ucast count) PBUF_POOL s;
           (pbuf, s) \<leftarrow> ippkg_pack custom env buf (ucast count) s;
           if pbuf = NULL then Some (- 1, s) else udp_send ti (so_pcb (sockets s a)) pbuf s
         }
         else Some (- 1, s))"

definition socket_close :: "'a sokernel_scheme tcpip \<Rightarrow> 'a soenv \<Rightarrow> int \<Rightarrow> 'a sokernel_scheme \<Rightarrow> (int \<times> 'a sokernel_scheme) option" where
  "socket_close ti env fd s =
     do {
       let a = word_of_int fd;
       (ret, s) \<leftarrow> (if so_type (sockets s a) = SOCK_STREAM then tcp_close ti (so_pcb (sockets s a)) s
                   else if so_type (sockets s a) = SOCK_PACKET then do { s \<leftarrow> udp_disconnect ti (so_pcb (sockets s a)) s; Some (0, s) }
                   else Some (- 1, s));
       s \<leftarrow> free env a s;
       Some (ret, s)
     }"

definition select :: "'a soenv \<Rightarrow> int \<Rightarrow> addr \<Rightarrow> int \<Rightarrow> addr \<Rightarrow> addr \<Rightarrow> 'a sokernel_scheme \<Rightarrow> (int \<times> 'a sokernel_scheme) option" where
  "select env junk data maxfdp readfds errorfds s =
     do {
       (r, s) \<leftarrow> mq_receive env (so_rx_mqd (sockets s (word_of_int maxfdp))) data s;
       if (case r of None \<Rightarrow> junk | Some v \<Rightarrow> v) \<noteq> 0
       then let v = load32 (mem8 s) data
            in if v = 0 then Some (- 1, s\<lparr>mem32 := (mem32 s)(errorfds := - 1)\<rparr>)
               else Some (0, s\<lparr>mem32 := (mem32 s)(readfds := v)\<rparr>)
       else Some (0, s)
     }"

definition socket_init :: "'a sokernel_scheme \<Rightarrow> int \<times> 'a sokernel_scheme" where
  "socket_init s = (0, s)"

definition inet_aton :: "addr \<Rightarrow> addr \<Rightarrow> 'a sokernel_scheme \<Rightarrow> int \<times> 'a sokernel_scheme" where
  "inet_aton str a s = (0, s)"

section \<open>Properties\<close>

lemma pack_loop_returns: "pchain (pbufs s) p xs \<Longrightarrow> \<exists>m. pack_loop src p off s = Some (s\<lparr>mem8 := m\<rparr>)"
proof (induction xs arbitrary: p off s)
  case Nil
  then show ?case by (intro exI [of _ "mem8 s"]) (simp add: pack_loop.simps [of src NULL])
next
  case (Cons a xs)
  let ?s = "MEMCPY (pb_payload (pbufs s a)) (src + ucast off) (pb_len (pbufs s a)) s"
  have "\<exists>m. pack_loop src (pb_next (pbufs s a)) (off + pb_len (pbufs s a)) ?s = Some (?s\<lparr>mem8 := m\<rparr>)"
    using Cons.prems by (intro Cons.IH) simp
  then obtain m where "pack_loop src (pb_next (pbufs s a)) (off + pb_len (pbufs s a)) ?s = Some (s\<lparr>mem8 := m\<rparr>)" by (auto simp: MEMCPY_s)
  then have "pack_loop src p off s = Some (s\<lparr>mem8 := m\<rparr>)" using Cons.prems by (simp add: pack_loop.simps [of src a] Let_def)
  then show ?case by blast
qed

lemma raw_offset: "pbuf_offset PBUF_RAW = Some 0"
  by (simp add: pbuf_offset_def PBUF_RAW_def PBUF_TRANSPORT_def PBUF_IP_def PBUF_LINK_def)

text \<open>
  Every \<^verbatim>\<open>_write\<close> to a datagram socket loses a packet's worth of buffers. If the pool has at least twice the \<open>k\<close> elements a packet of \<open>count\<close> bytes needs, \<^verbatim>\<open>_write\<close> sends a packet made of the
  second \<open>k\<close> of them, in a state whose pool has lost the first \<open>k\<close> as well: these are in no packet and in no pool.
\<close>

theorem write_leaks_packet:
  assumes "so_type (sockets s (word_of_int fd)) = SOCK_PACKET" and "pool MEMP_PBUF_POOL s fl" and "pool MEMP_PBUF s f7" and "set fl \<inter> set f7 = {}"
    and "\<forall>a \<in> set fl. element a" and "k = length (pool_lens 0 (unat (ucast count :: os_u16)))" and "2 * k \<le> length fl"
  shows "\<exists>s'. socket_write ti custom env fd buf count s = udp_send ti (so_pcb (sockets s' (word_of_int fd))) (fl ! k) s' \<and>
    pchain (pbufs s') (fl ! k) (take k (drop k fl)) \<and> pool MEMP_PBUF_POOL s' (drop (2 * k) fl) \<and> pool MEMP_PBUF s' f7"
proof -
  let ?n = "ucast count :: os_u16"
  have k: "0 < k" using assms(6) by (simp add: pool_lens_def Let_def)
  obtain s0 where s0: "pbuf_alloc custom env PBUF_RAW ?n PBUF_POOL s = Some (hd fl, s0)" "pool MEMP_PBUF_POOL s0 (drop k fl)" "pool MEMP_PBUF s0 f7"
    using alloc_ok [OF raw_offset assms(2-4), of ?n custom env] assms(5-7) by auto
  have "set (drop k fl) \<inter> set f7 = {}" "\<And>a. a \<in> set (drop k fl) \<Longrightarrow> element a" using assms(4,5) set_drop_subset [of k fl] by auto
  note al = alloc_ok [OF raw_offset s0(2,3) this, of ?n custom env, folded assms(6)]
  have "k \<le> length (drop k fl)" "drop k (drop k fl) = drop (2 * k) fl" using assms(7) by (simp_all add: mult_2)
  with al obtain s1 where
    s1: "pbuf_alloc custom env PBUF_RAW ?n PBUF_POOL s0 = Some (hd (drop k fl), s1)" "pchain (pbufs s1) (hd (drop k fl)) (take k (drop k fl))"
      "pool MEMP_PBUF_POOL s1 (drop (2 * k) fl)" "pool MEMP_PBUF s1 f7"
    by metis
  have hd: "hd (drop k fl) = fl ! k" using assms(7) k by (simp add: hd_drop_conv_nth)
  then have nn: "fl ! k \<noteq> NULL" using s1(2) k assms(7) by (cases "take k (drop k fl)") auto
  obtain m where "pack_loop buf (fl ! k) 0 s1 = Some (s1\<lparr>mem8 := m\<rparr>)" using pack_loop_returns [OF s1(2) [unfolded hd]] by blast
  then have pk: "ippkg_pack custom env buf ?n s0 = Some (fl ! k, s1\<lparr>mem8 := m\<rparr>)" using s1(1) hd nn by (simp add: ippkg_pack_def)
  have "SOCK_PACKET \<noteq> SOCK_STREAM" by (simp add: SOCK_PACKET_def SOCK_STREAM_def)
  then have "socket_write ti custom env fd buf count s = udp_send ti (so_pcb (sockets (s1\<lparr>mem8 := m\<rparr>) (word_of_int fd))) (fl ! k) (s1\<lparr>mem8 := m\<rparr>)"
    using assms(1) s0(1) pk nn by (simp add: socket_write_def Let_def)
  then show ?thesis using s1(2-4) hd by (intro exI [of _ "s1\<lparr>mem8 := m\<rparr>"]) (simp add: pool_def)
qed

definition so_kernel :: sokernel where
  "so_kernel = portkernel.extend port_kernel \<lparr>sockets = (\<lambda>_. \<lparr>so_domain = 0, so_type = SOCK_PACKET, so_protocol = 0, so_pcb = 0x9000, so_rx_mqd = 0, so_tx_mqd = 0\<rparr>)\<rparr>"

definition demo_tcpip :: "sokernel tcpip" where
  "demo_tcpip = \<lparr>tcp_new = (\<lambda>s. Some (0x9000, s)), udp_new = (\<lambda>s. Some (0x9000, s)), tcp_bind = (\<lambda>_ _ s. Some (0, s)), udp_bind = (\<lambda>_ _ s. Some (0, s)),
     tcp_listen = (\<lambda>p s. Some (p, s)), tcp_connect = (\<lambda>_ _ _ s. Some (0, s)), udp_connect = (\<lambda>_ _ _ s. Some (0, s)), udp_recv = (\<lambda>_ _ _ s. Some s),
     tcp_recv = (\<lambda>_ _ s. Some s), tcp_accept = (\<lambda>_ _ s. Some s), tcp_arg = (\<lambda>_ _ s. Some s), tcp_write = (\<lambda>_ _ _ _ s. Some (0, s)),
     udp_send = (\<lambda>_ _ s. Some (0, s)), tcp_close = (\<lambda>_ s. Some (0, s)), udp_disconnect = (\<lambda>_ s. Some s)\<rparr>"

lemma so_kernel_pools: "pool MEMP_PBUF_POOL so_kernel [0x10000, 0x11000]" "pool MEMP_PBUF so_kernel []"
  by (simp_all add: so_kernel_def portkernel.extend_def port_kernel_def netkernel.extend_def net_kernel_def pbkernel.extend_def packet_kernel_def
      pb_kernel_def devkernel.extend_def pool_def demo_pbuf_def MEMP_PBUF_def MEMP_PBUF_POOL_def NULL_def)

theorem write_leaks_packet_witness:
  "\<exists>s'. socket_write demo_tcpip (\<lambda>_ _. None) Some 0x8000 0x30000 100 so_kernel = Some (0, s') \<and>
    pchain (pbufs s') 0x11000 [0x11000] \<and> pool MEMP_PBUF_POOL s' []"
proof -
  have f: "so_type (sockets so_kernel (word_of_int 0x8000)) = SOCK_PACKET" by (simp add: so_kernel_def portkernel.extend_def)
  have g: "set [0x10000, 0x11000 :: addr] \<inter> set [] = {}" "\<forall>a \<in> set [0x10000, 0x11000]. element a" "2 * 1 \<le> length [0x10000, 0x11000 :: addr]"
    by (simp_all add: element_def)
  have k: "1 = length (pool_lens 0 (unat (ucast (100 :: os_u32) :: os_u16)))"
    by (simp add: pool_lens_def pool_room_def LWIP_MEM_ALIGN_SIZE_def PBUF_POOL_BUFSIZE_ALIGNED_def Let_def)
  from write_leaks_packet [OF f so_kernel_pools g(1,2) k g(3), of demo_tcpip "\<lambda>_ _. None" Some "0x30000"] show ?thesis by (auto simp: demo_tcpip_def)
qed

end
