(* ===== verification/Boot.thy ===== *)
theory Boot
  imports Socket "HOL-Library.Multiset"
begin

text \<open>
  Starting the system: the linker-collected tables of initialisation functions (\<^verbatim>\<open>hwutil/kernel/source/hal.c\<close>, \<^verbatim>\<open>chip.c\<close>), the dispatch of
  hardware interrupts (\<^verbatim>\<open>chip.c\<close>) and the start sequence (\<^verbatim>\<open>init.c\<close>). What the port supplies is an argument: the tables, the functions in
  them (\<open>init f\<close> is what the function at \<open>f\<close> does and returns), the addresses the linker chooses, and the parts that are not modelled
  (the application, the low-level set-up of the board). A failed assertion and the \<^verbatim>\<open>while(ret)\<close> after a failed initialisation
  function never return.
\<close>

section \<open>Tables of initialisation functions\<close>

definition HAL_ORDER_MAX :: nat where "HAL_ORDER_MAX = 16"
definition CHIP_ORDER_MAX :: nat where "CHIP_ORDER_MAX = 16"

record hal_func =
  hf_name :: addr
  hf_desc :: addr
  hf_init :: addr
  hf_order :: os_u32

definition init_one :: "(addr \<Rightarrow> 's \<Rightarrow> (err_t \<times> 's) option) \<Rightarrow> hal_func \<Rightarrow> 's \<Rightarrow> 's option" where
  "init_one init f s = do { (ret, s) \<leftarrow> init (hf_init f) s; if ret \<noteq> 0 then None else Some s }"

definition init_order :: "(addr \<Rightarrow> 's \<Rightarrow> (err_t \<times> 's) option) \<Rightarrow> hal_func list \<Rightarrow> nat \<Rightarrow> 's \<Rightarrow> 's option" where
  "init_order init tab order s =
     fold_option (\<lambda>f s. if hf_order f = of_nat order then init_one init f s else Some s) tab s"

definition hal_init :: "(addr \<Rightarrow> 's \<Rightarrow> (err_t \<times> 's) option) \<Rightarrow> hal_func list \<Rightarrow> 's \<Rightarrow> (err_t \<times> 's) option" where
  "hal_init init tab s = do { s \<leftarrow> fold_option (init_order init tab) [0..<HAL_ORDER_MAX] s; Some (0, s) }"

definition chip_init :: "(addr \<Rightarrow> 's \<Rightarrow> (err_t \<times> 's) option) \<Rightarrow> hal_func list \<Rightarrow> 's \<Rightarrow> (err_t \<times> 's) option" where
  "chip_init init tab s = do { s \<leftarrow> fold_option (init_order init tab) [0..<CHIP_ORDER_MAX] s; Some (0, s) }"

section \<open>Hardware interrupts\<close>

record os_isr_desc =
  isr_handle :: addr
  isr_param :: addr

record chip_irq =
  irq_num :: os_u32
  irq_request :: addr
  irq_mask :: addr
  irq_unmask :: addr
  irq_clear :: addr
  isr_table :: addr

record bootkernel = sokernel +
  chip_irqs :: "addr \<Rightarrow> chip_irq"
  isr_descs :: "addr \<Rightarrow> os_isr_desc"
  current_chip_irq :: addr

definition SIZEOF_ISR_DESC :: os_u32 where "SIZEOF_ISR_DESC = 8"

definition isr_slot :: "addr \<Rightarrow> os_u32 \<Rightarrow> addr" where
  "isr_slot table irq = table + SIZEOF_ISR_DESC * irq"

text \<open>
  \<open>request f\<close> is the line the controller reports, \<open>handle f irq param\<close> and \<open>clear f irq\<close> are the effects of a handler and of the
  controller's acknowledge function.
\<close>

definition chip_irq_handle :: "(addr \<Rightarrow> 'a bootkernel_scheme \<Rightarrow> (os_u32 \<times> 'a bootkernel_scheme) option) \<Rightarrow>
    (addr \<Rightarrow> os_u32 \<Rightarrow> addr \<Rightarrow> 'a bootkernel_scheme \<Rightarrow> 'a bootkernel_scheme option) \<Rightarrow>
    (addr \<Rightarrow> os_u32 \<Rightarrow> 'a bootkernel_scheme \<Rightarrow> 'a bootkernel_scheme option) \<Rightarrow> 'a bootkernel_scheme \<Rightarrow> 'a bootkernel_scheme option" where
  "chip_irq_handle request handle clear s =
     do {
       let a = current_chip_irq s;
       let table = isr_table (chip_irqs s a);
       (irq, s) \<leftarrow> request (irq_request (chip_irqs s a)) s;
       s \<leftarrow> (let d = isr_descs s (isr_slot table irq)
             in if isr_handle d \<noteq> NULL then handle (isr_handle d) irq (isr_param d) s else Some s);
       if irq_clear (chip_irqs s a) \<noteq> NULL then clear (irq_clear (chip_irqs s a)) irq s else Some s
     }"

definition chip_irq_register :: "('a bootkernel_scheme \<Rightarrow> 'a bootkernel_scheme option) \<Rightarrow> addr \<Rightarrow> 'a bootkernel_scheme \<Rightarrow>
    (err_t \<times> 'a bootkernel_scheme) option" where
  "chip_irq_register env a s =
     (if a = NULL then None
      else if irq_num (chip_irqs s a) = 0 then None
      else do {
        (table, s) \<leftarrow> malloc env (SIZEOF_ISR_DESC * irq_num (chip_irqs s a)) s;
        if table = NULL then None
        else let s = s\<lparr>chip_irqs := (chip_irqs s)(a := (chip_irqs s a)\<lparr>isr_table := table\<rparr>)\<rparr>
             in Some (0, s\<lparr>current_chip_irq := a\<rparr>)
      })"

section \<open>The start sequence\<close>

text \<open>What the port and the linker supply.\<close>

record 'a board =
  low_level_init :: "'a bootkernel_scheme \<Rightarrow> (err_t \<times> 'a bootkernel_scheme) option"
  app_init :: "'a bootkernel_scheme \<Rightarrow> (err_t \<times> 'a bootkernel_scheme) option"
  table_init :: "addr \<Rightarrow> 'a bootkernel_scheme \<Rightarrow> (err_t \<times> 'a bootkernel_scheme) option"
  hal_tab :: "hal_func list"
  chip_tab :: "hal_func list"
  heap_from :: addr
  heap_to :: addr
  b_tick :: os_u32
  b_exit_entry :: addr
  b_timer_entry :: addr
  b_timer_name :: "nat \<Rightarrow> os_u8"
  b_idle_entry :: addr
  b_idle_stack :: addr
  b_idle_name :: "nat \<Rightarrow> os_u8"
  b_local_attr :: pthread_attr

definition assert_ok :: "(err_t \<times> 's) option \<Rightarrow> 's option" where
  "assert_ok r = do { (err, s) \<leftarrow> r; if err \<noteq> 0 then None else Some s }"

definition HEAP_MEM_INIT :: "'a board \<Rightarrow> 'a bootkernel_scheme \<Rightarrow> 'a bootkernel_scheme" where
  "HEAP_MEM_INIT b s =
     (let s' = s\<lparr>heap := heap_mem_init (heap_from b) (heap_to b) (heap s)\<rparr>
      in if ALIGN (heap_to b) - ALIGN (heap_from b) \<le> 2 * HEAP_HDR + MALLOC_MIN_SIZE then s'
         else snd (pthread_mutex_init (heap_mem_mutex s) s'))"

definition rtos_low_level_init :: "'a board \<Rightarrow> 'a bootkernel_scheme \<Rightarrow> 'a bootkernel_scheme option" where
  "rtos_low_level_init b s = assert_ok (low_level_init b s)"

text \<open>Without a disk port, as on the STM32F746G-DISCO.\<close>

definition rtos_driver_init :: "'a bootkernel_scheme \<Rightarrow> 'a bootkernel_scheme option" where
  "rtos_driver_init s = assert_ok (Some (input_init s))"

definition rtos_kernel_init :: "('a bootkernel_scheme \<Rightarrow> 'a bootkernel_scheme option) \<Rightarrow> 'a board \<Rightarrow> 'a bootkernel_scheme \<Rightarrow>
    'a bootkernel_scheme option" where
  "rtos_kernel_init env b s =
     do {
       let s = HEAP_MEM_INIT b s;
       let s = sched_init (b_tick b) s;
       let s = signal_init s;
       s \<leftarrow> assert_ok (timer_init env (b_exit_entry b) (b_timer_entry b) (b_timer_name b) (b_local_attr b) s);
       s \<leftarrow> assert_ok (Some (stdobj_init s));
       s \<leftarrow> assert_ok (Some (shell_init s));
       s \<leftarrow> assert_ok (Some (ipport_system_init s));
       rtos_driver_init s
     }"

definition rtos_chip_init :: "'a board \<Rightarrow> 'a bootkernel_scheme \<Rightarrow> 'a bootkernel_scheme option" where
  "rtos_chip_init b s = assert_ok (chip_init (table_init b) (chip_tab b) s)"

definition rtos_hal_init :: "'a board \<Rightarrow> 'a bootkernel_scheme \<Rightarrow> 'a bootkernel_scheme option" where
  "rtos_hal_init b s = assert_ok (hal_init (table_init b) (hal_tab b) s)"

definition rtos_idle_init :: "('a bootkernel_scheme \<Rightarrow> 'a bootkernel_scheme option) \<Rightarrow> 'a board \<Rightarrow> 'a bootkernel_scheme \<Rightarrow>
    'a bootkernel_scheme option" where
  "rtos_idle_init env b s =
     assert_ok (idle_thread_init env (b_exit_entry b) (b_idle_entry b) (b_idle_stack b) (b_idle_name b) (b_local_attr b) s)"

definition rtos_app_init :: "'a board \<Rightarrow> 'a bootkernel_scheme \<Rightarrow> 'a bootkernel_scheme option" where
  "rtos_app_init b s = assert_ok (app_init b s)"

definition rtos_start :: "'a bootkernel_scheme \<Rightarrow> 'a bootkernel_scheme option" where
  "rtos_start s = sched_start s"

definition rtos_run :: "('a bootkernel_scheme \<Rightarrow> 'a bootkernel_scheme option) \<Rightarrow> 'a board \<Rightarrow> 'a bootkernel_scheme \<Rightarrow>
    'a bootkernel_scheme option" where
  "rtos_run env b s =
     do {
       let s = s\<lparr>primask := True\<rparr>;
       s \<leftarrow> rtos_low_level_init b s;
       s \<leftarrow> rtos_kernel_init env b s;
       s \<leftarrow> rtos_chip_init b s;
       s \<leftarrow> rtos_hal_init b s;
       s \<leftarrow> rtos_idle_init env b s;
       s \<leftarrow> rtos_app_init b s;
       rtos_start s
     }"

section \<open>The order of initialisation\<close>

lemma fold_option_append: "fold_option f (xs @ ys) s = do { s \<leftarrow> fold_option f xs s; fold_option f ys s }"
  by (induction xs arbitrary: s) (auto split: Option.bind_split)

lemma fold_option_filter: "fold_option (\<lambda>x s. if P x then f x s else Some s) xs s = fold_option f (filter P xs) s"
  by (induction xs arbitrary: s) (auto split: Option.bind_split)

lemma fold_option_concat: "fold_option (\<lambda>x. fold_option f (g x)) xs s = fold_option f (concat (map g xs)) s"
  by (induction xs arbitrary: s) (simp_all add: fold_option_append)

text \<open>Picking the entries order by order is a stable sort of those below the limit.\<close>

lemma by_orders_sort:
  fixes f :: "'b \<Rightarrow> nat"
  shows "concat (map (\<lambda>k. filter (\<lambda>x. f x = k) xs) [0..<n]) = sort_key f (filter (\<lambda>x. f x < n) xs)" (is "?l n = _")
proof -
  have set_l: "x \<in> set (?l n) \<Longrightarrow> f x < n" for x n by auto
  have "sort_key f (filter (\<lambda>x. f x < n) xs) = ?l n"
  proof (rule properties_for_sort_key)
    show "mset (?l n) = mset (filter (\<lambda>x. f x < n) xs)"
    proof (induction n)
      case (Suc n)
      have "mset (filter (\<lambda>x. f x < Suc n) xs) = mset (filter (\<lambda>x. f x < n) xs) + mset (filter (\<lambda>x. f x = n) xs)"
        by (induction xs) (auto simp: less_Suc_eq)
      with Suc show ?case by simp
    qed simp
    show "filter (\<lambda>x. f k = f x) (?l n) = filter (\<lambda>x. f k = f x) (filter (\<lambda>x. f x < n) xs)" if "k \<in> set (?l n)" for k
      using set_l [OF that]
    proof (induction n)
      case (Suc n)
      show ?case
      proof (cases "f k = n")
        case True
        have "f k \<noteq> f x" if "x \<in> set (?l n)" for x using set_l [OF that] True by simp
        then have "filter (\<lambda>x. f k = f x) (?l n) = []" unfolding filter_empty_conv by blast
        moreover have "filter (\<lambda>x. f k = f x) (filter (\<lambda>x. f x = n) xs) = filter (\<lambda>x. f k = f x) (filter (\<lambda>x. f x < Suc n) xs)"
          unfolding filter_filter by (rule filter_cong [OF refl]) (use True in linarith)
        ultimately show ?thesis by simp
      next
        case False
        then have "f k < n" using Suc.prems by simp
        moreover have "filter (\<lambda>x. f k = f x) (filter (\<lambda>x. f x = n) xs) = []"
          unfolding filter_filter filter_empty_conv using False by blast
        moreover have "filter (\<lambda>x. f k = f x) (filter (\<lambda>x. f x < n) xs) = filter (\<lambda>x. f k = f x) (filter (\<lambda>x. f x < Suc n) xs)"
          unfolding filter_filter by (rule filter_cong [OF refl]) (use \<open>f k < n\<close> in linarith)
        ultimately show ?thesis using Suc.IH by simp
      qed
    qed simp
    show "sorted (map f (?l n))"
    proof (induction n)
      case (Suc n)
      have "sorted (map f (filter (\<lambda>x. f x = n) xs))" by (induction xs) auto
      with Suc show ?case using set_l [of _ n] by (auto simp: sorted_append intro: less_imp_le)
    qed simp
  qed
  then show ?thesis by simp
qed

lemma init_table_sorted:
  assumes "n \<le> 16"
  shows "fold_option (init_order init tab) [0..<n] s =
     fold_option (init_one init) (sort_key (\<lambda>f. unat (hf_order f)) (filter (\<lambda>f. unat (hf_order f) < n) tab)) s"
proof -
  have "hf_order f = of_nat k \<longleftrightarrow> unat (hf_order f) = k" if "k < n" for f k
    using that assms by (auto simp: word_unat_eq_iff unat_of_nat)
  then have "map (\<lambda>k. filter (\<lambda>f. hf_order f = of_nat k) tab) [0..<n] = map (\<lambda>k. filter (\<lambda>f. unat (hf_order f) = k) tab) [0..<n]"
    by (intro map_cong filter_cong) auto
  moreover have "init_order init tab = (\<lambda>k. fold_option (init_one init) (filter (\<lambda>f. hf_order f = of_nat k) tab))"
    by (simp add: init_order_def fold_option_filter fun_eq_iff)
  ultimately show ?thesis by (simp only: fold_option_concat by_orders_sort)
qed

section \<open>Properties\<close>

text \<open>
  C26. \<^verbatim>\<open>hal_init\<close> and \<^verbatim>\<open>chip_init\<close> run the tables in order: their sixteen passes over the table call exactly the functions with an order below 16, sorted by order and, within one order,
  in the sequence of the table, each once, until one fails, in which case they never return.
\<close>
theorem init_tables_sorted:
  "hal_init init tab s =
     map_option (\<lambda>s. (0, s)) (fold_option (init_one init) (sort_key (\<lambda>f. unat (hf_order f)) (filter (\<lambda>f. unat (hf_order f) < 16) tab)) s) \<and>
   chip_init init tab s = hal_init init tab s"
  using init_table_sorted [of 16 init tab s]
  by (auto simp: hal_init_def chip_init_def HAL_ORDER_MAX_def CHIP_ORDER_MAX_def map_option_case split: Option.bind_split option.split)

end
