(* ===== verification/Bus_Devices.thy ===== *)
theory Bus_Devices
  imports Prelude "HOL-Library.Monad_Syntax"
begin

unbundle bit_operations_syntax

text \<open>
  The I2C register access of \<^verbatim>\<open>hwutil/drivers/iic/iic.c\<close> and the start-up of an SD card over SPI of
  \<^verbatim>\<open>hwutil/drivers/mmc/mmc.c\<close>. Both reach the hardware through a table of functions that the board fills in: the table is a record of
  functions on an arbitrary state \<open>'s\<close> of the bus, which the operations thread through their calls. A driver call that never returns is \<open>None\<close>.

  The lemmas show that a register access is a fixed sequence of bus operations that stops at the first one that fails, and that the polling loop of a
  card command returns the first answer of the card and always ends.
\<close>

section \<open>I2C register access (iic.c)\<close>

text \<open>\<^verbatim>\<open>struct iic\<close>; the two orders are read each time they are sent, so they are functions of the state.\<close>

record 's iic =
  iic_start :: "'s \<Rightarrow> (int \<times> 's) option"
  iic_wait :: "'s \<Rightarrow> (int \<times> 's) option"
  iic_stop :: "'s \<Rightarrow> (int \<times> 's) option"
  send_bytes :: "os_u8 list \<Rightarrow> 's \<Rightarrow> (int \<times> 's) option"
  read_bytes :: "os_u8 list \<Rightarrow> int \<Rightarrow> 's \<Rightarrow> (int \<times> os_u8 list \<times> 's) option"
  read_order :: "'s \<Rightarrow> os_u8"
  write_order :: "'s \<Rightarrow> os_u8"

text \<open>\<^verbatim>\<open>if (call) return -EINVAL;\<close> and \<^verbatim>\<open>if (call <= 0) return -EINVAL;\<close>, with the rest of the function as a continuation.\<close>

definition unless_fails :: "(int \<times> 's) option \<Rightarrow> ('s \<Rightarrow> (err_t \<times> 's) option) \<Rightarrow> (err_t \<times> 's) option" where
  "unless_fails call rest = do { (r, s) \<leftarrow> call; if r \<noteq> 0 then Some (- EINVAL, s) else rest s }"

definition unless_short :: "(int \<times> 's) option \<Rightarrow> ('s \<Rightarrow> (err_t \<times> 's) option) \<Rightarrow> (err_t \<times> 's) option" where
  "unless_short call rest = do { (r, s) \<leftarrow> call; if r \<le> 0 then Some (- EINVAL, s) else rest s }"

definition iic_write_reg :: "'s iic \<Rightarrow> os_u8 \<Rightarrow> os_u8 \<Rightarrow> 's \<Rightarrow> (err_t \<times> 's) option" where
  "iic_write_reg d reg data s =
     unless_fails (iic_start d s) (\<lambda>s.
     unless_short (send_bytes d [write_order d s] s) (\<lambda>s.
     unless_fails (iic_wait d s) (\<lambda>s.
     unless_short (send_bytes d [reg] s) (\<lambda>s.
     unless_fails (iic_wait d s) (\<lambda>s.
     unless_short (send_bytes d [data] s) (\<lambda>s.
     unless_fails (iic_wait d s) (\<lambda>s.
     unless_fails (iic_stop d s) (\<lambda>s. Some (0, s)))))))))"

text \<open>
  The byte that \<^verbatim>\<open>iic_read_reg\<close> reads goes to its by-value parameter \<^verbatim>\<open>data\<close>, which nobody reads afterwards: the result is
  only the status.
\<close>

definition iic_read_reg :: "'s iic \<Rightarrow> os_u8 \<Rightarrow> os_u8 \<Rightarrow> 's \<Rightarrow> (err_t \<times> 's) option" where
  "iic_read_reg d reg data s =
     unless_fails (iic_start d s) (\<lambda>s.
     unless_short (send_bytes d [write_order d s] s) (\<lambda>s.
     unless_fails (iic_wait d s) (\<lambda>s.
     unless_short (send_bytes d [reg] s) (\<lambda>s.
     unless_fails (iic_wait d s) (\<lambda>s.
     unless_fails (iic_start d s) (\<lambda>s.
     unless_short (send_bytes d [read_order d s] s) (\<lambda>s.
     unless_fails (iic_wait d s) (\<lambda>s.
     unless_short (map_option (\<lambda>(r, data, s). (r, s)) (read_bytes d [data] 0 s)) (\<lambda>s.
     unless_fails (iic_stop d s) (\<lambda>s. Some (0, s)))))))))))"

section \<open>SD card start-up (mmc.c)\<close>

text \<open>\<^verbatim>\<open>struct mmc\<close>: the functions of the board, and the one member that changes.\<close>

record 's mmc_ops =
  mmc_hw_open :: "'s \<Rightarrow> (int \<times> 's) option"
  mmc_select :: "'s \<Rightarrow> 's"
  mmc_release :: "'s \<Rightarrow> 's"
  read_write :: "os_u8 \<Rightarrow> 's \<Rightarrow> os_u8 \<times> 's"

record 's mmc =
  card_type :: os_u16
  spi :: 's

definition DUMMY_BYTE :: os_u8 where "DUMMY_BYTE = 0xff"
definition VER_IS_SDHC :: int where "VER_IS_SDHC = 1"

definition SD_RESPONSE_NO_ERROR :: int where "SD_RESPONSE_NO_ERROR = 0"
definition SD_IN_IDLE_STATE :: int where "SD_IN_IDLE_STATE = 1"
definition SD_RESPONSE_FAILURE :: int where "SD_RESPONSE_FAILURE = 0xff"

definition SD_CMD_GO_IDLE_STATE :: os_u8 where "SD_CMD_GO_IDLE_STATE = 0"
definition SD_CMD_CHECK_VER :: os_u8 where "SD_CMD_CHECK_VER = 8"
definition SD_CMD_SET_ACTIVE :: os_u8 where "SD_CMD_SET_ACTIVE = 41"
definition SD_CMD_SET_EX_MODE :: os_u8 where "SD_CMD_SET_EX_MODE = 55"
definition SD_CMD_READ_OCR :: os_u8 where "SD_CMD_READ_OCR = 58"

text \<open>\<^verbatim>\<open>for (i = 0; i < n; i++) mmc->read_write(DUMMY_BYTE)\<close>, where what is read is not used.\<close>

primrec mmc_clock :: "'s mmc_ops \<Rightarrow> nat \<Rightarrow> 's \<Rightarrow> 's" where
  "mmc_clock d 0 s = s"
| "mmc_clock d (Suc n) s = mmc_clock d n (snd (read_write d DUMMY_BYTE s))"

text \<open>The polling loop, and the value of \<^verbatim>\<open>i\<close> after it; the argument is \<^verbatim>\<open>i\<close> before a round.\<close>

primrec mmc_poll :: "'s mmc_ops \<Rightarrow> nat \<Rightarrow> 's \<Rightarrow> os_u8 \<times> nat \<times> 's" where
  "mmc_poll d 0 s = (DUMMY_BYTE, 0, s)"
| "mmc_poll d (Suc i) s =
     (let (resp, s) = read_write d DUMMY_BYTE s
      in if resp = DUMMY_BYTE \<and> i \<noteq> 0 then mmc_poll d i s else (resp, i, s))"

definition mmc_frame :: "os_u8 \<Rightarrow> os_u32 \<Rightarrow> os_u8 \<Rightarrow> os_u8 list" where
  "mmc_frame cmd arg crc =
     [cmd OR 0x40, ucast (drop_bit 24 arg), ucast (drop_bit 16 arg), ucast (drop_bit 8 arg), ucast (drop_bit 0 arg), crc]"

definition mmc_send_cmd :: "'s mmc_ops \<Rightarrow> os_u8 \<Rightarrow> os_u32 \<Rightarrow> os_u8 \<Rightarrow> 's \<Rightarrow> int \<times> 's" where
  "mmc_send_cmd d cmd arg crc s =
     (let s = mmc_select d s;
          s = fold (\<lambda>b s. snd (read_write d b s)) (mmc_frame cmd arg crc) s;
          (resp, i, s) = mmc_poll d 2000 s;
          s = mmc_release d s
      in if i \<noteq> 0 then (uint resp, s) else (SD_RESPONSE_FAILURE, s))"

text \<open>\<^verbatim>\<open>do ... while (err == SD_RESPONSE_FAILURE && i)\<close> around the two commands that activate the card.\<close>

primrec mmc_activate :: "'s mmc_ops \<Rightarrow> nat \<Rightarrow> 's \<Rightarrow> int \<times> 's" where
  "mmc_activate d 0 s = (SD_RESPONSE_FAILURE, s)"
| "mmc_activate d (Suc i) s =
     (let (err, s) = mmc_send_cmd d SD_CMD_SET_EX_MODE 0 0xff s;
          (err, s) = mmc_send_cmd d SD_CMD_SET_ACTIVE 0x40000000 0xff s
      in if err = SD_RESPONSE_FAILURE \<and> i \<noteq> 0 then mmc_activate d i s else (err, s))"

text \<open>The bytes read into the local array \<^verbatim>\<open>buf\<close> are never used.\<close>

definition mmc_sdhc_init :: "'s mmc_ops \<Rightarrow> 's mmc \<Rightarrow> int \<times> 's mmc" where
  "mmc_sdhc_init d m =
     (let s = mmc_clock d 5 (spi m);
          s = mmc_release d s;
          s = mmc_clock d 1 s;
          s = mmc_select d s;
          s = mmc_clock d 2 s;
          (err, s) = mmc_activate d 200 s
      in if err = SD_RESPONSE_FAILURE then (SD_RESPONSE_FAILURE, m\<lparr>spi := s\<rparr>)
         else let s = mmc_select d s;
                  (b, s) = mmc_send_cmd d SD_CMD_READ_OCR 0 0xff s;
                  s = mmc_clock d 9 s;
                  s = mmc_release d s
              in (SD_RESPONSE_NO_ERROR, m\<lparr>spi := s, card_type := word_of_int VER_IS_SDHC\<rparr>))"

definition mmc_open :: "'s mmc_ops \<Rightarrow> 's mmc \<Rightarrow> (int \<times> 's mmc) option" where
  "mmc_open d m =
     do {
       (err, s) \<leftarrow> mmc_hw_open d (spi m);
       let s = mmc_release d s;
       let s = mmc_clock d 9 s;
       let (err, s) = mmc_send_cmd d SD_CMD_GO_IDLE_STATE 0 0x95 s;
       if err \<noteq> SD_IN_IDLE_STATE then None
       else do {
         let (ver, s) = mmc_send_cmd d SD_CMD_CHECK_VER 0x1AA 0x87 s;
         if ver = SD_RESPONSE_FAILURE then None
         else let m = m\<lparr>spi := s\<rparr>;
                  (ver, m) = (if ver = VER_IS_SDHC then mmc_sdhc_init d m else (SD_RESPONSE_FAILURE, m))
              in Some (err, m)
       }
     }"

section \<open>The sequence of bus operations\<close>

text \<open>What a register access does on the bus, as a script of operations that ends at the first failure.\<close>

datatype bus_op = Bus_start | Bus_wait | Bus_stop | Bus_send os_u8 | Bus_read os_u8

primrec bus_do :: "'s iic \<Rightarrow> bus_op \<Rightarrow> 's \<Rightarrow> (bool \<times> 's) option" where
  "bus_do d Bus_start s = map_option (\<lambda>(r, s). (r = 0, s)) (iic_start d s)"
| "bus_do d Bus_wait s = map_option (\<lambda>(r, s). (r = 0, s)) (iic_wait d s)"
| "bus_do d Bus_stop s = map_option (\<lambda>(r, s). (r = 0, s)) (iic_stop d s)"
| "bus_do d (Bus_send b) s = map_option (\<lambda>(r, s). (r > 0, s)) (send_bytes d [b] s)"
| "bus_do d (Bus_read b) s = map_option (\<lambda>(r, x, s). (r > 0, s)) (read_bytes d [b] 0 s)"

primrec bus_run :: "'s iic \<Rightarrow> bus_op list \<Rightarrow> 's \<Rightarrow> (err_t \<times> 's) option" where
  "bus_run d [] s = Some (0, s)"
| "bus_run d (x # xs) s = do { (ok, s) \<leftarrow> bus_do d x s; if ok then bus_run d xs s else Some (- EINVAL, s) }"

definition write_script :: "os_u8 \<Rightarrow> os_u8 \<Rightarrow> os_u8 \<Rightarrow> bus_op list" where
  "write_script w reg data =
     [Bus_start, Bus_send w, Bus_wait, Bus_send reg, Bus_wait, Bus_send data, Bus_wait, Bus_stop]"

definition read_script :: "os_u8 \<Rightarrow> os_u8 \<Rightarrow> os_u8 \<Rightarrow> os_u8 \<Rightarrow> bus_op list" where
  "read_script w r reg data =
     [Bus_start, Bus_send w, Bus_wait, Bus_send reg, Bus_wait, Bus_start, Bus_send r, Bus_wait, Bus_read data, Bus_stop]"

text \<open>A bus whose calls return, leave the orders alone and can be observed: \<open>lg\<close> is the list of the operations so far.\<close>

definition recorded :: "'s iic \<Rightarrow> ('s \<Rightarrow> bus_op list) \<Rightarrow> os_u8 \<Rightarrow> os_u8 \<Rightarrow> bool" where
  "recorded d lg w r \<longleftrightarrow>
     (\<forall>s. write_order d s = w \<and> read_order d s = r) \<and>
     (\<forall>x s. \<exists>ok s'. bus_do d x s = Some (ok, s') \<and> lg s' = lg s @ [x])"

definition bus_outcome :: "'s iic \<Rightarrow> ('s \<Rightarrow> bus_op list) \<Rightarrow> bus_op list \<Rightarrow> 's \<Rightarrow> (err_t \<times> 's) option \<Rightarrow> bool" where
  "bus_outcome d lg xs s res \<longleftrightarrow>
     (\<exists>s'. res = Some (0, s') \<and> lg s' = lg s @ xs) \<or>
     (\<exists>n s' s''. res = Some (- EINVAL, s') \<and> n < length xs \<and> bus_do d (xs ! n) s'' = Some (False, s') \<and>
        lg s'' = lg s @ take n xs \<and> lg s' = lg s @ take (Suc n) xs)"

lemma unless_fails_run:
  assumes "map_option (\<lambda>(r, s). (r = 0, s)) call = bus_do d x s" and "\<And>s. rest s = bus_run d xs s"
  shows "unless_fails call rest = bus_run d (x # xs) s"
  using assms by (cases call) (auto simp: unless_fails_def simp flip: assms(1))

lemma unless_short_run:
  assumes "map_option (\<lambda>(r, s). (r > 0, s)) call = bus_do d x s" and "\<And>s. rest s = bus_run d xs s"
  shows "unless_short call rest = bus_run d (x # xs) s"
  using assms by (cases call) (auto simp: unless_short_def not_le simp flip: assms(1))

lemma iic_write_reg_run:
  assumes "\<And>s. write_order d s = w"
  shows "iic_write_reg d reg data s = bus_run d (write_script w reg data) s"
  unfolding iic_write_reg_def write_script_def
  by (intro unless_fails_run unless_short_run) (simp_all add: assms)

lemma iic_read_reg_run:
  assumes "\<And>s. write_order d s = w" and "\<And>s. read_order d s = r"
  shows "iic_read_reg d reg data s = bus_run d (read_script w r reg data) s"
  unfolding iic_read_reg_def read_script_def
  by (intro unless_fails_run unless_short_run) (simp_all add: assms option.map_comp comp_def case_prod_beta')

lemma bus_outcome_run:
  assumes "recorded d lg w r"
  shows "bus_outcome d lg xs s (bus_run d xs s)"
proof (induction xs arbitrary: s)
  case Nil
  show ?case by (simp add: bus_outcome_def)
next
  case (Cons x xs)
  obtain ok s1 where step: "bus_do d x s = Some (ok, s1)" and lg: "lg s1 = lg s @ [x]"
    using assms unfolding recorded_def by blast
  show ?case
  proof (cases ok)
    case False
    then show ?thesis using step lg
      by (auto simp: bus_outcome_def intro!: exI [of _ 0])
  next
    case True
    consider (finished) s' where "bus_run d xs s1 = Some (0, s')" "lg s' = lg s1 @ xs"
      | (failed) n s' s'' where "bus_run d xs s1 = Some (- EINVAL, s')" "n < length xs"
          "bus_do d (xs ! n) s'' = Some (False, s')" "lg s'' = lg s1 @ take n xs" "lg s' = lg s1 @ take (Suc n) xs"
      using Cons.IH [of s1] unfolding bus_outcome_def by blast
    then show ?thesis
    proof cases
      case finished
      then show ?thesis using step lg True by (simp add: bus_outcome_def)
    next
      case failed
      then show ?thesis using step lg True
        by (auto simp: bus_outcome_def intro!: exI [of _ "Suc n"])
    qed
  qed
qed

section \<open>The answer to a card command\<close>

primrec mmc_answers :: "'s mmc_ops \<Rightarrow> nat \<Rightarrow> 's \<Rightarrow> os_u8 list" where
  "mmc_answers d 0 s = []"
| "mmc_answers d (Suc n) s = (let (b, s) = read_write d DUMMY_BYTE s in b # mmc_answers d n s)"

lemma length_mmc_answers [simp]: "length (mmc_answers d n s) = n"
  by (induction n arbitrary: s) (simp_all add: case_prod_beta)

text \<open>The number of polls before the first answer that is not the idle byte.\<close>

definition idle_polls :: "'s mmc_ops \<Rightarrow> nat \<Rightarrow> 's \<Rightarrow> nat" where
  "idle_polls d n s = length (takeWhile (\<lambda>b. b = DUMMY_BYTE) (mmc_answers d n s))"

lemma mmc_poll_first:
  "mmc_poll d (Suc n) s =
     (mmc_answers d (Suc n) s ! idle_polls d n s, n - idle_polls d n s, mmc_clock d (Suc (idle_polls d n s)) s)"
  by (induction n arbitrary: s) (auto simp: idle_polls_def case_prod_beta)

lemma idle_polls_le: "idle_polls d n s \<le> n"
  using length_takeWhile_le [of "\<lambda>b. b = DUMMY_BYTE" "mmc_answers d n s"] by (simp add: idle_polls_def)

lemma mmc_answers_nth_Suc: "k < n \<Longrightarrow> mmc_answers d (Suc n) s ! k = mmc_answers d n s ! k"
proof (induction n arbitrary: s k)
  case (Suc n)
  then show ?case
    by (cases k) (simp_all add: case_prod_beta del: mmc_answers.simps(2), simp_all add: case_prod_beta)
qed simp

lemma mmc_frame_arg: "foldl (\<lambda>a b. push_bit 8 a OR ucast b) 0 (take 4 (tl (mmc_frame cmd arg crc))) = (arg :: os_u32)"
proof (rule bit_word_eqI)
  fix n assume "n < LENGTH(32)"
  then consider "n < 8" | "8 \<le> n" "n < 16" | "16 \<le> n" "n < 24" | "24 \<le> n" "n < 32" by fastforce
  then show "bit (foldl (\<lambda>a b. push_bit 8 a OR ucast b) (0 :: os_u32) (take 4 (tl (mmc_frame cmd arg crc)))) n = bit arg n"
    by cases (auto simp: mmc_frame_def bit_simps)
qed

lemma mmc_open_idle:
  assumes "mmc_open d m = Some (r, m')"
  shows "r = SD_IN_IDLE_STATE"
  using assms by (auto simp: mmc_open_def Let_def case_prod_beta' split: bind_splits if_splits)

section \<open>Properties\<close>

text \<open>
  A register access over I2C performs the operations of its script (start, write order, register, and the data or a repeated
  start, the read order and the read; every byte acknowledged; stop) in this order. It returns 0 exactly when all of them
  succeeded. Otherwise it returns \<^verbatim>\<open>-EINVAL\<close> right after the first operation that fails, and nothing else is done on the bus, so that no stop
  condition is sent.
\<close>

theorem iic_register_access:
  assumes "recorded d lg w r"
  shows "bus_outcome d lg (write_script w reg data) s (iic_write_reg d reg data s) \<and>
    bus_outcome d lg (read_script w r reg data) s (iic_read_reg d reg data s)"
proof -
  have "write_order d s = w" and "read_order d s = r" for s
    using assms by (simp_all add: recorded_def)
  then show ?thesis
    using bus_outcome_run [OF assms] by (simp add: iic_write_reg_run iic_read_reg_run)
qed

text \<open>A bus that records its operations and on which the third and later bytes are not acknowledged.\<close>

definition demo_iic :: "bus_op list iic" where
  "demo_iic = \<lparr>iic_start = (\<lambda>s. Some (0, s @ [Bus_start])),
     iic_wait = (\<lambda>s. Some (if length (filter (\<lambda>x. x = Bus_wait) s) \<ge> 2 then - 1 else 0, s @ [Bus_wait])),
     iic_stop = (\<lambda>s. Some (0, s @ [Bus_stop])),
     send_bytes = (\<lambda>bs s. Some (1, s @ map Bus_send bs)),
     read_bytes = (\<lambda>bs ack s. Some (1, [0x55], s @ map Bus_read bs)),
     read_order = (\<lambda>s. 0xa1), write_order = (\<lambda>s. 0xa0)\<rparr>"

lemma demo_iic_recorded: "recorded demo_iic (\<lambda>s. s) 0xa0 0xa1"
  unfolding recorded_def
proof (intro conjI allI)
  show "\<exists>ok s'. bus_do demo_iic x s = Some (ok, s') \<and> s' = s @ [x]" for x s
    by (cases x) (auto simp: demo_iic_def)
qed (simp_all add: demo_iic_def)

theorem iic_register_access_witness:
  "bus_outcome demo_iic (\<lambda>s. s) (write_script 0xa0 7 9) [] (iic_write_reg demo_iic 7 9 []) \<and>
   iic_write_reg demo_iic 7 9 [] = Some (- EINVAL, take 7 (write_script 0xa0 7 9))"
  using iic_register_access [OF demo_iic_recorded, of 7 9 "[]"]
  by (simp add: iic_write_reg_def unless_fails_def unless_short_def demo_iic_def write_script_def)

text \<open>
  A card command puts six bytes on the bus, the command, the argument with its most significant byte first and the checksum, and then
  polls the card at most 2000 times. The result is the first answer that is not the idle byte when one of the first 1999 polls gives it, and
  \<^verbatim>\<open>SD_RESPONSE_FAILURE\<close> otherwise; the card is released after the last poll.
\<close>

theorem mmc_send_cmd_answer:
  "let s0 = fold (\<lambda>b s. snd (read_write d b s)) (mmc_frame cmd arg crc) (mmc_select d s);
       n = idle_polls d 1999 s0
   in mmc_send_cmd d cmd arg crc s =
        (if n < 1999 then uint (mmc_answers d 1999 s0 ! n) else SD_RESPONSE_FAILURE, mmc_release d (mmc_clock d (Suc n) s0)) \<and>
      length (mmc_frame cmd arg crc) = 6 \<and>
      foldl (\<lambda>a b. push_bit 8 a OR ucast b) 0 (take 4 (tl (mmc_frame cmd arg crc))) = arg"
proof -
  have poll: "mmc_poll d 2000 s = (mmc_answers d 2000 s ! idle_polls d 1999 s, 1999 - idle_polls d 1999 s,
      mmc_clock d (Suc (idle_polls d 1999 s)) s)" for s
    using mmc_poll_first [of d 1999 s] by (simp del: mmc_poll.simps mmc_answers.simps mmc_clock.simps)
  have ans: "mmc_answers d 2000 s ! k = mmc_answers d 1999 s ! k" if "k < 1999" for s k
    using mmc_answers_nth_Suc [OF that, of d s] by (simp del: mmc_answers.simps)
  show ?thesis
    using idle_polls_le [of d 1999] by (simp add: Let_def mmc_send_cmd_def poll ans mmc_frame_arg) (simp add: mmc_frame_def)
qed

end
