(* ===== verification/Frames.thy ===== *)
theory Frames
  imports Pbuf_Data
begin

text \<open>
  What the kernel leaves alone. A view \<open>g\<close> of the state that depends on nothing the scheduler, the heap and the packet buffers write is the same before and after locking, allocating, releasing
  and copying, unless another thread changes it while the caller is blocked. The components above the packet buffers get their frame conditions by interpreting the locale.
\<close>

section \<open>The scheduler and the heap\<close>

lemma switch_more: "sched_switch_thread s = Some s' \<Longrightarrow> kstate.more s' = kstate.more s"
  by (auto simp: sched_switch_thread_def hw_interrupt_suspend_def hw_interrupt_recover_def hw_context_switch_def Let_def split: Option.bind_splits if_splits)

lemma block_more: "block_current h s = Some s' \<Longrightarrow> kstate.more s' = kstate.more s"
  by (auto simp: block_current_def Let_def sched_set_thread_suspend_def sched_leave_ready_def upd_links_def upd_thread_def dest!: switch_more)

lemma wake_more: "wake_first h s = Some s' \<Longrightarrow> kstate.more s' = kstate.more s"
  by (auto simp: wake_first_def Let_def sched_set_thread_ready_def upd_links_def upd_thread_def dest!: switch_more split: if_splits Option.bind_splits)

lemma lock_once_more:
  assumes "mutex_lock_once m s = Some (r, s')"
  shows "kstate.more s' = kstate.more s"
proof -
  consider "current_thread s = NULL" | "current_thread s \<noteq> NULL" "owner m s = NULL" | "current_thread s \<noteq> NULL" "owner m s = current_thread s"
    | "current_thread s \<noteq> NULL" "owner m s \<noteq> NULL" "owner m s \<noteq> current_thread s" by blast
  then show ?thesis
  proof cases
    case 1
    then show ?thesis using assms by (simp add: mutex_lock_once_def get_current_thread_def)
  next
    case 2
    then show ?thesis using assms lock_once_free [of s m] by (auto simp: set_owner_def)
  next
    case 3
    then show ?thesis using assms lock_once_own [of s m] by simp
  next
    case 4
    then show ?thesis using assms lock_once_taken [of s m] block_more [of "Mutex_head m" s] by auto
  qed
qed

lemma unlock_more:
  assumes "pthread_mutex_unlock m s = Some (r, s')"
  shows "kstate.more s' = kstate.more s"
proof (cases "current_thread s = NULL")
  case True
  then show ?thesis using assms by (simp add: pthread_mutex_unlock_def get_current_thread_def)
next
  case False
  then show ?thesis
    using assms unlock_eq [of s m] wake_more [of "Mutex_head m" "set_owner m NULL s"] by (auto simp: set_owner_def split: if_splits)
qed

definition keeps :: "('s \<Rightarrow> 'b) \<Rightarrow> ('s \<Rightarrow> 's option) \<Rightarrow> bool" where
  "keeps g f \<longleftrightarrow> (\<forall>s s'. f s = Some s' \<longrightarrow> g s' = g s)"

lemma keepsD: "keeps g f \<Longrightarrow> f s = Some s' \<Longrightarrow> g s' = g s"
  by (simp add: keeps_def)

text \<open>A view of what lies beyond the scheduler.\<close>

definition beyond :: "('a kstate_scheme \<Rightarrow> 'b) \<Rightarrow> bool" where
  "beyond g \<longleftrightarrow> (\<forall>s s'. kstate.more s' = kstate.more s \<longrightarrow> g s' = g s)"

lemma beyondD: "beyond g \<Longrightarrow> kstate.more s' = kstate.more s \<Longrightarrow> g s' = g s"
  unfolding beyond_def by blast

lemma lock_loop_keeps:
  assumes "beyond g" and "\<And>s s'. env s = Some s' \<Longrightarrow> g s' = g s"
  shows "mutex_lock_loop env m n r s = Some (r', s') \<Longrightarrow> g s' = g s"
proof (induction n arbitrary: r s)
  case (Suc n)
  obtain r1 s1 where s1: "mutex_lock_once m s = Some (r1, s1)"
    "(if r1 \<noteq> - EAGAIN then Some (r1, s1) else do { s \<leftarrow> env s1; mutex_lock_loop env m n r1 s }) = Some (r', s')"
    using Suc.prems by (auto simp: bind_eq_Some_conv)
  have g: "g s1 = g s" using beyondD [OF assms(1) lock_once_more [OF s1(1)]] .
  show ?case
  proof (cases "r1 = - EAGAIN")
    case True
    then obtain s2 where "env s1 = Some s2" "mutex_lock_loop env m n r1 s2 = Some (r', s')"
      using s1(2) by (auto simp: bind_eq_Some_conv)
    then show ?thesis using Suc.IH assms(2) g by metis
  next
    case False
    then show ?thesis using s1 g by auto
  qed
qed simp

lemma unlock_keeps: "beyond g \<Longrightarrow> pthread_mutex_unlock m s = Some (r, s') \<Longrightarrow> g s' = g s"
  by (rule beyondD [OF _ unlock_more])

lemma lock_keeps:
  assumes "beyond g" and "\<And>s s'. env s = Some s' \<Longrightarrow> g s' = g s" and "pthread_mutex_lock env m s = Some (r, s')"
  shows "g s' = g s"
  using assms(3) lock_loop_keeps [OF assms(1,2)] unfolding pthread_mutex_lock_def by blast

lemma malloc_keeps:
  fixes g :: "'a kernel_scheme \<Rightarrow> 'b"
  assumes b: "beyond g" and h: "\<And>s h. g (s\<lparr>heap := h\<rparr>) = g s" and env: "keeps g env"
    and run: "malloc env sz s = Some (p, s')"
  shows "g s' = g s"
proof (cases "sz = 0 \<or> malloc_size sz > mem_total_size (heap s) - mem_used_size (heap s)")
  case True
  then show ?thesis using run by (auto simp: malloc_def Let_def split: if_splits)
next
  case False
  then obtain r s1 found where s1: "pthread_mutex_lock env (heap_mem_mutex s) s = Some (r, s1)" and
    f: "(case found of None \<Rightarrow> do { (ret, s) \<leftarrow> pthread_mutex_unlock (heap_mem_mutex s1) s1; Some (NULL, s) }
      | Some mem_ptr \<Rightarrow> do { (p, h) \<leftarrow> heap_take (malloc_size sz) mem_ptr (heap s1);
          (ret, s) \<leftarrow> pthread_mutex_unlock (heap_mem_mutex s1) (s1\<lparr>heap := h\<rparr>); Some (p, s) }) = Some (p, s')"
    using run by (auto simp: malloc_def Let_def bind_eq_Some_conv)
  have g1: "g s1 = g s" using lock_keeps [OF b keepsD [OF env] s1] .
  have "\<exists>r h. pthread_mutex_unlock (heap_mem_mutex s1) (s1\<lparr>heap := h\<rparr>) = Some (r, s')"
  proof (cases found)
    case None
    then show ?thesis using f by (auto simp: bind_eq_Some_conv intro!: exI [of _ "heap s1"])
  next
    case (Some a)
    then show ?thesis using f by (auto simp: bind_eq_Some_conv)
  qed
  then show ?thesis using unlock_keeps [OF b] g1 h by metis
qed

lemma free_keeps:
  fixes g :: "'a kernel_scheme \<Rightarrow> 'b"
  assumes b: "beyond g" and h: "\<And>s h. g (s\<lparr>heap := h\<rparr>) = g s" and env: "keeps g env"
    and run: "free env mem s = Some s'"
  shows "g s' = g s"
proof (cases "mem = NULL \<or> mem \<le> heap_mem_begin (heap s) \<or> mem \<ge> heap_mem_end (heap s)")
  case True
  then show ?thesis using run by (auto simp: free_def split: if_splits)
next
  case False
  then obtain r s1 r2 where s1: "pthread_mutex_lock env (heap_mem_mutex s) s = Some (r, s1)"
      "pthread_mutex_unlock (heap_mem_mutex s1) (s1\<lparr>heap := freed (heap s1) (mem - HEAP_HDR)\<rparr>) = Some (r2, s')"
    using run by (auto simp: free_def bind_eq_Some_conv split: if_splits)
  then show ?thesis using lock_keeps [OF b keepsD [OF env] s1(1)] unlock_keeps [OF b s1(2)] h by simp
qed
section \<open>Packets\<close>

locale outside_packets =
  fixes g :: "'a pbkernel_scheme \<Rightarrow> 'b"
  assumes view_beyond: "beyond g"
    and view_heap: "g (s\<lparr>heap := h\<rparr>) = g s"
    and view_pbufs: "g (s\<lparr>pbufs := f\<rparr>) = g s"
    and view_pools: "g (s\<lparr>memp_tab := t\<rparr>) = g s"
    and view_mem8: "g (s\<lparr>mem8 := m\<rparr>) = g s"
begin

lemmas views = view_heap view_pbufs view_pools view_mem8

lemma upd_pbuf_view: "g (upd_pbuf p f s) = g s"
  by (simp add: upd_pbuf_def views)

lemma memp_free_view: "g (memp_free k p s) = g s"
  by (simp add: memp_free_def Let_def views upd_pbuf_view)

lemma memp_malloc_view: "memp_malloc k s = (p, s') \<Longrightarrow> g s' = g s"
  by (auto simp: memp_malloc_def Let_def views split: if_splits)

lemma malloc_view: "keeps g env \<Longrightarrow> malloc env sz s = Some (p, s') \<Longrightarrow> g s' = g s"
  by (rule malloc_keeps [OF view_beyond view_heap])

lemma dealloc_view:
  "keeps g env \<Longrightarrow> keeps g (custom p) \<Longrightarrow> pbuf_dealloc custom env p s = Some s' \<Longrightarrow> g s' = g s"
  using keepsD [of g "custom p" s s'] free_keeps [OF view_beyond view_heap, where mem = p and s = s and s' = s' and env = env]
  by (auto simp: pbuf_dealloc_def Let_def memp_free_view split: if_splits)

lemma free_loop_view:
  assumes quiet: "keeps g env" "\<And>p. keeps g (custom p)" and "pbuf_free_loop custom env p c s = Some r"
  shows "g (snd r) = g s"
proof -
  have "c' = custom \<and> e' = env \<longrightarrow> g (snd r) = g s" if "pbuf_free_loop c' e' p c s = Some r" for c' e'
  proof (rule pbuf_free_loop.raw_induct [where P = "\<lambda>c' e' p c s r. c' = custom \<and> e' = env \<longrightarrow> g (snd r) = g s", OF _ that], rule impI, elim conjE)
    fix loop c' e' p c s r
    assume 1: "\<And>c' e' p c s r. loop c' e' p c s = Some r \<Longrightarrow> c' = custom \<and> e' = env \<longrightarrow> g (snd r) = g s"
      and 2: "(if p = NULL then Some (c, s)
        else let s = upd_pbuf p (\<lambda>x. x\<lparr>pb_ref := pb_ref x - 1\<rparr>) s
          in if pb_ref (pbufs s p) = 0 then let q = pb_next (pbufs s p) in pbuf_dealloc c' e' p s \<bind> loop c' e' q (c + 1) else Some (c, s)) = Some r"
      and ce: "c' = custom" "e' = env"
      let ?s1 = "upd_pbuf p (\<lambda>x. x\<lparr>pb_ref := pb_ref x - 1\<rparr>) s"
      show "g (snd r) = g s"
      proof (cases "p \<noteq> NULL \<and> pb_ref (pbufs ?s1 p) = 0")
        case True
        then obtain s2 where "pbuf_dealloc custom env p ?s1 = Some s2" "loop custom env (pb_next (pbufs ?s1 p)) (c + 1) s2 = Some r"
          using 2 ce by (auto simp: bind_eq_Some_conv Let_def)
        then show ?thesis using 1 [of custom env "pb_next (pbufs ?s1 p)" "c + 1" s2 r] dealloc_view [OF quiet, where p = p and s = ?s1 and s' = s2] upd_pbuf_view [of p _ s] by simp
      next
        case False
        then show ?thesis using 2 upd_pbuf_view by (auto simp: Let_def split: if_splits)
      qed
  qed
  then show ?thesis using assms(3) by blast
qed

lemma pbuf_free_view:
  "keeps g env \<Longrightarrow> (\<And>p. keeps g (custom p)) \<Longrightarrow> pbuf_free custom env p s = Some (c, s') \<Longrightarrow> g s' = g s"
  using free_loop_view [of env custom p 0 s "(c, s')"] by (auto simp: pbuf_free_def split: if_splits)

lemma alloc_tail_view:
  assumes quiet: "keeps g env" "\<And>p. keeps g (custom p)" and "pbuf_alloc_tail custom env p q n s = Some r"
  shows "g (snd r) = g s"
proof -
  have "c' = custom \<and> e' = env \<longrightarrow> g (snd r) = g s" if "pbuf_alloc_tail c' e' p q n s = Some r" for c' e'
  proof (rule pbuf_alloc_tail.raw_induct [where P = "\<lambda>c' e' p q n s r. c' = custom \<and> e' = env \<longrightarrow> g (snd r) = g s", OF _ that], rule impI, elim conjE)
    fix loop c' e' p q n s r
    assume 1: "\<And>c' e' p q n s r. loop c' e' p q n s = Some r \<Longrightarrow> c' = custom \<and> e' = env \<longrightarrow> g (snd r) = g s"
      and 2: "(if n > 0 then let (q1, s) = memp_malloc MEMP_PBUF_POOL s
        in if q1 = NULL then do { (k, s) \<leftarrow> pbuf_free c' e' p s; Some (NULL, s) }
           else let s = upd_pbuf q1 (\<lambda>x. x\<lparr>pb_type := PBUF_POOL, pb_flags := 0, pb_next := NULL\<rparr>) s;
                    s = upd_pbuf q (\<lambda>x. x\<lparr>pb_next := q1\<rparr>) s;
                    s = upd_pbuf q1 (\<lambda>x. x\<lparr>pb_tot_len := word_of_int n, pb_len := min (word_of_int n) PBUF_POOL_BUFSIZE_ALIGNED,
                          pb_payload := q1 + SIZEOF_STRUCT_PBUF, pb_ref := 1\<rparr>) s
                in loop c' e' p q1 (n - uint (pb_len (pbufs s q1))) s
        else Some (p, s)) = Some r"
      and ce: "c' = custom" "e' = env"
      obtain q1 s1 where m: "memp_malloc MEMP_PBUF_POOL s = (q1, s1)" by fastforce
      note g1 = memp_malloc_view [OF m]
      show "g (snd r) = g s"
      proof (cases "n > 0 \<and> q1 \<noteq> NULL")
        case True
        then show ?thesis using 2 ce m 1 g1 by (auto simp: Let_def upd_pbuf_view)
      next
        case False
        then show ?thesis using 2 ce m g1 pbuf_free_view [OF quiet, where p = p and s = s1] by (auto simp: bind_eq_Some_conv split: if_splits)
      qed
  qed
  then show ?thesis using assms(3) by blast
qed

lemma pbuf_alloc_view:
  assumes quiet: "keeps g env" "\<And>p. keeps g (custom p)" and "pbuf_alloc custom env layer len type s = Some (p, s')"
  shows "g s' = g s"
proof -
  have pool: "g s' = g s" if "pbuf_alloc_pool custom env off len s = Some (p, s')" for off p s'
  proof -
    obtain q1 s1 where m: "memp_malloc MEMP_PBUF_POOL s = (q1, s1)" by fastforce
    show ?thesis
      using that memp_malloc_view [OF m] m by (auto simp: pbuf_alloc_pool_def Let_def upd_pbuf_view dest!: alloc_tail_view [OF quiet] split: if_splits)
  qed
  have rom: "g s' = g s" if "memp_malloc MEMP_PBUF s = (p, s')" for p s' using memp_malloc_view [OF that] .
  show ?thesis
    using assms(3) unfolding pbuf_alloc_def
    by (auto simp: bind_eq_Some_conv Let_def upd_pbuf_view split: option.splits if_splits prod.splits dest!: pool malloc_view [OF quiet(1)] rom)
qed

lemma MEMCPY_view: "g (MEMCPY dst src n s) = g s"
  by (simp add: MEMCPY_def views)

lemma copy_loop_view: "pbuf_copy_loop p i q j s = Some r \<Longrightarrow> g (snd r) = g s"
  by (erule pbuf_copy_loop.raw_induct [where P = "\<lambda>p i q j s r. g (snd r) = g s", rotated])
    (auto simp: Let_def MEMCPY_view split: if_splits)

lemma pbuf_copy_view: "pbuf_copy p q s = Some (r, s') \<Longrightarrow> g s' = g s"
  using copy_loop_view [of p 0 q 0 s "(r, s')"] by (auto simp: pbuf_copy_def split: if_splits)

lemma pbuf_header_view: "g (snd (pbuf_header p n s)) = g s"
  by (auto simp: pbuf_header_def Let_def upd_pbuf_view)

end

end
