(* ===== verification/Etharp.thy ===== *)
theory Etharp
  imports Netport Frames
begin

text \<open>
  Address resolution, \<^verbatim>\<open>hwutil/net/lwip/source/netif/etharp.c\<close>: the table of ARP entries with its ageing, search and recycling, the packets that wait for an
  address, sending over Ethernet, and what arrives from it. The configuration has one waiting packet per entry (no \<^verbatim>\<open>ARP_QUEUEING\<close>), ten entries, no static entries, no VLAN tags, no
  address hints, no AutoIP and no trust in the addresses of IP packets; \<^verbatim>\<open>LWIP_DEBUG\<close> is not defined and the assertions do nothing.

  A pointer to an Ethernet address is the list of the six bytes it points to, a pointer to an IP address is the address (\<open>None\<close> for NULL). What the module calls through pointers, the
  custom release of buffers, what happens while the caller waits for the heap, and the ARP check of DHCP are the members of a record \<open>netenv\<close>.
\<close>

section \<open>The table\<close>

datatype etharp_state = ETHARP_STATE_EMPTY | ETHARP_STATE_PENDING | ETHARP_STATE_STABLE | ETHARP_STATE_STABLE_REREQUESTING

primrec state_num :: "etharp_state \<Rightarrow> nat" where
  "state_num ETHARP_STATE_EMPTY = 0"
| "state_num ETHARP_STATE_PENDING = 1"
| "state_num ETHARP_STATE_STABLE = 2"
| "state_num ETHARP_STATE_STABLE_REREQUESTING = 3"

lemma state_num_inj: "state_num a = state_num b \<longleftrightarrow> a = b"
  by (cases a; cases b) simp_all

text \<open>The code compares the states as the numbers the enumeration gives them.\<close>

instantiation etharp_state :: linorder
begin

definition less_eq_etharp_state :: "etharp_state \<Rightarrow> etharp_state \<Rightarrow> bool" where
  "less_eq_etharp_state a b \<longleftrightarrow> state_num a \<le> state_num b"

definition less_etharp_state :: "etharp_state \<Rightarrow> etharp_state \<Rightarrow> bool" where
  "less_etharp_state a b \<longleftrightarrow> state_num a < state_num b"

instance
  by standard (auto simp: less_eq_etharp_state_def less_etharp_state_def state_num_inj)

end

lemma stable_states [simp]:
  "\<not> ETHARP_STATE_STABLE \<le> ETHARP_STATE_EMPTY" "\<not> ETHARP_STATE_STABLE \<le> ETHARP_STATE_PENDING"
  "ETHARP_STATE_STABLE \<le> ETHARP_STATE_STABLE_REREQUESTING"
  by (simp_all add: less_eq_etharp_state_def)

type_synonym eth_addr = "os_u8 list"

record etharp_entry =
  ae_q :: addr
  ae_ipaddr :: os_u32
  ae_netif :: addr
  ae_ethaddr :: eth_addr
  ae_state :: etharp_state
  ae_ctime :: os_u8

record arpkernel = portkernel +
  arp_table :: "nat \<Rightarrow> etharp_entry"
  etharp_cached_entry :: os_u8

type_synonym 'a aenv = "'a arpkernel_scheme \<Rightarrow> 'a arpkernel_scheme option"

record 's netenv =
  custom_free :: "addr \<Rightarrow> 's \<Rightarrow> 's option"
  meanwhile :: "'s \<Rightarrow> 's option"
  link_call :: "addr \<Rightarrow> addr \<Rightarrow> addr \<Rightarrow> 's \<Rightarrow> (int \<times> 's) option"
  dhcp_arp_reply :: "addr \<Rightarrow> os_u32 \<Rightarrow> 's \<Rightarrow> 's option"

definition ERR_MEM :: int where "ERR_MEM = - 1"
definition ERR_BUF :: int where "ERR_BUF = - 2"
definition ERR_RTE :: int where "ERR_RTE = - 4"

definition ARP_TABLE_SIZE :: nat where "ARP_TABLE_SIZE = 10"
definition ARP_MAXAGE :: os_u8 where "ARP_MAXAGE = 240"
definition ARP_AGE_REREQUEST_USED :: os_u8 where "ARP_AGE_REREQUEST_USED = ARP_MAXAGE - 12"
definition ARP_MAXPENDING :: os_u8 where "ARP_MAXPENDING = 2"
definition ETHARP_FLAG_TRY_HARD :: os_u8 where "ETHARP_FLAG_TRY_HARD = 1"
definition ETHARP_FLAG_FIND_ONLY :: os_u8 where "ETHARP_FLAG_FIND_ONLY = 2"

definition upd_arp :: "nat \<Rightarrow> (etharp_entry \<Rightarrow> etharp_entry) \<Rightarrow> 'a arpkernel_scheme \<Rightarrow> 'a arpkernel_scheme" where
  "upd_arp i f s = s\<lparr>arp_table := (arp_table s)(i := f (arp_table s i))\<rparr>"

abbreviation pfree :: "'a arpkernel_scheme netenv \<Rightarrow> addr \<Rightarrow> 'a arpkernel_scheme \<Rightarrow> (os_u8 \<times> 'a arpkernel_scheme) option" where
  "pfree e \<equiv> pbuf_free (custom_free e) (meanwhile e)"

abbreviation palloc :: "'a arpkernel_scheme netenv \<Rightarrow> nat \<Rightarrow> os_u16 \<Rightarrow> os_u8 \<Rightarrow> 'a arpkernel_scheme \<Rightarrow> (addr \<times> 'a arpkernel_scheme) option" where
  "palloc e \<equiv> pbuf_alloc (custom_free e) (meanwhile e)"

definition etharp_free_entry :: "'a arpkernel_scheme netenv \<Rightarrow> nat \<Rightarrow> 'a aenv" where
  "etharp_free_entry e i s =
     do {
       s \<leftarrow> (if ae_q (arp_table s i) \<noteq> NULL
             then do { (c, s) \<leftarrow> pfree e (ae_q (arp_table s i)) s; Some (upd_arp i (\<lambda>x. x\<lparr>ae_q := NULL\<rparr>) s) }
             else Some s);
       Some (upd_arp i (\<lambda>x. x\<lparr>ae_state := ETHARP_STATE_EMPTY\<rparr>) s)
     }"

text \<open>The body of the loop of \<^verbatim>\<open>etharp_tmr\<close>.\<close>

definition etharp_age :: "'a arpkernel_scheme netenv \<Rightarrow> nat \<Rightarrow> 'a aenv" where
  "etharp_age e i s =
     (if ae_state (arp_table s i) \<noteq> ETHARP_STATE_EMPTY
      then let s = upd_arp i (\<lambda>x. x\<lparr>ae_ctime := ae_ctime x + 1\<rparr>) s;
               x = arp_table s i
           in if ae_ctime x \<ge> ARP_MAXAGE \<or> ae_state x = ETHARP_STATE_PENDING \<and> ae_ctime x \<ge> ARP_MAXPENDING
              then etharp_free_entry e i s
              else if ae_state x = ETHARP_STATE_STABLE_REREQUESTING
              then Some (upd_arp i (\<lambda>x. x\<lparr>ae_state := ETHARP_STATE_STABLE\<rparr>) s)
              else Some s
      else Some s)"

definition etharp_tmr :: "'a arpkernel_scheme netenv \<Rightarrow> 'a aenv" where
  "etharp_tmr e s = fold_option (etharp_age e) [0..<ARP_TABLE_SIZE] s"

definition etharp_cleanup_netif :: "'a arpkernel_scheme netenv \<Rightarrow> addr \<Rightarrow> 'a aenv" where
  "etharp_cleanup_netif e n s =
     fold_option (\<lambda>i s. if ae_state (arp_table s i) \<noteq> ETHARP_STATE_EMPTY \<and> ae_netif (arp_table s i) = n then etharp_free_entry e i s else Some s)
       [0..<ARP_TABLE_SIZE] s"

section \<open>Searching\<close>

text \<open>The candidates that the sweep through the table remembers, with their ages.\<close>

record arp_scan =
  sc_empty :: nat
  sc_stable :: nat
  sc_pending :: nat
  sc_queue :: nat
  age_stable :: os_u8
  age_pending :: os_u8
  age_queue :: os_u8

definition scan_start :: arp_scan where
  "scan_start = \<lparr>sc_empty = ARP_TABLE_SIZE, sc_stable = ARP_TABLE_SIZE, sc_pending = ARP_TABLE_SIZE, sc_queue = ARP_TABLE_SIZE,
     age_stable = 0, age_pending = 0, age_queue = 0\<rparr>"

definition scan_entry :: "nat \<Rightarrow> etharp_entry \<Rightarrow> arp_scan \<Rightarrow> arp_scan" where
  "scan_entry i x c =
     (if sc_empty c = ARP_TABLE_SIZE \<and> ae_state x = ETHARP_STATE_EMPTY then c\<lparr>sc_empty := i\<rparr>
      else if ae_state x \<noteq> ETHARP_STATE_EMPTY
      then if ae_state x = ETHARP_STATE_PENDING
           then if ae_q x \<noteq> NULL
                then if ae_ctime x \<ge> age_queue c then c\<lparr>sc_queue := i, age_queue := ae_ctime x\<rparr> else c
                else if ae_ctime x \<ge> age_pending c then c\<lparr>sc_pending := i, age_pending := ae_ctime x\<rparr> else c
           else if ae_state x \<ge> ETHARP_STATE_STABLE
           then if ae_ctime x \<ge> age_stable c then c\<lparr>sc_stable := i, age_stable := ae_ctime x\<rparr> else c
           else c
      else c)"

text \<open>The sweep: the index of a matching entry, or the candidates.\<close>

primrec scan_table :: "(nat \<Rightarrow> etharp_entry) \<Rightarrow> os_u32 option \<Rightarrow> nat list \<Rightarrow> arp_scan \<Rightarrow> nat + arp_scan" where
  "scan_table tab ipaddr [] c = Inr c"
| "scan_table tab ipaddr (i # is) c =
     (if ae_state (tab i) \<noteq> ETHARP_STATE_EMPTY \<and> ipaddr = Some (ae_ipaddr (tab i)) then Inl i
      else scan_table tab ipaddr is (scan_entry i (tab i) c))"

definition etharp_find_entry :: "'a arpkernel_scheme netenv \<Rightarrow> os_u32 option \<Rightarrow> os_u8 \<Rightarrow> 'a arpkernel_scheme \<Rightarrow> (int \<times> 'a arpkernel_scheme) option" where
  "etharp_find_entry e ipaddr flags s =
     (case scan_table (arp_table s) ipaddr [0..<ARP_TABLE_SIZE] scan_start of
        Inl i \<Rightarrow> Some (int i, s)
      | Inr c \<Rightarrow>
          if flags AND ETHARP_FLAG_FIND_ONLY \<noteq> 0 \<or> sc_empty c = ARP_TABLE_SIZE \<and> flags AND ETHARP_FLAG_TRY_HARD = 0 then Some (ERR_MEM, s)
          else let i = (if sc_empty c < ARP_TABLE_SIZE then sc_empty c
                        else if sc_stable c < ARP_TABLE_SIZE then sc_stable c
                        else if sc_pending c < ARP_TABLE_SIZE then sc_pending c
                        else sc_queue c)
               in if i < ARP_TABLE_SIZE
                  then do {
                    s \<leftarrow> (if sc_empty c < ARP_TABLE_SIZE then Some s else etharp_free_entry e i s);
                    let s = (case ipaddr of None \<Rightarrow> s | Some a \<Rightarrow> upd_arp i (\<lambda>x. x\<lparr>ae_ipaddr := a\<rparr>) s);
                    Some (int i, upd_arp i (\<lambda>x. x\<lparr>ae_ctime := 0\<rparr>) s)
                  }
                  else Some (ERR_MEM, s))"

text \<open>The two result pointers are the index, from which they are computed.\<close>

definition etharp_find_addr :: "'a arpkernel_scheme netenv \<Rightarrow> os_u32 option \<Rightarrow> 'a arpkernel_scheme \<Rightarrow>
    (int \<times> (eth_addr \<times> os_u32) option \<times> 'a arpkernel_scheme) option" where
  "etharp_find_addr e ipaddr s =
     do {
       (i, s) \<leftarrow> etharp_find_entry e ipaddr ETHARP_FLAG_FIND_ONLY s;
       if i \<ge> 0 \<and> ae_state (arp_table s (nat i)) \<ge> ETHARP_STATE_STABLE
       then Some (i, Some (ae_ethaddr (arp_table s (nat i)), ae_ipaddr (arp_table s (nat i))), s)
       else Some (- 1, None, s)
     }"

section \<open>Headers\<close>

text \<open>\<^verbatim>\<open>struct eth_hdr\<close>: destination, source, type. \<^verbatim>\<open>struct etharp_hdr\<close>: types and lengths, operation, sender and target with their two addresses each.\<close>

definition SIZEOF_ETH_HDR :: os_u16 where "SIZEOF_ETH_HDR = 14"
definition SIZEOF_ETHARP_PACKET :: os_u16 where "SIZEOF_ETHARP_PACKET = SIZEOF_ETH_HDR + 28"

abbreviation (input) eth_dest :: "addr \<Rightarrow> addr" where "eth_dest h \<equiv> h"
abbreviation (input) eth_src :: "addr \<Rightarrow> addr" where "eth_src h \<equiv> h + 6"
abbreviation (input) eth_type :: "addr \<Rightarrow> addr" where "eth_type h \<equiv> h + 12"
abbreviation (input) arp_hwtype :: "addr \<Rightarrow> addr" where "arp_hwtype h \<equiv> h"
abbreviation (input) arp_proto :: "addr \<Rightarrow> addr" where "arp_proto h \<equiv> h + 2"
abbreviation (input) arp_hwlen :: "addr \<Rightarrow> addr" where "arp_hwlen h \<equiv> h + 4"
abbreviation (input) arp_protolen :: "addr \<Rightarrow> addr" where "arp_protolen h \<equiv> h + 5"
abbreviation (input) arp_opcode :: "addr \<Rightarrow> addr" where "arp_opcode h \<equiv> h + 6"
abbreviation (input) arp_shwaddr :: "addr \<Rightarrow> addr" where "arp_shwaddr h \<equiv> h + 8"
abbreviation (input) arp_sipaddr :: "addr \<Rightarrow> addr" where "arp_sipaddr h \<equiv> h + 14"
abbreviation (input) arp_dhwaddr :: "addr \<Rightarrow> addr" where "arp_dhwaddr h \<equiv> h + 18"
abbreviation (input) arp_dipaddr :: "addr \<Rightarrow> addr" where "arp_dipaddr h \<equiv> h + 24"

definition HWTYPE_ETHERNET :: os_u16 where "HWTYPE_ETHERNET = 1"
definition ETHTYPE_ARP :: os_u16 where "ETHTYPE_ARP = 0x0806"
definition ETHTYPE_IP :: os_u16 where "ETHTYPE_IP = 0x0800"
definition ARP_REQUEST :: os_u16 where "ARP_REQUEST = 1"
definition ARP_REPLY :: os_u16 where "ARP_REPLY = 2"

definition ethbroadcast :: eth_addr where "ethbroadcast = replicate 6 0xff"
definition ethzero :: eth_addr where "ethzero = replicate 6 0"

text \<open>\<^verbatim>\<open>PP_HTONS\<close> is the constant form of \<^verbatim>\<open>htons\<close>. Half-words and words are stored low byte first; \<open>put\<close> is a copy of given bytes.\<close>

definition PP_HTONS :: "os_u16 \<Rightarrow> os_u16" where
  "PP_HTONS x = push_bit 8 (x AND 0xff) OR drop_bit 8 (x AND 0xff00)"

primrec put :: "addr \<Rightarrow> os_u8 list \<Rightarrow> bytes \<Rightarrow> bytes" where
  "put a [] m = m"
| "put a (b # bs) m = put (a + 1) bs (m(a := b))"

definition bytes16 :: "os_u16 \<Rightarrow> os_u8 list" where
  "bytes16 v = [ucast v, ucast (drop_bit 8 v)]"

definition bytes32 :: "os_u32 \<Rightarrow> os_u8 list" where
  "bytes32 v = [ucast v, ucast (drop_bit 8 v), ucast (drop_bit 16 v), ucast (drop_bit 24 v)]"

definition upd_mem8 :: "(bytes \<Rightarrow> bytes) \<Rightarrow> 'a arpkernel_scheme \<Rightarrow> 'a arpkernel_scheme" where
  "upd_mem8 f s = s\<lparr>mem8 := f (mem8 s)\<rparr>"

definition ip_addr_isany :: "os_u32 option \<Rightarrow> bool" where
  "ip_addr_isany a \<longleftrightarrow> a = None \<or> a = Some IPADDR_ANY"

definition ip_addr_ismulticast :: "os_u32 \<Rightarrow> bool" where
  "ip_addr_ismulticast a \<longleftrightarrow> a AND lwip_htonl 0xf0000000 = lwip_htonl 0xe0000000"

definition ip_addr_islinklocal :: "os_u32 \<Rightarrow> bool" where
  "ip_addr_islinklocal a \<longleftrightarrow> a AND lwip_htonl 0xffff0000 = lwip_htonl 0xa9fe0000"

section \<open>Sending\<close>

definition etharp_send_ip :: "'a arpkernel_scheme netenv \<Rightarrow> addr \<Rightarrow> addr \<Rightarrow> eth_addr \<Rightarrow> eth_addr \<Rightarrow> 'a arpkernel_scheme \<Rightarrow>
    (int \<times> 'a arpkernel_scheme) option" where
  "etharp_send_ip e n p src dst s =
     (let ethhdr = pb_payload (pbufs s p);
          s = upd_mem8 (put (eth_dest ethhdr) dst) s;
          s = upd_mem8 (put (eth_src ethhdr) src) s;
          s = upd_mem8 (put (eth_type ethhdr) (bytes16 (PP_HTONS ETHTYPE_IP))) s
      in link_call e (ni_linkoutput (netifs s n)) n p s)"

text \<open>The headers of an ARP packet are written field by field.\<close>

definition arp_fill :: "addr \<Rightarrow> eth_addr \<Rightarrow> eth_addr \<Rightarrow> eth_addr \<Rightarrow> os_u32 \<Rightarrow> eth_addr \<Rightarrow> os_u32 \<Rightarrow> os_u16 \<Rightarrow> bytes \<Rightarrow> bytes" where
  "arp_fill ethhdr ethsrc_addr ethdst_addr hwsrc_addr ipsrc_addr hwdst_addr ipdst_addr opcode m =
     (let hdr = ethhdr + ucast SIZEOF_ETH_HDR;
          m = put (arp_opcode hdr) (bytes16 (lwip_htons opcode)) m;
          m = put (arp_shwaddr hdr) hwsrc_addr m;
          m = put (arp_dhwaddr hdr) hwdst_addr m;
          m = put (eth_dest ethhdr) ethdst_addr m;
          m = put (eth_src ethhdr) ethsrc_addr m;
          m = put (arp_sipaddr hdr) (bytes32 ipsrc_addr) m;
          m = put (arp_dipaddr hdr) (bytes32 ipdst_addr) m;
          m = put (arp_hwtype hdr) (bytes16 (PP_HTONS HWTYPE_ETHERNET)) m;
          m = put (arp_proto hdr) (bytes16 (PP_HTONS ETHTYPE_IP)) m;
          m = put (arp_hwlen hdr) [ETHARP_HWADDR_LEN] m;
          m = put (arp_protolen hdr) [4] m
      in put (eth_type ethhdr) (bytes16 (PP_HTONS ETHTYPE_ARP)) m)"

definition etharp_raw :: "'a arpkernel_scheme netenv \<Rightarrow> addr \<Rightarrow> eth_addr \<Rightarrow> eth_addr \<Rightarrow> eth_addr \<Rightarrow> os_u32 \<Rightarrow> eth_addr \<Rightarrow> os_u32 \<Rightarrow> os_u16 \<Rightarrow>
    'a arpkernel_scheme \<Rightarrow> (int \<times> 'a arpkernel_scheme) option" where
  "etharp_raw e n ethsrc_addr ethdst_addr hwsrc_addr ipsrc_addr hwdst_addr ipdst_addr opcode s =
     do {
       (p, s) \<leftarrow> palloc e PBUF_RAW SIZEOF_ETHARP_PACKET PBUF_RAM s;
       if p = NULL then Some (ERR_MEM, s)
       else do {
         let ethhdr = pb_payload (pbufs s p);
         let s = upd_mem8 (arp_fill ethhdr ethsrc_addr ethdst_addr hwsrc_addr ipsrc_addr hwdst_addr ipdst_addr opcode) s;
         (result, s) \<leftarrow> link_call e (ni_linkoutput (netifs s n)) n p s;
         (c, s) \<leftarrow> pfree e p s;
         Some (result, s)
       }
     }"

definition etharp_request :: "'a arpkernel_scheme netenv \<Rightarrow> addr \<Rightarrow> os_u32 \<Rightarrow> 'a arpkernel_scheme \<Rightarrow> (int \<times> 'a arpkernel_scheme) option" where
  "etharp_request e n ipaddr s =
     (let x = netifs s n
      in etharp_raw e n (ni_hwaddr x) ethbroadcast (ni_hwaddr x) (ni_ip_addr x) ethzero ipaddr ARP_REQUEST s)"

definition etharp_gratuitous :: "'a arpkernel_scheme netenv \<Rightarrow> addr \<Rightarrow> 'a arpkernel_scheme \<Rightarrow> (int \<times> 'a arpkernel_scheme) option" where
  "etharp_gratuitous e n s = etharp_request e n (ni_ip_addr (netifs s n)) s"

definition etharp_output_to_arp_index :: "'a arpkernel_scheme netenv \<Rightarrow> addr \<Rightarrow> addr \<Rightarrow> nat \<Rightarrow> 'a arpkernel_scheme \<Rightarrow> (int \<times> 'a arpkernel_scheme) option" where
  "etharp_output_to_arp_index e n q arp_idx s =
     do {
       s \<leftarrow> (if ae_state (arp_table s arp_idx) = ETHARP_STATE_STABLE \<and> ae_ctime (arp_table s arp_idx) \<ge> ARP_AGE_REREQUEST_USED
             then do {
               (r, s) \<leftarrow> etharp_request e n (ae_ipaddr (arp_table s arp_idx)) s;
               if r = ERR_OK then Some (upd_arp arp_idx (\<lambda>x. x\<lparr>ae_state := ETHARP_STATE_STABLE_REREQUESTING\<rparr>) s) else Some s
             }
             else Some s);
       etharp_send_ip e n q (ni_hwaddr (netifs s n)) (ae_ethaddr (arp_table s arp_idx)) s
     }"

text \<open>The first buffer of the packet that is not in read-only memory, NULL if there is none.\<close>

partial_function (option) query_scan :: "addr \<Rightarrow> 'a arpkernel_scheme \<Rightarrow> addr option" where
  "query_scan p s =
     (if p = NULL then Some NULL
      else if pb_type (pbufs s p) \<noteq> PBUF_ROM then Some p
      else query_scan (pb_next (pbufs s p)) s)"

text \<open>The packet as it is kept while its address is being resolved, NULL without memory: a copy, or a reference to it if all of it is in read-only memory.\<close>

definition query_hold :: "'a arpkernel_scheme netenv \<Rightarrow> addr \<Rightarrow> 'a arpkernel_scheme \<Rightarrow> (addr \<times> 'a arpkernel_scheme) option" where
  "query_hold e q s =
     do {
       p \<leftarrow> query_scan q s;
       if p \<noteq> NULL
       then do {
         (p, s) \<leftarrow> palloc e PBUF_RAW (pb_tot_len (pbufs s p)) PBUF_RAM s;
         if p \<noteq> NULL
         then do {
           (r, s) \<leftarrow> pbuf_copy p q s;
           if r \<noteq> ERR_OK then do { (c, s) \<leftarrow> pfree e p s; Some (NULL, s) } else Some (p, s)
         }
         else Some (p, s)
       }
       else Some (q, pbuf_ref q s)
     }"

definition query_deliver :: "'a arpkernel_scheme netenv \<Rightarrow> addr \<Rightarrow> addr \<Rightarrow> eth_addr \<Rightarrow> nat \<Rightarrow> int \<Rightarrow> 'a arpkernel_scheme \<Rightarrow> (int \<times> 'a arpkernel_scheme) option" where
  "query_deliver e n q srcaddr i result s =
     (if ae_state (arp_table s i) \<ge> ETHARP_STATE_STABLE
      then let s = s\<lparr>etharp_cached_entry := of_nat i\<rparr>
           in etharp_send_ip e n q srcaddr (ae_ethaddr (arp_table s i)) s
      else if ae_state (arp_table s i) = ETHARP_STATE_PENDING
      then do {
        (p, s) \<leftarrow> query_hold e q s;
        if p \<noteq> NULL
        then do {
          s \<leftarrow> (if ae_q (arp_table s i) \<noteq> NULL then do { (c, s) \<leftarrow> pfree e (ae_q (arp_table s i)) s; Some s } else Some s);
          Some (ERR_OK, upd_arp i (\<lambda>x. x\<lparr>ae_q := p\<rparr>) s)
        }
        else Some (ERR_MEM, s)
      }
      else Some (result, s))"

definition etharp_query :: "'a arpkernel_scheme netenv \<Rightarrow> addr \<Rightarrow> os_u32 \<Rightarrow> addr \<Rightarrow> 'a arpkernel_scheme \<Rightarrow> (int \<times> 'a arpkernel_scheme) option" where
  "etharp_query e n ipaddr q s =
     (let srcaddr = ni_hwaddr (netifs s n)
      in if ip4_addr_isbroadcast ipaddr (netifs s n) \<or> ip_addr_ismulticast ipaddr \<or> ip_addr_isany (Some ipaddr) then Some (ERR_ARG, s)
         else do {
           (i, s) \<leftarrow> etharp_find_entry e (Some ipaddr) ETHARP_FLAG_TRY_HARD s;
           if i < 0 then Some (i, s)
           else do {
             let i = nat i;
             let s = (if ae_state (arp_table s i) = ETHARP_STATE_EMPTY then upd_arp i (\<lambda>x. x\<lparr>ae_state := ETHARP_STATE_PENDING\<rparr>) s else s);
             (result, s) \<leftarrow> (if ae_state (arp_table s i) = ETHARP_STATE_PENDING \<or> q = NULL then etharp_request e n ipaddr s else Some (ERR_MEM, s));
             if q = NULL then Some (result, s)
             else query_deliver e n q srcaddr i result s
           }
         })"

text \<open>The Ethernet address of a multicast group: three fixed bytes and the low 23 bits of the address.\<close>

definition mcastaddr :: "os_u32 \<Rightarrow> eth_addr" where
  "mcastaddr a = [0x01, 0x00, 0x5e, ucast (drop_bit 8 a) AND 0x7f, ucast (drop_bit 16 a), ucast (drop_bit 24 a)]"

definition etharp_output :: "'a arpkernel_scheme netenv \<Rightarrow> addr \<Rightarrow> addr \<Rightarrow> os_u32 \<Rightarrow> 'a arpkernel_scheme \<Rightarrow> (int \<times> 'a arpkernel_scheme) option" where
  "etharp_output e n q ipaddr s =
     (let (r, s) = pbuf_header q 14 s; x = netifs s n; hw = ni_hwaddr x
      in if r \<noteq> 0 then Some (ERR_BUF, s)
         else if ip4_addr_isbroadcast ipaddr x then etharp_send_ip e n q hw ethbroadcast s
         else if ip_addr_ismulticast ipaddr then etharp_send_ip e n q hw (mcastaddr ipaddr) s
         else let outside = \<not> ip_addr_netcmp ipaddr (ni_ip_addr x) (ni_netmask x) \<and> \<not> ip_addr_islinklocal ipaddr
              in if outside \<and> ip_addr_isany (Some (ni_gw x)) then Some (ERR_RTE, s)
                 else let dst_addr = (if outside then ni_gw x else ipaddr);
                          usable = (\<lambda>i. ae_state (arp_table s i) \<ge> ETHARP_STATE_STABLE \<and> dst_addr = ae_ipaddr (arp_table s i))
                      in if usable (unat (etharp_cached_entry s)) then etharp_output_to_arp_index e n q (unat (etharp_cached_entry s)) s
                         else (case find usable [0..<ARP_TABLE_SIZE] of
                                 Some i \<Rightarrow> etharp_output_to_arp_index e n q i (s\<lparr>etharp_cached_entry := of_nat i\<rparr>)
                               | None \<Rightarrow> etharp_query e n dst_addr q s))"

section \<open>Receiving\<close>

definition etharp_update_arp_entry :: "'a arpkernel_scheme netenv \<Rightarrow> addr \<Rightarrow> os_u32 \<Rightarrow> eth_addr \<Rightarrow> os_u8 \<Rightarrow> 'a arpkernel_scheme \<Rightarrow>
    (int \<times> 'a arpkernel_scheme) option" where
  "etharp_update_arp_entry e n ipaddr ethaddr flags s =
     (if ip_addr_isany (Some ipaddr) \<or> ip4_addr_isbroadcast ipaddr (netifs s n) \<or> ip_addr_ismulticast ipaddr then Some (ERR_ARG, s)
      else do {
        (i, s) \<leftarrow> etharp_find_entry e (Some ipaddr) flags s;
        if i < 0 then Some (i, s)
        else do {
          let i = nat i;
          let s = upd_arp i (\<lambda>x. x\<lparr>ae_state := ETHARP_STATE_STABLE, ae_netif := n, ae_ethaddr := ethaddr, ae_ctime := 0\<rparr>) s;
          if ae_q (arp_table s i) \<noteq> NULL
          then do {
            let p = ae_q (arp_table s i);
            let s = upd_arp i (\<lambda>x. x\<lparr>ae_q := NULL\<rparr>) s;
            (r, s) \<leftarrow> etharp_send_ip e n p (ni_hwaddr (netifs s n)) ethaddr s;
            (c, s) \<leftarrow> pfree e p s;
            Some (ERR_OK, s)
          }
          else Some (ERR_OK, s)
        }
      })"

text \<open>The request in the packet is turned into the reply.\<close>

definition arp_make_reply :: "addr \<Rightarrow> netif \<Rightarrow> eth_addr \<Rightarrow> bytes \<Rightarrow> bytes" where
  "arp_make_reply ethhdr x ethaddr m =
     (let hdr = ethhdr + ucast SIZEOF_ETH_HDR;
          m = put (arp_opcode hdr) (bytes16 (lwip_htons ARP_REPLY)) m;
          m = put (arp_dipaddr hdr) (bytes_at m (arp_sipaddr hdr) 4) m;
          m = put (arp_sipaddr hdr) (bytes32 (ni_ip_addr x)) m;
          m = put (arp_dhwaddr hdr) (bytes_at m (arp_shwaddr hdr) 6) m;
          m = put (eth_dest ethhdr) (bytes_at m (arp_shwaddr hdr) 6) m;
          m = put (arp_shwaddr hdr) ethaddr m
      in put (eth_src ethhdr) ethaddr m)"

text \<open>The switch on the operation of a received packet.\<close>

definition arp_act :: "'a arpkernel_scheme netenv \<Rightarrow> addr \<Rightarrow> eth_addr \<Rightarrow> addr \<Rightarrow> addr \<Rightarrow> bool \<Rightarrow> os_u32 \<Rightarrow> 'a aenv" where
  "arp_act e n ethaddr p ethhdr for_us sipaddr s =
     (let opcode = load16 (mem8 s) (arp_opcode (ethhdr + ucast SIZEOF_ETH_HDR))
      in if opcode = PP_HTONS ARP_REQUEST
         then if for_us
              then do {
                let s = upd_mem8 (arp_make_reply ethhdr (netifs s n) ethaddr) s;
                (r, s) \<leftarrow> link_call e (ni_linkoutput (netifs s n)) n p s;
                Some s
              }
              else Some s
         else if opcode = PP_HTONS ARP_REPLY then dhcp_arp_reply e n sipaddr s
         else Some s)"

definition etharp_arp_input :: "'a arpkernel_scheme netenv \<Rightarrow> addr \<Rightarrow> eth_addr \<Rightarrow> addr \<Rightarrow> 'a aenv" where
  "etharp_arp_input e n ethaddr p s =
     (if n = NULL then Some s
      else if pb_len (pbufs s p) < SIZEOF_ETHARP_PACKET then do { (c, s) \<leftarrow> pfree e p s; Some s }
      else let ethhdr = pb_payload (pbufs s p);
               hdr = ethhdr + ucast SIZEOF_ETH_HDR;
               m = mem8 s
           in if load16 m (arp_hwtype hdr) \<noteq> PP_HTONS HWTYPE_ETHERNET \<or> m (arp_hwlen hdr) \<noteq> ETHARP_HWADDR_LEN \<or>
                 m (arp_protolen hdr) \<noteq> 4 \<or> load16 m (arp_proto hdr) \<noteq> PP_HTONS ETHTYPE_IP
              then do { (c, s) \<leftarrow> pfree e p s; Some s }
              else do {
                let sipaddr = load32 m (arp_sipaddr hdr);
                let dipaddr = load32 m (arp_dipaddr hdr);
                let for_us = (\<not> ip_addr_isany (Some (ni_ip_addr (netifs s n))) \<and> dipaddr = ni_ip_addr (netifs s n));
                (r, s) \<leftarrow> etharp_update_arp_entry e n sipaddr (bytes_at m (arp_shwaddr hdr) 6)
                  (if for_us then ETHARP_FLAG_TRY_HARD else ETHARP_FLAG_FIND_ONLY) s;
                s \<leftarrow> arp_act e n ethaddr p ethhdr for_us sipaddr s;
                (c, s) \<leftarrow> pfree e p s;
                Some s
              })"

end
