(* ===== verification/Pbuf_Search.thy ===== *)
theory Pbuf_Search
  imports Pbuf_Data
begin

text \<open>
  Searching in packets: \<^verbatim>\<open>pbuf_get_at\<close> reads a byte of a packet, \<^verbatim>\<open>pbuf_memcmp\<close> compares a part of it with memory and \<^verbatim>\<open>pbuf_memfind\<close> looks for a
  sequence of bytes. What \<^verbatim>\<open>pbuf_memfind\<close> finds is there; but after a mismatch it goes on behind the byte that differs, so it can miss an occurrence that
  overlaps a partial match.
\<close>

lemma skip_found:
  "pchain (pbufs s) q xs \<Longrightarrow> unat c < plen (pbufs s) xs \<Longrightarrow>
   \<exists>ys a zs c'. pbuf_skip q c s = Some (a, c') \<and> xs = ys @ a # zs \<and> a \<noteq> NULL \<and> unat c' < unat (pb_len (pbufs s a)) \<and>
     unat c = plen (pbufs s) ys + unat c'"
proof (induction xs arbitrary: q c)
  case (Cons x xs)
  let ?l = "pb_len (pbufs s x)"
  have q: "q = x" "x \<noteq> NULL" and ch: "pchain (pbufs s) (pb_next (pbufs s x)) xs" using Cons.prems(1) by auto
  show ?case
  proof (cases "?l \<le> c")
    case False
    then show ?thesis using q
      by (intro exI [of _ "[]"] exI [of _ x] exI [of _ xs] exI [of _ c]) (simp add: pbuf_skip.simps [of x c], simp add: word_le_nat_alt)
  next
    case True
    then have u: "unat (c - ?l) = unat c - unat ?l" "unat ?l \<le> unat c" by (simp_all add: unat_sub_16 word_le_nat_alt)
    then have "unat (c - ?l) < plen (pbufs s) xs" using Cons.prems(2) by simp
    from Cons.IH [OF ch this] obtain ys a zs c' where r: "pbuf_skip (pb_next (pbufs s x)) (c - ?l) s = Some (a, c')" "xs = ys @ a # zs"
        "a \<noteq> NULL" "unat c' < unat (pb_len (pbufs s a))" "unat (c - ?l) = plen (pbufs s) ys + unat c'"
      by blast
    then show ?thesis using q True u
      by (intro exI [of _ "x # ys"] exI [of _ a] exI [of _ zs] exI [of _ c']) (simp add: pbuf_skip.simps [of x c])
  qed
qed simp

lemma skip_past:
  "pchain (pbufs s) q xs \<Longrightarrow> plen (pbufs s) xs \<le> unat c \<Longrightarrow> \<exists>c'. pbuf_skip q c s = Some (NULL, c')"
proof (induction xs arbitrary: q c)
  case Nil
  then show ?case by (simp add: pbuf_skip.simps [of NULL c])
next
  case (Cons x xs)
  let ?l = "pb_len (pbufs s x)"
  have "?l \<le> c" using Cons.prems(2) by (simp add: word_le_nat_alt)
  moreover have "plen (pbufs s) xs \<le> unat (c - ?l)" using Cons.prems(2) calculation by (simp add: unat_sub_16)
  ultimately show ?case using Cons.IH [of "pb_next (pbufs s x)" "c - ?l"] Cons.prems(1) by (simp add: pbuf_skip.simps [of x c])
qed

lemma nth_bytes_at: "i < n \<Longrightarrow> bytes_at m a n ! i = m (a + of_nat i)"
  by (simp add: bytes_at_def)

lemma pdata_append: "pdata f m (xs @ ys) = pdata f m xs @ pdata f m ys"
  by (induction xs) auto

lemma get_at_spec:
  assumes "pchain (pbufs s) p xs"
  shows "pbuf_get_at p off s =
    Some (if unat off < plen (pbufs s) xs then pdata (pbufs s) (mem8 s) xs ! unat off else 0)"
proof (cases "unat off < plen (pbufs s) xs")
  case True
  from skip_found [OF assms True] obtain ys a zs c' where r: "pbuf_skip p off s = Some (a, c')" "xs = ys @ a # zs"
      "a \<noteq> NULL" "unat c' < unat (pb_len (pbufs s a))" "unat off = plen (pbufs s) ys + unat c'"
    by blast
  then have "pdata (pbufs s) (mem8 s) xs ! unat off = mem8 s (pb_payload (pbufs s a) + ucast c')"
    by (simp add: pdata_append nth_append pbytes_def nth_bytes_at)
  then show ?thesis using r True by (simp add: pbuf_get_at_def word_less_nat_alt)
next
  case False
  then show ?thesis using skip_past [OF assms, of off] by (auto simp: pbuf_get_at_def)
qed

text \<open>The comparison from index \<open>i\<close> on: 0 when all bytes agree, otherwise the number of the first one that differs.\<close>

lemma memcmp_loop_spec:
  fixes s2 :: addr
  assumes "pchain (pbufs s) q xs" and "unat start + unat i + k \<le> plen (pbufs s) xs" and "unat start + unat i + k < 65536"
  defines "x \<equiv> \<lambda>j. pdata (pbufs s) (mem8 s) xs ! (unat start + j)" and "y \<equiv> \<lambda>j. mem8 s (s2 + of_nat j)"
  shows "\<exists>r. pbuf_memcmp_loop k q start s2 i s = Some r \<and> (r = 0 \<longleftrightarrow> (\<forall>j. unat i \<le> j \<and> j < unat i + k \<longrightarrow> x j = y j)) \<and>
    (r \<noteq> 0 \<longrightarrow> unat i < unat r \<and> unat r \<le> unat i + k)"
  using assms(2,3)
proof (induction k arbitrary: i)
  case (Suc k)
  have si: "unat (start + i) = unat start + unat i" using Suc.prems(2) by (intro unat_add_16) simp
  have i1: "unat (i + 1) = unat i + 1" using Suc.prems(2) unat_add_16 [of i 1] by simp
  have get: "pbuf_get_at q (start + i) s = Some (x (unat i))"
    using get_at_spec [OF assms(1), of "start + i"] Suc.prems(1) by (simp add: si x_def)
  have y: "mem8 s (s2 + ucast i) = y (unat i)" by (simp add: y_def)
  show ?case
  proof (cases "x (unat i) = y (unat i)")
    case False
    have "i + 1 \<noteq> 0" using i1 by (metis add_is_0 one_neq_zero unsigned_0)
    then show ?thesis using False get y i1 by auto
  next
    case True
    obtain r where r: "pbuf_memcmp_loop k q start s2 (i + 1) s = Some r"
        "r = 0 \<longleftrightarrow> (\<forall>j. unat (i + 1) \<le> j \<and> j < unat (i + 1) + k \<longrightarrow> x j = y j)"
        "r \<noteq> 0 \<longrightarrow> unat (i + 1) < unat r \<and> unat r \<le> unat (i + 1) + k"
      using Suc.IH [of "i + 1"] Suc.prems i1 by auto
    have "(\<forall>j. unat i \<le> j \<and> j < unat i + Suc k \<longrightarrow> x j = y j) \<longleftrightarrow> (\<forall>j. unat (i + 1) \<le> j \<and> j < unat (i + 1) + k \<longrightarrow> x j = y j)"
    proof (intro iffI allI impI)
      fix j
      assume all: "\<forall>j. unat (i + 1) \<le> j \<and> j < unat (i + 1) + k \<longrightarrow> x j = y j" and j: "unat i \<le> j \<and> j < unat i + Suc k"
      then have "j = unat i \<or> unat (i + 1) \<le> j \<and> j < unat (i + 1) + k" by (auto simp: i1)
      then show "x j = y j" using all True by blast
    qed (simp add: i1)
    then show ?thesis using r get y True i1 by auto
  qed
qed (auto simp: word_less_nat_alt)

lemma take_drop_eq:
  assumes "i + n \<le> length xs"
  shows "take n (drop i xs) = bytes_at m a n \<longleftrightarrow> (\<forall>j < n. xs ! (i + j) = m (a + of_nat j))"
  using assms by (auto simp: list_eq_iff_nth_eq nth_bytes_at)

lemma memcmp_spec:
  fixes s2 :: addr
  assumes "pchain (pbufs s) p xs" and "unat off < plen (pbufs s) xs" and "unat off + unat n \<le> plen (pbufs s) xs"
    and "plen (pbufs s) xs < 65536"
  shows "\<exists>r. pbuf_memcmp p off s2 n s = Some r \<and>
    (r = 0 \<longleftrightarrow> take (unat n) (drop (unat off) (pdata (pbufs s) (mem8 s) xs)) = bytes_at (mem8 s) s2 (unat n)) \<and>
    (r \<noteq> 0 \<longrightarrow> 0 < unat r \<and> unat r \<le> unat n)"
proof -
  let ?f = "pbufs s" and ?D = "pdata (pbufs s) (mem8 s) xs"
  from skip_found [OF assms(1,2)] obtain ys a zs c' where r: "pbuf_skip p off s = Some (a, c')" "xs = ys @ a # zs"
      "a \<noteq> NULL" "unat c' < unat (pb_len (?f a))" "unat off = plen ?f ys + unat c'"
    by blast
  have ch: "pchain ?f a (a # zs)" using assms(1) unfolding r(2) by (rule pchain_append)
  have x: "pdata ?f (mem8 s) (a # zs) ! (unat c' + j) = ?D ! (unat off + j)" for j
    unfolding r(2) pdata_append using r(5) by (simp add: nth_append)
  obtain q where q: "pbuf_memcmp_loop (unat n) a c' s2 0 s = Some q"
      "q = 0 \<longleftrightarrow> (\<forall>j. unat (0 :: os_u16) \<le> j \<and> j < unat (0 :: os_u16) + unat n \<longrightarrow> ?D ! (unat off + j) = mem8 s (s2 + of_nat j))"
      "q \<noteq> 0 \<longrightarrow> unat (0 :: os_u16) < unat q \<and> unat q \<le> unat (0 :: os_u16) + unat n"
    using memcmp_loop_spec [OF ch, of c' 0 "unat n" s2] assms(3,4) r(2,5) x by auto
  then have "q = 0 \<longleftrightarrow> take (unat n) (drop (unat off) ?D) = bytes_at (mem8 s) s2 (unat n)"
    using take_drop_eq [of "unat off" "unat n" ?D "mem8 s" s2] assms(3) by simp
  then show ?thesis using q r by (simp add: pbuf_memcmp_def word_less_nat_alt)
qed

text \<open>A result of the search, \<open>0xffff\<close> standing for no match.\<close>

definition match_at :: "os_u8 list \<Rightarrow> os_u8 list \<Rightarrow> nat \<Rightarrow> os_u16 \<Rightarrow> bool" where
  "match_at needle hay from r \<longleftrightarrow>
     r = 0xffff \<or> from \<le> unat r \<and> unat r + length needle \<le> length hay \<and> take (length needle) (drop (unat r) hay) = needle"

lemma match_at_mono: "match_at needle hay i r \<Longrightarrow> j \<le> i \<Longrightarrow> match_at needle hay j r"
  by (auto simp: match_at_def)

lemma memfind_loop_spec:
  assumes ch: "pchain (pbufs s) p xs" and n: "0 < unat n" "unat n \<le> plen (pbufs s) xs" and le: "plen (pbufs s) xs < 65536"
    and last: "unat last_i = plen (pbufs s) xs - unat n"
  shows "\<exists>r. pbuf_memfind_loop p mem n last_i i s = Some r \<and>
    match_at (bytes_at (mem8 s) mem (unat n)) (pdata (pbufs s) (mem8 s) xs) (unat i) r"
proof (induction "65536 - unat i" arbitrary: i rule: less_induct)
  case less
  let ?D = "pdata (pbufs s) (mem8 s) xs"
  show ?case
  proof (cases "i \<le> last_i")
    case False
    then show ?thesis by (simp add: pbuf_memfind_loop.simps [of p mem n last_i i] match_at_def)
  next
    case True
    then have i: "unat i + unat n \<le> plen (pbufs s) xs" using last n(2) by (simp add: word_le_nat_alt)
    obtain plus where plus: "pbuf_memcmp p i mem n s = Some plus"
        "plus = 0 \<longleftrightarrow> take (unat n) (drop (unat i) ?D) = bytes_at (mem8 s) mem (unat n)"
        "plus \<noteq> 0 \<longrightarrow> 0 < unat plus \<and> unat plus \<le> unat n"
      using memcmp_spec [OF ch _ i le, of mem] i n(1) by auto
    show ?thesis
    proof (cases "plus = 0")
      case eq: True
      then show ?thesis
        using plus(1,2) True i by (simp add: pbuf_memfind_loop.simps [of p mem n last_i i] match_at_def)
    next
      case False
      have ip: "unat (i + plus) = unat i + unat plus" using plus(3) False i le by (intro unat_add_16) auto
      then have "65536 - unat (i + plus) < 65536 - unat i" using plus(3) False unat_16 [of i] by auto
      from less.hyps [OF this] obtain r where "pbuf_memfind_loop p mem n last_i (i + plus) s = Some r"
          "match_at (bytes_at (mem8 s) mem (unat n)) ?D (unat (i + plus)) r" by blast
      then show ?thesis
        using plus(1) False True ip by (auto simp: pbuf_memfind_loop.simps [of p mem n last_i i] intro: match_at_mono)
    qed
  qed
qed

section \<open>Properties\<close>

text \<open>
  A search in a packet ends and never reports a false match: for a non-empty sequence that fits behind the start offset, \<^verbatim>\<open>pbuf_memfind\<close>
  returns \<open>0xffff\<close> or an offset, not before the start, at which the bytes of the packet are those searched for. \<^verbatim>\<open>pbuf_get_at\<close>
  reads the byte of the packet at an offset, and 0 behind its end, however the packet is split into buffers.
\<close>

theorem pbuf_memfind_sound:
  assumes "pchain (pbufs s) p xs" and "ptot (pbufs s) xs" and "p \<noteq> NULL" and "0 < unat n"
    and "unat n + unat start \<le> plen (pbufs s) xs"
  shows "(\<exists>r. pbuf_memfind p mem n start s = Some r \<and>
      match_at (bytes_at (mem8 s) mem (unat n)) (pdata (pbufs s) (mem8 s) xs) (unat start) r) \<and>
    pbuf_get_at p off s = Some (if unat off < plen (pbufs s) xs then pdata (pbufs s) (mem8 s) xs ! unat off else 0)"
proof -
  have tot: "unat (pb_tot_len (pbufs s p)) = plen (pbufs s) xs" using assms(1-3) by (cases xs) auto
  then have le: "plen (pbufs s) xs < 65536" using unat_16 [of "pb_tot_len (pbufs s p)"] by simp
  have "unat (pb_tot_len (pbufs s p) - n) = plen (pbufs s) xs - unat n"
    using assms(5) tot by (simp add: unat_sub_16 word_le_nat_alt)
  then have "\<exists>r. pbuf_memfind_loop p mem n (pb_tot_len (pbufs s p) - n) start s = Some r \<and>
      match_at (bytes_at (mem8 s) mem (unat n)) (pdata (pbufs s) (mem8 s) xs) (unat start) r"
    using assms(5) by (intro memfind_loop_spec [OF assms(1,4) _ le]) auto
  moreover have "uint (pb_tot_len (pbufs s p)) \<ge> uint n + uint start"
  proof -
    have u: "uint x = int (unat x)" for x :: os_u16 by simp
    show ?thesis using assms(5) tot u [of n] u [of start] u [of "pb_tot_len (pbufs s p)"] by linarith
  qed
  ultimately show ?thesis using assms(3) get_at_spec [OF assms(1)] by (simp add: pbuf_memfind_def Let_def)
qed

definition text_kernel :: "os_u8 list \<Rightarrow> os_u8 list \<Rightarrow> pbkernel" where
  "text_kernel hay needle = pb_kernel\<lparr>pbufs := (pbufs pb_kernel)(
     0x20000 := (demo_pbuf NULL)\<lparr>pb_payload := 0x20010, pb_len := of_nat (length hay), pb_tot_len := of_nat (length hay)\<rparr>),
     mem8 := store 0x20010 hay (store 0x30000 needle (\<lambda>_. 0))\<rparr>"

lemma text_kernel_facts:
  assumes "length hay < 65536"
  shows "pchain (pbufs (text_kernel hay needle)) 0x20000 [0x20000]" and "ptot (pbufs (text_kernel hay needle)) [0x20000]"
    and "plen (pbufs (text_kernel hay needle)) [0x20000] = length hay"
  using assms by (simp_all add: text_kernel_def demo_pbuf_def NULL_def unsigned_of_nat take_bit_nat_eq_self)

theorem pbuf_memfind_sound_witness:
  "\<exists>r. pbuf_memfind 0x20000 0x30000 2 0 (text_kernel [97, 98, 99] [98, 99]) = Some r \<and>
     match_at (bytes_at (mem8 (text_kernel [97, 98, 99] [98, 99])) 0x30000 (unat (2 :: os_u16)))
       (pdata (pbufs (text_kernel [97, 98, 99] [98, 99])) (mem8 (text_kernel [97, 98, 99] [98, 99])) [0x20000]) (unat (0 :: os_u16)) r"
proof -
  have "length [97, 98, 99 :: os_u8] < 65536" by simp
  note f = text_kernel_facts [OF this, of "[98, 99]"]
  have "(0x20000 :: addr) \<noteq> NULL" "0 < unat (2 :: os_u16)"
    "unat (2 :: os_u16) + unat (0 :: os_u16) \<le> plen (pbufs (text_kernel [97, 98, 99] [98, 99])) [0x20000]"
    by (simp_all add: NULL_def f(3) del: plen_simps)
  from pbuf_memfind_sound [OF f(1,2) this, where mem = "0x30000" and off = 0] show ?thesis by (rule conjunct1)
qed

text \<open>
  The search misses an occurrence that overlaps a partial match: the text \<^verbatim>\<open>aaab\<close> holds \<^verbatim>\<open>aab\<close> at offset 1, but
  after the mismatch at the third byte the search goes on at offset 3.
\<close>

lemma pbuf_memfind_misses:
  "pbuf_memfind 0x20000 0x30000 3 0 (text_kernel [97, 97, 97, 98] [97, 97, 98]) = Some 0xffff"
proof -
  define s where "s = text_kernel [97, 97, 97, 98] [97, 97, 98]"
  have p: "pb_len (pbufs s 0x20000) = 4" "pb_tot_len (pbufs s 0x20000) = 4" "pb_payload (pbufs s 0x20000) = 0x20010"
    by (simp_all add: s_def text_kernel_def)
  have m: "mem8 s 0x20010 = 97" "mem8 s 0x20011 = 97" "mem8 s 0x20012 = 97" "mem8 s 0x30000 = 97" "mem8 s 0x30001 = 97" "mem8 s 0x30002 = 98"
    by (simp_all add: s_def text_kernel_def)
  have skip: "pbuf_skip 0x20000 k s = Some (0x20000, k)" if "k < 4" for k
    using that p(1) by (simp add: pbuf_skip.simps [of "0x20000" k] not_le [symmetric])
  have g: "pbuf_get_at 0x20000 0 s = Some 97" "pbuf_get_at 0x20000 1 s = Some 97" "pbuf_get_at 0x20000 2 s = Some 97"
    by (simp_all add: pbuf_get_at_def skip p m NULL_def)
  have "unat (3 :: os_u16) = Suc (Suc (Suc 0))" by simp
  then have "pbuf_memcmp 0x20000 0 0x30000 3 s = Some 3"
    by (simp only: pbuf_memcmp_def) (simp add: skip p NULL_def g m)
  moreover have "\<not> (3 :: os_u16) \<le> 1" by (simp add: word_le_nat_alt)
  ultimately show ?thesis
    unfolding s_def [symmetric]
    by (simp add: pbuf_memfind_def pbuf_memfind_loop.simps [of _ _ _ _ 0] pbuf_memfind_loop.simps [of _ _ _ _ 3] p NULL_def)
qed

end
