(* ===== verification/Packet_Fields.thy ===== *)
theory Packet_Fields
  imports Etharp Pbuf_Search
begin

text \<open>
  The headers of packets. A header is a sequence of fields at an address; writing a field replaces it and leaves the others. With this the headers that the protocols write are computed byte for
  byte, whatever the order of the writes, and the fields that they read are those that were written.
\<close>

section \<open>Fields\<close>

definition fields_at :: "bytes \<Rightarrow> addr \<Rightarrow> os_u8 list list \<Rightarrow> bool" where
  "fields_at m h fs \<longleftrightarrow> length (concat fs) < 2 ^ 32 \<and> bytes_at m h (length (concat fs)) = concat fs"

lemma put_other: "(\<And>k. k < length vs \<Longrightarrow> b \<noteq> a + of_nat k) \<Longrightarrow> put a vs m b = m b"
proof (induction vs arbitrary: a m)
  case (Cons v vs)
  have "put (a + 1) vs (m(a := v)) b = (m(a := v)) b"
  proof (rule Cons.IH)
    fix k
    assume "k < length vs"
    then show "b \<noteq> a + 1 + of_nat k" using Cons.prems [of "Suc k"] by (simp add: add.assoc)
  qed
  then show ?case using Cons.prems [of 0] by simp
qed simp

lemma put_here: "length vs < 2 ^ 32 \<Longrightarrow> k < length vs \<Longrightarrow> put a vs m (a + of_nat k) = vs ! k"
proof (induction vs arbitrary: a m k)
  case (Cons v vs)
  show ?case
  proof (cases k)
    case 0
    have "put (a + 1) vs (m(a := v)) a = (m(a := v)) a"
    proof (rule put_other)
      fix j
      assume "j < length vs"
      then have "Suc j < 2 ^ 32" using Cons.prems(1) by simp
      then have "(of_nat (Suc j) :: addr) \<noteq> 0" by (simp only: word_unat_eq_iff unsigned_of_nat) (simp add: take_bit_nat_eq_self del: of_nat_Suc)
      then show "a \<noteq> a + 1 + of_nat j" by (simp add: add.assoc)
    qed
    then show ?thesis using 0 by simp
  next
    case (Suc j)
    then have "put (a + 1) vs (m(a := v)) (a + 1 + of_nat j) = vs ! j" using Cons.prems by (intro Cons.IH) auto
    then show ?thesis using Suc by (simp add: add.assoc)
  qed
qed simp

lemma of_nat_inj_32: "i < 2 ^ 32 \<Longrightarrow> j < 2 ^ 32 \<Longrightarrow> (of_nat i :: addr) = of_nat j \<longleftrightarrow> i = j"
  by (simp add: word_unat_eq_iff unsigned_of_nat take_bit_nat_eq_self)

lemma bytes_at_put:
  assumes "bytes_at m h (length (xs @ ys @ zs)) = xs @ ys @ zs" and "length (xs @ ys @ zs) < 2 ^ 32" and "length vs = length ys"
  shows "bytes_at (put (h + of_nat (length xs)) vs m) h (length (xs @ ys @ zs)) = xs @ vs @ zs"
proof (rule nth_equalityI)
  fix i
  assume "i < length (bytes_at (put (h + of_nat (length xs)) vs m) h (length (xs @ ys @ zs)))"
  then have i: "i < length (xs @ ys @ zs)" by (simp add: length_bytes_at)
  have old: "m (h + of_nat i) = (xs @ ys @ zs) ! i" using assms(1) i by (metis nth_bytes_at)
  have "put (h + of_nat (length xs)) vs m (h + of_nat i) = (xs @ vs @ zs) ! i"
  proof (cases "length xs \<le> i \<and> i < length xs + length vs")
    case True
    then have "put (h + of_nat (length xs)) vs m (h + of_nat (length xs) + of_nat (i - length xs)) = vs ! (i - length xs)"
      using assms(2,3) by (intro put_here) auto
    moreover have "h + of_nat (length xs) + of_nat (i - length xs) = h + of_nat i" using True by (simp add: add.assoc flip: of_nat_add)
    ultimately show ?thesis using True by (auto simp: nth_append)
  next
    case False
    have "put (h + of_nat (length xs)) vs m (h + of_nat i) = m (h + of_nat i)"
    proof (rule put_other)
      fix k
      assume "k < length vs"
      then show "h + of_nat i \<noteq> h + of_nat (length xs) + of_nat k"
        using False i assms(2,3) of_nat_inj_32 [of i "length xs + k"] by (auto simp: add.assoc)
    qed
    then show ?thesis using old False assms(3) by (auto simp: nth_append)
  qed
  then show "bytes_at (put (h + of_nat (length xs)) vs m) h (length (xs @ ys @ zs)) ! i = (xs @ vs @ zs) ! i"
    using i by (simp add: nth_bytes_at)
qed (simp add: length_bytes_at assms(3))

lemma fields_put:
  assumes "fields_at m h fs" and "i < length fs" and "length v = length (fs ! i)"
  shows "fields_at (put (h + of_nat (length (concat (take i fs)))) v m) h (fs[i := v])"
proof -
  have fs: "concat fs = concat (take i fs) @ fs ! i @ concat (drop (Suc i) fs)"
    using assms(2) by (metis concat.simps(2) concat_append id_take_nth_drop)
  have fs': "concat (fs[i := v]) = concat (take i fs) @ v @ concat (drop (Suc i) fs)"
    using assms(2) by (simp add: upd_conv_take_nth_drop)
  have len: "length (concat (fs[i := v])) = length (concat fs)" using assms(3) unfolding fs fs' by simp
  have "bytes_at (put (h + of_nat (length (concat (take i fs)))) v m) h (length (concat fs)) = concat (fs[i := v])"
    unfolding fs fs' by (rule bytes_at_put) (use assms fs in \<open>simp_all add: fields_at_def\<close>)
  then show ?thesis using assms(1) by (simp add: fields_at_def len)
qed

lemma fields_get:
  assumes "fields_at m h fs" and "i < length fs"
  shows "bytes_at m (h + of_nat (length (concat (take i fs)))) (length (fs ! i)) = fs ! i"
proof -
  have fs: "concat fs = concat (take i fs) @ fs ! i @ concat (drop (Suc i) fs)"
    using assms(2) by (metis concat.simps(2) concat_append id_take_nth_drop)
  let ?x = "concat (take i fs)" and ?y = "fs ! i" and ?z = "concat (drop (Suc i) fs)"
  have "bytes_at m h (length ?x + (length ?y + length ?z)) = ?x @ ?y @ ?z" using assms(1) fs by (simp add: fields_at_def)
  then have "bytes_at m h (length ?x) @ bytes_at m (h + of_nat (length ?x)) (length ?y) @ bytes_at m (h + of_nat (length ?x) + of_nat (length ?y)) (length ?z) = ?x @ ?y @ ?z"
    by (simp add: bytes_at_add)
  then show ?thesis by (simp add: length_bytes_at)
qed

lemma fields_exist:
  assumes "sum_list ns < 2 ^ 32"
  shows "\<exists>fs. fields_at m h fs \<and> map length fs = ns"
proof -
  have "\<exists>fs. concat fs = l \<and> map length fs = ns" if "length l = sum_list ns" for l :: "os_u8 list"
    using that
  proof (induction ns arbitrary: l)
    case Nil
    then show ?case by simp
  next
    case (Cons n ns)
    from Cons.IH [of "drop n l"] Cons.prems obtain fs where "concat fs = drop n l" "map length fs = ns" by auto
    then show ?case using Cons.prems by (intro exI [of _ "take n l # fs"]) simp
  qed
  from this [of "bytes_at m h (sum_list ns)"] obtain fs where fs: "concat fs = bytes_at m h (sum_list ns)" "map length fs = ns"
    by (auto simp: length_bytes_at)
  then have "length (concat fs) = sum_list ns" by (simp add: length_concat)
  then show ?thesis using fs assms by (intro exI [of _ fs]) (simp add: fields_at_def)
qed

text \<open>A sequence of writes to fields of given lengths.\<close>

definition write_fields :: "addr \<Rightarrow> nat list \<Rightarrow> (nat \<times> os_u8 list) list \<Rightarrow> bytes \<Rightarrow> bytes" where
  "write_fields h ns us m = fold (\<lambda>(i, v) m. put (h + of_nat (sum_list (take i ns))) v m) us m"

lemma write_fields_fields:
  "fields_at m h fs \<Longrightarrow> map length fs = ns \<Longrightarrow> \<forall>(i, v) \<in> set us. i < length ns \<and> length v = ns ! i \<Longrightarrow>
   fields_at (write_fields h ns us m) h (fold (\<lambda>(i, v) l. l[i := v]) us fs)"
proof (induction us arbitrary: m fs)
  case (Cons u us)
  obtain i v where u: "u = (i, v)" by fastforce
  let ?m = "put (h + of_nat (sum_list (take i ns))) v m"
  have i: "i < length fs" "length v = length (fs ! i)" using Cons.prems u by auto
  have "length (concat (take i fs)) = sum_list (take i ns)" using Cons.prems(2) by (auto simp: length_concat take_map)
  then have "fields_at ?m h (fs[i := v])" using fields_put [OF Cons.prems(1) i] by simp
  moreover have "map length (fs[i := v]) = ns" using Cons.prems(2) i by (metis list_update_id map_update nth_map)
  ultimately have "fields_at (write_fields h ns us ?m) h (fold (\<lambda>(i, v) l. l[i := v]) us (fs[i := v]))"
    using Cons.prems(3) by (intro Cons.IH) auto
  then show ?case by (simp add: u write_fields_def)
qed (simp add: write_fields_def)

lemma length_bytes16 [simp]: "length (bytes16 v) = 2"
  by (simp add: bytes16_def)

lemma length_bytes32 [simp]: "length (bytes32 v) = 4"
  by (simp add: bytes32_def)

lemma load16_bytes: "bytes_at m a 2 = bytes16 v \<Longrightarrow> load16 m a = v"
proof -
  assume "bytes_at m a 2 = bytes16 v"
  then have b: "m a = ucast v" "m (a + 1) = ucast (drop_bit 8 v)" by (simp_all add: bytes_at_def bytes16_def upt_rec)
  show ?thesis unfolding load16_def b by (rule bit_word_eqI) (auto simp: bit_simps)
qed

lemma load32_bytes: "bytes_at m a 4 = bytes32 v \<Longrightarrow> load32 m a = v"
proof -
  assume "bytes_at m a 4 = bytes32 v"
  then have b: "m a = ucast v" "m (a + 1) = ucast (drop_bit 8 v)" "m (a + 2) = ucast (drop_bit 16 v)" "m (a + 3) = ucast (drop_bit 24 v)"
    by (simp_all add: bytes_at_def bytes32_def upt_rec)
  have c: "m (a + 2 + 1) = ucast (drop_bit 24 v)" using b(4) by (simp add: add.assoc)
  show ?thesis unfolding load32_def load16_def b c
  proof (rule bit_word_eqI)
    fix n
    show "n < LENGTH(32) \<Longrightarrow> bit (ucast (ucast (ucast v :: os_u8) OR push_bit 8 (ucast (ucast (drop_bit 8 v) :: os_u8)) :: os_u16) OR
        push_bit 16 (ucast (ucast (ucast (drop_bit 16 v) :: os_u8) OR push_bit 8 (ucast (ucast (drop_bit 24 v) :: os_u8)) :: os_u16)) :: os_u32) n = bit v n"
      by (cases "n < 16") (auto simp: bit_simps)
  qed
qed

lemma htons_PP: "lwip_htons x = PP_HTONS x"
  by (simp add: lwip_htons_def PP_HTONS_def)

end
