(* ===== verification/Udp.thy ===== *)
theory Udp
  imports Packet_Fields
begin

text \<open>
  UDP control blocks, \<^verbatim>\<open>hwutil/net/lwip/source/core/udp.c\<close>: taking one from its pool and giving it back, binding it to a local address and port, connecting it to a remote one, and the choice of
  the block that gets a datagram. The configuration has neither UDP-Lite, IGMP nor address reuse. The blocks in use by a port are linked by \<open>up_next\<close>; a list that never ends is \<open>None\<close>. Free
  blocks are linked by their first word, as all free elements of the pools of \<^verbatim>\<open>memp.c\<close> are.

  The state also has the variables of \<^verbatim>\<open>ipv4/ip.c\<close>, which UDP reads: the interface, header and addresses of the packet that is being processed.
\<close>

section \<open>State\<close>

record udp_pcb =
  up_local_ip :: os_u32
  up_remote_ip :: os_u32
  up_so_options :: os_u8
  up_tos :: os_u8
  up_ttl :: os_u8
  up_next :: addr
  up_flags :: os_u8
  up_local_port :: os_u16
  up_remote_port :: os_u16
  up_recv :: addr
  up_recv_arg :: addr

record ipkernel = arpkernel +
  current_netif :: addr
  current_header :: addr
  current_iphdr_src :: os_u32
  current_iphdr_dest :: os_u32
  ip_id :: os_u16
  udp_store :: "addr \<Rightarrow> udp_pcb"
  udp_pcbs :: addr
  udp_port :: os_u16

type_synonym 'a ienv = "'a ipkernel_scheme \<Rightarrow> 'a ipkernel_scheme option"

definition ERR_USE :: int where "ERR_USE = - 8"

definition UDP_LOCAL_PORT_RANGE_START :: os_u16 where "UDP_LOCAL_PORT_RANGE_START = 0xc000"
definition UDP_LOCAL_PORT_RANGE_END :: os_u16 where "UDP_LOCAL_PORT_RANGE_END = 0xffff"
definition UDP_FLAGS_CONNECTED :: os_u8 where "UDP_FLAGS_CONNECTED = 0x04"
definition UDP_TTL :: os_u8 where "UDP_TTL = 255"
definition MEMP_UDP_PCB :: nat where "MEMP_UDP_PCB = 1"
definition MEMP_NUM_UDP_PCB :: nat where "MEMP_NUM_UDP_PCB = 6"

definition upd_udp :: "addr \<Rightarrow> (udp_pcb \<Rightarrow> udp_pcb) \<Rightarrow> 'a ipkernel_scheme \<Rightarrow> 'a ipkernel_scheme" where
  "upd_udp a f s = s\<lparr>udp_store := (udp_store s)(a := f (udp_store s a))\<rparr>"

section \<open>Ports\<close>

text \<open>The search for a block with a port.\<close>

partial_function (option) port_taken :: "addr \<Rightarrow> os_u16 \<Rightarrow> 'a ipkernel_scheme \<Rightarrow> bool option" where
  "port_taken pcb port s =
     (if pcb = NULL then Some False
      else if up_local_port (udp_store s pcb) = port then Some True
      else port_taken (up_next (udp_store s pcb)) port s)"

text \<open>The jump back to \<^verbatim>\<open>again\<close> is the recursive call; \<open>n\<close> counts the ports that were in use.\<close>

partial_function (option) udp_new_port_loop :: "os_u16 \<Rightarrow> 'a ipkernel_scheme \<Rightarrow> (os_u16 \<times> 'a ipkernel_scheme) option" where
  "udp_new_port_loop n s =
     do {
       let s = (if udp_port s = UDP_LOCAL_PORT_RANGE_END then s\<lparr>udp_port := UDP_LOCAL_PORT_RANGE_START\<rparr> else s\<lparr>udp_port := udp_port s + 1\<rparr>);
       taken \<leftarrow> port_taken (udp_pcbs s) (udp_port s) s;
       if taken
       then if n + 1 > UDP_LOCAL_PORT_RANGE_END - UDP_LOCAL_PORT_RANGE_START then Some (0, s) else udp_new_port_loop (n + 1) s
       else Some (udp_port s, s)
     }"

definition udp_new_port :: "'a ipkernel_scheme \<Rightarrow> (os_u16 \<times> 'a ipkernel_scheme) option" where
  "udp_new_port s = udp_new_port_loop 0 s"

text \<open>The check for a double bind: an error, or whether the block is in the list already.\<close>

partial_function (option) bind_check :: "addr \<Rightarrow> os_u32 option \<Rightarrow> os_u16 \<Rightarrow> addr \<Rightarrow> bool \<Rightarrow> 'a ipkernel_scheme \<Rightarrow> (int + bool) option" where
  "bind_check pcb ipaddr port ipcb rebind s =
     (if ipcb = NULL then Some (Inr rebind)
      else let x = udp_store s ipcb
           in if pcb = ipcb then bind_check pcb ipaddr port (up_next x) True s
              else if up_local_port x = port \<and> (ip_addr_isany (Some (up_local_ip x)) \<or> ip_addr_isany ipaddr \<or> ipaddr = Some (up_local_ip x))
              then Some (Inl ERR_USE)
              else bind_check pcb ipaddr port (up_next x) rebind s)"

definition udp_bind :: "addr \<Rightarrow> os_u32 option \<Rightarrow> os_u16 \<Rightarrow> 'a ipkernel_scheme \<Rightarrow> (int \<times> 'a ipkernel_scheme) option" where
  "udp_bind pcb ipaddr port s =
     do {
       r \<leftarrow> bind_check pcb ipaddr port (udp_pcbs s) False s;
       (case r of Inl err \<Rightarrow> Some (err, s)
        | Inr rebind \<Rightarrow> do {
            let s = upd_udp pcb (\<lambda>x. x\<lparr>up_local_ip := ip_addr_set ipaddr\<rparr>) s;
            (port, s) \<leftarrow> (if port = 0 then udp_new_port s else Some (port, s));
            if port = 0 then Some (ERR_USE, s)
            else do {
              let s = upd_udp pcb (\<lambda>x. x\<lparr>up_local_port := port\<rparr>) s;
              Some (ERR_OK, if \<not> rebind then (upd_udp pcb (\<lambda>x. x\<lparr>up_next := udp_pcbs s\<rparr>) s)\<lparr>udp_pcbs := pcb\<rparr> else s)
            }
          })
     }"

text \<open>The search for a block in the list.\<close>

partial_function (option) udp_listed :: "addr \<Rightarrow> addr \<Rightarrow> 'a ipkernel_scheme \<Rightarrow> bool option" where
  "udp_listed pcb ipcb s = (if ipcb = NULL then Some False else if pcb = ipcb then Some True else udp_listed pcb (up_next (udp_store s ipcb)) s)"

definition udp_connect :: "addr \<Rightarrow> os_u32 option \<Rightarrow> os_u16 \<Rightarrow> 'a ipkernel_scheme \<Rightarrow> (int \<times> 'a ipkernel_scheme) option" where
  "udp_connect pcb ipaddr port s =
     do {
       (err, s) \<leftarrow> (if up_local_port (udp_store s pcb) = 0 then udp_bind pcb (Some (up_local_ip (udp_store s pcb))) (up_local_port (udp_store s pcb)) s
                    else Some (ERR_OK, s));
       if err \<noteq> ERR_OK then Some (err, s)
       else do {
         let s = upd_udp pcb (\<lambda>x. x\<lparr>up_remote_ip := ip_addr_set ipaddr, up_remote_port := port, up_flags := up_flags x OR UDP_FLAGS_CONNECTED\<rparr>) s;
         listed \<leftarrow> udp_listed pcb (udp_pcbs s) s;
         Some (ERR_OK, if listed then s else (upd_udp pcb (\<lambda>x. x\<lparr>up_next := udp_pcbs s\<rparr>) s)\<lparr>udp_pcbs := pcb\<rparr>)
       }
     }"

definition udp_disconnect :: "addr \<Rightarrow> 'a ipkernel_scheme \<Rightarrow> 'a ipkernel_scheme" where
  "udp_disconnect pcb s =
     upd_udp pcb (\<lambda>x. x\<lparr>up_remote_ip := IPADDR_ANY, up_remote_port := 0, up_flags := up_flags x AND NOT UDP_FLAGS_CONNECTED\<rparr>) s"

definition udp_recv :: "addr \<Rightarrow> addr \<Rightarrow> addr \<Rightarrow> 'a ipkernel_scheme \<Rightarrow> 'a ipkernel_scheme" where
  "udp_recv pcb recv recv_arg s = upd_udp pcb (\<lambda>x. x\<lparr>up_recv := recv, up_recv_arg := recv_arg\<rparr>) s"

partial_function (option) udp_unlink :: "addr \<Rightarrow> addr \<Rightarrow> 'a ienv" where
  "udp_unlink pcb pcb2 s =
     (if pcb2 = NULL then Some s
      else let s = (if up_next (udp_store s pcb2) \<noteq> NULL \<and> up_next (udp_store s pcb2) = pcb
                    then upd_udp pcb2 (\<lambda>x. x\<lparr>up_next := up_next (udp_store s pcb)\<rparr>) s else s)
           in udp_unlink pcb (up_next (udp_store s pcb2)) s)"

definition udp_remove :: "addr \<Rightarrow> 'a ienv" where
  "udp_remove pcb s =
     do {
       s \<leftarrow> (if udp_pcbs s = pcb then Some (s\<lparr>udp_pcbs := up_next (udp_store s (udp_pcbs s))\<rparr>) else udp_unlink pcb (udp_pcbs s) s);
       Some (memp_free MEMP_UDP_PCB pcb s)
     }"

text \<open>The block is cleared.\<close>

definition udp_zero :: udp_pcb where
  "udp_zero = \<lparr>up_local_ip = 0, up_remote_ip = 0, up_so_options = 0, up_tos = 0, up_ttl = 0, up_next = NULL, up_flags = 0, up_local_port = 0,
     up_remote_port = 0, up_recv = NULL, up_recv_arg = NULL\<rparr>"

definition udp_new :: "'a ipkernel_scheme \<Rightarrow> addr \<times> 'a ipkernel_scheme" where
  "udp_new s =
     (let (pcb, s) = memp_malloc MEMP_UDP_PCB s
      in if pcb \<noteq> NULL then (pcb, upd_udp pcb (\<lambda>x. udp_zero\<lparr>up_ttl := UDP_TTL\<rparr>) s) else (pcb, s))"

section \<open>The block that gets a datagram\<close>

definition udp_local_match :: "udp_pcb \<Rightarrow> os_u16 \<Rightarrow> bool \<Rightarrow> os_u32 \<Rightarrow> netif \<Rightarrow> bool" where
  "udp_local_match x dest broadcast ipdest inp \<longleftrightarrow>
     up_local_port x = dest \<and>
     (\<not> broadcast \<and> ip_addr_isany (Some (up_local_ip x)) \<or> up_local_ip x = ipdest \<or>
      broadcast \<and> (ip_addr_isany (Some (up_local_ip x)) \<or> ip_addr_netcmp (up_local_ip x) ipdest (ni_netmask inp)))"

definition udp_remote_match :: "udp_pcb \<Rightarrow> os_u16 \<Rightarrow> os_u32 \<Rightarrow> bool" where
  "udp_remote_match x src ipsrc \<longleftrightarrow> up_remote_port x = src \<and> (ip_addr_isany (Some (up_remote_ip x)) \<or> up_remote_ip x = ipsrc)"

text \<open>The loop over the list: \<open>prev\<close> is the block before \<open>pcb\<close>, \<open>uncon_pcb\<close> the first unconnected one that matches.\<close>

partial_function (option) udp_match_loop :: "os_u16 \<Rightarrow> os_u16 \<Rightarrow> bool \<Rightarrow> netif \<Rightarrow> addr \<Rightarrow> addr \<Rightarrow> addr \<Rightarrow> 'a ipkernel_scheme \<Rightarrow>
    (addr \<times> 'a ipkernel_scheme) option" where
  "udp_match_loop src dest broadcast inp pcb prev uncon_pcb s =
     (if pcb = NULL then Some (uncon_pcb, s)
      else let x = udp_store s pcb;
               local_match = udp_local_match x dest broadcast (current_iphdr_dest s) inp;
               uncon_pcb = (if local_match \<and> uncon_pcb = NULL \<and> up_flags x AND UDP_FLAGS_CONNECTED = 0 then pcb else uncon_pcb)
           in if local_match \<and> udp_remote_match x src (current_iphdr_src s)
              then if prev \<noteq> NULL
                   then let s = upd_udp prev (\<lambda>y. y\<lparr>up_next := up_next x\<rparr>) s;
                            s = upd_udp pcb (\<lambda>y. y\<lparr>up_next := udp_pcbs s\<rparr>) s
                        in Some (pcb, s\<lparr>udp_pcbs := pcb\<rparr>)
                   else Some (pcb, s)
              else udp_match_loop src dest broadcast inp (up_next x) pcb uncon_pcb s)"

definition DHCP_CLIENT_PORT :: os_u16 where "DHCP_CLIENT_PORT = 68"
definition DHCP_SERVER_PORT :: os_u16 where "DHCP_SERVER_PORT = 67"

text \<open>\<open>dhcp_pcb\<close> reads the member \<^verbatim>\<open>pcb\<close> of a \<^verbatim>\<open>struct dhcp\<close>. A datagram for the port of the DHCP client goes to its block only.\<close>

definition udp_demux :: "(addr \<Rightarrow> 'a ipkernel_scheme \<Rightarrow> addr) \<Rightarrow> os_u16 \<Rightarrow> os_u16 \<Rightarrow> bool \<Rightarrow> addr \<Rightarrow> 'a ipkernel_scheme \<Rightarrow> (addr \<times> 'a ipkernel_scheme) option" where
  "udp_demux dhcp_pcb src dest broadcast inp s =
     (if dest = DHCP_CLIENT_PORT
      then let dhcp = ni_dhcp (netifs s inp); pcb = dhcp_pcb dhcp s
           in Some (if src = DHCP_SERVER_PORT \<and> dhcp \<noteq> NULL \<and> pcb \<noteq> NULL \<and>
                       (ip_addr_isany (Some (up_remote_ip (udp_store s pcb))) \<or> up_remote_ip (udp_store s pcb) = current_iphdr_src s)
                    then pcb else NULL, s)
      else udp_match_loop src dest broadcast (netifs s inp) (udp_pcbs s) NULL NULL s)"

end
