(* ===== verification/Ip.thy ===== *)
theory Ip
  imports Udp
begin

text \<open>
  The IP layer between Ethernet and the transport protocols: \<^verbatim>\<open>ip_output\<close>, \<^verbatim>\<open>ip_output_if\<close> and \<^verbatim>\<open>ip_input\<close> of \<^verbatim>\<open>ipv4/ip.c\<close>, ICMP (\<^verbatim>\<open>ipv4/icmp.c\<close>), sending and receiving of UDP (\<^verbatim>\<open>udp.c\<close>) and
  \<^verbatim>\<open>ethernet_input\<close> of \<^verbatim>\<open>netif/etharp.c\<close>, in the configuration of the port: checksums are left to the network controller (only the check of ICMP echoes is in software), no forwarding, no
  loopback, no IGMP, IP options accepted, datagrams for the DHCP client accepted whatever their address, no answer to broadcast pings.

  The protocols that are not modelled are members of the record \<open>ipenv\<close>: fragmentation and reassembly, raw sockets, TCP, the block of DHCP; so are the functions behind the pointers
  (\<^verbatim>\<open>netif->output\<close>, the receive function of a control block). \<^verbatim>\<open>IP_HDRINCL\<close> is the NULL destination, \<open>None\<close>.
\<close>

record 's ipenv =
  net :: "'s netenv"
  output_call :: "addr \<Rightarrow> addr \<Rightarrow> addr \<Rightarrow> os_u32 \<Rightarrow> 's \<Rightarrow> (int \<times> 's) option"
  ip_frag :: "addr \<Rightarrow> addr \<Rightarrow> os_u32 \<Rightarrow> 's \<Rightarrow> (int \<times> 's) option"
  ip_reass :: "addr \<Rightarrow> 's \<Rightarrow> (addr \<times> 's) option"
  raw_input :: "addr \<Rightarrow> addr \<Rightarrow> 's \<Rightarrow> (os_u8 \<times> 's) option"
  tcp_input :: "addr \<Rightarrow> addr \<Rightarrow> 's \<Rightarrow> 's option"
  recv_call :: "addr \<Rightarrow> addr \<Rightarrow> addr \<Rightarrow> addr \<Rightarrow> os_u32 \<Rightarrow> os_u16 \<Rightarrow> 's \<Rightarrow> 's option"
  dhcp_pcb :: "addr \<Rightarrow> 's \<Rightarrow> addr"

text \<open>\<^verbatim>\<open>pbuf_free\<close> where its result is not used.\<close>

definition ifree :: "'a ipkernel_scheme ipenv \<Rightarrow> addr \<Rightarrow> 'a ienv" where
  "ifree e p s = map_option snd (pfree (net e) p s)"

section \<open>Headers\<close>

definition IP_HLEN :: os_u16 where "IP_HLEN = 20"
definition IP_PROTO_ICMP :: os_u8 where "IP_PROTO_ICMP = 1"
definition IP_PROTO_UDP :: os_u8 where "IP_PROTO_UDP = 17"
definition IP_PROTO_TCP :: os_u8 where "IP_PROTO_TCP = 6"
definition IP_MF :: os_u16 where "IP_MF = 0x2000"
definition IP_OFFMASK :: os_u16 where "IP_OFFMASK = 0x1fff"
definition UDP_HLEN :: os_u16 where "UDP_HLEN = 8"

abbreviation (input) iph_v_hl :: "addr \<Rightarrow> addr" where "iph_v_hl h \<equiv> h"
abbreviation (input) iph_tos :: "addr \<Rightarrow> addr" where "iph_tos h \<equiv> h + 1"
abbreviation (input) iph_len :: "addr \<Rightarrow> addr" where "iph_len h \<equiv> h + 2"
abbreviation (input) iph_id :: "addr \<Rightarrow> addr" where "iph_id h \<equiv> h + 4"
abbreviation (input) iph_offset :: "addr \<Rightarrow> addr" where "iph_offset h \<equiv> h + 6"
abbreviation (input) iph_ttl :: "addr \<Rightarrow> addr" where "iph_ttl h \<equiv> h + 8"
abbreviation (input) iph_proto :: "addr \<Rightarrow> addr" where "iph_proto h \<equiv> h + 9"
abbreviation (input) iph_chksum :: "addr \<Rightarrow> addr" where "iph_chksum h \<equiv> h + 10"
abbreviation (input) iph_src :: "addr \<Rightarrow> addr" where "iph_src h \<equiv> h + 12"
abbreviation (input) iph_dest :: "addr \<Rightarrow> addr" where "iph_dest h \<equiv> h + 16"

definition IPH_V :: "bytes \<Rightarrow> addr \<Rightarrow> os_u8" where
  "IPH_V m h = drop_bit 4 (m (iph_v_hl h))"

definition IPH_HL :: "bytes \<Rightarrow> addr \<Rightarrow> os_u8" where
  "IPH_HL m h = m (iph_v_hl h) AND 0x0f"

section \<open>IP output\<close>

text \<open>The header in the order of the assignments.\<close>

definition ip_fill :: "addr \<Rightarrow> os_u8 \<Rightarrow> os_u8 \<Rightarrow> os_u32 \<Rightarrow> os_u8 \<Rightarrow> os_u16 \<Rightarrow> os_u16 \<Rightarrow> os_u32 \<Rightarrow> bytes \<Rightarrow> bytes" where
  "ip_fill iphdr ttl proto dest tos len ident src m =
     (let m = put (iph_ttl iphdr) [ttl] m;
          m = put (iph_proto iphdr) [proto] m;
          m = put (iph_dest iphdr) (bytes32 dest) m;
          m = put (iph_v_hl iphdr) [push_bit 4 4 OR ucast (IP_HLEN div 4)] m;
          m = put (iph_tos iphdr) [tos] m;
          m = put (iph_len iphdr) (bytes16 (lwip_htons len)) m;
          m = put (iph_offset iphdr) (bytes16 0) m;
          m = put (iph_id iphdr) (bytes16 (lwip_htons ident)) m;
          m = put (iph_src iphdr) (bytes32 src) m
      in put (iph_chksum iphdr) (bytes16 0) m)"

text \<open>The packet leaves through the interface, in pieces if it is too long.\<close>

definition ip_send :: "'a ipkernel_scheme ipenv \<Rightarrow> addr \<Rightarrow> os_u32 \<Rightarrow> addr \<Rightarrow> 'a ipkernel_scheme \<Rightarrow> (int \<times> 'a ipkernel_scheme) option" where
  "ip_send e p dest n s =
     (if ni_mtu (netifs s n) \<noteq> 0 \<and> pb_tot_len (pbufs s p) > ni_mtu (netifs s n) then ip_frag e p n dest s
      else output_call e (ni_output (netifs s n)) n p dest s)"

definition ip_output_if :: "'a ipkernel_scheme ipenv \<Rightarrow> addr \<Rightarrow> os_u32 option \<Rightarrow> os_u32 option \<Rightarrow> os_u8 \<Rightarrow> os_u8 \<Rightarrow> os_u8 \<Rightarrow> addr \<Rightarrow>
    'a ipkernel_scheme \<Rightarrow> (int \<times> 'a ipkernel_scheme) option" where
  "ip_output_if e p src dest ttl tos proto n s =
     (case dest of
        Some d \<Rightarrow>
          let (r, s) = pbuf_header p (uint IP_HLEN) s
          in if r \<noteq> 0 then Some (ERR_BUF, s)
             else let iphdr = pb_payload (pbufs s p);
                      source = (if ip_addr_isany src then ni_ip_addr (netifs s n) else the src);
                      s = upd_mem8 (ip_fill iphdr ttl proto d tos (pb_tot_len (pbufs s p)) (ip_id s) source) s;
                      s = s\<lparr>ip_id := ip_id s + 1\<rparr>
                  in ip_send e p d n s
      | None \<Rightarrow> ip_send e p (load32 (mem8 s) (iph_dest (pb_payload (pbufs s p)))) n s)"

definition ip_output :: "'a ipkernel_scheme ipenv \<Rightarrow> addr \<Rightarrow> os_u32 option \<Rightarrow> os_u32 \<Rightarrow> os_u8 \<Rightarrow> os_u8 \<Rightarrow> os_u8 \<Rightarrow>
    'a ipkernel_scheme \<Rightarrow> (int \<times> 'a ipkernel_scheme) option" where
  "ip_output e p src dest ttl tos proto s =
     do {
       n \<leftarrow> ip_route dest s;
       if n = NULL then Some (ERR_RTE, s) else ip_output_if e p src (Some dest) ttl tos proto n s
     }"

section \<open>ICMP\<close>

definition ICMP_ER :: os_u8 where "ICMP_ER = 0"
definition ICMP_DUR :: os_u8 where "ICMP_DUR = 3"
definition ICMP_ECHO :: os_u8 where "ICMP_ECHO = 8"
definition ICMP_TE :: os_u8 where "ICMP_TE = 11"
definition ICMP_DUR_PROTO :: os_u8 where "ICMP_DUR_PROTO = 2"
definition ICMP_DUR_PORT :: os_u8 where "ICMP_DUR_PORT = 3"
definition ICMP_TTL :: os_u8 where "ICMP_TTL = 255"
definition ICMP_DEST_UNREACH_DATASIZE :: os_u16 where "ICMP_DEST_UNREACH_DATASIZE = 8"
definition SIZEOF_ICMP_ECHO_HDR :: os_u16 where "SIZEOF_ICMP_ECHO_HDR = 8"

definition icmp_send_response :: "'a ipkernel_scheme ipenv \<Rightarrow> addr \<Rightarrow> os_u8 \<Rightarrow> os_u8 \<Rightarrow> 'a ienv" where
  "icmp_send_response e p type code s =
     do {
       (q, s) \<leftarrow> palloc (net e) PBUF_IP (SIZEOF_ICMP_ECHO_HDR + IP_HLEN + ICMP_DEST_UNREACH_DATASIZE) PBUF_RAM s;
       if q = NULL then Some s
       else do {
         let iphdr = pb_payload (pbufs s p);
         let icmphdr = pb_payload (pbufs s q);
         let s = upd_mem8 (put icmphdr [type]) s;
         let s = upd_mem8 (put (icmphdr + 1) [code]) s;
         let s = upd_mem8 (put (icmphdr + 4) (bytes16 0)) s;
         let s = upd_mem8 (put (icmphdr + 6) (bytes16 0)) s;
         let s = upd_mem8 (put (icmphdr + ucast SIZEOF_ICMP_ECHO_HDR) (bytes_at (mem8 s) iphdr (unat (IP_HLEN + ICMP_DEST_UNREACH_DATASIZE)))) s;
         let s = upd_mem8 (put (icmphdr + 2) (bytes16 0)) s;
         let s = upd_mem8 (put (icmphdr + 2) (bytes16 (inet_chksum (mem8 s) icmphdr (pb_len (pbufs s q))))) s;
         (r, s) \<leftarrow> ip_output e q None (load32 (mem8 s) (iph_src iphdr)) ICMP_TTL 0 IP_PROTO_ICMP s;
         ifree e q s
       }
     }"

definition icmp_dest_unreach :: "'a ipkernel_scheme ipenv \<Rightarrow> addr \<Rightarrow> os_u8 \<Rightarrow> 'a ienv" where
  "icmp_dest_unreach e p t s = icmp_send_response e p ICMP_DUR t s"

definition icmp_time_exceeded :: "'a ipkernel_scheme ipenv \<Rightarrow> addr \<Rightarrow> os_u8 \<Rightarrow> 'a ienv" where
  "icmp_time_exceeded e p t s = icmp_send_response e p ICMP_TE t s"

text \<open>
  Room for the link header: the packet itself, or a copy that has it, with the address of the IP header; \<open>Inl\<close> is the jump to \<^verbatim>\<open>memerr\<close>.
\<close>

definition icmp_room :: "'a ipkernel_scheme ipenv \<Rightarrow> addr \<Rightarrow> addr \<Rightarrow> int \<Rightarrow> 'a ipkernel_scheme \<Rightarrow> ((unit + addr \<times> addr) \<times> 'a ipkernel_scheme) option" where
  "icmp_room e p iphdr hlen s =
     (let (r, s) = pbuf_header p (uint (PBUF_IP_HLEN + PBUF_LINK_HLEN)) s
      in if r \<noteq> 0
         then let (r, s) = pbuf_header p hlen s
              in if r \<noteq> 0 then Some (Inl (), s)
                 else do {
                   (q, s) \<leftarrow> palloc (net e) PBUF_LINK (pb_tot_len (pbufs s p)) PBUF_RAM s;
                   if q = NULL then Some (Inl (), s)
                   else do {
                     (r, s) \<leftarrow> pbuf_copy q p s;
                     if r \<noteq> ERR_OK then Some (Inl (), s)
                     else do {
                       let iphdr = pb_payload (pbufs s q);
                       let (r, s) = pbuf_header q (- hlen) s;
                       if r \<noteq> 0 then Some (Inl (), s)
                       else do { s \<leftarrow> ifree e p s; Some (Inr (q, iphdr), s) }
                     }
                   }
                 }
         else let (r, s) = pbuf_header p (- uint (PBUF_IP_HLEN + PBUF_LINK_HLEN)) s
              in if r \<noteq> 0 then Some (Inl (), s) else Some (Inr (p, iphdr), s))"

text \<open>The request is turned into the reply.\<close>

definition icmp_make_reply :: "addr \<Rightarrow> addr \<Rightarrow> os_u32 \<Rightarrow> os_u32 \<Rightarrow> bytes \<Rightarrow> bytes" where
  "icmp_make_reply iphdr iecho ipdest ipsrc m =
     (let m = put (iph_src iphdr) (bytes32 ipdest) m;
          m = put (iph_dest iphdr) (bytes32 ipsrc) m;
          m = put iecho [ICMP_ER] m;
          m = put (iecho + 2) (bytes16 0) m;
          m = put (iph_ttl iphdr) [ICMP_TTL] m
      in put (iph_chksum iphdr) (bytes16 0) m)"

definition icmp_echo :: "'a ipkernel_scheme ipenv \<Rightarrow> addr \<Rightarrow> addr \<Rightarrow> addr \<Rightarrow> int \<Rightarrow> 'a ienv" where
  "icmp_echo e p inp iphdr hlen s =
     (if ip_addr_ismulticast (current_iphdr_dest s) \<or> ip4_addr_isbroadcast (current_iphdr_dest s) (netifs s inp) then ifree e p s
      else if pb_tot_len (pbufs s p) < SIZEOF_ICMP_ECHO_HDR then ifree e p s
      else do {
        c \<leftarrow> inet_chksum_pbuf p s;
        if c \<noteq> 0 then ifree e p s
        else do {
          (room, s) \<leftarrow> icmp_room e p iphdr hlen s;
          (case room of
             Inl u \<Rightarrow> ifree e p s
           | Inr (p, iphdr) \<Rightarrow> do {
               let iecho = pb_payload (pbufs s p);
               let s = upd_mem8 (icmp_make_reply iphdr iecho (current_iphdr_dest s) (current_iphdr_src s)) s;
               let (r, s) = pbuf_header p hlen s;
               (r, s) \<leftarrow> (if r \<noteq> 0 then Some (ERR_OK, s)
                          else ip_output_if e p (Some (current_iphdr_dest s)) None ICMP_TTL 0 IP_PROTO_ICMP inp s);
               ifree e p s
             })
        }
      })"

definition icmp_input :: "'a ipkernel_scheme ipenv \<Rightarrow> addr \<Rightarrow> addr \<Rightarrow> 'a ienv" where
  "icmp_input e p inp s =
     (let iphdr = pb_payload (pbufs s p);
          hlen = uint (IPH_HL (mem8 s) iphdr) * 4;
          (r, s) = pbuf_header p (- hlen) s
      in if r \<noteq> 0 \<or> pb_tot_len (pbufs s p) < 4 then ifree e p s
         else if mem8 s (pb_payload (pbufs s p)) = ICMP_ECHO then icmp_echo e p inp iphdr hlen s
         else ifree e p s)"

section \<open>UDP\<close>

text \<open>The packet with a header in front: the packet itself, or a new buffer chained before it; NULL without memory.\<close>

definition udp_header :: "'a ipkernel_scheme ipenv \<Rightarrow> addr \<Rightarrow> 'a ipkernel_scheme \<Rightarrow> (addr \<times> 'a ipkernel_scheme) option" where
  "udp_header e p s =
     (let (r, s) = pbuf_header p (uint UDP_HLEN) s
      in if r \<noteq> 0
         then do {
           (q, s) \<leftarrow> palloc (net e) PBUF_IP UDP_HLEN PBUF_RAM s;
           if q = NULL then Some (NULL, s)
           else if pb_tot_len (pbufs s p) \<noteq> 0 then do { s \<leftarrow> pbuf_chain q p s; Some (q, s) }
           else Some (q, s)
         }
         else Some (p, s))"

definition udp_sendto_if :: "'a ipkernel_scheme ipenv \<Rightarrow> addr \<Rightarrow> addr \<Rightarrow> os_u32 \<Rightarrow> os_u16 \<Rightarrow> addr \<Rightarrow> 'a ipkernel_scheme \<Rightarrow> (int \<times> 'a ipkernel_scheme) option" where
  "udp_sendto_if e pcb p dst_ip dst_port n s =
     do {
       (err, s) \<leftarrow> (if up_local_port (udp_store s pcb) = 0 then udp_bind pcb (Some (up_local_ip (udp_store s pcb))) (up_local_port (udp_store s pcb)) s
                    else Some (ERR_OK, s));
       if err \<noteq> ERR_OK then Some (err, s)
       else do {
         (q, s) \<leftarrow> udp_header e p s;
         if q = NULL then Some (ERR_MEM, s)
         else do {
           let udphdr = pb_payload (pbufs s q);
           let s = upd_mem8 (put udphdr (bytes16 (lwip_htons (up_local_port (udp_store s pcb))))) s;
           let s = upd_mem8 (put (udphdr + 2) (bytes16 (lwip_htons dst_port))) s;
           let s = upd_mem8 (put (udphdr + 6) (bytes16 0)) s;
           let local_ip = up_local_ip (udp_store s pcb);
           if \<not> ip_addr_isany (Some local_ip) \<and> local_ip \<noteq> ni_ip_addr (netifs s n)
           then if q \<noteq> p then do { s \<leftarrow> ifree e q s; Some (ERR_VAL, s) } else Some (ERR_VAL, s)
           else do {
             let src_ip = (if ip_addr_isany (Some local_ip) then ni_ip_addr (netifs s n) else local_ip);
             let s = upd_mem8 (put (udphdr + 4) (bytes16 (lwip_htons (pb_tot_len (pbufs s q))))) s;
             (err, s) \<leftarrow> ip_output_if e q (Some src_ip) (Some dst_ip) (up_ttl (udp_store s pcb)) (up_tos (udp_store s pcb)) IP_PROTO_UDP n s;
             if q \<noteq> p then do { s \<leftarrow> ifree e q s; Some (err, s) } else Some (err, s)
           }
         }
       }
     }"

definition udp_sendto :: "'a ipkernel_scheme ipenv \<Rightarrow> addr \<Rightarrow> addr \<Rightarrow> os_u32 \<Rightarrow> os_u16 \<Rightarrow> 'a ipkernel_scheme \<Rightarrow> (int \<times> 'a ipkernel_scheme) option" where
  "udp_sendto e pcb p dst_ip dst_port s =
     do {
       n \<leftarrow> ip_route dst_ip s;
       if n = NULL then Some (ERR_RTE, s) else udp_sendto_if e pcb p dst_ip dst_port n s
     }"

definition udp_send :: "'a ipkernel_scheme ipenv \<Rightarrow> addr \<Rightarrow> addr \<Rightarrow> 'a ipkernel_scheme \<Rightarrow> (int \<times> 'a ipkernel_scheme) option" where
  "udp_send e pcb p s = udp_sendto e pcb p (up_remote_ip (udp_store s pcb)) (up_remote_port (udp_store s pcb)) s"

definition udp_input :: "'a ipkernel_scheme ipenv \<Rightarrow> addr \<Rightarrow> addr \<Rightarrow> 'a ienv" where
  "udp_input e p inp s =
     (let iphdr = pb_payload (pbufs s p);
          hlen = uint (IPH_HL (mem8 s) iphdr) * 4;
          (r, s) = (if uint (pb_tot_len (pbufs s p)) < hlen + uint UDP_HLEN then (1, s) else pbuf_header p (- hlen) s)
      in if r \<noteq> 0 then ifree e p s
         else do {
           let udphdr = pb_payload (pbufs s p);
           let broadcast = ip4_addr_isbroadcast (current_iphdr_dest s) (netifs s inp);
           let src = lwip_ntohs (load16 (mem8 s) udphdr);
           let dest = lwip_ntohs (load16 (mem8 s) (udphdr + 2));
           (pcb, s) \<leftarrow> udp_demux (dhcp_pcb e) src dest broadcast inp s;
           if pcb \<noteq> NULL \<or> ni_ip_addr (netifs s inp) = current_iphdr_dest s
           then let (r, s) = pbuf_header p (- uint UDP_HLEN) s
                in if r \<noteq> 0 then ifree e p s
                   else if pcb \<noteq> NULL
                   then if up_recv (udp_store s pcb) \<noteq> NULL
                        then recv_call e (up_recv (udp_store s pcb)) (up_recv_arg (udp_store s pcb)) pcb p (current_iphdr_src s) src s
                        else ifree e p s
                   else do {
                     s \<leftarrow> (if \<not> broadcast \<and> \<not> ip_addr_ismulticast (current_iphdr_dest s)
                           then let (r, s) = pbuf_header p (uint (IPH_HL (mem8 s) iphdr) * 4 + uint UDP_HLEN) s
                                in icmp_dest_unreach e p ICMP_DUR_PORT s
                           else Some s);
                     ifree e p s
                   }
           else ifree e p s
         })"

section \<open>IP input\<close>

text \<open>The interface the packet is for: first the one it came from, then the others in the order of the list.\<close>

partial_function (option) accept_loop :: "addr \<Rightarrow> addr \<Rightarrow> bool \<Rightarrow> 'a ipkernel_scheme \<Rightarrow> addr option" where
  "accept_loop inp n first s =
     (let x = netifs s n
      in if netif_is_up x \<and> \<not> ip_addr_isany (Some (ni_ip_addr x)) \<and>
            (current_iphdr_dest s = ni_ip_addr x \<or> ip4_addr_isbroadcast (current_iphdr_dest s) x)
         then Some n
         else let n = (if first then netif_list s else ni_next x);
                  n = (if n = inp then ni_next (netifs s n) else n)
              in if n = NULL then Some NULL else accept_loop inp n False s)"

text \<open>The switch on the protocol.\<close>

definition ip_deliver :: "'a ipkernel_scheme ipenv \<Rightarrow> addr \<Rightarrow> addr \<Rightarrow> addr \<Rightarrow> 'a ienv" where
  "ip_deliver e p inp iphdr s =
     (let proto = mem8 s (iph_proto iphdr)
      in if proto = IP_PROTO_UDP then udp_input e p inp s
         else if proto = IP_PROTO_TCP then tcp_input e p inp s
         else if proto = IP_PROTO_ICMP then icmp_input e p inp s
         else do {
           s \<leftarrow> (if \<not> ip4_addr_isbroadcast (current_iphdr_dest s) (netifs s inp) \<and> \<not> ip_addr_ismulticast (current_iphdr_dest s)
                 then icmp_dest_unreach e p ICMP_DUR_PROTO (upd_pbuf p (\<lambda>x. x\<lparr>pb_payload := iphdr\<rparr>) s)
                 else Some s);
           ifree e p s
         })"

text \<open>What follows the check of the addresses: reassembly and delivery.\<close>

definition ip_accept :: "'a ipkernel_scheme ipenv \<Rightarrow> addr \<Rightarrow> addr \<Rightarrow> addr \<Rightarrow> 'a ienv" where
  "ip_accept e p inp iphdr s =
     do {
       (p, s) \<leftarrow> (if load16 (mem8 s) (iph_offset iphdr) AND PP_HTONS (IP_OFFMASK OR IP_MF) \<noteq> 0 then ip_reass e p s else Some (p, s));
       if p = NULL then Some s
       else do {
         let iphdr = pb_payload (pbufs s p);
         let s = s\<lparr>current_netif := inp, current_header := iphdr\<rparr>;
         (eaten, s) \<leftarrow> raw_input e p inp s;
         s \<leftarrow> (if eaten = 0 then ip_deliver e p inp iphdr s else Some s);
         Some (s\<lparr>current_netif := NULL, current_header := NULL, current_iphdr_src := IPADDR_ANY, current_iphdr_dest := IPADDR_ANY\<rparr>)
       }
     }"

definition ip_input :: "'a ipkernel_scheme ipenv \<Rightarrow> addr \<Rightarrow> addr \<Rightarrow> 'a ipkernel_scheme \<Rightarrow> (int \<times> 'a ipkernel_scheme) option" where
  "ip_input e p inp s =
     do {
       let iphdr = pb_payload (pbufs s p);
       let iphdr_hlen = (ucast (IPH_HL (mem8 s) iphdr) * 4 :: os_u16);
       let iphdr_len = lwip_ntohs (load16 (mem8 s) (iph_len iphdr));
       s \<leftarrow> (if IPH_V (mem8 s) iphdr \<noteq> 4 then ifree e p s
             else if iphdr_hlen > pb_len (pbufs s p) \<or> iphdr_len > pb_tot_len (pbufs s p) then ifree e p s
             else do {
               s \<leftarrow> pbuf_realloc (custom_free (net e)) (meanwhile (net e)) p iphdr_len s;
               let s = s\<lparr>current_iphdr_dest := load32 (mem8 s) (iph_dest iphdr)\<rparr>;
               let s = s\<lparr>current_iphdr_src := load32 (mem8 s) (iph_src iphdr)\<rparr>;
               n \<leftarrow> accept_loop inp inp True s;
               let dhcp = (n = NULL \<and> mem8 s (iph_proto iphdr) = IP_PROTO_UDP \<and>
                           load16 (mem8 s) (iphdr + ucast iphdr_hlen + 2) = PP_HTONS DHCP_CLIENT_PORT);
               if \<not> dhcp \<and> \<not> ip_addr_isany (Some (current_iphdr_src s)) \<and>
                  (ip4_addr_isbroadcast (current_iphdr_src s) (netifs s inp) \<or> ip_addr_ismulticast (current_iphdr_src s))
               then ifree e p s
               else if n = NULL \<and> \<not> dhcp then ifree e p s
               else ip_accept e p inp iphdr s
             });
       Some (ERR_OK, s)
     }"

section \<open>Ethernet input\<close>

definition PBUF_FLAG_LLBCAST :: os_u8 where "PBUF_FLAG_LLBCAST = 0x08"
definition PBUF_FLAG_LLMCAST :: os_u8 where "PBUF_FLAG_LLMCAST = 0x10"

definition eth_cast :: "eth_addr \<Rightarrow> os_u8 \<Rightarrow> os_u8" where
  "eth_cast dest flags =
     (if dest ! 0 AND 1 \<noteq> 0
      then if dest ! 0 = 0x01 then if dest ! 1 = 0x00 \<and> dest ! 2 = 0x5e then flags OR PBUF_FLAG_LLMCAST else flags
           else if dest = ethbroadcast then flags OR PBUF_FLAG_LLBCAST
           else flags
      else flags)"

definition ethernet_input :: "'a ipkernel_scheme ipenv \<Rightarrow> addr \<Rightarrow> addr \<Rightarrow> 'a ipkernel_scheme \<Rightarrow> (int \<times> 'a ipkernel_scheme) option" where
  "ethernet_input e p n s =
     do {
       s \<leftarrow> (if pb_len (pbufs s p) \<le> SIZEOF_ETH_HDR then ifree e p s
             else do {
               let ethhdr = pb_payload (pbufs s p);
               let type = load16 (mem8 s) (eth_type ethhdr);
               let s = upd_pbuf p (\<lambda>x. x\<lparr>pb_flags := eth_cast (bytes_at (mem8 s) (eth_dest ethhdr) 6) (pb_flags x)\<rparr>) s;
               if type = PP_HTONS ETHTYPE_IP
               then if \<not> has_flag NETIF_FLAG_ETHARP (netifs s n) then ifree e p s
                    else let (r, s) = pbuf_header p (- uint SIZEOF_ETH_HDR) s
                         in if r \<noteq> 0 then ifree e p s else do { (r, s) \<leftarrow> ip_input e p n s; Some s }
               else if type = PP_HTONS ETHTYPE_ARP
               then if \<not> has_flag NETIF_FLAG_ETHARP (netifs s n) then ifree e p s
                    else etharp_arp_input (net e) n (ni_hwaddr (netifs s n)) p s
               else ifree e p s
             });
       Some (ERR_OK, s)
     }"

end
