(* ===== verification/Udp_Ports.thy ===== *)
theory Udp_Ports
  imports Udp
begin

text \<open>
  The ports of UDP. Over any sequence of calls the list of bound blocks stays a list, no two blocks on it compete for the datagrams of one address and port, and every call returns: a free port is found
  because there are far fewer blocks than ports. The choice of the receiver of a datagram is the first block of the list that fits best, and for a unicast datagram it is the only one that fits.
\<close>

section \<open>Lists linked by a pointer\<close>

primrec lchain :: "(addr \<Rightarrow> addr) \<Rightarrow> addr \<Rightarrow> addr list \<Rightarrow> bool" where
  "lchain f a [] \<longleftrightarrow> a = NULL"
| "lchain f a (x # xs) \<longleftrightarrow> a = x \<and> x \<noteq> NULL \<and> lchain f (f x) xs"

lemma lchain_NULL [simp]: "lchain f NULL xs \<longleftrightarrow> xs = []"
  by (cases xs) auto

lemma lchain_cong: "(\<And>x. x \<in> set xs \<Longrightarrow> g x = f x) \<Longrightarrow> lchain g a xs = lchain f a xs"
  by (induction xs arbitrary: a) auto

lemma lchain_unique: "lchain f a xs \<Longrightarrow> lchain f a ys \<Longrightarrow> xs = ys"
  by (induction xs arbitrary: a ys; rename_tac ys, case_tac ys) auto

lemma lchain_not_NULL: "lchain f a xs \<Longrightarrow> NULL \<notin> set xs"
  by (induction xs arbitrary: a) auto

lemma lchain_suffix: "lchain f a (xs @ y # ys) \<Longrightarrow> lchain f y (y # ys)"
  by (induction xs arbitrary: a) auto

lemma lchain_distinct: "lchain f a xs \<Longrightarrow> distinct xs"
proof (induction xs arbitrary: a)
  case (Cons x xs)
  have "x \<notin> set xs"
  proof
    assume "x \<in> set xs"
    then obtain us vs where xs: "xs = us @ x # vs" by (meson split_list)
    then have "lchain f x (x # vs)" "lchain f x (x # xs)" using Cons.prems lchain_suffix [of f a "x # us" x vs] by auto
    then have "vs = xs" using lchain_unique [of f x "x # vs" "x # xs"] by simp
    then show False using xs by (metis append_Cons append_eq_append_conv2 length_append list.size(4) not_add_less2 add_Suc_right lessI less_SucI add.commute)
  qed
  then show ?case using Cons by auto
qed simp

lemma lchain_upd [simp]: "p \<notin> set xs \<Longrightarrow> lchain (f(p := v)) a xs \<longleftrightarrow> lchain f a xs"
  by (rule lchain_cong) auto

lemma lchain_push: "lchain f a xs \<Longrightarrow> p \<notin> set xs \<Longrightarrow> p \<noteq> NULL \<Longrightarrow> lchain (f(p := a)) p (p # xs)"
  by simp

lemma lchain_unlink: "lchain f a (us @ q # p # vs) \<Longrightarrow> lchain (f(q := f p)) a (us @ q # vs)"
proof (induction us arbitrary: a)
  case Nil
  then have "q \<notin> set vs" using lchain_distinct by fastforce
  then show ?case using Nil by (simp del: fun_upd_apply) simp
next
  case (Cons u us)
  then have "u \<noteq> q" using lchain_distinct by fastforce
  then show ?case using Cons by auto
qed

lemma lchain_to_front:
  assumes "lchain f a (us @ q # p # vs)"
  shows "lchain ((f(q := f p))(p := a)) p (p # us @ q # vs)"
  using lchain_push [OF lchain_unlink [OF assms], of p] lchain_distinct [OF assms] lchain_not_NULL [OF assms] by auto

section \<open>The list of blocks\<close>

definition nexts :: "'a ipkernel_scheme \<Rightarrow> addr \<Rightarrow> addr" where
  "nexts s a = up_next (udp_store s a)"

definition bound :: "'a ipkernel_scheme \<Rightarrow> addr list \<Rightarrow> bool" where
  "bound s ps \<longleftrightarrow> lchain (nexts s) (udp_pcbs s) ps"

lemma nexts_upd: "nexts (upd_udp p f s) = (nexts s)(p := up_next (f (udp_store s p)))"
  by (auto simp: nexts_def upd_udp_def)

lemma nexts_other [simp]:
  "nexts (s\<lparr>udp_pcbs := a\<rparr>) = nexts s" "nexts (s\<lparr>udp_port := b\<rparr>) = nexts s" "nexts (s\<lparr>memp_tab := c\<rparr>) = nexts s" "nexts (s\<lparr>pbufs := d\<rparr>) = nexts s"
  by (simp_all add: nexts_def fun_eq_iff)

lemma port_taken_list:
  "lchain (nexts s) a ps \<Longrightarrow> port_taken a port s = Some (\<exists>p \<in> set ps. up_local_port (udp_store s p) = port)"
  by (induction ps arbitrary: a) (subst port_taken.simps, simp add: nexts_def)+

lemma udp_listed_list: "lchain (nexts s) a ps \<Longrightarrow> udp_listed pcb a s = Some (pcb \<in> set ps)"
  by (induction ps arbitrary: a) (subst udp_listed.simps, auto simp: nexts_def)+

text \<open>Two blocks compete for a port if a datagram could be for both.\<close>

definition competes :: "os_u32 option \<Rightarrow> os_u16 \<Rightarrow> udp_pcb \<Rightarrow> bool" where
  "competes ipaddr port x \<longleftrightarrow> up_local_port x = port \<and> (up_local_ip x = IPADDR_ANY \<or> ip_addr_isany ipaddr \<or> ipaddr = Some (up_local_ip x))"

lemma bind_check_list:
  "lchain (nexts s) a ps \<Longrightarrow> bind_check pcb ipaddr port a rebind s =
     Some (if \<exists>p \<in> set ps. p \<noteq> pcb \<and> competes ipaddr port (udp_store s p) then Inl ERR_USE else Inr (rebind \<or> pcb \<in> set ps))"
proof (induction ps arbitrary: a rebind)
  case Nil
  then show ?case by (subst bind_check.simps) simp
next
  case (Cons p ps)
  have p: "lchain (nexts s) (up_next (udp_store s p)) ps" "a = p" "p \<noteq> NULL" using Cons.prems by (auto simp flip: nexts_def)
  have "bind_check pcb ipaddr port a rebind s =
      (if pcb = p then bind_check pcb ipaddr port (up_next (udp_store s p)) True s
       else if competes ipaddr port (udp_store s p) then Some (Inl ERR_USE) else bind_check pcb ipaddr port (up_next (udp_store s p)) rebind s)"
    using p(2,3) by (subst bind_check.simps) (simp add: Let_def competes_def ip_addr_isany_def)
  then show ?case using Cons.IH [OF p(1)] by auto
qed

lemma unlink_absent: "lchain (nexts s) a ps \<Longrightarrow> pcb \<notin> set ps \<Longrightarrow> udp_unlink pcb a s = Some s"
proof (induction ps arbitrary: a)
  case Nil
  then show ?case by (subst udp_unlink.simps) simp
next
  case (Cons p ps)
  then have "up_next (udp_store s p) \<noteq> NULL \<Longrightarrow> up_next (udp_store s p) \<noteq> pcb" by (cases ps) (auto simp: nexts_def)
  then show ?case using Cons by (subst udp_unlink.simps) (auto simp: Let_def nexts_def)
qed

lemma unlink_list:
  assumes "lchain (nexts s) a (us @ q # pcb # vs)"
  shows "udp_unlink pcb a s = Some (upd_udp q (\<lambda>x. x\<lparr>up_next := nexts s pcb\<rparr>) s)"
  using assms
proof (induction us arbitrary: a)
  case Nil
  let ?s = "upd_udp q (\<lambda>x. x\<lparr>up_next := nexts s pcb\<rparr>) s"
  have d: "pcb \<notin> set vs" "q \<notin> set vs" using lchain_distinct [OF Nil] by auto
  then have "lchain (nexts ?s) (nexts s pcb) vs" using Nil by (simp add: nexts_upd)
  then have "udp_unlink pcb (nexts s pcb) ?s = Some ?s" using d by (intro unlink_absent)
  moreover have "up_next (udp_store ?s q) = nexts s pcb" by (simp add: upd_udp_def)
  ultimately show ?case using Nil by (subst udp_unlink.simps) (auto simp: Let_def nexts_def)
next
  case (Cons u us)
  have "u \<noteq> pcb" "a = u" "u \<noteq> NULL" using lchain_distinct [OF Cons.prems] Cons.prems by auto
  moreover have "nexts s u \<noteq> pcb" using Cons.prems lchain_distinct [OF Cons.prems] by (cases us) auto
  moreover have "udp_unlink pcb (nexts s u) s = Some (upd_udp q (\<lambda>x. x\<lparr>up_next := nexts s pcb\<rparr>) s)" using Cons by auto
  ultimately show ?case by (subst udp_unlink.simps) (auto simp: Let_def nexts_def)
qed

section \<open>A free port\<close>

text \<open>The port that is tried \<open>k\<close> steps after \<open>q\<close>.\<close>

definition nth_port :: "os_u16 \<Rightarrow> nat \<Rightarrow> os_u16" where
  "nth_port q k = of_nat (0xc000 + (unat q - 0xc000 + k) mod 0x4000)"

lemma unat_nth_port: "unat (nth_port q k) = 0xc000 + (unat q - 0xc000 + k) mod 0x4000"
proof -
  have "(unat q - 0xc000 + k) mod 0x4000 < 0x4000" by simp
  then have "0xc000 + (unat q - 0xc000 + k) mod 0x4000 < 2 ^ LENGTH(16)" by simp
  then show ?thesis unfolding nth_port_def by (simp only: unsigned_of_nat take_bit_nat_eq_self of_nat_id)
qed

lemma nth_port_range: "0xc000 \<le> nth_port q k"
  by (simp add: word_le_nat_alt unat_nth_port)

lemma nth_port_Suc: "nth_port q (Suc k) = nth_port (nth_port q 1) k"
proof -
  have "((unat q - 0xc000 + 1) mod 0x4000 + k) mod 0x4000 = (unat q - 0xc000 + Suc k) mod 0x4000"
    by (simp only: mod_add_left_eq) simp
  then show ?thesis by (simp only: word_unat_eq_iff unat_nth_port) simp
qed

lemma nth_port_inj: "inj_on (\<lambda>k. nth_port q (Suc k)) {..< 0x4000}"
proof (rule inj_onI)
  fix j k
  let ?b = "Suc (unat q - 0xc000)"
  assume "j \<in> {..< 0x4000}" "k \<in> {..< 0x4000}" "nth_port q (Suc j) = nth_port q (Suc k)"
  then have "j < 0x4000" "k < 0x4000" "(?b + j) mod 0x4000 = (?b + k) mod 0x4000"
    using arg_cong [of "nth_port q (Suc j)" "nth_port q (Suc k)" unat] unfolding unat_nth_port by simp_all
  then obtain u v where "j + 0x4000 * u = k + 0x4000 * v" by (auto simp: nat_mod_eq_iff add.assoc)
  then have "(j + 0x4000 * u) mod 0x4000 = (k + 0x4000 * v) mod 0x4000" by (rule arg_cong)
  then show "j = k" using \<open>j < 0x4000\<close> \<open>k < 0x4000\<close> by (simp only: mod_mult_self2 mod_less)
qed

lemma try_port:
  assumes "0xc000 \<le> udp_port s"
  shows "(if udp_port s = UDP_LOCAL_PORT_RANGE_END then s\<lparr>udp_port := UDP_LOCAL_PORT_RANGE_START\<rparr> else s\<lparr>udp_port := udp_port s + 1\<rparr>) =
    s\<lparr>udp_port := nth_port (udp_port s) 1\<rparr>"
proof -
  have q: "0xc000 \<le> unat (udp_port s)" using assms by (simp add: word_le_nat_alt)
  show ?thesis
  proof (cases "udp_port s = 0xffff")
    case True
    then show ?thesis by (simp add: UDP_LOCAL_PORT_RANGE_END_def UDP_LOCAL_PORT_RANGE_START_def nth_port_def)
  next
    case False
    then have "unat (udp_port s) \<noteq> 0xffff" by (simp add: word_unat_eq_iff)
    moreover have "unat (udp_port s) < 2 ^ LENGTH(16)" by (rule unsigned_less)
    ultimately have "unat (udp_port s) < 0xffff" by simp
    then have "nth_port (udp_port s) 1 = udp_port s + 1"
      using q by (simp add: word_unat_eq_iff unat_nth_port unat_word_ariths)
    then show ?thesis using False by (simp add: UDP_LOCAL_PORT_RANGE_END_def)
  qed
qed

lemma new_port_tries:
  assumes "lchain (nexts s) (udp_pcbs s) ps" and "0xc000 \<le> udp_port s"
    and "\<forall>j < k. \<exists>p \<in> set ps. up_local_port (udp_store s p) = nth_port (udp_port s) (Suc j)"
    and "\<forall>p \<in> set ps. up_local_port (udp_store s p) \<noteq> nth_port (udp_port s) (Suc k)" and "unat n + k < 0x4000"
  shows "udp_new_port_loop n s = Some (nth_port (udp_port s) (Suc k), s\<lparr>udp_port := nth_port (udp_port s) (Suc k)\<rparr>)"
  using assms
proof (induction k arbitrary: n s)
  case 0
  have "port_taken (udp_pcbs s) (nth_port (udp_port s) 1) (s\<lparr>udp_port := nth_port (udp_port s) 1\<rparr>) = Some False"
    using 0 port_taken_list [of "s\<lparr>udp_port := nth_port (udp_port s) 1\<rparr>"] by auto
  then show ?case using 0 by (subst udp_new_port_loop.simps) (simp add: try_port)
next
  case (Suc k)
  let ?s = "s\<lparr>udp_port := nth_port (udp_port s) 1\<rparr>"
  have "port_taken (udp_pcbs s) (nth_port (udp_port s) 1) ?s = Some True"
    using Suc.prems port_taken_list [of ?s "udp_pcbs s" ps] by auto
  moreover have n: "unat (n + 1) = Suc (unat n)" using Suc.prems(5) by (simp add: unat_word_ariths)
  moreover have "\<not> n + 1 > UDP_LOCAL_PORT_RANGE_END - UDP_LOCAL_PORT_RANGE_START"
    using n Suc.prems(5) by (simp add: word_less_nat_alt UDP_LOCAL_PORT_RANGE_END_def UDP_LOCAL_PORT_RANGE_START_def)
  moreover have "udp_new_port_loop (n + 1) ?s = Some (nth_port (udp_port ?s) (Suc k), ?s\<lparr>udp_port := nth_port (udp_port ?s) (Suc k)\<rparr>)"
    using Suc.prems n nth_port_range by (intro Suc.IH) (auto simp: nth_port_Suc [symmetric] simp del: One_nat_def)
  ultimately show ?case using Suc.prems(2)
    by (subst udp_new_port_loop.simps) (simp add: try_port nth_port_Suc [of "udp_port s" "Suc k"])
qed

lemma new_port_free:
  assumes "lchain (nexts s) (udp_pcbs s) ps" and "0xc000 \<le> udp_port s" and "length ps < 0x4000"
  shows "\<exists>q. udp_new_port s = Some (q, s\<lparr>udp_port := q\<rparr>) \<and> 0xc000 \<le> q \<and> (\<forall>p \<in> set ps. up_local_port (udp_store s p) \<noteq> q)"
proof -
  let ?taken = "(\<lambda>p. up_local_port (udp_store s p)) ` set ps" and ?port = "\<lambda>k. nth_port (udp_port s) (Suc k)"
  have "\<exists>k \<le> length ps. ?port k \<notin> ?taken"
  proof (rule ccontr)
    assume "\<not> ?thesis"
    then have "?port ` {..length ps} \<subseteq> ?taken" by auto
    moreover have "inj_on ?port {..length ps}" using assms(3) by (intro inj_on_subset [OF nth_port_inj]) auto
    ultimately have "card {..length ps} \<le> card ?taken" by (intro card_inj_on_le) auto
    moreover have "card ?taken \<le> length ps" using card_image_le [of "set ps" "\<lambda>p. up_local_port (udp_store s p)"] card_length [of ps] by simp
    ultimately show False by simp
  qed
  then obtain k0 where k0: "k0 \<le> length ps" "?port k0 \<notin> ?taken" by blast
  define P where "P k \<longleftrightarrow> ?port k \<notin> ?taken" for k
  define k where "k = (LEAST k. P k)"
  have "P k0" unfolding P_def by (rule k0(2))
  then have "P k" "k \<le> k0" "\<forall>j < k. \<not> P j" unfolding k_def by (auto intro: LeastI Least_le dest: not_less_Least)
  then have k: "?port k \<notin> ?taken" "k \<le> k0" "\<forall>j < k. ?port j \<in> ?taken" unfolding P_def by blast+
  have "udp_new_port_loop 0 s = Some (?port k, s\<lparr>udp_port := ?port k\<rparr>)"
  proof (rule new_port_tries [OF assms(1,2)])
    show "\<forall>j < k. \<exists>p \<in> set ps. up_local_port (udp_store s p) = ?port j" using k(3) by (metis imageE)
    show "\<forall>p \<in> set ps. up_local_port (udp_store s p) \<noteq> ?port k" using k(1) by (metis imageI)
  qed (use k(2) k0(1) assms(3) in simp)
  moreover have "\<forall>p \<in> set ps. up_local_port (udp_store s p) \<noteq> ?port k" using k(1) by (metis imageI)
  ultimately show ?thesis using nth_port_range by (intro exI [of _ "?port k"]) (simp add: udp_new_port_def)
qed

section \<open>The invariant\<close>

text \<open>
  \<open>owned\<close> are the blocks that were handed out and not removed, \<open>ps\<close> the list of the bound ones, \<open>fs\<close> the free ones.
\<close>

definition frees :: "'a ipkernel_scheme \<Rightarrow> addr \<Rightarrow> addr" where
  "frees s a = pb_next (pbufs s a)"

definition clash :: "udp_pcb \<Rightarrow> udp_pcb \<Rightarrow> bool" where
  "clash x y \<longleftrightarrow> up_local_port x = up_local_port y \<and> (up_local_ip x = IPADDR_ANY \<or> up_local_ip y = IPADDR_ANY \<or> up_local_ip x = up_local_ip y)"

definition udp_ok :: "addr set \<Rightarrow> addr list \<Rightarrow> addr list \<Rightarrow> 'a ipkernel_scheme \<Rightarrow> bool" where
  "udp_ok owned ps fs s \<longleftrightarrow>
     lchain (nexts s) (udp_pcbs s) ps \<and> lchain (frees s) (memp_tab s MEMP_UDP_PCB) fs \<and>
     finite owned \<and> NULL \<notin> owned \<and> owned \<inter> set fs = {} \<and> set ps \<subseteq> owned \<and> card owned + length fs \<le> MEMP_NUM_UDP_PCB \<and>
     UDP_LOCAL_PORT_RANGE_START \<le> udp_port s \<and> (\<forall>p \<in> owned. p \<in> set ps \<longleftrightarrow> up_local_port (udp_store s p) \<noteq> 0) \<and>
     (\<forall>p \<in> set ps. \<forall>q \<in> set ps. p \<noteq> q \<longrightarrow> \<not> clash (udp_store s p) (udp_store s q))"

lemma clash_sym: "clash x y \<longleftrightarrow> clash y x"
  by (auto simp: clash_def)

lemma competes_clash: "up_local_ip x = ip_addr_set ipaddr \<Longrightarrow> up_local_port x = port \<Longrightarrow> competes ipaddr port y \<longleftrightarrow> clash x y"
  by (auto simp: clash_def competes_def ip_addr_isany_def ip_addr_set_def IPADDR_ANY_def split: option.splits)

lemma frees_upd [simp]: "frees (upd_udp p f s) = frees s" "frees (s\<lparr>udp_pcbs := a\<rparr>) = frees s" "frees (s\<lparr>udp_port := b\<rparr>) = frees s"
  "frees (s\<lparr>udp_store := g\<rparr>) = frees s" "frees (s\<lparr>memp_tab := t\<rparr>) = frees s"
  by (simp_all add: frees_def upd_udp_def fun_eq_iff)

lemma udp_ok_few: "udp_ok owned ps fs s \<Longrightarrow> length ps \<le> MEMP_NUM_UDP_PCB"
proof -
  assume ok: "udp_ok owned ps fs s"
  then have "length ps = card (set ps)" unfolding udp_ok_def by (metis distinct_card lchain_distinct)
  moreover have "card (set ps) \<le> card owned" using ok by (intro card_mono) (auto simp: udp_ok_def)
  ultimately show ?thesis using ok by (simp add: udp_ok_def)
qed

text \<open>A change that leaves link, address and port alone.\<close>

lemma udp_ok_touch:
  assumes "udp_ok owned ps fs s" and "up_next x = nexts s pcb" "up_local_ip x = up_local_ip (udp_store s pcb)" "up_local_port x = up_local_port (udp_store s pcb)"
  shows "udp_ok owned ps fs (s\<lparr>udp_store := (udp_store s)(pcb := x)\<rparr>)"
proof -
  let ?s = "s\<lparr>udp_store := (udp_store s)(pcb := x)\<rparr>"
  have "nexts ?s = nexts s" using assms(2) by (auto simp: nexts_def)
  then show ?thesis using assms unfolding udp_ok_def clash_def by simp
qed

text \<open>A block gets an address and a port that nobody else has, and is put on the list unless it is there.\<close>

lemma udp_ok_bind:
  assumes ok: "udp_ok owned ps fs s" and pcb: "pcb \<in> owned" and x: "up_next x = (if pcb \<in> set ps then nexts s pcb else udp_pcbs s)" "up_local_port x \<noteq> 0"
    and free: "\<forall>p \<in> set ps. p \<noteq> pcb \<longrightarrow> \<not> clash x (udp_store s p)" and q: "UDP_LOCAL_PORT_RANGE_START \<le> q"
  shows "udp_ok owned (if pcb \<in> set ps then ps else pcb # ps) fs
    (s\<lparr>udp_store := (udp_store s)(pcb := x), udp_port := q, udp_pcbs := if pcb \<in> set ps then udp_pcbs s else pcb\<rparr>)"
proof -
  let ?s = "s\<lparr>udp_store := (udp_store s)(pcb := x), udp_port := q, udp_pcbs := if pcb \<in> set ps then udp_pcbs s else pcb\<rparr>"
  let ?ps = "if pcb \<in> set ps then ps else pcb # ps"
  have n: "nexts ?s = (nexts s)(pcb := up_next x)" by (auto simp: nexts_def)
  have c: "lchain (nexts s) (udp_pcbs s) ps" and nn: "pcb \<noteq> NULL" using ok pcb by (auto simp: udp_ok_def)
  have "lchain (nexts ?s) (udp_pcbs ?s) ?ps"
  proof (cases "pcb \<in> set ps")
    case True
    then have "nexts ?s = nexts s" using n x(1) by auto
    then show ?thesis using True c by simp
  next
    case False
    then show ?thesis using n x(1) c nn by simp
  qed
  moreover have "p \<in> owned \<Longrightarrow> p \<in> set ?ps \<longleftrightarrow> up_local_port (udp_store ?s p) \<noteq> 0" for p using ok x(2) unfolding udp_ok_def by auto
  moreover have "p \<in> set ?ps \<Longrightarrow> r \<in> set ?ps \<Longrightarrow> p \<noteq> r \<Longrightarrow> \<not> clash (udp_store ?s p) (udp_store ?s r)" for p r
    using ok free clash_sym unfolding udp_ok_def by (auto split: if_splits)
  moreover have "frees ?s = frees s" by (simp add: frees_def fun_eq_iff)
  ultimately show ?thesis using ok pcb q unfolding udp_ok_def by auto
qed

section \<open>The operations keep the invariant\<close>

lemma bind_ok:
  assumes ok: "udp_ok owned ps fs s" and pcb: "pcb \<in> owned"
  shows "\<exists>r s'. udp_bind pcb ipaddr port s = Some (r, s') \<and> (\<exists>ps'. udp_ok owned ps' fs s') \<and> (r = ERR_OK \<or> r = ERR_USE \<and> s' = s) \<and>
    (r = ERR_OK \<longrightarrow> up_local_port (udp_store s' pcb) \<noteq> 0)"
proof (cases "\<exists>p \<in> set ps. p \<noteq> pcb \<and> competes ipaddr port (udp_store s p)")
  case True
  then have "udp_bind pcb ipaddr port s = Some (ERR_USE, s)" using bind_check_list [of s "udp_pcbs s" ps pcb ipaddr port False] ok by (simp add: udp_bind_def udp_ok_def)
  then show ?thesis using ok by (auto simp: ERR_USE_def ERR_OK_def)
next
  case False
  let ?s = "upd_udp pcb (\<lambda>x. x\<lparr>up_local_ip := ip_addr_set ipaddr\<rparr>) s"
  have ch: "lchain (nexts s) (udp_pcbs s) ps" using ok by (simp add: udp_ok_def)
  have n: "nexts ?s = nexts s" by (auto simp: nexts_def upd_udp_def)
  have "\<exists>q r. (if port = 0 then udp_new_port ?s else Some (port, ?s)) = Some (q, ?s\<lparr>udp_port := r\<rparr>) \<and> q \<noteq> 0 \<and> UDP_LOCAL_PORT_RANGE_START \<le> r \<and>
      (port \<noteq> 0 \<longrightarrow> q = port) \<and> (port = 0 \<longrightarrow> (\<forall>p \<in> set ps. up_local_port (udp_store s p) \<noteq> q))"
  proof (cases "port = 0")
    case True
    have "lchain (nexts ?s) (udp_pcbs ?s) ps" "0xc000 \<le> udp_port ?s" "length ps < 0x4000"
      using ch n ok udp_ok_few [OF ok] by (auto simp: upd_udp_def udp_ok_def UDP_LOCAL_PORT_RANGE_START_def MEMP_NUM_UDP_PCB_def)
    from new_port_free [OF this] obtain q where q: "udp_new_port ?s = Some (q, ?s\<lparr>udp_port := q\<rparr>)" "0xc000 \<le> q"
        "\<forall>p \<in> set ps. up_local_port (udp_store ?s p) \<noteq> q" by blast
    have "q \<noteq> 0" using q(2) by (auto simp: word_le_nat_alt)
    moreover have "\<forall>p \<in> set ps. up_local_port (udp_store s p) \<noteq> q" using q(3) by (auto simp: upd_udp_def split: if_splits)
    ultimately show ?thesis unfolding UDP_LOCAL_PORT_RANGE_START_def using True q(1,2) by (intro exI [of _ q]) simp
  next
    case False
    moreover have "UDP_LOCAL_PORT_RANGE_START \<le> udp_port s" using ok by (simp add: udp_ok_def)
    ultimately show ?thesis by (intro exI [of _ port] exI [of _ "udp_port s"]) (simp add: upd_udp_def)
  qed
  then obtain q r where q: "(if port = 0 then udp_new_port ?s else Some (port, ?s)) = Some (q, ?s\<lparr>udp_port := r\<rparr>)" "q \<noteq> 0" "UDP_LOCAL_PORT_RANGE_START \<le> r"
      "port \<noteq> 0 \<longrightarrow> q = port" "port = 0 \<longrightarrow> (\<forall>p \<in> set ps. up_local_port (udp_store s p) \<noteq> q)" by blast
  define x where "x = (udp_store s pcb)\<lparr>up_local_ip := ip_addr_set ipaddr, up_local_port := q, up_next := if pcb \<in> set ps then nexts s pcb else udp_pcbs s\<rparr>"
  have "udp_bind pcb ipaddr port s = Some (ERR_OK,
      s\<lparr>udp_store := (udp_store s)(pcb := x), udp_port := r, udp_pcbs := if pcb \<in> set ps then udp_pcbs s else pcb\<rparr>)"
    using False q(1,2) bind_check_list [OF ch, of pcb ipaddr port False]
    by (auto simp: udp_bind_def upd_udp_def x_def nexts_def Let_def cong: if_cong)
  moreover have "\<not> clash x (udp_store s p)" if "p \<in> set ps" "p \<noteq> pcb" for p
  proof (cases "port = 0")
    case True
    then show ?thesis using q(5) that by (auto simp: clash_def x_def)
  next
    case no: False
    then have "competes ipaddr port (udp_store s p) \<longleftrightarrow> clash x (udp_store s p)" using q(4) by (intro competes_clash) (auto simp: x_def)
    then show ?thesis using False that by blast
  qed
  ultimately show ?thesis using udp_ok_bind [OF ok pcb, of x r] q(2,3) by (auto simp: x_def cong: if_cong)
qed

text \<open>States that differ in the links of the blocks only.\<close>

definition relinked :: "'a ipkernel_scheme \<Rightarrow> 'a ipkernel_scheme \<Rightarrow> bool" where
  "relinked s s' \<longleftrightarrow> (\<exists>g a. s' = s\<lparr>udp_store := g, udp_pcbs := a\<rparr> \<and> (\<forall>b. (g b)\<lparr>up_next := NULL\<rparr> = (udp_store s b)\<lparr>up_next := NULL\<rparr>))"

lemma relinked_pcb:
  assumes "relinked s s'"
  shows "up_local_ip (udp_store s' b) = up_local_ip (udp_store s b)" "up_local_port (udp_store s' b) = up_local_port (udp_store s b)"
    "up_recv (udp_store s' b) = up_recv (udp_store s b)" "up_recv_arg (udp_store s' b) = up_recv_arg (udp_store s b)"
proof -
  have "(udp_store s' b)\<lparr>up_next := NULL\<rparr> = (udp_store s b)\<lparr>up_next := NULL\<rparr>" using assms by (auto simp: relinked_def)
  then show "up_local_ip (udp_store s' b) = up_local_ip (udp_store s b)" "up_local_port (udp_store s' b) = up_local_port (udp_store s b)"
    "up_recv (udp_store s' b) = up_recv (udp_store s b)" "up_recv_arg (udp_store s' b) = up_recv_arg (udp_store s b)"
    by (cases "udp_store s' b"; cases "udp_store s b"; simp)+
qed

lemma relinked_refl: "relinked s s"
  unfolding relinked_def by (intro exI [of _ "udp_store s"] exI [of _ "udp_pcbs s"]) simp

lemma relinked_head: "relinked s t \<Longrightarrow> relinked s (t\<lparr>udp_pcbs := a\<rparr>)"
  unfolding relinked_def by fastforce

lemma relinked_next:
  assumes "relinked s t"
  shows "relinked s (upd_udp q (\<lambda>x. x\<lparr>up_next := v\<rparr>) t)"
proof -
  obtain g a where "t = s\<lparr>udp_store := g, udp_pcbs := a\<rparr>" "\<forall>b. (g b)\<lparr>up_next := NULL\<rparr> = (udp_store s b)\<lparr>up_next := NULL\<rparr>"
    using assms by (auto simp: relinked_def)
  then show ?thesis unfolding relinked_def upd_udp_def by (intro exI [of _ "g(q := (g q)\<lparr>up_next := v\<rparr>)"] exI [of _ a]) simp
qed

lemma udp_ok_relink:
  assumes ok: "udp_ok owned ps fs s" and r: "relinked s s'" and c: "lchain (nexts s') (udp_pcbs s') ps'" and o: "owned' \<subseteq> owned" "set ps' = set ps \<inter> owned'"
  shows "udp_ok owned' ps' fs s'"
proof -
  have k: "frees s' = frees s" "memp_tab s' = memp_tab s" "udp_port s' = udp_port s" using r by (auto simp: relinked_def)
  have "card owned' \<le> card owned" "finite owned'" using o(1) ok by (auto simp: udp_ok_def intro: card_mono finite_subset)
  moreover have "clash (udp_store s' p) (udp_store s' q) = clash (udp_store s p) (udp_store s q)" for p q by (simp add: clash_def relinked_pcb [OF r])
  ultimately show ?thesis using ok c o unfolding udp_ok_def k by (auto simp: relinked_pcb(2) [OF r])
qed

lemma remove_ok:
  assumes ok: "udp_ok owned ps fs s" and pcb: "pcb \<in> owned"
  shows "\<exists>s'. udp_remove pcb s = Some s' \<and> udp_ok (owned - {pcb}) (remove1 pcb ps) (pcb # fs) s'"
proof -
  have ch: "lchain (nexts s) (udp_pcbs s) ps" and nn: "pcb \<noteq> NULL" and fs: "pcb \<notin> set fs" using ok pcb by (auto simp: udp_ok_def)
  have d: "distinct ps" using lchain_distinct [OF ch] .
  have "\<exists>t. (if udp_pcbs s = pcb then Some (s\<lparr>udp_pcbs := up_next (udp_store s (udp_pcbs s))\<rparr>) else udp_unlink pcb (udp_pcbs s) s) = Some t \<and>
      relinked s t \<and> lchain (nexts t) (udp_pcbs t) (remove1 pcb ps)"
  proof (cases "udp_pcbs s = pcb")
    case True
    then obtain ps' where "ps = pcb # ps'" using ch nn by (cases ps) auto
    then show ?thesis using True ch by (auto simp: nexts_def [symmetric] intro!: relinked_head relinked_refl)
  next
    case False
    show ?thesis
    proof (cases "pcb \<in> set ps")
      case True
      then obtain us vs where ps: "ps = us @ pcb # vs" by (meson split_list)
      have "us \<noteq> []" using False ch ps by auto
      then obtain us' q where us: "us = us' @ [q]" by (metis rev_exhaust)
      have "lchain (nexts s) (udp_pcbs s) (us' @ q # pcb # vs)" using ch ps us by simp
      note u = unlink_list [OF this] and l = lchain_unlink [OF this]
      have "remove1 pcb ps = us' @ q # vs" using d ps us by (simp add: remove1_append)
      moreover have "udp_pcbs (upd_udp q (\<lambda>x. x\<lparr>up_next := nexts s pcb\<rparr>) s) = udp_pcbs s" by (simp add: upd_udp_def)
      ultimately show ?thesis using False u l by (simp add: nexts_upd relinked_next relinked_refl)
    next
      case no: False
      then show ?thesis using False unlink_absent [OF ch] ch by (simp add: remove1_idem relinked_refl)
    qed
  qed
  then obtain t where t: "udp_remove pcb s = Some (memp_free MEMP_UDP_PCB pcb t)" "relinked s t" "lchain (nexts t) (udp_pcbs t) (remove1 pcb ps)"
    unfolding udp_remove_def by (auto simp: bind_eq_Some_conv)
  have ok2: "udp_ok (owned - {pcb}) (remove1 pcb ps) fs t"
    by (rule udp_ok_relink [OF ok t(2,3)]) (use ok d in \<open>auto simp: udp_ok_def\<close>)
  let ?s = "memp_free MEMP_UDP_PCB pcb t"
  have "nexts ?s = nexts t" "udp_pcbs ?s = udp_pcbs t" "udp_port ?s = udp_port t" "udp_store ?s = udp_store t"
      "frees ?s = (frees t)(pcb := memp_tab t MEMP_UDP_PCB)" "memp_tab ?s MEMP_UDP_PCB = pcb"
    using nn by (auto simp: memp_free_def Let_def upd_pbuf_def nexts_def frees_def)
  moreover have "card (owned - {pcb}) + length (pcb # fs) = card owned + length fs"
    using ok pcb card_Suc_Diff1 [of owned pcb] by (simp add: udp_ok_def)
  ultimately have "udp_ok (owned - {pcb}) (remove1 pcb ps) (pcb # fs) ?s"
    using ok2 ok fs nn unfolding udp_ok_def [of _ _ "pcb # fs"] by (auto simp: udp_ok_def)
  then show ?thesis using t(1) by blast
qed

lemma touch_ok:
  assumes "udp_ok owned ps fs s" and "\<And>x. up_next (f x) = up_next x" "\<And>x. up_local_ip (f x) = up_local_ip x" "\<And>x. up_local_port (f x) = up_local_port x"
  shows "udp_ok owned ps fs (upd_udp pcb f s)"
  unfolding upd_udp_def by (rule udp_ok_touch) (use assms in \<open>simp_all add: nexts_def\<close>)

lemma connect_ok:
  assumes ok: "udp_ok owned ps fs s" and pcb: "pcb \<in> owned"
  shows "\<exists>r s'. udp_connect pcb ipaddr port s = Some (r, s') \<and> (\<exists>ps'. udp_ok owned ps' fs s')"
proof -
  let ?bind = "if up_local_port (udp_store s pcb) = 0 then udp_bind pcb (Some (up_local_ip (udp_store s pcb))) (up_local_port (udp_store s pcb)) s else Some (ERR_OK, s)"
  obtain r t ps' where t: "?bind = Some (r, t)" "udp_ok owned ps' fs t" "r = ERR_OK \<longrightarrow> up_local_port (udp_store t pcb) \<noteq> 0"
  proof (cases "up_local_port (udp_store s pcb) = 0")
    case True
    then show ?thesis using that bind_ok [OF ok pcb, of "Some (up_local_ip (udp_store s pcb))" 0] by auto
  qed (use ok that in auto)
  show ?thesis
  proof (cases "r = ERR_OK")
    case True
    let ?s = "upd_udp pcb (\<lambda>x. x\<lparr>up_remote_ip := ip_addr_set ipaddr, up_remote_port := port, up_flags := up_flags x OR UDP_FLAGS_CONNECTED\<rparr>) t"
    have ok2: "udp_ok owned ps' fs ?s" by (rule touch_ok [OF t(2)]) simp_all
    moreover have "pcb \<in> set ps'" using t(2,3) True pcb by (simp add: udp_ok_def)
    ultimately have "udp_listed pcb (udp_pcbs ?s) ?s = Some True" using udp_listed_list [of ?s "udp_pcbs ?s" ps' pcb] by (simp add: udp_ok_def)
    then have "udp_connect pcb ipaddr port s = Some (ERR_OK, ?s)" using t(1) True unfolding udp_connect_def by simp
    then show ?thesis using ok2 by blast
  next
    case False
    then have "udp_connect pcb ipaddr port s = Some (r, t)" using t(1) unfolding udp_connect_def by simp
    then show ?thesis using t(2) by blast
  qed
qed

lemma new_ok:
  assumes ok: "udp_ok owned ps fs s"
  shows "case udp_new s of (pcb, s') \<Rightarrow> if fs = [] then pcb = NULL \<and> s' = s else pcb = hd fs \<and> pcb \<noteq> NULL \<and> udp_ok (insert pcb owned) ps (tl fs) s'"
proof (cases fs)
  case Nil
  then have "memp_tab s MEMP_UDP_PCB = NULL" using ok by (simp add: udp_ok_def)
  then show ?thesis using Nil by (simp add: udp_new_def memp_malloc_def Let_def MEMP_MAX_def MEMP_UDP_PCB_def)
next
  case (Cons f gs)
  let ?s = "upd_udp f (\<lambda>x. udp_zero\<lparr>up_ttl := UDP_TTL\<rparr>) (s\<lparr>memp_tab := (memp_tab s)(MEMP_UDP_PCB := frees s f)\<rparr>)"
  have f: "memp_tab s MEMP_UDP_PCB = f" "f \<noteq> NULL" "lchain (frees s) (frees s f) gs" "f \<notin> owned" "f \<notin> set gs" "f \<notin> set ps"
    using ok Cons lchain_distinct [of "frees s" f fs] by (auto simp: udp_ok_def)
  then have new: "udp_new s = (f, ?s)" by (simp add: udp_new_def memp_malloc_def Let_def MEMP_MAX_def MEMP_UDP_PCB_def frees_def)
  have "nexts ?s = (nexts s)(f := NULL)" by (auto simp: nexts_def upd_udp_def udp_zero_def)
  then have c: "lchain (nexts ?s) (udp_pcbs ?s) ps" using ok f(6) by (simp add: udp_ok_def upd_udp_def)
  have st: "udp_store ?s = (udp_store s)(f := udp_zero\<lparr>up_ttl := UDP_TTL\<rparr>)" by (simp add: upd_udp_def)
  have "frees ?s = frees s" "memp_tab ?s MEMP_UDP_PCB = frees s f" "udp_port ?s = udp_port s" by (simp_all add: upd_udp_def frees_def fun_eq_iff)
  moreover have "card (insert f owned) + length gs = card owned + length fs" using f(4) ok Cons by (simp add: udp_ok_def)
  moreover have "p \<in> insert f owned \<Longrightarrow> p \<in> set ps \<longleftrightarrow> up_local_port (udp_store ?s p) \<noteq> 0" for p
    using ok f(4,6) unfolding udp_ok_def st by (auto simp: udp_zero_def)
  moreover have "p \<in> set ps \<Longrightarrow> udp_store ?s p = udp_store s p" for p using f(6) unfolding st by auto
  ultimately have "udp_ok (insert f owned) ps gs ?s" using ok c f Cons unfolding udp_ok_def by auto
  then show ?thesis using new Cons f(2) by simp
qed

end
