(* ===== verification/Arp_Table.thy ===== *)
theory Arp_Table
  imports Etharp
begin

text \<open>
  The ARP table as a cache: which entry a search returns, that every operation keeps the table well formed, how long an entry lives, and that the table implements a map from IP addresses to Ethernet
  addresses.
\<close>

section \<open>What the rest of the system leaves alone\<close>

definition arp_view :: "'a arpkernel_scheme \<Rightarrow> (nat \<Rightarrow> etharp_entry) \<times> os_u8" where
  "arp_view s = (arp_table s, etharp_cached_entry s)"

lemma beyond_arp_view: "beyond (arp_view :: 'a arpkernel_scheme \<Rightarrow> _)"
  unfolding beyond_def
proof (intro allI impI)
  fix s s' :: "'a arpkernel_scheme"
  assume "kstate.more s' = kstate.more s"
  then show "arp_view s' = arp_view s" by (cases s; cases s') (simp add: arp_view_def)
qed

interpretation arp: outside_packets "arp_view :: 'a arpkernel_scheme \<Rightarrow> _"
  by unfold_locales (simp_all add: beyond_arp_view, simp_all add: arp_view_def)

text \<open>
  The calls of the module are not interleaved with one another: while one of them waits for the heap or is in a callback, nothing else writes the table. This is what lwIP demands of a system
  without \<^verbatim>\<open>SYS_LIGHTWEIGHT_PROT\<close> (\<^verbatim>\<open>NO_SYS\<close> is 1, so that the macros that would protect the table are empty); the threads of this port that send, receive and run the timers do not ensure it.
\<close>

definition arp_quiet :: "'a arpkernel_scheme netenv \<Rightarrow> bool" where
  "arp_quiet e \<longleftrightarrow> keeps arp_view (meanwhile e) \<and> (\<forall>p. keeps arp_view (custom_free e p)) \<and>
     (\<forall>f n p. keeps arp_view (\<lambda>s. map_option snd (link_call e f n p s))) \<and> (\<forall>n a. keeps arp_view (dhcp_arp_reply e n a))"

lemma arp_quietD:
  assumes "arp_quiet e"
  shows "pfree e p s = Some (c, s') \<Longrightarrow> arp_view s' = arp_view s"
    and "palloc e layer len type s = Some (p, s') \<Longrightarrow> arp_view s' = arp_view s"
    and "link_call e f n p s = Some (r, s') \<Longrightarrow> arp_view s' = arp_view s"
    and "dhcp_arp_reply e n a s = Some s' \<Longrightarrow> arp_view s' = arp_view s"
proof -
  have q: "keeps arp_view (meanwhile e)" "\<And>p. keeps arp_view (custom_free e p)"
      "\<And>f n p. keeps arp_view (\<lambda>s. map_option snd (link_call e f n p s))" "\<And>n a. keeps arp_view (dhcp_arp_reply e n a)"
    using assms by (simp_all add: arp_quiet_def)
  show "pfree e p s = Some (c, s') \<Longrightarrow> arp_view s' = arp_view s" by (rule arp.pbuf_free_view [OF q(1,2)])
  show "palloc e layer len type s = Some (p, s') \<Longrightarrow> arp_view s' = arp_view s" by (rule arp.pbuf_alloc_view [OF q(1,2)])
  show "link_call e f n p s = Some (r, s') \<Longrightarrow> arp_view s' = arp_view s" by (rule keepsD [OF q(3) [of f n p]]) simp
  show "dhcp_arp_reply e n a s = Some s' \<Longrightarrow> arp_view s' = arp_view s" by (rule keepsD [OF q(4)])
qed

section \<open>Which entry a search chooses\<close>

abbreviation used :: "etharp_entry \<Rightarrow> bool" where
  "used x \<equiv> ae_state x \<noteq> ETHARP_STATE_EMPTY"

abbreviation stable :: "etharp_entry \<Rightarrow> bool" where
  "stable x \<equiv> ae_state x \<ge> ETHARP_STATE_STABLE"

abbreviation idle_pending :: "etharp_entry \<Rightarrow> bool" where
  "idle_pending x \<equiv> ae_state x = ETHARP_STATE_PENDING \<and> ae_q x = NULL"

abbreviation busy_pending :: "etharp_entry \<Rightarrow> bool" where
  "busy_pending x \<equiv> ae_state x = ETHARP_STATE_PENDING \<and> ae_q x \<noteq> NULL"

lemma stable_iff: "stable x \<longleftrightarrow> ae_state x = ETHARP_STATE_STABLE \<or> ae_state x = ETHARP_STATE_STABLE_REREQUESTING"
  by (cases "ae_state x") simp_all

lemma used_cases: "used x \<longleftrightarrow> stable x \<or> idle_pending x \<or> busy_pending x"
  by (cases "ae_state x") auto

text \<open>The last of the oldest entries among the first \<open>k\<close> that satisfy \<open>P\<close>.\<close>

definition oldest :: "(etharp_entry \<Rightarrow> bool) \<Rightarrow> (nat \<Rightarrow> etharp_entry) \<Rightarrow> nat \<Rightarrow> nat \<Rightarrow> bool" where
  "oldest P tab k i \<longleftrightarrow> i < k \<and> P (tab i) \<and>
     (\<forall>j < k. P (tab j) \<longrightarrow> ae_ctime (tab j) \<le> ae_ctime (tab i) \<and> (ae_ctime (tab j) = ae_ctime (tab i) \<longrightarrow> j \<le> i))"

datatype choice = Hit nat | Fresh nat | Evict nat | Refused

definition chooses :: "(nat \<Rightarrow> etharp_entry) \<Rightarrow> os_u32 \<Rightarrow> os_u8 \<Rightarrow> choice \<Rightarrow> bool" where
  "chooses tab a flags c =
     (let hit = (\<lambda>i. used (tab i) \<and> ae_ipaddr (tab i) = a);
          none = (\<lambda>P. \<forall>i < ARP_TABLE_SIZE. \<not> P (tab i));
          miss = (\<forall>i < ARP_TABLE_SIZE. \<not> hit i)
      in case c of
        Hit i \<Rightarrow> i < ARP_TABLE_SIZE \<and> hit i
      | Fresh i \<Rightarrow> miss \<and> flags AND ETHARP_FLAG_FIND_ONLY = 0 \<and> i < ARP_TABLE_SIZE \<and> \<not> used (tab i) \<and> (\<forall>j < i. used (tab j))
      | Evict i \<Rightarrow> miss \<and> flags AND ETHARP_FLAG_FIND_ONLY = 0 \<and> flags AND ETHARP_FLAG_TRY_HARD \<noteq> 0 \<and> none (\<lambda>x. \<not> used x) \<and>
          (oldest stable tab ARP_TABLE_SIZE i \<or> none stable \<and> oldest idle_pending tab ARP_TABLE_SIZE i \<or>
           none stable \<and> none idle_pending \<and> oldest busy_pending tab ARP_TABLE_SIZE i)
      | Refused \<Rightarrow> miss \<and> (flags AND ETHARP_FLAG_FIND_ONLY \<noteq> 0 \<or> none (\<lambda>x. \<not> used x) \<and> flags AND ETHARP_FLAG_TRY_HARD = 0))"

definition claim :: "nat \<Rightarrow> os_u32 \<Rightarrow> 'a arpkernel_scheme \<Rightarrow> 'a arpkernel_scheme" where
  "claim i a s = upd_arp i (\<lambda>x. x\<lparr>ae_q := NULL, ae_state := ETHARP_STATE_EMPTY, ae_ipaddr := a, ae_ctime := 0\<rparr>) s"

definition cand :: "(etharp_entry \<Rightarrow> bool) \<Rightarrow> (nat \<Rightarrow> etharp_entry) \<Rightarrow> nat \<Rightarrow> nat \<Rightarrow> os_u8 \<Rightarrow> bool" where
  "cand P tab k i age \<longleftrightarrow> i = ARP_TABLE_SIZE \<and> age = 0 \<and> (\<forall>j < k. \<not> P (tab j)) \<or> oldest P tab k i \<and> age = ae_ctime (tab i)"

lemma cand_0: "cand P tab 0 ARP_TABLE_SIZE 0"
  by (simp add: cand_def)

lemma cand_skip: "cand P tab k i age \<Longrightarrow> \<not> P (tab k) \<Longrightarrow> cand P tab (Suc k) i age"
  by (auto simp: cand_def oldest_def less_Suc_eq)

lemma cand_keep: "cand P tab k i age \<Longrightarrow> \<not> ae_ctime (tab k) \<ge> age \<Longrightarrow> cand P tab (Suc k) i age"
  by (auto simp: cand_def oldest_def less_Suc_eq)

lemma cand_take: "cand P tab k i age \<Longrightarrow> P (tab k) \<Longrightarrow> ae_ctime (tab k) \<ge> age \<Longrightarrow> cand P tab (Suc k) k (ae_ctime (tab k))"
  by (auto simp: cand_def oldest_def less_Suc_eq)

definition scanned :: "(nat \<Rightarrow> etharp_entry) \<Rightarrow> nat \<Rightarrow> arp_scan \<Rightarrow> bool" where
  "scanned tab k c \<longleftrightarrow>
     (sc_empty c = ARP_TABLE_SIZE \<and> (\<forall>j < k. used (tab j)) \<or> sc_empty c < k \<and> \<not> used (tab (sc_empty c)) \<and> (\<forall>j < sc_empty c. used (tab j))) \<and>
     cand stable tab k (sc_stable c) (age_stable c) \<and> cand idle_pending tab k (sc_pending c) (age_pending c) \<and>
     cand busy_pending tab k (sc_queue c) (age_queue c)"

lemma scanned_start: "scanned tab 0 scan_start"
  by (simp add: scanned_def scan_start_def cand_0)

lemma scanned_step:
  assumes c: "scanned tab k c" and k: "k < ARP_TABLE_SIZE"
  shows "scanned tab (Suc k) (scan_entry k (tab k) c)"
proof (cases "ae_state (tab k)")
  case ETHARP_STATE_EMPTY
  then have n: "\<not> stable (tab k)" by simp
  show ?thesis
    using c k ETHARP_STATE_EMPTY n by (auto simp: scanned_def scan_entry_def less_Suc_eq intro!: cand_skip)
next
  case ETHARP_STATE_PENDING
  then have "\<not> stable (tab k)" by simp
  then show ?thesis
    using c k ETHARP_STATE_PENDING by (auto simp: scanned_def scan_entry_def less_Suc_eq intro: cand_skip cand_keep cand_take)
next
  case ETHARP_STATE_STABLE
  then have "stable (tab k)" by simp
  then show ?thesis
    using c k ETHARP_STATE_STABLE by (auto simp: scanned_def scan_entry_def less_Suc_eq intro: cand_skip cand_keep cand_take)
next
  case ETHARP_STATE_STABLE_REREQUESTING
  then have "stable (tab k)" by simp
  then show ?thesis
    using c k ETHARP_STATE_STABLE_REREQUESTING by (auto simp: scanned_def scan_entry_def less_Suc_eq intro: cand_skip cand_keep cand_take)
qed

lemma scan_table_spec:
  assumes "k \<le> ARP_TABLE_SIZE" and "scanned tab k c" and "\<forall>j < k. \<not> (used (tab j) \<and> ae_ipaddr (tab j) = a)"
  shows "case scan_table tab (Some a) [k..<ARP_TABLE_SIZE] c of
      Inl i \<Rightarrow> i < ARP_TABLE_SIZE \<and> used (tab i) \<and> ae_ipaddr (tab i) = a
    | Inr c' \<Rightarrow> scanned tab ARP_TABLE_SIZE c' \<and> (\<forall>j < ARP_TABLE_SIZE. \<not> (used (tab j) \<and> ae_ipaddr (tab j) = a))"
  using assms
proof (induction "ARP_TABLE_SIZE - k" arbitrary: k c)
  case 0
  then show ?case by simp
next
  case (Suc n)
  then have k: "k < ARP_TABLE_SIZE" by simp
  show ?case
  proof (cases "used (tab k) \<and> ae_ipaddr (tab k) = a")
    case True
    then show ?thesis using k by (simp add: upt_conv_Cons)
  next
    case False
    have "case scan_table tab (Some a) [Suc k..<ARP_TABLE_SIZE] (scan_entry k (tab k) c) of
      Inl i \<Rightarrow> i < ARP_TABLE_SIZE \<and> used (tab i) \<and> ae_ipaddr (tab i) = a
    | Inr c' \<Rightarrow> scanned tab ARP_TABLE_SIZE c' \<and> (\<forall>j < ARP_TABLE_SIZE. \<not> (used (tab j) \<and> ae_ipaddr (tab j) = a))"
      using Suc.hyps(2) k Suc.prems False by (intro Suc.hyps(1) scanned_step) (auto simp: less_Suc_eq)
    then show ?thesis using k False by (auto simp: upt_conv_Cons)
  qed
qed

lemma claim_idle:
  assumes "ae_q (arp_table s i) = NULL"
  shows "claim i a s = upd_arp i (\<lambda>x. x\<lparr>ae_state := ETHARP_STATE_EMPTY, ae_ipaddr := a, ae_ctime := 0\<rparr>) s"
  using assms by (cases "arp_table s i") (simp add: claim_def upd_arp_def)

lemma free_entry_eq:
  "etharp_free_entry e i s =
     (if ae_q (arp_table s i) = NULL then Some (upd_arp i (\<lambda>x. x\<lparr>ae_state := ETHARP_STATE_EMPTY\<rparr>) s)
      else do { (c, s) \<leftarrow> pfree e (ae_q (arp_table s i)) s; Some (upd_arp i (\<lambda>x. x\<lparr>ae_q := NULL, ae_state := ETHARP_STATE_EMPTY\<rparr>) s) })"
  by (auto simp: etharp_free_entry_def upd_arp_def split: Option.bind_split)

text \<open>
  The result of a search in terms of the choice; the waiting packet of the entry, if it is evicted, is released first.
\<close>

definition chosen :: "'a arpkernel_scheme netenv \<Rightarrow> os_u32 \<Rightarrow> choice \<Rightarrow> 'a arpkernel_scheme \<Rightarrow> (int \<times> 'a arpkernel_scheme) option" where
  "chosen e a c s =
     (case c of
        Hit i \<Rightarrow> Some (int i, s)
      | Fresh i \<Rightarrow> Some (int i, upd_arp i (\<lambda>x. x\<lparr>ae_ipaddr := a, ae_ctime := 0\<rparr>) s)
      | Evict i \<Rightarrow>
          if ae_q (arp_table s i) = NULL then Some (int i, claim i a s)
          else do { (n, s) \<leftarrow> pfree e (ae_q (arp_table s i)) s; Some (int i, claim i a s) }
      | Refused \<Rightarrow> Some (ERR_MEM, s))"

lemma find_entry_chosen:
  "\<exists>c. chooses (arp_table s) a flags c \<and> etharp_find_entry e (Some a) flags s = chosen e a c s"
proof (cases "scan_table (arp_table s) (Some a) [0..<ARP_TABLE_SIZE] scan_start")
  case (Inl i)
  then have "chooses (arp_table s) a flags (Hit i)"
    using scan_table_spec [OF _ scanned_start, of "arp_table s" a] by (simp add: chooses_def)
  then show ?thesis using Inl by (intro exI [of _ "Hit i"]) (simp add: etharp_find_entry_def chosen_def)
next
  case (Inr c)
  let ?t = "arp_table s" and ?N = ARP_TABLE_SIZE
  have sc: "scanned ?t ?N c" and miss: "\<forall>j < ?N. \<not> (used (?t j) \<and> ae_ipaddr (?t j) = a)"
    using Inr scan_table_spec [OF _ scanned_start, of "arp_table s" a] by simp_all
  have old: "oldest P ?t ?N i \<or> i = ?N \<and> (\<forall>j < ?N. \<not> P (?t j))" if "cand P ?t ?N i age" for P i age
    using that by (auto simp: cand_def)
  have less: "oldest P ?t ?N i \<Longrightarrow> i < ?N" for P i by (simp add: oldest_def)
  consider (refused) "flags AND ETHARP_FLAG_FIND_ONLY \<noteq> 0 \<or> sc_empty c = ?N \<and> flags AND ETHARP_FLAG_TRY_HARD = 0"
    | (fresh) "flags AND ETHARP_FLAG_FIND_ONLY = 0" "sc_empty c < ?N"
    | (evict) "flags AND ETHARP_FLAG_FIND_ONLY = 0" "flags AND ETHARP_FLAG_TRY_HARD \<noteq> 0" "sc_empty c = ?N"
    using sc by (auto simp: scanned_def)
  then show ?thesis
  proof cases
    case refused
    then have "chooses ?t a flags Refused" using sc miss by (auto simp: chooses_def scanned_def)
    then show ?thesis using Inr refused by (intro exI [of _ Refused]) (auto simp: etharp_find_entry_def chosen_def)
  next
    case fresh
    then have "chooses ?t a flags (Fresh (sc_empty c))" using sc miss by (auto simp: chooses_def scanned_def)
    then show ?thesis using Inr fresh
      by (intro exI [of _ "Fresh (sc_empty c)"]) (auto simp: etharp_find_entry_def chosen_def upd_arp_def Let_def)
  next
    case evict
    define i where "i = (if sc_stable c < ?N then sc_stable c else if sc_pending c < ?N then sc_pending c else sc_queue c)"
    have all: "\<forall>j < ?N. used (?t j)" using sc evict by (auto simp: scanned_def)
    have o: "oldest stable ?t ?N i \<or> (\<forall>j < ?N. \<not> stable (?t j)) \<and> oldest idle_pending ?t ?N i \<or>
        (\<forall>j < ?N. \<not> stable (?t j)) \<and> (\<forall>j < ?N. \<not> idle_pending (?t j)) \<and> oldest busy_pending ?t ?N i"
    proof (cases "sc_stable c < ?N")
      case True
      then show ?thesis using old [of stable "sc_stable c"] sc by (auto simp: i_def scanned_def)
    next
      case ns: False
      then have s: "\<forall>j < ?N. \<not> stable (?t j)" using old [of stable "sc_stable c"] sc less [of stable "sc_stable c"] by (auto simp: scanned_def)
      show ?thesis
      proof (cases "sc_pending c < ?N")
        case True
        then show ?thesis using old [of idle_pending "sc_pending c"] sc ns s by (auto simp: i_def scanned_def)
      next
        case np: False
        then have p: "\<forall>j < ?N. \<not> idle_pending (?t j)"
          using old [of idle_pending "sc_pending c"] sc less [of idle_pending "sc_pending c"] by (auto simp: scanned_def)
        have "busy_pending (?t 0)" using s p all used_cases [of "?t 0"] by (auto simp: ARP_TABLE_SIZE_def)
        then show ?thesis using old [of busy_pending "sc_queue c"] sc ns np s p by (auto simp: i_def scanned_def ARP_TABLE_SIZE_def)
      qed
    qed
    then have i: "i < ?N" by (auto dest: less)
    have "chooses ?t a flags (Evict i)" using evict miss all o by (simp add: chooses_def)
    moreover have "etharp_find_entry e (Some a) flags s = chosen e a (Evict i) s"
    proof (cases "ae_q (?t i) = NULL")
      case True
      then show ?thesis
        using Inr evict i claim_idle [OF True, of a]
        by (simp add: etharp_find_entry_def chosen_def i_def [symmetric] free_entry_eq Let_def) (simp add: upd_arp_def)
    next
      case False
      then show ?thesis
        using Inr evict i unfolding etharp_find_entry_def chosen_def
        by (simp add: i_def [symmetric] free_entry_eq claim_def upd_arp_def Let_def split: Option.bind_split)
    qed
    ultimately show ?thesis by blast
  qed
qed

section \<open>The invariant of the table\<close>

text \<open>
  Addresses that never get an entry: the unspecified one, the one with all bits set and the multicast addresses. The broadcast address of a
  subnet is refused too, by the interface and its mask at the moment of the call; as these may change later the invariant does not speak of it.
\<close>

definition host_address :: "os_u32 \<Rightarrow> bool" where
  "host_address a \<longleftrightarrow> a \<noteq> IPADDR_ANY \<and> NOT a \<noteq> IPADDR_ANY \<and> \<not> ip_addr_ismulticast a"

definition entry_ok :: "etharp_entry \<Rightarrow> bool" where
  "entry_ok x \<longleftrightarrow> (ae_q x \<noteq> NULL \<longrightarrow> ae_state x = ETHARP_STATE_PENDING) \<and> (ae_state x = ETHARP_STATE_PENDING \<longrightarrow> ae_ctime x < ARP_MAXPENDING) \<and>
     (used x \<longrightarrow> ae_ctime x < ARP_MAXAGE \<and> host_address (ae_ipaddr x)) \<and> (stable x \<longrightarrow> length (ae_ethaddr x) = 6)"

definition arp_ok :: "(nat \<Rightarrow> etharp_entry) \<times> os_u8 \<Rightarrow> bool" where
  "arp_ok v \<longleftrightarrow> (\<forall>i < ARP_TABLE_SIZE. entry_ok (fst v i)) \<and>
     (\<forall>i < ARP_TABLE_SIZE. \<forall>j < ARP_TABLE_SIZE. used (fst v i) \<and> used (fst v j) \<and> ae_ipaddr (fst v i) = ae_ipaddr (fst v j) \<longrightarrow> i = j) \<and>
     unat (snd v) < ARP_TABLE_SIZE"

lemma arp_view_upd [simp]: "arp_view (upd_arp i f s) = ((arp_table s)(i := f (arp_table s i)), etharp_cached_entry s)"
  by (simp add: arp_view_def upd_arp_def)

lemma arp_view_eq: "arp_view s' = arp_view s \<longleftrightarrow> arp_table s' = arp_table s \<and> etharp_cached_entry s' = etharp_cached_entry s"
  by (simp add: arp_view_def)

lemma arp_view_mem8 [simp]: "arp_view (upd_mem8 f s) = arp_view s"
  by (simp add: arp_view_def upd_mem8_def)

definition freed_entry :: "etharp_entry \<Rightarrow> etharp_entry" where
  "freed_entry x = x\<lparr>ae_q := NULL, ae_state := ETHARP_STATE_EMPTY\<rparr>"

lemma free_entry_view:
  assumes "arp_quiet e" and "etharp_free_entry e i s = Some s'"
  shows "arp_view s' = ((arp_table s)(i := freed_entry (arp_table s i)), etharp_cached_entry s)"
proof (cases "ae_q (arp_table s i) = NULL")
  case True
  then have "(arp_table s i)\<lparr>ae_state := ETHARP_STATE_EMPTY\<rparr> = freed_entry (arp_table s i)"
    by (cases "arp_table s i") (simp add: freed_entry_def)
  then show ?thesis using assms(2) True by (auto simp: free_entry_eq)
next
  case False
  then obtain c s1 where "pfree e (ae_q (arp_table s i)) s = Some (c, s1)"
      "s' = upd_arp i (\<lambda>x. x\<lparr>ae_q := NULL, ae_state := ETHARP_STATE_EMPTY\<rparr>) s1"
    using assms(2) by (auto simp: free_entry_eq bind_eq_Some_conv)
  moreover from this(1) have "arp_view s1 = arp_view s" by (rule arp_quietD(1) [OF assms(1)])
  ultimately show ?thesis by (simp add: arp_view_eq freed_entry_def)
qed

lemma arp_ok_upd:
  assumes "arp_ok (tab, c)" and "i < ARP_TABLE_SIZE \<Longrightarrow> entry_ok x"
    and "used x \<Longrightarrow> (used (tab i) \<and> ae_ipaddr x = ae_ipaddr (tab i)) \<or> (\<forall>j < ARP_TABLE_SIZE. j \<noteq> i \<longrightarrow> \<not> (used (tab j) \<and> ae_ipaddr (tab j) = ae_ipaddr x))"
  shows "arp_ok (tab(i := x), c)"
  using assms unfolding arp_ok_def by (simp add: all_conj_distrib) metis

lemma entry_ok_freed: "entry_ok (freed_entry x)"
  by (simp add: entry_ok_def freed_entry_def)

lemma arp_ok_freed: "arp_ok (tab, c) \<Longrightarrow> arp_ok (tab(i := freed_entry (tab i)), c)"
  by (rule arp_ok_upd) (simp_all add: entry_ok_freed, simp add: freed_entry_def)

subsection \<open>Ageing\<close>

definition aged :: "etharp_entry \<Rightarrow> etharp_entry" where
  "aged x =
     (if \<not> used x then x
      else let x = x\<lparr>ae_ctime := ae_ctime x + 1\<rparr>
           in if ae_ctime x \<ge> ARP_MAXAGE \<or> ae_state x = ETHARP_STATE_PENDING \<and> ae_ctime x \<ge> ARP_MAXPENDING then freed_entry x
              else if ae_state x = ETHARP_STATE_STABLE_REREQUESTING then x\<lparr>ae_state := ETHARP_STATE_STABLE\<rparr>
              else x)"

lemma age_view:
  assumes "arp_quiet e" and "etharp_age e i s = Some s'"
  shows "arp_view s' = ((arp_table s)(i := aged (arp_table s i)), etharp_cached_entry s)"
proof -
  let ?s1 = "upd_arp i (\<lambda>x. x\<lparr>ae_ctime := ae_ctime x + 1\<rparr>) s"
  have t: "arp_table ?s1 = (arp_table s)(i := (arp_table s i)\<lparr>ae_ctime := ae_ctime (arp_table s i) + 1\<rparr>)"
      "etharp_cached_entry ?s1 = etharp_cached_entry s"
    by (simp_all add: upd_arp_def)
  show ?thesis
    using assms(2) free_entry_view [OF assms(1), of i ?s1 s'] t
    by (auto simp: etharp_age_def aged_def Let_def arp_view_def upd_arp_def split: if_splits)
qed

lemma fold_view:
  assumes "\<And>i s s'. f i s = Some s' \<Longrightarrow> arp_view s' = ((arp_table s)(i := h (arp_table s i)), etharp_cached_entry s)"
  shows "distinct ks \<Longrightarrow> fold_option f ks s = Some s' \<Longrightarrow>
    arp_view s' = ((\<lambda>i. if i \<in> set ks then h (arp_table s i) else arp_table s i), etharp_cached_entry s)"
proof (induction ks arbitrary: s)
  case Nil
  then show ?case by (simp add: arp_view_def)
next
  case (Cons i ks)
  then obtain s1 where s1: "f i s = Some s1" "fold_option f ks s1 = Some s'" by (auto simp: bind_eq_Some_conv)
  from Cons.IH [OF _ s1(2)] assms [OF s1(1)] Cons.prems(1) show ?case by (auto simp: arp_view_def fun_eq_iff)
qed

lemma tmr_view:
  assumes "arp_quiet e" and "etharp_tmr e s = Some s'"
  shows "arp_view s' = ((\<lambda>i. if i < ARP_TABLE_SIZE then aged (arp_table s i) else arp_table s i), etharp_cached_entry s)"
  using fold_view [OF age_view [OF assms(1)], where ks = "[0..<ARP_TABLE_SIZE]" and s = s and s' = s'] assms(2) by (simp add: etharp_tmr_def)

lemma cleanup_view:
  assumes "arp_quiet e" and "etharp_cleanup_netif e n s = Some s'"
  shows "arp_view s' = ((\<lambda>i. if i < ARP_TABLE_SIZE \<and> used (arp_table s i) \<and> ae_netif (arp_table s i) = n then freed_entry (arp_table s i)
    else arp_table s i), etharp_cached_entry s)"
proof -
  let ?h = "\<lambda>x. if used x \<and> ae_netif x = n then freed_entry x else x"
  have step: "arp_view s' = ((arp_table s)(i := ?h (arp_table s i)), etharp_cached_entry s)"
    if "(if used (arp_table s i) \<and> ae_netif (arp_table s i) = n then etharp_free_entry e i s else Some s) = Some s'" for i s s'
    using that free_entry_view [OF assms(1), of i s s'] by (auto simp: arp_view_def split: if_splits)
  show ?thesis
    using fold_view [OF step, where ks = "[0..<ARP_TABLE_SIZE]" and s = s and s' = s'] assms(2) by (auto simp: etharp_cleanup_netif_def fun_eq_iff)
qed

lemma aged_used: "used (aged x) \<Longrightarrow> used x \<and> ae_ipaddr (aged x) = ae_ipaddr x"
  by (auto simp: aged_def freed_entry_def Let_def split: if_splits)

lemma entry_ok_aged: "entry_ok x \<Longrightarrow> entry_ok (aged x)"
  by (cases "ae_state x") (auto simp: aged_def entry_ok_def freed_entry_def Let_def not_le)

lemma arp_ok_map:
  assumes "arp_ok (tab, c)" and "\<And>x. entry_ok x \<Longrightarrow> entry_ok (h x)" and "\<And>x. used (h x) \<Longrightarrow> used x \<and> ae_ipaddr (h x) = ae_ipaddr x"
  shows "arp_ok ((\<lambda>i. if i < ARP_TABLE_SIZE then h (tab i) else tab i), c)"
  using assms unfolding arp_ok_def by auto

subsection \<open>Sending leaves the table alone\<close>

lemma send_ip_view: "arp_quiet e \<Longrightarrow> etharp_send_ip e n p src dst s = Some (r, s') \<Longrightarrow> arp_view s' = arp_view s"
  unfolding etharp_send_ip_def Let_def by (drule (1) arp_quietD(3)) simp

lemma raw_view:
  assumes "arp_quiet e" and "etharp_raw e n es ed hws ips hwd ipd opcode s = Some (r, s')"
  shows "arp_view s' = arp_view s"
proof -
  obtain p s1 where s1: "palloc e PBUF_RAW SIZEOF_ETHARP_PACKET PBUF_RAM s = Some (p, s1)"
    using assms(2) by (auto simp: etharp_raw_def bind_eq_Some_conv)
  note v1 = arp_quietD(2) [OF assms(1) s1]
  show ?thesis
  proof (cases "p = NULL")
    case True
    then show ?thesis using assms(2) s1 v1 by (simp add: etharp_raw_def)
  next
    case False
    let ?s2 = "upd_mem8 (arp_fill (pb_payload (pbufs s1 p)) es ed hws ips hwd ipd opcode) s1"
    obtain r2 s3 c where "link_call e (ni_linkoutput (netifs ?s2 n)) n p ?s2 = Some (r2, s3)" "pfree e p s3 = Some (c, s')"
      using assms(2) s1 False by (auto simp: etharp_raw_def Let_def bind_eq_Some_conv)
    from arp_quietD(3) [OF assms(1) this(1)] arp_quietD(1) [OF assms(1) this(2)] v1 show ?thesis by simp
  qed
qed

lemma request_view: "arp_quiet e \<Longrightarrow> etharp_request e n a s = Some (r, s') \<Longrightarrow> arp_view s' = arp_view s"
  unfolding etharp_request_def Let_def by (rule raw_view)

subsection \<open>Finding and updating\<close>

definition vacant :: "os_u32 \<Rightarrow> etharp_entry \<Rightarrow> etharp_entry" where
  "vacant a x = x\<lparr>ae_q := NULL, ae_state := ETHARP_STATE_EMPTY, ae_ipaddr := a, ae_ctime := 0\<rparr>"

definition resolved :: "addr \<Rightarrow> os_u32 \<Rightarrow> eth_addr \<Rightarrow> etharp_entry \<Rightarrow> etharp_entry" where
  "resolved n a eth x = x\<lparr>ae_q := NULL, ae_ipaddr := a, ae_netif := n, ae_ethaddr := eth, ae_state := ETHARP_STATE_STABLE, ae_ctime := 0\<rparr>"

definition hit :: "(nat \<Rightarrow> etharp_entry) \<Rightarrow> os_u32 \<Rightarrow> nat \<Rightarrow> bool" where
  "hit tab a i \<longleftrightarrow> used (tab i) \<and> ae_ipaddr (tab i) = a"

definition miss :: "(nat \<Rightarrow> etharp_entry) \<Rightarrow> os_u32 \<Rightarrow> bool" where
  "miss tab a \<longleftrightarrow> (\<forall>i < ARP_TABLE_SIZE. \<not> hit tab a i)"

text \<open>The entry for a new address: the first empty one, or the one that is evicted.\<close>

definition takes :: "(nat \<Rightarrow> etharp_entry) \<Rightarrow> os_u32 \<Rightarrow> os_u8 \<Rightarrow> nat \<Rightarrow> bool" where
  "takes tab a flags i \<longleftrightarrow> chooses tab a flags (Fresh i) \<or> chooses tab a flags (Evict i)"

lemma takes_miss: "takes tab a flags i \<Longrightarrow> miss tab a"
  by (auto simp: takes_def chooses_def miss_def hit_def)

lemma vacant_idle: "ae_q x = NULL \<Longrightarrow> ae_state x = ETHARP_STATE_EMPTY \<Longrightarrow> x\<lparr>ae_ipaddr := a, ae_ctime := 0\<rparr> = vacant a x"
  by (cases x) (simp add: vacant_def)

lemma find_view:
  assumes "arp_quiet e" and ok: "arp_ok (arp_view s)" and "etharp_find_entry e (Some a) flags s = Some (r, s')"
  shows "r = ERR_MEM \<and> s' = s \<and> miss (arp_table s) a \<or>
    (\<exists>i < ARP_TABLE_SIZE. r = int i \<and>
       (hit (arp_table s) a i \<and> s' = s \<or>
        takes (arp_table s) a flags i \<and> arp_view s' = ((arp_table s)(i := vacant a (arp_table s i)), etharp_cached_entry s)))"
proof -
  obtain c where c: "chooses (arp_table s) a flags c" "chosen e a c s = Some (r, s')"
    using find_entry_chosen [of s a flags e] assms(3) by auto
  show ?thesis
  proof (cases c)
    case (Fresh i)
    then have i: "i < ARP_TABLE_SIZE" "takes (arp_table s) a flags i" "\<not> used (arp_table s i)"
      using c(1) by (auto simp: chooses_def takes_def)
    then have "ae_q (arp_table s i) = NULL" using ok by (auto simp: arp_ok_def arp_view_def entry_ok_def)
    then show ?thesis using i c(2) Fresh vacant_idle [of "arp_table s i" a] by (auto simp: chosen_def)
  next
    case (Evict i)
    then have i: "i < ARP_TABLE_SIZE" "takes (arp_table s) a flags i" using c(1) by (auto simp: chooses_def takes_def oldest_def)
    show ?thesis
    proof (cases "ae_q (arp_table s i) = NULL")
      case True
      then show ?thesis using i c(2) Evict by (auto simp: chosen_def claim_def vacant_def)
    next
      case False
      then obtain n s1 where s1: "pfree e (ae_q (arp_table s i)) s = Some (n, s1)" "r = int i" "s' = claim i a s1"
        using c(2) Evict by (auto simp: chosen_def bind_eq_Some_conv)
      from arp_quietD(1) [OF assms(1) s1(1)] show ?thesis using i s1 by (auto simp: arp_view_eq claim_def vacant_def)
    qed
  qed (use c in \<open>auto simp: chooses_def chosen_def miss_def hit_def\<close>)
qed

lemma not_broadcast_unicast: "\<not> ip4_addr_isbroadcast a x \<Longrightarrow> \<not> ip_addr_ismulticast a \<Longrightarrow> host_address a"
  by (auto simp: ip4_addr_isbroadcast_def host_address_def split: if_splits)

lemma update_view:
  assumes q: "arp_quiet e" and ok: "arp_ok (arp_view s)" and run: "etharp_update_arp_entry e n a eth flags s = Some (r, s')"
  shows "r \<noteq> ERR_OK \<and> s' = s \<or>
    r = ERR_OK \<and> host_address a \<and> (\<exists>i < ARP_TABLE_SIZE. (hit (arp_table s) a i \<or> takes (arp_table s) a flags i) \<and>
      arp_view s' = ((arp_table s)(i := resolved n a eth (arp_table s i)), etharp_cached_entry s))"
proof (cases "ip_addr_isany (Some a) \<or> ip4_addr_isbroadcast a (netifs s n) \<or> ip_addr_ismulticast a")
  case True
  then show ?thesis using run by (auto simp: etharp_update_arp_entry_def ERR_ARG_def ERR_OK_def)
next
  case False
  then have u: "host_address a" using not_broadcast_unicast by blast
  obtain i0 s1 where s1: "etharp_find_entry e (Some a) flags s = Some (i0, s1)"
    using run False by (auto simp: etharp_update_arp_entry_def bind_eq_Some_conv)
  consider "i0 = ERR_MEM" "s1 = s"
    | i where "i < ARP_TABLE_SIZE" "i0 = int i"
      "hit (arp_table s) a i \<and> s1 = s \<or> takes (arp_table s) a flags i \<and> arp_view s1 = ((arp_table s)(i := vacant a (arp_table s i)), etharp_cached_entry s)"
    using find_view [OF q ok s1] by blast
  then show ?thesis
  proof cases
    case 1
    then show ?thesis using run False s1 by (auto simp: etharp_update_arp_entry_def ERR_MEM_def ERR_OK_def)
  next
    case (2 i)
    then have i: "i < ARP_TABLE_SIZE" "i0 = int i" and
      h: "hit (arp_table s) a i \<and> s1 = s \<or> takes (arp_table s) a flags i \<and> arp_view s1 = ((arp_table s)(i := vacant a (arp_table s i)), etharp_cached_entry s)"
      by simp_all
    let ?s2 = "upd_arp i (\<lambda>x. x\<lparr>ae_state := ETHARP_STATE_STABLE, ae_netif := n, ae_ethaddr := eth, ae_ctime := 0\<rparr>) s1"
    let ?s3 = "upd_arp i (\<lambda>x. x\<lparr>ae_q := NULL\<rparr>) ?s2"
    have cases: "r = ERR_OK \<and> (s' = ?s2 \<and> ae_q (arp_table ?s2 i) = NULL \<or>
        (\<exists>r1 s4 c. etharp_send_ip e n (ae_q (arp_table ?s2 i)) (ni_hwaddr (netifs ?s3 n)) eth ?s3 = Some (r1, s4) \<and>
           pfree e (ae_q (arp_table ?s2 i)) s4 = Some (c, s')))"
      using run False s1 i(2) by (auto simp: etharp_update_arp_entry_def bind_eq_Some_conv Let_def split: if_splits)
    have v3: "arp_view ?s3 = ((arp_table s)(i := resolved n a eth (arp_table s i)), etharp_cached_entry s)"
      using h by (cases "arp_table s i") (auto simp: arp_view_def upd_arp_def resolved_def vacant_def hit_def)
    have "arp_view ?s2 = arp_view ?s3" if "ae_q (arp_table ?s2 i) = NULL"
      using that by (cases "arp_table s1 i") (auto simp: arp_view_def upd_arp_def)
    then have "arp_view s' = arp_view ?s3"
      using cases send_ip_view [OF q] arp_quietD(1) [OF q] by metis
    then show ?thesis using cases v3 u i h by (auto intro!: exI [of _ i])
  qed
qed

subsection \<open>Every operation keeps the invariant\<close>

lemma arp_okD: "arp_ok (arp_view s) \<Longrightarrow> arp_ok (arp_table s, etharp_cached_entry s)"
  by (simp add: arp_view_def)

lemma tmr_ok: "arp_quiet e \<Longrightarrow> arp_ok (arp_view s) \<Longrightarrow> etharp_tmr e s = Some s' \<Longrightarrow> arp_ok (arp_view s')"
  using arp_ok_map [OF arp_okD, of s aged] entry_ok_aged aged_used by (auto simp: tmr_view)

lemma cleanup_ok:
  assumes "arp_quiet e" and "arp_ok (arp_view s)" and "etharp_cleanup_netif e n s = Some s'"
  shows "arp_ok (arp_view s')"
proof -
  let ?h = "\<lambda>x. if used x \<and> ae_netif x = n then freed_entry x else x"
  have "arp_ok ((\<lambda>i. if i < ARP_TABLE_SIZE then ?h (arp_table s i) else arp_table s i), etharp_cached_entry s)"
    by (rule arp_ok_map [OF arp_okD [OF assms(2)]]) (auto simp: entry_ok_freed, auto simp: freed_entry_def split: if_splits)
  moreover have "(\<lambda>i. if i < ARP_TABLE_SIZE then ?h (arp_table s i) else arp_table s i) =
      (\<lambda>i. if i < ARP_TABLE_SIZE \<and> used (arp_table s i) \<and> ae_netif (arp_table s i) = n then freed_entry (arp_table s i) else arp_table s i)"
    by auto
  ultimately show ?thesis by (simp only: cleanup_view [OF assms(1,3)])
qed

lemma arp_ok_place:
  assumes "arp_ok (tab, c)" and "hit tab a i \<or> miss tab a" and "ae_ipaddr x = a" and "entry_ok x"
  shows "arp_ok (tab(i := x), c)"
  using assms by (intro arp_ok_upd) (auto simp: hit_def miss_def)

lemma update_ok:
  assumes "arp_quiet e" and "arp_ok (arp_view s)" and "length eth = 6" and "etharp_update_arp_entry e n a eth flags s = Some (r, s')"
  shows "arp_ok (arp_view s')"
proof -
  have "entry_ok (resolved n a eth x)" if "host_address a" for x
    using that assms(3) by (simp add: entry_ok_def resolved_def ARP_MAXAGE_def)
  moreover have "ae_ipaddr (resolved n a eth x) = a" for x by (simp add: resolved_def)
  ultimately have place: "host_address a \<Longrightarrow> hit (arp_table s) a i \<or> takes (arp_table s) a flags i \<Longrightarrow>
      arp_ok ((arp_table s)(i := resolved n a eth (arp_table s i)), etharp_cached_entry s)" for i
    using arp_ok_place [OF arp_okD [OF assms(2)]] takes_miss by blast
  from update_view [OF assms(1,2,4)] show ?thesis
  proof (elim disjE conjE exE)
    assume "s' = s"
    then show ?thesis using assms(2) by simp
  qed (simp_all add: place)
qed

lemma hold_view:
  assumes q: "arp_quiet e" and run: "query_hold e p s = Some (p', s')"
  shows "arp_view s' = arp_view s"
proof -
  obtain p1 where p1: "query_scan p s = Some p1" using run by (auto simp: query_hold_def bind_eq_Some_conv)
  show ?thesis
  proof (cases "p1 = NULL")
    case True
    then show ?thesis using run p1 by (auto simp: query_hold_def pbuf_ref_def upd_pbuf_def arp_view_def)
  next
    case False
    then obtain p2 s2 where p2: "palloc e PBUF_RAW (pb_tot_len (pbufs s p1)) PBUF_RAM s = Some (p2, s2)"
      using run p1 by (auto simp: query_hold_def bind_eq_Some_conv)
    note v2 = arp_quietD(2) [OF q p2]
    show ?thesis
    proof (cases "p2 = NULL")
      case True
      then show ?thesis using run p1 p2 False v2 by (simp add: query_hold_def)
    next
      case p2n: False
      then obtain r s3 where s3: "pbuf_copy p2 p s2 = Some (r, s3)" "r = ERR_OK \<and> s' = s3 \<or> (\<exists>c. pfree e p2 s3 = Some (c, s'))"
        using run p1 p2 False by (auto simp: query_hold_def bind_eq_Some_conv split: if_splits)
      from arp.pbuf_copy_view [OF s3(1)] s3(2) arp_quietD(1) [OF q] v2 show ?thesis by metis
    qed
  qed
qed

lemma entry_ok_queue: "entry_ok x \<Longrightarrow> ae_state x = ETHARP_STATE_PENDING \<Longrightarrow> entry_ok (x\<lparr>ae_q := p\<rparr>)"
  by (simp add: entry_ok_def)

lemma arp_ok_same: "arp_ok (tab, c) \<Longrightarrow> i < ARP_TABLE_SIZE \<Longrightarrow> entry_ok x \<Longrightarrow> (used x \<longleftrightarrow> used (tab i)) \<Longrightarrow> ae_ipaddr x = ae_ipaddr (tab i) \<Longrightarrow>
    arp_ok (tab(i := x), c)"
  by (rule arp_ok_upd) auto

lemma arp_ok_cached: "arp_ok (tab, c) \<Longrightarrow> i < ARP_TABLE_SIZE \<Longrightarrow> arp_ok (tab, of_nat i)"
  by (simp add: arp_ok_def ARP_TABLE_SIZE_def unsigned_of_nat take_bit_nat_eq_self)

lemma deliver_ok:
  assumes q: "arp_quiet e" and ok: "arp_ok (arp_view s)" and i: "i < ARP_TABLE_SIZE" and run: "query_deliver e n p src i r s = Some (r', s')"
  shows "arp_ok (arp_view s')"
proof -
  consider "stable (arp_table s i)" | "ae_state (arp_table s i) = ETHARP_STATE_PENDING" | "ae_state (arp_table s i) = ETHARP_STATE_EMPTY"
    by (cases "ae_state (arp_table s i)") auto
  then show ?thesis
  proof cases
    case 1
    let ?s1 = "s\<lparr>etharp_cached_entry := of_nat i\<rparr>"
    have "arp_view s' = arp_view ?s1" using run 1 send_ip_view [OF q, of n p src _ ?s1] by (auto simp: query_deliver_def Let_def)
    then show ?thesis using arp_ok_cached [OF arp_okD [OF ok] i] by (simp add: arp_view_def)
  next
    case 2
    then obtain p1 s1 where p1: "query_hold e p s = Some (p1, s1)"
      using run by (auto simp: query_deliver_def bind_eq_Some_conv)
    have v1: "arp_view s1 = arp_view s" using hold_view [OF q p1] .
    show ?thesis
    proof (cases "p1 = NULL")
      case True
      then show ?thesis using run 2 p1 v1 ok by (simp add: query_deliver_def)
    next
      case False
      then obtain s2 where s2: "s' = upd_arp i (\<lambda>x. x\<lparr>ae_q := p1\<rparr>) s2" "s2 = s1 \<or> (\<exists>c. pfree e (ae_q (arp_table s1 i)) s1 = Some (c, s2))"
        using run 2 p1 by (auto simp: query_deliver_def bind_eq_Some_conv split: if_splits)
      then have "arp_view s2 = arp_view s" using v1 arp_quietD(1) [OF q] by metis
      moreover have "entry_ok (arp_table s i)" using ok i by (simp add: arp_ok_def arp_view_def)
      ultimately show ?thesis
        using arp_ok_same [OF arp_okD [OF ok] i, of "(arp_table s i)\<lparr>ae_q := p1\<rparr>"] 2 s2(1) entry_ok_queue by (simp add: arp_view_eq)
    qed
  next
    case 3
    then show ?thesis using run ok by (simp add: query_deliver_def)
  qed
qed

lemma query_ok:
  assumes q: "arp_quiet e" and ok: "arp_ok (arp_view s)" and run: "etharp_query e n a p s = Some (r, s')"
  shows "arp_ok (arp_view s')"
proof (cases "ip4_addr_isbroadcast a (netifs s n) \<or> ip_addr_ismulticast a \<or> ip_addr_isany (Some a)")
  case True
  then show ?thesis using run ok by (simp add: etharp_query_def)
next
  case False
  then have u: "host_address a" using not_broadcast_unicast by blast
  obtain i0 s1 where s1: "etharp_find_entry e (Some a) ETHARP_FLAG_TRY_HARD s = Some (i0, s1)"
    using run False by (auto simp: etharp_query_def Let_def bind_eq_Some_conv)
  consider "i0 = ERR_MEM" "s1 = s"
    | i where "i < ARP_TABLE_SIZE" "i0 = int i"
      "hit (arp_table s) a i \<and> s1 = s \<or> takes (arp_table s) a ETHARP_FLAG_TRY_HARD i \<and> arp_view s1 = ((arp_table s)(i := vacant a (arp_table s i)), etharp_cached_entry s)"
    using find_view [OF q ok s1] by blast
  then show ?thesis
  proof cases
    case 1
    then show ?thesis using run False s1 ok by (simp add: etharp_query_def ERR_MEM_def)
  next
    case (2 i)
    define s2 where "s2 = (if ae_state (arp_table s1 i) = ETHARP_STATE_EMPTY then upd_arp i (\<lambda>x. x\<lparr>ae_state := ETHARP_STATE_PENDING\<rparr>) s1 else s1)"
    have ok2: "arp_ok (arp_view s2)"
      using 2(3)
    proof
      assume "hit (arp_table s) a i \<and> s1 = s"
      then show ?thesis using ok by (simp add: s2_def hit_def)
    next
      assume h: "takes (arp_table s) a ETHARP_FLAG_TRY_HARD i \<and> arp_view s1 = ((arp_table s)(i := vacant a (arp_table s i)), etharp_cached_entry s)"
      have "entry_ok ((vacant a (arp_table s i))\<lparr>ae_state := ETHARP_STATE_PENDING\<rparr>)"
        using u by (simp add: entry_ok_def vacant_def ARP_MAXPENDING_def ARP_MAXAGE_def)
      then show ?thesis
        using arp_ok_place [OF arp_okD [OF ok], of a i "(vacant a (arp_table s i))\<lparr>ae_state := ETHARP_STATE_PENDING\<rparr>"] h takes_miss [of "arp_table s" a]
        by (auto simp: s2_def arp_view_def vacant_def upd_arp_def)
    qed
    obtain r3 s3 where s3: "(if ae_state (arp_table s2 i) = ETHARP_STATE_PENDING \<or> p = NULL then etharp_request e n a s2 else Some (ERR_MEM, s2)) = Some (r3, s3)"
        "p = NULL \<and> s' = s3 \<or> query_deliver e n p (ni_hwaddr (netifs s n)) i r3 s3 = Some (r, s')"
      using run False s1 2(2) unfolding etharp_query_def Let_def s2_def by (auto simp: bind_eq_Some_conv split: if_splits)
    have "arp_view s3 = arp_view s2" using s3(1) request_view [OF q, of n a s2 r3 s3] by (auto split: if_splits)
    then have "arp_ok (arp_view s3)" using ok2 by simp
    then show ?thesis using s3(2) deliver_ok [OF q _ 2(1), of s3] by auto
  qed
qed

end
