(* ===== verification/Arp_Run.thy ===== *)
theory Arp_Run
  imports Arp_Table
begin

text \<open>
  Runs of the ARP module: what holds after any sequence of timer calls, received packets, packets sent and interfaces taken down; how long entries live; the table as a map from IP addresses to
  Ethernet addresses.
\<close>

section \<open>Output and input keep the invariant\<close>

lemma to_index_ok:
  assumes q: "arp_quiet e" and ok: "arp_ok (arp_view s)" and i: "i < ARP_TABLE_SIZE" and run: "etharp_output_to_arp_index e n p i s = Some (r, s')"
  shows "arp_ok (arp_view s')"
proof (cases "ae_state (arp_table s i) = ETHARP_STATE_STABLE \<and> ae_ctime (arp_table s i) \<ge> ARP_AGE_REREQUEST_USED")
  case True
  then obtain r1 s1 s2 where s1: "etharp_request e n (ae_ipaddr (arp_table s i)) s = Some (r1, s1)"
      "s2 = s1 \<or> s2 = upd_arp i (\<lambda>x. x\<lparr>ae_state := ETHARP_STATE_STABLE_REREQUESTING\<rparr>) s1"
      "etharp_send_ip e n p (ni_hwaddr (netifs s2 n)) (ae_ethaddr (arp_table s2 i)) s2 = Some (r, s')"
    using run by (auto simp: etharp_output_to_arp_index_def bind_eq_Some_conv split: if_splits)
  have v1: "arp_view s1 = arp_view s" using request_view [OF q s1(1)] .
  have "entry_ok (arp_table s i)" using ok i by (simp add: arp_ok_def arp_view_def)
  then have "entry_ok ((arp_table s i)\<lparr>ae_state := ETHARP_STATE_STABLE_REREQUESTING\<rparr>)" using True by (auto simp: entry_ok_def)
  then have "arp_ok ((arp_table s)(i := (arp_table s i)\<lparr>ae_state := ETHARP_STATE_STABLE_REREQUESTING\<rparr>), etharp_cached_entry s)"
    using True by (intro arp_ok_same [OF arp_okD [OF ok] i]) auto
  then have "arp_ok (arp_view s2)" using s1(2) v1 ok by (auto simp: arp_view_def upd_arp_def)
  then show ?thesis using send_ip_view [OF q s1(3)] by simp
next
  case False
  then have "etharp_send_ip e n p (ni_hwaddr (netifs s n)) (ae_ethaddr (arp_table s i)) s = Some (r, s')"
    using run by (auto simp: etharp_output_to_arp_index_def)
  from send_ip_view [OF q this] show ?thesis using ok by simp
qed

lemma output_ok:
  assumes q: "arp_quiet e" and ok: "arp_ok (arp_view s)" and run: "etharp_output e n p a s = Some (r, s')"
  shows "arp_ok (arp_view s')"
proof -
  obtain h s1 where s1: "pbuf_header p 14 s = (h, s1)" by fastforce
  have v1: "arp_view s1 = arp_view s" using arp.pbuf_header_view [of p 14 s] s1 by simp
  then have ok1: "arp_ok (arp_view s1)" using ok by simp
  let ?x = "netifs s1 n"
  let ?out = "\<not> ip_addr_netcmp a (ni_ip_addr ?x) (ni_netmask ?x) \<and> \<not> ip_addr_islinklocal a"
  let ?d = "if ?out then ni_gw ?x else a"
  let ?u = "\<lambda>i. stable (arp_table s1 i) \<and> ?d = ae_ipaddr (arp_table s1 i)"
  consider "s' = s1" | dst where "etharp_send_ip e n p (ni_hwaddr ?x) dst s1 = Some (r, s')"
    | "etharp_output_to_arp_index e n p (unat (etharp_cached_entry s1)) s1 = Some (r, s')"
    | i where "find ?u [0..<ARP_TABLE_SIZE] = Some i" "etharp_output_to_arp_index e n p i (s1\<lparr>etharp_cached_entry := of_nat i\<rparr>) = Some (r, s')"
    | "etharp_query e n ?d p s1 = Some (r, s')"
    using run s1 unfolding etharp_output_def Let_def by (auto split: if_splits option.splits)
  then show ?thesis
  proof cases
    case 1
    then show ?thesis using ok1 by simp
  next
    case 2
    then show ?thesis using send_ip_view [OF q] ok1 by metis
  next
    case 3
    have "unat (etharp_cached_entry s1) < ARP_TABLE_SIZE" using ok1 by (simp add: arp_ok_def arp_view_def)
    then show ?thesis using to_index_ok [OF q ok1] 3 by blast
  next
    case (4 i)
    then have i: "i < ARP_TABLE_SIZE" by (auto simp: find_Some_iff)
    have "arp_ok (arp_view (s1\<lparr>etharp_cached_entry := of_nat i\<rparr>))" using arp_ok_cached [OF arp_okD [OF ok1] i] by (simp add: arp_view_def)
    then show ?thesis using to_index_ok [OF q _ i 4(2)] by blast
  next
    case 5
    then show ?thesis using query_ok [OF q ok1] by blast
  qed
qed

lemma act_view: "arp_quiet e \<Longrightarrow> arp_act e n eth p h us a s = Some s' \<Longrightarrow> arp_view s' = arp_view s"
  by (auto simp: arp_act_def Let_def bind_eq_Some_conv split: if_splits dest: arp_quietD(3,4))

lemma input_ok:
  assumes q: "arp_quiet e" and ok: "arp_ok (arp_view s)" and run: "etharp_arp_input e n eth p s = Some s'"
  shows "arp_ok (arp_view s')"
proof -
  let ?h = "pb_payload (pbufs s p) + ucast SIZEOF_ETH_HDR"
  consider "s' = s" | c where "pfree e p s = Some (c, s')"
    | a fl r s1 us s2 c where "etharp_update_arp_entry e n a (bytes_at (mem8 s) (?h + 8) 6) fl s = Some (r, s1)"
        "arp_act e n eth p (pb_payload (pbufs s p)) us a s1 = Some s2" "pfree e p s2 = Some (c, s')"
    using run unfolding etharp_arp_input_def Let_def by (auto simp: bind_eq_Some_conv split: if_splits)
  then show ?thesis
  proof cases
    case 1
    then show ?thesis using ok by simp
  next
    case 2
    then show ?thesis using ok arp_quietD(1) [OF q] by metis
  next
    case (3 a fl r s1 us s2 c)
    have "arp_ok (arp_view s1)" using update_ok [OF q ok _ 3(1)] by (simp add: length_bytes_at)
    then show ?thesis using act_view [OF q 3(2)] arp_quietD(1) [OF q 3(3)] by simp
  qed
qed

section \<open>Runs\<close>

datatype arp_event = Arp_timer | Arp_cleanup addr | Arp_packet addr addr | Arp_send addr addr os_u32 | Arp_ask addr os_u32 addr

fun arp_step :: "'a arpkernel_scheme netenv \<Rightarrow> arp_event \<Rightarrow> 'a aenv" where
  "arp_step e Arp_timer s = etharp_tmr e s"
| "arp_step e (Arp_cleanup n) s = etharp_cleanup_netif e n s"
| "arp_step e (Arp_packet n p) s = etharp_arp_input e n (ni_hwaddr (netifs s n)) p s"
| "arp_step e (Arp_send n p a) s = map_option snd (etharp_output e n p a s)"
| "arp_step e (Arp_ask n a p) s = map_option snd (etharp_query e n a p s)"

text \<open>A state is reached from the empty table by calls of the module and by whatever the rest of the system does without writing the table.\<close>

inductive arp_reaches :: "'a arpkernel_scheme netenv \<Rightarrow> 'a arpkernel_scheme \<Rightarrow> bool" for e where
  start: "(\<forall>i < ARP_TABLE_SIZE. ae_state (arp_table s i) = ETHARP_STATE_EMPTY \<and> ae_q (arp_table s i) = NULL) \<Longrightarrow> etharp_cached_entry s = 0 \<Longrightarrow> arp_reaches e s"
| event: "arp_reaches e s \<Longrightarrow> arp_step e ev s = Some s' \<Longrightarrow> arp_reaches e s'"
| elsewhere: "arp_reaches e s \<Longrightarrow> arp_view s' = arp_view s \<Longrightarrow> arp_reaches e s'"

lemma step_ok: "arp_quiet e \<Longrightarrow> arp_ok (arp_view s) \<Longrightarrow> arp_step e ev s = Some s' \<Longrightarrow> arp_ok (arp_view s')"
  by (cases ev) (auto intro: tmr_ok cleanup_ok input_ok output_ok query_ok)

lemma reaches_ok: "arp_reaches e s \<Longrightarrow> arp_quiet e \<Longrightarrow> arp_ok (arp_view s)"
proof (induction rule: arp_reaches.induct)
  case (start s)
  then show ?case by (simp add: arp_ok_def arp_view_def entry_ok_def ARP_TABLE_SIZE_def)
next
  case (event s ev s')
  then show ?case using step_ok by blast
qed simp

section \<open>The life of an entry\<close>

primrec tmr_run :: "'a arpkernel_scheme netenv \<Rightarrow> nat \<Rightarrow> 'a aenv" where
  "tmr_run e 0 s = Some s"
| "tmr_run e (Suc k) s = do { s \<leftarrow> etharp_tmr e s; tmr_run e k s }"

definition life_limit :: "etharp_entry \<Rightarrow> nat" where
  "life_limit x = (if ae_state x = ETHARP_STATE_PENDING then 2 else 240)"

text \<open>An entry after \<open>k\<close> calls of the timer.\<close>

definition lived :: "nat \<Rightarrow> etharp_entry \<Rightarrow> etharp_entry" where
  "lived k x =
     (if k = 0 \<or> \<not> used x then x
      else if unat (ae_ctime x) + k < life_limit x
      then x\<lparr>ae_state := if ae_state x = ETHARP_STATE_PENDING then ETHARP_STATE_PENDING else ETHARP_STATE_STABLE, ae_ctime := ae_ctime x + of_nat k\<rparr>
      else x\<lparr>ae_q := NULL, ae_state := ETHARP_STATE_EMPTY, ae_ctime := of_nat (life_limit x)\<rparr>)"

lemma aged_unused: "\<not> used x \<Longrightarrow> aged x = x"
  by (simp add: aged_def)

lemma limit_less: "entry_ok x \<Longrightarrow> used x \<Longrightarrow> unat (ae_ctime x) < life_limit x"
  by (auto simp: entry_ok_def life_limit_def word_less_nat_alt ARP_MAXAGE_def ARP_MAXPENDING_def)

lemma unat_Suc_8: "unat (c :: os_u8) < 255 \<Longrightarrow> unat (c + 1) = Suc (unat c)"
  by (simp add: unat_word_ariths)

lemma aged_used_eq:
  assumes "entry_ok x" and "used x"
  shows "aged x = lived 1 x"
proof -
  let ?c = "ae_ctime x"
  have l: "unat ?c < life_limit x" using limit_less [OF assms] .
  then have c: "unat (?c + 1) = Suc (unat ?c)" by (intro unat_Suc_8) (auto simp: life_limit_def split: if_splits)
  have end_c: "?c + 1 = of_nat (life_limit x)" if "\<not> Suc (unat ?c) < life_limit x"
  proof -
    have "Suc (unat ?c) = life_limit x" "life_limit x < 256" using l that by (auto simp: life_limit_def)
    then show ?thesis using c by (simp add: word_unat_eq_iff unsigned_of_nat take_bit_nat_eq_self)
  qed
  have due: "(ae_ctime x + 1 \<ge> ARP_MAXAGE \<or> ae_state x = ETHARP_STATE_PENDING \<and> ae_ctime x + 1 \<ge> ARP_MAXPENDING) \<longleftrightarrow> \<not> Suc (unat ?c) < life_limit x"
    using l c by (auto simp: word_le_nat_alt life_limit_def ARP_MAXAGE_def ARP_MAXPENDING_def split: if_splits)
  show ?thesis
  proof (cases "Suc (unat ?c) < life_limit x")
    case True
    have "aged x = x\<lparr>ae_ctime := ?c + 1\<rparr>\<lparr>ae_state := if ae_state x = ETHARP_STATE_STABLE_REREQUESTING then ETHARP_STATE_STABLE else ae_state x\<rparr>"
      using True due assms(2) unfolding aged_def Let_def by (cases x) auto
    moreover have "lived 1 x = x\<lparr>ae_ctime := ?c + 1\<rparr>\<lparr>ae_state := if ae_state x = ETHARP_STATE_PENDING then ETHARP_STATE_PENDING else ETHARP_STATE_STABLE\<rparr>"
      using True assms(2) by (simp add: lived_def)
    ultimately show ?thesis using assms(2) by (cases "ae_state x") simp_all
  next
    case False
    then show ?thesis using due assms(2) end_c by (simp add: aged_def lived_def freed_entry_def Let_def)
  qed
qed

lemma lived_Suc:
  assumes "entry_ok x"
  shows "lived k (aged x) = lived (Suc k) x"
proof (cases "used x")
  case False
  then show ?thesis by (simp add: aged_unused lived_def)
next
  case True
  have l: "unat (ae_ctime x) < life_limit x" using limit_less [OF assms True] .
  show ?thesis
  proof (cases "Suc (unat (ae_ctime x)) < life_limit x")
    case False
    then have "\<not> used (aged x)" using True by (simp add: aged_used_eq [OF assms True] lived_def)
    then show ?thesis using True False l by (simp add: lived_def [of k]) (simp add: aged_used_eq [OF assms True] lived_def)
  next
    case t: True
    have c: "unat (ae_ctime x + 1) = Suc (unat (ae_ctime x))" using t by (intro unat_Suc_8) (auto simp: life_limit_def split: if_splits)
    have "life_limit (aged x) = life_limit x" "ae_ctime (aged x) = ae_ctime x + 1" "used (aged x)"
      using True t by (auto simp: aged_used_eq [OF assms True] lived_def life_limit_def)
    then show ?thesis using True t c by (auto simp: lived_def [of k] lived_def [of "Suc k"] add.assoc) (auto simp: aged_used_eq [OF assms True] lived_def)
  qed
qed

subsection \<open>The timer returns\<close>

text \<open>
  A buffer that can be released without waiting for another thread: one of the pools, or a block in use of the heap.
\<close>

definition releasable :: "addr \<Rightarrow> 'a pbkernel_scheme \<Rightarrow> bool" where
  "releasable a s \<longleftrightarrow> pooled (pbufs s a) \<or>
     pb_flags (pbufs s a) AND PBUF_FLAG_IS_CUSTOM = 0 \<and> pb_type (pbufs s a) = PBUF_RAM \<and>
     heap_mem_begin (heap s) < a \<and> a < heap_mem_end (heap s) \<and> ALIGN a = a \<and> hused (heap s) (a - HEAP_HDR)"

text \<open>Only the buffers \<open>A\<close>, the pools and the heap change, and of the heap only the blocks of \<open>A\<close>.\<close>

definition released_only :: "addr set \<Rightarrow> 'a pbkernel_scheme \<Rightarrow> 'a pbkernel_scheme \<Rightarrow> bool" where
  "released_only A s s' \<longleftrightarrow> (\<exists>f t h. s' = s\<lparr>pbufs := f, memp_tab := t, heap := h\<rparr> \<and>
     heap_mem_begin h = heap_mem_begin (heap s) \<and> heap_mem_end h = heap_mem_end (heap s) \<and>
     (\<forall>b. b \<notin> A \<longrightarrow> f b = pbufs s b \<and> hused h (b - HEAP_HDR) = hused (heap s) (b - HEAP_HDR)))"

lemma released_only_refl: "released_only A s s"
  unfolding released_only_def by (rule exI [of _ "pbufs s"], rule exI [of _ "memp_tab s"], rule exI [of _ "heap s"]) simp

lemma released_only_buffer:
  "released_only {a} s (s\<lparr>pbufs := (pbufs s)(a := x), memp_tab := t\<rparr>)" "released_only {a} s (upd_pbuf a f s)"
  unfolding released_only_def upd_pbuf_def
  by (rule exI [of _ "(pbufs s)(a := x)"], rule exI [of _ t], rule exI [of _ "heap s"], simp)
    (rule exI [of _ "(pbufs s)(a := f (pbufs s a))"], rule exI [of _ "memp_tab s"], rule exI [of _ "heap s"], simp)

lemma released_only_heap: "released_only {a} s (s\<lparr>heap := freed (heap s) (a - HEAP_HDR)\<rparr>)"
  unfolding released_only_def
  by (rule exI [of _ "pbufs s"], rule exI [of _ "memp_tab s"], rule exI [of _ "freed (heap s) (a - HEAP_HDR)"])
    (auto simp: freed_def Let_def)

lemma released_only_mono: "released_only A s s' \<Longrightarrow> A \<subseteq> B \<Longrightarrow> released_only B s s'"
  unfolding released_only_def by blast

lemma released_only_trans:
  assumes "released_only A s s1" and "released_only B s1 s2" and "A \<subseteq> C" and "B \<subseteq> C"
  shows "released_only C s s2"
proof -
  from assms(1) obtain f t h where 1: "s1 = s\<lparr>pbufs := f, memp_tab := t, heap := h\<rparr>"
    "heap_mem_begin h = heap_mem_begin (heap s)" "heap_mem_end h = heap_mem_end (heap s)"
    "\<forall>b. b \<notin> A \<longrightarrow> f b = pbufs s b \<and> hused h (b - HEAP_HDR) = hused (heap s) (b - HEAP_HDR)"
    unfolding released_only_def by blast
  from assms(2) obtain f' t' h' where 2: "s2 = s1\<lparr>pbufs := f', memp_tab := t', heap := h'\<rparr>"
    "heap_mem_begin h' = heap_mem_begin (heap s1)" "heap_mem_end h' = heap_mem_end (heap s1)"
    "\<forall>b. b \<notin> B \<longrightarrow> f' b = pbufs s1 b \<and> hused h' (b - HEAP_HDR) = hused (heap s1) (b - HEAP_HDR)"
    unfolding released_only_def by blast
  have "f' b = pbufs s b \<and> hused h' (b - HEAP_HDR) = hused (heap s) (b - HEAP_HDR)" if "b \<notin> C" for b
  proof -
    have "b \<notin> A" "b \<notin> B" using that assms(3,4) by auto
    then show ?thesis using 1(4) 2(4) by (simp add: 1(1))
  qed
  then show ?thesis unfolding released_only_def
    by (intro exI [of _ f'] exI [of _ t'] exI [of _ h'] conjI) (use 1 2 in simp_all)
qed

lemma released_onlyD:
  assumes "released_only A s s'"
  shows "b \<notin> A \<Longrightarrow> pbufs s' b = pbufs s b" and "b \<notin> A \<Longrightarrow> releasable b s' = releasable b s" and "heap_idle s \<Longrightarrow> heap_idle s'"
  using assms by (auto simp: released_only_def releasable_def mutex_idle_def owner_def)

lemma released_only_table:
  fixes s :: "'a arpkernel_scheme"
  shows "released_only A s s' \<Longrightarrow> arp_table s' = arp_table s" "released_only A s s' \<Longrightarrow> etharp_cached_entry s' = etharp_cached_entry s"
  by (auto simp: released_only_def)

lemma dealloc_returns:
  assumes "releasable a s" and "heap_idle s" and "a \<noteq> NULL"
  shows "\<exists>s'. pbuf_dealloc custom env a s = Some s' \<and> released_only {a} s s'"
proof (cases "pooled (pbufs s a)")
  case True
  then have "\<exists>i. pbuf_dealloc custom env a s = Some (memp_free i a s)"
    by (auto simp: pbuf_dealloc_def pooled_def Let_def PBUF_POOL_def PBUF_ROM_def PBUF_REF_def)
  then show ?thesis using assms(3) released_only_buffer(1) [of a s] by (auto simp: memp_free_def upd_pbuf_def Let_def)
next
  case False
  then have r: "pb_flags (pbufs s a) AND PBUF_FLAG_IS_CUSTOM = 0" "pb_type (pbufs s a) = PBUF_RAM" "heap_mem_begin (heap s) < a"
    "a < heap_mem_end (heap s)" "ALIGN a = a" "hused (heap s) (a - HEAP_HDR)" using assms(1) by (auto simp: releasable_def)
  have "pbuf_dealloc custom env a s = free env a s"
    using r(1,2) by (simp add: pbuf_dealloc_def PBUF_RAM_def PBUF_POOL_def PBUF_ROM_def PBUF_REF_def)
  also have "\<dots> = Some (s\<lparr>heap := freed (heap s) (a - HEAP_HDR)\<rparr>)"
    using free_idle [OF assms(2) r(3-6)] heap_free_eq [OF r(3-6)] by simp
  finally show ?thesis using released_only_heap by blast
qed

lemma free_returns:
  assumes "pchain (pbufs s) p xs" and "\<forall>a\<in>set xs. releasable a s" and "heap_idle s"
  shows "\<exists>c' s'. pbuf_free_loop custom env p c s = Some (c', s') \<and> released_only (set xs) s s'"
  using assms
proof (induction xs arbitrary: p c s)
  case Nil
  then show ?case by (simp add: pbuf_free_loop.simps released_only_refl)
next
  case (Cons a xs)
  have a: "p = a" "a \<noteq> NULL" and ch: "pchain (pbufs s) (pb_next (pbufs s a)) xs" and fresh: "a \<notin> set xs"
    using Cons.prems(1) pchain_distinct [OF Cons.prems(1)] by auto
  let ?s1 = "upd_pbuf a (\<lambda>x. x\<lparr>pb_ref := pb_ref x - 1\<rparr>) s"
  have r1: "released_only {a} s ?s1" by (rule released_only_buffer(2))
  show ?case
  proof (cases "pb_ref (pbufs ?s1 a) = 0")
    case False
    then have "pbuf_free_loop custom env p c s = Some (c, ?s1)" using a by (simp add: pbuf_free_loop.simps)
    then show ?thesis using released_only_mono [OF r1, of "set (a # xs)"] by auto
  next
    case True
    have "releasable a ?s1" using Cons.prems(2) by (auto simp: releasable_def pooled_def upd_pbuf_def)
    from dealloc_returns [OF this released_onlyD(3) [OF r1 Cons.prems(3)] a(2), of custom env] obtain s2 where
      s2: "pbuf_dealloc custom env a ?s1 = Some s2" "released_only {a} ?s1 s2" by blast
    have r2: "released_only {a} s s2" by (rule released_only_trans [OF r1 s2(2)]) simp_all
    have ch2: "pchain (pbufs s2) (pb_next (pbufs s a)) xs"
    proof -
      have "pb_next (pbufs s2 b) = pb_next (pbufs s b)" if "b \<in> set xs" for b
      proof -
        have "b \<noteq> a" using that fresh by blast
        then show ?thesis using released_onlyD(1) [OF r2, of b] by simp
      qed
      then show ?thesis using ch pchain_cong [of xs "pbufs s2" "pbufs s"] by blast
    qed
    have "releasable b s2" if "b \<in> set xs" for b
    proof -
      have "b \<noteq> a" using that fresh by blast
      then show ?thesis using released_onlyD(2) [OF r2, of b] Cons.prems(2) that by simp
    qed
    then have "\<forall>b\<in>set xs. releasable b s2" by blast
    from Cons.IH [OF ch2 this released_onlyD(3) [OF r2 Cons.prems(3)], of "c + 1"] obtain c' s' where
      s': "pbuf_free_loop custom env (pb_next (pbufs s a)) (c + 1) s2 = Some (c', s')" "released_only (set xs) s2 s'" by blast
    have "pb_next (pbufs ?s1 a) = pb_next (pbufs s a)" by (simp add: upd_pbuf_def)
    then have "pbuf_free_loop custom env p c s = Some (c', s')"
      using a True s2(1) s'(1) by (simp add: pbuf_free_loop.simps [of _ _ a])
    moreover have "released_only (set (a # xs)) s s'" by (rule released_only_trans [OF r2 s'(2)]) auto
    ultimately show ?thesis by blast
  qed
qed

text \<open>The waiting packets of the table, and that the heap is not in use by a thread that is blocked.\<close>

definition waiting_ok :: "(nat \<Rightarrow> addr list) \<Rightarrow> 'a arpkernel_scheme \<Rightarrow> bool" where
  "waiting_ok X s \<longleftrightarrow> heap_idle s \<and>
     (\<forall>i < ARP_TABLE_SIZE. pchain (pbufs s) (ae_q (arp_table s i)) (X i) \<and> (\<forall>a\<in>set (X i). releasable a s) \<and>
        (\<forall>j < ARP_TABLE_SIZE. i \<noteq> j \<longrightarrow> set (X i) \<inter> set (X j) = {}))"

lemma waiting_ok_upd:
  assumes "waiting_ok X s" and "ae_q (f (arp_table s i)) = ae_q (arp_table s i)"
  shows "waiting_ok X (upd_arp i f s)"
  using assms by (auto simp: waiting_ok_def upd_arp_def releasable_def mutex_idle_def owner_def)

lemma free_entry_returns:
  assumes w: "waiting_ok X s" and i: "i < ARP_TABLE_SIZE"
  shows "\<exists>s'. etharp_free_entry e i s = Some s' \<and> waiting_ok (X(i := [])) s' \<and>
    arp_view s' = ((arp_table s)(i := freed_entry (arp_table s i)), etharp_cached_entry s)"
proof -
  let ?q = "ae_q (arp_table s i)"
  have c: "pchain (pbufs s) ?q (X i)" "\<forall>a\<in>set (X i). releasable a s" "heap_idle s" using w i by (auto simp: waiting_ok_def)
  from free_returns [OF c, of "custom_free e" "meanwhile e" 0] obtain c' s1 where
    s1: "pbuf_free_loop (custom_free e) (meanwhile e) ?q 0 s = Some (c', s1)" "released_only (set (X i)) s s1" by blast
  note t = released_only_table [OF s1(2)]
  let ?s' = "upd_arp i (\<lambda>x. x\<lparr>ae_q := NULL, ae_state := ETHARP_STATE_EMPTY\<rparr>) s1"
  have run: "etharp_free_entry e i s = Some ?s'"
  proof (cases "?q = NULL")
    case True
    have "pbuf_free_loop (custom_free e) (meanwhile e) ?q 0 s = Some (0, s)" unfolding True by (subst pbuf_free_loop.simps) simp
    then have s: "s1 = s" using s1(1) by simp
    have "(arp_table s i)\<lparr>ae_q := NULL, ae_state := ETHARP_STATE_EMPTY\<rparr> = (arp_table s i)\<lparr>ae_state := ETHARP_STATE_EMPTY\<rparr>"
      using True by (cases "arp_table s i") simp
    then have "?s' = upd_arp i (\<lambda>x. x\<lparr>ae_state := ETHARP_STATE_EMPTY\<rparr>) s" unfolding s upd_arp_def by (simp only:)
    then show ?thesis using True by (simp only: free_entry_eq if_True refl simp_thms)
  next
    case False
    then show ?thesis using s1(1) by (simp add: free_entry_eq pbuf_free_def)
  qed
  have "pchain (pbufs s1) (ae_q (arp_table s j)) (X j) \<and> (\<forall>a\<in>set (X j). releasable a s1)"
    if j: "j < ARP_TABLE_SIZE" "j \<noteq> i" for j
  proof -
    have dj: "a \<notin> set (X i)" if "a \<in> set (X j)" for a using w i j that by (auto simp: waiting_ok_def)
    have "pchain (pbufs s) (ae_q (arp_table s j)) (X j)" "\<forall>a\<in>set (X j). releasable a s" using w j by (auto simp: waiting_ok_def)
    moreover have "pb_next (pbufs s1 a) = pb_next (pbufs s a)" "releasable a s1 = releasable a s" if "a \<in> set (X j)" for a
      using released_onlyD(1,2) [OF s1(2) dj [OF that]] by simp_all
    ultimately show ?thesis using pchain_cong [of "X j" "pbufs s1" "pbufs s"] by blast
  qed
  then have "waiting_ok (X(i := [])) s2" if "pbufs s2 = pbufs s1" "heap s2 = heap s1" "heap_idle s2"
      "arp_table s2 = (arp_table s)(i := (arp_table s i)\<lparr>ae_q := NULL, ae_state := ETHARP_STATE_EMPTY\<rparr>)" for s2 :: "'a arpkernel_scheme"
    using w that by (simp add: waiting_ok_def releasable_def)
  moreover have "heap_idle ?s'" using released_onlyD(3) [OF s1(2) c(3)] by (simp add: upd_arp_def mutex_idle_def owner_def)
  ultimately have "waiting_ok (X(i := [])) ?s'" by (simp add: upd_arp_def t)
  moreover have "arp_view ?s' = ((arp_table s)(i := freed_entry (arp_table s i)), etharp_cached_entry s)"
    by (simp add: t freed_entry_def)
  ultimately show ?thesis using run by blast
qed

lemma age_returns:
  assumes w: "waiting_ok X s" and i: "i < ARP_TABLE_SIZE"
  shows "\<exists>s' X'. etharp_age e i s = Some s' \<and> waiting_ok X' s' \<and>
    arp_view s' = ((arp_table s)(i := aged (arp_table s i)), etharp_cached_entry s)"
proof -
  let ?x = "(arp_table s i)\<lparr>ae_ctime := ae_ctime (arp_table s i) + 1\<rparr>"
  let ?s = "upd_arp i (\<lambda>x. x\<lparr>ae_ctime := ae_ctime x + 1\<rparr>) s"
  let ?due = "ae_ctime ?x \<ge> ARP_MAXAGE \<or> ae_state ?x = ETHARP_STATE_PENDING \<and> ae_ctime ?x \<ge> ARP_MAXPENDING"
  have x: "arp_table ?s i = ?x" "arp_table ?s = (arp_table s)(i := ?x)" "etharp_cached_entry ?s = etharp_cached_entry s"
    by (simp_all add: upd_arp_def)
  have w1: "waiting_ok X ?s" by (rule waiting_ok_upd [OF w]) simp
  consider "\<not> used (arp_table s i)" | "used (arp_table s i)" ?due | "used (arp_table s i)" "\<not> ?due" by blast
  then show ?thesis
  proof cases
    case 1
    then show ?thesis using w by (auto simp: etharp_age_def aged_def arp_view_def)
  next
    case 2
    then have "etharp_age e i s = etharp_free_entry e i ?s" by (simp add: etharp_age_def x(1) Let_def)
    moreover have "aged (arp_table s i) = freed_entry ?x" using 2 by (simp add: aged_def Let_def)
    ultimately show ?thesis using free_entry_returns [OF w1 i, of e] x by auto
  next
    case 3
    let ?s2 = "upd_arp i (\<lambda>x. x\<lparr>ae_state := ETHARP_STATE_STABLE\<rparr>) ?s"
    have "etharp_age e i s = Some (if ae_state ?x = ETHARP_STATE_STABLE_REREQUESTING then ?s2 else ?s)"
      using 3 unfolding etharp_age_def Let_def x(1) by (simp only: if_True if_False split: if_split) simp
    moreover have "waiting_ok X ?s2" by (rule waiting_ok_upd [OF w1]) simp
    moreover have "aged (arp_table s i) = (if ae_state ?x = ETHARP_STATE_STABLE_REREQUESTING then ?x\<lparr>ae_state := ETHARP_STATE_STABLE\<rparr> else ?x)"
      using 3 unfolding aged_def Let_def by auto
    ultimately show ?thesis using w1 x by (auto simp: arp_view_def upd_arp_def)
  qed
qed

lemma fold_age_returns:
  assumes "waiting_ok X s" and "distinct ks" and "set ks \<subseteq> {..<ARP_TABLE_SIZE}"
  shows "\<exists>s' X'. fold_option (etharp_age e) ks s = Some s' \<and> waiting_ok X' s' \<and>
    arp_view s' = ((\<lambda>i. if i \<in> set ks then aged (arp_table s i) else arp_table s i), etharp_cached_entry s)"
  using assms
proof (induction ks arbitrary: s X)
  case Nil
  then show ?case by (auto simp: arp_view_def)
next
  case (Cons i ks)
  from age_returns [OF Cons.prems(1), of i e] Cons.prems(3) obtain s1 X1 where
    s1: "etharp_age e i s = Some s1" "waiting_ok X1 s1" "arp_view s1 = ((arp_table s)(i := aged (arp_table s i)), etharp_cached_entry s)" by auto
  from Cons.IH [OF s1(2)] Cons.prems obtain s' X' where
    s': "fold_option (etharp_age e) ks s1 = Some s'" "waiting_ok X' s'"
    "arp_view s' = ((\<lambda>i. if i \<in> set ks then aged (arp_table s1 i) else arp_table s1 i), etharp_cached_entry s1)" by auto
  have "arp_view s' = ((\<lambda>j. if j \<in> set (i # ks) then aged (arp_table s j) else arp_table s j), etharp_cached_entry s)"
    using s'(3) s1(3) Cons.prems(2) by (auto simp: arp_view_def fun_eq_iff)
  then show ?case using s1(1) s'(1,2) by auto
qed

lemma tmr_run_returns:
  "waiting_ok X s \<Longrightarrow> arp_ok (arp_view s) \<Longrightarrow> \<exists>s'. tmr_run e k s = Some s' \<and> (\<forall>i < ARP_TABLE_SIZE. arp_table s' i = lived k (arp_table s i))"
proof (induction k arbitrary: s X)
  case 0
  then show ?case by (simp add: lived_def)
next
  case (Suc k)
  from fold_age_returns [OF Suc.prems(1), of "[0..<ARP_TABLE_SIZE]" e] obtain s1 X1 where
    s1: "etharp_tmr e s = Some s1" "waiting_ok X1 s1"
    "arp_view s1 = ((\<lambda>i. if i < ARP_TABLE_SIZE then aged (arp_table s i) else arp_table s i), etharp_cached_entry s)"
    by (auto simp: etharp_tmr_def lessThan_atLeast0)
  have "arp_ok (arp_view s1)"
    using arp_ok_map [OF arp_okD [OF Suc.prems(2)], of aged] entry_ok_aged aged_used by (auto simp: s1(3))
  from Suc.IH [OF s1(2) this] obtain s' where
    s': "tmr_run e k s1 = Some s'" "\<forall>i < ARP_TABLE_SIZE. arp_table s' i = lived k (arp_table s1 i)" by blast
  have "lived k (arp_table s1 i) = lived (Suc k) (arp_table s i)" if "i < ARP_TABLE_SIZE" for i
    using s1(3) that lived_Suc [of "arp_table s i" k] Suc.prems(2) by (simp add: arp_view_def arp_ok_def)
  then show ?case using s1(1) s' by auto
qed

section \<open>The table as a map\<close>

definition arp_map :: "(nat \<Rightarrow> etharp_entry) \<Rightarrow> os_u32 \<rightharpoonup> eth_addr" where
  "arp_map tab = map_of (map (\<lambda>i. (ae_ipaddr (tab i), ae_ethaddr (tab i))) (filter (\<lambda>i. stable (tab i)) [0..<ARP_TABLE_SIZE]))"

lemma arp_map_Some:
  assumes "arp_ok (tab, c)" and "i < ARP_TABLE_SIZE" and "stable (tab i)"
  shows "arp_map tab (ae_ipaddr (tab i)) = Some (ae_ethaddr (tab i))"
proof -
  let ?l = "map (\<lambda>i. (ae_ipaddr (tab i), ae_ethaddr (tab i))) (filter (\<lambda>i. stable (tab i)) [0..<ARP_TABLE_SIZE])"
  have "inj_on (\<lambda>i. ae_ipaddr (tab i)) {i. i < ARP_TABLE_SIZE \<and> stable (tab i)}"
    using assms(1) unfolding arp_ok_def inj_on_def by (auto simp: used_cases)
  then have "distinct (map fst ?l)" by (simp add: distinct_map comp_def atLeast0LessThan inj_on_def)
  then show ?thesis unfolding arp_map_def using assms(2,3) by (intro map_of_is_SomeI) auto
qed

lemma arp_map_None: "(\<And>i. i < ARP_TABLE_SIZE \<Longrightarrow> stable (tab i) \<Longrightarrow> ae_ipaddr (tab i) \<noteq> a) \<Longrightarrow> arp_map tab a = None"
  by (force simp: arp_map_def map_of_eq_None_iff)

lemma arp_map_resolved:
  assumes ok: "arp_ok (tab, c)" and i: "i < ARP_TABLE_SIZE" and h: "hit tab a i \<or> miss tab a" and ok': "arp_ok (tab(i := resolved n a eth (tab i)), c)"
  shows "arp_map (tab(i := resolved n a eth (tab i))) = (arp_map tab |` (- (if used (tab i) then {ae_ipaddr (tab i)} else {})))(a \<mapsto> eth)"
proof
  fix b
  let ?t = "tab(i := resolved n a eth (tab i))"
  have r: "stable (?t i)" "ae_ipaddr (?t i) = a" "ae_ethaddr (?t i) = eth" by (simp_all add: resolved_def)
  show "arp_map ?t b = ((arp_map tab |` (- (if used (tab i) then {ae_ipaddr (tab i)} else {})))(a \<mapsto> eth)) b"
  proof (cases "b = a")
    case True
    then show ?thesis using arp_map_Some [of ?t c i] ok' i r by simp
  next
    case b: False
    show ?thesis
    proof (cases "\<exists>j < ARP_TABLE_SIZE. j \<noteq> i \<and> stable (tab j) \<and> ae_ipaddr (tab j) = b")
      case True
      then obtain j where j: "j < ARP_TABLE_SIZE" "j \<noteq> i" "stable (tab j)" "ae_ipaddr (tab j) = b" by blast
      then have "\<not> (used (tab i) \<and> ae_ipaddr (tab i) = b)" using ok i unfolding arp_ok_def by (auto simp: used_cases)
      then show ?thesis using arp_map_Some [of ?t c j] arp_map_Some [OF ok j(1)] ok' j b by auto
    next
      case False
      then have "arp_map ?t b = None" using b r(2) by (intro arp_map_None) (auto split: if_splits)
      moreover have "stable (tab i) \<and> ae_ipaddr (tab i) = b \<or> arp_map tab b = None" using False by (metis arp_map_None)
      ultimately show ?thesis using b by (auto simp: restrict_map_def used_cases)
    qed
  qed
qed

lemma find_addr_map:
  assumes ok: "arp_ok (arp_view s)"
  shows "\<exists>i. etharp_find_addr e (Some a) s = Some (case arp_map (arp_table s) a of Some eth \<Rightarrow> (int i, Some (eth, a), s) | None \<Rightarrow> (- 1, None, s))"
proof -
  obtain c where c: "chooses (arp_table s) a ETHARP_FLAG_FIND_ONLY c" "etharp_find_entry e (Some a) ETHARP_FLAG_FIND_ONLY s = chosen e a c s"
    using find_entry_chosen by blast
  have fo: "ETHARP_FLAG_FIND_ONLY AND ETHARP_FLAG_FIND_ONLY \<noteq> (0 :: os_u8)" by (simp add: ETHARP_FLAG_FIND_ONLY_def)
  show ?thesis
  proof (cases c)
    case (Hit i)
    then have i: "i < ARP_TABLE_SIZE" "used (arp_table s i)" "ae_ipaddr (arp_table s i) = a" using c(1) by (auto simp: chooses_def)
    show ?thesis
    proof (cases "stable (arp_table s i)")
      case True
      then show ?thesis using arp_map_Some [OF arp_okD [OF ok] i(1) True] i(3) c(2) Hit
        by (auto simp: etharp_find_addr_def chosen_def)
    next
      case False
      have "arp_map (arp_table s) a = None"
        using False i ok unfolding arp_ok_def by (intro arp_map_None) (auto simp: arp_view_def used_cases)
      then show ?thesis using False c(2) Hit by (auto simp: etharp_find_addr_def chosen_def)
    qed
  next
    case Refused
    then have "arp_map (arp_table s) a = None" using c(1) by (intro arp_map_None) (auto simp: chooses_def used_cases)
    then show ?thesis using c(2) Refused by (auto simp: etharp_find_addr_def chosen_def ERR_MEM_def)
  qed (use c(1) fo in \<open>auto simp: chooses_def\<close>)
qed

end
