(* ===== verification/Arp_Exchange.thy ===== *)
theory Arp_Exchange
  imports Arp_Run Packet_Fields
begin

text \<open>
  The packets of ARP. With the lemmas on fields the packets that \<^verbatim>\<open>etharp_request\<close> and the answer to it write are computed
  byte for byte, and the exchange between two hosts is followed from the query that asks for an address, through the answer, to the packet that waited for it.
\<close>

definition arp_lens :: "nat list" where
  "arp_lens = [6, 6, 2, 2, 2, 1, 1, 2, 6, 4, 6, 4]"

text \<open>The fields of an ARP packet from \<open>es\<close> to \<open>ed\<close>: sender \<open>hws\<close>, \<open>ips\<close> and target \<open>hwd\<close>, \<open>ipd\<close>.\<close>

definition arp_fields :: "eth_addr \<Rightarrow> eth_addr \<Rightarrow> os_u16 \<Rightarrow> eth_addr \<Rightarrow> os_u32 \<Rightarrow> eth_addr \<Rightarrow> os_u32 \<Rightarrow> os_u8 list list" where
  "arp_fields es ed opcode hws ips hwd ipd =
     [ed, es, bytes16 (PP_HTONS ETHTYPE_ARP), bytes16 (PP_HTONS HWTYPE_ETHERNET), bytes16 (PP_HTONS ETHTYPE_IP), [ETHARP_HWADDR_LEN], [4],
      bytes16 (lwip_htons opcode), hws, bytes32 ips, hwd, bytes32 ipd]"

lemma list_of_12:
  assumes "length fs = 12"
  obtains a b c d e f g h i j k l where "fs = [a, b, c, d, e, f, g, h, i, j, k, l]"
  using assms by (auto simp: numeral_eq_Suc length_Suc_conv)

lemma arp_fill_fields:
  assumes "length es = 6" and "length ed = 6" and "length hws = 6" and "length hwd = 6"
  shows "fields_at (arp_fill h es ed hws ips hwd ipd opcode m) h (arp_fields es ed opcode hws ips hwd ipd)"
proof -
  obtain fs where fs: "fields_at m h fs" "map length fs = arp_lens" using fields_exist [of arp_lens m h] by (auto simp: arp_lens_def)
  have "length fs = 12" using arg_cong [OF fs(2), of length] by (simp add: arp_lens_def)
  then obtain f0 f1 f2 f3 f4 f5 f6 f7 f8 f9 f10 f11 where fs12: "fs = [f0, f1, f2, f3, f4, f5, f6, f7, f8, f9, f10, f11]"
    by (rule list_of_12)
  let ?us = "[(7, bytes16 (lwip_htons opcode)), (8, hws), (10, hwd), (0, ed), (1, es), (9, bytes32 ips), (11, bytes32 ipd),
     (3, bytes16 (PP_HTONS HWTYPE_ETHERNET)), (4, bytes16 (PP_HTONS ETHTYPE_IP)), (5, [ETHARP_HWADDR_LEN]), (6, [4]), (2, bytes16 (PP_HTONS ETHTYPE_ARP))]"
  have "fields_at (write_fields h arp_lens ?us m) h (fold (\<lambda>(i, v) l. l[i := v]) ?us fs)"
    by (rule write_fields_fields [OF fs]) (use assms in \<open>simp add: arp_lens_def\<close>)
  moreover have "fold (\<lambda>(i, v) l. l[i := v]) ?us fs = arp_fields es ed opcode hws ips hwd ipd"
    by (simp add: fs12 arp_fields_def)
  moreover have "write_fields h arp_lens ?us m = arp_fill h es ed hws ips hwd ipd opcode m"
    by (simp add: write_fields_def arp_lens_def arp_fill_def SIZEOF_ETH_HDR_def Let_def add.assoc)
  ultimately show ?thesis by simp
qed

lemma arp_reply_fields:
  assumes "fields_at m h (arp_fields es ed opcode hws ips hwd ipd)" and "length es = 6" "length ed = 6" "length hws = 6" "length hwd = 6" "length eth = 6"
  shows "fields_at (arp_make_reply h x eth m) h (arp_fields eth hws ARP_REPLY eth (ni_ip_addr x) hws ips)"
proof -
  let ?c = "bytes16 (lwip_htons ARP_REPLY)" and ?ip = "bytes32 (ni_ip_addr x)"
  have l: "length (bytes16 v) = 2" "length (bytes32 w) = 4" for v w by simp_all
  define m1 where "m1 = put (h + 20) ?c m"
  have f1: "fields_at m1 h (arp_fields es ed ARP_REPLY hws ips hwd ipd)"
    using fields_put [OF assms(1), of 7 ?c] assms by (simp add: arp_fields_def m1_def)
  then have g1: "bytes_at m1 (h + 28) 4 = bytes32 ips" using fields_get [OF f1, of 9] assms by (simp add: arp_fields_def)
  define m2 where "m2 = put (h + 38) (bytes32 ips) m1"
  have f2: "fields_at m2 h (arp_fields es ed ARP_REPLY hws ips hwd ips)"
    using fields_put [OF f1, of 11 "bytes32 ips"] assms by (simp add: arp_fields_def m2_def)
  define m3 where "m3 = put (h + 28) ?ip m2"
  have f3: "fields_at m3 h (arp_fields es ed ARP_REPLY hws (ni_ip_addr x) hwd ips)"
    using fields_put [OF f2, of 9 ?ip] assms by (simp add: arp_fields_def m3_def)
  then have g3: "bytes_at m3 (h + 22) 6 = hws" using fields_get [OF f3, of 8] assms by (simp add: arp_fields_def)
  define m4 where "m4 = put (h + 32) hws m3"
  have f4: "fields_at m4 h (arp_fields es ed ARP_REPLY hws (ni_ip_addr x) hws ips)"
    using fields_put [OF f3, of 10 hws] assms by (simp add: arp_fields_def m4_def)
  then have g4: "bytes_at m4 (h + 22) 6 = hws" using fields_get [OF f4, of 8] assms by (simp add: arp_fields_def)
  define m5 where "m5 = put h hws m4"
  have f5: "fields_at m5 h (arp_fields es hws ARP_REPLY hws (ni_ip_addr x) hws ips)"
    using fields_put [OF f4, of 0 hws] assms by (simp add: arp_fields_def m5_def)
  define m6 where "m6 = put (h + 22) eth m5"
  have f6: "fields_at m6 h (arp_fields es hws ARP_REPLY eth (ni_ip_addr x) hws ips)"
    using fields_put [OF f5, of 8 eth] assms by (simp add: arp_fields_def m6_def)
  have "fields_at (put (h + 6) eth m6) h (arp_fields eth hws ARP_REPLY eth (ni_ip_addr x) hws ips)"
    using fields_put [OF f6, of 1 eth] assms by (simp add: arp_fields_def)
  moreover have "arp_make_reply h x eth m = put (h + 6) eth m6"
    unfolding arp_make_reply_def Let_def SIZEOF_ETH_HDR_def using g1 g3 g4
    by (simp add: add.assoc m1_def m2_def m3_def m4_def m5_def m6_def)
  ultimately show ?thesis by simp
qed

section \<open>Receiving\<close>

lemma arp_fields_read:
  assumes f: "fields_at m h (arp_fields es ed opcode hws ips hwd ipd)" and l: "length es = 6" "length ed = 6" "length hws = 6" "length hwd = 6"
  shows "load16 m (h + 14) = PP_HTONS HWTYPE_ETHERNET" "load16 m (h + 16) = PP_HTONS ETHTYPE_IP" "m (h + 18) = ETHARP_HWADDR_LEN" "m (h + 19) = 4"
    "load16 m (h + 20) = lwip_htons opcode" "bytes_at m (h + 22) 6 = hws" "load32 m (h + 28) = ips" "load32 m (h + 38) = ipd"
proof -
  show "load16 m (h + 14) = PP_HTONS HWTYPE_ETHERNET" using fields_get [OF f, of 3] l by (intro load16_bytes) (simp add: arp_fields_def)
  show "load16 m (h + 16) = PP_HTONS ETHTYPE_IP" using fields_get [OF f, of 4] l by (intro load16_bytes) (simp add: arp_fields_def)
  show "m (h + 18) = ETHARP_HWADDR_LEN" using fields_get [OF f, of 5] l by (simp add: arp_fields_def bytes_at_def)
  show "m (h + 19) = 4" using fields_get [OF f, of 6] l by (simp add: arp_fields_def bytes_at_def)
  show "load16 m (h + 20) = lwip_htons opcode" using fields_get [OF f, of 7] l by (intro load16_bytes) (simp add: arp_fields_def)
  show "bytes_at m (h + 22) 6 = hws" using fields_get [OF f, of 8] l by (simp add: arp_fields_def)
  show "load32 m (h + 28) = ips" using fields_get [OF f, of 9] l by (intro load32_bytes) (simp add: arp_fields_def)
  show "load32 m (h + 38) = ipd" using fields_get [OF f, of 11] l by (intro load32_bytes) (simp add: arp_fields_def)
qed

definition made_stable :: "addr \<Rightarrow> eth_addr \<Rightarrow> etharp_entry \<Rightarrow> etharp_entry" where
  "made_stable n eth x = x\<lparr>ae_state := ETHARP_STATE_STABLE, ae_netif := n, ae_ethaddr := eth, ae_ctime := 0\<rparr>"

lemma made_stable_resolved: "ae_q x = NULL \<Longrightarrow> ae_ipaddr x = a \<Longrightarrow> made_stable n eth x = resolved n a eth x"
  "ae_q x = NULL \<Longrightarrow> made_stable n eth (x\<lparr>ae_ipaddr := a, ae_ctime := 0\<rparr>) = resolved n a eth x"
  "made_stable n eth (vacant a x) = resolved n a eth x"
  by (cases x, simp add: made_stable_def resolved_def vacant_def)+

text \<open>When no packet waits on the entry that the address has or gets, an update only writes the table.\<close>

lemma update_idle:
  assumes ok: "arp_ok (arp_view s)"
    and idle: "\<forall>i < ARP_TABLE_SIZE. hit (arp_table s) a i \<or> takes (arp_table s) a flags i \<longrightarrow> ae_q (arp_table s i) = NULL"
    and u: "\<not> ip4_addr_isbroadcast a (netifs s n)" "\<not> ip_addr_ismulticast a" and hard: "flags = ETHARP_FLAG_TRY_HARD"
  shows "\<exists>i < ARP_TABLE_SIZE. (hit (arp_table s) a i \<or> takes (arp_table s) a flags i) \<and>
    etharp_update_arp_entry e n a eth flags s = Some (ERR_OK, s\<lparr>arp_table := (arp_table s)(i := resolved n a eth (arp_table s i))\<rparr>)"
proof -
  obtain c where c: "chooses (arp_table s) a flags c" "etharp_find_entry e (Some a) flags s = chosen e a c s"
    using find_entry_chosen by blast
  have fl: "flags AND ETHARP_FLAG_FIND_ONLY = 0" "flags AND ETHARP_FLAG_TRY_HARD \<noteq> 0"
    by (simp_all add: hard ETHARP_FLAG_FIND_ONLY_def ETHARP_FLAG_TRY_HARD_def)
  have any: "\<not> ip_addr_isany (Some a)" using u(1) by (auto simp: ip_addr_isany_def ip4_addr_isbroadcast_def)
  have "\<exists>i < ARP_TABLE_SIZE. (hit (arp_table s) a i \<or> takes (arp_table s) a flags i) \<and>
      (\<exists>x. chosen e a c s = Some (int i, s\<lparr>arp_table := (arp_table s)(i := x)\<rparr>) \<and> ae_q x = NULL \<and>
        made_stable n eth x = resolved n a eth (arp_table s i))"
  proof (cases c)
    case (Hit i)
    then have i: "i < ARP_TABLE_SIZE" "hit (arp_table s) a i" using c(1) by (auto simp: chooses_def hit_def)
    then show ?thesis using idle Hit
      by (intro exI [of _ i] conjI exI [of _ "arp_table s i"]) (auto simp: chosen_def hit_def made_stable_resolved)
  next
    case (Fresh i)
    then have i: "i < ARP_TABLE_SIZE" "takes (arp_table s) a flags i" using c(1) by (auto simp: chooses_def takes_def)
    then show ?thesis using idle Fresh
      by (intro exI [of _ i] conjI exI [of _ "(arp_table s i)\<lparr>ae_ipaddr := a, ae_ctime := 0\<rparr>"])
        (auto simp: chosen_def upd_arp_def made_stable_resolved(2))
  next
    case (Evict i)
    then have i: "i < ARP_TABLE_SIZE" "takes (arp_table s) a flags i" using c(1) by (auto simp: chooses_def takes_def oldest_def)
    then show ?thesis using idle Evict
      by (intro exI [of _ i] conjI exI [of _ "vacant a (arp_table s i)"])
        (auto simp: chosen_def upd_arp_def claim_def made_stable_resolved, simp_all add: vacant_def)
  next
    case Refused
    then show ?thesis using c(1) fl by (auto simp: chooses_def ARP_TABLE_SIZE_def)
  qed
  then obtain i x where i: "i < ARP_TABLE_SIZE" "hit (arp_table s) a i \<or> takes (arp_table s) a flags i"
      "chosen e a c s = Some (int i, s\<lparr>arp_table := (arp_table s)(i := x)\<rparr>)" "ae_q x = NULL"
      "made_stable n eth x = resolved n a eth (arp_table s i)"
    by blast
  have "etharp_update_arp_entry e n a eth flags s = Some (ERR_OK, s\<lparr>arp_table := (arp_table s)(i := resolved n a eth (arp_table s i))\<rparr>)"
    using c(2) i u any by (simp add: etharp_update_arp_entry_def upd_arp_def made_stable_def)
  then show ?thesis using i(1,2) by blast
qed

lemma opcodes: "PP_HTONS ARP_REPLY \<noteq> PP_HTONS ARP_REQUEST"
  by (simp add: PP_HTONS_def ARP_REPLY_def ARP_REQUEST_def)

text \<open>A packet \<open>p\<close> with a valid ARP message that reaches the host at whose address \<open>n\<close> it is directed.\<close>

definition arp_arrives :: "addr \<Rightarrow> addr \<Rightarrow> eth_addr \<Rightarrow> eth_addr \<Rightarrow> os_u16 \<Rightarrow> eth_addr \<Rightarrow> os_u32 \<Rightarrow> eth_addr \<Rightarrow> 'a arpkernel_scheme \<Rightarrow> bool" where
  "arp_arrives n p es ed opcode hws ips hwd s \<longleftrightarrow>
     n \<noteq> NULL \<and> pb_len (pbufs s p) \<ge> SIZEOF_ETHARP_PACKET \<and> length es = 6 \<and> length ed = 6 \<and> length hws = 6 \<and> length hwd = 6 \<and>
     fields_at (mem8 s) (pb_payload (pbufs s p)) (arp_fields es ed opcode hws ips hwd (ni_ip_addr (netifs s n))) \<and>
     ni_ip_addr (netifs s n) \<noteq> IPADDR_ANY \<and> \<not> ip4_addr_isbroadcast ips (netifs s n) \<and> \<not> ip_addr_ismulticast ips"

definition arp_idle :: "os_u32 \<Rightarrow> 'a arpkernel_scheme \<Rightarrow> bool" where
  "arp_idle a s \<longleftrightarrow> arp_ok (arp_view s) \<and>
     (\<forall>i < ARP_TABLE_SIZE. hit (arp_table s) a i \<or> takes (arp_table s) a ETHARP_FLAG_TRY_HARD i \<longrightarrow> ae_q (arp_table s i) = NULL)"

lemma resolved_map:
  assumes ok: "arp_ok (arp_view s)" and i: "i < ARP_TABLE_SIZE" and h: "hit (arp_table s) a i \<or> takes (arp_table s) a flags i"
    and u: "host_address a" and l: "length eth = 6"
  shows "arp_ok ((arp_table s)(i := resolved n a eth (arp_table s i)), etharp_cached_entry s)"
    and "arp_map ((arp_table s)(i := resolved n a eth (arp_table s i))) a = Some eth"
proof -
  let ?t = "(arp_table s)(i := resolved n a eth (arp_table s i))"
  have "entry_ok (resolved n a eth (arp_table s i))" "ae_ipaddr (resolved n a eth (arp_table s i)) = a"
    using u l by (simp_all add: entry_ok_def resolved_def ARP_MAXAGE_def)
  then show ok': "arp_ok (?t, etharp_cached_entry s)"
    using arp_ok_place [OF arp_okD [OF ok]] h takes_miss by blast
  show "arp_map ?t a = Some eth" using arp_map_Some [of ?t "etharp_cached_entry s" i] ok' i by (simp add: resolved_def)
qed

lemma arrives_input:
  assumes arr: "arp_arrives n p es ed opcode hws ips hwd s"
  shows "etharp_arp_input e n eth p s =
    do { (r, s') \<leftarrow> etharp_update_arp_entry e n ips hws ETHARP_FLAG_TRY_HARD s;
         s' \<leftarrow> arp_act e n eth p (pb_payload (pbufs s p)) True ips s'; (c, s') \<leftarrow> pfree e p s'; Some s' }"
proof -
  let ?h = "pb_payload (pbufs s p)"
  have a: "n \<noteq> NULL" "pb_len (pbufs s p) \<ge> SIZEOF_ETHARP_PACKET" "length es = 6" "length ed = 6" "length hws = 6" "length hwd = 6"
      "fields_at (mem8 s) ?h (arp_fields es ed opcode hws ips hwd (ni_ip_addr (netifs s n)))" "ni_ip_addr (netifs s n) \<noteq> IPADDR_ANY"
    using arr by (simp_all add: arp_arrives_def)
  note rd = arp_fields_read [OF a(7,3-6)]
  have len: "\<not> pb_len (pbufs s p) < SIZEOF_ETHARP_PACKET" using a(2) by simp
  have off0: "?h + ucast SIZEOF_ETH_HDR = ?h + 14" by (simp add: SIZEOF_ETH_HDR_def)
  have off: "?h + ucast SIZEOF_ETH_HDR + k = ?h + (14 + k)" for k by (simp add: SIZEOF_ETH_HDR_def add.assoc)
  show ?thesis using a(1,8) rd len unfolding etharp_arp_input_def Let_def off by (simp add: off0 ip_addr_isany_def)
qed

lemma arrives_update:
  assumes idle: "arp_idle ips s" and arr: "arp_arrives n p es ed opcode hws ips hwd s"
  shows "\<exists>t. arp_ok (t, etharp_cached_entry s) \<and> arp_map t ips = Some hws \<and>
    etharp_arp_input e n eth p s =
      do { s \<leftarrow> arp_act e n eth p (pb_payload (pbufs s p)) True ips (s\<lparr>arp_table := t\<rparr>); (c, s) \<leftarrow> pfree e p s; Some s }"
proof -
  have a: "length hws = 6" "\<not> ip4_addr_isbroadcast ips (netifs s n)" "\<not> ip_addr_ismulticast ips"
    using arr by (simp_all add: arp_arrives_def)
  obtain i where i: "i < ARP_TABLE_SIZE" "hit (arp_table s) ips i \<or> takes (arp_table s) ips ETHARP_FLAG_TRY_HARD i"
      "etharp_update_arp_entry e n ips hws ETHARP_FLAG_TRY_HARD s =
        Some (ERR_OK, s\<lparr>arp_table := (arp_table s)(i := resolved n ips hws (arp_table s i))\<rparr>)"
    using update_idle [OF _ _ a(2,3) refl, of e hws] idle by (auto simp: arp_idle_def)
  have "arp_ok ((arp_table s)(i := resolved n ips hws (arp_table s i)), etharp_cached_entry s)"
    "arp_map ((arp_table s)(i := resolved n ips hws (arp_table s i))) ips = Some hws"
    using resolved_map [OF _ i(1,2) not_broadcast_unicast [OF a(2,3)] a(1)] idle by (simp_all add: arp_idle_def)
  then show ?thesis using arrives_input [OF arr, of e eth] i(3) by auto
qed

lemma arrives_request:
  assumes idle: "arp_idle ips s" and arr: "arp_arrives n p es ed ARP_REQUEST hws ips hwd s" and eth: "length eth = 6"
  shows "\<exists>t m. arp_ok (t, etharp_cached_entry s) \<and> arp_map t ips = Some hws \<and>
    fields_at m (pb_payload (pbufs s p)) (arp_fields eth hws ARP_REPLY eth (ni_ip_addr (netifs s n)) hws ips) \<and>
    etharp_arp_input e n eth p s =
      do { (r, s) \<leftarrow> link_call e (ni_linkoutput (netifs s n)) n p (s\<lparr>arp_table := t, mem8 := m\<rparr>); (c, s) \<leftarrow> pfree e p s; Some s }"
proof -
  let ?h = "pb_payload (pbufs s p)" and ?x = "netifs s n"
  from arrives_update [OF assms(1,2), of e eth] obtain t where t: "arp_ok (t, etharp_cached_entry s)" "arp_map t ips = Some hws"
    "etharp_arp_input e n eth p s = do { s \<leftarrow> arp_act e n eth p ?h True ips (s\<lparr>arp_table := t\<rparr>); (c, s) \<leftarrow> pfree e p s; Some s }" by blast
  have f: "fields_at (mem8 s) ?h (arp_fields es ed ARP_REQUEST hws ips hwd (ni_ip_addr ?x))"
      "length es = 6" "length ed = 6" "length hws = 6" "length hwd = 6"
    using arr by (simp_all add: arp_arrives_def)
  let ?m = "arp_make_reply ?h ?x eth (mem8 s)"
  have "load16 (mem8 s) (?h + ucast SIZEOF_ETH_HDR + 6) = PP_HTONS ARP_REQUEST"
    using arp_fields_read(5) [OF f] by (simp add: SIZEOF_ETH_HDR_def add.assoc htons_PP)
  then have "arp_act e n eth p ?h True ips (s\<lparr>arp_table := t\<rparr>) =
      do { (r, s) \<leftarrow> link_call e (ni_linkoutput ?x) n p (s\<lparr>arp_table := t, mem8 := ?m\<rparr>); Some s }"
    by (simp add: arp_act_def upd_mem8_def)
  then have "etharp_arp_input e n eth p s =
      do { (r, s) \<leftarrow> link_call e (ni_linkoutput ?x) n p (s\<lparr>arp_table := t, mem8 := ?m\<rparr>); (c, s) \<leftarrow> pfree e p s; Some s }"
    using t(3) by (simp split: Option.bind_split)
  then show ?thesis using t(1,2) arp_reply_fields [OF f eth, of ?x] by blast
qed

lemma arrives_reply:
  assumes idle: "arp_idle ips s" and arr: "arp_arrives n p es ed ARP_REPLY hws ips hwd s"
  shows "\<exists>t. arp_ok (t, etharp_cached_entry s) \<and> arp_map t ips = Some hws \<and>
    etharp_arp_input e n eth p s = do { s \<leftarrow> dhcp_arp_reply e n ips (s\<lparr>arp_table := t\<rparr>); (c, s) \<leftarrow> pfree e p s; Some s }"
proof -
  let ?h = "pb_payload (pbufs s p)"
  from arrives_update [OF assms, of e eth] obtain t where t: "arp_ok (t, etharp_cached_entry s)" "arp_map t ips = Some hws"
    "etharp_arp_input e n eth p s = do { s \<leftarrow> arp_act e n eth p ?h True ips (s\<lparr>arp_table := t\<rparr>); (c, s) \<leftarrow> pfree e p s; Some s }" by blast
  have f: "fields_at (mem8 s) ?h (arp_fields es ed ARP_REPLY hws ips hwd (ni_ip_addr (netifs s n)))"
      "length es = 6" "length ed = 6" "length hws = 6" "length hwd = 6"
    using arr by (simp_all add: arp_arrives_def)
  have "load16 (mem8 s) (?h + ucast SIZEOF_ETH_HDR + 6) = PP_HTONS ARP_REPLY"
    using arp_fields_read(5) [OF f] by (simp add: SIZEOF_ETH_HDR_def add.assoc htons_PP)
  then have "arp_act e n eth p ?h True ips (s\<lparr>arp_table := t\<rparr>) = dhcp_arp_reply e n ips (s\<lparr>arp_table := t\<rparr>)"
    using opcodes by (simp add: arp_act_def)
  then show ?thesis using t by auto
qed


section \<open>Asking and resolving\<close>









section \<open>Properties\<close>

definition demo_netenv :: "arpkernel netenv" where
  "demo_netenv = \<lparr>custom_free = (\<lambda>p. Some), meanwhile = Some, link_call = (\<lambda>f n p s. Some (0, s)), dhcp_arp_reply = (\<lambda>n a. Some)\<rparr>"

definition blank_entry :: etharp_entry where
  "blank_entry = \<lparr>ae_q = NULL, ae_ipaddr = 0, ae_netif = NULL, ae_ethaddr = ethzero, ae_state = ETHARP_STATE_EMPTY, ae_ctime = 0\<rparr>"

text \<open>Two hosts, 192.168.0.1 and 192.168.0.9 in network order, each with a received ARP packet from the other one.\<close>

definition demo_arp_packet :: pbuf where
  "demo_arp_packet = \<lparr>pb_next = NULL, pb_payload = 0x30000, pb_tot_len = 42, pb_len = 42, pb_type = PBUF_RAM, pb_flags = 0, pb_ref = 2\<rparr>"

definition host1 :: netif where "host1 = demo_netif NULL 0x0100a8c0"
definition host9 :: netif where "host9 = (demo_netif NULL 0x0900a8c0)\<lparr>ni_hwaddr := [2, 0, 0, 0, 0, 9]\<rparr>"

definition arp_kernel :: "netif \<Rightarrow> netif \<Rightarrow> os_u16 \<Rightarrow> eth_addr \<Rightarrow> eth_addr \<Rightarrow> arpkernel" where
  "arp_kernel x y opcode ed hwd = (portkernel.extend port_kernel \<lparr>arp_table = (\<lambda>_. blank_entry), etharp_cached_entry = 0\<rparr>)
     \<lparr>netifs := (\<lambda>_. x), pbufs := (\<lambda>_. demo_arp_packet),
      mem8 := arp_fill 0x30000 (ni_hwaddr y) ed (ni_hwaddr y) (ni_ip_addr y) hwd (ni_ip_addr x) opcode (\<lambda>_. 0)\<rparr>"

lemma arp_kernel_facts:
  "arp_table (arp_kernel x y opcode ed hwd) = (\<lambda>_. blank_entry)" "etharp_cached_entry (arp_kernel x y opcode ed hwd) = 0"
  "netifs (arp_kernel x y opcode ed hwd) = (\<lambda>_. x)" "pbufs (arp_kernel x y opcode ed hwd) = (\<lambda>_. demo_arp_packet)"
  by (simp_all add: arp_kernel_def portkernel.extend_def)

lemma arp_kernel_idle: "arp_idle a (arp_kernel x y opcode ed hwd)"
  by (simp add: arp_idle_def arp_ok_def arp_view_def arp_kernel_facts blank_entry_def entry_ok_def ARP_TABLE_SIZE_def)

lemma hosts_unicast:
  "\<not> ip_addr_ismulticast (ni_ip_addr host1)" "\<not> ip_addr_ismulticast (ni_ip_addr host9)"
  "\<not> ip4_addr_isbroadcast (ni_ip_addr host9) host1" "\<not> ip4_addr_isbroadcast (ni_ip_addr host1) host9"
  by (simp_all add: host1_def host9_def demo_netif_def ip_addr_ismulticast_def lwip_htonl_def
      IPADDR_ANY_def ip4_addr_isbroadcast_def has_flag_def NETIF_FLAG_BROADCAST_def ip_addr_netcmp_def IPADDR_BROADCAST_def)

lemma arp_kernel_arrives:
  assumes "length ed = 6" and "length hwd = 6" and "length (ni_hwaddr y) = 6" and "ni_ip_addr x \<noteq> IPADDR_ANY"
    and "\<not> ip4_addr_isbroadcast (ni_ip_addr y) x" and "\<not> ip_addr_ismulticast (ni_ip_addr y)"
  shows "arp_arrives 0x500 0x20000 (ni_hwaddr y) ed opcode (ni_hwaddr y) (ni_ip_addr y) hwd (arp_kernel x y opcode ed hwd)"
proof -
  have "fields_at (mem8 (arp_kernel x y opcode ed hwd)) 0x30000 (arp_fields (ni_hwaddr y) ed opcode (ni_hwaddr y) (ni_ip_addr y) hwd (ni_ip_addr x))"
    using arp_fill_fields [of "ni_hwaddr y" ed "ni_hwaddr y" hwd] assms by (simp add: arp_kernel_def)
  then show ?thesis
    using assms by (simp add: arp_arrives_def arp_kernel_facts demo_arp_packet_def NULL_def SIZEOF_ETHARP_PACKET_def SIZEOF_ETH_HDR_def)
qed

lemma hosts_hwaddr [simp]: "length (ni_hwaddr host1) = 6" "length (ni_hwaddr host9) = 6" "length ethbroadcast = 6" "length ethzero = 6"
  by (simp_all add: host1_def host9_def demo_netif_def ethbroadcast_def ethzero_def)

lemma request_at_host1:
  "arp_arrives 0x500 0x20000 (ni_hwaddr host9) ethbroadcast ARP_REQUEST (ni_hwaddr host9) (ni_ip_addr host9) ethzero
     (arp_kernel host1 host9 ARP_REQUEST ethbroadcast ethzero)"
  by (rule arp_kernel_arrives) (simp_all add: hosts_unicast, simp add: host1_def demo_netif_def IPADDR_ANY_def)

lemma reply_at_host9:
  "arp_arrives 0x500 0x20000 (ni_hwaddr host1) (ni_hwaddr host9) ARP_REPLY (ni_hwaddr host1) (ni_ip_addr host1) (ni_hwaddr host9)
     (arp_kernel host9 host1 ARP_REPLY (ni_hwaddr host9) (ni_hwaddr host9))"
  by (rule arp_kernel_arrives) (simp_all add: hosts_unicast, simp add: host9_def demo_netif_def IPADDR_ANY_def)

lemma demo_quiet: "arp_quiet demo_netenv"
  by (simp add: arp_quiet_def demo_netenv_def keeps_def)

text \<open>
  C32. The ARP table stays well formed as long as its calls are not interleaved with one another (\<open>arp_quiet\<close>, which lwIP demands and this port does not ensure). In every state that is then reached from
  the empty table by timer calls, received ARP packets, packets and queries sent, interfaces taken down, and whatever the
  rest of the system does without writing the table: a packet waits only on a pending entry; a pending entry is younger than 2 timer periods, every entry in use younger than 240; no two
  entries in use have the same address, and none has the unspecified address, the one with all bits set or a multicast address; an entry with a known Ethernet address has six bytes of it; the hint is an index of the
  table.
\<close>

theorem arp_table_invariant:
  assumes "arp_quiet e" and "arp_reaches e s"
  shows "arp_ok (arp_view s)"
  using assms(2,1) by (rule reaches_ok)

theorem arp_table_invariant_witness:
  "\<exists>s. etharp_arp_input demo_netenv 0x500 (ni_hwaddr host1) 0x20000 (arp_kernel host1 host9 ARP_REQUEST ethbroadcast ethzero) = Some s \<and>
     arp_table s \<noteq> (\<lambda>_. blank_entry) \<and> arp_ok (arp_view s)"
proof -
  let ?k = "arp_kernel host1 host9 ARP_REQUEST ethbroadcast ethzero"
  from arrives_request [OF arp_kernel_idle request_at_host1, of "ni_hwaddr host1" demo_netenv] obtain t m where
    t: "arp_map t (ni_ip_addr host9) = Some (ni_hwaddr host9)" "etharp_arp_input demo_netenv 0x500 (ni_hwaddr host1) 0x20000 ?k =
      do { (r, s) \<leftarrow> link_call demo_netenv (ni_linkoutput (netifs ?k 0x500)) 0x500 0x20000 (?k\<lparr>arp_table := t, mem8 := m\<rparr>);
           (c, s) \<leftarrow> pfree demo_netenv 0x20000 s; Some s }" by auto
  have "pfree demo_netenv 0x20000 (?k\<lparr>arp_table := t, mem8 := m\<rparr>) = Some (0, upd_pbuf 0x20000 (\<lambda>x. x\<lparr>pb_ref := 1\<rparr>) (?k\<lparr>arp_table := t, mem8 := m\<rparr>))"
    by (simp add: pbuf_free_def pbuf_free_loop.simps [of _ _ "0x20000"] NULL_def upd_pbuf_def arp_kernel_facts demo_arp_packet_def Let_def)
  with t(2) obtain s where s: "etharp_arp_input demo_netenv 0x500 (ni_hwaddr host1) 0x20000 ?k = Some s" "arp_table s = t"
    by (simp add: demo_netenv_def upd_pbuf_def)
  have "arp_map (\<lambda>_. blank_entry) (ni_ip_addr host9) = None" by (intro arp_map_None) (simp add: blank_entry_def)
  then have "t \<noteq> (\<lambda>_. blank_entry)" using t(1) by auto
  moreover have "arp_reaches demo_netenv ?k" by (rule start) (simp_all add: arp_kernel_facts blank_entry_def)
  then have "arp_reaches demo_netenv s" by (rule event [where ev = "Arp_packet 0x500 0x20000"]) (simp add: arp_kernel_facts s(1))
  ultimately show ?thesis using s arp_table_invariant [OF demo_quiet, of s] by blast
qed

text \<open>
  C33. Which entry a search returns. \<^verbatim>\<open>etharp_find_entry\<close> returns the entry in use with the address; otherwise, unless it may only search, the first empty entry; otherwise, if it may try
  hard, it recycles the oldest stable entry, or if there is none the oldest pending entry without a packet, or the oldest pending entry with a packet, which it releases (of entries of
  the same age the last one); otherwise it returns \<^verbatim>\<open>ERR_MEM\<close> and changes nothing.
\<close>

theorem arp_entry_choice:
  "\<exists>c. chooses (arp_table s) a flags c \<and> etharp_find_entry e (Some a) flags s = chosen e a c s"
  by (rule find_entry_chosen)

text \<open>
  C34. The life of an entry. The timer always returns, and after \<open>k\<close> calls every entry is what \<open>lived k\<close> says: a pending entry is gone at an age of 2 periods, a stable one at 240 (20 minutes), its age has
  grown by \<open>k\<close> until then, a renewed request is allowed again, and the waiting packet of an expired entry is released. The waiting packets may be any chains of buffers from the pools and the heap that do not
  share buffers; the heap is not locked, so that the release of a packet does not wait and the calls of the timer are not interrupted by other users of the table.
\<close>

theorem arp_entry_lifetime:
  assumes "waiting_ok X s" and "arp_ok (arp_view s)"
  shows "\<exists>s'. tmr_run e k s = Some s' \<and> (\<forall>i < ARP_TABLE_SIZE. arp_table s' i = lived k (arp_table s i))"
  by (rule tmr_run_returns [OF assms])

definition known_kernel :: arpkernel where
  "known_kernel = upd_arp 3 (\<lambda>x. x\<lparr>ae_ipaddr := ni_ip_addr host9, ae_ethaddr := ni_hwaddr host9, ae_state := ETHARP_STATE_STABLE, ae_ctime := 5\<rparr>)
     (arp_kernel host1 host9 ARP_REQUEST ethbroadcast ethzero)"

lemma known_kernel_table:
  "arp_table known_kernel = (\<lambda>_. blank_entry)(3 := blank_entry\<lparr>ae_ipaddr := ni_ip_addr host9, ae_ethaddr := ni_hwaddr host9, ae_state := ETHARP_STATE_STABLE, ae_ctime := 5\<rparr>)"
  "etharp_cached_entry known_kernel = 0"
  by (simp_all add: known_kernel_def upd_arp_def arp_kernel_facts)

lemma known_kernel_ok: "arp_ok (arp_view known_kernel)" "\<forall>i < ARP_TABLE_SIZE. ae_q (arp_table known_kernel i) = NULL"
proof -
  have "host_address (ni_ip_addr host9)" using not_broadcast_unicast hosts_unicast(2,3) by blast
  then show "arp_ok (arp_view known_kernel)"
    by (simp add: arp_ok_def arp_view_def known_kernel_table blank_entry_def entry_ok_def ARP_TABLE_SIZE_def ARP_MAXAGE_def)
qed (simp add: known_kernel_table blank_entry_def)

text \<open>The same with a packet of one heap block that waits on entry 5 for 192.168.0.7.\<close>

definition waiting_kernel :: arpkernel where
  "waiting_kernel = upd_arp 5 (\<lambda>x. x\<lparr>ae_q := 0x100c, ae_ipaddr := 0x0700a8c0, ae_state := ETHARP_STATE_PENDING, ae_ctime := 0\<rparr>)
     (known_kernel\<lparr>pbufs := (\<lambda>_. demo_arp_packet\<lparr>pb_ref := 1\<rparr>), heap := (heap known_kernel)\<lparr>heap_mem_begin := 0x1000, heap_mem_end := 0x2000, hused := (\<lambda>_. True)\<rparr>,
        current_thread := NULL\<rparr>)"

lemma waiting_kernel_table:
  "arp_table waiting_kernel = (arp_table known_kernel)(5 := blank_entry\<lparr>ae_q := 0x100c, ae_ipaddr := 0x0700a8c0, ae_state := ETHARP_STATE_PENDING\<rparr>)"
  "etharp_cached_entry waiting_kernel = 0"
  by (simp_all add: waiting_kernel_def upd_arp_def known_kernel_table, simp add: blank_entry_def)

lemma waiting_kernel_ok:
  "arp_ok (arp_view waiting_kernel)" "waiting_ok ((\<lambda>_. [])(5 := [0x100c])) waiting_kernel"
proof -
  have "host_address (ni_ip_addr host9)" using not_broadcast_unicast hosts_unicast(2,3) by blast
  moreover have "host_address 0x0700a8c0" by (simp add: host_address_def IPADDR_ANY_def ip_addr_ismulticast_def lwip_htonl_def)
  moreover have "ni_ip_addr host9 \<noteq> 0x0700a8c0" by (simp add: host9_def demo_netif_def)
  ultimately show "arp_ok (arp_view waiting_kernel)"
    by (auto simp: arp_ok_def arp_view_def waiting_kernel_table known_kernel_table blank_entry_def entry_ok_def ARP_TABLE_SIZE_def ARP_MAXAGE_def ARP_MAXPENDING_def)
  have "releasable 0x100c waiting_kernel"
    by (simp add: releasable_def waiting_kernel_def upd_arp_def demo_arp_packet_def ALIGN_def HW_ALIGN_SIZE_def)
  moreover have "pchain (pbufs waiting_kernel) 0x100c [0x100c]"
    by (simp add: waiting_kernel_def upd_arp_def demo_arp_packet_def NULL_def)
  moreover have "heap_idle waiting_kernel" by (simp add: mutex_idle_def waiting_kernel_def upd_arp_def)
  ultimately show "waiting_ok ((\<lambda>_. [])(5 := [0x100c])) waiting_kernel"
    by (auto simp: waiting_ok_def waiting_kernel_table known_kernel_table blank_entry_def)
qed

theorem arp_entry_lifetime_witness:
  "(\<exists>s. tmr_run demo_netenv 1 waiting_kernel = Some s \<and> ae_q (arp_table s 5) = 0x100c) \<and>
   (\<exists>s. tmr_run demo_netenv 2 waiting_kernel = Some s \<and> ae_q (arp_table s 5) = NULL \<and> ae_state (arp_table s 5) = ETHARP_STATE_EMPTY) \<and>
   (\<exists>s. tmr_run demo_netenv 234 waiting_kernel = Some s \<and> arp_table s 3 = (arp_table known_kernel 3)\<lparr>ae_ctime := 239\<rparr>) \<and>
   (\<exists>s. tmr_run demo_netenv 235 waiting_kernel = Some s \<and> ae_state (arp_table s 3) = ETHARP_STATE_EMPTY)"
proof -
  have "\<exists>s. tmr_run demo_netenv k waiting_kernel = Some s \<and> arp_table s i = lived k (arp_table waiting_kernel i)" if "i < 10" for k i
    using arp_entry_lifetime [OF waiting_kernel_ok(2,1), of demo_netenv k] that by (auto simp: ARP_TABLE_SIZE_def)
  note l = this [of 5 1] this [of 5 2] this [of 3 234] this [of 3 235]
  have "ae_q (lived 1 (arp_table waiting_kernel 5)) = 0x100c" "ae_q (lived 2 (arp_table waiting_kernel 5)) = NULL"
    "ae_state (lived 2 (arp_table waiting_kernel 5)) = ETHARP_STATE_EMPTY"
    "lived 234 (arp_table waiting_kernel 3) = (arp_table known_kernel 3)\<lparr>ae_ctime := 239\<rparr>"
    "ae_state (lived 235 (arp_table waiting_kernel 3)) = ETHARP_STATE_EMPTY"
    by (simp_all add: waiting_kernel_table known_kernel_table lived_def life_limit_def blank_entry_def)
  then show ?thesis using l by simp metis
qed

text \<open>
  C35. The table implements a map from IP to Ethernet addresses. A successful \<^verbatim>\<open>etharp_update_arp_entry\<close> binds the address and changes no other binding, except that the one of the entry
  it recycles is lost when the table is full; a failed one changes nothing. Nothing else writes the table during the call (\<open>arp_quiet\<close>). Afterwards \<^verbatim>\<open>etharp_find_addr\<close> of any address returns its binding, and \<open>-1\<close> without one.
\<close>

theorem arp_refines_map:
  assumes "arp_quiet e" and "arp_ok (arp_view s)" and "length eth = 6" and "etharp_update_arp_entry e n a eth flags s = Some (r, s')"
  shows "(if r = ERR_OK
          then \<exists>lost. arp_map (arp_table s') = (arp_map (arp_table s) |` (- lost))(a \<mapsto> eth) \<and>
                 (lost = {} \<or> (\<exists>i. lost = {ae_ipaddr (arp_table s i)} \<and> chooses (arp_table s) a flags (Evict i)))
          else s' = s) \<and>
    (\<forall>b. \<exists>i. etharp_find_addr e (Some b) s' = Some (case arp_map (arp_table s') b of Some x \<Rightarrow> (int i, Some (x, b), s') | None \<Rightarrow> (- 1, None, s')))"
proof -
  have pick: "if r = ERR_OK
          then \<exists>lost. arp_map (arp_table s') = (arp_map (arp_table s) |` (- lost))(a \<mapsto> eth) \<and>
                 (lost = {} \<or> (\<exists>i. lost = {ae_ipaddr (arp_table s i)} \<and> chooses (arp_table s) a flags (Evict i)))
          else s' = s" if "r = ERR_OK" "arp_map (arp_table s') = (arp_map (arp_table s) |` (- lost))(a \<mapsto> eth)"
      "lost = {} \<or> (\<exists>i. lost = {ae_ipaddr (arp_table s i)} \<and> chooses (arp_table s) a flags (Evict i))" for lost
    unfolding that(1) if_P [OF refl] by (rule exI [of _ lost], rule conjI [OF that(2,3)])
  have ok': "arp_ok (arp_view s')" using update_ok [OF assms] .
  from update_view [OF assms(1,2,4)] have "if r = ERR_OK
          then \<exists>lost. arp_map (arp_table s') = (arp_map (arp_table s) |` (- lost))(a \<mapsto> eth) \<and>
                 (lost = {} \<or> (\<exists>i. lost = {ae_ipaddr (arp_table s i)} \<and> chooses (arp_table s) a flags (Evict i)))
          else s' = s"
  proof (elim disjE conjE exE)
    fix i
    assume r: "r = ERR_OK" and u: "host_address a" and i: "i < ARP_TABLE_SIZE" and h: "hit (arp_table s) a i"
      and v: "arp_view s' = ((arp_table s)(i := resolved n a eth (arp_table s i)), etharp_cached_entry s)"
    have t: "arp_table s' = (arp_table s)(i := resolved n a eth (arp_table s i))" using v by (simp add: arp_view_def)
    have "arp_map (arp_table s') = (arp_map (arp_table s) |` (- {a}))(a \<mapsto> eth)"
      unfolding t using arp_map_resolved [OF arp_okD [OF assms(2)] i, of a n eth] ok' v h by (simp add: hit_def)
    then have "arp_map (arp_table s') = (arp_map (arp_table s) |` (- {}))(a \<mapsto> eth)" by (auto simp: restrict_map_def)
    then show ?thesis using r by (intro pick [of "{}"] disjI1 refl)
  next
    fix i
    assume r: "r = ERR_OK" and u: "host_address a" and i: "i < ARP_TABLE_SIZE" and h: "takes (arp_table s) a flags i"
      and v: "arp_view s' = ((arp_table s)(i := resolved n a eth (arp_table s i)), etharp_cached_entry s)"
    have t: "arp_table s' = (arp_table s)(i := resolved n a eth (arp_table s i))" using v by (simp add: arp_view_def)
    have m: "arp_map (arp_table s') = (arp_map (arp_table s) |` (- (if used (arp_table s i) then {ae_ipaddr (arp_table s i)} else {})))(a \<mapsto> eth)"
      unfolding t using arp_map_resolved [OF arp_okD [OF assms(2)] i, of a n eth] ok' v takes_miss [OF h] by simp
    have e: "used (arp_table s i) \<Longrightarrow> chooses (arp_table s) a flags (Evict i)" using h by (auto simp: takes_def chooses_def)
    let ?lost = "if used (arp_table s i) then {ae_ipaddr (arp_table s i)} else {}"
    have "?lost = {} \<or> (\<exists>i. ?lost = {ae_ipaddr (arp_table s i)} \<and> chooses (arp_table s) a flags (Evict i))"
      by (cases "used (arp_table s i)") (use e in auto)
    then show ?thesis using r m by (intro pick [of ?lost])
  qed simp
  then show ?thesis using find_addr_map [OF ok'] by blast
qed

theorem arp_refines_map_witness:
  "\<exists>s. etharp_update_arp_entry demo_netenv 0x500 (ni_ip_addr host9) (ni_hwaddr host1) ETHARP_FLAG_TRY_HARD known_kernel = Some (ERR_OK, s) \<and>
     arp_map (arp_table s) (ni_ip_addr host9) = Some (ni_hwaddr host1)"
proof -
  have n: "netifs known_kernel 0x500 = host1" by (simp add: known_kernel_def upd_arp_def arp_kernel_facts)
  obtain s where s: "etharp_update_arp_entry demo_netenv 0x500 (ni_ip_addr host9) (ni_hwaddr host1) ETHARP_FLAG_TRY_HARD known_kernel = Some (ERR_OK, s)"
    using update_idle [OF known_kernel_ok(1) _ _ _ refl, of "ni_ip_addr host9" "0x500" demo_netenv "ni_hwaddr host1"] known_kernel_ok(2) hosts_unicast n
    by auto
  from arp_refines_map [OF demo_quiet known_kernel_ok(1) _ s] show ?thesis using s by auto
qed



end
