(* ===== verification/Udp_Runs.thy ===== *)
theory Udp_Runs
  imports Udp_Ports Arp_Exchange "HOL-Library.Multiset"
begin

text \<open>
  Runs of UDP: the choice of the block for a datagram, what holds after any sequence of calls and datagrams, and that every call returns.
\<close>

section \<open>The receiver of a datagram\<close>

text \<open>A block fits a datagram exactly if it is connected to the sender, and loosely if it is connected to nobody.\<close>

definition fits_exactly :: "os_u16 \<Rightarrow> os_u16 \<Rightarrow> bool \<Rightarrow> netif \<Rightarrow> 'a ipkernel_scheme \<Rightarrow> addr \<Rightarrow> bool" where
  "fits_exactly src dest broadcast inp s p \<longleftrightarrow>
     udp_local_match (udp_store s p) dest broadcast (current_iphdr_dest s) inp \<and> udp_remote_match (udp_store s p) src (current_iphdr_src s)"

definition fits_loosely :: "os_u16 \<Rightarrow> bool \<Rightarrow> netif \<Rightarrow> 'a ipkernel_scheme \<Rightarrow> addr \<Rightarrow> bool" where
  "fits_loosely dest broadcast inp s p \<longleftrightarrow>
     udp_local_match (udp_store s p) dest broadcast (current_iphdr_dest s) inp \<and> up_flags (udp_store s p) AND UDP_FLAGS_CONNECTED = 0"

definition found :: "addr option \<Rightarrow> addr" where
  "found r = (case r of None \<Rightarrow> NULL | Some p \<Rightarrow> p)"

lemma match_loop_list:
  assumes "lchain (nexts s) (udp_pcbs s) (us @ vs)" and "lchain (nexts s) a vs"
  shows "case find (fits_exactly src dest bc inp s) vs of
      None \<Rightarrow> udp_match_loop src dest bc inp a (if us = [] then NULL else last us) u s =
        Some (if u \<noteq> NULL then u else found (find (fits_loosely dest bc inp s) vs), s)
    | Some p \<Rightarrow> \<exists>s'. udp_match_loop src dest bc inp a (if us = [] then NULL else last us) u s = Some (p, s') \<and> relinked s s' \<and>
        (p \<notin> set us \<longrightarrow> lchain (nexts s') (udp_pcbs s') (p # remove1 p (us @ vs)))"
  using assms
proof (induction vs arbitrary: us a u)
  case Nil
  then show ?case by (subst udp_match_loop.simps) (simp add: found_def)
next
  case (Cons v vs)
  let ?prev = "if us = [] then NULL else last us"
  have v: "a = v" "v \<noteq> NULL" "lchain (nexts s) (nexts s v) vs" using Cons.prems(2) by auto
  have d: "distinct (us @ v # vs)" using lchain_distinct [OF Cons.prems(1)] .
  show ?case
  proof (cases "fits_exactly src dest bc inp s v")
    case True
    let ?s = "upd_udp v (\<lambda>y. y\<lparr>up_next := udp_pcbs s\<rparr>) (upd_udp ?prev (\<lambda>y. y\<lparr>up_next := nexts s v\<rparr>) s)"
    have step: "udp_match_loop src dest bc inp a ?prev u s = Some (v, if ?prev \<noteq> NULL then ?s\<lparr>udp_pcbs := v\<rparr> else s)"
      using True v(1,2) by (subst udp_match_loop.simps) (simp add: Let_def fits_exactly_def nexts_def upd_udp_def)
    show ?thesis
    proof (cases "us = []")
      case empty_us: True
      then show ?thesis using step True Cons.prems(1) by (simp add: relinked_refl)
    next
      case False
      then obtain us' q where us: "us = us' @ [q]" by (metis rev_exhaust)
      have c: "lchain (nexts s) (udp_pcbs s) (us' @ q # v # vs)" using Cons.prems(1) us by simp
      have "q \<noteq> NULL" "q \<noteq> v" using lchain_not_NULL [OF c] lchain_distinct [OF c] by auto
      moreover have "lchain ((nexts s)(q := nexts s v, v := udp_pcbs s)) v (v # us' @ q # vs)" by (rule lchain_to_front [OF c])
      moreover have "remove1 v (us @ v # vs) = us' @ q # vs" using d us by (simp add: remove1_append)
      ultimately show ?thesis using step True us d
        by (auto simp: nexts_upd intro!: relinked_head relinked_next relinked_refl)
    qed
  next
    case False
    let ?u = "if u = NULL \<and> fits_loosely dest bc inp s v then v else u"
    have step: "udp_match_loop src dest bc inp a ?prev u s = udp_match_loop src dest bc inp (nexts s v) v ?u s"
      using False v(1,2) by (subst udp_match_loop.simps) (auto simp add: Let_def fits_exactly_def fits_loosely_def nexts_def)
    have "lchain (nexts s) (udp_pcbs s) ((us @ [v]) @ vs)" using Cons.prems(1) by simp
    note IH = Cons.IH [OF this v(3), of ?u]
    show ?thesis
    proof (cases "find (fits_exactly src dest bc inp s) vs")
      case None
      then show ?thesis using IH step False v(2) by (auto simp: found_def)
    next
      case (Some p)
      then have "p \<noteq> v" using d by (auto simp: find_Some_iff in_set_conv_nth)
      then show ?thesis using IH step False Some by auto
    qed
  qed
qed

lemma demux_list:
  assumes "lchain (nexts s) (udp_pcbs s) ps" and "dest \<noteq> DHCP_CLIENT_PORT"
  shows "case find (fits_exactly src dest bc (netifs s inp) s) ps of
      None \<Rightarrow> udp_demux dp src dest bc inp s = Some (found (find (fits_loosely dest bc (netifs s inp) s) ps), s)
    | Some p \<Rightarrow> \<exists>s'. udp_demux dp src dest bc inp s = Some (p, s') \<and> relinked s s' \<and> lchain (nexts s') (udp_pcbs s') (p # remove1 p ps)"
  using match_loop_list [of s "[]" ps "udp_pcbs s" src dest bc "netifs s inp" NULL] assms by (simp add: udp_demux_def split: option.splits)

lemma datagram_ok:
  assumes ok: "udp_ok owned ps fs s"
  shows "\<exists>r s'. udp_demux dp src dest bc inp s = Some (r, s') \<and> (\<exists>ps'. udp_ok owned ps' fs s')"
proof (cases "dest = DHCP_CLIENT_PORT")
  case True
  then show ?thesis using ok by (auto simp: udp_demux_def Let_def)
next
  case False
  have ch: "lchain (nexts s) (udp_pcbs s) ps" using ok by (simp add: udp_ok_def)
  show ?thesis
  proof (cases "find (fits_exactly src dest bc (netifs s inp) s) ps")
    case None
    then show ?thesis using demux_list [OF ch False, of dp src bc inp] ok by auto
  next
    case (Some p)
    then obtain s' where s': "udp_demux dp src dest bc inp s = Some (p, s')" "relinked s s'" "lchain (nexts s') (udp_pcbs s') (p # remove1 p ps)"
      using demux_list [OF ch False, of dp src bc inp] by auto
    have "p \<in> set ps" using Some by (auto simp: find_Some_iff)
    then have "set (p # remove1 p ps) = set ps \<inter> owned" using lchain_distinct [OF ch] ok by (auto simp: udp_ok_def)
    then have "udp_ok owned (p # remove1 p ps) fs s'" by (intro udp_ok_relink [OF ok s'(2,3)]) simp_all
    then show ?thesis using s'(1) by blast
  qed
qed

lemma find_only:
  assumes "p \<in> set ps" and "\<And>q. P q \<Longrightarrow> q \<in> set ps \<Longrightarrow> q = p"
  shows "find P ps = (if P p then Some p else None)"
proof (cases "find P ps")
  case None
  then show ?thesis using assms(1) by (auto simp: find_None_iff)
next
  case (Some q)
  then have "P q" "q \<in> set ps" by (auto simp: find_Some_iff)
  then show ?thesis using Some assms(2) by auto
qed

section \<open>Runs\<close>

text \<open>
  A program may call the operations on the blocks it owns; datagrams arrive in between, with the addresses that \<^verbatim>\<open>ip_input\<close> has taken from them.
\<close>

datatype udp_call =
    Udp_new
  | Udp_bind addr "os_u32 option" os_u16
  | Udp_connect addr "os_u32 option" os_u16
  | Udp_disconnect addr
  | Udp_recv addr addr addr
  | Udp_remove addr
  | Udp_datagram os_u32 os_u32 os_u16 os_u16 bool addr

fun udp_step :: "(addr \<Rightarrow> 'a ipkernel_scheme \<Rightarrow> addr) \<Rightarrow> udp_call \<Rightarrow> addr set \<Rightarrow> 'a ipkernel_scheme \<Rightarrow> (addr set \<times> 'a ipkernel_scheme) option" where
  "udp_step dp Udp_new owned s = (case udp_new s of (p, s) \<Rightarrow> Some (if p = NULL then owned else insert p owned, s))"
| "udp_step dp (Udp_bind p a port) owned s = do { (r, s) \<leftarrow> udp_bind p a port s; Some (owned, s) }"
| "udp_step dp (Udp_connect p a port) owned s = do { (r, s) \<leftarrow> udp_connect p a port s; Some (owned, s) }"
| "udp_step dp (Udp_disconnect p) owned s = Some (owned, udp_disconnect p s)"
| "udp_step dp (Udp_recv p f x) owned s = Some (owned, udp_recv p f x s)"
| "udp_step dp (Udp_remove p) owned s = do { s \<leftarrow> udp_remove p s; Some (owned - {p}, s) }"
| "udp_step dp (Udp_datagram a b src dest bc inp) owned s =
     do { (p, s) \<leftarrow> udp_demux dp src dest bc inp (s\<lparr>current_iphdr_src := a, current_iphdr_dest := b\<rparr>); Some (owned, s) }"

fun udp_allowed :: "addr set \<Rightarrow> udp_call \<Rightarrow> bool" where
  "udp_allowed owned (Udp_bind p a port) \<longleftrightarrow> p \<in> owned"
| "udp_allowed owned (Udp_connect p a port) \<longleftrightarrow> p \<in> owned"
| "udp_allowed owned (Udp_disconnect p) \<longleftrightarrow> p \<in> owned"
| "udp_allowed owned (Udp_recv p f x) \<longleftrightarrow> p \<in> owned"
| "udp_allowed owned (Udp_remove p) \<longleftrightarrow> p \<in> owned"
| "udp_allowed owned c \<longleftrightarrow> True"

inductive udp_reaches :: "(addr \<Rightarrow> 'a ipkernel_scheme \<Rightarrow> addr) \<Rightarrow> addr set \<Rightarrow> 'a ipkernel_scheme \<Rightarrow> bool" for dp where
  udp_start: "udp_pcbs s = NULL \<Longrightarrow> udp_port s = UDP_LOCAL_PORT_RANGE_START \<Longrightarrow> lchain (frees s) (memp_tab s MEMP_UDP_PCB) fs \<Longrightarrow>
     length fs \<le> MEMP_NUM_UDP_PCB \<Longrightarrow> udp_reaches dp {} s"
| udp_call: "udp_reaches dp owned s \<Longrightarrow> udp_allowed owned c \<Longrightarrow> udp_step dp c owned s = Some (owned', s') \<Longrightarrow> udp_reaches dp owned' s'"

lemma udp_ok_current: "udp_ok owned ps fs (s\<lparr>current_iphdr_src := a, current_iphdr_dest := b\<rparr>) = udp_ok owned ps fs s"
proof -
  have "nexts (s\<lparr>current_iphdr_src := a, current_iphdr_dest := b\<rparr>) = nexts s" "frees (s\<lparr>current_iphdr_src := a, current_iphdr_dest := b\<rparr>) = frees s"
    by (simp_all add: fun_eq_iff nexts_def frees_def)
  then show ?thesis by (simp add: udp_ok_def)
qed

lemma udp_step_ok:
  assumes "udp_ok owned ps fs s" and "udp_allowed owned c"
  shows "\<exists>owned' s'. udp_step dp c owned s = Some (owned', s') \<and> (\<exists>ps' fs'. udp_ok owned' ps' fs' s')"
proof (cases c)
  case Udp_new
  obtain p s' where n: "udp_new s = (p, s')" by fastforce
  show ?thesis
  proof (cases "fs = []")
    case True
    then show ?thesis using new_ok [OF assms(1)] assms(1) n Udp_new by auto
  next
    case False
    then have "p \<noteq> NULL \<and> udp_ok (insert p owned) ps (tl fs) s'" using new_ok [OF assms(1)] n by auto
    then show ?thesis using n Udp_new by auto
  qed
next
  case (Udp_bind p a port)
  then have "p \<in> owned" using assms(2) by simp
  from bind_ok [OF assms(1) this, of a port] obtain r s' ps' where "udp_bind p a port s = Some (r, s')" "udp_ok owned ps' fs s'" by blast
  then show ?thesis using Udp_bind by (intro exI [of _ owned] exI [of _ s'] conjI exI [of _ ps'] exI [of _ fs]) simp_all
next
  case (Udp_connect p a port)
  then have "p \<in> owned" using assms(2) by simp
  from connect_ok [OF assms(1) this, of a port] obtain r s' ps' where "udp_connect p a port s = Some (r, s')" "udp_ok owned ps' fs s'" by blast
  then show ?thesis using Udp_connect by (intro exI [of _ owned] exI [of _ s'] conjI exI [of _ ps'] exI [of _ fs]) simp_all
next
  case (Udp_disconnect p)
  have "udp_ok owned ps fs (udp_disconnect p s)" unfolding udp_disconnect_def by (rule touch_ok [OF assms(1)]) simp_all
  then show ?thesis using Udp_disconnect by auto
next
  case (Udp_recv p f x)
  have "udp_ok owned ps fs (udp_recv p f x s)" unfolding udp_recv_def by (rule touch_ok [OF assms(1)]) simp_all
  then show ?thesis using Udp_recv by auto
next
  case (Udp_remove p)
  then have "p \<in> owned" using assms(2) by simp
  from remove_ok [OF assms(1) this] obtain s' where "udp_remove p s = Some s'" "udp_ok (owned - {p}) (remove1 p ps) (p # fs) s'" by blast
  then show ?thesis using Udp_remove by (intro exI [of _ "owned - {p}"] exI [of _ s'] conjI exI [of _ "remove1 p ps"] exI [of _ "p # fs"]) simp_all
next
  case (Udp_datagram a b src dest bc inp)
  have "udp_ok owned ps fs (s\<lparr>current_iphdr_src := a, current_iphdr_dest := b\<rparr>)" using assms(1) by (simp add: udp_ok_current)
  from datagram_ok [OF this, of dp src dest bc inp] obtain r s' ps' where
    "udp_demux dp src dest bc inp (s\<lparr>current_iphdr_src := a, current_iphdr_dest := b\<rparr>) = Some (r, s')" "udp_ok owned ps' fs s'" by blast
  then show ?thesis using Udp_datagram by (intro exI [of _ owned] exI [of _ s'] conjI exI [of _ ps'] exI [of _ fs]) simp_all
qed

lemma udp_reaches_ok: "udp_reaches dp owned s \<Longrightarrow> \<exists>ps fs. udp_ok owned ps fs s"
proof (induction rule: udp_reaches.induct)
  case (udp_start s fs)
  then have "udp_ok {} [] fs s" by (simp add: udp_ok_def)
  then show ?case by blast
next
  case (udp_call owned s c owned' s')
  then obtain ps fs where "udp_ok owned ps fs s" by blast
  from udp_step_ok [OF this udp_call(2), of dp] udp_call(3) show ?case by auto
qed

section \<open>Properties\<close>

text \<open>The state at the start, with two blocks in the pool.\<close>

definition udp_kernel :: ipkernel where
  "udp_kernel = arpkernel.extend
     ((arp_kernel host1 host9 ARP_REQUEST ethbroadcast ethzero)\<lparr>pbufs := (\<lambda>a. demo_arp_packet\<lparr>pb_next := if a = 0x9000 then 0x9100 else NULL\<rparr>),
        memp_tab := (\<lambda>_. 0x9000)\<rparr>)
     (ipkernel.fields NULL NULL 0 0 0 (\<lambda>_. udp_zero) NULL UDP_LOCAL_PORT_RANGE_START)"

lemma udp_kernel_facts:
  "udp_pcbs udp_kernel = NULL" "udp_port udp_kernel = UDP_LOCAL_PORT_RANGE_START" "memp_tab udp_kernel MEMP_UDP_PCB = 0x9000"
  "frees udp_kernel = (\<lambda>a. if a = 0x9000 then 0x9100 else NULL)" "udp_store udp_kernel = (\<lambda>_. udp_zero)"
  by (simp_all add: udp_kernel_def arpkernel.defs ipkernel.defs frees_def fun_eq_iff)

lemma udp_kernel_reaches: "udp_reaches dp {} udp_kernel"
  by (rule udp_start [where fs = "[0x9000, 0x9100]"]) (simp_all add: udp_kernel_facts NULL_def MEMP_NUM_UDP_PCB_def)

definition udp_kernel1 :: ipkernel where
  "udp_kernel1 = snd (udp_new udp_kernel)"

lemma udp_kernel1_reaches: "udp_reaches dp {0x9000} udp_kernel1"
proof (rule udp_call [OF udp_kernel_reaches, where c = Udp_new])
  have "fst (udp_new udp_kernel) = 0x9000"
    by (simp add: udp_new_def memp_malloc_def MEMP_MAX_def MEMP_UDP_PCB_def udp_kernel_facts(3) [unfolded MEMP_UDP_PCB_def One_nat_def] NULL_def Let_def)
  then show "udp_step dp Udp_new {} udp_kernel = Some ({0x9000}, udp_kernel1)" by (cases "udp_new udp_kernel") (simp add: udp_kernel1_def NULL_def)
qed simp

text \<open>
  C37. UDP ports are exclusive and no call hangs. After any sequence of \<^verbatim>\<open>udp_new\<close>, \<^verbatim>\<open>udp_bind\<close>, \<^verbatim>\<open>udp_connect\<close>, \<^verbatim>\<open>udp_disconnect\<close>, \<^verbatim>\<open>udp_recv\<close>, \<^verbatim>\<open>udp_remove\<close> and received datagrams,
  the list holds each block with a port once and nothing else; two different blocks with the same local port are bound to two different addresses, neither of them the unspecified one; and each next
  call returns, in particular the search for a free port.
\<close>

theorem udp_ports_exclusive:
  assumes "udp_reaches dp owned s"
  shows "(\<exists>ps. lchain (nexts s) (udp_pcbs s) ps \<and> distinct ps \<and> set ps = {p \<in> owned. up_local_port (udp_store s p) \<noteq> 0}) \<and>
    (\<forall>p \<in> owned. \<forall>q \<in> owned. p \<noteq> q \<and> up_local_port (udp_store s p) = up_local_port (udp_store s q) \<and> up_local_port (udp_store s p) \<noteq> 0 \<longrightarrow>
       up_local_ip (udp_store s p) \<noteq> IPADDR_ANY \<and> up_local_ip (udp_store s q) \<noteq> IPADDR_ANY \<and> up_local_ip (udp_store s p) \<noteq> up_local_ip (udp_store s q)) \<and>
    (\<forall>c. udp_allowed owned c \<longrightarrow> (\<exists>owned' s'. udp_step dp c owned s = Some (owned', s')))"
proof -
  obtain ps fs where ok: "udp_ok owned ps fs s" using udp_reaches_ok [OF assms] by blast
  have "lchain (nexts s) (udp_pcbs s) ps" "set ps = {p \<in> owned. up_local_port (udp_store s p) \<noteq> 0}" using ok by (auto simp: udp_ok_def)
  moreover have "\<not> clash (udp_store s p) (udp_store s q)" if "p \<in> set ps" "q \<in> set ps" "p \<noteq> q" for p q using ok that by (simp add: udp_ok_def)
  ultimately have l: "lchain (nexts s) (udp_pcbs s) ps" "set ps = {p \<in> owned. up_local_port (udp_store s p) \<noteq> 0}"
    and c: "\<And>p q. p \<in> set ps \<Longrightarrow> q \<in> set ps \<Longrightarrow> p \<noteq> q \<Longrightarrow> \<not> clash (udp_store s p) (udp_store s q)" by blast+
  show ?thesis
  proof (intro conjI ballI allI impI)
    show "\<exists>ps. lchain (nexts s) (udp_pcbs s) ps \<and> distinct ps \<and> set ps = {p \<in> owned. up_local_port (udp_store s p) \<noteq> 0}"
      using l lchain_distinct by blast
  next
    fix p q
    assume "p \<in> owned" "q \<in> owned" and pq: "p \<noteq> q \<and> up_local_port (udp_store s p) = up_local_port (udp_store s q) \<and> up_local_port (udp_store s p) \<noteq> 0"
    then have "\<not> clash (udp_store s p) (udp_store s q)" by (intro c) (auto simp: l(2))
    then show "up_local_ip (udp_store s p) \<noteq> IPADDR_ANY" "up_local_ip (udp_store s q) \<noteq> IPADDR_ANY" "up_local_ip (udp_store s p) \<noteq> up_local_ip (udp_store s q)"
      using pq by (auto simp: clash_def)
  next
    fix c
    assume "udp_allowed owned c"
    from udp_step_ok [OF ok this, of dp] show "\<exists>owned' s'. udp_step dp c owned s = Some (owned', s')" by blast
  qed
qed

theorem udp_ports_exclusive_witness:
  "\<exists>owned s. udp_step (\<lambda>_ _. NULL) (Udp_bind 0x9000 None 0) {0x9000} udp_kernel1 = Some (owned, s)"
proof -
  have "udp_allowed {0x9000} (Udp_bind 0x9000 None 0)" by simp
  with udp_ports_exclusive [OF udp_kernel1_reaches, of "\<lambda>_ _. NULL"] show ?thesis by blast
qed

text \<open>
  C38. The receiver of a datagram. For a port other than the DHCP client's the datagram goes to the first block of the list that fits exactly (bound to its destination and connected to its sender), else to the
  first unconnected one bound to its destination, else to none; the list keeps its blocks. For a unicast datagram at most one block is bound to the destination: it gets the datagram unless it is connected to
  somebody else.
\<close>

theorem udp_receiver:
  fixes a b :: os_u32 and src dest :: os_u16 and bc :: bool and inp :: addr
  assumes "udp_reaches dp owned s" and "dest \<noteq> DHCP_CLIENT_PORT"
  defines "t \<equiv> s\<lparr>current_iphdr_src := a, current_iphdr_dest := b\<rparr>" and "exact \<equiv> fits_exactly src dest bc (netifs s inp)" and "loose \<equiv> fits_loosely dest bc (netifs s inp)"
  shows "\<exists>ps r s'. lchain (nexts s) (udp_pcbs s) ps \<and> udp_demux dp src dest bc inp t = Some (r, s') \<and>
      r = (case find (exact t) ps of Some p \<Rightarrow> p | None \<Rightarrow> found (find (loose t) ps)) \<and>
      relinked t s' \<and> (\<exists>ps'. lchain (nexts s') (udp_pcbs s') ps' \<and> mset ps' = mset ps) \<and>
      (\<not> bc \<longrightarrow> (\<forall>p \<in> set ps. udp_local_match (udp_store s p) dest bc b (netifs s inp) \<longrightarrow> r = (if exact t p \<or> loose t p then p else NULL)))"
proof -
  obtain ps fs where ok: "udp_ok owned ps fs s" using udp_reaches_ok [OF assms(1)] by blast
  have ch: "lchain (nexts s) (udp_pcbs s) ps" using ok by (simp add: udp_ok_def)
  have t: "nexts t = nexts s" "udp_pcbs t = udp_pcbs s" "netifs t = netifs s" "udp_store t = udp_store s" "current_iphdr_dest t = b"
    by (simp_all add: t_def nexts_def fun_eq_iff)
  have cht: "lchain (nexts t) (udp_pcbs t) ps" using ch t by simp
  define r where "r = (case find (exact t) ps of Some p \<Rightarrow> p | None \<Rightarrow> found (find (loose t) ps))"
  obtain s' where "udp_demux dp src dest bc inp t = Some (r, s')" "relinked t s'" "\<exists>ps'. lchain (nexts s') (udp_pcbs s') ps' \<and> mset ps' = mset ps"
  proof (cases "find (exact t) ps")
    case None
    then have "udp_demux dp src dest bc inp t = Some (r, t)" using demux_list [OF cht assms(2), of dp src bc inp] by (simp add: r_def exact_def loose_def t)
    then show ?thesis using that relinked_refl cht by blast
  next
    case (Some p)
    then obtain s' where s': "udp_demux dp src dest bc inp t = Some (p, s')" "relinked t s'" "lchain (nexts s') (udp_pcbs s') (p # remove1 p ps)"
      using demux_list [OF cht assms(2), of dp src bc inp] by (auto simp: exact_def t)
    have "p \<in> set ps" using Some by (auto simp: find_Some_iff)
    then have "mset (p # remove1 p ps) = mset ps" by simp
    moreover have "r = p" using Some by (simp add: r_def)
    ultimately show ?thesis using that s' by blast
  qed
  moreover have "r = (if exact t p \<or> loose t p then p else NULL)" if p: "\<not> bc" "p \<in> set ps" "udp_local_match (udp_store s p) dest bc b (netifs s inp)" for p
  proof -
    have only: "q = p" if q: "q \<in> set ps" "udp_local_match (udp_store s q) dest bc b (netifs s inp)" for q
    proof (rule ccontr)
      assume "q \<noteq> p"
      then have "\<not> clash (udp_store s p) (udp_store s q)" using ok p(2) q(1) by (simp add: udp_ok_def)
      then show False using p(1,3) q(2) by (auto simp: clash_def udp_local_match_def ip_addr_isany_def)
    qed
    have e: "exact t q \<Longrightarrow> q \<in> set ps \<Longrightarrow> q = p" "loose t q \<Longrightarrow> q \<in> set ps \<Longrightarrow> q = p" for q
      using only by (auto simp: exact_def loose_def fits_exactly_def fits_loosely_def t)
    then have "find (exact t) ps = (if exact t p then Some p else None)" "find (loose t) ps = (if loose t p then Some p else None)"
      by (intro find_only p(2); blast)+
    then show ?thesis by (simp add: r_def found_def)
  qed
  ultimately show ?thesis using ch r_def by (intro exI [of _ ps] exI [of _ r] exI [of _ s']) simp
qed

text \<open>The kernel with one block bound to every address and port 7, and a datagram for this port.\<close>

definition udp_kernel2 :: ipkernel where
  "udp_kernel2 = upd_udp 0x9000 (\<lambda>x. x\<lparr>up_local_port := 7, up_next := NULL\<rparr>) udp_kernel1\<lparr>udp_pcbs := 0x9000\<rparr>"

lemma udp_kernel2_bind: "udp_bind 0x9000 None 7 udp_kernel1 = Some (ERR_OK, udp_kernel2)"
proof -
  have k: "udp_pcbs udp_kernel1 = NULL" "udp_store udp_kernel1 0x9000 = udp_zero\<lparr>up_ttl := UDP_TTL\<rparr>"
    by (simp_all add: udp_kernel1_def udp_new_def memp_malloc_def MEMP_MAX_def MEMP_UDP_PCB_def upd_udp_def udp_kernel_facts(1)
      udp_kernel_facts(3) [unfolded MEMP_UDP_PCB_def One_nat_def] NULL_def Let_def)
  then show ?thesis by (simp add: udp_bind_def bind_check.simps [of _ _ _ NULL] udp_kernel2_def upd_udp_def ip_addr_set_def udp_zero_def)
qed

lemma udp_kernel2_reaches: "udp_reaches dp {0x9000} udp_kernel2"
  by (rule udp_call [OF udp_kernel1_reaches, where c = "Udp_bind 0x9000 None 7"]) (simp_all add: udp_kernel2_bind)

lemma udp_kernel2_facts:
  "udp_pcbs udp_kernel2 = 0x9000" "nexts udp_kernel2 0x9000 = NULL" "up_local_port (udp_store udp_kernel2 0x9000) = 7"
  "up_local_ip (udp_store udp_kernel2 0x9000) = 0" "up_flags (udp_store udp_kernel2 0x9000) = 0"
  by (simp_all add: udp_kernel2_def udp_kernel1_def udp_new_def memp_malloc_def MEMP_MAX_def MEMP_UDP_PCB_def upd_udp_def nexts_def udp_zero_def
    udp_kernel_facts(3) [unfolded MEMP_UDP_PCB_def One_nat_def] NULL_def Let_def)

theorem udp_receiver_witness:
  "\<exists>s. udp_demux (\<lambda>_ _. NULL) 1000 7 False 0x500 (udp_kernel2\<lparr>current_iphdr_src := 2, current_iphdr_dest := 1\<rparr>) = Some (0x9000, s)"
proof -
  note k = udp_kernel2_facts
  have m: "udp_local_match (udp_store udp_kernel2 0x9000) 7 False 1 x" for x
    by (simp add: udp_local_match_def k ip_addr_isany_def IPADDR_ANY_def)
  have l: "fits_loosely 7 False x (udp_kernel2\<lparr>current_iphdr_src := 2, current_iphdr_dest := 1\<rparr>) 0x9000" for x
    using m by (simp add: fits_loosely_def k)
  have u: "lchain (nexts udp_kernel2) 0x9000 [0x9000]" using k(2) by (simp add: NULL_def)
  from udp_receiver [where dp = "\<lambda>_ _. NULL" and dest = 7 and a = 2 and b = 1 and src = 1000 and bc = False and inp = "0x500", OF udp_kernel2_reaches] obtain ps r s' where
    r: "lchain (nexts udp_kernel2) 0x9000 ps" "udp_demux (\<lambda>_ _. NULL) 1000 7 False 0x500 (udp_kernel2\<lparr>current_iphdr_src := 2, current_iphdr_dest := 1\<rparr>) = Some (r, s')"
      "0x9000 \<in> set ps \<longrightarrow> r = 0x9000" using m l by (auto simp: k DHCP_CLIENT_PORT_def)
  have "ps = [0x9000]" using lchain_unique [OF r(1) u] .
  then show ?thesis using r by simp
qed

end
