(* ===== verification/Datagram.thy ===== *)
theory Datagram
  imports Ip Udp_Runs
begin

text \<open>
  A datagram on its way from one host to another: what \<^verbatim>\<open>udp_sendto_if\<close> hands to the interface is the packet of RFC 791 and 768, byte for byte; a frame with this packet, padded or not, that reaches
  \<^verbatim>\<open>ethernet_input\<close> of the host it is for ends in the receive function of the block bound to its port, with exactly the bytes that were sent and the address and port of the sender.
\<close>

section \<open>Moving over headers\<close>

lemma header_push:
  assumes "0 < k" and "k < 2 ^ 15" and "pb_type (pbufs s p) = PBUF_RAM \<or> pb_type (pbufs s p) = PBUF_POOL" and "p \<noteq> NULL"
    and "unat p + 16 + k \<le> unat (pb_payload (pbufs s p))"
  shows "pbuf_header p (int k) s =
    (0, upd_pbuf p (\<lambda>x. x\<lparr>pb_payload := pb_payload x - of_nat k, pb_len := pb_len x + of_nat k, pb_tot_len := pb_tot_len x + of_nat k\<rparr>) s)"
proof -
  have k: "unat (of_nat k :: addr) = k" using assms(2) by (simp add: unsigned_of_nat take_bit_nat_eq_self)
  have "unat (pb_payload (pbufs s p)) < 2 ^ 32" using unsigned_less [of "pb_payload (pbufs s p)"] by simp
  then have "unat (p + 16) = unat p + 16" using assms(5) by (simp add: unat_word_ariths)
  moreover have "unat (pb_payload (pbufs s p) - of_nat k) = unat (pb_payload (pbufs s p)) - k"
    using assms(5) k by (subst unat_sub) (simp_all add: word_le_nat_alt)
  ultimately have "\<not> pb_payload (pbufs s p) - of_nat k < p + 16" using assms(5) by (simp add: word_less_nat_alt)
  then show ?thesis using assms(1,3,4)
    by (auto simp: pbuf_header_def Let_def SIZEOF_STRUCT_PBUF_def upd_pbuf_def)
qed

lemma header_pull:
  assumes "0 < k" and "k \<le> unat (pb_len (pbufs s p))" and "pb_type (pbufs s p) = PBUF_RAM \<or> pb_type (pbufs s p) = PBUF_POOL" and "p \<noteq> NULL"
    and "unat p + 16 \<le> unat (pb_payload (pbufs s p))" and "unat (pb_payload (pbufs s p)) + k < 2 ^ 32"
  shows "pbuf_header p (- int k) s =
    (0, upd_pbuf p (\<lambda>x. x\<lparr>pb_payload := pb_payload x + of_nat k, pb_len := pb_len x - of_nat k, pb_tot_len := pb_tot_len x - of_nat k\<rparr>) s)"
proof -
  have "unat (pb_len (pbufs s p)) < 2 ^ 16" using unsigned_less [of "pb_len (pbufs s p)"] by simp
  then have k: "unat (of_nat k :: addr) = k" "unat (of_nat k :: os_u16) = k" using assms(2) by (simp_all add: unsigned_of_nat take_bit_nat_eq_self)
  have "unat (p + 16) = unat p + 16" "unat (pb_payload (pbufs s p) + of_nat k) = unat (pb_payload (pbufs s p)) + k"
    using assms(5,6) k by (simp_all add: unat_word_ariths)
  then have "\<not> pb_payload (pbufs s p) + of_nat k < p + 16" using assms(5) by (simp add: word_less_nat_alt)
  moreover have "\<not> (of_nat k :: os_u16) > pb_len (pbufs s p)" using assms(2) k by (simp add: word_less_nat_alt)
  ultimately show ?thesis using assms(1,3,4)
    by (auto simp: pbuf_header_def Let_def SIZEOF_STRUCT_PBUF_def upd_pbuf_def)
qed

lemma keep_next: "pb_next x = a \<Longrightarrow> x\<lparr>pb_next := a\<rparr> = x"
  by (cases x) simp

lemma realloc_single:
  assumes "p \<noteq> NULL" and "pb_next (pbufs s p) = NULL" and "pb_tot_len (pbufs s p) = pb_len (pbufs s p)" and "k \<le> pb_len (pbufs s p)"
  shows "pbuf_realloc c e p k s = Some (upd_pbuf p (\<lambda>x. x\<lparr>pb_len := k, pb_tot_len := k\<rparr>) s)"
proof (cases "k = pb_len (pbufs s p)")
  case True
  then have "(pbufs s p)\<lparr>pb_len := k, pb_tot_len := k\<rparr> = pbufs s p" using assms(3) by (cases "pbufs s p") simp
  then have "upd_pbuf p (\<lambda>x. x\<lparr>pb_len := k, pb_tot_len := k\<rparr>) s = s" by (simp add: upd_pbuf_def)
  then show ?thesis using assms(1,3) True by (simp only: pbuf_realloc_def) simp
next
  case False
  then have k: "\<not> k \<ge> pb_tot_len (pbufs s p)" "\<not> k > pb_len (pbufs s p)" using assms(3,4) by auto
  let ?t = "upd_pbuf p (\<lambda>x. x\<lparr>pb_len := k, pb_tot_len := k\<rparr>) s"
  have "pbuf_realloc_loop p k g s = Some (p, k, s)" for g using assms(1) k(2) by (subst pbuf_realloc_loop.simps) simp
  moreover have n: "pb_next (pbufs ?t p) = NULL" using assms(2) by (simp add: upd_pbuf_def)
  moreover have "(pbufs ?t p)\<lparr>pb_next := NULL\<rparr> = pbufs ?t p" by (rule keep_next [OF n])
  then have "upd_pbuf p (\<lambda>x. x\<lparr>pb_next := NULL\<rparr>) ?t = ?t" unfolding upd_pbuf_def [of p "\<lambda>x. x\<lparr>pb_next := NULL\<rparr>"] by simp
  ultimately show ?thesis using assms(1) k(1) by (simp add: pbuf_realloc_def Let_def)
qed

section \<open>The packet\<close>

definition ip_fields :: "os_u8 \<Rightarrow> os_u8 \<Rightarrow> os_u32 \<Rightarrow> os_u32 \<Rightarrow> os_u8 \<Rightarrow> os_u16 \<Rightarrow> os_u16 \<Rightarrow> os_u8 list list" where
  "ip_fields ttl proto src dst tos len ident =
     [[0x45], [tos], bytes16 (lwip_htons len), bytes16 (lwip_htons ident), bytes16 0, [ttl], [proto], bytes16 0, bytes32 src, bytes32 dst]"

definition udp_fields :: "os_u16 \<Rightarrow> os_u16 \<Rightarrow> os_u16 \<Rightarrow> os_u8 list list" where
  "udp_fields sport dport len = [bytes16 (lwip_htons sport), bytes16 (lwip_htons dport), bytes16 (lwip_htons len), bytes16 0]"

definition udp_packet :: "os_u8 \<Rightarrow> os_u8 \<Rightarrow> os_u16 \<Rightarrow> os_u32 \<Rightarrow> os_u32 \<Rightarrow> os_u16 \<Rightarrow> os_u16 \<Rightarrow> os_u8 list \<Rightarrow> os_u8 list list" where
  "udp_packet ttl tos ident src dst sport dport d =
     ip_fields ttl IP_PROTO_UDP src dst tos (of_nat (28 + length d)) ident @ udp_fields sport dport (of_nat (8 + length d)) @ [d]"

definition packet_lens :: "nat \<Rightarrow> nat list" where
  "packet_lens n = [1, 1, 2, 2, 2, 1, 1, 2, 4, 4, 2, 2, 2, 2, n]"

lemma list_of_15:
  assumes "length fs = 15"
  obtains a b c d e f g h i j k l m n q where "fs = [a, b, c, d, e, f, g, h, i, j, k, l, m, n, q]"
  using assms by (auto simp: numeral_eq_Suc length_Suc_conv)

text \<open>The writes of UDP and IP to the headers, in their order.\<close>

lemma udp_packet_written:
  assumes "bytes_at m (h + 28) (length d) = d" and "28 + length d < 2 ^ 32"
  shows "fields_at (ip_fill h ttl IP_PROTO_UDP dst tos (of_nat (28 + length d)) ident src
      (put (h + 24) (bytes16 (lwip_htons (of_nat (8 + length d)))) (put (h + 26) (bytes16 0) (put (h + 22) (bytes16 (lwip_htons dport)) (put (h + 20) (bytes16 (lwip_htons sport)) m)))))
    h (udp_packet ttl tos ident src dst sport dport d)"
proof -
  obtain fs where fs: "fields_at m h fs" "map length fs = packet_lens (length d)" using fields_exist [of "packet_lens (length d)" m h] assms(2) by (auto simp: packet_lens_def)
  have "length fs = 15" using arg_cong [OF fs(2), of length] by (simp add: packet_lens_def)
  then obtain f0 f1 f2 f3 f4 f5 f6 f7 f8 f9 f10 f11 f12 f13 f14 where fs15: "fs = [f0, f1, f2, f3, f4, f5, f6, f7, f8, f9, f10, f11, f12, f13, f14]"
    by (rule list_of_15)
  have l: "length f0 = 1" "length f1 = 1" "length f2 = 2" "length f3 = 2" "length f4 = 2" "length f5 = 1" "length f6 = 1" "length f7 = 2" "length f8 = 4" "length f9 = 4"
      "length f10 = 2" "length f11 = 2" "length f12 = 2" "length f13 = 2" "length f14 = length d"
    using fs(2) by (simp_all add: fs15 packet_lens_def)
  have "bytes_at m (h + of_nat (length (concat (take 14 fs)))) (length (fs ! 14)) = fs ! 14" by (rule fields_get [OF fs(1)]) (simp add: fs15)
  moreover have "length (concat (take 14 fs)) = 28" "fs ! 14 = f14" by (simp_all add: fs15 l)
  ultimately have "bytes_at m (h + of_nat 28) (length f14) = f14" by (simp only:)
  then have "f14 = d" unfolding l(15) of_nat_numeral by (rule trans [OF sym]) (rule assms(1))
  let ?us = "[(10, bytes16 (lwip_htons sport)), (11, bytes16 (lwip_htons dport)), (13, bytes16 0), (12, bytes16 (lwip_htons (of_nat (8 + length d)))),
     (5, [ttl]), (6, [IP_PROTO_UDP]), (9, bytes32 dst), (0, [0x45]), (1, [tos]), (2, bytes16 (lwip_htons (of_nat (28 + length d)))), (4, bytes16 0),
     (3, bytes16 (lwip_htons ident)), (8, bytes32 src), (7, bytes16 0)]"
  have "fields_at (write_fields h (packet_lens (length d)) ?us m) h (fold (\<lambda>(i, v) l. l[i := v]) ?us fs)"
    by (rule write_fields_fields [OF fs]) (simp add: packet_lens_def)
  moreover have "fold (\<lambda>(i, v) l. l[i := v]) ?us fs = udp_packet ttl tos ident src dst sport dport d"
    by (simp add: fs15 \<open>f14 = d\<close> udp_packet_def ip_fields_def udp_fields_def)
  moreover have "[push_bit 4 4 OR ucast (IP_HLEN div 4)] = [0x45 :: os_u8]" by (simp add: IP_HLEN_def)
  then have "write_fields h (packet_lens (length d)) ?us m = ip_fill h ttl IP_PROTO_UDP dst tos (of_nat (28 + length d)) ident src
      (put (h + 24) (bytes16 (lwip_htons (of_nat (8 + length d)))) (put (h + 26) (bytes16 0) (put (h + 22) (bytes16 (lwip_htons dport)) (put (h + 20) (bytes16 (lwip_htons sport)) m))))"
    unfolding ip_fill_def Let_def by (simp add: write_fields_def packet_lens_def)
  ultimately show ?thesis by simp
qed

section \<open>Sending\<close>

text \<open>A packet of one buffer with the data \<open>d\<close> and room for \<open>k\<close> more bytes before it.\<close>

definition holds :: "addr \<Rightarrow> nat \<Rightarrow> os_u8 list \<Rightarrow> 'a pbkernel_scheme \<Rightarrow> bool" where
  "holds p k d s \<longleftrightarrow> p \<noteq> NULL \<and> (pb_type (pbufs s p) = PBUF_RAM \<or> pb_type (pbufs s p) = PBUF_POOL) \<and> pb_next (pbufs s p) = NULL \<and>
     unat (pb_len (pbufs s p)) = length d \<and> pb_tot_len (pbufs s p) = pb_len (pbufs s p) \<and>
     unat p + 16 + k \<le> unat (pb_payload (pbufs s p)) \<and> unat (pb_payload (pbufs s p)) + length d < 2 ^ 32 \<and>
     bytes_at (mem8 s) (pb_payload (pbufs s p)) (length d) = d"

lemma pbufs_upd [simp]: "pbufs (upd_pbuf p f s) = (pbufs s)(p := f (pbufs s p))"
  by (simp add: upd_pbuf_def)

lemma word_of_unat: "unat w = n \<Longrightarrow> w = of_nat n"
  by auto

lemma unat_minus: "k \<le> unat w \<Longrightarrow> unat (w - of_nat k :: addr) = unat w - k"
proof -
  assume k: "k \<le> unat w"
  have "unat w < 2 ^ 32" using unsigned_less [of w] by simp
  then have "unat (of_nat k :: addr) = k" using k by (simp add: unsigned_of_nat take_bit_nat_eq_self)
  then show ?thesis using k by (subst unat_sub) (simp_all add: word_le_nat_alt)
qed

lemma length_udp_packet: "length (concat (udp_packet ttl tos ident src dst sport dport d)) = 28 + length d"
  by (simp add: udp_packet_def ip_fields_def udp_fields_def)

lemma udp_sends:
  fixes s :: "'a ipkernel_scheme"
  assumes p: "holds p 28 d s" and len: "length d + 28 < 2 ^ 16" and n: "ni_mtu (netifs s n) = 0 \<or> length d + 28 \<le> unat (ni_mtu (netifs s n))"
    and pcb: "up_local_port (udp_store s pcb) \<noteq> 0" "up_local_ip (udp_store s pcb) = IPADDR_ANY \<or> up_local_ip (udp_store s pcb) = ni_ip_addr (netifs s n)"
  shows "\<exists>s'. udp_sendto_if e pcb p dst dport n s = output_call e (ni_output (netifs s n)) n p dst s' \<and> holds p 0 (concat (udp_packet (up_ttl (udp_store s pcb))
    (up_tos (udp_store s pcb)) (ip_id s) (ni_ip_addr (netifs s n)) dst (up_local_port (udp_store s pcb)) dport d)) s' \<and> netifs s' = netifs s"
proof -
  let ?x = "pbufs s p" and ?u = "udp_store s pcb" and ?ip = "ni_ip_addr (netifs s n)"
  define h where "h = pb_payload ?x - 28"
  define s1 where "s1 = upd_pbuf p (\<lambda>x. x\<lparr>pb_payload := pb_payload x - 8, pb_len := pb_len x + 8, pb_tot_len := pb_tot_len x + 8\<rparr>) s"
  have push8: "pbuf_header p 8 s = (0, s1)" using header_push [of 8 s p] p by (simp add: holds_def s1_def)
  define m1 where "m1 = put (h + 24) (bytes16 (lwip_htons (of_nat (8 + length d)))) (put (h + 26) (bytes16 0) (put (h + 22) (bytes16 (lwip_htons dport))
     (put (h + 20) (bytes16 (lwip_htons (up_local_port ?u))) (mem8 s))))"
  define s2 where "s2 = s1\<lparr>mem8 := m1\<rparr>"
  have l: "pb_len ?x = of_nat (length d)" "pb_tot_len ?x = of_nat (length d)" using p by (auto simp: holds_def intro: word_of_unat)
  have ph: "pb_payload ?x = h + 28" by (simp add: h_def)
  have q: "p \<noteq> NULL" "pb_type ?x = PBUF_RAM \<or> pb_type ?x = PBUF_POOL" "unat p + 44 \<le> unat (pb_payload ?x)" "unat (pb_payload ?x) + length d < 2 ^ 32"
      "bytes_at (mem8 s) (h + 28) (length d) = d" using p ph by (auto simp: holds_def)
  have u8: "unat (pb_payload ?x - 8) = unat (pb_payload ?x) - 8" "unat h = unat (pb_payload ?x) - 28"
    using unat_minus [of 8 "pb_payload ?x"] unat_minus [of 28 "pb_payload ?x"] q(3) by (simp_all add: h_def)
  define s3 where "s3 = upd_pbuf p (\<lambda>x. x\<lparr>pb_payload := pb_payload x - 20, pb_len := pb_len x + 20, pb_tot_len := pb_tot_len x + 20\<rparr>) s2"
  have push20: "pbuf_header p 20 s2 = (0, s3)"
    using header_push [of 20 s2 p] q u8 by (simp add: s3_def s2_def s1_def)
  have x3: "pbufs s3 p = ?x\<lparr>pb_payload := h, pb_len := of_nat (28 + length d), pb_tot_len := of_nat (28 + length d)\<rparr>"
    by (simp add: s3_def s2_def s1_def l h_def)
  define m where "m = ip_fill h (up_ttl ?u) IP_PROTO_UDP dst (up_tos ?u) (of_nat (28 + length d)) (ip_id s) ?ip m1"
  define s4 where "s4 = s3\<lparr>mem8 := m, ip_id := ip_id s + 1\<rparr>"
  have "fields_at m h (udp_packet (up_ttl ?u) (up_tos ?u) (ip_id s) ?ip dst (up_local_port ?u) dport d)"
    unfolding m_def m1_def by (rule udp_packet_written) (use q(5) len in simp_all)
  then have b: "bytes_at m h (28 + length d) = concat (udp_packet (up_ttl ?u) (up_tos ?u) (ip_id s) ?ip dst (up_local_port ?u) dport d)"
    by (simp add: fields_at_def length_udp_packet)
  have u28: "unat (of_nat (28 + length d) :: os_u16) = 28 + length d" using len by (simp only: unsigned_of_nat) (simp add: take_bit_nat_eq_self)
  have "unat p + 16 \<le> unat h" "unat h + (28 + length d) < 2 ^ 32" using u8(2) q(3,4) by linarith+
  moreover have "pb_next ?x = NULL" using p by (simp add: holds_def)
  ultimately have "holds p 0 (concat (udp_packet (up_ttl ?u) (up_tos ?u) (ip_id s) ?ip dst (up_local_port ?u) dport d)) s4"
    using q(1,2) b u28 unfolding holds_def length_udp_packet by (simp add: s4_def x3)
  moreover have k: "netifs s4 = netifs s" "netifs s3 = netifs s" "ip_id s3 = ip_id s" "mem8 s3 = m1" "udp_store s1 = udp_store s" "netifs s1 = netifs s" "mem8 s1 = mem8 s"
    "udp_store s2 = udp_store s" "netifs s2 = netifs s" "pbufs s4 = pbufs s3"
    by (simp_all add: s4_def s3_def s2_def s1_def upd_pbuf_def)
  have send: "ip_send e p dst n s4 = output_call e (ni_output (netifs s n)) n p dst s4"
  proof -
    have "\<not> (ni_mtu (netifs s n) \<noteq> 0 \<and> of_nat (28 + length d) > ni_mtu (netifs s n))" using n u28 unfolding word_less_nat_alt by linarith
    then show ?thesis by (auto simp: ip_send_def k x3 simp del: of_nat_add)
  qed
  have "ip_output_if e p (Some ?ip) (Some dst) (up_ttl ?u) (up_tos ?u) IP_PROTO_UDP n s2 = ip_send e p dst n s4"
    using push20 by (simp add: ip_output_if_def IP_HLEN_def ip_addr_isany_def k x3 upd_mem8_def s4_def m_def)
  moreover have "udp_sendto_if e pcb p dst dport n s =
      ip_output_if e p (Some ?ip) (Some dst) (up_ttl ?u) (up_tos ?u) IP_PROTO_UDP n s2"
  proof -
    have hd: "udp_header e p s = Some (p, s1)" using push8 by (simp add: udp_header_def UDP_HLEN_def)
    have a: "pb_payload (pbufs s1 p) = h + 20" "pb_tot_len (pbufs s1 p) = of_nat (8 + length d)" by (simp_all add: s1_def h_def l)
    have src: "(if ip_addr_isany (Some (up_local_ip ?u)) then ?ip else up_local_ip ?u) = ?ip"
      "\<not> (\<not> ip_addr_isany (Some (up_local_ip ?u)) \<and> up_local_ip ?u \<noteq> ?ip)" using pcb(2) by (auto simp: ip_addr_isany_def)
    have mem: "upd_mem8 (put (h + 24) (bytes16 (lwip_htons (of_nat (8 + length d))))) (upd_mem8 (put (h + 26) (bytes16 0)) (upd_mem8 (put (h + 22) (bytes16 (lwip_htons dport)))
        (upd_mem8 (put (h + 20) (bytes16 (lwip_htons (up_local_port ?u)))) s1))) = s2"
      by (simp add: upd_mem8_def s2_def m1_def k)
    have st: "udp_store (upd_mem8 f t) = udp_store t" "netifs (upd_mem8 f t) = netifs t" "pbufs (upd_mem8 f t) = pbufs t" for f and t :: "'a ipkernel_scheme"
      by (simp_all add: upd_mem8_def)
    show ?thesis
    proof (cases "ip_addr_isany (Some (up_local_ip ?u))")
      case True
      then show ?thesis unfolding udp_sendto_if_def Let_def using hd pcb(1) q(1) mem by (simp add: st k a add.assoc)
    next
      case False
      then have "up_local_ip ?u = ?ip" using src(2) by blast
      then show ?thesis unfolding udp_sendto_if_def Let_def using False hd pcb(1) q(1) mem by (simp add: st k a add.assoc)
    qed
  qed
  ultimately show ?thesis using send k(1) by (intro exI [of _ s4]) simp
qed

section \<open>Receiving\<close>

lemma holds_cong: "pbufs s' p = pbufs s p \<Longrightarrow> mem8 s' = mem8 s \<Longrightarrow> holds p k d s' = holds p k d s"
  by (simp add: holds_def)

lemma holds_fields: "holds p k (concat fs) s \<Longrightarrow> fields_at (mem8 s) (pb_payload (pbufs s p)) fs"
  by (auto simp: holds_def fields_at_def)

lemma holds_pull:
  assumes "holds p k (xs @ ys) s" and "xs \<noteq> []"
  shows "\<exists>x. pbuf_header p (- int (length xs)) s = (0, s\<lparr>pbufs := (pbufs s)(p := x)\<rparr>) \<and> holds p (k + length xs) ys (s\<lparr>pbufs := (pbufs s)(p := x)\<rparr>) \<and>
    pb_payload x = pb_payload (pbufs s p) + of_nat (length xs)"
proof -
  let ?n = "length xs" and ?y = "pbufs s p"
  let ?x = "?y\<lparr>pb_payload := pb_payload ?y + of_nat ?n, pb_len := pb_len ?y - of_nat ?n, pb_tot_len := pb_tot_len ?y - of_nat ?n\<rparr>"
  have h: "p \<noteq> NULL" "pb_type ?y = PBUF_RAM \<or> pb_type ?y = PBUF_POOL" "unat (pb_len ?y) = ?n + length ys" "unat p + 16 + k \<le> unat (pb_payload ?y)"
      "unat (pb_payload ?y) + (?n + length ys) < 2 ^ 32" "bytes_at (mem8 s) (pb_payload ?y) (?n + length ys) = xs @ ys" using assms(1) by (auto simp: holds_def)
  have "pbuf_header p (- int ?n) s = (0, s\<lparr>pbufs := (pbufs s)(p := ?x)\<rparr>)"
    using header_pull [of ?n s p] assms(2) h by (simp add: upd_pbuf_def)
  moreover have "unat (pb_payload ?y + of_nat ?n) = unat (pb_payload ?y) + ?n"
    using h(5) by (simp add: unat_word_ariths unsigned_of_nat take_bit_nat_eq_self)
  moreover have "unat (pb_len ?y - of_nat ?n) = length ys"
  proof -
    have "unat (pb_len ?y) < 2 ^ 16" using unsigned_less [of "pb_len ?y"] by simp
    then have "?n < 2 ^ 16" using h(3) by simp
    then have "unat (of_nat ?n :: os_u16) = ?n" by (simp add: unsigned_of_nat take_bit_nat_eq_self)
    then show ?thesis using h(3) by (subst unat_sub) (simp_all add: word_le_nat_alt)
  qed
  moreover have "bytes_at (mem8 s) (pb_payload ?y + of_nat ?n) (length ys) = ys" using h(6) by (simp add: bytes_at_add length_bytes_at)
  ultimately have "holds p (k + ?n) ys (s\<lparr>pbufs := (pbufs s)(p := ?x)\<rparr>)" using assms(1) h unfolding holds_def by simp
  then show ?thesis using \<open>pbuf_header p (- int ?n) s = _\<close> by (intro exI [of _ ?x]) simp
qed

lemma holds_trim:
  assumes "holds p k (xs @ ys) s"
  shows "\<exists>x. (\<forall>c e. pbuf_realloc c e p (of_nat (length xs)) s = Some (s\<lparr>pbufs := (pbufs s)(p := x)\<rparr>)) \<and>
    holds p k xs (s\<lparr>pbufs := (pbufs s)(p := x)\<rparr>) \<and> pb_payload x = pb_payload (pbufs s p)"
proof -
  let ?n = "length xs" and ?y = "pbufs s p"
  let ?x = "?y\<lparr>pb_len := of_nat ?n, pb_tot_len := of_nat ?n\<rparr>"
  have "unat (pb_len ?y) < 2 ^ 16" using unsigned_less [of "pb_len ?y"] by simp
  then have "?n < 2 ^ 16" using assms by (simp add: holds_def)
  then have n: "unat (of_nat ?n :: os_u16) = ?n" by (simp add: unsigned_of_nat take_bit_nat_eq_self)
  then have "of_nat ?n \<le> pb_len ?y" using assms by (simp add: holds_def word_le_nat_alt)
  then have "pbuf_realloc c e p (of_nat ?n) s = Some (s\<lparr>pbufs := (pbufs s)(p := ?x)\<rparr>)" for c e
    using realloc_single [of p s "of_nat ?n" c e] assms by (simp add: holds_def upd_pbuf_def)
  moreover have "bytes_at (mem8 s) (pb_payload ?y) ?n = xs" using assms by (simp add: holds_def bytes_at_add length_bytes_at)
  then have "holds p k xs (s\<lparr>pbufs := (pbufs s)(p := ?x)\<rparr>)" using assms n unfolding holds_def by simp
  ultimately show ?thesis by (intro exI [of _ ?x]) simp
qed

lemma udp_packet_read:
  assumes f: "fields_at m h (udp_packet ttl tos ident src dst sport dport d @ xs)"
  shows "m h = 0x45" "load16 m (h + 2) = lwip_htons (of_nat (28 + length d))" "load16 m (h + 6) = 0" "m (h + 9) = IP_PROTO_UDP"
    "load32 m (h + 12) = src" "load32 m (h + 16) = dst" "load16 m (h + 20) = lwip_htons sport" "load16 m (h + 22) = lwip_htons dport"
proof -
  note def = udp_packet_def ip_fields_def udp_fields_def
  note g = fields_get [OF f]
  show "m h = 0x45" using g [of 0] by (simp add: def bytes_at_def)
  show "load16 m (h + 2) = lwip_htons (of_nat (28 + length d))" using g [of 2] by (intro load16_bytes) (simp add: def)
  show "load16 m (h + 6) = 0" using g [of 4] by (intro load16_bytes) (simp add: def)
  show "m (h + 9) = IP_PROTO_UDP" using g [of 6] by (simp add: def bytes_at_def)
  show "load32 m (h + 12) = src" using g [of 8] by (intro load32_bytes) (simp add: def)
  show "load32 m (h + 16) = dst" using g [of 9] by (intro load32_bytes) (simp add: def)
  show "load16 m (h + 20) = lwip_htons sport" using g [of 10] by (intro load16_bytes) (simp add: def)
  show "load16 m (h + 22) = lwip_htons dport" using g [of 11] by (intro load16_bytes) (simp add: def)
qed

lemma ntohs_htons: "lwip_ntohs (lwip_htons x) = x"
proof -
  have "unat x < 2 ^ 16" using unsigned_less [of x] by simp
  then have "unat x div 256 < 256" by (simp add: less_mult_imp_div_less)
  then have "unat (lwip_htons (lwip_htons x)) = unat x" by (simp only: unat_htons) simp
  then show ?thesis by (simp add: lwip_ntohs_def word_unat_eq_iff)
qed

lemma first_byte: "m h = 0x45 \<Longrightarrow> IPH_V m h = 4" "m h = 0x45 \<Longrightarrow> IPH_HL m h = 5"
  by (simp_all add: IPH_V_def IPH_HL_def)

text \<open>The block that gets a unicast datagram (\<open>udp_receiver\<close>).\<close>

definition receiver :: "os_u16 \<Rightarrow> os_u16 \<Rightarrow> addr \<Rightarrow> addr list \<Rightarrow> 'a ipkernel_scheme \<Rightarrow> addr" where
  "receiver sport dport n ps s =
     (case find (fits_exactly sport dport False (netifs s n) s) ps of Some q \<Rightarrow> q | None \<Rightarrow> found (find (fits_loosely dport False (netifs s n) s) ps))"

lemma receiver_cong:
  assumes "netifs t = netifs s" "udp_store t = udp_store s" "current_iphdr_src t = current_iphdr_src s" "current_iphdr_dest t = current_iphdr_dest s"
  shows "receiver sport dport n ps t = receiver sport dport n ps s"
proof -
  have "fits_exactly sport dport False (netifs s n) t = fits_exactly sport dport False (netifs s n) s"
    "fits_loosely dport False (netifs s n) t = fits_loosely dport False (netifs s n) s"
    using assms by (simp_all add: fun_eq_iff fits_exactly_def fits_loosely_def)
  then show ?thesis unfolding receiver_def assms(1) by (simp only:)
qed

lemma demux_receiver:
  assumes "lchain (nexts s) (udp_pcbs s) ps" and "dport \<noteq> DHCP_CLIENT_PORT"
  shows "\<exists>s'. udp_demux dp sport dport False n s = Some (receiver sport dport n ps s, s') \<and> relinked s s'"
  using demux_list [OF assms, of dp sport False n] relinked_refl by (auto simp: receiver_def split: option.splits)

lemma relinked_rest:
  assumes "relinked s t"
  shows "pbufs t = pbufs s" "mem8 t = mem8 s" "netifs t = netifs s" "current_iphdr_src t = current_iphdr_src s" "current_iphdr_dest t = current_iphdr_dest s"
  using assms by (auto simp: relinked_def)

lemma udp_input_delivers:
  fixes s :: "'a ipkernel_scheme"
  assumes p: "holds p k (concat (udp_packet ttl tos ident src dst sport dport d)) s" and u: "\<not> ip4_addr_isbroadcast (current_iphdr_dest s) (netifs s n)"
    and ps: "lchain (nexts s) (udp_pcbs s) ps" and port: "dport \<noteq> DHCP_CLIENT_PORT"
    and r: "receiver sport dport n ps s \<noteq> NULL" "up_recv (udp_store s (receiver sport dport n ps s)) \<noteq> NULL"
  defines "x \<equiv> udp_store s (receiver sport dport n ps s)"
  shows "\<exists>t. udp_input e p n s = recv_call e (up_recv x) (up_recv_arg x) (receiver sport dport n ps s) p (current_iphdr_src s) sport t \<and> holds p (k + 28) d t"
proof -
  let ?r = "receiver sport dport n ps s"
  have read: "IPH_HL (mem8 s) (pb_payload (pbufs s p)) = 5" "load16 (mem8 s) (pb_payload (pbufs s p) + 20) = lwip_htons sport"
      "load16 (mem8 s) (pb_payload (pbufs s p) + 22) = lwip_htons dport"
    using udp_packet_read [of "mem8 s" "pb_payload (pbufs s p)" ttl tos ident src dst sport dport d "[]"] holds_fields [OF p] first_byte by simp_all
  have tot: "uint (pb_tot_len (pbufs s p)) = 28 + int (length d)"
    using p length_udp_packet [of ttl tos ident src dst sport dport d] by (simp add: holds_def uint_nat)
  let ?ip = "concat (ip_fields ttl IP_PROTO_UDP src dst tos (of_nat (28 + length d)) ident)" and ?udp = "concat (udp_fields sport dport (of_nat (8 + length d)))"
  have len: "length ?ip = 20" "length ?udp = 8" by (simp_all add: ip_fields_def udp_fields_def)
  have ne: "?ip \<noteq> []" "?udp \<noteq> []" using len by (metis list.size(3) zero_neq_numeral)+
  have "holds p k (?ip @ ?udp @ d) s" using p by (simp add: udp_packet_def)
  from holds_pull [OF this ne(1), unfolded len] obtain y where
    y: "pbuf_header p (- 20) s = (0, s\<lparr>pbufs := (pbufs s)(p := y)\<rparr>)" "holds p (k + 20) (?udp @ d) (s\<lparr>pbufs := (pbufs s)(p := y)\<rparr>)"
      "pb_payload y = pb_payload (pbufs s p) + 20" by auto
  define s1 where "s1 = s\<lparr>pbufs := (pbufs s)(p := y)\<rparr>"
  have k1: "netifs s1 = netifs s" "udp_store s1 = udp_store s" "current_iphdr_src s1 = current_iphdr_src s" "current_iphdr_dest s1 = current_iphdr_dest s"
      "mem8 s1 = mem8 s" "udp_pcbs s1 = udp_pcbs s" "nexts s1 = nexts s" by (simp_all add: s1_def nexts_def fun_eq_iff)
  have "receiver sport dport n ps s1 = ?r" using k1 by (intro receiver_cong)
  then obtain s2 where s2: "udp_demux (dhcp_pcb e) sport dport False n s1 = Some (?r, s2)" "relinked s1 s2"
    using demux_receiver [of s1 ps dport "dhcp_pcb e" sport n] ps port k1 by auto
  have h2: "holds p (k + 20) (?udp @ d) s2" using y(2) relinked_rest [OF s2(2)] by (simp add: holds_cong [of s2 p s1] s1_def [symmetric])
  from holds_pull [OF h2 ne(2), unfolded len] obtain z where
    z: "pbuf_header p (- 8) s2 = (0, s2\<lparr>pbufs := (pbufs s2)(p := z)\<rparr>)" "holds p (k + 28) d (s2\<lparr>pbufs := (pbufs s2)(p := z)\<rparr>)" by (auto simp: add.assoc)
  have pay: "pb_payload (pbufs s1 p) = pb_payload (pbufs s p) + 20" using y(3) by (simp add: s1_def)
  have "udp_input e p n s = recv_call e (up_recv x) (up_recv_arg x) ?r p (current_iphdr_src s) sport (s2\<lparr>pbufs := (pbufs s2)(p := z)\<rparr>)"
    unfolding udp_input_def Let_def using y(1) z(1) s2 u r tot
    by (simp add: read pay s1_def [symmetric] UDP_HLEN_def ntohs_htons k1 relinked_rest relinked_pcb x_def add.assoc)
  then show ?thesis using z(2) by blast
qed

text \<open>The end of \<^verbatim>\<open>ip_input\<close>: the variables of the current packet are reset.\<close>

definition ip_done :: "'a ipkernel_scheme \<Rightarrow> 'a ipkernel_scheme" where
  "ip_done s = s\<lparr>current_netif := NULL, current_header := NULL, current_iphdr_src := IPADDR_ANY, current_iphdr_dest := IPADDR_ANY\<rparr>"

text \<open>A packet without options and not a fragment, for this interface, reaches the switch on the protocol; padding behind it is cut off.\<close>

lemma ip_input_local:
  fixes s :: "'a ipkernel_scheme"
  assumes p: "holds p k (packet @ pad) s" and l: "20 \<le> length packet"
    and h: "h = pb_payload (pbufs s p)" "mem8 s h = 0x45" "load16 (mem8 s) (h + 2) = lwip_htons (of_nat (length packet))"
      "load16 (mem8 s) (h + 6) AND PP_HTONS (IP_OFFMASK OR IP_MF) = 0" "load32 (mem8 s) (h + 12) = src" "load32 (mem8 s) (h + 16) = dst"
    and n: "n \<noteq> NULL" "netif_is_up (netifs s n)" "ni_ip_addr (netifs s n) = dst" "dst \<noteq> IPADDR_ANY"
    and src: "src = IPADDR_ANY \<or> \<not> ip4_addr_isbroadcast src (netifs s n) \<and> \<not> ip_addr_ismulticast src"
    and raw: "\<And>t. raw_input e p n t = Some (0, t)"
  shows "\<exists>x. let t = s\<lparr>pbufs := (pbufs s)(p := x), current_iphdr_dest := dst, current_iphdr_src := src, current_netif := n, current_header := h\<rparr>
    in ip_input e p n s = do { s \<leftarrow> ip_deliver e p n h t; Some (ERR_OK, ip_done s) } \<and> holds p k packet t"
proof -
  have "unat (pb_len (pbufs s p)) < 2 ^ 16" using unsigned_less [of "pb_len (pbufs s p)"] by simp
  moreover have len: "unat (pb_len (pbufs s p)) = length packet + length pad" "pb_tot_len (pbufs s p) = pb_len (pbufs s p)" using p by (simp_all add: holds_def)
  ultimately have u: "unat (of_nat (length packet) :: os_u16) = length packet" by (simp only: unsigned_of_nat) (simp add: take_bit_nat_eq_self)
  have fit: "\<not> of_nat (length packet) > pb_len (pbufs s p)" "\<not> (20 :: os_u16) > pb_len (pbufs s p)"
    using len(1) u l unfolding word_less_nat_alt by simp_all
  from holds_trim [OF p] obtain x where
    x: "\<And>c e. pbuf_realloc c e p (of_nat (length packet)) s = Some (s\<lparr>pbufs := (pbufs s)(p := x)\<rparr>)" "holds p k packet (s\<lparr>pbufs := (pbufs s)(p := x)\<rparr>)"
      "pb_payload x = h" unfolding h(1) by blast
  define s1 where "s1 = s\<lparr>pbufs := (pbufs s)(p := x), current_iphdr_dest := dst, current_iphdr_src := src\<rparr>"
  have acc: "accept_loop n n True s1 = Some n"
    using n by (subst accept_loop.simps) (simp add: s1_def Let_def ip_addr_isany_def)
  define t where "t = s1\<lparr>current_netif := n, current_header := h\<rparr>"
  have "ip_accept e p n h s1 = do { s \<leftarrow> ip_deliver e p n h t; Some (ip_done s) }"
    using raw p h by (simp add: ip_accept_def Let_def s1_def t_def x(3) holds_def ip_done_def)
  then have "ip_input e p n s = do { s \<leftarrow> ip_deliver e p n h t; Some (ERR_OK, ip_done s) }"
    unfolding ip_input_def Let_def h(1) [symmetric] using x(1) acc fit src n(1) first_byte [of "mem8 s" h, OF h(2)] h(3,5,6) len(2)
    by (auto simp: ntohs_htons s1_def ip_addr_isany_def)
  moreover have "holds p k packet t" using x(2) by (simp add: holds_def t_def s1_def)
  ultimately show ?thesis by (intro exI [of _ x]) (simp add: t_def s1_def Let_def)
qed

lemma ip_input_udp:
  fixes s :: "'a ipkernel_scheme"
  assumes p: "holds p k (concat (udp_packet ttl tos ident src dst sport dport d) @ pad) s"
    and n: "n \<noteq> NULL" "netif_is_up (netifs s n)" "ni_ip_addr (netifs s n) = dst" "dst \<noteq> IPADDR_ANY"
    and src: "src = IPADDR_ANY \<or> \<not> ip4_addr_isbroadcast src (netifs s n) \<and> \<not> ip_addr_ismulticast src"
    and raw: "\<And>t. raw_input e p n t = Some (0, t)"
  shows "\<exists>x a. let t = s\<lparr>pbufs := (pbufs s)(p := x), current_iphdr_dest := dst, current_iphdr_src := src, current_netif := n, current_header := a\<rparr>
    in ip_input e p n s = do { s \<leftarrow> udp_input e p n t; Some (ERR_OK, ip_done s) } \<and> holds p k (concat (udp_packet ttl tos ident src dst sport dport d)) t"
proof -
  let ?pk = "udp_packet ttl tos ident src dst sport dport d" and ?h = "pb_payload (pbufs s p)"
  have "holds p k (concat (?pk @ [pad])) s" using p by simp
  note read = udp_packet_read [OF holds_fields [OF this]]
  have "\<exists>x. let t = s\<lparr>pbufs := (pbufs s)(p := x), current_iphdr_dest := dst, current_iphdr_src := src, current_netif := n, current_header := ?h\<rparr>
    in ip_input e p n s = do { s \<leftarrow> ip_deliver e p n ?h t; Some (ERR_OK, ip_done s) } \<and> holds p k (concat ?pk) t"
    by (rule ip_input_local [OF p _ refl read(1) _ _ read(5,6) n src raw]) (simp_all add: length_udp_packet read)
  then show ?thesis using read(4) by (auto simp: Let_def ip_deliver_def)
qed

lemma ethernet_input_ip:
  fixes s :: "'a ipkernel_scheme"
  assumes p: "holds p k (ed @ es @ bytes16 (PP_HTONS ETHTYPE_IP) @ packet) s" and l: "length ed = 6" "length es = 6" "packet \<noteq> []"
    and n: "has_flag NETIF_FLAG_ETHARP (netifs s n)"
  shows "\<exists>x. let t = s\<lparr>pbufs := (pbufs s)(p := x)\<rparr>
    in ethernet_input e p n s = do { (r, s) \<leftarrow> ip_input e p n t; Some (ERR_OK, s) } \<and> holds p (k + 14) packet t"
proof -
  let ?h = "pb_payload (pbufs s p)" and ?eth = "ed @ es @ bytes16 (PP_HTONS ETHTYPE_IP)"
  have "holds p k (concat [ed, es, bytes16 (PP_HTONS ETHTYPE_IP), packet]) s" using p by simp
  from fields_get [OF holds_fields [OF this], of 2] l have type: "load16 (mem8 s) (?h + 12) = PP_HTONS ETHTYPE_IP"
    by (intro load16_bytes) simp
  have eth: "length ?eth = 14" "?eth \<noteq> []" using l by auto
  have "unat (pb_len (pbufs s p)) = 14 + length packet" using p l by (simp add: holds_def)
  then have big: "\<not> pb_len (pbufs s p) \<le> SIZEOF_ETH_HDR" using l(3) by (cases packet) (simp_all add: word_le_nat_alt SIZEOF_ETH_HDR_def)
  define s1 where "s1 = upd_pbuf p (\<lambda>x. x\<lparr>pb_flags := eth_cast (bytes_at (mem8 s) ?h 6) (pb_flags x)\<rparr>) s"
  have "holds p k (?eth @ packet) s1" using p by (simp add: holds_def s1_def upd_pbuf_def)
  from holds_pull [OF this eth(2), unfolded eth(1)] obtain x where
    x: "pbuf_header p (- 14) s1 = (0, s1\<lparr>pbufs := (pbufs s1)(p := x)\<rparr>)" "holds p (k + 14) packet (s1\<lparr>pbufs := (pbufs s1)(p := x)\<rparr>)" by auto
  have t: "s1\<lparr>pbufs := (pbufs s1)(p := x)\<rparr> = s\<lparr>pbufs := (pbufs s)(p := x)\<rparr>" "netifs s1 = netifs s" by (simp_all add: s1_def upd_pbuf_def)
  have "ethernet_input e p n s = do { (r, s) \<leftarrow> ip_input e p n (s\<lparr>pbufs := (pbufs s)(p := x)\<rparr>); Some (ERR_OK, s) }"
    unfolding ethernet_input_def Let_def s1_def [symmetric] using big type n x(1) t
    by (simp add: SIZEOF_ETH_HDR_def split: Option.bind_split)
  then show ?thesis using x(2) t(1) by (intro exI [of _ x]) (simp add: Let_def)
qed

section \<open>From host to host\<close>

text \<open>
  C39. A datagram arrives as it was sent. \<^verbatim>\<open>udp_sendto_if\<close> of host A, with a bound block and a packet with room for the headers, passes to the output function of the interface exactly the IP packet with
  the addresses and ports of the two ends and the data. When a frame with these bytes, and possibly padding after them, reaches \<^verbatim>\<open>ethernet_input\<close> of host B, whose interface is up and has the
  destination address, the receive function of the block that fits the datagram is called once, with the address and port of A and with a packet that holds exactly the data; nothing else happens.
\<close>

theorem datagram_delivered:
  fixes sA :: "'a ipkernel_scheme" and sB :: "'b ipkernel_scheme" and ipB :: os_u32 and dport :: os_u16 and ps :: "addr list"
    and nA nB pcb p q :: addr and d pad hwA hwB :: "os_u8 list"
  defines "ipA \<equiv> ni_ip_addr (netifs sA nA)" and "u \<equiv> udp_store sA pcb"
  defines "packet \<equiv> concat (udp_packet (up_ttl u) (up_tos u) (ip_id sA) ipA ipB (up_local_port u) dport d)"
  defines "r \<equiv> receiver (up_local_port u) dport nB ps (sB\<lparr>current_iphdr_src := ipA, current_iphdr_dest := ipB\<rparr>)"
  assumes "holds p 28 d sA" and "length d + 28 < 2 ^ 16" and "ni_mtu (netifs sA nA) = 0 \<or> length d + 28 \<le> unat (ni_mtu (netifs sA nA))"
    and "up_local_port u \<noteq> 0" and "up_local_ip u = IPADDR_ANY \<or> up_local_ip u = ipA"
    and "holds q 0 (hwB @ hwA @ bytes16 (PP_HTONS ETHTYPE_IP) @ packet @ pad) sB" and "length hwB = 6" and "length hwA = 6"
    and "nB \<noteq> NULL" and "netif_is_up (netifs sB nB)" and "has_flag NETIF_FLAG_ETHARP (netifs sB nB)" and "ni_ip_addr (netifs sB nB) = ipB"
    and "\<not> ip4_addr_isbroadcast ipB (netifs sB nB)" and "ipA = IPADDR_ANY \<or> \<not> ip4_addr_isbroadcast ipA (netifs sB nB) \<and> \<not> ip_addr_ismulticast ipA"
    and "\<And>t. raw_input e' q nB t = Some (0, t)" and "lchain (nexts sB) (udp_pcbs sB) ps" and "dport \<noteq> DHCP_CLIENT_PORT"
    and "r \<noteq> NULL" and "up_recv (udp_store sB r) \<noteq> NULL"
  shows "(\<exists>s. udp_sendto_if e pcb p ipB dport nA sA = output_call e (ni_output (netifs sA nA)) nA p ipB s \<and> holds p 0 packet s) \<and>
    (\<exists>t. ethernet_input e' q nB sB =
       do { s \<leftarrow> recv_call e' (up_recv (udp_store sB r)) (up_recv_arg (udp_store sB r)) r q ipA (up_local_port u) t; Some (ERR_OK, ip_done s) } \<and> holds q 42 d t)"
proof
  show "\<exists>s. udp_sendto_if e pcb p ipB dport nA sA = output_call e (ni_output (netifs sA nA)) nA p ipB s \<and> holds p 0 packet s"
    using udp_sends [OF assms(5-7), of pcb e ipB dport] assms(8,9) unfolding packet_def u_def ipA_def by blast
next
  have "length packet = 28 + length d" unfolding packet_def by (rule length_udp_packet)
  then have "packet @ pad \<noteq> []" by auto
  from ethernet_input_ip [OF assms(10-12) this assms(15)] obtain x where
    x: "ethernet_input e' q nB sB = do { (r, s) \<leftarrow> ip_input e' q nB (sB\<lparr>pbufs := (pbufs sB)(q := x)\<rparr>); Some (ERR_OK, s) }"
      "holds q 14 (packet @ pad) (sB\<lparr>pbufs := (pbufs sB)(q := x)\<rparr>)" unfolding Let_def by auto
  let ?s1 = "sB\<lparr>pbufs := (pbufs sB)(q := x)\<rparr>"
  have any: "ipB \<noteq> IPADDR_ANY" using assms(17) by (auto simp: ip4_addr_isbroadcast_def)
  have "\<exists>y a. let t = ?s1\<lparr>pbufs := (pbufs ?s1)(q := y), current_iphdr_dest := ipB, current_iphdr_src := ipA, current_netif := nB, current_header := a\<rparr>
    in ip_input e' q nB ?s1 = do { s \<leftarrow> udp_input e' q nB t; Some (ERR_OK, ip_done s) } \<and> holds q 14 packet t"
    unfolding packet_def by (rule ip_input_udp) (use x(2) assms(13,14,16,18,19) any in \<open>simp_all add: packet_def\<close>)
  then obtain y a where y: "ip_input e' q nB ?s1 = do { s \<leftarrow> udp_input e' q nB (sB\<lparr>pbufs := (pbufs sB)(q := y), current_iphdr_dest := ipB, current_iphdr_src := ipA,
      current_netif := nB, current_header := a\<rparr>); Some (ERR_OK, ip_done s) }"
    "holds q 14 packet (sB\<lparr>pbufs := (pbufs sB)(q := y), current_iphdr_dest := ipB, current_iphdr_src := ipA, current_netif := nB, current_header := a\<rparr>)"
    unfolding Let_def by auto
  define t where "t = sB\<lparr>pbufs := (pbufs sB)(q := y), current_iphdr_dest := ipB, current_iphdr_src := ipA, current_netif := nB, current_header := a\<rparr>"
  have rt: "receiver (up_local_port u) dport nB ps t = r" unfolding r_def by (rule receiver_cong) (simp_all add: t_def)
  have "nexts t = nexts sB" by (simp add: t_def nexts_def fun_eq_iff)
  then have "\<exists>t'. udp_input e' q nB t = recv_call e' (up_recv (udp_store t r)) (up_recv_arg (udp_store t r)) r q (current_iphdr_src t) (up_local_port u) t' \<and> holds q (14 + 28) d t'"
    using udp_input_delivers [of q 14 "up_ttl u" "up_tos u" "ip_id sA" ipA ipB "up_local_port u" dport d t nB ps e'] y(2) rt assms(17,20-23)
    by (simp add: t_def packet_def)
  then obtain t' where "udp_input e' q nB t = recv_call e' (up_recv (udp_store sB r)) (up_recv_arg (udp_store sB r)) r q ipA (up_local_port u) t'" "holds q 42 d t'"
    by (auto simp: t_def)
  then show "\<exists>t. ethernet_input e' q nB sB =
       do { s \<leftarrow> recv_call e' (up_recv (udp_store sB r)) (up_recv_arg (udp_store sB r)) r q ipA (up_local_port u) t; Some (ERR_OK, ip_done s) } \<and> holds q 42 d t"
    using x(1) y(1) unfolding t_def [symmetric] by (intro exI [of _ t']) (simp add: bind_assoc)
qed


text \<open>Two hosts for a concrete datagram: each has one block, bound to port 7, and one packet with the bytes \<open>b\<close>.\<close>

definition datagram_env :: "ipkernel ipenv" where
  "datagram_env = \<lparr>net = \<lparr>custom_free = (\<lambda>p. Some), meanwhile = Some, link_call = (\<lambda>f n p s. Some (0, s)), dhcp_arp_reply = (\<lambda>n a. Some)\<rparr>,
     output_call = (\<lambda>f n p a s. Some (0, s)), ip_frag = (\<lambda>p n a s. Some (0, s)), ip_reass = (\<lambda>p s. Some (NULL, s)), raw_input = (\<lambda>p n s. Some (0, s)),
     tcp_input = (\<lambda>p n. Some), recv_call = (\<lambda>f arg pcb p a port. Some), dhcp_pcb = (\<lambda>n s. NULL)\<rparr>"

definition datagram_kernel :: "netif \<Rightarrow> os_u8 list \<Rightarrow> ipkernel" where
  "datagram_kernel x b = (upd_udp 0x9000 (\<lambda>u. u\<lparr>up_recv := 0x777\<rparr>) udp_kernel2)
     \<lparr>netifs := (\<lambda>_. x), pbufs := (\<lambda>_. demo_arp_packet\<lparr>pb_len := of_nat (length b), pb_tot_len := of_nat (length b)\<rparr>), mem8 := put 0x30000 b (\<lambda>_. 0)\<rparr>"

lemma datagram_kernel_facts:
  "netifs (datagram_kernel x b) = (\<lambda>_. x)" "udp_pcbs (datagram_kernel x b) = 0x9000" "nexts (datagram_kernel x b) 0x9000 = NULL"
  "up_local_port (udp_store (datagram_kernel x b) 0x9000) = 7" "up_local_ip (udp_store (datagram_kernel x b) 0x9000) = 0"
  "up_flags (udp_store (datagram_kernel x b) 0x9000) = 0" "up_recv (udp_store (datagram_kernel x b) 0x9000) = 0x777"
  using udp_kernel2_facts by (simp_all add: datagram_kernel_def upd_udp_def nexts_def)

lemma datagram_kernel_holds:
  assumes "length b < 1000" and "k \<le> 100"
  shows "holds 0x20000 k b (datagram_kernel x b)"
proof -
  have "unat (of_nat (length b) :: os_u16) = length b" using assms(1) by (simp add: unsigned_of_nat take_bit_nat_eq_self)
  moreover have "bytes_at (put 0x30000 b (\<lambda>_. 0)) 0x30000 (length b) = b"
    using bytes_at_put [where xs = "[]" and zs = "[]" and ys = "replicate (length b) 0" and vs = b and m = "\<lambda>_. 0" and h = "0x30000"] assms(1)
    by (simp add: bytes_at_def map_replicate_const)
  ultimately show ?thesis using assms by (simp add: holds_def datagram_kernel_def demo_arp_packet_def NULL_def)
qed

lemma datagram_kernel_receiver: "receiver sport 7 n [0x9000] ((datagram_kernel x b)\<lparr>current_iphdr_src := a, current_iphdr_dest := c\<rparr>) = 0x9000"
proof -
  have "udp_local_match (udp_store (datagram_kernel x b) 0x9000) 7 False c x"
    by (simp add: udp_local_match_def datagram_kernel_facts ip_addr_isany_def IPADDR_ANY_def)
  then show ?thesis by (simp add: receiver_def fits_exactly_def fits_loosely_def datagram_kernel_facts found_def)
qed

theorem datagram_delivered_witness:
  "\<exists>frame t. ethernet_input datagram_env 0x20000 0x500 (datagram_kernel host1 frame) = Some (ERR_OK, ip_done t) \<and> holds 0x20000 42 [1, 2, 3] t"
proof -
  define sA where "sA = datagram_kernel host9 [1, 2, 3]"
  define u where "u = udp_store sA 0x9000"
  define packet where "packet = concat (udp_packet (up_ttl u) (up_tos u) (ip_id sA) (ni_ip_addr host9) (ni_ip_addr host1) (up_local_port u) 7 [1, 2, 3])"
  define frame where "frame = ni_hwaddr host1 @ ni_hwaddr host9 @ bytes16 (PP_HTONS ETHTYPE_IP) @ packet @ [0, 0]"
  have "length packet = 31" unfolding packet_def length_udp_packet by simp
  then have "length frame < 1000" by (simp add: frame_def bytes16_def)
  then have f: "holds 0x20000 0 (ni_hwaddr host1 @ ni_hwaddr host9 @ bytes16 (PP_HTONS ETHTYPE_IP) @ packet @ [0, 0]) (datagram_kernel host1 frame)"
    using datagram_kernel_holds [of frame 0 host1] unfolding frame_def by simp
  have sA: "holds 0x20000 28 [1, 2, 3] sA" "netifs sA = (\<lambda>_. host9)" "up_local_port (udp_store sA 0x9000) = 7" "up_local_ip (udp_store sA 0x9000) = 0"
    unfolding sA_def by (rule datagram_kernel_holds) (simp_all add: datagram_kernel_facts)
  have hosts: "ni_mtu host9 = 1500" "ni_flags host1 = 0x33" "\<not> ip4_addr_isbroadcast (ni_ip_addr host1) host1"
    by (simp_all add: host1_def host9_def demo_netif_def ip4_addr_isbroadcast_def IPADDR_ANY_def)
  have "\<exists>t. ethernet_input datagram_env 0x20000 0x500 (datagram_kernel host1 frame) = Some (ERR_OK, ip_done t) \<and> holds 0x20000 42 [1, 2, 3] t"
    using datagram_delivered [where sA = sA and sB = "datagram_kernel host1 frame" and nA = "0x500" and nB = "0x500" and pcb = "0x9000" and p = "0x20000" and q = "0x20000"
      and d = "[1, 2, 3]" and ipB = "ni_ip_addr host1" and dport = 7 and ps = "[0x9000]" and hwB = "ni_hwaddr host1" and hwA = "ni_hwaddr host9" and pad = "[0, 0]"
      and e = datagram_env and e' = datagram_env, folded u_def] sA f hosts hosts_unicast
    by (simp add: datagram_kernel_facts datagram_kernel_receiver packet_def u_def NULL_def IPADDR_ANY_def DHCP_CLIENT_PORT_def netif_is_up_def has_flag_def
      NETIF_FLAG_UP_def NETIF_FLAG_ETHARP_def datagram_env_def)
  then show ?thesis by blast
qed

end
