(* ===== verification/Ping.thy ===== *)
theory Ping
  imports Datagram
begin

text \<open>
  Echo requests of ICMP: a request that reaches \<^verbatim>\<open>ethernet_input\<close> of the host it is for is turned into the reply in place, byte for byte, and leaves through the interface it came from.
\<close>

section \<open>Echo messages\<close>

text \<open>
  The fields of an IP packet with an echo message; \<open>body\<close> is what follows the checksum: identifier, sequence number and data.
\<close>

definition echo_packet :: "os_u8 \<Rightarrow> os_u8 list \<Rightarrow> os_u16 \<Rightarrow> os_u8 \<Rightarrow> os_u16 \<Rightarrow> os_u32 \<Rightarrow> os_u32 \<Rightarrow> os_u8 \<Rightarrow> os_u8 \<Rightarrow> os_u16 \<Rightarrow> os_u8 list \<Rightarrow> os_u8 list list" where
  "echo_packet tos ident offset ttl chksum src dst type code echo_chksum body =
     [[0x45], [tos], bytes16 (lwip_htons (of_nat (24 + length body))), ident, bytes16 offset, [ttl], [IP_PROTO_ICMP], bytes16 chksum, bytes32 src, bytes32 dst,
      [type], [code], bytes16 echo_chksum, body]"

definition echo_message :: "os_u8 \<Rightarrow> os_u8 \<Rightarrow> os_u16 \<Rightarrow> os_u8 list \<Rightarrow> os_u8 list" where
  "echo_message type code echo_chksum body = [type, code] @ bytes16 echo_chksum @ body"

definition echo_lens :: "nat \<Rightarrow> nat list" where
  "echo_lens n = [1, 1, 2, 2, 2, 1, 1, 2, 4, 4, 1, 1, 2, n]"

lemma length_echo_packet:
  "length ident = 2 \<Longrightarrow> length (concat (echo_packet tos ident offset ttl chksum src dst type code echo_chksum body)) = 24 + length body"
  by (simp add: echo_packet_def)

lemma echo_packet_split:
  "concat (echo_packet tos ident offset ttl chksum src dst type code echo_chksum body) =
   concat (take 10 (echo_packet tos ident offset ttl chksum src dst type code echo_chksum body)) @ echo_message type code echo_chksum body"
  by (simp add: echo_packet_def echo_message_def)

lemma length_echo_header: "length ident = 2 \<Longrightarrow> length (concat (take 10 (echo_packet tos ident offset ttl chksum src dst type code echo_chksum body))) = 20"
  by (simp add: echo_packet_def)

lemma echo_packet_read:
  assumes f: "fields_at m h (echo_packet tos ident offset ttl chksum src dst type code echo_chksum body @ xs)" and "length ident = 2"
  shows "m h = 0x45" "load16 m (h + 2) = lwip_htons (of_nat (24 + length body))" "load16 m (h + 6) = offset" "m (h + 9) = IP_PROTO_ICMP"
    "load32 m (h + 12) = src" "load32 m (h + 16) = dst" "m (h + 20) = type"
proof -
  note def = echo_packet_def assms(2)
  note g = fields_get [OF f]
  show "m h = 0x45" using g [of 0] by (simp add: def bytes_at_def)
  show "load16 m (h + 2) = lwip_htons (of_nat (24 + length body))" using g [of 2] by (intro load16_bytes) (simp add: def)
  show "load16 m (h + 6) = offset" using g [of 4] by (intro load16_bytes) (simp add: def)
  show "m (h + 9) = IP_PROTO_ICMP" using g [of 6] by (simp add: def bytes_at_def)
  show "load32 m (h + 12) = src" using g [of 8] by (intro load32_bytes) (simp add: def)
  show "load32 m (h + 16) = dst" using g [of 9] by (intro load32_bytes) (simp add: def)
  show "m (h + 20) = type" using g [of 10] by (simp add: def bytes_at_def)
qed

lemma echo_reply_written:
  assumes f: "fields_at m h (echo_packet tos ident offset ttl chksum src dst type code echo_chksum body)" and l: "length ident = 2"
  shows "fields_at (icmp_make_reply h (h + 20) dst src m) h (echo_packet tos ident offset ICMP_TTL 0 dst src ICMP_ER code 0 body)"
proof -
  let ?us = "[(8, bytes32 dst), (9, bytes32 src), (10, [ICMP_ER]), (12, bytes16 0), (5, [ICMP_TTL]), (7, bytes16 0)]"
  have "fields_at (write_fields h (echo_lens (length body)) ?us m) h
      (fold (\<lambda>(i, v) l. l[i := v]) ?us (echo_packet tos ident offset ttl chksum src dst type code echo_chksum body))"
    by (rule write_fields_fields [OF f]) (simp_all add: echo_packet_def echo_lens_def l)
  moreover have "write_fields h (echo_lens (length body)) ?us m = icmp_make_reply h (h + 20) dst src m"
    unfolding icmp_make_reply_def Let_def by (simp add: write_fields_def echo_lens_def add.assoc)
  ultimately show ?thesis by (simp add: echo_packet_def)
qed

section \<open>Answering\<close>

lemma holds_push:
  assumes p: "holds p (k + length xs) ys s" and l: "xs \<noteq> []" "length xs < 2 ^ 15" "length xs + length ys < 2 ^ 16"
    and b: "bytes_at (mem8 s) (pb_payload (pbufs s p) - of_nat (length xs)) (length xs) = xs"
  shows "\<exists>x. pbuf_header p (int (length xs)) s = (0, s\<lparr>pbufs := (pbufs s)(p := x)\<rparr>) \<and> holds p k (xs @ ys) (s\<lparr>pbufs := (pbufs s)(p := x)\<rparr>) \<and>
    pb_payload x = pb_payload (pbufs s p) - of_nat (length xs)"
proof -
  let ?n = "length xs" and ?y = "pbufs s p"
  let ?x = "?y\<lparr>pb_payload := pb_payload ?y - of_nat ?n, pb_len := pb_len ?y + of_nat ?n, pb_tot_len := pb_tot_len ?y + of_nat ?n\<rparr>"
  have h: "p \<noteq> NULL" "pb_type ?y = PBUF_RAM \<or> pb_type ?y = PBUF_POOL" "unat (pb_len ?y) = length ys" "unat p + 16 + (k + ?n) \<le> unat (pb_payload ?y)"
      "unat (pb_payload ?y) + length ys < 2 ^ 32" "bytes_at (mem8 s) (pb_payload ?y) (length ys) = ys" using p by (auto simp: holds_def)
  have "pbuf_header p (int ?n) s = (0, s\<lparr>pbufs := (pbufs s)(p := ?x)\<rparr>)"
    using header_push [of ?n s p] l h by (simp add: upd_pbuf_def)
  moreover have "unat (pb_payload ?y - of_nat ?n) = unat (pb_payload ?y) - ?n" by (rule unat_minus) (use h(4) in linarith)
  moreover have "unat (pb_len ?y + of_nat ?n) = ?n + length ys"
    using h(3) l(3) by (simp add: unat_word_ariths unsigned_of_nat take_bit_nat_eq_self)
  moreover have "bytes_at (mem8 s) (pb_payload ?y - of_nat ?n) (?n + length ys) = xs @ ys" using b h(6) by (simp add: bytes_at_add)
  ultimately have "holds p k (xs @ ys) (s\<lparr>pbufs := (pbufs s)(p := ?x)\<rparr>)" using p h unfolding holds_def by simp
  then show ?thesis using \<open>pbuf_header p (int ?n) s = _\<close> by (intro exI [of _ ?x]) simp
qed

lemma holds_chksum: "holds p k d s \<Longrightarrow> inet_chksum_pbuf p s = Some (NOT (csum d))"
proof -
  assume p: "holds p k d s"
  then have "pchain (pbufs s) p [p]" by (simp add: holds_def)
  moreover have "pdata (pbufs s) (mem8 s) [p] = d" using p by (simp add: pdata_def pbytes_def holds_def)
  ultimately show ?thesis using chksum_pbuf [of s p "[p]"] by simp
qed

lemma holds_mem8: "holds p k d s \<Longrightarrow> length d' = length d \<Longrightarrow> bytes_at m (pb_payload (pbufs s p)) (length d) = d' \<Longrightarrow> holds p k d' (s\<lparr>mem8 := m\<rparr>)"
  by (simp add: holds_def)

text \<open>A received packet has room for the headers, so it is used for the reply itself.\<close>

lemma icmp_room_same:
  assumes p: "holds p (k + 34) d s" and l: "d \<noteq> []" "length d + 34 < 2 ^ 16"
  shows "\<exists>x. icmp_room e p h hl s = Some (Inr (p, h), s\<lparr>pbufs := (pbufs s)(p := x)\<rparr>) \<and> holds p (k + 34) d (s\<lparr>pbufs := (pbufs s)(p := x)\<rparr>) \<and> pb_payload x = pb_payload (pbufs s p)"
proof -
  let ?xs = "bytes_at (mem8 s) (pb_payload (pbufs s p) - 34) 34"
  have xs: "length ?xs = 34" by (simp add: length_bytes_at)
  then have ne: "?xs \<noteq> []" by (metis list.size(3) zero_neq_numeral)
  from holds_push [of p k ?xs d s] p l ne xs obtain x where
    x: "pbuf_header p 34 s = (0, s\<lparr>pbufs := (pbufs s)(p := x)\<rparr>)" "holds p k (?xs @ d) (s\<lparr>pbufs := (pbufs s)(p := x)\<rparr>)" "pb_payload x = pb_payload (pbufs s p) - 34" by auto
  from holds_pull [OF x(2) ne, unfolded xs] obtain y where
    y: "pbuf_header p (- 34) (s\<lparr>pbufs := (pbufs s)(p := x)\<rparr>) = (0, s\<lparr>pbufs := (pbufs s)(p := y)\<rparr>)" "holds p (k + 34) d (s\<lparr>pbufs := (pbufs s)(p := y)\<rparr>)"
      "pb_payload y = pb_payload (pbufs s p)" using x(3) by auto
  then show ?thesis using x(1) by (intro exI [of _ y]) (simp add: icmp_room_def PBUF_IP_HLEN_def PBUF_LINK_HLEN_def)
qed

lemma icmp_input_replies:
  fixes s :: "'a ipkernel_scheme" and tos ttl code :: os_u8 and ident body :: "os_u8 list" and offset chksum echo_chksum :: os_u16 and src dst :: os_u32
  defines "request \<equiv> echo_packet tos ident offset ttl chksum src dst ICMP_ECHO code echo_chksum body"
    and "reply \<equiv> echo_packet tos ident offset ICMP_TTL 0 dst src ICMP_ER code 0 body"
  assumes p: "holds p (k + 14) (concat request) s" and l: "length ident = 2" "4 \<le> length body" "length body + 38 < 2 ^ 16"
    and a: "current_iphdr_src s = src" "current_iphdr_dest s = dst" "\<not> ip_addr_ismulticast dst" "\<not> ip4_addr_isbroadcast dst (netifs s n)"
    and c: "NOT (csum (echo_message ICMP_ECHO code echo_chksum body)) = 0"
    and mtu: "ni_mtu (netifs s n) = 0 \<or> 24 + length body \<le> unat (ni_mtu (netifs s n))"
  shows "\<exists>t. icmp_input e p n s = do { (r, t) \<leftarrow> output_call e (ni_output (netifs s n)) n p src t; ifree e p t } \<and> holds p (k + 14) (concat reply) t"
proof -
  let ?h = "pb_payload (pbufs s p)" and ?hdr = "concat (take 10 request)" and ?hdr' = "concat (take 10 reply)"
  define msg where "msg = echo_message ICMP_ECHO code echo_chksum body"
  define msg' where "msg' = echo_message ICMP_ER code 0 body"
  have f: "fields_at (mem8 s) ?h (request @ [])" using holds_fields [OF p] by simp
  note read = echo_packet_read [OF f [unfolded request_def] l(1)]
  have sp: "concat request = ?hdr @ msg" "concat reply = ?hdr' @ msg'" unfolding request_def reply_def msg_def msg'_def by (rule echo_packet_split)+
  have len: "length ?hdr = 20" "length ?hdr' = 20" "length msg = 4 + length body" "length msg' = 4 + length body"
    unfolding request_def reply_def msg_def msg'_def echo_message_def by (simp_all add: length_echo_header l(1))
  have ne: "?hdr \<noteq> []" "?hdr' \<noteq> []" "msg \<noteq> []" using len by (metis add_is_0 list.size(3) zero_neq_numeral)+
  from holds_pull [of p "k + 14" ?hdr msg s, unfolded len] p ne(1) obtain x1 where
    x1: "pbuf_header p (- 20) s = (0, s\<lparr>pbufs := (pbufs s)(p := x1)\<rparr>)" "holds p (k + 34) msg (s\<lparr>pbufs := (pbufs s)(p := x1)\<rparr>)" "pb_payload x1 = ?h + 20"
    unfolding sp by (auto simp: add.assoc)
  define s1 where "s1 = s\<lparr>pbufs := (pbufs s)(p := x1)\<rparr>"
  from icmp_room_same [of p k msg s1 e ?h 20] x1(2) ne(3) len(3) l(3) obtain x2 where
    x2: "icmp_room e p ?h 20 s1 = Some (Inr (p, ?h), s\<lparr>pbufs := (pbufs s)(p := x2)\<rparr>)" "holds p (k + 34) msg (s\<lparr>pbufs := (pbufs s)(p := x2)\<rparr>)" "pb_payload x2 = ?h + 20"
    by (auto simp: s1_def x1(3))
  define m where "m = icmp_make_reply ?h (?h + 20) dst src (mem8 s)"
  have f': "fields_at m ?h (reply @ [])"
    using echo_reply_written [OF f [unfolded request_def append_Nil2] l(1)] by (simp add: m_def reply_def)
  note read' = echo_packet_read [OF f' [unfolded reply_def] l(1)]
  have b: "bytes_at m ?h 20 = ?hdr'" "bytes_at m (?h + 20) (4 + length body) = msg'"
  proof -
    have "bytes_at m ?h (20 + (4 + length body)) = ?hdr' @ msg'" using f' by (simp only: fields_at_def append_Nil2 sp length_append len)
    then have "bytes_at m ?h 20 @ bytes_at m (?h + 20) (4 + length body) = ?hdr' @ msg'" by (simp only: bytes_at_add [of m ?h 20] of_nat_numeral)
    moreover have "length (bytes_at m ?h 20) = length ?hdr'" unfolding len length_bytes_at ..
    ultimately show "bytes_at m ?h 20 = ?hdr'" "bytes_at m (?h + 20) (4 + length body) = msg'" by (metis append_eq_append_conv)+
  qed
  define s2 where "s2 = s\<lparr>pbufs := (pbufs s)(p := x2), mem8 := m\<rparr>"
  have "holds p (k + 34) msg' s2" using holds_mem8 [OF x2(2), of msg' m] b(2) x2(3) len by (simp add: s2_def)
  with holds_push [of p "k + 14" ?hdr' msg' s2, unfolded len] ne(2) b(1) x2(3) l(3) obtain x3 where
    x3: "pbuf_header p 20 s2 = (0, s2\<lparr>pbufs := (pbufs s2)(p := x3)\<rparr>)" "holds p (k + 14) (concat reply) (s2\<lparr>pbufs := (pbufs s2)(p := x3)\<rparr>)" "pb_payload x3 = ?h"
    by (auto simp: s2_def sp add.assoc)
  define s3 where "s3 = s2\<lparr>pbufs := (pbufs s2)(p := x3)\<rparr>"
  have send: "ip_output_if e p src' None ttl' tos' proto n s3 = output_call e (ni_output (netifs s n)) n p src s3" for src' ttl' tos' proto
  proof -
    have "unat (pb_tot_len (pbufs s3 p)) = 24 + length body" using x3(2) by (simp add: holds_def s3_def sp len)
    then have "\<not> (ni_mtu (netifs s n) \<noteq> 0 \<and> pb_tot_len (pbufs s3 p) > ni_mtu (netifs s n))" using mtu unfolding word_less_nat_alt by linarith
    moreover have "netifs s3 = netifs s" "mem8 s3 = m" "pb_payload (pbufs s3 p) = ?h" by (simp_all add: s3_def s2_def x3(3))
    ultimately show ?thesis using read'(6) by (auto simp: ip_output_if_def ip_send_def)
  qed
  have "icmp_input e p n s = do { (r, t) \<leftarrow> output_call e (ni_output (netifs s n)) n p src s3; ifree e p t }"
  proof -
    have tot: "unat (pb_tot_len x1) = 4 + length body" using x1(2) by (simp add: holds_def len)
    then have short: "\<not> pb_tot_len x1 < 4" "\<not> pb_tot_len x1 < SIZEOF_ICMP_ECHO_HDR" using l(2) by (simp_all add: word_less_nat_alt SIZEOF_ICMP_ECHO_HDR_def)
    have sum: "inet_chksum_pbuf p s1 = Some 0" using holds_chksum [OF x1(2)] c by (simp add: s1_def msg_def)
    have "icmp_echo e p n ?h 20 s1 = do { (r, t) \<leftarrow> output_call e (ni_output (netifs s n)) n p src s3; ifree e p t }"
      unfolding icmp_echo_def using a short sum x2(1) x3(1) [folded s3_def, unfolded s2_def m_def] send
      by (simp add: s1_def x2(3) upd_mem8_def)
    then show ?thesis unfolding icmp_input_def Let_def using x1(1,3) short first_byte [of "mem8 s" ?h, OF read(1)] read(7)
      by (simp add: s1_def)
  qed
  then show ?thesis using x3(2) unfolding s3_def by blast
qed

section \<open>From Ethernet to Ethernet\<close>

text \<open>
  C40. A ping is answered. An echo request for the address of the interface, with a correct checksum and from a valid source, in a frame with or without padding, makes \<^verbatim>\<open>ethernet_input\<close> pass exactly
  one packet to the output function of the interface it came from, for the address of the sender: the request with its addresses exchanged, the type of a reply, the time to live renewed and the
  checksums left to the hardware; identifier, sequence number and data are unchanged. Then the packet is released.
\<close>

theorem ping_answered:
  fixes s :: "'a ipkernel_scheme" and tos ttl code :: os_u8 and ident body pad hwA hwB :: "os_u8 list" and offset chksum echo_chksum :: os_u16 and src dst :: os_u32
  defines "request \<equiv> concat (echo_packet tos ident offset ttl chksum src dst ICMP_ECHO code echo_chksum body)"
    and "reply \<equiv> concat (echo_packet tos ident offset ICMP_TTL 0 dst src ICMP_ER code 0 body)"
  assumes "holds q 0 (hwB @ hwA @ bytes16 (PP_HTONS ETHTYPE_IP) @ request @ pad) s" and "length hwB = 6" and "length hwA = 6" and "length ident = 2" and "4 \<le> length body"
    and "offset AND PP_HTONS (IP_OFFMASK OR IP_MF) = 0" and "NOT (csum (echo_message ICMP_ECHO code echo_chksum body)) = 0"
    and "n \<noteq> NULL" and "netif_is_up (netifs s n)" and "has_flag NETIF_FLAG_ETHARP (netifs s n)" and "ni_ip_addr (netifs s n) = dst"
    and "\<not> ip_addr_ismulticast dst" and "\<not> ip4_addr_isbroadcast dst (netifs s n)"
    and "src = IPADDR_ANY \<or> \<not> ip4_addr_isbroadcast src (netifs s n) \<and> \<not> ip_addr_ismulticast src"
    and "ni_mtu (netifs s n) = 0 \<or> 24 + length body \<le> unat (ni_mtu (netifs s n))" and "\<And>t. raw_input e q n t = Some (0, t)"
  shows "\<exists>t. ethernet_input e q n s = do { (r, t) \<leftarrow> output_call e (ni_output (netifs s n)) n q src t; t \<leftarrow> ifree e q t; Some (ERR_OK, ip_done t) } \<and> holds q 14 reply t"
proof -
  have len: "length request = 24 + length body" unfolding request_def by (rule length_echo_packet [OF assms(6)])
  then have "request @ pad \<noteq> []" by auto
  from ethernet_input_ip [OF assms(3-5) this assms(12)] obtain x where
    x: "ethernet_input e q n s = do { (r, s) \<leftarrow> ip_input e q n (s\<lparr>pbufs := (pbufs s)(q := x)\<rparr>); Some (ERR_OK, s) }"
      "holds q 14 (request @ pad) (s\<lparr>pbufs := (pbufs s)(q := x)\<rparr>)" unfolding Let_def by auto
  let ?s1 = "s\<lparr>pbufs := (pbufs s)(q := x)\<rparr>" and ?h = "pb_payload x"
  have "holds q 14 (concat (echo_packet tos ident offset ttl chksum src dst ICMP_ECHO code echo_chksum body @ [pad])) ?s1" using x(2) by (simp add: request_def)
  from echo_packet_read [OF holds_fields [OF this] assms(6)] have read: "mem8 s ?h = 0x45" "load16 (mem8 s) (?h + 2) = lwip_htons (of_nat (length request))"
    "load16 (mem8 s) (?h + 6) = offset" "mem8 s (?h + 9) = IP_PROTO_ICMP" "load32 (mem8 s) (?h + 12) = src" "load32 (mem8 s) (?h + 16) = dst" by (simp_all add: len)
  have any: "dst \<noteq> IPADDR_ANY" using assms(15) by (auto simp: ip4_addr_isbroadcast_def)
  have "\<exists>y. let t = ?s1\<lparr>pbufs := (pbufs ?s1)(q := y), current_iphdr_dest := dst, current_iphdr_src := src, current_netif := n, current_header := ?h\<rparr>
    in ip_input e q n ?s1 = do { s \<leftarrow> ip_deliver e q n ?h t; Some (ERR_OK, ip_done s) } \<and> holds q 14 request t"
    by (rule ip_input_local [OF x(2)]) (use read len assms(8,10,11,13,16,18) any in simp_all)
  then obtain y where y: "ip_input e q n ?s1 = do { s \<leftarrow> ip_deliver e q n ?h (s\<lparr>pbufs := (pbufs s)(q := y), current_iphdr_dest := dst, current_iphdr_src := src,
      current_netif := n, current_header := ?h\<rparr>); Some (ERR_OK, ip_done s) }"
    "holds q 14 request (s\<lparr>pbufs := (pbufs s)(q := y), current_iphdr_dest := dst, current_iphdr_src := src, current_netif := n, current_header := ?h\<rparr>)"
    unfolding Let_def by auto
  define t where "t = s\<lparr>pbufs := (pbufs s)(q := y), current_iphdr_dest := dst, current_iphdr_src := src, current_netif := n, current_header := ?h\<rparr>"
  have "unat (pb_len (pbufs s q)) < 2 ^ 16" using unsigned_less [of "pb_len (pbufs s q)"] by simp
  then have big: "length body + 38 < 2 ^ 16" using assms(3-5) by (simp add: holds_def len)
  have "\<exists>t'. icmp_input e q n t = do { (r, t) \<leftarrow> output_call e (ni_output (netifs t n)) n q src t'; ifree e q t } \<and> holds q (0 + 14) reply t'"
    unfolding reply_def by (rule icmp_input_replies [where ttl = ttl and chksum = chksum and echo_chksum = echo_chksum])
      (use y(2) big assms(6,7,9,14,15,17) in \<open>simp_all add: t_def request_def\<close>)
  then obtain t' where t': "icmp_input e q n t = do { (r, t) \<leftarrow> output_call e (ni_output (netifs s n)) n q src t'; ifree e q t }" "holds q 14 reply t'"
    by (auto simp: t_def)
  have "ip_deliver e q n ?h t = icmp_input e q n t"
    using read(4) by (simp add: ip_deliver_def t_def IP_PROTO_ICMP_def IP_PROTO_UDP_def IP_PROTO_TCP_def)
  then show ?thesis using x(1) y(1) t' unfolding t_def [symmetric] by (intro exI [of _ t']) (simp add: bind_assoc case_prod_unfold)
qed

lemma host1_unicast: "ni_mtu host1 = 1500" "ni_flags host1 = 0x33" "\<not> ip4_addr_isbroadcast (ni_ip_addr host1) host1"
  by (simp_all add: host1_def demo_netif_def ip4_addr_isbroadcast_def IPADDR_ANY_def)

theorem ping_answered_witness:
  "\<exists>frame t. ethernet_input datagram_env 0x20000 0x500 (datagram_kernel host1 frame) = do { t \<leftarrow> ifree datagram_env 0x20000 t; Some (ERR_OK, ip_done t) } \<and>
     holds 0x20000 14 (concat (echo_packet 0 [0, 1] 0 ICMP_TTL 0 (ni_ip_addr host1) (ni_ip_addr host9) ICMP_ER 0 0 [0, 0, 0, 0])) t"
proof -
  define frame where "frame = ni_hwaddr host1 @ ni_hwaddr host9 @ bytes16 (PP_HTONS ETHTYPE_IP) @
    concat (echo_packet 0 [0, 1] 0 64 0x1234 (ni_ip_addr host9) (ni_ip_addr host1) ICMP_ECHO 0 0xfff7 [0, 0, 0, 0]) @ [0, 0]"
  have "length frame < 1000" by (simp add: frame_def length_echo_packet)
  then have f: "holds 0x20000 0 frame (datagram_kernel host1 frame)" by (intro datagram_kernel_holds) simp_all
  have "NOT (csum (echo_message ICMP_ECHO 0 0xfff7 [0, 0, 0, 0])) = 0"
    by (simp add: csum_def echo_message_def ICMP_ECHO_def bytes16_def ones_def)
  then have "\<exists>t. ethernet_input datagram_env 0x20000 0x500 (datagram_kernel host1 frame) = do { t \<leftarrow> ifree datagram_env 0x20000 t; Some (ERR_OK, ip_done t) } \<and>
     holds 0x20000 14 (concat (echo_packet 0 [0, 1] 0 ICMP_TTL 0 (ni_ip_addr host1) (ni_ip_addr host9) ICMP_ER 0 0 [0, 0, 0, 0])) t"
    using ping_answered [where s = "datagram_kernel host1 frame" and n = "0x500" and q = "0x20000" and hwB = "ni_hwaddr host1" and hwA = "ni_hwaddr host9" and pad = "[0, 0]"
      and tos = 0 and ident = "[0, 1]" and offset = 0 and ttl = 64 and chksum = "0x1234" and src = "ni_ip_addr host9" and dst = "ni_ip_addr host1" and code = 0
      and echo_chksum = "0xfff7" and body = "[0, 0, 0, 0]" and e = datagram_env] f hosts_unicast
    by (simp add: frame_def [symmetric] datagram_kernel_facts host1_unicast NULL_def IPADDR_ANY_def netif_is_up_def has_flag_def NETIF_FLAG_UP_def NETIF_FLAG_ETHARP_def datagram_env_def)
  then show ?thesis by blast
qed

end
