(* ===== verification/Ssl_Msg.thy ===== *)
theory Ssl_Msg
  imports Cstring
begin

text \<open>
  The start of a TLS message layer, \<^verbatim>\<open>hwutil/net/ssl\<close>: the header of a handshake message, its type and the 24-bit length of its body. No message has a body yet:
  \<^verbatim>\<open>__ssl_set_msg_payload\<close> does nothing for every type.
\<close>

datatype ssl_msg = HELLO_REQUEST | CLIENT_HELLO | SERVER_HELLO | CERTIFICATE | SERVER_KEY_EXCHANGE | CERTIFICATE_REQUEST
  | SERVER_HELLO_DONE | CERTIFICATE_VERIFY | CLIENT_KEY_EXCHANGE | FINISH

definition msg_code :: "ssl_msg \<Rightarrow> os_u8" where
  "msg_code t = (case t of HELLO_REQUEST \<Rightarrow> 0 | CLIENT_HELLO \<Rightarrow> 1 | SERVER_HELLO \<Rightarrow> 2 | CERTIFICATE \<Rightarrow> 11 | SERVER_KEY_EXCHANGE \<Rightarrow> 12
     | CERTIFICATE_REQUEST \<Rightarrow> 13 | SERVER_HELLO_DONE \<Rightarrow> 14 | CERTIFICATE_VERIFY \<Rightarrow> 15 | CLIENT_KEY_EXCHANGE \<Rightarrow> 16 | FINISH \<Rightarrow> 20)"

definition SSL_MSG_HEAD_BYTES :: int where "SSL_MSG_HEAD_BYTES = 4"

definition SSL_SET_MEG_BODY_BYTES :: "addr \<Rightarrow> int \<Rightarrow> bytes \<Rightarrow> bytes" where
  "SSL_SET_MEG_BODY_BYTES pbuf n m =
     m(pbuf + 1 := word_of_int (drop_bit 16 n), pbuf + 2 := word_of_int (drop_bit 8 n), pbuf + 3 := word_of_int n)"

definition ssl_set_msg_payload :: "addr \<Rightarrow> bytes \<Rightarrow> int \<times> bytes" where
  "ssl_set_msg_payload pbuf m = (0, m)"

definition ssl_set_msg :: "ssl_msg \<Rightarrow> addr \<Rightarrow> bytes \<Rightarrow> int \<times> bytes" where
  "ssl_set_msg msg_type pbuf m =
     (let m = m(pbuf := msg_code msg_type);
          (payload_bytes, m) = ssl_set_msg_payload pbuf m
      in if payload_bytes > 0 then (payload_bytes + SSL_MSG_HEAD_BYTES, SSL_SET_MEG_BODY_BYTES pbuf payload_bytes m)
         else (- ENOMEM, m))"

text \<open>So no message can be built, whatever its type; only the type byte is written.\<close>

lemma ssl_set_msg_fails: "ssl_set_msg t pbuf m = (- ENOMEM, m(pbuf := msg_code t))"
  by (simp add: ssl_set_msg_def ssl_set_msg_payload_def)

end
