(* ===== verification/Spec2Isabelle.thy ===== *)
theory Spec2Isabelle
  imports Kernel_System Context_Switch Sleep Printf Ring_Queue Boot Bus_Devices Ping Socket Ssl_Msg
begin

text \<open>
  POSIX-RTOS, a real-time kernel with a POSIX interface for ARM microcontrollers: a model of its C code and proofs about it.

  \<^bold>\<open>The program.\<close> The kernel (\<^verbatim>\<open>src/hwutil/kernel\<close>) schedules threads by priority, with a round robin among equals, on one processor. Everything that blocks ends in the
  scheduler: mutexes, semaphores, sleeping, timers, signals and message queues change the state of a thread and call \<^verbatim>\<open>__sched_switch_thread\<close>, which requests a context switch; the assembly
  of the processor port takes it when interrupts are enabled. Every queue of the kernel is a ring of \<^verbatim>\<open>list.h\<close>. The heap is guarded by a mutex, so an allocation may block. On top of this
  are named objects with \<^verbatim>\<open>open\<close>, \<^verbatim>\<open>read\<close>, \<^verbatim>\<open>write\<close> and \<^verbatim>\<open>ioctl\<close> (drivers, message queues and sockets register themselves there), a shell, device layers, and the IP stack lwIP
  with a port that connects it to a network controller and to sockets.

  \<^bold>\<open>The theories and what they model\<close> (paths under \<^verbatim>\<open>src/hwutil\<close>; each operation has the name of the C function where it can).

  \<^item> \<open>Prelude\<close>: \<^verbatim>\<open>kernel/include/types.h\<close>, \<^verbatim>\<open>errno.h\<close>, shared lemmas. \<open>Kernel_State\<close>: the structures of the kernel, the interrupt mask and the request of a context switch.
  \<^item> \<open>Intrusive_List\<close>: \<^verbatim>\<open>list.h\<close>, with the interface \<open>queue_family\<close> that its clients use. \<open>Ring_Queue\<close>: \<^verbatim>\<open>queue.h\<close>, with the interface \<open>bounded_fifo\<close>.
  \<^item> \<open>Sched\<close>, \<open>Sched_Tick\<close>: \<^verbatim>\<open>sched.c\<close>. \<open>Context_Switch\<close>: the PendSV exception of \<^verbatim>\<open>text_switch.s\<close> of the Cortex-M7 port, with registers and stack words (without the FPU). The operations that move a thread from one state to another share the interface \<open>thread_transition\<close>.
  \<^item> \<open>Wait_Queue\<close>: the blocking and waking that \<open>Mutex\<close> (\<^verbatim>\<open>pthread.c\<close>) and \<open>Semaphore\<close> (\<^verbatim>\<open>semaphore.c\<close>) write alike. \<open>Sleep\<close>: \<^verbatim>\<open>msleep\<close> and \<^verbatim>\<open>sleep\<close> of \<^verbatim>\<open>unistd.c\<close>.
    \<open>Kernel_System\<close>: all of these together as a transition system in which threads are arbitrary programs over the calls, threads are created, and ticks come at any time between the pieces that run with
    interrupts masked; a yield is two of them. The end of a thread and signals are not in it.
  \<^item> \<open>Heap_Mem\<close>: the allocator of \<^verbatim>\<open>stdlib.c\<close> inside its mutex. \<open>Pthread\<close>: \<^verbatim>\<open>malloc\<close> and \<^verbatim>\<open>free\<close> with the mutex, thread attributes, creation and exit (\<^verbatim>\<open>pthread.c\<close>).
  \<^item> \<open>Timer\<close> (\<^verbatim>\<open>time.c\<close>), \<open>Signal\<close> (\<^verbatim>\<open>signal.c\<close>), \<open>Stdobj\<close> (\<^verbatim>\<open>unistd.c\<close>), \<open>Mqueue\<close> (\<^verbatim>\<open>mqueue.c\<close>), \<open>Boot\<close> (\<^verbatim>\<open>hal.c\<close>, \<^verbatim>\<open>chip.c\<close> and the start of the system).
  \<^item> \<open>Cstring\<close> (\<^verbatim>\<open>string.c\<close>), \<open>Printf\<close> (\<^verbatim>\<open>stdio.c\<close>), \<open>Shell\<close> (\<^verbatim>\<open>shell/source/shell.c\<close>), \<open>Drivers\<close> (\<^verbatim>\<open>drivers/input\<close>, \<^verbatim>\<open>drivers/led\<close>), \<open>Bus_Devices\<close> (\<^verbatim>\<open>drivers/iic\<close>,
    \<^verbatim>\<open>drivers/mmc\<close>).
  \<^item> The IP stack, \<^verbatim>\<open>net/lwip/source\<close>: \<open>Pbuf\<close> (\<^verbatim>\<open>core/pbuf.c\<close>, \<^verbatim>\<open>memp.c\<close>) with its lemmas in \<open>Pbuf_Alloc\<close>, \<open>Pbuf_Data\<close> and \<open>Pbuf_Search\<close>; \<open>Inet\<close> and \<open>Ip_Addr\<close>
    (\<^verbatim>\<open>core/def.c\<close>, \<^verbatim>\<open>core/ipv4/inet_chksum.c\<close>, \<^verbatim>\<open>ip_addr.c\<close>); \<open>Netif\<close> (\<^verbatim>\<open>core/netif.c\<close>, \<^verbatim>\<open>ip_route\<close>); \<open>Etharp\<close> (\<^verbatim>\<open>netif/etharp.c\<close>) with \<open>Arp_Table\<close>, \<open>Arp_Run\<close> and
    \<open>Arp_Exchange\<close>; \<open>Udp\<close> (the control blocks of \<^verbatim>\<open>core/udp.c\<close>) with \<open>Udp_Ports\<close> and \<open>Udp_Runs\<close>; \<open>Ip\<close> (\<^verbatim>\<open>core/ipv4/ip.c\<close>, \<^verbatim>\<open>icmp.c\<close>, sending and receiving of \<^verbatim>\<open>udp.c\<close>,
    \<^verbatim>\<open>ethernet_input\<close>) with \<open>Datagram\<close> and \<open>Ping\<close>. \<open>Packet_Fields\<close> has the lemmas on headers as sequences of fields, \<open>Frames\<close> the locale \<open>outside_packets\<close>, which gives a component the
    frame conditions of the kernel below it; it is interpreted for the ARP table.
  \<^item> \<open>Netport\<close> (\<^verbatim>\<open>net/port\<close>), \<open>Socket\<close> (\<^verbatim>\<open>net/socket\<close>), \<open>Ssl_Msg\<close> (\<^verbatim>\<open>net/ssl\<close>).

  \<^bold>\<open>State.\<close> One record is extended from component to component: \<open>kernel\<close> with the scheduler and the objects, then the heap, the timers, the signals and so on up to \<open>arpkernel\<close> and
  \<open>ipkernel\<close> with the variables of the IP stack. The operations are polymorphic in the extension, so that an operation of a lower layer applies to the state of every higher one. C objects
  are in typed stores, functions from addresses to records; bytes (strings, message and packet contents) are in the byte memory \<open>mem8\<close>, so that aliasing between them is visible. Words have
  the width of the C types and wrap around.

  \<^bold>\<open>Effects and errors.\<close> State is passed explicitly. A result \<open>None\<close> means that the call does not return: a failed \<^verbatim>\<open>ASSERT_KERNEL\<close>, undefined behaviour or an endless loop; that a call
  returns is therefore a theorem. Loops whose end depends on the state are \<^theory_text>\<open>partial_function (option)\<close>, so no fuel is needed. Error codes are values. An uninitialised result is an
  argument or an option. Blocking calls retry until they succeed, as the code does; what the other threads do in the meantime is an argument (\<open>meanwhile\<close> and the like), restricted only where a
  theorem says so. The board is the STM32F746G-DISCO: 32-bit addresses, little endian, \<^verbatim>\<open>char\<close> unsigned, checksums of the IP stack by the hardware.

  \<^bold>\<open>Parameters.\<close> Functions called through pointers and code outside the model are members of records: the driver of a shell (\<open>drv\<close>), the commands (\<open>call\<close>), the network controller and
  the protocols of lwIP that are not modelled (\<open>lwip\<close>, \<open>tcpip\<close>, \<open>netenv\<close>, \<open>ipenv\<close>), the conversion of floating-point numbers (\<open>flt\<close>).

  \<^bold>\<open>What is shown.\<close>
  \<^item> Scheduler: every operation implements its counterpart on abstract queues; the running thread is one of the highest ready priority, also after ticks, except between the creation of a thread of higher priority and the
    next scheduling point; time slices, sleep times and the order among equals are exact; a context that gets the processor back finds r4 to r11, its stack pointer and its stack frame as it left them, provided
    that the current thread does not enter or leave a signal handler in between (where the code saves contexts to the wrong field).
  \<^item> Synchronisation: mutual exclusion, no lost thread and no stuck kernel in every reachable state of \<open>Kernel_System\<close>; behaviour of locking, unlocking, waiting and posting; what the
    retries of a lock end in (that a blocked caller is woken in the end depends on the other threads and is not claimed); the value of a semaphore stays in its bounds; a sleeper wakes at its tick.
  \<^item> Heap: a block that is returned overlaps no other; when an allocation fails; freeing merges back to the heap before. Threads: creation registers a thread that starts at its
    entry. Timers expire with their period, signals reach their handler, an object that was created is found again, message queues and the ring buffer implement bounded queues.
  \<^item> Shell: input never writes outside the rows, and editing implements an abstract line editor. Start: the tables run in their order, each entry once.
  \<^item> IP stack: packets are freed exactly when no reference is left; bytes put into a packet come out; the checksum is that of RFC 1071 for every alignment and split; addresses round-trip
    through text; a route is the first interface that fits. The ARP table is well formed in all reachable states as long as its calls are not interleaved (as lwIP demands and this port does not ensure), recycles entries in the documented order, forgets them in
    bounded time, implements a finite map; a query sends the request, a request is answered, and an answer sends the packet that waited. UDP ports are exclusive, the receiver of a datagram is determined, and a datagram travels from \<^verbatim>\<open>udp_sendto_if\<close> through
    \<^verbatim>\<open>ethernet_input\<close> to the receive function of its receiver with its bytes, address and port. An
    echo request is answered by the reply of ICMP.

  \<^bold>\<open>Not modelled.\<close> Vendored libraries that the system only calls (CMSIS, the chip libraries, FatFs, cJSON); the rest of lwIP (TCP, DHCP, DNS, raw sockets, fragmentation and reassembly, the
  sequential interface, PPP); board support and applications, which configure hardware registers; floating point in \<^verbatim>\<open>printf\<close>; \<^verbatim>\<open>shell_dev_create\<close>, which does not compile.
\<close>

end
